(* ===== verification/Prelude.thy ===== *)
theory Prelude
  imports Main "HOL-Library.Word" "HOL-Library.Monad_Syntax"
begin

section \<open>Shared vocabulary: C values, partial C code, byte encodings\<close>

text \<open>
  What the components share.

  \<^item> The machine integers of \<^verbatim>\<open>ccan/short_types\<close> are words of their width; \<open>size_t\<close> is
    64 bits wide, as on the platform the daemon is built for.
  \<^item> C code that may not return (an \<^verbatim>\<open>assert\<close> that fails, an \<^verbatim>\<open>abort()\<close>, a read through a
    NULL pointer or past the end of an array, an endless walk) is a function into \<open>option\<close>:
    \<open>None\<close> is a process that does not get past this point, \<open>Some r\<close> a normal return
    of \<open>r\<close>. Error codes which the code returns are values, never \<open>None\<close>.
  \<^item> \<open>le16\<close>, \<open>le32\<close> fields are stored in memory in little-endian order; \<open>nat_le\<close> and
    \<open>le_nat\<close> are the two directions of that encoding, with their round trips.
\<close>

unbundle bit_operations_syntax

type_synonym u8 = "8 word"
type_synonym u16 = "16 word"
type_synonym u32 = "32 word"
type_synonym u64 = "64 word"
type_synonym size_t = "64 word"
type_synonym bytes = "8 word list"

named_theorems c_simps \<open>unfolding rules of the C vocabulary\<close>
named_theorems enc_len \<open>lengths of encoded structures\<close>

subsection \<open>Partial code\<close>

definition c_assert :: "bool \<Rightarrow> unit option" where
  "c_assert b = (if b then Some () else None)"

definition c_abort :: "'a option" where
  "c_abort = None"

definition c_nth :: "'a list \<Rightarrow> nat \<Rightarrow> 'a option" where
  \<comment> \<open>array read: \<open>None\<close> outside of the array\<close>
  "c_nth xs i = (if i < length xs then Some (xs ! i) else None)"

definition c_slice :: "'a list \<Rightarrow> nat \<Rightarrow> nat \<Rightarrow> 'a list option" where
  \<comment> \<open>\<open>len\<close> elements from \<open>off\<close>: \<open>None\<close> when they are not all there\<close>
  "c_slice xs off len =
     (if off + len \<le> length xs then Some (take len (drop off xs)) else None)"

subsection \<open>Little-endian and big-endian byte strings\<close>

fun nat_le :: "nat \<Rightarrow> nat \<Rightarrow> bytes" where
  "nat_le 0 x = []"
| "nat_le (Suc n) x = word_of_nat (x mod 256) # nat_le n (x div 256)"

fun le_nat :: "bytes \<Rightarrow> nat" where
  "le_nat [] = 0"
| "le_nat (b # bs) = unat b + 256 * le_nat bs"

definition be_nat :: "bytes \<Rightarrow> nat" where
  "be_nat bs = le_nat (rev bs)"

definition nat_be :: "nat \<Rightarrow> nat \<Rightarrow> bytes" where
  "nat_be n x = rev (nat_le n x)"

definition cpu_to_le16 :: "u16 \<Rightarrow> bytes" where
  "cpu_to_le16 x = nat_le 2 (unat x)"

definition cpu_to_le32 :: "u32 \<Rightarrow> bytes" where
  "cpu_to_le32 x = nat_le 4 (unat x)"

definition le16_to_cpu :: "bytes \<Rightarrow> u16" where
  "le16_to_cpu bs = word_of_nat (le_nat bs)"

definition le32_to_cpu :: "bytes \<Rightarrow> u32" where
  "le32_to_cpu bs = word_of_nat (le_nat bs)"

definition rd8 :: "bytes \<Rightarrow> nat \<Rightarrow> u8 option" where
  "rd8 buf off = c_nth buf off"

definition rd16 :: "bytes \<Rightarrow> nat \<Rightarrow> u16 option" where
  "rd16 buf off = map_option le16_to_cpu (c_slice buf off 2)"

definition rd32 :: "bytes \<Rightarrow> nat \<Rightarrow> u32 option" where
  "rd32 buf off = map_option le32_to_cpu (c_slice buf off 4)"

subsection \<open>memcmp\<close>

text \<open>
  \<^verbatim>\<open>memcmp\<close> on two byte strings of the same length: the difference of the first two bytes
  that differ. Only its sign is specified, so the model returns -1, 0 or 1.
\<close>

fun memcmp :: "bytes \<Rightarrow> bytes \<Rightarrow> int" where
  "memcmp [] _ = 0"
| "memcmp _ [] = 0"
| "memcmp (x # xs) (y # ys) =
     (if x < y then -1 else if y < x then 1 else memcmp xs ys)"

subsection \<open>Loops over lists\<close>

fun ofold :: "('a \<Rightarrow> 's \<Rightarrow> 's option) \<Rightarrow> 'a list \<Rightarrow> 's \<Rightarrow> 's option" where
  \<comment> \<open>\<open>list_for_each\<close> with a body that changes the state \<open>s\<close> and may not return\<close>
  "ofold f [] s = Some s"
| "ofold f (x # xs) s = do { s1 \<leftarrow> f x s; ofold f xs s1 }"

subsection \<open>Facts on the vocabulary\<close>

lemma c_assert_eq_Some [simp]: "c_assert b = Some u \<longleftrightarrow> b"
  by (simp add: c_assert_def)

lemma c_assert_True [simp]: "c_assert True = Some ()"
  by (simp add: c_assert_def)

lemma c_assert_False [simp]: "c_assert False = None"
  by (simp add: c_assert_def)

lemma c_assert_bind [simp]: "(c_assert b \<bind> f) = (if b then f () else None)"
  by (simp add: c_assert_def)

lemma c_abort_eq [simp]: "c_abort = None"
  by (simp add: c_abort_def)

lemma c_nth_eq_Some [simp]: "c_nth xs i = Some x \<longleftrightarrow> i < length xs \<and> xs ! i = x"
  by (auto simp: c_nth_def)

lemma c_nth_in [simp]: "i < length xs \<Longrightarrow> c_nth xs i = Some (xs ! i)"
  by (simp add: c_nth_def)

lemma c_nth_out [simp]: "length xs \<le> i \<Longrightarrow> c_nth xs i = None"
  by (simp add: c_nth_def)

lemma c_slice_eq_Some [simp]:
  "c_slice xs off len = Some ys \<longleftrightarrow> off + len \<le> length xs \<and> ys = take len (drop off xs)"
  by (auto simp: c_slice_def)

lemma c_slice_in: "off + len \<le> length xs \<Longrightarrow> c_slice xs off len = Some (take len (drop off xs))"
  by (simp add: c_slice_def)

lemma c_slice_append:
  "off = length as \<Longrightarrow> len = length bs \<Longrightarrow> c_slice (as @ bs @ cs) off len = Some bs"
  by (simp add: c_slice_def)

lemma length_nat_le [simp, enc_len]: "length (nat_le n x) = n"
  by (induction n arbitrary: x) auto

lemma length_nat_be [simp, enc_len]: "length (nat_be n x) = n"
  by (simp add: nat_be_def)

lemma unat_byte_less [simp]: "unat (b :: u8) < 256"
  using unsigned_less [of b] by simp

lemma unat_u16_less: "unat (x :: u16) < 65536"
  using unsigned_less [of x] by simp

lemma unat_u32_less: "unat (x :: u32) < 4294967296"
  using unsigned_less [of x] by simp

lemma unat_byte_mod: "unat (word_of_nat (x mod 256) :: u8) = x mod 256"
  by (simp add: unat_of_nat)

lemma le_nat_nat_le: "le_nat (nat_le n x) = x mod 256 ^ n"
proof (induction n arbitrary: x)
  case (Suc n)
  have "le_nat (nat_le (Suc n) x) = x mod 256 + 256 * ((x div 256) mod 256 ^ n)"
    by (simp add: Suc unat_byte_mod)
  also have "\<dots> = x mod (256 * 256 ^ n)"
    by (simp add: mod_mult2_eq)
  finally show ?case by simp
qed simp

lemma le_nat_less: "le_nat bs < 256 ^ length bs"
proof (induction bs)
  case (Cons b bs)
  have "unat b + 256 * le_nat bs < 256 * (le_nat bs + 1)"
    using unat_byte_less [of b] by (simp add: algebra_simps)
  also have "\<dots> \<le> 256 * 256 ^ length bs"
    using Cons by simp
  finally show ?case by simp
qed simp

lemma nat_le_le_nat: "nat_le (length bs) (le_nat bs) = bs"
proof (induction bs)
  case (Cons b bs)
  have b: "unat b < 256"
    by simp
  then have "(unat b + 256 * le_nat bs) mod 256 = unat b"
    and "(unat b + 256 * le_nat bs) div 256 = le_nat bs"
    by simp_all
  with Cons show ?case by simp
qed simp

lemma le_nat_append: "le_nat (as @ bs) = le_nat as + 256 ^ length as * le_nat bs"
  by (induction as) (auto simp: algebra_simps)

lemma le_nat_inj: "length as = length bs \<Longrightarrow> le_nat as = le_nat bs \<Longrightarrow> as = bs"
  by (metis nat_le_le_nat)

lemma nat_be_be_nat: "nat_be (length bs) (be_nat bs) = bs"
  using nat_le_le_nat [of "rev bs"] by (simp add: nat_be_def be_nat_def)

lemma be_nat_nat_be: "be_nat (nat_be n x) = x mod 256 ^ n"
  by (simp add: nat_be_def be_nat_def le_nat_nat_le)

lemma be_nat_less: "be_nat bs < 256 ^ length bs"
  using le_nat_less [of "rev bs"] by (simp add: be_nat_def)

lemma length_cpu_to_le [simp, enc_len]:
  "length (cpu_to_le16 x) = 2" "length (cpu_to_le32 y) = 4"
  by (simp_all add: cpu_to_le16_def cpu_to_le32_def)

lemma le16_round [simp]: "le16_to_cpu (cpu_to_le16 x) = x"
  using unat_u16_less [of x] by (simp add: le16_to_cpu_def cpu_to_le16_def le_nat_nat_le)

lemma le32_round [simp]: "le32_to_cpu (cpu_to_le32 x) = x"
  using unat_u32_less [of x] by (simp add: le32_to_cpu_def cpu_to_le32_def le_nat_nat_le)

lemma le16_round2: "length bs = 2 \<Longrightarrow> cpu_to_le16 (le16_to_cpu bs) = bs"
  using le_nat_less [of bs] nat_le_le_nat [of bs]
  by (simp add: le16_to_cpu_def cpu_to_le16_def unat_of_nat)

lemma le32_round2: "length bs = 4 \<Longrightarrow> cpu_to_le32 (le32_to_cpu bs) = bs"
  using le_nat_less [of bs] nat_le_le_nat [of bs]
  by (simp add: le32_to_cpu_def cpu_to_le32_def unat_of_nat)

lemma rd16_append:
  "off = length as \<Longrightarrow> rd16 (as @ cpu_to_le16 x @ cs) off = Some x"
  by (simp add: rd16_def c_slice_append)

lemma rd32_append:
  "off = length as \<Longrightarrow> rd32 (as @ cpu_to_le32 x @ cs) off = Some x"
  by (simp add: rd32_def c_slice_append)

lemma rd8_in [simp]: "off < length buf \<Longrightarrow> rd8 buf off = Some (buf ! off)"
  by (simp add: rd8_def)

lemma rd16_in: "off + 2 \<le> length buf \<Longrightarrow> rd16 buf off = Some (le16_to_cpu (take 2 (drop off buf)))"
  by (simp add: rd16_def c_slice_in)

lemma rd32_in: "off + 4 \<le> length buf \<Longrightarrow> rd32 buf off = Some (le32_to_cpu (take 4 (drop off buf)))"
  by (simp add: rd32_def c_slice_in)

lemma drop_slice_step: "drop off xs = take k (drop off xs) @ drop (off + k) xs"
  by (metis append_take_drop_id drop_drop add.commute)

subsection \<open>memcmp is a total order on byte strings of one length\<close>

lemma memcmp_range: "memcmp a b \<in> {-1, 0, 1}"
  by (induction a b rule: memcmp.induct) auto

lemma memcmp_refl [simp]: "memcmp a a = 0"
  by (induction a) auto

lemma memcmp_antisym: "memcmp b a = - memcmp a b"
proof (induction a b rule: memcmp.induct)
  case (1 uu)
  then show ?case by (cases uu) auto
qed auto

lemma memcmp_eq_0: "length a = length b \<Longrightarrow> memcmp a b = 0 \<longleftrightarrow> a = b"
  by (induction a b rule: memcmp.induct) auto

lemma be_nat_Cons: "be_nat (x # xs) = be_nat xs + 256 ^ length xs * unat x"
  by (simp add: be_nat_def le_nat_append)

lemma be_nat_Cons_less:
  assumes "x < y" and "length xs = length ys"
  shows "be_nat (x # xs) < be_nat (y # ys)"
proof -
  let ?P = "256 ^ length ys :: nat"
  have "unat x + 1 \<le> unat y"
    using assms(1) by (simp add: word_less_nat_alt)
  then have "?P * (unat x + 1) \<le> ?P * unat y"
    by (rule mult_le_mono2)
  moreover have "be_nat xs < ?P"
    using be_nat_less [of xs] assms(2) by simp
  ultimately show ?thesis
    using assms(2) by (simp add: be_nat_Cons algebra_simps)
qed

lemma memcmp_be_nat: "length a = length b \<Longrightarrow> memcmp a b < 0 \<longleftrightarrow> be_nat a < be_nat b"
proof (induction a b rule: memcmp.induct)
  case (3 x xs y ys)
  then have len: "length xs = length ys" by simp
  consider "x < y" | "y < x" | "x = y" by fastforce
  then show ?case
  proof cases
    case 1
    with be_nat_Cons_less [OF 1 len] show ?thesis by simp
  next
    case 2
    with be_nat_Cons_less [OF 2 len [symmetric]] show ?thesis by auto
  next
    case 3
    with "3.IH" len show ?thesis by (simp add: be_nat_Cons)
  qed
qed auto

lemma memcmp_le_be_nat: "length a = length b \<Longrightarrow> memcmp a b \<le> 0 \<longleftrightarrow> be_nat a \<le> be_nat b"
  using memcmp_be_nat [of b a] memcmp_antisym [of a b] by auto

lemma be_nat_inj: "length a = length b \<Longrightarrow> be_nat a = be_nat b \<Longrightarrow> a = b"
  by (metis nat_be_be_nat)

subsection \<open>Loops over lists\<close>

lemma ofold_mono [partial_function_mono]:
  assumes "\<And>x s. mono_option (\<lambda>f. B f x s)"
  shows "mono_option (\<lambda>f. ofold (\<lambda>x s. B f x s) xs s)"
proof (induction xs arbitrary: s)
  case Nil
  then show ?case by (simp add: option.const_mono)
next
  case (Cons x xs)
  then show ?case using assms by (simp add: bind_mono)
qed

lemma ofold_append [simp]: "ofold f (xs @ ys) s = (ofold f xs s \<bind> ofold f ys)"
  by (induction xs arbitrary: s) (auto simp: bind_eq_Some_conv split: Option.bind_split)

lemma ofold_cong [fundef_cong]:
  "xs = ys \<Longrightarrow> s = t \<Longrightarrow> (\<And>x s. x \<in> set ys \<Longrightarrow> f x s = g x s) \<Longrightarrow> ofold f xs s = ofold g ys t"
proof (induction ys arbitrary: xs s t)
  case (Cons y ys)
  then show ?case by (auto intro!: Option.bind_cong)
qed simp

lemma ofold_total:
  assumes "\<And>x s. x \<in> set xs \<Longrightarrow> I s \<Longrightarrow> \<exists>s'. f x s = Some s' \<and> I s'" "I s"
  shows "\<exists>s'. ofold f xs s = Some s' \<and> I s'"
  using assms
proof (induction xs arbitrary: s)
  case (Cons x xs)
  then obtain s1 where "f x s = Some s1" "I s1" by (meson list.set_intros(1))
  then show ?case using Cons.IH[of s1] Cons.prems(1) by simp
qed simp

subsection \<open>Labelled runs and forward simulation\<close>

inductive steps :: "('s \<Rightarrow> 'e \<Rightarrow> 's \<Rightarrow> bool) \<Rightarrow> 's \<Rightarrow> 'e list \<Rightarrow> 's \<Rightarrow> bool" for step where
  steps_Nil: "steps step s [] s"
| steps_snoc: "steps step s es s1 \<Longrightarrow> step s1 e s2 \<Longrightarrow> steps step s (es @ [e]) s2"

text \<open>
  The contract between a component and its specification: every step from a state of the
  invariant keeps the invariant and is, through the abstraction, a step of the specification
  with the same label.
\<close>

locale simulation =
  fixes step :: "'s \<Rightarrow> 'e \<Rightarrow> 's \<Rightarrow> bool"
    and inv :: "'s \<Rightarrow> bool"
    and absf :: "'s \<Rightarrow> 'a"
    and spec :: "'a \<Rightarrow> 'e \<Rightarrow> 'a \<Rightarrow> bool"
  assumes sim: "inv s \<Longrightarrow> step s e s' \<Longrightarrow> inv s' \<and> spec (absf s) e (absf s')"
begin

lemma run: "steps step s es s' \<Longrightarrow> inv s \<Longrightarrow> inv s' \<and> steps spec (absf s) es (absf s')"
  by (induction rule: steps.induct) (auto intro: steps.intros dest: sim)

lemma run_inv: "steps step s es s' \<Longrightarrow> inv s \<Longrightarrow> inv s'"
  using run by blast

end

lemma bind_SomeE: "x \<bind> f = Some r \<Longrightarrow> (\<And>a. x = Some a \<Longrightarrow> f a = Some r \<Longrightarrow> P) \<Longrightarrow> P"
  by (cases x) auto

lemma ofold_keeps:
  assumes "\<And>y s s'. y \<in> set xs \<Longrightarrow> I s \<Longrightarrow> f y s = Some s' \<Longrightarrow> I s'" "I s" "ofold f xs s = Some s'"
  shows "I s'"
  using assms
proof (induction xs arbitrary: s)
  case (Cons y ys)
  then show ?case by (auto simp: bind_eq_Some_conv)
qed simp

lemma filter_update:
  assumes "i < length xs"
  shows "length (filter P (xs[i := v])) + (if P (xs ! i) then 1 else 0) = length (filter P xs) + (if P v then 1 else 0)"
  using assms
proof (induction xs arbitrary: i)
  case (Cons x xs)
  then show ?case by (cases i) auto
qed simp

end
