(* ===== verification/Openssl.thy ===== *)
theory Openssl
  imports Prelude
begin

section \<open>The OpenSSL interface\<close>

text \<open>
  The daemon calls OpenSSL for hashing, for ECDSA and for big numbers. That code is not part
  of the repository, so it is a parameter of the model: a record of the functions the sources
  call, passed as the first argument of every definition that uses one of them.

  A BIGNUM is the natural number it holds (the sources never make a negative one). A call that
  reports failure through its return value is a function into \<open>option\<close>. \<^verbatim>\<open>SHA256_Init\<close>,
  \<^verbatim>\<open>SHA256_Update\<close> and \<^verbatim>\<open>SHA256_Final\<close> together hash the concatenation of what was passed to
  the updates: \<open>SHA256\<close> is that one-shot function.

  \<open>digest_ok\<close> and \<open>bn_ok\<close> state what the OpenSSL manual pages promise. \<open>model_openssl\<close> is
  an instance of the interface, used to evaluate examples.
\<close>

record openssl =
  SHA256 :: "bytes \<Rightarrow> bytes"
  RIPEMD160 :: "bytes \<Rightarrow> bytes"
  o2i_ECPublicKey :: "bytes \<Rightarrow> bool"
  i2o_ECPublicKey :: "nat \<Rightarrow> bytes"
  ECDSA_do_verify :: "bytes \<Rightarrow> nat \<times> nat \<Rightarrow> bytes \<Rightarrow> int"
  ECDSA_do_sign :: "bytes \<Rightarrow> nat \<Rightarrow> (nat \<times> nat) option"
  EC_GROUP_get_order :: nat
  BN_set_word :: "nat \<Rightarrow> nat option"
  BN_get_word :: "nat \<Rightarrow> nat"
  BN_lshift :: "nat \<Rightarrow> int \<Rightarrow> nat option"
  BN_rshift :: "nat \<Rightarrow> int \<Rightarrow> nat option"
  BN_add :: "nat \<Rightarrow> nat \<Rightarrow> nat option"
  BN_add_word :: "nat \<Rightarrow> nat \<Rightarrow> nat option"
  BN_mul_word :: "nat \<Rightarrow> nat \<Rightarrow> nat option"
  BN_div_word :: "nat \<Rightarrow> nat \<Rightarrow> (nat \<times> nat) option"
  BN_mod_word :: "nat \<Rightarrow> nat \<Rightarrow> nat"
  BN_div :: "nat \<Rightarrow> nat \<Rightarrow> nat option"
  BN_num_bytes :: "nat \<Rightarrow> nat"
  BN_bin2bn :: "bytes \<Rightarrow> nat option"
  BN_bn2bin :: "nat \<Rightarrow> bytes"
  BN_cmp :: "nat \<Rightarrow> nat \<Rightarrow> int"

definition digest_ok :: "openssl \<Rightarrow> bool" where
  "digest_ok ssl \<longleftrightarrow>
     (\<forall>bs. length (SHA256 ssl bs) = 32) \<and> (\<forall>bs. length (RIPEMD160 ssl bs) = 20)"

definition num_bytes :: "nat \<Rightarrow> nat" where
  \<comment> \<open>the least number of bytes that hold \<open>n\<close>\<close>
  "num_bytes n = (LEAST k. n < 256 ^ k)"

definition bn_cmp_spec :: "nat \<Rightarrow> nat \<Rightarrow> int" where
  "bn_cmp_spec a b = (if a < b then -1 else if a = b then 0 else 1)"

text \<open>
  What a big-number call returns when it succeeds, and that it does succeed: memory
  allocation is the only failure the manual names for the calls used here (division by zero
  apart), and the daemon exits on it.
\<close>

definition bn_ok :: "openssl \<Rightarrow> bool" where
  "bn_ok ssl \<longleftrightarrow>
     (\<forall>w < 2 ^ 64. BN_set_word ssl w = Some w) \<and>
     (\<forall>n < 2 ^ 64. BN_get_word ssl n = n) \<and>
     (\<forall>n k. 0 \<le> k \<longrightarrow> BN_lshift ssl n k = Some (n * 2 ^ nat k)) \<and>
     (\<forall>n k. 0 \<le> k \<longrightarrow> BN_rshift ssl n k = Some (n div 2 ^ nat k)) \<and>
     (\<forall>a b. BN_add ssl a b = Some (a + b)) \<and>
     (\<forall>a. \<forall>w < 2 ^ 64. BN_add_word ssl a w = Some (a + w)) \<and>
     (\<forall>a. \<forall>w < 2 ^ 64. BN_mul_word ssl a w = Some (a * w)) \<and>
     (\<forall>a w. 0 < w \<longrightarrow> w < 2 ^ 64 \<longrightarrow> BN_div_word ssl a w = Some (a div w, a mod w)) \<and>
     (\<forall>a w. 0 < w \<longrightarrow> w < 2 ^ 64 \<longrightarrow> BN_mod_word ssl a w = a mod w) \<and>
     (\<forall>a b. 0 < b \<longrightarrow> BN_div ssl a b = Some (a div b)) \<and>
     (\<forall>n. BN_num_bytes ssl n = num_bytes n) \<and>
     (\<forall>bs. BN_bin2bn ssl bs = Some (be_nat bs)) \<and>
     (\<forall>n. BN_bn2bin ssl n = nat_be (num_bytes n) n) \<and>
     (\<forall>a b. BN_cmp ssl a b = bn_cmp_spec a b)"

lemma bn_okD:
  assumes "bn_ok ssl"
  shows "w < 2 ^ 64 \<Longrightarrow> BN_set_word ssl w = Some w"
    and "n < 2 ^ 64 \<Longrightarrow> BN_get_word ssl n = n"
    and "0 \<le> k \<Longrightarrow> BN_lshift ssl n k = Some (n * 2 ^ nat k)"
    and "0 \<le> k \<Longrightarrow> BN_rshift ssl n k = Some (n div 2 ^ nat k)"
    and "BN_add ssl a b = Some (a + b)"
    and "w < 2 ^ 64 \<Longrightarrow> BN_add_word ssl a w = Some (a + w)"
    and "w < 2 ^ 64 \<Longrightarrow> BN_mul_word ssl a w = Some (a * w)"
    and "0 < w \<Longrightarrow> w < 2 ^ 64 \<Longrightarrow> BN_div_word ssl a w = Some (a div w, a mod w)"
    and "0 < w \<Longrightarrow> w < 2 ^ 64 \<Longrightarrow> BN_mod_word ssl a w = a mod w"
    and "0 < b \<Longrightarrow> BN_div ssl a b = Some (a div b)"
    and "BN_num_bytes ssl n = num_bytes n"
    and "BN_bin2bn ssl bs = Some (be_nat bs)"
    and "BN_bn2bin ssl n = nat_be (num_bytes n) n"
    and "BN_cmp ssl a b = bn_cmp_spec a b"
  using assms unfolding bn_ok_def by simp_all

lemma digest_okD [simp]:
  "digest_ok ssl \<Longrightarrow> length (SHA256 ssl bs) = 32"
  "digest_ok ssl \<Longrightarrow> length (RIPEMD160 ssl bs) = 20"
  by (auto simp: digest_ok_def)

lemma num_bytes_ex: "\<exists>k. (n :: nat) < 256 ^ k"
proof
  have "n < 2 ^ n" by (rule less_exp)
  also have "(2 :: nat) ^ n \<le> 256 ^ n" by (rule power_mono) auto
  finally show "n < 256 ^ n" .
qed

lemma num_bytes_gt: "n < 256 ^ num_bytes n"
  unfolding num_bytes_def using num_bytes_ex by (rule LeastI_ex)

lemma num_bytes_le: "n < 256 ^ k \<Longrightarrow> num_bytes n \<le> k"
  unfolding num_bytes_def by (rule Least_le)

lemma num_bytes_ge: "256 ^ k \<le> n \<Longrightarrow> k < num_bytes n"
proof (rule ccontr)
  assume "256 ^ k \<le> n" and "\<not> k < num_bytes n"
  then have "256 ^ num_bytes n \<le> (256 :: nat) ^ k"
    by (intro power_increasing) auto
  with num_bytes_gt [of n] \<open>256 ^ k \<le> n\<close> show False by simp
qed

lemma num_bytes_eq: "256 ^ k \<le> n \<Longrightarrow> n < 256 ^ Suc k \<Longrightarrow> num_bytes n = Suc k"
  using num_bytes_ge [of k n] num_bytes_le [of n "Suc k"] by simp

lemma num_bytes_0 [simp]: "num_bytes 0 = 0"
  using num_bytes_le [of 0 0] by simp

lemma num_bytes_rec: "n \<noteq> 0 \<Longrightarrow> num_bytes n = Suc (num_bytes (n div 256))"
proof -
  assume "n \<noteq> 0"
  show ?thesis
  proof (rule le_antisym)
    have "n < 256 * 256 ^ num_bytes (n div 256)"
      using num_bytes_gt [of "n div 256"] by (simp add: less_mult_imp_div_less div_less_iff_less_mult mult.commute)
    then show "num_bytes n \<le> Suc (num_bytes (n div 256))"
      by (intro num_bytes_le) simp
    from \<open>n \<noteq> 0\<close> obtain k where k: "num_bytes n = Suc k"
      using num_bytes_gt [of n] by (cases "num_bytes n") auto
    then have "n div 256 < 256 ^ k"
      using num_bytes_gt [of n] by (simp add: div_less_iff_less_mult mult.commute)
    then have "num_bytes (n div 256) \<le> k" by (rule num_bytes_le)
    with k show "Suc (num_bytes (n div 256)) \<le> num_bytes n" by simp
  qed
qed

subsection \<open>An instance\<close>

text \<open>
  Big numbers compute; the digest is the last 32 bytes of a padded input mixed with its
  length, which is enough to run the definitions on examples. It is no cryptographic hash and
  no theorem depends on it beyond the witnesses.
\<close>

fun model_num_bytes :: "nat \<Rightarrow> nat" where
  "model_num_bytes n = (if n = 0 then 0 else Suc (model_num_bytes (n div 256)))"

declare model_num_bytes.simps [simp del]

definition model_digest :: "nat \<Rightarrow> bytes \<Rightarrow> bytes" where
  "model_digest k bs = nat_le k (le_nat bs + 7 * length bs)"

definition model_openssl :: openssl where
  "model_openssl =
     \<lparr>SHA256 = model_digest 32, RIPEMD160 = model_digest 20,
      o2i_ECPublicKey = (\<lambda>_. True), i2o_ECPublicKey = nat_be 33,
      ECDSA_do_verify = (\<lambda>h rs k. 1), 
      ECDSA_do_sign = (\<lambda>h k. Some (be_nat h mod (2 ^ 256 - 1), k mod (2 ^ 256 - 1))),
      EC_GROUP_get_order = 2 ^ 256 - 1,
      BN_set_word = Some, BN_get_word = id,
      BN_lshift = (\<lambda>n k. if k < 0 then None else Some (n * 2 ^ nat k)),
      BN_rshift = (\<lambda>n k. if k < 0 then None else Some (n div 2 ^ nat k)),
      BN_add = (\<lambda>a b. Some (a + b)), BN_add_word = (\<lambda>a b. Some (a + b)),
      BN_mul_word = (\<lambda>a b. Some (a * b)),
      BN_div_word = (\<lambda>a b. if b = 0 then None else Some (a div b, a mod b)),
      BN_mod_word = (\<lambda>a b. a mod b),
      BN_div = (\<lambda>a b. if b = 0 then None else Some (a div b)),
      BN_num_bytes = model_num_bytes, BN_bin2bn = (\<lambda>bs. Some (be_nat bs)),
      BN_bn2bin = (\<lambda>n. nat_be (model_num_bytes n) n), BN_cmp = bn_cmp_spec\<rparr>"

lemma model_num_bytes_eq [simp]: "model_num_bytes n = num_bytes n"
proof (induction n rule: model_num_bytes.induct)
  case (1 n)
  then show ?case
    using model_num_bytes.simps [of n] num_bytes_rec [of n] by (cases "n = 0") simp_all
qed

lemma digest_ok_model: "digest_ok model_openssl"
  by (simp add: digest_ok_def model_openssl_def model_digest_def)

lemma bn_ok_model: "bn_ok model_openssl"
  by (simp add: bn_ok_def model_openssl_def)

lemma bn_ok_SHA256: "bn_ok ssl \<Longrightarrow> bn_ok (ssl\<lparr>SHA256 := f\<rparr>)"
  by (cases ssl) (hypsubst, unfold bn_ok_def openssl.simps, assumption)

end
