(* ===== verification/Protocol.thy ===== *)
theory Protocol
  imports Openssl
begin

section \<open>Protocol structures and transaction accessors\<close>

text \<open>
  The wire structures of \<^verbatim>\<open>protocol.h\<close>, the error codes of \<^verbatim>\<open>protocol_ecode.h\<close>, the
  accessors of \<^verbatim>\<open>tx.h\<close> and \<^verbatim>\<open>tx.c\<close>, and \<^verbatim>\<open>addr.h\<close>, \<^verbatim>\<open>version.h\<close>.

  A struct is a record; a field of type \<open>le32\<close> holds its value in host order (the byte order
  is in theory \<open>Marshal\<close>). The union \<^verbatim>\<open>protocol_tx\<close> is a datatype with one constructor per
  value of \<^verbatim>\<open>enum protocol_tx_type\<close>, so its low seven type bits are the constructor and the
  upper bit is the flag \<open>tx_fee\<close>; \<open>hdr_type\<close> puts the byte together again. An array which
  follows a struct in memory is a list field of the record, kept beside the count field.
\<close>

subsection \<open>Constants\<close>

definition PROTOCOL_PREV_BLOCK_TXHASHES :: nat where "PROTOCOL_PREV_BLOCK_TXHASHES = 10"
definition PROTOCOL_INITIAL_SHARD_ORDER :: u8 where "PROTOCOL_INITIAL_SHARD_ORDER = 2"
definition PROTOCOL_MAX_SHARD_ORDER :: u8 where "PROTOCOL_MAX_SHARD_ORDER = 16"
definition PROTOCOL_TX_MAX_INPUTS :: u32 where "PROTOCOL_TX_MAX_INPUTS = 4"

definition PROTOCOL_BLOCK_TARGET_TIME :: "bool \<Rightarrow> nat" where
  "PROTOCOL_BLOCK_TARGET_TIME testnet = (if testnet then 10 else 600)"

definition PROTOCOL_TX_HORIZON_SECS :: "bool \<Rightarrow> nat" where
  "PROTOCOL_TX_HORIZON_SECS testnet = PROTOCOL_BLOCK_TARGET_TIME testnet * 60 * 24 * 30"

definition PROTOCOL_DIFFICULTY_UPDATE_BLOCKS :: nat where "PROTOCOL_DIFFICULTY_UPDATE_BLOCKS = 2016"
definition PROTOCOL_FEATURE_VOTE_BLOCKS :: nat where "PROTOCOL_FEATURE_VOTE_BLOCKS = 2016"
definition PROTOCOL_FEATURE_CONFIRM_DELAY :: nat where "PROTOCOL_FEATURE_CONFIRM_DELAY = 2016"
definition PROTOCOL_REWARD_PERIOD :: nat where "PROTOCOL_REWARD_PERIOD = 100"

definition PROTOCOL_MAX_SATOSHI :: u32 where
  "PROTOCOL_MAX_SATOSHI = 0x80000000 div PROTOCOL_TX_MAX_INPUTS"

definition PROTOCOL_FEE :: "u32 \<Rightarrow> u32" where
  "PROTOCOL_FEE x = x * 3 div 1024 + 1"

definition PROTOCOL_REWARD :: "u32 \<Rightarrow> u32 \<Rightarrow> u64" where
  "PROTOCOL_REWARD tot num_tx = ((ucast tot :: u64) * ucast num_tx * 3 + 1024) div 1027"

definition PROTOCOL_FEE_TYPE :: u8 where "PROTOCOL_FEE_TYPE = 0x80"

lemmas protocol_consts [c_simps] =
  PROTOCOL_PREV_BLOCK_TXHASHES_def PROTOCOL_INITIAL_SHARD_ORDER_def PROTOCOL_MAX_SHARD_ORDER_def
  PROTOCOL_TX_MAX_INPUTS_def PROTOCOL_BLOCK_TARGET_TIME_def PROTOCOL_TX_HORIZON_SECS_def
  PROTOCOL_DIFFICULTY_UPDATE_BLOCKS_def PROTOCOL_FEATURE_VOTE_BLOCKS_def
  PROTOCOL_FEATURE_CONFIRM_DELAY_def PROTOCOL_REWARD_PERIOD_def PROTOCOL_MAX_SATOSHI_def
  PROTOCOL_FEE_TYPE_def

subsection \<open>Error codes\<close>

datatype protocol_ecode =
    PROTOCOL_ECODE_NONE
  | PROTOCOL_ECODE_UNKNOWN_COMMAND
  | PROTOCOL_ECODE_INVALID_LEN
  | PROTOCOL_ECODE_SHOULD_BE_WAITING
  | PROTOCOL_ECODE_UNKNOWN_ERRCODE
  | PROTOCOL_ECODE_HIGH_VERSION
  | PROTOCOL_ECODE_LOW_VERSION
  | PROTOCOL_ECODE_NO_INTEREST
  | PROTOCOL_ECODE_WRONG_GENESIS
  | PROTOCOL_ECODE_BAD_SHARD_ORDER
  | PROTOCOL_ECODE_NO_MUTUAL
  | PROTOCOL_ECODE_FILTER_INVALID
  | PROTOCOL_ECODE_UNKNOWN_BLOCK
  | PROTOCOL_ECODE_UNKNOWN_SHARD
  | PROTOCOL_ECODE_UNKNOWN_TX
  | PROTOCOL_ECODE_BAD_TXOFF
  | PROTOCOL_ECODE_BAD_SHARDNUM
  | PROTOCOL_ECODE_BLOCK_HIGH_VERSION
  | PROTOCOL_ECODE_BLOCK_LOW_VERSION
  | PROTOCOL_ECODE_BAD_TIMESTAMP
  | PROTOCOL_ECODE_BAD_PREV_TXHASHES
  | PROTOCOL_ECODE_BAD_DIFFICULTY
  | PROTOCOL_ECODE_INSUFFICIENT_WORK
  | PROTOCOL_ECODE_BAD_DEPTH
  | PROTOCOL_ECODE_TX_HIGH_VERSION
  | PROTOCOL_ECODE_TX_LOW_VERSION
  | PROTOCOL_ECODE_TX_TYPE_UNKNOWN
  | PROTOCOL_ECODE_TX_BAD_GATEWAY
  | PROTOCOL_ECODE_TX_CROSS_SHARDS
  | PROTOCOL_ECODE_TX_TOO_LARGE
  | PROTOCOL_ECODE_TX_TOO_SMALL
  | PROTOCOL_ECODE_TX_BAD_SIG
  | PROTOCOL_ECODE_TX_TOO_MANY_INPUTS
  | PROTOCOL_ECODE_BAD_PROOF
  | PROTOCOL_ECODE_REF_BAD_BLOCKS_AGO
  | PROTOCOL_ECODE_REF_BAD_SHARD
  | PROTOCOL_ECODE_REF_BAD_TXOFF
  | PROTOCOL_ECODE_BAD_MERKLE
  | PROTOCOL_ECODE_COMPLAINT_INVALID
  | PROTOCOL_ECODE_BAD_INPUTNUM
  | PROTOCOL_ECODE_BAD_INPUT
  | PROTOCOL_ECODE_BAD_MISORDER_POS
  | PROTOCOL_ECODE_BAD_DOUBLESPEND_BLOCKS
  | PROTOCOL_ECODE_MAX
  | PROTOCOL_ECODE_PRIV_UNKNOWN_PREV

subsection \<open>Structures\<close>

type_synonym sha = bytes
type_synonym address = bytes
type_synonym pubkey = bytes

record protocol_signature =
  sig_r :: bytes
  sig_s :: bytes

record protocol_block_header =
  bh_version :: u8
  bh_features_vote :: u8
  bh_shard_order :: u8
  bh_nonce2 :: bytes
  bh_prev_block :: sha
  bh_num_prev_txhashes :: u32
  bh_depth :: u32
  bh_fees_to :: address

record protocol_block_tailer =
  bt_timestamp :: u32
  bt_difficulty :: u32
  bt_nonce1 :: u32

datatype protocol_tx_type = TX_NORMAL | TX_FROM_GATEWAY | TX_TO_GATEWAY | TX_CLAIM

fun tx_type_code :: "protocol_tx_type \<Rightarrow> u8" where
  "tx_type_code TX_NORMAL = 0"
| "tx_type_code TX_FROM_GATEWAY = 1"
| "tx_type_code TX_TO_GATEWAY = 2"
| "tx_type_code TX_CLAIM = 3"

record protocol_tx_hdr =
  tx_version :: u8
  tx_fee :: bool
  tx_features :: u8

record protocol_input =
  in_input :: sha
  in_output :: u16
  in_unused :: u16

record protocol_gateway_payment =
  gp_send_amount :: u32
  gp_output_addr :: address

record protocol_tx_normal = protocol_tx_hdr +
  n_input_key :: pubkey
  n_output_addr :: address
  n_send_amount :: u32
  n_change_amount :: u32
  n_num_inputs :: u32
  n_signature :: protocol_signature
  n_inputs :: "protocol_input list"

record protocol_tx_from_gateway = protocol_tx_hdr +
  fg_gateway_key :: pubkey
  fg_num_outputs :: u16
  fg_unused :: u16
  fg_signature :: protocol_signature
  fg_outputs :: "protocol_gateway_payment list"

record protocol_tx_to_gateway = protocol_tx_hdr +
  tg_input_key :: pubkey
  tg_to_gateway_addr :: address
  tg_send_amount :: u32
  tg_change_amount :: u32
  tg_num_inputs :: u32
  tg_signature :: protocol_signature
  tg_inputs :: "protocol_input list"

record protocol_tx_claim = protocol_tx_hdr +
  c_input_key :: pubkey
  c_amount :: u32
  c_input :: protocol_input
  c_signature :: protocol_signature

datatype protocol_tx =
    Normal protocol_tx_normal
  | From_gateway protocol_tx_from_gateway
  | To_gateway protocol_tx_to_gateway
  | Claim protocol_tx_claim

record protocol_input_ref =
  ref_blocks_ago :: u32
  ref_shard :: u16
  ref_txoff :: u8
  ref_unused :: u8

record protocol_position =
  pos_block :: sha
  pos_shard :: u16
  pos_txoff :: u8
  pos_unused :: u8

record protocol_proof =
  pr_pos :: protocol_position
  pr_merkles :: "sha list"

record protocol_txrefhash =
  trh_txhash :: sha
  trh_refhash :: sha

subsection \<open>Versions\<close>

definition current_version :: u8 where "current_version = 1"

definition version_ok :: "u8 \<Rightarrow> bool" where "version_ok version = (version = current_version)"

subsection \<open>Transaction accessors\<close>

definition pubkey_to_addr :: "openssl \<Rightarrow> pubkey \<Rightarrow> address" where
  "pubkey_to_addr ssl key = RIPEMD160 ssl (SHA256 ssl key)"

fun tx_type :: "protocol_tx \<Rightarrow> protocol_tx_type" where
  "tx_type (Normal _) = TX_NORMAL"
| "tx_type (From_gateway _) = TX_FROM_GATEWAY"
| "tx_type (To_gateway _) = TX_TO_GATEWAY"
| "tx_type (Claim _) = TX_CLAIM"

fun hdr_version :: "protocol_tx \<Rightarrow> u8" where
  "hdr_version (Normal t) = tx_version t"
| "hdr_version (From_gateway t) = tx_version t"
| "hdr_version (To_gateway t) = tx_version t"
| "hdr_version (Claim t) = tx_version t"

fun tx_pays_fee :: "protocol_tx \<Rightarrow> bool" where
  "tx_pays_fee (Normal t) = tx_fee t"
| "tx_pays_fee (From_gateway t) = tx_fee t"
| "tx_pays_fee (To_gateway t) = tx_fee t"
| "tx_pays_fee (Claim t) = tx_fee t"

definition hdr_type :: "protocol_tx \<Rightarrow> u8" where
  "hdr_type tx =
     (if tx_pays_fee tx then tx_type_code (tx_type tx) OR PROTOCOL_FEE_TYPE
      else tx_type_code (tx_type tx))"

fun num_inputs :: "protocol_tx \<Rightarrow> u32" where
  "num_inputs (Normal t) = n_num_inputs t"
| "num_inputs (From_gateway t) = 0"
| "num_inputs (To_gateway t) = tg_num_inputs t"
| "num_inputs (Claim t) = 1"

fun num_outputs :: "protocol_tx \<Rightarrow> u32" where
  "num_outputs (Normal t) = 2"
| "num_outputs (From_gateway t) = ucast (fg_num_outputs t)"
| "num_outputs (To_gateway t) = 0"
| "num_outputs (Claim t) = 1"

fun get_tx_input_address :: "openssl \<Rightarrow> protocol_tx \<Rightarrow> address option" where
  "get_tx_input_address ssl (Normal t) = Some (pubkey_to_addr ssl (n_input_key t))"
| "get_tx_input_address ssl (From_gateway t) = c_abort"
| "get_tx_input_address ssl (To_gateway t) = Some (pubkey_to_addr ssl (tg_input_key t))"
| "get_tx_input_address ssl (Claim t) = Some (pubkey_to_addr ssl (c_input_key t))"

definition get_from_gateway_outputs :: "protocol_tx_from_gateway \<Rightarrow> protocol_gateway_payment list" where
  "get_from_gateway_outputs t = fg_outputs t"

text \<open>\<open>tx_input\<close> returns NULL (\<open>None\<close>) for an input the transaction does not have.\<close>

fun tx_input :: "protocol_tx \<Rightarrow> nat \<Rightarrow> protocol_input option" where
  "tx_input (Normal t) num = (if unat (n_num_inputs t) \<le> num then None else c_nth (n_inputs t) num)"
| "tx_input (To_gateway t) num =
     (if unat (tg_num_inputs t) \<le> num then None else c_nth (tg_inputs t) num)"
| "tx_input (From_gateway t) num = None"
| "tx_input (Claim t) num = (if 1 \<le> num then None else Some (c_input t))"

text \<open>
  The outer \<open>option\<close> of \<open>find_output\<close> is \<open>None\<close> when the code reads past the outputs; the
  inner one is the \<^verbatim>\<open>bool\<close> result with the two out-parameters.
\<close>

fun find_output :: "openssl \<Rightarrow> protocol_tx \<Rightarrow> u16 \<Rightarrow> (address \<times> u32) option option" where
  "find_output ssl (From_gateway t) output_num =
     (if output_num > fg_num_outputs t then Some None
      else do { out \<leftarrow> c_nth (get_from_gateway_outputs t) (unat output_num);
                Some (Some (gp_output_addr out, gp_send_amount out)) })"
| "find_output ssl (Normal t) output_num =
     (if output_num = 0 then Some (Some (n_output_addr t, n_send_amount t))
      else if output_num = 1 then do { addr \<leftarrow> get_tx_input_address ssl (Normal t);
                                       Some (Some (addr, n_change_amount t)) }
      else Some None)"
| "find_output ssl (Claim t) output_num =
     (if output_num = 0 then do { addr \<leftarrow> get_tx_input_address ssl (Claim t);
                                  Some (Some (addr, c_amount t)) }
      else Some None)"
| "find_output ssl (To_gateway t) output_num = Some None"

function find_matching_input_from :: "protocol_tx \<Rightarrow> protocol_input \<Rightarrow> nat \<Rightarrow> nat option" where
  "find_matching_input_from tx inp i =
     (if i < unat (num_inputs tx) then
        do { ti \<leftarrow> tx_input tx i;
             if in_input ti = in_input inp \<and> in_output ti = in_output inp then Some i
             else find_matching_input_from tx inp (Suc i) }
      else c_abort)"
  by pat_completeness auto
termination
  by (relation "measure (\<lambda>(tx, inp, i). unat (num_inputs tx) - i)") auto

declare find_matching_input_from.simps [simp del]

definition find_matching_input :: "protocol_tx \<Rightarrow> protocol_input \<Rightarrow> nat option" where
  "find_matching_input tx inp = find_matching_input_from tx inp 0"

fun sum_outputs :: "protocol_gateway_payment list \<Rightarrow> nat \<Rightarrow> u32 option" where
  "sum_outputs outs 0 = Some 0"
| "sum_outputs outs (Suc i) =
     do { tot \<leftarrow> sum_outputs outs i; out \<leftarrow> c_nth outs i; Some (tot + gp_send_amount out) }"

fun tx_amount_sent :: "protocol_tx \<Rightarrow> u32 option" where
  "tx_amount_sent (Normal t) = Some (n_send_amount t + n_change_amount t)"
| "tx_amount_sent (From_gateway t) =
     sum_outputs (get_from_gateway_outputs t) (unat (fg_num_outputs t))"
| "tx_amount_sent (To_gateway t) = Some (tg_send_amount t + tg_change_amount t)"
| "tx_amount_sent (Claim t) = Some (c_amount t)"

subsection \<open>Well-formed structures\<close>

text \<open>
  What holds of every structure in memory: arrays have their declared lengths, and the array
  after a transaction has as many entries as its count field says.
\<close>

definition wf_signature :: "protocol_signature \<Rightarrow> bool" where
  "wf_signature s \<longleftrightarrow> length (sig_r s) = 32 \<and> length (sig_s s) = 32"

definition wf_input :: "protocol_input \<Rightarrow> bool" where
  "wf_input i \<longleftrightarrow> length (in_input i) = 32"

definition wf_payment :: "protocol_gateway_payment \<Rightarrow> bool" where
  "wf_payment p \<longleftrightarrow> length (gp_output_addr p) = 20"

definition wf_header :: "protocol_block_header \<Rightarrow> bool" where
  "wf_header h \<longleftrightarrow> length (bh_nonce2 h) = 13 \<and> length (bh_prev_block h) = 32
     \<and> length (bh_fees_to h) = 20"

fun wf_tx :: "protocol_tx \<Rightarrow> bool" where
  "wf_tx (Normal t) \<longleftrightarrow>
     length (n_input_key t) = 33 \<and> length (n_output_addr t) = 20 \<and> wf_signature (n_signature t)
     \<and> length (n_inputs t) = unat (n_num_inputs t) \<and> list_all wf_input (n_inputs t)"
| "wf_tx (From_gateway t) \<longleftrightarrow>
     length (fg_gateway_key t) = 33 \<and> wf_signature (fg_signature t)
     \<and> length (fg_outputs t) = unat (fg_num_outputs t) \<and> list_all wf_payment (fg_outputs t)"
| "wf_tx (To_gateway t) \<longleftrightarrow>
     length (tg_input_key t) = 33 \<and> length (tg_to_gateway_addr t) = 20
     \<and> wf_signature (tg_signature t)
     \<and> length (tg_inputs t) = unat (tg_num_inputs t) \<and> list_all wf_input (tg_inputs t)"
| "wf_tx (Claim t) \<longleftrightarrow>
     length (c_input_key t) = 33 \<and> wf_input (c_input t) \<and> wf_signature (c_signature t)"

fun tx_inputs :: "protocol_tx \<Rightarrow> protocol_input list" where
  "tx_inputs (Normal t) = n_inputs t"
| "tx_inputs (From_gateway t) = []"
| "tx_inputs (To_gateway t) = tg_inputs t"
| "tx_inputs (Claim t) = [c_input t]"

subsection \<open>Facts on the accessors\<close>

lemma hdr_type_bits:
  "hdr_type tx AND NOT PROTOCOL_FEE_TYPE = tx_type_code (tx_type tx)"
  "(hdr_type tx AND PROTOCOL_FEE_TYPE \<noteq> 0) = tx_pays_fee tx"
  by (cases tx; simp add: hdr_type_def PROTOCOL_FEE_TYPE_def)+

lemma tx_type_code_inj [simp]: "tx_type_code a = tx_type_code b \<longleftrightarrow> a = b"
  by (cases a; cases b) auto

lemma length_tx_inputs: "wf_tx tx \<Longrightarrow> length (tx_inputs tx) = unat (num_inputs tx)"
  by (cases tx) auto

lemma tx_input_eq:
  "wf_tx tx \<Longrightarrow> tx_input tx i = (if i < unat (num_inputs tx) then Some (tx_inputs tx ! i) else None)"
  by (cases tx) auto

lemma sum_outputs_Some:
  "n \<le> length outs \<Longrightarrow>
   sum_outputs outs n = Some (word_of_nat (sum_list (map (unat \<circ> gp_send_amount) (take n outs))))"
proof (induction n)
  case (Suc n)
  then have "take (Suc n) outs = take n outs @ [outs ! n]"
    by (simp add: take_Suc_conv_app_nth)
  with Suc show ?case by (simp add: Suc_le_eq)
qed simp

lemma tx_amount_sent_total: "wf_tx tx \<Longrightarrow> \<exists>v. tx_amount_sent tx = Some v"
  by (cases tx) (auto simp: sum_outputs_Some get_from_gateway_outputs_def)

end
