(* ===== verification/Marshal.thy ===== *)
theory Marshal
  imports Protocol
begin

section \<open>Memory layout, marshalling and unmarshalling\<close>

text \<open>
  The byte layout of the protocol structures (\<^verbatim>\<open>protocol.h\<close>: the \<open>enc_\<close> functions write a
  structure as it lies in memory, the \<open>dec_\<close> functions and \<open>cast_tx\<close> read one back, as a C
  pointer cast does), the overflow checks of \<^verbatim>\<open>overflows.h\<close>, and the functions of
  \<^verbatim>\<open>marshal.c\<close>. Lengths are \<open>size_t\<close> words, so the overflow checks are the code's own.

  The lemmas show that the overflow predicates are exact, that \<open>unmarshal_tx\<close> reads only
  inside the buffer and accepts precisely the buffers which hold a complete transaction, and
  that transactions and blocks survive a marshal / unmarshal round trip.
\<close>

subsection \<open>Overflow checks\<close>

definition mul_overflows :: "size_t \<Rightarrow> size_t \<Rightarrow> bool" where
  "mul_overflows a b = (if b = 0 then False else a * b div b \<noteq> a)"

definition add_overflows :: "size_t \<Rightarrow> size_t \<Rightarrow> bool" where
  "add_overflows a b = (a + b < b)"

subsection \<open>Structures in memory\<close>

definition slice :: "nat \<Rightarrow> nat \<Rightarrow> bytes \<Rightarrow> bytes" where
  "slice off len bs = take len (drop off bs)"

definition enc_signature :: "protocol_signature \<Rightarrow> bytes" where
  "enc_signature s = sig_r s @ sig_s s"

definition enc_input :: "protocol_input \<Rightarrow> bytes" where
  "enc_input i = in_input i @ cpu_to_le16 (in_output i) @ cpu_to_le16 (in_unused i)"

definition enc_payment :: "protocol_gateway_payment \<Rightarrow> bytes" where
  "enc_payment p = cpu_to_le32 (gp_send_amount p) @ gp_output_addr p"

definition enc_ref :: "protocol_input_ref \<Rightarrow> bytes" where
  "enc_ref r = cpu_to_le32 (ref_blocks_ago r) @ cpu_to_le16 (ref_shard r) @ [ref_txoff r, ref_unused r]"

definition enc_hdr :: "protocol_block_header \<Rightarrow> bytes" where
  "enc_hdr h = [bh_version h, bh_features_vote h, bh_shard_order h] @ bh_nonce2 h @ bh_prev_block h
     @ cpu_to_le32 (bh_num_prev_txhashes h) @ cpu_to_le32 (bh_depth h) @ bh_fees_to h"

definition enc_tailer :: "protocol_block_tailer \<Rightarrow> bytes" where
  "enc_tailer t = cpu_to_le32 (bt_timestamp t) @ cpu_to_le32 (bt_difficulty t)
     @ cpu_to_le32 (bt_nonce1 t)"

fun hdr_features :: "protocol_tx \<Rightarrow> u8" where
  "hdr_features (Normal t) = tx_features t"
| "hdr_features (From_gateway t) = tx_features t"
| "hdr_features (To_gateway t) = tx_features t"
| "hdr_features (Claim t) = tx_features t"

definition enc_tx_hdr :: "protocol_tx \<Rightarrow> bytes" where
  "enc_tx_hdr tx = [hdr_version tx, hdr_type tx, hdr_features tx]"

fun enc_tx :: "protocol_tx \<Rightarrow> bytes" where
  "enc_tx (Normal t) = enc_tx_hdr (Normal t) @ n_input_key t @ n_output_addr t
     @ cpu_to_le32 (n_send_amount t) @ cpu_to_le32 (n_change_amount t)
     @ cpu_to_le32 (n_num_inputs t) @ enc_signature (n_signature t)
     @ concat (map enc_input (n_inputs t))"
| "enc_tx (From_gateway t) = enc_tx_hdr (From_gateway t) @ fg_gateway_key t
     @ cpu_to_le16 (fg_num_outputs t) @ cpu_to_le16 (fg_unused t)
     @ enc_signature (fg_signature t) @ concat (map enc_payment (fg_outputs t))"
| "enc_tx (To_gateway t) = enc_tx_hdr (To_gateway t) @ tg_input_key t @ tg_to_gateway_addr t
     @ cpu_to_le32 (tg_send_amount t) @ cpu_to_le32 (tg_change_amount t)
     @ cpu_to_le32 (tg_num_inputs t) @ enc_signature (tg_signature t)
     @ concat (map enc_input (tg_inputs t))"
| "enc_tx (Claim t) = enc_tx_hdr (Claim t) @ c_input_key t @ cpu_to_le32 (c_amount t)
     @ enc_input (c_input t) @ enc_signature (c_signature t)"

definition dec_signature :: "bytes \<Rightarrow> protocol_signature" where
  "dec_signature bs = \<lparr>sig_r = slice 0 32 bs, sig_s = slice 32 32 bs\<rparr>"

definition dec_input :: "bytes \<Rightarrow> protocol_input" where
  "dec_input bs = \<lparr>in_input = slice 0 32 bs, in_output = le16_to_cpu (slice 32 2 bs),
     in_unused = le16_to_cpu (slice 34 2 bs)\<rparr>"

definition dec_payment :: "bytes \<Rightarrow> protocol_gateway_payment" where
  "dec_payment bs = \<lparr>gp_send_amount = le32_to_cpu (slice 0 4 bs), gp_output_addr = slice 4 20 bs\<rparr>"

definition dec_array :: "(bytes \<Rightarrow> 'a) \<Rightarrow> nat \<Rightarrow> nat \<Rightarrow> nat \<Rightarrow> bytes \<Rightarrow> 'a list" where
  \<comment> \<open>\<open>n\<close> structures of \<open>w\<close> bytes each, from \<open>off\<close> on\<close>
  "dec_array dec w n off bs = map (\<lambda>i. dec (slice (off + i * w) w bs)) [0..<n]"

definition dec_hdr :: "bytes \<Rightarrow> protocol_block_header" where
  "dec_hdr bs = \<lparr>bh_version = bs ! 0, bh_features_vote = bs ! 1, bh_shard_order = bs ! 2,
     bh_nonce2 = slice 3 13 bs, bh_prev_block = slice 16 32 bs,
     bh_num_prev_txhashes = le32_to_cpu (slice 48 4 bs), bh_depth = le32_to_cpu (slice 52 4 bs),
     bh_fees_to = slice 56 20 bs\<rparr>"

definition dec_tailer :: "bytes \<Rightarrow> protocol_block_tailer" where
  "dec_tailer bs = \<lparr>bt_timestamp = le32_to_cpu (slice 0 4 bs),
     bt_difficulty = le32_to_cpu (slice 4 4 bs), bt_nonce1 = le32_to_cpu (slice 8 4 bs)\<rparr>"

text \<open>\<open>tx_type\<close> and \<open>tx_pays_fee\<close> of a transaction that is still a buffer.\<close>

definition type_of_byte :: "u8 \<Rightarrow> u8" where
  "type_of_byte b = b AND NOT PROTOCOL_FEE_TYPE"

definition fee_of_byte :: "u8 \<Rightarrow> bool" where
  "fee_of_byte b = (b AND PROTOCOL_FEE_TYPE \<noteq> 0)"

definition dec_normal :: "bytes \<Rightarrow> protocol_tx_normal" where
  "dec_normal bs = \<lparr>tx_version = bs ! 0, tx_fee = fee_of_byte (bs ! 1), tx_features = bs ! 2,
     n_input_key = slice 3 33 bs, n_output_addr = slice 36 20 bs,
     n_send_amount = le32_to_cpu (slice 56 4 bs), n_change_amount = le32_to_cpu (slice 60 4 bs),
     n_num_inputs = le32_to_cpu (slice 64 4 bs), n_signature = dec_signature (slice 68 64 bs),
     n_inputs = dec_array dec_input 36 (unat (le32_to_cpu (slice 64 4 bs))) 132 bs\<rparr>"

definition dec_from_gateway :: "bytes \<Rightarrow> protocol_tx_from_gateway" where
  "dec_from_gateway bs = \<lparr>tx_version = bs ! 0, tx_fee = fee_of_byte (bs ! 1), tx_features = bs ! 2,
     fg_gateway_key = slice 3 33 bs, fg_num_outputs = le16_to_cpu (slice 36 2 bs),
     fg_unused = le16_to_cpu (slice 38 2 bs), fg_signature = dec_signature (slice 40 64 bs),
     fg_outputs = dec_array dec_payment 24 (unat (le16_to_cpu (slice 36 2 bs))) 104 bs\<rparr>"

definition dec_to_gateway :: "bytes \<Rightarrow> protocol_tx_to_gateway" where
  "dec_to_gateway bs = \<lparr>tx_version = bs ! 0, tx_fee = fee_of_byte (bs ! 1), tx_features = bs ! 2,
     tg_input_key = slice 3 33 bs, tg_to_gateway_addr = slice 36 20 bs,
     tg_send_amount = le32_to_cpu (slice 56 4 bs), tg_change_amount = le32_to_cpu (slice 60 4 bs),
     tg_num_inputs = le32_to_cpu (slice 64 4 bs), tg_signature = dec_signature (slice 68 64 bs),
     tg_inputs = dec_array dec_input 36 (unat (le32_to_cpu (slice 64 4 bs))) 132 bs\<rparr>"

definition dec_claim :: "bytes \<Rightarrow> protocol_tx_claim" where
  "dec_claim bs = \<lparr>tx_version = bs ! 0, tx_fee = fee_of_byte (bs ! 1), tx_features = bs ! 2,
     c_input_key = slice 3 33 bs, c_amount = le32_to_cpu (slice 36 4 bs),
     c_input = dec_input (slice 40 36 bs), c_signature = dec_signature (slice 76 64 bs)\<rparr>"

text \<open>A buffer read through a pointer to \<open>union protocol_tx\<close>.\<close>

definition cast_tx :: "bytes \<Rightarrow> protocol_tx option" where
  "cast_tx bs =
     (if length bs < 3 then None
      else let t = type_of_byte (bs ! 1) in
        if t = 0 then
          (if 132 \<le> length bs \<and> 132 + 36 * unat (le32_to_cpu (slice 64 4 bs)) \<le> length bs
           then Some (Normal (dec_normal bs)) else None)
        else if t = 1 then
          (if 104 \<le> length bs \<and> 104 + 24 * unat (le16_to_cpu (slice 36 2 bs)) \<le> length bs
           then Some (From_gateway (dec_from_gateway bs)) else None)
        else if t = 2 then
          (if 132 \<le> length bs \<and> 132 + 36 * unat (le32_to_cpu (slice 64 4 bs)) \<le> length bs
           then Some (To_gateway (dec_to_gateway bs)) else None)
        else if t = 3 then
          (if 140 \<le> length bs then Some (Claim (dec_claim bs)) else None)
        else None)"

subsection \<open>Transactions (marshal.c)\<close>

text \<open>
  \<open>unmarshal_tx buffer sz want_used\<close>: the third argument says whether the caller passes a
  \<open>used\<close> pointer. The result is the error code and what was stored through that pointer.
  \<open>None\<close> would be a read outside of the buffer.
\<close>

definition unmarshal_tx :: "bytes \<Rightarrow> size_t \<Rightarrow> bool \<Rightarrow> (protocol_ecode \<times> size_t) option" where
  "unmarshal_tx buffer sz want_used =
     (if sz < 3 then Some (PROTOCOL_ECODE_INVALID_LEN, 0)
      else do {
        version \<leftarrow> rd8 buffer 0;
        if \<not> version_ok version then Some (PROTOCOL_ECODE_TX_HIGH_VERSION, 0)
        else do {
          ty \<leftarrow> rd8 buffer 1;
          let t = type_of_byte ty;
          lenr \<leftarrow>
            (if t = tx_type_code TX_NORMAL \<or> t = tx_type_code TX_TO_GATEWAY then
               (if sz < 132 then Some (Inl PROTOCOL_ECODE_INVALID_LEN)
                else do {
                  num \<leftarrow> rd32 buffer 64;
                  if mul_overflows 36 (ucast num) then Some (Inl PROTOCOL_ECODE_INVALID_LEN)
                  else let i = 36 * ucast num in
                    if add_overflows 132 i then Some (Inl PROTOCOL_ECODE_INVALID_LEN)
                    else Some (Inr (132 + i)) })
             else if t = tx_type_code TX_FROM_GATEWAY then
               (if sz < 104 then Some (Inl PROTOCOL_ECODE_INVALID_LEN)
                else do {
                  num \<leftarrow> rd16 buffer 36;
                  if mul_overflows 24 (ucast num) then Some (Inl PROTOCOL_ECODE_INVALID_LEN)
                  else let i = 24 * ucast num in
                    if add_overflows 104 i then Some (Inl PROTOCOL_ECODE_INVALID_LEN)
                    else Some (Inr (104 + i)) })
             else if t = tx_type_code TX_CLAIM then Some (Inr 140)
             else Some (Inl PROTOCOL_ECODE_TX_TYPE_UNKNOWN));
          (case lenr of
             Inl e \<Rightarrow> Some (e, 0)
           | Inr len \<Rightarrow>
               if sz < len then Some (PROTOCOL_ECODE_INVALID_LEN, 0)
               else if want_used then Some (PROTOCOL_ECODE_NONE, len)
               else if sz \<noteq> len then Some (PROTOCOL_ECODE_INVALID_LEN, 0)
               else Some (PROTOCOL_ECODE_NONE, 0)) } })"

definition varsize :: "size_t \<Rightarrow> size_t \<Rightarrow> size_t \<Rightarrow> size_t option" where
  "varsize base num fieldsize =
     do { c_assert (base \<noteq> 0);
          if mul_overflows fieldsize num then Some 0
          else if add_overflows base (fieldsize * num) then Some 0
          else Some (base + fieldsize * num) }"

fun marshal_tx_len :: "protocol_tx \<Rightarrow> size_t option" where
  "marshal_tx_len (Normal t) = varsize 132 (ucast (n_num_inputs t)) 36"
| "marshal_tx_len (From_gateway t) = varsize 104 (ucast (fg_num_outputs t)) 24"
| "marshal_tx_len (To_gateway t) = varsize 132 (ucast (tg_num_inputs t)) 36"
| "marshal_tx_len (Claim t) = Some 140"

definition marshal_input_ref_len :: "protocol_tx \<Rightarrow> size_t" where
  "marshal_input_ref_len tx = ucast (num_inputs tx) * 8"

definition unmarshal_input_refs :: "size_t \<Rightarrow> protocol_tx \<Rightarrow> protocol_ecode \<times> size_t" where
  "unmarshal_input_refs sz tx =
     (let need = marshal_input_ref_len tx in
      if sz < need then (PROTOCOL_ECODE_INVALID_LEN, 0) else (PROTOCOL_ECODE_NONE, need))"

subsection \<open>Blocks (marshal.c)\<close>

text \<open>
  The five pointers a block consists of; \<open>unmarshal_block_into\<close> sets them into the buffer.
\<close>

record block_parts =
  bp_hdr :: protocol_block_header
  bp_shard_nums :: bytes
  bp_merkles :: "sha list"
  bp_prev_txhashes :: bytes
  bp_tailer :: protocol_block_tailer

definition unmarshal_block_into :: "size_t \<Rightarrow> bytes \<Rightarrow> (protocol_ecode + block_parts) option" where
  "unmarshal_block_into sz buf =
     (if sz < 76 then Some (Inl PROTOCOL_ECODE_INVALID_LEN)
      else do {
        hbytes \<leftarrow> c_slice buf 0 76;
        let hdr = dec_hdr hbytes;
        if \<not> version_ok (bh_version hdr) then Some (Inl PROTOCOL_ECODE_BLOCK_HIGH_VERSION)
        else if bh_shard_order hdr > PROTOCOL_MAX_SHARD_ORDER
        then Some (Inl PROTOCOL_ECODE_BAD_SHARD_ORDER)
        else
          let len0 = 76; shard_len = push_bit (unat (bh_shard_order hdr)) (1 :: size_t) in
          if add_overflows shard_len len0 then Some (Inl PROTOCOL_ECODE_INVALID_LEN)
          else let len1 = len0 + shard_len in
          if mul_overflows shard_len 32 then Some (Inl PROTOCOL_ECODE_INVALID_LEN)
          else let merkle_len = shard_len * 32 in
          if add_overflows len1 merkle_len then Some (Inl PROTOCOL_ECODE_INVALID_LEN)
          else let len2 = len1 + merkle_len; nprev = ucast (bh_num_prev_txhashes hdr) in
          if add_overflows len2 nprev then Some (Inl PROTOCOL_ECODE_INVALID_LEN)
          else let len3 = len2 + nprev in
          if add_overflows len3 12 then Some (Inl PROTOCOL_ECODE_INVALID_LEN)
          else let len4 = len3 + 12 in
          if sz \<noteq> len4 then Some (Inl PROTOCOL_ECODE_INVALID_LEN)
          else do {
            nums \<leftarrow> c_slice buf (unat len0) (unat shard_len);
            merk \<leftarrow> c_slice buf (unat len1) (unat merkle_len);
            prev \<leftarrow> c_slice buf (unat len2) (unat nprev);
            tail \<leftarrow> c_slice buf (unat len3) 12;
            Some (Inr \<lparr>bp_hdr = hdr, bp_shard_nums = nums,
                       bp_merkles = dec_array id 32 (unat shard_len) 0 merk,
                       bp_prev_txhashes = prev, bp_tailer = dec_tailer tail\<rparr>) } })"

definition unmarshal_block :: "bytes \<Rightarrow> (protocol_ecode + block_parts) option" where
  "unmarshal_block pkt =
     do { len \<leftarrow> rd32 pkt 0; unmarshal_block_into (ucast len - 12) (drop 12 pkt) }"

definition block_lengths :: "protocol_block_header \<Rightarrow> size_t \<times> size_t \<times> size_t \<times> size_t" where
  "block_lengths hdr =
     (let num_shards = push_bit (unat (bh_shard_order hdr)) (1 :: u32);
          shardnum_len = ucast num_shards * 1;
          merkle_len = 32 * ucast num_shards;
          prev_merkle_len = 1 * ucast (bh_num_prev_txhashes hdr)
      in (76 + shardnum_len + merkle_len + prev_merkle_len + 12,
          shardnum_len, merkle_len, prev_merkle_len))"

definition marshal_block_len :: "protocol_block_header \<Rightarrow> size_t" where
  "marshal_block_len hdr = fst (block_lengths hdr)"

definition marshal_block_into :: "block_parts \<Rightarrow> bytes option" where
  "marshal_block_into b =
     (case block_lengths (bp_hdr b) of (_, shardnum_len, merkle_len, prev_merkle_len) \<Rightarrow>
        do { nums \<leftarrow> c_slice (bp_shard_nums b) 0 (unat shardnum_len);
             merk \<leftarrow> c_slice (concat (bp_merkles b)) 0 (unat merkle_len);
             prev \<leftarrow> c_slice (bp_prev_txhashes b) 0 (unat prev_merkle_len);
             Some (enc_hdr (bp_hdr b) @ nums @ merk @ prev @ enc_tailer (bp_tailer b)) })"

definition PROTOCOL_PKT_BLOCK :: u32 where "PROTOCOL_PKT_BLOCK = 8"

definition marshal_block :: "block_parts \<Rightarrow> bytes option" where
  "marshal_block b =
     (let len = marshal_block_len (bp_hdr b) in
      do { body \<leftarrow> marshal_block_into b;
           Some (cpu_to_le32 (ucast (12 + len)) @ cpu_to_le32 PROTOCOL_PKT_BLOCK
                 @ cpu_to_le32 0 @ body) })"

definition wf_block_parts :: "block_parts \<Rightarrow> bool" where
  "wf_block_parts b \<longleftrightarrow> wf_header (bp_hdr b)
     \<and> length (bp_shard_nums b) = 2 ^ unat (bh_shard_order (bp_hdr b))
     \<and> length (bp_merkles b) = 2 ^ unat (bh_shard_order (bp_hdr b))
     \<and> list_all (\<lambda>m. length m = 32) (bp_merkles b)
     \<and> length (bp_prev_txhashes b) = unat (bh_num_prev_txhashes (bp_hdr b))"

subsection \<open>The overflow checks are exact\<close>

lemma mul_overflows_iff: "mul_overflows a b \<longleftrightarrow> 2 ^ 64 \<le> unat a * unat b"
proof (cases "b = 0")
  case False
  let ?M = "2 ^ 64 :: nat"
  have ub: "0 < unat b" using False by (simp add: unat_gt_0)
  have "a * b div b = a \<longleftrightarrow> (unat a * unat b mod ?M) div unat b = unat a"
    by (simp add: word_unat_eq_iff unat_div_distrib unat_word_ariths)
  also have "\<dots> \<longleftrightarrow> unat a * unat b < ?M"
  proof
    assume eq: "(unat a * unat b mod ?M) div unat b = unat a"
    show "unat a * unat b < ?M"
    proof (rule ccontr)
      assume "\<not> ?thesis"
      then have "unat a * unat b mod ?M < unat a * unat b"
        by (meson less_le_trans linorder_not_less mod_less_divisor zero_less_numeral zero_less_power)
      then have "(unat a * unat b mod ?M) div unat b < unat a"
        by (simp add: div_less_iff_less_mult ub)
      with eq show False by simp
    qed
  next
    assume "unat a * unat b < ?M"
    with ub show "(unat a * unat b mod ?M) div unat b = unat a" by simp
  qed
  finally show ?thesis using False by (auto simp: mul_overflows_def)
qed (simp add: mul_overflows_def)

lemma add_overflows_iff: "add_overflows a b \<longleftrightarrow> 2 ^ 64 \<le> unat a + unat b"
proof -
  have "a + b < b \<longleftrightarrow> (unat a + unat b) mod 2 ^ 64 < unat b"
    by (simp add: word_less_nat_alt unat_word_ariths)
  moreover have "unat a < 2 ^ 64" "unat b < 2 ^ 64"
    using unsigned_less [of a] unsigned_less [of b] by simp_all
  ultimately show ?thesis
    by (cases "unat a + unat b < 2 ^ 64") (auto simp: add_overflows_def mod_if)
qed

lemma unat_ucast_u32_size [simp]: "unat (ucast (x :: u32) :: size_t) = unat x"
  by (simp add: unsigned_ucast_eq take_bit_nat_eq_self_iff order_less_trans [OF unat_u32_less])

lemma unat_ucast_u16_size [simp]: "unat (ucast (x :: u16) :: size_t) = unat x"
  by (simp add: unsigned_ucast_eq take_bit_nat_eq_self_iff order_less_trans [OF unat_u16_less])

lemma no_overflow_inputs [simp]:
  "\<not> mul_overflows 36 (ucast (n :: u32))" "\<not> add_overflows 132 (36 * ucast (n :: u32))"
  "unat (132 + 36 * ucast (n :: u32) :: size_t) = 132 + 36 * unat n"
proof -
  have n: "unat n < 4294967296" by (rule unat_u32_less)
  show "\<not> mul_overflows 36 (ucast n)"
    using n by (simp add: mul_overflows_iff)
  have m: "unat (36 * ucast n :: size_t) = 36 * unat n"
    using n by (simp add: unat_word_ariths)
  then show "\<not> add_overflows 132 (36 * ucast n)"
    using n by (simp add: add_overflows_iff)
  show "unat (132 + 36 * ucast n :: size_t) = 132 + 36 * unat n"
    using n m by (simp add: unat_word_ariths(1))
qed

lemma no_overflow_outputs [simp]:
  "\<not> mul_overflows 24 (ucast (n :: u16))" "\<not> add_overflows 104 (24 * ucast (n :: u16))"
  "unat (104 + 24 * ucast (n :: u16) :: size_t) = 104 + 24 * unat n"
proof -
  have n: "unat n < 65536" by (rule unat_u16_less)
  show "\<not> mul_overflows 24 (ucast n)"
    using n by (simp add: mul_overflows_iff)
  have m: "unat (24 * ucast n :: size_t) = 24 * unat n"
    using n by (simp add: unat_word_ariths)
  then show "\<not> add_overflows 104 (24 * ucast n)"
    using n by (simp add: add_overflows_iff)
  show "unat (104 + 24 * ucast n :: size_t) = 104 + 24 * unat n"
    using n m by (simp add: unat_word_ariths(1))
qed

lemma marshal_tx_len_Some:
  "\<exists>len. marshal_tx_len tx = Some len"
  by (cases tx) (simp_all add: varsize_def)

subsection \<open>Slices of a buffer\<close>

lemma length_slice [simp]: "off + len \<le> length bs \<Longrightarrow> length (slice off len bs) = len"
  by (simp add: slice_def)

lemma slice_join: "off' = off + len \<Longrightarrow> slice off len bs @ slice off' m bs = slice off (len + m) bs"
  by (simp add: slice_def take_add add.commute)

lemma slice_join_app:
  "off' = off + len \<Longrightarrow> slice off len bs @ slice off' m bs @ rest = slice off (len + m) bs @ rest"
  using slice_join [of off' off len bs m] by simp

lemma slice_slice [simp]: "off + len \<le> n \<Longrightarrow> slice off len (slice k n bs) = slice (k + off) len bs"
  by (simp add: slice_def drop_take add.commute min_def)

lemma slice_0_take: "slice 0 n bs = take n bs"
  by (simp add: slice_def)

lemma slice_head: "off + len \<le> length as \<Longrightarrow> slice off len (as @ bs) = slice off len as"
  by (simp add: slice_def)

lemma slice_mid: "off = length as \<Longrightarrow> len = length bs \<Longrightarrow> slice off len (as @ bs @ cs) = bs"
  by (simp add: slice_def)

lemma slice_skip: "length as \<le> off \<Longrightarrow> slice off len (as @ bs) = slice (off - length as) len bs"
  by (simp add: slice_def)

lemma c_slice_slice: "off + len \<le> length bs \<Longrightarrow> c_slice bs off len = Some (slice off len bs)"
  by (simp add: c_slice_def slice_def)

lemma slice_Cons: "0 < off \<Longrightarrow> slice off len (x # xs) = slice (off - 1) len xs"
  by (cases off) (simp_all add: slice_def)

lemma slice_prefix: "len = length as \<Longrightarrow> slice 0 len (as @ bs) = as"
  by (simp add: slice_def)

lemma slice_all [simp]: "len = length as \<Longrightarrow> slice 0 len as = as"
  by (simp add: slice_def)

lemma three_bytes: "3 \<le> length bs \<Longrightarrow> [bs ! 0, bs ! 1, bs ! 2] = slice 0 3 bs"
  by (cases bs; cases "tl bs"; cases "tl (tl bs)") (auto simp: slice_def)

subsection \<open>Lengths of encoded structures\<close>

lemma length_enc_signature [simp, enc_len]: "wf_signature s \<Longrightarrow> length (enc_signature s) = 64"
  by (simp add: enc_signature_def wf_signature_def)

lemma length_enc_input [simp, enc_len]: "wf_input i \<Longrightarrow> length (enc_input i) = 36"
  by (simp add: enc_input_def wf_input_def)

lemma length_enc_payment [simp, enc_len]: "wf_payment p \<Longrightarrow> length (enc_payment p) = 24"
  by (simp add: enc_payment_def wf_payment_def)

lemma length_enc_ref [simp, enc_len]: "length (enc_ref r) = 8"
  by (simp add: enc_ref_def)

lemma length_enc_hdr [simp, enc_len]: "wf_header h \<Longrightarrow> length (enc_hdr h) = 76"
  by (simp add: enc_hdr_def wf_header_def)

lemma length_enc_tailer [simp, enc_len]: "length (enc_tailer t) = 12"
  by (simp add: enc_tailer_def)

lemma length_concat_map:
  "list_all (\<lambda>x. length (f x) = w) xs \<Longrightarrow> length (concat (map f xs)) = w * length xs"
  by (induction xs) auto

lemma length_concat_inputs [simp]:
  "list_all wf_input xs \<Longrightarrow> length (concat (map enc_input xs)) = 36 * length xs"
  by (rule length_concat_map) (auto simp: list_all_iff)

lemma length_concat_payments [simp]:
  "list_all wf_payment xs \<Longrightarrow> length (concat (map enc_payment xs)) = 24 * length xs"
  by (rule length_concat_map) (auto simp: list_all_iff)

fun tx_bytes_len :: "protocol_tx \<Rightarrow> nat" where
  "tx_bytes_len (Normal t) = 132 + 36 * unat (n_num_inputs t)"
| "tx_bytes_len (From_gateway t) = 104 + 24 * unat (fg_num_outputs t)"
| "tx_bytes_len (To_gateway t) = 132 + 36 * unat (tg_num_inputs t)"
| "tx_bytes_len (Claim t) = 140"

lemma length_enc_tx: "wf_tx tx \<Longrightarrow> length (enc_tx tx) = tx_bytes_len tx"
  by (cases tx) (simp_all add: enc_tx_hdr_def)

lemma marshal_tx_len_eq: "\<exists>len. marshal_tx_len tx = Some len \<and> unat len = tx_bytes_len tx"
  by (cases tx) (simp_all add: varsize_def)

subsection \<open>Reading back what was written\<close>

lemma enc_dec_signature: "length bs = 64 \<Longrightarrow> enc_signature (dec_signature bs) = bs"
  by (simp add: enc_signature_def dec_signature_def slice_join)

lemma dec_enc_signature: "wf_signature s \<Longrightarrow> dec_signature (enc_signature s) = s"
  by (simp add: enc_signature_def dec_signature_def wf_signature_def slice_head slice_skip)

lemma enc_dec_input: "length bs = 36 \<Longrightarrow> enc_input (dec_input bs) = bs"
  by (simp add: enc_input_def dec_input_def le16_round2 slice_join)

lemma dec_enc_input: "wf_input i \<Longrightarrow> dec_input (enc_input i) = i"
  by (simp add: enc_input_def dec_input_def wf_input_def slice_head slice_skip)

lemma enc_dec_payment: "length bs = 24 \<Longrightarrow> enc_payment (dec_payment bs) = bs"
  by (simp add: enc_payment_def dec_payment_def le32_round2 slice_join)

lemma dec_enc_payment: "wf_payment p \<Longrightarrow> dec_payment (enc_payment p) = p"
  by (simp add: enc_payment_def dec_payment_def wf_payment_def slice_head slice_skip)

lemma enc_dec_tailer: "length bs = 12 \<Longrightarrow> enc_tailer (dec_tailer bs) = bs"
  by (simp add: enc_tailer_def dec_tailer_def le32_round2 slice_join)

lemma dec_enc_tailer: "dec_tailer (enc_tailer t) = t"
  by (simp add: enc_tailer_def dec_tailer_def slice_head slice_skip)

lemma enc_dec_hdr: "length bs = 76 \<Longrightarrow> enc_hdr (dec_hdr bs) = bs"
  using three_bytes [of bs]
  by (simp add: enc_hdr_def dec_hdr_def le32_round2 slice_join slice_join_app)

lemma dec_enc_hdr: "wf_header h \<Longrightarrow> dec_hdr (enc_hdr h @ rest) = h"
  by (simp add: enc_hdr_def dec_hdr_def wf_header_def slice_head slice_skip slice_Cons)

lemma wf_dec_signature: "length bs = 64 \<Longrightarrow> wf_signature (dec_signature bs)"
  by (simp add: wf_signature_def dec_signature_def)

lemma wf_dec_input: "length bs = 36 \<Longrightarrow> wf_input (dec_input bs)"
  by (simp add: wf_input_def dec_input_def)

lemma wf_dec_payment: "length bs = 24 \<Longrightarrow> wf_payment (dec_payment bs)"
  by (simp add: wf_payment_def dec_payment_def)

lemma wf_dec_hdr: "length bs = 76 \<Longrightarrow> wf_header (dec_hdr bs)"
  by (simp add: wf_header_def dec_hdr_def)

lemma length_dec_array [simp]: "length (dec_array dec w n off bs) = n"
  by (simp add: dec_array_def)

lemma slice_elem_bound: "i < n \<Longrightarrow> off + n * w \<le> L \<Longrightarrow> off + i * w + w \<le> (L :: nat)"
proof -
  assume "i < n" and le: "off + n * w \<le> L"
  then have "Suc i * w \<le> n * w" by (intro mult_le_mono1) simp
  with le show ?thesis by simp
qed

lemma list_all_dec_array:
  assumes "off + n * w \<le> length bs" and "\<And>c. length c = w \<Longrightarrow> P (dec c)"
  shows "list_all P (dec_array dec w n off bs)"
  using assms slice_elem_bound [OF _ assms(1)]
  by (auto simp: list_all_iff dec_array_def)

lemma dec_array_Suc:
  "dec_array dec w (Suc n) off bs = dec_array dec w n off bs @ [dec (slice (off + n * w) w bs)]"
  by (simp add: dec_array_def)

lemma concat_dec_array:
  assumes "off + n * w \<le> length bs" and "\<And>c. length c = w \<Longrightarrow> enc (dec c) = c"
  shows "concat (map enc (dec_array dec w n off bs)) = slice off (n * w) bs"
  using assms(1)
proof (induction n)
  case 0
  then show ?case by (simp add: dec_array_def slice_def)
next
  case (Suc n)
  then have IH: "concat (map enc (dec_array dec w n off bs)) = slice off (n * w) bs" by simp
  have "enc (dec (slice (off + n * w) w bs)) = slice (off + n * w) w bs"
    using Suc.prems by (intro assms(2)) simp
  then show ?case
    by (simp add: dec_array_Suc IH slice_join add.commute)
qed

lemma dec_array_concat:
  assumes "list_all (\<lambda>x. length (enc x) = w \<and> dec (enc x) = x) xs" and "off = length as"
  shows "dec_array dec w (length xs) off (as @ concat (map enc xs) @ cs) = xs"
  using assms(1)
proof (induction xs arbitrary: cs rule: rev_induct)
  case Nil
  then show ?case by (simp add: dec_array_def)
next
  case (snoc x xs)
  then have len: "length (concat (map enc xs)) = w * length xs"
    by (intro length_concat_map) (auto simp: list_all_iff)
  have "slice (off + length xs * w) w (as @ concat (map enc xs) @ enc x @ cs) = enc x"
    using snoc.prems len assms(2) by (simp add: slice_def mult.commute)
  with snoc show ?case by (simp add: dec_array_Suc)
qed

subsection \<open>Casting a buffer to a transaction\<close>

lemma byte_split: "(b AND NOT 0x80) OR (b AND 0x80) = (b :: u8)"
  by (rule bit_word_eqI) (auto simp: bit_simps)

lemma byte_top:
  assumes "b AND 0x80 \<noteq> 0"
  shows "b AND 0x80 = (0x80 :: u8)"
proof -
  have e: "(0x80 :: u8) = 2 ^ 7" by simp
  from assms have "bit b 7"
    unfolding e by (metis and_exp_eq_0_iff_not_bit)
  then show ?thesis
    unfolding e by (intro bit_word_eqI) (metis bit_and_iff bit_exp_iff)
qed

lemma type_byte_join:
  "(if fee_of_byte b then type_of_byte b OR PROTOCOL_FEE_TYPE else type_of_byte b) = b"
  using byte_split [of b] byte_top [of b]
  by (auto simp: fee_of_byte_def type_of_byte_def PROTOCOL_FEE_TYPE_def)

lemma enc_tx_hdr_dec:
  assumes "3 \<le> length bs" and "hdr_version tx = bs ! 0" and "hdr_features tx = bs ! 2"
    and "tx_pays_fee tx = fee_of_byte (bs ! 1)" and "type_of_byte (bs ! 1) = tx_type_code (tx_type tx)"
  shows "enc_tx_hdr tx = slice 0 3 bs"
  using assms type_byte_join [of "bs ! 1"] three_bytes [OF assms(1)]
  by (simp add: enc_tx_hdr_def hdr_type_def split: if_splits)

lemma enc_dec_normal:
  assumes "132 + 36 * unat (le32_to_cpu (slice 64 4 bs)) \<le> length bs" and "type_of_byte (bs ! 1) = 0"
  shows "enc_tx (Normal (dec_normal bs)) = take (132 + 36 * unat (le32_to_cpu (slice 64 4 bs))) bs"
proof -
  have h: "enc_tx_hdr (Normal (dec_normal bs)) = slice 0 3 bs"
    using assms by (intro enc_tx_hdr_dec) (simp_all add: dec_normal_def)
  show ?thesis
    using assms h
    by (simp add: dec_normal_def enc_dec_signature le32_round2 concat_dec_array enc_dec_input
        slice_join slice_join_app mult.commute flip: slice_0_take)
qed

lemma enc_dec_to_gateway:
  assumes "132 + 36 * unat (le32_to_cpu (slice 64 4 bs)) \<le> length bs" and "type_of_byte (bs ! 1) = 2"
  shows "enc_tx (To_gateway (dec_to_gateway bs)) = take (132 + 36 * unat (le32_to_cpu (slice 64 4 bs))) bs"
proof -
  have h: "enc_tx_hdr (To_gateway (dec_to_gateway bs)) = slice 0 3 bs"
    using assms by (intro enc_tx_hdr_dec) (simp_all add: dec_to_gateway_def)
  show ?thesis
    using assms h
    by (simp add: dec_to_gateway_def enc_dec_signature le32_round2 concat_dec_array enc_dec_input
        slice_join slice_join_app mult.commute flip: slice_0_take)
qed

lemma enc_dec_from_gateway:
  assumes "104 + 24 * unat (le16_to_cpu (slice 36 2 bs)) \<le> length bs" and "type_of_byte (bs ! 1) = 1"
  shows "enc_tx (From_gateway (dec_from_gateway bs)) = take (104 + 24 * unat (le16_to_cpu (slice 36 2 bs))) bs"
proof -
  have h: "enc_tx_hdr (From_gateway (dec_from_gateway bs)) = slice 0 3 bs"
    using assms by (intro enc_tx_hdr_dec) (simp_all add: dec_from_gateway_def)
  show ?thesis
    using assms h
    by (simp add: dec_from_gateway_def enc_dec_signature le16_round2 concat_dec_array enc_dec_payment
        slice_join slice_join_app mult.commute flip: slice_0_take)
qed

lemma enc_dec_claim:
  assumes "140 \<le> length bs" and "type_of_byte (bs ! 1) = 3"
  shows "enc_tx (Claim (dec_claim bs)) = take 140 bs"
proof -
  have h: "enc_tx_hdr (Claim (dec_claim bs)) = slice 0 3 bs"
    using assms by (intro enc_tx_hdr_dec) (simp_all add: dec_claim_def)
  show ?thesis
    using assms h
    by (simp add: dec_claim_def enc_dec_signature enc_dec_input le32_round2
        slice_join slice_join_app flip: slice_0_take)
qed

lemma wf_dec_tx:
  "132 + 36 * unat (le32_to_cpu (slice 64 4 bs)) \<le> length bs \<Longrightarrow> wf_tx (Normal (dec_normal bs))"
  "132 + 36 * unat (le32_to_cpu (slice 64 4 bs)) \<le> length bs \<Longrightarrow> wf_tx (To_gateway (dec_to_gateway bs))"
  "104 + 24 * unat (le16_to_cpu (slice 36 2 bs)) \<le> length bs \<Longrightarrow> wf_tx (From_gateway (dec_from_gateway bs))"
  "140 \<le> length bs \<Longrightarrow> wf_tx (Claim (dec_claim bs))"
  by (simp_all add: dec_normal_def dec_to_gateway_def dec_from_gateway_def dec_claim_def
      wf_dec_signature wf_dec_input wf_dec_payment list_all_dec_array)

lemma cast_tx_sound:
  assumes "cast_tx bs = Some tx"
  shows "wf_tx tx \<and> enc_tx tx = take (tx_bytes_len tx) bs \<and> tx_bytes_len tx \<le> length bs
    \<and> hdr_version tx = bs ! 0 \<and> tx_type_code (tx_type tx) = type_of_byte (bs ! 1)"
  using assms enc_dec_normal [of bs] enc_dec_to_gateway [of bs] enc_dec_from_gateway [of bs]
    enc_dec_claim [of bs] wf_dec_tx [of bs]
  by (auto simp: cast_tx_def Let_def dec_normal_def dec_to_gateway_def dec_from_gateway_def
      dec_claim_def split: if_splits)

lemma dec_array_skip:
  "length as \<le> off \<Longrightarrow> dec_array dec w n off (as @ bs) = dec_array dec w n (off - length as) bs"
  by (simp add: dec_array_def slice_skip)

lemma dec_array_Cons:
  "0 < off \<Longrightarrow> dec_array dec w n off (x # xs) = dec_array dec w n (off - 1) xs"
  using dec_array_skip [of "[x]" off dec w n xs] by simp

lemma dec_array_inputs:
  "list_all wf_input xs \<Longrightarrow> n = length xs \<Longrightarrow>
   dec_array dec_input 36 n 0 (concat (map enc_input xs) @ rest) = xs"
  using dec_array_concat [of enc_input 36 dec_input xs 0 "[]" rest]
  by (simp add: list_all_iff dec_enc_input)

lemma dec_array_payments:
  "list_all wf_payment xs \<Longrightarrow> n = length xs \<Longrightarrow>
   dec_array dec_payment 24 n 0 (concat (map enc_payment xs) @ rest) = xs"
  using dec_array_concat [of enc_payment 24 dec_payment xs 0 "[]" rest]
  by (simp add: list_all_iff dec_enc_payment)

lemmas slice_walk = slice_head slice_skip slice_Cons dec_array_skip dec_array_Cons
  dec_array_inputs dec_array_payments dec_enc_signature dec_enc_input

lemma type_of_hdr_type [simp]:
  "type_of_byte (hdr_type tx) = tx_type_code (tx_type tx)"
  "fee_of_byte (hdr_type tx) = tx_pays_fee tx"
  using hdr_type_bits [of tx] by (simp_all add: type_of_byte_def fee_of_byte_def)

lemma dec_enc_tx:
  "wf_tx (Normal a) \<Longrightarrow> dec_normal (enc_tx (Normal a) @ rest) = a"
  "wf_tx (From_gateway b) \<Longrightarrow> dec_from_gateway (enc_tx (From_gateway b) @ rest) = b"
  "wf_tx (To_gateway c) \<Longrightarrow> dec_to_gateway (enc_tx (To_gateway c) @ rest) = c"
  "wf_tx (Claim d) \<Longrightarrow> dec_claim (enc_tx (Claim d) @ rest) = d"
  by (simp_all add: dec_normal_def dec_from_gateway_def dec_to_gateway_def dec_claim_def
      enc_tx_hdr_def slice_walk)

lemma cast_tx_enc:
  assumes "wf_tx tx"
  shows "cast_tx (enc_tx tx @ rest) = Some tx"
  using assms length_enc_tx [OF assms] dec_enc_tx [of _ rest]
  by (cases tx) (auto simp: cast_tx_def enc_tx_hdr_def slice_walk)

subsection \<open>unmarshal_tx\<close>

text \<open>
  The contract of \<open>unmarshal_tx\<close>, over the buffer seen as a transaction: which error code each
  kind of bad buffer gets, and the length used.
\<close>

definition unmarshal_tx_spec :: "bytes \<Rightarrow> bool \<Rightarrow> protocol_ecode \<times> nat" where
  "unmarshal_tx_spec buf want =
     (if length buf < 3 then (PROTOCOL_ECODE_INVALID_LEN, 0)
      else if \<not> version_ok (buf ! 0) then (PROTOCOL_ECODE_TX_HIGH_VERSION, 0)
      else if type_of_byte (buf ! 1) \<notin> {0, 1, 2, 3} then (PROTOCOL_ECODE_TX_TYPE_UNKNOWN, 0)
      else case cast_tx buf of
        None \<Rightarrow> (PROTOCOL_ECODE_INVALID_LEN, 0)
      | Some tx \<Rightarrow>
          if want then (PROTOCOL_ECODE_NONE, tx_bytes_len tx)
          else if length buf \<noteq> tx_bytes_len tx then (PROTOCOL_ECODE_INVALID_LEN, 0)
          else (PROTOCOL_ECODE_NONE, 0))"

lemma size_less_unat:
  "(sz < 3) = (unat (sz :: size_t) < 3)" "(sz < 132) = (unat sz < 132)" "(sz < 104) = (unat sz < 104)"
  "(sz < 76) = (unat sz < 76)" "(sz < 140) = (unat sz < 140)"
  by (simp_all add: word_less_nat_alt)

lemma size_eq_unat:
  "(sz = 132 + 36 * ucast (n :: u32)) = (unat (sz :: size_t) = 132 + 36 * unat n)"
  "(sz = 104 + 24 * ucast (m :: u16)) = (unat (sz :: size_t) = 104 + 24 * unat m)"
  "(sz = 140) = (unat (sz :: size_t) = 140)"
  by (simp_all add: word_unat_eq_iff)

lemma dec_counts [simp]:
  "n_num_inputs (dec_normal bs) = le32_to_cpu (slice 64 4 bs)"
  "tg_num_inputs (dec_to_gateway bs) = le32_to_cpu (slice 64 4 bs)"
  "fg_num_outputs (dec_from_gateway bs) = le16_to_cpu (slice 36 2 bs)"
  by (simp_all add: dec_normal_def dec_to_gateway_def dec_from_gateway_def)

lemma rd_slice:
  "off + 2 \<le> length buf \<Longrightarrow> rd16 buf off = Some (le16_to_cpu (slice off 2 buf))"
  "off + 4 \<le> length buf \<Longrightarrow> rd32 buf off = Some (le32_to_cpu (slice off 4 buf))"
  by (simp_all add: rd16_in rd32_in slice_def)

lemma unmarshal_tx_meets_spec:
  assumes len: "length buf = unat sz"
  shows "map_option (map_prod id unat) (unmarshal_tx buf sz want) = Some (unmarshal_tx_spec buf want)"
proof -
  let ?t = "type_of_byte (buf ! 1)"
  note unf = unmarshal_tx_def unmarshal_tx_spec_def cast_tx_def len size_less_unat
    word_less_nat_alt rd_slice size_eq_unat [of sz] Let_def
  consider "unat sz < 3" | "3 \<le> unat sz" "?t = 0" | "3 \<le> unat sz" "?t = 1"
    | "3 \<le> unat sz" "?t = 2" | "3 \<le> unat sz" "?t = 3" | "3 \<le> unat sz" "?t \<notin> {0, 1, 2, 3}"
    by fastforce
  then show ?thesis by cases (simp_all add: unf)
qed

text \<open>
  C19. On a buffer of \<open>sz\<close> bytes \<open>unmarshal_tx\<close> never reads outside of the buffer; it accepts
  exactly the buffers which hold a whole transaction of the current version, and then the
  transaction read through the pointer is well formed, its bytes are the first \<open>used\<close> bytes
  of the buffer and \<open>used\<close> is its \<open>marshal_tx_len\<close>.
\<close>

theorem unmarshal_tx_correct:
  assumes len: "length buf = unat sz"
  shows "\<exists>e used. unmarshal_tx buf sz True = Some (e, used)
    \<and> (e = PROTOCOL_ECODE_NONE \<longleftrightarrow> (\<exists>tx. cast_tx buf = Some tx \<and> version_ok (hdr_version tx)))
    \<and> (\<forall>tx. e = PROTOCOL_ECODE_NONE \<longrightarrow> cast_tx buf = Some tx \<longrightarrow>
          wf_tx tx \<and> enc_tx tx = take (unat used) buf \<and> marshal_tx_len tx = Some used)"
proof -
  obtain e used where u: "unmarshal_tx buf sz True = Some (e, used)"
    and sp: "(e, unat used) = unmarshal_tx_spec buf True"
    using unmarshal_tx_meets_spec [OF len, of True] by auto
  show ?thesis
  proof (cases "cast_tx buf")
    case None
    with u sp show ?thesis
      by (auto simp: unmarshal_tx_spec_def split: if_splits)
  next
    case (Some tx)
    note snd = cast_tx_sound [OF Some]
    have "type_of_byte (buf ! 1) \<in> {0, 1, 2, 3}"
      using snd by (cases "tx_type tx") auto
    moreover have "\<not> length buf < 3"
      using Some by (auto simp: cast_tx_def)
    ultimately have "(e, unat used) =
        (if version_ok (hdr_version tx) then (PROTOCOL_ECODE_NONE, tx_bytes_len tx)
         else (PROTOCOL_ECODE_TX_HIGH_VERSION, 0))"
      using sp Some snd by (auto simp: unmarshal_tx_spec_def)
    moreover obtain l where "marshal_tx_len tx = Some l" "unat l = tx_bytes_len tx"
      using marshal_tx_len_eq [of tx] by blast
    then have "unat used = tx_bytes_len tx \<Longrightarrow> marshal_tx_len tx = Some used"
      by (metis word_unat_eq_iff)
    ultimately show ?thesis
      using u Some snd by (auto split: if_splits)
  qed
qed

text \<open>
  Round trip: a well-formed transaction of the current version, written to memory, is
  accepted by \<open>unmarshal_tx\<close> as a buffer of exactly its length, and reads back as itself.
\<close>

theorem marshal_tx_roundtrip:
  assumes "wf_tx tx" and "version_ok (hdr_version tx)"
  shows "unmarshal_tx (enc_tx tx) (of_nat (length (enc_tx tx))) False = Some (PROTOCOL_ECODE_NONE, 0)
    \<and> cast_tx (enc_tx tx) = Some tx \<and> marshal_tx_len tx = Some (of_nat (length (enc_tx tx)))"
proof -
  let ?bs = "enc_tx tx"
  obtain l where l: "marshal_tx_len tx = Some l" "unat l = tx_bytes_len tx"
    using marshal_tx_len_eq [of tx] by blast
  have len: "of_nat (length ?bs) = l"
    using length_enc_tx [OF assms(1)] by (simp flip: l(2))
  have cast: "cast_tx ?bs = Some tx"
    using cast_tx_enc [OF assms(1), of "[]"] by simp
  note snd = cast_tx_sound [OF cast]
  have "type_of_byte (?bs ! 1) \<in> {0, 1, 2, 3}"
    using snd by (cases "tx_type tx") auto
  moreover have "\<not> length ?bs < 3"
    using cast by (auto simp: cast_tx_def)
  ultimately have "unmarshal_tx_spec ?bs False = (PROTOCOL_ECODE_NONE, 0)"
    using cast snd assms length_enc_tx [OF assms(1)] by (simp add: unmarshal_tx_spec_def)
  moreover have "length ?bs = unat l"
    using l(2) length_enc_tx [OF assms(1)] by simp
  ultimately have "map_option (map_prod id unat) (unmarshal_tx ?bs l False) = Some (PROTOCOL_ECODE_NONE, 0)"
    using unmarshal_tx_meets_spec [of ?bs l False] by simp
  with cast l len show ?thesis by (auto simp: unat_eq_0)
qed

subsection \<open>Block marshalling\<close>

definition block_bytes_len :: "protocol_block_header \<Rightarrow> nat" where
  "block_bytes_len h =
     76 + 2 ^ unat (bh_shard_order h) + 32 * 2 ^ unat (bh_shard_order h)
     + unat (bh_num_prev_txhashes h) + 12"

definition block_of_bytes :: "bytes \<Rightarrow> block_parts" where
  "block_of_bytes buf =
     (let hdr = dec_hdr (slice 0 76 buf); n = 2 ^ unat (bh_shard_order hdr);
          np = unat (bh_num_prev_txhashes hdr)
      in \<lparr>bp_hdr = hdr, bp_shard_nums = slice 76 n buf,
          bp_merkles = dec_array id 32 n 0 (slice (76 + n) (32 * n) buf),
          bp_prev_txhashes = slice (76 + n + 32 * n) np buf,
          bp_tailer = dec_tailer (slice (76 + n + 32 * n + np) 12 buf)\<rparr>)"

lemma unat_shard_len:
  assumes "(x :: u8) \<le> 16"
  shows "unat (push_bit (unat x) 1 :: size_t) = 2 ^ unat x"
    and "unat (push_bit (unat x) 1 :: u32) = 2 ^ unat x"
proof -
  have "(2 :: nat) ^ unat x \<le> 2 ^ 16"
    using assms by (intro power_increasing) (simp_all add: word_le_nat_alt)
  then have b: "(2 :: nat) ^ unat x < 2 ^ 32" by simp
  have "(push_bit (unat x) 1 :: size_t) = of_nat (2 ^ unat x)"
    and "(push_bit (unat x) 1 :: u32) = of_nat (2 ^ unat x)"
    by (simp_all add: push_bit_eq_mult)
  with b show "unat (push_bit (unat x) 1 :: size_t) = 2 ^ unat x"
    and "unat (push_bit (unat x) 1 :: u32) = 2 ^ unat x"
    by (simp_all only: unat_of_nat) simp_all
qed

lemma pow_order_le: "(x :: u8) \<le> 16 \<Longrightarrow> (2 :: nat) ^ unat x \<le> 65536"
  using power_increasing [of "unat x" 16 "2 :: nat"] by (simp add: word_le_nat_alt)

lemma unmarshal_block_into_eq:
  assumes len: "length buf = unat sz"
  shows "unmarshal_block_into sz buf = Some
    (let hdr = dec_hdr (slice 0 76 buf) in
     if length buf < 76 then Inl PROTOCOL_ECODE_INVALID_LEN
     else if \<not> version_ok (bh_version hdr) then Inl PROTOCOL_ECODE_BLOCK_HIGH_VERSION
     else if bh_shard_order hdr > PROTOCOL_MAX_SHARD_ORDER then Inl PROTOCOL_ECODE_BAD_SHARD_ORDER
     else if length buf \<noteq> block_bytes_len hdr then Inl PROTOCOL_ECODE_INVALID_LEN
     else Inr (block_of_bytes buf))"
proof -
  define hdr where "hdr = dec_hdr (slice 0 76 buf)"
  define o' where "o' = bh_shard_order hdr"
  define np where "np = bh_num_prev_txhashes hdr"
  define sl where "sl = (push_bit (unat o') 1 :: size_t)"
  show ?thesis
  proof (cases "length buf < 76 \<or> \<not> version_ok (bh_version hdr) \<or> o' > PROTOCOL_MAX_SHARD_ORDER")
    case True
    then consider "length buf < 76" | "\<not> length buf < 76" "\<not> version_ok (bh_version hdr)"
      | "\<not> length buf < 76" "version_ok (bh_version hdr)" "o' > PROTOCOL_MAX_SHARD_ORDER" by blast
    then show ?thesis
      by cases (simp_all add: unmarshal_block_into_def size_less_unat len [symmetric] c_slice_in
          slice_def Let_def hdr_def o'_def)
  next
    case False
    then have o16: "o' \<le> 16" by (simp add: c_simps not_less)
    have sl: "unat sl = 2 ^ unat o'" "unat sl \<le> 65536"
      using unat_shard_len(1) [OF o16] pow_order_le [OF o16] by (simp_all add: sl_def)
    have np: "unat np < 4294967296" by (rule unat_u32_less)
    have l1: "unat (76 + sl) = 76 + unat sl"
      using sl by (simp add: unat_word_ariths)
    have l2: "unat (sl * 32) = 32 * unat sl"
      using sl by (simp add: unat_word_ariths)
    have l3: "unat (76 + sl + sl * 32) = 76 + unat sl + 32 * unat sl"
      unfolding unat_word_ariths(1) [of "76 + sl" "sl * 32"] l1 l2 using sl by simp
    have l4: "unat (76 + sl + sl * 32 + ucast np) = 76 + unat sl + 32 * unat sl + unat np"
      unfolding unat_word_ariths(1) [of "76 + sl + sl * 32" "ucast np"] l3 using sl np by simp
    have l5: "unat (76 + sl + sl * 32 + ucast np + 12) = block_bytes_len hdr"
      unfolding unat_word_ariths(1) [of "76 + sl + sl * 32 + ucast np" 12] l4
      using sl np by (simp add: block_bytes_len_def flip: o'_def np_def)
    have nov: "\<not> add_overflows sl 76" "\<not> mul_overflows sl 32" "\<not> add_overflows (76 + sl) (sl * 32)"
      "\<not> add_overflows (76 + sl + sl * 32) (ucast np)"
      "\<not> add_overflows (76 + sl + sl * 32 + ucast np) 12"
      unfolding add_overflows_iff mul_overflows_iff l1 l2 l3 l4 using sl np by simp_all
    have szeq: "(sz = 76 + sl + sl * 32 + ucast np + 12) = (length buf = block_bytes_len hdr)"
      by (simp only: len l5 word_unat_eq_iff)
    have h: "c_slice buf 0 76 = Some (slice 0 76 buf)"
      using False by (simp add: c_slice_def slice_def)
    have c: "(sz < 76) = False" "(\<not> version_ok (bh_version hdr)) = False"
      "(PROTOCOL_MAX_SHARD_ORDER < o') = False"
      using False len by (simp_all add: size_less_unat)
    have step: "unmarshal_block_into sz buf =
      (if length buf \<noteq> block_bytes_len hdr then Some (Inl PROTOCOL_ECODE_INVALID_LEN)
       else do { nums \<leftarrow> c_slice buf (unat (76 :: size_t)) (unat sl);
                 merk \<leftarrow> c_slice buf (76 + unat sl) (32 * unat sl);
                 prev \<leftarrow> c_slice buf (76 + unat sl + 32 * unat sl) (unat np);
                 tail \<leftarrow> c_slice buf (76 + unat sl + 32 * unat sl + unat np) 12;
                 Some (Inr \<lparr>bp_hdr = hdr, bp_shard_nums = nums,
                            bp_merkles = dec_array id 32 (unat sl) 0 merk,
                            bp_prev_txhashes = prev, bp_tailer = dec_tailer tail\<rparr>) })"
      unfolding unmarshal_block_into_def h Option.bind.simps Let_def
        hdr_def [symmetric] o'_def [symmetric] np_def [symmetric] sl_def [symmetric]
      by (simp only: c nov szeq if_False l1 l2 l3 l4 unat_ucast_u32_size)
    have "block_of_bytes buf = \<lparr>bp_hdr = hdr, bp_shard_nums = slice 76 (unat sl) buf,
        bp_merkles = dec_array id 32 (unat sl) 0 (slice (76 + unat sl) (32 * unat sl) buf),
        bp_prev_txhashes = slice (76 + unat sl + 32 * unat sl) (unat np) buf,
        bp_tailer = dec_tailer (slice (76 + unat sl + 32 * unat sl + unat np) 12 buf)\<rparr>"
      unfolding block_of_bytes_def Let_def sl(1) hdr_def o'_def np_def ..
    moreover have "length buf = 76 + unat sl + 32 * unat sl + unat np + 12"
      if "length buf = block_bytes_len hdr"
      using that unfolding block_bytes_len_def sl(1) o'_def np_def by simp
    ultimately show ?thesis
      unfolding step Let_def hdr_def [symmetric] o'_def [symmetric] c if_False using False
      by (cases "length buf = block_bytes_len hdr") (simp_all add: c_slice_slice)
  qed
qed

lemma concat_dec_merkles:
  "length bs = 32 * n \<Longrightarrow> concat (dec_array id 32 n 0 bs) = bs"
  using concat_dec_array [of 0 n 32 bs id id] by (simp add: mult.commute)

lemma unmarshal_block_into_spec:
  assumes "length buf = unat sz"
  shows "\<exists>r. unmarshal_block_into sz buf = Some r \<and>
    (\<forall>b. r = Inr b \<longrightarrow> wf_block_parts b \<and> version_ok (bh_version (bp_hdr b))
       \<and> bh_shard_order (bp_hdr b) \<le> PROTOCOL_MAX_SHARD_ORDER
       \<and> marshal_block_into b = Some buf)"
proof -
  define hdr where "hdr = dec_hdr (slice 0 76 buf)"
  define n where "n = (2 :: nat) ^ unat (bh_shard_order hdr)"
  define np where "np = unat (bh_num_prev_txhashes hdr)"
  have good: "wf_block_parts b \<and> marshal_block_into b = Some buf"
    if len: "length buf = block_bytes_len hdr" and ord: "bh_shard_order hdr \<le> 16"
      and b: "b = block_of_bytes buf" for b
  proof -
    have L: "length buf = 76 + n + 32 * n + np + 12"
      using len by (simp add: block_bytes_len_def n_def np_def)
    have bb: "b = \<lparr>bp_hdr = hdr, bp_shard_nums = slice 76 n buf,
        bp_merkles = dec_array id 32 n 0 (slice (76 + n) (32 * n) buf),
        bp_prev_txhashes = slice (76 + n + 32 * n) np buf,
        bp_tailer = dec_tailer (slice (76 + n + 32 * n + np) 12 buf)\<rparr>"
      unfolding b block_of_bytes_def Let_def hdr_def n_def np_def ..
    have hl: "enc_hdr hdr = slice 0 76 buf"
      unfolding hdr_def using L by (intro enc_dec_hdr) simp
    have wfh: "wf_header hdr"
      unfolding hdr_def using L by (intro wf_dec_hdr) simp
    have n16: "n \<le> 65536"
      using pow_order_le [OF ord] by (simp add: n_def)
    have un: "unat (push_bit (unat (bh_shard_order hdr)) 1 :: u32) = n"
      using unat_shard_len(2) [OF ord] by (simp add: n_def)
    then have un2: "unat (2 ^ unat (bh_shard_order hdr) :: u32) = n"
      by (simp add: push_bit_eq_mult)
    have ml: "unat (32 * ucast (push_bit (unat (bh_shard_order hdr)) 1 :: u32) :: size_t) = 32 * n"
      using n16 by (simp add: unat_word_ariths un2)
    have "marshal_block_into b = Some (enc_hdr hdr @ slice 76 n buf @ slice (76 + n) (32 * n) buf
        @ slice (76 + n + 32 * n) np buf @ slice (76 + n + 32 * n + np) 12 buf)"
      using L by (simp add: marshal_block_into_def bb block_lengths_def Let_def un2
          ml [simplified] c_slice_slice concat_dec_merkles enc_dec_tailer np_def)
    also have "\<dots> = Some buf"
      using L by (simp add: hl slice_join slice_join_app)
    finally show ?thesis
      using wfh L by (simp add: wf_block_parts_def bb n_def np_def list_all_dec_array)
  qed
  show ?thesis
    using unmarshal_block_into_eq [OF assms] good
    by (auto simp: Let_def c_simps not_less block_of_bytes_def simp flip: hdr_def)
qed

text \<open>
  C20. \<open>unmarshal_block_into\<close>, given a buffer of \<open>sz\<close> bytes, never reads outside of it, and a
  block it accepts has the current version, at most \<open>2 ^ PROTOCOL_MAX_SHARD_ORDER\<close> shards,
  arrays of the lengths the header announces, and marshals back to exactly that buffer.
\<close>

theorem unmarshal_block_correct:
  assumes "length buf = unat sz"
  shows "\<exists>r. unmarshal_block_into sz buf = Some r \<and>
    (\<forall>b. r = Inr b \<longrightarrow> wf_block_parts b \<and> version_ok (bh_version (bp_hdr b))
       \<and> bh_shard_order (bp_hdr b) \<le> PROTOCOL_MAX_SHARD_ORDER
       \<and> marshal_block_into b = Some buf)"
  using assms by (rule unmarshal_block_into_spec)

lemma len64: "2 ^ LENGTH(64) = (2 ^ 64 :: nat)"
  by simp

definition block_body :: "block_parts \<Rightarrow> bytes" where
  "block_body b = enc_hdr (bp_hdr b) @ bp_shard_nums b @ concat (bp_merkles b)
     @ bp_prev_txhashes b @ enc_tailer (bp_tailer b)"

lemma marshal_block_into_eq:
  assumes wf: "wf_block_parts b" and ord: "bh_shard_order (bp_hdr b) \<le> 16"
  shows "marshal_block_into b = Some (block_body b)"
    and "length (block_body b) = block_bytes_len (bp_hdr b)"
    and "unat (marshal_block_len (bp_hdr b)) = block_bytes_len (bp_hdr b)"
    and "block_of_bytes (block_body b) = b"
proof -
  let ?h = "bp_hdr b"
  define n where "n = (2 :: nat) ^ unat (bh_shard_order ?h)"
  have n16: "n \<le> 65536" using pow_order_le [OF ord] by (simp add: n_def)
  have np: "unat (bh_num_prev_txhashes ?h) < 4294967296" by (rule unat_u32_less)
  have un: "unat (2 ^ unat (bh_shard_order ?h) :: u32) = n"
    using unat_shard_len(2) [OF ord] by (simp add: n_def push_bit_eq_mult)
  have lm: "length (concat (bp_merkles b)) = 32 * n"
    using wf length_concat_map [of "\<lambda>m. m" 32 "bp_merkles b"] by (simp add: wf_block_parts_def n_def)
  have lens: "length (bp_shard_nums b) = n" "length (bp_merkles b) = n" "wf_header ?h"
    "length (bp_prev_txhashes b) = unat (bh_num_prev_txhashes ?h)"
    using wf by (simp_all add: wf_block_parts_def n_def)
  show "marshal_block_into b = Some (block_body b)"
    using lens lm n16
    by (simp add: marshal_block_into_def block_lengths_def Let_def c_slice_slice un unat_word_ariths
        block_body_def)
  show "length (block_body b) = block_bytes_len ?h"
    using lens lm by (simp add: block_bytes_len_def n_def block_body_def)
  define x where "x = (ucast (2 ^ unat (bh_shard_order ?h) :: u32) :: size_t)"
  have "unat x = n" by (simp add: x_def un)
  then have "x = of_nat n" by auto
  then have "marshal_block_len ?h = of_nat (block_bytes_len ?h)"
    by (simp add: marshal_block_len_def block_lengths_def Let_def block_bytes_len_def n_def x_def)
  moreover have "block_bytes_len ?h < 2 ^ 64"
    using n16 np by (simp add: block_bytes_len_def n_def)
  ultimately show "unat (marshal_block_len ?h) = block_bytes_len ?h"
    by (metis unat_of_nat mod_less len64)
  have hd: "dec_hdr (slice 0 76 (block_body b)) = ?h"
    using lens dec_enc_hdr [of ?h "[]"] by (simp add: slice_prefix block_body_def)
  have arr: "dec_array id 32 n 0 (concat (bp_merkles b)) = bp_merkles b"
    using wf lens dec_array_concat [of id 32 id "bp_merkles b" 0 "[]" "[]"]
    by (simp add: wf_block_parts_def)
  show "block_of_bytes (block_body b) = b"
    unfolding block_of_bytes_def hd Let_def n_def [symmetric]
    using lens lm by (simp add: slice_skip slice_prefix arr dec_enc_tailer block_body_def)
qed

lemma marshal_block_reads_back:
  assumes wf: "wf_block_parts b" and v: "version_ok (bh_version (bp_hdr b))"
    and ord: "bh_shard_order (bp_hdr b) \<le> PROTOCOL_MAX_SHARD_ORDER"
    and fits: "12 + block_bytes_len (bp_hdr b) < 2 ^ 32"
  shows "\<exists>pkt. marshal_block b = Some pkt \<and> length pkt = 12 + block_bytes_len (bp_hdr b)
    \<and> unmarshal_block pkt = Some (Inr b)"
proof -
  have o16: "bh_shard_order (bp_hdr b) \<le> 16" using ord by (simp add: c_simps)
  note eq = marshal_block_into_eq [OF wf o16]
  define body where "body = block_body b"
  define len where "len = marshal_block_len (bp_hdr b)"
  define l32 where "l32 = (ucast (12 + len) :: u32)"
  have ul: "unat len = length body"
    using eq(2,3) by (simp add: len_def body_def)
  have "unat (12 + len) = 12 + length body"
    using fits eq(2) ul by (simp add: unat_word_ariths body_def)
  then have u32: "unat l32 = 12 + length body"
    using fits eq(2) by (simp add: l32_def unsigned_ucast_eq take_bit_eq_mod body_def)
  then have sz: "ucast l32 - 12 = len"
    using ul by (simp add: word_unat_eq_iff unat_sub_if')
  have mb: "marshal_block b = Some (cpu_to_le32 l32 @ cpu_to_le32 PROTOCOL_PKT_BLOCK
      @ cpu_to_le32 0 @ body)"
    using eq(1) by (simp add: marshal_block_def Let_def l32_def len_def body_def)
  have hd: "dec_hdr (slice 0 76 body) = bp_hdr b"
    using wf dec_enc_hdr [of "bp_hdr b" "[]"]
    by (simp add: body_def block_body_def slice_prefix wf_block_parts_def)
  have "unmarshal_block_into len body = Some (Inr b)"
    using unmarshal_block_into_eq [OF ul [symmetric]] eq(2,4) v ord hd
    by (simp add: Let_def not_less flip: body_def) (simp add: block_bytes_len_def)
  then have "unmarshal_block (cpu_to_le32 l32 @ cpu_to_le32 PROTOCOL_PKT_BLOCK
      @ cpu_to_le32 0 @ body) = Some (Inr b)"
    by (simp add: unmarshal_block_def rd32_append [where as = "[]", simplified] sz)
  with mb eq(2) show ?thesis by (simp add: body_def)
qed

text \<open>
  C21. Round trip of the block packet: \<open>marshal_block\<close> of a well-formed block whose length fits
  the 32-bit length field yields a packet which \<open>unmarshal_block\<close> accepts and turns back into
  the same header, shard counts, merkles, previous hashes and tailer.
\<close>

theorem marshal_block_roundtrip:
  assumes wf: "wf_block_parts b" and v: "version_ok (bh_version (bp_hdr b))"
    and ord: "bh_shard_order (bp_hdr b) \<le> PROTOCOL_MAX_SHARD_ORDER"
    and fits: "12 + block_bytes_len (bp_hdr b) < 2 ^ 32"
  shows "\<exists>pkt. marshal_block b = Some pkt \<and> length pkt = 12 + block_bytes_len (bp_hdr b)
    \<and> unmarshal_block pkt = Some (Inr b)"
  using assms by (rule marshal_block_reads_back)

subsection \<open>Examples\<close>

definition ex_claim :: protocol_tx where
  "ex_claim = Claim \<lparr>tx_version = 1, tx_fee = False, tx_features = 0, c_input_key = replicate 33 2,
     c_amount = 1000, c_input = \<lparr>in_input = replicate 32 9, in_output = 0, in_unused = 0\<rparr>,
     c_signature = \<lparr>sig_r = replicate 32 0, sig_s = replicate 32 0\<rparr>\<rparr>"

definition ex_normal :: protocol_tx where
  "ex_normal = Normal \<lparr>tx_version = 1, tx_fee = True, tx_features = 0, n_input_key = replicate 33 3,
     n_output_addr = replicate 20 5, n_send_amount = 1000, n_change_amount = 500, n_num_inputs = 1,
     n_signature = \<lparr>sig_r = replicate 32 0, sig_s = replicate 32 0\<rparr>,
     n_inputs = [\<lparr>in_input = replicate 32 9, in_output = 1, in_unused = 0\<rparr>]\<rparr>"

definition ex_parts :: block_parts where
  "ex_parts = \<lparr>bp_hdr = \<lparr>bh_version = 1, bh_features_vote = 0, bh_shard_order = 0,
       bh_nonce2 = replicate 13 0, bh_prev_block = replicate 32 7, bh_num_prev_txhashes = 1,
       bh_depth = 1, bh_fees_to = replicate 20 4\<rparr>,
     bp_shard_nums = [2], bp_merkles = [replicate 32 1], bp_prev_txhashes = [8],
     bp_tailer = \<lparr>bt_timestamp = 1000, bt_difficulty = 0x1F00FFFF, bt_nonce1 = 5\<rparr>\<rparr>"

lemma ex_wf: "wf_tx ex_claim" "wf_tx ex_normal" "version_ok (hdr_version ex_claim)" "version_ok (hdr_version ex_normal)"
  "wf_block_parts ex_parts" "version_ok (bh_version (bp_hdr ex_parts))"
  "bh_shard_order (bp_hdr ex_parts) \<le> PROTOCOL_MAX_SHARD_ORDER"
  "12 + block_bytes_len (bp_hdr ex_parts) < 2 ^ 32"
  by (simp_all add: ex_claim_def ex_normal_def ex_parts_def wf_input_def wf_signature_def version_ok_def current_version_def
    wf_block_parts_def wf_header_def c_simps block_bytes_len_def)

lemma ex_claim_len: "length (enc_tx ex_claim) = 140" "length (enc_tx ex_normal) = 168"
  by (simp_all add: length_enc_tx ex_wf) (simp_all add: ex_claim_def ex_normal_def)

theorem unmarshal_tx_witness:
  "\<exists>used. unmarshal_tx (enc_tx ex_claim) 140 True = Some (PROTOCOL_ECODE_NONE, used)
     \<and> enc_tx ex_claim = take (unat used) (enc_tx ex_claim) \<and> marshal_tx_len ex_claim = Some used"
  using unmarshal_tx_correct [of "enc_tx ex_claim" 140] cast_tx_enc [OF ex_wf(1), of "[]"] ex_wf(3)
  by (auto simp: ex_claim_len)

theorem marshal_tx_roundtrip_witness:
  "unmarshal_tx (enc_tx ex_normal) 168 False = Some (PROTOCOL_ECODE_NONE, 0) \<and> cast_tx (enc_tx ex_normal) = Some ex_normal"
  using marshal_tx_roundtrip [OF ex_wf(2,4)] by (simp add: ex_claim_len)

theorem marshal_block_roundtrip_witness:
  "\<exists>pkt. marshal_block ex_parts = Some pkt \<and> length pkt = 134 \<and> unmarshal_block pkt = Some (Inr ex_parts)"
  using marshal_block_roundtrip [OF ex_wf(5-8)] by (simp add: ex_parts_def block_bytes_len_def)

lemma ex_body: "length (block_body ex_parts) = unat (122 :: size_t)"
  by (simp add: block_body_def ex_parts_def wf_header_def)

theorem unmarshal_block_witness:
  "\<exists>b. unmarshal_block_into 122 (block_body ex_parts) = Some (Inr b) \<and> wf_block_parts b
     \<and> marshal_block_into b = Some (block_body ex_parts)"
proof -
  have "block_bytes_len (bp_hdr ex_parts) = 122" "dec_hdr (slice 0 76 (block_body ex_parts)) = bp_hdr ex_parts"
    using dec_enc_hdr [of "bp_hdr ex_parts" "[]"]
    by (simp_all add: block_body_def ex_parts_def block_bytes_len_def wf_header_def slice_prefix)
  then have "\<exists>b. unmarshal_block_into 122 (block_body ex_parts) = Some (Inr b)"
    using unmarshal_block_into_eq [OF ex_body] ex_body ex_wf(6,7) by (simp add: Let_def not_less)
  then show ?thesis using unmarshal_block_correct [OF ex_body] by auto
qed

end
