(* ===== verification/Hashing.thy ===== *)
theory Hashing
  imports Marshal
begin

section \<open>Double SHA, transaction hashes and merkle trees\<close>

text \<open>
  \<^verbatim>\<open>shadouble.c\<close>, \<^verbatim>\<open>hash_tx.c\<close>, \<^verbatim>\<open>hash_block.c\<close>, \<^verbatim>\<open>merkle_recurse.c\<close>, \<^verbatim>\<open>merkle_hashes.c\<close>
  and \<^verbatim>\<open>signature.c\<close>. A hash over several \<^verbatim>\<open>SHA256_Update\<close> calls is the hash of the
  concatenation of their arguments.

  \<open>mroot\<close> is the reference definition of a merkle root, and \<open>climb\<close> the value obtained by
  climbing from a leaf with a list of siblings. The binding lemma \<open>climb_binding\<close> says that
  two ways to reach the same root agree in every node, or exhibit two different 64-byte
  strings with the same double SHA: no unsatisfiable injectivity of the hash is assumed.
\<close>

definition SHA256_Double_Final :: "openssl \<Rightarrow> bytes \<Rightarrow> sha" where
  "SHA256_Double_Final ssl bs = SHA256 ssl (SHA256 ssl bs)"

definition merkle_two_hashes :: "openssl \<Rightarrow> sha \<Rightarrow> sha \<Rightarrow> sha" where
  "merkle_two_hashes ssl a b = SHA256_Double_Final ssl (a @ b)"

text \<open>
  The callback \<open>fn\<close> may fail (\<open>None\<close>). The two assertions of the C code are the first branch.
\<close>

function merkle_recurse ::
    "openssl \<Rightarrow> nat \<Rightarrow> nat \<Rightarrow> nat \<Rightarrow> (nat \<Rightarrow> sha option) \<Rightarrow> sha option" where
  "merkle_recurse ssl off max_off num fn =
     (if num AND (num - 1) \<noteq> 0 \<or> num = 0 then None
      else if num = 1 then (if off \<ge> max_off then Some (replicate 32 0) else fn off)
      else do {
        sub0 \<leftarrow> merkle_recurse ssl off max_off (num div 2) fn;
        sub1 \<leftarrow> merkle_recurse ssl (off + num div 2) max_off (num div 2) fn;
        Some (SHA256_Double_Final ssl (sub0 @ sub1)) })"
  by pat_completeness auto
termination
  by (relation "measure (\<lambda>(ssl, off, max_off, num, fn). num)") auto

declare merkle_recurse.simps [simp del]

definition merkle_hash :: "openssl \<Rightarrow> protocol_txrefhash list \<Rightarrow> nat \<Rightarrow> sha option" where
  "merkle_hash ssl hashes n =
     do { h \<leftarrow> c_nth hashes n; Some (merkle_two_hashes ssl (trh_txhash h) (trh_refhash h)) }"

definition merkle_hashes :: "openssl \<Rightarrow> protocol_txrefhash list \<Rightarrow> nat \<Rightarrow> nat \<Rightarrow> sha option" where
  "merkle_hashes ssl hashes off num_hashes =
     merkle_recurse ssl off num_hashes 256 (merkle_hash ssl hashes)"

definition hash_refs :: "openssl \<Rightarrow> protocol_input_ref list \<Rightarrow> nat \<Rightarrow> sha option" where
  "hash_refs ssl refs num_refs =
     do { rs \<leftarrow> c_slice refs 0 num_refs;
          Some (SHA256_Double_Final ssl (concat (map enc_ref rs))) }"

definition hash_tx :: "openssl \<Rightarrow> protocol_tx \<Rightarrow> sha option" where
  "hash_tx ssl tx =
     do { len \<leftarrow> marshal_tx_len tx; bs \<leftarrow> c_slice (enc_tx tx) 0 (unat len);
          Some (SHA256_Double_Final ssl bs) }"

definition hash_tx_and_refs ::
    "openssl \<Rightarrow> protocol_tx \<Rightarrow> protocol_input_ref list \<Rightarrow> protocol_txrefhash option" where
  "hash_tx_and_refs ssl tx refs =
     do { th \<leftarrow> hash_tx ssl tx; rh \<leftarrow> hash_refs ssl refs (unat (num_inputs tx));
          Some \<lparr>trh_txhash = th, trh_refhash = rh\<rparr> }"

definition hash_block :: "openssl \<Rightarrow> block_parts \<Rightarrow> sha option" where
  "hash_block ssl b =
     (let hdr = bp_hdr b; order = unat (bh_shard_order hdr) in
      do { prev \<leftarrow> c_slice (bp_prev_txhashes b) 0 (unat (bh_num_prev_txhashes hdr));
           let hash_of_prev = SHA256_Double_Final ssl prev;
           merk \<leftarrow> c_slice (concat (bp_merkles b)) 0 (32 * 2 ^ order);
           let hash_of_merkles = SHA256_Double_Final ssl merk;
           nums \<leftarrow> c_slice (bp_shard_nums b) 0 (2 ^ order);
           Some (SHA256_Double_Final ssl
             (hash_of_prev @ hash_of_merkles @ enc_hdr hdr @ nums @ enc_tailer (bp_tailer b))) })"

subsection \<open>Signatures (signature.c)\<close>

fun get_signature :: "protocol_tx \<Rightarrow> protocol_signature" where
  "get_signature (Normal t) = n_signature t"
| "get_signature (From_gateway t) = fg_signature t"
| "get_signature (To_gateway t) = tg_signature t"
| "get_signature (Claim t) = c_signature t"

text \<open>Offset of the signature field in each structure.\<close>

fun sig_offset :: "protocol_tx \<Rightarrow> nat" where
  "sig_offset (Normal t) = 68"
| "sig_offset (From_gateway t) = 40"
| "sig_offset (To_gateway t) = 68"
| "sig_offset (Claim t) = 76"

fun set_signature :: "protocol_tx \<Rightarrow> protocol_signature \<Rightarrow> protocol_tx" where
  "set_signature (Normal t) s = Normal (t\<lparr>n_signature := s\<rparr>)"
| "set_signature (From_gateway t) s = From_gateway (t\<lparr>fg_signature := s\<rparr>)"
| "set_signature (To_gateway t) s = To_gateway (t\<lparr>tg_signature := s\<rparr>)"
| "set_signature (Claim t) s = Claim (t\<lparr>c_signature := s\<rparr>)"

definition sighash_tx :: "openssl \<Rightarrow> protocol_tx \<Rightarrow> sha option" where
  "sighash_tx ssl tx =
     do { len \<leftarrow> marshal_tx_len tx;
          before \<leftarrow> c_slice (enc_tx tx) 0 (sig_offset tx);
          after \<leftarrow> c_slice (enc_tx tx) (sig_offset tx + 64) (unat len - (sig_offset tx + 64));
          Some (SHA256_Double_Final ssl (before @ after)) }"

definition check_tx_sign :: "openssl \<Rightarrow> protocol_tx \<Rightarrow> pubkey \<Rightarrow> bool option" where
  "check_tx_sign ssl tx key =
     (let signature = get_signature tx in
      do { sha \<leftarrow> sighash_tx ssl tx;
           if \<not> o2i_ECPublicKey ssl key then Some False
           else do {
             s31 \<leftarrow> c_nth (sig_s signature) 31;
             if s31 AND 1 \<noteq> 0 then Some False
             else (case (BN_bin2bn ssl (sig_r signature), BN_bin2bn ssl (sig_s signature)) of
                 (Some r, Some s) \<Rightarrow>
                   (let v = ECDSA_do_verify ssl sha (r, s) key in
                    Some (\<not> (v = 0 \<or> v = -1)))
               | _ \<Rightarrow> Some False) } })"

definition bn_pad32 :: "openssl \<Rightarrow> nat \<Rightarrow> bytes option" where
  \<comment> \<open>\<open>memset\<close> to zero, then \<open>BN_bn2bin\<close> into the last \<open>BN_num_bytes\<close> of 32 bytes\<close>
  "bn_pad32 ssl n =
     do { c_assert (BN_num_bytes ssl n \<le> 32);
          Some (replicate (32 - BN_num_bytes ssl n) 0 @ BN_bn2bin ssl n) }"

text \<open>\<open>sign_tx\<close> returns the signed transaction, or \<open>None\<close> inside for the \<open>false\<close> result.\<close>

definition sign_tx :: "openssl \<Rightarrow> protocol_tx \<Rightarrow> nat \<Rightarrow> protocol_tx option option" where
  "sign_tx ssl tx private_key =
     do { sha \<leftarrow> sighash_tx ssl tx;
          (case ECDSA_do_sign ssl sha private_key of
             None \<Rightarrow> Some None
           | Some (r, s) \<Rightarrow>
               do { let s' = (if odd s then EC_GROUP_get_order ssl - s else s);
                    c_assert (even s');
                    rb \<leftarrow> bn_pad32 ssl r;
                    sb \<leftarrow> bn_pad32 ssl s';
                    Some (Some (set_signature tx \<lparr>sig_r = rb, sig_s = sb\<rparr>)) }) }"

subsection \<open>Reference definitions\<close>

fun mroot :: "(bytes \<Rightarrow> sha) \<Rightarrow> (nat \<Rightarrow> sha) \<Rightarrow> nat \<Rightarrow> nat \<Rightarrow> sha" where
  "mroot H leaf 0 off = leaf off"
| "mroot H leaf (Suc k) off = H (mroot H leaf k off @ mroot H leaf k (off + 2 ^ k))"

fun climb :: "(bytes \<Rightarrow> sha) \<Rightarrow> sha \<Rightarrow> nat \<Rightarrow> sha list \<Rightarrow> nat \<Rightarrow> sha" where
  \<comment> \<open>the node reached from leaf \<open>sh\<close> at position \<open>off\<close> after \<open>k\<close> levels\<close>
  "climb H sh off ms 0 = sh"
| "climb H sh off ms (Suc k) =
     (if bit off k then H (ms ! k @ climb H sh off ms k) else H (climb H sh off ms k @ ms ! k))"

definition node_off :: "nat \<Rightarrow> nat \<Rightarrow> nat" where
  "node_off off k = off div 2 ^ k * 2 ^ k"

definition sibling_off :: "nat \<Rightarrow> nat \<Rightarrow> nat" where
  "sibling_off off k = node_off off (Suc k) + (if bit off k then 0 else 2 ^ k)"

definition sha_collision :: "openssl \<Rightarrow> bool" where
  "sha_collision ssl \<longleftrightarrow>
     (\<exists>x y. x \<noteq> y \<and> length x = 64 \<and> length y = 64
        \<and> SHA256_Double_Final ssl x = SHA256_Double_Final ssl y)"

subsection \<open>merkle_recurse computes the merkle root\<close>

lemma length_double [simp]: "digest_ok ssl \<Longrightarrow> length (SHA256_Double_Final ssl bs) = 32"
  by (simp add: SHA256_Double_Final_def)

lemma pow2_and_pred: "(2 ^ k :: nat) AND (2 ^ k - 1) = 0"
proof -
  have "(2 ^ k :: nat) AND mask k = take_bit k (2 ^ k)"
    by (simp only: take_bit_eq_mask)
  then show ?thesis by (simp add: mask_eq_exp_minus_1 take_bit_eq_mod)
qed

lemma merkle_recurse_leaf:
  "merkle_recurse ssl off max_off 1 fn = (if off \<ge> max_off then Some (replicate 32 0) else fn off)"
  by (subst merkle_recurse.simps) simp

lemma merkle_recurse_node:
  "merkle_recurse ssl off max_off (2 ^ Suc k) fn =
     do { a \<leftarrow> merkle_recurse ssl off max_off (2 ^ k) fn;
          b \<leftarrow> merkle_recurse ssl (off + 2 ^ k) max_off (2 ^ k) fn;
          Some (SHA256_Double_Final ssl (a @ b)) }"
  using pow2_and_pred [of "Suc k"] merkle_recurse.simps [of ssl off max_off "2 ^ Suc k" fn]
  by simp

lemma merkle_recurse_mroot:
  assumes "\<And>i. i < max_off \<Longrightarrow> fn i = Some (leaf i)" and "\<And>i. max_off \<le> i \<Longrightarrow> leaf i = replicate 32 0"
  shows "merkle_recurse ssl off max_off (2 ^ k) fn = Some (mroot (SHA256_Double_Final ssl) leaf k off)"
proof (induction k arbitrary: off)
  case 0
  then show ?case
    using assms merkle_recurse_leaf [of ssl off max_off fn] by (cases "off < max_off") simp_all
next
  case (Suc k)
  then show ?case by (simp add: merkle_recurse_node del: power_Suc)
qed

lemma length_mroot:
  assumes "digest_ok ssl" and "\<And>i. length (leaf i) = 32"
  shows "length (mroot (SHA256_Double_Final ssl) leaf k off) = 32"
  using assms by (cases k) simp_all

subsection \<open>Climbing with siblings\<close>

lemma node_off_0 [simp]: "node_off off 0 = off"
  by (simp add: node_off_def)

lemma node_off_step: "node_off off k = node_off off (Suc k) + (if bit off k then 2 ^ k else 0)"
proof -
  have "off div 2 ^ k = 2 * (off div 2 ^ k div 2) + of_bool (odd (off div 2 ^ k))"
    by (simp add: mod_2_eq_odd flip: mult_div_mod_eq [of 2])
  then have "node_off off k = (2 * (off div 2 ^ k div 2) + of_bool (odd (off div 2 ^ k))) * 2 ^ k"
    by (simp add: node_off_def)
  moreover have "off div 2 ^ Suc k = off div 2 ^ k div 2"
    by (simp only: power_Suc2 div_mult2_eq)
  ultimately show ?thesis
    unfolding node_off_def [of off "Suc k"] by (simp add: bit_iff_odd algebra_simps)
qed

lemma mroot_node:
  "mroot H leaf (Suc k) (node_off off (Suc k)) =
     (if bit off k
      then H (mroot H leaf k (sibling_off off k) @ mroot H leaf k (node_off off k))
      else H (mroot H leaf k (node_off off k) @ mroot H leaf k (sibling_off off k)))"
  using node_off_step [of off k] by (simp add: sibling_off_def)

lemma climb_complete:
  assumes "\<And>j. j < k \<Longrightarrow> ms ! j = mroot H leaf j (sibling_off off j)"
  shows "climb H (leaf off) off ms k = mroot H leaf k (node_off off k)"
  using assms
proof (induction k)
  case (Suc k)
  then show ?case by (simp only: mroot_node climb.simps less_Suc_eq simp_thms)
qed simp

lemma length_climb:
  assumes "digest_ok ssl" and "length sh = 32"
  shows "length (climb (SHA256_Double_Final ssl) sh off ms k) = 32"
  using assms by (cases k) simp_all

lemma climb_binding:
  assumes ok: "digest_ok ssl" and lsh: "length sh = 32" and lleaf: "\<And>i. length (leaf i) = 32"
    and lms: "\<And>j. j < k \<Longrightarrow> length (ms ! j) = 32"
    and root: "climb (SHA256_Double_Final ssl) sh off ms k =
      mroot (SHA256_Double_Final ssl) leaf k (node_off off k)"
  shows "(sh = leaf off \<and> (\<forall>j < k. ms ! j = mroot (SHA256_Double_Final ssl) leaf j (sibling_off off j)))
    \<or> sha_collision ssl"
  using lms root
proof (induction k)
  case 0
  then show ?case by simp
next
  case (Suc k)
  let ?H = "SHA256_Double_Final ssl"
  let ?c = "climb ?H sh off ms k" and ?n = "mroot ?H leaf k (node_off off k)"
  let ?s = "mroot ?H leaf k (sibling_off off k)"
  have len: "length ?c = 32" "length ?n = 32" "length ?s = 32" "length (ms ! k) = 32"
    using length_climb [OF ok lsh] length_mroot [OF ok lleaf] Suc.prems(1) by simp_all
  have eq: "(if bit off k then ?H (ms ! k @ ?c) else ?H (?c @ ms ! k)) =
      (if bit off k then ?H (?s @ ?n) else ?H (?n @ ?s))"
    using Suc.prems(2) by (simp only: mroot_node climb.simps)
  show ?case
  proof (cases "?c = ?n \<and> ms ! k = ?s")
    case True
    with Suc.IH Suc.prems(1) show ?thesis by (auto simp: less_Suc_eq)
  next
    case False
    then have "ms ! k @ ?c \<noteq> ?s @ ?n" and "?c @ ms ! k \<noteq> ?n @ ?s"
      using len by auto
    with eq len have "sha_collision ssl"
      unfolding sha_collision_def by (metis (no_types) length_append numeral_Bit0)
    then show ?thesis by simp
  qed
qed

subsection \<open>Signatures\<close>

text \<open>What the ECDSA manual page promises of a signature made with a private key.\<close>

definition ecdsa_ok :: "openssl \<Rightarrow> bool" where
  "ecdsa_ok ssl \<longleftrightarrow>
     odd (EC_GROUP_get_order ssl) \<and> EC_GROUP_get_order ssl \<le> 2 ^ 256 \<and>
     (\<forall>k. o2i_ECPublicKey ssl (i2o_ECPublicKey ssl k)) \<and>
     (\<forall>sha k r s. ECDSA_do_sign ssl sha k = Some (r, s) \<longrightarrow>
        r < EC_GROUP_get_order ssl \<and> s < EC_GROUP_get_order ssl
        \<and> ECDSA_do_verify ssl sha (r, s) (i2o_ECPublicKey ssl k) = 1
        \<and> ECDSA_do_verify ssl sha (r, EC_GROUP_get_order ssl - s) (i2o_ECPublicKey ssl k) = 1)"

lemma le_nat_zeros [simp]: "le_nat (xs @ replicate m 0) = le_nat xs"
proof -
  have "le_nat (replicate m 0) = 0" by (induction m) auto
  then show ?thesis by (simp add: le_nat_append)
qed

lemma be_nat_zeros [simp]: "be_nat (replicate m 0 @ xs) = be_nat xs"
  by (simp add: be_nat_def)

lemma be_nat_parity:
  assumes "length bs = Suc n"
  shows "even (be_nat bs) \<longleftrightarrow> bs ! n AND 1 = 0"
proof -
  obtain xs x where bs: "bs = xs @ [x]" and "length xs = n"
    using assms by (metis length_Suc_conv_rev)
  then have "even (be_nat bs) \<longleftrightarrow> even (unat x)" and "bs ! n = x"
    by (auto simp: be_nat_def nth_append)
  moreover have "odd (unat x) \<longleftrightarrow> odd x"
    by (simp add: bit_unsigned_iff flip: bit_0)
  ultimately show ?thesis
    by (simp add: and_one_eq mod2_eq_if)
qed

lemma bn_pad32_Some:
  assumes "bn_ok ssl" and "n < 2 ^ 256"
  shows "\<exists>b. bn_pad32 ssl n = Some b \<and> length b = 32 \<and> be_nat b = n"
proof -
  have "n < 256 ^ 32" using assms(2) by simp
  then have "num_bytes n \<le> 32" by (rule num_bytes_le)
  moreover have "n mod 256 ^ num_bytes n = n"
    by (intro mod_less num_bytes_gt)
  ultimately show ?thesis
    using bn_okD(11,13) [OF assms(1)] by (simp add: bn_pad32_def be_nat_nat_be)
qed

lemma sig_split:
  assumes "wf_tx tx"
  shows "\<exists>before after. enc_tx tx = before @ enc_signature (get_signature tx) @ after
    \<and> length before = sig_offset tx
    \<and> (\<forall>s. wf_signature s \<longrightarrow> enc_tx (set_signature tx s) = before @ enc_signature s @ after)"
proof (cases tx)
  case (Normal t)
  with assms show ?thesis
    by (intro exI [of _ "take 68 (enc_tx tx)"] exI [of _ "drop 132 (enc_tx tx)"])
      (simp add: enc_tx_hdr_def hdr_type_def)
next
  case (From_gateway t)
  with assms show ?thesis
    by (intro exI [of _ "take 40 (enc_tx tx)"] exI [of _ "drop 104 (enc_tx tx)"])
      (simp add: enc_tx_hdr_def hdr_type_def)
next
  case (To_gateway t)
  with assms show ?thesis
    by (intro exI [of _ "take 68 (enc_tx tx)"] exI [of _ "drop 132 (enc_tx tx)"])
      (simp add: enc_tx_hdr_def hdr_type_def)
next
  case (Claim t)
  with assms show ?thesis
    by (intro exI [of _ "take 76 (enc_tx tx)"] exI [of _ "drop 140 (enc_tx tx)"])
      (simp add: enc_tx_hdr_def hdr_type_def)
qed

lemma wf_set_signature: "wf_tx tx \<Longrightarrow> wf_signature s \<Longrightarrow> wf_tx (set_signature tx s)"
  by (cases tx) auto

lemma set_signature_simps [simp]:
  "get_signature (set_signature tx s) = s" "marshal_tx_len (set_signature tx s) = marshal_tx_len tx"
  "sig_offset (set_signature tx s) = sig_offset tx"
  by (cases tx; simp)+

lemma sighash_set_signature:
  assumes "wf_tx tx" and "wf_signature s"
  shows "sighash_tx ssl (set_signature tx s) = sighash_tx ssl tx" and "\<exists>h. sighash_tx ssl tx = Some h"
proof -
  have wfs: "wf_signature (get_signature tx)" using assms(1) by (cases tx) auto
  obtain before after where e: "enc_tx tx = before @ enc_signature (get_signature tx) @ after"
    and lb: "length before = sig_offset tx"
    and e': "enc_tx (set_signature tx s) = before @ enc_signature s @ after"
    using sig_split [OF assms(1)] assms(2) by blast
  obtain len where len: "marshal_tx_len tx = Some len" "unat len = length (enc_tx tx)"
    using marshal_tx_len_eq [of tx] length_enc_tx [OF assms(1)] by auto
  show "sighash_tx ssl (set_signature tx s) = sighash_tx ssl tx"
    using len e e' lb wfs assms(2)
    by (simp add: sighash_tx_def c_slice_def)
  show "\<exists>h. sighash_tx ssl tx = Some h"
    using len e lb wfs by (simp add: sighash_tx_def c_slice_def)
qed

lemma sign_tx_verifies:
  assumes bn: "bn_ok ssl" and ec: "ecdsa_ok ssl" and wf: "wf_tx tx"
    and signed: "sign_tx ssl tx k = Some (Some tx')"
  shows "check_tx_sign ssl tx' (i2o_ECPublicKey ssl k) = Some True \<and> wf_tx tx'"
proof -
  let ?N = "EC_GROUP_get_order ssl"
  obtain h r s where h: "sighash_tx ssl tx = Some h" and sg: "ECDSA_do_sign ssl h k = Some (r, s)"
    using signed by (auto simp: sign_tx_def bind_eq_Some_conv split: option.splits)
  define s' where "s' = (if odd s then ?N - s else s)"
  have b: "r < ?N" "s < ?N" "?N \<le> 2 ^ 256" "odd ?N" "o2i_ECPublicKey ssl (i2o_ECPublicKey ssl k)"
    and v: "ECDSA_do_verify ssl h (r, s') (i2o_ECPublicKey ssl k) = 1"
    using ec sg by (auto simp: ecdsa_ok_def s'_def)
  have "even s'" and "s' < 2 ^ 256"
    using b odd_pos [of s] by (auto simp: s'_def)
  obtain rb where rb: "bn_pad32 ssl r = Some rb" "length rb = 32" "be_nat rb = r"
    using bn_pad32_Some [OF bn, of r] b by auto
  obtain sb where sb: "bn_pad32 ssl s' = Some sb" "length sb = 32" "be_nat sb = s'"
    using bn_pad32_Some [OF bn, of s'] \<open>s' < 2 ^ 256\<close> by auto
  define sg' where "sg' = \<lparr>sig_r = rb, sig_s = sb\<rparr>"
  have wfs: "wf_signature sg'" using rb sb by (simp add: wf_signature_def sg'_def)
  have tx': "tx' = set_signature tx sg'"
    using signed h sg rb sb \<open>even s'\<close> by (simp add: sign_tx_def s'_def sg'_def)
  have "sb ! 31 AND 1 = 0"
    using be_nat_parity [of sb 31] sb \<open>even s'\<close> by simp
  then have "check_tx_sign ssl tx' (i2o_ECPublicKey ssl k) = Some True"
    using sighash_set_signature(1) [OF wf wfs] h b v rb sb bn_okD(12) [OF bn]
    by (simp add: check_tx_sign_def Let_def tx' sg'_def)
  then show ?thesis using wf_set_signature [OF wf wfs] tx' by simp
qed

text \<open>
  A transaction signed by \<open>sign_tx\<close> passes \<open>check_tx_sign\<close> with the signer's public key: the
  signature bytes do not enter the hash that is signed, and the even-S rule the checker
  enforces is the one the signer normalises to.
\<close>

theorem sign_tx_check_tx_sign:
  assumes bn: "bn_ok ssl" and ec: "ecdsa_ok ssl" and wf: "wf_tx tx"
    and signed: "sign_tx ssl tx k = Some (Some tx')"
  shows "check_tx_sign ssl tx' (i2o_ECPublicKey ssl k) = Some True \<and> wf_tx tx'"
  using assms by (rule sign_tx_verifies)

lemma ecdsa_ok_model: "ecdsa_ok model_openssl"
  by (auto simp: ecdsa_ok_def model_openssl_def)

lemma model_sign:
  assumes "wf_tx tx"
  shows "\<exists>tx'. sign_tx model_openssl tx 6 = Some (Some tx')"
proof -
  have "ECDSA_do_sign model_openssl h 6 = Some (be_nat h mod (2 ^ 256 - 1), 6)" for h
    by (simp add: model_openssl_def)
  moreover obtain h where "sighash_tx model_openssl tx = Some h"
    using sighash_set_signature(2) [OF assms, of "\<lparr>sig_r = replicate 32 0, sig_s = replicate 32 0\<rparr>"]
    by (auto simp: wf_signature_def)
  moreover have "be_nat h mod (2 ^ 256 - 1) < 2 ^ 256"
    by (rule less_trans [OF mod_less_divisor]) simp_all
  then obtain x where "bn_pad32 model_openssl (be_nat h mod (2 ^ 256 - 1)) = Some x"
    using bn_pad32_Some [OF bn_ok_model] by blast
  moreover obtain y where "bn_pad32 model_openssl 6 = Some y"
    using bn_pad32_Some [OF bn_ok_model, of 6] by auto
  ultimately show ?thesis by (simp add: sign_tx_def)
qed

theorem sign_tx_check_tx_sign_witness:
  "\<exists>tx'. sign_tx model_openssl ex_claim 6 = Some (Some tx')
     \<and> check_tx_sign model_openssl tx' (i2o_ECPublicKey model_openssl 6) = Some True"
  using model_sign [OF ex_wf(1)] sign_tx_check_tx_sign [OF bn_ok_model ecdsa_ok_model ex_wf(1)] by blast

end
