(* ===== verification/Ordering.thy ===== *)
theory Ordering
  imports Hashing "HOL-Library.List_Lexorder"
begin

section \<open>Transaction order and shards\<close>

text \<open>
  \<^verbatim>\<open>tx_cmp.c\<close>, \<^verbatim>\<open>shard.h\<close> and \<^verbatim>\<open>shard.c\<close>: the order in which transactions stand inside a block,
  and the shard a transaction belongs to.

  The contract other components rely on is the locale \<open>total_cmp\<close>: a three-way comparison
  which is total on the valid elements, antisymmetric, transitive and zero exactly on equal
  elements. Its lemmas (strictly sorted arrays, the binary search of the pending arrays, sorted
  insertion) are proved once from that contract and reach \<open>tx_cmp\<close> by the interpretation
  \<open>txo\<close>. The reference definition of the order is the lexicographic order of \<open>tx_key\<close>.
\<close>

subsection \<open>tx_cmp.c\<close>

fun tx_order_addr :: "openssl \<Rightarrow> protocol_tx \<Rightarrow> address option" where
  \<comment> \<open>the switch that selects the address to order by\<close>
  "tx_order_addr ssl (Normal t) = get_tx_input_address ssl (Normal t)"
| "tx_order_addr ssl (To_gateway t) = get_tx_input_address ssl (To_gateway t)"
| "tx_order_addr ssl (From_gateway t) = map_option gp_output_addr (c_nth (get_from_gateway_outputs t) 0)"
| "tx_order_addr ssl (Claim t) = Some (pubkey_to_addr ssl (c_input_key t))"

definition tx_cmp :: "openssl \<Rightarrow> protocol_tx \<Rightarrow> protocol_tx \<Rightarrow> int option" where
  "tx_cmp ssl a b =
     do { addra \<leftarrow> tx_order_addr ssl a;
          addrb \<leftarrow> tx_order_addr ssl b;
          let ret = memcmp addra addrb;
          if ret \<noteq> 0 then Some ret
          else do {
            lena \<leftarrow> marshal_tx_len a;
            lenb \<leftarrow> marshal_tx_len b;
            if lena < lenb then do {
              x \<leftarrow> c_slice (enc_tx a) 0 (unat lena);
              y \<leftarrow> c_slice (enc_tx b) 0 (unat lena);
              Some (let ret = memcmp x y in if ret = 0 then -1 else ret) }
            else if lenb < lena then do {
              x \<leftarrow> c_slice (enc_tx a) 0 (unat lenb);
              y \<leftarrow> c_slice (enc_tx b) 0 (unat lenb);
              Some (let ret = memcmp x y in if ret = 0 then 1 else ret) }
            else do {
              x \<leftarrow> c_slice (enc_tx a) 0 (unat lenb);
              y \<leftarrow> c_slice (enc_tx b) 0 (unat lenb);
              Some (memcmp x y) } } }"

subsection \<open>shard.h, shard.c\<close>

text \<open>
  In C the shift is done on \<open>int\<close>; the shift count is \<open>16 - shard_order\<close>, which no caller makes
  negative (\<open>unmarshal_block_into\<close> refuses orders above 16): a negative count is \<open>None\<close>.
\<close>

definition shard_of :: "address \<Rightarrow> u8 \<Rightarrow> u16 option" where
  "shard_of addr shard_order =
     do { b \<leftarrow> c_slice addr 0 2;
          c_assert (unat shard_order \<le> 16);
          Some (word_of_nat (be_nat b div 2 ^ (16 - unat shard_order))) }"

fun shard_of_tx :: "openssl \<Rightarrow> protocol_tx \<Rightarrow> u8 \<Rightarrow> u32 option" where
  "shard_of_tx ssl (From_gateway t) shard_order =
     do { addr \<leftarrow> map_option gp_output_addr (c_nth (get_from_gateway_outputs t) 0);
          s \<leftarrow> shard_of addr shard_order; Some (ucast s) }"
| "shard_of_tx ssl tx shard_order =
     do { addr \<leftarrow> get_tx_input_address ssl tx;
          s \<leftarrow> shard_of addr shard_order; Some (ucast s) }"

definition num_shards :: "protocol_block_header \<Rightarrow> u32" where
  "num_shards hdr = push_bit (unat (bh_shard_order hdr)) 1"

definition next_shard_order :: u8 where
  \<comment> \<open>the argument, the previous block, is not used\<close>
  "next_shard_order = PROTOCOL_INITIAL_SHARD_ORDER"

subsection \<open>The loop of find_pending_in_arr\<close>

text \<open>
  The binary search of \<^verbatim>\<open>pending.c\<close> over an array ordered by a comparison. It returns whether
  the key was found and the position where it is, or where it has to be inserted.
\<close>

function find_in_arr ::
  "('a \<Rightarrow> 'a \<Rightarrow> int option) \<Rightarrow> 'a list \<Rightarrow> 'a \<Rightarrow> nat \<Rightarrow> nat \<Rightarrow> (bool \<times> nat) option" where
  "find_in_arr cmp arr key pos en =
     (if pos < en then
        do { let halfway = (pos + en) div 2;
             x \<leftarrow> c_nth arr halfway;
             c \<leftarrow> cmp key x;
             if c < 0 then find_in_arr cmp arr key pos halfway
             else if c > 0 then find_in_arr cmp arr key (halfway + 1) en
             else Some (True, halfway) }
      else Some (False, pos))"
  by pat_completeness auto
termination
  by (relation "measure (\<lambda>(cmp, arr, key, pos, en). en - pos)") auto

declare find_in_arr.simps [simp del]

definition arr_add :: "'a list \<Rightarrow> nat \<Rightarrow> 'a \<Rightarrow> 'a list option" where
  \<comment> \<open>\<open>tal_arr_add\<close>: insert before position \<open>pos\<close>\<close>
  "arr_add xs pos x = (if pos \<le> length xs then Some (take pos xs @ x # drop pos xs) else None)"

definition arr_del :: "'a list \<Rightarrow> nat \<Rightarrow> 'a list option" where
  \<comment> \<open>\<open>tal_arr_del\<close>\<close>
  "arr_del xs pos = (if pos < length xs then Some (take pos xs @ drop (Suc pos) xs) else None)"

subsection \<open>The contract of a comparison\<close>

definition cmp_before :: "('a \<Rightarrow> 'a \<Rightarrow> int option) \<Rightarrow> 'a \<Rightarrow> 'a \<Rightarrow> bool" where
  "cmp_before cmp a b \<longleftrightarrow> (\<exists>c. cmp a b = Some c \<and> c < 0)"

locale total_cmp =
  fixes cmp :: "'a \<Rightarrow> 'a \<Rightarrow> int option" and valid :: "'a \<Rightarrow> bool"
  assumes cmp_total: "valid a \<Longrightarrow> valid b \<Longrightarrow> \<exists>c. cmp a b = Some c"
    and cmp_pos: "valid a \<Longrightarrow> valid b \<Longrightarrow> cmp a b = Some c \<Longrightarrow> 0 < c \<longleftrightarrow> cmp_before cmp b a"
    and cmp_zero: "valid a \<Longrightarrow> valid b \<Longrightarrow> cmp a b = Some 0 \<longleftrightarrow> a = b"
    and cmp_trans: "valid a \<Longrightarrow> valid b \<Longrightarrow> valid d \<Longrightarrow>
      cmp_before cmp a b \<Longrightarrow> cmp_before cmp b d \<Longrightarrow> cmp_before cmp a d"
begin

lemma not_before_self: "valid a \<Longrightarrow> \<not> cmp_before cmp a a"
  using cmp_zero [of a a] by (simp add: cmp_before_def)

lemma before_asym: "valid a \<Longrightarrow> valid b \<Longrightarrow> cmp_before cmp a b \<Longrightarrow> \<not> cmp_before cmp b a"
  using cmp_trans not_before_self by blast

lemma three_way:
  assumes "valid a" and "valid b"
  obtains (lt) c where "cmp a b = Some c" "c < 0" "cmp_before cmp a b"
    | (eq) "cmp a b = Some 0" "a = b"
    | (gt) c where "cmp a b = Some c" "0 < c" "cmp_before cmp b a"
  using cmp_total [OF assms] cmp_pos [OF assms] cmp_zero [OF assms]
  by (metis cmp_before_def linorder_neqE_linordered_idom)

lemma sorted_nth_before:
  assumes "sorted_wrt (cmp_before cmp) xs" and "i < j" and "j < length xs"
  shows "cmp_before cmp (xs ! i) (xs ! j)"
  using assms by (simp add: sorted_wrt_iff_nth_less)

text \<open>Everything before \<open>pos\<close> is before the key, everything from \<open>en\<close> on is after it.\<close>

lemma find_in_arr_inv:
  assumes "list_all valid arr" and "valid key" and "sorted_wrt (cmp_before cmp) arr"
    and "pos \<le> en" and "en \<le> length arr"
    and "\<And>i. i < pos \<Longrightarrow> cmp_before cmp (arr ! i) key"
    and "\<And>i. en \<le> i \<Longrightarrow> i < length arr \<Longrightarrow> cmp_before cmp key (arr ! i)"
  shows "\<exists>found p. find_in_arr cmp arr key pos en = Some (found, p) \<and>
    (if found then p < length arr \<and> arr ! p = key
     else p \<le> length arr \<and> (\<forall>i < p. cmp_before cmp (arr ! i) key)
       \<and> (\<forall>i. p \<le> i \<and> i < length arr \<longrightarrow> cmp_before cmp key (arr ! i)))"
  using assms(4-)
proof (induction "en - pos" arbitrary: pos en rule: less_induct)
  case less
  let ?h = "(pos + en) div 2"
  show ?case
  proof (cases "pos < en")
    case False
    then have "pos = en" using less.prems(1) by simp
    with less.prems show ?thesis
      by (subst find_in_arr.simps) auto
  next
    case True
    then have h: "pos \<le> ?h" "?h < en" "?h < length arr" using less.prems(2) by auto
    have vh: "valid (arr ! ?h)"
      using assms(1) h by (simp add: list_all_length)
    from assms(2) vh show ?thesis
    proof (cases rule: three_way)
      case (lt c)
      then have "find_in_arr cmp arr key pos en = find_in_arr cmp arr key pos ?h"
        using True h by (subst find_in_arr.simps) simp
      moreover have "cmp_before cmp key (arr ! i)" if "?h \<le> i" "i < length arr" for i
        using that lt(3) sorted_nth_before [OF assms(3), of ?h i] assms(1,2) vh cmp_trans
        by (metis le_neq_implies_less list_all_length)
      ultimately show ?thesis
        using less.hyps [of ?h pos] less.prems h by auto
    next
      case eq
      then show ?thesis
        using True h by (subst find_in_arr.simps) auto
    next
      case (gt c)
      then have "find_in_arr cmp arr key pos en = find_in_arr cmp arr key (?h + 1) en"
        using True h by (subst find_in_arr.simps) simp
      moreover have "cmp_before cmp (arr ! i) key" if "i < ?h + 1" for i
        using that gt(3) sorted_nth_before [OF assms(3), of i ?h] assms(1,2) vh h cmp_trans
        by (metis less_antisym Suc_eq_plus1 list_all_length order.strict_trans)
      ultimately show ?thesis
        using less.hyps [of en "?h + 1"] less.prems h by auto
    qed
  qed
qed

lemma find_in_arr_correct:
  assumes "list_all valid arr" and "valid key" and "sorted_wrt (cmp_before cmp) arr"
  obtains (found) p where "find_in_arr cmp arr key 0 (length arr) = Some (True, p)"
      "p < length arr" "arr ! p = key"
    | (missing) p where "find_in_arr cmp arr key 0 (length arr) = Some (False, p)"
      "p \<le> length arr" "key \<notin> set arr"
      "\<And>x. x \<in> set (take p arr) \<Longrightarrow> cmp_before cmp x key"
      "\<And>x. x \<in> set (drop p arr) \<Longrightarrow> cmp_before cmp key x"
proof -
  obtain f p where r: "find_in_arr cmp arr key 0 (length arr) = Some (f, p)"
    and c: "if f then p < length arr \<and> arr ! p = key
      else p \<le> length arr \<and> (\<forall>i < p. cmp_before cmp (arr ! i) key)
        \<and> (\<forall>i. p \<le> i \<and> i < length arr \<longrightarrow> cmp_before cmp key (arr ! i))"
    using find_in_arr_inv [OF assms, of 0 "length arr"] by auto
  show thesis
  proof (cases f)
    case True
    with r c found show ?thesis by simp
  next
    case False
    then have lo: "cmp_before cmp x key" if "x \<in> set (take p arr)" for x
      using that c by (auto simp: in_set_conv_nth)
    have hi: "cmp_before cmp key x" if "x \<in> set (drop p arr)" for x
      using that c False by (auto simp: in_set_conv_nth)
    have "key \<notin> set (take p arr @ drop p arr)"
      using lo hi not_before_self [OF assms(2)] by (metis Un_iff set_append)
    then have "key \<notin> set arr" by simp
    with missing r c False lo hi show ?thesis by auto
  qed
qed

lemma arr_add_sorted:
  assumes "list_all valid arr" and "valid key" and "sorted_wrt (cmp_before cmp) arr"
    and "find_in_arr cmp arr key 0 (length arr) = Some (False, p)"
  shows "\<exists>arr'. arr_add arr p key = Some arr' \<and> sorted_wrt (cmp_before cmp) arr' \<and> list_all valid arr'
    \<and> set arr' = insert key (set arr) \<and> length arr' = Suc (length arr) \<and> key \<notin> set arr"
  using assms(1-3)
proof (cases rule: find_in_arr_correct)
  case (missing q)
  then have q: "p = q" "p \<le> length arr" using assms(4) by auto
  have "cmp_before cmp x y" if "x \<in> set (take p arr)" "y \<in> set (drop p arr)" for x y
    using assms(3) that by (metis append_take_drop_id sorted_wrt_append)
  moreover have "set (take p arr) \<union> set (drop p arr) = set arr"
    by (metis append_take_drop_id set_append)
  ultimately show ?thesis
    using missing q assms
    by (auto simp: arr_add_def sorted_wrt_append list_all_iff sorted_wrt_take sorted_wrt_drop)
qed (use assms(4) in auto)

lemma arr_del_sorted:
  assumes "list_all valid arr" and "sorted_wrt (cmp_before cmp) arr" and "p < length arr"
  shows "\<exists>arr'. arr_del arr p = Some arr' \<and> sorted_wrt (cmp_before cmp) arr' \<and> list_all valid arr'
    \<and> set arr' = set arr - {arr ! p} \<and> length arr' = length arr - 1"
proof -
  have split: "arr = take p arr @ arr ! p # drop (Suc p) arr"
    using assms(3) by (simp add: id_take_nth_drop)
  then have "sorted_wrt (cmp_before cmp) (take p arr @ arr ! p # drop (Suc p) arr)"
    using assms(2) by metis
  then have s: "sorted_wrt (cmp_before cmp) (take p arr @ drop (Suc p) arr)"
    and lo: "\<And>x. x \<in> set (take p arr) \<Longrightarrow> cmp_before cmp x (arr ! p)"
    and hi: "\<And>x. x \<in> set (drop (Suc p) arr) \<Longrightarrow> cmp_before cmp (arr ! p) x"
    by (auto simp: sorted_wrt_append)
  have "valid (arr ! p)" using assms(1,3) by (simp add: list_all_length)
  then have "arr ! p \<notin> set (take p arr) \<union> set (drop (Suc p) arr)"
    using lo hi not_before_self by auto
  moreover have "set arr = set (take p arr) \<union> {arr ! p} \<union> set (drop (Suc p) arr)"
    by (subst split) auto
  ultimately have "set (take p arr @ drop (Suc p) arr) = set arr - {arr ! p}" by auto
  then show ?thesis
    using assms(1,3) s by (auto simp: arr_del_def list_all_iff dest: in_set_takeD in_set_dropD)
qed

end

subsection \<open>tx_cmp is a total order\<close>

definition orderable :: "openssl \<Rightarrow> protocol_tx \<Rightarrow> bool" where
  \<comment> \<open>a well-formed transaction with an address to order by: a gateway transaction needs an output\<close>
  "orderable ssl tx \<longleftrightarrow> digest_ok ssl \<and> wf_tx tx
     \<and> (tx_type tx = TX_FROM_GATEWAY \<longrightarrow> num_outputs tx \<noteq> 0)"

definition tx_key :: "openssl \<Rightarrow> protocol_tx \<Rightarrow> bytes" where
  "tx_key ssl tx = the (tx_order_addr ssl tx) @ enc_tx tx"

lemma length_pubkey_to_addr [simp]: "digest_ok ssl \<Longrightarrow> length (pubkey_to_addr ssl key) = 20"
  by (simp add: pubkey_to_addr_def)

lemma orderable_addr:
  assumes "orderable ssl tx"
  obtains addr where "tx_order_addr ssl tx = Some addr" "length addr = 20"
proof (cases tx)
  case (From_gateway t)
  with assms have "fg_outputs t \<noteq> []" and "list_all wf_payment (fg_outputs t)"
    by (auto simp: orderable_def unsigned_eq_0_iff)
  then show thesis
    using From_gateway that
    by (auto simp: get_from_gateway_outputs_def list_all_length wf_payment_def)
qed (use assms that in \<open>auto simp: orderable_def\<close>)

lemma memcmp_lex:
  "length a = length b \<Longrightarrow> memcmp a b = (if a < b then -1 else if a = b then 0 else 1)"
  by (induction a b rule: memcmp.induct) auto

lemma append_lex:
  "length a = length (b :: bytes) \<Longrightarrow> a @ x < b @ y \<longleftrightarrow> a < b \<or> a = b \<and> x < y"
  by (induction a b rule: list_induct2) auto

lemma shorter_lex:
  assumes "length x < length (y :: bytes)"
  shows "x < y \<longleftrightarrow> \<not> take (length x) y < x" and "y < x \<longleftrightarrow> take (length x) y < x"
proof -
  obtain z zs where ne: "drop (length x) y = z # zs"
    using assms by (cases "drop (length x) y") auto
  have "x @ [] < take (length x) y @ drop (length x) y \<longleftrightarrow> x < take (length x) y \<or> x = take (length x) y"
    using ne assms by (subst append_lex) (simp_all add: ne)
  then show "x < y \<longleftrightarrow> \<not> take (length x) y < x" by auto
  have "take (length x) y @ drop (length x) y < x @ [] \<longleftrightarrow> take (length x) y < x"
    using assms by (subst append_lex) auto
  then show "y < x \<longleftrightarrow> take (length x) y < x" by simp
qed

lemma shorter_cmp:
  assumes "length x < length (y :: bytes)"
  shows "(let c = memcmp x (take (length x) y) in if c = 0 then -1 else c) =
    (if x < y then -1 else if x = y then 0 else 1)"
proof -
  define t where "t = take (length x) y"
  have "x \<noteq> y" "memcmp x t = (if x < t then -1 else if x = t then 0 else 1)"
    "x < y \<longleftrightarrow> \<not> t < x"
    using assms shorter_lex [OF assms] by (auto simp: t_def memcmp_lex)
  then show ?thesis
    unfolding t_def [symmetric] by (cases rule: linorder_cases [of x t]) (auto simp: Let_def)
qed

lemma longer_cmp:
  assumes "length y < length (x :: bytes)"
  shows "(let c = memcmp (take (length y) x) y in if c = 0 then 1 else c) =
    (if x < y then -1 else if x = y then 0 else 1)"
proof -
  define t where "t = take (length y) x"
  have "x \<noteq> y" "memcmp t y = (if t < y then -1 else if t = y then 0 else 1)"
    "x < y \<longleftrightarrow> t < y"
    using assms shorter_lex [OF assms] by (auto simp: t_def memcmp_lex)
  then show ?thesis
    unfolding t_def [symmetric] by (cases rule: linorder_cases [of t y]) (auto simp: Let_def)
qed

lemma tx_cmp_key:
  assumes "orderable ssl a" and "orderable ssl b"
  shows "tx_cmp ssl a b = Some (if tx_key ssl a < tx_key ssl b then -1
    else if tx_key ssl a = tx_key ssl b then 0 else 1)"
proof -
  obtain aa where aa: "tx_order_addr ssl a = Some aa" "length aa = 20"
    using orderable_addr [OF assms(1)] .
  obtain ab where ab: "tx_order_addr ssl b = Some ab" "length ab = 20"
    using orderable_addr [OF assms(2)] .
  obtain la where la: "marshal_tx_len a = Some la" "unat la = length (enc_tx a)"
    using marshal_tx_len_eq [of a] assms(1) by (auto simp: orderable_def length_enc_tx)
  obtain lb where lb: "marshal_tx_len b = Some lb" "unat lb = length (enc_tx b)"
    using marshal_tx_len_eq [of b] assms(2) by (auto simp: orderable_def length_enc_tx)
  let ?x = "enc_tx a" and ?y = "enc_tx b"
  have key: "tx_key ssl a < tx_key ssl b \<longleftrightarrow> aa < ab \<or> aa = ab \<and> ?x < ?y"
    "tx_key ssl a = tx_key ssl b \<longleftrightarrow> aa = ab \<and> ?x = ?y"
    using aa ab by (simp_all add: tx_key_def append_lex)
  have cmp: "memcmp aa ab = (if aa < ab then -1 else if aa = ab then 0 else 1)"
    using aa ab by (simp add: memcmp_lex)
  have "tx_cmp ssl a b = Some (if ?x < ?y then -1 else if ?x = ?y then 0 else 1)" if "aa = ab"
  proof -
    consider "length ?x < length ?y" | "length ?y < length ?x" | "length ?x = length ?y"
      by linarith
    then show ?thesis
    proof cases
      case 1
      then show ?thesis
        using shorter_cmp [OF 1] that aa ab la lb
        by (simp add: tx_cmp_def word_less_nat_alt c_slice_in)
    next
      case 2
      then show ?thesis
        using longer_cmp [OF 2] that aa ab la lb
        by (simp add: tx_cmp_def word_less_nat_alt c_slice_in)
    next
      case 3
      then show ?thesis
        using that aa ab la lb by (auto simp: tx_cmp_def word_less_nat_alt c_slice_in memcmp_lex)
    qed
  qed
  moreover have "tx_cmp ssl a b = Some (if aa < ab then -1 else 1)" if "aa \<noteq> ab"
    using that aa ab cmp by (simp add: tx_cmp_def)
  ultimately show ?thesis
    using key by (cases "aa = ab") auto
qed

lemma tx_key_inj:
  assumes "orderable ssl a" and "orderable ssl b" and "tx_key ssl a = tx_key ssl b"
  shows "a = b"
proof -
  obtain aa where "tx_order_addr ssl a = Some aa" "length aa = 20"
    using orderable_addr [OF assms(1)] .
  moreover obtain ab where "tx_order_addr ssl b = Some ab" "length ab = 20"
    using orderable_addr [OF assms(2)] .
  ultimately have "enc_tx a = enc_tx b"
    using assms(3) by (simp add: tx_key_def)
  then show ?thesis
    using assms cast_tx_enc [of a "[]"] cast_tx_enc [of b "[]"] by (simp add: orderable_def)
qed

lemma tx_before_key:
  assumes "orderable ssl a" and "orderable ssl b"
  shows "cmp_before (tx_cmp ssl) a b \<longleftrightarrow> tx_key ssl a < tx_key ssl b"
  using tx_cmp_key [OF assms] by (auto simp: cmp_before_def)

interpretation txo: total_cmp "tx_cmp ssl" "orderable ssl" for ssl
proof
  fix a b d c
  assume a: "orderable ssl a" and b: "orderable ssl b"
  show "\<exists>c. tx_cmp ssl a b = Some c"
    using tx_cmp_key [OF a b] by simp
  show "tx_cmp ssl a b = Some 0 \<longleftrightarrow> a = b"
    using tx_cmp_key [OF a b] tx_key_inj [OF a b] by auto
  show "0 < c \<longleftrightarrow> cmp_before (tx_cmp ssl) b a" if "tx_cmp ssl a b = Some c"
    using that tx_cmp_key [OF a b] tx_before_key [OF b a] by (auto split: if_splits)
  show "cmp_before (tx_cmp ssl) a d" if "orderable ssl d"
    "cmp_before (tx_cmp ssl) a b" "cmp_before (tx_cmp ssl) b d"
    using that a b by (simp add: tx_before_key)
qed

text \<open>
  On transactions that have an address to order by, \<open>tx_cmp\<close> never crashes and is the three-way
  comparison of the order address followed by the transaction's bytes, compared
  lexicographically: a strict total order in which only equal transactions compare as zero.
\<close>

theorem tx_cmp_total_order:
  assumes "orderable ssl a" and "orderable ssl b"
  shows "tx_cmp ssl a b = Some (if tx_key ssl a < tx_key ssl b then -1
      else if tx_key ssl b < tx_key ssl a then 1 else 0)
    \<and> (tx_cmp ssl a b = Some 0 \<longleftrightarrow> a = b)"
  using tx_cmp_key [OF assms] tx_key_inj [OF assms] by auto

subsection \<open>The shard order is the transaction order\<close>

lemma shard_of_tx_addr:
  assumes "orderable ssl tx" and "unat ord \<le> 16"
  obtains addr where "tx_order_addr ssl tx = Some addr" "length addr = 20"
    "shard_of_tx ssl tx ord = Some (word_of_nat (be_nat (take 2 addr) div 2 ^ (16 - unat ord)))"
proof -
  obtain addr where a: "tx_order_addr ssl tx = Some addr" "length addr = 20"
    using orderable_addr [OF assms(1)] .
  have "be_nat (take 2 addr) < 2 ^ 16"
    using be_nat_less [of "take 2 addr"] a by simp
  then have "be_nat (take 2 addr) div 2 ^ (16 - unat ord) < 2 ^ 16"
    by (meson div_le_dividend le_less_trans)
  then have "(ucast (word_of_nat (be_nat (take 2 addr) div 2 ^ (16 - unat ord)) :: u16) :: u32)
      = word_of_nat (be_nat (take 2 addr) div 2 ^ (16 - unat ord))"
    by (simp add: unsigned_of_nat take_bit_nat_eq_self)
  then have "shard_of_tx ssl tx ord = Some (word_of_nat (be_nat (take 2 addr) div 2 ^ (16 - unat ord)))"
    using a assms(2) by (cases tx) (auto simp: shard_of_def c_slice_in)
  with a that show thesis by blast
qed

lemma be_take_mono:
  assumes "length a = 20" and "length b = 20" and "be_nat a \<le> be_nat b"
  shows "be_nat (take 2 a) \<le> be_nat (take 2 b)"
proof -
  have pre: "be_nat (take 2 x) = be_nat x div 256 ^ 18" if "length x = 20" for x
  proof -
    have "be_nat (take 2 x @ drop 2 x) = be_nat (drop 2 x) + 256 ^ 18 * be_nat (take 2 x)"
      unfolding be_nat_def using that by (simp only: rev_append le_nat_append) simp
    moreover have "be_nat (drop 2 x) < 256 ^ 18"
      using be_nat_less [of "drop 2 x"] that by simp
    ultimately show ?thesis by simp
  qed
  show ?thesis
    using assms by (simp only: pre div_le_mono)
qed

text \<open>
  A transaction's shard number is below the number of shards, and the order of transactions
  respects it: a transaction that comes before another never lies in a later shard.
\<close>

theorem shard_of_tx_monotone:
  assumes "orderable ssl a" and "orderable ssl b" and "unat ord \<le> 16"
    and "cmp_before (tx_cmp ssl) a b"
  shows "\<exists>sa sb. shard_of_tx ssl a ord = Some sa \<and> shard_of_tx ssl b ord = Some sb
    \<and> sa \<le> sb \<and> unat sb < 2 ^ unat ord"
proof -
  obtain aa where aa: "tx_order_addr ssl a = Some aa" "length aa = 20"
    "shard_of_tx ssl a ord = Some (word_of_nat (be_nat (take 2 aa) div 2 ^ (16 - unat ord)))"
    using shard_of_tx_addr [OF assms(1,3)] .
  obtain ab where ab: "tx_order_addr ssl b = Some ab" "length ab = 20"
    "shard_of_tx ssl b ord = Some (word_of_nat (be_nat (take 2 ab) div 2 ^ (16 - unat ord)))"
    using shard_of_tx_addr [OF assms(2,3)] .
  have "aa \<le> ab"
    using assms(4) aa ab tx_before_key [OF assms(1,2)] by (auto simp: tx_key_def append_lex)
  then have "memcmp aa ab \<le> 0"
    using aa ab by (auto simp: memcmp_lex)
  then have le: "be_nat (take 2 aa) \<le> be_nat (take 2 ab)"
    using aa ab by (intro be_take_mono) (simp_all add: memcmp_le_be_nat)
  have top: "be_nat (take 2 ab) < 2 ^ 16"
    using be_nat_less [of "take 2 ab"] ab by simp
  have "2 ^ 16 = (2 ^ unat ord * 2 ^ (16 - unat ord) :: nat)"
    using assms(3) by (simp flip: power_add)
  then have lt: "be_nat (take 2 ab) div 2 ^ (16 - unat ord) < 2 ^ unat ord"
    using top by (simp add: less_mult_imp_div_less)
  also have "(2 :: nat) ^ unat ord \<le> 2 ^ 16"
    using assms(3) by (intro power_increasing) auto
  finally have sm: "be_nat (take 2 ab) div 2 ^ (16 - unat ord) < 2 ^ 32" by simp
  have "be_nat (take 2 aa) div 2 ^ (16 - unat ord) \<le> be_nat (take 2 ab) div 2 ^ (16 - unat ord)"
    using le by (rule div_le_mono)
  with sm lt show ?thesis
    using aa(3) ab(3) by (simp add: word_le_nat_alt unsigned_of_nat take_bit_nat_eq_self)
qed

subsection \<open>Examples\<close>

definition ex_gateway_tx :: "u8 \<Rightarrow> protocol_tx" where
  "ex_gateway_tx x = From_gateway \<lparr>tx_version = 1, tx_fee = False, tx_features = 0,
     fg_gateway_key = replicate 33 3, fg_num_outputs = 1, fg_unused = 0,
     fg_signature = \<lparr>sig_r = replicate 32 0, sig_s = replicate 32 0\<rparr>,
     fg_outputs = [\<lparr>gp_send_amount = 10, gp_output_addr = x # replicate 19 0\<rparr>]\<rparr>"

lemma ex_orderable:
  "orderable model_openssl (ex_gateway_tx x)" "orderable model_openssl ex_claim"
  by (simp_all add: orderable_def digest_ok_model ex_wf ex_gateway_tx_def wf_signature_def wf_payment_def)
    (simp add: ex_claim_def)

theorem tx_cmp_total_order_witness:
  "tx_cmp model_openssl (ex_gateway_tx 1) ex_claim \<noteq> None
   \<and> tx_cmp model_openssl (ex_gateway_tx 1) ex_claim \<noteq> Some 0"
  using tx_cmp_total_order [OF ex_orderable(1) [of 1] ex_orderable(2)]
  by (auto simp: ex_gateway_tx_def ex_claim_def)

theorem shard_of_tx_monotone_witness:
  "\<exists>sa sb. shard_of_tx model_openssl (ex_gateway_tx 1) 2 = Some sa
    \<and> shard_of_tx model_openssl (ex_gateway_tx 200) 2 = Some sb \<and> sa \<le> sb \<and> unat sb < 4"
proof -
  have "cmp_before (tx_cmp model_openssl) (ex_gateway_tx 1) (ex_gateway_tx 200)"
    by (simp add: cmp_before_def tx_cmp_def ex_gateway_tx_def get_from_gateway_outputs_def)
  then show ?thesis
    using shard_of_tx_monotone [OF ex_orderable(1) ex_orderable(1), of 2 1 200] by simp
qed

end
