(* ===== verification/Difficulty.thy ===== *)
theory Difficulty
  imports Hashing
begin

section \<open>Difficulty targets and work\<close>

text \<open>
  The arithmetic of \<^verbatim>\<open>difficulty.c\<close> and \<^verbatim>\<open>difficulty.h\<close>. A compact difficulty has an exponent, in
  bytes, in its top eight bits and a mantissa in the other 24; \<open>target_of\<close> is the number it
  stands for. The lemmas show that the byte-wise test \<open>beats_target\<close> is a comparison of the hash,
  read as a little-endian number, with that target, that encoding truncates a target to its
  three leading bytes, and that every block adds work. \<open>get_difficulty\<close>, which walks the chain,
  is in the theory of the block chain.

  Exponents and shift counts are 32-bit unsigned in the code; \<open>BN_lshift\<close> and \<open>BN_rshift\<close> take an
  \<open>int\<close>, so the count is passed through \<open>sint\<close>.
\<close>

definition diff_exp :: "u32 \<Rightarrow> u32" where
  "diff_exp difficulty = drop_bit 24 difficulty"

definition diff_mant :: "u32 \<Rightarrow> u32" where
  "diff_mant difficulty = difficulty AND 0x00FFFFFF"

definition decode_difficulty :: "openssl \<Rightarrow> u32 \<Rightarrow> nat option" where
  \<comment> \<open>\<open>None\<close> is the result \<open>false\<close>\<close>
  "decode_difficulty ssl difficulty =
     do { n \<leftarrow> BN_set_word ssl (unat (diff_mant difficulty));
          BN_lshift ssl n (sint ((diff_exp difficulty - 3) * 8)) }"

definition difficulty_one_sixteenth :: "u32 \<Rightarrow> u32" where
  "difficulty_one_sixteenth difficulty =
     (let exp = diff_exp difficulty; mantissa = diff_mant difficulty;
          (exp', mantissa') =
            (if push_bit 4 mantissa AND 0xFF000000 \<noteq> 0 then
               (if exp = 32 - 1 then (exp, 0x00FFFFFF) else (exp + 1, drop_bit 4 mantissa))
             else (exp, push_bit 4 mantissa))
      in push_bit 24 exp' OR mantissa')"

text \<open>The inner \<open>None\<close> of \<open>encode_difficulty\<close> is the result \<open>false\<close>.\<close>

definition encode_difficulty :: "openssl \<Rightarrow> nat \<Rightarrow> (u32 \<times> u32) option option" where
  "encode_difficulty ssl target =
     (let exp = (word_of_nat (BN_num_bytes ssl target) :: u32) in
      if exp \<le> 3 then Some None
      else case BN_rshift ssl target (sint (8 * (exp - 3))) of
          None \<Rightarrow> Some None
        | Some n \<Rightarrow>
            (let mantissa = (word_of_nat (BN_get_word ssl n) :: u32) in
             do { c_assert (mantissa < 0x00FFFFFF); Some (Some (exp, mantissa)) }))"

definition total_work_done :: "openssl \<Rightarrow> u32 \<Rightarrow> nat \<Rightarrow> nat option" where
  "total_work_done ssl difficulty prev =
     do { t0 \<leftarrow> BN_set_word ssl (unat (diff_mant difficulty));
          t1 \<leftarrow> BN_lshift ssl t0 (sint ((diff_exp difficulty - 3) * 8));
          target \<leftarrow> BN_add ssl t1 1;
          w0 \<leftarrow> BN_lshift ssl 1 256;
          w1 \<leftarrow> BN_div ssl w0 target;
          BN_add ssl w1 prev }"

fun trailing_zeroes :: "bytes \<Rightarrow> nat \<Rightarrow> nat \<Rightarrow> bool option" where
  \<comment> \<open>the loop: are the \<open>n\<close> bytes from \<open>i\<close> on all zero?\<close>
  "trailing_zeroes sha i 0 = Some True"
| "trailing_zeroes sha i (Suc n) =
     do { b \<leftarrow> c_nth sha i; if b \<noteq> 0 then Some False else trailing_zeroes sha (Suc i) n }"

definition beats_target :: "sha \<Rightarrow> u32 \<Rightarrow> bool option" where
  "beats_target sha difficulty =
     do { let exp = unat (diff_exp difficulty);
          c_assert (exp \<le> 32);
          c_assert (exp \<ge> 3);
          z \<leftarrow> trailing_zeroes sha exp (32 - exp);
          if \<not> z then Some False
          else do {
            b2 \<leftarrow> c_nth sha (exp - 1);
            b1 \<leftarrow> c_nth sha (exp - 2);
            b0 \<leftarrow> c_nth sha (exp - 3);
            let base = push_bit 16 (ucast b2 :: u32) OR push_bit 8 (ucast b1) OR ucast b0;
            Some (base < diff_mant difficulty) } }"

subsection \<open>The number a compact difficulty stands for\<close>

definition target_of :: "u32 \<Rightarrow> nat" where
  "target_of d = unat (diff_mant d) * 256 ^ (unat (diff_exp d) - 3)"

definition valid_difficulty :: "u32 \<Rightarrow> bool" where
  "valid_difficulty d \<longleftrightarrow> 3 \<le> unat (diff_exp d) \<and> unat (diff_exp d) \<le> 32"

lemma unat_diff_exp: "unat (diff_exp d) = unat d div 2 ^ 24"
  unfolding diff_exp_def unat_drop_bit_eq by (simp add: drop_bit_eq_div)

lemma mant_mask: "diff_mant d = take_bit 24 d"
proof -
  have "(0x00FFFFFF :: u32) = mask 24" by (simp add: mask_eq_exp_minus_1)
  then show ?thesis by (simp add: diff_mant_def take_bit_eq_mask)
qed

lemma unat_diff_mant: "unat (diff_mant d) = unat d mod 2 ^ 24"
proof -
  have "unat (diff_mant d) = take_bit 24 (unat d)"
    unfolding mant_mask by (rule unsigned_take_bit_eq)
  then show ?thesis by (simp add: take_bit_eq_mod)
qed

lemma diff_exp_less: "unat (diff_exp d) < 256"
  using unat_u32_less [of d] by (simp add: unat_diff_exp div_less_iff_less_mult)

lemma diff_mant_less: "unat (diff_mant d) < 2 ^ 24"
  by (simp add: unat_diff_mant)

lemma word_take_bitI: "unat (m :: u32) < 2 ^ n \<Longrightarrow> take_bit n m = m"
proof -
  assume "unat m < 2 ^ n"
  then have "unat (take_bit n m) = unat m"
    by (simp add: unsigned_take_bit_eq take_bit_nat_eq_self)
  then show ?thesis by (simp only: word_unat_eq_iff)
qed

lemma or_eq_add:
  assumes "unat (m :: u32) < 2 ^ n"
  shows "push_bit n e OR m = push_bit n e + m"
proof -
  have "\<not> bit m k" if "n \<le> k" for k
    using that word_take_bitI [OF assms] by (metis bit_take_bit_iff not_le)
  then show ?thesis
    by (intro disjunctive_add [symmetric]) (auto simp: bit_push_bit_iff)
qed

lemma unat_push_bit:
  assumes "unat (e :: u32) * 2 ^ n < 2 ^ 32"
  shows "unat (push_bit n e) = unat e * 2 ^ n"
proof -
  have "unat (push_bit n e) = take_bit 32 (push_bit n (unat e))"
    by (simp add: unsigned_push_bit_eq)
  then show ?thesis
    using assms unfolding push_bit_eq_mult by (simp add: take_bit_nat_eq_self)
qed

lemma unat_shift_or:
  assumes "unat (m :: u32) < 2 ^ n" and "(unat e + 1) * 2 ^ n \<le> 2 ^ 32"
  shows "unat (push_bit n e OR m) = unat e * 2 ^ n + unat m"
proof -
  have lt: "unat e * 2 ^ n + unat m < 2 ^ 32"
    using assms by (simp add: algebra_simps)
  then have "unat (push_bit n e) = unat e * 2 ^ n"
    by (intro unat_push_bit) simp
  with lt show ?thesis
    unfolding or_eq_add [OF assms(1)] by (simp add: unat_word_ariths)
qed

lemma unat_compact:
  assumes "unat (e :: u32) < 256" and "unat m < 2 ^ 24"
  shows "unat (diff_exp (push_bit 24 e OR m)) = unat e"
    and "unat (diff_mant (push_bit 24 e OR m)) = unat m"
proof -
  have "unat (push_bit 24 e OR m) = unat e * 2 ^ 24 + unat m"
    using assms by (intro unat_shift_or) simp_all
  with assms show "unat (diff_exp (push_bit 24 e OR m)) = unat e"
    and "unat (diff_mant (push_bit 24 e OR m)) = unat m"
    unfolding unat_diff_exp unat_diff_mant by simp_all
qed

lemma shift_count:
  assumes "3 \<le> unat (e :: u32)" and "unat e < 2 ^ 20"
  shows "sint ((e - 3) * 8) = int (8 * (unat e - 3))" and "sint (8 * (e - 3)) = int (8 * (unat e - 3))"
proof -
  have "e = word_of_nat (unat e)" by simp
  then have "(e - 3) * 8 = word_of_nat ((unat e - 3) * 8)"
    using assms(1) by (metis (no_types, lifting) of_nat_diff of_nat_mult of_nat_numeral)
  moreover have "sint (word_of_nat ((unat e - 3) * 8) :: u32) = int ((unat e - 3) * 8)"
    using assms(2) unfolding signed_of_nat by (simp add: signed_take_bit_int_eq_self)
  ultimately show "sint ((e - 3) * 8) = int (8 * (unat e - 3))"
    by (simp only: mult.commute)
  then show "sint (8 * (e - 3)) = int (8 * (unat e - 3))"
    by (simp only: mult.commute)
qed

lemma pow_bytes: "2 ^ (8 * k) = (256 :: nat) ^ k"
  by (simp add: power_mult)

lemma lshift_target:
  assumes "bn_ok ssl" and "3 \<le> unat (diff_exp d)"
  shows "BN_lshift ssl (unat (diff_mant d)) (sint ((diff_exp d - 3) * 8)) = Some (target_of d)"
proof -
  have "sint ((diff_exp d - 3) * 8) = int (8 * (unat (diff_exp d) - 3))"
    using diff_exp_less [of d] assms(2) by (intro shift_count) simp_all
  then show ?thesis
    by (simp only: bn_okD(3) [OF assms(1)] of_nat_0_le_iff nat_int pow_bytes target_of_def)
qed

lemma decode_difficulty_eq:
  assumes "bn_ok ssl" and "3 \<le> unat (diff_exp d)"
  shows "decode_difficulty ssl d = Some (target_of d)"
proof -
  have "BN_set_word ssl (unat (diff_mant d)) = Some (unat (diff_mant d))"
    using diff_mant_less [of d] by (intro bn_okD(1) [OF assms(1)]) simp
  with lshift_target [OF assms] show ?thesis by (simp add: decode_difficulty_def)
qed

lemma target_less:
  assumes "valid_difficulty d"
  shows "target_of d < 2 ^ 256"
proof -
  have "target_of d < 2 ^ 24 * 256 ^ (unat (diff_exp d) - 3)"
    using diff_mant_less [of d] by (simp add: target_of_def)
  also have "\<dots> \<le> 2 ^ 24 * 256 ^ 29"
    using assms by (intro mult_le_mono2 power_increasing) (auto simp: valid_difficulty_def)
  finally show ?thesis by simp
qed

lemma total_work_done_eq:
  assumes "bn_ok ssl" and "3 \<le> unat (diff_exp d)"
  shows "total_work_done ssl d prev = Some (2 ^ 256 div (target_of d + 1) + prev)"
proof -
  have "BN_set_word ssl (unat (diff_mant d)) = Some (unat (diff_mant d))"
    using diff_mant_less [of d] by (intro bn_okD(1) [OF assms(1)]) simp
  with lshift_target [OF assms] show ?thesis
    using bn_okD(3,5,10) [OF assms(1)] by (simp add: total_work_done_def)
qed

lemma total_work_grows:
  assumes "bn_ok ssl" and "valid_difficulty d"
  shows "\<exists>w. total_work_done ssl d prev = Some w \<and> w = prev + 2 ^ 256 div (target_of d + 1)
    \<and> prev < w \<and> (\<forall>d' w'. valid_difficulty d' \<longrightarrow> target_of d' \<le> target_of d \<longrightarrow>
        total_work_done ssl d' prev = Some w' \<longrightarrow> w \<le> w')"
proof -
  have w: "total_work_done ssl d' prev = Some (2 ^ 256 div (target_of d' + 1) + prev)"
    if "valid_difficulty d'" for d'
    using that total_work_done_eq [OF assms(1)] by (simp add: valid_difficulty_def)
  have "0 < (2 :: nat) ^ 256 div (target_of d + 1)"
    using target_less [OF assms(2)] by (simp add: div_greater_zero_iff)
  moreover have "2 ^ 256 div (target_of d + 1) \<le> 2 ^ 256 div (target_of d' + 1)"
    if "target_of d' \<le> target_of d" for d'
    using that by (intro div_le_mono2) simp_all
  ultimately show ?thesis
    using w assms(2) by (auto simp del: power_numeral)
qed

text \<open>
  Every block with a usable difficulty adds work: \<open>total_work_done\<close> returns the previous work
  plus \<open>2^256 / (target + 1)\<close>, which is more than the previous work; and a harder target never
  adds less.
\<close>

theorem total_work_increases:
  assumes "bn_ok ssl" and "valid_difficulty d"
  shows "\<exists>w. total_work_done ssl d prev = Some w \<and> w = prev + 2 ^ 256 div (target_of d + 1)
    \<and> prev < w \<and> (\<forall>d' w'. valid_difficulty d' \<longrightarrow> target_of d' \<le> target_of d \<longrightarrow>
        total_work_done ssl d' prev = Some w' \<longrightarrow> w \<le> w')"
  using assms by (rule total_work_grows)

subsection \<open>beats_target compares numbers\<close>

lemma trailing_zeroes_eq:
  "i + n \<le> length sha \<Longrightarrow> trailing_zeroes sha i n = Some (le_nat (take n (drop i sha)) = 0)"
proof (induction n arbitrary: i)
  case (Suc n)
  then have "take (Suc n) (drop i sha) = sha ! i # take n (drop (Suc i) sha)"
    by (simp add: Cons_nth_drop_Suc [symmetric])
  with Suc show ?case by (auto simp: unsigned_eq_0_iff)
qed simp

lemma base_bytes:
  "unat (push_bit 16 (ucast (b2 :: u8) :: u32) OR push_bit 8 (ucast (b1 :: u8)) OR ucast (b0 :: u8))
   = le_nat [b0, b1, b2]"
proof -
  have u: "unat (ucast (b :: u8) :: u32) = unat b" for b
    using unat_byte_less [of b]
    by (simp add: unsigned_ucast_eq take_bit_nat_eq_self del: unat_byte_less)
  have bd: "unat b0 < 256" "unat b1 < 256" "unat b2 < 256" by simp_all
  have lo: "unat (push_bit 8 (ucast b1 :: u32) OR ucast b0) = unat b1 * 2 ^ 8 + unat b0"
    using bd by (subst unat_shift_or) (simp_all add: u del: unat_byte_less)
  have "unat (push_bit 16 (ucast b2 :: u32) OR (push_bit 8 (ucast b1) OR ucast b0))
      = unat b2 * 2 ^ 16 + (unat b1 * 2 ^ 8 + unat b0)"
    using bd lo by (subst unat_shift_or) (simp_all add: u del: unat_byte_less)
  then show ?thesis by (simp add: or.assoc algebra_simps)
qed

text \<open>
  C18. For the difficulties the code admits, \<open>beats_target\<close> reads inside the hash and holds exactly
  when the hash, read as a little-endian 256-bit number, is below the target.
\<close>

theorem beats_target_correct:
  assumes len: "length sha = 32" and v: "valid_difficulty d"
  shows "beats_target sha d = Some (le_nat sha < target_of d)"
proof -
  define e where "e = unat (diff_exp d)"
  define lo where "lo = take (e - 3) sha"
  define mid where "mid = take 3 (drop (e - 3) sha)"
  define hi where "hi = drop e sha"
  have e: "3 \<le> e" "e \<le> 32" using v by (simp_all add: valid_difficulty_def e_def)
  then have "e - 3 + 3 = e" by simp
  then have split: "sha = lo @ mid @ hi"
    unfolding lo_def mid_def hi_def using drop_slice_step [of "e - 3" sha 3]
    by (metis append_take_drop_id)
  have lens: "length lo = e - 3" "length mid = 3" "length hi = 32 - e"
    using e len by (simp_all add: lo_def mid_def hi_def)
  have "[sha ! (e - 3), sha ! (e - 2), sha ! (e - 1)] = mid"
    using e len
    by (intro nth_equalityI)
      (auto simp: mid_def nth_Cons' less_Suc_eq numeral_3_eq_3 numeral_2_eq_2 algebra_simps)
  then have base: "unat (push_bit 16 (ucast (sha ! (e - 1)) :: u32) OR push_bit 8 (ucast (sha ! (e - 2)))
      OR ucast (sha ! (e - 3))) = le_nat mid"
    by (metis base_bytes)
  have val: "le_nat sha = le_nat lo + 256 ^ (e - 3) * (le_nat mid + 256 ^ 3 * le_nat hi)"
    by (subst split) (simp add: le_nat_append lens)
  have lo_less: "le_nat lo < 256 ^ (e - 3)"
    using le_nat_less [of lo] lens by simp
  then have q: "le_nat sha div 256 ^ (e - 3) = le_nat mid + 256 ^ 3 * le_nat hi"
    unfolding val by simp
  have lt: "le_nat sha < target_of d \<longleftrightarrow> le_nat mid + 256 ^ 3 * le_nat hi < unat (diff_mant d)"
    unfolding target_of_def e_def [symmetric] q [symmetric]
    by (simp add: div_less_iff_less_mult)
  have "take (32 - e) (drop e sha) = hi" using len by (simp add: hi_def)
  then have z: "trailing_zeroes sha e (32 - e) = Some (le_nat hi = 0)"
    using trailing_zeroes_eq [of e "32 - e" sha] e len lens by simp
  have "\<not> le_nat mid + 256 ^ 3 * le_nat hi < unat (diff_mant d)" if "le_nat hi \<noteq> 0"
    using that diff_mant_less [of d] by (simp add: not_less)
  then show ?thesis
    unfolding lt beats_target_def Let_def e_def [symmetric]
    using e len z base by (auto simp: word_less_nat_alt)
qed

subsection \<open>Encoding and easing a target\<close>

lemma encode_difficulty_exp:
  assumes "bn_ok ssl" and "256 ^ 3 \<le> t" and "t < 2 ^ 256"
  shows "encode_difficulty ssl t =
    (let e = num_bytes t; m = t div 256 ^ (e - 3) in
     if m = 0xFFFFFF then None else Some (Some (word_of_nat e, word_of_nat m)))
    \<and> 3 < num_bytes t \<and> num_bytes t \<le> 32 \<and> 2 ^ 16 \<le> t div 256 ^ (num_bytes t - 3)
    \<and> t div 256 ^ (num_bytes t - 3) < 2 ^ 24"
proof -
  define e where "e = num_bytes t"
  define m where "m = t div 256 ^ (e - 3)"
  have e: "3 < e" "e \<le> 32"
    unfolding e_def using assms(2,3) num_bytes_ge [of 3 t] num_bytes_le [of t 32] by simp_all
  have "e = (e - 3) + 3" using e by simp
  then have "256 ^ e = 256 ^ (e - 3) * (256 :: nat) ^ 3"
    by (metis power_add)
  then have m_less: "m < 2 ^ 24"
    using num_bytes_gt [of t] unfolding m_def e_def [symmetric]
    by (simp add: div_less_iff_less_mult mult.commute)
  have "256 ^ (e - 1) \<le> t"
    using num_bytes_le [of t "e - 1"] e unfolding e_def by (meson diff_less leD leI less_numeral_extra(1) order.strict_trans1 zero_le)
  moreover have "256 ^ (e - 1) = 2 ^ 16 * (256 :: nat) ^ (e - 3)"
  proof -
    have "e - 1 = 2 + (e - 3)" using e by simp
    then have "(256 :: nat) ^ (e - 1) = 256 ^ 2 * 256 ^ (e - 3)" by (simp only: power_add)
    then show ?thesis by simp
  qed
  ultimately have m_ge: "2 ^ 16 \<le> m"
    unfolding m_def by (simp add: less_eq_div_iff_mult_less_eq)
  have ue: "unat (word_of_nat e :: u32) = e"
    using e by (simp add: unsigned_of_nat take_bit_nat_eq_self)
  have um: "unat (word_of_nat m :: u32) = m"
    using m_less by (simp add: unsigned_of_nat take_bit_nat_eq_self)
  have sh: "sint (8 * ((word_of_nat e :: u32) - 3)) = int (8 * (e - 3))"
    by (rule shift_count(2) [of "word_of_nat e", unfolded ue]) (use e in simp_all)
  have "BN_rshift ssl t (sint (8 * ((word_of_nat e :: u32) - 3))) = Some m"
    by (simp only: sh bn_okD(4) [OF assms(1)] of_nat_0_le_iff nat_int pow_bytes m_def)
  moreover have "BN_get_word ssl m = m"
    using m_less by (intro bn_okD(2) [OF assms(1)]) simp
  moreover have "\<not> (word_of_nat e :: u32) \<le> 3"
    using e ue by (simp add: word_le_nat_alt)
  moreover have "(word_of_nat m :: u32) < 0xFFFFFF \<longleftrightarrow> m \<noteq> 0xFFFFFF"
    using um m_less by (auto simp: word_less_nat_alt)
  ultimately have "encode_difficulty ssl t =
      (if m = 0xFFFFFF then None else Some (Some (word_of_nat e, word_of_nat m)))"
    by (simp add: encode_difficulty_def Let_def bn_okD(11) [OF assms(1)] flip: e_def)
  then show ?thesis
    using e m_less m_ge by (simp add: Let_def flip: e_def m_def)
qed

text \<open>
  Encoding a target of more than three bytes keeps its three leading bytes: the compact form
  decodes to the target rounded down to a multiple of the byte position of the mantissa. The
  one case in which the code does not return is a target whose three leading bytes are all
  0xFF, where the assertion \<^verbatim>\<open>mantissa < 0x00FFFFFF\<close> fails.
\<close>

theorem encode_difficulty_rounds_down:
  assumes "bn_ok ssl" and "256 ^ 3 \<le> t" and "t < 2 ^ 256"
  shows "(encode_difficulty ssl t = None \<longleftrightarrow> t div 256 ^ (num_bytes t - 3) = 0xFFFFFF)
    \<and> (\<forall>exp mant. encode_difficulty ssl t = Some (Some (exp, mant)) \<longrightarrow>
         valid_difficulty (push_bit 24 exp OR mant)
         \<and> decode_difficulty ssl (push_bit 24 exp OR mant)
             = Some (t - t mod 256 ^ (num_bytes t - 3))
         \<and> 2 ^ 16 \<le> mant)
    \<and> encode_difficulty ssl t \<noteq> Some None"
proof -
  define e where "e = num_bytes t"
  define m where "m = t div 256 ^ (e - 3)"
  have enc: "encode_difficulty ssl t =
      (if m = 0xFFFFFF then None else Some (Some (word_of_nat e, word_of_nat m)))"
    and b: "3 < e" "e \<le> 32" "2 ^ 16 \<le> m" "m < 2 ^ 24"
    using encode_difficulty_exp [OF assms] by (simp_all add: Let_def flip: e_def m_def)
  have ue: "unat (word_of_nat e :: u32) = e"
    using b by (simp add: unsigned_of_nat take_bit_nat_eq_self)
  have um: "unat (word_of_nat m :: u32) = m"
    using b by (simp add: unsigned_of_nat take_bit_nat_eq_self)
  let ?d = "push_bit 24 (word_of_nat e) OR (word_of_nat m :: u32)"
  have c: "unat (diff_exp ?d) = e" "unat (diff_mant ?d) = m"
    using unat_compact [of "word_of_nat e" "word_of_nat m"] b by (simp_all only: ue um)
  have "decode_difficulty ssl ?d = Some (m * 256 ^ (e - 3))"
    using decode_difficulty_eq [OF assms(1), of ?d] b by (simp add: target_of_def c)
  also have "m * 256 ^ (e - 3) = t - t mod 256 ^ (e - 3)"
    unfolding m_def by (simp add: minus_mod_eq_div_mult)
  finally have "decode_difficulty ssl ?d = Some (t - t mod 256 ^ (e - 3))" .
  moreover have "valid_difficulty ?d" using c b by (simp add: valid_difficulty_def)
  moreover have "(2 ^ 16 :: u32) \<le> word_of_nat m" using b um by (simp add: word_le_nat_alt)
  ultimately show ?thesis
    unfolding enc e_def [symmetric] m_def [symmetric] by (simp split: if_split)
qed

lemma high_byte_zero: "(x :: u32) AND 0xFF000000 = 0 \<longleftrightarrow> unat x < 2 ^ 24"
proof -
  have "(0xFF000000 :: u32) = NOT (mask 24)"
    by (simp add: mask_eq_exp_minus_1 not_eq_complement)
  moreover have "x AND NOT (mask 24) = 0 \<longleftrightarrow> x = take_bit 24 x"
    by (auto simp: bit_eq_iff bit_and_iff bit_not_iff bit_mask_iff bit_take_bit_iff)
  ultimately have "x AND 0xFF000000 = 0 \<longleftrightarrow> x = take_bit 24 x" by simp
  also have "\<dots> \<longleftrightarrow> unat x < 2 ^ 24"
  proof
    assume "x = take_bit 24 x"
    then have "unat x = take_bit 24 (unat x)"
      by (metis unsigned_take_bit_eq)
    then show "unat x < 2 ^ 24"
      by (metis take_bit_nat_less_exp)
  qed (simp add: word_take_bitI)
  finally show ?thesis .
qed

text \<open>
  \<open>difficulty_one_sixteenth\<close> multiplies the target by sixteen, up to the four mantissa bits that
  a change of the exponent drops, for every exponent below 31. At exponent 31 it saturates the
  mantissa.
\<close>

theorem one_sixteenth_eases_target:
  assumes e: "3 \<le> unat (diff_exp d)" "unat (diff_exp d) \<le> 31"
    and d'_def: "d' = difficulty_one_sixteenth d"
  shows "valid_difficulty d' \<and> target_of d' \<le> 16 * target_of d
    \<and> (unat (diff_mant d) < 2 ^ 20 \<longrightarrow> target_of d' = 16 * target_of d)
    \<and> (2 ^ 20 \<le> unat (diff_mant d) \<and> unat (diff_exp d) < 31 \<longrightarrow>
         target_of d' = 16 * target_of d - 16 * (unat (diff_mant d) mod 16) * 256 ^ (unat (diff_exp d) - 3))
    \<and> (2 ^ 20 \<le> unat (diff_mant d) \<and> unat (diff_exp d) = 31 \<longrightarrow>
         target_of d' = 0xFFFFFF * 256 ^ 28)"
proof -
  define x where "x = diff_exp d"
  define m where "m = diff_mant d"
  have x: "3 \<le> unat x" "unat x \<le> 31" using e by (simp_all add: x_def)
  have m: "unat m < 2 ^ 24" using diff_mant_less [of d] by (simp add: m_def)
  have t: "target_of d = unat m * 256 ^ (unat x - 3)"
    by (simp add: target_of_def x_def m_def)
  have pm: "unat (push_bit 4 m) = unat m * 16"
    using m unat_push_bit [of m 4] by simp
  have ov: "push_bit 4 m AND 0xFF000000 \<noteq> 0 \<longleftrightarrow> 2 ^ 20 \<le> unat m"
    using pm by (simp add: high_byte_zero not_less)
  have fin: "valid_difficulty (push_bit 24 e' OR m') \<and>
      target_of (push_bit 24 e' OR m') = unat m' * 256 ^ (unat e' - 3)"
    if "3 \<le> unat e'" "unat e' \<le> 32" "unat m' < 2 ^ 24" for e' m' :: u32
    using that unat_compact [of e' m'] by (simp add: valid_difficulty_def target_of_def)
  consider (small) "unat m < 2 ^ 20" | (big) "2 ^ 20 \<le> unat m" "unat x < 31" | (top) "2 ^ 20 \<le> unat m" "x = 31"
  proof -
    have "x = 31 \<or> unat x < 31" using x by (auto simp: word_unat_eq_iff)
    then show thesis using that by (meson not_less)
  qed
  then show ?thesis
  proof cases
    case small
    then have "d' = push_bit 24 x OR push_bit 4 m"
      using ov by (simp add: d'_def difficulty_one_sixteenth_def Let_def flip: x_def m_def)
    with small fin [of x "push_bit 4 m"] x pm show ?thesis
      unfolding t x_def [symmetric] m_def [symmetric] by simp
  next
    case big
    have x1: "unat (x + 1) = unat x + 1"
      using big by (simp add: unat_word_ariths)
    have dm: "unat (drop_bit 4 m) = unat m div 16"
      unfolding unat_drop_bit_eq by (simp add: drop_bit_eq_div)
    have "d' = push_bit 24 (x + 1) OR drop_bit 4 m"
      using ov big by (auto simp: d'_def difficulty_one_sixteenth_def Let_def simp flip: x_def m_def)
    moreover have "unat m div 16 < 2 ^ 24" using m by simp
    ultimately have d': "valid_difficulty d' \<and> target_of d' = unat m div 16 * 256 ^ (unat x + 1 - 3)"
      using fin [of "x + 1" "drop_bit 4 m"] big x by (simp add: x1 dm)
    have "unat x + 1 - 3 = Suc (unat x - 3)" using x by simp
    then have "unat m div 16 * 256 ^ (unat x + 1 - 3) = 16 * (unat m div 16 * 16) * 256 ^ (unat x - 3)"
      by simp
    also have "unat m div 16 * 16 = unat m - unat m mod 16"
      by (simp add: minus_mod_eq_div_mult)
    finally have "target_of d' = 16 * target_of d - 16 * (unat m mod 16) * 256 ^ (unat x - 3)"
      using d' by (simp add: t diff_mult_distrib diff_mult_distrib2 mult.assoc)
    with big d' show ?thesis
      unfolding x_def [symmetric] m_def [symmetric] by auto
  next
    case top
    then have "d' = push_bit 24 x OR 0xFFFFFF"
      using ov by (auto simp: d'_def difficulty_one_sixteenth_def Let_def simp flip: x_def m_def)
    with fin [of x "0xFFFFFF"] x top
    have d': "valid_difficulty d' \<and> target_of d' = 0xFFFFFF * 256 ^ 28" by simp
    moreover have "0xFFFFFF * 256 ^ 28 \<le> 16 * target_of d"
      using top by (simp add: t)
    ultimately show ?thesis
      using top unfolding x_def [symmetric] m_def [symmetric] by simp
  qed
qed

subsection \<open>Examples\<close>

lemma ex_difficulty: "valid_difficulty 0x1F00FFFF" "target_of 0x1F00FFFF = 0xFFFF * 256 ^ 28"
  by (simp_all add: valid_difficulty_def target_of_def diff_exp_def diff_mant_def)

theorem total_work_increases_witness: "\<exists>w. total_work_done model_openssl 0x1F00FFFF 5 = Some w \<and> 5 < w"
  using total_work_increases [OF bn_ok_model ex_difficulty(1), of 5] by blast

theorem beats_target_correct_witness:
  "beats_target (replicate 32 0) 0x1F00FFFF = Some True \<and> beats_target (replicate 31 0 @ [1]) 0x1F00FFFF = Some False"
proof -
  have z: "le_nat (replicate 32 0) = 0" using le_nat_zeros [of "[]" 32] by simp
  have "le_nat (replicate 31 0) = 0" using le_nat_zeros [of "[]" 31] by simp
  then have "\<not> le_nat (replicate 31 0 @ [1]) < 0xFFFF * 256 ^ 28" by (simp add: le_nat_append)
  then show ?thesis
    using beats_target_correct [of "replicate 32 0" "0x1F00FFFF"] z
      beats_target_correct [of "replicate 31 0 @ [1]" "0x1F00FFFF"] by (simp add: ex_difficulty)
qed

theorem encode_difficulty_witness:
  "\<exists>exp mant. encode_difficulty model_openssl (2 ^ 200) = Some (Some (exp, mant))
     \<and> decode_difficulty model_openssl (push_bit 24 exp OR mant) = Some (2 ^ 200)"
proof -
  have "num_bytes (2 ^ 200) = 26" using num_bytes_eq [of 25 "2 ^ 200"] by simp
  then show ?thesis
    using encode_difficulty_rounds_down [OF bn_ok_model, of "2 ^ 200"]
    by (cases "encode_difficulty model_openssl (2 ^ 200)") auto
qed

theorem one_sixteenth_witness:
  "target_of (difficulty_one_sixteenth 0x1E00FFFF) = 16 * target_of 0x1E00FFFF"
  using one_sixteenth_eases_target [where d = "0x1E00FFFF"] by (simp add: diff_exp_def diff_mant_def)

end
