(* ===== verification/Blocks.thy ===== *)
theory Blocks
  imports Ordering Difficulty
begin

section \<open>Blocks, shards and transaction proofs\<close>

text \<open>
  The in-memory block (\<^verbatim>\<open>block.h\<close>), its shards (\<^verbatim>\<open>block_shard.h\<close>, \<^verbatim>\<open>block_shard.c\<close>), the merkle
  tree over a shard (\<^verbatim>\<open>merkle_txs.c\<close>) and the proofs that a transaction is in a block
  (\<^verbatim>\<open>proof.c\<close>).

  A block pointer is an address in the block store (theory \<open>State\<close>). The union
  \<^verbatim>\<open>txp_or_hash\<close> and the bitmap that discriminates it are the datatype \<open>txslot\<close>: a clear bit
  is \<open>Txp\<close>, which holds \<open>None\<close> for a NULL transaction, a set bit is \<open>Hash\<close>. The references
  which lie in memory behind a transaction are kept beside it.

  The main results: a proof that passes \<open>check_proof_byhash\<close> binds position and content of a
  transaction to the merkle root in the block (or two inputs of the hash collide), and
  \<open>create_proof\<close> makes proofs that pass for the first two positions of a shard.
\<close>

subsection \<open>Data\<close>

type_synonym bptr = nat

datatype txslot = Txp "(protocol_tx \<times> protocol_input_ref list) option" | Hash protocol_txrefhash

record block_shard =
  bs_shardnum :: u16
  bs_txcount :: u8
  bs_hashcount :: u8
  bs_size :: u8
  bs_proof :: "protocol_proof option list option"
  bs_u :: "txslot list"

record block =
  b_children :: "bptr list"
  b_pending_features :: u8
  b_all_known :: bool
  b_total_work :: nat
  b_prev :: "bptr option"
  b_parts :: block_parts
  b_complaint :: "bytes option"
  b_sha :: sha
  b_shard :: "block_shard list"

abbreviation b_hdr :: "block \<Rightarrow> protocol_block_header" where "b_hdr b \<equiv> bp_hdr (b_parts b)"
abbreviation b_tailer :: "block \<Rightarrow> protocol_block_tailer" where "b_tailer b \<equiv> bp_tailer (b_parts b)"
abbreviation b_shard_nums :: "block \<Rightarrow> bytes" where "b_shard_nums b \<equiv> bp_shard_nums (b_parts b)"
abbreviation b_merkles :: "block \<Rightarrow> sha list" where "b_merkles b \<equiv> bp_merkles (b_parts b)"
abbreviation b_prev_txhashes :: "block \<Rightarrow> bytes" where "b_prev_txhashes b \<equiv> bp_prev_txhashes (b_parts b)"
abbreviation b_depth :: "block \<Rightarrow> nat" where "b_depth b \<equiv> unat (bh_depth (b_hdr b))"

subsection \<open>block_shard.h, block_shard.c\<close>

definition shard_is_tx :: "block_shard \<Rightarrow> u8 \<Rightarrow> bool option" where
  "shard_is_tx s txoff =
     do { slot \<leftarrow> c_nth (bs_u s) (unat txoff);
          Some (case slot of Txp _ \<Rightarrow> True | Hash _ \<Rightarrow> False) }"

definition tx_for :: "block_shard \<Rightarrow> u8 \<Rightarrow> protocol_tx option option" where
  \<comment> \<open>the inner \<open>None\<close> is NULL\<close>
  "tx_for s txoff =
     do { slot \<leftarrow> c_nth (bs_u s) (unat txoff);
          Some (case slot of Txp p \<Rightarrow> map_option fst p | Hash _ \<Rightarrow> None) }"

definition txptr_with_ref ::
    "protocol_tx \<Rightarrow> protocol_input_ref list \<Rightarrow> (protocol_tx \<times> protocol_input_ref list) option" where
  "txptr_with_ref tx refs =
     do { rs \<leftarrow> c_slice refs 0 (unat (num_inputs tx)); Some (tx, rs) }"

definition new_block_shard :: "u16 \<Rightarrow> u8 \<Rightarrow> block_shard" where
  "new_block_shard shardnum num =
     \<lparr>bs_shardnum = shardnum, bs_txcount = 0, bs_hashcount = 0, bs_size = num, bs_proof = None,
      bs_u = replicate (unat num) (Txp None)\<rparr>"

definition txrefhash_in_shard ::
    "openssl \<Rightarrow> block_shard \<Rightarrow> u8 \<Rightarrow> protocol_txrefhash option option" where
  "txrefhash_in_shard ssl s txoff =
     do { c_assert (txoff < bs_size s);
          slot \<leftarrow> c_nth (bs_u s) (unat txoff);
          (case slot of
             Txp None \<Rightarrow> Some None
           | Txp (Some (tx, refs)) \<Rightarrow> map_option Some (hash_tx_and_refs ssl tx refs)
           | Hash h \<Rightarrow> Some (Some h)) }"

definition shard_all_known :: "block_shard \<Rightarrow> bool" where
  "shard_all_known shard = (bs_txcount shard = bs_size shard)"

definition shard_all_hashes :: "block_shard \<Rightarrow> bool" where
  \<comment> \<open>the sum is an \<open>int\<close>, so it does not wrap\<close>
  "shard_all_hashes shard = (unat (bs_txcount shard) + unat (bs_hashcount shard) = unat (bs_size shard))"

text \<open>
  \<open>ord_diff\<close> is unsigned: for an order below the initial one the difference wraps, and the
  shift by it is undefined.
\<close>

definition interested_in_shard :: "bool list \<Rightarrow> nat \<Rightarrow> u16 \<Rightarrow> bool option" where
  "interested_in_shard interests shard_order shard =
     do { c_assert (unat PROTOCOL_INITIAL_SHARD_ORDER \<le> shard_order);
          let ord_diff = shard_order - unat PROTOCOL_INITIAL_SHARD_ORDER;
          c_assert (ord_diff < 32);
          c_nth interests (unat shard div 2 ^ ord_diff) }"

subsection \<open>merkle_txs.c\<close>

definition merkle_tx :: "openssl \<Rightarrow> block_shard \<Rightarrow> nat \<Rightarrow> sha option" where
  "merkle_tx ssl shard n =
     do { p \<leftarrow> txrefhash_in_shard ssl shard (word_of_nat n);
          h \<leftarrow> p;
          Some (merkle_two_hashes ssl (trh_txhash h) (trh_refhash h)) }"

definition merkle_some_txs :: "openssl \<Rightarrow> block_shard \<Rightarrow> nat \<Rightarrow> nat \<Rightarrow> sha option" where
  "merkle_some_txs ssl shard off mx =
     merkle_recurse ssl off (unat (bs_size shard)) mx (merkle_tx ssl shard)"

definition merkle_txs :: "openssl \<Rightarrow> block_shard \<Rightarrow> sha option" where
  "merkle_txs ssl shard = merkle_some_txs ssl shard 0 256"

subsection \<open>block.c: accessors\<close>

fun all_below :: "nat \<Rightarrow> (nat \<Rightarrow> bool option) \<Rightarrow> bool option" where
  \<comment> \<open>\<open>for (i = 0; i < n; i++) if (!f(i)) return false; return true;\<close>\<close>
  "all_below 0 f = Some True"
| "all_below (Suc n) f = do { r \<leftarrow> all_below n f; if \<not> r then Some False else f n }"

definition block_all_known :: "block \<Rightarrow> bool option" where
  "block_all_known block =
     all_below (unat (num_shards (b_hdr block)))
       (\<lambda>i. map_option shard_all_known (c_nth (b_shard block) i))"

definition block_empty :: "block \<Rightarrow> bool option" where
  "block_empty block =
     all_below (unat (num_shards (b_hdr block)))
       (\<lambda>i. map_option (\<lambda>n. n = 0) (c_nth (b_shard_nums block) i))"

definition block_slot ::
    "block \<Rightarrow> u16 \<Rightarrow> u8 \<Rightarrow> (protocol_tx \<times> protocol_input_ref list) option option" where
  \<comment> \<open>the common body of \<open>block_get_tx\<close> and \<open>block_get_refs\<close>\<close>
  "block_slot block shardnum txoff =
     do { s \<leftarrow> c_nth (b_shard block) (unat shardnum);
          c_assert (unat shardnum < unat (num_shards (b_hdr block)));
          c_assert (txoff < bs_size s);
          slot \<leftarrow> c_nth (bs_u s) (unat txoff);
          Some (case slot of Txp p \<Rightarrow> p | Hash _ \<Rightarrow> None) }"

definition block_get_tx :: "block \<Rightarrow> u16 \<Rightarrow> u8 \<Rightarrow> protocol_tx option option" where
  "block_get_tx block shardnum txoff = map_option (map_option fst) (block_slot block shardnum txoff)"

definition block_get_refs :: "block \<Rightarrow> u16 \<Rightarrow> u8 \<Rightarrow> protocol_input_ref list option option" where
  "block_get_refs block shardnum txoff = map_option (map_option snd) (block_slot block shardnum txoff)"

definition new_block ::
    "openssl \<Rightarrow> nat \<Rightarrow> sha \<Rightarrow> block_parts \<Rightarrow> block option" where
  \<comment> \<open>the block is not yet linked to its predecessor; \<open>complaint\<close> and \<open>pending_features\<close> are set by
     \<open>block_add\<close>\<close>
  "new_block ssl prev_work sha parts =
     do { work \<leftarrow> total_work_done ssl (bt_difficulty (bp_tailer parts)) prev_work;
          let n = unat (num_shards (bp_hdr parts));
          nums \<leftarrow> c_slice (bp_shard_nums parts) 0 n;
          Some \<lparr>b_children = [], b_pending_features = 0, b_all_known = False, b_total_work = work,
                b_prev = None, b_parts = parts, b_complaint = None, b_sha = sha,
                b_shard = map (\<lambda>i. new_block_shard (word_of_nat i) (nums ! i)) [0..<n]\<rparr> }"

subsection \<open>proof.c\<close>

definition proof_sibling :: "openssl \<Rightarrow> block_shard \<Rightarrow> u8 \<Rightarrow> nat \<Rightarrow> sha option" where
  \<comment> \<open>the body of the loop of \<open>create_proof\<close>\<close>
  "proof_sibling ssl shard txoff i =
     (if bit txoff i then merkle_some_txs ssl shard 0 (2 ^ i)
      else merkle_some_txs ssl shard (2 ^ i) (2 ^ i))"

definition create_proof :: "openssl \<Rightarrow> block \<Rightarrow> u16 \<Rightarrow> u8 \<Rightarrow> protocol_proof option" where
  "create_proof ssl block shardnum txoff =
     do { shard \<leftarrow> c_nth (b_shard block) (unat shardnum);
          canned \<leftarrow> (case bs_proof shard of None \<Rightarrow> Some None | Some ps \<Rightarrow> c_nth ps (unat txoff));
          (case canned of
             Some p \<Rightarrow> Some p
           | None \<Rightarrow> do {
               c_assert (shard_all_hashes shard);
               ms \<leftarrow> those (map (proof_sibling ssl shard txoff) [0..<8]);
               Some \<lparr>pr_pos = \<lparr>pos_block = b_sha block, pos_shard = shardnum, pos_txoff = txoff,
                               pos_unused = 0\<rparr>,
                     pr_merkles = ms\<rparr> }) }"

fun proof_steps :: "openssl \<Rightarrow> u8 \<Rightarrow> sha list \<Rightarrow> nat \<Rightarrow> sha \<Rightarrow> sha option" where
  \<comment> \<open>the first \<open>n\<close> rounds of the loop of \<open>proof_merkles_to\<close>\<close>
  "proof_steps ssl txoff ms 0 sha = Some sha"
| "proof_steps ssl txoff ms (Suc i) sha =
     do { s \<leftarrow> proof_steps ssl txoff ms i sha;
          m \<leftarrow> c_nth ms i;
          Some (if bit txoff i then merkle_two_hashes ssl m s else merkle_two_hashes ssl s m) }"

definition proof_merkles_to :: "openssl \<Rightarrow> protocol_txrefhash \<Rightarrow> protocol_proof \<Rightarrow> sha option" where
  "proof_merkles_to ssl trh prf =
     proof_steps ssl (pos_txoff (pr_pos prf)) (pr_merkles prf) 8
       (merkle_two_hashes ssl (trh_txhash trh) (trh_refhash trh))"

definition check_proof_byhash ::
    "openssl \<Rightarrow> protocol_proof \<Rightarrow> block \<Rightarrow> protocol_txrefhash \<Rightarrow> bool option" where
  "check_proof_byhash ssl prf b trh =
     (let shardnum = pos_shard (pr_pos prf) in
      do { c_assert (b_sha b = pos_block (pr_pos prf));
           if unat shardnum \<ge> 2 ^ unat (bh_shard_order (b_hdr b)) then Some False
           else do {
             n \<leftarrow> c_nth (b_shard_nums b) (unat shardnum);
             if pos_txoff (pr_pos prf) \<ge> n then Some False
             else do {
               merkle \<leftarrow> proof_merkles_to ssl trh prf;
               m \<leftarrow> c_nth (b_merkles b) (unat shardnum);
               Some (m = merkle) } } })"

definition check_proof ::
    "openssl \<Rightarrow> protocol_proof \<Rightarrow> block \<Rightarrow> protocol_tx \<Rightarrow> protocol_input_ref list \<Rightarrow> bool option" where
  "check_proof ssl prf b tx refs =
     do { trh \<leftarrow> hash_tx_and_refs ssl tx refs; check_proof_byhash ssl prf b trh }"

subsection \<open>Loops\<close>

lemma all_below_Some:
  assumes "\<And>i. i < n \<Longrightarrow> f i = Some (P i)"
  shows "all_below n f = Some (\<forall>i < n. P i)"
  using assms by (induction n) (auto simp: less_Suc_eq)

lemma those_map_Some:
  "(\<And>i. i \<in> set xs \<Longrightarrow> f i = Some (g i)) \<Longrightarrow> those (map f xs) = Some (map g xs)"
  by (induction xs) auto

lemma those_map_nth:
  "those (map f xs) = Some ys \<Longrightarrow> i < length xs \<Longrightarrow> f (xs ! i) = Some (ys ! i) \<and> length ys = length xs"
proof (induction xs arbitrary: i ys)
  case (Cons x xs)
  then obtain y zs where y: "f x = Some y" "those (map f xs) = Some zs" "ys = y # zs"
    by (auto split: option.splits)
  have "length zs = length xs"
    using Cons.IH [OF y(2)] y(2) by (cases xs) auto
  with Cons y show ?case by (cases i) auto
qed simp

subsection \<open>The merkle root of a shard\<close>

definition wf_txrefhash :: "protocol_txrefhash \<Rightarrow> bool" where
  "wf_txrefhash h \<longleftrightarrow> length (trh_txhash h) = 32 \<and> length (trh_refhash h) = 32"

definition shard_leaf :: "openssl \<Rightarrow> protocol_txrefhash list \<Rightarrow> nat \<Rightarrow> sha" where
  "shard_leaf ssl hs i =
     (if i < length hs then merkle_two_hashes ssl (trh_txhash (hs ! i)) (trh_refhash (hs ! i))
      else replicate 32 0)"

definition shard_root :: "openssl \<Rightarrow> protocol_txrefhash list \<Rightarrow> sha" where
  \<comment> \<open>the root of the 256-leaf tree over the hashes of a shard's transactions\<close>
  "shard_root ssl hs = mroot (SHA256_Double_Final ssl) (shard_leaf ssl hs) 8 0"

definition shard_contents :: "openssl \<Rightarrow> block_shard \<Rightarrow> protocol_txrefhash list \<Rightarrow> bool" where
  \<comment> \<open>every slot of the shard is filled, and \<open>hs\<close> are the hashes\<close>
  "shard_contents ssl s hs \<longleftrightarrow> length hs = unat (bs_size s) \<and> list_all wf_txrefhash hs
     \<and> (\<forall>i < length hs. txrefhash_in_shard ssl s (word_of_nat i) = Some (Some (hs ! i)))"

lemma length_shard_leaf [simp]: "digest_ok ssl \<Longrightarrow> length (shard_leaf ssl hs i) = 32"
  by (simp add: shard_leaf_def merkle_two_hashes_def)

lemma merkle_some_txs_mroot:
  assumes "shard_contents ssl s hs"
  shows "merkle_some_txs ssl s off (2 ^ k) =
    Some (mroot (SHA256_Double_Final ssl) (shard_leaf ssl hs) k off)"
  unfolding merkle_some_txs_def using assms
  by (intro merkle_recurse_mroot) (auto simp: shard_contents_def shard_leaf_def merkle_tx_def)

lemma merkle_txs_root: "shard_contents ssl s hs \<Longrightarrow> merkle_txs ssl s = Some (shard_root ssl hs)"
  using merkle_some_txs_mroot [of ssl s hs 0 8] by (simp add: merkle_txs_def shard_root_def)

lemma node_off_top: "off < 256 \<Longrightarrow> node_off off 8 = 0"
  by (simp add: node_off_def)

lemma bit_unat: "bit (unat (w :: u8)) i = bit w i"
  by (auto simp: bit_unsigned_iff bit_imp_le_length)

lemma proof_steps_climb:
  assumes "n \<le> length ms"
  shows "proof_steps ssl txoff ms n sh = Some (climb (SHA256_Double_Final ssl) sh (unat txoff) ms n)"
  using assms by (induction n) (auto simp: bit_unat merkle_two_hashes_def)

lemma leaf_inj:
  assumes "wf_txrefhash a" and "wf_txrefhash b"
    and "merkle_two_hashes ssl (trh_txhash a) (trh_refhash a) = merkle_two_hashes ssl (trh_txhash b) (trh_refhash b)"
  shows "a = b \<or> sha_collision ssl"
proof (cases "trh_txhash a @ trh_refhash a = trh_txhash b @ trh_refhash b")
  case True
  with assms(1,2) show ?thesis by (simp add: wf_txrefhash_def)
next
  case False
  with assms show ?thesis
    unfolding sha_collision_def wf_txrefhash_def merkle_two_hashes_def
    by (metis length_append numeral_Bit0)
qed

definition wf_proof :: "protocol_proof \<Rightarrow> bool" where
  "wf_proof p \<longleftrightarrow> length (pr_merkles p) = 8 \<and> list_all (\<lambda>m. length m = 32) (pr_merkles p)"

lemma check_proof_byhash_True:
  assumes "wf_proof prf" and "check_proof_byhash ssl prf b trh = Some True"
  shows "b_sha b = pos_block (pr_pos prf)"
    and "unat (pos_shard (pr_pos prf)) < length (b_shard_nums b)"
    and "pos_txoff (pr_pos prf) < b_shard_nums b ! unat (pos_shard (pr_pos prf))"
    and "unat (pos_shard (pr_pos prf)) < length (b_merkles b)"
    and "b_merkles b ! unat (pos_shard (pr_pos prf)) =
      climb (SHA256_Double_Final ssl) (merkle_two_hashes ssl (trh_txhash trh) (trh_refhash trh))
        (unat (pos_txoff (pr_pos prf))) (pr_merkles prf) 8"
  using assms
  by (auto simp: check_proof_byhash_def Let_def proof_merkles_to_def proof_steps_climb wf_proof_def
      bind_eq_Some_conv split: if_splits)

lemma climb_root_binding:
  assumes ok: "digest_ok ssl" and p: "length ms = 8" "list_all (\<lambda>m. length m = 32) ms"
    and t: "wf_txrefhash trh" and off: "off < 256"
    and root: "climb (SHA256_Double_Final ssl) (merkle_two_hashes ssl (trh_txhash trh) (trh_refhash trh))
      off ms 8 = shard_root ssl hs"
  shows "(merkle_two_hashes ssl (trh_txhash trh) (trh_refhash trh) = shard_leaf ssl hs off
      \<and> (\<forall>j < 8. ms ! j = mroot (SHA256_Double_Final ssl) (shard_leaf ssl hs) j (sibling_off off j)))
    \<or> sha_collision ssl"
proof (rule climb_binding [OF ok])
  show "climb (SHA256_Double_Final ssl) (merkle_two_hashes ssl (trh_txhash trh) (trh_refhash trh)) off ms 8
      = mroot (SHA256_Double_Final ssl) (shard_leaf ssl hs) 8 (node_off off 8)"
    using root off by (simp add: shard_root_def node_off_top)
qed (use ok p in \<open>auto simp: merkle_two_hashes_def list_all_length\<close>)

lemma check_proof_binds:
  assumes ok: "digest_ok ssl" and p: "wf_proof prf" and t: "wf_txrefhash trh"
    and hs: "list_all wf_txrefhash hs"
    and n: "length hs = unat (b_shard_nums b ! unat (pos_shard (pr_pos prf)))"
    and root: "b_merkles b ! unat (pos_shard (pr_pos prf)) = shard_root ssl hs"
    and chk: "check_proof_byhash ssl prf b trh = Some True"
  shows "unat (pos_txoff (pr_pos prf)) < length hs
    \<and> (trh = hs ! unat (pos_txoff (pr_pos prf)) \<or> sha_collision ssl)"
proof -
  let ?off = "unat (pos_txoff (pr_pos prf))"
  have lt: "?off < length hs"
    using check_proof_byhash_True(3) [OF p chk] n by (simp add: word_less_nat_alt)
  have "climb (SHA256_Double_Final ssl) (merkle_two_hashes ssl (trh_txhash trh) (trh_refhash trh))
      ?off (pr_merkles prf) 8 = shard_root ssl hs"
    using check_proof_byhash_True(5) [OF p chk] root by simp
  then have "merkle_two_hashes ssl (trh_txhash trh) (trh_refhash trh) = shard_leaf ssl hs ?off
      \<or> sha_collision ssl"
    using climb_root_binding [OF ok _ _ t] p by (auto simp: wf_proof_def)
  moreover have "wf_txrefhash (hs ! ?off)"
    using hs lt by (simp add: list_all_length)
  ultimately show ?thesis
    using lt leaf_inj [OF t] by (auto simp: shard_leaf_def)
qed


subsection \<open>create_proof\<close>

lemma proof_sibling_mroot:
  assumes "shard_contents ssl s hs"
  shows "proof_sibling ssl s txoff i =
    Some (mroot (SHA256_Double_Final ssl) (shard_leaf ssl hs) i (if bit txoff i then 0 else 2 ^ i))"
  using merkle_some_txs_mroot [OF assms] by (simp add: proof_sibling_def)

definition fresh_proof :: "openssl \<Rightarrow> block \<Rightarrow> u16 \<Rightarrow> u8 \<Rightarrow> protocol_txrefhash list \<Rightarrow> protocol_proof" where
  "fresh_proof ssl b shardnum txoff hs =
     \<lparr>pr_pos = \<lparr>pos_block = b_sha b, pos_shard = shardnum, pos_txoff = txoff, pos_unused = 0\<rparr>,
      pr_merkles = map (\<lambda>i. mroot (SHA256_Double_Final ssl) (shard_leaf ssl hs) i
                          (if bit txoff i then 0 else 2 ^ i)) [0..<8]\<rparr>"

definition proof_ready :: "openssl \<Rightarrow> block \<Rightarrow> u16 \<Rightarrow> protocol_txrefhash list \<Rightarrow> bool" where
  \<comment> \<open>the shard exists, all its hashes are known, no proofs are cached, and its merkle root is
     the one in the block\<close>
  "proof_ready ssl b shardnum hs \<longleftrightarrow>
     unat shardnum < 2 ^ unat (bh_shard_order (b_hdr b))
     \<and> unat shardnum < length (b_shard b) \<and> unat shardnum < length (b_shard_nums b)
     \<and> unat shardnum < length (b_merkles b)
     \<and> (let s = b_shard b ! unat shardnum in
          bs_proof s = None \<and> shard_all_hashes s \<and> shard_contents ssl s hs
          \<and> b_shard_nums b ! unat shardnum = bs_size s)
     \<and> b_merkles b ! unat shardnum = shard_root ssl hs"

lemma create_proof_fresh:
  assumes "proof_ready ssl b shardnum hs"
  shows "create_proof ssl b shardnum txoff = Some (fresh_proof ssl b shardnum txoff hs)"
proof -
  let ?s = "b_shard b ! unat shardnum"
  have "shard_contents ssl ?s hs" and r: "bs_proof ?s = None" "shard_all_hashes ?s"
    "unat shardnum < length (b_shard b)"
    using assms by (simp_all add: proof_ready_def Let_def)
  from proof_sibling_mroot [OF this(1)]
  have "those (map (proof_sibling ssl ?s txoff) [0..<8]) = Some (pr_merkles (fresh_proof ssl b shardnum txoff hs))"
    unfolding fresh_proof_def by (subst those_map_Some) auto
  with r show ?thesis by (simp add: create_proof_def fresh_proof_def)
qed

lemma fresh_proof_wf: "digest_ok ssl \<Longrightarrow> wf_proof (fresh_proof ssl b shardnum txoff hs)"
  by (auto simp: wf_proof_def fresh_proof_def list_all_iff intro: length_mroot)

lemma sibling_low: "off < 2 \<Longrightarrow> sibling_off off i = (if bit off i then 0 else 2 ^ i)"
proof -
  assume "off < (2 :: nat)"
  moreover have "(2 :: nat) \<le> 2 ^ Suc i" by simp
  ultimately have "off div 2 ^ Suc i = 0" by (intro div_less) linarith
  then show ?thesis by (simp add: sibling_off_def node_off_def del: power_Suc)
qed

lemma fresh_proof_accepted:
  assumes ok: "digest_ok ssl" and r: "proof_ready ssl b shardnum hs"
    and t: "unat txoff < length hs"
    and sib: "\<And>i. i < 8 \<Longrightarrow>
      mroot (SHA256_Double_Final ssl) (shard_leaf ssl hs) i (if bit txoff i then 0 else 2 ^ i)
      = mroot (SHA256_Double_Final ssl) (shard_leaf ssl hs) i (sibling_off (unat txoff) i)"
  shows "check_proof_byhash ssl (fresh_proof ssl b shardnum txoff hs) b (hs ! unat txoff) = Some True"
proof -
  let ?p = "fresh_proof ssl b shardnum txoff hs"
  let ?H = "SHA256_Double_Final ssl" and ?l = "shard_leaf ssl hs"
  have "climb ?H (?l (unat txoff)) (unat txoff) (pr_merkles ?p) 8 = mroot ?H ?l 8 (node_off (unat txoff) 8)"
    by (rule climb_complete) (simp add: fresh_proof_def sib [symmetric])
  then have c: "proof_merkles_to ssl (hs ! unat txoff) ?p = Some (shard_root ssl hs)"
    using t fresh_proof_wf [OF ok, of b shardnum txoff hs]
    by (simp add: proof_merkles_to_def proof_steps_climb wf_proof_def node_off_top shard_root_def
        shard_leaf_def fresh_proof_def)
  have "txoff < b_shard_nums b ! unat shardnum"
    using r t by (simp add: proof_ready_def Let_def shard_contents_def word_less_nat_alt)
  then show ?thesis
    using c r by (simp add: check_proof_byhash_def proof_ready_def fresh_proof_def Let_def not_le)
qed

text \<open>
  For the first two positions of a shard whose hashes are all known, \<open>create_proof\<close> returns a
  proof which \<open>check_proof_byhash\<close> accepts for the transaction at that position.
\<close>

theorem create_proof_checks:
  assumes "digest_ok ssl" and "proof_ready ssl b shardnum hs"
    and "unat txoff < length hs" and "txoff < 2"
  shows "\<exists>p. create_proof ssl b shardnum txoff = Some p
    \<and> check_proof_byhash ssl p b (hs ! unat txoff) = Some True"
proof -
  have "unat txoff < 2" using assms(4) by (simp add: word_less_nat_alt)
  then have "check_proof_byhash ssl (fresh_proof ssl b shardnum txoff hs) b (hs ! unat txoff) = Some True"
    using assms by (intro fresh_proof_accepted) (simp_all add: sibling_low bit_unat)
  then show ?thesis using create_proof_fresh [OF assms(2)] by blast
qed

text \<open>
  From the third position on, \<open>create_proof\<close> puts the wrong sibling at the bottom of its proof: it
  always takes the hash of position 0 (or 1), not that of the neighbour. So such a proof is
  accepted only if the neighbour's leaf happens to equal that of position 0 (or 1), or two
  strings collide.
\<close>

theorem create_proof_wrong_sibling:
  assumes ok: "digest_ok ssl" and r: "proof_ready ssl b shardnum hs"
    and t: "unat txoff < length hs" "2 \<le> txoff"
    and p: "create_proof ssl b shardnum txoff = Some p"
    and chk: "check_proof_byhash ssl p b (hs ! unat txoff) = Some True"
  shows "shard_leaf ssl hs (if bit txoff 0 then unat txoff - 1 else unat txoff + 1)
      = shard_leaf ssl hs (if bit txoff 0 then 0 else 1)
    \<or> sha_collision ssl"
proof -
  let ?off = "unat txoff" and ?H = "SHA256_Double_Final ssl" and ?l = "shard_leaf ssl hs"
  have pf: "p = fresh_proof ssl b shardnum txoff hs" using p create_proof_fresh [OF r] by simp
  have wfp: "wf_proof p" using fresh_proof_wf [OF ok] pf by simp
  have wft: "wf_txrefhash (hs ! ?off)"
    using r t(1) by (simp add: proof_ready_def Let_def shard_contents_def list_all_length)
  have "climb ?H (merkle_two_hashes ssl (trh_txhash (hs ! ?off)) (trh_refhash (hs ! ?off))) ?off (pr_merkles p) 8
      = shard_root ssl hs"
    using check_proof_byhash_True(5) [OF wfp chk] r by (simp add: pf proof_ready_def fresh_proof_def)
  then have "(\<forall>j < 8. pr_merkles p ! j = mroot ?H ?l j (sibling_off ?off j)) \<or> sha_collision ssl"
    using climb_root_binding [OF ok _ _ wft, of "pr_merkles p" ?off hs] wfp by (auto simp: wf_proof_def)
  then have "pr_merkles p ! 0 = mroot ?H ?l 0 (sibling_off ?off 0) \<or> sha_collision ssl" by auto
  moreover have "pr_merkles p ! 0 = ?l (if bit txoff 0 then 0 else 1)"
    by (simp add: pf fresh_proof_def)
  moreover have "sibling_off ?off 0 = (if bit txoff 0 then ?off - 1 else ?off + 1)"
  proof -
    have "bit ?off 0 = bit txoff 0" by (rule bit_unat)
    then show ?thesis
      by (cases "even ?off") (auto simp: sibling_off_def node_off_def bit_0 elim!: evenE oddE)
  qed
  ultimately show ?thesis by (auto split: if_splits)
qed

subsection \<open>Shape of shards and blocks\<close>

definition is_known :: "txslot \<Rightarrow> bool" where
  "is_known slot = (case slot of Txp (Some _) \<Rightarrow> True | _ \<Rightarrow> False)"

definition is_hash :: "txslot \<Rightarrow> bool" where
  "is_hash slot = (case slot of Hash _ \<Rightarrow> True | _ \<Rightarrow> False)"

definition slot_ok :: "txslot \<Rightarrow> bool" where
  "slot_ok slot =
     (case slot of
        Txp None \<Rightarrow> True
      | Txp (Some (t, rs)) \<Rightarrow> wf_tx t \<and> length rs = unat (num_inputs t)
      | Hash h \<Rightarrow> wf_txrefhash h)"

definition shard_ok :: "block_shard \<Rightarrow> bool" where
  \<comment> \<open>as many slots as the size says, and the counters count them\<close>
  "shard_ok sh \<longleftrightarrow> length (bs_u sh) = unat (bs_size sh) \<and> list_all slot_ok (bs_u sh)
     \<and> unat (bs_txcount sh) = length (filter is_known (bs_u sh))
     \<and> unat (bs_hashcount sh) = length (filter is_hash (bs_u sh))"

definition block_ok :: "block \<Rightarrow> bool" where
  "block_ok b \<longleftrightarrow> unat (bh_shard_order (b_hdr b)) \<le> 16
     \<and> length (b_shard b) = unat (num_shards (b_hdr b))
     \<and> length (b_shard_nums b) = unat (num_shards (b_hdr b))
     \<and> length (b_merkles b) = unat (num_shards (b_hdr b))
     \<and> (\<forall>i < length (b_shard b). shard_ok (b_shard b ! i) \<and> bs_size (b_shard b ! i) = b_shard_nums b ! i)"

lemma shard_ok_new: "shard_ok (new_block_shard n num)"
  by (simp add: shard_ok_def new_block_shard_def slot_ok_def is_known_def is_hash_def list_all_length)

lemma num_shards_nat:
  "unat (bh_shard_order h) \<le> 16 \<Longrightarrow> unat (num_shards h) = 2 ^ unat (bh_shard_order h)"
  using unat_shard_len(2) [of "bh_shard_order h"] by (simp add: num_shards_def word_le_nat_alt c_simps)

lemma new_block_ok:
  assumes "new_block ssl prev_work sha parts = Some b" and "wf_block_parts parts"
    and "bh_shard_order (bp_hdr parts) \<le> PROTOCOL_MAX_SHARD_ORDER"
  shows "block_ok b"
proof -
  have o: "unat (bh_shard_order (bp_hdr parts)) \<le> 16"
    using assms(3) by (simp add: word_le_nat_alt c_simps)
  have size: "bs_size (new_block_shard i n) = n" for i n by (simp add: new_block_shard_def)
  show ?thesis
    using assms(1,2) o num_shards_nat [OF o]
    by (auto simp: new_block_def block_ok_def bind_eq_Some_conv Let_def shard_ok_new wf_block_parts_def size)
qed

lemma filter_all_iff: "length (filter P xs) = length xs \<longleftrightarrow> list_all P xs"
  using length_filter_less [of _ xs P] by (fastforce simp: list_all_iff)

lemma shard_all_known_iff:
  assumes "shard_ok sh"
  shows "shard_all_known sh \<longleftrightarrow> list_all is_known (bs_u sh)"
  using assms by (auto simp: shard_ok_def shard_all_known_def word_unat_eq_iff simp flip: filter_all_iff)

subsection \<open>Examples\<close>

definition ex_trh :: protocol_txrefhash where
  "ex_trh = \<lparr>trh_txhash = replicate 32 1, trh_refhash = replicate 32 2\<rparr>"

definition ex_hash_block :: "protocol_txrefhash list \<Rightarrow> block" where
  \<comment> \<open>a block with one shard of which the hashes are known\<close>
  "ex_hash_block hs =
     \<lparr>b_children = [], b_pending_features = 0, b_all_known = False, b_total_work = 0, b_prev = None,
      b_parts = ex_parts\<lparr>bp_shard_nums := [word_of_nat (length hs)],
                         bp_merkles := [shard_root model_openssl hs]\<rparr>,
      b_complaint = None, b_sha = replicate 32 3,
      b_shard = [\<lparr>bs_shardnum = 0, bs_txcount = 0, bs_hashcount = word_of_nat (length hs),
                  bs_size = word_of_nat (length hs), bs_proof = None, bs_u = map Hash hs\<rparr>]\<rparr>"

lemma ex_hash_block_ready:
  assumes "length hs < 256" and "list_all wf_txrefhash hs"
  shows "proof_ready model_openssl (ex_hash_block hs) 0 hs"
  using assms
  by (auto simp: proof_ready_def ex_hash_block_def ex_parts_def shard_all_hashes_def shard_contents_def
      txrefhash_in_shard_def unsigned_of_nat take_bit_nat_eq_self word_less_nat_alt)

lemma ex_hashes_wf: "list_all wf_txrefhash (replicate n ex_trh)"
  by (simp add: list_all_length wf_txrefhash_def ex_trh_def)

lemma ex_accepted:
  assumes "txoff \<in> {0, 1, 2}"
  shows "check_proof_byhash model_openssl (fresh_proof model_openssl (ex_hash_block (replicate 4 ex_trh)) 0 txoff
    (replicate 4 ex_trh)) (ex_hash_block (replicate 4 ex_trh)) (replicate 4 ex_trh ! unat txoff) = Some True"
proof (rule fresh_proof_accepted [OF digest_ok_model ex_hash_block_ready])
  fix i :: nat
  have "Suc 0 div (2 * 2 ^ n) = 0" "Suc 0 div (4 * 2 ^ n) = 0" for n
    by (rule div_less, use one_le_power [of "2 :: nat" n] in linarith)+
  then have "sibling_off 2 i = (if i = 0 then 3 else if i = 1 then 0 else 2 ^ i)"
    by (cases i rule: nat.exhaust; cases "i - 1") (auto simp: sibling_off_def node_off_def bit_iff_odd)
  moreover have "shard_leaf model_openssl (replicate 4 ex_trh) 3 = shard_leaf model_openssl (replicate 4 ex_trh) 1"
    by (simp add: shard_leaf_def)
  ultimately show "mroot (SHA256_Double_Final model_openssl) (shard_leaf model_openssl (replicate 4 ex_trh)) i
      (if bit txoff i then 0 else 2 ^ i)
    = mroot (SHA256_Double_Final model_openssl) (shard_leaf model_openssl (replicate 4 ex_trh)) i
      (sibling_off (unat txoff) i)"
    using assms bit_exp_iff [where ?'a = u8, of 1 i] by (auto simp: sibling_low bit_unat [symmetric] bit_1_iff)
qed (use assms in \<open>auto simp: ex_hashes_wf\<close>)

lemma ex_create:
  "create_proof model_openssl (ex_hash_block (replicate 4 ex_trh)) 0 txoff
   = Some (fresh_proof model_openssl (ex_hash_block (replicate 4 ex_trh)) 0 txoff (replicate 4 ex_trh))"
  by (rule create_proof_fresh [OF ex_hash_block_ready]) (auto simp: ex_hashes_wf)


theorem create_proof_checks_witness:
  "\<exists>p. create_proof model_openssl (ex_hash_block (replicate 4 ex_trh)) 0 1 = Some p
    \<and> check_proof_byhash model_openssl p (ex_hash_block (replicate 4 ex_trh)) ex_trh = Some True"
  using create_proof_checks [OF digest_ok_model ex_hash_block_ready, of "replicate 4 ex_trh" 1]
  by (simp add: ex_hashes_wf)

theorem create_proof_wrong_sibling_witness:
  "\<exists>p. create_proof model_openssl (ex_hash_block (replicate 4 ex_trh)) 0 2 = Some p
    \<and> (shard_leaf model_openssl (replicate 4 ex_trh) 3 = shard_leaf model_openssl (replicate 4 ex_trh) 1
       \<or> sha_collision model_openssl)"
proof (intro exI conjI)
  show "create_proof model_openssl (ex_hash_block (replicate 4 ex_trh)) 0 2
      = Some (fresh_proof model_openssl (ex_hash_block (replicate 4 ex_trh)) 0 2 (replicate 4 ex_trh))"
    by (rule ex_create)
  show "shard_leaf model_openssl (replicate 4 ex_trh) 3 = shard_leaf model_openssl (replicate 4 ex_trh) 1
      \<or> sha_collision model_openssl"
    using create_proof_wrong_sibling [OF digest_ok_model ex_hash_block_ready _ _ ex_create, of 2] ex_accepted [of 2]
    by (simp add: ex_hashes_wf bit_iff_odd)
qed

end
