(* ===== verification/State.thy ===== *)
theory State
  imports Blocks
begin

section \<open>The daemon's state and the block store\<close>

text \<open>
  \<^verbatim>\<open>struct state\<close> (\<^verbatim>\<open>state.h\<close>) with the structures it points to, and the code which walks the
  block chain: \<^verbatim>\<open>chain.h\<close>, \<open>block_find\<close> and \<open>block_find_any\<close> of \<^verbatim>\<open>block.c\<close>, \<^verbatim>\<open>prev_txhashes.c\<close>,
  \<^verbatim>\<open>features.c\<close>, \<^verbatim>\<open>timestamp.c\<close> and \<open>get_difficulty\<close>.

  Blocks live in a store, a partial map from addresses to blocks: reading through a NULL or
  dangling pointer is \<open>None\<close>. Lists linked through a structure are HOL lists in list order.
  Actions on the outside world (disk, peers, the block generator) are appended to the trace
  \<open>st_out\<close>.

  \<open>heap_ok\<close> is the shape invariant of the store: the \<open>prev\<close> and \<open>children\<close> links form one tree
  whose levels are the depths in the block headers. Under it every walk ends and returns what
  the relation \<open>ancestor\<close> says.
\<close>

subsection \<open>Data\<close>

datatype txhash_block_or_tx = In_block bptr | Pending_tx protocol_tx

record txhash_elem =
  te_sha :: sha
  te_u :: txhash_block_or_tx
  te_shardnum :: u16
  te_txoff :: u8

record inputhash_elem =
  ie_tx :: sha
  ie_output_num :: u16
  ie_used_by :: sha

record pending_tx =
  pt_tx :: protocol_tx
  pt_refs :: "protocol_input_ref list"

record pending_block =
  pb_pend :: "pending_tx list list"
  pb_needs_recheck :: bool
  pb_unknown_tx :: "protocol_tx list"
  pb_num_unknown :: u32

datatype todo_type =
    PKT_GET_BLOCK | PKT_GET_SHARD | PKT_GET_TXMAP | PKT_GET_CHILDREN | PKT_GET_TX_IN_BLOCK | PKT_GET_TX

record todo_request =
  td_asked :: "bool list"
  td_failed :: "bool list"
  td_type :: todo_type
  td_sha :: sha
  td_shardnum :: u16
  td_txoff :: u8

record peer =
  p_num :: nat
  p_we_are_syncing :: bool
  p_they_are_syncing :: bool
  p_error_pkt :: "protocol_ecode option"
  p_welcome :: "(u8 \<times> bytes) option" \<comment> \<open>shard order and interests of the welcome packet\<close>
  p_requests_outstanding :: u32
  p_todo :: "bytes list"

datatype action =
    Save_block bptr
  | Save_tx bptr u16 u8
  | Wake_peers
  | Wake_peer nat
  | Peer_cache_del nat bool
  | Fill_peers
  | Restart_generating
  | Tell_generator_new_pending u32 nat
  | Send_tx_in_block bptr u16 u8
  | Broadcast_complaint bptr bytes

record state =
  st_test_net :: bool
  st_heap :: "bptr \<Rightarrow> block option"
  st_block_depth :: "bptr list list"
  st_longest_chains :: "bptr list"
  st_longest_knowns :: "bptr list"
  st_preferred_chain :: bptr
  st_todo :: "todo_request list"
  st_pending :: pending_block
  st_txhash :: "txhash_elem list"
  st_inputhash :: "inputhash_elem list"
  st_peers :: "peer list"
  st_peer_map :: "bool list"
  st_num_peers :: size_t
  st_num_peers_connected :: size_t
  st_upcoming_features :: u8
  st_require_non_gateway_tx_fee :: bool
  st_require_gateway_tx_fee :: bool
  st_interests :: "bool list"
  st_out :: "action list"

type_synonym heap = "bptr \<Rightarrow> block option"

text \<open>
  The libraries the daemon is linked with: OpenSSL, the order in which the hash tables of ccan
  iterate over their elements, \<^verbatim>\<open>asort\<close> of ccan, and the clock.
\<close>

record runtime =
  rt_ssl :: openssl
  rt_tx_order :: "txhash_elem list \<Rightarrow> txhash_elem list"
  rt_input_order :: "inputhash_elem list \<Rightarrow> inputhash_elem list"
  rt_asort :: "(u32 \<Rightarrow> u32 \<Rightarrow> int) \<Rightarrow> u32 list \<Rightarrow> u32 list"
  rt_time :: nat

definition genesis_block :: "state \<Rightarrow> bptr option" where
  \<comment> \<open>\<open>None\<close> stands for the NULL of an empty list\<close>
  "genesis_block s =
     do { l \<leftarrow> c_nth (st_block_depth s) 0; (case l of [] \<Rightarrow> None | g # _ \<Rightarrow> Some g) }"

subsection \<open>chain.h and block.c: walks\<close>

partial_function (option) block_preceeds :: "heap \<Rightarrow> bptr \<Rightarrow> bptr \<Rightarrow> bool option" where
  "block_preceeds h a b =
     (if a = b then Some True
      else do {
        ba \<leftarrow> h a;
        bb \<leftarrow> h b;
        if b_depth ba \<ge> b_depth bb then Some False
        else do { p \<leftarrow> b_prev bb; block_preceeds h a p } })"

fun block_ancestor :: "heap \<Rightarrow> bptr option \<Rightarrow> nat \<Rightarrow> bptr option option" where
  \<comment> \<open>pointers as \<open>option\<close>: NULL is \<open>Some None\<close>\<close>
  "block_ancestor h b 0 = Some b"
| "block_ancestor h None (Suc n) = Some None"
| "block_ancestor h (Some b) (Suc n) = do { bb \<leftarrow> h b; block_ancestor h (b_prev bb) n }"

partial_function (option) block_find :: "heap \<Rightarrow> bptr option \<Rightarrow> bytes \<Rightarrow> bptr option option" where
  "block_find h start lower_sha =
     (case start of
        None \<Rightarrow> Some None
      | Some b \<Rightarrow> do {
          bb \<leftarrow> h b;
          x \<leftarrow> c_slice (b_sha bb) 0 4;
          y \<leftarrow> c_slice lower_sha 0 4;
          if memcmp x y = 0 then Some (Some b) else block_find h (b_prev bb) lower_sha })"

fun find_sha :: "heap \<Rightarrow> sha \<Rightarrow> bptr list \<Rightarrow> bptr option option" where
  \<comment> \<open>one \<open>list_for_each\<close>\<close>
  "find_sha h sha [] = Some None"
| "find_sha h sha (b # bs) =
     do { bb \<leftarrow> h b; if b_sha bb = sha then Some (Some b) else find_sha h sha bs }"

fun find_sha_levels :: "heap \<Rightarrow> sha \<Rightarrow> bptr list list \<Rightarrow> bptr option option" where
  "find_sha_levels h sha [] = Some None"
| "find_sha_levels h sha (l # ls) =
     do { r \<leftarrow> find_sha h sha l;
          (case r of Some b \<Rightarrow> Some (Some b) | None \<Rightarrow> find_sha_levels h sha ls) }"

definition block_find_any :: "state \<Rightarrow> sha \<Rightarrow> bptr option option" where
  \<comment> \<open>deepest level first\<close>
  "block_find_any s sha = find_sha_levels (st_heap s) sha (rev (st_block_depth s))"

text \<open>
  The three loops of \<open>step_towards\<close>: \<open>cur\<close> up to the depth of \<open>target\<close>, \<open>target\<close> up to the
  depth of \<open>cur\<close>, then both up to the common ancestor. \<open>prev_target\<close> is uninitialised at first.
\<close>

partial_function (option) step_curr :: "heap \<Rightarrow> bptr \<Rightarrow> bptr \<Rightarrow> bptr option" where
  "step_curr h cur target =
     do { bc \<leftarrow> h cur; bt \<leftarrow> h target;
          if b_depth bc > b_depth bt then do { p \<leftarrow> b_prev bc; step_curr h p target }
          else Some cur }"

partial_function (option) step_target ::
    "heap \<Rightarrow> bptr \<Rightarrow> bptr \<Rightarrow> bptr option \<Rightarrow> (bptr \<times> bptr option) option" where
  "step_target h cur target prev_target =
     do { bt \<leftarrow> h target; bc \<leftarrow> h cur;
          if b_depth bt > b_depth bc
          then do { p \<leftarrow> b_prev bt; step_target h cur p (Some target) }
          else Some (target, prev_target) }"

partial_function (option) step_both :: "heap \<Rightarrow> bptr \<Rightarrow> bptr \<Rightarrow> bptr option \<Rightarrow> bptr option option" where
  "step_both h cur target prev_target =
     (if cur \<noteq> target then
        do { bt \<leftarrow> h target; bc \<leftarrow> h cur;
             pt \<leftarrow> b_prev bt; pc \<leftarrow> b_prev bc;
             step_both h pc pt (Some target) }
      else Some prev_target)"

definition step_towards :: "heap \<Rightarrow> bptr \<Rightarrow> bptr \<Rightarrow> bptr option option" where
  "step_towards h cur target =
     do { c \<leftarrow> step_curr h cur target;
          if c = target then Some None
          else do {
            (t, pt) \<leftarrow> step_target h c target None;
            r \<leftarrow> step_both h c t pt;
            p \<leftarrow> r;
            Some (Some p) } }"

subsection \<open>prev_txhashes.c\<close>

function for_each_prev_txhash :: "heap \<Rightarrow> nat \<Rightarrow> bptr option \<Rightarrow> bptr list option" where
  \<comment> \<open>the blocks the loop macro visits, from round \<open>i\<close> on\<close>
  "for_each_prev_txhash h i b =
     (if i < PROTOCOL_PREV_BLOCK_TXHASHES then
        (case b of
           None \<Rightarrow> Some []
         | Some p \<Rightarrow> do {
             nb \<leftarrow> block_ancestor h b (2 ^ i);
             rest \<leftarrow> for_each_prev_txhash h (Suc i) nb;
             Some (p # rest) })
      else Some [])"
  by pat_completeness auto
termination
  by (relation "measure (\<lambda>(h, i, b). PROTOCOL_PREV_BLOCK_TXHASHES - i)") auto

declare for_each_prev_txhash.simps [simp del]

fun sum_shards :: "heap \<Rightarrow> bptr list \<Rightarrow> size_t option" where
  "sum_shards h [] = Some 0"
| "sum_shards h (b # bs) =
     do { bb \<leftarrow> h b; n \<leftarrow> sum_shards h bs; Some (ucast (num_shards (b_hdr bb)) + n) }"

definition num_prev_txhashes :: "heap \<Rightarrow> bptr option \<Rightarrow> size_t option" where
  "num_prev_txhashes h prev_block =
     do { bs \<leftarrow> for_each_prev_txhash h 0 prev_block; sum_shards h bs }"

fun shard_bytes :: "block \<Rightarrow> u16 \<Rightarrow> nat \<Rightarrow> bytes option" where
  \<comment> \<open>what \<open>prev_txhash\<close> feeds to the hash for the first \<open>n\<close> transactions\<close>
  "shard_bytes block shard 0 = Some []"
| "shard_bytes block shard (Suc n) =
     do { bs \<leftarrow> shard_bytes block shard n;
          t \<leftarrow> block_get_tx block shard (word_of_nat n);
          r \<leftarrow> block_get_refs block shard (word_of_nat n);
          tx \<leftarrow> t;
          refs \<leftarrow> r;
          len \<leftarrow> marshal_tx_len tx;
          tb \<leftarrow> c_slice (enc_tx tx) 0 (unat len);
          rb \<leftarrow> c_slice (concat (map enc_ref refs)) 0 (unat (marshal_input_ref_len tx));
          Some (bs @ tb @ rb) }"

definition prev_txhash :: "openssl \<Rightarrow> address \<Rightarrow> block \<Rightarrow> u16 \<Rightarrow> u8 option" where
  "prev_txhash ssl addr block shard =
     do { n \<leftarrow> c_nth (b_shard_nums block) (unat shard);
          bs \<leftarrow> shard_bytes block shard (unat n);
          c_nth (SHA256_Double_Final ssl (addr @ bs)) 0 }"

fun block_txhashes :: "openssl \<Rightarrow> address \<Rightarrow> block \<Rightarrow> nat \<Rightarrow> bytes option option" where
  \<comment> \<open>the inner loop of \<open>make_prev_txhashes\<close>: the bytes of the first \<open>n\<close> shards, or \<open>Some None\<close>
     when one of them is not fully known\<close>
  "block_txhashes ssl addr b 0 = Some (Some [])"
| "block_txhashes ssl addr b (Suc j) =
     do { r \<leftarrow> block_txhashes ssl addr b j;
          (case r of
             None \<Rightarrow> Some None
           | Some bs \<Rightarrow> do {
               sh \<leftarrow> c_nth (b_shard b) j;
               if \<not> shard_all_known sh then Some None
               else do { x \<leftarrow> prev_txhash ssl addr b (word_of_nat j); Some (Some (bs @ [x])) } }) }"

fun chain_txhashes :: "openssl \<Rightarrow> address \<Rightarrow> heap \<Rightarrow> bptr list \<Rightarrow> bytes option option" where
  "chain_txhashes ssl addr h [] = Some (Some [])"
| "chain_txhashes ssl addr h (b # bs) =
     do { bb \<leftarrow> h b;
          r \<leftarrow> block_txhashes ssl addr bb (unat (num_shards (b_hdr bb)));
          (case r of
             None \<Rightarrow> Some None
           | Some x \<Rightarrow> do { rest \<leftarrow> chain_txhashes ssl addr h bs;
                            Some (map_option (\<lambda>y. x @ y) rest) }) }"

definition make_prev_txhashes :: "openssl \<Rightarrow> heap \<Rightarrow> bptr option \<Rightarrow> address \<Rightarrow> bytes option option" where
  "make_prev_txhashes ssl h prev_block my_addr =
     do { bs \<leftarrow> for_each_prev_txhash h 0 prev_block;
          len \<leftarrow> num_prev_txhashes h prev_block;
          r \<leftarrow> chain_txhashes ssl my_addr h bs;
          (case r of
             None \<Rightarrow> Some None
           | Some m \<Rightarrow> do { c_assert (length m = unat len); Some (Some m) }) }"

text \<open>
  The checks of \<^verbatim>\<open>check_block.c\<close> on these bytes. \<open>check_prev_txhashes\<close> returns \<open>None\<close> inside for
  \<open>true\<close>, or the block and shard that do not match.
\<close>

definition check_num_prev_txhashes :: "heap \<Rightarrow> bptr option \<Rightarrow> protocol_block_header \<Rightarrow> bool option" where
  "check_num_prev_txhashes h prev_block hdr =
     do { n \<leftarrow> num_prev_txhashes h prev_block; Some (ucast (bh_num_prev_txhashes hdr) = n) }"

fun check_shard_hashes :: "openssl \<Rightarrow> address \<Rightarrow> bytes \<Rightarrow> block \<Rightarrow> nat \<Rightarrow> nat \<Rightarrow> nat option option" where
  \<comment> \<open>the inner loop over the first \<open>n\<close> shards\<close>
  "check_shard_hashes ssl addr hashes b off 0 = Some None"
| "check_shard_hashes ssl addr hashes b off (Suc j) =
     do { r \<leftarrow> check_shard_hashes ssl addr hashes b off j;
          (case r of
             Some bad \<Rightarrow> Some (Some bad)
           | None \<Rightarrow> do {
               sh \<leftarrow> c_nth (b_shard b) j;
               if \<not> shard_all_known sh then Some None
               else do {
                 x \<leftarrow> prev_txhash ssl addr b (word_of_nat j);
                 y \<leftarrow> c_nth hashes (off + j);
                 Some (if x \<noteq> y then Some j else None) } }) }"

fun check_chain_hashes ::
    "openssl \<Rightarrow> address \<Rightarrow> bytes \<Rightarrow> heap \<Rightarrow> bptr list \<Rightarrow> nat \<Rightarrow> (nat + bptr \<times> nat) option" where
  \<comment> \<open>\<open>Inl\<close>: the final offset; \<open>Inr\<close>: what does not match\<close>
  "check_chain_hashes ssl addr hashes h [] off = Some (Inl off)"
| "check_chain_hashes ssl addr hashes h (b # bs) off =
     do { bb \<leftarrow> h b;
          let n = unat (num_shards (b_hdr bb));
          r \<leftarrow> check_shard_hashes ssl addr hashes bb off n;
          (case r of
             Some bad \<Rightarrow> Some (Inr (b, bad))
           | None \<Rightarrow> check_chain_hashes ssl addr hashes h bs (off + n)) }"

definition check_prev_txhashes :: "openssl \<Rightarrow> heap \<Rightarrow> block \<Rightarrow> (bptr \<times> nat) option option" where
  "check_prev_txhashes ssl h block =
     do { bs \<leftarrow> for_each_prev_txhash h 0 (b_prev block);
          r \<leftarrow> check_chain_hashes ssl (bh_fees_to (b_hdr block)) (b_prev_txhashes block) h bs 0;
          (case r of
             Inr bad \<Rightarrow> Some (Some bad)
           | Inl off \<Rightarrow> do {
               c_assert (off = unat (bh_num_prev_txhashes (b_hdr block))); Some None }) }"

subsection \<open>features.c\<close>

fun feature_votes :: "heap \<Rightarrow> nat \<Rightarrow> bptr option \<Rightarrow> u8 list option" where
  \<comment> \<open>the votes of \<open>n\<close> blocks, going back\<close>
  "feature_votes h 0 b = Some []"
| "feature_votes h (Suc n) b =
     do { p \<leftarrow> b; bb \<leftarrow> h p; vs \<leftarrow> feature_votes h n (b_prev bb);
          Some (bh_features_vote (b_hdr bb) # vs) }"

definition feature_count :: "u8 list \<Rightarrow> nat \<Rightarrow> nat" where
  "feature_count votes j = length (filter (\<lambda>v. bit v j) votes)"

definition pending_features :: "heap \<Rightarrow> bptr \<Rightarrow> u8 option" where
  "pending_features h b =
     do { bb \<leftarrow> h b;
          if b_depth bb mod PROTOCOL_FEATURE_VOTE_BLOCKS \<noteq> 0 then
            do { p \<leftarrow> b_prev bb; pb \<leftarrow> h p; Some (b_pending_features pb) }
          else do {
            votes \<leftarrow> feature_votes h PROTOCOL_FEATURE_VOTE_BLOCKS (Some b);
            Some (foldl (\<lambda>result j.
                     if feature_count votes j * 4 div PROTOCOL_FEATURE_VOTE_BLOCKS \<ge> 3
                     then result OR push_bit j 1 else result) 0 [0..<8]) } }"

subsection \<open>timestamp.c\<close>

definition cmp_times :: "u32 \<Rightarrow> u32 \<Rightarrow> int" where
  "cmp_times a b = (if a > b then 1 else if a > b then -1 else 0)"

fun recent_times :: "heap \<Rightarrow> nat \<Rightarrow> bptr \<Rightarrow> u32 list option" where
  \<comment> \<open>the timestamps of the last \<open>n\<close> blocks, without the genesis block\<close>
  "recent_times h 0 prev = Some []"
| "recent_times h (Suc n) prev =
     do { b \<leftarrow> h prev;
          (case b_prev b of
             None \<Rightarrow> Some []
           | Some p \<Rightarrow> do { ts \<leftarrow> recent_times h n p; Some (bt_timestamp (b_tailer b) # ts) }) }"

definition check_timestamp :: "runtime \<Rightarrow> state \<Rightarrow> u32 \<Rightarrow> bptr \<Rightarrow> bool option" where
  "check_timestamp rt s timestamp prev =
     do { ts \<leftarrow> recent_times (st_heap s) 11 prev;
          let i = length ts;
          let times = rt_asort rt cmp_times ts;
          bad \<leftarrow> (if i \<noteq> 0 then do { m \<leftarrow> c_nth times (i div 2); Some (timestamp \<le> m) }
                  else Some False);
          if bad then Some False
          else Some (unat timestamp < rt_time rt + 2 * 60 * 60) }"

subsection \<open>difficulty.c: get_difficulty\<close>

text \<open>
  \<open>actual_time\<close> is signed and \<open>ideal_time\<close> unsigned, both of 64 bits, so the comparisons are
  unsigned: \<open>actual_time\<close> is a 64-bit word here.
\<close>

definition clamp_time :: "u64 \<Rightarrow> u64 \<Rightarrow> u64" where
  "clamp_time ideal_time actual_time =
     (let t1 = (if actual_time < ideal_time div 4 then ideal_time div 4 else actual_time)
      in if t1 > ideal_time * 4 then ideal_time * 4 else t1)"

definition get_difficulty :: "openssl \<Rightarrow> state \<Rightarrow> bptr \<Rightarrow> u32 option" where
  "get_difficulty ssl s prev =
     do { bp \<leftarrow> st_heap s prev;
          let h = st_heap s;
          let interval = PROTOCOL_DIFFICULTY_UPDATE_BLOCKS;
          let ideal_time = (word_of_nat (PROTOCOL_BLOCK_TARGET_TIME (st_test_net s) * interval) :: u64);
          let prev_difficulty = bt_difficulty (b_tailer bp);
          if unat (bh_depth (b_hdr bp) + 1) mod interval \<noteq> 0 then Some prev_difficulty
          else do {
            genesis \<leftarrow> genesis_block s;
            gb \<leftarrow> h genesis;
            start \<leftarrow> (if b_depth bp = interval - 1 then Some (Some genesis)
                       else block_ancestor h (Some prev) interval);
            sp \<leftarrow> start;
            sb \<leftarrow> h sp;
            let actual_time = clamp_time ideal_time
              (ucast (bt_timestamp (b_tailer bp)) - ucast (bt_timestamp (b_tailer sb)));
            target \<leftarrow> decode_difficulty ssl prev_difficulty;
            t1 \<leftarrow> BN_mul_word ssl target (unat actual_time);
            (t2, _) \<leftarrow> BN_div_word ssl t1 (unat ideal_time);
            enc \<leftarrow> encode_difficulty ssl t2;
            (exp, base) \<leftarrow> enc;
            let genesis_exp = diff_exp (bt_difficulty (b_tailer gb));
            let genesis_base = diff_mant (bt_difficulty (b_tailer gb));
            let (e, m) = (if exp > genesis_exp \<or> exp = genesis_exp \<and> base > genesis_base
                          then (genesis_exp, genesis_base) else (exp, base));
            Some (push_bit 24 e OR m) } }"

end
