(* ===== verification/Walks.thy ===== *)
theory Walks
  imports State
begin

section \<open>Walking the chain: what the walks return\<close>

text \<open>
  The invariant \<open>heap_ok\<close> of the block store, the ancestor relation, and for each walk of theory
  \<open>State\<close> that it returns under the invariant and what it returns.
\<close>

definition node_ok :: "heap \<Rightarrow> bptr \<Rightarrow> block \<Rightarrow> bool" where
  "node_ok h p b \<longleftrightarrow>
     (case b_prev b of
        None \<Rightarrow> b_depth b = 0
      | Some q \<Rightarrow> (\<exists>c. h q = Some c \<and> b_depth b = Suc (b_depth c)
                   \<and> bh_prev_block (b_hdr b) = b_sha c \<and> p \<in> set (b_children c)))
     \<and> distinct (b_children b)
     \<and> (\<forall>k \<in> set (b_children b). \<exists>kb. h k = Some kb \<and> b_prev kb = Some p)"

definition heap_ok :: "heap \<Rightarrow> bool" where
  "heap_ok h \<longleftrightarrow> (\<forall>p b. h p = Some b \<longrightarrow> node_ok h p b)
     \<and> (\<forall>p q b c. h p = Some b \<longrightarrow> h q = Some c \<longrightarrow> b_prev b = None \<longrightarrow> b_prev c = None \<longrightarrow> p = q)"

inductive ancestor :: "heap \<Rightarrow> bptr \<Rightarrow> bptr \<Rightarrow> bool" for h where
  ancestor_refl: "h b = Some bb \<Longrightarrow> ancestor h b b"
| ancestor_step: "h b = Some bb \<Longrightarrow> b_prev bb = Some p \<Longrightarrow> ancestor h a p \<Longrightarrow> ancestor h a b"

inductive_cases ancestor_E: "ancestor h a b"

subsection \<open>Depths\<close>

lemma heap_prev:
  assumes "heap_ok h" and "h b = Some bb" and "b_prev bb = Some p"
  obtains pb where "h p = Some pb" "b_depth bb = Suc (b_depth pb)" "bh_prev_block (b_hdr bb) = b_sha pb"
    "b \<in> set (b_children pb)"
proof -
  have "node_ok h b bb" using assms by (simp add: heap_ok_def)
  with assms(3) that show thesis by (auto simp: node_ok_def)
qed

lemma heap_root: "heap_ok h \<Longrightarrow> h b = Some bb \<Longrightarrow> b_prev bb = None \<Longrightarrow> b_depth bb = 0"
proof -
  assume "heap_ok h" "h b = Some bb" "b_prev bb = None"
  then show ?thesis using node_ok_def [of h b bb] by (simp add: heap_ok_def)
qed

lemma heap_root_unique:
  "heap_ok h \<Longrightarrow> h a = Some ab \<Longrightarrow> h b = Some bb \<Longrightarrow> b_prev ab = None \<Longrightarrow> b_prev bb = None \<Longrightarrow> a = b"
  unfolding heap_ok_def by blast

lemma heap_child:
  "heap_ok h \<Longrightarrow> h b = Some bb \<Longrightarrow> k \<in> set (b_children bb) \<Longrightarrow> \<exists>kb. h k = Some kb \<and> b_prev kb = Some b"
  unfolding heap_ok_def node_ok_def by blast

lemma heap_depth_pos:
  assumes "heap_ok h" and "h b = Some bb"
  shows "b_prev bb = None \<longleftrightarrow> b_depth bb = 0"
  using assms heap_root [OF assms] heap_prev [OF assms] by (cases "b_prev bb") fastforce+

lemma ancestor_left: "ancestor h a b \<Longrightarrow> \<exists>ab. h a = Some ab"
  by (induction rule: ancestor.induct) auto

lemma ancestor_right: "ancestor h a b \<Longrightarrow> \<exists>bb. h b = Some bb"
  by (induction rule: ancestor.induct) auto

lemma ancestor_trans: "ancestor h b c \<Longrightarrow> ancestor h a b \<Longrightarrow> ancestor h a c"
  by (induction rule: ancestor.induct) (auto intro: ancestor_step)

lemma ancestor_prev: "h b = Some bb \<Longrightarrow> b_prev bb = Some p \<Longrightarrow> h p = Some pb \<Longrightarrow> ancestor h p b"
  by (meson ancestor_refl ancestor_step)

lemma ancestor_depth:
  assumes "heap_ok h" and "ancestor h a b" and "h a = Some ab" and "h b = Some bb"
  shows "b_depth ab \<le> b_depth bb \<and> (b_depth ab = b_depth bb \<longrightarrow> a = b)"
  using assms(2-)
proof (induction arbitrary: bb rule: ancestor.induct)
  case (ancestor_step b bb' p a)
  with assms(1) obtain pb where "h p = Some pb" "b_depth bb' = Suc (b_depth pb)"
    by (meson heap_prev)
  with ancestor_step show ?case by fastforce
qed simp

lemma ancestor_unique:
  assumes "heap_ok h" and "ancestor h a x" and "ancestor h b x"
    and "h a = Some ab" and "h b = Some bb" and "b_depth ab = b_depth bb"
  shows "a = b"
  using assms(2-)
proof (induction rule: ancestor.induct)
  case (ancestor_refl x xb)
  then show ?case using ancestor_depth [OF assms(1), of b x bb xb] by fastforce
next
  case (ancestor_step x xb p a)
  show ?case
  proof (cases "b = x")
    case True
    obtain pb where "h p = Some pb" "b_depth xb = Suc (b_depth pb)"
      using heap_prev [OF assms(1) ancestor_step.hyps(1,2)] by metis
    then show ?thesis
      using True ancestor_step ancestor_depth [OF assms(1) ancestor_step.hyps(3)] by fastforce
  next
    case False
    then have "ancestor h b p"
      using ancestor_step.prems(1) ancestor_step.hyps(1,2) by (auto elim: ancestor_E)
    then show ?thesis using ancestor_step by blast
  qed
qed

lemma ancestor_chain:
  \<comment> \<open>two ancestors of one block are comparable\<close>
  assumes "heap_ok h" and "ancestor h a x" and "ancestor h b x"
  shows "ancestor h a b \<or> ancestor h b a"
  using assms(2,3)
proof (induction rule: ancestor.induct)
  case (ancestor_step x xb p a)
  then show ?case by (metis ancestor_E ancestor.ancestor_step option.inject)
qed simp

subsection \<open>block_preceeds and block_ancestor\<close>

lemma block_preceeds_eq:
  assumes ok: "heap_ok h" and a: "h a = Some ab" and b: "h b = Some bb"
  shows "block_preceeds h a b = Some (ancestor h a b)"
  using b
proof (induction "b_depth bb" arbitrary: b bb rule: less_induct)
  case less
  show ?case
  proof (cases "a = b \<or> b_depth ab \<ge> b_depth bb")
    case True
    then show ?thesis
      using less.prems a ancestor_depth [OF ok _ a less.prems]
      by (subst block_preceeds.simps) (auto intro: ancestor_refl)
  next
    case False
    then obtain p where p: "b_prev bb = Some p"
      using heap_depth_pos [OF ok less.prems] by fastforce
    obtain pb where pb: "h p = Some pb" "b_depth bb = Suc (b_depth pb)"
      using heap_prev [OF ok less.prems p] by metis
    have "block_preceeds h a b = block_preceeds h a p"
      using False a less.prems p by (subst block_preceeds.simps) simp
    also have "\<dots> = Some (ancestor h a p)"
      using less.hyps [of pb p] pb by simp
    also have "ancestor h a p \<longleftrightarrow> ancestor h a b"
      using False less.prems p by (auto intro: ancestor_step elim: ancestor_E)
    finally show ?thesis .
  qed
qed

text \<open>
  On a well-formed block store \<open>block_preceeds\<close> always returns, and it returns whether the
  first block is an ancestor of (or the same as) the second.
\<close>

theorem block_preceeds_correct:
  assumes ok: "heap_ok h" and a: "h a = Some ab" and b: "h b = Some bb"
  shows "block_preceeds h a b = Some (ancestor h a b)"
  using assms by (rule block_preceeds_eq)

lemma block_ancestor_None [simp]: "block_ancestor h None n = Some None"
  by (cases n) auto

lemma block_ancestor_add:
  "block_ancestor h b (m + n) = block_ancestor h b m \<bind> (\<lambda>c. block_ancestor h c n)"
proof (induction m arbitrary: b)
  case (Suc m)
  then show ?case by (cases b) (auto simp: bind_eq_None_conv split: Option.bind_splits)
qed simp

lemma block_ancestor_eq:
  assumes "heap_ok h" and "h b = Some bb"
  shows "if n \<le> b_depth bb
    then \<exists>a ab. block_ancestor h (Some b) n = Some (Some a) \<and> h a = Some ab
      \<and> b_depth ab + n = b_depth bb \<and> ancestor h a b
    else block_ancestor h (Some b) n = Some None"
  using assms(2)
proof (induction n arbitrary: b bb)
  case 0
  then show ?case by (auto intro: ancestor_refl)
next
  case (Suc n)
  show ?case
  proof (cases "b_prev bb")
    case None
    then show ?thesis using heap_root [OF assms(1) Suc.prems] Suc.prems by simp
  next
    case (Some p)
    obtain pb where pb: "h p = Some pb" "b_depth bb = Suc (b_depth pb)"
      using heap_prev [OF assms(1) Suc.prems Some] by metis
    with Suc.IH [OF pb(1)] Suc.prems Some show ?thesis
      by (auto split: if_splits intro: ancestor_step)
  qed
qed

subsection \<open>step_towards\<close>

lemma heap_step_up:
  assumes "heap_ok h" and "h b = Some bb" and "0 < b_depth bb"
  obtains p pb where "b_prev bb = Some p" "h p = Some pb" "b_depth bb = Suc (b_depth pb)" "ancestor h p b"
proof -
  obtain p where p: "b_prev bb = Some p" using heap_depth_pos [OF assms(1,2)] assms(3) by auto
  then obtain pb where "h p = Some pb" "b_depth bb = Suc (b_depth pb)"
    using heap_prev [OF assms(1,2) p] by metis
  then show thesis using that p ancestor_prev [of h b bb p pb] assms(2) by metis
qed

lemma step_curr_eq:
  assumes ok: "heap_ok h" and c: "h c = Some cb" and t: "h t = Some tb"
  shows "\<exists>c' cb'. step_curr h c t = Some c' \<and> h c' = Some cb' \<and> ancestor h c' c
    \<and> b_depth cb' = min (b_depth cb) (b_depth tb)"
  using c
proof (induction "b_depth cb" arbitrary: c cb rule: less_induct)
  case less
  show ?case
  proof (cases "b_depth cb > b_depth tb")
    case True
    then have "0 < b_depth cb" by simp
    then obtain p pb where p: "b_prev cb = Some p" "h p = Some pb" "b_depth cb = Suc (b_depth pb)" "ancestor h p c"
      using heap_step_up [OF ok less.prems] by metis
    moreover have "step_curr h c t = step_curr h p t"
      using True less.prems t p by (subst step_curr.simps) simp
    moreover obtain c' cb' where "step_curr h p t = Some c'" "h c' = Some cb'" "ancestor h c' p"
      "b_depth cb' = min (b_depth pb) (b_depth tb)"
      using less.hyps [of pb p] p by auto
    ultimately show ?thesis
      using True ancestor_trans [of h p c c'] by (auto simp: min_def)
  next
    case False
    then show ?thesis
      using less.prems t by (subst step_curr.simps) (auto simp: min_def intro: ancestor_refl)
  qed
qed

text \<open>
  What the second and third loop maintain: \<open>t\<close> is on the way from \<open>target\<close> to the root, and
  \<open>pt\<close> is the block one step closer to \<open>target\<close>, which is not on the way from \<open>cur\<close>.
\<close>

definition towards :: "heap \<Rightarrow> bptr \<Rightarrow> bptr \<Rightarrow> bptr \<Rightarrow> bptr option \<Rightarrow> bool" where
  "towards h cur target t pt \<longleftrightarrow> ancestor h t target \<and>
     (case pt of
        None \<Rightarrow> t = target
      | Some q \<Rightarrow> ancestor h q target \<and> \<not> ancestor h q cur \<and> (\<exists>qb. h q = Some qb \<and> b_prev qb = Some t))"

lemma step_target_eq:
  assumes ok: "heap_ok h" and c: "h c = Some cb" and cur: "h cur = Some curb" "b_depth curb = b_depth cb"
    and t: "h t = Some tb" "b_depth cb \<le> b_depth tb" and inv: "towards h cur target t pt"
  shows "\<exists>t' tb' pt'. step_target h c t pt = Some (t', pt') \<and> h t' = Some tb'
    \<and> b_depth tb' = b_depth cb \<and> towards h cur target t' pt'
    \<and> (b_depth cb < b_depth tb \<longrightarrow> pt' \<noteq> None) \<and> (b_depth cb = b_depth tb \<longrightarrow> t' = t)"
  using t inv
proof (induction "b_depth tb" arbitrary: t tb pt rule: less_induct)
  case less
  show ?case
  proof (cases "b_depth tb > b_depth cb")
    case True
    then have "0 < b_depth tb" by simp
    then obtain p pb where p: "b_prev tb = Some p" "h p = Some pb" "b_depth tb = Suc (b_depth pb)" "ancestor h p t"
      using heap_step_up [OF ok less.prems(1)] by metis
    have "\<not> ancestor h t cur"
      using ancestor_depth [OF ok, of t cur tb curb] less.prems cur True by auto
    then have "towards h cur target p (Some t)"
      using less.prems p ancestor_trans by (auto simp: towards_def)
    moreover have "step_target h c t pt = step_target h c p (Some t)"
      using True less.prems c p by (subst step_target.simps) simp
    moreover have "pt' \<noteq> None" if "step_target h c p (Some t) = Some (t', pt')" "b_depth cb = b_depth pb" for t' pt'
      using that c p by (subst (asm) step_target.simps) auto
    ultimately show ?thesis
      using less.hyps [of pb p "Some t"] p True by fastforce
  next
    case False
    then show ?thesis
      using less.prems c by (subst step_target.simps) auto
  qed
qed

lemma step_both_eq:
  assumes ok: "heap_ok h" and c: "h c = Some cb" "ancestor h c cur"
    and t: "h t = Some tb" "b_depth tb = b_depth cb" and inv: "towards h cur target t pt"
    and pt: "pt = None \<longrightarrow> c \<noteq> t"
  shows "\<exists>q r. step_both h c t pt = Some (Some q) \<and> towards h cur target r (Some q) \<and> ancestor h r cur"
  using c t inv pt
proof (induction "b_depth tb" arbitrary: c cb t tb pt rule: less_induct)
  case less
  show ?case
  proof (cases "c = t")
    case True
    with less.prems obtain q where "pt = Some q" by (cases pt) auto
    then show ?thesis
      using True less.prems by (subst step_both.simps) auto
  next
    case False
    then have "0 < b_depth tb"
      using heap_depth_pos [OF ok less.prems(1)] heap_depth_pos [OF ok less.prems(3)] less.prems(4)
        heap_root_unique [OF ok less.prems(1,3)] by fastforce
    then obtain p pb where p: "b_prev tb = Some p" "h p = Some pb" "b_depth tb = Suc (b_depth pb)" "ancestor h p t"
      using heap_step_up [OF ok less.prems(3)] by metis
    obtain q qb where q: "b_prev cb = Some q" "h q = Some qb" "b_depth cb = Suc (b_depth qb)" "ancestor h q c"
      using heap_step_up [OF ok less.prems(1)] \<open>0 < b_depth tb\<close> less.prems(4) by metis
    have "\<not> ancestor h t cur"
      using False ancestor_unique [OF ok less.prems(2), of t cb tb] less.prems by auto
    then have "towards h cur target p (Some t)"
      using less.prems p ancestor_trans by (auto simp: towards_def)
    moreover have "step_both h c t pt = step_both h q p (Some t)"
      using False less.prems p q by (subst step_both.simps) simp
    moreover have "ancestor h q cur" using ancestor_trans [OF less.prems(2) q(4)] .
    moreover have "b_depth pb < b_depth tb" "b_depth pb = b_depth qb" using p q less.prems(4) by simp_all
    ultimately show ?thesis
      using less.hyps [of pb q qb p "Some t"] p(2) q(2) by simp
  qed
qed

lemma step_towards_eq:
  assumes ok: "heap_ok h" and c: "h cur = Some cb" and t: "h target = Some tb"
  shows "\<exists>r. step_towards h cur target = Some r \<and>
    (case r of
       None \<Rightarrow> ancestor h target cur
     | Some p \<Rightarrow> \<not> ancestor h target cur \<and> ancestor h p target \<and> \<not> ancestor h p cur
         \<and> (\<exists>pb q. h p = Some pb \<and> b_prev pb = Some q \<and> ancestor h q cur))"
proof -
  obtain c' cb' where c': "step_curr h cur target = Some c'" "h c' = Some cb'" "ancestor h c' cur"
    "b_depth cb' = min (b_depth cb) (b_depth tb)"
    using step_curr_eq [OF ok c t] by auto
  show ?thesis
  proof (cases "c' = target")
    case True
    then show ?thesis using c' by (simp add: step_towards_def)
  next
    case False
    have na: "\<not> ancestor h target cur"
      using False ancestor_unique [OF ok c'(3), of target cb' tb] c'(2,4) t ancestor_depth [OF ok, of target cur tb cb] c
      by (auto simp: min_def split: if_splits)
    have inv: "towards h c' target target None"
      using t by (auto simp: towards_def intro: ancestor_refl)
    obtain t' tb' pt' where t': "step_target h c' target None = Some (t', pt')" "h t' = Some tb'"
      "b_depth tb' = b_depth cb'" "towards h c' target t' pt'"
      "b_depth cb' < b_depth tb \<longrightarrow> pt' \<noteq> None" "b_depth cb' = b_depth tb \<longrightarrow> t' = target"
      using step_target_eq [OF ok c'(2) c'(2) refl t _ inv] c'(4) by auto
    have tw: "towards h cur target t' pt'"
    proof (cases pt')
      case (Some q)
      with t'(4) obtain qb where qb: "h q = Some qb" "b_prev qb = Some t'" "ancestor h q target" "\<not> ancestor h q c'"
        by (auto simp: towards_def)
      have dq: "b_depth qb = Suc (b_depth cb')" by (rule heap_prev [OF ok qb(1,2)]) (use t' in auto)
      have "\<not> ancestor h q cur"
      proof
        assume a: "ancestor h q cur"
        then have "b_depth qb \<le> b_depth cb" using ancestor_depth [OF ok a qb(1) c] by simp
        then have "b_depth cb' = b_depth tb" using c'(4) dq by (simp add: min_def split: if_splits)
        then have "b_depth qb > b_depth tb" using dq by simp
        then show False using ancestor_depth [OF ok qb(3,1) t] by simp
      qed
      with Some qb t'(4) show ?thesis by (auto simp: towards_def)
    qed (use t'(4) in \<open>auto simp: towards_def\<close>)
    have "pt' = None \<longrightarrow> c' \<noteq> t'"
      using t'(5,6) False c'(4) by (auto simp: min_def split: if_splits)
    then obtain q r where "step_both h c' t' pt' = Some (Some q)" "towards h cur target r (Some q)" "ancestor h r cur"
      using step_both_eq [OF ok c'(2,3) t'(2,3) tw] by auto
    then show ?thesis
      using c' False t' na by (auto simp: step_towards_def towards_def)
  qed
qed

text \<open>
  \<open>step_towards cur target\<close> returns on every well-formed store: NULL when \<open>target\<close> is \<open>cur\<close> or
  one of its ancestors, and otherwise the block on the way to \<open>target\<close> whose predecessor is the
  last one also on the way to \<open>cur\<close>.
\<close>

theorem step_towards_correct:
  assumes ok: "heap_ok h" and c: "h cur = Some cb" and t: "h target = Some tb"
  shows "\<exists>r. step_towards h cur target = Some r \<and>
    (case r of
       None \<Rightarrow> ancestor h target cur
     | Some p \<Rightarrow> \<not> ancestor h target cur \<and> ancestor h p target \<and> \<not> ancestor h p cur
         \<and> (\<exists>pb q. h p = Some pb \<and> b_prev pb = Some q \<and> ancestor h q cur))"
  using assms by (rule step_towards_eq)

subsection \<open>Searching the store\<close>

definition levels_ok :: "state \<Rightarrow> bool" where
  \<comment> \<open>\<open>block_depth\<close> lists exactly the blocks of the store, each at the level of its depth\<close>
  "levels_ok s \<longleftrightarrow>
     (\<forall>n < length (st_block_depth s). \<forall>b \<in> set (st_block_depth s ! n).
        \<exists>bb. st_heap s b = Some bb \<and> b_depth bb = n)
     \<and> (\<forall>b bb. st_heap s b = Some bb \<longrightarrow>
          b_depth bb < length (st_block_depth s) \<and> b \<in> set (st_block_depth s ! b_depth bb))"

lemma find_sha_eq:
  assumes "\<And>b. b \<in> set bs \<Longrightarrow> h b \<noteq> None"
  shows "\<exists>r. find_sha h sha bs = Some r \<and>
    (case r of
       Some b \<Rightarrow> b \<in> set bs \<and> (\<exists>bb. h b = Some bb \<and> b_sha bb = sha)
     | None \<Rightarrow> (\<forall>b \<in> set bs. \<forall>bb. h b = Some bb \<longrightarrow> b_sha bb \<noteq> sha))"
  using assms
proof (induction bs)
  case (Cons b bs)
  then obtain bb where "h b = Some bb" by fastforce
  with Cons show ?case by (cases "b_sha bb = sha") (auto split: option.splits)
qed simp

lemma find_sha_levels_eq:
  assumes "\<And>l b. l \<in> set ls \<Longrightarrow> b \<in> set l \<Longrightarrow> h b \<noteq> None"
  shows "\<exists>r. find_sha_levels h sha ls = Some r \<and>
    (case r of
       Some b \<Rightarrow> (\<exists>bb. h b = Some bb \<and> b_sha bb = sha)
     | None \<Rightarrow> (\<forall>l \<in> set ls. \<forall>b \<in> set l. \<forall>bb. h b = Some bb \<longrightarrow> b_sha bb \<noteq> sha))"
  using assms
proof (induction ls)
  case (Cons l ls)
  obtain r where r: "find_sha h sha l = Some r"
    "case r of Some b \<Rightarrow> b \<in> set l \<and> (\<exists>bb. h b = Some bb \<and> b_sha bb = sha)
     | None \<Rightarrow> (\<forall>b \<in> set l. \<forall>bb. h b = Some bb \<longrightarrow> b_sha bb \<noteq> sha)"
  proof -
    have "h b \<noteq> None" if "b \<in> set l" for b using Cons.prems [of l b] that by simp
    from find_sha_eq [of l h sha, OF this] that show thesis by blast
  qed
  have "\<exists>r'. find_sha_levels h sha ls = Some r' \<and>
    (case r' of Some b \<Rightarrow> (\<exists>bb. h b = Some bb \<and> b_sha bb = sha)
     | None \<Rightarrow> (\<forall>l \<in> set ls. \<forall>b \<in> set l. \<forall>bb. h b = Some bb \<longrightarrow> b_sha bb \<noteq> sha))"
    by (rule Cons.IH) (use Cons.prems in auto)
  with r show ?case by (cases r) (auto split: option.splits)
qed simp

lemma block_find_any_eq:
  assumes "levels_ok s"
  shows "\<exists>r. block_find_any s sha = Some r \<and>
    (case r of
       Some b \<Rightarrow> (\<exists>bb. st_heap s b = Some bb \<and> b_sha bb = sha)
     | None \<Rightarrow> (\<forall>b bb. st_heap s b = Some bb \<longrightarrow> b_sha bb \<noteq> sha))"
proof -
  have "st_heap s b \<noteq> None" if l: "l \<in> set (rev (st_block_depth s))" and b: "b \<in> set l" for l b
  proof -
    obtain n where "n < length (st_block_depth s)" "l = st_block_depth s ! n"
      using l unfolding set_rev in_set_conv_nth by blast
    with assms b show ?thesis unfolding levels_ok_def by (metis option.distinct(1))
  qed
  then obtain r where r: "block_find_any s sha = Some r"
    "case r of Some b \<Rightarrow> (\<exists>bb. st_heap s b = Some bb \<and> b_sha bb = sha)
     | None \<Rightarrow> (\<forall>l \<in> set (rev (st_block_depth s)). \<forall>b \<in> set l. \<forall>bb. st_heap s b = Some bb \<longrightarrow> b_sha bb \<noteq> sha)"
    using find_sha_levels_eq [of "rev (st_block_depth s)" "st_heap s" sha] unfolding block_find_any_def by blast
  have "\<exists>l \<in> set (rev (st_block_depth s)). b \<in> set l" if "st_heap s b = Some bb" for b bb
    using assms that unfolding levels_ok_def set_rev by (meson nth_mem)
  with r show ?thesis by (cases r) (simp_all, blast)
qed

text \<open>
  \<open>block_find_any\<close> always returns; it finds a block with the given hash if the store has one,
  and returns NULL only if it has none.
\<close>

theorem block_find_any_correct:
  assumes "levels_ok s"
  shows "\<exists>r. block_find_any s sha = Some r \<and>
    (case r of
       Some b \<Rightarrow> (\<exists>bb. st_heap s b = Some bb \<and> b_sha bb = sha)
     | None \<Rightarrow> (\<forall>b bb. st_heap s b = Some bb \<longrightarrow> b_sha bb \<noteq> sha))"
  using assms by (rule block_find_any_eq)

subsection \<open>The blocks of for_each_prev_txhash\<close>

lemma for_each_from:
  assumes "block_ancestor h (Some p) (2 ^ i - 1) = Some x" and "heap_ok h" and "h p = Some pb"
  shows "\<exists>bs. for_each_prev_txhash h i x = Some bs \<and> length bs \<le> 10 - i
    \<and> (\<forall>k < length bs. block_ancestor h (Some p) (2 ^ (i + k) - 1) = Some (Some (bs ! k)))
    \<and> (i + length bs < 10 \<longrightarrow> block_ancestor h (Some p) (2 ^ (i + length bs) - 1) = Some None)"
  using assms(1)
proof (induction "10 - i" arbitrary: i x)
  case 0
  then show ?case by (subst for_each_prev_txhash.simps) (simp add: c_simps)
next
  case (Suc n)
  then have i: "i < 10" by simp
  show ?case
  proof (cases x)
    case None
    then show ?thesis
      using Suc.prems i by (subst for_each_prev_txhash.simps) (simp add: c_simps)
  next
    case (Some b)
    have "(2 ^ i - 1) + 2 ^ i = (2 :: nat) ^ Suc i - 1" by simp
    then have "block_ancestor h (Some p) (2 ^ Suc i - 1) = block_ancestor h x (2 ^ i)"
      using block_ancestor_add [of h "Some p" "2 ^ i - 1" "2 ^ i"] Suc.prems by simp
    moreover obtain y where y: "block_ancestor h (Some p) (2 ^ Suc i - 1) = Some y"
      using block_ancestor_eq [OF assms(2,3), of "2 ^ Suc i - 1"] by (metis (no_types))
    ultimately have anc: "block_ancestor h x (2 ^ i) = Some y" by simp
    have "n = 10 - Suc i" using Suc.hyps(2) by simp
    from Suc.hyps(1) [OF this y] obtain bs where bs: "for_each_prev_txhash h (Suc i) y = Some bs"
      "length bs \<le> 10 - Suc i"
      "\<forall>k < length bs. block_ancestor h (Some p) (2 ^ (Suc i + k) - 1) = Some (Some (bs ! k))"
      "Suc i + length bs < 10 \<longrightarrow> block_ancestor h (Some p) (2 ^ (Suc i + length bs) - 1) = Some None"
      by blast
    have "for_each_prev_txhash h i x = Some (b # bs)"
      using i Some anc bs(1) by (subst for_each_prev_txhash.simps) (simp add: c_simps)
    moreover have "block_ancestor h (Some p) (2 ^ (i + k) - 1) = Some (Some ((b # bs) ! k))"
      if "k < length (b # bs)" for k
      using that bs(3) Suc.prems Some by (cases k) auto
    ultimately show ?thesis using bs(2,4) i by auto
  qed
qed

text \<open>
  The loop \<open>for_each_prev_txhash\<close> from block \<open>S - 1\<close> visits the blocks at distance 1, 2, 4, 8, ... from
  \<open>S\<close>, at most ten of them, and stops only at the beginning of the chain.
\<close>

theorem for_each_prev_txhash_correct:
  assumes "heap_ok h" and "h p = Some pb"
  shows "\<exists>bs. for_each_prev_txhash h 0 (Some p) = Some bs \<and> length bs \<le> 10
    \<and> (\<forall>k < length bs. \<exists>b. h (bs ! k) = Some b \<and> ancestor h (bs ! k) p
         \<and> b_depth b + 2 ^ k = Suc (b_depth pb))
    \<and> (length bs < 10 \<longrightarrow> Suc (b_depth pb) < 2 ^ length bs)"
proof -
  have "block_ancestor h (Some p) (2 ^ 0 - 1) = Some (Some p)" by simp
  from for_each_from [OF this assms] obtain bs where bs: "for_each_prev_txhash h 0 (Some p) = Some bs"
    "length bs \<le> 10" "\<forall>k < length bs. block_ancestor h (Some p) (2 ^ k - 1) = Some (Some (bs ! k))"
    "length bs < 10 \<longrightarrow> block_ancestor h (Some p) (2 ^ length bs - 1) = Some None"
    by auto
  have "\<exists>b. h (bs ! k) = Some b \<and> ancestor h (bs ! k) p \<and> b_depth b + 2 ^ k = Suc (b_depth pb)"
    if "k < length bs" for k
  proof -
    have "block_ancestor h (Some p) (2 ^ k - 1) = Some (Some (bs ! k))" using bs(3) that by blast
    then obtain b where "h (bs ! k) = Some b" "b_depth b + (2 ^ k - 1) = b_depth pb" "ancestor h (bs ! k) p"
      using block_ancestor_eq [OF assms, of "2 ^ k - 1"] by (auto split: if_splits)
    moreover have "(2 :: nat) ^ k \<ge> 1" by simp
    ultimately show ?thesis by (intro exI [of _ b]) linarith
  qed
  moreover have "Suc (b_depth pb) < 2 ^ length bs" if "length bs < 10"
    using bs(4) that block_ancestor_eq [OF assms, of "2 ^ length bs - 1"] by (auto split: if_splits)
  ultimately show ?thesis using bs(1,2) by blast
qed

subsection \<open>Making and checking the previous-transaction hashes\<close>

lemma check_shard_hashes_made:
  assumes "block_txhashes ssl addr b n = Some (Some x)"
  shows "length x = n \<and> check_shard_hashes ssl addr (pre @ x @ post) b (length pre) n = Some None"
  using assms
proof (induction n arbitrary: x post)
  case (Suc n)
  then obtain y z where y: "block_txhashes ssl addr b n = Some (Some y)" and x: "x = y @ [z]"
    and z: "prev_txhash ssl addr b (word_of_nat n) = Some z"
    and sh: "n < length (b_shard b)" "shard_all_known (b_shard b ! n)"
    by (auto simp: bind_eq_Some_conv split: option.splits if_splits)
  from Suc.IH [OF y, of "z # post"] x z sh show ?case by (simp add: nth_append)
qed simp

lemma check_chain_hashes_made:
  assumes "chain_txhashes ssl addr h bs = Some (Some m)" and "hashes = pre @ m @ post"
  shows "check_chain_hashes ssl addr hashes h bs (length pre) = Some (Inl (length pre + length m))"
  using assms
proof (induction bs arbitrary: m pre)
  case (Cons b bs)
  then obtain bb x y where b: "h b = Some bb"
    and x: "block_txhashes ssl addr bb (unat (num_shards (b_hdr bb))) = Some (Some x)"
    and y: "chain_txhashes ssl addr h bs = Some (Some y)" and m: "m = x @ y"
    by (auto simp: bind_eq_Some_conv split: option.splits)
  have "check_chain_hashes ssl addr hashes h bs (length (pre @ x)) = Some (Inl (length (pre @ x) + length y))"
    using Cons.IH [OF y, of "pre @ x"] Cons.prems(2) m by simp
  with check_shard_hashes_made [OF x, of pre "y @ post"] b Cons.prems(2) m show ?case
    by (simp add: Let_def)
qed simp

text \<open>
  The bytes a miner makes with \<open>make_prev_txhashes\<close> for its own reward address are the ones
  the network demands: a block that carries them passes \<open>check_num_prev_txhashes\<close> and
  \<open>check_prev_txhashes\<close>.
\<close>

theorem made_prev_txhashes_check:
  assumes "make_prev_txhashes ssl h (b_prev block) (bh_fees_to (b_hdr block)) = Some (Some m)"
    and "b_prev_txhashes block = m" and "unat (bh_num_prev_txhashes (b_hdr block)) = length m"
  shows "check_num_prev_txhashes h (b_prev block) (b_hdr block) = Some True
    \<and> check_prev_txhashes ssl h block = Some None"
proof -
  obtain bs len where bs: "for_each_prev_txhash h 0 (b_prev block) = Some bs"
    and len: "num_prev_txhashes h (b_prev block) = Some len" "length m = unat len"
    and c: "chain_txhashes ssl (bh_fees_to (b_hdr block)) h bs = Some (Some m)"
    using assms(1) by (auto simp: make_prev_txhashes_def bind_eq_Some_conv split: option.splits if_splits)
  have "check_chain_hashes ssl (bh_fees_to (b_hdr block)) m h bs 0 = Some (Inl (length m))"
    using check_chain_hashes_made [OF c, of m "[]" "[]"] by simp
  then have "check_prev_txhashes ssl h block = Some None"
    using assms(2,3) bs by (simp add: check_prev_txhashes_def)
  moreover have "ucast (bh_num_prev_txhashes (b_hdr block)) = len"
    using assms(3) len(2) by (simp add: word_unat_eq_iff unat_ucast_u32_size)
  ultimately show ?thesis using len(1) by (simp add: check_num_prev_txhashes_def)
qed

subsection \<open>Changes that keep the tree\<close>

definition same_node :: "block \<Rightarrow> block \<Rightarrow> bool" where
  \<comment> \<open>what the tree consists of: links, header and hash\<close>
  "same_node b b' \<longleftrightarrow> b_prev b' = b_prev b \<and> b_children b' = b_children b \<and> b_hdr b' = b_hdr b
     \<and> b_sha b' = b_sha b"

definition same_tree :: "heap \<Rightarrow> heap \<Rightarrow> bool" where
  "same_tree h h' \<longleftrightarrow> (\<forall>p. rel_option same_node (h p) (h' p))"

lemma same_treeD:
  assumes "same_tree h h'"
  shows "h p = Some b \<Longrightarrow> \<exists>b'. h' p = Some b' \<and> same_node b b'"
    and "h' p = Some b' \<Longrightarrow> \<exists>b. h p = Some b \<and> same_node b b'"
  using assms unfolding same_tree_def by (metis option_rel_Some1 option_rel_Some2)+

lemma same_tree_refl [intro]: "same_tree h h"
  by (simp add: same_tree_def same_node_def option.rel_refl)

lemma same_tree_trans: "same_tree h h' \<Longrightarrow> same_tree h' h'' \<Longrightarrow> same_tree h h''"
proof -
  assume a: "same_tree h h'" "same_tree h' h''"
  have "rel_option same_node (h p) (h'' p)" for p
    using a [unfolded same_tree_def, THEN spec, of p]
    by (cases "h p"; cases "h' p"; cases "h'' p") (auto simp: same_node_def)
  then show ?thesis by (simp add: same_tree_def)
qed

lemma same_tree_upd: "h p = Some b \<Longrightarrow> same_node b b' \<Longrightarrow> same_tree h (h(p \<mapsto> b'))"
  by (auto simp: same_tree_def same_node_def option.rel_refl)

lemma same_tree_ancestor:
  assumes "same_tree h h'"
  shows "ancestor h' a b \<longleftrightarrow> ancestor h a b"
proof
  show "ancestor h' a b" if "ancestor h a b"
    using that
  proof induction
    case (ancestor_refl b bb)
    then show ?case using same_treeD(1) [OF assms] by (blast intro: ancestor.ancestor_refl)
  next
    case (ancestor_step b bb p a)
    then obtain b' where "h' b = Some b'" "b_prev b' = Some p"
      using same_treeD(1) [OF assms] by (fastforce simp: same_node_def)
    then show ?case using ancestor_step.IH by (rule ancestor.ancestor_step)
  qed
  show "ancestor h a b" if "ancestor h' a b"
    using that
  proof induction
    case (ancestor_refl b bb)
    then show ?case using same_treeD(2) [OF assms] by (blast intro: ancestor.ancestor_refl)
  next
    case (ancestor_step b bb p a)
    then obtain b' where "h b = Some b'" "b_prev b' = Some p"
      using same_treeD(2) [OF assms] by (fastforce simp: same_node_def)
    then show ?case using ancestor_step.IH by (rule ancestor.ancestor_step)
  qed
qed

lemma same_tree_heap_ok:
  assumes "same_tree h h'" and "heap_ok h"
  shows "heap_ok h'"
proof -
  have "node_ok h' p b'" if b': "h' p = Some b'" for p b'
  proof -
    obtain b where b: "h p = Some b" "same_node b b'" using same_treeD(2) [OF assms(1) b'] by blast
    then have n: "node_ok h p b" using assms(2) by (simp add: heap_ok_def)
    have up: "\<exists>c'. h' q = Some c' \<and> b_depth b' = Suc (b_depth c') \<and> bh_prev_block (b_hdr b') = b_sha c'
        \<and> p \<in> set (b_children c')" if "b_prev b' = Some q" for q
    proof -
      have "b_prev b = Some q" using b(2) that by (simp add: same_node_def)
      then obtain c where "h q = Some c" "b_depth b = Suc (b_depth c)" "bh_prev_block (b_hdr b) = b_sha c"
        "p \<in> set (b_children c)"
        by (rule heap_prev [OF assms(2) b(1)])
      moreover from this(1) obtain c' where "h' q = Some c'" "same_node c c'"
        using same_treeD(1) [OF assms(1)] by blast
      ultimately show ?thesis using b(2) by (auto simp: same_node_def)
    qed
    have "\<exists>kb. h' k = Some kb \<and> b_prev kb = Some p" if "k \<in> set (b_children b')" for k
      using n b(2) that same_treeD(1) [OF assms(1)] by (fastforce simp: node_ok_def same_node_def)
    then show ?thesis
      using up n b(2) by (auto simp: node_ok_def same_node_def split: option.splits)
  qed
  moreover have "p = q" if r: "h' p = Some b" "h' q = Some c" "b_prev b = None" "b_prev c = None" for p q b c
  proof -
    obtain b0 c0 where "h p = Some b0" "h q = Some c0" "b_prev b0 = None" "b_prev c0 = None"
      using same_treeD(2) [OF assms(1) r(1)] same_treeD(2) [OF assms(1) r(2)] r(3,4)
      by (auto simp: same_node_def)
    then show ?thesis using heap_root_unique [OF assms(2)] by blast
  qed
  ultimately show ?thesis unfolding heap_ok_def by blast
qed

subsection \<open>Examples\<close>

text \<open>A chain of \<open>n + 1\<close> blocks without branches, all of them empty.\<close>

definition ex_chain_parts :: "nat \<Rightarrow> block_parts" where
  "ex_chain_parts i = \<lparr>bp_hdr = \<lparr>bh_version = 1, bh_features_vote = 1, bh_shard_order = 0,
       bh_nonce2 = replicate 13 0, bh_prev_block = nat_le 32 (i - 1), bh_num_prev_txhashes = 1,
       bh_depth = word_of_nat i, bh_fees_to = replicate 20 4\<rparr>,
     bp_shard_nums = [0], bp_merkles = [replicate 32 1], bp_prev_txhashes = [8],
     bp_tailer = \<lparr>bt_timestamp = word_of_nat (600 * i), bt_difficulty = 0x1E01FFFF, bt_nonce1 = 5\<rparr>\<rparr>"

definition ex_block :: "nat \<Rightarrow> nat \<Rightarrow> block" where
  "ex_block n i =
     \<lparr>b_children = (if i < n then [Suc i] else []), b_pending_features = 0, b_all_known = True,
      b_total_work = i, b_prev = (if i = 0 then None else Some (i - 1)), b_parts = ex_chain_parts i,
      b_complaint = None, b_sha = nat_le 32 i, b_shard = [new_block_shard 0 0]\<rparr>"

definition ex_heap :: "nat \<Rightarrow> heap" where
  "ex_heap n i = (if i \<le> n then Some (ex_block n i) else None)"

definition ex_state :: "nat \<Rightarrow> state" where
  "ex_state n =
     \<lparr>st_test_net = False, st_heap = ex_heap n, st_block_depth = map (\<lambda>i. [i]) [0..<Suc n],
      st_longest_chains = [n], st_longest_knowns = [n], st_preferred_chain = n, st_todo = [],
      st_pending = \<lparr>pb_pend = replicate 4 [], pb_needs_recheck = False, pb_unknown_tx = [], pb_num_unknown = 0\<rparr>,
      st_txhash = [], st_inputhash = [], st_peers = [], st_peer_map = replicate 64 False,
      st_num_peers = 0, st_num_peers_connected = 0, st_upcoming_features = 0,
      st_require_non_gateway_tx_fee = False, st_require_gateway_tx_fee = False,
      st_interests = [True, True, True, True], st_out = []\<rparr>"

lemma ex_depth: "i \<le> n \<Longrightarrow> n < 2 ^ 32 \<Longrightarrow> b_depth (ex_block n i) = i"
  by (simp add: ex_block_def ex_chain_parts_def unsigned_of_nat take_bit_nat_eq_self)

lemma ex_heap_ok: "n < 2 ^ 32 \<Longrightarrow> heap_ok (ex_heap n)"
proof -
  assume n: "n < 2 ^ 32"
  have "node_ok (ex_heap n) i (ex_block n i)" if "i \<le> n" for i
    using that n ex_depth [OF that n] ex_depth [of "i - 1" n]
    by (auto simp: node_ok_def ex_heap_def ex_block_def ex_chain_parts_def)
  then show ?thesis
    by (auto simp: heap_ok_def ex_heap_def ex_block_def split: if_splits)
qed

lemma ex_levels_ok: "n < 2 ^ 32 \<Longrightarrow> levels_ok (ex_state n)"
  by (auto simp: levels_ok_def ex_state_def ex_heap_def ex_depth split: if_splits simp del: upt_Suc)

theorem block_preceeds_correct_witness:
  "block_preceeds (ex_heap 3) 1 3 = Some (ancestor (ex_heap 3) 1 3)"
  using block_preceeds_correct [OF ex_heap_ok [of 3], of 1 "ex_block 3 1" 3 "ex_block 3 3"]
  by (simp add: ex_heap_def)

theorem step_towards_correct_witness:
  "\<exists>r. step_towards (ex_heap 3) 1 3 = Some r \<and> (r = None \<longleftrightarrow> ancestor (ex_heap 3) 3 1)"
  using step_towards_correct [OF ex_heap_ok [of 3], of 1 "ex_block 3 1" 3 "ex_block 3 3"]
  by (auto simp: ex_heap_def split: option.splits)

theorem block_find_any_correct_witness:
  "\<exists>b bb. block_find_any (ex_state 3) (nat_le 32 2) = Some (Some b) \<and> ex_heap 3 b = Some bb \<and> b_sha bb = nat_le 32 2"
proof -
  have "st_heap (ex_state 3) 2 = Some (ex_block 3 2)" "b_sha (ex_block 3 2) = nat_le 32 2"
    by (simp_all add: ex_state_def ex_heap_def ex_block_def)
  then show ?thesis
    using block_find_any_correct [OF ex_levels_ok [of 3], of "nat_le 32 2"]
    by (auto simp: ex_state_def split: option.splits)
qed

theorem for_each_prev_txhash_witness:
  "\<exists>bs. for_each_prev_txhash (ex_heap 3) 0 (Some 3) = Some bs \<and> length bs \<le> 10"
  using for_each_prev_txhash_correct [OF ex_heap_ok [of 3], of 3 "ex_block 3 3"]
  by (auto simp: ex_heap_def)

theorem made_prev_txhashes_witness:
  "check_num_prev_txhashes (ex_heap 0) (Some 0)
     ((b_hdr (ex_block 1 1)) \<lparr>bh_num_prev_txhashes := 1\<rparr>) = Some True"
proof -
  obtain x where x: "SHA256_Double_Final model_openssl (replicate 20 4) = x" "length x = 32"
    using digest_ok_model by auto
  let ?b = "ex_block 1 1 \<lparr>b_parts := (ex_chain_parts 1)\<lparr>bp_prev_txhashes := [x ! 0]\<rparr>\<rparr>"
  have "make_prev_txhashes model_openssl (ex_heap 0) (b_prev ?b) (bh_fees_to (b_hdr ?b)) = Some (Some [x ! 0])"
    using x
    by (simp add: make_prev_txhashes_def num_prev_txhashes_def for_each_prev_txhash.simps c_simps ex_heap_def
        ex_block_def ex_chain_parts_def num_shards_def shard_all_known_def new_block_shard_def prev_txhash_def)
  from made_prev_txhashes_check [OF this] show ?thesis
    by (simp add: ex_block_def ex_chain_parts_def)
qed

end
