(* ===== verification/Retarget.thy ===== *)
theory Retarget
  imports Walks "HOL-Library.Multiset"
begin

section \<open>Consensus rules along the chain\<close>

text \<open>
  What \<open>get_difficulty\<close> demands of the next block, what \<open>check_timestamp\<close> accepts, and which
  features \<open>pending_features\<close> locks in.
\<close>

subsection \<open>get_difficulty\<close>

definition ideal_time :: "state \<Rightarrow> nat" where
  "ideal_time s = PROTOCOL_BLOCK_TARGET_TIME (st_test_net s) * PROTOCOL_DIFFICULTY_UPDATE_BLOCKS"

lemma ideal_time_cases: "ideal_time s = 20160 \<or> ideal_time s = 1209600"
  by (simp add: ideal_time_def c_simps)

lemma clamp_time_bounds:
  fixes i a :: u64
  assumes "i = word_of_nat 20160 \<or> i = word_of_nat 1209600"
  shows "unat i div 4 \<le> unat (clamp_time i a)" and "unat (clamp_time i a) \<le> 4 * unat i"
  using assms
  by (auto simp: clamp_time_def Let_def word_le_nat_alt word_less_nat_alt not_less split: if_splits)

definition period_start :: "state \<Rightarrow> bptr \<Rightarrow> bptr \<Rightarrow> bool" where
  \<comment> \<open>the block that opens the period \<open>prev\<close> closes: the genesis block for the first one\<close>
  "period_start s prev st \<longleftrightarrow>
     (\<exists>bp. st_heap s prev = Some bp \<and>
       (if b_depth bp = 2015 then genesis_block s = Some st
        else block_ancestor (st_heap s) (Some prev) 2016 = Some (Some st)))"

definition scaled_target :: "state \<Rightarrow> block \<Rightarrow> block \<Rightarrow> nat" where
  \<comment> \<open>the target of \<open>bp\<close> scaled by the time its period took\<close>
  "scaled_target s bp sb =
     target_of (bt_difficulty (b_tailer bp))
     * unat (clamp_time (word_of_nat (ideal_time s))
         (ucast (bt_timestamp (b_tailer bp)) - ucast (bt_timestamp (b_tailer sb)))) div ideal_time s"

lemma unat_ideal: "unat (word_of_nat (ideal_time s) :: u64) = ideal_time s"
  using ideal_time_cases [of s] by auto

lemma scaled_bounds:
  fixes s bp
  defines "T \<equiv> target_of (bt_difficulty (b_tailer bp))"
  shows "T div 4 \<le> scaled_target s bp sb" and "scaled_target s bp sb \<le> 4 * T"
proof -
  let ?a = "clamp_time (word_of_nat (ideal_time s))
    (ucast (bt_timestamp (b_tailer bp)) - ucast (bt_timestamp (b_tailer sb)))"
  have b: "ideal_time s div 4 \<le> unat ?a" "unat ?a \<le> 4 * ideal_time s"
    using clamp_time_bounds [of "word_of_nat (ideal_time s)"] ideal_time_cases [of s] unat_ideal [of s]
    by auto
  have i: "0 < ideal_time s" "ideal_time s = 4 * (ideal_time s div 4)"
    using ideal_time_cases [of s] by auto
  have "T * (ideal_time s div 4) div (4 * (ideal_time s div 4)) = T div 4"
    using i by (metis div_mult_mult2 mult.commute nat_neq_iff mult_0_right)
  then have "T div 4 = T * (ideal_time s div 4) div ideal_time s"
    using i(2) by simp
  also have "\<dots> \<le> T * unat ?a div ideal_time s"
    using b by (intro div_le_mono mult_le_mono2)
  finally show "T div 4 \<le> scaled_target s bp sb"
    by (simp add: scaled_target_def T_def)
  have "T * unat ?a \<le> T * (4 * ideal_time s)" using b by (intro mult_le_mono2)
  then have "T * unat ?a div ideal_time s \<le> T * (4 * ideal_time s) div ideal_time s"
    by (rule div_le_mono)
  then show "scaled_target s bp sb \<le> 4 * T"
    using i by (simp add: scaled_target_def T_def)
qed

lemma get_difficulty_scaled:
  assumes bn: "bn_ok ssl" and p: "st_heap s prev = Some bp"
    and re: "unat (bh_depth (b_hdr bp) + 1) mod 2016 = 0"
    and v: "3 \<le> unat (diff_exp (bt_difficulty (b_tailer bp)))"
    and st: "period_start s prev st" "st_heap s st = Some sb"
    and g: "genesis_block s = Some g" "st_heap s g = Some gb"
  shows "get_difficulty ssl s prev =
    do { enc \<leftarrow> encode_difficulty ssl (scaled_target s bp sb);
         (exp, base) \<leftarrow> enc;
         Some (if exp > diff_exp (bt_difficulty (b_tailer gb))
                 \<or> exp = diff_exp (bt_difficulty (b_tailer gb)) \<and> base > diff_mant (bt_difficulty (b_tailer gb))
               then push_bit 24 (diff_exp (bt_difficulty (b_tailer gb))) OR diff_mant (bt_difficulty (b_tailer gb))
               else push_bit 24 exp OR base) }"
proof -
  let ?a = "clamp_time (word_of_nat (ideal_time s))
    (ucast (bt_timestamp (b_tailer bp)) - ucast (bt_timestamp (b_tailer sb)))"
  have "unat ?a < 2 ^ 64" by (rule order_less_le_trans [OF unsigned_less]) simp
  then have mul: "BN_mul_word ssl t (unat ?a) = Some (t * unat ?a)" for t
    by (rule bn_okD(7) [OF bn])
  have "0 < ideal_time s" "ideal_time s < 2 ^ 64" using ideal_time_cases [of s] by auto
  then have dv: "BN_div_word ssl t (ideal_time s) = Some (t div ideal_time s, t mod ideal_time s)" for t
    by (rule bn_okD(8) [OF bn])
  have start: "(if b_depth bp = 2015 then Some (Some g) else block_ancestor (st_heap s) (Some prev) 2016) = Some (Some st)"
    using st(1) p g(1) by (auto simp: period_start_def split: if_splits)
  show ?thesis
    unfolding get_difficulty_def Let_def ideal_time_def [symmetric] scaled_target_def
    unfolding PROTOCOL_DIFFICULTY_UPDATE_BLOCKS_def
    using p re g start st(2) decode_difficulty_eq [OF bn v] mul dv
    by (simp add: unat_ideal if_distrib [of "\<lambda>p. case p of (e, m) \<Rightarrow> Some (push_bit 24 e OR m)"] if_distrib [of Some]
        cong: if_cong)
qed

lemma compact_le:
  \<comment> \<open>compact difficulties compare as their exponent and mantissa, lexicographically\<close>
  "d \<le> g \<longleftrightarrow> diff_exp d < diff_exp g \<or> diff_exp d = diff_exp g \<and> diff_mant d \<le> diff_mant g"
proof -
  have d: "unat x = unat (diff_exp x) * 2 ^ 24 + unat (diff_mant x)" for x
    unfolding unat_diff_exp unat_diff_mant by (simp only: div_mult_mod_eq)
  have m: "unat (diff_mant d) < 2 ^ 24" "unat (diff_mant g) < 2 ^ 24" by (rule diff_mant_less)+
  have "unat d \<le> unat g \<longleftrightarrow> unat (diff_exp d) < unat (diff_exp g)
      \<or> unat (diff_exp d) = unat (diff_exp g) \<and> unat (diff_mant d) \<le> unat (diff_mant g)"
    using m d [of d] d [of g] by (cases rule: linorder_cases [of "unat (diff_exp d)" "unat (diff_exp g)"]) auto
  then show ?thesis by (simp add: word_le_nat_alt word_less_nat_alt word_unat_eq_iff)
qed

lemma compact_join: "push_bit 24 (diff_exp d) OR diff_mant d = d"
proof -
  have "unat (push_bit 24 (diff_exp d) OR diff_mant d) = unat (diff_exp d) * 2 ^ 24 + unat (diff_mant d)"
    using diff_exp_less [of d] by (intro unat_shift_or diff_mant_less) simp
  also have "\<dots> = unat d"
    unfolding unat_diff_exp unat_diff_mant by (rule div_mult_mod_eq)
  finally show ?thesis by (simp only: word_unat_eq_iff)
qed

lemma target_of_mono:
  assumes "d \<le> g" and "3 \<le> unat (diff_exp d)" and "2 ^ 16 \<le> unat (diff_mant g)"
  shows "target_of d \<le> target_of g"
proof (cases "diff_exp d = diff_exp g")
  case True
  then have "unat (diff_mant d) \<le> unat (diff_mant g)"
    using assms(1) compact_le [of d g] by (simp add: word_le_nat_alt)
  then show ?thesis unfolding target_of_def True by simp
next
  case False
  then have lt: "unat (diff_exp d) < unat (diff_exp g)"
    using compact_le [of d g, THEN iffD1, OF assms(1)] by (simp add: word_less_nat_alt)
  have "target_of d \<le> 2 ^ 24 * 256 ^ (unat (diff_exp d) - 3)"
    using diff_mant_less [of d] by (simp add: target_of_def)
  also have "\<dots> = 2 ^ 16 * 256 ^ (unat (diff_exp d) - 3 + 1)" by simp
  also have "\<dots> \<le> 2 ^ 16 * 256 ^ (unat (diff_exp g) - 3)"
    using lt assms(2) by (intro mult_le_mono2 power_increasing) auto
  also have "\<dots> \<le> target_of g" using assms(3) by (simp add: target_of_def)
  finally show ?thesis .
qed

lemma encoded_near:
  assumes "256 ^ 3 \<le> t" and "t < 2 ^ 256"
    and "bn_ok ssl" and "encode_difficulty ssl t = Some (Some (exp, base))"
  shows "diff_exp (push_bit 24 exp OR base) = exp" and "diff_mant (push_bit 24 exp OR base) = base"
    and "valid_difficulty (push_bit 24 exp OR base)" and "2 ^ 16 \<le> unat base"
    and "target_of (push_bit 24 exp OR base) \<le> t"
    and "t \<le> target_of (push_bit 24 exp OR base) + target_of (push_bit 24 exp OR base) div 2 ^ 16"
proof -
  define e where "e = num_bytes t"
  define m where "m = t div 256 ^ (e - 3)"
  have enc: "exp = word_of_nat e" "base = word_of_nat m" and b: "3 < e" "e \<le> 32" "2 ^ 16 \<le> m" "m < 2 ^ 24"
    using encode_difficulty_exp [OF assms(3,1,2)] assms(4)
    by (auto simp: Let_def e_def m_def split: if_splits)
  have u: "unat exp = e" "unat base = m"
    using b enc by (simp_all add: unsigned_of_nat take_bit_nat_eq_self)
  have c: "unat (diff_exp (push_bit 24 exp OR base)) = unat exp" "unat (diff_mant (push_bit 24 exp OR base)) = unat base"
    using unat_compact [of exp base] b u by simp_all
  then show "diff_exp (push_bit 24 exp OR base) = exp" "diff_mant (push_bit 24 exp OR base) = base"
    by (simp_all only: word_unat_eq_iff)
  show "valid_difficulty (push_bit 24 exp OR base)" using c u b by (simp add: valid_difficulty_def)
  show "2 ^ 16 \<le> unat base" using b u by simp
  have t: "target_of (push_bit 24 exp OR base) = m * 256 ^ (e - 3)" using c u by (simp add: target_of_def)
  then show "target_of (push_bit 24 exp OR base) \<le> t" by (simp add: m_def)
  have "t mod 256 ^ (e - 3) < 256 ^ (e - 3)" by simp
  moreover have "2 ^ 16 * 256 ^ (e - 3) \<le> m * 256 ^ (e - 3)" using b(3) by (rule mult_le_mono1)
  then have "256 ^ (e - 3) \<le> m * 256 ^ (e - 3) div 2 ^ 16" by (simp add: less_eq_div_iff_mult_less_eq)
  moreover have "t = m * 256 ^ (e - 3) + t mod 256 ^ (e - 3)"
    unfolding m_def by (rule div_mult_mod_eq [symmetric])
  ultimately show "t \<le> target_of (push_bit 24 exp OR base) + target_of (push_bit 24 exp OR base) div 2 ^ 16"
    unfolding t by linarith
qed

lemma period_start_exists:
  assumes ok: "heap_ok (st_heap s)" and p: "st_heap s prev = Some bp"
    and re: "unat (bh_depth (b_hdr bp) + 1) mod 2016 = 0" "unat (bh_depth (b_hdr bp) + 1) \<noteq> 0"
    and g: "genesis_block s = Some g" "st_heap s g = Some gb"
  shows "\<exists>st sb. period_start s prev st \<and> st_heap s st = Some sb"
proof (cases "b_depth bp = 2015")
  case True
  then show ?thesis using p g by (auto simp: period_start_def)
next
  case False
  have "unat (bh_depth (b_hdr bp) + 1) = Suc (b_depth bp)"
    using re(2) unat_u32_less [of "bh_depth (b_hdr bp)"]
    by (cases "b_depth bp = 4294967295") (simp_all add: unat_word_ariths)
  then obtain k where k: "Suc (b_depth bp) = 2016 * k" using re(1) by (auto simp: mod_eq_0_iff_dvd elim!: dvdE)
  then have "k \<noteq> 0" "k \<noteq> 1" using False by (auto intro: ccontr)
  then have "2016 \<le> b_depth bp" using k by linarith
  then obtain a ab where "block_ancestor (st_heap s) (Some prev) 2016 = Some (Some a)" "st_heap s a = Some ab"
    using block_ancestor_eq [OF ok p, of 2016] by auto
  then show ?thesis using p False by (auto simp: period_start_def)
qed

text \<open>
  C26. At the end of a difficulty period \<open>get_difficulty\<close> returns (except when the scaled target
  starts with three 0xFF bytes, where the code asserts), and the difficulty it returns is never
  easier than the genesis block's, lets the target grow at most fourfold, and shrinks it at most
  to a quarter (up to the 16 bits of rounding of the compact form), unless it is the genesis
  difficulty.
\<close>

theorem get_difficulty_retarget:
  assumes bn: "bn_ok ssl" and ok: "heap_ok (st_heap s)" and p: "st_heap s prev = Some bp"
    and re: "unat (bh_depth (b_hdr bp) + 1) mod 2016 = 0" "unat (bh_depth (b_hdr bp) + 1) \<noteq> 0"
    and v: "valid_difficulty (bt_difficulty (b_tailer bp))"
    and g: "genesis_block s = Some g" "st_heap s g = Some gb"
    and vg: "valid_difficulty (bt_difficulty (b_tailer gb))" "2 ^ 16 \<le> unat (diff_mant (bt_difficulty (b_tailer gb)))"
    and T: "T = target_of (bt_difficulty (b_tailer bp))" "256 ^ 3 \<le> T div 4" "4 * T < 2 ^ 256"
  shows "\<exists>st sb. period_start s prev st \<and> st_heap s st = Some sb
    \<and> (let t = scaled_target s bp sb in
        (get_difficulty ssl s prev = None \<longleftrightarrow> t div 256 ^ (num_bytes t - 3) = 0xFFFFFF)
        \<and> T div 4 \<le> t \<and> t \<le> 4 * T
        \<and> (\<forall>d. get_difficulty ssl s prev = Some d \<longrightarrow>
             target_of d \<le> target_of (bt_difficulty (b_tailer gb)) \<and> target_of d \<le> t
             \<and> (d = bt_difficulty (b_tailer gb) \<or> t \<le> target_of d + target_of d div 2 ^ 16)))"
proof -
  let ?gd = "bt_difficulty (b_tailer gb)"
  obtain st sb where st: "period_start s prev st" "st_heap s st = Some sb"
    using period_start_exists [OF ok p re g] by blast
  define t where "t = scaled_target s bp sb"
  have tb: "T div 4 \<le> t" "t \<le> 4 * T" using scaled_bounds [where s = s and bp = bp and sb = sb] by (simp_all add: t_def T(1))
  then have t3: "256 ^ 3 \<le> t" "t < 2 ^ 256" using T(2,3) by linarith+
  note gd = get_difficulty_scaled [OF bn p re(1) _ st g, folded t_def, unfolded compact_join]
  have gd': "get_difficulty ssl s prev =
    do { enc \<leftarrow> encode_difficulty ssl t; (exp, base) \<leftarrow> enc;
         Some (if exp > diff_exp ?gd \<or> exp = diff_exp ?gd \<and> base > diff_mant ?gd then ?gd
               else push_bit 24 exp OR base) }"
    using gd v by (simp add: valid_difficulty_def)
  have enc: "encode_difficulty ssl t = None \<longleftrightarrow> t div 256 ^ (num_bytes t - 3) = 0xFFFFFF"
    "encode_difficulty ssl t \<noteq> Some None"
    using encode_difficulty_exp [OF bn t3] by (auto simp: Let_def)
  then have none: "get_difficulty ssl s prev = None \<longleftrightarrow> t div 256 ^ (num_bytes t - 3) = 0xFFFFFF"
    unfolding gd' by (cases "encode_difficulty ssl t") (auto simp: bind_eq_None_conv)
  have "target_of d \<le> target_of ?gd \<and> target_of d \<le> t \<and> (d = ?gd \<or> t \<le> target_of d + target_of d div 2 ^ 16)"
    if d: "get_difficulty ssl s prev = Some d" for d
  proof -
    obtain exp base where e: "encode_difficulty ssl t = Some (Some (exp, base))"
      and dd: "d = (if exp > diff_exp ?gd \<or> exp = diff_exp ?gd \<and> base > diff_mant ?gd then ?gd
               else push_bit 24 exp OR base)"
      using d unfolding gd' by (auto simp: bind_eq_Some_conv)
    note near = encoded_near [OF t3 bn e]
    let ?d = "push_bit 24 exp OR base"
    have cl: "\<not> (exp > diff_exp ?gd \<or> exp = diff_exp ?gd \<and> base > diff_mant ?gd) \<longleftrightarrow> ?d \<le> ?gd"
      using compact_le [of ?d ?gd] near(1,2) by auto
    show ?thesis
    proof (cases "?d \<le> ?gd")
      case True
      then have "d = ?d" using dd cl by auto
      then show ?thesis
        using target_of_mono [OF True] near(3,5,6) vg by (simp add: valid_difficulty_def)
    next
      case False
      then have "d = ?gd" using dd cl by auto
      moreover have "target_of ?gd \<le> target_of ?d"
        using False near(2,4) vg by (intro target_of_mono) (auto simp: valid_difficulty_def)
      ultimately show ?thesis using near(5) by simp
    qed
  qed
  then show ?thesis using st none tb by (auto simp: Let_def t_def)
qed

subsection \<open>check_timestamp\<close>

definition asort_ok :: "runtime \<Rightarrow> bool" where
  \<comment> \<open>\<open>asort\<close> sorts: what its manual promises\<close>
  "asort_ok rt \<longleftrightarrow>
     (\<forall>xs. mset (rt_asort rt cmp_times xs) = mset xs \<and> sorted (rt_asort rt cmp_times xs))"

lemma asort_sort: "asort_ok rt \<Longrightarrow> rt_asort rt cmp_times xs = sort xs"
  unfolding asort_ok_def by (metis properties_for_sort)

lemma recent_times_eq:
  assumes "heap_ok h" and "h prev = Some pb"
  shows "\<exists>ts. recent_times h n prev = Some ts \<and> length ts = min n (b_depth pb)
    \<and> (\<forall>i < length ts. \<exists>a ab. block_ancestor h (Some prev) i = Some (Some a) \<and> h a = Some ab
         \<and> ts ! i = bt_timestamp (b_tailer ab))"
  using assms(2)
proof (induction n arbitrary: prev pb)
  case (Suc n)
  show ?case
  proof (cases "b_prev pb")
    case None
    then show ?thesis using Suc.prems heap_root [OF assms(1) Suc.prems] by simp
  next
    case (Some p)
    obtain qb where q: "h p = Some qb" "b_depth pb = Suc (b_depth qb)"
      using heap_prev [OF assms(1) Suc.prems Some] by metis
    obtain ts where ts: "recent_times h n p = Some ts" "length ts = min n (b_depth qb)"
      "\<forall>i < length ts. \<exists>a ab. block_ancestor h (Some p) i = Some (Some a) \<and> h a = Some ab
         \<and> ts ! i = bt_timestamp (b_tailer ab)"
      using Suc.IH [OF q(1)] by blast
    have "\<exists>a ab. block_ancestor h (Some prev) i = Some (Some a) \<and> h a = Some ab
        \<and> (bt_timestamp (b_tailer pb) # ts) ! i = bt_timestamp (b_tailer ab)" if "i < Suc (length ts)" for i
      using that ts(3) Suc.prems Some by (cases i) auto
    then show ?thesis using Suc.prems Some ts q by auto
  qed
qed simp

lemma check_timestamp_eq:
  assumes "heap_ok (st_heap s)" and "st_heap s prev = Some pb" and "asort_ok rt"
  shows "\<exists>ts. length ts = min 11 (b_depth pb)
    \<and> (\<forall>i < length ts. \<exists>a ab. block_ancestor (st_heap s) (Some prev) i = Some (Some a)
          \<and> st_heap s a = Some ab \<and> ts ! i = bt_timestamp (b_tailer ab))
    \<and> check_timestamp rt s t prev =
        Some ((ts = [] \<or> sort ts ! (length ts div 2) < t) \<and> unat t < rt_time rt + 7200)"
proof -
  obtain ts where ts: "recent_times (st_heap s) 11 prev = Some ts" "length ts = min 11 (b_depth pb)"
    "\<forall>i < length ts. \<exists>a ab. block_ancestor (st_heap s) (Some prev) i = Some (Some a)
      \<and> st_heap s a = Some ab \<and> ts ! i = bt_timestamp (b_tailer ab)"
    using recent_times_eq [OF assms(1,2)] by blast
  have "length ts div 2 < length ts \<longleftrightarrow> ts \<noteq> []" by (cases ts) auto
  then have "check_timestamp rt s t prev =
      Some ((ts = [] \<or> sort ts ! (length ts div 2) < t) \<and> unat t < rt_time rt + 7200)"
    using ts(1) by (auto simp: check_timestamp_def asort_sort [OF assms(3)] c_nth_def Let_def not_le)
  with ts(2,3) show ?thesis by blast
qed

text \<open>
  \<open>check_timestamp\<close> always returns; it accepts a timestamp exactly when it is later than the
  median of the timestamps of the last eleven blocks (fewer near the start of the chain; the
  genesis block never counts) and earlier than two hours from now.
\<close>

theorem check_timestamp_correct:
  assumes "heap_ok (st_heap s)" and "st_heap s prev = Some pb" and "asort_ok rt"
  shows "\<exists>ts. length ts = min 11 (b_depth pb)
    \<and> (\<forall>i < length ts. \<exists>a ab. block_ancestor (st_heap s) (Some prev) i = Some (Some a)
          \<and> st_heap s a = Some ab \<and> ts ! i = bt_timestamp (b_tailer ab))
    \<and> check_timestamp rt s t prev =
        Some ((ts = [] \<or> sort ts ! (length ts div 2) < t) \<and> unat t < rt_time rt + 7200)"
  using assms by (rule check_timestamp_eq)

subsection \<open>pending_features\<close>

lemma bit_exp_u8: "bit (2 ^ j :: u8) k \<longleftrightarrow> j = k \<and> k < 8"
  by (auto simp: bit_exp_iff)

lemma bit_fold_or:
  "bit (foldl (\<lambda>r j. if P j then r OR push_bit j (1 :: u8) else r) r0 xs) k
    \<longleftrightarrow> bit r0 k \<or> k < 8 \<and> k \<in> set xs \<and> P k"
proof (induction xs arbitrary: r0)
  case (Cons x xs)
  then show ?case by (cases "P x") (auto simp: bit_or_iff bit_exp_u8)
qed simp

lemma feature_votes_eq:
  assumes "heap_ok h" and "h b = Some bb" and "n \<le> Suc (b_depth bb)"
  shows "\<exists>vs. feature_votes h n (Some b) = Some vs \<and> length vs = n
    \<and> (\<forall>i < n. \<exists>a ab. block_ancestor h (Some b) i = Some (Some a) \<and> h a = Some ab
         \<and> vs ! i = bh_features_vote (b_hdr ab))"
  using assms(2,3)
proof (induction n arbitrary: b bb)
  case (Suc n)
  show ?case
  proof (cases n)
    case 0
    then show ?thesis using Suc.prems by simp
  next
    case (Suc m)
    then have "0 < b_depth bb" using Suc.prems(2) by simp
    then obtain p pb where p: "b_prev bb = Some p" "h p = Some pb" "b_depth bb = Suc (b_depth pb)"
      using heap_step_up [OF assms(1) Suc.prems(1)] by metis
    then obtain vs where vs: "feature_votes h n (Some p) = Some vs" "length vs = n"
      "\<forall>i < n. \<exists>a ab. block_ancestor h (Some p) i = Some (Some a) \<and> h a = Some ab
         \<and> vs ! i = bh_features_vote (b_hdr ab)"
      using Suc.IH [OF p(2)] Suc.prems(2) by auto
    have "\<exists>a ab. block_ancestor h (Some b) i = Some (Some a) \<and> h a = Some ab
        \<and> (bh_features_vote (b_hdr bb) # vs) ! i = bh_features_vote (b_hdr ab)" if "i < Suc n" for i
      using that vs(3) Suc.prems p by (cases i) auto
    then show ?thesis using Suc.prems p vs by auto
  qed
qed simp

lemma pending_features_eq:
  assumes ok: "heap_ok h" and b: "h b = Some bb" and d: "0 < b_depth bb"
  shows "if b_depth bb mod 2016 = 0
    then \<exists>vs f. length vs = 2016 \<and> pending_features h b = Some f
      \<and> (\<forall>i < 2016. \<exists>a ab. block_ancestor h (Some b) i = Some (Some a) \<and> h a = Some ab
           \<and> vs ! i = bh_features_vote (b_hdr ab))
      \<and> (\<forall>j. bit f j \<longleftrightarrow> j < 8 \<and> 1512 \<le> length (filter (\<lambda>v. bit v j) vs))
    else \<exists>p pb. b_prev bb = Some p \<and> h p = Some pb \<and> pending_features h b = Some (b_pending_features pb)"
proof (cases "b_depth bb mod 2016 = 0")
  case True
  then have "2016 \<le> Suc (b_depth bb)" using d by (auto elim!: dvdE simp: mod_eq_0_iff_dvd)
  then obtain vs where vs: "feature_votes h 2016 (Some b) = Some vs" "length vs = 2016"
    "\<forall>i < 2016. \<exists>a ab. block_ancestor h (Some b) i = Some (Some a) \<and> h a = Some ab
       \<and> vs ! i = bh_features_vote (b_hdr ab)"
    using feature_votes_eq [OF ok b] by blast
  define f where "f = foldl (\<lambda>r j. if 3 \<le> feature_count vs j * 4 div 2016 then r OR push_bit j (1 :: u8) else r) 0 [0..<8]"
  have "pending_features h b = Some f"
    using True b vs(1) by (simp add: pending_features_def c_simps f_def)
  moreover have "3 \<le> n * 4 div 2016 \<longleftrightarrow> 1512 \<le> n" for n :: nat
    by (simp add: less_eq_div_iff_mult_less_eq)
  then have "bit f j \<longleftrightarrow> j < 8 \<and> 1512 \<le> length (filter (\<lambda>v. bit v j) vs)" for j
    unfolding f_def bit_fold_or by (auto simp: feature_count_def)
  ultimately show ?thesis using True vs(2,3) by auto
next
  case False
  obtain p pb where "b_prev bb = Some p" "h p = Some pb"
    using heap_step_up [OF ok b d] by metis
  then show ?thesis using False b by (simp add: pending_features_def c_simps)
qed

text \<open>
  At the end of a voting period (depth a positive multiple of 2016) a feature bit is pending
  exactly when at least 1512 of the 2016 blocks of the period voted for it; at every other depth
  the previous block's pending features are inherited.
\<close>

theorem pending_features_correct:
  assumes ok: "heap_ok h" and b: "h b = Some bb" and d: "0 < b_depth bb"
  shows "if b_depth bb mod 2016 = 0
    then \<exists>vs f. length vs = 2016 \<and> pending_features h b = Some f
      \<and> (\<forall>i < 2016. \<exists>a ab. block_ancestor h (Some b) i = Some (Some a) \<and> h a = Some ab
           \<and> vs ! i = bh_features_vote (b_hdr ab))
      \<and> (\<forall>j. bit f j \<longleftrightarrow> j < 8 \<and> 1512 \<le> length (filter (\<lambda>v. bit v j) vs))
    else \<exists>p pb. b_prev bb = Some p \<and> h p = Some pb \<and> pending_features h b = Some (b_pending_features pb)"
  using assms by (rule pending_features_eq)

subsection \<open>Examples\<close>

definition model_runtime :: runtime where
  "model_runtime = \<lparr>rt_ssl = model_openssl, rt_tx_order = id, rt_input_order = id,
     rt_asort = (\<lambda>_. sort), rt_time = 1000000\<rparr>"

lemma asort_ok_model: "asort_ok model_runtime"
  by (simp add: asort_ok_def model_runtime_def)

lemma ex_compact: "diff_exp 0x1E01FFFF = 30" "diff_mant 0x1E01FFFF = 0x1FFFF"
  by (simp_all add: diff_exp_def diff_mant_def)

theorem get_difficulty_retarget_witness:
  "\<exists>st sb. period_start (ex_state 2015) 2015 st \<and> st_heap (ex_state 2015) st = Some sb
     \<and> scaled_target (ex_state 2015) (ex_block 2015 2015) sb \<le> 4 * target_of 0x1E01FFFF"
proof -
  let ?s = "ex_state 2015" and ?d = "bt_difficulty (b_tailer (ex_block 2015 2015))"
  have hp: "heap_ok (st_heap ?s)" using ex_heap_ok [of 2015] by (simp add: ex_state_def)
  have bl: "st_heap ?s 2015 = Some (ex_block 2015 2015)" "st_heap ?s 0 = Some (ex_block 2015 0)"
    by (simp_all add: ex_state_def ex_heap_def)
  have dp: "unat (bh_depth (b_hdr (ex_block 2015 2015)) + 1) = 2016"
    by (simp add: ex_block_def ex_chain_parts_def)
  have g: "genesis_block ?s = Some 0"
    by (simp add: genesis_block_def ex_state_def upt_rec [of 0])
  have d: "?d = 0x1E01FFFF" "bt_difficulty (b_tailer (ex_block 2015 0)) = 0x1E01FFFF"
    by (simp_all add: ex_block_def ex_chain_parts_def)
  have t: "target_of ?d = 0x1FFFF * 256 ^ 27"
    unfolding d by (simp add: target_of_def ex_compact)
  show ?thesis
    using get_difficulty_retarget [OF bn_ok_model hp bl(1) _ _ _ g bl(2) _ _ refl]
    unfolding dp t unfolding d
    by (simp add: valid_difficulty_def ex_compact Let_def t [unfolded d]) blast
qed

theorem check_timestamp_correct_witness:
  "\<exists>b. check_timestamp model_runtime (ex_state 3) 5000 3 = Some b"
proof -
  have "heap_ok (st_heap (ex_state 3))" "st_heap (ex_state 3) 3 = Some (ex_block 3 3)"
    using ex_heap_ok [of 3] by (simp_all add: ex_state_def ex_heap_def)
  from check_timestamp_correct [OF this asort_ok_model] show ?thesis by blast
qed

theorem pending_features_correct_witness:
  "\<exists>f. pending_features (ex_heap 2016) 2016 = Some f"
proof -
  have "ex_heap 2016 2016 = Some (ex_block 2016 2016)" "b_depth (ex_block 2016 2016) = 2016"
    by (simp_all add: ex_heap_def ex_depth)
  then show ?thesis
    using pending_features_correct [OF ex_heap_ok [of 2016], of 2016 "ex_block 2016 2016"] by auto
qed

end
