(* ===== verification/Hashes.thy ===== *)
theory Hashes
  imports Retarget
begin

section \<open>The transaction and input tables\<close>

text \<open>
  \<^verbatim>\<open>txhash.c\<close>, \<^verbatim>\<open>txhash.h\<close>, \<^verbatim>\<open>inputhash.c\<close>, \<^verbatim>\<open>inputhash.h\<close> and \<^verbatim>\<open>tx_in_hashes.c\<close>. Both tables are hash
  tables of ccan that may hold several elements with the same key. A table is the list of its
  elements; the order in which \<open>firstval\<close> and \<open>nextval\<close> go through the elements of one key is a
  parameter of the runtime, and nothing below depends on it. \<open>txhash_vals\<close> and \<open>inputhash_vals\<close> are
  the sequences such a loop goes through.

  What clients rely on is the locale \<open>multi_table\<close>: iteration over a key sees every element with
  that key once, after additions and deletions. Both tables are interpretations of it.
\<close>

subsection \<open>txhash.c\<close>

definition txhash_eq :: "txhash_elem \<Rightarrow> sha \<Rightarrow> bool" where
  "txhash_eq elem sha = (memcmp sha (te_sha elem) = 0 \<and> length sha = length (te_sha elem))"

definition txhash_vals :: "runtime \<Rightarrow> txhash_elem list \<Rightarrow> sha \<Rightarrow> txhash_elem list" where
  "txhash_vals rt ht sha = filter (\<lambda>te. txhash_eq te sha) (rt_tx_order rt ht)"

fun gettx_loop :: "heap \<Rightarrow> bool \<Rightarrow> txhash_elem list \<Rightarrow> protocol_tx option option" where
  "gettx_loop h in_block [] = Some None"
| "gettx_loop h in_block (te # tes) =
     (case te_u te of
        Pending_tx tx \<Rightarrow> if in_block then gettx_loop h in_block tes else Some (Some tx)
      | In_block b \<Rightarrow> do {
          bb \<leftarrow> h b;
          sh \<leftarrow> c_nth (b_shard bb) (unat (te_shardnum te));
          istx \<leftarrow> shard_is_tx sh (te_txoff te);
          if \<not> istx then gettx_loop h in_block tes
          else do {
            tx \<leftarrow> block_get_tx bb (te_shardnum te) (te_txoff te);
            c_assert (tx \<noteq> None);
            Some tx } })"

definition txhash_gettx :: "runtime \<Rightarrow> heap \<Rightarrow> txhash_elem list \<Rightarrow> sha \<Rightarrow> bool \<Rightarrow> protocol_tx option option" where
  \<comment> \<open>the last argument: \<open>in_block == TX_IN_BLOCK\<close>\<close>
  "txhash_gettx rt h ht sha in_block = gettx_loop h in_block (txhash_vals rt ht sha)"

definition same_tx_bytes :: "protocol_tx \<Rightarrow> protocol_tx \<Rightarrow> bool option" where
  "same_tx_bytes a b =
     do { la \<leftarrow> marshal_tx_len a; lb \<leftarrow> marshal_tx_len b;
          if la \<noteq> lb then Some False
          else do { x \<leftarrow> c_slice (enc_tx a) 0 (unat la); y \<leftarrow> c_slice (enc_tx b) 0 (unat la);
                    Some (memcmp x y = 0) } }"

fun del_tx_loop ::
    "txhash_block_or_tx \<Rightarrow> u16 \<Rightarrow> u8 \<Rightarrow> txhash_elem list \<Rightarrow> txhash_elem option option" where
  \<comment> \<open>the element the loop of \<open>txhash_del_tx\<close> deletes\<close>
  "del_tx_loop u shard txoff [] = Some None"
| "del_tx_loop u shard txoff (te # tes) =
     (if te_shardnum te \<noteq> shard \<or> te_txoff te \<noteq> txoff then del_tx_loop u shard txoff tes
      else (case (te_u te, u) of
          (In_block a, In_block b) \<Rightarrow>
            if a \<noteq> b then del_tx_loop u shard txoff tes else Some (Some te)
        | (Pending_tx a, Pending_tx b) \<Rightarrow>
            do { same \<leftarrow> same_tx_bytes a b;
                 if \<not> same then del_tx_loop u shard txoff tes else Some (Some te) }
        | _ \<Rightarrow> del_tx_loop u shard txoff tes))"

definition txhash_del_tx ::
    "runtime \<Rightarrow> txhash_elem list \<Rightarrow> txhash_block_or_tx \<Rightarrow> u16 \<Rightarrow> u8 \<Rightarrow> sha \<Rightarrow> txhash_elem list option" where
  "txhash_del_tx rt ht u shard txoff sha =
     do { r \<leftarrow> del_tx_loop u shard txoff (txhash_vals rt ht sha);
          Some (case r of None \<Rightarrow> ht | Some te \<Rightarrow> remove1 te ht) }"

definition txhash_add_tx ::
    "txhash_elem list \<Rightarrow> txhash_block_or_tx \<Rightarrow> u16 \<Rightarrow> u8 \<Rightarrow> sha \<Rightarrow> txhash_elem list" where
  "txhash_add_tx ht u shard txoff sha =
     \<lparr>te_sha = sha, te_u = u, te_shardnum = shard, te_txoff = txoff\<rparr> # ht"

subsection \<open>inputhash.c\<close>

definition inputhash_eq :: "inputhash_elem \<Rightarrow> sha \<times> u16 \<Rightarrow> bool" where
  "inputhash_eq elem key = (snd key = ie_output_num elem \<and> fst key = ie_tx elem)"

definition inputhash_vals :: "runtime \<Rightarrow> inputhash_elem list \<Rightarrow> sha \<times> u16 \<Rightarrow> inputhash_elem list" where
  "inputhash_vals rt ht key = filter (\<lambda>ie. inputhash_eq ie key) (rt_input_order rt ht)"

fun add_inputs :: "openssl \<Rightarrow> protocol_tx \<Rightarrow> nat \<Rightarrow> inputhash_elem list \<Rightarrow> inputhash_elem list option" where
  \<comment> \<open>the first \<open>n\<close> rounds of the loop of \<open>inputhash_add_tx\<close>\<close>
  "add_inputs ssl tx 0 ht = Some ht"
| "add_inputs ssl tx (Suc i) ht =
     do { ht' \<leftarrow> add_inputs ssl tx i ht;
          inp \<leftarrow> tx_input tx i;
          sha \<leftarrow> hash_tx ssl tx;
          Some (\<lparr>ie_tx = in_input inp, ie_output_num = in_output inp, ie_used_by = sha\<rparr> # ht') }"

definition inputhash_add_tx :: "openssl \<Rightarrow> inputhash_elem list \<Rightarrow> protocol_tx \<Rightarrow> inputhash_elem list option" where
  "inputhash_add_tx ssl ht tx = add_inputs ssl tx (unat (num_inputs tx)) ht"

definition del_input :: "runtime \<Rightarrow> sha \<Rightarrow> protocol_input \<Rightarrow> inputhash_elem list \<Rightarrow> inputhash_elem list" where
  \<comment> \<open>the inner loop of \<open>inputhash_del_tx\<close>: delete the first element used by \<open>sha\<close>\<close>
  "del_input rt sha inp ht =
     (case find (\<lambda>ie. ie_used_by ie = sha) (inputhash_vals rt ht (in_input inp, in_output inp)) of
        None \<Rightarrow> ht
      | Some ie \<Rightarrow> remove1 ie ht)"

fun del_inputs :: "runtime \<Rightarrow> protocol_tx \<Rightarrow> sha \<Rightarrow> nat \<Rightarrow> inputhash_elem list \<Rightarrow> inputhash_elem list option" where
  "del_inputs rt tx sha 0 ht = Some ht"
| "del_inputs rt tx sha (Suc i) ht =
     do { ht' \<leftarrow> del_inputs rt tx sha i ht; inp \<leftarrow> tx_input tx i; Some (del_input rt sha inp ht') }"

definition inputhash_del_tx :: "runtime \<Rightarrow> inputhash_elem list \<Rightarrow> protocol_tx \<Rightarrow> inputhash_elem list option" where
  "inputhash_del_tx rt ht tx =
     do { sha \<leftarrow> hash_tx (rt_ssl rt) tx; del_inputs rt tx sha (unat (num_inputs tx)) ht }"

subsection \<open>tx_in_hashes.c\<close>

definition txhash_get_pending_tx :: "runtime \<Rightarrow> state \<Rightarrow> sha \<Rightarrow> protocol_tx option" where
  "txhash_get_pending_tx rt s sha =
     (case find (\<lambda>te. case te_u te of Pending_tx _ \<Rightarrow> True | In_block _ \<Rightarrow> False)
             (txhash_vals rt (st_txhash s) sha) of
        None \<Rightarrow> None
      | Some te \<Rightarrow> (case te_u te of Pending_tx tx \<Rightarrow> Some tx | In_block _ \<Rightarrow> None))"

fun ancestor_loop :: "heap \<Rightarrow> bptr \<Rightarrow> txhash_elem list \<Rightarrow> txhash_elem option option" where
  "ancestor_loop h block [] = Some None"
| "ancestor_loop h block (te # tes) =
     (case te_u te of
        Pending_tx _ \<Rightarrow> ancestor_loop h block tes
      | In_block b \<Rightarrow> do { p \<leftarrow> block_preceeds h b block;
                           if p then Some (Some te) else ancestor_loop h block tes })"

definition txhash_gettx_ancestor :: "runtime \<Rightarrow> state \<Rightarrow> sha \<Rightarrow> bptr \<Rightarrow> txhash_elem option option" where
  "txhash_gettx_ancestor rt s sha block =
     ancestor_loop (st_heap s) block (txhash_vals rt (st_txhash s) sha)"

definition txhash_tx :: "heap \<Rightarrow> txhash_elem \<Rightarrow> protocol_tx option option" where
  "txhash_tx h te =
     (case te_u te of
        In_block b \<Rightarrow> do { bb \<leftarrow> h b; sh \<leftarrow> c_nth (b_shard bb) (unat (te_shardnum te));
                           tx_for sh (te_txoff te) }
      | Pending_tx tx \<Rightarrow> Some (Some tx))"

definition add_txhash_to_hashes :: "state \<Rightarrow> bptr \<Rightarrow> u16 \<Rightarrow> u8 \<Rightarrow> sha \<Rightarrow> state" where
  "add_txhash_to_hashes s block shard txoff txhash =
     s\<lparr>st_txhash := txhash_add_tx (st_txhash s) (In_block block) shard txoff txhash\<rparr>"

definition upgrade_tx_in_hashes :: "runtime \<Rightarrow> state \<Rightarrow> sha \<Rightarrow> protocol_tx \<Rightarrow> state option" where
  "upgrade_tx_in_hashes rt s sha tx =
     do { known \<leftarrow> txhash_gettx rt (st_heap s) (st_txhash s) sha False;
          (case known of
             Some _ \<Rightarrow> Some s
           | None \<Rightarrow> do { ih \<leftarrow> inputhash_add_tx (rt_ssl rt) (st_inputhash s) tx;
                          Some (s\<lparr>st_inputhash := ih\<rparr>) }) }"

definition add_tx_to_hashes :: "runtime \<Rightarrow> state \<Rightarrow> bptr \<Rightarrow> u16 \<Rightarrow> u8 \<Rightarrow> protocol_tx \<Rightarrow> state option" where
  "add_tx_to_hashes rt s block shard txoff tx =
     do { txhash \<leftarrow> hash_tx (rt_ssl rt) tx;
          known \<leftarrow> txhash_gettx rt (st_heap s) (st_txhash s) txhash False;
          s1 \<leftarrow> (case known of
                   Some _ \<Rightarrow> Some s
                 | None \<Rightarrow> do { ih \<leftarrow> inputhash_add_tx (rt_ssl rt) (st_inputhash s) tx;
                                Some (s\<lparr>st_inputhash := ih\<rparr>) });
          Some (add_txhash_to_hashes s1 block shard txoff txhash) }"

definition remove_tx_from_hashes :: "runtime \<Rightarrow> state \<Rightarrow> bptr \<Rightarrow> u16 \<Rightarrow> u8 \<Rightarrow> state option" where
  "remove_tx_from_hashes rt s block shard txoff =
     do { bb \<leftarrow> st_heap s block;
          sh \<leftarrow> c_nth (b_shard bb) (unat shard);
          slot \<leftarrow> c_nth (bs_u sh) (unat txoff);
          (txhash, tx) \<leftarrow> (case slot of
              Txp p \<Rightarrow> do { (tx, _) \<leftarrow> p; h \<leftarrow> hash_tx (rt_ssl rt) tx; Some (h, Some tx) }
            | Hash h \<Rightarrow> Some (trh_txhash h, None));
          th \<leftarrow> txhash_del_tx rt (st_txhash s) (In_block block) shard txoff txhash;
          let s1 = s\<lparr>st_txhash := th\<rparr>;
          (case tx of
             None \<Rightarrow> Some s1
           | Some t \<Rightarrow> do {
               known \<leftarrow> txhash_gettx rt (st_heap s1) (st_txhash s1) txhash False;
               (case known of
                  Some _ \<Rightarrow> Some s1
                | None \<Rightarrow> do { ih \<leftarrow> inputhash_del_tx rt (st_inputhash s1) t;
                               Some (s1\<lparr>st_inputhash := ih\<rparr>) }) }) }"

definition add_pending_tx_to_hashes :: "runtime \<Rightarrow> state \<Rightarrow> protocol_tx \<Rightarrow> state option" where
  "add_pending_tx_to_hashes rt s tx =
     do { txhash \<leftarrow> hash_tx (rt_ssl rt) tx;
          c_assert (txhash_get_pending_tx rt s txhash = None);
          known \<leftarrow> txhash_gettx rt (st_heap s) (st_txhash s) txhash False;
          s1 \<leftarrow> (case known of
                   Some _ \<Rightarrow> Some s
                 | None \<Rightarrow> do { ih \<leftarrow> inputhash_add_tx (rt_ssl rt) (st_inputhash s) tx;
                                Some (s\<lparr>st_inputhash := ih\<rparr>) });
          Some (s1\<lparr>st_txhash := txhash_add_tx (st_txhash s1) (Pending_tx tx) 0 0 txhash\<rparr>) }"

definition remove_pending_tx_from_hashes :: "runtime \<Rightarrow> state \<Rightarrow> protocol_tx \<Rightarrow> state option" where
  "remove_pending_tx_from_hashes rt s tx =
     do { txhash \<leftarrow> hash_tx (rt_ssl rt) tx;
          th \<leftarrow> txhash_del_tx rt (st_txhash s) (Pending_tx tx) 0 0 txhash;
          let s1 = s\<lparr>st_txhash := th\<rparr>;
          known \<leftarrow> txhash_gettx rt (st_heap s1) (st_txhash s1) txhash False;
          (case known of
             Some _ \<Rightarrow> Some s1
           | None \<Rightarrow> do { ih \<leftarrow> inputhash_del_tx rt (st_inputhash s1) tx;
                          Some (s1\<lparr>st_inputhash := ih\<rparr>) }) }"

subsection \<open>The contract of a table\<close>

locale multi_table =
  fixes ok :: bool
    and vals :: "'e list \<Rightarrow> 'k \<Rightarrow> 'e list"
    and keyof :: "'e \<Rightarrow> 'k"
  assumes vals_mset: "ok \<Longrightarrow> mset (vals ht k) = filter_mset (\<lambda>e. keyof e = k) (mset ht)"
begin

lemma set_vals: "ok \<Longrightarrow> set (vals ht k) = {e \<in> set ht. keyof e = k}"
  using vals_mset [of ht k] by (metis set_mset_filter set_mset_mset)

lemma vals_add: "ok \<Longrightarrow> set (vals (e # ht) k) = (if keyof e = k then insert e (set (vals ht k)) else set (vals ht k))"
  by (auto simp: set_vals)

lemma vals_del_other: "ok \<Longrightarrow> keyof e \<noteq> k \<Longrightarrow> mset (vals (remove1 e ht) k) = mset (vals ht k)"
  by (simp add: vals_mset)

lemma find_vals_None: "ok \<Longrightarrow> find P (vals ht k) = None \<longleftrightarrow> (\<forall>e \<in> set ht. keyof e = k \<longrightarrow> \<not> P e)"
  by (auto simp: find_None_iff set_vals)

lemma find_vals_Some: "ok \<Longrightarrow> find P (vals ht k) = Some e \<Longrightarrow> e \<in> set ht \<and> keyof e = k \<and> P e"
  by (auto simp: find_Some_iff set_vals dest!: nth_mem [of _ "vals ht k"])

end

definition tables_ok :: "runtime \<Rightarrow> bool" where
  \<comment> \<open>iteration goes through every element once, in some order\<close>
  "tables_ok rt \<longleftrightarrow> (\<forall>l. mset (rt_tx_order rt l) = mset l) \<and> (\<forall>l. mset (rt_input_order rt l) = mset l)"

lemma txhash_eq_iff: "txhash_eq te sha \<longleftrightarrow> te_sha te = sha"
  by (auto simp: txhash_eq_def memcmp_eq_0)

interpretation txtab: multi_table "tables_ok rt" "txhash_vals rt" te_sha for rt
  by unfold_locales (simp add: txhash_vals_def txhash_eq_iff tables_ok_def)

lemma inputhash_eq_iff: "inputhash_eq ie k \<longleftrightarrow> (ie_tx ie, ie_output_num ie) = k"
  by (cases k) (auto simp: inputhash_eq_def)

interpretation intab: multi_table "tables_ok rt" "inputhash_vals rt" "\<lambda>ie. (ie_tx ie, ie_output_num ie)" for rt
  by unfold_locales (simp add: inputhash_vals_def inputhash_eq_iff tables_ok_def)

subsection \<open>The invariant of the two tables\<close>

definition te_slot :: "heap \<Rightarrow> bptr \<Rightarrow> txhash_elem \<Rightarrow> txslot option" where
  "te_slot h b te = do { bb \<leftarrow> h b; sh \<leftarrow> c_nth (b_shard bb) (unat (te_shardnum te)); c_nth (bs_u sh) (unat (te_txoff te)) }"

definition te_tx :: "heap \<Rightarrow> txhash_elem \<Rightarrow> protocol_tx option" where
  \<comment> \<open>the transaction an element stands for, when it is known in full\<close>
  "te_tx h te =
     (case te_u te of
        Pending_tx t \<Rightarrow> Some t
      | In_block b \<Rightarrow> (case te_slot h b te of Some (Txp (Some (t, _))) \<Rightarrow> Some t | _ \<Rightarrow> None))"

definition pos_ok :: "heap \<Rightarrow> bptr \<Rightarrow> u16 \<Rightarrow> u8 \<Rightarrow> bool" where
  \<comment> \<open>the position exists in the block\<close>
  "pos_ok h b shard txoff \<longleftrightarrow>
     (\<exists>bb. h b = Some bb \<and> unat shard < length (b_shard bb) \<and> unat shard < unat (num_shards (b_hdr bb))
        \<and> txoff < bs_size (b_shard bb ! unat shard)
        \<and> length (bs_u (b_shard bb ! unat shard)) = unat (bs_size (b_shard bb ! unat shard)))"

definition elem_ok :: "openssl \<Rightarrow> heap \<Rightarrow> txhash_elem \<Rightarrow> bool" where
  "elem_ok ssl h te \<longleftrightarrow>
     (case te_u te of
        Pending_tx t \<Rightarrow> te_shardnum te = 0 \<and> te_txoff te = 0 \<and> wf_tx t \<and> hash_tx ssl t = Some (te_sha te)
      | In_block b \<Rightarrow> pos_ok h b (te_shardnum te) (te_txoff te)
          \<and> (case te_slot h b te of
               Some (Txp (Some (t, _))) \<Rightarrow> wf_tx t \<and> hash_tx ssl t = Some (te_sha te)
             | Some (Hash x) \<Rightarrow> trh_txhash x = te_sha te
             | _ \<Rightarrow> False))"

definition inputs_recorded :: "inputhash_elem list \<Rightarrow> protocol_tx \<Rightarrow> sha \<Rightarrow> bool" where
  "inputs_recorded ih t sha \<longleftrightarrow>
     (\<forall>inp \<in> set (tx_inputs t). \<lparr>ie_tx = in_input inp, ie_output_num = in_output inp, ie_used_by = sha\<rparr> \<in> set ih)"

definition is_pending :: "txhash_elem \<Rightarrow> bool" where
  "is_pending te = (case te_u te of Pending_tx _ \<Rightarrow> True | In_block _ \<Rightarrow> False)"

definition hashes_ok :: "openssl \<Rightarrow> state \<Rightarrow> bool" where
  "hashes_ok ssl s \<longleftrightarrow>
     (\<forall>te \<in> set (st_txhash s). elem_ok ssl (st_heap s) te)
     \<and> (\<forall>te \<in> set (st_txhash s). \<forall>t. te_tx (st_heap s) te = Some t \<longrightarrow>
          inputs_recorded (st_inputhash s) t (te_sha te))
     \<and> distinct (map te_sha (filter is_pending (st_txhash s)))"

definition tx_collision :: "openssl \<Rightarrow> bool" where
  "tx_collision ssl \<longleftrightarrow>
     (\<exists>a b h. wf_tx a \<and> wf_tx b \<and> a \<noteq> b \<and> hash_tx ssl a = Some h \<and> hash_tx ssl b = Some h)"

subsection \<open>Lookup\<close>

lemma hash_tx_Some: "wf_tx tx \<Longrightarrow> hash_tx ssl tx = Some (SHA256_Double_Final ssl (enc_tx tx))"
  using marshal_tx_len_eq [of tx] length_enc_tx [of tx] by (auto simp: hash_tx_def c_slice_in)

lemma elem_ok_hash: "elem_ok ssl h te \<Longrightarrow> te_tx h te = Some t \<Longrightarrow> wf_tx t \<and> hash_tx ssl t = Some (te_sha te)"
  by (auto simp: elem_ok_def te_tx_def split: txhash_block_or_tx.splits option.splits txslot.splits)

lemma gettx_loop_eq:
  assumes "\<forall>te \<in> set tes. elem_ok ssl h te"
  shows "\<exists>r. gettx_loop h False tes = Some r \<and>
    (case r of Some t \<Rightarrow> \<exists>te \<in> set tes. te_tx h te = Some t | None \<Rightarrow> \<forall>te \<in> set tes. te_tx h te = None)"
  using assms
proof (induction tes)
  case (Cons te tes)
  then obtain r where r: "gettx_loop h False tes = Some r"
    "case r of Some t \<Rightarrow> \<exists>te \<in> set tes. te_tx h te = Some t | None \<Rightarrow> \<forall>te \<in> set tes. te_tx h te = None"
    by auto
  show ?case
  proof (cases "te_u te")
    case (Pending_tx t)
    then show ?thesis by (simp add: te_tx_def)
  next
    case (In_block b)
    then have e: "pos_ok h b (te_shardnum te) (te_txoff te)"
      and sl: "case te_slot h b te of Some (Txp (Some (t, _))) \<Rightarrow> wf_tx t \<and> hash_tx ssl t = Some (te_sha te)
             | Some (Hash x) \<Rightarrow> trh_txhash x = te_sha te | _ \<Rightarrow> False"
      using Cons.prems by (simp_all add: elem_ok_def)
    from e obtain bb where bb: "h b = Some bb" "unat (te_shardnum te) < length (b_shard bb)"
      "unat (te_shardnum te) < unat (num_shards (b_hdr bb))"
      "te_txoff te < bs_size (b_shard bb ! unat (te_shardnum te))"
      "unat (te_txoff te) < length (bs_u (b_shard bb ! unat (te_shardnum te)))"
      by (auto simp: pos_ok_def word_less_nat_alt)
    define slot where "slot = bs_u (b_shard bb ! unat (te_shardnum te)) ! unat (te_txoff te)"
    have slot: "te_slot h b te = Some slot" using bb by (simp add: te_slot_def slot_def)
    show ?thesis
    proof (cases slot)
      case (Txp p)
      with sl slot obtain t rs where "p = Some (t, rs)" by (auto split: option.splits)
      then show ?thesis
        using bb slot In_block Txp
        by (auto simp: shard_is_tx_def block_get_tx_def block_slot_def te_tx_def simp flip: slot_def)
    next
      case (Hash x)
      then have "gettx_loop h False (te # tes) = gettx_loop h False tes" "te_tx h te = None"
        using bb slot In_block by (auto simp: shard_is_tx_def te_tx_def simp flip: slot_def)
      then show ?thesis using r by (auto split: option.splits)
    qed
  qed
qed simp

lemma hashes_gettx:
  assumes "hashes_ok ssl s" and "tables_ok rt"
  obtains (known) t te where "txhash_gettx rt (st_heap s) (st_txhash s) sha False = Some (Some t)"
      "te \<in> set (st_txhash s)" "te_sha te = sha" "te_tx (st_heap s) te = Some t"
    | (unknown) "txhash_gettx rt (st_heap s) (st_txhash s) sha False = Some None"
      "\<And>te. te \<in> set (st_txhash s) \<Longrightarrow> te_sha te = sha \<Longrightarrow> te_tx (st_heap s) te = None"
proof -
  have sv: "set (txhash_vals rt (st_txhash s) sha) = {e \<in> set (st_txhash s). te_sha e = sha}"
    by (rule txtab.set_vals [OF assms(2)])
  then have "\<forall>te \<in> set (txhash_vals rt (st_txhash s) sha). elem_ok ssl (st_heap s) te"
    using assms(1) by (simp add: hashes_ok_def)
  from gettx_loop_eq [OF this] obtain r where
    r: "txhash_gettx rt (st_heap s) (st_txhash s) sha False = Some r"
    "case r of Some t \<Rightarrow> \<exists>te \<in> {e \<in> set (st_txhash s). te_sha e = sha}. te_tx (st_heap s) te = Some t
      | None \<Rightarrow> \<forall>te \<in> {e \<in> set (st_txhash s). te_sha e = sha}. te_tx (st_heap s) te = None"
    unfolding txhash_gettx_def sv by blast
  then show thesis by (cases r) (use known unknown in auto)
qed

subsection \<open>Recording inputs\<close>

lemma add_inputs_eq:
  assumes "wf_tx tx" and "hash_tx ssl tx = Some sha" and "n \<le> unat (num_inputs tx)"
  shows "add_inputs ssl tx n ih =
    Some (rev (map (\<lambda>inp. \<lparr>ie_tx = in_input inp, ie_output_num = in_output inp, ie_used_by = sha\<rparr>)
      (take n (tx_inputs tx))) @ ih)"
  using assms(3)
proof (induction n)
  case (Suc n)
  then have "n < length (tx_inputs tx)" using length_tx_inputs [OF assms(1)] by simp
  with Suc show ?case
    using assms(1,2) by (simp add: tx_input_eq take_Suc_conv_app_nth Suc_le_eq)
qed simp

lemma inputhash_add_tx_eq:
  assumes "wf_tx tx" and "hash_tx ssl tx = Some sha"
  shows "\<exists>ih'. inputhash_add_tx ssl ih tx = Some ih' \<and> set ih \<subseteq> set ih' \<and> inputs_recorded ih' tx sha"
  using add_inputs_eq [OF assms, of "unat (num_inputs tx)" ih] length_tx_inputs [OF assms(1)]
  by (auto simp: inputhash_add_tx_def inputs_recorded_def)

lemma inputs_recorded_mono: "inputs_recorded ih t sha \<Longrightarrow> set ih \<subseteq> set ih' \<Longrightarrow> inputs_recorded ih' t sha"
  by (auto simp: inputs_recorded_def)

text \<open>
  The step all three additions share: inputs are added unless the transaction is known already,
  and then they are there (or two transactions have the same hash).
\<close>

lemma record_inputs:
  assumes ok: "hashes_ok (rt_ssl rt) s" and tab: "tables_ok rt" and wf: "wf_tx tx"
    and sha: "hash_tx (rt_ssl rt) tx = Some sha"
  shows "\<exists>ih. upgrade_tx_in_hashes rt s sha tx = Some (s\<lparr>st_inputhash := ih\<rparr>)
    \<and> set (st_inputhash s) \<subseteq> set ih \<and> (inputs_recorded ih tx sha \<or> tx_collision (rt_ssl rt))"
  using ok tab
proof (cases rule: hashes_gettx [where sha = sha])
  case (known t te)
  have "wf_tx t" "hash_tx (rt_ssl rt) t = Some sha"
    using elem_ok_hash [OF _ known(4)] ok known(2,3) by (auto simp: hashes_ok_def)
  then have "t = tx \<or> tx_collision (rt_ssl rt)" using wf sha by (auto simp: tx_collision_def)
  moreover have "inputs_recorded (st_inputhash s) t sha"
    using ok known by (auto simp: hashes_ok_def)
  ultimately show ?thesis
    using known(1) by (intro exI [of _ "st_inputhash s"]) (auto simp: upgrade_tx_in_hashes_def)
next
  case unknown
  obtain ih where "inputhash_add_tx (rt_ssl rt) (st_inputhash s) tx = Some ih"
    "set (st_inputhash s) \<subseteq> set ih" "inputs_recorded ih tx sha"
    using inputhash_add_tx_eq [OF wf sha] by blast
  then show ?thesis using unknown(1) by (auto simp: upgrade_tx_in_hashes_def)
qed

subsection \<open>Pending transactions in the tables\<close>

lemma get_pending_cases:
  assumes "tables_ok rt"
  obtains (some) t te where "txhash_get_pending_tx rt s sha = Some t" "te \<in> set (st_txhash s)"
      "te_sha te = sha" "te_u te = Pending_tx t"
    | (none) "txhash_get_pending_tx rt s sha = None"
      "\<And>te. te \<in> set (st_txhash s) \<Longrightarrow> te_sha te = sha \<Longrightarrow> \<not> is_pending te"
proof -
  have eq: "(\<lambda>te. case te_u te of In_block x \<Rightarrow> False | Pending_tx x \<Rightarrow> True) = is_pending"
    by (auto simp: is_pending_def)
  show thesis
  proof (cases "find is_pending (txhash_vals rt (st_txhash s) sha)")
    case None
    then have "txhash_get_pending_tx rt s sha = None" by (simp add: txhash_get_pending_tx_def eq)
    moreover have "\<not> is_pending te" if "te \<in> set (st_txhash s)" "te_sha te = sha" for te
      using None that txtab.find_vals_None [OF assms] by blast
    ultimately show ?thesis using none by blast
  next
    case (Some te)
    with txtab.find_vals_Some [OF assms this] some show ?thesis
      by (auto simp: txhash_get_pending_tx_def eq is_pending_def split: txhash_block_or_tx.splits)
  qed
qed

lemma get_pending_None_iff:
  assumes "tables_ok rt"
  shows "txhash_get_pending_tx rt s sha = None \<longleftrightarrow>
    (\<forall>te \<in> set (st_txhash s). te_sha te = sha \<longrightarrow> \<not> is_pending te)"
  using assms
proof (cases rule: get_pending_cases [where s = s and sha = sha])
  case (some t te)
  then have "is_pending te" by (simp add: is_pending_def)
  with some show ?thesis by auto
qed auto

lemma get_pending_iff:
  assumes "tables_ok rt" and "hashes_ok ssl s"
  shows "txhash_get_pending_tx rt s sha = Some t \<longleftrightarrow>
    (\<exists>te \<in> set (st_txhash s). te_sha te = sha \<and> te_u te = Pending_tx t)"
proof -
  have d: "distinct (map te_sha (filter is_pending (st_txhash s)))" using assms(2) by (simp add: hashes_ok_def)
  have u: "te = te'" if "te \<in> set (st_txhash s)" "te' \<in> set (st_txhash s)" "is_pending te" "is_pending te'"
    "te_sha te = te_sha te'" for te te'
    using d that by (auto simp: distinct_map inj_on_def)
  show ?thesis
    using assms(1)
  proof (cases rule: get_pending_cases [where s = s and sha = sha])
    case (some t' te)
    then show ?thesis using u [of te] by (fastforce simp: is_pending_def)
  next
    case none
    then show ?thesis by (fastforce simp: is_pending_def)
  qed
qed

lemma add_pending_eq:
  "add_pending_tx_to_hashes rt s tx =
    do { sha \<leftarrow> hash_tx (rt_ssl rt) tx;
         c_assert (txhash_get_pending_tx rt s sha = None);
         s1 \<leftarrow> upgrade_tx_in_hashes rt s sha tx;
         Some (s1\<lparr>st_txhash := txhash_add_tx (st_txhash s1) (Pending_tx tx) 0 0 sha\<rparr>) }"
  by (simp add: add_pending_tx_to_hashes_def upgrade_tx_in_hashes_def Option.bind_assoc cong: if_cong)

lemma add_pending_state:
  assumes ok: "hashes_ok (rt_ssl rt) s" and tab: "tables_ok rt" and wf: "wf_tx tx"
    and sha: "hash_tx (rt_ssl rt) tx = Some sha" and new: "txhash_get_pending_tx rt s sha = None"
  obtains ih where "add_pending_tx_to_hashes rt s tx =
      Some (s\<lparr>st_inputhash := ih, st_txhash := txhash_add_tx (st_txhash s) (Pending_tx tx) 0 0 sha\<rparr>)"
    "set (st_inputhash s) \<subseteq> set ih" "inputs_recorded ih tx sha \<or> tx_collision (rt_ssl rt)"
  using record_inputs [OF ok tab wf sha] that sha new by (auto simp: add_pending_eq)

lemma add_pending_ok:
  assumes ok: "hashes_ok (rt_ssl rt) s" and tab: "tables_ok rt" and wf: "wf_tx tx"
    and sha: "hash_tx (rt_ssl rt) tx = Some sha" and new: "txhash_get_pending_tx rt s sha = None"
  shows "\<exists>s'. add_pending_tx_to_hashes rt s tx = Some s'
    \<and> (hashes_ok (rt_ssl rt) s' \<or> tx_collision (rt_ssl rt))
    \<and> txhash_get_pending_tx rt s' sha = Some tx \<and> st_heap s' = st_heap s
    \<and> (\<forall>h. h \<noteq> sha \<longrightarrow> (txhash_get_pending_tx rt s' h = None \<longleftrightarrow> txhash_get_pending_tx rt s h = None))"
proof -
  let ?te = "\<lparr>te_sha = sha, te_u = Pending_tx tx, te_shardnum = 0, te_txoff = 0\<rparr>"
  obtain ih where a: "add_pending_tx_to_hashes rt s tx =
      Some (s\<lparr>st_inputhash := ih, st_txhash := ?te # st_txhash s\<rparr>)"
    and ih: "set (st_inputhash s) \<subseteq> set ih" "inputs_recorded ih tx sha \<or> tx_collision (rt_ssl rt)"
    using add_pending_state [OF assms] unfolding txhash_add_tx_def by metis
  let ?s = "s\<lparr>st_inputhash := ih, st_txhash := ?te # st_txhash s\<rparr>"
  have np: "\<not> is_pending te" if "te \<in> set (st_txhash s)" "te_sha te = sha" for te
    using get_pending_None_iff [OF tab] new that by blast
  have "hashes_ok (rt_ssl rt) ?s" if "inputs_recorded ih tx sha"
  proof -
    have "elem_ok (rt_ssl rt) (st_heap s) ?te" using wf sha by (simp add: elem_ok_def)
    moreover have "te_tx (st_heap s) ?te = Some tx" by (simp add: te_tx_def)
    moreover have "sha \<notin> te_sha ` set (filter is_pending (st_txhash s))" using np by auto
    ultimately show ?thesis
      using ok that ih(1) inputs_recorded_mono [OF _ ih(1)]
      by (auto simp: hashes_ok_def is_pending_def)
  qed
  then have inv: "hashes_ok (rt_ssl rt) ?s \<or> tx_collision (rt_ssl rt)" using ih(2) by blast
  have pend: "txhash_get_pending_tx rt ?s sha = Some tx"
    using tab
  proof (cases rule: get_pending_cases [where s = ?s and sha = sha])
    case (some t te)
    then have "is_pending te" by (simp add: is_pending_def)
    then have "te = ?te" using some(2,3) np [of te] by auto
    then show ?thesis using some(1,4) by simp
  next
    case none
    from none(2) [of ?te] show ?thesis by (simp add: is_pending_def)
  qed
  have "txhash_get_pending_tx rt ?s h = None \<longleftrightarrow> txhash_get_pending_tx rt s h = None" if "h \<noteq> sha" for h
    using that by (auto simp: get_pending_None_iff [OF tab])
  then show ?thesis using a inv pend by auto
qed

text \<open>
  Adding a pending transaction to the tables does not crash, makes it the pending transaction
  with its hash, and keeps the invariant that every input of every known transaction is
  recorded in the input table (or two transactions have the same hash).
\<close>

theorem add_pending_keeps_tables:
  assumes ok: "hashes_ok (rt_ssl rt) s" and tab: "tables_ok rt" and wf: "wf_tx tx"
    and sha: "hash_tx (rt_ssl rt) tx = Some sha" and new: "txhash_get_pending_tx rt s sha = None"
  shows "\<exists>s'. add_pending_tx_to_hashes rt s tx = Some s'
    \<and> (hashes_ok (rt_ssl rt) s' \<or> tx_collision (rt_ssl rt))
    \<and> txhash_get_pending_tx rt s' sha = Some tx \<and> st_heap s' = st_heap s
    \<and> (\<forall>h. h \<noteq> sha \<longrightarrow> (txhash_get_pending_tx rt s' h = None \<longleftrightarrow> txhash_get_pending_tx rt s h = None))"
  using assms by (rule add_pending_ok)

subsection \<open>Removing a pending transaction\<close>

lemma same_tx_bytes_eq:
  assumes "wf_tx a" and "wf_tx b"
  shows "same_tx_bytes a b = Some (a = b)"
proof -
  obtain la where la: "marshal_tx_len a = Some la" "unat la = length (enc_tx a)"
    using marshal_tx_len_eq [of a] length_enc_tx [OF assms(1)] by auto
  obtain lb where lb: "marshal_tx_len b = Some lb" "unat lb = length (enc_tx b)"
    using marshal_tx_len_eq [of b] length_enc_tx [OF assms(2)] by auto
  have inj: "enc_tx a = enc_tx b \<longleftrightarrow> a = b"
    using cast_tx_enc [OF assms(1), of "[]"] cast_tx_enc [OF assms(2), of "[]"]
    by (metis append_Nil2 option.inject)
  show ?thesis
  proof (cases "la = lb")
    case True
    then have len: "length (enc_tx a) = length (enc_tx b)" using la(2) lb(2) by metis
    have "c_slice (enc_tx a) 0 (unat lb) = Some (enc_tx a)" "c_slice (enc_tx b) 0 (unat lb) = Some (enc_tx b)"
      unfolding lb(2) len [symmetric] using len by (simp_all add: c_slice_def)
    then show ?thesis
      using la(1) lb(1) True inj memcmp_eq_0 [OF len] by (simp add: same_tx_bytes_def del: c_slice_eq_Some)
  next
    case False
    then have "a \<noteq> b" using la lb by auto
    then show ?thesis using False la lb by (simp add: same_tx_bytes_def)
  qed
qed

lemma distinct_map_remove1: "distinct (map f xs) \<Longrightarrow> distinct (map f (remove1 x xs))"
proof (induction xs)
  case (Cons y ys)
  then show ?case using set_remove1_subset [of x ys] by (auto simp: image_iff)
qed simp

lemma del_loop_pending:
  assumes "\<forall>te \<in> set tes. elem_ok ssl h te" and "wf_tx tx"
  shows "del_tx_loop (Pending_tx tx) 0 0 tes = Some (find (\<lambda>te. te_u te = Pending_tx tx) tes)"
  using assms(1)
proof (induction tes)
  case (Cons te tes)
  then show ?case
    using assms(2)
    by (cases "te_u te") (auto simp: elem_ok_def same_tx_bytes_eq)
qed simp

lemma del_input_other:
  assumes "tables_ok rt"
  shows "e \<in> set ih \<Longrightarrow> ie_used_by e \<noteq> sha \<Longrightarrow> e \<in> set (del_input rt sha inp ih)"
    and "set (del_input rt sha inp ih) \<subseteq> set ih"
proof -
  show "e \<in> set (del_input rt sha inp ih)" if "e \<in> set ih" "ie_used_by e \<noteq> sha"
  proof (cases "find (\<lambda>ie. ie_used_by ie = sha) (inputhash_vals rt ih (in_input inp, in_output inp))")
    case (Some ie)
    then have "ie_used_by ie = sha" using intab.find_vals_Some [OF assms Some] by simp
    then have "e \<noteq> ie" using that(2) by auto
    with that(1) Some show ?thesis by (simp add: del_input_def in_set_remove1)
  qed (use that in \<open>simp add: del_input_def\<close>)
  show "set (del_input rt sha inp ih) \<subseteq> set ih"
    using set_remove1_subset by (fastforce simp: del_input_def split: option.splits)
qed

lemma del_inputs_eq:
  assumes "tables_ok rt" and "wf_tx tx" and "n \<le> unat (num_inputs tx)"
  shows "\<exists>ih'. del_inputs rt tx sha n ih = Some ih' \<and>
    (\<forall>e \<in> set ih. ie_used_by e \<noteq> sha \<longrightarrow> e \<in> set ih')"
  using assms(3)
proof (induction n)
  case (Suc n)
  then obtain ih' where "del_inputs rt tx sha n ih = Some ih'"
    "\<forall>e \<in> set ih. ie_used_by e \<noteq> sha \<longrightarrow> e \<in> set ih'" by auto
  then show ?case
    using Suc.prems assms(2) del_input_other(1) [OF assms(1)] by (auto simp: tx_input_eq)
qed simp

lemma remove_pending_ok:
  assumes ok: "hashes_ok (rt_ssl rt) s" and tab: "tables_ok rt" and wf: "wf_tx tx"
    and sha: "hash_tx (rt_ssl rt) tx = Some sha" and pend: "txhash_get_pending_tx rt s sha = Some tx"
  shows "\<exists>s'. remove_pending_tx_from_hashes rt s tx = Some s'
    \<and> hashes_ok (rt_ssl rt) s'
    \<and> txhash_get_pending_tx rt s' sha = None \<and> st_heap s' = st_heap s
    \<and> mset (st_txhash s) = add_mset \<lparr>te_sha = sha, te_u = Pending_tx tx, te_shardnum = 0, te_txoff = 0\<rparr> (mset (st_txhash s'))"
proof -
  let ?te = "\<lparr>te_sha = sha, te_u = Pending_tx tx, te_shardnum = 0, te_txoff = 0\<rparr>"
  have te: "te = ?te" if "te \<in> set (st_txhash s)" "te_sha te = sha" "te_u te = Pending_tx tx" for te
    using ok that by (auto simp: hashes_ok_def elem_ok_def)
  obtain te0 where "te0 \<in> set (st_txhash s)" "te_sha te0 = sha" "te_u te0 = Pending_tx tx"
    using get_pending_iff [OF tab ok] pend by blast
  then have mem: "?te \<in> set (st_txhash s)" using te by metis
  have sv: "set (txhash_vals rt (st_txhash s) sha) = {e \<in> set (st_txhash s). te_sha e = sha}"
    by (rule txtab.set_vals [OF tab])
  then have "del_tx_loop (Pending_tx tx) 0 0 (txhash_vals rt (st_txhash s) sha)
      = Some (find (\<lambda>te. te_u te = Pending_tx tx) (txhash_vals rt (st_txhash s) sha))"
    using ok wf by (intro del_loop_pending [where ssl = "rt_ssl rt" and h = "st_heap s"]) (auto simp: hashes_ok_def)
  moreover have "find (\<lambda>te. te_u te = Pending_tx tx) (txhash_vals rt (st_txhash s) sha) = Some ?te"
  proof (cases "find (\<lambda>te. te_u te = Pending_tx tx) (txhash_vals rt (st_txhash s) sha)")
    case None
    then show ?thesis using txtab.find_vals_None [OF tab] mem by fastforce
  next
    case (Some te')
    then show ?thesis using txtab.find_vals_Some [OF tab Some] te by auto
  qed
  ultimately have del: "txhash_del_tx rt (st_txhash s) (Pending_tx tx) 0 0 sha = Some (remove1 ?te (st_txhash s))"
    by (simp add: txhash_del_tx_def)
  let ?s1 = "s\<lparr>st_txhash := remove1 ?te (st_txhash s)\<rparr>"
  have sub: "te \<in> set (st_txhash s)" if "te \<in> set (remove1 ?te (st_txhash s))" for te
    using that set_remove1_subset by fastforce
  have ok1: "hashes_ok (rt_ssl rt) ?s1"
  proof -
    have "distinct (map te_sha (filter is_pending (remove1 ?te (st_txhash s))))"
      unfolding filter_remove1 by (rule distinct_map_remove1) (use ok in \<open>simp add: hashes_ok_def\<close>)
    then show ?thesis using ok sub by (auto simp: hashes_ok_def)
  qed
  have none: "txhash_get_pending_tx rt s' sha = None" if s': "st_txhash s' = remove1 ?te (st_txhash s)" for s'
    unfolding get_pending_None_iff [OF tab]
  proof (intro ballI impI notI)
    fix te assume te: "te \<in> set (st_txhash s')" "te_sha te = sha" "is_pending te"
    let ?P = "filter is_pending (st_txhash s)"
    have d: "distinct (map te_sha ?P)" using ok by (simp add: hashes_ok_def)
    have "te \<in> set (remove1 ?te ?P)" using te s' by (simp add: filter_remove1 [symmetric])
    moreover have "?te \<in> set ?P" using mem by (simp add: is_pending_def)
    ultimately show False
      using d te(2) inj_onD [of te_sha "set ?P" te ?te] by (simp add: distinct_map)
  qed
  have m: "mset (st_txhash s) = add_mset ?te (mset (remove1 ?te (st_txhash s)))"
    using mem by simp
  show ?thesis
    using ok1 tab
  proof (cases rule: hashes_gettx [where sha = sha])
    case known
    then have "remove_pending_tx_from_hashes rt s tx = Some ?s1"
      using sha del by (simp add: remove_pending_tx_from_hashes_def)
    then show ?thesis using ok1 none m by auto
  next
    case unknown
    obtain ih where ih: "del_inputs rt tx sha (unat (num_inputs tx)) (st_inputhash s) = Some ih"
      "\<forall>e \<in> set (st_inputhash s). ie_used_by e \<noteq> sha \<longrightarrow> e \<in> set ih"
      using del_inputs_eq [OF tab wf] by blast
    have r: "remove_pending_tx_from_hashes rt s tx = Some (?s1\<lparr>st_inputhash := ih\<rparr>)"
      using sha del unknown(1) ih(1) by (simp add: remove_pending_tx_from_hashes_def inputhash_del_tx_def)
    have "te_sha te \<noteq> sha" if "te \<in> set (st_txhash ?s1)" "te_tx (st_heap s) te = Some t" for te t
      using unknown(2) that by fastforce
    then have "hashes_ok (rt_ssl rt) (?s1\<lparr>st_inputhash := ih\<rparr>)"
      using ok1 ih(2) by (fastforce simp: hashes_ok_def inputs_recorded_def)
    then show ?thesis using r none m by auto
  qed
qed

text \<open>
  Removing a pending transaction from the tables does not crash, leaves no pending transaction
  with its hash, keeps all other elements, and keeps the invariant of the tables.
\<close>

theorem remove_pending_keeps_tables:
  assumes ok: "hashes_ok (rt_ssl rt) s" and tab: "tables_ok rt" and wf: "wf_tx tx"
    and sha: "hash_tx (rt_ssl rt) tx = Some sha" and pend: "txhash_get_pending_tx rt s sha = Some tx"
  shows "\<exists>s'. remove_pending_tx_from_hashes rt s tx = Some s'
    \<and> hashes_ok (rt_ssl rt) s'
    \<and> txhash_get_pending_tx rt s' sha = None \<and> st_heap s' = st_heap s
    \<and> mset (st_txhash s) = add_mset \<lparr>te_sha = sha, te_u = Pending_tx tx, te_shardnum = 0, te_txoff = 0\<rparr> (mset (st_txhash s'))"
  using assms by (rule remove_pending_ok)

subsection \<open>Examples\<close>

lemma tables_ok_model: "tables_ok model_runtime"
  by (simp add: tables_ok_def model_runtime_def)

definition ex_sha :: sha where
  \<comment> \<open>the hash of the example transaction\<close>
  "ex_sha = SHA256_Double_Final model_openssl (enc_tx ex_normal)"

lemma ex_hash: "hash_tx model_openssl ex_normal = Some ex_sha"
  using hash_tx_Some [OF ex_wf(2)] by (simp add: ex_sha_def)

definition ex_pending_state :: state where
  \<comment> \<open>the example transaction is pending, and its inputs are recorded\<close>
  "ex_pending_state = (ex_state 0)
     \<lparr>st_txhash := [\<lparr>te_sha = ex_sha, te_u = Pending_tx ex_normal, te_shardnum = 0, te_txoff = 0\<rparr>],
      st_inputhash := map (\<lambda>inp. \<lparr>ie_tx = in_input inp, ie_output_num = in_output inp, ie_used_by = ex_sha\<rparr>)
        (tx_inputs ex_normal)\<rparr>"

lemma ex_hashes_ok: "hashes_ok model_openssl (ex_state n)" "hashes_ok model_openssl ex_pending_state"
  by (auto simp: hashes_ok_def ex_state_def ex_pending_state_def elem_ok_def te_tx_def inputs_recorded_def
      ex_wf ex_hash)

theorem add_pending_witness:
  "\<exists>s'. add_pending_tx_to_hashes model_runtime (ex_state 0) ex_normal = Some s'
    \<and> txhash_get_pending_tx model_runtime s' ex_sha = Some ex_normal"
  using add_pending_keeps_tables [of model_runtime "ex_state 0" ex_normal ex_sha] ex_hashes_ok(1) [of 0]
    tables_ok_model ex_wf(2) ex_hash
  by (auto simp: model_runtime_def txhash_get_pending_tx_def txhash_vals_def ex_state_def)

theorem remove_pending_witness:
  "\<exists>s'. remove_pending_tx_from_hashes model_runtime ex_pending_state ex_normal = Some s'
    \<and> hashes_ok model_openssl s' \<and> txhash_get_pending_tx model_runtime s' ex_sha = None"
  using remove_pending_keeps_tables [of model_runtime ex_pending_state ex_normal ex_sha] ex_hashes_ok(2)
    tables_ok_model ex_wf(2) ex_hash get_pending_iff [OF tables_ok_model ex_hashes_ok(2)]
  by (auto simp: model_runtime_def ex_pending_state_def)

end
