(* ===== verification/Check_tx.thy ===== *)
theory Check_tx
  imports Hashes
begin

section \<open>Checking transactions\<close>

text \<open>
  \<^verbatim>\<open>check_tx.c\<close>, \<^verbatim>\<open>gateways.c\<close> and \<^verbatim>\<open>reward.c\<close>: whether a transaction is well formed and signed
  (\<open>check_tx\<close>), and whether its inputs exist, belong to the signer, are unspent and add up
  (\<open>check_tx_inputs\<close>).

  The results: \<open>check_tx\<close> decides the predicate \<open>tx_valid\<close>; \<open>tx_find_doublespend\<close> finds a spend of the
  same output on the chain whenever there is one; when \<open>check_tx_inputs\<close> accepts, no money is
  made and no 32-bit sum wraps. Claims are never accepted, and \<open>reward_get_tx\<close> runs into a NULL
  pointer for most blocks.
\<close>

subsection \<open>Error codes of the input checks\<close>

datatype input_ecode =
    ECODE_INPUT_OK | ECODE_INPUT_UNKNOWN | ECODE_INPUT_BAD | ECODE_INPUT_BAD_AMOUNT
  | ECODE_INPUT_DOUBLESPEND | ECODE_INPUT_CLAIM_BAD

fun input_code :: "input_ecode \<Rightarrow> nat" where
  \<comment> \<open>the values of the enumeration\<close>
  "input_code ECODE_INPUT_OK = 0"
| "input_code ECODE_INPUT_UNKNOWN = 1"
| "input_code ECODE_INPUT_BAD = 2"
| "input_code ECODE_INPUT_BAD_AMOUNT = 3"
| "input_code ECODE_INPUT_DOUBLESPEND = 4"
| "input_code ECODE_INPUT_CLAIM_BAD = 5"

subsection \<open>Stand-alone checks\<close>

definition accept_gateway :: "state \<Rightarrow> address \<Rightarrow> bool option" where
  "accept_gateway s addr = do { c_assert (st_test_net s); Some True }"

definition check_tx_with_inputs_wellformed ::
    "openssl \<Rightarrow> u8 \<Rightarrow> u32 \<Rightarrow> u32 \<Rightarrow> u32 \<Rightarrow> protocol_tx \<Rightarrow> pubkey \<Rightarrow> protocol_ecode option" where
  "check_tx_with_inputs_wellformed ssl version send_amount change_amount num_ins tx input_key =
     (if \<not> version_ok version then Some PROTOCOL_ECODE_TX_HIGH_VERSION
      else if send_amount > PROTOCOL_MAX_SATOSHI then Some PROTOCOL_ECODE_TX_TOO_LARGE
      else if change_amount > PROTOCOL_MAX_SATOSHI then Some PROTOCOL_ECODE_TX_TOO_LARGE
      else if send_amount + change_amount = 0 then Some PROTOCOL_ECODE_TX_TOO_SMALL
      else if num_ins > PROTOCOL_TX_MAX_INPUTS then Some PROTOCOL_ECODE_TX_TOO_MANY_INPUTS
      else if num_ins = 0 then Some PROTOCOL_ECODE_TX_TOO_MANY_INPUTS
      else do { ok \<leftarrow> check_tx_sign ssl tx input_key;
                Some (if \<not> ok then PROTOCOL_ECODE_TX_BAD_SIG else PROTOCOL_ECODE_NONE) })"

definition check_tx_normal_basic :: "openssl \<Rightarrow> protocol_tx_normal \<Rightarrow> protocol_ecode option" where
  "check_tx_normal_basic ssl t =
     check_tx_with_inputs_wellformed ssl (tx_version t) (n_send_amount t) (n_change_amount t)
       (n_num_inputs t) (Normal t) (n_input_key t)"

definition check_tx_to_gateway_basic :: "openssl \<Rightarrow> state \<Rightarrow> protocol_tx_to_gateway \<Rightarrow> protocol_ecode option" where
  "check_tx_to_gateway_basic ssl s t =
     do { e \<leftarrow> check_tx_with_inputs_wellformed ssl (tx_version t) (tg_send_amount t)
                (tg_change_amount t) (tg_num_inputs t) (To_gateway t) (tg_input_key t);
          if e = PROTOCOL_ECODE_NONE then do {
            ok \<leftarrow> accept_gateway s (tg_to_gateway_addr t);
            Some (if \<not> ok then PROTOCOL_ECODE_TX_BAD_GATEWAY else e) }
          else Some e }"

definition check_tx_claim :: "openssl \<Rightarrow> protocol_tx_claim \<Rightarrow> protocol_ecode option" where
  "check_tx_claim ssl t =
     (if \<not> version_ok (tx_version t) then Some PROTOCOL_ECODE_TX_HIGH_VERSION
      else if c_amount t > PROTOCOL_MAX_SATOSHI then Some PROTOCOL_ECODE_TX_TOO_LARGE
      else do { ok \<leftarrow> check_tx_sign ssl (Claim t) (c_input_key t);
                Some (if \<not> ok then PROTOCOL_ECODE_TX_BAD_SIG else PROTOCOL_ECODE_NONE) })"

fun check_outputs ::
    "u8 \<Rightarrow> u16 option \<Rightarrow> protocol_gateway_payment list \<Rightarrow> protocol_ecode option" where
  \<comment> \<open>the loop over the outputs; \<open>the_shard\<close> is set by the first one\<close>
  "check_outputs shard_ord the_shard [] = Some PROTOCOL_ECODE_NONE"
| "check_outputs shard_ord the_shard (out # outs) =
     do { sh \<leftarrow> shard_of (gp_output_addr out) shard_ord;
          if the_shard \<noteq> None \<and> the_shard \<noteq> Some sh then Some PROTOCOL_ECODE_TX_CROSS_SHARDS
          else if gp_send_amount out > PROTOCOL_MAX_SATOSHI then Some PROTOCOL_ECODE_TX_TOO_LARGE
          else if gp_send_amount out = 0 then Some PROTOCOL_ECODE_TX_TOO_SMALL
          else check_outputs shard_ord (Some sh) outs }"

definition check_tx_from_gateway ::
    "openssl \<Rightarrow> state \<Rightarrow> block option \<Rightarrow> protocol_tx_from_gateway \<Rightarrow> protocol_ecode option" where
  "check_tx_from_gateway ssl s blk t =
     (if \<not> version_ok (tx_version t) then Some PROTOCOL_ECODE_TX_HIGH_VERSION
      else do {
        ok \<leftarrow> accept_gateway s (pubkey_to_addr ssl (fg_gateway_key t));
        if \<not> ok then Some PROTOCOL_ECODE_TX_BAD_GATEWAY
        else do {
          outs \<leftarrow> c_slice (get_from_gateway_outputs t) 0 (unat (fg_num_outputs t));
          let shard_ord = (case blk of None \<Rightarrow> next_shard_order | Some b \<Rightarrow> bh_shard_order (b_hdr b));
          e \<leftarrow> check_outputs shard_ord None outs;
          if e \<noteq> PROTOCOL_ECODE_NONE then Some e
          else do {
            sig \<leftarrow> check_tx_sign ssl (From_gateway t) (fg_gateway_key t);
            Some (if \<not> sig then PROTOCOL_ECODE_TX_BAD_SIG else PROTOCOL_ECODE_NONE) } } })"

fun check_tx :: "openssl \<Rightarrow> state \<Rightarrow> protocol_tx \<Rightarrow> block option \<Rightarrow> protocol_ecode option" where
  "check_tx ssl s (From_gateway t) inside_block = check_tx_from_gateway ssl s inside_block t"
| "check_tx ssl s (Normal t) inside_block = check_tx_normal_basic ssl t"
| "check_tx ssl s (To_gateway t) inside_block = check_tx_to_gateway_basic ssl s t"
| "check_tx ssl s (Claim t) inside_block = check_tx_claim ssl t"

subsection \<open>Double spends\<close>

definition same_elem :: "txhash_elem option \<Rightarrow> txhash_elem \<Rightarrow> bool" where
  \<comment> \<open>are we supposed to ignore this one?\<close>
  "same_elem me te =
     (case me of None \<Rightarrow> False
      | Some m \<Rightarrow> te_u m = te_u te \<and> te_shardnum m = te_shardnum te \<and> te_txoff m = te_txoff te)"

fun doublespend_elems :: "heap \<Rightarrow> bptr \<Rightarrow> txhash_elem option \<Rightarrow> txhash_elem list \<Rightarrow> txhash_elem option option" where
  \<comment> \<open>the inner loop of \<open>tx_find_doublespend\<close>\<close>
  "doublespend_elems h block me [] = Some None"
| "doublespend_elems h block me (te # tes) =
     (case te_u te of
        Pending_tx _ \<Rightarrow> doublespend_elems h block me tes
      | In_block b \<Rightarrow>
          if same_elem me te then doublespend_elems h block me tes
          else do {
            bb \<leftarrow> h b;
            sh \<leftarrow> c_nth (b_shard bb) (unat (te_shardnum te));
            istx \<leftarrow> shard_is_tx sh (te_txoff te);
            if \<not> istx then doublespend_elems h block me tes
            else do {
              before \<leftarrow> block_preceeds h b block;
              rel \<leftarrow> (if before then Some True else block_preceeds h block b);
              if rel then Some (Some te) else doublespend_elems h block me tes } })"

fun doublespend_inputs ::
    "runtime \<Rightarrow> state \<Rightarrow> bptr \<Rightarrow> txhash_elem option \<Rightarrow> inputhash_elem list \<Rightarrow> txhash_elem option option" where
  "doublespend_inputs rt s block me [] = Some None"
| "doublespend_inputs rt s block me (ie # ies) =
     do { r \<leftarrow> doublespend_elems (st_heap s) block me (txhash_vals rt (st_txhash s) (ie_used_by ie));
          (case r of Some te \<Rightarrow> Some (Some te) | None \<Rightarrow> doublespend_inputs rt s block me ies) }"

definition tx_find_doublespend ::
    "runtime \<Rightarrow> state \<Rightarrow> bptr \<Rightarrow> txhash_elem option \<Rightarrow> protocol_input \<Rightarrow> txhash_elem option option" where
  "tx_find_doublespend rt s block me inp =
     doublespend_inputs rt s block me (inputhash_vals rt (st_inputhash s) (in_input inp, in_output inp))"

subsection \<open>Rewards (reward.c)\<close>

fun shard_and_off :: "bytes \<Rightarrow> nat \<Rightarrow> nat \<Rightarrow> nat \<Rightarrow> (u16 \<times> u8) option" where
  \<comment> \<open>the loop of \<open>get_shard_and_off\<close>: shards \<open>i\<close>, \<open>i + 1\<close>, ... with \<open>k\<close> of them left\<close>
  "shard_and_off nums i 0 n = c_abort"
| "shard_and_off nums i (Suc k) n =
     do { m \<leftarrow> c_nth nums i;
          if n < unat m then Some (word_of_nat i, word_of_nat n)
          else shard_and_off nums (Suc i) k (n - unat m) }"

definition get_shard_and_off :: "block \<Rightarrow> u32 \<Rightarrow> (u16 \<times> u8) option" where
  "get_shard_and_off b n = shard_and_off (b_shard_nums b) 0 (unat (num_shards (b_hdr b))) (unat n)"

definition num_txs :: "block \<Rightarrow> u32 option" where
  \<comment> \<open>the total is computed, and the number of shards returned\<close>
  "num_txs b =
     do { nums \<leftarrow> c_slice (b_shard_nums b) 0 (unat (num_shards (b_hdr b)));
          let tot = sum_list (map (\<lambda>n. ucast n :: u32) nums);
          Some (num_shards (b_hdr b)) }"

definition reward_get_tx :: "openssl \<Rightarrow> heap \<Rightarrow> bptr \<Rightarrow> bptr \<Rightarrow> (u16 \<times> u8) option option" where
  \<comment> \<open>\<open>Some None\<close> is \<open>false\<close>\<close>
  "reward_get_tx ssl h reward_block claim_block =
     do { rb \<leftarrow> h reward_block;
          e \<leftarrow> block_empty rb;
          if e then Some None
          else do {
            p \<leftarrow> block_preceeds h reward_block claim_block;
            if \<not> p then Some None
            else do {
              let period = (word_of_nat PROTOCOL_REWARD_PERIOD :: u32);
              let reward_end = (bh_depth (b_hdr rb) + period - 1) div period * period;
              cb \<leftarrow> h claim_block;
              if bh_depth (b_hdr cb) \<le> reward_end then Some None
              else do {
                decider \<leftarrow> block_ancestor h (Some claim_block) (unat (bh_depth (b_hdr rb) - reward_end));
                dp \<leftarrow> decider;
                db \<leftarrow> h dp;
                let sha = merkle_two_hashes ssl (b_sha rb) (b_sha db);
                val \<leftarrow> BN_bin2bn ssl sha;
                n \<leftarrow> num_txs rb;
                let tx = (word_of_nat (BN_mod_word ssl val (unat n)) :: u32);
                r \<leftarrow> get_shard_and_off rb tx;
                Some (Some r) } } } }"

definition reward_amount :: "block \<Rightarrow> protocol_tx \<Rightarrow> u32 option" where
  "reward_amount b tx =
     (if \<not> tx_pays_fee tx then Some 0
      else do { sent \<leftarrow> tx_amount_sent tx; n \<leftarrow> num_txs b; Some (ucast (PROTOCOL_REWARD sent n)) })"

subsection \<open>Inputs\<close>

definition check_simple_input ::
    "openssl \<Rightarrow> protocol_input \<Rightarrow> protocol_tx \<Rightarrow> address \<Rightarrow> (input_ecode \<times> u32) option" where
  "check_simple_input ssl inp intx my_addr =
     do { r \<leftarrow> find_output ssl intx (in_output inp);
          Some (case r of
              None \<Rightarrow> (ECODE_INPUT_BAD, 0)
            | Some (addr, amount) \<Rightarrow>
                if my_addr \<noteq> addr then (ECODE_INPUT_BAD, amount) else (ECODE_INPUT_OK, amount)) }"

text \<open>
  \<open>check_claim_input\<close> is declared to return \<open>bool\<close>; its last statement returns
  \<open>ECODE_INPUT_OK\<close>, which converts to whether its value is not zero.
\<close>

definition check_claim_input ::
    "openssl \<Rightarrow> heap \<Rightarrow> bptr \<Rightarrow> protocol_input \<Rightarrow> bptr \<Rightarrow> u16 \<Rightarrow> u8 \<Rightarrow> protocol_tx \<Rightarrow> address
     \<Rightarrow> (bool \<times> u32) option" where
  "check_claim_input ssl h claim_block claim_inp reward_block reward_shard reward_txoff reward_tx my_addr =
     (if ucast (in_output claim_inp) \<noteq> num_outputs reward_tx + 1 then Some (False, 0)
      else do {
        r \<leftarrow> reward_get_tx ssl h reward_block claim_block;
        (case r of
           None \<Rightarrow> Some (False, 0)
         | Some (shardnum, txoff) \<Rightarrow>
             if reward_shard \<noteq> shardnum \<or> reward_txoff \<noteq> txoff then Some (False, 0)
             else do {
               rb \<leftarrow> h reward_block;
               if my_addr \<noteq> bh_fees_to (b_hdr rb) then Some (False, 0)
               else do {
                 amount \<leftarrow> reward_amount rb reward_tx;
                 Some (input_code ECODE_INPUT_OK \<noteq> 0, amount) } }) })"

definition check_one_input ::
    "runtime \<Rightarrow> state \<Rightarrow> bptr \<Rightarrow> txhash_elem option \<Rightarrow> protocol_input \<Rightarrow> address \<Rightarrow> bool
     \<Rightarrow> (input_ecode \<times> u32) option" where
  "check_one_input rt s block me inp my_addr is_claim =
     do { r \<leftarrow> txhash_gettx_ancestor rt s (in_input inp) block;
          (case r of
             None \<Rightarrow> Some (ECODE_INPUT_UNKNOWN, 0)
           | Some te \<Rightarrow> (case te_u te of
               Pending_tx _ \<Rightarrow> None
             | In_block b \<Rightarrow> do {
                 bb \<leftarrow> st_heap s b;
                 t \<leftarrow> block_get_tx bb (te_shardnum te) (te_txoff te);
                 (case t of
                    None \<Rightarrow> Some (ECODE_INPUT_UNKNOWN, 0)
                  | Some intx \<Rightarrow> do {
                      (e, amount) \<leftarrow>
                        (if is_claim then do {
                           (ok, a) \<leftarrow> check_claim_input (rt_ssl rt) (st_heap s) block inp b
                                       (te_shardnum te) (te_txoff te) intx my_addr;
                           Some (if \<not> ok then ECODE_INPUT_CLAIM_BAD else ECODE_INPUT_OK, a) }
                         else check_simple_input (rt_ssl rt) inp intx my_addr);
                      if e \<noteq> ECODE_INPUT_OK then Some (e, amount)
                      else do {
                        d \<leftarrow> tx_find_doublespend rt s block me inp;
                        Some (if d \<noteq> None then (ECODE_INPUT_DOUBLESPEND, amount)
                              else (ECODE_INPUT_OK, amount)) } }) })) }"

definition correct_amount :: "protocol_tx \<Rightarrow> u32 \<Rightarrow> bool option" where
  "correct_amount tx tot =
     do { sent \<leftarrow> tx_amount_sent tx;
          let fee = (if tx_pays_fee tx then PROTOCOL_FEE sent else 0);
          Some (tot = sent + fee) }"

text \<open>
  The loop over the inputs: \<open>Inl\<close> is the early return with the input that is bad, \<open>Inr\<close> the
  number of known inputs, their total and what was last stored in \<open>bad_input_num\<close>.
\<close>

fun check_inputs_loop ::
    "runtime \<Rightarrow> state \<Rightarrow> bptr \<Rightarrow> txhash_elem option \<Rightarrow> address \<Rightarrow> bool \<Rightarrow> protocol_tx \<Rightarrow> nat
     \<Rightarrow> (nat + nat \<times> u32 \<times> nat option) option" where
  "check_inputs_loop rt s block me my_addr is_claim tx 0 = Some (Inr (0, 0, None))"
| "check_inputs_loop rt s block me my_addr is_claim tx (Suc i) =
     do { r \<leftarrow> check_inputs_loop rt s block me my_addr is_claim tx i;
          (case r of
             Inl bad \<Rightarrow> Some (Inl bad)
           | Inr (known, tot, bad) \<Rightarrow> do {
               inp \<leftarrow> tx_input tx i;
               (e, amount) \<leftarrow> check_one_input rt s block me inp my_addr is_claim;
               Some (if e = ECODE_INPUT_UNKNOWN then Inr (known, tot, Some i)
                     else if e \<noteq> ECODE_INPUT_OK then Inl i
                     else Inr (Suc known, tot + amount, bad)) }) }"

definition check_tx_inputs ::
    "runtime \<Rightarrow> state \<Rightarrow> bptr \<Rightarrow> txhash_elem option \<Rightarrow> protocol_tx \<Rightarrow> (input_ecode \<times> nat option) option" where
  "check_tx_inputs rt s block me tx =
     (if tx_type tx = TX_FROM_GATEWAY then Some (ECODE_INPUT_OK, None)
      else do {
        my_addr \<leftarrow> get_tx_input_address (rt_ssl rt) tx;
        r \<leftarrow> check_inputs_loop rt s block me my_addr (tx_type tx = TX_CLAIM) tx (unat (num_inputs tx));
        (case r of
           Inl bad \<Rightarrow> Some (ECODE_INPUT_BAD, Some bad)
         | Inr (known, input_total, bad) \<Rightarrow>
             if known \<noteq> unat (num_inputs tx) then Some (ECODE_INPUT_UNKNOWN, bad)
             else do {
               ok \<leftarrow> correct_amount tx input_total;
               Some (if \<not> ok then
                       (if tx_type tx = TX_CLAIM then ECODE_INPUT_CLAIM_BAD else ECODE_INPUT_BAD_AMOUNT, bad)
                     else (ECODE_INPUT_OK, bad)) }) })"

subsection \<open>What check_tx decides\<close>

fun signer :: "protocol_tx \<Rightarrow> pubkey" where
  "signer (Normal t) = n_input_key t"
| "signer (From_gateway t) = fg_gateway_key t"
| "signer (To_gateway t) = tg_input_key t"
| "signer (Claim t) = c_input_key t"

definition amounts_valid :: "u32 \<Rightarrow> u32 \<Rightarrow> u32 \<Rightarrow> bool" where
  "amounts_valid send change num \<longleftrightarrow>
     unat send \<le> 2 ^ 29 \<and> unat change \<le> 2 ^ 29 \<and> 0 < unat send + unat change
     \<and> 1 \<le> unat num \<and> unat num \<le> 4"

definition payments_valid :: "u8 \<Rightarrow> protocol_gateway_payment list \<Rightarrow> bool" where
  "payments_valid ord outs \<longleftrightarrow>
     (\<forall>p \<in> set outs. 0 < unat (gp_send_amount p) \<and> unat (gp_send_amount p) \<le> 2 ^ 29)
     \<and> (\<forall>p \<in> set outs. \<forall>q \<in> set outs. shard_of (gp_output_addr p) ord = shard_of (gp_output_addr q) ord)"

definition tx_valid :: "openssl \<Rightarrow> u8 \<Rightarrow> protocol_tx \<Rightarrow> bool" where
  \<comment> \<open>the specification of \<open>check_tx\<close>\<close>
  "tx_valid ssl ord tx \<longleftrightarrow>
     hdr_version tx = 1
     \<and> (case tx of
          Normal t \<Rightarrow> amounts_valid (n_send_amount t) (n_change_amount t) (n_num_inputs t)
        | To_gateway t \<Rightarrow> amounts_valid (tg_send_amount t) (tg_change_amount t) (tg_num_inputs t)
        | From_gateway t \<Rightarrow> payments_valid ord (fg_outputs t)
        | Claim t \<Rightarrow> unat (c_amount t) \<le> 2 ^ 29)
     \<and> check_tx_sign ssl tx (signer tx) = Some True"

lemma wf_get_signature: "wf_tx tx \<Longrightarrow> wf_signature (get_signature tx)"
  by (cases tx) auto

lemma check_tx_sign_total: "wf_tx tx \<Longrightarrow> \<exists>b. check_tx_sign ssl tx key = Some b"
  using sighash_set_signature(2) [OF _ wf_get_signature, of tx tx ssl] wf_get_signature [of tx]
  by (auto simp: check_tx_sign_def Let_def wf_signature_def split: option.splits)

lemma max_satoshi: "PROTOCOL_MAX_SATOSHI < x \<longleftrightarrow> 536870912 < unat x"
  by (simp add: c_simps word_less_nat_alt)

lemma sum_no_wrap:
  assumes "unat (a :: u32) \<le> 2 ^ 29" and "unat (b :: u32) \<le> 2 ^ 29"
  shows "unat (a + b) = unat a + unat b"
  using assms by (simp add: unat_word_ariths)

lemma wellformed_check_eq:
  assumes "wf_tx tx"
  shows "\<exists>e. check_tx_with_inputs_wellformed ssl v send change num tx key = Some e \<and>
    (e = PROTOCOL_ECODE_NONE \<longleftrightarrow>
       v = 1 \<and> amounts_valid send change num \<and> check_tx_sign ssl tx key = Some True)"
proof -
  obtain ok where ok: "check_tx_sign ssl tx key = Some ok" using check_tx_sign_total [OF assms] by blast
  have num: "num > PROTOCOL_TX_MAX_INPUTS \<longleftrightarrow> 4 < unat num" "num = 0 \<longleftrightarrow> unat num = 0"
    by (simp_all add: c_simps word_less_nat_alt unat_eq_0)
  have sum: "send + change = 0 \<longleftrightarrow> unat send + unat change = 0"
    if "unat send \<le> 2 ^ 29" "unat change \<le> 2 ^ 29"
    using sum_no_wrap [OF that] by (simp only: unat_eq_0 [symmetric])
  show ?thesis
    using ok num sum
    by (auto simp: check_tx_with_inputs_wellformed_def amounts_valid_def version_ok_def current_version_def
        max_satoshi not_less)
qed

lemma check_outputs_eq:
  assumes "list_all wf_payment outs" and "unat ord \<le> 16"
  shows "\<exists>e. check_outputs ord first outs = Some e \<and>
    (e = PROTOCOL_ECODE_NONE \<longleftrightarrow> payments_valid ord outs
       \<and> (\<forall>sh. first = Some sh \<longrightarrow> (\<forall>p \<in> set outs. shard_of (gp_output_addr p) ord = Some sh)))"
  using assms(1)
proof (induction outs arbitrary: first)
  case (Cons p outs)
  obtain sh where sh: "shard_of (gp_output_addr p) ord = Some sh"
    using Cons.prems assms(2) by (simp add: shard_of_def wf_payment_def c_slice_def)
  obtain e where e: "check_outputs ord (Some sh) outs = Some e"
    "e = PROTOCOL_ECODE_NONE \<longleftrightarrow> payments_valid ord outs
       \<and> (\<forall>q \<in> set outs. shard_of (gp_output_addr q) ord = Some sh)"
    using Cons.IH [of "Some sh"] Cons.prems by auto
  have z: "gp_send_amount p = 0 \<longleftrightarrow> unat (gp_send_amount p) = 0" by (simp add: unat_eq_0)
  have pv: "payments_valid ord (p # outs) \<longleftrightarrow>
    0 < unat (gp_send_amount p) \<and> unat (gp_send_amount p) \<le> 2 ^ 29 \<and> payments_valid ord outs
    \<and> (\<forall>q \<in> set outs. shard_of (gp_output_addr q) ord = Some sh)"
    using sh unfolding payments_valid_def by auto (metis+)?
  show ?case
    using sh e z by (auto simp: pv max_satoshi not_less)
qed (simp add: payments_valid_def)

lemma check_tx_eq:
  assumes "st_test_net s" and "wf_tx tx"
    and "ord = (case blk of None \<Rightarrow> next_shard_order | Some b \<Rightarrow> bh_shard_order (b_hdr b))"
    and "unat ord \<le> 16"
  shows "\<exists>e. check_tx ssl s tx blk = Some e \<and> (e = PROTOCOL_ECODE_NONE \<longleftrightarrow> tx_valid ssl ord tx)"
proof (cases tx)
  case (Normal t)
  then show ?thesis
    using wellformed_check_eq [OF assms(2)] by (simp add: check_tx_normal_basic_def tx_valid_def)
next
  case (To_gateway t)
  then show ?thesis
    using wellformed_check_eq [OF assms(2), of ssl "tx_version t" "tg_send_amount t" "tg_change_amount t"
        "tg_num_inputs t" "tg_input_key t"] assms(1)
    by (auto simp: check_tx_to_gateway_basic_def tx_valid_def accept_gateway_def)
next
  case (Claim t)
  obtain ok where "check_tx_sign ssl tx (c_input_key t) = Some ok"
    using check_tx_sign_total [OF assms(2)] by blast
  then show ?thesis
    using Claim
    by (auto simp: check_tx_claim_def tx_valid_def version_ok_def current_version_def
        not_less max_satoshi)
next
  case (From_gateway t)
  obtain ok where ok: "check_tx_sign ssl tx (fg_gateway_key t) = Some ok"
    using check_tx_sign_total [OF assms(2)] by blast
  have wf: "list_all wf_payment (fg_outputs t)" "length (fg_outputs t) = unat (fg_num_outputs t)"
    using assms(2) From_gateway by simp_all
  obtain e where "check_outputs ord None (fg_outputs t) = Some e"
    "e = PROTOCOL_ECODE_NONE \<longleftrightarrow> payments_valid ord (fg_outputs t)"
    using check_outputs_eq [OF wf(1) assms(4), of None] by auto
  then show ?thesis
    using From_gateway ok assms(1,3) wf(2)
    by (auto simp: check_tx_from_gateway_def tx_valid_def accept_gateway_def get_from_gateway_outputs_def
        c_slice_def version_ok_def current_version_def)
qed

text \<open>
  C1. On the test network \<open>check_tx\<close> always returns, and it returns no error exactly for valid
  transactions: current version, one to four inputs, amounts that are not all zero and of
  which four together cannot wrap, gateway payments to one shard, and a good signature.
\<close>

theorem check_tx_correct:
  assumes "st_test_net s" and "wf_tx tx"
    and "ord = (case blk of None \<Rightarrow> next_shard_order | Some b \<Rightarrow> bh_shard_order (b_hdr b))"
    and "unat ord \<le> 16"
  shows "\<exists>e. check_tx ssl s tx blk = Some e \<and> (e = PROTOCOL_ECODE_NONE \<longleftrightarrow> tx_valid ssl ord tx)"
  using assms by (rule check_tx_eq)

subsection \<open>Double spends are found\<close>

definition spends :: "protocol_tx \<Rightarrow> protocol_input \<Rightarrow> bool" where
  "spends t inp \<longleftrightarrow> (\<exists>i \<in> set (tx_inputs t). in_input i = in_input inp \<and> in_output i = in_output inp)"

definition conflict :: "heap \<Rightarrow> bptr \<Rightarrow> txhash_elem option \<Rightarrow> txhash_elem \<Rightarrow> bool" where
  \<comment> \<open>a known transaction in a block before or after \<open>block\<close> on one chain, other than \<open>me\<close>\<close>
  "conflict h block me te \<longleftrightarrow>
     (\<exists>b. te_u te = In_block b \<and> (ancestor h b block \<or> ancestor h block b))
     \<and> \<not> same_elem me te \<and> te_tx h te \<noteq> None"

lemma elem_in_block:
  assumes "elem_ok ssl h te" and "te_u te = In_block b"
  obtains bb slot where "h b = Some bb" "c_nth (b_shard bb) (unat (te_shardnum te)) = Some (b_shard bb ! unat (te_shardnum te))"
    "te_slot h b te = Some slot" "shard_is_tx (b_shard bb ! unat (te_shardnum te)) (te_txoff te) = Some (te_tx h te \<noteq> None)"
    "block_get_tx bb (te_shardnum te) (te_txoff te) = Some (te_tx h te)"
    "txrefhash_in_shard ssl (b_shard bb ! unat (te_shardnum te)) (te_txoff te) =
       (case slot of Txp None \<Rightarrow> Some None | Txp (Some (t, rs)) \<Rightarrow> map_option Some (hash_tx_and_refs ssl t rs)
        | Hash x \<Rightarrow> Some (Some x))"
proof -
  from assms obtain bb where bb: "h b = Some bb" "unat (te_shardnum te) < length (b_shard bb)"
    "unat (te_shardnum te) < unat (num_shards (b_hdr bb))"
    "te_txoff te < bs_size (b_shard bb ! unat (te_shardnum te))"
    "unat (te_txoff te) < length (bs_u (b_shard bb ! unat (te_shardnum te)))"
    by (auto simp: elem_ok_def pos_ok_def word_less_nat_alt)
  let ?slot = "bs_u (b_shard bb ! unat (te_shardnum te)) ! unat (te_txoff te)"
  have sl: "te_slot h b te = Some ?slot" using bb by (simp add: te_slot_def)
  have e: "case ?slot of Txp (Some (t, _)) \<Rightarrow> wf_tx t \<and> hash_tx ssl t = Some (te_sha te)
      | Hash x \<Rightarrow> trh_txhash x = te_sha te | _ \<Rightarrow> False"
    using assms sl by (simp add: elem_ok_def split: txslot.splits option.splits)
  show thesis
    by (rule that [OF bb(1) _ sl])
      (use bb e assms(2) sl in \<open>auto simp: shard_is_tx_def te_tx_def block_get_tx_def block_slot_def
         txrefhash_in_shard_def split: txslot.splits option.splits\<close>)
qed

lemma doublespend_elems_eq:
  assumes "heap_ok h" and "h block = Some cb" and "\<forall>te \<in> set tes. elem_ok ssl h te"
  shows "\<exists>r. doublespend_elems h block me tes = Some r \<and>
    (case r of Some te \<Rightarrow> te \<in> set tes \<and> conflict h block me te
     | None \<Rightarrow> \<forall>te \<in> set tes. \<not> conflict h block me te)"
  using assms(3)
proof (induction tes)
  case (Cons te tes)
  then obtain r where r: "doublespend_elems h block me tes = Some r"
    "case r of Some te \<Rightarrow> te \<in> set tes \<and> conflict h block me te
     | None \<Rightarrow> \<forall>te \<in> set tes. \<not> conflict h block me te" by auto
  have skip: ?case if "doublespend_elems h block me (te # tes) = Some r" "\<not> conflict h block me te"
    using that r by (auto split: option.splits)
  show ?case
  proof (cases "te_u te")
    case (Pending_tx t)
    then show ?thesis using skip r by (simp add: conflict_def)
  next
    case (In_block b)
    have "elem_ok ssl h te" using Cons.prems by simp
    then obtain bb where bb: "h b = Some bb"
      "c_nth (b_shard bb) (unat (te_shardnum te)) = Some (b_shard bb ! unat (te_shardnum te))"
      "shard_is_tx (b_shard bb ! unat (te_shardnum te)) (te_txoff te) = Some (te_tx h te \<noteq> None)"
      using In_block by (rule elem_in_block)
    have p: "block_preceeds h b block = Some (ancestor h b block)"
      "block_preceeds h block b = Some (ancestor h block b)"
      using block_preceeds_eq [OF assms(1)] bb(1) assms(2) by blast+
    show ?thesis
    proof (cases "conflict h block me te")
      case True
      then have "doublespend_elems h block me (te # tes) = Some (Some te)"
        using In_block bb p by (auto simp: conflict_def)
      then show ?thesis using True by auto
    next
      case False
      then have "doublespend_elems h block me (te # tes) = Some r"
        using In_block bb p r(1) by (auto simp: conflict_def)
      then show ?thesis using False skip by blast
    qed
  qed
qed simp

lemma doublespend_inputs_eq:
  assumes "heap_ok (st_heap s)" and "st_heap s block = Some cb" and "hashes_ok ssl s" and "tables_ok rt"
  shows "\<exists>r. doublespend_inputs rt s block me ies = Some r \<and>
    (case r of
       Some te \<Rightarrow> te \<in> set (st_txhash s) \<and> conflict (st_heap s) block me te \<and> (\<exists>ie \<in> set ies. te_sha te = ie_used_by ie)
     | None \<Rightarrow> \<forall>ie \<in> set ies. \<forall>te \<in> set (st_txhash s). te_sha te = ie_used_by ie \<longrightarrow> \<not> conflict (st_heap s) block me te)"
proof (induction ies)
  case (Cons ie ies)
  let ?vals = "txhash_vals rt (st_txhash s) (ie_used_by ie)"
  have sv: "set ?vals = {e \<in> set (st_txhash s). te_sha e = ie_used_by ie}"
    by (rule txtab.set_vals [OF assms(4)])
  then have "\<forall>te \<in> set ?vals. elem_ok ssl (st_heap s) te" using assms(3) by (simp add: hashes_ok_def)
  from doublespend_elems_eq [OF assms(1,2) this, of me]
  obtain r where "doublespend_elems (st_heap s) block me ?vals = Some r"
    "case r of Some te \<Rightarrow> te \<in> set ?vals \<and> conflict (st_heap s) block me te
     | None \<Rightarrow> \<forall>te \<in> set ?vals. \<not> conflict (st_heap s) block me te" by blast
  with Cons sv show ?case by (auto split: option.splits)
qed simp

lemma find_doublespend_eq:
  assumes "heap_ok (st_heap s)" and "st_heap s block = Some cb" and "hashes_ok ssl s" and "tables_ok rt"
  shows "\<exists>r. tx_find_doublespend rt s block me inp = Some r \<and>
    (case r of
       Some te \<Rightarrow> te \<in> set (st_txhash s) \<and> conflict (st_heap s) block me te
         \<and> \<lparr>ie_tx = in_input inp, ie_output_num = in_output inp, ie_used_by = te_sha te\<rparr> \<in> set (st_inputhash s)
     | None \<Rightarrow> \<forall>te \<in> set (st_txhash s). \<forall>t. conflict (st_heap s) block me te \<longrightarrow>
         te_tx (st_heap s) te = Some t \<longrightarrow> \<not> spends t inp)"
proof -
  let ?vals = "inputhash_vals rt (st_inputhash s) (in_input inp, in_output inp)"
  have sv: "set ?vals = {e \<in> set (st_inputhash s). (ie_tx e, ie_output_num e) = (in_input inp, in_output inp)}"
    by (rule intab.set_vals [OF assms(4)])
  have key: "\<lparr>ie_tx = in_input inp, ie_output_num = in_output inp, ie_used_by = te_sha te\<rparr> \<in> set ?vals"
    if "te \<in> set (st_txhash s)" "te_tx (st_heap s) te = Some t" "spends t inp" for te t
    using assms(3) that by (fastforce simp: sv hashes_ok_def inputs_recorded_def spends_def)
  obtain r where r: "tx_find_doublespend rt s block me inp = Some r"
    "case r of
       Some te \<Rightarrow> te \<in> set (st_txhash s) \<and> conflict (st_heap s) block me te \<and> (\<exists>ie \<in> set ?vals. te_sha te = ie_used_by ie)
     | None \<Rightarrow> \<forall>ie \<in> set ?vals. \<forall>te \<in> set (st_txhash s). te_sha te = ie_used_by ie \<longrightarrow> \<not> conflict (st_heap s) block me te"
    using doublespend_inputs_eq [OF assms, of me ?vals] unfolding tx_find_doublespend_def by blast
  show ?thesis
  proof (cases r)
    case None
    with r(2) key show ?thesis by (intro exI [of _ r] conjI r(1)) fastforce
  next
    case (Some te)
    then obtain ie where "ie \<in> set (st_inputhash s)" "ie_tx ie = in_input inp"
      "ie_output_num ie = in_output inp" "ie_used_by ie = te_sha te"
      using r(2) by (auto simp: sv)
    then have "\<lparr>ie_tx = in_input inp, ie_output_num = in_output inp, ie_used_by = te_sha te\<rparr> \<in> set (st_inputhash s)"
      by (metis (full_types) inputhash_elem.surjective old.unit.exhaust)
    then show ?thesis using Some r by auto
  qed
qed


subsection \<open>Accepted inputs\<close>

lemma gettx_ancestor_eq:
  assumes "heap_ok (st_heap s)" and "st_heap s block = Some cb" and "hashes_ok ssl s" and "tables_ok rt"
  shows "\<exists>r. txhash_gettx_ancestor rt s sha block = Some r \<and>
    (case r of
       Some te \<Rightarrow> te \<in> set (st_txhash s) \<and> te_sha te = sha
         \<and> (\<exists>b. te_u te = In_block b \<and> ancestor (st_heap s) b block)
     | None \<Rightarrow> \<forall>te \<in> set (st_txhash s). \<forall>b. te_sha te = sha \<longrightarrow> te_u te = In_block b \<longrightarrow>
         \<not> ancestor (st_heap s) b block)"
proof -
  let ?h = "st_heap s"
  have loop: "\<exists>r. ancestor_loop ?h block tes = Some r \<and>
    (case r of Some te \<Rightarrow> te \<in> set tes \<and> (\<exists>b. te_u te = In_block b \<and> ancestor ?h b block)
     | None \<Rightarrow> \<forall>te \<in> set tes. \<forall>b. te_u te = In_block b \<longrightarrow> \<not> ancestor ?h b block)"
    if "\<forall>te \<in> set tes. elem_ok ssl ?h te" for tes
    using that
  proof (induction tes)
    case (Cons te tes)
    show ?case
    proof (cases "te_u te")
      case (In_block b)
      then obtain bb where "?h b = Some bb" using Cons.prems by (auto elim: elem_in_block)
      from block_preceeds_eq [OF assms(1) this assms(2)] In_block Cons show ?thesis
        by (auto split: option.splits)
    qed (use Cons in \<open>auto split: option.splits\<close>)
  qed simp
  have sv: "set (txhash_vals rt (st_txhash s) sha) = {e \<in> set (st_txhash s). te_sha e = sha}"
    by (rule txtab.set_vals [OF assms(4)])
  then have "\<forall>te \<in> set (txhash_vals rt (st_txhash s) sha). elem_ok ssl ?h te"
    using assms(3) by (simp add: hashes_ok_def)
  from loop [OF this] sv show ?thesis
    unfolding txhash_gettx_ancestor_def by (auto split: option.splits)
qed

definition good_input ::
    "openssl \<Rightarrow> state \<Rightarrow> bptr \<Rightarrow> txhash_elem option \<Rightarrow> address \<Rightarrow> protocol_input \<Rightarrow> u32 \<Rightarrow> bool" where
  \<comment> \<open>the input is an output of a known transaction before \<open>block\<close>, of \<open>amount\<close> and payable to
     \<open>addr\<close>, and nothing else on the chain spends it\<close>
  "good_input ssl s block me addr inp amount \<longleftrightarrow>
     (\<exists>te b t. te \<in> set (st_txhash s) \<and> te_sha te = in_input inp \<and> te_u te = In_block b
        \<and> ancestor (st_heap s) b block \<and> te_tx (st_heap s) te = Some t
        \<and> find_output ssl t (in_output inp) = Some (Some (addr, amount)))
     \<and> (\<forall>te \<in> set (st_txhash s). \<forall>t. conflict (st_heap s) block me te \<longrightarrow>
          te_tx (st_heap s) te = Some t \<longrightarrow> \<not> spends t inp)"

lemma check_one_input_OK:
  assumes st: "heap_ok (st_heap s)" "st_heap s block = Some cb" "hashes_ok (rt_ssl rt) s" "tables_ok rt"
    and chk: "check_one_input rt s block me inp addr False = Some (ECODE_INPUT_OK, amount)"
  shows "good_input (rt_ssl rt) s block me addr inp amount"
proof -
  obtain r where r: "txhash_gettx_ancestor rt s (in_input inp) block = Some r"
    "case r of
       Some te \<Rightarrow> te \<in> set (st_txhash s) \<and> te_sha te = in_input inp
         \<and> (\<exists>b. te_u te = In_block b \<and> ancestor (st_heap s) b block)
     | None \<Rightarrow> True"
    using gettx_ancestor_eq [OF st, of "in_input inp"] by (auto split: option.splits)
  from r chk obtain te b where te: "r = Some te" "te \<in> set (st_txhash s)" "te_sha te = in_input inp"
    "te_u te = In_block b" "ancestor (st_heap s) b block"
    by (cases r) (auto simp: check_one_input_def)
  have "elem_ok (rt_ssl rt) (st_heap s) te" using st(3) te(2) by (simp add: hashes_ok_def)
  then obtain bb where bb: "st_heap s b = Some bb"
    "block_get_tx bb (te_shardnum te) (te_txoff te) = Some (te_tx (st_heap s) te)"
    using te(4) by (rule elem_in_block)
  obtain d where d: "tx_find_doublespend rt s block me inp = Some d"
    "d = None \<Longrightarrow> \<forall>te \<in> set (st_txhash s). \<forall>t. conflict (st_heap s) block me te \<longrightarrow>
       te_tx (st_heap s) te = Some t \<longrightarrow> \<not> spends t inp"
    using find_doublespend_eq [OF st, of me inp] by (auto split: option.splits)
  have "\<exists>t. te_tx (st_heap s) te = Some t \<and> find_output (rt_ssl rt) t (in_output inp) = Some (Some (addr, amount))
      \<and> d = None"
    using chk r(1) te bb d(1)
    by (auto simp: check_one_input_def check_simple_input_def bind_eq_Some_conv
        split: option.splits if_splits)
  then show ?thesis using te d(2) unfolding good_input_def by blast
qed

lemma loop_cases:
  obtains (crash) "r = None" | (bad) b where "r = Some (Inl b)" | (fine) k t b where "r = Some (Inr (k, t, b))"
  using that by (metis option.exhaust sum.exhaust prod_cases3)

lemma check_inputs_loop_known:
  "check_inputs_loop rt s block me addr c tx n = Some (Inr (known, tot, bad)) \<Longrightarrow> known \<le> n"
proof (induction n arbitrary: known tot bad)
  case (Suc n)
  then show ?case
    by (cases "check_inputs_loop rt s block me addr c tx n" rule: loop_cases)
      (force simp: bind_eq_Some_conv split: if_splits)+
qed simp

lemma check_inputs_loop_OK:
  assumes st: "heap_ok (st_heap s)" "st_heap s block = Some cb" "hashes_ok (rt_ssl rt) s" "tables_ok rt"
    and wf: "wf_tx tx" and "n \<le> unat (num_inputs tx)"
    and "check_inputs_loop rt s block me addr False tx n = Some (Inr (n, tot, bad))"
  shows "\<exists>amts. length amts = n \<and> tot = sum_list amts \<and>
    (\<forall>i < n. good_input (rt_ssl rt) s block me addr (tx_inputs tx ! i) (amts ! i))"
  using assms(6-)
proof (induction n arbitrary: tot bad)
  case (Suc n)
  then obtain known tot' bad' e amount where
    l: "check_inputs_loop rt s block me addr False tx n = Some (Inr (known, tot', bad'))"
    and o: "check_one_input rt s block me (tx_inputs tx ! n) addr False = Some (e, amount)"
    and u: "(if e = ECODE_INPUT_UNKNOWN then Inr (known, tot', Some n)
             else if e \<noteq> ECODE_INPUT_OK then Inl n else Inr (Suc known, tot' + amount, bad'))
            = Inr (Suc n, tot, bad)"
    using wf by (cases "check_inputs_loop rt s block me addr False tx n" rule: loop_cases)
      (auto simp: bind_eq_Some_conv tx_input_eq)
  have "known = n" "e = ECODE_INPUT_OK" "tot = tot' + amount"
    using check_inputs_loop_known [OF l] u by (auto split: if_splits)
  moreover obtain amts where "length amts = n" "tot' = sum_list amts"
    "\<forall>i < n. good_input (rt_ssl rt) s block me addr (tx_inputs tx ! i) (amts ! i)"
    using Suc.IH [of tot' bad'] l Suc.prems(1) \<open>known = n\<close> by auto
  moreover have "good_input (rt_ssl rt) s block me addr (tx_inputs tx ! n) amount"
    using check_one_input_OK [OF st] o \<open>e = ECODE_INPUT_OK\<close> by blast
  ultimately show ?case
    by (intro exI [of _ "amts @ [amount]"]) (auto simp: nth_append less_Suc_eq)
qed simp

subsection \<open>No money is made\<close>

lemma valid_output_bound:
  assumes "tx_valid ssl ord t" and "find_output ssl t n = Some (Some (addr, amount))"
  shows "unat amount \<le> 2 ^ 29"
  using assms
  by (cases t) (auto simp: tx_valid_def amounts_valid_def payments_valid_def bind_eq_Some_conv
      get_from_gateway_outputs_def c_nth_def split: if_splits)

lemma sum_list_no_wrap:
  assumes "\<forall>a \<in> set amts. unat (a :: u32) \<le> 2 ^ 29" and "length amts \<le> 4"
  shows "unat (sum_list amts) = sum_list (map unat amts)"
proof -
  have "sum_list (map unat amts) \<le> length amts * 2 ^ 29"
    using assms(1) by (induction amts) auto
  then have "sum_list (map unat amts) < 2 ^ 32" using assms(2) by simp
  then show ?thesis
  proof (induction amts)
    case (Cons a amts)
    then show ?case by (simp add: unat_word_ariths)
  qed simp
qed

definition fee_of :: "nat \<Rightarrow> nat" where
  "fee_of sent = sent * 3 div 1024 + 1"

lemma fee_no_wrap:
  assumes "unat (x :: u32) \<le> 2 ^ 30"
  shows "unat (PROTOCOL_FEE x) = fee_of (unat x)" and "unat (x + PROTOCOL_FEE x) = unat x + fee_of (unat x)"
proof -
  have m: "unat (x * 3) = unat x * 3" using assms by (simp add: unat_word_ariths)
  then have d: "unat (x * 3 div 1024) = unat x * 3 div 1024" by (simp add: unat_div_distrib)
  have b: "unat x * 3 div 1024 \<le> 2 ^ 22" using assms by simp
  have "unat (x * 3 div 1024 + 1) = unat x * 3 div 1024 + 1"
    using d b by (simp add: unat_word_ariths)
  then show *: "unat (PROTOCOL_FEE x) = fee_of (unat x)" by (simp add: PROTOCOL_FEE_def fee_of_def)
  show "unat (x + PROTOCOL_FEE x) = unat x + fee_of (unat x)"
    using * b assms by (simp add: unat_word_ariths fee_of_def)
qed

lemma valid_amount_sent:
  assumes "tx_valid ssl ord tx" and "tx_type tx \<in> {TX_NORMAL, TX_TO_GATEWAY}"
    and "tx_amount_sent tx = Some sent"
  shows "unat sent \<le> 2 ^ 30" and "unat (num_inputs tx) \<le> 4"
  using assms by (cases tx; auto simp: tx_valid_def amounts_valid_def sum_no_wrap)+

text \<open>
  C2. When \<open>check_tx\<close> and \<open>check_tx_inputs\<close> accept a payment, each of its inputs is an output of a
  known transaction earlier on the chain, payable to the signer and spent by nothing else on
  the chain, and the amounts of the inputs add up exactly to what the transaction pays plus
  its fee: computed in 32 bits, the sums do not wrap.
\<close>

theorem accepted_inputs_conserve_value:
  assumes st: "heap_ok (st_heap s)" "st_heap s block = Some cb" "hashes_ok (rt_ssl rt) s" "tables_ok rt"
    and known: "\<And>te t. te \<in> set (st_txhash s) \<Longrightarrow> te_tx (st_heap s) te = Some t \<Longrightarrow> \<exists>k. tx_valid (rt_ssl rt) k t"
    and wf: "wf_tx tx" and valid: "tx_valid (rt_ssl rt) ord tx"
    and ty: "tx_type tx \<in> {TX_NORMAL, TX_TO_GATEWAY}"
    and chk: "check_tx_inputs rt s block me tx = Some (ECODE_INPUT_OK, bad)"
  shows "\<exists>addr amts sent. get_tx_input_address (rt_ssl rt) tx = Some addr
    \<and> length amts = length (tx_inputs tx)
    \<and> (\<forall>i < length amts. good_input (rt_ssl rt) s block me addr (tx_inputs tx ! i) (amts ! i))
    \<and> tx_amount_sent tx = Some sent
    \<and> sum_list (map unat amts) = unat sent + (if tx_pays_fee tx then fee_of (unat sent) else 0)"
proof -
  let ?n = "unat (num_inputs tx)"
  have nc: "tx_type tx \<noteq> TX_FROM_GATEWAY" "(tx_type tx = TX_CLAIM) = False" using ty by auto
  obtain addr sent where addr: "get_tx_input_address (rt_ssl rt) tx = Some addr"
    and sent: "tx_amount_sent tx = Some sent"
    using ty by (cases tx) auto
  obtain tot where l: "check_inputs_loop rt s block me addr False tx ?n = Some (Inr (?n, tot, bad))"
    and c: "correct_amount tx tot = Some True"
    using chk nc addr unfolding check_tx_inputs_def
    by (cases "check_inputs_loop rt s block me addr False tx ?n" rule: loop_cases)
      (auto simp: bind_eq_Some_conv split: if_splits)
  obtain amts where amts: "length amts = ?n" "tot = sum_list amts"
    "\<forall>i < ?n. good_input (rt_ssl rt) s block me addr (tx_inputs tx ! i) (amts ! i)"
    using check_inputs_loop_OK [OF st wf _ l] by auto
  have "unat (amts ! i) \<le> 2 ^ 29" if "i < ?n" for i
    using amts(3) that known valid_output_bound unfolding good_input_def by blast
  then have "\<forall>a \<in> set amts. unat a \<le> 2 ^ 29" by (auto simp: in_set_conv_nth amts(1))
  then have tot: "unat tot = sum_list (map unat amts)"
    using sum_list_no_wrap [of amts] amts(1,2) valid_amount_sent(2) [OF valid ty sent] by simp
  have "unat tot = unat sent + (if tx_pays_fee tx then fee_of (unat sent) else 0)"
    using c sent fee_no_wrap(2) [OF valid_amount_sent(1) [OF valid ty sent]]
    by (auto simp: correct_amount_def Let_def)
  then show ?thesis
    using addr sent amts(1,3) tot length_tx_inputs [OF wf] by auto
qed

subsection \<open>Claims\<close>

text \<open>
  No claim of a reward is ever accepted: \<open>check_claim_input\<close> returns \<open>ECODE_INPUT_OK\<close>, which is
  zero, through a \<open>bool\<close>, so its caller sees failure in every case.
\<close>

theorem claim_never_accepted:
  "check_tx_inputs rt s block me (Claim t) \<noteq> Some (ECODE_INPUT_OK, bad)"
proof -
  have "check_one_input rt s block me inp addr True \<noteq> Some (ECODE_INPUT_OK, a)" for inp addr a
    by (auto simp: check_one_input_def check_claim_input_def bind_eq_Some_conv
        split: option.splits txhash_block_or_tx.splits if_splits)
  then show ?thesis
    by (auto simp: check_tx_inputs_def bind_eq_Some_conv split: if_splits)
qed

subsection \<open>Rewards\<close>

lemma reward_end_bounds:
  assumes "(d :: nat) mod 100 \<noteq> 0"
  shows "d < (d + 99) div 100 * 100" and "(d + 99) div 100 * 100 \<le> d + 99"
proof -
  define q r where "q = (d + 99) div 100" and "r = (d + 99) mod 100"
  have e: "q * 100 + r = d + 99" by (simp add: q_def r_def)
  have "r < 100" by (simp add: r_def)
  moreover have "r \<noteq> 99" using e assms by auto
  ultimately show "d < (d + 99) div 100 * 100" and "(d + 99) div 100 * 100 \<le> d + 99"
    using e by (simp_all flip: q_def)
qed

lemma unat_reward_end:
  assumes "unat (d :: u32) + 99 < 2 ^ 32"
  shows "unat ((d + 100 - 1) div 100 * 100) = (unat d + 99) div 100 * 100"
proof -
  have "unat (d + 100 - 1) = unat d + 99"
    using assms by (simp add: unat_word_ariths)
  then have "unat ((d + 100 - 1) div 100) = (unat d + 99) div 100"
    by (simp add: unat_div_distrib)
  moreover have "(unat d + 99) div 100 * 100 \<le> unat d + 99" by simp
  then have "(unat d + 99) div 100 * 100 < 2 ^ 32" using assms by linarith
  ultimately show ?thesis by (simp add: unat_word_ariths)
qed

text \<open>
  Once a reward can be claimed, \<open>reward_get_tx\<close> dereferences a NULL pointer unless the depth of the
  rewarded block is a multiple of the reward period: the distance it passes to
  \<open>block_ancestor\<close> is negative and wraps.
\<close>

theorem reward_get_tx_crashes:
  assumes "heap_ok h" and r: "h reward_block = Some rb" and c: "h claim_block = Some cb"
    and "ancestor h reward_block claim_block" and "block_empty rb = Some False"
    and "b_depth rb mod 100 \<noteq> 0" and late: "(b_depth rb + 99) div 100 * 100 < b_depth cb"
    and "b_depth cb + 100 < 2 ^ 32"
  shows "reward_get_tx ssl h reward_block claim_block = None"
proof -
  let ?re = "(bh_depth (b_hdr rb) + 100 - 1) div 100 * 100 :: u32"
  let ?n = "(b_depth rb + 99) div 100 * 100"
  have le: "b_depth rb \<le> b_depth cb" using ancestor_depth [OF assms(1,4) r c] by simp
  then have re: "unat ?re = ?n" using assms(8) by (intro unat_reward_end) simp
  have n: "b_depth rb < ?n" "?n \<le> b_depth rb + 99" using reward_end_bounds [OF assms(6)] by simp_all
  have "unat (bh_depth (b_hdr rb) - ?re) = 2 ^ 32 + b_depth rb - ?n"
    using re n(1) unat_u32_less [of ?re] by (simp add: unat_sub_if' word_le_nat_alt)
  then have "b_depth cb < unat (bh_depth (b_hdr rb) - ?re)" using n assms(8) by simp
  then have "block_ancestor h (Some claim_block) (unat (bh_depth (b_hdr rb) - ?re)) = Some None"
    using block_ancestor_eq [OF assms(1) c, of "unat (bh_depth (b_hdr rb) - ?re)"] by simp
  moreover have "\<not> bh_depth (b_hdr cb) \<le> ?re" using re late by (simp only: word_le_nat_alt not_le)
  moreover have "block_preceeds h reward_block claim_block = Some True"
    using block_preceeds_eq [OF assms(1) r c] assms(4) by simp
  moreover have "(word_of_nat PROTOCOL_REWARD_PERIOD :: u32) = 100" by (simp add: c_simps)
  ultimately show ?thesis
    using r c assms(5) by (simp add: reward_get_tx_def Let_def del: word_of_nat_eq_0_iff)
qed

subsection \<open>Examples\<close>

definition ex_spend :: protocol_tx where
  \<comment> \<open>spends the change of the example transaction\<close>
  "ex_spend = Normal \<lparr>tx_version = 1, tx_fee = True, tx_features = 0, n_input_key = replicate 33 3,
     n_output_addr = replicate 20 5, n_send_amount = 400, n_change_amount = 98, n_num_inputs = 1,
     n_signature = \<lparr>sig_r = replicate 32 0, sig_s = replicate 32 0\<rparr>,
     n_inputs = [\<lparr>in_input = ex_sha, in_output = 1, in_unused = 0\<rparr>]\<rparr>"

definition ex_ref :: protocol_input_ref where
  "ex_ref = \<lparr>ref_blocks_ago = 0, ref_shard = 0, ref_txoff = 0, ref_unused = 0\<rparr>"

definition ex_tx_block :: block where
  \<comment> \<open>a genesis block which holds the example transaction\<close>
  "ex_tx_block = (ex_block 0 0)\<lparr>b_shard := [\<lparr>bs_shardnum = 0, bs_txcount = 1, bs_hashcount = 0, bs_size = 1,
     bs_proof = None, bs_u = [Txp (Some (ex_normal, [ex_ref]))]\<rparr>],
     b_parts := (ex_chain_parts 0)\<lparr>bp_shard_nums := [1]\<rparr>\<rparr>"

definition ex_elem :: txhash_elem where
  "ex_elem = \<lparr>te_sha = ex_sha, te_u = In_block 0, te_shardnum = 0, te_txoff = 0\<rparr>"

definition ex_tx_state :: state where
  "ex_tx_state = (ex_state 0)
     \<lparr>st_test_net := True, st_heap := (ex_heap 0)(0 \<mapsto> ex_tx_block), st_txhash := [ex_elem],
      st_inputhash := map (\<lambda>inp. \<lparr>ie_tx = in_input inp, ie_output_num = in_output inp, ie_used_by = ex_sha\<rparr>)
        (tx_inputs ex_normal)\<rparr>"

lemma length_ex_sha [simp]: "length ex_sha = 32"
  by (simp add: ex_sha_def SHA256_Double_Final_def digest_ok_model)

lemma ex_sha_other: "ex_sha \<noteq> replicate 32 9"
proof -
  obtain bs where bs: "enc_tx ex_normal = 1 # bs" by (simp add: ex_normal_def enc_tx_hdr_def)
  have "length (enc_tx ex_normal) = 168" by (rule ex_claim_len)
  then have y: "model_digest 32 (enc_tx ex_normal) = nat_le 32 (1 + 256 * le_nat bs + 1176)"
    by (simp add: model_digest_def bs)
  have "hd (nat_le 32 x) = word_of_nat (x mod 256)" for x
    using nat_le.simps(2) [of 31 x] by simp
  then have hd: "hd ex_sha = word_of_nat (((1177 + 256 * le_nat bs) mod 256 ^ 32 + 224) mod 256)"
    using y unfolding ex_sha_def SHA256_Double_Final_def model_openssl_def
    by (simp add: model_digest_def le_nat_nat_le)
  have "(1177 + 256 * le_nat bs) mod 256 ^ 32 mod 256 = (153 :: nat)"
    by (subst mod_mod_cancel) (simp, simp only: mod_mult_self2, simp)
  then have "((1177 + 256 * le_nat bs) mod 256 ^ 32 + 224) mod 256 = (153 + 224) mod (256 :: nat)"
    by (metis mod_add_left_eq)
  then have "hd ex_sha \<noteq> hd (replicate 32 9)" using hd by simp
  then show ?thesis by (rule contrapos_nn) (rule arg_cong [of _ _ hd])
qed

lemma ex_spend_wf: "wf_tx ex_spend"
  by (simp add: ex_spend_def wf_input_def wf_signature_def)

lemma ex_sign_ok: "tx \<in> {ex_spend, ex_normal} \<Longrightarrow> check_tx_sign model_openssl tx key = Some True"
proof -
  assume tx: "tx \<in> {ex_spend, ex_normal}"
  then have "wf_tx tx" using ex_spend_wf ex_wf(2) by blast
  then obtain h where "sighash_tx model_openssl tx = Some h"
    using sighash_set_signature(2) [OF _ wf_get_signature] by blast
  with tx show ?thesis
    by (auto simp: check_tx_sign_def Let_def ex_spend_def ex_normal_def model_openssl_def)
qed

lemma ex_valid: "tx_valid model_openssl ord ex_spend" "tx_valid model_openssl ord ex_normal"
  using ex_sign_ok by (simp_all add: tx_valid_def) (simp_all add: ex_spend_def ex_normal_def amounts_valid_def)

lemma ex_tx_heap: "heap_ok (st_heap ex_tx_state)" "st_heap ex_tx_state 0 = Some ex_tx_block"
proof -
  have "same_tree (ex_heap 0) ((ex_heap 0)(0 \<mapsto> ex_tx_block))"
    by (rule same_tree_upd [of _ _ "ex_block 0 0"])
      (simp_all add: ex_heap_def same_node_def ex_tx_block_def ex_block_def)
  then show "heap_ok (st_heap ex_tx_state)"
    using same_tree_heap_ok ex_heap_ok [of 0] by (simp add: ex_tx_state_def)
  show "st_heap ex_tx_state 0 = Some ex_tx_block" by (simp add: ex_tx_state_def)
qed

lemma ex_elem_slot: "te_slot (st_heap ex_tx_state) 0 ex_elem = Some (Txp (Some (ex_normal, [ex_ref])))"
  by (simp add: te_slot_def ex_tx_heap(2)) (simp add: ex_tx_block_def ex_elem_def)

lemma ex_elem_tx: "te_tx (st_heap ex_tx_state) ex_elem = Some ex_normal" "te_u ex_elem = In_block 0"
  by (simp_all add: te_tx_def ex_elem_slot ex_elem_def split: txhash_block_or_tx.splits)
    (simp add: ex_elem_slot [unfolded ex_elem_def])

lemma ex_tx_hashes_ok: "hashes_ok model_openssl ex_tx_state"
proof -
  have "elem_ok model_openssl (st_heap ex_tx_state) ex_elem"
    using ex_elem_slot ex_wf(2) ex_hash
    by (simp add: elem_ok_def pos_ok_def ex_tx_heap(2) ex_elem_tx(2))
      (simp add: ex_elem_def ex_tx_block_def ex_block_def ex_chain_parts_def num_shards_def)
  moreover have "inputs_recorded (st_inputhash ex_tx_state) ex_normal ex_sha"
    by (simp add: inputs_recorded_def ex_tx_state_def)
  moreover have "st_txhash ex_tx_state = [ex_elem]" "te_sha ex_elem = ex_sha" "\<not> is_pending ex_elem"
    by (simp_all add: ex_tx_state_def ex_elem_def is_pending_def)
  ultimately show ?thesis by (simp add: hashes_ok_def ex_elem_tx)
qed

lemma rt_ssl_model [simp]: "rt_ssl model_runtime = model_openssl"
  by (simp add: model_runtime_def)

theorem check_tx_correct_witness:
  "check_tx model_openssl ex_tx_state ex_normal None = Some PROTOCOL_ECODE_NONE"
proof -
  have "\<exists>e. check_tx model_openssl ex_tx_state ex_normal None = Some e
    \<and> (e = PROTOCOL_ECODE_NONE \<longleftrightarrow> tx_valid model_openssl next_shard_order ex_normal)"
    by (rule check_tx_correct) (simp_all add: ex_tx_state_def ex_wf next_shard_order_def c_simps)
  then show ?thesis using ex_valid(2) by auto
qed


lemma ex_spend_inputs:
  "check_tx_inputs model_runtime ex_tx_state 0 None ex_spend = Some (ECODE_INPUT_OK, None)"
proof -
  let ?inp = "\<lparr>in_input = ex_sha, in_output = 1, in_unused = 0\<rparr> :: protocol_input"
  have a: "txhash_gettx_ancestor model_runtime ex_tx_state ex_sha 0 = Some (Some ex_elem)"
    by (simp add: txhash_gettx_ancestor_def txhash_vals_def model_runtime_def txhash_eq_iff)
      (simp add: ex_tx_state_def ex_elem_def block_preceeds.simps)
  have "elem_ok model_openssl (st_heap ex_tx_state) ex_elem"
    using ex_tx_hashes_ok by (simp add: hashes_ok_def ex_tx_state_def)
  then obtain bb where b: "st_heap ex_tx_state 0 = Some bb"
    "block_get_tx bb (te_shardnum ex_elem) (te_txoff ex_elem) = Some (Some ex_normal)"
    using ex_elem_tx by (metis elem_in_block)
  have d: "tx_find_doublespend model_runtime ex_tx_state 0 None ?inp = Some None"
    using ex_sha_other
    by (simp add: tx_find_doublespend_def inputhash_vals_def model_runtime_def inputhash_eq_iff)
      (simp add: ex_tx_state_def ex_normal_def)
  have s: "check_simple_input model_openssl ?inp ex_normal (pubkey_to_addr model_openssl (replicate 33 3))
      = Some (ECODE_INPUT_OK, 500)"
    by (simp add: check_simple_input_def ex_normal_def)
  have o: "check_one_input model_runtime ex_tx_state 0 None ?inp (pubkey_to_addr model_openssl (replicate 33 3)) False
      = Some (ECODE_INPUT_OK, 500)"
    using a b s d ex_elem_tx by (simp add: check_one_input_def)
  have "correct_amount ex_spend 500 = Some True"
    by (simp add: correct_amount_def ex_spend_def PROTOCOL_FEE_def)
  then show ?thesis
    using o by (simp add: check_tx_inputs_def ex_spend_def)
qed

theorem accepted_inputs_witness:
  "\<exists>amts. length amts = Suc 0 \<and> sum_list (map unat (amts :: u32 list)) = 498 + fee_of 498"
proof -
  have "\<exists>addr amts sent. get_tx_input_address (rt_ssl model_runtime) ex_spend = Some addr
    \<and> length amts = length (tx_inputs ex_spend)
    \<and> (\<forall>i < length amts. good_input (rt_ssl model_runtime) ex_tx_state 0 None addr (tx_inputs ex_spend ! i) (amts ! i))
    \<and> tx_amount_sent ex_spend = Some sent
    \<and> sum_list (map unat amts) = unat sent + (if tx_pays_fee ex_spend then fee_of (unat sent) else 0)"
    by (rule accepted_inputs_conserve_value [OF ex_tx_heap _ tables_ok_model _ ex_spend_wf _ _ ex_spend_inputs, of 0])
      (use ex_tx_hashes_ok ex_valid ex_elem_tx in \<open>auto simp: ex_tx_state_def ex_spend_def\<close>)
  then show ?thesis by (auto simp: ex_spend_def)
qed

theorem reward_get_tx_witness:
  "\<exists>h rb cb. h 1 = Some rb \<and> h 101 = Some cb \<and> ancestor h 1 101 \<and> reward_get_tx model_openssl h 1 101 = None"
proof -
  define rb where "rb = (ex_block 101 1)\<lparr>b_parts := (ex_chain_parts 1)\<lparr>bp_shard_nums := [1]\<rparr>\<rparr>"
  let ?h = "(ex_heap 101)(1 \<mapsto> rb)"
  have t: "same_tree (ex_heap 101) ?h"
    by (rule same_tree_upd [of _ _ "ex_block 101 1"])
      (simp_all add: ex_heap_def same_node_def rb_def ex_block_def)
  have ok: "heap_ok ?h" using same_tree_heap_ok [OF t] ex_heap_ok [of 101] by simp
  have h: "?h 1 = Some rb" "?h 101 = Some (ex_block 101 101)" by (simp_all add: ex_heap_def)
  have d: "b_depth rb = 1" "b_depth (ex_block 101 101) = 101"
    by (simp_all add: rb_def ex_block_def ex_chain_parts_def)
  have "\<exists>a ab. block_ancestor ?h (Some 101) 100 = Some (Some a) \<and> ?h a = Some ab \<and> b_depth ab + 100 = 101
      \<and> ancestor ?h a 101"
    using block_ancestor_eq [OF ok h(2), of 100] d(2) by simp
  then obtain a ab where a: "?h a = Some ab" "b_depth ab = 1" "ancestor ?h a 101" by auto
  then have "a = 1"
    using ex_depth [of a 101] d(1) by (auto simp: ex_heap_def split: if_splits)
  with a have anc: "ancestor ?h 1 101" by simp
  have "block_empty rb = Some False"
    by (simp add: block_empty_def rb_def ex_block_def ex_chain_parts_def num_shards_def)
  from reward_get_tx_crashes [OF ok h anc this] d have "reward_get_tx model_openssl ?h 1 101 = None" by simp
  with anc h show ?thesis by blast
qed

end
