(* ===== verification/Create_tx.thy ===== *)
theory Create_tx
  imports Check_tx
begin

section \<open>References and the creation of transactions\<close>

text \<open>
  \<^verbatim>\<open>input_refs.c\<close>, \<^verbatim>\<open>create_refs.c\<close> and \<^verbatim>\<open>create_tx.c\<close>: where in the chain the inputs of a transaction
  are, how these references are made and checked, and how transactions are made and signed.
\<close>

datatype ref_ecode = ECODE_REF_OK | ECODE_REF_UNKNOWN | ECODE_REF_BAD_HASH

subsection \<open>References (input_refs.c, create_refs.c)\<close>

definition check_ref :: "state \<Rightarrow> bptr \<Rightarrow> protocol_input_ref \<Rightarrow> protocol_ecode option" where
  "check_ref s block ref =
     do { bo \<leftarrow> block_ancestor (st_heap s) (Some block) (unat (ref_blocks_ago ref));
          (case bo of
             None \<Rightarrow> Some PROTOCOL_ECODE_REF_BAD_BLOCKS_AGO
           | Some p \<Rightarrow> do {
               b \<leftarrow> st_heap s p;
               cur \<leftarrow> st_heap s block;
               if bt_timestamp (b_tailer b) + word_of_nat (PROTOCOL_TX_HORIZON_SECS (st_test_net s))
                  < bt_timestamp (b_tailer cur)
               then Some PROTOCOL_ECODE_REF_BAD_BLOCKS_AGO
               else if unat (ref_shard ref) \<ge> unat (num_shards (b_hdr b))
               then Some PROTOCOL_ECODE_REF_BAD_SHARD
               else do {
                 n \<leftarrow> c_nth (b_shard_nums b) (unat (ref_shard ref));
                 Some (if ref_txoff ref \<ge> n then PROTOCOL_ECODE_REF_BAD_TXOFF else PROTOCOL_ECODE_NONE) } }) }"

fun check_refs :: "state \<Rightarrow> bptr \<Rightarrow> protocol_input_ref list \<Rightarrow> nat \<Rightarrow> protocol_ecode option" where
  "check_refs s block refs 0 = Some PROTOCOL_ECODE_NONE"
| "check_refs s block refs (Suc i) =
     do { e \<leftarrow> check_refs s block refs i;
          if e \<noteq> PROTOCOL_ECODE_NONE then Some e
          else do { r \<leftarrow> c_nth refs i; check_ref s block r } }"

fun check_refs_loop ::
    "openssl \<Rightarrow> state \<Rightarrow> bptr \<Rightarrow> protocol_tx \<Rightarrow> protocol_input_ref list \<Rightarrow> nat
     \<Rightarrow> (nat \<times> bptr + (nat \<times> bptr) option) option" where
  \<comment> \<open>\<open>Inl\<close>: bad hash; \<open>Inr\<close>: the last unknown reference\<close>
  "check_refs_loop ssl s block tx refs 0 = Some (Inr None)"
| "check_refs_loop ssl s block tx refs (Suc i) =
     do { r \<leftarrow> check_refs_loop ssl s block tx refs i;
          (case r of
             Inl bad \<Rightarrow> Some (Inl bad)
           | Inr unk \<Rightarrow> do {
               ref \<leftarrow> c_nth refs i;
               bo \<leftarrow> block_ancestor (st_heap s) (Some block) (unat (ref_blocks_ago ref));
               p \<leftarrow> bo;
               b \<leftarrow> st_heap s p;
               sh \<leftarrow> c_nth (b_shard b) (unat (ref_shard ref));
               t \<leftarrow> txrefhash_in_shard ssl sh (ref_txoff ref);
               (case t of
                  None \<Rightarrow> Some (Inr (Some (i, p)))
                | Some txp \<Rightarrow> do {
                    inp \<leftarrow> tx_input tx i;
                    Some (if trh_txhash txp \<noteq> in_input inp then Inl (i, p) else Inr unk) }) }) }"

definition check_tx_refs ::
    "openssl \<Rightarrow> state \<Rightarrow> bptr \<Rightarrow> protocol_tx \<Rightarrow> protocol_input_ref list
     \<Rightarrow> (ref_ecode \<times> (nat \<times> bptr) option) option" where
  "check_tx_refs ssl s block tx refs =
     (let num = unat (num_inputs tx) in
      do { e \<leftarrow> check_refs s block refs num;
           c_assert (e = PROTOCOL_ECODE_NONE);
           r \<leftarrow> check_refs_loop ssl s block tx refs num;
           Some (case r of
               Inl bad \<Rightarrow> (ECODE_REF_BAD_HASH, Some bad)
             | Inr None \<Rightarrow> (ECODE_REF_OK, None)
             | Inr (Some u) \<Rightarrow> (ECODE_REF_UNKNOWN, Some u)) })"

definition resolve_input ::
    "runtime \<Rightarrow> state \<Rightarrow> bptr \<Rightarrow> protocol_tx \<Rightarrow> nat \<Rightarrow> nat \<Rightarrow> protocol_input_ref option option" where
  "resolve_input rt s prev_block tx num offset =
     do { inp \<leftarrow> tx_input tx num;
          r \<leftarrow> txhash_gettx_ancestor rt s (in_input inp) prev_block;
          (case r of
             None \<Rightarrow> Some None
           | Some te \<Rightarrow> (case te_u te of
               Pending_tx _ \<Rightarrow> None
             | In_block b \<Rightarrow> do {
                 bb \<leftarrow> st_heap s b;
                 pb \<leftarrow> st_heap s prev_block;
                 if bt_timestamp (b_tailer bb)
                    + word_of_nat (PROTOCOL_TX_HORIZON_SECS (st_test_net s)) - 3600
                    < (word_of_nat (rt_time rt) :: u32)
                 then Some None
                 else Some (Some \<lparr>ref_blocks_ago = bh_depth (b_hdr pb) - bh_depth (b_hdr bb) + word_of_nat offset,
                                  ref_shard = te_shardnum te, ref_txoff = te_txoff te, ref_unused = 0\<rparr>) })) }"

fun create_refs_loop ::
    "runtime \<Rightarrow> state \<Rightarrow> bptr \<Rightarrow> protocol_tx \<Rightarrow> nat \<Rightarrow> nat \<Rightarrow> protocol_input_ref list option option" where
  "create_refs_loop rt s block tx offset 0 = Some (Some [])"
| "create_refs_loop rt s block tx offset (Suc i) =
     do { r \<leftarrow> create_refs_loop rt s block tx offset i;
          (case r of
             None \<Rightarrow> Some None
           | Some refs \<Rightarrow> do {
               ref \<leftarrow> resolve_input rt s block tx i offset;
               Some (map_option (\<lambda>x. refs @ [x]) ref) }) }"

definition create_refs ::
    "runtime \<Rightarrow> state \<Rightarrow> bptr \<Rightarrow> protocol_tx \<Rightarrow> nat \<Rightarrow> protocol_input_ref list option option" where
  "create_refs rt s block tx offset = create_refs_loop rt s block tx offset (unat (num_inputs tx))"

subsection \<open>create_tx.c\<close>

definition blank_signature :: protocol_signature where
  "blank_signature = \<lparr>sig_r = replicate 32 0, sig_s = replicate 32 0\<rparr>"

definition blank_input :: protocol_input where
  "blank_input = \<lparr>in_input = replicate 32 0, in_output = 0, in_unused = 0\<rparr>"

definition blank_payment :: protocol_gateway_payment where
  "blank_payment = \<lparr>gp_send_amount = 0, gp_output_addr = replicate 20 0\<rparr>"

text \<open>
  The fresh memory of \<open>alloc_tx\<close> is not cleared; every field is written before it is read, so the
  model fills it with zeros. The room for inputs or outputs is what a 16-bit \<open>num\<close> says.
\<close>

fun alloc_tx :: "protocol_tx_type \<Rightarrow> bool \<Rightarrow> u16 \<Rightarrow> protocol_tx" where
  "alloc_tx TX_NORMAL pay_fee num =
     Normal \<lparr>tx_version = current_version, tx_fee = pay_fee, tx_features = 0,
       n_input_key = replicate 33 0, n_output_addr = replicate 20 0, n_send_amount = 0,
       n_change_amount = 0, n_num_inputs = 0, n_signature = blank_signature,
       n_inputs = replicate (unat num) blank_input\<rparr>"
| "alloc_tx TX_FROM_GATEWAY pay_fee num =
     From_gateway \<lparr>tx_version = current_version, tx_fee = pay_fee, tx_features = 0,
       fg_gateway_key = replicate 33 0, fg_num_outputs = 0, fg_unused = 0,
       fg_signature = blank_signature, fg_outputs = replicate (unat num) blank_payment\<rparr>"
| "alloc_tx TX_TO_GATEWAY pay_fee num =
     To_gateway \<lparr>tx_version = current_version, tx_fee = pay_fee, tx_features = 0,
       tg_input_key = replicate 33 0, tg_to_gateway_addr = replicate 20 0, tg_send_amount = 0,
       tg_change_amount = 0, tg_num_inputs = 0, tg_signature = blank_signature,
       tg_inputs = replicate (unat num) blank_input\<rparr>"
| "alloc_tx TX_CLAIM pay_fee num =
     Claim \<lparr>tx_version = current_version, tx_fee = pay_fee, tx_features = 0,
       c_input_key = replicate 33 0, c_amount = 0, c_input = blank_input,
       c_signature = blank_signature\<rparr>"

definition create_from_gateway_tx ::
    "openssl \<Rightarrow> pubkey \<Rightarrow> u16 \<Rightarrow> protocol_gateway_payment list \<Rightarrow> bool \<Rightarrow> nat \<Rightarrow> protocol_tx option option" where
  "create_from_gateway_tx ssl gateway_key num_payments payment pay_fee private_key =
     (case alloc_tx TX_FROM_GATEWAY pay_fee num_payments of
        From_gateway gtx \<Rightarrow> do {
          outs \<leftarrow> c_slice payment 0 (unat num_payments);
          sign_tx ssl (From_gateway (gtx\<lparr>fg_gateway_key := gateway_key, fg_num_outputs := num_payments,
            fg_unused := 0, fg_outputs := outs\<rparr>)) private_key }
      | _ \<Rightarrow> None)"

fun set_tx_fields :: "protocol_tx \<Rightarrow> pubkey \<Rightarrow> address \<Rightarrow> u32 \<Rightarrow> u32 \<Rightarrow> u32 \<Rightarrow> protocol_tx" where
  \<comment> \<open>the stores through the field pointers of \<open>finish_tx_with_inputs\<close>\<close>
  "set_tx_fields (Normal t) key addr send change num =
     Normal (t\<lparr>n_input_key := key, n_output_addr := addr, n_send_amount := send,
       n_change_amount := change, n_num_inputs := num\<rparr>)"
| "set_tx_fields (To_gateway t) key addr send change num =
     To_gateway (t\<lparr>tg_input_key := key, tg_to_gateway_addr := addr, tg_send_amount := send,
       tg_change_amount := change, tg_num_inputs := num\<rparr>)"
| "set_tx_fields tx key addr send change num = tx"

fun set_input :: "protocol_tx \<Rightarrow> nat \<Rightarrow> protocol_input \<Rightarrow> protocol_tx option" where
  \<comment> \<open>a store through \<open>tx_input\<close>: \<open>None\<close> when it is NULL or past the allocated inputs\<close>
  "set_input (Normal t) i inp =
     do { _ \<leftarrow> tx_input (Normal t) i; Some (Normal (t\<lparr>n_inputs := (n_inputs t)[i := inp]\<rparr>)) }"
| "set_input (To_gateway t) i inp =
     do { _ \<leftarrow> tx_input (To_gateway t) i; Some (To_gateway (t\<lparr>tg_inputs := (tg_inputs t)[i := inp]\<rparr>)) }"
| "set_input tx i inp = None"

fun copy_inputs :: "protocol_tx \<Rightarrow> protocol_input list \<Rightarrow> nat \<Rightarrow> protocol_tx option" where
  \<comment> \<open>the first \<open>n\<close> rounds of the loop\<close>
  "copy_inputs tx inputs 0 = Some tx"
| "copy_inputs tx inputs (Suc i) =
     do { tx' \<leftarrow> copy_inputs tx inputs i;
          inp \<leftarrow> c_nth inputs i;
          c_assert (in_unused inp = 0);
          set_input tx' i inp }"

definition finish_tx_with_inputs ::
    "openssl \<Rightarrow> protocol_tx \<Rightarrow> address \<Rightarrow> u32 \<Rightarrow> u32 \<Rightarrow> u32 \<Rightarrow> protocol_input list \<Rightarrow> nat
     \<Rightarrow> protocol_tx option option" where
  "finish_tx_with_inputs ssl tx pay_to send_amount change_amount num inputs private_key =
     (let key = i2o_ECPublicKey ssl private_key in
      if length key \<noteq> 33 then Some None
      else do {
        tx' \<leftarrow> copy_inputs (set_tx_fields tx key pay_to send_amount change_amount num) inputs (unat num);
        sign_tx ssl tx' private_key })"

definition create_normal_tx ::
    "openssl \<Rightarrow> address \<Rightarrow> u32 \<Rightarrow> u32 \<Rightarrow> u32 \<Rightarrow> bool \<Rightarrow> protocol_input list \<Rightarrow> nat \<Rightarrow> protocol_tx option option" where
  "create_normal_tx ssl pay_to send_amount change_amount num pay_fee inputs private_key =
     finish_tx_with_inputs ssl (alloc_tx TX_NORMAL pay_fee (ucast num)) pay_to send_amount
       change_amount num inputs private_key"

definition create_to_gateway_tx ::
    "openssl \<Rightarrow> address \<Rightarrow> u32 \<Rightarrow> u32 \<Rightarrow> u32 \<Rightarrow> bool \<Rightarrow> protocol_input list \<Rightarrow> nat \<Rightarrow> protocol_tx option option" where
  "create_to_gateway_tx ssl gateway_addr send_amount change_amount num pay_fee inputs private_key =
     finish_tx_with_inputs ssl (alloc_tx TX_TO_GATEWAY pay_fee (ucast num)) gateway_addr send_amount
       change_amount num inputs private_key"

definition create_claim_tx ::
    "openssl \<Rightarrow> sha \<Rightarrow> u32 \<Rightarrow> bool \<Rightarrow> nat \<Rightarrow> protocol_tx option option" where
  "create_claim_tx ssl reward_tx amount pay_fee private_key =
     (case alloc_tx TX_CLAIM pay_fee 1 of
        Claim t \<Rightarrow>
          (let key = i2o_ECPublicKey ssl private_key in
           if length key \<noteq> 33 then Some None
           else sign_tx ssl (Claim (t\<lparr>c_input_key := key, c_amount := amount,
             c_input := \<lparr>in_input = reward_tx, in_output = 0, in_unused = 0\<rparr>\<rparr>)) private_key)
      | _ \<Rightarrow> None)"

subsection \<open>References that are made are accepted\<close>

definition blocks_ok :: "state \<Rightarrow> bool" where
  \<comment> \<open>every block is well formed, and timestamps leave room for the horizon\<close>
  "blocks_ok s \<longleftrightarrow> (\<forall>p b. st_heap s p = Some b \<longrightarrow> block_ok b
     \<and> unat (bt_timestamp (b_tailer b)) + PROTOCOL_TX_HORIZON_SECS (st_test_net s) < 2 ^ 32)"

definition ref_to :: "block \<Rightarrow> block \<Rightarrow> nat \<Rightarrow> txhash_elem \<Rightarrow> protocol_input_ref" where
  "ref_to pb bb offset te =
     \<lparr>ref_blocks_ago = bh_depth (b_hdr pb) - bh_depth (b_hdr bb) + word_of_nat offset,
      ref_shard = te_shardnum te, ref_txoff = te_txoff te, ref_unused = 0\<rparr>"

lemma resolve_input_Some:
  assumes st: "heap_ok (st_heap s)" "st_heap s prev = Some pb" "hashes_ok ssl s" "tables_ok rt"
    and "wf_tx tx" and "i < unat (num_inputs tx)"
    and "resolve_input rt s prev tx i offset = Some (Some ref)"
  obtains te b bb where "te \<in> set (st_txhash s)" "te_sha te = in_input (tx_inputs tx ! i)"
    "te_u te = In_block b" "ancestor (st_heap s) b prev" "st_heap s b = Some bb" "ref = ref_to pb bb offset te"
    "\<not> bt_timestamp (b_tailer bb) + word_of_nat (PROTOCOL_TX_HORIZON_SECS (st_test_net s)) - 3600
       < (word_of_nat (rt_time rt) :: u32)"
proof -
  let ?inp = "tx_inputs tx ! i"
  obtain r where r: "txhash_gettx_ancestor rt s (in_input ?inp) prev = Some r"
    "case r of
       Some te \<Rightarrow> te \<in> set (st_txhash s) \<and> te_sha te = in_input ?inp
         \<and> (\<exists>b. te_u te = In_block b \<and> ancestor (st_heap s) b prev)
     | None \<Rightarrow> True"
    using gettx_ancestor_eq [OF st, of "in_input ?inp"] by (auto split: option.splits)
  have res: "resolve_input rt s prev tx i offset = Some (Some ref)" by fact
  have inp: "tx_input tx i = Some ?inp" using assms(5,6) by (simp add: tx_input_eq)
  from r res inp obtain te b where te: "r = Some te" "te \<in> set (st_txhash s)" "te_sha te = in_input ?inp"
    "te_u te = In_block b" "ancestor (st_heap s) b prev"
    by (cases r) (auto simp: resolve_input_def)
  obtain bb where bb: "st_heap s b = Some bb" using ancestor_left [OF te(5)] by blast
  show thesis
    using that [OF te(2-5) bb] res inp r(1) te(1,4) bb st(2)
    by (auto simp: resolve_input_def ref_to_def split: if_splits)
qed

lemma ref_to_target:
  assumes ok: "heap_ok h" and c: "h block = Some cb" and p: "h prev = Some pb"
    and up: "block_ancestor h (Some block) offset = Some (Some prev)"
    and anc: "ancestor h b prev" and b: "h b = Some bb"
  shows "block_ancestor h (Some block) (unat (ref_blocks_ago (ref_to pb bb offset te))) = Some (Some b)"
proof -
  have cb: "b_depth cb = b_depth pb + offset" "ancestor h prev block"
    using block_ancestor_eq [OF ok c, of offset] up p by (auto split: if_splits)
  have le: "b_depth bb \<le> b_depth pb" using ancestor_depth [OF ok anc b p] by simp
  let ?n = "b_depth pb - b_depth bb + offset"
  have "unat (word_of_nat offset :: u32) = offset"
    using cb(1) unat_u32_less [of "bh_depth (b_hdr cb)"] by (simp add: unsigned_of_nat take_bit_nat_eq_self)
  moreover have "?n < 2 ^ 32"
    using cb(1) unat_u32_less [of "bh_depth (b_hdr cb)"] by simp
  ultimately have n: "unat (ref_blocks_ago (ref_to pb bb offset te)) = ?n"
    using le by (simp add: ref_to_def unat_word_ariths unat_sub_if' word_le_nat_alt)
  obtain a ab where a: "block_ancestor h (Some block) ?n = Some (Some a)" "h a = Some ab"
    "b_depth ab + ?n = b_depth cb" "ancestor h a block"
    using block_ancestor_eq [OF ok c, of ?n] cb(1) le by auto
  have "b_depth ab = b_depth bb" using a(3) cb(1) le by simp
  then have "a = b"
    using ancestor_unique [OF ok a(4) ancestor_trans [OF cb(2) anc] a(2) b] by simp
  with a(1) n show ?thesis by simp
qed

lemma horizon_ge: "3600 \<le> PROTOCOL_TX_HORIZON_SECS test" "PROTOCOL_TX_HORIZON_SECS test < 2 ^ 32"
  by (simp_all add: c_simps)

lemma not_beyond_horizon:
  assumes "unat (t :: u32) + H < 2 ^ 32" and "3600 \<le> H" and "now < 2 ^ 32"
    and "\<not> t + word_of_nat H - 3600 < (word_of_nat now :: u32)" and "unat c \<le> now + 3600"
  shows "\<not> t + word_of_nat H < c"
proof -
  have H: "unat (word_of_nat H :: u32) = H" "unat (word_of_nat now :: u32) = now"
    using assms(1,3) by (simp_all add: unsigned_of_nat take_bit_nat_eq_self)
  then have s: "unat (t + word_of_nat H) = unat t + H" using assms(1) by (simp add: unat_word_ariths)
  then have "unat (t + word_of_nat H - 3600) = unat t + H - 3600"
    using assms(2) by (simp add: unat_sub_if')
  with s H assms(2,4,5) show ?thesis by (simp add: word_less_nat_alt)
qed

lemma ref_to_checks:
  assumes st: "heap_ok (st_heap s)" "blocks_ok s" "hashes_ok ssl s"
    and c: "st_heap s block = Some cb" and p: "st_heap s prev = Some pb"
    and up: "block_ancestor (st_heap s) (Some block) offset = Some (Some prev)"
    and te: "te \<in> set (st_txhash s)" "te_u te = In_block b"
    and anc: "ancestor (st_heap s) b prev" and b: "st_heap s b = Some bb"
    and time: "\<not> bt_timestamp (b_tailer bb) + word_of_nat (PROTOCOL_TX_HORIZON_SECS (st_test_net s))
        < bt_timestamp (b_tailer cb)"
  shows "check_ref s block (ref_to pb bb offset te) = Some PROTOCOL_ECODE_NONE"
    and "\<exists>x. unat (te_shardnum te) < length (b_shard bb)
      \<and> txrefhash_in_shard ssl (b_shard bb ! unat (te_shardnum te)) (te_txoff te) = Some (Some x)
      \<and> trh_txhash x = te_sha te"
proof -
  have e: "elem_ok ssl (st_heap s) te" using st(3) te(1) by (simp add: hashes_ok_def)
  have bo: "block_ok bb" using st(2) b by (simp add: blocks_ok_def)
  have po: "unat (te_shardnum te) < length (b_shard bb)" "unat (te_shardnum te) < unat (num_shards (b_hdr bb))"
    "te_txoff te < bs_size (b_shard bb ! unat (te_shardnum te))"
    using e te(2) b by (auto simp: elem_ok_def pos_ok_def)
  then show "check_ref s block (ref_to pb bb offset te) = Some PROTOCOL_ECODE_NONE"
    using ref_to_target [OF st(1) c p up anc b, of te] b c time bo
    by (auto simp: check_ref_def ref_to_def block_ok_def not_le)
  obtain bb' slot where bb': "st_heap s b = Some bb'" and sl: "te_slot (st_heap s) b te = Some slot"
    and tr: "txrefhash_in_shard ssl (b_shard bb' ! unat (te_shardnum te)) (te_txoff te) =
       (case slot of Txp None \<Rightarrow> Some None | Txp (Some (t, rs)) \<Rightarrow> map_option Some (hash_tx_and_refs ssl t rs)
        | Hash x \<Rightarrow> Some (Some x))"
    using elem_in_block [OF e te(2)] by metis
  have "slot_ok slot"
    using sl bo po(1) b by (auto simp: te_slot_def block_ok_def shard_ok_def list_all_length bind_eq_Some_conv)
  then have "\<exists>x. txrefhash_in_shard ssl (b_shard bb ! unat (te_shardnum te)) (te_txoff te) = Some (Some x)
      \<and> trh_txhash x = te_sha te"
    using tr sl e te(2) b bb'
    by (auto simp: elem_ok_def slot_ok_def hash_tx_and_refs_def hash_refs_def c_slice_def
        split: txslot.splits option.splits)
  then show "\<exists>x. unat (te_shardnum te) < length (b_shard bb)
      \<and> txrefhash_in_shard ssl (b_shard bb ! unat (te_shardnum te)) (te_txoff te) = Some (Some x)
      \<and> trh_txhash x = te_sha te" using po(1) by blast
qed

lemma create_refs_loop_nth:
  assumes "create_refs_loop rt s prev tx offset n = Some (Some refs)"
  shows "length refs = n \<and> (\<forall>i < n. resolve_input rt s prev tx i offset = Some (Some (refs ! i)))"
  using assms
  by (induction n arbitrary: refs)
    (auto simp: bind_eq_Some_conv nth_append less_Suc_eq split: option.splits)

text \<open>
  References made by \<open>create_refs\<close> from a block are accepted in any block \<open>offset\<close> steps after it
  whose timestamp is at most an hour ahead of the clock: they are within the horizon, point
  to existing positions, and the hashes there are those of the inputs.
\<close>

theorem created_refs_accepted:
  assumes st: "heap_ok (st_heap s)" "blocks_ok s" "hashes_ok (rt_ssl rt) s" "tables_ok rt"
    and wf: "wf_tx tx"
    and c: "st_heap s block = Some cb" and p: "st_heap s prev = Some pb"
    and up: "block_ancestor (st_heap s) (Some block) offset = Some (Some prev)"
    and now: "rt_time rt < 2 ^ 32" "unat (bt_timestamp (b_tailer cb)) \<le> rt_time rt + 3600"
    and made: "create_refs rt s prev tx offset = Some (Some refs)"
  shows "check_tx_refs (rt_ssl rt) s block tx refs = Some (ECODE_REF_OK, None)"
proof -
  let ?n = "unat (num_inputs tx)" and ?h = "st_heap s"
  have r: "length refs = ?n" "\<forall>i < ?n. resolve_input rt s prev tx i offset = Some (Some (refs ! i))"
    using create_refs_loop_nth made by (auto simp: create_refs_def)
  have one: "check_ref s block (refs ! i) = Some PROTOCOL_ECODE_NONE \<and>
    (\<exists>b bb x. block_ancestor ?h (Some block) (unat (ref_blocks_ago (refs ! i))) = Some (Some b) \<and> ?h b = Some bb
      \<and> unat (ref_shard (refs ! i)) < length (b_shard bb)
      \<and> txrefhash_in_shard (rt_ssl rt) (b_shard bb ! unat (ref_shard (refs ! i))) (ref_txoff (refs ! i)) = Some (Some x)
      \<and> trh_txhash x = in_input (tx_inputs tx ! i))" if i: "i < ?n" for i
  proof -
    have "resolve_input rt s prev tx i offset = Some (Some (refs ! i))" using r(2) i by blast
    then obtain te b bb where te: "te \<in> set (st_txhash s)" "te_sha te = in_input (tx_inputs tx ! i)"
      "te_u te = In_block b" "ancestor ?h b prev" "?h b = Some bb" "refs ! i = ref_to pb bb offset te"
      "\<not> bt_timestamp (b_tailer bb) + word_of_nat (PROTOCOL_TX_HORIZON_SECS (st_test_net s)) - 3600
         < (word_of_nat (rt_time rt) :: u32)"
      by (rule resolve_input_Some [OF st(1) p st(3,4) wf i])
    have "unat (bt_timestamp (b_tailer bb)) + PROTOCOL_TX_HORIZON_SECS (st_test_net s) < 2 ^ 32"
      using st(2) te(5) by (simp add: blocks_ok_def)
    from not_beyond_horizon [OF this horizon_ge(1) now(1) te(7) now(2)]
    have t: "\<not> bt_timestamp (b_tailer bb) + word_of_nat (PROTOCOL_TX_HORIZON_SECS (st_test_net s))
        < bt_timestamp (b_tailer cb)" .
    show ?thesis
      using ref_to_checks [OF st(1-3) c p up te(1,3,4,5) t] ref_to_target [OF st(1) c p up te(4,5), of te] te(2,5,6)
      by (auto simp: ref_to_def)
  qed
  have "check_refs s block refs n = Some PROTOCOL_ECODE_NONE" if "n \<le> ?n" for n
    using that by (induction n) (use one r(1) in auto)
  moreover have "check_refs_loop (rt_ssl rt) s block tx refs n = Some (Inr None)" if "n \<le> ?n" for n
    using that
  proof (induction n)
    case (Suc n)
    then show ?case using one [of n] r(1) wf by (auto simp: tx_input_eq)
  qed simp
  ultimately show ?thesis by (simp add: check_tx_refs_def Let_def)
qed

subsection \<open>Transactions that are made are valid\<close>

lemma copy_inputs_Normal:
  assumes "copy_inputs (Normal t) inputs n = Some tx" and "n \<le> unat (n_num_inputs t)"
  shows "n \<le> length (n_inputs t) \<and> n \<le> length inputs \<and> (\<forall>i < n. in_unused (inputs ! i) = 0)
    \<and> tx = Normal (t\<lparr>n_inputs := take n inputs @ drop n (n_inputs t)\<rparr>)"
  using assms
proof (induction n arbitrary: tx)
  case (Suc n)
  then obtain tx' where "copy_inputs (Normal t) inputs n = Some tx'" by (auto simp: bind_eq_Some_conv)
  with Suc show ?case
    by (auto simp: bind_eq_Some_conv less_Suc_eq take_Suc_conv_app_nth list_update_append upd_conv_take_nth_drop
        Cons_nth_drop_Suc [symmetric] split: if_splits)
qed simp

lemma copy_inputs_To_gateway:
  assumes "copy_inputs (To_gateway t) inputs n = Some tx" and "n \<le> unat (tg_num_inputs t)"
  shows "n \<le> length (tg_inputs t) \<and> n \<le> length inputs \<and> (\<forall>i < n. in_unused (inputs ! i) = 0)
    \<and> tx = To_gateway (t\<lparr>tg_inputs := take n inputs @ drop n (tg_inputs t)\<rparr>)"
  using assms
proof (induction n arbitrary: tx)
  case (Suc n)
  then obtain tx' where "copy_inputs (To_gateway t) inputs n = Some tx'" by (auto simp: bind_eq_Some_conv)
  with Suc show ?case
    by (auto simp: bind_eq_Some_conv less_Suc_eq take_Suc_conv_app_nth list_update_append upd_conv_take_nth_drop
        Cons_nth_drop_Suc [symmetric] split: if_splits)
qed simp

lemma unat_ucast_small: "unat (num :: u32) < 2 ^ 16 \<Longrightarrow> unat (ucast num :: u16) = unat num"
  by (simp add: unsigned_ucast_eq take_bit_nat_eq_self)

lemma sign_tx_keeps:
  "sign_tx ssl tx key = Some (Some tx') \<Longrightarrow> \<exists>sig. tx' = set_signature tx sig"
  by (auto simp: sign_tx_def Let_def bind_eq_Some_conv split: option.splits) (auto split: if_splits simp: bind_eq_Some_conv)

text \<open>
  C27. A payment made by \<open>create_normal_tx\<close> or \<open>create_to_gateway_tx\<close> from amounts and inputs within the
  protocol's bounds is well formed, spends exactly the inputs it was given, and passes
  \<open>check_tx\<close> in every context.
\<close>

theorem created_tx_passes_check:
  assumes ssl: "bn_ok ssl" "ecdsa_ok ssl" and net: "st_test_net s"
    and ord: "\<And>b. blk = Some b \<Longrightarrow> unat (bh_shard_order (b_hdr b)) \<le> 16"
    and args: "length pay_to = 20" "amounts_valid send change num" "list_all wf_input inputs"
    and made: "create_normal_tx ssl pay_to send change num pay_fee inputs key = Some (Some tx)
      \<or> create_to_gateway_tx ssl pay_to send change num pay_fee inputs key = Some (Some tx)"
  shows "wf_tx tx \<and> tx_inputs tx = take (unat num) inputs \<and> tx_pays_fee tx = pay_fee
    \<and> check_tx ssl s tx blk = Some PROTOCOL_ECODE_NONE"
proof -
  let ?key = "i2o_ECPublicKey ssl key"
  have num: "unat num \<le> 4" "unat (ucast num :: u16) = unat num"
    using args(2) unat_ucast_small [of num] by (simp_all add: amounts_valid_def)
  have inps: "list_all wf_input (take (unat num) inputs)"
    using args(3) by (auto simp: list_all_iff dest: in_set_takeD)
  obtain tx0 where len: "length ?key = 33" and s: "sign_tx ssl tx0 key = Some (Some tx)"
    and wf: "wf_tx tx0" and sg: "signer tx0 = ?key" and i: "tx_inputs tx0 = take (unat num) inputs"
    and fee: "tx_pays_fee tx0 = pay_fee"
    and v: "hdr_version tx0 = 1"
    and a: "case tx0 of Normal t \<Rightarrow> amounts_valid (n_send_amount t) (n_change_amount t) (n_num_inputs t)
        | To_gateway t \<Rightarrow> amounts_valid (tg_send_amount t) (tg_change_amount t) (tg_num_inputs t) | _ \<Rightarrow> False"
    using made
  proof
    assume "create_normal_tx ssl pay_to send change num pay_fee inputs key = Some (Some tx)"
    then obtain tx0 where "length ?key = 33" "sign_tx ssl tx0 key = Some (Some tx)"
      and c: "copy_inputs (set_tx_fields (alloc_tx TX_NORMAL pay_fee (ucast num)) ?key pay_to send change num)
        inputs (unat num) = Some tx0"
      by (auto simp: create_normal_tx_def finish_tx_with_inputs_def Let_def bind_eq_Some_conv split: if_splits)
    then show thesis
      using copy_inputs_Normal [OF c [unfolded alloc_tx.simps set_tx_fields.simps]] num args inps
      by (intro that [of tx0]) (auto simp: blank_signature_def wf_signature_def current_version_def)
  next
    assume "create_to_gateway_tx ssl pay_to send change num pay_fee inputs key = Some (Some tx)"
    then obtain tx0 where "length ?key = 33" "sign_tx ssl tx0 key = Some (Some tx)"
      and c: "copy_inputs (set_tx_fields (alloc_tx TX_TO_GATEWAY pay_fee (ucast num)) ?key pay_to send change num)
        inputs (unat num) = Some tx0"
      by (auto simp: create_to_gateway_tx_def finish_tx_with_inputs_def Let_def bind_eq_Some_conv split: if_splits)
    then show thesis
      using copy_inputs_To_gateway [OF c [unfolded alloc_tx.simps set_tx_fields.simps]] num args inps
      by (intro that [of tx0]) (auto simp: blank_signature_def wf_signature_def current_version_def)
  qed
  have ok: "check_tx_sign ssl tx ?key = Some True" "wf_tx tx"
    using sign_tx_verifies [OF ssl wf s] by simp_all
  obtain sig where sig: "tx = set_signature tx0 sig" using sign_tx_keeps [OF s] by blast
  define o' where "o' = (case blk of None \<Rightarrow> next_shard_order | Some b \<Rightarrow> bh_shard_order (b_hdr b))"
  have "unat o' \<le> 16" using ord by (auto simp: o'_def next_shard_order_def c_simps split: option.splits)
  moreover have "tx_valid ssl o' tx"
    using ok(1) sg v a sig by (cases tx0) (auto simp: tx_valid_def)
  ultimately have "check_tx ssl s tx blk = Some PROTOCOL_ECODE_NONE"
    using check_tx_eq [OF net ok(2) o'_def] by auto
  then show ?thesis using ok(2) sig i fee by (cases tx0) auto
qed

text \<open>
  With 65536 inputs or more the room that \<open>alloc_tx\<close> makes is too small, because its \<open>num\<close> has 16
  bits, and the inputs are written past the end of the allocation.
\<close>

lemma create_normal_tx_overflow:
  assumes "2 ^ 16 \<le> unat num"
  shows "create_normal_tx ssl pay_to send change num pay_fee inputs key \<noteq> Some (Some tx)"
proof
  assume "create_normal_tx ssl pay_to send change num pay_fee inputs key = Some (Some tx)"
  then obtain tx0 where
    "copy_inputs (set_tx_fields (alloc_tx TX_NORMAL pay_fee (ucast num)) (i2o_ECPublicKey ssl key)
      pay_to send change num) inputs (unat num) = Some tx0"
    by (auto simp: create_normal_tx_def finish_tx_with_inputs_def Let_def bind_eq_Some_conv split: if_splits)
  then have "unat num \<le> unat (ucast num :: u16)"
    unfolding alloc_tx.simps set_tx_fields.simps using copy_inputs_Normal by fastforce
  with assms unat_u16_less [of "ucast num"] show False by simp
qed

subsection \<open>Examples\<close>

definition ex_runtime :: runtime where
  \<comment> \<open>the clock is close to the example block's time\<close>
  "ex_runtime = model_runtime\<lparr>rt_time := 1000\<rparr>"

lemma ex_runtime_ok: "tables_ok ex_runtime" "rt_ssl ex_runtime = model_openssl" "rt_time ex_runtime = 1000"
  using tables_ok_model by (simp_all add: ex_runtime_def tables_ok_def)

lemma ex_normal_inputs: "num_inputs ex_normal = 1"
  by (simp add: ex_normal_def)

lemma ex_blocks_ok: "blocks_ok ex_tx_state"
  using ex_wf(2)
  by (auto simp: blocks_ok_def ex_tx_state_def ex_heap_def ex_tx_block_def ex_block_def ex_chain_parts_def
      block_ok_def shard_ok_def slot_ok_def is_known_def is_hash_def num_shards_def c_simps ex_normal_inputs
      split: if_splits)

theorem created_refs_witness:
  "\<exists>refs. create_refs ex_runtime ex_tx_state 0 ex_spend 0 = Some (Some refs)
    \<and> check_tx_refs model_openssl ex_tx_state 0 ex_spend refs = Some (ECODE_REF_OK, None)"
proof -
  have a: "txhash_gettx_ancestor ex_runtime ex_tx_state ex_sha 0 = Some (Some ex_elem)"
    by (simp add: txhash_gettx_ancestor_def txhash_vals_def ex_runtime_def model_runtime_def txhash_eq_iff)
      (simp add: ex_tx_state_def ex_elem_def block_preceeds.simps)
  have ts: "bt_timestamp (b_tailer ex_tx_block) = 0"
    by (simp add: ex_tx_block_def ex_chain_parts_def)
  then have "\<exists>ref. resolve_input ex_runtime ex_tx_state 0 ex_spend 0 0 = Some (Some ref)"
    using a ex_elem_tx(2) ex_tx_heap(2)
    by (simp add: resolve_input_def ex_spend_def ex_runtime_ok) (simp add: ex_tx_state_def c_simps)
  then obtain refs where made: "create_refs ex_runtime ex_tx_state 0 ex_spend 0 = Some (Some refs)"
    by (auto simp: create_refs_def) (simp add: ex_spend_def)
  have "check_tx_refs (rt_ssl ex_runtime) ex_tx_state 0 ex_spend refs = Some (ECODE_REF_OK, None)"
    by (rule created_refs_accepted [OF ex_tx_heap(1) ex_blocks_ok _ _ ex_spend_wf ex_tx_heap(2,2) _ _ _ made])
      (use ex_tx_hashes_ok ex_runtime_ok ts in auto)
  with made show ?thesis by (auto simp: ex_runtime_ok)
qed

theorem created_tx_witness:
  "\<exists>tx. create_normal_tx model_openssl (replicate 20 5) 400 98 1 True
       [\<lparr>in_input = ex_sha, in_output = 1, in_unused = 0\<rparr>] 6 = Some (Some tx)
    \<and> check_tx model_openssl ex_tx_state tx None = Some PROTOCOL_ECODE_NONE"
proof -
  let ?inp = "\<lparr>in_input = ex_sha, in_output = 1, in_unused = 0\<rparr> :: protocol_input"
  obtain tx0 where tx0: "copy_inputs (set_tx_fields (alloc_tx TX_NORMAL True 1) (i2o_ECPublicKey model_openssl 6)
      (replicate 20 5) 400 98 1) [?inp] 1 = Some tx0" "wf_tx tx0"
    by (simp add: wf_input_def blank_signature_def wf_signature_def model_openssl_def)
  obtain tx where tx: "sign_tx model_openssl tx0 6 = Some (Some tx)"
    using model_sign [OF tx0(2)] by blast
  then have made: "create_normal_tx model_openssl (replicate 20 5) 400 98 1 True [?inp] 6 = Some (Some tx)"
    using tx0(1) by (simp add: create_normal_tx_def finish_tx_with_inputs_def Let_def) (simp add: model_openssl_def)
  have "wf_tx tx \<and> tx_inputs tx = take (unat (1 :: u32)) [?inp] \<and> tx_pays_fee tx = True
    \<and> check_tx model_openssl ex_tx_state tx None = Some PROTOCOL_ECODE_NONE"
    by (rule created_tx_passes_check [OF bn_ok_model ecdsa_ok_model])
      (use made in \<open>auto simp: amounts_valid_def wf_input_def ex_tx_state_def\<close>)
  with made show ?thesis by blast
qed

end
