(* ===== verification/Pending.thy ===== *)
theory Pending
  imports Create_tx
begin

section \<open>Pending transactions\<close>

text \<open>
  \<^verbatim>\<open>pending.c\<close>: the transactions that wait for a block. Those with known inputs are kept per shard
  in arrays ordered by \<open>tx_cmp\<close>, with references for the next block; the others are in a list.

  Memory ownership (\<^verbatim>\<open>tal\<close>) is not modelled: a transaction is a value, not a pointer. What the
  block generator is told is appended to \<open>st_out\<close>.

  The invariant \<open>pending_inv\<close> says that the arrays are strictly ordered, hold at most 255
  transactions and only those of their shard. It holds in every state the operations reach
  (\<open>pending_reach\<close>), whatever happens to the chain in between. The search, insertion and
  deletion lemmas come from the interpretation \<open>txo\<close> of the locale \<open>total_cmp\<close>.
\<close>

subsection \<open>Operations\<close>

definition new_pending_block :: pending_block where
  "new_pending_block =
     \<lparr>pb_pend = replicate (2 ^ unat PROTOCOL_INITIAL_SHARD_ORDER) [], pb_needs_recheck = False,
      pb_unknown_tx = [], pb_num_unknown = 0\<rparr>"

definition add_to_unknown_pending :: "state \<Rightarrow> protocol_tx \<Rightarrow> state" where
  "add_to_unknown_pending s tx =
     s\<lparr>st_pending := (st_pending s)\<lparr>pb_unknown_tx := pb_unknown_tx (st_pending s) @ [tx],
         pb_num_unknown := pb_num_unknown (st_pending s) + 1\<rparr>\<rparr>"

fun shard_to_pending :: "state \<Rightarrow> block_shard \<Rightarrow> nat \<Rightarrow> state option" where
  \<comment> \<open>the inner loop of \<open>block_to_pending\<close>, first \<open>n\<close> rounds\<close>
  "shard_to_pending s sh 0 = Some s"
| "shard_to_pending s sh (Suc i) =
     do { s1 \<leftarrow> shard_to_pending s sh i;
          t \<leftarrow> tx_for sh (word_of_nat i);
          Some (case t of
              None \<Rightarrow> s1
            | Some tx \<Rightarrow>
                (let s2 = add_to_unknown_pending s1 tx
                 in s2\<lparr>st_pending := (st_pending s2)\<lparr>pb_needs_recheck := True\<rparr>\<rparr>)) }"

fun shards_to_pending :: "state \<Rightarrow> block \<Rightarrow> nat \<Rightarrow> state option" where
  "shards_to_pending s block 0 = Some s"
| "shards_to_pending s block (Suc i) =
     do { s1 \<leftarrow> shards_to_pending s block i;
          sh \<leftarrow> c_nth (b_shard block) i;
          n \<leftarrow> c_nth (b_shard_nums block) i;
          shard_to_pending s1 sh (unat n) }"

definition block_to_pending :: "state \<Rightarrow> block \<Rightarrow> state option" where
  "block_to_pending s block = shards_to_pending s block (unat (num_shards (b_hdr block)))"

definition find_pending_in_arr :: "openssl \<Rightarrow> pending_tx list \<Rightarrow> protocol_tx \<Rightarrow> (bool \<times> nat) option" where
  "find_pending_in_arr ssl pend tx = find_in_arr (tx_cmp ssl) (map pt_tx pend) tx 0 (length pend)"

definition insert_pending_tx :: "runtime \<Rightarrow> state \<Rightarrow> protocol_tx \<Rightarrow> (bool \<times> state) option" where
  "insert_pending_tx rt s tx =
     do { lk \<leftarrow> c_nth (st_longest_knowns s) 0;
          sh \<leftarrow> shard_of_tx (rt_ssl rt) tx next_shard_order;
          let shard = (ucast sh :: u16);
          pend \<leftarrow> c_nth (pb_pend (st_pending s)) (unat shard);
          if length pend = 255 then Some (True, add_to_unknown_pending s tx)
          else do {
            (found, pos) \<leftarrow> find_pending_in_arr (rt_ssl rt) pend tx;
            if found then c_abort
            else do {
              refs \<leftarrow> create_refs rt s lk tx 1;
              (case refs of
                 None \<Rightarrow> Some (False, s)
               | Some rs \<Rightarrow> do {
                   pend' \<leftarrow> arr_add pend pos \<lparr>pt_tx = tx, pt_refs = rs\<rparr>;
                   Some (True,
                     s\<lparr>st_pending := (st_pending s)\<lparr>pb_pend := (pb_pend (st_pending s))[unat shard := pend']\<rparr>,
                       st_out := st_out s @ [Tell_generator_new_pending (ucast shard) pos]\<rparr>) }) } } }"

definition num_pending_known :: "state \<Rightarrow> nat" where
  "num_pending_known s = sum_list (map length (pb_pend (st_pending s)))"

fun pending_user :: "runtime \<Rightarrow> state \<Rightarrow> protocol_tx \<Rightarrow> nat \<Rightarrow> bool option" where
  \<comment> \<open>the loop of \<open>find_pending_doublespend\<close> over the first \<open>n\<close> inputs\<close>
  "pending_user rt s tx 0 = Some False"
| "pending_user rt s tx (Suc i) =
     do { r \<leftarrow> pending_user rt s tx i;
          if r then Some True
          else do {
            inp \<leftarrow> tx_input tx i;
            Some (\<exists>ie \<in> set (inputhash_vals rt (st_inputhash s) (in_input inp, in_output inp)).
                    txhash_get_pending_tx rt s (ie_used_by ie) \<noteq> None) } }"

definition find_pending_doublespend :: "runtime \<Rightarrow> state \<Rightarrow> protocol_tx \<Rightarrow> bool option" where
  "find_pending_doublespend rt s tx = pending_user rt s tx (unat (num_inputs tx))"

definition must_pay :: "state \<Rightarrow> protocol_tx \<Rightarrow> bool" where
  \<comment> \<open>the second \<open>switch\<close> of \<open>add_pending_tx\<close>\<close>
  "must_pay s tx =
     (case tx_type tx of
        TX_FROM_GATEWAY \<Rightarrow> st_require_gateway_tx_fee s
      | _ \<Rightarrow> st_require_non_gateway_tx_fee s)"

text \<open>
  The results of \<open>add_pending_tx\<close>: the error code, what is stored in \<open>bad_input_num\<close>, what is stored
  in \<open>too_old\<close>, and the new state.
\<close>

definition add_pending_tx ::
    "runtime \<Rightarrow> state \<Rightarrow> protocol_tx \<Rightarrow> sha \<Rightarrow> (input_ecode \<times> nat option \<times> bool option \<times> state) option" where
  "add_pending_tx rt s tx sha =
     do { lk \<leftarrow> c_nth (st_longest_knowns s) 0;
          te \<leftarrow> txhash_gettx_ancestor rt s sha lk;
          if te \<noteq> None then Some (ECODE_INPUT_OK, None, None, s)
          else if txhash_get_pending_tx rt s sha \<noteq> None then Some (ECODE_INPUT_OK, None, None, s)
          else do {
            (e, bad) \<leftarrow> check_tx_inputs rt s lk None tx;
            ierr \<leftarrow> (if e = ECODE_INPUT_OK then do {
                       d \<leftarrow> find_pending_doublespend rt s tx;
                       Some (if d then ECODE_INPUT_DOUBLESPEND else e) }
                     else Some e);
            if ierr \<noteq> ECODE_INPUT_OK \<and> ierr \<noteq> ECODE_INPUT_UNKNOWN then Some (ierr, bad, Some False, s)
            else if must_pay s tx \<and> \<not> tx_pays_fee tx then Some (ECODE_INPUT_OK, bad, None, s)
            else do {
              (ok, s1) \<leftarrow> (if ierr = ECODE_INPUT_UNKNOWN then Some (True, add_to_unknown_pending s tx)
                           else insert_pending_tx rt s tx);
              if \<not> ok then Some (ECODE_INPUT_BAD, bad, Some True, s1)
              else do {
                s2 \<leftarrow> add_pending_tx_to_hashes rt s1 tx;
                Some (ierr, bad, None, s2) } } } }"

fun unhash_all :: "runtime \<Rightarrow> state \<Rightarrow> protocol_tx list \<Rightarrow> state option" where
  \<comment> \<open>the loops of \<open>recheck_pending_txs\<close> that take transactions out\<close>
  "unhash_all rt s [] = Some s"
| "unhash_all rt s (tx # txs) = do { s1 \<leftarrow> remove_pending_tx_from_hashes rt s tx; unhash_all rt s1 txs }"

fun readd_all :: "runtime \<Rightarrow> state \<Rightarrow> protocol_tx list \<Rightarrow> state option" where
  "readd_all rt s [] = Some s"
| "readd_all rt s (tx # txs) =
     do { sha \<leftarrow> hash_tx (rt_ssl rt) tx;
          (_, _, _, s1) \<leftarrow> add_pending_tx rt s tx sha;
          readd_all rt s1 txs }"

definition recheck_pending_txs :: "runtime \<Rightarrow> state \<Rightarrow> state option" where
  "recheck_pending_txs rt s =
     (if \<not> pb_needs_recheck (st_pending s) then Some s
      else do {
        let s0 = s\<lparr>st_pending := (st_pending s)\<lparr>pb_needs_recheck := False\<rparr>\<rparr>;
        let unknown = unat (pb_num_unknown (st_pending s0));
        let known = num_pending_known s0;
        if unknown = 0 \<and> known = 0 then Some s0
        else do {
          let txs = concat (map (map pt_tx) (pb_pend (st_pending s0))) @ pb_unknown_tx (st_pending s0);
          s1 \<leftarrow> unhash_all rt s0 txs;
          c_assert (length txs = unknown + known);
          s2 \<leftarrow> readd_all rt (s1\<lparr>st_pending := new_pending_block\<rparr>) txs;
          Some (s2\<lparr>st_out := st_out s2 @ [Restart_generating]\<rparr>) } })"

definition remove_pending_tx :: "state \<Rightarrow> u16 \<Rightarrow> nat \<Rightarrow> state option" where
  "remove_pending_tx s shard i =
     do { pend \<leftarrow> c_nth (pb_pend (st_pending s)) (unat shard);
          pend' \<leftarrow> arr_del pend i;
          Some (s\<lparr>st_pending := (st_pending s)\<lparr>pb_pend := (pb_pend (st_pending s))[unat shard := pend']\<rparr>,
                  st_out := st_out s @ [Restart_generating]\<rparr>) }"

fun del_unknown :: "protocol_tx \<Rightarrow> protocol_tx list \<Rightarrow> protocol_tx list option" where
  \<comment> \<open>the search of \<open>drop_pending_tx\<close> through the list; \<open>abort\<close> when it is not there\<close>
  "del_unknown tx [] = c_abort"
| "del_unknown tx (u # us) =
     do { same \<leftarrow> same_tx_bytes u tx;
          if same then Some us else map_option ((#) u) (del_unknown tx us) }"

definition drop_pending_tx :: "runtime \<Rightarrow> state \<Rightarrow> protocol_tx \<Rightarrow> state option" where
  "drop_pending_tx rt s tx =
     do { sha \<leftarrow> hash_tx (rt_ssl rt) tx;
          if txhash_get_pending_tx rt s sha = None then Some s
          else do {
            lk \<leftarrow> c_nth (st_longest_knowns s) 0;
            sh \<leftarrow> shard_of_tx (rt_ssl rt) tx next_shard_order;
            let shard = (ucast sh :: u16);
            pend \<leftarrow> c_nth (pb_pend (st_pending s)) (unat shard);
            (found, pos) \<leftarrow> find_pending_in_arr (rt_ssl rt) pend tx;
            if found then remove_pending_tx s shard pos
            else do {
              us \<leftarrow> del_unknown tx (pb_unknown_tx (st_pending s));
              Some (s\<lparr>st_pending := (st_pending s)\<lparr>pb_unknown_tx := us,
                        pb_num_unknown := pb_num_unknown (st_pending s) - 1\<rparr>\<rparr>) } } }"

subsection \<open>The invariant\<close>

definition shard_array_ok :: "openssl \<Rightarrow> nat \<Rightarrow> pending_tx list \<Rightarrow> bool" where
  "shard_array_ok ssl i pend \<longleftrightarrow> length pend \<le> 255
     \<and> list_all (orderable ssl) (map pt_tx pend)
     \<and> sorted_wrt (cmp_before (tx_cmp ssl)) (map pt_tx pend)
     \<and> (\<forall>p \<in> set pend. shard_of_tx ssl (pt_tx p) next_shard_order = Some (word_of_nat i))"

definition pending_inv :: "openssl \<Rightarrow> pending_block \<Rightarrow> bool" where
  "pending_inv ssl p \<longleftrightarrow> length (pb_pend p) = 4
     \<and> (\<forall>i < 4. shard_array_ok ssl i (pb_pend p ! i))
     \<and> list_all wf_tx (pb_unknown_tx p)
     \<and> pb_num_unknown p = word_of_nat (length (pb_unknown_tx p))"

lemma new_pending_inv: "pending_inv ssl new_pending_block"
  by (simp add: pending_inv_def new_pending_block_def shard_array_ok_def c_simps)

lemma unknown_inv:
  "pending_inv ssl (st_pending s) \<Longrightarrow> wf_tx tx \<Longrightarrow> pending_inv ssl (st_pending (add_to_unknown_pending s tx))"
  by (simp add: pending_inv_def add_to_unknown_pending_def add.commute)

lemma recheck_flag_inv [simp]: "pending_inv ssl (p\<lparr>pb_needs_recheck := x\<rparr>) = pending_inv ssl p"
  by (simp add: pending_inv_def)

lemma shard_of_tx_u16:
  assumes "shard_of_tx ssl tx ord = Some sh"
  shows "sh = word_of_nat (unat (ucast sh :: u16))"
proof -
  obtain x :: u16 where "sh = ucast x"
    using assms by (cases tx) (auto simp: bind_eq_Some_conv)
  moreover have "(ucast (ucast x :: u32) :: u16) = x"
    by (rule bit_word_eqI) (simp add: bit_unsigned_iff)
  ultimately show ?thesis
    using unat_u16_less [of x]
    by (simp add: word_unat_eq_iff unsigned_ucast_eq unsigned_of_nat take_bit_nat_eq_self)
qed

lemma ucast_u16_0: "(ucast (x :: u16) :: u32) = 0 \<longleftrightarrow> unat x = 0"
  using unat_u16_less [of x] by (simp add: word_unat_eq_iff unsigned_ucast_eq take_bit_nat_eq_self)

lemma shard_of_tx_orderable:
  assumes "digest_ok ssl" and "wf_tx tx" and "shard_of_tx ssl tx ord = Some sh"
  shows "orderable ssl tx"
  using assms
  by (cases tx) (auto simp: orderable_def bind_eq_Some_conv get_from_gateway_outputs_def ucast_u16_0)

lemma arr_add_map: "arr_add xs pos x = Some ys \<Longrightarrow> arr_add (map f xs) pos (f x) = Some (map f ys)"
  by (auto simp: arr_add_def take_map drop_map split: if_splits)

lemma arr_del_map: "arr_del xs pos = Some ys \<Longrightarrow> arr_del (map f xs) pos = Some (map f ys)"
  by (auto simp: arr_del_def take_map drop_map split: if_splits)

lemma arr_add_set: "arr_add xs pos x = Some ys \<Longrightarrow> set ys = insert x (set xs) \<and> length ys = Suc (length xs)"
  by (auto simp: arr_add_def split: if_splits dest: in_set_takeD in_set_dropD)
    (metis Un_iff append_take_drop_id set_append)

lemma arr_del_set: "arr_del xs pos = Some ys \<Longrightarrow> set ys \<subseteq> set xs \<and> length ys \<le> length xs"
  by (auto simp: arr_del_def split: if_splits dest: in_set_takeD in_set_dropD)

lemma update_array_inv:
  assumes "pending_inv ssl p" and "shard_array_ok ssl i pend"
  shows "pending_inv ssl (p\<lparr>pb_pend := (pb_pend p)[i := pend]\<rparr>)"
  using assms by (cases "i < 4") (auto simp: pending_inv_def nth_list_update)

lemma add_array_ok:
  assumes a: "shard_array_ok ssl i pend" and o: "orderable ssl tx" and n: "length pend \<noteq> 255"
    and sh: "shard_of_tx ssl tx next_shard_order = Some (word_of_nat i)"
    and f: "find_pending_in_arr ssl pend tx = Some (False, pos)"
    and add: "arr_add pend pos \<lparr>pt_tx = tx, pt_refs = rs\<rparr> = Some pend'"
  shows "shard_array_ok ssl i pend'"
proof -
  have "find_in_arr (tx_cmp ssl) (map pt_tx pend) tx 0 (length (map pt_tx pend)) = Some (False, pos)"
    using f by (simp add: find_pending_in_arr_def)
  moreover have "arr_add (map pt_tx pend) pos tx = Some (map pt_tx pend')"
    using arr_add_map [OF add, of pt_tx] by simp
  ultimately have "sorted_wrt (cmp_before (tx_cmp ssl)) (map pt_tx pend')"
    "list_all (orderable ssl) (map pt_tx pend')"
    using txo.arr_add_sorted [of ssl "map pt_tx pend" tx pos] a o by (auto simp: shard_array_ok_def)
  then show ?thesis
    using a n sh arr_add_set [OF add] by (auto simp: shard_array_ok_def)
qed

lemma insert_pending_inv:
  assumes inv: "pending_inv (rt_ssl rt) (st_pending s)" and d: "digest_ok (rt_ssl rt)" and wf: "wf_tx tx"
    and ins: "insert_pending_tx rt s tx = Some (ok, s')"
  shows "pending_inv (rt_ssl rt) (st_pending s')"
proof -
  let ?ssl = "rt_ssl rt" and ?p = "st_pending s"
  obtain sh where sh: "shard_of_tx ?ssl tx next_shard_order = Some sh"
    using ins by (auto simp: insert_pending_tx_def bind_eq_Some_conv)
  define i where "i = unat (ucast sh :: u16)"
  have i: "i < length (pb_pend ?p)" using ins sh
    by (auto simp: insert_pending_tx_def bind_eq_Some_conv i_def Let_def)
  then have a: "shard_array_ok ?ssl i (pb_pend ?p ! i)" using inv by (simp add: pending_inv_def)
  have o: "orderable ?ssl tx" by (rule shard_of_tx_orderable [OF d wf sh])
  have shi: "shard_of_tx ?ssl tx next_shard_order = Some (word_of_nat i)"
    using shard_of_tx_u16 [OF sh] sh by (simp add: i_def)
  show ?thesis
  proof (cases "length (pb_pend ?p ! i) = 255")
    case True
    then have "s' = add_to_unknown_pending s tx"
      using ins sh i by (auto simp: insert_pending_tx_def bind_eq_Some_conv i_def Let_def)
    then show ?thesis using unknown_inv [OF inv wf] by simp
  next
    case False
    then have "\<exists>pos. find_pending_in_arr ?ssl (pb_pend ?p ! i) tx = Some (False, pos)
      \<and> (s' = s \<or> (\<exists>rs pend'. arr_add (pb_pend ?p ! i) pos \<lparr>pt_tx = tx, pt_refs = rs\<rparr> = Some pend'
        \<and> st_pending s' = ?p\<lparr>pb_pend := (pb_pend ?p)[i := pend']\<rparr>))"
      using ins sh i unfolding insert_pending_tx_def bind_eq_Some_conv i_def Let_def
      by (force split: if_splits option.splits simp: bind_eq_Some_conv)
    then obtain pos where f: "find_pending_in_arr ?ssl (pb_pend ?p ! i) tx = Some (False, pos)"
      and r: "s' = s \<or> (\<exists>rs pend'. arr_add (pb_pend ?p ! i) pos \<lparr>pt_tx = tx, pt_refs = rs\<rparr> = Some pend'
        \<and> st_pending s' = ?p\<lparr>pb_pend := (pb_pend ?p)[i := pend']\<rparr>)"
      by blast
    from r show ?thesis
      using inv update_array_inv [OF inv add_array_ok [OF a o False shi f]] by fastforce
  qed
qed

lemma hash_ops_pending:
  "add_pending_tx_to_hashes rt s tx = Some s' \<Longrightarrow> st_pending s' = st_pending s"
  "remove_pending_tx_from_hashes rt s tx = Some s' \<Longrightarrow> st_pending s' = st_pending s"
  by (auto simp: add_pending_tx_to_hashes_def remove_pending_tx_from_hashes_def bind_eq_Some_conv Let_def
      split: option.splits if_splits)

lemma add_pending_inv:
  assumes "pending_inv (rt_ssl rt) (st_pending s)" and "digest_ok (rt_ssl rt)" and "wf_tx tx"
    and "add_pending_tx rt s tx sha = Some (e, bad, old, s')"
  shows "pending_inv (rt_ssl rt) (st_pending s')"
  using assms
  by (auto simp: add_pending_tx_def bind_eq_Some_conv Let_def unknown_inv dest!: hash_ops_pending(1)
      dest: insert_pending_inv split: if_splits)

lemma readd_inv:
  assumes "digest_ok (rt_ssl rt)"
  shows "pending_inv (rt_ssl rt) (st_pending s) \<Longrightarrow> list_all wf_tx txs \<Longrightarrow> readd_all rt s txs = Some s'
    \<Longrightarrow> pending_inv (rt_ssl rt) (st_pending s')"
proof (induction txs arbitrary: s)
  case (Cons tx txs)
  then obtain sha e bad old s1 where a: "add_pending_tx rt s tx sha = Some (e, bad, old, s1)"
    and b: "readd_all rt s1 txs = Some s'" by (auto simp: bind_eq_Some_conv)
  have "wf_tx tx" "list_all wf_tx txs" using Cons.prems(2) by simp_all
  then show ?case using Cons.IH [OF add_pending_inv [OF Cons.prems(1) assms _ a] _ b] by blast
qed simp

lemma all_pending_wf:
  assumes "pending_inv ssl p"
  shows "list_all wf_tx (concat (map (map pt_tx) (pb_pend p)) @ pb_unknown_tx p)"
proof -
  have "wf_tx t" if t: "t \<in> set (concat (map (map pt_tx) (pb_pend p)))" for t
  proof -
    obtain i where "i < length (pb_pend p)" "t \<in> set (map pt_tx (pb_pend p ! i))"
      using t by (auto simp: in_set_conv_nth) (metis nth_mem image_eqI)
    then show ?thesis
      using assms by (auto simp: pending_inv_def shard_array_ok_def list_all_iff orderable_def)
  qed
  then show ?thesis using assms by (auto simp: list_all_iff pending_inv_def)
qed

lemma recheck_inv:
  assumes inv: "pending_inv (rt_ssl rt) (st_pending s)" and d: "digest_ok (rt_ssl rt)"
    and "recheck_pending_txs rt s = Some s'"
  shows "pending_inv (rt_ssl rt) (st_pending s')"
proof -
  let ?txs = "concat (map (map pt_tx) (pb_pend (st_pending s))) @ pb_unknown_tx (st_pending s)"
  have "st_pending s' = (st_pending s)\<lparr>pb_needs_recheck := False\<rparr> \<or> s' = s
    \<or> (\<exists>s1 s2. readd_all rt (s1\<lparr>st_pending := new_pending_block\<rparr>) ?txs = Some s2 \<and> st_pending s' = st_pending s2)"
    using assms(3) by (auto simp: recheck_pending_txs_def Let_def bind_eq_Some_conv split: if_splits) blast+
  then consider "st_pending s' = (st_pending s)\<lparr>pb_needs_recheck := False\<rparr>" | "s' = s"
    | s1 s2 where "readd_all rt (s1\<lparr>st_pending := new_pending_block\<rparr>) ?txs = Some s2" "st_pending s' = st_pending s2"
    by blast
  then show ?thesis
  proof cases
    case (3 s1 s2)
    have "pending_inv (rt_ssl rt) (st_pending s2)"
      by (rule readd_inv [OF d _ all_pending_wf [OF inv] 3(1)]) (simp add: new_pending_inv)
    then show ?thesis using 3(2) by simp
  qed (use inv in simp_all)
qed

lemma del_unknown_wf:
  assumes "list_all wf_tx us" and "wf_tx tx"
  shows "del_unknown tx us = (if tx \<in> set us then Some (remove1 tx us) else None)"
  using assms by (induction us) (auto simp: same_tx_bytes_eq)

lemma drop_inv:
  assumes inv: "pending_inv (rt_ssl rt) (st_pending s)" and wf: "wf_tx tx"
    and d: "drop_pending_tx rt s tx = Some s'"
  shows "pending_inv (rt_ssl rt) (st_pending s')"
proof -
  let ?ssl = "rt_ssl rt" and ?p = "st_pending s"
  have del: "pending_inv ?ssl (st_pending t)" if r: "remove_pending_tx s shard pos = Some t" for t shard pos
  proof -
    let ?a = "pb_pend ?p ! unat shard"
    obtain pend' where i: "unat shard < length (pb_pend ?p)" and del: "arr_del ?a pos = Some pend'"
      and t: "st_pending t = ?p\<lparr>pb_pend := (pb_pend ?p)[unat shard := pend']\<rparr>"
      using r by (auto simp: remove_pending_tx_def bind_eq_Some_conv)
    have a: "shard_array_ok ?ssl (unat shard) ?a" using inv i by (simp add: pending_inv_def)
    have "pos < length ?a" using del by (auto simp: arr_del_def split: if_splits)
    with a arr_del_map [OF del, of pt_tx] txo.arr_del_sorted [of ?ssl "map pt_tx ?a" pos]
    have "shard_array_ok ?ssl (unat shard) pend'"
      using arr_del_set [OF del] by (auto simp: shard_array_ok_def)
    with t update_array_inv [OF inv] show ?thesis by simp
  qed
  have unk: "pending_inv ?ssl (?p\<lparr>pb_unknown_tx := us, pb_num_unknown := pb_num_unknown ?p - 1\<rparr>)"
    if "del_unknown tx (pb_unknown_tx ?p) = Some us" for us
  proof -
    have "tx \<in> set (pb_unknown_tx ?p)" "us = remove1 tx (pb_unknown_tx ?p)"
      using that inv wf by (auto simp: pending_inv_def del_unknown_wf split: if_splits)
    moreover from this(1) have "0 < length (pb_unknown_tx ?p)" by auto
    then have "(word_of_nat (length (pb_unknown_tx ?p)) :: u32) - 1 = word_of_nat (length (pb_unknown_tx ?p) - Suc 0)"
      by (cases "pb_unknown_tx ?p") auto
    ultimately show ?thesis
      using inv by (auto simp: pending_inv_def length_remove1 list_all_iff dest: notin_set_remove1)
  qed
  show ?thesis
    using d inv del unk by (auto simp: drop_pending_tx_def bind_eq_Some_conv Let_def split: if_splits)
qed

lemma shard_to_pending_inv:
  assumes "list_all slot_ok (bs_u sh)" and "pending_inv ssl (st_pending s)"
  shows "shard_to_pending s sh n = Some s' \<Longrightarrow> pending_inv ssl (st_pending s')"
proof (induction n arbitrary: s')
  case (Suc n)
  have "wf_tx t" if "tx_for sh k = Some (Some t)" for k t
    using that assms(1)
    by (auto simp: tx_for_def slot_ok_def list_all_length bind_eq_Some_conv split: txslot.splits option.splits)
  then show ?case
    using Suc by (auto simp: bind_eq_Some_conv Let_def unknown_inv split: option.splits)
qed (use assms in simp)

lemma block_to_pending_inv:
  assumes b: "block_ok b" and "pending_inv ssl (st_pending s)" and "block_to_pending s b = Some s'"
  shows "pending_inv ssl (st_pending s')"
proof -
  have "shards_to_pending s b n = Some s' \<Longrightarrow> pending_inv ssl (st_pending s')" for n
  proof (induction n arbitrary: s')
    case (Suc n)
    then obtain s1 where s1: "shards_to_pending s b n = Some s1" "n < length (b_shard b)"
      "shard_to_pending s1 (b_shard b ! n) (unat (b_shard_nums b ! n)) = Some s'"
      by (auto simp: bind_eq_Some_conv)
    have "list_all slot_ok (bs_u (b_shard b ! n))" using b s1(2) by (simp add: block_ok_def shard_ok_def)
    from shard_to_pending_inv [OF this] Suc.IH [OF s1(1)] s1(3) show ?case by blast
  qed (use assms(2) in simp)
  then show ?thesis using assms(3) by (simp add: block_to_pending_def)
qed

subsection \<open>Reachable states\<close>

inductive pending_step :: "runtime \<Rightarrow> state \<Rightarrow> state \<Rightarrow> bool" for rt where
  step_add: "wf_tx tx \<Longrightarrow> add_pending_tx rt s tx sha = Some (e, bad, old, s') \<Longrightarrow> pending_step rt s s'"
| step_recheck: "recheck_pending_txs rt s = Some s' \<Longrightarrow> pending_step rt s s'"
| step_drop: "wf_tx tx \<Longrightarrow> drop_pending_tx rt s tx = Some s' \<Longrightarrow> pending_step rt s s'"
| step_block: "block_ok b \<Longrightarrow> block_to_pending s b = Some s' \<Longrightarrow> pending_step rt s s'"
| step_other: "st_pending s' = st_pending s \<Longrightarrow> pending_step rt s s'"
    \<comment> \<open>anything that happens to the rest of the state\<close>

inductive_cases pending_stepE: "pending_step rt s s'"

inductive pending_reach :: "runtime \<Rightarrow> state \<Rightarrow> bool" for rt where
  reach_start: "st_pending s = new_pending_block \<Longrightarrow> pending_reach rt s"
| reach_step: "pending_reach rt s \<Longrightarrow> pending_step rt s s' \<Longrightarrow> pending_reach rt s'"

lemma pending_step_inv:
  assumes "digest_ok (rt_ssl rt)" and "pending_inv (rt_ssl rt) (st_pending s)" and "pending_step rt s s'"
  shows "pending_inv (rt_ssl rt) (st_pending s')"
  using assms(3,1,2)
  by cases (auto intro: add_pending_inv recheck_inv drop_inv block_to_pending_inv)

text \<open>
  C11. In every state the pending operations reach, whatever else the daemon does in between, the
  arrays of pending transactions are strictly ordered by \<open>tx_cmp\<close>, so free of duplicates, hold
  only transactions of their own shard, and never outgrow the 255 of a block's shard.
\<close>

theorem pending_always_ordered:
  assumes "digest_ok (rt_ssl rt)" and "pending_reach rt s"
  shows "length (pb_pend (st_pending s)) = 4
    \<and> (\<forall>i < 4. shard_array_ok (rt_ssl rt) i (pb_pend (st_pending s) ! i))"
proof -
  have "pending_inv (rt_ssl rt) (st_pending s)"
    using assms(2) by induction (auto simp: new_pending_inv intro: pending_step_inv [OF assms(1)])
  then show ?thesis by (simp add: pending_inv_def)
qed

subsection \<open>Adding a transaction\<close>

definition in_arrays :: "state \<Rightarrow> pending_tx \<Rightarrow> bool" where
  "in_arrays s q \<longleftrightarrow> (\<exists>a \<in> set (pb_pend (st_pending s)). q \<in> set a)"

definition pend_hashed :: "openssl \<Rightarrow> state \<Rightarrow> bool" where
  \<comment> \<open>every transaction in the arrays is known as pending under its hash\<close>
  "pend_hashed ssl s \<longleftrightarrow> (\<forall>q. in_arrays s q \<longrightarrow>
     (\<exists>te \<in> set (st_txhash s). te_u te = Pending_tx (pt_tx q) \<and> hash_tx ssl (pt_tx q) = Some (te_sha te)))"

definition same_tables :: "state \<Rightarrow> state \<Rightarrow> bool" where
  "same_tables s s' \<longleftrightarrow> st_txhash s' = st_txhash s \<and> st_inputhash s' = st_inputhash s \<and> st_heap s' = st_heap s"

lemma same_tables_simps:
  assumes "same_tables s s'"
  shows "hashes_ok ssl s' = hashes_ok ssl s" "txhash_get_pending_tx rt s' sha = txhash_get_pending_tx rt s sha"
  using assms by (simp_all add: same_tables_def hashes_ok_def txhash_get_pending_tx_def)

lemma create_refs_total:
  assumes st: "heap_ok (st_heap s)" "st_heap s lk = Some lb" "hashes_ok ssl s" "tables_ok rt" and wf: "wf_tx tx"
  shows "\<exists>r. create_refs rt s lk tx offset = Some r"
proof -
  have "\<exists>r. resolve_input rt s lk tx i offset = Some r" if i: "i < unat (num_inputs tx)" for i
  proof -
    obtain r where r: "txhash_gettx_ancestor rt s (in_input (tx_inputs tx ! i)) lk = Some r"
      "\<And>te. r = Some te \<Longrightarrow> \<exists>b. te_u te = In_block b \<and> ancestor (st_heap s) b lk"
      using gettx_ancestor_eq [OF st, of "in_input (tx_inputs tx ! i)"] by (auto split: option.splits)
    show ?thesis
    proof (cases r)
      case (Some te)
      then obtain b bb where "te_u te = In_block b" "st_heap s b = Some bb"
        using r(2) ancestor_left by blast
      then show ?thesis using Some r(1) wf i st(2) by (simp add: resolve_input_def tx_input_eq)
    qed (use r(1) wf i in \<open>simp add: resolve_input_def tx_input_eq\<close>)
  qed
  then have "n \<le> unat (num_inputs tx) \<Longrightarrow> \<exists>r. create_refs_loop rt s lk tx offset n = Some r" for n
  proof (induction n)
    case (Suc n)
    then obtain r x where "create_refs_loop rt s lk tx offset n = Some r" "resolve_input rt s lk tx n offset = Some x"
      by fastforce
    then show ?case by (cases r) auto
  qed simp
  then show ?thesis by (simp add: create_refs_def)
qed

lemma orderable_shard:
  assumes "orderable ssl tx"
  obtains i where "i < 4" "shard_of_tx ssl tx next_shard_order = Some (word_of_nat i)"
    "unat (ucast (word_of_nat i :: u32) :: u16) = i"
proof -
  have o: "unat next_shard_order = 2" by (simp add: next_shard_order_def c_simps)
  obtain addr where a: "length addr = 20"
    "shard_of_tx ssl tx next_shard_order = Some (word_of_nat (be_nat (take 2 addr) div 2 ^ (16 - unat next_shard_order)))"
    by (rule shard_of_tx_addr [OF assms, of next_shard_order]) (use o in auto)
  let ?i = "be_nat (take 2 addr) div 2 ^ 14"
  have "be_nat (take 2 addr) < 4 * 2 ^ 14" using be_nat_less [of "take 2 addr"] a(1) by simp
  then have i: "?i < 4" by (simp add: less_mult_imp_div_less)
  then have "unat (ucast (word_of_nat ?i :: u32) :: u16) = ?i"
    by (simp add: unsigned_ucast_eq unsigned_of_nat take_bit_nat_eq_self)
  then show thesis using that [OF i] a(2) o by simp
qed

lemma insert_pending_ok:
  assumes st: "heap_ok (st_heap s)" "st_heap s lk = Some lb" "hashes_ok (rt_ssl rt) s" "tables_ok rt"
    and lk: "c_nth (st_longest_knowns s) 0 = Some lk"
    and inv: "pending_inv (rt_ssl rt) (st_pending s)" and o: "orderable (rt_ssl rt) tx"
    and new: "\<And>q. in_arrays s q \<Longrightarrow> pt_tx q \<noteq> tx"
  shows "\<exists>ok s'. insert_pending_tx rt s tx = Some (ok, s') \<and> same_tables s s'
    \<and> (\<not> ok \<longrightarrow> s' = s) \<and> (\<forall>q. in_arrays s' q \<longrightarrow> pt_tx q = tx \<or> in_arrays s q)"
proof -
  let ?ssl = "rt_ssl rt" and ?p = "st_pending s"
  obtain i where i: "i < 4" "shard_of_tx ?ssl tx next_shard_order = Some (word_of_nat i)"
    "unat (ucast (word_of_nat i :: u32) :: u16) = i"
    using orderable_shard [OF o] by blast
  let ?a = "pb_pend ?p ! i"
  have len: "length (pb_pend ?p) = 4" and a: "shard_array_ok ?ssl i ?a" using inv i by (simp_all add: pending_inv_def)
  have sub: "in_arrays s q" if "q \<in> set ?a" for q
    using that i(1) len by (auto simp: in_arrays_def intro: bexI [of _ ?a])
  obtain r where r: "create_refs rt s lk tx 1 = Some r"
    using create_refs_total [OF st] o by (auto simp: orderable_def)
  have wf: "list_all (orderable ?ssl) (map pt_tx ?a)" "sorted_wrt (cmp_before (tx_cmp ?ssl)) (map pt_tx ?a)"
    using a by (simp_all add: shard_array_ok_def)
  from wf(1) o wf(2) obtain pos where pos: "find_pending_in_arr ?ssl ?a tx = Some (False, pos)" "pos \<le> length ?a"
  proof (cases rule: txo.find_in_arr_correct)
    case (found q)
    then have "in_arrays s (?a ! q)" "pt_tx (?a ! q) = tx" using sub by simp_all
    then show thesis using new by blast
  next
    case (missing q)
    then show thesis using that by (simp add: find_pending_in_arr_def)
  qed
  have start: "insert_pending_tx rt s tx =
    (if length ?a = 255 then Some (True, add_to_unknown_pending s tx)
     else case r of None \<Rightarrow> Some (False, s)
       | Some rs \<Rightarrow> do { pend' \<leftarrow> arr_add ?a pos \<lparr>pt_tx = tx, pt_refs = rs\<rparr>;
           Some (True, s\<lparr>st_pending := ?p\<lparr>pb_pend := (pb_pend ?p)[i := pend']\<rparr>,
             st_out := st_out s @ [Tell_generator_new_pending (ucast (ucast (word_of_nat i :: u32) :: u16)) pos]\<rparr>) })"
    using i lk len pos(1) r by (simp add: insert_pending_tx_def Let_def)
  show ?thesis
  proof (cases "length ?a = 255")
    case True
    then show ?thesis
      using start by (auto simp: same_tables_def add_to_unknown_pending_def in_arrays_def)
  next
    case no: False
    show ?thesis
    proof (cases r)
      case None
      then show ?thesis using start no by (intro exI [of _ False] exI [of _ s]) (simp add: same_tables_def)
    next
      case (Some rs)
      let ?x = "\<lparr>pt_tx = tx, pt_refs = rs\<rparr>"
      obtain pend' where p': "arr_add ?a pos ?x = Some pend'" using pos(2) by (simp add: arr_add_def)
      have "pt_tx q = tx \<or> in_arrays s q" if "b \<in> set ((pb_pend ?p)[i := pend'])" "q \<in> set b" for b q
      proof -
        have "b = pend' \<or> b \<in> set (pb_pend ?p)"
          using that(1) set_update_subset_insert [of "pb_pend ?p" i pend'] by auto
        then show ?thesis
          using that(2) arr_add_set [OF p'] sub [of q] unfolding in_arrays_def by auto
      qed
      then show ?thesis
        using start no Some p' by (intro exI [of _ True]) (auto simp: same_tables_def in_arrays_def)
    qed
  qed
qed

lemma pending_user_total: "wf_tx tx \<Longrightarrow> n \<le> unat (num_inputs tx) \<Longrightarrow> \<exists>b. pending_user rt s tx n = Some b"
  by (induction n) (auto simp: tx_input_eq)

lemma finish_add:
  assumes tab: "tables_ok rt" and wf: "wf_tx tx" and sha: "hash_tx (rt_ssl rt) tx = Some sha"
    and s1: "same_tables s s1" "\<forall>q. in_arrays s1 q \<longrightarrow> pt_tx q = tx \<or> in_arrays s q"
    and s: "hashes_ok (rt_ssl rt) s" "pend_hashed (rt_ssl rt) s" "txhash_get_pending_tx rt s sha = None"
  shows "\<exists>s2. add_pending_tx_to_hashes rt s1 tx = Some s2 \<and> txhash_get_pending_tx rt s2 sha = Some tx
    \<and> (hashes_ok (rt_ssl rt) s2 \<or> tx_collision (rt_ssl rt)) \<and> pend_hashed (rt_ssl rt) s2"
proof -
  have ok1: "hashes_ok (rt_ssl rt) s1" "txhash_get_pending_tx rt s1 sha = None"
    using same_tables_simps [OF s1(1)] s by simp_all
  obtain s2 where s2: "add_pending_tx_to_hashes rt s1 tx = Some s2"
    "hashes_ok (rt_ssl rt) s2 \<or> tx_collision (rt_ssl rt)" "txhash_get_pending_tx rt s2 sha = Some tx"
    using add_pending_ok [OF ok1(1) tab wf sha ok1(2)] by blast
  obtain ih where "add_pending_tx_to_hashes rt s1 tx =
      Some (s1\<lparr>st_inputhash := ih, st_txhash := txhash_add_tx (st_txhash s1) (Pending_tx tx) 0 0 sha\<rparr>)"
    using add_pending_state [OF ok1(1) tab wf sha ok1(2)] by metis
  then have e: "s2 = s1\<lparr>st_inputhash := ih, st_txhash := txhash_add_tx (st_txhash s1) (Pending_tx tx) 0 0 sha\<rparr>"
    using s2(1) by simp
  have "pend_hashed (rt_ssl rt) s2"
    unfolding pend_hashed_def
  proof (intro allI impI)
    fix q assume "in_arrays s2 q"
    then have "in_arrays s1 q" by (simp add: in_arrays_def e)
    then have "pt_tx q = tx \<or> in_arrays s q" using s1(2) by blast
    then show "\<exists>te \<in> set (st_txhash s2). te_u te = Pending_tx (pt_tx q) \<and> hash_tx (rt_ssl rt) (pt_tx q) = Some (te_sha te)"
      using s(2) s1(1) sha by (auto simp: e txhash_add_tx_def pend_hashed_def same_tables_def)
  qed
  with s2 show ?thesis by blast
qed


subsection \<open>Dropping a transaction\<close>

definition arrays_view :: "state \<Rightarrow> protocol_tx set" where
  \<comment> \<open>the abstract value of the arrays: the set of transactions in them\<close>
  "arrays_view s = {t. \<exists>q. in_arrays s q \<and> pt_tx q = t}"

lemma arrays_view_nth:
  assumes "length (pb_pend (st_pending s)) = 4"
  shows "arrays_view s = (\<Union>i < 4. set (map pt_tx (pb_pend (st_pending s) ! i)))"
proof -
  have "set (pb_pend (st_pending s)) = (!) (pb_pend (st_pending s)) ` {..< 4}"
    using assms by (auto simp: set_conv_nth)
  then show ?thesis by (auto simp: arrays_view_def in_arrays_def)
qed

lemma word_index: "i < 4 \<Longrightarrow> j < 4 \<Longrightarrow> (word_of_nat i :: u32) = word_of_nat j \<Longrightarrow> i = j"
proof -
  assume a: "i < 4" "j < 4" "(word_of_nat i :: u32) = word_of_nat j"
  have "unat (word_of_nat k :: u32) = k" if "k < 4" for k
    using that by (simp add: unsigned_of_nat take_bit_nat_eq_self)
  then show ?thesis using a by metis
qed

lemma array_member_index:
  assumes "pending_inv ssl (st_pending s)" and "i < 4" and "j < 4"
    and "shard_of_tx ssl tx next_shard_order = Some (word_of_nat i)"
    and "tx \<in> set (map pt_tx (pb_pend (st_pending s) ! j))"
  shows "j = i"
proof -
  have "shard_array_ok ssl j (pb_pend (st_pending s) ! j)" using assms(1,3) by (simp add: pending_inv_def)
  then have "shard_of_tx ssl tx next_shard_order = Some (word_of_nat j)"
    using assms(5) by (auto simp: shard_array_ok_def)
  then show ?thesis by (intro word_index [OF assms(3,2)]) (simp add: assms(4))
qed

lemma find_pending_cases:
  assumes inv: "pending_inv ssl (st_pending s)" and o: "orderable ssl tx" and i: "i < 4"
  shows "\<exists>pos. find_pending_in_arr ssl (pb_pend (st_pending s) ! i) tx
      = Some (tx \<in> set (map pt_tx (pb_pend (st_pending s) ! i)), pos)
    \<and> (tx \<in> set (map pt_tx (pb_pend (st_pending s) ! i)) \<longrightarrow>
        pos < length (pb_pend (st_pending s) ! i) \<and> pt_tx (pb_pend (st_pending s) ! i ! pos) = tx)"
proof -
  let ?a = "pb_pend (st_pending s) ! i"
  have "list_all (orderable ssl) (map pt_tx ?a)" "sorted_wrt (cmp_before (tx_cmp ssl)) (map pt_tx ?a)"
    using inv i by (simp_all add: pending_inv_def shard_array_ok_def)
  from this(1) o this(2) show ?thesis
  proof (cases rule: txo.find_in_arr_correct)
    case (found p)
    moreover from this have "tx \<in> set (map pt_tx ?a)" by (metis nth_mem)
    ultimately show ?thesis by (auto simp: find_pending_in_arr_def)
  next
    case (missing p)
    then show ?thesis by (auto simp: find_pending_in_arr_def simp del: set_map)
  qed
qed

lemma drop_found:
  assumes inv: "pending_inv (rt_ssl rt) (st_pending s)" and o: "orderable (rt_ssl rt) tx"
    and lk: "c_nth (st_longest_knowns s) 0 = Some lk"
    and sha: "hash_tx (rt_ssl rt) tx = Some sha" "txhash_get_pending_tx rt s sha \<noteq> None"
  shows "if tx \<in> arrays_view s
    then \<exists>s'. drop_pending_tx rt s tx = Some s' \<and> arrays_view s' = arrays_view s - {tx} \<and> same_tables s s'
      \<and> st_longest_knowns s' = st_longest_knowns s
      \<and> pb_unknown_tx (st_pending s') = pb_unknown_tx (st_pending s)
    else tx \<notin> set (pb_unknown_tx (st_pending s)) \<longrightarrow> drop_pending_tx rt s tx = None"
proof -
  let ?ssl = "rt_ssl rt" and ?p = "st_pending s"
  obtain i where i: "i < 4" "shard_of_tx ?ssl tx next_shard_order = Some (word_of_nat i)"
    "unat (ucast (word_of_nat i :: u32) :: u16) = i"
    using orderable_shard [OF o] by blast
  let ?a = "pb_pend ?p ! i"
  have len: "length (pb_pend ?p) = 4" and a: "shard_array_ok ?ssl i ?a" using inv i by (simp_all add: pending_inv_def)
  obtain pos where pos: "find_pending_in_arr ?ssl ?a tx = Some (tx \<in> set (map pt_tx ?a), pos)"
    "tx \<in> set (map pt_tx ?a) \<Longrightarrow> pos < length ?a \<and> pt_tx (?a ! pos) = tx"
    using find_pending_cases [OF inv o i(1)] by blast
  have view: "tx \<in> arrays_view s \<longleftrightarrow> tx \<in> set (map pt_tx ?a)"
    using array_member_index [OF inv i(1) _ i(2)] i(1) unfolding arrays_view_nth [OF len] by blast
  show ?thesis
  proof (cases "tx \<in> set (map pt_tx ?a)")
    case True
    then obtain pend' where del: "arr_del ?a pos = Some pend'" using pos(2) by (auto simp: arr_del_def)
    let ?s = "s\<lparr>st_pending := ?p\<lparr>pb_pend := (pb_pend ?p)[i := pend']\<rparr>, st_out := st_out s @ [Restart_generating]\<rparr>"
    have run: "drop_pending_tx rt s tx = Some ?s"
      using sha lk i len pos(1) True del
      by (auto simp: drop_pending_tx_def remove_pending_tx_def Let_def simp del: set_map)
    have "set (map pt_tx pend') = set (map pt_tx ?a) - {tx}"
      using txo.arr_del_sorted [of ?ssl "map pt_tx ?a" pos] a arr_del_map [OF del, of pt_tx] pos(2) [OF True]
      by (auto simp: shard_array_ok_def simp del: set_map)
    moreover have "tx \<notin> set (map pt_tx (pb_pend ?p ! j))" if "j < 4" "j \<noteq> i" for j
      using array_member_index [OF inv i(1) that(1) i(2)] that(2) by blast
    ultimately have "arrays_view ?s = arrays_view s - {tx}"
      using len i(1) by (subst (1 2) arrays_view_nth) (auto simp: nth_list_update simp del: set_map split: if_splits)
    then show ?thesis using run view True by (auto simp: same_tables_def)
  next
    case False
    have wf: "wf_tx tx" "list_all wf_tx (pb_unknown_tx ?p)" using o inv by (simp_all add: orderable_def pending_inv_def)
    have "drop_pending_tx rt s tx = None" if "tx \<notin> set (pb_unknown_tx ?p)"
      using sha lk i len pos(1) False that del_unknown_wf [OF wf(2,1)]
      by (auto simp: drop_pending_tx_def Let_def simp del: set_map)
    then show ?thesis using view False by simp
  qed
qed

text \<open>
  Dropping a pending transaction takes exactly this one out of the arrays, but leaves it in the
  hash tables as pending: asked to drop it once more, the daemon aborts.
\<close>

theorem drop_twice_aborts:
  assumes inv: "pending_inv (rt_ssl rt) (st_pending s)" and o: "orderable (rt_ssl rt) tx"
    and lk: "c_nth (st_longest_knowns s) 0 = Some lk"
    and sha: "hash_tx (rt_ssl rt) tx = Some sha" "txhash_get_pending_tx rt s sha = Some tx"
    and tx: "tx \<in> arrays_view s" "tx \<notin> set (pb_unknown_tx (st_pending s))"
  shows "\<exists>s'. drop_pending_tx rt s tx = Some s' \<and> arrays_view s' = arrays_view s - {tx}
    \<and> txhash_get_pending_tx rt s' sha = Some tx \<and> drop_pending_tx rt s' tx = None"
proof -
  obtain s' where s': "drop_pending_tx rt s tx = Some s'" "arrays_view s' = arrays_view s - {tx}"
    "same_tables s s'" "st_longest_knowns s' = st_longest_knowns s"
    "pb_unknown_tx (st_pending s') = pb_unknown_tx (st_pending s)"
    using drop_found [OF inv o lk sha(1)] sha(2) tx(1) by auto
  have p: "txhash_get_pending_tx rt s' sha = Some tx" using same_tables_simps(2) [OF s'(3)] sha(2) by simp
  have inv': "pending_inv (rt_ssl rt) (st_pending s')" using drop_inv [OF inv _ s'(1)] o by (simp add: orderable_def)
  have "drop_pending_tx rt s' tx = None"
    using drop_found [OF inv' o _ sha(1), of lk] s' lk p tx(2) by simp
  with s' p show ?thesis by blast
qed

subsection \<open>A transaction without outputs\<close>

text \<open>
  A signed gateway transaction with no outputs passes \<open>check_tx\<close>, but it has no shard: working
  out where it belongs reads past the end of the transaction, and so does every attempt to
  add it to the pending ones.
\<close>

theorem empty_gateway_tx_crashes:
  assumes "st_test_net s" and "wf_tx (From_gateway t)" and "fg_num_outputs t = 0" and "tx_version t = 1"
    and "check_tx_sign (rt_ssl rt) (From_gateway t) (fg_gateway_key t) = Some True"
  shows "check_tx (rt_ssl rt) s (From_gateway t) None = Some PROTOCOL_ECODE_NONE
    \<and> shard_of_tx (rt_ssl rt) (From_gateway t) ord = None
    \<and> insert_pending_tx rt s (From_gateway t) = None"
proof -
  have out: "fg_outputs t = []" using assms(2,3) by simp
  then have "tx_valid (rt_ssl rt) next_shard_order (From_gateway t)"
    using assms(4,5) by (simp add: tx_valid_def payments_valid_def)
  then have "check_tx (rt_ssl rt) s (From_gateway t) None = Some PROTOCOL_ECODE_NONE"
    using check_tx_eq [OF assms(1,2), of next_shard_order None "rt_ssl rt"]
    by (auto simp: next_shard_order_def c_simps)
  moreover have "shard_of_tx (rt_ssl rt) (From_gateway t) k = None" for k
    using out by (simp add: get_from_gateway_outputs_def)
  moreover from this have "insert_pending_tx rt s (From_gateway t) = None"
    by (cases "c_nth (st_longest_knowns s) 0") (simp_all add: insert_pending_tx_def)
  ultimately show ?thesis by blast
qed

subsection \<open>Examples\<close>

lemma ex_orderable_normal: "orderable model_openssl ex_normal" "orderable model_openssl ex_spend"
  using ex_wf(2) ex_spend_wf digest_ok_model
  by (simp_all add: orderable_def) (simp_all add: ex_normal_def ex_spend_def)

theorem pending_always_ordered_witness:
  "pending_reach model_runtime ((ex_state 0)\<lparr>st_pending := new_pending_block\<rparr>)
   \<and> length (pb_pend (st_pending ((ex_state 0)\<lparr>st_pending := new_pending_block\<rparr>))) = 4"
proof -
  have r: "pending_reach model_runtime ((ex_state 0)\<lparr>st_pending := new_pending_block\<rparr>)"
    by (rule reach_start) simp
  show ?thesis using pending_always_ordered [OF _ r] r digest_ok_model by simp
qed

lemma ex_tx_pending: "st_pending ex_tx_state = new_pending_block" "st_longest_knowns ex_tx_state = [0]"
  by (simp_all add: ex_tx_state_def ex_state_def new_pending_block_def c_simps)

lemma ex_spend_hash: "\<exists>sha. hash_tx model_openssl ex_spend = Some sha"
  using hash_tx_Some [OF ex_spend_wf] by blast


definition ex_drop_state :: state where
  "ex_drop_state = ex_pending_state\<lparr>st_pending := new_pending_block
     \<lparr>pb_pend := (replicate 4 [])[unat (the (shard_of_tx model_openssl ex_normal next_shard_order)) :=
       [\<lparr>pt_tx = ex_normal, pt_refs = [ex_ref]\<rparr>]]\<rparr>\<rparr>"

lemma ex_drop:
  obtains i where "i < 4" "shard_of_tx model_openssl ex_normal next_shard_order = Some (word_of_nat i)"
    "st_pending ex_drop_state = new_pending_block\<lparr>pb_pend := (replicate 4 [])[i := [\<lparr>pt_tx = ex_normal, pt_refs = [ex_ref]\<rparr>]]\<rparr>"
proof -
  obtain i where i: "i < 4" "shard_of_tx model_openssl ex_normal next_shard_order = Some (word_of_nat i)"
    using orderable_shard [OF ex_orderable_normal(1)] by blast
  moreover have "unat (word_of_nat i :: u32) = i"
    using i(1) by (simp add: unsigned_of_nat take_bit_nat_eq_self)
  ultimately show thesis using that by (simp add: ex_drop_state_def)
qed

theorem drop_twice_witness:
  "\<exists>s'. drop_pending_tx model_runtime ex_drop_state ex_normal = Some s' \<and> drop_pending_tx model_runtime s' ex_normal = None"
proof -
  obtain i where i: "i < 4" "shard_of_tx model_openssl ex_normal next_shard_order = Some (word_of_nat i)"
    "st_pending ex_drop_state = new_pending_block\<lparr>pb_pend := (replicate 4 [])[i := [\<lparr>pt_tx = ex_normal, pt_refs = [ex_ref]\<rparr>]]\<rparr>"
    by (rule ex_drop)
  have "shard_array_ok model_openssl i [\<lparr>pt_tx = ex_normal, pt_refs = [ex_ref]\<rparr>]"
    using i(2) ex_orderable_normal by (simp add: shard_array_ok_def)
  then have inv: "pending_inv (rt_ssl model_runtime) (st_pending ex_drop_state)"
    using update_array_inv [OF new_pending_inv, of model_openssl i] i(3)
    by (simp add: new_pending_block_def c_simps)
  have get_ok: "txhash_get_pending_tx model_runtime ex_drop_state ex_sha = Some ex_normal"
    using get_pending_iff [OF tables_ok_model ex_hashes_ok(2), of ex_sha ex_normal]
    by (simp add: ex_drop_state_def txhash_get_pending_tx_def) (simp add: ex_pending_state_def)
  have v: "ex_normal \<in> arrays_view ex_drop_state" "ex_normal \<notin> set (pb_unknown_tx (st_pending ex_drop_state))"
    using i(1) by (auto simp: arrays_view_def in_arrays_def i(3) new_pending_block_def set_update_memI
        intro!: exI [of _ "\<lparr>pt_tx = ex_normal, pt_refs = [ex_ref]\<rparr>"] bexI [of _ "[\<lparr>pt_tx = ex_normal, pt_refs = [ex_ref]\<rparr>]"])
  have "c_nth (st_longest_knowns ex_drop_state) 0 = Some 0"
    by (simp add: ex_drop_state_def ex_pending_state_def ex_state_def)
  from drop_twice_aborts [OF inv _ this _ get_ok v] ex_orderable_normal(1) ex_hash show ?thesis by auto
qed

definition ex_empty_gateway :: protocol_tx_from_gateway where
  "ex_empty_gateway = \<lparr>tx_version = 1, tx_fee = False, tx_features = 0, fg_gateway_key = replicate 33 3,
     fg_num_outputs = 0, fg_unused = 0, fg_signature = \<lparr>sig_r = replicate 32 0, sig_s = replicate 32 0\<rparr>,
     fg_outputs = []\<rparr>"

theorem empty_gateway_witness:
  "check_tx model_openssl ex_tx_state (From_gateway ex_empty_gateway) None = Some PROTOCOL_ECODE_NONE
   \<and> insert_pending_tx model_runtime ex_tx_state (From_gateway ex_empty_gateway) = None"
proof -
  have wf: "wf_tx (From_gateway ex_empty_gateway)" by (simp add: ex_empty_gateway_def wf_signature_def)
  then obtain h where "sighash_tx model_openssl (From_gateway ex_empty_gateway) = Some h"
    using sighash_set_signature(2) [OF _ wf_get_signature] by blast
  then have "check_tx_sign model_openssl (From_gateway ex_empty_gateway) (fg_gateway_key ex_empty_gateway) = Some True"
    by (auto simp: check_tx_sign_def Let_def ex_empty_gateway_def model_openssl_def)
  with empty_gateway_tx_crashes [OF _ wf, of ex_tx_state model_runtime] show ?thesis
    by (simp add: ex_tx_state_def) (simp add: ex_empty_gateway_def)
qed

end
