(* ===== verification/Todo.thy ===== *)
theory Todo
  imports Walks
begin

section \<open>Questions for peers\<close>

text \<open>
  \<^verbatim>\<open>todo.c\<close>: the queue of questions the daemon wants its peers to answer, with two bitmaps per
  question (which peers have been asked, which of them have failed to answer) and a counter of
  unanswered questions per peer; with it the life cycle of a peer's slot and the choice of its
  next packet in \<^verbatim>\<open>peer.c\<close>.

  A \<^verbatim>\<open>struct peer *\<close> is an index into \<open>st_peers\<close>, a \<^verbatim>\<open>struct todo_request *\<close> an index into
  \<open>st_todo\<close>. A bitmap is a list of \<open>MAX_PEERS\<close> bits. \<^verbatim>\<open>list_add_tail\<close> appends, \<^verbatim>\<open>list_add\<close>
  prepends.
\<close>

definition MAX_PEERS :: nat where
  "MAX_PEERS = 64"

definition MAX_REQUESTS :: u32 where
  "MAX_REQUESTS = 4"

subsection \<open>todo.c\<close>

fun get_todo_ptrs :: "todo_type \<Rightarrow> bool \<times> bool" where
  \<comment> \<open>every request has a hash; which have a shard number, which a transaction offset\<close>
  "get_todo_ptrs PKT_GET_BLOCK = (False, False)"
| "get_todo_ptrs PKT_GET_SHARD = (True, False)"
| "get_todo_ptrs PKT_GET_TXMAP = (True, False)"
| "get_todo_ptrs PKT_GET_CHILDREN = (False, False)"
| "get_todo_ptrs PKT_GET_TX_IN_BLOCK = (True, True)"
| "get_todo_ptrs PKT_GET_TX = (False, False)"

definition todo_matches :: "todo_type \<Rightarrow> sha \<Rightarrow> u16 \<Rightarrow> u8 \<Rightarrow> todo_request \<Rightarrow> bool" where
  \<comment> \<open>one round of the loop of \<open>find_todo\<close>\<close>
  "todo_matches type sha shardnum txoff i =
     (if td_type i \<noteq> type then False
      else (case get_todo_ptrs (td_type i) of (i_shardnum, i_txoff) \<Rightarrow>
        if td_sha i \<noteq> sha then False
        else if i_shardnum \<and> td_shardnum i \<noteq> shardnum then False
        else if i_txoff \<and> td_txoff i \<noteq> txoff then False
        else True))"

fun find_todo_from :: "nat \<Rightarrow> todo_request list \<Rightarrow> todo_type \<Rightarrow> sha \<Rightarrow> u16 \<Rightarrow> u8 \<Rightarrow> nat option" where
  "find_todo_from k [] type sha shardnum txoff = None"
| "find_todo_from k (i # is) type sha shardnum txoff =
     (if todo_matches type sha shardnum txoff i then Some k
      else find_todo_from (Suc k) is type sha shardnum txoff)"

definition find_todo :: "state \<Rightarrow> todo_type \<Rightarrow> sha \<Rightarrow> u16 \<Rightarrow> u8 \<Rightarrow> nat option" where
  "find_todo s type sha shardnum txoff = find_todo_from 0 (st_todo s) type sha shardnum txoff"

definition emit :: "action \<Rightarrow> state \<Rightarrow> state" where
  "emit a s = s\<lparr>st_out := st_out s @ [a]\<rparr>"

definition new_todo_request :: "state \<Rightarrow> todo_type \<Rightarrow> sha \<Rightarrow> u16 \<Rightarrow> u8 \<Rightarrow> state" where
  "new_todo_request s type sha shardnum txoff =
     (if find_todo s type sha shardnum txoff \<noteq> None then s
      else
        (let t = \<lparr>td_asked = replicate MAX_PEERS False, td_failed = replicate MAX_PEERS False,
                  td_type = type, td_sha = sha,
                  td_shardnum = (if fst (get_todo_ptrs type) then shardnum else 0),
                  td_txoff = (if snd (get_todo_ptrs type) then txoff else 0)\<rparr>
         in emit Wake_peers (s\<lparr>st_todo := st_todo s @ [t]\<rparr>)))"

definition todo_add_get_children :: "state \<Rightarrow> sha \<Rightarrow> state" where
  "todo_add_get_children s blk = new_todo_request s PKT_GET_CHILDREN blk 0 0"

definition todo_add_get_block :: "state \<Rightarrow> sha \<Rightarrow> state" where
  "todo_add_get_block s blk = new_todo_request s PKT_GET_BLOCK blk 0 0"

definition todo_add_get_shard :: "state \<Rightarrow> sha \<Rightarrow> u16 \<Rightarrow> state" where
  "todo_add_get_shard s blk shardnum = new_todo_request s PKT_GET_SHARD blk shardnum 0"

definition todo_add_get_txmap :: "state \<Rightarrow> sha \<Rightarrow> u16 \<Rightarrow> state" where
  "todo_add_get_txmap s blk shardnum = new_todo_request s PKT_GET_TXMAP blk shardnum 0"

definition todo_add_get_tx_in_block :: "state \<Rightarrow> sha \<Rightarrow> u16 \<Rightarrow> u8 \<Rightarrow> state" where
  "todo_add_get_tx_in_block s blk shardnum txoff =
     new_todo_request s PKT_GET_TX_IN_BLOCK blk shardnum txoff"

definition todo_add_get_tx :: "state \<Rightarrow> sha \<Rightarrow> state" where
  "todo_add_get_tx s tx = new_todo_request s PKT_GET_TX tx 0 0"

definition upd_peer :: "state \<Rightarrow> nat \<Rightarrow> (peer \<Rightarrow> peer) \<Rightarrow> state option" where
  \<comment> \<open>an assignment through a \<^verbatim>\<open>struct peer *\<close>\<close>
  "upd_peer s k f =
     do { p \<leftarrow> c_nth (st_peers s) k; Some (s\<lparr>st_peers := (st_peers s)[k := f p]\<rparr>) }"

definition todo_for_peer :: "state \<Rightarrow> nat \<Rightarrow> bytes \<Rightarrow> state option" where
  "todo_for_peer s k pkt =
     do { p \<leftarrow> c_nth (st_peers s) k;
          s1 \<leftarrow> upd_peer s k (\<lambda>p. p\<lparr>p_todo := p_todo p @ [pkt]\<rparr>);
          Some (emit (Wake_peer (p_num p)) s1) }"

fun find_peer_from :: "nat \<Rightarrow> peer list \<Rightarrow> nat \<Rightarrow> nat option" where
  "find_peer_from k [] i = None"
| "find_peer_from k (p # ps) i = (if p_num p = i then Some k else find_peer_from (Suc k) ps i)"

definition find_peer :: "state \<Rightarrow> nat \<Rightarrow> nat option" where
  "find_peer s i = find_peer_from 0 (st_peers s) i"

definition remove_peer_from_todo :: "state \<Rightarrow> nat \<Rightarrow> state" where
  \<comment> \<open>of the peer it reads the number only\<close>
  "remove_peer_from_todo s i =
     s\<lparr>st_todo := map (\<lambda>r. r\<lparr>td_asked := (td_asked r)[i := False],
                             td_failed := (td_failed r)[i := False]\<rparr>) (st_todo s)\<rparr>"

definition dec_outstanding :: "peer \<Rightarrow> peer" where
  "dec_outstanding p = p\<lparr>p_requests_outstanding := p_requests_outstanding p - 1\<rparr>"

fun release_peers :: "state \<Rightarrow> todo_request \<Rightarrow> nat list \<Rightarrow> state option" where
  \<comment> \<open>the loop of \<open>delete_todo\<close> over the peer numbers; \<open>find_peer\<close> is not checked for NULL\<close>
  "release_peers s todo [] = Some s"
| "release_peers s todo (i # is) =
     do { asked \<leftarrow> c_nth (td_asked todo) i;
          failed \<leftarrow> c_nth (td_failed todo) i;
          s1 \<leftarrow> (if asked \<and> \<not> failed
                 then do { k \<leftarrow> find_peer s i; upd_peer s k dec_outstanding }
                 else Some s);
          release_peers s1 todo is }"

definition delete_todo :: "state \<Rightarrow> nat \<Rightarrow> state option" where
  "delete_todo s j =
     do { todo \<leftarrow> c_nth (st_todo s) j;
          release_peers (s\<lparr>st_todo := take j (st_todo s) @ drop (Suc j) (st_todo s)\<rparr>) todo
            [0..<MAX_PEERS] }"

definition finish_todo ::
    "state \<Rightarrow> nat \<Rightarrow> todo_type \<Rightarrow> sha \<Rightarrow> u16 \<Rightarrow> u8 \<Rightarrow> bool \<Rightarrow> state option" where
  "finish_todo s k type sha shardnum txoff success =
     (case find_todo s type sha shardnum txoff of
        None \<Rightarrow> Some s
      | Some j \<Rightarrow> do {
          todo \<leftarrow> c_nth (st_todo s) j;
          p \<leftarrow> c_nth (st_peers s) k;
          asked \<leftarrow> c_nth (td_asked todo) (p_num p);
          failed \<leftarrow> c_nth (td_failed todo) (p_num p);
          if success then delete_todo s j
          else if asked \<and> \<not> failed then do {
            c_assert (p_requests_outstanding p \<noteq> 0);
            upd_peer (s\<lparr>st_todo := (st_todo s)[j := todo\<lparr>td_failed := (td_failed todo)[p_num p := True]\<rparr>]\<rparr>)
              k dec_outstanding }
          else Some s })"

definition todo_done_get_children :: "state \<Rightarrow> nat \<Rightarrow> sha \<Rightarrow> bool \<Rightarrow> state option" where
  "todo_done_get_children s k blk success = finish_todo s k PKT_GET_CHILDREN blk 0 0 success"

definition todo_done_get_block :: "state \<Rightarrow> nat \<Rightarrow> sha \<Rightarrow> bool \<Rightarrow> state option" where
  "todo_done_get_block s k blk success = finish_todo s k PKT_GET_BLOCK blk 0 0 success"

definition todo_done_get_shard :: "state \<Rightarrow> nat \<Rightarrow> sha \<Rightarrow> u16 \<Rightarrow> bool \<Rightarrow> state option" where
  "todo_done_get_shard s k blk shardnum success =
     finish_todo s k PKT_GET_SHARD blk shardnum 0 success"

definition todo_done_get_txmap :: "state \<Rightarrow> nat \<Rightarrow> sha \<Rightarrow> u16 \<Rightarrow> bool \<Rightarrow> state option" where
  "todo_done_get_txmap s k blk shardnum success =
     finish_todo s k PKT_GET_TXMAP blk shardnum 0 success"

definition todo_done_get_tx_in_block ::
    "state \<Rightarrow> nat \<Rightarrow> sha \<Rightarrow> u16 \<Rightarrow> u8 \<Rightarrow> bool \<Rightarrow> state option" where
  "todo_done_get_tx_in_block s k blk shardnum txoff success =
     finish_todo s k PKT_GET_TX_IN_BLOCK blk shardnum txoff success"

definition todo_done_get_tx :: "state \<Rightarrow> nat \<Rightarrow> sha \<Rightarrow> bool \<Rightarrow> state option" where
  "todo_done_get_tx s k tx success = finish_todo s k PKT_GET_TX tx 0 0 success"

definition todo_forget_about_block :: "state \<Rightarrow> sha \<Rightarrow> state" where
  "todo_forget_about_block s blk = s\<lparr>st_todo := filter (\<lambda>i. td_sha i \<noteq> blk) (st_todo s)\<rparr>"

text \<open>
  What \<open>get_todo_pkt\<close> returns: a packet queued for this peer, or a copy of a request. Of a
  request the fields the code has written are kept; the padding after them is not.
\<close>

datatype todo_pkt =
    Queued_pkt bytes
  | Request_pkt todo_type sha "u16 option" "u8 option"

definition request_pkt :: "todo_request \<Rightarrow> todo_pkt" where
  "request_pkt r =
     (case get_todo_ptrs (td_type r) of (has_shardnum, has_txoff) \<Rightarrow>
        Request_pkt (td_type r) (td_sha r)
          (if has_shardnum then Some (td_shardnum r) else None)
          (if has_txoff then Some (td_txoff r) else None))"

fun first_unasked :: "nat \<Rightarrow> nat \<Rightarrow> todo_request list \<Rightarrow> nat option option" where
  \<comment> \<open>the loop of \<open>get_todo_pkt\<close>: the first request the peer \<open>i\<close> has not been asked\<close>
  "first_unasked j i [] = Some None"
| "first_unasked j i (r # rs) =
     do { asked \<leftarrow> c_nth (td_asked r) i;
          if \<not> asked then Some (Some j) else first_unasked (Suc j) i rs }"

definition get_todo_pkt :: "state \<Rightarrow> nat \<Rightarrow> (todo_pkt option \<times> state) option" where
  "get_todo_pkt s k =
     do { p \<leftarrow> c_nth (st_peers s) k;
          (case p_todo p of
             pkt # rest \<Rightarrow> do {
               s1 \<leftarrow> upd_peer s k (\<lambda>p. p\<lparr>p_todo := rest\<rparr>);
               Some (Some (Queued_pkt pkt), s1) }
           | [] \<Rightarrow>
               if p_requests_outstanding p \<ge> MAX_REQUESTS then Some (None, s)
               else do {
                 f \<leftarrow> first_unasked 0 (p_num p) (st_todo s);
                 (case f of
                    None \<Rightarrow> Some (None, s)
                  | Some j \<Rightarrow> do {
                      r \<leftarrow> c_nth (st_todo s) j;
                      s1 \<leftarrow> upd_peer
                         (s\<lparr>st_todo := (st_todo s)[j := r\<lparr>td_asked := (td_asked r)[p_num p := True]\<rparr>]\<rparr>)
                         k (\<lambda>p. p\<lparr>p_requests_outstanding := p_requests_outstanding p + 1\<rparr>);
                      Some (Some (request_pkt r), s1) }) }) }"

subsection \<open>peer.c: slots and the next packet of a peer\<close>

fun get_peernum_from :: "nat \<Rightarrow> bool list \<Rightarrow> nat" where
  "get_peernum_from i [] = i"
| "get_peernum_from i (b # bs) = (if \<not> b then i else get_peernum_from (Suc i) bs)"

definition get_peernum :: "bool list \<Rightarrow> nat" where
  "get_peernum bits = get_peernum_from 0 bits"

definition alloc_peer :: "state \<Rightarrow> state option" where
  \<comment> \<open>\<open>None\<close> is the NULL of too many peers; the new peer is the head of the list\<close>
  "alloc_peer s =
     (let peernum = get_peernum (st_peer_map s)
      in if peernum = MAX_PEERS then None
         else Some (s\<lparr>st_peer_map := (st_peer_map s)[peernum := True],
                      st_peers := \<lparr>p_num = peernum, p_we_are_syncing = True, p_they_are_syncing = True,
                                   p_error_pkt = None, p_welcome = None, p_requests_outstanding = 0,
                                   p_todo = []\<rparr> # st_peers s,
                      st_num_peers := st_num_peers s + 1\<rparr>))"

definition destroy_peer :: "state \<Rightarrow> nat \<Rightarrow> state option" where
  "destroy_peer s k =
     do { p \<leftarrow> c_nth (st_peers s) k;
          let s1 = s\<lparr>st_peers := take k (st_peers s) @ drop (Suc k) (st_peers s)\<rparr>;
          let s2 = (if p_welcome p \<noteq> None
                    then (let s' = s1\<lparr>st_num_peers_connected := st_num_peers_connected s1 - 1\<rparr>
                          in if p_we_are_syncing p then emit (Peer_cache_del (p_num p) False) s' else s')
                    else emit (Peer_cache_del (p_num p) (st_num_peers_connected s1 \<noteq> 0)) s1);
          let s3 = s2\<lparr>st_num_peers := st_num_peers s2 - 1,
                      st_peer_map := (st_peer_map s2)[p_num p := False]\<rparr>;
          Some (emit Fill_peers (remove_peer_from_todo s3 (p_num p))) }"

datatype output_plan =
    Write_then_close protocol_ecode
  | Write_packet todo_pkt
  | Write_set_filter
  | Io_wait

definition plan_output :: "state \<Rightarrow> nat \<Rightarrow> (output_plan \<times> state) option" where
  "plan_output s k =
     do { p \<leftarrow> c_nth (st_peers s) k;
          (case p_error_pkt p of
             Some e \<Rightarrow> Some (Write_then_close e, s)
           | None \<Rightarrow> do {
               (pkt, s1) \<leftarrow> get_todo_pkt s k;
               (case pkt of
                  Some pk \<Rightarrow> Some (Write_packet pk, s1)
                | None \<Rightarrow>
                    if p_we_are_syncing p \<and> p_requests_outstanding p = 0
                    then do {
                      s2 \<leftarrow> upd_peer s1 k (\<lambda>p. p\<lparr>p_we_are_syncing := False\<rparr>);
                      Some (Write_set_filter, s2) }
                    else Some (Io_wait, s1)) }) }"

subsection \<open>What the queue promises\<close>

text \<open>
  The specification has no bitmaps and no counters. It is a list of distinct questions, each with
  a status per peer; a peer may be asked a question it has not been asked before, oldest first,
  as long as fewer than four of its answers are awaited. A right answer removes the question, a
  failure is remembered, a peer that leaves is forgotten.
\<close>

datatype status = Unasked | Waiting | Failed

type_synonym question = "todo_type \<times> sha \<times> u16 \<times> u8"

record todo_spec =
  sp_queue :: "(question \<times> (nat \<Rightarrow> status)) list"
  sp_connected :: "nat set"

datatype todo_event =
    Ev_add question
  | Ev_queue nat
  | Ev_sent_queued nat
  | Ev_ask nat "question option"
  | Ev_done nat question bool
  | Ev_connect nat
  | Ev_leave nat

definition waiting_count :: "(question \<times> (nat \<Rightarrow> status)) list \<Rightarrow> nat \<Rightarrow> nat" where
  "waiting_count qs i = length (filter (\<lambda>qf. snd qf i = Waiting) qs)"

inductive spec_step :: "todo_spec \<Rightarrow> todo_event \<Rightarrow> todo_spec \<Rightarrow> bool" where
  spec_dup: "q \<in> fst ` set (sp_queue sp) \<Longrightarrow> spec_step sp (Ev_add q) sp"
| spec_add: "q \<notin> fst ` set (sp_queue sp) \<Longrightarrow>
    spec_step sp (Ev_add q) (sp\<lparr>sp_queue := sp_queue sp @ [(q, \<lambda>_. Unasked)]\<rparr>)"
| spec_queue: "i \<in> sp_connected sp \<Longrightarrow> spec_step sp (Ev_queue i) sp"
| spec_sent: "i \<in> sp_connected sp \<Longrightarrow> spec_step sp (Ev_sent_queued i) sp"
| spec_idle: "i \<in> sp_connected sp \<Longrightarrow>
    4 \<le> waiting_count (sp_queue sp) i \<or> (\<forall>qf \<in> set (sp_queue sp). snd qf i \<noteq> Unasked) \<Longrightarrow>
    spec_step sp (Ev_ask i None) sp"
| spec_ask: "i \<in> sp_connected sp \<Longrightarrow> waiting_count (sp_queue sp) i < 4 \<Longrightarrow>
    sp_queue sp = xs @ (q, f) # ys \<Longrightarrow> f i = Unasked \<Longrightarrow>
    (\<forall>qf \<in> set xs. snd qf i \<noteq> Unasked) \<Longrightarrow>
    spec_step sp (Ev_ask i (Some q)) (sp\<lparr>sp_queue := xs @ (q, f(i := Waiting)) # ys\<rparr>)"
| spec_success: "i \<in> sp_connected sp \<Longrightarrow>
    spec_step sp (Ev_done i q True) (sp\<lparr>sp_queue := filter (\<lambda>qf. fst qf \<noteq> q) (sp_queue sp)\<rparr>)"
| spec_failure: "i \<in> sp_connected sp \<Longrightarrow>
    spec_step sp (Ev_done i q False)
      (sp\<lparr>sp_queue := map (\<lambda>qf. if fst qf = q \<and> snd qf i = Waiting then (fst qf, (snd qf)(i := Failed))
                               else qf) (sp_queue sp)\<rparr>)"
| spec_connect: "i \<notin> sp_connected sp \<Longrightarrow> i < MAX_PEERS \<Longrightarrow>
    spec_step sp (Ev_connect i) (sp\<lparr>sp_connected := insert i (sp_connected sp)\<rparr>)"
| spec_leave: "i \<in> sp_connected sp \<Longrightarrow>
    spec_step sp (Ev_leave i)
      (sp\<lparr>sp_queue := map (\<lambda>qf. (fst qf, (snd qf)(i := Unasked))) (sp_queue sp),
          sp_connected := sp_connected sp - {i}\<rparr>)"

text \<open>The abstraction: bitmaps read as statuses, the peer list as the set of slot numbers.\<close>

definition req_question :: "todo_request \<Rightarrow> question" where
  "req_question r = (td_type r, td_sha r, td_shardnum r, td_txoff r)"

definition req_status :: "todo_request \<Rightarrow> nat \<Rightarrow> status" where
  "req_status r i =
     (if i < MAX_PEERS \<and> td_asked r ! i then (if td_failed r ! i then Failed else Waiting) else Unasked)"

definition abs_req :: "todo_request \<Rightarrow> question \<times> (nat \<Rightarrow> status)" where
  "abs_req r = (req_question r, req_status r)"

definition todo_abs :: "state \<Rightarrow> todo_spec" where
  "todo_abs s = \<lparr>sp_queue = map abs_req (st_todo s), sp_connected = p_num ` set (st_peers s)\<rparr>"

fun norm_question :: "todo_type \<Rightarrow> sha \<Rightarrow> u16 \<Rightarrow> u8 \<Rightarrow> question" where
  "norm_question type sha shardnum txoff =
     (type, sha, if fst (get_todo_ptrs type) then shardnum else 0,
      if snd (get_todo_ptrs type) then txoff else 0)"

fun pkt_event :: "nat \<Rightarrow> todo_pkt option \<Rightarrow> todo_event" where
  "pkt_event i None = Ev_ask i None"
| "pkt_event i (Some (Queued_pkt _)) = Ev_sent_queued i"
| "pkt_event i (Some (Request_pkt t sha sh off)) =
     Ev_ask i (Some (t, sha, (case sh of None \<Rightarrow> 0 | Some x \<Rightarrow> x), (case off of None \<Rightarrow> 0 | Some x \<Rightarrow> x)))"

inductive todo_step :: "state \<Rightarrow> todo_event \<Rightarrow> state \<Rightarrow> bool" where
  step_add: "new_todo_request s type sha shardnum txoff = s' \<Longrightarrow>
    todo_step s (Ev_add (norm_question type sha shardnum txoff)) s'"
| step_queue: "k < length (st_peers s) \<Longrightarrow> todo_for_peer s k pkt = Some s' \<Longrightarrow>
    todo_step s (Ev_queue (p_num (st_peers s ! k))) s'"
| step_poll: "k < length (st_peers s) \<Longrightarrow> get_todo_pkt s k = Some (r, s') \<Longrightarrow>
    todo_step s (pkt_event (p_num (st_peers s ! k)) r) s'"
| step_done: "k < length (st_peers s) \<Longrightarrow>
    finish_todo s k type sha shardnum txoff success = Some s' \<Longrightarrow>
    todo_step s (Ev_done (p_num (st_peers s ! k)) (norm_question type sha shardnum txoff) success) s'"
| step_connect: "alloc_peer s = Some s' \<Longrightarrow> todo_step s (Ev_connect (get_peernum (st_peer_map s))) s'"
| step_leave: "k < length (st_peers s) \<Longrightarrow> destroy_peer s k = Some s' \<Longrightarrow>
    todo_step s (Ev_leave (p_num (st_peers s ! k))) s'"

text \<open>
  The invariant which ties bitmaps and counters together: the counter of a peer is the number of
  questions it has been asked and has not failed, and never more than four.
\<close>

definition req_ok :: "nat set \<Rightarrow> todo_request \<Rightarrow> bool" where
  "req_ok slots r \<longleftrightarrow>
     length (td_asked r) = MAX_PEERS \<and> length (td_failed r) = MAX_PEERS \<and>
     (\<forall>i < MAX_PEERS. td_failed r ! i \<longrightarrow> td_asked r ! i) \<and>
     (\<forall>i < MAX_PEERS. td_asked r ! i \<longrightarrow> i \<in> slots) \<and>
     req_question r = norm_question (td_type r) (td_sha r) (td_shardnum r) (td_txoff r)"

definition peer_ok :: "todo_request list \<Rightarrow> peer \<Rightarrow> bool" where
  "peer_ok rs p \<longleftrightarrow>
     p_num p < MAX_PEERS \<and>
     unat (p_requests_outstanding p) = waiting_count (map abs_req rs) (p_num p) \<and>
     p_requests_outstanding p \<le> MAX_REQUESTS"

definition todo_inv :: "state \<Rightarrow> bool" where
  "todo_inv s \<longleftrightarrow>
     length (st_peer_map s) = MAX_PEERS \<and>
     distinct (map p_num (st_peers s)) \<and>
     (\<forall>i < MAX_PEERS. st_peer_map s ! i \<longleftrightarrow> i \<in> p_num ` set (st_peers s)) \<and>
     distinct (map req_question (st_todo s)) \<and>
     (\<forall>r \<in> set (st_todo s). req_ok (p_num ` set (st_peers s)) r) \<and>
     (\<forall>p \<in> set (st_peers s). peer_ok (st_todo s) p)"

subsection \<open>Lemmas on the pieces\<close>

lemma emit_simps [simp]:
  "st_todo (emit a s) = st_todo s" "st_peers (emit a s) = st_peers s"
  "st_peer_map (emit a s) = st_peer_map s" "st_num_peers (emit a s) = st_num_peers s"
  "st_num_peers_connected (emit a s) = st_num_peers_connected s"
  "todo_inv (emit a s) = todo_inv s" "todo_abs (emit a s) = todo_abs s"
  by (simp_all add: emit_def todo_inv_def todo_abs_def)

lemma todo_matches_iff:
  "req_ok S r \<Longrightarrow> todo_matches type sha sh off r \<longleftrightarrow> req_question r = norm_question type sha sh off"
  by (auto simp: todo_matches_def req_ok_def req_question_def split: prod.splits if_splits)

declare norm_question.simps [simp del]

lemma find_todo_from_None:
  "find_todo_from k rs type sha sh off = None \<longleftrightarrow> (\<forall>r \<in> set rs. \<not> todo_matches type sha sh off r)"
  by (induction rs arbitrary: k) auto

lemma find_todo_from_Some:
  "find_todo_from k rs type sha sh off = Some j \<Longrightarrow>
   k \<le> j \<and> j - k < length rs \<and> todo_matches type sha sh off (rs ! (j - k))"
  by (induction rs arbitrary: k) (fastforce simp: nth_Cons' split: if_splits)+

lemma find_todo_cases:
  assumes inv: "todo_inv s"
  shows "(case find_todo s type sha sh off of
            None \<Rightarrow> norm_question type sha sh off \<notin> req_question ` set (st_todo s)
          | Some j \<Rightarrow> j < length (st_todo s) \<and> req_question (st_todo s ! j) = norm_question type sha sh off)"
proof (cases "find_todo s type sha sh off")
  case None
  then have "\<forall>r \<in> set (st_todo s). \<not> todo_matches type sha sh off r"
    by (simp add: find_todo_def find_todo_from_None)
  then have "norm_question type sha sh off \<notin> req_question ` set (st_todo s)"
    using inv todo_matches_iff unfolding todo_inv_def by (metis imageE)
  then show ?thesis using None by simp
next
  case (Some j)
  then have "j < length (st_todo s) \<and> todo_matches type sha sh off (st_todo s ! j)"
    using find_todo_from_Some[of 0 "st_todo s" type sha sh off j] by (simp add: find_todo_def)
  then have "j < length (st_todo s) \<and> req_question (st_todo s ! j) = norm_question type sha sh off"
    using inv todo_matches_iff nth_mem unfolding todo_inv_def by metis
  then show ?thesis using Some by simp
qed

lemma find_peer_from_eq:
  assumes "distinct (map p_num ps)" "j < length ps"
  shows "find_peer_from k ps (p_num (ps ! j)) = Some (k + j)"
  using assms
proof (induction ps arbitrary: k j)
  case (Cons p ps)
  then show ?case
    by (cases j) (auto dest: nth_mem)
qed simp

lemma upd_peer_eq:
  "k < length (st_peers s) \<Longrightarrow> upd_peer s k f = Some (s\<lparr>st_peers := (st_peers s)[k := f (st_peers s ! k)]\<rparr>)"
  by (simp add: upd_peer_def)

lemma list_update_map:
  "distinct (map g xs) \<Longrightarrow> k < length xs \<Longrightarrow>
   xs[k := f (xs ! k)] = map (\<lambda>x. if g x = g (xs ! k) then f x else x) xs"
  by (auto simp: list_eq_iff_nth_eq nth_list_update nth_eq_iff_index_eq distinct_conv_nth)

lemma release_peers_eq:
  assumes "distinct is" "set is \<subseteq> {..<MAX_PEERS}" "distinct (map p_num (st_peers s))"
    "req_ok (p_num ` set (st_peers s)) r"
  shows "release_peers s r is =
     Some (s\<lparr>st_peers := map (\<lambda>p. if p_num p \<in> set is \<and> req_status r (p_num p) = Waiting
                                 then dec_outstanding p else p) (st_peers s)\<rparr>)"
  using assms
proof (induction "is" arbitrary: s)
  case Nil
  then show ?case by simp
next
  case (Cons i "is")
  have i: "i < MAX_PEERS" "i < length (td_asked r)" "i < length (td_failed r)"
    using Cons.prems by (auto simp: req_ok_def)
  show ?case
  proof (cases "req_status r i = Waiting")
    case False
    then have "\<not> (td_asked r ! i \<and> \<not> td_failed r ! i)" using i by (auto simp: req_status_def split: if_splits)
    moreover have "(\<lambda>p. if p_num p \<in> set (i # is) \<and> req_status r (p_num p) = Waiting then dec_outstanding p else p)
      = (\<lambda>p. if p_num p \<in> set is \<and> req_status r (p_num p) = Waiting then dec_outstanding p else p)"
      using False by auto
    ultimately show ?thesis using i Cons by (auto simp del: c_nth_eq_Some)
  next
    case True
    then have w: "td_asked r ! i" "\<not> td_failed r ! i"
      by (auto simp: req_status_def split: if_splits)
    then have "i \<in> p_num ` set (st_peers s)" using Cons.prems i by (auto simp: req_ok_def)
    then obtain k where k: "k < length (st_peers s)" "p_num (st_peers s ! k) = i"
      by (auto simp: in_set_conv_nth)
    let ?s1 = "s\<lparr>st_peers := (st_peers s)[k := dec_outstanding (st_peers s ! k)]\<rparr>"
    have nums: "map p_num (st_peers ?s1) = map p_num (st_peers s)"
      using k by (simp add: map_update dec_outstanding_def list_update_same_conv)
    have "release_peers s r (i # is) = release_peers ?s1 r is"
      using i w k find_peer_from_eq[OF Cons.prems(3) k(1), of 0]
      by (simp add: find_peer_def upd_peer_eq)
    also have "\<dots> = Some (?s1\<lparr>st_peers := map (\<lambda>p. if p_num p \<in> set is \<and> req_status r (p_num p) = Waiting
                                 then dec_outstanding p else p) (st_peers ?s1)\<rparr>)"
      using Cons.prems nums
      by (intro Cons.IH) (auto simp: simp flip: set_map)
    also have "\<dots> = Some (s\<lparr>st_peers := map (\<lambda>p. if p_num p \<in> set (i # is) \<and> req_status r (p_num p) = Waiting
                                 then dec_outstanding p else p) (st_peers s)\<rparr>)"
    proof -
      have "i \<notin> set is" using Cons.prems by simp
      then have "map (\<lambda>p. if p_num p \<in> set is \<and> req_status r (p_num p) = Waiting
             then dec_outstanding p else p) (st_peers ?s1)
        = map (\<lambda>p. if p_num p \<in> set (i # is) \<and> req_status r (p_num p) = Waiting
             then dec_outstanding p else p) (st_peers s)"
        using k True Cons.prems(3)
        by (auto simp: list_eq_iff_nth_eq nth_list_update dec_outstanding_def distinct_conv_nth)
      then show ?thesis by simp
    qed
    finally show ?thesis .
  qed
qed

subsection \<open>Every operation keeps the invariant and refines its step of the specification\<close>

lemma waiting_count_simps [simp]:
  "waiting_count [] i = 0"
  "waiting_count (qf # qs) i = (if snd qf i = Waiting then 1 else 0) + waiting_count qs i"
  "waiting_count (qs @ rs) i = waiting_count qs i + waiting_count rs i"
  by (simp_all add: waiting_count_def)

lemma split_at: "j < length xs \<Longrightarrow> \<exists>as bs. xs = as @ xs ! j # bs \<and> length as = j"
  using id_take_nth_drop[of j xs] by (metis length_take min.absorb4)

lemma abs_req_simps [simp]:
  "fst (abs_req r) = req_question r" "snd (abs_req r) = req_status r"
  by (simp_all add: abs_req_def)

lemma req_status_out: "req_ok S r \<Longrightarrow> i \<notin> S \<Longrightarrow> req_status r i = Unasked"
  by (auto simp: req_status_def req_ok_def)

lemma todo_inv_peer:
  "todo_inv s \<Longrightarrow> k < length (st_peers s) \<Longrightarrow> peer_ok (st_todo s) (st_peers s ! k)"
  by (simp add: todo_inv_def)

lemma todo_inv_req:
  "todo_inv s \<Longrightarrow> j < length (st_todo s) \<Longrightarrow> req_ok (p_num ` set (st_peers s)) (st_todo s ! j)"
  by (simp add: todo_inv_def)

lemma peer_in_slots: "k < length (st_peers s) \<Longrightarrow> p_num (st_peers s ! k) \<in> sp_connected (todo_abs s)"
  by (simp add: todo_abs_def)

lemma req_question_queue: "fst ` set (sp_queue (todo_abs s)) = req_question ` set (st_todo s)"
  by (simp add: todo_abs_def image_image)

definition fresh_request :: "todo_type \<Rightarrow> sha \<Rightarrow> u16 \<Rightarrow> u8 \<Rightarrow> todo_request" where
  "fresh_request type sha sh off =
     \<lparr>td_asked = replicate MAX_PEERS False, td_failed = replicate MAX_PEERS False,
      td_type = type, td_sha = sha,
      td_shardnum = (if fst (get_todo_ptrs type) then sh else 0),
      td_txoff = (if snd (get_todo_ptrs type) then off else 0)\<rparr>"

lemma fresh_request_facts:
  "req_ok S (fresh_request type sha sh off)"
  "abs_req (fresh_request type sha sh off) = (norm_question type sha sh off, \<lambda>_. Unasked)"
  by (auto simp: fresh_request_def req_ok_def abs_req_def req_question_def req_status_def
      norm_question.simps)

lemma fresh_question: "req_question (fresh_request type sha sh off) = norm_question type sha sh off"
  using fresh_request_facts(2) by (metis abs_req_simps(1) fst_conv)

lemma fresh_status: "req_status (fresh_request type sha sh off) i = Unasked"
  using fresh_request_facts(2) by (metis abs_req_simps(2) snd_conv)

lemma new_todo_request_eq:
  "new_todo_request s type sha sh off =
     (if find_todo s type sha sh off \<noteq> None then s
      else emit Wake_peers (s\<lparr>st_todo := st_todo s @ [fresh_request type sha sh off]\<rparr>))"
  by (simp add: new_todo_request_def fresh_request_def Let_def)

lemma new_todo_ok:
  assumes inv: "todo_inv s"
  shows "todo_inv (new_todo_request s type sha sh off) \<and>
    spec_step (todo_abs s) (Ev_add (norm_question type sha sh off))
      (todo_abs (new_todo_request s type sha sh off))"
proof (cases "find_todo s type sha sh off")
  case (Some j)
  then have "norm_question type sha sh off \<in> req_question ` set (st_todo s)"
    using find_todo_cases[OF inv, of type sha sh off] by auto (metis image_eqI nth_mem)
  then show ?thesis using inv Some
    by (simp add: new_todo_request_eq spec_dup req_question_queue)
next
  case None
  then have new: "norm_question type sha sh off \<notin> req_question ` set (st_todo s)"
    using find_todo_cases[OF inv, of type sha sh off] by simp
  let ?s = "s\<lparr>st_todo := st_todo s @ [fresh_request type sha sh off]\<rparr>"
  have "todo_inv ?s"
    using inv new by (auto simp: todo_inv_def peer_ok_def fresh_request_facts fresh_question fresh_status)
  moreover have "todo_abs ?s =
      (todo_abs s)\<lparr>sp_queue := sp_queue (todo_abs s) @ [(norm_question type sha sh off, \<lambda>_. Unasked)]\<rparr>"
    by (simp add: todo_abs_def fresh_request_facts)
  ultimately show ?thesis using None new
    by (simp add: new_todo_request_eq spec_add req_question_queue)
qed

text \<open>A change of one request and of the counter of one peer, as a failure or a question makes it.\<close>

lemma update_pair_ok:
  assumes inv: "todo_inv s" and k: "k < length (st_peers s)" and j: "j < length (st_todo s)"
    and ok: "req_ok (p_num ` set (st_peers s)) r'"
    and q: "req_question r' = req_question (st_todo s ! j)"
    and other: "\<And>i. i \<noteq> p_num (st_peers s ! k) \<Longrightarrow> req_status r' i = req_status (st_todo s ! j) i"
    and num: "p_num p' = p_num (st_peers s ! k)"
    and cnt: "peer_ok ((st_todo s)[j := r']) p'"
  shows "todo_inv (s\<lparr>st_todo := (st_todo s)[j := r'], st_peers := (st_peers s)[k := p']\<rparr>)"
proof -
  obtain as bs where st: "st_todo s = as @ st_todo s ! j # bs" "length as = j"
    using split_at[OF j] by blast
  then have upd: "(st_todo s)[j := r'] = as @ r' # bs" by (metis list_update_length)
  have nums: "map p_num ((st_peers s)[k := p']) = map p_num (st_peers s)"
    using k num by (simp add: map_update list_update_same_conv)
  then have slots: "p_num ` set ((st_peers s)[k := p']) = p_num ` set (st_peers s)"
    by (metis list.set_map)
  have qs: "map req_question ((st_todo s)[j := r']) = map req_question (st_todo s)"
    using j q by (simp add: map_update list_update_same_conv)
  have "peer_ok ((st_todo s)[j := r']) p" if "p \<in> set ((st_peers s)[k := p'])" for p
  proof (cases "p = p'")
    case False
    from that obtain m where "m < length (st_peers s)" "(st_peers s)[k := p'] ! m = p"
      by (metis in_set_conv_nth length_list_update)
    with False have m: "m < length (st_peers s)" "m \<noteq> k" "p = st_peers s ! m"
      using k by (cases "m = k"; auto)+
    then have "p_num p \<noteq> p_num (st_peers s ! k)"
      using inv k by (auto simp: todo_inv_def distinct_conv_nth)
    then have "waiting_count (map abs_req ((st_todo s)[j := r'])) (p_num p) =
        waiting_count (map abs_req (st_todo s)) (p_num p)"
      using other by (subst (2) st(1)) (simp add: upd)
    then show ?thesis using todo_inv_peer[OF inv m(1)] m(3) by (simp add: peer_ok_def)
  qed (use cnt in simp)
  moreover have "req_ok (p_num ` set (st_peers s)) r" if "r \<in> set ((st_todo s)[j := r'])" for r
    using that inv ok by (auto simp: todo_inv_def dest!: set_update_subset_insert[THEN subsetD])
  ultimately show ?thesis using inv nums slots qs
    by (simp add: todo_inv_def)
qed

lemma map_update_split:
  "j < length xs \<Longrightarrow> map f (xs[j := y]) = take j (map f xs) @ f y # drop (Suc j) (map f xs)"
  by (simp add: upd_conv_take_nth_drop take_map drop_map)

lemma waiting_count_upd:
  assumes "j < length rs"
  shows "waiting_count (map abs_req (rs[j := r'])) i + (if req_status (rs ! j) i = Waiting then 1 else 0) =
         waiting_count (map abs_req rs) i + (if req_status r' i = Waiting then 1 else 0)"
proof -
  obtain as bs where "rs = as @ rs ! j # bs" "length as = j" using split_at[OF assms] by blast
  then have "map abs_req rs = map abs_req as @ abs_req (rs ! j) # map abs_req bs"
    "map abs_req (rs[j := r']) = map abs_req as @ abs_req r' # map abs_req bs"
    by (metis list.simps(9) map_append, metis list.simps(9) list_update_length map_append)
  then show ?thesis by simp
qed

lemma first_unasked_cases:
  assumes "\<forall>r \<in> set rs. req_ok S r" "i < MAX_PEERS"
  shows "\<exists>f. first_unasked k i rs = Some f \<and>
    (case f of None \<Rightarrow> \<forall>r \<in> set rs. req_status r i \<noteq> Unasked
     | Some j \<Rightarrow> k \<le> j \<and> j - k < length rs \<and> req_status (rs ! (j - k)) i = Unasked \<and>
        (\<forall>m < j - k. req_status (rs ! m) i \<noteq> Unasked))"
  using assms(1)
proof (induction rs arbitrary: k)
  case (Cons r rs)
  have r: "i < length (td_asked r)" using Cons.prems assms(2) by (simp add: req_ok_def)
  have st: "req_status r i = Unasked \<longleftrightarrow> \<not> td_asked r ! i" using assms(2) by (simp add: req_status_def)
  obtain f where f: "first_unasked (Suc k) i rs = Some f"
    "(case f of None \<Rightarrow> \<forall>r \<in> set rs. req_status r i \<noteq> Unasked
     | Some j \<Rightarrow> Suc k \<le> j \<and> j - Suc k < length rs \<and> req_status (rs ! (j - Suc k)) i = Unasked \<and>
        (\<forall>m < j - Suc k. req_status (rs ! m) i \<noteq> Unasked))"
    using Cons by (meson list.set_intros(2))
  then show ?case using r st
    by (cases f) (auto simp: nth_Cons' less_diff_conv simp del: c_nth_eq_Some)
qed simp

lemma outstanding_pos:
  assumes "peer_ok rs p" "j < length rs" "req_status (rs ! j) (p_num p) = Waiting"
  shows "p_requests_outstanding p \<noteq> 0"
proof -
  obtain as bs where "rs = as @ rs ! j # bs" using split_at[OF assms(2)] by blast
  then have "map abs_req rs = map abs_req as @ abs_req (rs ! j) # map abs_req bs"
    by (metis list.simps(9) map_append)
  then have "waiting_count (map abs_req rs) (p_num p) \<noteq> 0" using assms(3) by simp
  then show ?thesis using assms(1) by (auto simp: peer_ok_def)
qed

lemma unat_dec: "x \<noteq> 0 \<Longrightarrow> unat (x - 1 :: u32) = unat x - 1"
  by (metis unat_minus_one)

lemma delete_todo_ok:
  assumes inv: "todo_inv s" and j: "j < length (st_todo s)"
  shows "\<exists>s'. delete_todo s j = Some s' \<and> todo_inv s' \<and>
    todo_abs s' = (todo_abs s)\<lparr>sp_queue :=
      filter (\<lambda>qf. fst qf \<noteq> req_question (st_todo s ! j)) (sp_queue (todo_abs s))\<rparr>"
proof -
  define r where "r = st_todo s ! j"
  obtain as bs where st: "st_todo s = as @ r # bs" "length as = j"
    using split_at[OF j] r_def by blast
  define g where "g = (\<lambda>p. if p_num p < MAX_PEERS \<and> req_status r (p_num p) = Waiting then dec_outstanding p else p)"
  define s' where "s' = s\<lparr>st_todo := as @ bs, st_peers := map g (st_peers s)\<rparr>"
  have num: "p_num (g p) = p_num p" for p by (simp add: g_def dec_outstanding_def)
  have ok: "req_ok (p_num ` set (st_peers s)) r" using todo_inv_req[OF inv j] by (simp add: r_def)
  have del: "delete_todo s j = Some s'"
    using st ok inv release_peers_eq[of "[0..<MAX_PEERS]" "s\<lparr>st_todo := as @ bs\<rparr>" r]
    by (auto simp: delete_todo_def todo_inv_def s'_def g_def atLeast_upt)
  have "peer_ok (as @ bs) (g p)" if p: "p \<in> set (st_peers s)" for p
  proof -
    have pk: "peer_ok (st_todo s) p" using inv p by (simp add: todo_inv_def)
    have pos: "p_requests_outstanding p \<noteq> 0" if "req_status r (p_num p) = Waiting"
      using outstanding_pos[OF pk j] that by (simp add: r_def)
    then have "p_requests_outstanding p - 1 \<le> MAX_REQUESTS" if "req_status r (p_num p) = Waiting"
      using that pk by (auto simp: peer_ok_def word_le_nat_alt unat_dec)
    then show ?thesis using pk pos st(1)
      by (auto simp: peer_ok_def g_def dec_outstanding_def unat_dec)
  qed
  moreover have "distinct (map (p_num \<circ> g) (st_peers s)) = distinct (map p_num (st_peers s))"
    by (simp add: num o_def)
  moreover have "p_num ` set (map g (st_peers s)) = p_num ` set (st_peers s)" by (simp add: image_image num)
  ultimately have "todo_inv s'" using inv st(1) by (simp add: todo_inv_def s'_def)
  moreover have "filter (\<lambda>qf. fst qf \<noteq> req_question r) (map abs_req (st_todo s)) = map abs_req (as @ bs)"
  proof -
    have "\<forall>x \<in> set (as @ bs). req_question x \<noteq> req_question r"
      using inv st(1) by (auto simp: todo_inv_def intro: rev_image_eqI)
    then show ?thesis using st(1) by (simp add: filter_map o_def filter_id_conv)
  qed
  then have "todo_abs s' = (todo_abs s)\<lparr>sp_queue :=
      filter (\<lambda>qf. fst qf \<noteq> req_question r) (sp_queue (todo_abs s))\<rparr>"
    by (simp add: todo_abs_def s'_def image_image num)
  ultimately show ?thesis using del by (auto simp: r_def)
qed

lemma mark_status:
  assumes "req_ok S r" "i < MAX_PEERS"
  shows "req_status (r\<lparr>td_failed := (td_failed r)[i := True]\<rparr>) m =
           (if m = i \<and> req_status r i = Waiting then Failed else req_status r m)"
    "req_status (r\<lparr>td_asked := (td_asked r)[i := True]\<rparr>) m =
           (if m = i \<and> req_status r i = Unasked then Waiting else req_status r m)"
  using assms by (auto simp: req_status_def req_ok_def nth_list_update)

lemma mark_question [simp]:
  "req_question (r\<lparr>td_failed := x\<rparr>) = req_question r" "req_question (r\<lparr>td_asked := x\<rparr>) = req_question r"
  by (simp_all add: req_question_def)

lemma mark_ok:
  assumes "req_ok S r" "i < MAX_PEERS"
  shows "td_asked r ! i \<Longrightarrow> req_ok S (r\<lparr>td_failed := (td_failed r)[i := True]\<rparr>)"
    "i \<in> S \<Longrightarrow> req_ok S (r\<lparr>td_asked := (td_asked r)[i := True]\<rparr>)"
  using assms by (auto simp: req_ok_def nth_list_update)

lemma fail_todo_ok:
  assumes inv: "todo_inv s" and k: "k < length (st_peers s)" and j: "j < length (st_todo s)"
    and w: "req_status (st_todo s ! j) (p_num (st_peers s ! k)) = Waiting"
    and s': "s' = s\<lparr>st_todo := (st_todo s)[j := (st_todo s ! j)
        \<lparr>td_failed := (td_failed (st_todo s ! j))[p_num (st_peers s ! k) := True]\<rparr>],
      st_peers := (st_peers s)[k := dec_outstanding (st_peers s ! k)]\<rparr>"
  shows "todo_inv s' \<and> todo_abs s' = (todo_abs s)\<lparr>sp_queue := (sp_queue (todo_abs s))[j :=
     (req_question (st_todo s ! j), (req_status (st_todo s ! j))(p_num (st_peers s ! k) := Failed))]\<rparr>"
proof -
  let ?r = "st_todo s ! j" and ?p = "st_peers s ! k"
  let ?r' = "?r\<lparr>td_failed := (td_failed ?r)[p_num ?p := True]\<rparr>"
  have ok: "req_ok (p_num ` set (st_peers s)) ?r" and pk: "peer_ok (st_todo s) ?p"
    using todo_inv_req[OF inv j] todo_inv_peer[OF inv k] by blast+
  then have i: "p_num ?p < MAX_PEERS" by (simp add: peer_ok_def)
  have asked: "td_asked ?r ! p_num ?p" using w by (auto simp: req_status_def split: if_splits)
  have pos: "p_requests_outstanding ?p \<noteq> 0" using outstanding_pos[OF pk j w] .
  have cnt: "waiting_count (map abs_req ((st_todo s)[j := ?r'])) (p_num ?p) + 1 =
      waiting_count (map abs_req (st_todo s)) (p_num ?p)"
    using waiting_count_upd[OF j, of ?r' "p_num ?p"] mark_status(1)[OF ok i] w by simp
  then have "peer_ok ((st_todo s)[j := ?r']) (dec_outstanding ?p)"
    using pk pos by (auto simp: peer_ok_def dec_outstanding_def unat_dec word_le_nat_alt)
  then have "todo_inv s'" unfolding s'
    using mark_status(1)[OF ok i] mark_ok(1)[OF ok i asked]
    by (intro update_pair_ok[OF inv k j]) (auto simp: dec_outstanding_def)
  moreover have "abs_req ?r' = (req_question ?r, (req_status ?r)(p_num ?p := Failed))"
    using mark_status(1)[OF ok i] w by (auto simp: abs_req_def)
  moreover have "p_num ` set ((st_peers s)[k := dec_outstanding ?p]) = p_num ` set (st_peers s)"
    using k by (metis (no_types) list.set_map list_update_id map_update dec_outstanding_def
        peer.select_convs(1) peer.simps(1) peer.surjective peer.update_convs(6))
  ultimately show ?thesis by (simp add: todo_abs_def s' map_update)
qed

lemma update_as_map:
  assumes "distinct (map req_question rs)" "j < length rs"
  shows "(map abs_req rs)[j := (req_question (rs ! j), g (req_status (rs ! j)))] =
    map (\<lambda>qf. if fst qf = req_question (rs ! j) then (fst qf, g (snd qf)) else qf) (map abs_req rs)"
  using assms by (auto simp: list_eq_iff_nth_eq nth_list_update distinct_conv_nth)

lemma finish_todo_ok:
  assumes inv: "todo_inv s" and k: "k < length (st_peers s)"
  shows "\<exists>s'. finish_todo s k type sha sh off success = Some s' \<and> todo_inv s' \<and>
    spec_step (todo_abs s) (Ev_done (p_num (st_peers s ! k)) (norm_question type sha sh off) success)
      (todo_abs s')"
proof (cases "find_todo s type sha sh off")
  case None
  let ?q = "norm_question type sha sh off"
  have new: "\<forall>qf \<in> set (sp_queue (todo_abs s)). fst qf \<noteq> ?q"
    using find_todo_cases[OF inv, of type sha sh off] None by (auto simp: todo_abs_def intro: rev_image_eqI)
  have "filter (\<lambda>qf. fst qf \<noteq> ?q) (sp_queue (todo_abs s)) = sp_queue (todo_abs s)"
    using new by (simp add: filter_id_conv)
  moreover have "map (\<lambda>qf. if fst qf = ?q \<and> snd qf (p_num (st_peers s ! k)) = Waiting
      then (fst qf, (snd qf)(p_num (st_peers s ! k) := Failed)) else qf) (sp_queue (todo_abs s))
    = sp_queue (todo_abs s)"
    using new by (intro map_idI) auto
  ultimately show ?thesis
    using inv None spec_success[OF peer_in_slots[OF k], of ?q] spec_failure[OF peer_in_slots[OF k], of ?q]
    by (cases success) (simp_all add: finish_todo_def)
next
  case (Some j)
  then have j: "j < length (st_todo s)" and q: "req_question (st_todo s ! j) = norm_question type sha sh off"
    using find_todo_cases[OF inv, of type sha sh off] by auto
  let ?r = "st_todo s ! j" and ?i = "p_num (st_peers s ! k)"
  have ok: "req_ok (p_num ` set (st_peers s)) ?r" and pk: "peer_ok (st_todo s) (st_peers s ! k)"
    using todo_inv_req[OF inv j] todo_inv_peer[OF inv k] by blast+
  have i: "?i < MAX_PEERS" "?i < length (td_asked ?r)" "?i < length (td_failed ?r)"
    using ok pk by (auto simp: req_ok_def peer_ok_def)
  have w: "req_status ?r ?i = Waiting \<longleftrightarrow> td_asked ?r ! ?i \<and> \<not> td_failed ?r ! ?i"
    using i by (auto simp: req_status_def)
  have upd: "(map abs_req (st_todo s))[j := (req_question ?r, g (req_status ?r))] =
    map (\<lambda>qf. if fst qf = req_question ?r then (fst qf, g (snd qf)) else qf) (map abs_req (st_todo s))" for g
    using inv by (intro update_as_map[OF _ j]) (simp add: todo_inv_def)
  consider (succ) success | (fail) "\<not> success" "req_status ?r ?i = Waiting"
    | (ignored) "\<not> success" "req_status ?r ?i \<noteq> Waiting" by blast
  then show ?thesis
  proof cases
    case succ
    then show ?thesis
      using delete_todo_ok[OF inv j] spec_success[OF peer_in_slots[OF k], of "norm_question type sha sh off"] Some j k i q
      by (auto simp: finish_todo_def)
  next
    case fail
    define s' where "s' = s\<lparr>st_todo := (st_todo s)[j := ?r\<lparr>td_failed := (td_failed ?r)[?i := True]\<rparr>],
      st_peers := (st_peers s)[k := dec_outstanding (st_peers s ! k)]\<rparr>"
    have "finish_todo s k type sha sh off success = Some s'"
      using fail Some j k i w outstanding_pos[OF pk j]
      by (simp add: finish_todo_def upd_peer_def s'_def)
    moreover have "todo_inv s'" and abs: "todo_abs s' = (todo_abs s)\<lparr>sp_queue :=
        (sp_queue (todo_abs s))[j := (req_question ?r, (req_status ?r)(?i := Failed))]\<rparr>"
      using fail_todo_ok[OF inv k j fail(2) s'_def] by blast+
    moreover have "(sp_queue (todo_abs s))[j := (req_question ?r, (req_status ?r)(?i := Failed))] =
      map (\<lambda>qf. if fst qf = norm_question type sha sh off \<and> snd qf ?i = Waiting
        then (fst qf, (snd qf)(?i := Failed)) else qf) (sp_queue (todo_abs s))"
      using upd[of "\<lambda>f. if f ?i = Waiting then f(?i := Failed) else f"] fail(2) q
      by (auto simp: todo_abs_def list_eq_iff_nth_eq nth_list_update abs_req_def)
    ultimately show ?thesis using spec_failure[OF peer_in_slots[OF k], of "norm_question type sha sh off"] fail(1) by simp
  next
    case ignored
    then have "finish_todo s k type sha sh off success = Some s"
      using Some j k i w by (auto simp: finish_todo_def)
    moreover have "map (\<lambda>qf. if fst qf = norm_question type sha sh off \<and> snd qf ?i = Waiting
        then (fst qf, (snd qf)(?i := Failed)) else qf) (sp_queue (todo_abs s)) = sp_queue (todo_abs s)"
      using ignored(2) q upd[of id] j inv
      by (intro map_idI) (auto simp: todo_abs_def todo_inv_def in_set_conv_nth distinct_conv_nth abs_req_def,
          metis+)
    ultimately show ?thesis
      using inv spec_failure[OF peer_in_slots[OF k], of "norm_question type sha sh off"] ignored(1) by simp
  qed
qed

lemma request_pkt_event:
  "req_ok S r \<Longrightarrow> pkt_event i (Some (request_pkt r)) = Ev_ask i (Some (req_question r))"
  by (cases "td_type r") (auto simp: request_pkt_def req_ok_def req_question_def norm_question.simps)

lemma peer_queue_ok:
  assumes inv: "todo_inv s" and k: "k < length (st_peers s)"
    and s': "s' = s\<lparr>st_peers := (st_peers s)[k := p']\<rparr>"
    and p': "p_num p' = p_num (st_peers s ! k)"
      "p_requests_outstanding p' = p_requests_outstanding (st_peers s ! k)"
  shows "todo_inv s' \<and> todo_abs s' = todo_abs s"
proof -
  have nums: "map p_num ((st_peers s)[k := p']) = map p_num (st_peers s)"
    using k p' by (simp add: map_update list_update_same_conv)
  then have slots: "p_num ` set ((st_peers s)[k := p']) = p_num ` set (st_peers s)"
    by (metis list.set_map)
  have "peer_ok (st_todo s) p'" using todo_inv_peer[OF inv k] p' by (simp add: peer_ok_def)
  then have "\<forall>p \<in> set ((st_peers s)[k := p']). peer_ok (st_todo s) p"
    using inv by (auto simp: todo_inv_def dest!: set_update_subset_insert[THEN subsetD])
  then show ?thesis using inv nums slots by (simp add: todo_inv_def todo_abs_def s')
qed

lemma ask_todo_ok:
  assumes inv: "todo_inv s" and k: "k < length (st_peers s)" and j: "j < length (st_todo s)"
    and un: "req_status (st_todo s ! j) (p_num (st_peers s ! k)) = Unasked"
    and lt: "p_requests_outstanding (st_peers s ! k) < MAX_REQUESTS"
    and s': "s' = s\<lparr>st_todo := (st_todo s)[j := (st_todo s ! j)
        \<lparr>td_asked := (td_asked (st_todo s ! j))[p_num (st_peers s ! k) := True]\<rparr>],
      st_peers := (st_peers s)[k := (st_peers s ! k)
        \<lparr>p_requests_outstanding := p_requests_outstanding (st_peers s ! k) + 1\<rparr>]\<rparr>"
  shows "todo_inv s' \<and> todo_abs s' = (todo_abs s)\<lparr>sp_queue := take j (sp_queue (todo_abs s)) @
     (req_question (st_todo s ! j), (req_status (st_todo s ! j))(p_num (st_peers s ! k) := Waiting)) #
     drop (Suc j) (sp_queue (todo_abs s))\<rparr>"
proof -
  let ?r = "st_todo s ! j" and ?p = "st_peers s ! k"
  let ?r' = "?r\<lparr>td_asked := (td_asked ?r)[p_num ?p := True]\<rparr>"
  let ?p' = "?p\<lparr>p_requests_outstanding := p_requests_outstanding ?p + 1\<rparr>"
  have ok: "req_ok (p_num ` set (st_peers s)) ?r" and pk: "peer_ok (st_todo s) ?p"
    using todo_inv_req[OF inv j] todo_inv_peer[OF inv k] by blast+
  then have i: "p_num ?p < MAX_PEERS" by (simp add: peer_ok_def)
  have inc: "unat (p_requests_outstanding ?p + 1) = unat (p_requests_outstanding ?p) + 1"
    using lt by (simp add: MAX_REQUESTS_def word_less_nat_alt unat_word_ariths)
  have "waiting_count (map abs_req ((st_todo s)[j := ?r'])) (p_num ?p) =
      waiting_count (map abs_req (st_todo s)) (p_num ?p) + 1"
    using waiting_count_upd[OF j, of ?r' "p_num ?p"] mark_status(2)[OF ok i] un by simp
  then have "peer_ok ((st_todo s)[j := ?r']) ?p'"
    using pk inc lt by (auto simp: peer_ok_def word_le_nat_alt word_less_nat_alt MAX_REQUESTS_def)
  then have "todo_inv s'" unfolding s'
    using mark_status(2)[OF ok i] mark_ok(2)[OF ok i] k
    by (intro update_pair_ok[OF inv k j]) auto
  moreover have "abs_req ?r' = (req_question ?r, (req_status ?r)(p_num ?p := Waiting))"
    using mark_status(2)[OF ok i] un by (auto simp: abs_req_def)
  moreover have "p_num ` set ((st_peers s)[k := ?p']) = p_num ` set (st_peers s)"
    using k peer_queue_ok by (metis list.set_map list_update_id map_update peer.ext_inject
        peer.surjective peer.update_convs(6))
  ultimately show ?thesis
    using j by (simp add: todo_abs_def s' map_update upd_conv_take_nth_drop take_map drop_map)
qed

lemma get_todo_pkt_ok:
  assumes inv: "todo_inv s" and k: "k < length (st_peers s)"
  shows "\<exists>r s'. get_todo_pkt s k = Some (r, s') \<and> todo_inv s' \<and>
    spec_step (todo_abs s) (pkt_event (p_num (st_peers s ! k)) r) (todo_abs s')"
proof -
  let ?p = "st_peers s ! k"
  have pk: "peer_ok (st_todo s) ?p" using todo_inv_peer[OF inv k] .
  have reqs: "\<forall>r \<in> set (st_todo s). req_ok (p_num ` set (st_peers s)) r"
    using inv by (simp add: todo_inv_def)
  have cnt: "waiting_count (sp_queue (todo_abs s)) (p_num ?p) = unat (p_requests_outstanding ?p)"
    using pk by (simp add: todo_abs_def peer_ok_def)
  obtain f where f: "first_unasked 0 (p_num ?p) (st_todo s) = Some f"
    "(case f of None \<Rightarrow> \<forall>r \<in> set (st_todo s). req_status r (p_num ?p) \<noteq> Unasked
     | Some j \<Rightarrow> j < length (st_todo s) \<and> req_status (st_todo s ! j) (p_num ?p) = Unasked \<and>
        (\<forall>m < j. req_status (st_todo s ! m) (p_num ?p) \<noteq> Unasked))"
    using first_unasked_cases[OF reqs, of "p_num ?p" 0] pk
    by (auto simp: peer_ok_def split: option.splits)
  consider (queued) pkt rest where "p_todo ?p = pkt # rest"
    | (full) "p_todo ?p = []" "p_requests_outstanding ?p \<ge> MAX_REQUESTS"
    | (none) "p_todo ?p = []" "p_requests_outstanding ?p < MAX_REQUESTS" "f = None"
    | (ask) j where "p_todo ?p = []" "p_requests_outstanding ?p < MAX_REQUESTS" "f = Some j"
    by (metis list.exhaust not_le option.exhaust)
  then show ?thesis
  proof cases
    case queued
    then show ?thesis
      using k peer_queue_ok[OF inv k refl, of "?p\<lparr>p_todo := rest\<rparr>"] spec_sent[OF peer_in_slots[OF k]]
      by (auto simp: get_todo_pkt_def upd_peer_def)
  next
    case full
    then have "spec_step (todo_abs s) (Ev_ask (p_num ?p) None) (todo_abs s)"
      using cnt by (intro spec_idle[OF peer_in_slots[OF k]]) (simp add: MAX_REQUESTS_def word_le_nat_alt)
    then show ?thesis using k full inv by (auto simp: get_todo_pkt_def)
  next
    case none
    then have "spec_step (todo_abs s) (Ev_ask (p_num ?p) None) (todo_abs s)"
      using f(2) by (intro spec_idle[OF peer_in_slots[OF k]]) (simp add: todo_abs_def)
    then show ?thesis using k none inv f(1) by (auto simp: get_todo_pkt_def)
  next
    case ask
    then have j: "j < length (st_todo s)" and un: "req_status (st_todo s ! j) (p_num ?p) = Unasked"
      and first: "\<forall>m < j. req_status (st_todo s ! m) (p_num ?p) \<noteq> Unasked"
      using f(2) by auto
    define s' where "s' = s\<lparr>st_todo := (st_todo s)[j := (st_todo s ! j)
        \<lparr>td_asked := (td_asked (st_todo s ! j))[p_num ?p := True]\<rparr>],
      st_peers := (st_peers s)[k := ?p\<lparr>p_requests_outstanding := p_requests_outstanding ?p + 1\<rparr>]\<rparr>"
    note a = ask_todo_ok[OF inv k j un ask(2) s'_def]
    have "get_todo_pkt s k = Some (Some (request_pkt (st_todo s ! j)), s')"
      using ask k j f(1) by (simp add: get_todo_pkt_def upd_peer_def s'_def)
    moreover have "spec_step (todo_abs s) (Ev_ask (p_num ?p) (Some (req_question (st_todo s ! j)))) (todo_abs s')"
      unfolding a[THEN conjunct2]
    proof (rule spec_ask[OF peer_in_slots[OF k]])
      show "waiting_count (sp_queue (todo_abs s)) (p_num ?p) < 4"
        using cnt ask(2) by (simp add: MAX_REQUESTS_def word_less_nat_alt)
      show "sp_queue (todo_abs s) = take j (sp_queue (todo_abs s)) @
          (req_question (st_todo s ! j), req_status (st_todo s ! j)) # drop (Suc j) (sp_queue (todo_abs s))"
        using id_take_nth_drop[of j "sp_queue (todo_abs s)"] j by (simp add: todo_abs_def abs_req_def)
      show "\<forall>qf \<in> set (take j (sp_queue (todo_abs s))). snd qf (p_num ?p) \<noteq> Unasked"
        using first j by (auto simp: todo_abs_def take_map in_set_conv_nth)
    qed (use un in simp)
    ultimately show ?thesis
      using a request_pkt_event[OF todo_inv_req[OF inv j], of "p_num ?p"] by auto
  qed
qed

lemma get_peernum_from_cases:
  "get_peernum_from k bits \<le> k + length bits \<and> k \<le> get_peernum_from k bits \<and>
   (get_peernum_from k bits < k + length bits \<longrightarrow> \<not> bits ! (get_peernum_from k bits - k))"
proof (induction bits arbitrary: k)
  case (Cons b bits)
  show ?case using Cons.IH[of "Suc k"] by (auto simp: nth_Cons')
qed simp

lemma waiting_count_zero:
  "(\<forall>r \<in> set rs. req_status r i = Unasked) \<Longrightarrow> waiting_count (map abs_req rs) i = 0"
  by (induction rs) auto

lemma req_ok_mono: "req_ok S r \<Longrightarrow> S \<subseteq> T \<Longrightarrow> req_ok T r"
  by (auto simp: req_ok_def)

lemma alloc_peer_ok:
  assumes inv: "todo_inv s" and al: "alloc_peer s = Some s'"
  shows "todo_inv s' \<and> spec_step (todo_abs s) (Ev_connect (get_peernum (st_peer_map s))) (todo_abs s')"
proof -
  define n where "n = get_peernum (st_peer_map s)"
  have n: "n < MAX_PEERS" "\<not> st_peer_map s ! n"
    using al inv get_peernum_from_cases[of 0 "st_peer_map s"]
    by (auto simp: alloc_peer_def get_peernum_def todo_inv_def n_def Let_def split: if_splits)
  then have new: "n \<notin> p_num ` set (st_peers s)" using inv by (simp add: todo_inv_def)
  have "waiting_count (map abs_req (st_todo s)) n = 0"
    using inv new by (intro waiting_count_zero) (auto simp: todo_inv_def intro: req_status_out)
  moreover have "s' = s\<lparr>st_peer_map := (st_peer_map s)[n := True],
      st_peers := \<lparr>p_num = n, p_we_are_syncing = True, p_they_are_syncing = True, p_error_pkt = None,
        p_welcome = None, p_requests_outstanding = 0, p_todo = []\<rparr> # st_peers s,
      st_num_peers := st_num_peers s + 1\<rparr>"
    using al n by (auto simp: alloc_peer_def n_def Let_def split: if_splits)
  moreover have "\<forall>r \<in> set (st_todo s). req_ok (insert n (p_num ` set (st_peers s))) r"
    using inv by (auto simp: todo_inv_def intro: req_ok_mono)
  moreover have "\<forall>i < MAX_PEERS. (st_peer_map s)[n := True] ! i \<longleftrightarrow> i = n \<or> i \<in> p_num ` set (st_peers s)"
    using inv n by (simp add: todo_inv_def nth_list_update)
  ultimately show ?thesis
    using inv n new spec_connect[of n "todo_abs s"]
    by (auto simp: todo_inv_def todo_abs_def peer_ok_def simp flip: n_def)
qed

definition clear_request :: "nat \<Rightarrow> todo_request \<Rightarrow> todo_request" where
  "clear_request i r = r\<lparr>td_asked := (td_asked r)[i := False], td_failed := (td_failed r)[i := False]\<rparr>"

lemma clear_request_facts:
  assumes "req_ok S r" "i < MAX_PEERS"
  shows "req_ok (S - {i}) (clear_request i r)"
    "abs_req (clear_request i r) = (req_question r, (req_status r)(i := Unasked))"
    "req_question (clear_request i r) = req_question r"
  using assms
  by (auto simp: clear_request_def req_ok_def abs_req_def req_question_def req_status_def nth_list_update)

lemma waiting_count_clear:
  assumes "\<forall>r \<in> set rs. req_ok S r" "i < MAX_PEERS" "m \<noteq> i"
  shows "waiting_count (map abs_req (map (clear_request i) rs)) m = waiting_count (map abs_req rs) m"
  using assms(1)
proof (induction rs)
  case (Cons r rs)
  then have "snd (abs_req (clear_request i r)) = (req_status r)(i := Unasked)"
    using clear_request_facts(2)[of S r i] assms(2) by simp
  then show ?case using Cons assms(3) by simp
qed simp

lemma destroy_peer_eq:
  assumes "k < length (st_peers s)"
  shows "\<exists>s'. destroy_peer s k = Some s' \<and>
     st_peers s' = take k (st_peers s) @ drop (Suc k) (st_peers s) \<and>
     st_peer_map s' = (st_peer_map s)[p_num (st_peers s ! k) := False] \<and>
     st_todo s' = map (clear_request (p_num (st_peers s ! k))) (st_todo s)"
  using assms by (simp add: destroy_peer_def remove_peer_from_todo_def clear_request_def[abs_def] Let_def)

lemma destroy_peer_ok:
  assumes inv: "todo_inv s" and k: "k < length (st_peers s)"
  shows "\<exists>s'. destroy_peer s k = Some s' \<and> todo_inv s' \<and>
    spec_step (todo_abs s) (Ev_leave (p_num (st_peers s ! k))) (todo_abs s')"
proof -
  define p where "p = st_peers s ! k"
  obtain as bs where st: "st_peers s = as @ p # bs" "length as = k"
    using split_at[OF k] p_def by blast
  have tk: "take k (st_peers s) @ drop (Suc k) (st_peers s) = as @ bs" using st by simp
  obtain s' where del: "destroy_peer s k = Some s'" and s': "st_peers s' = as @ bs"
    "st_peer_map s' = (st_peer_map s)[p_num p := False]"
    "st_todo s' = map (clear_request (p_num p)) (st_todo s)"
    using destroy_peer_eq[OF k, folded p_def, unfolded tk] by blast
  have i: "p_num p < MAX_PEERS" using todo_inv_peer[OF inv k] by (simp add: peer_ok_def p_def)
  have reqs: "\<forall>r \<in> set (st_todo s). req_ok (p_num ` set (st_peers s)) r"
    using inv by (simp add: todo_inv_def)
  have dist: "p_num p \<notin> p_num ` set as" "p_num p \<notin> p_num ` set bs" "distinct (map p_num (as @ bs))"
    using inv st(1) by (auto simp: todo_inv_def)
  have slots: "p_num ` set (as @ bs) = p_num ` set (st_peers s) - {p_num p}"
    using dist st(1) by (auto intro: rev_image_eqI)
  have "peer_ok (st_todo s') x" if "x \<in> set (as @ bs)" for x
  proof -
    have "p_num x \<noteq> p_num p" using that dist by (auto intro: rev_image_eqI)
    then have "waiting_count (map abs_req (st_todo s')) (p_num x) = waiting_count (map abs_req (st_todo s)) (p_num x)"
      unfolding s'(3) by (rule waiting_count_clear[OF reqs i])
    moreover have "peer_ok (st_todo s) x" using inv that st(1) by (auto simp: todo_inv_def)
    ultimately show ?thesis by (simp add: peer_ok_def)
  qed
  moreover have qs: "map req_question (st_todo s') = map req_question (st_todo s)"
    using clear_request_facts(3) reqs i by (auto simp: s')
  have "distinct (map req_question (st_todo s'))"
    unfolding qs using inv by (simp add: todo_inv_def)
  moreover have "\<forall>r \<in> set (st_todo s'). req_ok (p_num ` set (as @ bs)) r"
    unfolding slots using clear_request_facts(1) reqs i by (auto simp: s')
  moreover have "\<forall>m < MAX_PEERS. st_peer_map s' ! m \<longleftrightarrow> m \<in> p_num ` set (as @ bs)"
    unfolding slots using inv i by (simp add: todo_inv_def s' nth_list_update)
  ultimately have "todo_inv s'" using inv dist(3) by (simp add: todo_inv_def s')
  moreover have "todo_abs s' = (todo_abs s)\<lparr>sp_queue := map (\<lambda>qf. (fst qf, (snd qf)(p_num p := Unasked)))
      (sp_queue (todo_abs s)), sp_connected := sp_connected (todo_abs s) - {p_num p}\<rparr>"
    using clear_request_facts(2) reqs i slots by (auto simp: todo_abs_def s')
  ultimately show ?thesis
    using del spec_leave[OF peer_in_slots[OF k]] by (simp add: p_def)
qed

lemma todo_for_peer_ok:
  assumes inv: "todo_inv s" and k: "k < length (st_peers s)"
  shows "\<exists>s'. todo_for_peer s k pkt = Some s' \<and> todo_inv s' \<and>
    spec_step (todo_abs s) (Ev_queue (p_num (st_peers s ! k))) (todo_abs s')"
  using k peer_queue_ok[OF inv k refl, of "(st_peers s ! k)\<lparr>p_todo := p_todo (st_peers s ! k) @ [pkt]\<rparr>"]
    spec_queue[OF peer_in_slots[OF k]]
  by (auto simp: todo_for_peer_def upd_peer_def)

subsection \<open>Runs of the queue\<close>

lemma todo_step_ok:
  assumes "todo_inv s" "todo_step s e s'"
  shows "todo_inv s' \<and> spec_step (todo_abs s) e (todo_abs s')"
  using assms(2,1)
proof cases
  case (step_add type sha shardnum txoff)
  then show ?thesis using new_todo_ok[OF assms(1), of type sha shardnum txoff] by simp
next
  case (step_queue k pkt)
  then show ?thesis using todo_for_peer_ok[OF assms(1), of k pkt] by auto
next
  case (step_poll k r)
  then show ?thesis using get_todo_pkt_ok[OF assms(1), of k] by auto
next
  case (step_done k type sha shardnum txoff success)
  then show ?thesis using finish_todo_ok[OF assms(1), of k type sha shardnum txoff success] by auto
next
  case step_connect
  then show ?thesis using alloc_peer_ok[OF assms(1)] by simp
next
  case (step_leave k)
  then show ?thesis using destroy_peer_ok[OF assms(1), of k] by auto
qed

interpretation tq: simulation todo_step todo_inv todo_abs spec_step
  by unfold_locales (rule todo_step_ok)

definition todo_init :: "state \<Rightarrow> bool" where
  \<comment> \<open>what \<open>new_state\<close> sets up\<close>
  "todo_init s \<longleftrightarrow> st_todo s = [] \<and> st_peers s = [] \<and> st_peer_map s = replicate MAX_PEERS False"

lemma todo_init_inv: "todo_init s \<Longrightarrow> todo_inv s"
  by (simp add: todo_init_def todo_inv_def)



subsection \<open>Progress\<close>

text \<open>
  A peer that answers every question with a failure: \<open>serve n\<close> is \<open>n\<close> rounds of polling the
  queue for it and taking its answer.
\<close>

definition answer_failed :: "state \<Rightarrow> nat \<Rightarrow> todo_pkt option \<Rightarrow> state option" where
  "answer_failed s k r =
     (case r of
        Some (Request_pkt t sha sh off) \<Rightarrow>
          finish_todo s k t sha (case sh of None \<Rightarrow> 0 | Some x \<Rightarrow> x) (case off of None \<Rightarrow> 0 | Some x \<Rightarrow> x) False
      | _ \<Rightarrow> Some s)"

fun serve :: "nat \<Rightarrow> state \<Rightarrow> nat \<Rightarrow> state option" where
  "serve 0 s k = Some s"
| "serve (Suc n) s k = do { (r, s1) \<leftarrow> get_todo_pkt s k; s2 \<leftarrow> answer_failed s1 k r; serve n s2 k }"

definition unasked_count :: "state \<Rightarrow> nat \<Rightarrow> nat" where
  "unasked_count s i = length (filter (\<lambda>r. req_status r i = Unasked) (st_todo s))"

definition backlog :: "state \<Rightarrow> nat \<Rightarrow> nat" where
  "backlog s k = length (p_todo (st_peers s ! k)) + unasked_count s (p_num (st_peers s ! k))"

lemma unasked_count_upd:
  assumes "j < length (st_todo s)" "req_status (st_todo s ! j) i = Unasked" "req_status r' i \<noteq> Unasked"
    "st_todo s' = (st_todo s)[j := r']"
  shows "Suc (unasked_count s' i) = unasked_count s i"
proof -
  obtain as bs where st: "st_todo s = as @ st_todo s ! j # bs" "length as = j"
    using split_at[OF assms(1)] by blast
  then have "(st_todo s)[j := r'] = as @ r' # bs" by (metis list_update_length)
  then show ?thesis using assms(2-4) by (subst (2) unasked_count_def, subst st(1)) (simp add: unasked_count_def)
qed

lemma norm_question_idem:
  "req_ok S r \<Longrightarrow> norm_question (td_type r) (td_sha r) (td_shardnum r) (td_txoff r) = req_question r"
  by (simp add: req_ok_def)

lemma round_ask:
  assumes inv: "todo_inv s" and k: "k < length (st_peers s)" and j: "j < length (st_todo s)"
    and un: "req_status (st_todo s ! j) (p_num (st_peers s ! k)) = Unasked"
    and lt: "p_requests_outstanding (st_peers s ! k) < MAX_REQUESTS"
    and s1: "s1 = s\<lparr>st_todo := (st_todo s)[j := (st_todo s ! j)
        \<lparr>td_asked := (td_asked (st_todo s ! j))[p_num (st_peers s ! k) := True]\<rparr>],
      st_peers := (st_peers s)[k := (st_peers s ! k)
        \<lparr>p_requests_outstanding := p_requests_outstanding (st_peers s ! k) + 1\<rparr>]\<rparr>"
  shows "\<exists>s2. answer_failed s1 k (Some (request_pkt (st_todo s ! j))) = Some s2 \<and> todo_inv s2 \<and>
    st_peers s2 = st_peers s \<and> Suc (unasked_count s2 (p_num (st_peers s ! k))) =
      unasked_count s (p_num (st_peers s ! k))"
proof -
  let ?r = "st_todo s ! j" and ?p = "st_peers s ! k"
  let ?r1 = "?r\<lparr>td_asked := (td_asked ?r)[p_num ?p := True]\<rparr>"
  have inv1: "todo_inv s1" using ask_todo_ok[OF inv k j un lt s1] by blast
  have ok: "req_ok (p_num ` set (st_peers s)) ?r" and pk: "peer_ok (st_todo s) ?p"
    using todo_inv_req[OF inv j] todo_inv_peer[OF inv k] by blast+
  then have i: "p_num ?p < MAX_PEERS" by (simp add: peer_ok_def)
  have at1: "st_todo s1 ! j = ?r1" "j < length (st_todo s1)" "k < length (st_peers s1)"
    "st_peers s1 ! k = ?p\<lparr>p_requests_outstanding := p_requests_outstanding ?p + 1\<rparr>"
    using j k by (simp_all add: s1)
  then have w: "req_status (st_todo s1 ! j) (p_num (st_peers s1 ! k)) = Waiting"
    using mark_status(2)[OF ok i] un by simp
  define s2 where "s2 = s1\<lparr>st_todo := (st_todo s1)[j := (st_todo s1 ! j)
      \<lparr>td_failed := (td_failed (st_todo s1 ! j))[p_num (st_peers s1 ! k) := True]\<rparr>],
    st_peers := (st_peers s1)[k := dec_outstanding (st_peers s1 ! k)]\<rparr>"
  note f = fail_todo_ok[OF inv1 at1(3,2) w s2_def]
  have "req_question ?r \<in> req_question ` set (st_todo s1)"
    using nth_mem[OF at1(2)] at1(1) by (metis image_eqI mark_question(2))
  then obtain m where m: "find_todo s1 (td_type ?r) (td_sha ?r) (td_shardnum ?r) (td_txoff ?r) = Some m"
      "m < length (st_todo s1)" "req_question (st_todo s1 ! m) = req_question ?r"
    using find_todo_cases[OF inv1, of "td_type ?r" "td_sha ?r" "td_shardnum ?r" "td_txoff ?r"]
      norm_question_idem[OF ok] by (auto split: option.splits)
  have mj: "m = j"
  proof (rule ccontr)
    assume "m \<noteq> j"
    then have "req_question (st_todo s1 ! m) \<noteq> req_question (st_todo s1 ! j)"
      using inv1 m(2) at1(2) by (simp add: todo_inv_def distinct_conv_nth)
    then show False using m(3) at1(1) by simp
  qed
  have pos: "p_requests_outstanding (st_peers s1 ! k) \<noteq> 0"
    using outstanding_pos[OF todo_inv_peer[OF inv1 at1(3)] at1(2) w] .
  have bits: "p_num ?p < length (td_asked (st_todo s1 ! j))" "p_num ?p < length (td_failed (st_todo s1 ! j))"
    "td_asked (st_todo s1 ! j) ! p_num ?p" "\<not> td_failed (st_todo s1 ! j) ! p_num ?p"
    using todo_inv_req[OF inv1 at1(2)] i w at1(4) by (auto simp: req_ok_def req_status_def split: if_splits)
  have fin: "finish_todo s1 k (td_type ?r) (td_sha ?r) (td_shardnum ?r) (td_txoff ?r) False = Some s2"
    using m(1) mj at1(2,3) bits pos arg_cong[OF at1(4), of p_num]
    by (simp add: finish_todo_def upd_peer_def s2_def)
  have "answer_failed s1 k (Some (request_pkt ?r)) =
      finish_todo s1 k (td_type ?r) (td_sha ?r) (td_shardnum ?r) (td_txoff ?r) False"
    using norm_question_idem[OF ok]
    by (cases "td_type ?r") (auto simp: answer_failed_def request_pkt_def norm_question.simps req_question_def)
  moreover have "st_peers s2 = st_peers s"
    using k by (simp add: s2_def s1 dec_outstanding_def)
  moreover have "Suc (unasked_count s2 (p_num ?p)) = unasked_count s (p_num ?p)"
  proof (rule unasked_count_upd[OF j un])
    show "st_todo s2 = (st_todo s)[j := ?r1\<lparr>td_failed := (td_failed ?r1)[p_num ?p := True]\<rparr>]"
      using j k by (simp add: s2_def s1)
    show "req_status (?r1\<lparr>td_failed := (td_failed ?r1)[p_num ?p := True]\<rparr>) (p_num ?p) \<noteq> Unasked"
      using mark_status(1)[OF mark_ok(2)[OF ok i], of "p_num ?p"] i k w at1(1,4) by simp
  qed
  ultimately show ?thesis using fin f by (intro exI[of _ s2]) simp
qed

lemma serve_round:
  assumes inv: "todo_inv s" and k: "k < length (st_peers s)"
    and lt: "p_requests_outstanding (st_peers s ! k) < MAX_REQUESTS" and b: "backlog s k \<noteq> 0"
  shows "\<exists>r s1 s2. get_todo_pkt s k = Some (r, s1) \<and> answer_failed s1 k r = Some s2 \<and> todo_inv s2 \<and>
    k < length (st_peers s2) \<and> p_num (st_peers s2 ! k) = p_num (st_peers s ! k) \<and>
    p_requests_outstanding (st_peers s2 ! k) < MAX_REQUESTS \<and> Suc (backlog s2 k) = backlog s k"
proof (cases "p_todo (st_peers s ! k)")
  case (Cons pkt rest)
  define s1 where "s1 = s\<lparr>st_peers := (st_peers s)[k := (st_peers s ! k)\<lparr>p_todo := rest\<rparr>]\<rparr>"
  have "get_todo_pkt s k = Some (Some (Queued_pkt pkt), s1)"
    using Cons k by (simp add: get_todo_pkt_def upd_peer_def s1_def)
  moreover have "todo_inv s1" using peer_queue_ok[OF inv k s1_def] by simp
  ultimately show ?thesis using k lt Cons
    by (auto simp: answer_failed_def s1_def backlog_def unasked_count_def)
next
  case Nil
  let ?p = "st_peers s ! k"
  have reqs: "\<forall>r \<in> set (st_todo s). req_ok (p_num ` set (st_peers s)) r"
    using inv by (simp add: todo_inv_def)
  have "\<exists>r \<in> set (st_todo s). req_status r (p_num ?p) = Unasked"
    using b Nil by (auto simp: backlog_def unasked_count_def filter_empty_conv)
  then obtain j where f: "first_unasked 0 (p_num ?p) (st_todo s) = Some (Some j)"
    and j: "j < length (st_todo s)" and un: "req_status (st_todo s ! j) (p_num ?p) = Unasked"
    using first_unasked_cases[OF reqs, of "p_num ?p" 0] todo_inv_peer[OF inv k]
    by (auto simp: peer_ok_def split: option.splits)
  define s1 where "s1 = s\<lparr>st_todo := (st_todo s)[j := (st_todo s ! j)
      \<lparr>td_asked := (td_asked (st_todo s ! j))[p_num ?p := True]\<rparr>],
    st_peers := (st_peers s)[k := ?p\<lparr>p_requests_outstanding := p_requests_outstanding ?p + 1\<rparr>]\<rparr>"
  have "get_todo_pkt s k = Some (Some (request_pkt (st_todo s ! j)), s1)"
    using Nil lt k j f by (simp add: get_todo_pkt_def upd_peer_def s1_def)
  then show ?thesis using round_ask[OF inv k j un lt s1_def] k lt Nil by (auto simp: backlog_def)
qed


text \<open>
  \<open>todo_forget_about_block\<close> drops the questions about an invalid block without giving the
  peers they were sent to their slots back. A peer which was waiting for such an answer keeps a
  counter above the number of its questions; a peer whose four questions were all of this kind
  is not asked anything any more, whatever is added to the queue.
\<close>

theorem forget_leaks_requests:
  assumes "todo_inv s" "k < length (st_peers s)" "p_todo (st_peers s ! k) = []"
    "p_requests_outstanding (st_peers s ! k) = MAX_REQUESTS"
    "\<forall>r \<in> set (st_todo s). req_status r (p_num (st_peers s ! k)) = Waiting \<longrightarrow> td_sha r = blk"
  shows "waiting_count (sp_queue (todo_abs (todo_forget_about_block s blk))) (p_num (st_peers s ! k)) = 0 \<and>
    get_todo_pkt (new_todo_request (todo_forget_about_block s blk) type sha shardnum txoff) k =
      Some (None, new_todo_request (todo_forget_about_block s blk) type sha shardnum txoff)"
proof
  show "waiting_count (sp_queue (todo_abs (todo_forget_about_block s blk))) (p_num (st_peers s ! k)) = 0"
    using assms(5) by (auto simp: todo_abs_def todo_forget_about_block_def waiting_count_def filter_empty_conv)
  show "get_todo_pkt (new_todo_request (todo_forget_about_block s blk) type sha shardnum txoff) k =
      Some (None, new_todo_request (todo_forget_about_block s blk) type sha shardnum txoff)"
    using assms(2-4) by (simp add: get_todo_pkt_def new_todo_request_eq todo_forget_about_block_def)
qed

subsection \<open>Examples\<close>

definition ex_todo1 :: state where
  "ex_todo1 = (ex_state 0)\<lparr>st_peer_map := True # replicate 63 False, st_num_peers := 1,
     st_peers := [\<lparr>p_num = 0, p_we_are_syncing = True, p_they_are_syncing = True, p_error_pkt = None,
       p_welcome = None, p_requests_outstanding = 0, p_todo = []\<rparr>]\<rparr>"

definition ex_todo2 :: state where
  "ex_todo2 = new_todo_request ex_todo1 PKT_GET_BLOCK [7] 0 0"

lemma ex_todo_init: "todo_init (ex_state 0)"
  by (simp add: todo_init_def ex_state_def MAX_PEERS_def)

lemma ex_todo1_step: "todo_step (ex_state 0) (Ev_connect 0) ex_todo1"
  using step_connect[of "ex_state 0" ex_todo1]
  by (simp add: alloc_peer_def get_peernum_def ex_state_def ex_todo1_def MAX_PEERS_def Let_def
      eval_nat_numeral)

lemma ex_todo2_steps:
  "steps todo_step (ex_state 0) [Ev_connect 0, Ev_add (PKT_GET_BLOCK, [7], 0, 0)] ex_todo2"
proof -
  have "todo_step ex_todo1 (Ev_add (PKT_GET_BLOCK, [7], 0, 0)) ex_todo2"
    using step_add[OF refl, of ex_todo1 PKT_GET_BLOCK "[7]" 0 0]
    by (simp add: ex_todo2_def norm_question.simps)
  moreover have "steps todo_step (ex_state 0) [Ev_connect 0] ex_todo1"
    using steps_snoc[of todo_step "ex_state 0" "[]"] steps_Nil[of todo_step] ex_todo1_step by fastforce
  ultimately show ?thesis
    using steps_snoc[of todo_step "ex_state 0" "[Ev_connect 0]"] by fastforce
qed

lemma ex_todo2_facts:
  "st_peers ex_todo2 = st_peers ex_todo1" "0 < length (st_peers ex_todo2)" "backlog ex_todo2 0 = 1"
  by (simp_all add: ex_todo2_def new_todo_request_eq ex_todo1_def find_todo_def ex_state_def backlog_def
      unasked_count_def fresh_status)

lemma ex_todo2_inv: "todo_inv ex_todo2"
  using tq.run_inv[OF ex_todo2_steps todo_init_inv[OF ex_todo_init]] .




definition ex_waiting :: "todo_type \<Rightarrow> u16 \<Rightarrow> todo_request" where
  "ex_waiting type sh = \<lparr>td_asked = True # replicate 63 False, td_failed = replicate 64 False,
     td_type = type, td_sha = [7], td_shardnum = sh, td_txoff = 0\<rparr>"

definition ex_todo_full :: state where
  "ex_todo_full = ex_todo1\<lparr>st_todo := [ex_waiting PKT_GET_BLOCK 0, ex_waiting PKT_GET_CHILDREN 0,
       ex_waiting PKT_GET_SHARD 0, ex_waiting PKT_GET_SHARD 1],
     st_peers := [(st_peers ex_todo1 ! 0)\<lparr>p_requests_outstanding := 4\<rparr>]\<rparr>"

lemma ex_waiting_facts:
  "req_question (ex_waiting type sh) = (type, [7], sh, 0)"
  "req_status (ex_waiting type sh) 0 = Waiting" "td_sha (ex_waiting type sh) = [7]"
  "fst (get_todo_ptrs type) \<or> sh = 0 \<Longrightarrow> req_ok {0} (ex_waiting type sh)"
  by (auto simp: ex_waiting_def req_question_def req_status_def req_ok_def MAX_PEERS_def nth_Cons'
      norm_question.simps split: if_splits)

lemma ex_todo_full_inv: "todo_inv ex_todo_full"
  by (auto simp: todo_inv_def ex_todo_full_def ex_todo1_def ex_waiting_facts peer_ok_def MAX_PEERS_def
      MAX_REQUESTS_def nth_Cons')

theorem forget_leaks_requests_witness:
  "waiting_count (sp_queue (todo_abs (todo_forget_about_block ex_todo_full [7]))) (p_num (st_peers ex_todo_full ! 0)) = 0 \<and>
    get_todo_pkt (new_todo_request (todo_forget_about_block ex_todo_full [7]) PKT_GET_TX [8] 0 0) 0 =
      Some (None, new_todo_request (todo_forget_about_block ex_todo_full [7]) PKT_GET_TX [8] 0 0)"
  by (rule forget_leaks_requests[OF ex_todo_full_inv])
    (simp_all add: ex_todo_full_def ex_todo1_def ex_waiting_facts MAX_REQUESTS_def)

end
