(* ===== verification/Chain.thy ===== *)
theory Chain
  imports Pending Todo "HOL-Library.Multiset"
begin

section \<open>The longest chains\<close>

text \<open>
  \<^verbatim>\<open>chain.c\<close>: which tips of the block tree the daemon works on. \<open>st_longest_chains\<close> are the
  blocks with the most work, \<open>st_longest_knowns\<close> the blocks with the most work among those whose
  transactions (and whose ancestors' transactions) are all known, \<open>st_preferred_chain\<close> the tip to
  learn about next. Blocks with a complaint do not count.

  The recursions over the tree are \<^theory_text>\<open>partial_function\<close>s with a loop over the children: a
  recursion that does not end has the value \<open>None\<close>. \<^verbatim>\<open>complain_bad_prev_txhashes\<close> is an empty
  function in \<^verbatim>\<open>complain.c\<close>, so \<open>recheck_merkles\<close> changes nothing. Logging is left out.
\<close>

subsection \<open>chain.c\<close>

definition cmp_work :: "openssl \<Rightarrow> heap \<Rightarrow> bptr \<Rightarrow> bptr \<Rightarrow> int option" where
  "cmp_work ssl h a b =
     do { ba \<leftarrow> h a; bb \<leftarrow> h b; Some (BN_cmp ssl (b_total_work ba) (b_total_work bb)) }"

fun connected_known :: "heap \<Rightarrow> bptr \<Rightarrow> nat \<Rightarrow> bptr list \<Rightarrow> nat option option" where
  \<comment> \<open>the inner loop of \<open>find_connected_pair\<close>\<close>
  "connected_known h chain j [] = Some None"
| "connected_known h chain j (k # ks) =
     do { c \<leftarrow> block_preceeds h k chain;
          if c then Some (Some j) else connected_known h chain (Suc j) ks }"

fun connected_chain :: "heap \<Rightarrow> nat \<Rightarrow> bptr list \<Rightarrow> bptr list \<Rightarrow> (nat \<times> nat) option option" where
  "connected_chain h i [] knowns = Some None"
| "connected_chain h i (c # cs) knowns =
     do { r \<leftarrow> connected_known h c 0 knowns;
          (case r of Some j \<Rightarrow> Some (Some (i, j)) | None \<Rightarrow> connected_chain h (Suc i) cs knowns) }"

definition find_connected_pair :: "state \<Rightarrow> (nat \<times> nat) option option" where
  "find_connected_pair s = connected_chain (st_heap s) 0 (st_longest_chains s) (st_longest_knowns s)"

definition assert_same_work :: "openssl \<Rightarrow> heap \<Rightarrow> bptr list \<Rightarrow> unit option" where
  \<comment> \<open>the first two loops of \<open>check_chains\<close>\<close>
  "assert_same_work ssl h arr =
     ofold (\<lambda>n _. do { a \<leftarrow> c_nth arr n; a0 \<leftarrow> c_nth arr 0; c \<leftarrow> cmp_work ssl h a a0; c_assert (c = 0) })
       [1..<length arr] ()"

partial_function (option) preferred_walk :: "heap \<Rightarrow> bptr \<Rightarrow> bptr \<Rightarrow> bptr \<Rightarrow> unit option" where
  \<comment> \<open>from \<open>preferred_chain\<close> back to \<open>longest_knowns[0]\<close>\<close>
  "preferred_walk h genesis stop i =
     (if i = stop then Some ()
      else do {
        c_assert (i \<noteq> genesis);
        b \<leftarrow> h i;
        c_assert (\<not> b_all_known b);
        p \<leftarrow> b_prev b;
        preferred_walk h genesis stop p })"

definition assert_no_complaint :: "heap \<Rightarrow> bptr list \<Rightarrow> unit option" where
  "assert_no_complaint h arr = ofold (\<lambda>p _. do { b \<leftarrow> h p; c_assert (b_complaint b = None) }) arr ()"

definition check_chains_quick :: "openssl \<Rightarrow> state \<Rightarrow> unit option" where
  \<comment> \<open>\<open>check_chains(state, false)\<close>\<close>
  "check_chains_quick ssl s =
     do { assert_same_work ssl (st_heap s) (st_longest_chains s);
          assert_same_work ssl (st_heap s) (st_longest_knowns s);
          k0 \<leftarrow> c_nth (st_longest_knowns s) 0;
          g \<leftarrow> genesis_block s;
          preferred_walk (st_heap s) g k0 (st_preferred_chain s);
          c0 \<leftarrow> c_nth (st_longest_chains s) 0;
          (if st_preferred_chain s \<noteq> c0
           then do { r \<leftarrow> find_connected_pair s; c_assert (r = None) }
           else Some ());
          p \<leftarrow> st_heap s (st_preferred_chain s);
          c_assert (b_complaint p = None);
          assert_no_complaint (st_heap s) (st_longest_knowns s);
          assert_no_complaint (st_heap s) (st_longest_chains s) }"

definition swap_blockptr :: "bptr list \<Rightarrow> nat \<Rightarrow> bptr list option" where
  \<comment> \<open>the pointers at 0 and at \<open>n\<close>\<close>
  "swap_blockptr arr n =
     do { a \<leftarrow> c_nth arr 0; b \<leftarrow> c_nth arr n; Some (arr[0 := b, n := a]) }"

definition add_best :: "openssl \<Rightarrow> heap \<Rightarrow> bptr \<Rightarrow> bptr list \<Rightarrow> bptr list option" where
  \<comment> \<open>the \<^verbatim>\<open>switch\<close> on \<open>cmp_work\<close>: a new best, one more best, or neither\<close>
  "add_best ssl h b bests =
     do { b0 \<leftarrow> c_nth bests 0;
          c \<leftarrow> cmp_work ssl h b b0;
          Some (if c = 1 then [b] else if c = 0 then bests @ [b] else bests) }"

partial_function (option) find_longest_descendents ::
    "openssl \<Rightarrow> heap \<Rightarrow> bptr \<Rightarrow> bptr list \<Rightarrow> bptr list option" where
  "find_longest_descendents ssl h b bests =
     do { bb \<leftarrow> h b;
          if b_complaint bb \<noteq> None then Some bests
          else do {
            bests1 \<leftarrow> add_best ssl h b bests;
            ofold (\<lambda>c bs. find_longest_descendents ssl h c bs) (b_children bb) bests1 } }"

definition update_preferred_chain :: "openssl \<Rightarrow> state \<Rightarrow> (bool \<times> state) option" where
  "update_preferred_chain ssl s =
     do { k0 \<leftarrow> c_nth (st_longest_knowns s) 0;
          arr \<leftarrow> find_longest_descendents ssl (st_heap s) k0 [k0];
          a0 \<leftarrow> c_nth arr 0;
          Some (if a0 = st_preferred_chain s then (False, s)
                else (True, s\<lparr>st_preferred_chain := a0\<rparr>)) }"

definition order_block_pointers :: "state \<Rightarrow> (bool \<times> state) option" where
  "order_block_pointers s =
     do { r \<leftarrow> find_connected_pair s;
          (case r of
             None \<Rightarrow> Some (False, s)
           | Some (chain, known) \<Rightarrow>
               if chain = 0 \<and> known = 0 then Some (False, s)
               else do {
                 cs \<leftarrow> swap_blockptr (st_longest_chains s) chain;
                 ks \<leftarrow> swap_blockptr (st_longest_knowns s) known;
                 Some (True, s\<lparr>st_longest_chains := cs, st_longest_knowns := ks\<rparr>) }) }"

partial_function (option) update_known_recursive ::
    "openssl \<Rightarrow> bptr \<Rightarrow> state \<Rightarrow> (bool \<times> state) option" where
  "update_known_recursive ssl block s =
     do { bb \<leftarrow> st_heap s block;
          prev_known \<leftarrow> (case b_prev bb of
                           None \<Rightarrow> Some True
                         | Some p \<Rightarrow> do { pb \<leftarrow> st_heap s p; Some (b_all_known pb) });
          if \<not> prev_known then Some (False, s)
          else do {
            known \<leftarrow> block_all_known bb;
            if \<not> known then Some (False, s)
            else do {
              let s1 = (if \<not> b_all_known bb
                        then s\<lparr>st_heap := (st_heap s)(block \<mapsto> bb\<lparr>b_all_known := True\<rparr>)\<rparr> else s);
              if b_complaint bb \<noteq> None then Some (False, s1)
              else do {
                k0 \<leftarrow> c_nth (st_longest_knowns s1) 0;
                c \<leftarrow> cmp_work ssl (st_heap s1) block k0;
                ks \<leftarrow> add_best ssl (st_heap s1) block (st_longest_knowns s1);
                ofold (\<lambda>b r. do { (changed, s2) \<leftarrow> update_known_recursive ssl b (snd r);
                                  Some (changed \<or> fst r, s2) })
                  (b_children bb) (c \<noteq> -1, s1\<lparr>st_longest_knowns := ks\<rparr>) } } } }"

partial_function (option) steal_loop :: "bptr option \<Rightarrow> bptr option \<Rightarrow> state \<Rightarrow> state option" where
  \<comment> \<open>\<open>for (b = old; b != end->prev; b = b->prev)\<close>\<close>
  "steal_loop stop b s =
     (if b = stop then Some s
      else do {
        p \<leftarrow> b;
        bb \<leftarrow> st_heap s p;
        s1 \<leftarrow> block_to_pending s bb;
        steal_loop stop (b_prev bb) s1 })"

definition steal_pending_txs :: "state \<Rightarrow> bptr \<Rightarrow> bptr \<Rightarrow> state option" where
  "steal_pending_txs s old new =
     do { r \<leftarrow> step_towards (st_heap s) new old;
          (case r of
             None \<Rightarrow> Some s
           | Some e \<Rightarrow> do { eb \<leftarrow> st_heap s e; steal_loop (b_prev eb) (Some old) s }) }"

definition update_known :: "openssl \<Rightarrow> state \<Rightarrow> bptr \<Rightarrow> (bool \<times> state) option" where
  "update_known ssl s block =
     do { prev_known \<leftarrow> c_nth (st_longest_knowns s) 0;
          (changed, s1) \<leftarrow> update_known_recursive ssl block s;
          if \<not> changed then Some (False, s1)
          else do {
            let s2 = s1\<lparr>st_pending := (st_pending s1)\<lparr>pb_needs_recheck := True\<rparr>\<rparr>;
            (_, s3) \<leftarrow> order_block_pointers s2;
            (_, s4) \<leftarrow> update_preferred_chain ssl s3;
            k0 \<leftarrow> c_nth (st_longest_knowns s4) 0;
            s5 \<leftarrow> (if k0 \<noteq> prev_known then steal_pending_txs s4 prev_known k0 else Some s4);
            Some (True, s5) } }"

definition new_longest :: "openssl \<Rightarrow> state \<Rightarrow> bptr \<Rightarrow> state option" where
  "new_longest ssl s block =
     do { bb \<leftarrow> st_heap s block;
          let s1 = (if b_pending_features bb \<noteq> 0 \<and> st_upcoming_features s = 0
                    then s\<lparr>st_upcoming_features := b_pending_features bb\<rparr> else s);
          (_, s2) \<leftarrow> order_block_pointers s1;
          (_, s3) \<leftarrow> update_preferred_chain ssl s2;
          Some s3 }"

partial_function (option) recheck_merkles :: "openssl \<Rightarrow> heap \<Rightarrow> bptr \<Rightarrow> unit option" where
  "recheck_merkles ssl h block =
     do { bb \<leftarrow> h block;
          r \<leftarrow> check_prev_txhashes ssl h bb;
          (case r of
             Some _ \<Rightarrow> Some ()
           | None \<Rightarrow> ofold (\<lambda>b _. recheck_merkles ssl h b) (b_children bb) ()) }"

definition update_block_ptrs_new_shard_or_empty :: "openssl \<Rightarrow> state \<Rightarrow> bptr \<Rightarrow> unit option" where
  \<comment> \<open>it rechecks the block itself, once for every child; the shard number is not used\<close>
  "update_block_ptrs_new_shard_or_empty ssl s block =
     do { bb \<leftarrow> st_heap s block;
          ofold (\<lambda>b _. recheck_merkles ssl (st_heap s) block) (b_children bb) () }"

definition update_block_ptrs_new_block :: "openssl \<Rightarrow> state \<Rightarrow> bptr \<Rightarrow> state option" where
  "update_block_ptrs_new_block ssl s block =
     do { c0 \<leftarrow> c_nth (st_longest_chains s) 0;
          c \<leftarrow> cmp_work ssl (st_heap s) block c0;
          s1 \<leftarrow> (if c = 1 then new_longest ssl (s\<lparr>st_longest_chains := [block]\<rparr>) block
                 else if c = 0
                 then new_longest ssl (s\<lparr>st_longest_chains := st_longest_chains s @ [block]\<rparr>) block
                 else Some s);
          bb \<leftarrow> st_heap s1 block;
          ofold (\<lambda>i _. do { n \<leftarrow> c_nth (b_shard_nums bb) i;
                            if n = 0 then update_block_ptrs_new_shard_or_empty ssl s1 block else Some () })
            [0..<unat (num_shards (b_hdr bb))] ();
          known \<leftarrow> block_all_known bb;
          s2 \<leftarrow> (if known then map_option snd (update_known ssl s1 block) else Some s1);
          map_option snd (update_preferred_chain ssl s2) }"

definition update_block_ptrs_new_shard :: "openssl \<Rightarrow> state \<Rightarrow> bptr \<Rightarrow> state option" where
  "update_block_ptrs_new_shard ssl s block =
     do { update_block_ptrs_new_shard_or_empty ssl s block;
          bb \<leftarrow> st_heap s block;
          known \<leftarrow> block_all_known bb;
          if known then map_option snd (update_known ssl s block) else Some s }"

partial_function (option) forget_about_all :: "bptr \<Rightarrow> state \<Rightarrow> state option" where
  "forget_about_all block s =
     do { bb \<leftarrow> st_heap s block;
          ofold (\<lambda>b s. forget_about_all b s) (b_children bb) (todo_forget_about_block s (b_sha bb)) }"

definition update_block_ptrs_invalidated :: "openssl \<Rightarrow> state \<Rightarrow> bptr \<Rightarrow> state option" where
  "update_block_ptrs_invalidated ssl s block =
     do { g \<leftarrow> genesis_block s;
          let s1 = s\<lparr>st_longest_chains := [g], st_longest_knowns := [g], st_preferred_chain := g\<rparr>;
          cs \<leftarrow> find_longest_descendents ssl (st_heap s1) g (st_longest_chains s1);
          (_, s2) \<leftarrow> update_known ssl (s1\<lparr>st_longest_chains := cs\<rparr>) g;
          check_chains_quick ssl s2;
          s3 \<leftarrow> forget_about_all block s2;
          Some (emit Wake_peers s3) }"

subsection \<open>Walking the tree below a block\<close>

lemma ofold_unit: "(\<And>x. x \<in> set xs \<Longrightarrow> f x () = Some ()) \<Longrightarrow> ofold f xs () = Some ()"
  by (induction xs) auto

definition work :: "heap \<Rightarrow> bptr \<Rightarrow> nat" where
  "work h b = (case h b of Some bb \<Rightarrow> b_total_work bb | None \<Rightarrow> 0)"

definition live :: "heap \<Rightarrow> bptr \<Rightarrow> bool" where
  "live h b \<longleftrightarrow> (case h b of Some bb \<Rightarrow> b_complaint bb = None | None \<Rightarrow> False)"

definition complete :: "heap \<Rightarrow> bptr \<Rightarrow> bool" where
  \<comment> \<open>every transaction of the block is known\<close>
  "complete h b \<longleftrightarrow> (case h b of Some bb \<Rightarrow> block_all_known bb = Some True | None \<Rightarrow> False)"

definition all_known :: "heap \<Rightarrow> bptr \<Rightarrow> bool" where
  \<comment> \<open>the flag the daemon keeps\<close>
  "all_known h b \<longleftrightarrow> (case h b of Some bb \<Rightarrow> b_all_known bb | None \<Rightarrow> False)"

definition best :: "heap \<Rightarrow> bptr set \<Rightarrow> bptr set" where
  "best h S = {b \<in> S. \<forall>c \<in> S. work h c \<le> work h b}"

text \<open>
  The blocks a recursion visits, in its order: it enters the blocks with \<open>P\<close> and goes on to the
  children of those with \<open>D\<close>. Depths are 32 bits wide, so \<open>levels_below\<close> bounds the recursion.
\<close>

fun preorder :: "nat \<Rightarrow> heap \<Rightarrow> (bptr \<Rightarrow> bool) \<Rightarrow> (bptr \<Rightarrow> bool) \<Rightarrow> bptr \<Rightarrow> bptr list" where
  "preorder 0 h P D b = []"
| "preorder (Suc n) h P D b =
     (if \<not> P b then []
      else b # (case h b of None \<Rightarrow> []
        | Some bb \<Rightarrow> if D b then concat (map (preorder n h P D) (b_children bb)) else []))"

definition levels_below :: "heap \<Rightarrow> bptr \<Rightarrow> nat" where
  "levels_below h b = (case h b of Some bb \<Rightarrow> 2 ^ 32 - b_depth bb | None \<Rightarrow> 0)"

inductive visits :: "heap \<Rightarrow> (bptr \<Rightarrow> bool) \<Rightarrow> (bptr \<Rightarrow> bool) \<Rightarrow> bptr \<Rightarrow> bptr \<Rightarrow> bool" for h P D where
  visits_here: "P b \<Longrightarrow> visits h P D b b"
| visits_child: "P b \<Longrightarrow> D b \<Longrightarrow> h b = Some bb \<Longrightarrow> c \<in> set (b_children bb) \<Longrightarrow> visits h P D c d \<Longrightarrow> visits h P D b d"

lemma child_levels:
  assumes "heap_ok h" "h b = Some bb" "c \<in> set (b_children bb)"
  shows "levels_below h c < levels_below h b" "\<exists>cb. h c = Some cb \<and> b_prev cb = Some b"
proof -
  obtain cb where cb: "h c = Some cb" "b_prev cb = Some b"
    using heap_child[OF assms(1,2,3)] by blast
  moreover obtain pb where "h b = Some pb" "b_depth cb = Suc (b_depth pb)"
    using heap_prev[OF assms(1) cb] by blast
  moreover have "b_depth cb < 2 ^ 32" using unsigned_less[of "bh_depth (b_hdr cb)"] by simp
  ultimately show "levels_below h c < levels_below h b" "\<exists>cb. h c = Some cb \<and> b_prev cb = Some b"
    using assms(2) by (auto simp: levels_below_def)
qed

lemma levels_pos: "h b = Some bb \<Longrightarrow> 0 < levels_below h b"
  using unsigned_less[of "bh_depth (b_hdr bb)"] by (simp add: levels_below_def)

lemma preorder_visits:
  assumes "heap_ok h" "\<And>p. P p \<Longrightarrow> h p \<noteq> None" "levels_below h b \<le> n"
  shows "d \<in> set (preorder n h P D b) \<longleftrightarrow> visits h P D b d"
  using assms(3)
proof (induction n arbitrary: b)
  case 0
  then have "\<not> P b" using assms(2)[of b] levels_pos[of h b] by auto
  then show ?case by (auto elim: visits.cases)
next
  case (Suc n)
  show ?case
  proof (cases "P b")
    case True
    then obtain bb where bb: "h b = Some bb" using assms(2) by blast
    have IH: "d \<in> set (preorder n h P D c) \<longleftrightarrow> visits h P D c d" if "c \<in> set (b_children bb)" for c
      using child_levels(1)[OF assms(1) bb that] Suc by simp
    have "visits h P D b d \<longleftrightarrow> d = b \<or> (D b \<and> (\<exists>c \<in> set (b_children bb). visits h P D c d))"
      using True bb by (subst visits.simps) auto
    then show ?thesis using True bb IH by auto
  next
    case False
    then show ?thesis by (auto elim: visits.cases)
  qed
qed

lemma visits_ancestor:
  assumes "heap_ok h" "visits h P D b d" "\<And>p. P p \<Longrightarrow> h p \<noteq> None"
  shows "ancestor h b d \<and> P d"
  using assms(2)
proof induction
  case (visits_here b)
  then show ?case using assms(3) by (auto intro: ancestor_refl)
next
  case (visits_child b bb c d)
  obtain cb where "h c = Some cb" "b_prev cb = Some b" using child_levels(2)[OF assms(1)] visits_child by blast
  then have "ancestor h b c" using visits_child(3) by (rule ancestor_prev)
  then show ?case using visits_child.IH by (blast intro: ancestor_trans)
qed

lemma visits_snoc:
  assumes "visits h P D a p" "D p" "h p = Some pb" "c \<in> set (b_children pb)" "P c"
  shows "visits h P D a c"
  using assms by (induction rule: visits.induct) (auto intro: visits.intros)

lemma ofold_concat: "ofold f (concat (map g xs)) = ofold (\<lambda>x. ofold f (g x)) xs"
  by (induction xs) (auto simp: fun_eq_iff split: Option.bind_split)

lemma longest_as_fold:
  assumes "heap_ok h" "h b = Some bb" "levels_below h b \<le> n"
  shows "find_longest_descendents ssl h b bests = ofold (add_best ssl h) (preorder n h (live h) (live h) b) bests"
  using assms(2,3)
proof (induction n arbitrary: b bb bests)
  case 0
  then show ?case using levels_pos[of h b] by simp
next
  case (Suc n)
  show ?case
  proof (cases "b_complaint bb")
    case None
    have "find_longest_descendents ssl h c bs = ofold (add_best ssl h) (preorder n h (live h) (live h) c) bs"
      if "c \<in> set (b_children bb)" for c bs
      using child_levels[OF assms(1) Suc.prems(1) that] Suc by auto
    then have "ofold (find_longest_descendents ssl h) (b_children bb) =
        ofold (\<lambda>c. ofold (add_best ssl h) (preorder n h (live h) (live h) c)) (b_children bb)"
      by (intro ext ofold_cong) auto
    then show ?thesis using None Suc.prems(1)
      by (subst find_longest_descendents.simps) (simp add: live_def ofold_concat)
  next
    case (Some x)
    then show ?thesis using Suc.prems(1)
      by (subst find_longest_descendents.simps) (simp add: live_def)
  qed
qed

subsection \<open>Best blocks\<close>

definition tips :: "heap \<Rightarrow> bptr set \<Rightarrow> bptr list \<Rightarrow> bool" where
  \<comment> \<open>the array holds the blocks of \<open>S\<close> with the most work\<close>
  "tips h S arr \<longleftrightarrow> arr \<noteq> [] \<and> set arr = best h S \<and> (\<forall>b \<in> S. h b \<noteq> None)"

lemma bests_same: "b \<in> best h S \<Longrightarrow> c \<in> best h S \<Longrightarrow> work h b = work h c"
  by (auto simp: best_def intro: antisym)

lemma best_insert:
  assumes "b0 \<in> best h S"
  shows "best h (insert b S) =
    (if work h b > work h b0 then {b} else if work h b = work h b0 then insert b (best h S) else best h S)"
  using assms by (auto simp: best_def intro: order_trans)

lemma tips_hd: "tips h S arr \<Longrightarrow> arr ! 0 \<in> best h S"
  by (metis length_greater_0_conv nth_mem tips_def)

lemma add_best_tips:
  assumes "bn_ok ssl" "tips h S arr" "h b = Some bb"
  shows "\<exists>arr'. add_best ssl h b arr = Some arr' \<and> tips h (insert b S) arr'"
proof -
  have ne: "0 < length arr" and set: "set arr = best h S" using assms(2) by (auto simp: tips_def)
  have a0: "arr ! 0 \<in> best h S" using tips_hd[OF assms(2)] .
  then obtain ab where ab: "h (arr ! 0) = Some ab" using assms(2) by (auto simp: tips_def best_def)
  have "cmp_work ssl h b (arr ! 0) = Some (bn_cmp_spec (work h b) (work h (arr ! 0)))"
    using ab assms(3) bn_okD(14)[OF assms(1)] by (simp add: cmp_work_def work_def)
  then show ?thesis
    using best_insert[OF a0, of b] ne set assms(2,3)
    by (auto simp: add_best_def tips_def bn_cmp_spec_def)
qed

lemma fold_best_tips:
  assumes "bn_ok ssl" "tips h S arr" "\<forall>b \<in> set bs. h b \<noteq> None"
  shows "\<exists>arr'. ofold (add_best ssl h) bs arr = Some arr' \<and> tips h (S \<union> set bs) arr'"
  using assms(2,3)
proof (induction bs arbitrary: S arr)
  case (Cons b bs)
  then obtain arr1 where a: "add_best ssl h b arr = Some arr1" "tips h (insert b S) arr1"
    using add_best_tips[OF assms(1), of h S arr b] by auto
  then show ?case using Cons.IH[OF a(2)] Cons.prems by simp
qed simp

lemma live_in_heap: "live h p \<Longrightarrow> h p \<noteq> None"
  by (auto simp: live_def split: option.splits)

definition live_below :: "heap \<Rightarrow> bptr \<Rightarrow> bptr set" where
  \<comment> \<open>the descendents (the block itself among them) reached without passing a complaint\<close>
  "live_below h b = {d. visits h (live h) (live h) b d}"

lemma find_longest_tips:
  assumes "heap_ok h" "bn_ok ssl" "tips h S arr" "h b = Some bb"
  shows "\<exists>arr'. find_longest_descendents ssl h b arr = Some arr' \<and> tips h (S \<union> live_below h b) arr'"
proof -
  let ?bs = "preorder (levels_below h b) h (live h) (live h) b"
  have bs: "set ?bs = live_below h b"
    using preorder_visits[OF assms(1), of "live h" b] live_in_heap by (auto simp: live_below_def)
  then have "\<forall>d \<in> set ?bs. h d \<noteq> None"
    using visits_ancestor[OF assms(1), of "live h" "live h" b] live_in_heap
    by (auto simp: live_below_def)
  then show ?thesis
    using fold_best_tips[OF assms(2,3), of ?bs] longest_as_fold[OF assms(1,4), of "levels_below h b"] bs by simp
qed

text \<open>
  C9. \<open>find_longest_descendents\<close> ends on every block tree, and started with the best blocks of a
  set it returns the best blocks of that set and of the block's descendents without a
  complaint: those with the most work, all of them and nothing else.
\<close>

theorem find_longest_descendents_correct:
  assumes "heap_ok h" "bn_ok ssl" "arr \<noteq> []" "set arr = best h S" "\<forall>b \<in> S. h b \<noteq> None" "h b = Some bb"
  shows "\<exists>arr'. find_longest_descendents ssl h b arr = Some arr' \<and> arr' \<noteq> [] \<and>
    set arr' = best h (S \<union> live_below h b)"
  using find_longest_tips[OF assms(1,2) _ assms(6), of S arr] assms(3-5) by (auto simp: tips_def)

subsection \<open>Known blocks\<close>

definition mark :: "bptr set \<Rightarrow> heap \<Rightarrow> heap" where
  "mark S h p = (if p \<in> S then map_option (\<lambda>b. b\<lparr>b_all_known := True\<rparr>) (h p) else h p)"

lemma mark_simps [simp]:
  "live (mark S h) = live h" "complete (mark S h) = complete h" "work (mark S h) = work h"
  "best (mark S h) = best h" "levels_below (mark S h) = levels_below h" "mark {} h = h"
  "cmp_work ssl (mark S h) = cmp_work ssl h" "add_best ssl (mark S h) = add_best ssl h"
  "(mark S h p = None) = (h p = None)"
  "tips (mark S h) = tips h"
  "mark T (mark S h) = mark (S \<union> T) h"
  by (auto simp: fun_eq_iff mark_def live_def complete_def work_def best_def levels_below_def cmp_work_def
      add_best_def tips_def block_all_known_def option.map_comp o_def split: option.splits Option.bind_split)

lemma mark_Some:
  "mark S h p = Some b \<longleftrightarrow> (\<exists>b0. h p = Some b0 \<and> b = b0\<lparr>b_all_known := b_all_known b0 \<or> p \<in> S\<rparr>)"
  by (auto simp: mark_def)

lemma all_known_mark: "all_known (mark S h) p \<longleftrightarrow> all_known h p \<or> (p \<in> S \<and> h p \<noteq> None)"
  by (auto simp: all_known_def mark_def split: option.splits)

lemma same_tree_mark: "same_tree h (mark S h)"
  by (auto simp: same_tree_def mark_def same_node_def option.rel_refl rel_option_iff split: option.split)

lemma preorder_mark [simp]: "preorder n (mark S h) P D b = preorder n h P D b"
  by (induction n arbitrary: b) (auto simp: mark_def split: option.splits intro!: arg_cong[of _ _ concat])

definition parent_known :: "heap \<Rightarrow> bptr \<Rightarrow> bool" where
  "parent_known h b \<longleftrightarrow>
     (case h b of None \<Rightarrow> False
      | Some bb \<Rightarrow> (case b_prev bb of None \<Rightarrow> True | Some p \<Rightarrow> all_known h p))"

definition blocks_total :: "heap \<Rightarrow> bool" where
  "blocks_total h \<longleftrightarrow> (\<forall>p b. h p = Some b \<longrightarrow> block_ok b)"

lemma all_below_total: "(\<And>i. i < n \<Longrightarrow> f i \<noteq> None) \<Longrightarrow> all_below n f \<noteq> None"
  by (induction n) auto

lemma block_all_known_total: "block_ok b \<Longrightarrow> block_all_known b \<noteq> None"
  unfolding block_all_known_def by (rule all_below_total) (simp add: block_ok_def)

lemma blocks_total_mark [simp]: "blocks_total (mark S h) = blocks_total h"
proof -
  have "block_ok (b\<lparr>b_all_known := x\<rparr>) = block_ok b" for b x by (simp add: block_ok_def)
  then show ?thesis unfolding blocks_total_def mark_Some by metis
qed

text \<open>
  One visit of \<open>update_known_recursive\<close>: the blocks it marks, the array it leaves behind.
\<close>

definition known_below :: "heap \<Rightarrow> bptr \<Rightarrow> bptr list" where
  "known_below h b = preorder (levels_below h b) h (complete h) (live h) b"

lemma preorder_enough:
  assumes "heap_ok h" "\<And>p. P p \<Longrightarrow> h p \<noteq> None" "levels_below h b \<le> n"
  shows "preorder n h P D b = preorder (levels_below h b) h P D b"
  using assms(3)
proof (induction n arbitrary: b rule: less_induct)
  case (less n)
  show ?case
  proof (cases "P b")
    case True
    then obtain bb where bb: "h b = Some bb" using assms(2) by blast
    obtain m where m: "levels_below h b = Suc m" using levels_pos[of h b, OF bb] gr0_conv_Suc by blast
    obtain n' where n': "n = Suc n'" using less.prems m by (cases n) auto
    have "preorder n' h P D c = preorder m h P D c" if "c \<in> set (b_children bb)" for c
    proof -
      have "levels_below h c \<le> m" "levels_below h c \<le> n'"
        using child_levels(1)[OF assms(1) bb that] m less.prems n' by auto
      moreover have "m < n \<or> m = n'" using less.prems m n' by auto
      ultimately show ?thesis using less.IH[of n' c] less.IH[of m c] n' by auto
    qed
    then have "concat (map (preorder n' h P D) (b_children bb)) = concat (map (preorder m h P D) (b_children bb))"
      by (metis (no_types, lifting) map_cong)
    then show ?thesis using True bb m n' by simp
  next
    case False
    have "preorder k h P D b = []" for k using False by (cases k) auto
    then show ?thesis by simp
  qed
qed

lemma known_below_unfold:
  assumes "heap_ok h" "h b = Some bb" "complete h b"
  shows "known_below h b = b # (if live h b then concat (map (known_below h) (b_children bb)) else [])"
proof -
  obtain m where m: "levels_below h b = Suc m" using levels_pos[of h b, OF assms(2)] gr0_conv_Suc by blast
  have in_heap: "complete h p \<Longrightarrow> h p \<noteq> None" for p by (auto simp: complete_def split: option.splits)
  have "preorder m h (complete h) (live h) c = known_below h c" if "c \<in> set (b_children bb)" for c
    using preorder_enough[where P = "complete h" and D = "live h" and b = c and n = m, OF assms(1) in_heap]
      child_levels(1)[OF assms(1,2) that] m
    by (simp add: known_below_def)
  then have eq: "map (preorder m h (complete h) (live h)) (b_children bb) = map (known_below h) (b_children bb)"
    by simp
  then show ?thesis using assms m by (subst known_below_def) (simp del: map_eq_conv)
qed

lemma known_below_not: "\<not> complete h b \<Longrightarrow> known_below h b = []"
  by (cases "levels_below h b") (auto simp: known_below_def)

lemma known_below_mark [simp]: "known_below (mark S h) b = known_below h b"
  by (simp add: known_below_def)

lemma parent_known_child:
  assumes "heap_ok h" "h b = Some bb" "c \<in> set (b_children bb)"
  shows "parent_known h c \<longleftrightarrow> all_known h b"
  using heap_child[OF assms] by (auto simp: parent_known_def)

lemma parent_known_mark: "parent_known h b \<Longrightarrow> parent_known (mark S h) b"
  by (auto simp: parent_known_def mark_def all_known_def split: option.splits if_splits)

text \<open>
  \<open>update_known_recursive\<close> is \<open>knows\<close> on the blocks \<open>known_below\<close>, when the parent is known.
\<close>

lemma update_known_recursive_skip:
  assumes "st_heap s b = Some bb" "heap_ok (st_heap s)" "blocks_total (st_heap s)"
    "\<not> (parent_known (st_heap s) b \<and> complete (st_heap s) b)"
  shows "update_known_recursive ssl b s = Some (False, s)"
proof -
  obtain r where r: "block_all_known bb = Some r"
    using block_all_known_total[of bb] assms(1,3) by (auto simp: blocks_total_def)
  show ?thesis
  proof (cases "b_prev bb")
    case None
    then show ?thesis using assms r
      by (subst update_known_recursive.simps) (auto simp: parent_known_def complete_def)
  next
    case (Some p)
    then obtain pb where "st_heap s p = Some pb" using heap_prev[OF assms(2,1)] by blast
    then show ?thesis using assms r Some
      by (subst update_known_recursive.simps) (auto simp: parent_known_def complete_def all_known_def)
  qed
qed

lemma update_known_recursive_visit:
  assumes "st_heap s b = Some bb" "heap_ok (st_heap s)" "blocks_total (st_heap s)"
    "parent_known (st_heap s) b" "complete (st_heap s) b"
  shows "update_known_recursive ssl b s =
    (let s1 = s\<lparr>st_heap := mark {b} (st_heap s)\<rparr> in
     if \<not> live (st_heap s) b then Some (False, s1)
     else do {
       k0 \<leftarrow> c_nth (st_longest_knowns s) 0;
       c \<leftarrow> cmp_work ssl (st_heap s) b k0;
       ks \<leftarrow> add_best ssl (st_heap s) b (st_longest_knowns s);
       ofold (\<lambda>b r. do { (changed, s2) \<leftarrow> update_known_recursive ssl b (snd r); Some (changed \<or> fst r, s2) })
         (b_children bb) (c \<noteq> -1, s1\<lparr>st_longest_knowns := ks\<rparr>) })"
proof -
  have prev: "(case b_prev bb of None \<Rightarrow> Some True
      | Some p \<Rightarrow> do { pb \<leftarrow> st_heap s p; Some (b_all_known pb) }) = Some True"
    using assms(1,4) by (auto simp: parent_known_def all_known_def split: option.splits)
  have known: "block_all_known bb = Some True" using assms(1,5) by (simp add: complete_def)
  have "mark {b} (st_heap s) = (st_heap s)(b \<mapsto> bb\<lparr>b_all_known := True\<rparr>)"
    using assms(1) by (auto simp: mark_def)
  moreover have "mark {b} (st_heap s) = st_heap s" if "b_all_known bb"
    using assms(1) that by (auto simp: mark_def)
  ultimately have s1: "(if \<not> b_all_known bb then s\<lparr>st_heap := (st_heap s)(b \<mapsto> bb\<lparr>b_all_known := True\<rparr>)\<rparr> else s)
      = s\<lparr>st_heap := mark {b} (st_heap s)\<rparr>"
    by auto
  show ?thesis
    using assms(1)
    by (subst update_known_recursive.simps) (simp add: prev known s1 Let_def live_def)
qed

definition known_step :: "heap \<Rightarrow> bptr set \<Rightarrow> bptr list \<Rightarrow> bool \<Rightarrow> state \<Rightarrow> (bool \<times> state) option \<Rightarrow> bool" where
  \<comment> \<open>the outcome of visiting the blocks \<open>bs\<close> from \<open>s\<close> with the flag \<open>ch0\<close>\<close>
  "known_step h S bs ch0 s r \<longleftrightarrow>
     (\<exists>ch ks. r = Some (ch, s\<lparr>st_heap := mark (set bs) (st_heap s), st_longest_knowns := ks\<rparr>) \<and>
        tips h (S \<union> {d \<in> set bs. live h d}) ks \<and> (\<not> ch \<longrightarrow> \<not> ch0 \<and> ks = st_longest_knowns s))"

lemma known_step_same:
  assumes "tips h S (st_longest_knowns s)" "\<forall>d \<in> set bs. \<not> live h d"
    "r = Some (ch, s\<lparr>st_heap := mark (set bs) (st_heap s)\<rparr>)"  "ch = ch0"
  shows "known_step h S bs ch0 s r"
proof -
  have eq: "S \<union> {d \<in> set bs. live h d} = S" using assms(2) by auto
  show ?thesis
    using assms unfolding known_step_def eq by (intro exI[of _ ch] exI[of _ "st_longest_knowns s"]) simp
qed

lemma known_step_loop:
  assumes "\<And>c M s S. c \<in> set cs \<Longrightarrow> st_heap s = mark (insert b M) h \<Longrightarrow> tips h S (st_longest_knowns s) \<Longrightarrow>
      known_step h S (known_below h c) False s (update_known_recursive ssl c s)"
    and "st_heap s = mark (insert b M) h" "tips h S (st_longest_knowns s)"
  shows "known_step h S (concat (map (known_below h) cs)) ch s
    (ofold (\<lambda>b r. do { (changed, s2) \<leftarrow> update_known_recursive ssl b (snd r); Some (changed \<or> fst r, s2) }) cs (ch, s))"
  using assms
proof (induction cs arbitrary: s S M ch)
  case Nil
  then show ?case by (intro known_step_same) auto
next
  case (Cons c cs)
  obtain ch1 ks where 1: "update_known_recursive ssl c s =
      Some (ch1, s\<lparr>st_heap := mark (set (known_below h c)) (st_heap s), st_longest_knowns := ks\<rparr>)"
    "tips h (S \<union> {d \<in> set (known_below h c). live h d}) ks" "\<not> ch1 \<longrightarrow> ks = st_longest_knowns s"
    using Cons.prems(1)[of c s M S] Cons.prems(2,3) by (auto simp: known_step_def)
  let ?s1 = "s\<lparr>st_heap := mark (set (known_below h c)) (st_heap s), st_longest_knowns := ks\<rparr>"
  have h1: "st_heap ?s1 = mark (insert b (M \<union> set (known_below h c))) h"
    using Cons.prems(2) by simp
  have "known_step h (S \<union> {d \<in> set (known_below h c). live h d}) (concat (map (known_below h) cs)) (ch1 \<or> ch) ?s1
    (ofold (\<lambda>b r. do { (changed, s2) \<leftarrow> update_known_recursive ssl b (snd r); Some (changed \<or> fst r, s2) }) cs (ch1 \<or> ch, ?s1))"
    using Cons.prems(1) 1(2) by (intro Cons.IH[OF _ h1]) auto
  moreover have "S \<union> {d \<in> set (known_below h c). live h d} \<union> {d \<in> set (concat (map (known_below h) cs)). live h d}
      = S \<union> {d \<in> set (concat (map (known_below h) (c # cs))). live h d}"
    by auto
  ultimately show ?case using 1 by (auto simp: known_step_def Un_assoc)
qed

lemma update_known_recursive_step:
  assumes "heap_ok h" "blocks_total h" "bn_ok ssl"
    "h b = Some bb" "st_heap s = mark M h" "tips h S (st_longest_knowns s)" "levels_below h b \<le> n"
    "parent_known (mark M h) b"
  shows "known_step h S (known_below h b) False s (update_known_recursive ssl b s)"
  using assms(4-)
proof (induction n arbitrary: b bb s S M)
  case 0
  then show ?case using levels_pos[of h b] by simp
next
  case (Suc n)
  have hk: "heap_ok (mark M h)" using same_tree_heap_ok[OF same_tree_mark assms(1)] .
  obtain bb' where bb': "mark M h b = Some bb'" "b_children bb' = b_children bb"
    using Suc.prems(1) by (cases "b \<in> M") (auto simp: mark_def)
  show ?case
  proof (cases "complete h b")
    case False
    then have "update_known_recursive ssl b s = Some (False, s)"
      using update_known_recursive_skip[of s b bb' ssl] Suc.prems(2) bb' hk assms(2) by simp
    then show ?thesis using Suc.prems(3) known_below_not[OF False] by (intro known_step_same) auto
  next
    case True
    let ?s1 = "s\<lparr>st_heap := mark {b} (st_heap s)\<rparr>"
    note visit = update_known_recursive_visit[of s b bb' ssl, unfolded Suc.prems(2), simplified,
        OF bb'(1) hk assms(2) Suc.prems(5) True]
    show ?thesis
    proof (cases "live h b")
      case False
      then show ?thesis
        using visit Suc.prems(2,3) known_below_unfold[OF assms(1) Suc.prems(1) True]
        by (intro known_step_same) auto
    next
      case live: True
      obtain ks where ks: "add_best ssl h b (st_longest_knowns s) = Some ks" "tips h (insert b S) ks"
        using add_best_tips[OF assms(3) Suc.prems(3,1)] by blast
      then obtain k0 c where c: "c_nth (st_longest_knowns s) 0 = Some k0" "cmp_work ssl h b k0 = Some c"
        "c = -1 \<longrightarrow> ks = st_longest_knowns s"
        by (auto simp: add_best_def bind_eq_Some_conv)
      let ?s2 = "s\<lparr>st_heap := mark (insert b M) h, st_longest_knowns := ks\<rparr>"
      have loop: "known_step h (insert b S) (concat (map (known_below h) (b_children bb))) (c \<noteq> -1) ?s2
        (ofold (\<lambda>b r. do { (changed, s2) \<leftarrow> update_known_recursive ssl b (snd r); Some (changed \<or> fst r, s2) })
          (b_children bb) (c \<noteq> -1, ?s2))"
      proof (rule known_step_loop[of _ b _ _ _ M])
        fix x M' S' and s' :: state
        assume x: "x \<in> set (b_children bb)" and s': "st_heap s' = mark (insert b M') h"
          "tips h S' (st_longest_knowns s')"
        have "levels_below h x \<le> n" "\<exists>xb. h x = Some xb"
          using child_levels[OF assms(1) Suc.prems(1) x] Suc.prems(4) by auto
        moreover have "parent_known (mark (insert b M') h) x"
        proof -
          have "heap_ok (mark (insert b M') h)" using same_tree_heap_ok[OF same_tree_mark assms(1)] .
          moreover obtain b1 where "mark (insert b M') h b = Some b1" "b_children b1 = b_children bb"
            using Suc.prems(1) by (simp add: mark_def)
          ultimately show ?thesis
            using parent_known_child[of "mark (insert b M') h" b b1 x] x Suc.prems(1)
            by (simp add: all_known_mark)
        qed
        ultimately show "known_step h S' (known_below h x) False s' (update_known_recursive ssl x s')"
          using Suc.IH s' by blast
      qed (use ks(2) in auto)
      have "update_known_recursive ssl b s =
        ofold (\<lambda>b r. do { (changed, s2) \<leftarrow> update_known_recursive ssl b (snd r); Some (changed \<or> fst r, s2) })
          (b_children bb) (c \<noteq> -1, ?s2)"
        using visit live c ks(1) Suc.prems(2) bb'(2) by (simp add: Un_insert_right)
      moreover define cc where "cc = concat (map (known_below h) (b_children bb))"
      ultimately obtain ch ks' where
        u: "update_known_recursive ssl b s =
          Some (ch, ?s2\<lparr>st_heap := mark (set cc) (mark (insert b M) h), st_longest_knowns := ks'\<rparr>)"
        "tips h (insert b S \<union> {d \<in> set cc. live h d}) ks'" "\<not> ch \<longrightarrow> c = -1 \<and> ks' = ks"
        using loop by (auto simp: known_step_def)
      have "insert b S \<union> {d \<in> set cc. live h d} = S \<union> {d \<in> set (b # cc). live h d}" using live by auto
      moreover have "mark (set cc) (mark (insert b M) h) = mark (set (b # cc)) (st_heap s)"
        using Suc.prems(2) by simp
      moreover have "known_below h b = b # cc"
        using known_below_unfold[OF assms(1) Suc.prems(1) True] live by (simp add: cc_def)
      ultimately show ?thesis
        using u c(3) unfolding known_step_def by (intro exI[of _ ch] exI[of _ ks']) simp
    qed
  qed
qed

subsection \<open>The invariant of the chain pointers\<close>

definition tree_ok :: "heap \<Rightarrow> bool" where
  \<comment> \<open>complaints are inherited, work grows along the chain\<close>
  "tree_ok h \<longleftrightarrow> heap_ok h \<and> blocks_total h \<and>
     (\<forall>b bb p pb. h b = Some bb \<longrightarrow> b_prev bb = Some p \<longrightarrow> h p = Some pb \<longrightarrow>
        (b_complaint bb = None \<longrightarrow> b_complaint pb = None) \<and> b_total_work pb < b_total_work bb)"

definition chains_inv :: "bptr set \<Rightarrow> bptr set \<Rightarrow> state \<Rightarrow> bool" where
  \<comment> \<open>\<open>X\<close>: blocks not yet compared with the longest chains; \<open>Y\<close>: blocks whose completeness has not
     been noticed yet\<close>
  "chains_inv X Y s \<longleftrightarrow> tree_ok (st_heap s) \<and>
     tips (st_heap s) ({b. live (st_heap s) b} - X) (st_longest_chains s) \<and>
     tips (st_heap s) {b. live (st_heap s) b \<and> all_known (st_heap s) b} (st_longest_knowns s) \<and>
     (\<forall>b. live (st_heap s) b \<longrightarrow> b \<notin> Y \<longrightarrow> complete (st_heap s) b \<longrightarrow> parent_known (st_heap s) b \<longrightarrow>
        all_known (st_heap s) b)"

definition preferred_ok :: "state \<Rightarrow> bool" where
  "preferred_ok s \<longleftrightarrow>
     st_preferred_chain s \<in> best (st_heap s) (live_below (st_heap s) (st_longest_knowns s ! 0))"

definition same_but_tips :: "state \<Rightarrow> state \<Rightarrow> bool" where
  \<comment> \<open>the same store; the two arrays reordered; the rest of the state may have changed\<close>
  "same_but_tips s s' \<longleftrightarrow> st_heap s' = st_heap s \<and>
     set (st_longest_chains s') = set (st_longest_chains s) \<and>
     set (st_longest_knowns s') = set (st_longest_knowns s)"

lemma tips_set: "tips h S arr \<Longrightarrow> set arr' = set arr \<Longrightarrow> tips h S arr'"
  by (auto simp: tips_def)

lemma chains_inv_same: "chains_inv X Y s \<Longrightarrow> same_but_tips s s' \<Longrightarrow> chains_inv X Y s'"
  by (auto simp: chains_inv_def same_but_tips_def intro: tips_set)

lemma chains_inv_tips:
  assumes "chains_inv X Y s"
  shows "heap_ok (st_heap s)" "blocks_total (st_heap s)"
    "0 < length (st_longest_knowns s)" "0 < length (st_longest_chains s)"
    "b \<in> set (st_longest_knowns s) \<Longrightarrow> live (st_heap s) b \<and> all_known (st_heap s) b"
    "b \<in> set (st_longest_chains s) \<Longrightarrow> live (st_heap s) b"
  using assms by (auto simp: chains_inv_def tree_ok_def tips_def best_def)

lemma live_Some: "live h b \<Longrightarrow> \<exists>bb. h b = Some bb"
  using live_in_heap by blast

lemma connected_known_total:
  assumes "heap_ok h" "live h c" "\<forall>k \<in> set ks. live h k"
  shows "\<exists>r. connected_known h c j ks = Some r \<and> (case r of None \<Rightarrow> True | Some i \<Rightarrow> j \<le> i \<and> i < j + length ks)"
  using assms(3)
proof (induction ks arbitrary: j)
  case (Cons k ks)
  then obtain x where "block_preceeds h k c = Some x"
    using block_preceeds_eq[OF assms(1)] live_Some assms(2) by (metis list.set_intros(1))
  moreover obtain r where "connected_known h c (Suc j) ks = Some r"
    "case r of None \<Rightarrow> True | Some i \<Rightarrow> Suc j \<le> i \<and> i < Suc j + length ks"
    using Cons.IH[of "Suc j"] Cons.prems by auto
  ultimately show ?case by (cases r) auto
qed simp

lemma connected_chain_total:
  assumes "heap_ok h" "\<forall>k \<in> set ks. live h k" "\<forall>c \<in> set cs. live h c"
  shows "\<exists>r. connected_chain h i cs ks = Some r \<and>
    (case r of None \<Rightarrow> True | Some (a, b) \<Rightarrow> i \<le> a \<and> a < i + length cs \<and> b < length ks)"
  using assms(3)
proof (induction cs arbitrary: i)
  case (Cons c cs)
  obtain x where "connected_known h c 0 ks = Some x" "case x of None \<Rightarrow> True | Some i \<Rightarrow> i < length ks"
    using connected_known_total[OF assms(1) _ assms(2), of c 0] Cons.prems by (auto split: option.splits)
  moreover obtain r where "connected_chain h (Suc i) cs ks = Some r"
    "case r of None \<Rightarrow> True | Some (a, b) \<Rightarrow> Suc i \<le> a \<and> a < Suc i + length cs \<and> b < length ks"
    using Cons.IH[of "Suc i"] Cons.prems by auto
  ultimately show ?case by (cases x; cases r) auto
qed simp

lemma swap_blockptr_set:
  "n < length arr \<Longrightarrow> \<exists>arr'. swap_blockptr arr n = Some arr' \<and> set arr' = set arr"
proof -
  assume n: "n < length arr"
  then have "0 < length arr" by linarith
  with n have "swap_blockptr arr n = Some (arr[0 := arr ! n, n := arr ! 0])" by (simp add: swap_blockptr_def)
  moreover have "mset (arr[0 := arr ! n, n := arr ! 0]) = mset arr"
    using n by (intro mset_swap) auto
  then have "set (arr[0 := arr ! n, n := arr ! 0]) = set arr" by (rule mset_eq_setD)
  ultimately show ?thesis by blast
qed

lemma order_block_pointers_ok:
  assumes "chains_inv X Y s"
  shows "\<exists>ch s'. order_block_pointers s = Some (ch, s') \<and> same_but_tips s s'"
proof -
  obtain r where r: "find_connected_pair s = Some r"
    "case r of None \<Rightarrow> True | Some (a, b) \<Rightarrow> a < length (st_longest_chains s) \<and> b < length (st_longest_knowns s)"
    using connected_chain_total[of "st_heap s" "st_longest_knowns s" "st_longest_chains s" 0] chains_inv_tips[OF assms]
    by (auto simp: find_connected_pair_def split: option.splits)
  show ?thesis
  proof (cases r)
    case None
    then show ?thesis using r(1) by (auto simp: order_block_pointers_def same_but_tips_def)
  next
    case (Some ab)
    obtain a b where ab: "ab = (a, b)" by (cases ab)
    then have lens: "a < length (st_longest_chains s)" "b < length (st_longest_knowns s)" using r(2) Some by auto
    obtain cs where "swap_blockptr (st_longest_chains s) a = Some cs" "set cs = set (st_longest_chains s)"
      using swap_blockptr_set[OF lens(1)] by blast
    moreover obtain ks where "swap_blockptr (st_longest_knowns s) b = Some ks" "set ks = set (st_longest_knowns s)"
      using swap_blockptr_set[OF lens(2)] by blast
    ultimately show ?thesis using r(1) Some ab by (auto simp: order_block_pointers_def same_but_tips_def)
  qed
qed

lemma live_below_self: "live h b \<Longrightarrow> b \<in> live_below h b"
  by (simp add: live_below_def visits_here)

lemma update_preferred_chain_ok:
  assumes "chains_inv X Y s" "bn_ok ssl"
  shows "\<exists>ch s'. update_preferred_chain ssl s = Some (ch, s') \<and> same_but_tips s s' \<and>
    st_longest_knowns s' = st_longest_knowns s \<and> preferred_ok s'"
proof -
  let ?k = "st_longest_knowns s ! 0"
  have k: "0 < length (st_longest_knowns s)" and live: "live (st_heap s) ?k"
    using chains_inv_tips[OF assms(1)] by auto
  then obtain kb where kb: "st_heap s ?k = Some kb" using live_Some by blast
  have "tips (st_heap s) {?k} [?k]" using kb by (auto simp: tips_def best_def)
  moreover have "{?k} \<union> live_below (st_heap s) ?k = live_below (st_heap s) ?k"
    using live_below_self[OF live] by auto
  ultimately obtain arr where arr: "find_longest_descendents ssl (st_heap s) ?k [?k] = Some arr"
    "tips (st_heap s) (live_below (st_heap s) ?k) arr"
    using find_longest_tips[OF chains_inv_tips(1)[OF assms(1)] assms(2) _ kb, of "{?k}" "[?k]"] by auto
  have "0 < length arr" using arr(2) by (simp add: tips_def)
  then show ?thesis using k arr(1) tips_hd[OF arr(2)]
    by (auto simp: update_preferred_chain_def same_but_tips_def preferred_ok_def)
qed

text \<open>Moving the transactions of an abandoned branch to pending changes \<open>st_pending\<close> only.\<close>

definition same_chains :: "state \<Rightarrow> state \<Rightarrow> bool" where
  "same_chains s s' \<longleftrightarrow> st_heap s' = st_heap s \<and> st_longest_chains s' = st_longest_chains s \<and>
     st_longest_knowns s' = st_longest_knowns s \<and> st_preferred_chain s' = st_preferred_chain s \<and>
     st_block_depth s' = st_block_depth s"

lemma same_chains_refl [simp]: "same_chains s s"
  by (simp add: same_chains_def)

lemma same_chains_trans: "same_chains s s' \<Longrightarrow> same_chains s' s'' \<Longrightarrow> same_chains s s''"
  by (simp add: same_chains_def)

lemma same_chains_pending [simp]: "same_chains s (s'\<lparr>st_pending := x\<rparr>) = same_chains s s'"
  by (simp add: same_chains_def)

lemma tx_for_total:
  "shard_ok sh \<Longrightarrow> i < unat (bs_size sh) \<Longrightarrow> tx_for sh (word_of_nat i) \<noteq> None"
proof -
  assume a: "shard_ok sh" "i < unat (bs_size sh)"
  have "unat (bs_size sh) < 2 ^ 8" using unsigned_less[of "bs_size sh"] by simp
  then have "i < 2 ^ 8" by (rule less_trans[OF a(2)])
  then have "unat (word_of_nat i :: u8) = i" by (simp add: unsigned_of_nat take_bit_nat_eq_self)
  then show ?thesis using a
    by (auto simp: tx_for_def shard_is_tx_def shard_ok_def split: Option.bind_split txslot.splits option.splits)
qed

lemma shard_to_pending_total:
  assumes "shard_ok sh" "n \<le> unat (bs_size sh)"
  shows "\<exists>s'. shard_to_pending s sh n = Some s' \<and> same_chains s s'"
  using assms(2)
proof (induction n)
  case (Suc n)
  then obtain s1 where "shard_to_pending s sh n = Some s1" "same_chains s s1" by auto
  moreover obtain t where "tx_for sh (word_of_nat n) = Some t"
    using tx_for_total[OF assms(1), of n] Suc.prems by auto
  ultimately show ?case
    by (auto simp: Let_def add_to_unknown_pending_def split: option.splits)
qed simp

lemma block_to_pending_total:
  assumes "block_ok b"
  shows "\<exists>s'. block_to_pending s b = Some s' \<and> same_chains s s'"
proof -
  have "\<exists>s'. shards_to_pending s b n = Some s' \<and> same_chains s s'" if "n \<le> length (b_shard b)" for n
    using that
  proof (induction n)
    case (Suc n)
    then obtain s1 where s1: "shards_to_pending s b n = Some s1" "same_chains s s1" by auto
    have n: "n < length (b_shard b)" "n < length (b_shard_nums b)" "shard_ok (b_shard b ! n)"
      "bs_size (b_shard b ! n) = b_shard_nums b ! n"
      using Suc.prems assms by (auto simp: block_ok_def)
    obtain s2 where "shard_to_pending s1 (b_shard b ! n) (unat (b_shard_nums b ! n)) = Some s2" "same_chains s1 s2"
      using shard_to_pending_total[OF n(3), of "unat (b_shard_nums b ! n)" s1] n(4) by auto
    then show ?case using s1 n by (auto intro: same_chains_trans)
  qed simp
  then show ?thesis using assms by (auto simp: block_to_pending_def block_ok_def)
qed

lemma steal_loop_total:
  assumes "heap_ok h" "blocks_total h" "ancestor h e old" "h e = Some eb"
    "st_heap s = h"
  shows "\<exists>s'. steal_loop (b_prev eb) (Some old) s = Some s' \<and> same_chains s s'"
  using assms(3,4,5)
proof (induction arbitrary: s rule: ancestor.induct)
  case (ancestor_refl b bb)
  obtain s1 where "block_to_pending s bb = Some s1" "same_chains s s1"
    using block_to_pending_total[of bb s] assms(2) ancestor_refl by (auto simp: blocks_total_def)
  moreover have "b_prev eb \<noteq> Some b"
    using heap_prev[OF assms(1), of b eb b] ancestor_refl by fastforce
  ultimately show ?case using ancestor_refl
    by (subst steal_loop.simps) (auto simp: steal_loop.simps)
next
  case (ancestor_step b bb p a)
  obtain s1 where s1: "block_to_pending s bb = Some s1" "same_chains s s1"
    using block_to_pending_total[of bb s] assms(2) ancestor_step by (auto simp: blocks_total_def)
  obtain pb where p: "h p = Some pb" "b_depth bb = Suc (b_depth pb)"
    using heap_prev[OF assms(1) ancestor_step.hyps(1,2)] by blast
  have "b_prev eb \<noteq> Some b"
  proof
    assume q: "b_prev eb = Some b"
    then obtain b2 where "h b = Some b2" "b_depth eb = Suc (b_depth b2)"
      using heap_prev[OF assms(1) ancestor_step.prems(1)] by metis
    moreover have "b_depth eb \<le> b_depth pb"
      using ancestor_depth[OF assms(1) ancestor_step.hyps(3)] ancestor_step.prems(1) p(1) by blast
    ultimately show False using ancestor_step.hyps(1) p(2) by simp
  qed
  moreover obtain s2 where "steal_loop (b_prev eb) (Some p) s1 = Some s2" "same_chains s1 s2"
    using ancestor_step.IH[of s1] ancestor_step.prems s1(2) by (auto simp: same_chains_def)
  ultimately show ?case using ancestor_step s1
    by (subst steal_loop.simps) (auto intro: same_chains_trans)
qed

lemma steal_pending_txs_total:
  assumes "heap_ok (st_heap s)" "blocks_total (st_heap s)" "st_heap s old = Some ob" "st_heap s new = Some nb"
  shows "\<exists>s'. steal_pending_txs s old new = Some s' \<and> same_chains s s'"
proof -
  obtain r where r: "step_towards (st_heap s) new old = Some r"
    "case r of None \<Rightarrow> True | Some p \<Rightarrow> ancestor (st_heap s) p old"
    using step_towards_eq[OF assms(1,4,3)] by (auto split: option.splits)
  show ?thesis
  proof (cases r)
    case (Some e)
    then obtain eb where "st_heap s e = Some eb" using r(2) ancestor_left by fastforce
    then show ?thesis using r Some steal_loop_total[OF assms(1,2), of e old eb s]
      by (simp add: steal_pending_txs_def)
  qed (use r in \<open>simp add: steal_pending_txs_def\<close>)
qed

subsection \<open>The updates keep the invariant\<close>

lemma complete_in_heap: "complete h p \<Longrightarrow> h p \<noteq> None"
  by (auto simp: complete_def split: option.splits)

lemma known_below_visits: "heap_ok h \<Longrightarrow> d \<in> set (known_below h b) \<longleftrightarrow> visits h (complete h) (live h) b d"
  unfolding known_below_def by (rule preorder_visits) (auto simp: complete_in_heap)

lemma live_below_mark [simp]: "live_below (mark S h) b = live_below h b"
proof -
  have "visits (mark S h) P D b d" if "visits h P D b d" for P D d
    using that
  proof induction
    case (visits_child b bb c d)
    have "mark S h b = Some (bb\<lparr>b_all_known := b_all_known bb \<or> b \<in> S\<rparr>)"
      using visits_child by (simp add: mark_Some)
    then show ?case using visits_child by (auto intro: visits.visits_child)
  qed (rule visits_here)
  moreover have "visits h P D b d" if "visits (mark S h) P D b d" for P D d
    using that
  proof induction
    case (visits_child b bb c d)
    then show ?case by (auto simp: mark_Some intro: visits.visits_child)
  qed (rule visits_here)
  ultimately show ?thesis by (auto simp: live_below_def)
qed

lemma tree_ok_mark: "tree_ok h \<Longrightarrow> tree_ok (mark S h)"
proof -
  assume t: "tree_ok h"
  then have "heap_ok (mark S h)" using same_tree_heap_ok[OF same_tree_mark] by (simp add: tree_ok_def)
  then show ?thesis using t unfolding tree_ok_def by (auto simp: mark_Some)
qed

lemma parent_live:
  "tree_ok h \<Longrightarrow> live h b \<Longrightarrow> h b = Some bb \<Longrightarrow> b_prev bb = Some p \<Longrightarrow> h p = Some pb \<Longrightarrow> live h p"
  unfolding tree_ok_def live_def by auto

lemma mark_known_closed:
  assumes tree: "tree_ok h" and Y: "\<And>b. live h b \<Longrightarrow> b \<noteq> blk \<Longrightarrow> complete h b \<Longrightarrow> parent_known h b \<Longrightarrow> all_known h b"
    and blk: "h blk \<noteq> None" "parent_known h blk"
    and b: "live h b" "complete h b" "parent_known (mark (set (known_below h blk)) h) b"
  shows "all_known (mark (set (known_below h blk)) h) b"
proof -
  have hk: "heap_ok h" using tree by (simp add: tree_ok_def)
  obtain bb where bb: "h b = Some bb" using live_Some[OF b(1)] by blast
  show ?thesis
  proof (cases "parent_known h b")
    case True
    then show ?thesis
    proof (cases "b = blk")
      case True
      then show ?thesis using b(2) blk(1) known_below_visits[OF hk, of b blk]
        by (auto simp: all_known_mark intro: visits_here)
    qed (use Y b True in \<open>simp add: all_known_mark\<close>)
  next
    case False
    then obtain p where p: "b_prev bb = Some p" "\<not> all_known h p" "all_known (mark (set (known_below h blk)) h) p"
      using bb b(3) by (auto simp: parent_known_def mark_def split: option.splits if_splits)
    then have vis: "visits h (complete h) (live h) blk p" and "h p \<noteq> None"
      using known_below_visits[OF hk] by (auto simp: all_known_mark)
    then obtain pb where pb: "h p = Some pb" "b \<in> set (b_children pb)"
      using heap_prev[OF hk bb p(1)] by metis
    have "visits h (complete h) (live h) blk b"
      using visits_snoc[OF vis parent_live[OF tree b(1) bb p(1) pb(1)] pb b(2)] .
    then show ?thesis using known_below_visits[OF hk] bb by (simp add: all_known_mark)
  qed
qed

lemma update_known_recursive_inv:
  assumes inv: "chains_inv X {blk} s" and "bn_ok ssl" and blk: "st_heap s blk = Some bb"
  shows "\<exists>ch s'. update_known_recursive ssl blk s = Some (ch, s') \<and> chains_inv X {} s' \<and>
    (\<exists>S. st_heap s' = mark S (st_heap s)) \<and> st_longest_chains s' = st_longest_chains s \<and>
    st_preferred_chain s' = st_preferred_chain s \<and> (\<not> ch \<longrightarrow> st_longest_knowns s' = st_longest_knowns s)"
proof -
  let ?h = "st_heap s"
  have tree: "tree_ok ?h" and hk: "heap_ok ?h" and tot: "blocks_total ?h"
    using inv by (auto simp: chains_inv_def tree_ok_def)
  have closed: "all_known ?h b" if "live ?h b" "b \<noteq> blk" "complete ?h b" "parent_known ?h b" for b
    using inv that by (auto simp: chains_inv_def)
  have knowns: "tips ?h {b. live ?h b \<and> all_known ?h b} (st_longest_knowns s)"
    using inv by (simp add: chains_inv_def)
  show ?thesis
  proof (cases "parent_known ?h blk")
    case False
    then have "update_known_recursive ssl blk s = Some (False, s)"
      using update_known_recursive_skip[OF blk hk tot] by simp
    moreover have "chains_inv X {} s" using inv False closed by (auto simp: chains_inv_def)
    ultimately show ?thesis by (auto intro: exI[of _ "{}"])
  next
    case True
    let ?L = "known_below ?h blk"
    obtain ch ks where u: "update_known_recursive ssl blk s =
        Some (ch, s\<lparr>st_heap := mark (set ?L) ?h, st_longest_knowns := ks\<rparr>)"
      "tips ?h ({b. live ?h b \<and> all_known ?h b} \<union> {d \<in> set ?L. live ?h d}) ks"
      "\<not> ch \<longrightarrow> ks = st_longest_knowns s"
      using update_known_recursive_step[OF hk tot assms(2) blk _ knowns order_refl, of "{}"] True
      by (auto simp: known_step_def)
    have "{b. live ?h b \<and> all_known ?h b} \<union> {d \<in> set ?L. live ?h d} =
        {b. live ?h b \<and> all_known (mark (set ?L) ?h) b}"
      using live_in_heap by (auto simp: all_known_mark)
    moreover have "all_known (mark (set ?L) ?h) b"
      if "live ?h b" "complete ?h b" "parent_known (mark (set ?L) ?h) b" for b
      using mark_known_closed[OF tree closed _ True that] blk by blast
    ultimately have "chains_inv X {} (s\<lparr>st_heap := mark (set ?L) ?h, st_longest_knowns := ks\<rparr>)"
      using inv u(2) tree_ok_mark[OF tree] by (simp add: chains_inv_def)
    then show ?thesis using u by auto
  qed
qed

lemma preferred_ok_mark:
  "preferred_ok s \<Longrightarrow> st_heap s' = mark S (st_heap s) \<Longrightarrow> st_longest_knowns s' = st_longest_knowns s \<Longrightarrow>
   st_preferred_chain s' = st_preferred_chain s \<Longrightarrow> preferred_ok s'"
  by (simp add: preferred_ok_def)

lemma same_chains_inv:
  "same_chains s s' \<Longrightarrow> chains_inv X Y s' = chains_inv X Y s"
  "same_chains s s' \<Longrightarrow> preferred_ok s' = preferred_ok s"
  by (simp_all add: same_chains_def chains_inv_def preferred_ok_def)

lemma update_known_inv:
  assumes inv: "chains_inv X {blk} s" and ssl: "bn_ok ssl" and blk: "st_heap s blk = Some bb"
  shows "\<exists>ch s'. update_known ssl s blk = Some (ch, s') \<and> chains_inv X {} s' \<and>
    (\<exists>S. st_heap s' = mark S (st_heap s)) \<and> (ch \<or> preferred_ok s \<longrightarrow> preferred_ok s')"
proof -
  obtain ch s1 where s1: "update_known_recursive ssl blk s = Some (ch, s1)" "chains_inv X {} s1"
    "\<exists>S. st_heap s1 = mark S (st_heap s)" "st_preferred_chain s1 = st_preferred_chain s"
    "\<not> ch \<longrightarrow> st_longest_knowns s1 = st_longest_knowns s"
    using update_known_recursive_inv[OF inv ssl blk] by blast
  obtain k where k: "c_nth (st_longest_knowns s) 0 = Some k" "k \<in> set (st_longest_knowns s)"
    using chains_inv_tips(3)[OF inv] by auto
  show ?thesis
  proof (cases ch)
    case False
    then have "update_known ssl s blk = Some (False, s1)" using s1(1) k(1) by (simp add: update_known_def)
    moreover have "preferred_ok s \<longrightarrow> preferred_ok s1" using preferred_ok_mark s1 False by blast
    ultimately show ?thesis using s1 by auto
  next
    case True
    let ?s2 = "s1\<lparr>st_pending := (st_pending s1)\<lparr>pb_needs_recheck := True\<rparr>\<rparr>"
    have "same_chains s1 ?s2" by (simp add: same_chains_def)
    then have i2: "chains_inv X {} ?s2" using same_chains_inv(1) s1(2) by blast
    obtain c3 s3 where s3: "order_block_pointers ?s2 = Some (c3, s3)" "same_but_tips ?s2 s3"
      using order_block_pointers_ok[OF i2] by blast
    then have i3: "chains_inv X {} s3" using chains_inv_same[OF i2] by blast
    obtain c4 s4 where s4: "update_preferred_chain ssl s3 = Some (c4, s4)" "same_but_tips s3 s4" "preferred_ok s4"
      using update_preferred_chain_ok[OF i3 ssl] by blast
    then have i4: "chains_inv X {} s4" using chains_inv_same[OF i3] by blast
    obtain k0 where k0: "c_nth (st_longest_knowns s4) 0 = Some k0" "k0 \<in> set (st_longest_knowns s4)"
      using chains_inv_tips(3)[OF i4] by auto
    have h4: "st_heap s4 = st_heap s1" using s3(2) s4(2) by (simp add: same_but_tips_def)
    have "\<exists>kb. st_heap s4 k = Some kb" "\<exists>k0b. st_heap s4 k0 = Some k0b"
      using live_in_heap[of "st_heap s" k] chains_inv_tips(5)[OF inv k(2)] s1(3) h4
        live_in_heap[of "st_heap s4" k0] chains_inv_tips(5)[OF i4 k0(2)] mark_simps(9) by (metis not_None_eq)+
    then obtain s5 where s5: "(if k0 \<noteq> k then steal_pending_txs s4 k k0 else Some s4) = Some s5" "same_chains s4 s5"
      using steal_pending_txs_total[of s4 k _ k0] chains_inv_tips(1,2)[OF i4] by (cases "k0 = k") auto
    have "update_known ssl s blk = Some (True, s5)"
      using k(1) s1(1) True s3(1) s4(1) k0(1) s5(1) by (simp add: update_known_def)
    moreover have "chains_inv X {} s5" "preferred_ok s5"
      using same_chains_inv[OF s5(2)] i4 s4(3) by auto
    moreover have "\<exists>S. st_heap s5 = mark S (st_heap s)"
      using s5(2) h4 s1(3) by (simp add: same_chains_def)
    ultimately show ?thesis by blast
  qed
qed


lemma new_longest_ok:
  assumes inv: "chains_inv X Y s" and ssl: "bn_ok ssl" and "st_heap s blk = Some bb"
  shows "\<exists>s'. new_longest ssl s blk = Some s' \<and> same_but_tips s s'"
proof -
  let ?s1 = "if b_pending_features bb \<noteq> 0 \<and> st_upcoming_features s = 0
     then s\<lparr>st_upcoming_features := b_pending_features bb\<rparr> else s"
  have "same_chains s ?s1" by (simp add: same_chains_def)
  then have i1: "chains_inv X Y ?s1" using same_chains_inv(1) inv by blast
  obtain c2 s2 where s2: "order_block_pointers ?s1 = Some (c2, s2)" "same_but_tips ?s1 s2"
    using order_block_pointers_ok[OF i1] by blast
  then have i2: "chains_inv X Y s2" using chains_inv_same[OF i1] by blast
  obtain c3 s3 where "update_preferred_chain ssl s2 = Some (c3, s3)" "same_but_tips s2 s3"
    using update_preferred_chain_ok[OF i2 ssl] by blast
  then show ?thesis using s2 assms(3)
    by (auto simp: new_longest_def Let_def same_but_tips_def split: if_splits)
qed

lemma tips_insert_chain:
  assumes "tips h (S - {b}) arr" "b \<in> S" "h b = Some bb"
    "arr' = (if work h b > work h (arr ! 0) then [b] else if work h b = work h (arr ! 0) then arr @ [b] else arr)"
  shows "tips h S arr'"
proof -
  have "insert b (S - {b}) = S" using assms(2) by blast
  then show ?thesis
    using best_insert[OF tips_hd[OF assms(1)], of b] assms by (auto simp: tips_def)
qed

lemma new_block_inv:
  assumes inv: "chains_inv {blk} {blk} s" and ssl: "bn_ok ssl" and blk: "st_heap s blk = Some bb"
    and leaf: "b_children bb = []" and live: "b_complaint bb = None"
  shows "\<exists>s'. update_block_ptrs_new_block ssl s blk = Some s' \<and> chains_inv {} {} s' \<and> preferred_ok s'"
proof -
  let ?h = "st_heap s" and ?c0 = "st_longest_chains s ! 0"
  have c0: "0 < length (st_longest_chains s)" "\<exists>cb. ?h ?c0 = Some cb"
    using chains_inv_tips(4)[OF inv] live_Some chains_inv_tips(6)[OF inv, of ?c0] by auto
  then have cmp: "cmp_work ssl ?h blk ?c0 = Some (bn_cmp_spec (work ?h blk) (work ?h ?c0))"
    using blk bn_okD(14)[OF ssl] by (auto simp: cmp_work_def work_def)
  define cs where "cs = (if work ?h blk > work ?h ?c0 then [blk] else if work ?h blk = work ?h ?c0
    then st_longest_chains s @ [blk] else st_longest_chains s)"
  have lv: "live ?h blk" using blk live by (simp add: live_def)
  have "tips ?h {b. live ?h b} cs"
    using tips_insert_chain[of ?h "{b. live ?h b}" blk "st_longest_chains s" bb] inv lv blk
    by (simp add: chains_inv_def cs_def)
  then have i0: "chains_inv {} {blk} (s\<lparr>st_longest_chains := cs\<rparr>)" using inv by (simp add: chains_inv_def)
  obtain s1 where s1: "(if bn_cmp_spec (work ?h blk) (work ?h ?c0) = 1 then new_longest ssl (s\<lparr>st_longest_chains := [blk]\<rparr>) blk
      else if bn_cmp_spec (work ?h blk) (work ?h ?c0) = 0
      then new_longest ssl (s\<lparr>st_longest_chains := st_longest_chains s @ [blk]\<rparr>) blk else Some s) = Some s1"
    "same_but_tips (s\<lparr>st_longest_chains := cs\<rparr>) s1"
  proof (cases "work ?h blk < work ?h ?c0")
    case True
    then show ?thesis using that[of s] by (simp add: bn_cmp_spec_def cs_def same_but_tips_def)
  next
    case False
    then show ?thesis using that new_longest_ok[OF i0 ssl, of blk bb] blk
      by (auto simp: bn_cmp_spec_def cs_def split: if_splits)
  qed
  have i1: "chains_inv {} {blk} s1" using chains_inv_same[OF i0 s1(2)] .
  have h1: "st_heap s1 = ?h" using s1(2) by (simp add: same_but_tips_def)
  have b1: "st_heap s1 blk = Some bb" using h1 blk by simp
  have ok: "block_ok bb" using chains_inv_tips(2)[OF i1] b1 by (simp add: blocks_total_def)
  have empties: "ofold (\<lambda>i _. do { n \<leftarrow> c_nth (b_shard_nums bb) i;
      if n = 0 then update_block_ptrs_new_shard_or_empty ssl s1 blk else Some () })
      [0..<unat (num_shards (b_hdr bb))] () = Some ()"
    using ok b1 leaf
    by (intro ofold_unit) (auto simp: update_block_ptrs_new_shard_or_empty_def block_ok_def)
  obtain known where known: "block_all_known bb = Some known" using block_all_known_total[OF ok] by blast
  obtain s2 where s2: "(if known then map_option snd (update_known ssl s1 blk) else Some s1) = Some s2"
    "chains_inv {} {} s2"
  proof (cases known)
    case True
    then show ?thesis using that update_known_inv[OF i1 ssl b1] by auto
  next
    case False
    then have "\<not> complete (st_heap s1) blk" using known b1 by (simp add: complete_def)
    then have "chains_inv {} {} s1" using i1 by (auto simp: chains_inv_def)
    then show ?thesis using that[of s1] False by simp
  qed
  obtain c3 s3 where s3: "update_preferred_chain ssl s2 = Some (c3, s3)" "same_but_tips s2 s3" "preferred_ok s3"
    using update_preferred_chain_ok[OF s2(2) ssl] by blast
  have "update_block_ptrs_new_block ssl s blk = Some s3"
    using c0(1) cmp s1(1) b1 empties known s2(1) s3(1)
    by (simp add: update_block_ptrs_new_block_def)
  then show ?thesis using chains_inv_same[OF s2(2) s3(2)] s3(3) by blast
qed

text \<open>
  C7. \<open>update_block_ptrs_new_block\<close>, called for a block just linked into the tree, returns and
  restores the invariant: \<open>longest_chains\<close> are the blocks without a complaint with the most
  work, \<open>longest_knowns\<close> those with the most work among the known ones, and \<open>preferred_chain\<close> is a
  heaviest descendent of \<open>longest_knowns[0]\<close>.
\<close>

theorem new_block_updates_chains:
  assumes inv: "chains_inv {blk} {blk} s" and ssl: "bn_ok ssl" and blk: "st_heap s blk = Some bb"
    and leaf: "b_children bb = []" and live: "b_complaint bb = None"
  shows "\<exists>s'. update_block_ptrs_new_block ssl s blk = Some s' \<and> chains_inv {} {} s' \<and> preferred_ok s'"
  using assms by (rule new_block_inv)

subsection \<open>The daemon's own check\<close>

lemma ancestor_work:
  assumes "tree_ok h" "ancestor h a b"
  shows "a = b \<or> work h a < work h b"
  using assms(2)
proof induction
  case (ancestor_step b bb p a)
  obtain pb where "h p = Some pb"
    using ancestor_right[OF ancestor_step.hyps(3)] by blast
  then have "work h p < work h b"
    using assms(1) ancestor_step unfolding tree_ok_def work_def by auto
  then show ?case using ancestor_step.IH by auto
qed simp

lemma preferred_walk_ok:
  assumes inv: "chains_inv X Y s" and g: "st_heap s g = Some gb" "b_prev gb = None"
    and k: "k \<in> set (st_longest_knowns s)" and "ancestor (st_heap s) k b" "live (st_heap s) b"
  shows "preferred_walk (st_heap s) g k b = Some ()"
  using assms(5,6)
proof (induction a \<equiv> k b rule: ancestor.induct)
  case (ancestor_refl bb)
  then show ?case by (subst preferred_walk.simps) simp
next
  case (ancestor_step b bb p)
  let ?h = "st_heap s"
  have tree: "tree_ok ?h" and hk: "heap_ok ?h" using inv by (auto simp: chains_inv_def tree_ok_def)
  obtain pb where pb: "?h p = Some pb" using heap_prev[OF hk ancestor_step.hyps(1,2)] by blast
  have "live ?h p" using parent_live[OF tree ancestor_step.prems ancestor_step.hyps(1,2) pb] .
  then have IH: "preferred_walk ?h g k p = Some ()" using ancestor_step.hyps by blast
  have "b \<noteq> g" using g ancestor_step.hyps(1,2) by auto
  moreover have "\<not> b_all_known bb" if "b \<noteq> k"
  proof
    assume "b_all_known bb"
    then have "all_known ?h b" using ancestor_step.hyps(1) by (simp add: all_known_def)
    then have "work ?h b \<le> work ?h k"
      using inv k ancestor_step.prems by (auto simp: chains_inv_def tips_def best_def)
    moreover have "ancestor ?h k b"
      using ancestor.ancestor_step[OF ancestor_step.hyps(1,2,3)] .
    ultimately show False using ancestor_work[OF tree] that by fastforce
  qed
  ultimately show ?case using IH ancestor_step.hyps(1,2)
    by (subst preferred_walk.simps) auto
qed

lemma assert_same_work_ok:
  assumes "bn_ok ssl" "tips h S arr"
  shows "assert_same_work ssl h arr = Some ()"
proof -
  have "cmp_work ssl h (arr ! n) (arr ! 0) = Some 0" if "n < length arr" for n
  proof -
    have mem: "arr ! n \<in> best h S" "arr ! 0 \<in> best h S"
      using assms(2) that tips_hd[OF assms(2)] nth_mem[OF that] by (auto simp: tips_def)
    then have "h (arr ! n) \<noteq> None" "h (arr ! 0) \<noteq> None"
      using assms(2) unfolding tips_def best_def by blast+
    then obtain a b where "h (arr ! n) = Some a" "h (arr ! 0) = Some b" by blast
    then show ?thesis using bests_same[OF mem] bn_okD(14)[OF assms(1)]
      by (simp add: cmp_work_def work_def bn_cmp_spec_def)
  qed
  then show ?thesis
    using assms(2) unfolding assert_same_work_def by (intro ofold_unit) (auto simp: tips_def)
qed

lemma assert_no_complaint_ok: "\<forall>b \<in> set arr. live h b \<Longrightarrow> assert_no_complaint h arr = Some ()"
  unfolding assert_no_complaint_def
  by (intro ofold_unit) (auto simp: live_def split: option.splits)

text \<open>
  The invariant implies the assertions of \<open>check_chains\<close> but the one on connected pairs, which
  is assumed: in such a state the check passes.
\<close>

theorem check_chains_passes:
  assumes inv: "chains_inv {} {} s" and pref: "preferred_ok s" and ssl: "bn_ok ssl"
    and g: "genesis_block s = Some g" "st_heap s g = Some gb" "b_prev gb = None"
    and pair: "st_preferred_chain s = st_longest_chains s ! 0 \<or> find_connected_pair s = Some None"
  shows "check_chains_quick ssl s = Some ()"
proof -
  let ?h = "st_heap s" and ?k = "st_longest_knowns s ! 0"
  have k: "0 < length (st_longest_knowns s)" "0 < length (st_longest_chains s)"
    using chains_inv_tips(3,4)[OF inv] by auto
  have "visits ?h (live ?h) (live ?h) ?k (st_preferred_chain s)"
    using pref by (auto simp: preferred_ok_def best_def live_below_def)
  then have anc: "ancestor ?h ?k (st_preferred_chain s)" and lv: "live ?h (st_preferred_chain s)"
    using visits_ancestor[OF chains_inv_tips(1)[OF inv]] live_in_heap by blast+
  have "preferred_walk ?h g ?k (st_preferred_chain s) = Some ()"
    using preferred_walk_ok[OF inv g(2,3) _ anc lv] k by simp
  moreover have "assert_same_work ssl ?h (st_longest_chains s) = Some ()"
    "assert_same_work ssl ?h (st_longest_knowns s) = Some ()"
    using inv assert_same_work_ok[OF ssl] by (auto simp: chains_inv_def)
  moreover have "assert_no_complaint ?h (st_longest_chains s) = Some ()"
    "assert_no_complaint ?h (st_longest_knowns s) = Some ()"
    using chains_inv_tips(5,6)[OF inv] by (auto intro: assert_no_complaint_ok)
  moreover obtain p where "?h (st_preferred_chain s) = Some p" "b_complaint p = None"
    using lv by (auto simp: live_def split: option.splits)
  ultimately show ?thesis
    using k g(1) pair by (auto simp: check_chains_quick_def)
qed

subsection \<open>A tie the assertions do not expect\<close>

text \<open>
  A genesis block 0 with two children: 1, which came first, and 2. Block 3 on top of 2 is the
  longest chain and preferred. Then block 4 on top of 1 arrives, with the same work as 3. Nothing
  but the genesis block is known yet.
\<close>

definition ex_node :: "bptr option \<Rightarrow> nat \<Rightarrow> bptr list \<Rightarrow> nat \<Rightarrow> block" where
  "ex_node prev depth kids i =
     (ex_block 0 0)\<lparr>b_children := kids, b_all_known := (prev = None), b_total_work := depth, b_prev := prev,
       b_parts := (ex_chain_parts depth)
         \<lparr>bp_hdr := (bp_hdr (ex_chain_parts depth))\<lparr>bh_prev_block := nat_le 32 (case prev of None \<Rightarrow> 0 | Some p \<Rightarrow> p)\<rparr>,
          bp_shard_nums := [if prev = None then 0 else 1]\<rparr>,
       b_sha := nat_le 32 i,
       b_shard := [new_block_shard 0 (if prev = None then 0 else 1)]\<rparr>"

definition ex_fork_heap :: "bool \<Rightarrow> heap" where
  "ex_fork_heap linked = (\<lambda>i.
     if i = 0 then Some (ex_node None 0 [1, 2] 0)
     else if i = 1 then Some (ex_node (Some 0) 1 (if linked then [4] else []) 1)
     else if i = 2 then Some (ex_node (Some 0) 1 [3] 2)
     else if i = 3 then Some (ex_node (Some 2) 2 [] 3)
     else if i = 4 \<and> linked then Some (ex_node (Some 1) 2 [] 4)
     else None)"

definition ex_fork :: "bool \<Rightarrow> state" where
  "ex_fork linked = (ex_state 0)\<lparr>st_heap := ex_fork_heap linked,
     st_block_depth := [[0], [1, 2], if linked then [3, 4] else [3]],
     st_longest_chains := [3], st_longest_knowns := [0], st_preferred_chain := 3\<rparr>"

lemma ex_node_simps [simp]:
  "b_children (ex_node prev d kids i) = kids" "b_prev (ex_node prev d kids i) = prev"
  "b_total_work (ex_node prev d kids i) = d" "b_complaint (ex_node prev d kids i) = None"
  "b_sha (ex_node prev d kids i) = nat_le 32 i" "b_all_known (ex_node prev d kids i) = (prev = None)"
  "b_pending_features (ex_node prev d kids i) = 0"
  "bh_prev_block (b_hdr (ex_node prev d kids i)) = nat_le 32 (case prev of None \<Rightarrow> 0 | Some p \<Rightarrow> p)"
  by (simp_all add: ex_node_def ex_block_def)

lemma ex_node_depth [simp]: "d < 2 ^ 32 \<Longrightarrow> b_depth (ex_node prev d kids i) = d"
  by (simp add: ex_node_def ex_chain_parts_def unsigned_of_nat take_bit_nat_eq_self)

lemma ex_node_ok: "block_ok (ex_node prev d kids i)"
  by (simp add: ex_node_def ex_chain_parts_def block_ok_def num_shards_def shard_ok_new)
    (simp add: new_block_shard_def)

lemma ex_node_known: "block_all_known (ex_node prev d kids i) = Some (prev = None)"
  by (simp add: ex_node_def ex_chain_parts_def block_all_known_def num_shards_def shard_all_known_def
      new_block_shard_def numeral_2_eq_2)

lemma ex_fork_heap_cases:
  "ex_fork_heap linked p = Some b \<longleftrightarrow>
     p = 0 \<and> b = ex_node None 0 [1, 2] 0 \<or> p = 1 \<and> b = ex_node (Some 0) 1 (if linked then [4] else []) 1 \<or>
     p = 2 \<and> b = ex_node (Some 0) 1 [3] 2 \<or> p = 3 \<and> b = ex_node (Some 2) 2 [] 3 \<or>
     linked \<and> p = 4 \<and> b = ex_node (Some 1) 2 [] 4"
  by (auto simp: ex_fork_heap_def)

lemma ex_fork_at [simp]:
  "ex_fork_heap linked 0 = Some (ex_node None 0 [1, 2] 0)"
  "ex_fork_heap linked 1 = Some (ex_node (Some 0) 1 (if linked then [4] else []) 1)"
  "ex_fork_heap linked (Suc 0) = Some (ex_node (Some 0) 1 (if linked then [4] else []) 1)"
  "ex_fork_heap linked 2 = Some (ex_node (Some 0) 1 [3] 2)"
  "ex_fork_heap linked 3 = Some (ex_node (Some 2) 2 [] 3)"
  "ex_fork_heap True 4 = Some (ex_node (Some 1) 2 [] 4)"
  by (simp_all add: ex_fork_heap_def)

lemma ex_fork_tree: "tree_ok (ex_fork_heap linked)"
proof -
  have "node_ok (ex_fork_heap linked) p b" if "ex_fork_heap linked p = Some b" for p b
    using that by (cases linked) (auto simp: ex_fork_heap_cases node_ok_def)
  then have "heap_ok (ex_fork_heap linked)" unfolding heap_ok_def by (auto simp: ex_fork_heap_cases)
  then show ?thesis
    by (auto simp: tree_ok_def blocks_total_def ex_fork_heap_cases ex_node_ok)
qed

lemma ex_fork_views:
  "live (ex_fork_heap linked) p \<longleftrightarrow> p \<in> {0, 1, 2, 3} \<or> linked \<and> p = 4"
  "all_known (ex_fork_heap linked) p \<longleftrightarrow> p = 0"
  "complete (ex_fork_heap linked) p \<longleftrightarrow> p = 0"
  "work (ex_fork_heap linked) p =
     (if p = 1 \<or> p = 2 then 1 else if p = 3 \<or> linked \<and> p = 4 then 2 else 0)"
  by (auto simp: live_def all_known_def complete_def work_def ex_fork_heap_def ex_node_known)

lemma ex_fork_tips:
  "tips (ex_fork_heap linked) ({b. live (ex_fork_heap linked) b} - {4}) [3]"
  "tips (ex_fork_heap linked) {b. live (ex_fork_heap linked) b \<and> all_known (ex_fork_heap linked) b} [0]"
proof -
  have "{b. live (ex_fork_heap linked) b} - {4} = {0, 1, 2, 3}" by (auto simp: ex_fork_views(1))
  moreover have "best (ex_fork_heap linked) {0, 1, 2, 3} = {3}" by (auto simp: best_def ex_fork_views(4))
  ultimately have "best (ex_fork_heap linked) ({b. live (ex_fork_heap linked) b} - {4}) = {3}" by simp
  then show "tips (ex_fork_heap linked) ({b. live (ex_fork_heap linked) b} - {4}) [3]"
    by (simp add: tips_def live_Some)
  have "{b. live (ex_fork_heap linked) b \<and> all_known (ex_fork_heap linked) b} = {0}"
    by (auto simp: ex_fork_views(1,2))
  then have "best (ex_fork_heap linked) {b. live (ex_fork_heap linked) b \<and> all_known (ex_fork_heap linked) b} = {0}"
    by (auto simp: best_def)
  then show "tips (ex_fork_heap linked) {b. live (ex_fork_heap linked) b \<and> all_known (ex_fork_heap linked) b} [0]"
    by (simp add: tips_def live_Some)
qed

lemma ex_fork_inv: "chains_inv {4} {4} (ex_fork True)"
  using ex_fork_tree[of True] ex_fork_tips[of True] ex_fork_views(2,3)[of True]
  by (simp add: chains_inv_def ex_fork_def)

lemma add_best_model:
  "h b = Some bb \<Longrightarrow> h b0 = Some b0b \<Longrightarrow> add_best model_openssl h b (b0 # bs) =
     Some (if b_total_work bb > b_total_work b0b then [b]
           else if b_total_work bb = b_total_work b0b then b0 # bs @ [b] else b0 # bs)"
  by (simp add: add_best_def cmp_work_def model_openssl_def bn_cmp_spec_def)

lemma ofold_Nil_fun [simp]: "ofold f [] = Some"
  by (simp add: fun_eq_iff)

lemma ofold_single_fun [simp]: "ofold f [x] = f x"
  by (simp add: fun_eq_iff)

lemma ex_fork_longest: "find_longest_descendents model_openssl (ex_fork_heap True) 0 [0] = Some [4, 3]"
proof -
  let ?f = "find_longest_descendents model_openssl (ex_fork_heap True)"
  have 4: "?f 4 bs = add_best model_openssl (ex_fork_heap True) 4 bs"
    "?f 3 bs = add_best model_openssl (ex_fork_heap True) 3 bs" for bs
    by (subst find_longest_descendents.simps, simp)+
  have 1: "?f 1 bs = add_best model_openssl (ex_fork_heap True) 1 bs \<bind> ?f 4"
    "?f 2 bs = add_best model_openssl (ex_fork_heap True) 2 bs \<bind> ?f 3" for bs
    by (subst find_longest_descendents.simps, simp)+
  show ?thesis
    by (subst find_longest_descendents.simps) (simp add: add_best_model 1[simplified] 4)
qed

lemma ex_fork_preceeds:
  "block_preceeds (ex_fork_heap True) 0 p = Some True" if "p \<in> {3, 4}" for p
proof -
  have "ancestor (ex_fork_heap True) 0 0" by (rule ancestor_refl) simp
  then have "ancestor (ex_fork_heap True) 0 1" "ancestor (ex_fork_heap True) 0 2"
    using ancestor_step[of "ex_fork_heap True" 1 _ 0 0] ancestor_step[of "ex_fork_heap True" 2 _ 0 0] by auto
  then have "ancestor (ex_fork_heap True) 0 p"
    using that ancestor_step[of "ex_fork_heap True" 3 _ 2 0] ancestor_step[of "ex_fork_heap True" 4 _ 1 0] by auto
  then show ?thesis
    using block_preceeds_eq[of "ex_fork_heap True" 0 _ p] that ex_fork_tree[of True] by (auto simp: tree_ok_def)
qed

lemma ex_fork_sel [simp]:
  "st_heap (ex_fork linked) = ex_fork_heap linked" "st_longest_chains (ex_fork linked) = [3]"
  "st_longest_knowns (ex_fork linked) = [0]" "st_preferred_chain (ex_fork linked) = 3"
  "st_block_depth (ex_fork linked) = [[0], [1, 2], if linked then [3, 4] else [3]]"
  "st_upcoming_features (ex_fork linked) = 0"
  by (simp_all add: ex_fork_def ex_state_def)

lemma ex_fork_check_before: "check_chains_quick model_openssl (ex_fork False) = Some ()"
proof -
  have walk: "preferred_walk (ex_fork_heap False) 0 0 0 = Some ()"
    by (subst preferred_walk.simps) simp
  have walk2: "preferred_walk (ex_fork_heap False) 0 0 2 = Some ()"
    by (subst preferred_walk.simps) (simp add: walk)
  have "preferred_walk (ex_fork_heap False) 0 0 3 = Some ()"
    by (subst preferred_walk.simps) (simp add: walk2)
  then show ?thesis
    by (simp add: check_chains_quick_def assert_same_work_def assert_no_complaint_def genesis_block_def)
qed

lemma ex_fork_update:
  "update_block_ptrs_new_block model_openssl (ex_fork True) 4 =
     Some ((ex_fork True)\<lparr>st_longest_chains := [3, 4], st_preferred_chain := 4\<rparr>)"
proof -
  let ?s1 = "(ex_fork True)\<lparr>st_longest_chains := [3, 4]\<rparr>"
  let ?s' = "?s1\<lparr>st_preferred_chain := 4\<rparr>"
  have order: "order_block_pointers ?s1 = Some (False, ?s1)"
    by (simp add: order_block_pointers_def find_connected_pair_def ex_fork_preceeds)
  have long: "new_longest model_openssl ?s1 4 = Some ?s'"
    by (simp add: new_longest_def order update_preferred_chain_def ex_fork_longest)
  have cmp: "cmp_work model_openssl (ex_fork_heap True) 4 3 = Some 0"
    by (simp add: cmp_work_def model_openssl_def bn_cmp_spec_def)
  have nums: "b_shard_nums (ex_node (Some p) d ks i) = [1]" "num_shards (b_hdr (ex_node (Some p) d ks i)) = 1"
    for p d ks i
    by (simp_all add: ex_node_def ex_chain_parts_def num_shards_def)
  show ?thesis
    unfolding update_block_ptrs_new_block_def
    by (simp add: cmp long nums ex_node_known update_preferred_chain_def ex_fork_longest)
qed

text \<open>
  The pointers do not pass the daemon's own check after a tie. In the situation above the
  invariant of the pointers holds and the check passes before block 4 is linked. Then
  \<open>update_block_ptrs_new_block\<close> puts 4 behind 3 in \<open>longest_chains\<close> but prefers 4, which the
  recursion meets first: an assertion of \<open>check_chains\<close> fails, and with it \<open>block_add\<close>.
\<close>

theorem tie_fails_check_chains:
  "chains_inv {4} {4} (ex_fork True) \<and> check_chains_quick model_openssl (ex_fork False) = Some () \<and>
   (\<exists>s'. update_block_ptrs_new_block model_openssl (ex_fork True) 4 = Some s' \<and>
      chains_inv {} {} s' \<and> preferred_ok s' \<and> check_chains_quick model_openssl s' = None)"
proof (intro conjI)
  let ?s' = "(ex_fork True)\<lparr>st_longest_chains := [3, 4], st_preferred_chain := 4\<rparr>"
  have walk: "preferred_walk (ex_fork_heap True) 0 0 0 = Some ()"
    by (subst preferred_walk.simps) simp
  have walk1: "preferred_walk (ex_fork_heap True) 0 0 1 = Some ()"
    by (subst preferred_walk.simps) (simp add: walk)
  have walk4: "preferred_walk (ex_fork_heap True) 0 0 4 = Some ()"
    by (subst preferred_walk.simps) (simp add: walk1[simplified])
  have "check_chains_quick model_openssl ?s' = None"
    by (simp add: check_chains_quick_def assert_same_work_def genesis_block_def cmp_work_def walk4
        find_connected_pair_def ex_fork_preceeds Option.bind_eq_None_conv)
  moreover have "chains_inv {} {} ?s' \<and> preferred_ok ?s'"
    using new_block_inv[OF ex_fork_inv bn_ok_model, of "ex_node (Some 1) 2 [] 4"] ex_fork_update by simp
  ultimately show "\<exists>s'. update_block_ptrs_new_block model_openssl (ex_fork True) 4 = Some s' \<and>
      chains_inv {} {} s' \<and> preferred_ok s' \<and> check_chains_quick model_openssl s' = None"
    using ex_fork_update by blast
qed (rule ex_fork_inv ex_fork_check_before)+

theorem find_longest_descendents_witness:
  "\<exists>arr'. find_longest_descendents model_openssl (ex_fork_heap True) 0 [0] = Some arr' \<and> arr' \<noteq> [] \<and>
    set arr' = best (ex_fork_heap True) ({0} \<union> live_below (ex_fork_heap True) 0)"
  by (rule find_longest_descendents_correct[of "ex_fork_heap True"])
    (use ex_fork_tree[of True] bn_ok_model in \<open>auto simp: tree_ok_def best_def\<close>)

theorem new_block_updates_chains_witness:
  "\<exists>s'. update_block_ptrs_new_block model_openssl (ex_fork True) 4 = Some s' \<and> chains_inv {} {} s' \<and> preferred_ok s'"
  by (rule new_block_updates_chains[OF ex_fork_inv bn_ok_model, of "ex_node (Some 1) 2 [] 4"]) simp_all

lemma ex_chain_known: "chains_inv {} {0} (ex_state 0)" "preferred_ok (ex_state 0)"
proof -
  have at: "ex_heap 0 p = Some b \<longleftrightarrow> p = 0 \<and> b = ex_block 0 0" for p b by (auto simp: ex_heap_def)
  have "block_ok (ex_block 0 0)"
    by (simp add: ex_block_def ex_chain_parts_def block_ok_def num_shards_def shard_ok_new)
      (simp add: new_block_shard_def)
  then have tree: "tree_ok (ex_heap 0)"
    using ex_heap_ok[of 0] by (auto simp: tree_ok_def blocks_total_def at ex_block_def)
  have views: "live (ex_heap 0) p \<longleftrightarrow> p = 0" "all_known (ex_heap 0) p \<longleftrightarrow> p = 0" for p
    by (auto simp: live_def all_known_def ex_heap_def ex_block_def)
  show "chains_inv {} {0} (ex_state 0)"
    using tree by (auto simp: chains_inv_def ex_state_def tips_def best_def views) (auto simp: ex_heap_def)
  have "live_below (ex_heap 0) 0 = {0}"
    using visits_ancestor[of "ex_heap 0" "live (ex_heap 0)" "live (ex_heap 0)" 0] live_in_heap tree
    by (auto simp: live_below_def views tree_ok_def intro: visits_here)
  then show "preferred_ok (ex_state 0)" by (simp add: preferred_ok_def ex_state_def best_def)
qed

lemma ex_chain_all_known: "chains_inv {} {} (ex_state 0)"
  using ex_chain_known(1)
  by (auto simp: chains_inv_def ex_state_def all_known_def ex_heap_def ex_block_def split: if_splits)

theorem check_chains_passes_witness: "check_chains_quick model_openssl (ex_state 0) = Some ()"
  by (rule check_chains_passes[OF ex_chain_all_known ex_chain_known(2) bn_ok_model, of 0 "ex_block 0 0"])
    (simp_all add: ex_state_def ex_heap_def ex_block_def genesis_block_def)


end
