(* ===== verification/Packets.thy ===== *)
theory Packets
  imports Todo Marshal
begin

section \<open>Packets to peers\<close>

text \<open>
  \<^verbatim>\<open>tal_packet.c\<close> (packets as byte strings whose first field is their length),
  \<^verbatim>\<open>peer_wants.c\<close> (which peers care about a transaction), and the functions of \<^verbatim>\<open>peer.c\<close> that
  queue unsolicited packets.

  A packet is the list of its bytes. \<open>tal_packet\<close> takes the fields of the structure after the
  header. A peer to be left out is an index into \<open>st_peers\<close>, \<open>None\<close> for NULL.
\<close>

definition PROTOCOL_MAX_PACKET_LEN :: nat where
  "PROTOCOL_MAX_PACKET_LEN = 4 * 1024 * 1024"

definition PROTOCOL_PKT_ERR :: u32 where "PROTOCOL_PKT_ERR = 1"
definition PROTOCOL_PKT_TX :: u32 where "PROTOCOL_PKT_TX = 12"
definition PROTOCOL_PKT_TX_IN_BLOCK :: u32 where "PROTOCOL_PKT_TX_IN_BLOCK = 15"
definition PROTOCOL_PKT_GET_PEERS :: u32 where "PROTOCOL_PKT_GET_PEERS = 19"

definition all_ecodes :: "protocol_ecode list" where
  \<comment> \<open>in the order of the enumeration\<close>
  "all_ecodes =
    [PROTOCOL_ECODE_NONE, PROTOCOL_ECODE_UNKNOWN_COMMAND, PROTOCOL_ECODE_INVALID_LEN,
     PROTOCOL_ECODE_SHOULD_BE_WAITING, PROTOCOL_ECODE_UNKNOWN_ERRCODE, PROTOCOL_ECODE_HIGH_VERSION,
     PROTOCOL_ECODE_LOW_VERSION, PROTOCOL_ECODE_NO_INTEREST, PROTOCOL_ECODE_WRONG_GENESIS,
     PROTOCOL_ECODE_BAD_SHARD_ORDER, PROTOCOL_ECODE_NO_MUTUAL, PROTOCOL_ECODE_FILTER_INVALID,
     PROTOCOL_ECODE_UNKNOWN_BLOCK, PROTOCOL_ECODE_UNKNOWN_SHARD, PROTOCOL_ECODE_UNKNOWN_TX,
     PROTOCOL_ECODE_BAD_TXOFF, PROTOCOL_ECODE_BAD_SHARDNUM, PROTOCOL_ECODE_BLOCK_HIGH_VERSION,
     PROTOCOL_ECODE_BLOCK_LOW_VERSION, PROTOCOL_ECODE_BAD_TIMESTAMP, PROTOCOL_ECODE_BAD_PREV_TXHASHES,
     PROTOCOL_ECODE_BAD_DIFFICULTY, PROTOCOL_ECODE_INSUFFICIENT_WORK, PROTOCOL_ECODE_BAD_DEPTH,
     PROTOCOL_ECODE_TX_HIGH_VERSION, PROTOCOL_ECODE_TX_LOW_VERSION, PROTOCOL_ECODE_TX_TYPE_UNKNOWN,
     PROTOCOL_ECODE_TX_BAD_GATEWAY, PROTOCOL_ECODE_TX_CROSS_SHARDS, PROTOCOL_ECODE_TX_TOO_LARGE,
     PROTOCOL_ECODE_TX_TOO_SMALL, PROTOCOL_ECODE_TX_BAD_SIG, PROTOCOL_ECODE_TX_TOO_MANY_INPUTS,
     PROTOCOL_ECODE_BAD_PROOF, PROTOCOL_ECODE_REF_BAD_BLOCKS_AGO, PROTOCOL_ECODE_REF_BAD_SHARD,
     PROTOCOL_ECODE_REF_BAD_TXOFF, PROTOCOL_ECODE_BAD_MERKLE, PROTOCOL_ECODE_COMPLAINT_INVALID,
     PROTOCOL_ECODE_BAD_INPUTNUM, PROTOCOL_ECODE_BAD_INPUT, PROTOCOL_ECODE_BAD_MISORDER_POS,
     PROTOCOL_ECODE_BAD_DOUBLESPEND_BLOCKS, PROTOCOL_ECODE_MAX, PROTOCOL_ECODE_PRIV_UNKNOWN_PREV]"

fun index_of :: "'a \<Rightarrow> 'a list \<Rightarrow> nat" where
  "index_of x [] = 0"
| "index_of x (y # ys) = (if x = y then 0 else Suc (index_of x ys))"

definition ecode_code :: "protocol_ecode \<Rightarrow> u32" where
  "ecode_code e = word_of_nat (index_of e all_ecodes)"

subsection \<open>tal_packet.c\<close>

definition tal_packet :: "u32 \<Rightarrow> bytes \<Rightarrow> bytes option" where
  "tal_packet type body =
     (let len = 8 + length body
      in do { c_assert (len < PROTOCOL_MAX_PACKET_LEN);
              Some (cpu_to_le32 (word_of_nat len) @ cpu_to_le32 type @ body) })"

definition tal_packet_dup :: "bytes \<Rightarrow> bytes option" where
  "tal_packet_dup pkt =
     do { len \<leftarrow> rd32 pkt 0;
          c_assert (len \<ge> 8);
          c_slice pkt 0 (unat len) }"

definition tal_packet_append :: "bytes \<Rightarrow> bytes \<Rightarrow> bytes option" where
  \<comment> \<open>\<^verbatim>\<open>orig_len + len\<close> has 64 bits; the header keeps its lower 32\<close>
  "tal_packet_append pkt mem =
     do { orig_len \<leftarrow> rd32 pkt 0;
          old \<leftarrow> c_slice pkt 0 (unat orig_len);
          Some (cpu_to_le32 (word_of_nat (unat orig_len + length mem)) @ drop 4 old @ mem) }"

definition tal_packet_append_tx :: "bytes \<Rightarrow> protocol_tx \<Rightarrow> bytes option" where
  "tal_packet_append_tx pkt tx =
     do { len \<leftarrow> marshal_tx_len tx;
          mem \<leftarrow> c_slice (enc_tx tx) 0 (unat len);
          tal_packet_append pkt mem }"

definition tal_packet_append_block :: "bytes \<Rightarrow> block_parts \<Rightarrow> bytes option" where
  "tal_packet_append_block pkt parts =
     do { mem \<leftarrow> marshal_block_into parts; tal_packet_append pkt mem }"

definition tal_packet_append_sha :: "bytes \<Rightarrow> sha \<Rightarrow> bytes option" where
  "tal_packet_append_sha pkt sha = tal_packet_append pkt sha"

definition tal_packet_append_txrefhash :: "bytes \<Rightarrow> protocol_txrefhash \<Rightarrow> bytes option" where
  "tal_packet_append_txrefhash pkt hashes = tal_packet_append pkt (trh_txhash hashes @ trh_refhash hashes)"

definition enc_position :: "protocol_position \<Rightarrow> bytes" where
  "enc_position p = pos_block p @ cpu_to_le16 (pos_shard p) @ [pos_txoff p, pos_unused p]"

definition enc_proof :: "protocol_proof \<Rightarrow> bytes" where
  "enc_proof p = enc_position (pr_pos p) @ concat (pr_merkles p)"

definition tal_packet_append_pos :: "bytes \<Rightarrow> sha \<Rightarrow> u16 \<Rightarrow> u8 \<Rightarrow> bytes option" where
  "tal_packet_append_pos pkt blk shardnum txoff =
     tal_packet_append pkt
       (enc_position \<lparr>pos_block = blk, pos_shard = shardnum, pos_txoff = txoff, pos_unused = 0\<rparr>)"

definition tal_packet_append_proven_tx ::
    "bytes \<Rightarrow> protocol_proof \<Rightarrow> protocol_tx \<Rightarrow> protocol_input_ref list \<Rightarrow> bytes option" where
  "tal_packet_append_proven_tx pkt prf tx refs =
     do { p1 \<leftarrow> tal_packet_append pkt (enc_proof prf);
          p2 \<leftarrow> tal_packet_append_tx p1 tx;
          mem \<leftarrow> c_slice (concat (map enc_ref refs)) 0 (unat (marshal_input_ref_len tx));
          tal_packet_append p2 mem }"

subsection \<open>peer\_wants.c\<close>

definition peer_wants_shard :: "peer \<Rightarrow> u16 \<Rightarrow> bool option" where
  "peer_wants_shard p shard =
     do { (_, interests) \<leftarrow> p_welcome p;
          i \<leftarrow> c_nth interests (unat shard div 8);
          Some (bit i (unat shard mod 8)) }"

definition peer_wants_tx :: "openssl \<Rightarrow> peer \<Rightarrow> protocol_tx \<Rightarrow> bool option" where
  "peer_wants_tx ssl p tx =
     do { (order, _) \<leftarrow> p_welcome p;
          shard \<leftarrow> shard_of_tx ssl tx order;
          peer_wants_shard p (ucast shard) }"

definition peer_wants_tx_other :: "peer \<Rightarrow> protocol_tx \<Rightarrow> bool option" where
  "peer_wants_tx_other p tx =
     (case tx of
        Normal t \<Rightarrow> do { (order, _) \<leftarrow> p_welcome p;
                         shard \<leftarrow> shard_of (n_output_addr t) order;
                         peer_wants_shard p shard }
      | _ \<Rightarrow> Some False)"

subsection \<open>peer.c: unsolicited packets\<close>

definition send_to_interested_peers ::
    "openssl \<Rightarrow> state \<Rightarrow> nat option \<Rightarrow> protocol_tx \<Rightarrow> bool \<Rightarrow> bytes \<Rightarrow> state option" where
  "send_to_interested_peers ssl s exclude tx only_other pkt =
     ofold (\<lambda>k s. do {
         p \<leftarrow> c_nth (st_peers s) k;
         if Some k = exclude then Some s
         else if p_they_are_syncing p then Some s
         else do {
           skip \<leftarrow> (if only_other
                    then do { w \<leftarrow> peer_wants_tx ssl p tx;
                              if w then Some True else map_option Not (peer_wants_tx_other p tx) }
                    else do { w \<leftarrow> peer_wants_tx ssl p tx;
                              if w then Some False else map_option Not (peer_wants_tx_other p tx) });
           if skip then Some s
           else do { copy \<leftarrow> tal_packet_dup pkt; todo_for_peer s k copy } } })
       [0..<length (st_peers s)] s"

definition pkt_tx_in_block :: "openssl \<Rightarrow> block \<Rightarrow> u16 \<Rightarrow> u8 \<Rightarrow> bytes option" where
  "pkt_tx_in_block ssl b shard txoff =
     do { pkt \<leftarrow> tal_packet PROTOCOL_PKT_TX_IN_BLOCK (cpu_to_le32 (ecode_code PROTOCOL_ECODE_NONE));
          prf \<leftarrow> create_proof ssl b shard txoff;
          t \<leftarrow> block_get_tx b shard txoff; tx \<leftarrow> t;
          r \<leftarrow> block_get_refs b shard txoff; refs \<leftarrow> r;
          tal_packet_append_proven_tx pkt prf tx refs }"

definition pkt_tx_in_block_err :: "protocol_ecode \<Rightarrow> sha \<Rightarrow> u16 \<Rightarrow> u8 \<Rightarrow> bytes option" where
  "pkt_tx_in_block_err e blk shard txoff =
     do { pkt \<leftarrow> tal_packet PROTOCOL_PKT_TX_IN_BLOCK (cpu_to_le32 (ecode_code e));
          tal_packet_append_pos pkt blk shard txoff }"

definition pkt_block :: "block \<Rightarrow> bytes option" where
  "pkt_block b = marshal_block (b_parts b)"

definition pkt_get_peers :: "bytes option" where
  "pkt_get_peers = tal_packet PROTOCOL_PKT_GET_PEERS []"

definition send_tx_to_peers :: "openssl \<Rightarrow> state \<Rightarrow> nat option \<Rightarrow> protocol_tx \<Rightarrow> state option" where
  "send_tx_to_peers ssl s exclude tx =
     do { pkt0 \<leftarrow> tal_packet PROTOCOL_PKT_TX (cpu_to_le32 (ecode_code PROTOCOL_ECODE_NONE));
          pkt \<leftarrow> tal_packet_append_tx pkt0 tx;
          send_to_interested_peers ssl s exclude tx False pkt }"

definition send_tx_in_block_to_peers ::
    "openssl \<Rightarrow> state \<Rightarrow> nat option \<Rightarrow> bptr \<Rightarrow> u16 \<Rightarrow> u8 \<Rightarrow> state option" where
  "send_tx_in_block_to_peers ssl s exclude blk shard txoff =
     do { b \<leftarrow> st_heap s blk;
          pkt \<leftarrow> pkt_tx_in_block ssl b shard txoff;
          t \<leftarrow> block_get_tx b shard txoff; tx \<leftarrow> t;
          send_to_interested_peers ssl s exclude tx True pkt }"

definition send_block_to_peers :: "state \<Rightarrow> nat option \<Rightarrow> bptr \<Rightarrow> state option" where
  "send_block_to_peers s exclude blk =
     ofold (\<lambda>k s. do {
         p \<leftarrow> c_nth (st_peers s) k;
         if Some k = exclude then Some s
         else if p_they_are_syncing p then Some s
         else do { b \<leftarrow> st_heap s blk; pkt \<leftarrow> pkt_block b; todo_for_peer s k pkt } })
       [0..<length (st_peers s)] s"

definition broadcast_to_peers :: "state \<Rightarrow> bytes \<Rightarrow> nat option \<Rightarrow> state option" where
  "broadcast_to_peers s pkt exclude =
     ofold (\<lambda>k s. if Some k \<noteq> exclude then do { copy \<leftarrow> tal_packet_dup pkt; todo_for_peer s k copy } else Some s)
       [0..<length (st_peers s)] s"

definition err_pkt :: "protocol_ecode \<Rightarrow> bytes option" where
  "err_pkt e = tal_packet PROTOCOL_PKT_ERR (cpu_to_le32 (ecode_code e))"

fun mutual_block_search :: "state \<Rightarrow> sha list \<Rightarrow> bptr option option" where
  "mutual_block_search s [] = Some None"
| "mutual_block_search s (x # xs) =
     do { b \<leftarrow> block_find_any s x;
          (case b of Some p \<Rightarrow> Some (Some p) | None \<Rightarrow> mutual_block_search s xs) }"

subsection \<open>Packets carry their length\<close>

definition pkt_ok :: "bytes \<Rightarrow> bool" where
  "pkt_ok pkt \<longleftrightarrow> 8 \<le> length pkt \<and> length pkt < 2 ^ 32 \<and> take 4 pkt = nat_le 4 (length pkt)"

lemma nat_le_len [simp]: "length (nat_le n x) = n"
  by (induction n arbitrary: x) auto

lemma le32_word: "n < 2 ^ 32 \<Longrightarrow> cpu_to_le32 (word_of_nat n) = nat_le 4 n"
  by (simp add: cpu_to_le32_def unsigned_of_nat take_bit_nat_eq_self)

lemma rd32_pkt: "pkt_ok pkt \<Longrightarrow> rd32 pkt 0 = Some (word_of_nat (length pkt))"
  by (simp add: rd32_def c_slice_def pkt_ok_def le32_to_cpu_def le_nat_nat_le)

lemma unat_pkt_len: "pkt_ok pkt \<Longrightarrow> unat (word_of_nat (length pkt) :: u32) = length pkt"
  by (simp add: pkt_ok_def unsigned_of_nat take_bit_nat_eq_self)

lemma tal_packet_ok:
  assumes "8 + length body < PROTOCOL_MAX_PACKET_LEN"
  shows "\<exists>pkt. tal_packet type body = Some pkt \<and> pkt_ok pkt \<and> drop 4 pkt = cpu_to_le32 type @ body"
proof -
  have n: "8 + length body < 2 ^ 32" using assms by (simp add: PROTOCOL_MAX_PACKET_LEN_def)
  have "length (cpu_to_le32 type) = 4" by (simp add: cpu_to_le32_def)
  then show ?thesis using assms n le32_word[OF n]
    by (simp add: tal_packet_def Let_def pkt_ok_def)
qed

lemma tal_packet_append_ok:
  assumes "pkt_ok pkt" "length pkt + length mem < 2 ^ 32"
  shows "\<exists>pkt'. tal_packet_append pkt mem = Some pkt' \<and> pkt_ok pkt' \<and> drop 4 pkt' = drop 4 pkt @ mem"
proof -
  have "tal_packet_append pkt mem = Some (nat_le 4 (length pkt + length mem) @ drop 4 pkt @ mem)"
    using assms unat_pkt_len[OF assms(1)] le32_word[OF assms(2)] rd32_pkt[OF assms(1)]
    by (simp add: tal_packet_append_def c_slice_def)
  then show ?thesis using assms by (simp add: pkt_ok_def)
qed

lemma tal_packet_dup_ok: "pkt_ok pkt \<Longrightarrow> tal_packet_dup pkt = Some pkt"
  using rd32_pkt unat_pkt_len by (simp add: tal_packet_dup_def c_slice_def word_le_nat_alt pkt_ok_def)

lemma concat_enc_ref_len: "length (concat (map enc_ref refs)) = 8 * length refs"
  by (induction refs) (auto simp: enc_ref_def cpu_to_le32_def cpu_to_le16_def)

lemma ref_len_unat: "unat (marshal_input_ref_len tx) = 8 * unat (num_inputs tx)"
proof -
  have "unat (num_inputs tx) < 2 ^ 32" using unsigned_less[of "num_inputs tx"] by simp
  then have "unat (num_inputs tx) * 8 < 2 ^ 32 * 8" by (rule mult_strict_right_mono) simp
  also have "(2 ^ 32 * 8 :: nat) \<le> 2 ^ 64" by simp
  finally have "unat (num_inputs tx) * 8 < 2 ^ 64" .
  then show ?thesis by (simp add: marshal_input_ref_len_def unat_word_ariths unsigned_ucast_eq take_bit_nat_eq_self)
qed

lemma proven_tx_appended:
  assumes "pkt_ok pkt" "wf_tx tx" "length refs = unat (num_inputs tx)"
    "length pkt + length (enc_proof prf) + length (enc_tx tx) + 8 * length refs < 2 ^ 32"
  shows "\<exists>pkt'. tal_packet_append_proven_tx pkt prf tx refs = Some pkt' \<and> pkt_ok pkt' \<and>
    drop 4 pkt' = drop 4 pkt @ enc_proof prf @ enc_tx tx @ concat (map enc_ref refs)"
proof -
  obtain len where len: "marshal_tx_len tx = Some len" "unat len = length (enc_tx tx)"
    using marshal_tx_len_eq[of tx] length_enc_tx[OF assms(2)] by auto
  obtain p1 where p1: "tal_packet_append pkt (enc_proof prf) = Some p1" "pkt_ok p1" "drop 4 p1 = drop 4 pkt @ enc_proof prf"
    using tal_packet_append_ok[OF assms(1), of "enc_proof prf"] assms(4) by auto
  have l1: "length p1 = length pkt + length (enc_proof prf)" 
    using arg_cong[OF p1(3), of length] p1(2) assms(1) unfolding pkt_ok_def by (simp, linarith)
  obtain p2 where p2: "tal_packet_append p1 (enc_tx tx) = Some p2" "pkt_ok p2" "drop 4 p2 = drop 4 p1 @ enc_tx tx"
    using tal_packet_append_ok[OF p1(2), of "enc_tx tx"] assms(4) l1 by auto
  have l2: "length p2 = length p1 + length (enc_tx tx)" 
    using arg_cong[OF p2(3), of length] p2(2) p1(2) unfolding pkt_ok_def by (simp, linarith)
  obtain p3 where p3: "tal_packet_append p2 (concat (map enc_ref refs)) = Some p3" "pkt_ok p3"
    "drop 4 p3 = drop 4 p2 @ concat (map enc_ref refs)"
    using tal_packet_append_ok[OF p2(2), of "concat (map enc_ref refs)"] assms(4) l1 l2
    by (auto simp: concat_enc_ref_len)
  have "c_slice (concat (map enc_ref refs)) 0 (unat (marshal_input_ref_len tx)) = Some (concat (map enc_ref refs))"
    using assms(3) by (simp add: c_slice_def concat_enc_ref_len ref_len_unat)
  then show ?thesis using p1 p2 p3 len
    by (simp add: tal_packet_append_proven_tx_def tal_packet_append_tx_def c_slice_def)
qed

text \<open>
  The packet that shows a transaction to a peer is what \<^verbatim>\<open>protocol_net.h\<close> says: the length in
  its first field is the number of its bytes, and after the header come the proof, the
  transaction and one reference per input, byte for byte.
\<close>

theorem proven_tx_packet_layout:
  assumes "pkt_ok pkt" "wf_tx tx" "length refs = unat (num_inputs tx)"
    "length pkt + length (enc_proof prf) + length (enc_tx tx) + 8 * length refs < 2 ^ 32"
  shows "\<exists>pkt'. tal_packet_append_proven_tx pkt prf tx refs = Some pkt' \<and> pkt_ok pkt' \<and>
    drop 4 pkt' = drop 4 pkt @ enc_proof prf @ enc_tx tx @ concat (map enc_ref refs)"
  using assms by (rule proven_tx_appended)

subsection \<open>Who gets a packet\<close>

definition queued :: "(nat \<Rightarrow> bool) \<Rightarrow> bytes \<Rightarrow> nat \<Rightarrow> state \<Rightarrow> state \<Rightarrow> bool" where
  \<comment> \<open>of the first \<open>n\<close> peers those with \<open>sel\<close> have got the packet, and nothing else has changed\<close>
  "queued sel pkt n s s' \<longleftrightarrow>
     (\<exists>ps acts. s' = s\<lparr>st_peers := ps, st_out := acts\<rparr> \<and> length ps = length (st_peers s) \<and>
       (\<forall>k < length ps. ps ! k =
          (if k < n \<and> sel k then (st_peers s ! k)\<lparr>p_todo := p_todo (st_peers s ! k) @ [pkt]\<rparr> else st_peers s ! k)))"

lemma queued_refl: "queued sel pkt 0 s s"
  by (auto simp: queued_def intro!: exI[of _ "st_peers s"] exI[of _ "st_out s"])

lemma queued_step:
  assumes "queued sel pkt n s s1" "n < length (st_peers s)"
  shows "\<exists>s2. (if sel n then todo_for_peer s1 n pkt else Some s1) = Some s2 \<and> queued sel pkt (Suc n) s s2"
proof -
  obtain ps acts where s1: "s1 = s\<lparr>st_peers := ps, st_out := acts\<rparr>" "length ps = length (st_peers s)"
    "\<forall>k < length ps. ps ! k =
       (if k < n \<and> sel k then (st_peers s ! k)\<lparr>p_todo := p_todo (st_peers s ! k) @ [pkt]\<rparr> else st_peers s ! k)"
    using assms(1) by (auto simp: queued_def)
  show ?thesis
  proof (cases "sel n")
    case True
    let ?p = "(st_peers s ! n)\<lparr>p_todo := p_todo (st_peers s ! n) @ [pkt]\<rparr>"
    have "todo_for_peer s1 n pkt =
        Some (s\<lparr>st_peers := ps[n := ?p], st_out := acts @ [Wake_peer (p_num (st_peers s ! n))]\<rparr>)"
      using s1 assms(2) by (simp add: todo_for_peer_def upd_peer_def emit_def)
    moreover have "queued sel pkt (Suc n) s
        (s\<lparr>st_peers := ps[n := ?p], st_out := acts @ [Wake_peer (p_num (st_peers s ! n))]\<rparr>)"
      unfolding queued_def using s1 True assms(2)
      by (intro exI[of _ "ps[n := ?p]"] exI[of _ "acts @ [Wake_peer (p_num (st_peers s ! n))]"])
        (auto simp: nth_list_update less_Suc_eq)
    ultimately show ?thesis using True by simp
  next
    case False
    then have "queued sel pkt (Suc n) s s1" using s1 unfolding queued_def
      by (intro exI[of _ ps] exI[of _ acts]) (auto simp: less_Suc_eq)
    then show ?thesis using False by simp
  qed
qed

lemma queue_loop:
  assumes "\<And>k s'. k < length (st_peers s) \<Longrightarrow> queued sel pkt k s s' \<Longrightarrow>
      step k s' = (if sel k then todo_for_peer s' k pkt else Some s')" "n \<le> length (st_peers s)"
  shows "\<exists>s'. ofold step [0..<n] s = Some s' \<and> queued sel pkt n s s'"
  using assms(2)
proof (induction n)
  case 0
  then show ?case using queued_refl by simp
next
  case (Suc n)
  then obtain s1 where s1: "ofold step [0..<n] s = Some s1" "queued sel pkt n s s1" by auto
  obtain s2 where "step n s1 = Some s2" "queued sel pkt (Suc n) s s2"
    using queued_step[OF s1(2)] assms(1)[OF _ s1(2)] Suc.prems by auto
  then show ?case using s1(1) by simp
qed

lemma broadcast_queued:
  assumes "pkt_ok pkt"
  shows "\<exists>s'. broadcast_to_peers s pkt exclude = Some s' \<and>
    queued (\<lambda>k. Some k \<noteq> exclude) pkt (length (st_peers s)) s s'"
  unfolding broadcast_to_peers_def
  by (rule queue_loop) (auto simp: tal_packet_dup_ok[OF assms])

lemma send_interested_queued:
  assumes "pkt_ok pkt"
    and "\<And>k. k < length (st_peers s) \<Longrightarrow> \<not> p_they_are_syncing (st_peers s ! k) \<Longrightarrow>
      peer_wants_tx ssl (st_peers s ! k) tx = Some (want k) \<and> peer_wants_tx_other (st_peers s ! k) tx = Some (other k)"
  shows "\<exists>s'. send_to_interested_peers ssl s exclude tx only_other pkt = Some s' \<and>
    queued (\<lambda>k. Some k \<noteq> exclude \<and> \<not> p_they_are_syncing (st_peers s ! k) \<and>
        (if only_other then \<not> want k \<and> other k else want k \<or> other k)) pkt (length (st_peers s)) s s'"
  unfolding send_to_interested_peers_def
proof (rule queue_loop)
  fix k s' assume k: "k < length (st_peers s)"
    and q: "queued (\<lambda>k. Some k \<noteq> exclude \<and> \<not> p_they_are_syncing (st_peers s ! k) \<and>
        (if only_other then \<not> want k \<and> other k else want k \<or> other k)) pkt k s s'"
  then have "st_peers s' ! k = st_peers s ! k" "k < length (st_peers s')" by (auto simp: queued_def)
  then show "(do {
         p \<leftarrow> c_nth (st_peers s') k;
         if Some k = exclude then Some s'
         else if p_they_are_syncing p then Some s'
         else do {
           skip \<leftarrow> (if only_other
                    then do { w \<leftarrow> peer_wants_tx ssl p tx;
                              if w then Some True else map_option Not (peer_wants_tx_other p tx) }
                    else do { w \<leftarrow> peer_wants_tx ssl p tx;
                              if w then Some False else map_option Not (peer_wants_tx_other p tx) });
           if skip then Some s'
           else do { copy \<leftarrow> tal_packet_dup pkt; todo_for_peer s' k copy } } }) =
      (if Some k \<noteq> exclude \<and> \<not> p_they_are_syncing (st_peers s ! k) \<and>
          (if only_other then \<not> want k \<and> other k else want k \<or> other k)
       then todo_for_peer s' k pkt else Some s')"
    using assms(2)[OF k] by (auto simp: tal_packet_dup_ok[OF assms(1)])
qed simp

subsection \<open>Example\<close>

definition ex_pkt :: bytes where
  "ex_pkt = nat_le 4 8 @ cpu_to_le32 PROTOCOL_PKT_TX_IN_BLOCK"

definition ex_proof :: protocol_proof where
  "ex_proof = \<lparr>pr_pos = \<lparr>pos_block = replicate 32 1, pos_shard = 0, pos_txoff = 0, pos_unused = 0\<rparr>,
     pr_merkles = replicate 8 (replicate 32 2)\<rparr>"

definition ex_refs :: "protocol_input_ref list" where
  "ex_refs = [\<lparr>ref_blocks_ago = 1, ref_shard = 0, ref_txoff = 0, ref_unused = 0\<rparr>]"

theorem proven_tx_packet_layout_witness:
  "\<exists>pkt'. tal_packet_append_proven_tx ex_pkt ex_proof ex_normal ex_refs = Some pkt' \<and> pkt_ok pkt' \<and>
    drop 4 pkt' = drop 4 ex_pkt @ enc_proof ex_proof @ enc_tx ex_normal @ concat (map enc_ref ex_refs)"
proof (rule proven_tx_packet_layout)
  show "pkt_ok ex_pkt" by (simp add: pkt_ok_def ex_pkt_def cpu_to_le32_def)
  show "wf_tx ex_normal" by (simp add: ex_normal_def wf_input_def wf_signature_def)
  show "length ex_refs = unat (num_inputs ex_normal)" by (simp add: ex_refs_def ex_normal_def)
  show "length ex_pkt + length (enc_proof ex_proof) + length (enc_tx ex_normal) + 8 * length ex_refs < 2 ^ 32"
    using ex_claim_len(2)
    by (simp add: ex_pkt_def ex_proof_def ex_refs_def enc_proof_def enc_position_def cpu_to_le32_def cpu_to_le16_def
        length_concat sum_list_replicate)
qed

end
