(* ===== verification/Complain.thy ===== *)
theory Complain
  imports Chain Packets
begin

section \<open>Complaints\<close>

text \<open>
  \<^verbatim>\<open>complain.c\<close>: what the daemon does when it finds that a block is invalid. The block and all
  its descendents are marked with the complaint (the packet itself), their transactions are put
  back to pending and removed from the hash tables, the chain pointers are recomputed, and every
  peer but the one it came from gets the packet.

  \<open>complain_bad_tx\<close> leaves the field \<open>txlen\<close> of its packet as \<^verbatim>\<open>tal\<close> allocated it; the model takes
  these bytes as the argument \<open>junk\<close>.
\<close>

subsection \<open>complain.c\<close>

definition PROTOCOL_PKT_COMPLAIN_TX_MISORDER :: u32 where "PROTOCOL_PKT_COMPLAIN_TX_MISORDER = 24"
definition PROTOCOL_PKT_COMPLAIN_TX_INVALID :: u32 where "PROTOCOL_PKT_COMPLAIN_TX_INVALID = 25"
definition PROTOCOL_PKT_COMPLAIN_TX_BAD_INPUT :: u32 where "PROTOCOL_PKT_COMPLAIN_TX_BAD_INPUT = 26"
definition PROTOCOL_PKT_COMPLAIN_DOUBLESPEND :: u32 where "PROTOCOL_PKT_COMPLAIN_DOUBLESPEND = 27"
definition PROTOCOL_PKT_COMPLAIN_BAD_INPUT_REF :: u32 where "PROTOCOL_PKT_COMPLAIN_BAD_INPUT_REF = 28"
definition PROTOCOL_PKT_COMPLAIN_TX_BAD_AMOUNT :: u32 where "PROTOCOL_PKT_COMPLAIN_TX_BAD_AMOUNT = 29"
definition PROTOCOL_PKT_COMPLAIN_CLAIM_INPUT_INVALID :: u32 where
  "PROTOCOL_PKT_COMPLAIN_CLAIM_INPUT_INVALID = 30"

definition unhash_block :: "runtime \<Rightarrow> bptr \<Rightarrow> block \<Rightarrow> state \<Rightarrow> state option" where
  \<comment> \<open>the two nested loops of \<open>complaint_on_all\<close>\<close>
  "unhash_block rt block bb s =
     ofold (\<lambda>shard s. do {
         sh \<leftarrow> c_nth (b_shard bb) shard;
         ofold (\<lambda>txoff s. remove_tx_from_hashes rt s block (word_of_nat shard) (word_of_nat txoff))
           [0..<unat (bs_size sh)] s })
       [0..<unat (num_shards (b_hdr bb))] s"

partial_function (option) complaint_on_all :: "runtime \<Rightarrow> bytes \<Rightarrow> bptr \<Rightarrow> state \<Rightarrow> state option" where
  "complaint_on_all rt complaint block s =
     do { bb \<leftarrow> st_heap s block;
          let s1 = s\<lparr>st_heap := (st_heap s)(block \<mapsto> bb\<lparr>b_complaint := Some complaint\<rparr>)\<rparr>;
          s2 \<leftarrow> block_to_pending s1 bb;
          s3 \<leftarrow> unhash_block rt block bb s2;
          ofold (\<lambda>b s. complaint_on_all rt complaint b s) (b_children bb) s3 }"

definition publish_complaint :: "runtime \<Rightarrow> state \<Rightarrow> bptr \<Rightarrow> bytes \<Rightarrow> nat option \<Rightarrow> state option" where
  "publish_complaint rt s block complaint origin =
     do { bb \<leftarrow> st_heap s block;
          if b_complaint bb \<noteq> None then Some s
          else do {
            s1 \<leftarrow> complaint_on_all rt complaint block s;
            s2 \<leftarrow> recheck_pending_txs rt s1;
            s3 \<leftarrow> update_block_ptrs_invalidated (rt_ssl rt) s2 block;
            broadcast_to_peers s3 complaint origin } }"

definition complain_bad_input ::
    "runtime \<Rightarrow> state \<Rightarrow> bptr \<Rightarrow> protocol_proof \<Rightarrow> protocol_tx \<Rightarrow> protocol_input_ref list \<Rightarrow> nat
     \<Rightarrow> protocol_tx \<Rightarrow> state option" where
  "complain_bad_input rt s block prf tx refs bad_input intx =
     do { c_assert (tx_input tx bad_input \<noteq> None);
          p0 \<leftarrow> tal_packet PROTOCOL_PKT_COMPLAIN_TX_BAD_INPUT (cpu_to_le32 (word_of_nat bad_input));
          p1 \<leftarrow> tal_packet_append_proven_tx p0 prf tx refs;
          p2 \<leftarrow> tal_packet_append_tx p1 intx;
          publish_complaint rt s block p2 None }"

definition complain_bad_amount ::
    "runtime \<Rightarrow> state \<Rightarrow> bptr \<Rightarrow> protocol_proof \<Rightarrow> protocol_tx \<Rightarrow> protocol_input_ref list
     \<Rightarrow> protocol_tx list \<Rightarrow> state option" where
  "complain_bad_amount rt s block prf tx refs intx =
     do { c_assert (num_inputs tx \<noteq> 0);
          p0 \<leftarrow> tal_packet PROTOCOL_PKT_COMPLAIN_TX_BAD_AMOUNT [];
          p1 \<leftarrow> tal_packet_append_proven_tx p0 prf tx refs;
          p2 \<leftarrow> ofold (\<lambda>i p. do { t \<leftarrow> c_nth intx i; tal_packet_append_tx p t }) [0..<unat (num_inputs tx)] p1;
          publish_complaint rt s block p2 None }"

definition complain_misorder ::
    "runtime \<Rightarrow> state \<Rightarrow> bptr \<Rightarrow> protocol_proof \<Rightarrow> protocol_tx \<Rightarrow> protocol_input_ref list \<Rightarrow> u8
     \<Rightarrow> state option" where
  "complain_misorder rt s block prf tx refs conflict_txoff =
     do { bb \<leftarrow> st_heap s block;
          let shardnum = pos_shard (pr_pos prf);
          ct \<leftarrow> block_get_tx bb shardnum conflict_txoff; conflict_tx \<leftarrow> ct;
          cr \<leftarrow> block_get_refs bb shardnum conflict_txoff; conflict_refs \<leftarrow> cr;
          p0 \<leftarrow> tal_packet PROTOCOL_PKT_COMPLAIN_TX_MISORDER [];
          p1 \<leftarrow> tal_packet_append_proven_tx p0 prf tx refs;
          conflict_proof \<leftarrow> create_proof (rt_ssl rt) bb shardnum conflict_txoff;
          p2 \<leftarrow> tal_packet_append_proven_tx p1 conflict_proof conflict_tx conflict_refs;
          publish_complaint rt s block p2 None }"

definition complain_bad_input_ref ::
    "runtime \<Rightarrow> state \<Rightarrow> bptr \<Rightarrow> protocol_proof \<Rightarrow> protocol_tx \<Rightarrow> protocol_input_ref list \<Rightarrow> nat
     \<Rightarrow> bptr \<Rightarrow> state option" where
  "complain_bad_input_ref rt s block prf tx refs bad_refnum block_referred_to =
     do { bad_ref \<leftarrow> c_nth refs bad_refnum;
          rb \<leftarrow> st_heap s block_referred_to;
          bt \<leftarrow> block_get_tx rb (ref_shard bad_ref) (ref_txoff bad_ref); bad_intx \<leftarrow> bt;
          br \<leftarrow> block_get_refs rb (ref_shard bad_ref) (ref_txoff bad_ref); bad_intx_refs \<leftarrow> br;
          p0 \<leftarrow> tal_packet PROTOCOL_PKT_COMPLAIN_BAD_INPUT_REF (cpu_to_le32 (word_of_nat bad_refnum));
          p1 \<leftarrow> tal_packet_append_proven_tx p0 prf tx refs;
          ref_proof \<leftarrow> create_proof (rt_ssl rt) rb (ref_shard bad_ref) (ref_txoff bad_ref);
          p2 \<leftarrow> tal_packet_append_proven_tx p1 ref_proof bad_intx bad_intx_refs;
          publish_complaint rt s block p2 None }"

definition complain_doublespend ::
    "runtime \<Rightarrow> state \<Rightarrow> bptr \<Rightarrow> u32 \<Rightarrow> protocol_proof \<Rightarrow> protocol_tx \<Rightarrow> protocol_input_ref list
     \<Rightarrow> bptr \<Rightarrow> u32 \<Rightarrow> protocol_proof \<Rightarrow> protocol_tx \<Rightarrow> protocol_input_ref list \<Rightarrow> state option" where
  "complain_doublespend rt s block1 input1 proof1 tx1 refs1 block2 input2 proof2 tx2 refs2 =
     do { pre \<leftarrow> block_preceeds (st_heap s) block1 block2;
          c_assert pre;
          p0 \<leftarrow> tal_packet PROTOCOL_PKT_COMPLAIN_DOUBLESPEND (cpu_to_le32 input1 @ cpu_to_le32 input2);
          p1 \<leftarrow> tal_packet_append_proven_tx p0 proof1 tx1 refs1;
          p2 \<leftarrow> tal_packet_append_proven_tx p1 proof2 tx2 refs2;
          publish_complaint rt s block2 p2 None }"

definition bad_tx_reason :: "protocol_ecode \<Rightarrow> protocol_tx \<Rightarrow> unit option" where
  \<comment> \<open>the \<^verbatim>\<open>switch\<close> of \<open>complain_bad_tx\<close>\<close>
  "bad_tx_reason e tx =
     (if e \<in> {PROTOCOL_ECODE_TX_HIGH_VERSION, PROTOCOL_ECODE_TX_LOW_VERSION, PROTOCOL_ECODE_TX_TYPE_UNKNOWN,
              PROTOCOL_ECODE_TX_TOO_LARGE, PROTOCOL_ECODE_TX_BAD_SIG} then Some ()
      else if e \<in> {PROTOCOL_ECODE_TX_BAD_GATEWAY, PROTOCOL_ECODE_TX_CROSS_SHARDS}
      then c_assert (tx_type tx = TX_FROM_GATEWAY)
      else if e = PROTOCOL_ECODE_TX_TOO_MANY_INPUTS
      then (if tx_type tx \<in> {TX_NORMAL, TX_TO_GATEWAY} then Some () else c_abort)
      else c_abort)"

definition complain_bad_tx ::
    "runtime \<Rightarrow> bytes \<Rightarrow> state \<Rightarrow> bptr \<Rightarrow> protocol_ecode \<Rightarrow> protocol_proof \<Rightarrow> protocol_tx
     \<Rightarrow> protocol_input_ref list \<Rightarrow> state option" where
  "complain_bad_tx rt junk s block e prf tx refs =
     do { bad_tx_reason e tx;
          p0 \<leftarrow> tal_packet PROTOCOL_PKT_COMPLAIN_TX_INVALID (cpu_to_le32 (ecode_code e) @ junk);
          p1 \<leftarrow> tal_packet_append_proven_tx p0 prf tx refs;
          publish_complaint rt s block p1 None }"

definition complain_bad_claim ::
    "runtime \<Rightarrow> state \<Rightarrow> bptr \<Rightarrow> protocol_proof \<Rightarrow> protocol_tx \<Rightarrow> protocol_input_ref list \<Rightarrow> bptr
     \<Rightarrow> u16 \<Rightarrow> u8 \<Rightarrow> state option" where
  "complain_bad_claim rt s claim_block claim_proof claim_tx claim_refs reward_block reward_shard reward_txoff =
     do { p0 \<leftarrow> tal_packet PROTOCOL_PKT_COMPLAIN_CLAIM_INPUT_INVALID [];
          p1 \<leftarrow> tal_packet_append_proven_tx p0 claim_proof claim_tx claim_refs;
          rb \<leftarrow> st_heap s reward_block;
          reward_proof \<leftarrow> create_proof (rt_ssl rt) rb reward_shard reward_txoff;
          rt_tx \<leftarrow> block_get_tx rb reward_shard reward_txoff; reward_tx \<leftarrow> rt_tx;
          rr \<leftarrow> block_get_refs rb reward_shard reward_txoff; reward_refs \<leftarrow> rr;
          p2 \<leftarrow> tal_packet_append_proven_tx p1 reward_proof reward_tx reward_refs;
          publish_complaint rt s claim_block p2 None }"

subsection \<open>A complaint about a block with a missing transaction\<close>

lemma ofold_None:
  assumes "x \<in> set xs" "\<And>s. I s \<Longrightarrow> f x s = None" "\<And>y s s'. y \<in> set xs \<Longrightarrow> I s \<Longrightarrow> f y s = Some s' \<Longrightarrow> I s'" "I s"
  shows "ofold f xs s = None"
  using assms
proof (induction xs arbitrary: s)
  case (Cons y ys)
  show ?case
  proof (cases "f y s")
    case (Some s1)
    then have "x \<in> set ys" "I s1" using Cons.prems by auto
    moreover have "ofold f ys s1 = None"
    proof (rule Cons.IH)
      show "I s'" if "z \<in> set ys" "I t" "f z t = Some s'" for z t s'
        using Cons.prems(3)[of z t s'] that by simp
    qed (use calculation Cons.prems(2) in auto)
    ultimately show ?thesis using Some by simp
  qed simp
qed simp

lemma remove_tx_heap: "remove_tx_from_hashes rt s block shard txoff = Some s' \<Longrightarrow> st_heap s' = st_heap s"
  by (auto simp: remove_tx_from_hashes_def Let_def bind_eq_Some_conv split: option.splits txslot.splits prod.splits)

lemma remove_missing_tx:
  assumes "st_heap s block = Some bb" "unat shard < length (b_shard bb)"
    "unat txoff < length (bs_u (b_shard bb ! unat shard))"
    "bs_u (b_shard bb ! unat shard) ! unat txoff = Txp None"
  shows "remove_tx_from_hashes rt s block shard txoff = None"
  using assms by (simp add: remove_tx_from_hashes_def)

lemma block_to_pending_heap: "block_to_pending s b = Some s' \<Longrightarrow> st_heap s' = st_heap s"
proof -
  have shard: "shard_to_pending s sh n = Some s' \<Longrightarrow> st_heap s' = st_heap s" for s sh n s'
    by (induction n arbitrary: s')
      (auto simp: bind_eq_Some_conv Let_def add_to_unknown_pending_def split: option.splits)
  have "shards_to_pending s b n = Some s' \<Longrightarrow> st_heap s' = st_heap s" for n s'
    by (induction n arbitrary: s') (auto simp: bind_eq_Some_conv dest!: shard)
  then show "block_to_pending s b = Some s' \<Longrightarrow> st_heap s' = st_heap s"
    by (simp add: block_to_pending_def)
qed

lemma unhash_missing:
  assumes "st_heap s block = Some b'" "b_shard b' = b_shard bb" "i < unat (num_shards (b_hdr bb))" "i < length (b_shard bb)"
    "i < 2 ^ 16" "shard_ok (b_shard bb ! i)" "j < length (bs_u (b_shard bb ! i))" "bs_u (b_shard bb ! i) ! j = Txp None"
  shows "unhash_block rt block bb s = None"
proof -
  have j: "j < unat (bs_size (b_shard bb ! i))" using assms(6,7) by (simp add: shard_ok_def)
  moreover have "unat (bs_size (b_shard bb ! i)) < 2 ^ 8"
    using unsigned_less[of "bs_size (b_shard bb ! i)"] by simp
  ultimately have "j < 2 ^ 8" by (rule less_trans)
  then have wj: "unat (word_of_nat j :: u8) = j" by (simp add: unsigned_of_nat take_bit_nat_eq_self)
  have wi: "unat (word_of_nat i :: u16) = i" using assms(5) by (simp add: unsigned_of_nat take_bit_nat_eq_self)
  let ?I = "\<lambda>s. st_heap s block = Some b'"
  have inner: "ofold (\<lambda>txoff s. remove_tx_from_hashes rt s block (word_of_nat i) (word_of_nat txoff))
      [0..<unat (bs_size (b_shard bb ! i))] s = None" if "?I s" for s
    using that j wi wj assms(2,4,7,8) remove_tx_heap
    by (intro ofold_None[where x = j and I = ?I]) (auto intro: remove_missing_tx)
  show ?thesis
    unfolding unhash_block_def
  proof (rule ofold_None[where x = i and I = ?I])
    fix y s s' assume s: "?I s" and "(do { sh \<leftarrow> c_nth (b_shard bb) y;
        ofold (\<lambda>txoff s. remove_tx_from_hashes rt s block (word_of_nat y) (word_of_nat txoff)) [0..<unat (bs_size sh)] s }) = Some s'"
    then have "ofold (\<lambda>txoff s. remove_tx_from_hashes rt s block (word_of_nat y) (word_of_nat txoff))
        [0..<unat (bs_size (b_shard bb ! y))] s = Some s'" by (auto simp: bind_eq_Some_conv)
    then show "?I s'"
      by (rule ofold_keeps[where I = ?I, rotated 2]) (use s remove_tx_heap in auto)
  qed (use assms inner in auto)
qed

text \<open>
  A complaint about a block of which a transaction is still missing stops the daemon:
  \<open>complaint_on_all\<close> removes every position of the block from the hash tables, and for a position
  of which neither the transaction nor its hash is known \<open>remove_tx_from_hashes\<close> hashes a NULL
  transaction.
\<close>

theorem complaint_missing_tx_crashes:
  assumes "st_heap s block = Some bb" "block_ok bb" "b_complaint bb = None"
    "i < length (b_shard bb)" "j < length (bs_u (b_shard bb ! i))" "bs_u (b_shard bb ! i) ! j = Txp None"
    "i < 2 ^ 16"
  shows "publish_complaint rt s block complaint origin = None"
proof -
  let ?s1 = "s\<lparr>st_heap := (st_heap s)(block \<mapsto> bb\<lparr>b_complaint := Some complaint\<rparr>)\<rparr>"
  have "unhash_block rt block bb s2 = None" if "block_to_pending ?s1 bb = Some s2" for s2
    using block_to_pending_heap[OF that] assms
    by (intro unhash_missing[of _ _ "bb\<lparr>b_complaint := Some complaint\<rparr>" _ i j]) (auto simp: block_ok_def)
  then have "complaint_on_all rt complaint block s = None"
    using assms(1) by (subst complaint_on_all.simps) (simp add: Let_def split: Option.bind_split)
  then show ?thesis using assms(1,3) by (simp add: publish_complaint_def)
qed

theorem complaint_missing_tx_crashes_witness:
  "publish_complaint ex_runtime (ex_fork True) 3 [] None = None"
proof (rule complaint_missing_tx_crashes[where i = 0 and j = 0])
  show "st_heap (ex_fork True) 3 = Some (ex_node (Some 2) 2 [] 3)" by simp
qed (simp_all add: ex_node_ok, simp_all add: ex_node_def new_block_shard_def)

end
