(* ===== verification/Check_block.thy ===== *)
theory Check_block
  imports Complain
begin

section \<open>Blocks and their transactions\<close>

text \<open>
  \<^verbatim>\<open>check_block.c\<close> (which block headers are acceptable; putting transactions and hashes into the
  shards of a block; complaints about a transaction in a block), \<open>check_block_shard\<close> of
  \<^verbatim>\<open>block_shard.c\<close>, \<open>block_add\<close> of \<^verbatim>\<open>block.c\<close> and the whole of \<open>check_chains\<close>.

  A shard is addressed by its block and its number. The address of a new block, which \<^verbatim>\<open>tal\<close>
  chooses, is an argument of \<open>block_add\<close>.
\<close>

subsection \<open>Headers\<close>

definition check_block_header ::
    "runtime \<Rightarrow> state \<Rightarrow> block_parts \<Rightarrow> (protocol_ecode \<times> bptr option \<times> sha option) option" where
  \<comment> \<open>the error code, \<open>*prev\<close> and \<open>*sha\<close>\<close>
  "check_block_header rt s parts =
     (let hdr = bp_hdr parts; tailer = bp_tailer parts in
      if \<not> version_ok (bh_version hdr) then Some (PROTOCOL_ECODE_BLOCK_HIGH_VERSION, None, None)
      else do {
        sha \<leftarrow> hash_block (rt_ssl rt) parts;
        beats \<leftarrow> beats_target sha (bt_difficulty tailer);
        if \<not> beats then Some (PROTOCOL_ECODE_INSUFFICIENT_WORK, None, Some sha)
        else do {
          prev \<leftarrow> block_find_any s (bh_prev_block hdr);
          (case prev of
             None \<Rightarrow> Some (PROTOCOL_ECODE_PRIV_UNKNOWN_PREV, None, Some sha)
           | Some p \<Rightarrow> do {
               pb \<leftarrow> st_heap s p;
               if bh_shard_order hdr \<noteq> next_shard_order
               then Some (PROTOCOL_ECODE_BAD_SHARD_ORDER, Some p, Some sha)
               else if bh_depth hdr \<noteq> bh_depth (b_hdr pb) + 1
               then Some (PROTOCOL_ECODE_BAD_DEPTH, Some p, Some sha)
               else do {
                 t \<leftarrow> check_timestamp rt s (bt_timestamp tailer) p;
                 if \<not> t then Some (PROTOCOL_ECODE_BAD_TIMESTAMP, Some p, Some sha)
                 else do {
                   d \<leftarrow> get_difficulty (rt_ssl rt) s p;
                   if bt_difficulty tailer \<noteq> d then Some (PROTOCOL_ECODE_BAD_DIFFICULTY, Some p, Some sha)
                   else Some (PROTOCOL_ECODE_NONE, Some p, Some sha) } } }) } })"

definition shard_belongs_in_block :: "openssl \<Rightarrow> block \<Rightarrow> block_shard \<Rightarrow> bool option" where
  "shard_belongs_in_block ssl block shard =
     do { n \<leftarrow> c_nth (b_shard_nums block) (unat (bs_shardnum shard));
          c_assert (unat (bs_txcount shard) + unat (bs_hashcount shard) = unat n);
          merkle \<leftarrow> merkle_txs ssl shard;
          m \<leftarrow> c_nth (b_merkles block) (unat (bs_shardnum shard));
          Some (m = merkle) }"

subsection \<open>The order of transactions\<close>

fun order_before :: "openssl \<Rightarrow> block_shard \<Rightarrow> protocol_tx \<Rightarrow> nat \<Rightarrow> u8 option option" where
  \<comment> \<open>the loop down: \<open>Some (Some i)\<close> is a conflict with \<open>i\<close>\<close>
  "order_before ssl shard tx 0 = Some None"
| "order_before ssl shard tx (Suc i) =
     do { other_tx \<leftarrow> tx_for shard (word_of_nat i);
          (case other_tx of
             None \<Rightarrow> order_before ssl shard tx i
           | Some t \<Rightarrow> do { c \<leftarrow> tx_cmp ssl t tx; Some (if c \<ge> 0 then Some (word_of_nat i) else None) }) }"

fun order_after :: "openssl \<Rightarrow> block_shard \<Rightarrow> protocol_tx \<Rightarrow> nat list \<Rightarrow> u8 option option" where
  \<comment> \<open>the loop up\<close>
  "order_after ssl shard tx [] = Some None"
| "order_after ssl shard tx (i # is) =
     do { other_tx \<leftarrow> tx_for shard (word_of_nat i);
          (case other_tx of
             None \<Rightarrow> order_after ssl shard tx is
           | Some t \<Rightarrow> do { c \<leftarrow> tx_cmp ssl tx t; Some (if c \<ge> 0 then Some (word_of_nat i) else None) }) }"

definition check_tx_ordering :: "openssl \<Rightarrow> block_shard \<Rightarrow> u8 \<Rightarrow> protocol_tx \<Rightarrow> u8 option option" where
  \<comment> \<open>\<open>None\<close> inside is \<open>true\<close>, \<open>Some bad_txoff\<close> is \<open>false\<close>\<close>
  "check_tx_ordering ssl shard txoff tx =
     (if bs_txcount shard = 0 then Some None
      else do {
        before \<leftarrow> order_before ssl shard tx (unat txoff);
        (case before of
           Some bad \<Rightarrow> Some (Some bad)
         | None \<Rightarrow> order_after ssl shard tx [unat txoff + 1..<unat (bs_size shard)]) })"

subsection \<open>Inputs and references of a transaction in a block\<close>

definition bad_input_complaint ::
    "runtime \<Rightarrow> state \<Rightarrow> bptr \<Rightarrow> protocol_proof \<Rightarrow> protocol_tx \<Rightarrow> protocol_input_ref list \<Rightarrow> nat option
     \<Rightarrow> state option" where
  \<comment> \<open>\<^verbatim>\<open>case ECODE_INPUT_BAD\<close>\<close>
  "bad_input_complaint rt s b prf tx refs bad =
     do { n \<leftarrow> bad;
          inp \<leftarrow> tx_input tx n;
          r \<leftarrow> txhash_gettx rt (st_heap s) (st_txhash s) (in_input inp) True;
          input \<leftarrow> r;
          complain_bad_input rt s b prf tx refs n input }"

definition bad_amount_complaint ::
    "runtime \<Rightarrow> state \<Rightarrow> bptr \<Rightarrow> protocol_proof \<Rightarrow> protocol_tx \<Rightarrow> protocol_input_ref list \<Rightarrow> state option" where
  \<comment> \<open>\<^verbatim>\<open>case ECODE_INPUT_BAD_AMOUNT\<close>\<close>
  "bad_amount_complaint rt s b prf tx refs =
     do { inputs \<leftarrow> ofold (\<lambda>i acc. do {
              inp \<leftarrow> tx_input tx i;
              r \<leftarrow> txhash_gettx rt (st_heap s) (st_txhash s) (in_input inp) True;
              input \<leftarrow> r;
              Some (acc @ [input]) }) [0..<unat (num_inputs tx)] [];
          complain_bad_amount rt s b prf tx refs inputs }"

definition doublespend_complaint ::
    "runtime \<Rightarrow> state \<Rightarrow> bptr \<Rightarrow> protocol_proof \<Rightarrow> protocol_tx \<Rightarrow> protocol_input_ref list \<Rightarrow> nat option
     \<Rightarrow> (bool \<times> state) option" where
  \<comment> \<open>\<^verbatim>\<open>case ECODE_INPUT_DOUBLESPEND\<close>: is \<open>b\<close> still good?\<close>
  "doublespend_complaint rt s b prf tx refs bad =
     do { n \<leftarrow> bad;
          inp \<leftarrow> tx_input tx n;
          d \<leftarrow> tx_find_doublespend rt s b None inp;
          other \<leftarrow> d;
          ob \<leftarrow> (case te_u other of In_block ob \<Rightarrow> Some ob | Pending_tx _ \<Rightarrow> None);
          obb \<leftarrow> st_heap s ob;
          other_proof \<leftarrow> create_proof (rt_ssl rt) obb (te_shardnum other) (te_txoff other);
          ot \<leftarrow> block_get_tx obb (te_shardnum other) (te_txoff other); other_tx \<leftarrow> ot;
          orf \<leftarrow> block_get_refs obb (te_shardnum other) (te_txoff other); other_refs \<leftarrow> orf;
          m \<leftarrow> find_matching_input other_tx inp;
          pre \<leftarrow> block_preceeds (st_heap s) ob b;
          if pre then do {
            s1 \<leftarrow> complain_doublespend rt s ob (word_of_nat m) other_proof other_tx other_refs
                    b (word_of_nat n) prf tx refs;
            Some (False, s1) }
          else do {
            s1 \<leftarrow> complain_doublespend rt s b (word_of_nat n) prf tx refs
                    ob (word_of_nat m) other_proof other_tx other_refs;
            Some (True, s1) } }"

definition bad_claim_complaint ::
    "runtime \<Rightarrow> state \<Rightarrow> bptr \<Rightarrow> protocol_proof \<Rightarrow> protocol_tx \<Rightarrow> protocol_input_ref list \<Rightarrow> state option" where
  \<comment> \<open>\<^verbatim>\<open>case ECODE_INPUT_CLAIM_BAD\<close>\<close>
  "bad_claim_complaint rt s b prf tx refs =
     do { c_assert (tx_type tx = TX_CLAIM);
          inp \<leftarrow> tx_input tx 0;
          r \<leftarrow> txhash_gettx_ancestor rt s (in_input inp) b;
          reward \<leftarrow> r;
          rb \<leftarrow> (case te_u reward of In_block rb \<Rightarrow> Some rb | Pending_tx _ \<Rightarrow> None);
          complain_bad_claim rt s b prf tx refs rb (te_shardnum reward) (te_txoff reward) }"

definition check_tx_inputs_and_refs ::
    "runtime \<Rightarrow> state \<Rightarrow> bptr \<Rightarrow> protocol_proof \<Rightarrow> protocol_tx \<Rightarrow> protocol_input_ref list
     \<Rightarrow> (bool \<times> state) option" where
  "check_tx_inputs_and_refs rt s b prf tx refs =
     do { (ierr, bad) \<leftarrow> check_tx_inputs rt s b None tx;
          bb \<leftarrow> st_heap s b;
          (good, s1) \<leftarrow> (case ierr of
              ECODE_INPUT_OK \<Rightarrow> Some (True, s)
            | ECODE_INPUT_UNKNOWN \<Rightarrow> do {
                i \<leftarrow> interested_in_shard (st_interests s) (unat (bh_shard_order (b_hdr bb))) (pos_shard (pr_pos prf));
                if i then do { n \<leftarrow> bad; inp \<leftarrow> tx_input tx n; Some (True, todo_add_get_tx s (in_input inp)) }
                else Some (True, s) }
            | ECODE_INPUT_BAD \<Rightarrow> map_option (Pair False) (bad_input_complaint rt s b prf tx refs bad)
            | ECODE_INPUT_BAD_AMOUNT \<Rightarrow> map_option (Pair False) (bad_amount_complaint rt s b prf tx refs)
            | ECODE_INPUT_DOUBLESPEND \<Rightarrow> doublespend_complaint rt s b prf tx refs bad
            | ECODE_INPUT_CLAIM_BAD \<Rightarrow> map_option (Pair False) (bad_claim_complaint rt s b prf tx refs));
          if \<not> good then Some (False, s1)
          else do {
            (rerr, pos) \<leftarrow> check_tx_refs (rt_ssl rt) s1 b tx refs;
            (case rerr of
               ECODE_REF_OK \<Rightarrow> Some (True, s1)
             | ECODE_REF_UNKNOWN \<Rightarrow>
                 if ierr = ECODE_INPUT_UNKNOWN then Some (True, s1)
                 else do {
                   (n, rb) \<leftarrow> pos;
                   rbb \<leftarrow> st_heap s1 rb;
                   ref \<leftarrow> c_nth refs n;
                   Some (True, todo_add_get_tx_in_block s1 (b_sha rbb) (ref_shard ref) (ref_txoff ref)) }
             | ECODE_REF_BAD_HASH \<Rightarrow> do {
                 (n, rb) \<leftarrow> pos;
                 s2 \<leftarrow> complain_bad_input_ref rt s1 b prf tx refs n rb;
                 Some (False, s2) }) } }"

subsection \<open>Rechecking transactions whose input has become known\<close>

fun recheck_tx_elems :: "runtime \<Rightarrow> txhash_elem list \<Rightarrow> state \<Rightarrow> (bool \<times> state) option" where
  \<comment> \<open>the loop of \<open>recheck_tx\<close>\<close>
  "recheck_tx_elems rt [] s = Some (True, s)"
| "recheck_tx_elems rt (te # tes) s =
     (case te_u te of
        Pending_tx _ \<Rightarrow>
          recheck_tx_elems rt tes (s\<lparr>st_pending := (st_pending s)\<lparr>pb_needs_recheck := True\<rparr>\<rparr>)
      | In_block b \<Rightarrow> do {
          bb \<leftarrow> st_heap s b;
          c_assert (b_complaint bb = None);
          sh \<leftarrow> c_nth (b_shard bb) (unat (te_shardnum te));
          is_tx \<leftarrow> shard_is_tx sh (te_txoff te);
          if \<not> is_tx then recheck_tx_elems rt tes s
          else do {
            prf \<leftarrow> create_proof (rt_ssl rt) bb (te_shardnum te) (te_txoff te);
            t \<leftarrow> block_get_tx bb (te_shardnum te) (te_txoff te); tx \<leftarrow> t;
            r \<leftarrow> block_get_refs bb (te_shardnum te) (te_txoff te); refs \<leftarrow> r;
            (good, s1) \<leftarrow> check_tx_inputs_and_refs rt s b prf tx refs;
            if \<not> good then Some (False, s1) else recheck_tx_elems rt tes s1 } })"

definition recheck_tx :: "runtime \<Rightarrow> state \<Rightarrow> sha \<Rightarrow> (bool \<times> state) option" where
  "recheck_tx rt s tx = recheck_tx_elems rt (txhash_vals rt (st_txhash s) tx) s"

fun recheck_users :: "runtime \<Rightarrow> inputhash_elem list \<Rightarrow> state \<Rightarrow> (bool \<times> state) option" where
  \<comment> \<open>one pass over the users of an output; \<open>False\<close> is \<open>goto again\<close>\<close>
  "recheck_users rt [] s = Some (True, s)"
| "recheck_users rt (ie # ies) s =
     do { (good, s1) \<leftarrow> recheck_tx rt s (ie_used_by ie);
          if \<not> good then Some (False, s1) else recheck_users rt ies s1 }"

partial_function (option) resolved_output :: "runtime \<Rightarrow> sha \<times> u16 \<Rightarrow> state \<Rightarrow> state option" where
  "resolved_output rt key s =
     do { (done, s1) \<leftarrow> recheck_users rt (inputhash_vals rt (st_inputhash s) key) s;
          if done then Some s1 else resolved_output rt key s1 }"

definition check_resolved_txs :: "runtime \<Rightarrow> state \<Rightarrow> protocol_tx \<Rightarrow> state option" where
  "check_resolved_txs rt s tx =
     do { sha \<leftarrow> hash_tx (rt_ssl rt) tx;
          ofold (\<lambda>i s. resolved_output rt (sha, word_of_nat i) s) [0..<unat (num_outputs tx)] s }"

subsection \<open>Debugging checks\<close>

fun check_slots :: "runtime \<Rightarrow> state \<Rightarrow> bptr \<Rightarrow> block \<Rightarrow> block_shard \<Rightarrow> nat \<Rightarrow> (nat \<times> nat) option" where
  \<comment> \<open>the first \<open>i\<close> rounds of the loop of \<open>check_block_shard\<close>: how many transactions, how many hashes\<close>
  "check_slots rt s p bb shard 0 = Some (0, 0)"
| "check_slots rt s p bb shard (Suc i) =
     do { (txcount, hashcount) \<leftarrow> check_slots rt s p bb shard i;
          slot \<leftarrow> c_nth (bs_u shard) i;
          (case slot of
             Hash _ \<Rightarrow> Some (txcount, hashcount + 1)
           | Txp None \<Rightarrow> Some (txcount, hashcount)
           | Txp (Some (tx, refs)) \<Rightarrow> do {
               e \<leftarrow> check_tx (rt_ssl rt) s tx (Some bb);
               c_assert (e = PROTOCOL_ECODE_NONE);
               let me = \<lparr>te_sha = [], te_u = In_block p, te_shardnum = bs_shardnum shard, te_txoff = word_of_nat i\<rparr>;
               (ierr, _) \<leftarrow> check_tx_inputs rt s p (Some me) tx;
               c_assert (ierr = ECODE_INPUT_OK \<or> ierr = ECODE_INPUT_UNKNOWN);
               (case bs_proof shard of
                  None \<Rightarrow> Some ()
                | Some prfs \<Rightarrow> do {
                    pf \<leftarrow> c_nth prfs i; prf \<leftarrow> pf;
                    ok \<leftarrow> check_proof (rt_ssl rt) prf bb tx refs;
                    c_assert ok });
               Some (txcount + 1, hashcount) }) }"

definition check_block_shard :: "runtime \<Rightarrow> state \<Rightarrow> bptr \<Rightarrow> block_shard \<Rightarrow> unit option" where
  "check_block_shard rt s p shard =
     do { bb \<leftarrow> st_heap s p;
          n \<leftarrow> c_nth (b_shard_nums bb) (unat (bs_shardnum shard));
          c_assert (bs_size shard = n);
          (if shard_all_hashes shard then c_assert (bs_proof shard = None)
           else if bs_txcount shard \<noteq> 0 then c_assert (bs_proof shard \<noteq> None)
           else Some ());
          (txcount, hashcount) \<leftarrow> check_slots rt s p bb shard (unat (bs_size shard));
          c_assert (txcount = unat (bs_txcount shard));
          c_assert (hashcount = unat (bs_hashcount shard));
          c_assert (txcount + hashcount \<le> unat (bs_size shard));
          if txcount + hashcount = unat (bs_size shard) then do {
            sha \<leftarrow> merkle_txs (rt_ssl rt) shard;
            m \<leftarrow> c_nth (b_merkles bb) (unat (bs_shardnum shard));
            c_assert (sha = m) }
          else Some () }"

definition check_block :: "runtime \<Rightarrow> state \<Rightarrow> bptr \<Rightarrow> bool \<Rightarrow> unit option" where
  "check_block rt s p all =
     do { bb \<leftarrow> st_heap s p;
          (if genesis_block s \<noteq> Some p
           then do {
             beats \<leftarrow> beats_target (b_sha bb) (bt_difficulty (b_tailer bb));
             c_assert beats;
             c_assert (length (b_shard bb) = unat (num_shards (b_hdr bb))) }
           else Some ());
          sha \<leftarrow> hash_block (rt_ssl rt) (b_parts bb);
          c_assert (sha = b_sha bb);
          (case b_prev bb of
             None \<Rightarrow> Some ()
           | Some q \<Rightarrow> do {
               pb \<leftarrow> st_heap s q;
               c_assert (b_all_known bb \<longrightarrow> b_all_known pb);
               c_assert (b_complaint pb \<noteq> None \<longrightarrow> b_complaint bb \<noteq> None) });
          if all then ofold (\<lambda>i _. do { sh \<leftarrow> c_nth (b_shard bb) i; check_block_shard rt s p sh })
                        [0..<unat (num_shards (b_hdr bb))] ()
          else Some () }"

definition check_level_block :: "runtime \<Rightarrow> state \<Rightarrow> nat \<Rightarrow> bptr \<Rightarrow> nat \<times> nat \<Rightarrow> (nat \<times> nat) option" where
  \<comment> \<open>the body of the inner loop of \<open>check_chains\<close>: how many blocks are left on this level, how many on the next\<close>
  "check_level_block rt s n i counts =
     do { ib \<leftarrow> st_heap s i;
          c_assert (b_depth ib = n);
          c_assert (fst counts \<noteq> 0);
          (if n = 0 then c_assert (genesis_block s = Some i)
           else do {
             q \<leftarrow> b_prev ib; pb \<leftarrow> st_heap s q;
             c_assert (bh_prev_block (b_hdr ib) = b_sha pb);
             c_assert (b_complaint pb \<noteq> None \<longrightarrow> b_complaint ib \<noteq> None) });
          c0 \<leftarrow> c_nth (st_longest_chains s) 0;
          cw \<leftarrow> cmp_work (rt_ssl rt) (st_heap s) i c0;
          c_assert (b_complaint ib \<noteq> None \<or> cw \<le> 0);
          (if b_complaint ib = None \<and> b_all_known ib
           then do { k0 \<leftarrow> c_nth (st_longest_knowns s) 0;
                     kw \<leftarrow> cmp_work (rt_ssl rt) (st_heap s) i k0;
                     c_assert (kw \<le> 0) }
           else Some ());
          ofold (\<lambda>b _. do { bb \<leftarrow> st_heap s b; c_assert (b_prev bb = Some i) }) (b_children ib) ();
          check_block rt s i True;
          Some (fst counts - 1, snd counts + length (b_children ib)) }"

definition check_chains :: "runtime \<Rightarrow> state \<Rightarrow> bool \<Rightarrow> unit option" where
  "check_chains rt s all =
     do { check_chains_quick (rt_ssl rt) s;
          if \<not> all then Some ()
          else do {
            next \<leftarrow> ofold (\<lambda>n num_next_level. do {
                level \<leftarrow> c_nth (st_block_depth s) n;
                (this, next) \<leftarrow> ofold (check_level_block rt s n) level (num_next_level, 0);
                c_assert (this = 0);
                Some next }) [0..<length (st_block_depth s)] 1;
            c_assert (next = 0) } }"

subsection \<open>Filling a shard\<close>

definition upd_shard :: "state \<Rightarrow> bptr \<Rightarrow> nat \<Rightarrow> block_shard \<Rightarrow> state option" where
  \<comment> \<open>an assignment to a shard of a block\<close>
  "upd_shard s p i sh =
     do { bb \<leftarrow> st_heap s p;
          c_assert (i < length (b_shard bb));
          Some (s\<lparr>st_heap := (st_heap s)(p \<mapsto> bb\<lparr>b_shard := (b_shard bb)[i := sh]\<rparr>)\<rparr>) }"

definition set_tx_slot :: "block_shard \<Rightarrow> u8 \<Rightarrow> protocol_tx \<times> protocol_input_ref list \<Rightarrow> block_shard" where
  "set_tx_slot sh txoff txp =
     sh\<lparr>bs_u := (bs_u sh)[unat txoff := Txp (Some txp)], bs_txcount := bs_txcount sh + 1\<rparr>"

definition set_hash_slot :: "block_shard \<Rightarrow> u8 \<Rightarrow> protocol_txrefhash \<Rightarrow> block_shard" where
  "set_hash_slot sh txoff h =
     sh\<lparr>bs_u := (bs_u sh)[unat txoff := Hash h], bs_hashcount := bs_hashcount sh + 1\<rparr>"

definition put_tx_in_shard ::
    "runtime \<Rightarrow> state \<Rightarrow> nat option \<Rightarrow> bptr \<Rightarrow> u16 \<Rightarrow> u8 \<Rightarrow> protocol_tx \<times> protocol_input_ref list \<Rightarrow> state option" where
  "put_tx_in_shard rt s source p shardnum txoff txp =
     do { bb \<leftarrow> st_heap s p;
          sh \<leftarrow> c_nth (b_shard bb) (unat shardnum);
          slot \<leftarrow> c_nth (bs_u sh) (unat txoff);
          (case slot of
             Txp (Some old) \<Rightarrow> do {
               c_assert (enc_tx (fst txp) @ concat (map enc_ref (snd txp)) = enc_tx (fst old) @ concat (map enc_ref (snd old)));
               Some s }
           | _ \<Rightarrow> do {
               (s1, sh1) \<leftarrow> (case slot of
                   Txp _ \<Rightarrow> map_option (\<lambda>s1. (s1, sh)) (add_tx_to_hashes rt s p (bs_shardnum sh) txoff (fst txp))
                 | Hash h \<Rightarrow> do {
                     hashes \<leftarrow> hash_tx_and_refs (rt_ssl rt) (fst txp) (snd txp);
                     c_assert (h = hashes);
                     s1 \<leftarrow> upgrade_tx_in_hashes rt s (trh_txhash hashes) (fst txp);
                     Some (s1, sh\<lparr>bs_hashcount := bs_hashcount sh - 1\<rparr>) });
               s2 \<leftarrow> upd_shard s1 p (unat shardnum) (set_tx_slot sh1 txoff txp);
               s3 \<leftarrow> check_resolved_txs rt s2 (fst txp);
               bb3 \<leftarrow> st_heap s3 p;
               sh3 \<leftarrow> c_nth (b_shard bb3) (unat shardnum);
               s4 \<leftarrow> (if shard_all_hashes sh3 then upd_shard s3 p (unat shardnum) (sh3\<lparr>bs_proof := None\<rparr>) else Some s3);
               s5 \<leftarrow> (if shard_all_known sh3 then update_block_ptrs_new_shard (rt_ssl rt) s4 p else Some s4);
               let s6 = emit (Save_tx p (bs_shardnum sh) txoff)
                          (s5\<lparr>st_pending := (st_pending s5)\<lparr>pb_needs_recheck := True\<rparr>\<rparr>);
               s7 \<leftarrow> send_tx_in_block_to_peers (rt_ssl rt) s6 source p (bs_shardnum sh) txoff;
               bb7 \<leftarrow> st_heap s7 p;
               sh7 \<leftarrow> c_nth (b_shard bb7) (unat shardnum);
               check_block_shard rt s7 p sh7;
               Some s7 }) }"

definition put_txhash_in_shard ::
    "runtime \<Rightarrow> state \<Rightarrow> bptr \<Rightarrow> u16 \<Rightarrow> u8 \<Rightarrow> protocol_txrefhash \<Rightarrow> (bool \<times> state) option" where
  "put_txhash_in_shard rt s p shardnum txoff txrefhash =
     do { bb \<leftarrow> st_heap s p;
          sh \<leftarrow> c_nth (b_shard bb) (unat shardnum);
          old \<leftarrow> txrefhash_in_shard (rt_ssl rt) sh txoff;
          (case old of
             Some h \<Rightarrow> do { c_assert (h = txrefhash); Some (False, s) }
           | None \<Rightarrow> do {
               s1 \<leftarrow> upd_shard s p (unat shardnum) (set_hash_slot sh txoff txrefhash);
               let s2 = add_txhash_to_hashes s1 p shardnum txoff (trh_txhash txrefhash);
               let s3 = s2\<lparr>st_pending := (st_pending s2)\<lparr>pb_needs_recheck := True\<rparr>\<rparr>;
               check_block_shard rt s3 p (set_hash_slot sh txoff txrefhash);
               Some (True, s3) }) }"

definition put_proof_in_shard :: "state \<Rightarrow> bptr \<Rightarrow> protocol_proof \<Rightarrow> state option" where
  "put_proof_in_shard s p prf =
     do { bb \<leftarrow> st_heap s p;
          let shardnum = unat (pos_shard (pr_pos prf));
          sh \<leftarrow> c_nth (b_shard bb) shardnum;
          if shard_all_hashes sh then Some s
          else do {
            n \<leftarrow> c_nth (b_shard_nums bb) (unat (bs_shardnum sh));
            let prfs = (case bs_proof sh of Some ps \<Rightarrow> ps | None \<Rightarrow> replicate (unat n) None);
            old \<leftarrow> c_nth prfs (unat (pos_txoff (pr_pos prf)));
            upd_shard s p shardnum
              (sh\<lparr>bs_proof := Some (if old \<noteq> None then prfs else prfs[unat (pos_txoff (pr_pos prf)) := Some prf])\<rparr>) } }"

subsection \<open>block.c: block\_add\<close>

definition link_block :: "runtime \<Rightarrow> state \<Rightarrow> bptr \<Rightarrow> bptr \<Rightarrow> sha \<Rightarrow> block_parts \<Rightarrow> state option" where
  \<comment> \<open>\<open>block_add\<close> up to the saving of the block; \<open>new\<close> is its address\<close>
  "link_block rt s new prev sha parts =
     do { pb \<leftarrow> st_heap s prev;
          block \<leftarrow> new_block (rt_ssl rt) (b_total_work pb) sha parts;
          let depth = unat (bh_depth (bp_hdr parts));
          levels \<leftarrow> (if depth \<ge> length (st_block_depth s)
                     then do { c_assert (depth = length (st_block_depth s)); Some (st_block_depth s @ [[]]) }
                     else Some (st_block_depth s));
          let h1 = (st_heap s)(new \<mapsto> block\<lparr>b_prev := Some prev\<rparr>);
          pf \<leftarrow> pending_features h1 new;
          let block2 = block\<lparr>b_prev := Some prev, b_pending_features := pf, b_complaint := b_complaint pb\<rparr>;
          let h2 = h1(new \<mapsto> block2, prev \<mapsto> pb\<lparr>b_children := b_children pb @ [new]\<rparr>);
          Some (emit (Save_block new)
            (s\<lparr>st_heap := h2, st_block_depth := levels[depth := levels ! depth @ [new]]\<rparr>)) }"

definition block_add :: "runtime \<Rightarrow> state \<Rightarrow> bptr \<Rightarrow> bptr \<Rightarrow> sha \<Rightarrow> block_parts \<Rightarrow> state option" where
  "block_add rt s new prev sha parts =
     do { s1 \<leftarrow> link_block rt s new prev sha parts;
          bb \<leftarrow> st_heap s1 new;
          if b_complaint bb \<noteq> None then do { check_chains rt s1 False; Some s1 }
          else do {
            s2 \<leftarrow> update_block_ptrs_new_block (rt_ssl rt) s1 new;
            check_chains rt s2 False;
            check_block rt s2 new False;
            Some s2 } }"

subsection \<open>Headers: what an accepted header satisfies\<close>

text \<open>
  The header check tests the work of a block before anything else, and the test asserts that
  the exponent of the claimed difficulty lies between 3 and 32. Nothing has checked that field,
  which comes from the network: a block with another exponent stops the daemon.
\<close>

theorem header_difficulty_crashes:
  assumes "version_ok (bh_version (bp_hdr parts))"
    "unat (diff_exp (bt_difficulty (bp_tailer parts))) < 3 \<or> 32 < unat (diff_exp (bt_difficulty (bp_tailer parts)))"
  shows "check_block_header rt s parts = None"
  using assms
  by (auto simp: check_block_header_def beats_target_def Let_def split: Option.bind_split)

lemma check_block_header_NONE:
  assumes "check_block_header rt s parts = Some (PROTOCOL_ECODE_NONE, prev, sha)"
  shows "\<exists>p pb x. prev = Some p \<and> sha = Some x \<and> st_heap s p = Some pb \<and>
    hash_block (rt_ssl rt) parts = Some x \<and> beats_target x (bt_difficulty (bp_tailer parts)) = Some True \<and>
    block_find_any s (bh_prev_block (bp_hdr parts)) = Some (Some p) \<and>
    bh_shard_order (bp_hdr parts) = next_shard_order \<and> bh_depth (bp_hdr parts) = bh_depth (b_hdr pb) + 1 \<and>
    check_timestamp rt s (bt_timestamp (bp_tailer parts)) p = Some True \<and>
    get_difficulty (rt_ssl rt) s p = Some (bt_difficulty (bp_tailer parts))"
  using assms
  by (auto simp: check_block_header_def Let_def bind_eq_Some_conv split: if_splits option.splits)

subsection \<open>The order within a shard\<close>

definition known_tx :: "block_shard \<Rightarrow> nat \<Rightarrow> protocol_tx option" where
  "known_tx sh i = (case bs_u sh ! i of Txp (Some p) \<Rightarrow> Some (fst p) | _ \<Rightarrow> None)"

definition sorted_shard :: "openssl \<Rightarrow> block_shard \<Rightarrow> bool" where
  "sorted_shard ssl sh \<longleftrightarrow>
     (\<forall>i j t u. i < j \<longrightarrow> j < length (bs_u sh) \<longrightarrow> known_tx sh i = Some t \<longrightarrow> known_tx sh j = Some u \<longrightarrow>
        cmp_before (tx_cmp ssl) t u)"

definition all_orderable :: "openssl \<Rightarrow> block_shard \<Rightarrow> bool" where
  "all_orderable ssl sh \<longleftrightarrow> (\<forall>i t. i < length (bs_u sh) \<longrightarrow> known_tx sh i = Some t \<longrightarrow> orderable ssl t)"

lemma all_orderableD: "all_orderable ssl sh \<Longrightarrow> i < length (bs_u sh) \<Longrightarrow> known_tx sh i = Some t \<Longrightarrow> orderable ssl t"
  unfolding all_orderable_def by blast

lemma tx_for_known:
  assumes "shard_ok sh" "i < length (bs_u sh)"
  shows "tx_for sh (word_of_nat i) = Some (known_tx sh i)" "unat (word_of_nat i :: u8) = i"
proof -
  have "length (bs_u sh) < 2 ^ 8"
    using assms(1) unsigned_less[of "bs_size sh"] by (simp add: shard_ok_def)
  then have "i < 2 ^ 8" using assms(2) by (rule less_trans[rotated])
  then show "unat (word_of_nat i :: u8) = i" by (simp add: unsigned_of_nat take_bit_nat_eq_self)
  then show "tx_for sh (word_of_nat i) = Some (known_tx sh i)"
    using assms(2) by (simp add: tx_for_def known_tx_def split: txslot.split option.split)
qed

lemma cmp_sign:
  assumes "orderable ssl a" "orderable ssl b"
  shows "\<exists>c. tx_cmp ssl a b = Some c \<and> (0 \<le> c \<longleftrightarrow> \<not> cmp_before (tx_cmp ssl) a b)"
  using txo.cmp_total[OF assms] by (auto simp: cmp_before_def)

lemma order_before_eq:
  assumes sh: "shard_ok sh" "sorted_shard ssl sh" "all_orderable ssl sh" and tx: "orderable ssl tx"
    and n: "n \<le> length (bs_u sh)"
  shows "\<exists>r. order_before ssl sh tx n = Some r \<and>
    (case r of
       None \<Rightarrow> \<forall>i < n. \<forall>t. known_tx sh i = Some t \<longrightarrow> cmp_before (tx_cmp ssl) t tx
     | Some bad \<Rightarrow> unat bad < n \<and> (\<exists>t. known_tx sh (unat bad) = Some t \<and> \<not> cmp_before (tx_cmp ssl) t tx))"
  using n
proof (induction n)
  case (Suc n)
  then have n: "n < length (bs_u sh)" by simp
  note tf = tx_for_known[OF sh(1) n]
  show ?case
  proof (cases "known_tx sh n")
    case None
    then show ?thesis using Suc tf by (auto simp: less_Suc_eq split: option.splits)
  next
    case (Some t)
    have t: "orderable ssl t" using sh(3) Some n by (auto simp: all_orderable_def)
    obtain c where c: "tx_cmp ssl t tx = Some c" "0 \<le> c \<longleftrightarrow> \<not> cmp_before (tx_cmp ssl) t tx"
      using cmp_sign[OF t tx] by blast
    have "cmp_before (tx_cmp ssl) u tx" if "cmp_before (tx_cmp ssl) t tx" "i < n" "known_tx sh i = Some u" for i u
    proof -
      have "orderable ssl u" using all_orderableD[OF sh(3) less_trans[OF that(2) n] that(3)] .
      moreover have "cmp_before (tx_cmp ssl) u t" using sh(2) that Some n unfolding sorted_shard_def by blast
      ultimately show ?thesis using txo.cmp_trans t tx that(1) by blast
    qed
    then show ?thesis using Some tf c by (auto simp: less_Suc_eq)
  qed
qed simp

lemma order_after_eq:
  assumes sh: "shard_ok sh" "sorted_shard ssl sh" "all_orderable ssl sh" and tx: "orderable ssl tx"
  shows "\<exists>r. order_after ssl sh tx [m..<length (bs_u sh)] = Some r \<and>
    (case r of
       None \<Rightarrow> \<forall>i. m \<le> i \<longrightarrow> i < length (bs_u sh) \<longrightarrow> (\<forall>t. known_tx sh i = Some t \<longrightarrow> cmp_before (tx_cmp ssl) tx t)
     | Some bad \<Rightarrow> m \<le> unat bad \<and> unat bad < length (bs_u sh) \<and>
         (\<exists>t. known_tx sh (unat bad) = Some t \<and> \<not> cmp_before (tx_cmp ssl) tx t))"
proof (induction "length (bs_u sh) - m" arbitrary: m)
  case 0
  then show ?case by simp
next
  case (Suc k)
  then have m: "m < length (bs_u sh)" by simp
  have k: "k = length (bs_u sh) - Suc m" using Suc.hyps(2) by simp
  have up: "[m..<length (bs_u sh)] = m # [Suc m..<length (bs_u sh)]" using m by (simp add: upt_conv_Cons)
  note tf = tx_for_known[OF sh(1) m]
  obtain r where r: "order_after ssl sh tx [Suc m..<length (bs_u sh)] = Some r"
    "case r of None \<Rightarrow> \<forall>i. Suc m \<le> i \<longrightarrow> i < length (bs_u sh) \<longrightarrow> (\<forall>t. known_tx sh i = Some t \<longrightarrow> cmp_before (tx_cmp ssl) tx t)
     | Some bad \<Rightarrow> Suc m \<le> unat bad \<and> unat bad < length (bs_u sh) \<and>
         (\<exists>t. known_tx sh (unat bad) = Some t \<and> \<not> cmp_before (tx_cmp ssl) tx t)"
    using Suc.hyps(1)[of "Suc m", OF k] by blast
  show ?case
  proof (cases "known_tx sh m")
    case None
    then show ?thesis using r[unfolded Suc_le_eq] tf up by (cases r) (auto simp: le_less)
  next
    case (Some t)
    have t: "orderable ssl t" using sh(3) Some m by (auto simp: all_orderable_def)
    obtain c where c: "tx_cmp ssl tx t = Some c" "0 \<le> c \<longleftrightarrow> \<not> cmp_before (tx_cmp ssl) tx t"
      using cmp_sign[OF tx t] by blast
    have "cmp_before (tx_cmp ssl) tx u"
      if "cmp_before (tx_cmp ssl) tx t" "m \<le> i" "i < length (bs_u sh)" "known_tx sh i = Some u" for i u
    proof (cases "i = m")
      case False
      have "orderable ssl u" using sh(3) that by (auto simp: all_orderable_def)
      moreover have "cmp_before (tx_cmp ssl) t u"
        using sh(2) that Some False unfolding sorted_shard_def by (metis le_neq_implies_less)
      ultimately show ?thesis using txo.cmp_trans t tx that(1) by blast
    qed (use that Some in auto)
    then show ?thesis using Some tf c up m by auto
  qed
qed

lemma set_slot_known:
  "i < length (bs_u sh) \<Longrightarrow> unat off < length (bs_u sh) \<Longrightarrow>
   known_tx (set_tx_slot sh off txp) i = (if i = unat off then Some (fst txp) else known_tx sh i)"
  by (simp add: known_tx_def set_tx_slot_def nth_list_update)

lemma sorted_after_set:
  assumes "sorted_shard ssl sh" "unat off < length (bs_u sh)"
  shows "sorted_shard ssl (set_tx_slot sh off txp) \<longleftrightarrow>
    (\<forall>i < unat off. \<forall>t. known_tx sh i = Some t \<longrightarrow> cmp_before (tx_cmp ssl) t (fst txp)) \<and>
    (\<forall>i. unat off < i \<longrightarrow> i < length (bs_u sh) \<longrightarrow> (\<forall>t. known_tx sh i = Some t \<longrightarrow> cmp_before (tx_cmp ssl) (fst txp) t))"
    (is "?L \<longleftrightarrow> ?R")
proof
  have len: "length (bs_u (set_tx_slot sh off txp)) = length (bs_u sh)" by (simp add: set_tx_slot_def)
  show ?R if L: ?L
  proof (intro conjI allI impI)
    show "cmp_before (tx_cmp ssl) t (fst txp)" if "i < unat off" "known_tx sh i = Some t" for i t
      using L[unfolded sorted_shard_def len, rule_format, of i "unat off" t "fst txp"] that assms(2)
      by (simp add: set_slot_known)
    show "cmp_before (tx_cmp ssl) (fst txp) t" if "unat off < i" "i < length (bs_u sh)" "known_tx sh i = Some t" for i t
      using L[unfolded sorted_shard_def len, rule_format, of "unat off" i "fst txp" t] that assms(2)
      by (simp add: set_slot_known)
  qed
  show ?L if ?R
    unfolding sorted_shard_def len
  proof (intro allI impI)
    fix i j t u
    assume "i < j" "j < length (bs_u sh)" "known_tx (set_tx_slot sh off txp) i = Some t"
      "known_tx (set_tx_slot sh off txp) j = Some u"
    then show "cmp_before (tx_cmp ssl) t u"
      using that assms(1,2) unfolding sorted_shard_def by (auto simp: set_slot_known split: if_splits)
  qed
qed

text \<open>
  C12. \<open>check_tx_ordering\<close>, which compares a transaction with its nearest known neighbours only,
  decides exactly whether the shard stays sorted with the transaction put at this position. When
  it does not, the returned position holds a known transaction on the wrong side.
\<close>

theorem check_tx_ordering_correct:
  assumes sh: "shard_ok sh" "sorted_shard ssl sh" "all_orderable ssl sh" and tx: "orderable ssl (fst txp)"
    and off: "unat off < length (bs_u sh)"
  shows "\<exists>r. check_tx_ordering ssl sh off (fst txp) = Some r \<and>
    (r = None \<longleftrightarrow> sorted_shard ssl (set_tx_slot sh off txp)) \<and>
    (\<forall>bad. r = Some bad \<longrightarrow> unat bad < length (bs_u sh) \<and>
       (\<exists>t. known_tx sh (unat bad) = Some t \<and>
          (if unat bad < unat off then \<not> cmp_before (tx_cmp ssl) t (fst txp)
           else \<not> cmp_before (tx_cmp ssl) (fst txp) t)))"
proof (cases "bs_txcount sh = 0")
  case True
  then have "filter is_known (bs_u sh) = []" using sh(1) by (simp add: shard_ok_def)
  then have unk: "\<not> is_known (bs_u sh ! i)" if "i < length (bs_u sh)" for i
    using that by (metis filter_empty_conv nth_mem)
  have "known_tx sh i = None" if "i < length (bs_u sh)" for i
    using unk[OF that] by (auto simp: known_tx_def is_known_def split: txslot.splits option.splits)
  then have "sorted_shard ssl (set_tx_slot sh off txp)"
    using sorted_after_set[OF sh(2) off] off by auto
  then show ?thesis using True by (simp add: check_tx_ordering_def)
next
  case False
  have size: "unat (bs_size sh) = length (bs_u sh)" using sh(1) by (simp add: shard_ok_def)
  obtain r1 where r1: "order_before ssl sh (fst txp) (unat off) = Some r1"
    "case r1 of None \<Rightarrow> \<forall>i < unat off. \<forall>t. known_tx sh i = Some t \<longrightarrow> cmp_before (tx_cmp ssl) t (fst txp)
     | Some bad \<Rightarrow> unat bad < unat off \<and> (\<exists>t. known_tx sh (unat bad) = Some t \<and> \<not> cmp_before (tx_cmp ssl) t (fst txp))"
    using order_before_eq[OF sh tx, of "unat off"] off by auto
  obtain r2 where r2: "order_after ssl sh (fst txp) [unat off + 1..<length (bs_u sh)] = Some r2"
    "case r2 of None \<Rightarrow> \<forall>i. unat off + 1 \<le> i \<longrightarrow> i < length (bs_u sh) \<longrightarrow>
        (\<forall>t. known_tx sh i = Some t \<longrightarrow> cmp_before (tx_cmp ssl) (fst txp) t)
     | Some bad \<Rightarrow> unat off + 1 \<le> unat bad \<and> unat bad < length (bs_u sh) \<and>
         (\<exists>t. known_tx sh (unat bad) = Some t \<and> \<not> cmp_before (tx_cmp ssl) (fst txp) t)"
    using order_after_eq[OF sh tx] by blast
  show ?thesis
  proof (cases r1)
    case (Some bad)
    then show ?thesis using r1 False off sorted_after_set[OF sh(2) off, of txp]
      by (auto simp: check_tx_ordering_def)
  next
    case None
    then show ?thesis using r1 r2 False size sorted_after_set[OF sh(2) off, of txp]
      by (cases r2) (auto simp: check_tx_ordering_def Suc_le_eq)
  qed
qed

subsection \<open>Linking a block into the tree\<close>

definition linked :: "heap \<Rightarrow> bptr \<Rightarrow> bptr \<Rightarrow> block \<Rightarrow> block \<Rightarrow> heap" where
  "linked h new prev pb nb = h(new \<mapsto> nb, prev \<mapsto> pb\<lparr>b_children := b_children pb @ [new]\<rparr>)"

definition fits_under :: "heap \<Rightarrow> bptr \<Rightarrow> bptr \<Rightarrow> block \<Rightarrow> block \<Rightarrow> bool" where
  \<comment> \<open>a new leaf for the block \<open>prev\<close>\<close>
  "fits_under h new prev pb nb \<longleftrightarrow>
     h new = None \<and> h prev = Some pb \<and> b_prev nb = Some prev \<and> b_children nb = [] \<and> b_all_known nb = False \<and>
     b_depth nb = Suc (b_depth pb) \<and> bh_prev_block (b_hdr nb) = b_sha pb \<and> block_ok nb \<and>
     b_complaint nb = b_complaint pb \<and> b_total_work pb < b_total_work nb"

lemma linked_old:
  assumes "fits_under h new prev pb nb" "h p = Some b"
  shows "linked h new prev pb nb p = Some (b\<lparr>b_children := b_children b @ (if p = prev then [new] else [])\<rparr>)"
  using assms by (auto simp: linked_def fits_under_def)

lemma linked_cases:
  assumes "fits_under h new prev pb nb" "linked h new prev pb nb p = Some b"
  shows "p = new \<and> b = nb \<or>
    (\<exists>b0. p \<noteq> new \<and> h p = Some b0 \<and> b = b0\<lparr>b_children := b_children b0 @ (if p = prev then [new] else [])\<rparr>)"
  using assms by (auto simp: linked_def fits_under_def split: if_splits)

lemma linked_new: "fits_under h new prev pb nb \<Longrightarrow> linked h new prev pb nb new = Some nb"
  by (auto simp: linked_def fits_under_def)

lemma linked_node_ok:
  assumes ok: "heap_ok h" and f: "fits_under h new prev pb nb" and p: "linked h new prev pb nb p = Some b"
  shows "node_ok (linked h new prev pb nb) p b"
proof -
  let ?h = "linked h new prev pb nb"
  have hp: "h prev = Some pb" and hn: "h new = None" using f by (auto simp: fits_under_def)
  from linked_cases[OF f p] show ?thesis
  proof
    assume "p = new \<and> b = nb"
    then show ?thesis using f linked_old[OF f hp] by (simp add: node_ok_def fits_under_def)
  next
    assume "\<exists>b0. p \<noteq> new \<and> h p = Some b0 \<and> b = b0\<lparr>b_children := b_children b0 @ (if p = prev then [new] else [])\<rparr>"
    then obtain b0 where b0: "h p = Some b0" "b = b0\<lparr>b_children := b_children b0 @ (if p = prev then [new] else [])\<rparr>"
      by blast
    have "node_ok h p b0" using ok b0(1) by (simp add: heap_ok_def)
    moreover have "\<exists>c. ?h q = Some c \<and> b_depth b = Suc (b_depth c) \<and> bh_prev_block (b_hdr b) = b_sha c \<and> p \<in> set (b_children c)"
      if "b_prev b0 = Some q" for q
      using heap_prev[OF ok b0(1) that] linked_old[OF f] b0(2) by fastforce
    moreover have "\<exists>kb. ?h k = Some kb \<and> b_prev kb = Some p" if "k \<in> set (b_children b)" for k
    proof (cases "k = new")
      case True
      have "new \<notin> set (b_children b0)" using heap_child[OF ok b0(1)] hn by fastforce
      then have "p = prev" using that True b0(2) by (auto split: if_splits)
      then show ?thesis using True linked_new[OF f] f by (simp add: fits_under_def)
    next
      case False
      then have "k \<in> set (b_children b0)" using that b0(2) by (auto split: if_splits)
      then obtain kb where "h k = Some kb" "b_prev kb = Some p" using heap_child[OF ok b0(1)] by blast
      then show ?thesis using linked_old[OF f] by fastforce
    qed
    moreover have "new \<notin> set (b_children b0)" using heap_child[OF ok b0(1)] hn by fastforce
    ultimately show ?thesis using b0(2) by (auto simp: node_ok_def split: option.splits)
  qed
qed

lemma linked_heap_ok:
  assumes ok: "heap_ok h" and f: "fits_under h new prev pb nb"
  shows "heap_ok (linked h new prev pb nb)"
proof -
  let ?h = "linked h new prev pb nb"
  have "p = q" if "?h p = Some b" "?h q = Some c" "b_prev b = None" "b_prev c = None" for p q b c
  proof -
    have "\<exists>b0. h r = Some b0 \<and> b_prev b0 = None" if "?h r = Some b" "b_prev b = None" for r b
      using linked_cases[OF f that(1)] that(2) f by (auto simp: fits_under_def)
    then show ?thesis using heap_root_unique[OF ok] that by metis
  qed
  then show ?thesis unfolding heap_ok_def using linked_node_ok[OF ok f] by blast
qed

definition inherits :: "heap \<Rightarrow> bool" where
  \<comment> \<open>complaints are inherited, work grows along the chain\<close>
  "inherits h \<longleftrightarrow> (\<forall>b bb p pb. h b = Some bb \<longrightarrow> b_prev bb = Some p \<longrightarrow> h p = Some pb \<longrightarrow>
     (b_complaint bb = None \<longrightarrow> b_complaint pb = None) \<and> b_total_work pb < b_total_work bb)"

lemma tree_ok_iff: "tree_ok h \<longleftrightarrow> heap_ok h \<and> blocks_total h \<and> inherits h"
  by (simp add: tree_ok_def inherits_def)

lemma linked_inherits:
  assumes ok: "heap_ok h" and inh: "inherits h" and f: "fits_under h new prev pb nb"
  shows "inherits (linked h new prev pb nb)"
proof -
  let ?h = "linked h new prev pb nb"
  have "(b_complaint bb = None \<longrightarrow> b_complaint qb = None) \<and> b_total_work qb < b_total_work bb"
    if b: "?h b = Some bb" "b_prev bb = Some q" "?h q = Some qb" for b bb q qb
  proof (cases "b = new")
    case True
    then have "bb = nb" "q = prev" using b linked_new[OF f] f by (auto simp: fits_under_def)
    then have "b_complaint qb = b_complaint pb" "b_total_work qb = b_total_work pb"
      using b(3) linked_old[OF f, of prev pb] f by (auto simp: fits_under_def)
    then show ?thesis using \<open>bb = nb\<close> f by (simp add: fits_under_def)
  next
    case False
    then obtain b0 where b0: "h b = Some b0" "b_prev b0 = Some q" "b_complaint b0 = b_complaint bb" "b_total_work b0 = b_total_work bb"
      using linked_cases[OF f b(1)] b(2) by auto
    then obtain q0 where q0: "h q = Some q0" using heap_prev[OF ok] by blast
    have "b_complaint qb = b_complaint q0" "b_total_work qb = b_total_work q0"
      using linked_old[OF f q0] b(3) by auto
    moreover have "(b_complaint b0 = None \<longrightarrow> b_complaint q0 = None) \<and> b_total_work q0 < b_total_work b0"
      using inh b0(1,2) q0 unfolding inherits_def by blast
    ultimately show ?thesis using b0(3,4) by simp
  qed
  then show ?thesis unfolding inherits_def by blast
qed

lemma linked_tree_ok:
  assumes t: "tree_ok h" and f: "fits_under h new prev pb nb"
  shows "tree_ok (linked h new prev pb nb)"
proof -
  have "blocks_total (linked h new prev pb nb)"
  proof -
    have "block_ok (b\<lparr>b_children := x\<rparr>) = block_ok b" for b x by (simp add: block_ok_def)
    then show ?thesis
      using t f linked_cases[OF f] unfolding tree_ok_def blocks_total_def fits_under_def by metis
  qed
  then show ?thesis using t linked_heap_ok[OF _ f] linked_inherits[OF _ _ f] by (simp add: tree_ok_iff)
qed

lemma linked_views:
  assumes f: "fits_under h new prev pb nb" and p: "p \<noteq> new"
  shows "live (linked h new prev pb nb) p = live h p" "all_known (linked h new prev pb nb) p = all_known h p"
    "complete (linked h new prev pb nb) p = complete h p" "work (linked h new prev pb nb) p = work h p"
    "(linked h new prev pb nb p = None) = (h p = None)"
  using f p
  by (auto simp: linked_def fits_under_def live_def all_known_def complete_def work_def block_all_known_def)

lemma tips_cong: "(\<And>b. b \<in> S \<Longrightarrow> work h' b = work h b \<and> (h' b = None) = (h b = None)) \<Longrightarrow> tips h' S arr = tips h S arr"
  unfolding tips_def best_def by auto

lemma linked_chains_inv:
  assumes inv: "chains_inv {} {} s" and f: "fits_under (st_heap s) new prev pb nb"
    and s': "st_heap s' = linked (st_heap s) new prev pb nb" "st_longest_chains s' = st_longest_chains s"
      "st_longest_knowns s' = st_longest_knowns s"
  shows "chains_inv {new} {new} s'"
proof -
  let ?h = "st_heap s" and ?h' = "linked (st_heap s) new prev pb nb"
  note v = linked_views[OF f]
  have hn: "?h new = None" using f by (simp add: fits_under_def)
  have t: "tree_ok ?h" using inv by (simp add: chains_inv_def)
  have ln: "x \<noteq> new" if "live ?h x" for x using live_in_heap[OF that] hn by blast
  have "{b. live ?h' b} - {new} = {b. live ?h b}" using v(1) ln by blast
  moreover have "{b. live ?h' b \<and> all_known ?h' b} = {b. live ?h b \<and> all_known ?h b}"
  proof -
    have "\<not> all_known ?h' new" using linked_new[OF f] f by (simp add: all_known_def fits_under_def)
    then have "live ?h' x \<and> all_known ?h' x \<longleftrightarrow> live ?h x \<and> all_known ?h x" for x
      using v(1,2)[of x] ln[of x] by (cases "x = new") auto
    then show ?thesis by simp
  qed
  moreover have "tips ?h' S arr = tips ?h S arr" if "\<forall>b \<in> S. live ?h b" for S arr
    using that v(4,5) hn by (intro tips_cong) (metis live_in_heap)
  moreover have "all_known ?h' b" if b: "live ?h' b" "b \<noteq> new" "complete ?h' b" "parent_known ?h' b" for b
  proof -
    obtain b0 where b0: "?h b = Some b0" using live_Some v(1)[OF b(2)] b(1) by blast
    then have "parent_known ?h b"
      using b(4) linked_old[OF f b0] heap_prev[of ?h b b0] t v(2) hn
      by (auto simp: parent_known_def tree_ok_def split: option.splits) (metis option.distinct(1))
    then show ?thesis using inv b v(1-3)[OF b(2)] by (simp add: chains_inv_def)
  qed
  ultimately show ?thesis
    using inv linked_tree_ok[OF t f] unfolding chains_inv_def s' by auto
qed

lemma feature_votes_cong:
  assumes "\<And>p. map_option (\<lambda>b. (b_prev b, b_hdr b)) (h p) = map_option (\<lambda>b. (b_prev b, b_hdr b)) (h' p)"
  shows "feature_votes h n b = feature_votes h' n b"
proof (induction n arbitrary: b)
  case (Suc n)
  have "do { bb \<leftarrow> h p; vs \<leftarrow> feature_votes h' n (b_prev bb); Some (bh_features_vote (b_hdr bb) # vs) } =
    do { bb \<leftarrow> h' p; vs \<leftarrow> feature_votes h' n (b_prev bb); Some (bh_features_vote (b_hdr bb) # vs) }" for p
    using assms[of p] by (cases "h p"; cases "h' p") auto
  then show ?case using Suc.IH by (cases b) simp_all
qed simp

lemma pending_features_linked:
  assumes t: "tree_ok h" and f: "fits_under h new prev pb nb"
  shows "\<exists>pf. pending_features (h(new \<mapsto> nb\<lparr>b_complaint := c\<rparr>)) new = Some pf"
proof -
  let ?h1 = "h(new \<mapsto> nb\<lparr>b_complaint := c\<rparr>)" and ?h2 = "linked h new prev pb nb"
  have fs: "h new = None" "h prev = Some pb" "b_prev nb = Some prev" "0 < b_depth nb" using f by (auto simp: fits_under_def)
  then have "map_option (\<lambda>b. (b_prev b, b_hdr b)) (?h1 p) = map_option (\<lambda>b. (b_prev b, b_hdr b)) (?h2 p)" for p
    by (auto simp: linked_def)
  then have v: "feature_votes ?h1 n b = feature_votes ?h2 n b" for n b by (rule feature_votes_cong)
  have "heap_ok ?h2" using linked_tree_ok[OF t f] by (simp add: tree_ok_def)
  from pending_features_eq[OF this linked_new[OF f] fs(4)] show ?thesis
    using fs linked_new[OF f] linked_old[OF f fs(2)] unfolding pending_features_def v
    by (auto split: if_splits Option.bind_splits simp: c_simps)
qed

definition add_level :: "bptr list list \<Rightarrow> nat \<Rightarrow> bptr \<Rightarrow> bptr list list" where
  "add_level levels n b = (let l = (if n < length levels then levels else levels @ [[]]) in l[n := l ! n @ [b]])"

lemma linked_levels_ok:
  assumes lv: "levels_ok s" and f: "fits_under (st_heap s) new prev pb nb"
    and s': "st_heap s' = linked (st_heap s) new prev pb nb" "st_block_depth s' = add_level (st_block_depth s) (b_depth nb) new"
  shows "levels_ok s'"
proof -
  let ?L = "st_block_depth s" and ?L' = "st_block_depth s'" and ?n = "b_depth nb"
  have fs: "st_heap s new = None" "st_heap s prev = Some pb" "?n = Suc (b_depth pb)" using f by (auto simp: fits_under_def)
  then have n: "?n \<le> length ?L" using lv by (fastforce simp: levels_ok_def)
  have len: "length ?L' = max (length ?L) (Suc ?n)" using n unfolding s' by (auto simp: add_level_def Let_def)
  have at: "?L' ! k = (if k < length ?L then ?L ! k else []) @ (if k = ?n then [new] else [])" if "k < length ?L'" for k
    using that n unfolding s' by (auto simp: add_level_def Let_def nth_append)
  have old: "\<exists>c. st_heap s' b = Some c \<and> b_depth c = b_depth bb" if "st_heap s b = Some bb" for b bb
    using linked_old[OF f that] by (simp add: s')
  have "\<exists>bb. st_heap s' b = Some bb \<and> b_depth bb = k" if k: "k < length ?L'" and b: "b \<in> set (?L' ! k)" for k b
  proof (cases "k < length ?L \<and> b \<in> set (?L ! k)")
    case True
    then obtain bb where "st_heap s b = Some bb" "b_depth bb = k" using lv by (auto simp: levels_ok_def)
    then show ?thesis using old by blast
  next
    case False
    then have "b = new \<and> k = ?n" using b at[OF k] by (auto split: if_splits)
    then show ?thesis using linked_new[OF f] by (simp add: s')
  qed
  moreover have "b_depth bb < length ?L' \<and> b \<in> set (?L' ! b_depth bb)" if b: "st_heap s' b = Some bb" for b bb
  proof (cases "b = new")
    case True
    then show ?thesis using b linked_new[OF f] at[of ?n] len by (simp add: s')
  next
    case False
    then obtain b0 where b0: "st_heap s b = Some b0" "b_depth bb = b_depth b0" using linked_cases[OF f b[unfolded s']] by auto
    then have "b_depth b0 < length ?L" "b \<in> set (?L ! b_depth b0)" using lv by (auto simp: levels_ok_def)
    then show ?thesis using at[of "b_depth b0"] len b0(2) by simp
  qed
  ultimately show ?thesis unfolding levels_ok_def by blast
qed

lemma link_block_ok:
  assumes inv: "chains_inv {} {} s" and lv: "levels_ok s" and ssl: "bn_ok (rt_ssl rt)"
    and new: "st_heap s new = None" and p: "st_heap s prev = Some pb"
    and wf: "wf_block_parts parts" "bh_shard_order (bp_hdr parts) \<le> PROTOCOL_MAX_SHARD_ORDER"
    and hdr: "bh_prev_block (bp_hdr parts) = b_sha pb" "b_depth pb < 2 ^ 32 - 1" "bh_depth (bp_hdr parts) = bh_depth (b_hdr pb) + 1"
    and d: "valid_difficulty (bt_difficulty (bp_tailer parts))"
  shows "\<exists>s1 nb. link_block rt s new prev sha parts = Some s1 \<and> fits_under (st_heap s) new prev pb nb \<and>
    st_heap s1 = linked (st_heap s) new prev pb nb \<and> b_sha nb = sha \<and> b_parts nb = parts \<and>
    levels_ok s1 \<and> chains_inv {new} {new} s1"
proof -
  have t: "tree_ok (st_heap s)" and ok: "heap_ok (st_heap s)" using inv by (auto simp: chains_inv_def tree_ok_def)
  obtain w where w: "total_work_done (rt_ssl rt) (bt_difficulty (bp_tailer parts)) (b_total_work pb) = Some w" "b_total_work pb < w"
    using total_work_grows[OF ssl d] by blast
  define n where "n = unat (num_shards (bp_hdr parts))"
  have "n \<le> length (bp_shard_nums parts)"
    using wf num_shards_nat[of "bp_hdr parts"] by (simp add: n_def wf_block_parts_def word_le_nat_alt c_simps)
  then obtain nums where "c_slice (bp_shard_nums parts) 0 n = Some nums" by (auto simp: c_slice_def)
  then obtain blk where blk: "new_block (rt_ssl rt) (b_total_work pb) sha parts = Some blk"
      "b_total_work blk = w" "b_children blk = []" "b_all_known blk = False" "b_sha blk = sha" "b_parts blk = parts"
      "b_pending_features blk = 0" "b_complaint blk = None"
    using w(1) by (simp add: new_block_def Let_def flip: n_def)
  have bok: "block_ok blk" using new_block_ok[OF blk(1) wf] .
  have dep: "unat (bh_depth (bp_hdr parts)) = Suc (b_depth pb)" using hdr(2,3) by (simp add: unat_word_ariths)
  define nb where "nb pf = blk\<lparr>b_prev := Some prev, b_pending_features := pf, b_complaint := b_complaint pb\<rparr>" for pf
  have fit: "fits_under (st_heap s) new prev pb (nb pf)" for pf
    using new p blk(2-) w(2) bok dep hdr(1) by (auto simp: nb_def fits_under_def block_ok_def)
  have "(nb 0)\<lparr>b_complaint := None\<rparr> = blk\<lparr>b_prev := Some prev\<rparr>" using blk(7,8) by (simp add: nb_def)
  then obtain pf where pf: "pending_features ((st_heap s)(new \<mapsto> blk\<lparr>b_prev := Some prev\<rparr>)) new = Some pf"
    using pending_features_linked[OF t fit[of 0], of None] by auto
  have lt: "b_depth pb < length (st_block_depth s)" using lv p by (auto simp: levels_ok_def)
  define lev where "lev = add_level (st_block_depth s) (Suc (b_depth pb)) new"
  define s1 where "s1 = emit (Save_block new)
    (s\<lparr>st_heap := linked (st_heap s) new prev pb (nb pf), st_block_depth := lev\<rparr>)"
  have "link_block rt s new prev sha parts = Some s1"
    using p blk(1) dep pf lt
    by (auto simp: link_block_def s1_def lev_def add_level_def linked_def nb_def Let_def not_less_eq_eq c_assert_def)
  moreover have "levels_ok s1"
    by (rule linked_levels_ok[OF lv fit[of pf]]) (use blk(6) dep in \<open>simp_all add: s1_def lev_def nb_def emit_def\<close>)
  moreover have "chains_inv {new} {new} s1" by (rule linked_chains_inv[OF inv fit[of pf]]) (simp_all add: s1_def emit_def)
  ultimately show ?thesis using fit blk(5,6) by (intro exI[of _ s1] exI[of _ "nb pf"]) (simp add: s1_def nb_def emit_def)
qed

text \<open>
  C4. A block whose header is accepted can be put into the tree: \<open>block_add\<close> links it under the
  block named by its header, at the end of the level of its depth; the store stays a tree in which
  the work grows and complaints are inherited, the levels list exactly the blocks of the store, and
  the arrays of longest chains and longest known chains are right again once
  \<open>update_block_ptrs_new_block\<close> has run (for a block that inherits a complaint, at once).
\<close>

theorem accepted_block_is_linked:
  assumes inv: "chains_inv {} {} s" and lv: "levels_ok s" "length (st_block_depth s) < 2 ^ 32" and ssl: "bn_ok (rt_ssl rt)"
    and new: "st_heap s new = None" and wf: "wf_block_parts parts"
    and hdr: "check_block_header rt s parts = Some (PROTOCOL_ECODE_NONE, prev, sha)"
  shows "\<exists>p pb x s1 nb. prev = Some p \<and> sha = Some x \<and> st_heap s p = Some pb \<and> b_sha pb = bh_prev_block (bp_hdr parts) \<and>
    link_block rt s new p x parts = Some s1 \<and> st_heap s1 new = Some nb \<and> b_parts nb = parts \<and> b_sha nb = x \<and>
    b_prev nb = Some p \<and> b_depth nb = Suc (b_depth pb) \<and> b_complaint nb = b_complaint pb \<and>
    b_total_work pb < b_total_work nb \<and> levels_ok s1 \<and>
    (if b_complaint nb = None
     then \<exists>s2. update_block_ptrs_new_block (rt_ssl rt) s1 new = Some s2 \<and> chains_inv {} {} s2 \<and> preferred_ok s2
     else chains_inv {} {} s1)"
proof -
  from check_block_header_NONE[OF hdr] obtain p pb x where h: "prev = Some p" "sha = Some x" "st_heap s p = Some pb"
      "beats_target x (bt_difficulty (bp_tailer parts)) = Some True"
      "block_find_any s (bh_prev_block (bp_hdr parts)) = Some (Some p)"
      "bh_shard_order (bp_hdr parts) = next_shard_order" "bh_depth (bp_hdr parts) = bh_depth (b_hdr pb) + 1"
    by blast
  have sha: "bh_prev_block (bp_hdr parts) = b_sha pb"
    using block_find_any_eq[OF lv(1), of "bh_prev_block (bp_hdr parts)"] h(3,5) by auto
  have "b_depth pb < length (st_block_depth s)" using lv(1) h(3) by (auto simp: levels_ok_def)
  then have d: "b_depth pb < 2 ^ 32 - 1" using lv(2) by simp
  have "valid_difficulty (bt_difficulty (bp_tailer parts))"
    using h(4) by (auto simp: beats_target_def valid_difficulty_def Let_def bind_eq_Some_conv c_assert_def split: if_splits)
  moreover have "bh_shard_order (bp_hdr parts) \<le> PROTOCOL_MAX_SHARD_ORDER" using h(6) by (simp add: next_shard_order_def c_simps)
  ultimately obtain s1 nb where s1: "link_block rt s new p x parts = Some s1" "fits_under (st_heap s) new p pb nb"
      "st_heap s1 = linked (st_heap s) new p pb nb" "b_sha nb = x" "b_parts nb = parts" "levels_ok s1" "chains_inv {new} {new} s1"
    using link_block_ok[OF inv lv(1) ssl new h(3) wf _ sha d h(7)] by blast
  have n: "st_heap s1 new = Some nb" using s1(3) linked_new[OF s1(2)] by simp
  have f: "b_prev nb = Some p" "b_children nb = []" "b_depth nb = Suc (b_depth pb)" "b_complaint nb = b_complaint pb"
      "b_total_work pb < b_total_work nb"
    using s1(2) by (auto simp: fits_under_def)
  have "if b_complaint nb = None
     then \<exists>s2. update_block_ptrs_new_block (rt_ssl rt) s1 new = Some s2 \<and> chains_inv {} {} s2 \<and> preferred_ok s2
     else chains_inv {} {} s1"
  proof (cases "b_complaint nb = None")
    case True
    then show ?thesis using new_block_inv[OF s1(7) ssl n f(2)] by simp
  next
    case False
    then have "\<not> live (st_heap s1) new" using n by (simp add: live_def)
    then show ?thesis using False s1(7) by (auto simp: chains_inv_def Diff_insert0)
  qed
  then show ?thesis using h(1-3) sha s1 n f by metis
qed

subsection \<open>Examples\<close>

definition easy_runtime :: runtime where
  \<comment> \<open>a digest that meets every difficulty\<close>
  "easy_runtime = ex_runtime\<lparr>rt_ssl := model_openssl\<lparr>SHA256 := \<lambda>_. 1 # replicate 31 0\<rparr>\<rparr>"

definition ex_next_parts :: "u32 \<Rightarrow> block_parts" where
  "ex_next_parts difficulty = (ex_chain_parts 1)
     \<lparr>bp_hdr := bp_hdr (ex_chain_parts 1)\<lparr>bh_shard_order := 2\<rparr>, bp_shard_nums := [0, 0, 0, 0],
      bp_merkles := replicate 4 (replicate 32 0),
      bp_tailer := bp_tailer (ex_chain_parts 1)\<lparr>bt_difficulty := difficulty\<rparr>\<rparr>"

lemma easy_hash: "hash_block (rt_ssl easy_runtime) (ex_next_parts d) = Some (1 # replicate 31 0)"
  by (simp add: hash_block_def ex_next_parts_def ex_chain_parts_def easy_runtime_def SHA256_Double_Final_def
      c_slice_def length_concat sum_list_replicate)

lemma easy_beats: "beats_target (1 # replicate 31 0) 0x1E01FFFF = Some True"
proof -
  have "trailing_zeroes (1 # replicate 31 0) 30 2 = Some True" by (simp add: numeral_2_eq_2 c_nth_def nth_Cons')
  then show ?thesis by (simp add: beats_target_def ex_compact Let_def c_nth_def nth_Cons')
qed

lemma ex_next_accepted:
  "check_block_header easy_runtime (ex_state 0) (ex_next_parts 0x1E01FFFF) =
     Some (PROTOCOL_ECODE_NONE, Some 0, Some (1 # replicate 31 0))"
proof -
  have s: "st_heap (ex_state 0) 0 = Some (ex_block 0 0)" "st_block_depth (ex_state 0) = [[0]]"
    by (simp_all add: ex_state_def ex_heap_def)
  have b: "b_prev (ex_block 0 0) = None" "b_sha (ex_block 0 0) = nat_le 32 0" "b_parts (ex_block 0 0) = ex_chain_parts 0"
    by (simp_all add: ex_block_def)
  have "block_find_any (ex_state 0) (bh_prev_block (bp_hdr (ex_next_parts 0x1E01FFFF))) = Some (Some 0)"
    using block_find_any_eq[OF ex_levels_ok[of 0], of "nat_le 32 0"]
    by (auto simp: ex_next_parts_def ex_chain_parts_def ex_state_def ex_heap_def ex_block_def split: option.splits if_splits)
  moreover have "check_timestamp easy_runtime (ex_state 0) 600 0 = Some True"
  proof -
    have "recent_times (st_heap (ex_state 0)) (Suc 10) 0 = Some []" using s b unfolding recent_times.simps by simp
    then show ?thesis by (simp add: check_timestamp_def easy_runtime_def ex_runtime_ok)
  qed
  moreover have "get_difficulty (rt_ssl easy_runtime) (ex_state 0) 0 = Some 0x1E01FFFF"
    using s b by (simp add: get_difficulty_def ex_chain_parts_def c_simps)
  moreover have "version_ok (bh_version (bp_hdr (ex_next_parts d)))" "bt_difficulty (bp_tailer (ex_next_parts d)) = d"
      "bt_timestamp (bp_tailer (ex_next_parts d)) = 600" "bh_shard_order (bp_hdr (ex_next_parts d)) = next_shard_order"
      "bh_depth (bp_hdr (ex_next_parts d)) = bh_depth (b_hdr (ex_block 0 0)) + 1" for d
    using b(3) by (simp_all add: ex_next_parts_def ex_chain_parts_def next_shard_order_def version_ok_def current_version_def c_simps)
  ultimately show ?thesis using easy_hash s easy_beats by (simp add: check_block_header_def Let_def)
qed

theorem header_difficulty_crashes_witness:
  "check_block_header easy_runtime (ex_state 0) (ex_next_parts 0) = None"
  by (rule header_difficulty_crashes) (simp_all add: ex_next_parts_def ex_chain_parts_def diff_exp_def version_ok_def current_version_def)

theorem accepted_block_is_linked_witness:
  "\<exists>p pb x s1 nb. Some 0 = Some p \<and> Some (1 # replicate 31 0) = Some x \<and> st_heap (ex_state 0) p = Some pb \<and>
    b_sha pb = bh_prev_block (bp_hdr (ex_next_parts 0x1E01FFFF)) \<and>
    link_block easy_runtime (ex_state 0) 1 p x (ex_next_parts 0x1E01FFFF) = Some s1 \<and> st_heap s1 1 = Some nb \<and>
    b_parts nb = ex_next_parts 0x1E01FFFF \<and> b_sha nb = x \<and>
    b_prev nb = Some p \<and> b_depth nb = Suc (b_depth pb) \<and> b_complaint nb = b_complaint pb \<and>
    b_total_work pb < b_total_work nb \<and> levels_ok s1 \<and>
    (if b_complaint nb = None
     then \<exists>s2. update_block_ptrs_new_block (rt_ssl easy_runtime) s1 1 = Some s2 \<and> chains_inv {} {} s2 \<and> preferred_ok s2
     else chains_inv {} {} s1)"
proof (rule accepted_block_is_linked[OF ex_chain_all_known ex_levels_ok])
  show "bn_ok (rt_ssl easy_runtime)" using bn_ok_model by (simp add: easy_runtime_def bn_ok_def)
  show "wf_block_parts (ex_next_parts 0x1E01FFFF)"
    by (simp add: wf_block_parts_def wf_header_def ex_next_parts_def ex_chain_parts_def list_all_iff)
qed (use ex_next_accepted in \<open>simp_all add: ex_state_def ex_heap_def\<close>)

theorem check_tx_ordering_correct_witness:
  "\<exists>r. check_tx_ordering model_openssl (new_block_shard 0 2) 1 ex_normal = Some r \<and>
    (r = None \<longleftrightarrow> sorted_shard model_openssl (set_tx_slot (new_block_shard 0 2) 1 (ex_normal, [ex_ref])))"
proof -
  have "known_tx (new_block_shard 0 2) i = None" if "i < 2" for i
    using that by (simp add: known_tx_def new_block_shard_def)
  then have "sorted_shard model_openssl (new_block_shard 0 2)" "all_orderable model_openssl (new_block_shard 0 2)"
      "length (bs_u (new_block_shard 0 2)) = 2"
    by (auto simp: sorted_shard_def all_orderable_def new_block_shard_def)
  then show ?thesis
    using check_tx_ordering_correct[of "new_block_shard 0 2" model_openssl "(ex_normal, [ex_ref])" 1]
      ex_orderable_normal(1) shard_ok_new[of 0 2] by auto
qed

end
