(* ===== verification/Receive.thy ===== *)
theory Receive
  imports Check_block
begin

text \<open>
  \<open>recv_block.c\<close> and \<open>recv_tx.c\<close>: what the daemon does with a block, the hashes of a shard, or a
  proven transaction that a peer (\<open>Some k\<close>: the \<open>k\<close>-th of \<open>st_peers\<close>), the block generator or the
  block file (\<open>None\<close>) gives it. A packet is the byte string the peer sent; its length field is read
  from it, and a read outside of it is \<open>None\<close>. Every handler returns the error code and the new state.
\<close>

subsection \<open>Reading the structures of a packet\<close>

definition dec_ref :: "bytes \<Rightarrow> protocol_input_ref" where
  "dec_ref bs = \<lparr>ref_blocks_ago = le32_to_cpu (slice 0 4 bs), ref_shard = le16_to_cpu (slice 4 2 bs),
     ref_txoff = bs ! 6, ref_unused = bs ! 7\<rparr>"

definition dec_txrefhash :: "bytes \<Rightarrow> protocol_txrefhash" where
  "dec_txrefhash bs = \<lparr>trh_txhash = slice 0 32 bs, trh_refhash = slice 32 32 bs\<rparr>"

definition dec_position :: "bytes \<Rightarrow> protocol_position" where
  "dec_position bs = \<lparr>pos_block = slice 0 32 bs, pos_shard = le16_to_cpu (slice 32 2 bs), pos_txoff = bs ! 34,
     pos_unused = bs ! 35\<rparr>"

definition dec_proof :: "bytes \<Rightarrow> protocol_proof" where
  "dec_proof bs = \<lparr>pr_pos = dec_position bs, pr_merkles = dec_array id 32 8 36 bs\<rparr>"

subsection \<open>recv\_block.c: blocks\<close>

definition seek_predecessor :: "state \<Rightarrow> sha \<Rightarrow> sha \<Rightarrow> state option" where
  "seek_predecessor s sha prev =
     do { pb \<leftarrow> st_heap s (st_preferred_chain s);
          let diff = difficulty_one_sixteenth (bt_difficulty (b_tailer pb));
          beats \<leftarrow> beats_target sha diff;
          Some (if \<not> beats then s else todo_add_get_block s prev) }"

definition sync_block_contents :: "state \<Rightarrow> block \<Rightarrow> state option" where
  "sync_block_contents s b =
     ofold (\<lambda>shard s. do {
         sh \<leftarrow> c_nth (b_shard b) shard;
         if shard_all_known sh then Some s
         else do {
           i \<leftarrow> interested_in_shard (st_interests s) (unat (bh_shard_order (b_hdr b))) (word_of_nat shard);
           Some (if i then todo_add_get_shard s (b_sha b) (word_of_nat shard)
                 else todo_add_get_txmap s (b_sha b) (word_of_nat shard)) } })
       [0..<unat (num_shards (b_hdr b))] s"

definition ask_block_contents :: "state \<Rightarrow> block \<Rightarrow> state option" where
  "ask_block_contents s b =
     ofold (\<lambda>shard s. do {
         i \<leftarrow> interested_in_shard (st_interests s) (unat (bh_shard_order (b_hdr b))) (word_of_nat shard);
         if \<not> i then Some s
         else do {
           sh \<leftarrow> c_nth (b_shard b) shard;
           Some (if \<not> shard_all_hashes sh then todo_add_get_shard s (b_sha b) (word_of_nat shard) else s) } })
       [0..<unat (num_shards (b_hdr b))] s"

definition tell_new_block :: "runtime \<Rightarrow> state \<Rightarrow> nat option \<Rightarrow> bptr \<Rightarrow> state option" where
  \<comment> \<open>after \<open>block_add\<close>: check the previous hashes, then ask about the contents or tell the peers\<close>
  "tell_new_block rt s pr b =
     do { bb \<leftarrow> st_heap s b;
          bad \<leftarrow> check_prev_txhashes (rt_ssl rt) (st_heap s) bb;
          (case bad of
             Some _ \<Rightarrow> Some s
           | None \<Rightarrow> do {
               syncing \<leftarrow> (case pr of None \<Rightarrow> Some False
                             | Some k \<Rightarrow> do { p \<leftarrow> c_nth (st_peers s) k; Some (p_we_are_syncing p) });
               if syncing then sync_block_contents (todo_add_get_children s (b_sha bb)) bb
               else do {
                 s1 \<leftarrow> send_block_to_peers s pr b;
                 (case pr of None \<Rightarrow> Some s1 | Some _ \<Rightarrow> ask_block_contents s1 bb) } }) }"

definition tell_complaint :: "state \<Rightarrow> nat option \<Rightarrow> block \<Rightarrow> state option" where
  \<comment> \<open>if the block is known bad, tell them\<close>
  "tell_complaint s pr bb =
     (case (pr, b_complaint bb) of
        (Some k, Some c) \<Rightarrow> do { pkt \<leftarrow> tal_packet_dup c; todo_for_peer s k pkt }
      | _ \<Rightarrow> Some s)"

definition recv_block ::
    "runtime \<Rightarrow> state \<Rightarrow> bptr \<Rightarrow> nat option \<Rightarrow> bytes \<Rightarrow> (protocol_ecode \<times> bptr option \<times> state) option" where
  \<comment> \<open>\<open>new\<close> is the address \<open>block_add\<close> gets for the new block; the second component is \<open>*block\<close>,
     \<open>None\<close> where the function returns without setting it\<close>
  "recv_block rt s new pr pkt =
     do { u \<leftarrow> unmarshal_block pkt;
          (case u of
             Inl e \<Rightarrow> Some (e, None, s)
           | Inr parts \<Rightarrow> do {
               (e, prev, sha) \<leftarrow> check_block_header rt s parts;
               if e \<noteq> PROTOCOL_ECODE_NONE then
                 (case pr of
                    None \<Rightarrow> Some (e, None, s)
                  | Some k \<Rightarrow> do {
                      x \<leftarrow> sha;
                      s1 \<leftarrow> (if e = PROTOCOL_ECODE_PRIV_UNKNOWN_PREV
                             then do { s1 \<leftarrow> seek_predecessor s x (bh_prev_block (bp_hdr parts));
                                       todo_done_get_block s1 k x True }
                             else todo_done_get_block s k x False);
                      Some (PROTOCOL_ECODE_NONE, None, s1) })
               else do {
                 p \<leftarrow> prev; x \<leftarrow> sha;
                 s1 \<leftarrow> (case pr of None \<Rightarrow> Some s | Some k \<Rightarrow> todo_done_get_block s k x True);
                 num_ok \<leftarrow> check_num_prev_txhashes (st_heap s1) (Some p) (bp_hdr parts);
                 if \<not> num_ok then Some (PROTOCOL_ECODE_BAD_PREV_TXHASHES, None, s1)
                 else do {
                   known \<leftarrow> block_find_any s1 x;
                   (b, s2) \<leftarrow> (case known of
                       Some b \<Rightarrow> Some (b, s1)
                     | None \<Rightarrow> do {
                         sa \<leftarrow> block_add rt s1 new p x parts;
                         sb \<leftarrow> tell_new_block rt sa pr new;
                         Some (new, sb) });
                   bb \<leftarrow> st_heap s2 b;
                   s3 \<leftarrow> tell_complaint s2 pr bb;
                   Some (PROTOCOL_ECODE_NONE, Some b, s3) } } }) }"

subsection \<open>recv\_block.c: shards\<close>

fun find_tx_loop ::
    "runtime \<Rightarrow> state \<Rightarrow> bptr \<Rightarrow> protocol_txrefhash \<Rightarrow> txhash_elem list
     \<Rightarrow> (protocol_tx \<times> protocol_input_ref list) option option" where
  "find_tx_loop rt s block h [] = Some None"
| "find_tx_loop rt s block h (te # tes) =
     do { t \<leftarrow> txhash_tx (st_heap s) te;
          (case t of
             None \<Rightarrow> find_tx_loop rt s block h tes
           | Some tx \<Rightarrow> do {
               r \<leftarrow> create_refs rt s block tx 0;
               (case r of
                  None \<Rightarrow> find_tx_loop rt s block h tes
                | Some refs \<Rightarrow> do {
                    sha \<leftarrow> hash_refs (rt_ssl rt) refs (length refs);
                    if trh_refhash h \<noteq> sha then find_tx_loop rt s block h tes
                    else do { txp \<leftarrow> txptr_with_ref tx refs; Some (Some txp) } }) }) }"

definition find_tx_with_ref ::
    "runtime \<Rightarrow> state \<Rightarrow> bptr \<Rightarrow> protocol_txrefhash \<Rightarrow> (protocol_tx \<times> protocol_input_ref list) option option" where
  "find_tx_with_ref rt s block h = find_tx_loop rt s block h (txhash_vals rt (st_txhash s) (trh_txhash h))"

definition try_resolve_hash :: "runtime \<Rightarrow> state \<Rightarrow> nat option \<Rightarrow> bptr \<Rightarrow> u16 \<Rightarrow> u8 \<Rightarrow> (bool \<times> state) option" where
  "try_resolve_hash rt s source block shardnum txoff =
     do { bb \<leftarrow> st_heap s block;
          shard \<leftarrow> c_nth (b_shard bb) (unat shardnum);
          slot \<leftarrow> c_nth (bs_u shard) (unat txoff);
          (case slot of
             Txp _ \<Rightarrow> c_abort
           | Hash h \<Rightarrow> do {
               f \<leftarrow> find_tx_with_ref rt s block h;
               (case f of
                  None \<Rightarrow> Some (False, s)
                | Some (tx, refs) \<Rightarrow> do {
                    conflict \<leftarrow> check_tx_ordering (rt_ssl rt) shard txoff tx;
                    (case conflict of
                       Some conflict_txoff \<Rightarrow> do {
                         prf \<leftarrow> create_proof (rt_ssl rt) bb shardnum txoff;
                         s1 \<leftarrow> complain_misorder rt s block prf tx refs conflict_txoff;
                         Some (True, s1) }
                     | None \<Rightarrow> do {
                         s1 \<leftarrow> put_tx_in_shard rt s source block shardnum txoff (tx, refs);
                         Some (True, s1) }) }) }) }"

fun try_resolve_loop :: "runtime \<Rightarrow> nat option \<Rightarrow> bptr \<Rightarrow> u16 \<Rightarrow> bool \<Rightarrow> nat list \<Rightarrow> state \<Rightarrow> state option" where
  "try_resolve_loop rt source block shard add_todos [] s = Some s"
| "try_resolve_loop rt source block shard add_todos (i # is) s =
     do { bb \<leftarrow> st_heap s block;
          if b_complaint bb \<noteq> None then Some s
          else do {
            sh \<leftarrow> c_nth (b_shard bb) (unat shard);
            istx \<leftarrow> shard_is_tx sh (word_of_nat i);
            if istx then try_resolve_loop rt source block shard add_todos is s
            else do {
              (resolved, s1) \<leftarrow> try_resolve_hash rt s source block shard (word_of_nat i);
              try_resolve_loop rt source block shard add_todos is
                (if \<not> resolved \<and> add_todos then todo_add_get_tx_in_block s1 (b_sha bb) shard (word_of_nat i) else s1) } } }"

definition try_resolve_hashes :: "runtime \<Rightarrow> state \<Rightarrow> nat option \<Rightarrow> bptr \<Rightarrow> u16 \<Rightarrow> bool \<Rightarrow> state option" where
  "try_resolve_hashes rt s source block shard add_todos =
     do { bb \<leftarrow> st_heap s block;
          n \<leftarrow> c_nth (b_shard_nums bb) (unat shard);
          try_resolve_loop rt source block shard add_todos [0..<unat n] s }"

definition put_hashes :: "runtime \<Rightarrow> bptr \<Rightarrow> u16 \<Rightarrow> protocol_txrefhash list \<Rightarrow> nat list \<Rightarrow> state \<Rightarrow> state option" where
  \<comment> \<open>the loop of \<open>recv_shard\<close>\<close>
  "put_hashes rt b shard hashes is s =
     ofold (\<lambda>i s. do { h \<leftarrow> c_nth hashes i; map_option snd (put_txhash_in_shard rt s b shard (word_of_nat i) h) }) is s"

definition shard_error ::
    "state \<Rightarrow> nat option \<Rightarrow> bytes \<Rightarrow> sha \<Rightarrow> u16 \<Rightarrow> u16 \<Rightarrow> (protocol_ecode \<times> state) option" where
  \<comment> \<open>the branch of \<open>recv_shard\<close> for a packet that carries an error code\<close>
  "shard_error s pr pkt blk shard err =
     do { len \<leftarrow> rd32 pkt 0;
          if len \<noteq> 44 then Some (PROTOCOL_ECODE_INVALID_LEN, s)
          else do {
            s1 \<leftarrow> (case pr of None \<Rightarrow> Some s | Some k \<Rightarrow> todo_done_get_shard s k blk shard False);
            if ucast err = ecode_code PROTOCOL_ECODE_UNKNOWN_BLOCK then do {
              s2 \<leftarrow> (case pr of None \<Rightarrow> Some s1 | Some k \<Rightarrow> todo_done_get_block s1 k blk False);
              Some (PROTOCOL_ECODE_NONE, s2) }
            else if ucast err \<noteq> ecode_code PROTOCOL_ECODE_UNKNOWN_SHARD
            then Some (PROTOCOL_ECODE_UNKNOWN_ERRCODE, s1)
            else Some (PROTOCOL_ECODE_NONE, s1) } }"

definition recv_shard ::
    "runtime \<Rightarrow> state \<Rightarrow> nat option \<Rightarrow> bytes \<Rightarrow> (protocol_ecode \<times> state) option" where
  "recv_shard rt s pr pkt =
     do { len \<leftarrow> rd32 pkt 0;
          if len < 44 then Some (PROTOCOL_ECODE_INVALID_LEN, s)
          else do {
            blk \<leftarrow> c_slice pkt 8 32;
            shard \<leftarrow> rd16 pkt 40;
            err \<leftarrow> rd16 pkt 42;
            found \<leftarrow> block_find_any s blk;
            (case found of
               None \<Rightarrow> Some (PROTOCOL_ECODE_NONE, todo_add_get_block s blk)
             | Some b \<Rightarrow> do {
                 bb \<leftarrow> st_heap s b;
                 if b_complaint bb \<noteq> None then do {
                   s1 \<leftarrow> tell_complaint s pr bb; Some (PROTOCOL_ECODE_NONE, s1) }
                 else if unat shard \<ge> unat (num_shards (b_hdr bb)) then Some (PROTOCOL_ECODE_BAD_SHARDNUM, s)
                 else if ucast err \<noteq> ecode_code PROTOCOL_ECODE_NONE then shard_error s pr pkt blk shard err
                 else do {
                   num \<leftarrow> c_nth (b_shard_nums bb) (unat shard);
                   if unat len \<noteq> 44 + 64 * unat num then Some (PROTOCOL_ECODE_INVALID_LEN, s)
                   else if num = 0 then Some (PROTOCOL_ECODE_INVALID_LEN, s)
                   else do {
                     bs \<leftarrow> c_slice pkt 44 (64 * unat num);
                     let hashes = dec_array dec_txrefhash 64 (unat num) 0 bs;
                     merkle \<leftarrow> merkle_hashes (rt_ssl rt) hashes 0 (unat num);
                     m \<leftarrow> c_nth (b_merkles bb) (unat shard);
                     if m \<noteq> merkle then Some (PROTOCOL_ECODE_BAD_MERKLE, s)
                     else do {
                       s1 \<leftarrow> (case pr of None \<Rightarrow> Some s | Some k \<Rightarrow> todo_done_get_shard s k blk shard True);
                       s2 \<leftarrow> put_hashes rt b shard hashes [0..<unat num] s1;
                       s3 \<leftarrow> try_resolve_hashes rt s2 pr b shard (pr \<noteq> None);
                       Some (PROTOCOL_ECODE_NONE, s3) } } } }) } }"

definition recv_block_from_peer :: "runtime \<Rightarrow> state \<Rightarrow> bptr \<Rightarrow> nat \<Rightarrow> bytes \<Rightarrow> (protocol_ecode \<times> state) option" where
  \<comment> \<open>the log message reads the depth of the block, whether \<open>recv_block\<close> has set it or not\<close>
  "recv_block_from_peer rt s new k pkt =
     do { err \<leftarrow> rd32 pkt 8;
          c_assert (err = ecode_code PROTOCOL_ECODE_NONE);
          (e, b, s1) \<leftarrow> recv_block rt s new (Some k) pkt;
          if e = PROTOCOL_ECODE_NONE then do { p \<leftarrow> b; bb \<leftarrow> st_heap s1 p; Some (e, s1) }
          else Some (e, s1) }"

definition recv_shard_from_peer :: "runtime \<Rightarrow> state \<Rightarrow> nat \<Rightarrow> bytes \<Rightarrow> (protocol_ecode \<times> state) option" where
  "recv_shard_from_peer rt s k pkt = recv_shard rt s (Some k) pkt"

fun recv_generated_shards :: "runtime \<Rightarrow> bptr \<Rightarrow> nat \<Rightarrow> bytes list \<Rightarrow> state \<Rightarrow> (bool \<times> state) option" where
  \<comment> \<open>the loop of \<open>recv_block_from_generator\<close>, at the \<open>i\<close>-th shard\<close>
  "recv_generated_shards rt b i [] s = Some (True, s)"
| "recv_generated_shards rt b i (pkt # pkts) s =
     do { bb \<leftarrow> st_heap s b;
          n \<leftarrow> c_nth (b_shard_nums bb) i;
          if n = 0 then recv_generated_shards rt b (Suc i) pkts s
          else do {
            (e, s1) \<leftarrow> recv_shard rt s None pkt;
            if e \<noteq> PROTOCOL_ECODE_NONE then Some (False, s1)
            else recv_generated_shards rt b (Suc i) pkts s1 } }"

definition recv_block_from_generator ::
    "runtime \<Rightarrow> state \<Rightarrow> bptr \<Rightarrow> bytes \<Rightarrow> bytes list \<Rightarrow> (bool \<times> state) option" where
  "recv_block_from_generator rt s new pkt shards =
     do { err \<leftarrow> rd32 pkt 8;
          if err \<noteq> ecode_code PROTOCOL_ECODE_NONE then Some (False, s)
          else do {
            (e, b, s1) \<leftarrow> recv_block rt s new None pkt;
            if e \<noteq> PROTOCOL_ECODE_NONE then Some (False, s1)
            else do {
              p \<leftarrow> b;
              (good, s2) \<leftarrow> recv_generated_shards rt p 0 shards s1;
              if \<not> good then Some (False, s2)
              else do {
                bb \<leftarrow> st_heap s2 p;
                known \<leftarrow> block_all_known bb;
                s3 \<leftarrow> recheck_pending_txs rt s2;
                Some (True, s3) } } } }"

subsection \<open>recv\_tx.c\<close>

definition recv_tx_error :: "state \<Rightarrow> nat option \<Rightarrow> u32 \<Rightarrow> nat \<Rightarrow> bytes \<Rightarrow> (protocol_ecode \<times> state) option" where
  \<comment> \<open>the branch of \<open>recv_tx\<close> for a packet with an error code; \<open>body\<close> follows the packet header\<close>
  "recv_tx_error s pr e len body =
     (if len \<noteq> 36 then Some (PROTOCOL_ECODE_INVALID_LEN, s)
      else do {
        bs \<leftarrow> c_slice body 0 36;
        let pos = dec_position bs;
        if e \<noteq> ecode_code PROTOCOL_ECODE_UNKNOWN_BLOCK \<and> e \<noteq> ecode_code PROTOCOL_ECODE_UNKNOWN_TX
        then Some (PROTOCOL_ECODE_UNKNOWN_ERRCODE, s)
        else (case pr of
            None \<Rightarrow> Some (PROTOCOL_ECODE_NONE, s)
          | Some k \<Rightarrow> do {
              s1 \<leftarrow> (if e = ecode_code PROTOCOL_ECODE_UNKNOWN_BLOCK
                     then todo_done_get_block s k (pos_block pos) False else Some s);
              s2 \<leftarrow> todo_done_get_tx_in_block s1 k (pos_block pos) (pos_shard pos) (pos_txoff pos) False;
              Some (PROTOCOL_ECODE_NONE, s2) }) })"

definition accept_proven_tx ::
    "runtime \<Rightarrow> state \<Rightarrow> nat option \<Rightarrow> bptr \<Rightarrow> protocol_proof \<Rightarrow> protocol_tx \<Rightarrow> protocol_input_ref list
     \<Rightarrow> (protocol_ecode \<times> state) option" where
  \<comment> \<open>\<open>recv_tx\<close> from where the proof has been checked\<close>
  "accept_proven_tx rt s pr b prf tx refs =
     do { let shard = pos_shard (pr_pos prf);
          s1 \<leftarrow> (case pr of None \<Rightarrow> Some s
                  | Some k \<Rightarrow> todo_done_get_tx_in_block s k (pos_block (pr_pos prf)) shard (pos_txoff (pr_pos prf)) True);
          sha \<leftarrow> hash_tx (rt_ssl rt) tx;
          s2 \<leftarrow> (case pr of None \<Rightarrow> Some s1 | Some k \<Rightarrow> todo_done_get_tx s1 k sha True);
          (good, s3) \<leftarrow> check_tx_inputs_and_refs rt s2 b prf tx refs;
          if \<not> good then Some (PROTOCOL_ECODE_NONE, s3)
          else do {
            bb \<leftarrow> st_heap s3 b;
            sh \<leftarrow> c_nth (b_shard bb) (unat shard);
            conflict \<leftarrow> check_tx_ordering (rt_ssl rt) sh (pos_txoff (pr_pos prf)) tx;
            (case conflict of
               Some conflict_txoff \<Rightarrow> do {
                 s4 \<leftarrow> complain_misorder rt s3 b prf tx refs conflict_txoff;
                 Some (PROTOCOL_ECODE_NONE, s4) }
             | None \<Rightarrow> do {
                 s4 \<leftarrow> put_proof_in_shard s3 b prf;
                 txp \<leftarrow> txptr_with_ref tx refs;
                 s5 \<leftarrow> put_tx_in_shard rt s4 pr b shard (pos_txoff (pr_pos prf)) txp;
                 Some (PROTOCOL_ECODE_NONE, s5) }) } }"

definition recv_tx_for_block ::
    "runtime \<Rightarrow> state \<Rightarrow> nat option \<Rightarrow> bptr \<Rightarrow> block \<Rightarrow> protocol_proof \<Rightarrow> nat \<Rightarrow> bytes
     \<Rightarrow> (protocol_ecode \<times> state) option" where
  \<comment> \<open>\<open>recv_tx\<close> from where the block has been found; \<open>len\<close> bytes are left, from \<open>txbuf\<close> on\<close>
  "recv_tx_for_block rt s pr b bb prf len txbuf =
     do { (e, used) \<leftarrow> unmarshal_tx txbuf (word_of_nat len) True;
          if e \<noteq> PROTOCOL_ECODE_NONE then Some (e, s)
          else do {
            tx \<leftarrow> cast_tx txbuf;
            e1 \<leftarrow> check_tx (rt_ssl rt) s tx (Some bb);
            if e1 \<noteq> PROTOCOL_ECODE_NONE then Some (e1, s)
            else do {
              let len = len - unat used;
              let (e2, rused) = unmarshal_input_refs (word_of_nat len) tx;
              if e2 \<noteq> PROTOCOL_ECODE_NONE then Some (e2, s)
              else if unat rused \<noteq> len then Some (PROTOCOL_ECODE_INVALID_LEN, s)
              else do {
                rbs \<leftarrow> c_slice txbuf (unat used) (8 * unat (num_inputs tx));
                let refs = dec_array dec_ref 8 (unat (num_inputs tx)) 0 rbs;
                e3 \<leftarrow> check_refs s b refs (unat (num_inputs tx));
                if e3 \<noteq> PROTOCOL_ECODE_NONE then Some (e3, s)
                else do {
                  good \<leftarrow> check_proof (rt_ssl rt) prf bb tx refs;
                  if \<not> good then Some (PROTOCOL_ECODE_BAD_PROOF, s)
                  else accept_proven_tx rt s pr b prf tx refs } } } } }"

definition recv_tx_in_block :: "runtime \<Rightarrow> state \<Rightarrow> nat option \<Rightarrow> bytes \<Rightarrow> (protocol_ecode \<times> state) option" where
  "recv_tx_in_block rt s pr pkt =
     do { len \<leftarrow> rd32 pkt 0;
          if len < 12 then Some (PROTOCOL_ECODE_INVALID_LEN, s)
          else do {
            e \<leftarrow> rd32 pkt 8;
            if e \<noteq> 0 then recv_tx_error s pr e (unat len - 12) (drop 12 pkt)
            else if unat len - 12 < 292 then Some (PROTOCOL_ECODE_INVALID_LEN, s)
            else do {
              pbs \<leftarrow> c_slice pkt 12 292;
              let prf = dec_proof pbs;
              found \<leftarrow> block_find_any s (pos_block (pr_pos prf));
              (case found of
                 None \<Rightarrow> Some (PROTOCOL_ECODE_NONE,
                           if pr \<noteq> None then todo_add_get_block s (pos_block (pr_pos prf)) else s)
               | Some b \<Rightarrow> do {
                   bb \<leftarrow> st_heap s b;
                   recv_tx_for_block rt s pr b bb prf (unat len - 12 - 292) (drop 304 pkt) }) } } }"

definition recv_tx_from_peer :: "runtime \<Rightarrow> state \<Rightarrow> nat \<Rightarrow> bytes \<Rightarrow> (protocol_ecode \<times> state) option" where
  "recv_tx_from_peer rt s k pkt = recv_tx_in_block rt s (Some k) pkt"

definition recv_tx_from_blockfile :: "runtime \<Rightarrow> state \<Rightarrow> bytes \<Rightarrow> (protocol_ecode \<times> state) option" where
  "recv_tx_from_blockfile rt s pkt = recv_tx_in_block rt s None pkt"

subsection \<open>What asking and answering questions leaves alone\<close>

definition only_todo :: "state \<Rightarrow> state \<Rightarrow> bool" where
  \<comment> \<open>only the questions, the peers and the log of outside effects have changed\<close>
  "only_todo s s' \<longleftrightarrow> (\<exists>t p out. s' = s\<lparr>st_todo := t, st_peers := p, st_out := out\<rparr>)"

lemma only_todo_refl [intro, simp]: "only_todo s s"
  unfolding only_todo_def by (intro exI[of _ "st_todo s"] exI[of _ "st_peers s"] exI[of _ "st_out s"]) simp

lemma only_todo_trans [trans]: "only_todo s s' \<Longrightarrow> only_todo s' s'' \<Longrightarrow> only_todo s s''"
  unfolding only_todo_def by fastforce

lemma only_todo_heap: "only_todo s s' \<Longrightarrow> st_heap s' = st_heap s"
  unfolding only_todo_def by auto

lemma only_todo_upd: "only_todo s (s\<lparr>st_todo := t\<rparr>)" "only_todo s (s\<lparr>st_peers := p\<rparr>)" "only_todo s (emit a s)"
proof -
  show "only_todo s (s\<lparr>st_todo := t\<rparr>)"
    unfolding only_todo_def by (intro exI[of _ t] exI[of _ "st_peers s"] exI[of _ "st_out s"]) simp
  show "only_todo s (s\<lparr>st_peers := p\<rparr>)"
    unfolding only_todo_def by (intro exI[of _ "st_todo s"] exI[of _ p] exI[of _ "st_out s"]) simp
  show "only_todo s (emit a s)"
    unfolding only_todo_def by (intro exI[of _ "st_todo s"] exI[of _ "st_peers s"] exI[of _ "st_out s @ [a]"]) (simp add: emit_def)
qed

lemma upd_peer_frame: "upd_peer s k f = Some s' \<Longrightarrow> only_todo s s'"
  by (auto simp: upd_peer_def bind_eq_Some_conv intro: only_todo_upd)

lemma release_peers_frame: "release_peers s todo is = Some s' \<Longrightarrow> only_todo s s'"
proof (induction "is" arbitrary: s)
  case (Cons i "is")
  then show ?case
    by (auto simp: bind_eq_Some_conv split: if_splits dest: upd_peer_frame intro: only_todo_trans)
qed simp

lemma finish_todo_frame: "finish_todo s k type sha sh off ok = Some s' \<Longrightarrow> only_todo s s'"
  by (auto simp: finish_todo_def delete_todo_def bind_eq_Some_conv split: option.splits if_splits
      dest!: upd_peer_frame release_peers_frame intro: only_todo_trans[OF only_todo_upd(1)])

lemmas todo_done_frames = finish_todo_frame[where type = PKT_GET_BLOCK and sh = 0 and off = 0, folded todo_done_get_block_def]
  finish_todo_frame[where type = PKT_GET_SHARD and off = 0, folded todo_done_get_shard_def]
  finish_todo_frame[where type = PKT_GET_TX_IN_BLOCK, folded todo_done_get_tx_in_block_def]
  finish_todo_frame[where type = PKT_GET_TX and sh = 0 and off = 0, folded todo_done_get_tx_def]

lemma new_todo_request_frame: "only_todo s (new_todo_request s type sha sh off)"
  by (auto simp: new_todo_request_def Let_def intro: only_todo_upd only_todo_trans)

lemma todo_for_peer_frame: "todo_for_peer s k pkt = Some s' \<Longrightarrow> only_todo s s'"
  by (auto simp: todo_for_peer_def bind_eq_Some_conv dest!: upd_peer_frame intro: only_todo_trans[OF _ only_todo_upd(3)])

text \<open>
  A peer that sends a block which is well formed on the wire but whose header is not accepted
  (the usual case: its predecessor is not known yet) makes \<open>recv_block\<close> return
  \<open>PROTOCOL_ECODE_NONE\<close> without setting \<open>*block\<close>; \<open>recv_block_from_peer\<close> then reads the depth of
  the block through that uninitialised pointer.
\<close>

theorem unaccepted_block_reads_uninitialised:
  assumes "unmarshal_block pkt = Some (Inr parts)" "check_block_header rt s parts = Some (e, prev, sha)"
    "e \<noteq> PROTOCOL_ECODE_NONE"
  shows "recv_block_from_peer rt s new k pkt = None \<and>
    (recv_block rt s new (Some k) pkt = Some (e', b, s') \<longrightarrow> e' = PROTOCOL_ECODE_NONE \<and> b = None)"
  using assms
  by (auto simp: recv_block_from_peer_def recv_block_def bind_eq_None_conv bind_eq_Some_conv split: Option.bind_splits if_splits)

subsection \<open>The counters of a shard\<close>

lemma unat_plus_one: "unat (w :: u8) < n \<Longrightarrow> n \<le> 255 \<Longrightarrow> unat (w + 1) = Suc (unat w)"
  by (simp add: unat_word_ariths)

lemma u8_le_255: "unat (w :: u8) \<le> 255"
  using word_order.extremum[of w] by (simp add: word_le_nat_alt unsigned_minus_1_eq_mask mask_eq_exp_minus_1)

lemma set_hash_slot_ok:
  assumes ok: "shard_ok sh" and off: "unat off < length (bs_u sh)" "bs_u sh ! unat off = Txp None" and h: "wf_txrefhash h"
  shows "shard_ok (set_hash_slot sh off h)"
proof -
  let ?u = "bs_u sh" and ?u' = "(bs_u sh)[unat off := Hash h]"
  have len: "length ?u \<le> 255" using ok u8_le_255[of "bs_size sh"] by (simp add: shard_ok_def)
  have n: "\<not> is_hash (?u ! unat off)" "\<not> is_known (?u ! unat off)" "\<not> is_known (Hash h)" "is_hash (Hash h)"
    using off(2) by (simp_all add: is_hash_def is_known_def)
  have "length (filter is_hash ?u) < length ?u" using n(1) off(1) length_filter_less[of "?u ! unat off"] by simp
  then have "unat (bs_hashcount sh + 1) = Suc (length (filter is_hash ?u))"
    using ok len by (simp add: shard_ok_def unat_plus_one)
  moreover have "slot_ok (Hash h)" using h by (simp add: slot_ok_def)
  ultimately show ?thesis
    using ok off(1) n filter_update[OF off(1), of is_hash "Hash h"] filter_update[OF off(1), of is_known "Hash h"]
    by (auto simp: shard_ok_def set_hash_slot_def list_all_length nth_list_update)
qed

lemma all_hashes_iff:
  assumes "shard_ok sh"
  shows "shard_all_hashes sh \<longleftrightarrow> (\<forall>i < length (bs_u sh). bs_u sh ! i \<noteq> Txp None)"
proof -
  have "is_known x \<or> is_hash x \<longleftrightarrow> x \<noteq> Txp None" for x
    by (auto simp: is_known_def is_hash_def split: txslot.splits option.splits)
  moreover have "length (filter is_known xs) + length (filter is_hash xs) = length (filter (\<lambda>x. is_known x \<or> is_hash x) xs)" for xs
    by (induction xs) (auto simp: is_known_def is_hash_def split: txslot.splits option.splits)
  ultimately show ?thesis
    using assms filter_all_iff[of "\<lambda>x. x \<noteq> Txp None" "bs_u sh"]
    by (simp add: shard_ok_def shard_all_hashes_def list_all_length)
qed

lemma txrefhash_unknown:
  assumes "txrefhash_in_shard ssl sh off = Some None" "shard_ok sh"
  shows "unat off < length (bs_u sh) \<and> bs_u sh ! unat off = Txp None"
  using assms
  by (auto simp: txrefhash_in_shard_def bind_eq_Some_conv c_nth_def split: if_splits txslot.splits option.splits)

lemma txrefhash_known:
  assumes "txrefhash_in_shard ssl sh off = Some (Some h)" "shard_ok sh"
  shows "unat off < length (bs_u sh) \<and> bs_u sh ! unat off \<noteq> Txp None"
  using assms
  by (auto simp: txrefhash_in_shard_def bind_eq_Some_conv c_nth_def split: if_splits txslot.splits option.splits)

subsection \<open>The hashes of a shard that has proofs\<close>

definition proofs_left :: "state \<Rightarrow> bptr \<Rightarrow> nat \<Rightarrow> nat \<Rightarrow> nat set \<Rightarrow> bool" where
  \<comment> \<open>the shard \<open>i\<close> of the block keeps proofs, lacks something, and has the slots in \<open>F\<close> filled\<close>
  "proofs_left s p i n F \<longleftrightarrow> (\<exists>bb sh. st_heap s p = Some bb \<and> c_nth (b_shard bb) i = Some sh \<and> shard_ok sh \<and>
     bs_proof sh \<noteq> None \<and> \<not> shard_all_hashes sh \<and> length (bs_u sh) = n \<and> (\<forall>j \<in> F. bs_u sh ! j \<noteq> Txp None))"

lemma put_txhash_keeps_proofs:
  assumes pl: "proofs_left s p (unat i) n F" and h: "wf_txrefhash h"
    and put: "put_txhash_in_shard rt s p i off h = Some (r, s')"
  shows "proofs_left s' p (unat i) n (insert (unat off) F)"
proof -
  obtain bb sh where b: "st_heap s p = Some bb" "c_nth (b_shard bb) (unat i) = Some sh" "shard_ok sh" "bs_proof sh \<noteq> None"
      "\<not> shard_all_hashes sh" "length (bs_u sh) = n" "\<forall>j \<in> F. bs_u sh ! j \<noteq> Txp None"
    using pl by (auto simp: proofs_left_def)
  obtain old where old: "txrefhash_in_shard (rt_ssl rt) sh off = Some old"
    using put b by (auto simp: put_txhash_in_shard_def bind_eq_Some_conv)
  show ?thesis
  proof (cases old)
    case (Some x)
    then have "s' = s" using put b(1,2) old by (auto simp: put_txhash_in_shard_def bind_eq_Some_conv split: if_splits)
    then show ?thesis using b txrefhash_known[OF old[unfolded Some] b(3)] by (auto simp: proofs_left_def)
  next
    case None
    let ?sh = "set_hash_slot sh off h"
    have off: "unat off < length (bs_u sh)" "bs_u sh ! unat off = Txp None" using txrefhash_unknown[OF old[unfolded None] b(3)] by auto
    have "st_heap s' p = Some (bb\<lparr>b_shard := (b_shard bb)[unat i := ?sh]\<rparr>) \<and> \<not> shard_all_hashes ?sh"
      using put b(1,2,4) old None
      by (auto simp: put_txhash_in_shard_def upd_shard_def check_block_shard_def add_txhash_to_hashes_def set_hash_slot_def
          bind_eq_Some_conv Let_def split: if_splits)
    moreover have "shard_ok ?sh" by (rule set_hash_slot_ok[OF b(3) off h])
    moreover have "c_nth ((b_shard bb)[unat i := ?sh]) (unat i) = Some ?sh"
      using b(2) by (auto simp: c_nth_def split: if_splits)
    ultimately show ?thesis
      using b off unfolding proofs_left_def by (auto simp: set_hash_slot_def nth_list_update)
  qed
qed

lemma put_hashes_keeps_proofs:
  assumes "proofs_left s p (unat i) n F" "list_all wf_txrefhash hs" "put_hashes rt p i hs is s = Some s'" "\<forall>j \<in> set is. j < 256"
  shows "proofs_left s' p (unat i) n (F \<union> set is)"
  using assms
proof (induction "is" arbitrary: s F)
  case (Cons j "is")
  obtain h r s1 where h: "c_nth hs j = Some h" "put_txhash_in_shard rt s p i (word_of_nat j) h = Some (r, s1)"
      "put_hashes rt p i hs is s1 = Some s'"
    using Cons.prems(3) by (auto simp: put_hashes_def bind_eq_Some_conv)
  have "wf_txrefhash h" using h(1) Cons.prems(2) by (auto simp: c_nth_def list_all_length split: if_splits)
  moreover have "unat (word_of_nat j :: u8) = j" using Cons.prems(4) by (simp add: unat_of_nat)
  ultimately have "proofs_left s1 p (unat i) n (insert j F)" using put_txhash_keeps_proofs[OF Cons.prems(1) _ h(2)] by simp
  then show ?case using Cons.IH[of s1 "insert j F"] Cons.prems(2,4) h(3) by simp
qed (simp add: put_hashes_def)

subsection \<open>Transactions enter a block with a proof only\<close>

lemma wf_dec_proof: "length bs = 292 \<Longrightarrow> wf_proof (dec_proof bs)"
  by (auto simp: wf_proof_def dec_proof_def dec_array_def slice_def list_all_length)

lemma recv_tx_error_heap: "recv_tx_error s pr e len body = Some (r, s') \<Longrightarrow> st_heap s' = st_heap s"
  by (auto simp: recv_tx_error_def bind_eq_Some_conv Let_def split: if_splits option.splits
      dest!: todo_done_frames only_todo_heap)

lemma recv_tx_reaches_block:
  assumes "recv_tx_in_block rt s pr pkt = Some (e, s')" "st_heap s' \<noteq> st_heap s"
  shows "\<exists>prf b bb len txbuf. wf_proof prf \<and> block_find_any s (pos_block (pr_pos prf)) = Some (Some b) \<and>
    st_heap s b = Some bb \<and> recv_tx_for_block rt s pr b bb prf len txbuf = Some (e, s')"
proof -
  obtain len where len: "rd32 pkt 0 = Some len" using assms(1) by (auto simp: recv_tx_in_block_def elim: bind_SomeE)
  have l12: "\<not> len < 12" using assms len by (auto simp: recv_tx_in_block_def)
  obtain err where err: "rd32 pkt 8 = Some err" using assms(1) len l12 by (auto simp: recv_tx_in_block_def elim: bind_SomeE)
  have e0: "err = 0" "\<not> unat len - 12 < 292"
    using assms len l12 err recv_tx_error_heap[of s pr err "unat len - 12" "drop 12 pkt" e s']
    by (auto simp: recv_tx_in_block_def split: if_splits)
  obtain pbs where pbs: "c_slice pkt 12 292 = Some pbs"
    using assms(1) len l12 err e0 by (auto simp: recv_tx_in_block_def elim: bind_SomeE)
  then have wf: "wf_proof (dec_proof pbs)" by (intro wf_dec_proof) auto
  let ?sha = "pos_block (pr_pos (dec_proof pbs))"
  note facts = len l12 err e0 pbs
  obtain found where f: "block_find_any s ?sha = Some found"
    using assms(1) facts by (auto simp: recv_tx_in_block_def Let_def simp del: c_slice_eq_Some elim: bind_SomeE)
  have asked: "st_heap (todo_add_get_block s x) = st_heap s" for x
    using only_todo_heap[OF new_todo_request_frame] by (simp add: todo_add_get_block_def)
  show ?thesis
  proof (cases found)
    case None
    then show ?thesis using assms facts f asked
      by (auto simp: recv_tx_in_block_def Let_def simp del: c_slice_eq_Some split: if_splits)
  next
    case (Some b)
    then obtain bb where "st_heap s b = Some bb"
      using assms(1) facts f by (auto simp: recv_tx_in_block_def Let_def simp del: c_slice_eq_Some elim: bind_SomeE)
    then have "recv_tx_for_block rt s pr b bb (dec_proof pbs) (unat len - 304) (drop 304 pkt) = Some (e, s')"
      using assms(1) facts f Some by (auto simp: recv_tx_in_block_def Let_def simp del: c_slice_eq_Some)
    then show ?thesis using f Some wf \<open>st_heap s b = Some bb\<close> by blast
  qed
qed

lemma recv_tx_reaches_accept:
  assumes "recv_tx_for_block rt s pr b bb prf len txbuf = Some (e, s')" "st_heap s' \<noteq> st_heap s"
  shows "\<exists>tx refs. check_tx (rt_ssl rt) s tx (Some bb) = Some PROTOCOL_ECODE_NONE \<and>
    check_refs s b refs (unat (num_inputs tx)) = Some PROTOCOL_ECODE_NONE \<and>
    check_proof (rt_ssl rt) prf bb tx refs = Some True \<and> accept_proven_tx rt s pr b prf tx refs = Some (e, s')"
  using assms unfolding recv_tx_for_block_def Let_def
  by (elim bind_SomeE; clarsimp simp del: c_slice_eq_Some elim!: bind_SomeE split: if_split_asm prod.split_asm; blast)

definition commits :: "openssl \<Rightarrow> block \<Rightarrow> u16 \<Rightarrow> protocol_txrefhash list \<Rightarrow> bool" where
  \<comment> \<open>the block's merkle root for the shard is that of the hashes \<open>hs\<close>\<close>
  "commits ssl b shard hs \<longleftrightarrow> list_all wf_txrefhash hs \<and> length hs = unat (b_shard_nums b ! unat shard) \<and>
     b_merkles b ! unat shard = shard_root ssl hs"

lemma wf_hash_tx_and_refs: "digest_ok ssl \<Longrightarrow> hash_tx_and_refs ssl tx refs = Some trh \<Longrightarrow> wf_txrefhash trh"
  by (auto simp: hash_tx_and_refs_def hash_tx_def hash_refs_def bind_eq_Some_conv wf_txrefhash_def)

definition committed :: "openssl \<Rightarrow> state \<Rightarrow> bptr \<Rightarrow> protocol_position \<Rightarrow> protocol_tx \<Rightarrow> protocol_input_ref list \<Rightarrow> bool" where
  \<comment> \<open>the transaction is valid in the block, and with its references it is what the block's merkle root
     commits to at this position, unless the double SHA has a collision\<close>
  "committed ssl s b pos tx refs \<longleftrightarrow> (\<exists>bb trh. st_heap s b = Some bb \<and> b_sha bb = pos_block pos \<and>
     check_tx ssl s tx (Some bb) = Some PROTOCOL_ECODE_NONE \<and> hash_tx_and_refs ssl tx refs = Some trh \<and>
     (\<forall>hs. commits ssl bb (pos_shard pos) hs \<longrightarrow>
        unat (pos_txoff pos) < length hs \<and> (trh = hs ! unat (pos_txoff pos) \<or> sha_collision ssl)))"

lemma check_proof_committed:
  assumes ok: "digest_ok ssl" and lv: "levels_ok s" and wf: "wf_proof pf"
    and b: "block_find_any s (pos_block (pr_pos pf)) = Some (Some b)" "st_heap s b = Some bb"
    and tx: "check_tx ssl s tx (Some bb) = Some PROTOCOL_ECODE_NONE" "check_proof ssl pf bb tx refs = Some True"
  shows "committed ssl s b (pr_pos pf) tx refs"
proof -
  obtain trh where trh: "hash_tx_and_refs ssl tx refs = Some trh" "check_proof_byhash ssl pf bb trh = Some True"
    using tx(2) by (auto simp: check_proof_def elim: bind_SomeE)
  have "unat (pos_txoff (pr_pos pf)) < length hs \<and> (trh = hs ! unat (pos_txoff (pr_pos pf)) \<or> sha_collision ssl)"
    if "commits ssl bb (pos_shard (pr_pos pf)) hs" for hs
    by (rule check_proof_binds[OF ok wf wf_hash_tx_and_refs[OF ok trh(1)] _ _ _ trh(2)]) (use that in \<open>simp_all add: commits_def\<close>)
  moreover have "b_sha bb = pos_block (pr_pos pf)"
    using block_find_any_eq[OF lv, of "pos_block (pr_pos pf)"] b by auto
  ultimately show ?thesis unfolding committed_def using b(2) tx(1) trh(1) by blast
qed


subsection \<open>Examples\<close>


definition ex_orphan :: block_parts where
  "ex_orphan = (ex_next_parts 0x1E01FFFF)\<lparr>bp_hdr := bp_hdr (ex_next_parts 0x1E01FFFF)\<lparr>bh_prev_block := replicate 32 9\<rparr>\<rparr>"

lemma ex_orphan_header:
  "check_block_header easy_runtime (ex_state 0) ex_orphan =
     Some (PROTOCOL_ECODE_PRIV_UNKNOWN_PREV, None, Some (1 # replicate 31 0))"
proof -
  have h: "hash_block (rt_ssl easy_runtime) ex_orphan = Some (1 # replicate 31 0)"
    using easy_hash[of "0x1E01FFFF"] by (simp add: hash_block_def ex_orphan_def easy_runtime_def SHA256_Double_Final_def Let_def
        ex_next_parts_def ex_chain_parts_def c_slice_def length_concat sum_list_replicate)
  have "nat_le n 0 = replicate n 0" for n by (induction n) auto
  then have "nat_le 32 0 \<noteq> (replicate 32 9 :: bytes)" by simp
  then have no: "b_sha bb \<noteq> replicate 32 9" if "st_heap (ex_state 0) b = Some bb" for b bb
    using that by (auto simp: ex_state_def ex_heap_def ex_block_def simp del: nat_le.simps split: if_splits)
  obtain r where "block_find_any (ex_state 0) (replicate 32 9) = Some r"
      "case r of Some b \<Rightarrow> \<exists>bb. st_heap (ex_state 0) b = Some bb \<and> b_sha bb = replicate 32 9
       | None \<Rightarrow> \<forall>b bb. st_heap (ex_state 0) b = Some bb \<longrightarrow> b_sha bb \<noteq> replicate 32 9"
    using block_find_any_eq[OF ex_levels_ok[of 0], of "replicate 32 9"] by auto
  then have "block_find_any (ex_state 0) (bh_prev_block (bp_hdr ex_orphan)) = Some None"
    using no by (cases r) (auto simp: ex_orphan_def)
  moreover have "version_ok (bh_version (bp_hdr ex_orphan))" "bt_difficulty (bp_tailer ex_orphan) = 0x1E01FFFF"
    by (simp_all add: ex_orphan_def ex_next_parts_def ex_chain_parts_def version_ok_def current_version_def)
  ultimately show ?thesis using h easy_beats by (simp add: check_block_header_def Let_def)
qed

theorem unaccepted_block_reads_uninitialised_witness:
  "\<exists>pkt. marshal_block ex_orphan = Some pkt \<and> recv_block_from_peer easy_runtime (ex_state 0) 1 0 pkt = None"
proof -
  have "wf_block_parts ex_orphan" "version_ok (bh_version (bp_hdr ex_orphan))"
      "bh_shard_order (bp_hdr ex_orphan) \<le> PROTOCOL_MAX_SHARD_ORDER" "12 + block_bytes_len (bp_hdr ex_orphan) < 2 ^ 32"
    by (simp_all add: ex_orphan_def ex_next_parts_def ex_chain_parts_def wf_block_parts_def wf_header_def list_all_iff
        version_ok_def current_version_def c_simps block_bytes_len_def)
  from marshal_block_reads_back[OF this] obtain pkt where "marshal_block ex_orphan = Some pkt"
      "unmarshal_block pkt = Some (Inr ex_orphan)" by blast
  then show ?thesis using unaccepted_block_reads_uninitialised[OF _ ex_orphan_header] by auto
qed

end
