(* ===== verification/Recv_complain.thy ===== *)
theory Recv_complain
  imports Receive
begin

text \<open>
  \<open>recv_complain.c\<close>: what the daemon does when a peer (the \<open>k\<close>-th) complains about a block. A cursor
  \<^verbatim>\<open>const char *p\<close> into the packet is the list of bytes from there on; \<open>len\<close> is the number of bytes the
  packet claims to have left.
\<close>

subsection \<open>Reading the parts of a complaint\<close>

definition unmarshal_and_check_tx ::
    "openssl \<Rightarrow> state \<Rightarrow> bytes \<Rightarrow> nat \<Rightarrow> (protocol_ecode + protocol_tx \<times> bytes \<times> nat) option" where
  \<comment> \<open>of \<open>peer.c\<close>: the transaction, and the cursor behind it\<close>
  "unmarshal_and_check_tx ssl s p len =
     do { (e, used) \<leftarrow> unmarshal_tx p (word_of_nat len) True;
          if e \<noteq> PROTOCOL_ECODE_NONE then Some (Inl e)
          else do {
            tx \<leftarrow> cast_tx p;
            e1 \<leftarrow> check_tx ssl s tx None;
            Some (if e1 \<noteq> PROTOCOL_ECODE_NONE then Inl e1 else Inr (tx, drop (unat used) p, len - unat used)) } }"

record proven_tx =
  \<comment> \<open>what \<open>unmarshal_proven_tx\<close> stores through its pointers; the transaction also as the memory it lies in\<close>
  pv_block :: bptr
  pv_tx :: protocol_tx
  pv_txbuf :: bytes
  pv_pos :: protocol_position

definition unmarshal_proven_tx ::
    "openssl \<Rightarrow> state \<Rightarrow> bytes \<Rightarrow> nat
     \<Rightarrow> (protocol_ecode \<times> protocol_position option + proven_tx \<times> bytes \<times> nat) option" where
  \<comment> \<open>the cursor is not moved past the proof before the transaction is read\<close>
  "unmarshal_proven_tx ssl s p len =
     (if len < 292 then Some (Inl (PROTOCOL_ECODE_INVALID_LEN, None))
      else do {
        pbs \<leftarrow> c_slice p 0 292;
        let prf = dec_proof pbs;
        let len1 = len - 292;
        let pos = pr_pos prf;
        (e, used) \<leftarrow> unmarshal_tx p (word_of_nat len1) True;
        if e \<noteq> PROTOCOL_ECODE_NONE then Some (Inl (e, Some pos))
        else do {
          tx \<leftarrow> cast_tx p;
          let p2 = drop (unat used) p;
          let len2 = len1 - unat used;
          let (e2, rused) = unmarshal_input_refs (word_of_nat len2) tx;
          if e2 \<noteq> PROTOCOL_ECODE_NONE then Some (Inl (e2, Some pos))
          else do {
            rbs \<leftarrow> c_slice p2 0 (8 * unat (num_inputs tx));
            let refs = dec_array dec_ref 8 (unat (num_inputs tx)) 0 rbs;
            found \<leftarrow> block_find_any s (pos_block pos);
            (case found of
               None \<Rightarrow> Some (Inl (PROTOCOL_ECODE_UNKNOWN_BLOCK, Some pos))
             | Some b \<Rightarrow> do {
                 bb \<leftarrow> st_heap s b;
                 e3 \<leftarrow> check_tx ssl s tx (Some bb);
                 if e3 \<noteq> PROTOCOL_ECODE_NONE then Some (Inl (e3, Some pos))
                 else do {
                   good \<leftarrow> check_proof ssl prf bb tx refs;
                   Some (if \<not> good then Inl (PROTOCOL_ECODE_BAD_PROOF, Some pos)
                         else Inr (\<lparr>pv_block = b, pv_tx = tx, pv_txbuf = p, pv_pos = pos\<rparr>,
                                   drop (unat rused) p2, len2 - unat rused)) } }) } } })"

definition verify_problem_input ::
    "openssl \<Rightarrow> protocol_tx \<Rightarrow> u32 \<Rightarrow> protocol_tx \<Rightarrow> (protocol_ecode + input_ecode \<times> u32) option" where
  \<comment> \<open>\<open>*ierr\<close> and the amount, which the caller adds to \<open>*tot\<close> if it passes that pointer\<close>
  "verify_problem_input ssl tx input_num intx =
     (if input_num \<ge> num_inputs tx then Some (Inl PROTOCOL_ECODE_BAD_INPUTNUM)
      else if tx_type tx = TX_CLAIM then Some (Inl PROTOCOL_ECODE_BAD_INPUTNUM)
      else do {
        inp \<leftarrow> tx_input tx (unat input_num);
        sha \<leftarrow> hash_tx ssl intx;
        if in_input inp \<noteq> sha then Some (Inl PROTOCOL_ECODE_BAD_INPUT)
        else do {
          addr \<leftarrow> get_tx_input_address ssl tx;
          r \<leftarrow> check_simple_input ssl inp intx addr;
          Some (Inr r) } })"

fun bad_amount_loop ::
    "openssl \<Rightarrow> state \<Rightarrow> protocol_tx \<Rightarrow> nat list \<Rightarrow> bytes \<Rightarrow> nat \<Rightarrow> u32
     \<Rightarrow> (protocol_ecode + nat \<times> u32) option" where
  \<comment> \<open>the loop over the inputs: what is left of the packet, and the tot\<close>
  "bad_amount_loop ssl s tx [] p len tot = Some (Inr (len, tot))"
| "bad_amount_loop ssl s tx (i # is) p len tot =
     do { u \<leftarrow> unmarshal_and_check_tx ssl s p len;
          (case u of
             Inl e \<Rightarrow> Some (Inl e)
           | Inr (intx, p1, len1) \<Rightarrow> do {
               v \<leftarrow> verify_problem_input ssl tx (word_of_nat i) intx;
               (case v of
                  Inl e \<Rightarrow> Some (Inl e)
                | Inr (ierr, amount) \<Rightarrow>
                    if ierr \<noteq> ECODE_INPUT_OK then Some (Inl PROTOCOL_ECODE_BAD_INPUT)
                    else bad_amount_loop ssl s tx is p1 len1 (tot + amount)) }) }"

definition unmarshal_and_check_bad_amount ::
    "openssl \<Rightarrow> state \<Rightarrow> protocol_tx \<Rightarrow> bytes \<Rightarrow> nat \<Rightarrow> protocol_ecode option" where
  "unmarshal_and_check_bad_amount ssl s tx p len =
     (if num_inputs tx = 0 then Some PROTOCOL_ECODE_BAD_INPUTNUM
      else do {
        r \<leftarrow> bad_amount_loop ssl s tx [0..<unat (num_inputs tx)] p len 0;
        (case r of
           Inl e \<Rightarrow> Some e
         | Inr (left, tot) \<Rightarrow>
             if left \<noteq> 0 then Some PROTOCOL_ECODE_INVALID_LEN
             else do {
               sent \<leftarrow> tx_amount_sent tx;
               Some (if tot = sent then PROTOCOL_ECODE_COMPLAINT_INVALID else PROTOCOL_ECODE_NONE) }) })"

subsection \<open>The handlers\<close>

definition unknown_block_or :: "state \<Rightarrow> protocol_ecode \<times> protocol_position option \<Rightarrow> (protocol_ecode \<times> state) option" where
  \<comment> \<open>after a failed \<open>unmarshal_proven_tx\<close>: ask for the block if it was that\<close>
  "unknown_block_or s r =
     (if fst r = PROTOCOL_ECODE_UNKNOWN_BLOCK
      then do { pos \<leftarrow> snd r; Some (PROTOCOL_ECODE_NONE, todo_add_get_block s (pos_block pos)) }
      else Some (fst r, s))"

definition complain_on :: "runtime \<Rightarrow> state \<Rightarrow> bptr \<Rightarrow> bytes \<Rightarrow> nat \<Rightarrow> (protocol_ecode \<times> state) option" where
  \<comment> \<open>the end of every handler: mark the block invalid and tell everyone else if it was not already\<close>
  "complain_on rt s b pkt k =
     do { dup \<leftarrow> tal_packet_dup pkt;
          s1 \<leftarrow> publish_complaint rt s b dup (Some k);
          Some (PROTOCOL_ECODE_NONE, s1) }"

definition recv_complain_tx_misorder :: "runtime \<Rightarrow> state \<Rightarrow> nat \<Rightarrow> bytes \<Rightarrow> (protocol_ecode \<times> state) option" where
  "recv_complain_tx_misorder rt s k pkt =
     do { len \<leftarrow> rd32 pkt 0;
          if len < 8 then Some (PROTOCOL_ECODE_INVALID_LEN, s)
          else do {
            u1 \<leftarrow> unmarshal_proven_tx (rt_ssl rt) s (drop 8 pkt) (unat len - 8);
            (case u1 of
               Inl r \<Rightarrow> unknown_block_or s r
             | Inr (v1, p1, len1) \<Rightarrow> do {
                 u2 \<leftarrow> unmarshal_proven_tx (rt_ssl rt) s p1 len1;
                 (case u2 of
                    Inl (e, _) \<Rightarrow> Some (e, s)
                  | Inr (v2, p2, len2) \<Rightarrow>
                      if len2 \<noteq> 0 then Some (PROTOCOL_ECODE_INVALID_LEN, s)
                      else if pos_block (pv_pos v1) \<noteq> pos_block (pv_pos v2)
                        \<or> pos_shard (pv_pos v1) \<noteq> pos_shard (pv_pos v2)
                      then Some (PROTOCOL_ECODE_BAD_MISORDER_POS, s)
                      else if pos_txoff (pv_pos v1) = pos_txoff (pv_pos v2)
                      then Some (PROTOCOL_ECODE_BAD_MISORDER_POS, s)
                      else do {
                        c \<leftarrow> tx_cmp (rt_ssl rt) (pv_tx v1) (pv_tx v2);
                        if (if pos_txoff (pv_pos v1) < pos_txoff (pv_pos v2) then c < 0 else c > 0)
                        then Some (PROTOCOL_ECODE_COMPLAINT_INVALID, s)
                        else complain_on rt s (pv_block v2) pkt k }) }) } }"

definition recv_complain_tx_invalid :: "runtime \<Rightarrow> state \<Rightarrow> nat \<Rightarrow> bytes \<Rightarrow> (protocol_ecode \<times> state) option" where
  "recv_complain_tx_invalid rt s k pkt =
     do { len \<leftarrow> rd32 pkt 0;
          if len < 16 then Some (PROTOCOL_ECODE_INVALID_LEN, s)
          else if unat len - 16 < 292 then Some (PROTOCOL_ECODE_INVALID_LEN, s)
          else do {
            pbs \<leftarrow> c_slice pkt 16 292;
            let prf = dec_proof pbs;
            let len1 = unat len - 16 - 292;
            found \<leftarrow> block_find_any s (pos_block (pr_pos prf));
            (case found of
               None \<Rightarrow> Some (PROTOCOL_ECODE_NONE, todo_add_get_block s (pos_block (pr_pos prf)))
             | Some b \<Rightarrow> do {
                 bb \<leftarrow> st_heap s b;
                 err \<leftarrow> rd32 pkt 8;
                 txlen \<leftarrow> rd32 pkt 12;
                 if len1 < unat txlen then Some (PROTOCOL_ECODE_INVALID_LEN, s)
                 else do {
                   let txbuf = drop 308 pkt;
                   let reflen = len1 - unat txlen;
                   (e0, _) \<leftarrow> unmarshal_tx txbuf (ucast txlen) False;
                   e \<leftarrow> (if e0 = PROTOCOL_ECODE_NONE
                         then do { tx \<leftarrow> cast_tx txbuf; check_tx (rt_ssl rt) s tx (Some bb) }
                         else Some e0);
                   if e = PROTOCOL_ECODE_NONE then Some (PROTOCOL_ECODE_COMPLAINT_INVALID, s)
                   else if reflen \<noteq> 0 then Some (PROTOCOL_ECODE_INVALID_LEN, s)
                   else if ecode_code e \<noteq> err then Some (PROTOCOL_ECODE_COMPLAINT_INVALID, s)
                   else do {
                     txs \<leftarrow> c_slice txbuf 0 (unat txlen);
                     refs \<leftarrow> c_slice txbuf (unat txlen) reflen;
                     good \<leftarrow> check_proof_byhash (rt_ssl rt) prf bb
                       \<lparr>trh_txhash = SHA256_Double_Final (rt_ssl rt) txs,
                        trh_refhash = SHA256_Double_Final (rt_ssl rt) refs\<rparr>;
                     if \<not> good then Some (PROTOCOL_ECODE_BAD_PROOF, s)
                     else complain_on rt s b pkt k } } }) } }"

definition recv_complain_tx_bad_input :: "runtime \<Rightarrow> state \<Rightarrow> nat \<Rightarrow> bytes \<Rightarrow> (protocol_ecode \<times> state) option" where
  "recv_complain_tx_bad_input rt s k pkt =
     do { len \<leftarrow> rd32 pkt 0;
          if len < 12 then Some (PROTOCOL_ECODE_INVALID_LEN, s)
          else do {
            u1 \<leftarrow> unmarshal_proven_tx (rt_ssl rt) s (drop 12 pkt) (unat len - 12);
            (case u1 of
               Inl r \<Rightarrow> unknown_block_or s r
             | Inr (v1, p1, len1) \<Rightarrow> do {
                 u2 \<leftarrow> unmarshal_and_check_tx (rt_ssl rt) s p1 len1;
                 (case u2 of
                    Inl e \<Rightarrow> Some (e, s)
                  | Inr (intx, p2, len2) \<Rightarrow>
                      if len2 \<noteq> 0 then Some (PROTOCOL_ECODE_INVALID_LEN, s)
                      else do {
                        inputnum \<leftarrow> rd32 pkt 8;
                        v \<leftarrow> verify_problem_input (rt_ssl rt) (pv_tx v1) inputnum intx;
                        (case v of
                           Inl e \<Rightarrow> Some (e, s)
                         | Inr (ierr, _) \<Rightarrow>
                             if ierr = ECODE_INPUT_OK then Some (PROTOCOL_ECODE_COMPLAINT_INVALID, s)
                             else complain_on rt s (pv_block v1) pkt k) }) }) } }"

definition recv_complain_tx_bad_amount :: "runtime \<Rightarrow> state \<Rightarrow> nat \<Rightarrow> bytes \<Rightarrow> (protocol_ecode \<times> state) option" where
  "recv_complain_tx_bad_amount rt s k pkt =
     do { len \<leftarrow> rd32 pkt 0;
          if len < 8 then Some (PROTOCOL_ECODE_INVALID_LEN, s)
          else do {
            u1 \<leftarrow> unmarshal_proven_tx (rt_ssl rt) s (drop 8 pkt) (unat len - 8);
            (case u1 of
               Inl r \<Rightarrow> unknown_block_or s r
             | Inr (v1, p1, len1) \<Rightarrow> do {
                 e \<leftarrow> unmarshal_and_check_bad_amount (rt_ssl rt) s (pv_tx v1) p1 len1;
                 if e \<noteq> PROTOCOL_ECODE_NONE then Some (e, s)
                 else complain_on rt s (pv_block v1) pkt k }) } }"

definition recv_complain_doublespend :: "runtime \<Rightarrow> state \<Rightarrow> nat \<Rightarrow> bytes \<Rightarrow> (protocol_ecode \<times> state) option" where
  "recv_complain_doublespend rt s k pkt =
     do { len \<leftarrow> rd32 pkt 0;
          if len < 16 then Some (PROTOCOL_ECODE_INVALID_LEN, s)
          else do {
            u1 \<leftarrow> unmarshal_proven_tx (rt_ssl rt) s (drop 16 pkt) (unat len - 16);
            (case u1 of
               Inl r \<Rightarrow> unknown_block_or s r
             | Inr (v1, p1, len1) \<Rightarrow> do {
                 input1 \<leftarrow> rd32 pkt 8;
                 input2 \<leftarrow> rd32 pkt 12;
                 if input1 \<ge> num_inputs (pv_tx v1) then Some (PROTOCOL_ECODE_BAD_INPUTNUM, s)
                 else do {
                   inp1 \<leftarrow> tx_input (pv_tx v1) (unat input1);
                   u2 \<leftarrow> unmarshal_proven_tx (rt_ssl rt) s p1 len1;
                   (case u2 of
                      Inl r \<Rightarrow> unknown_block_or s r
                    | Inr (v2, p2, len2) \<Rightarrow>
                        if len2 \<noteq> 0 then Some (PROTOCOL_ECODE_INVALID_LEN, s)
                        else if input2 \<ge> num_inputs (pv_tx v2) then Some (PROTOCOL_ECODE_BAD_INPUTNUM, s)
                        else do {
                          inp2 \<leftarrow> tx_input (pv_tx v2) (unat input2);
                          if in_input inp1 \<noteq> in_input inp2 \<or> in_output inp1 \<noteq> in_output inp2
                          then Some (PROTOCOL_ECODE_BAD_INPUT, s)
                          else do {
                            pre \<leftarrow> block_preceeds (st_heap s) (pv_block v1) (pv_block v2);
                            if \<not> pre then Some (PROTOCOL_ECODE_BAD_DOUBLESPEND_BLOCKS, s)
                            else complain_on rt s (pv_block v2) pkt k } }) } }) } }"

definition recv_complain_bad_input_ref :: "runtime \<Rightarrow> state \<Rightarrow> nat \<Rightarrow> bytes \<Rightarrow> (protocol_ecode \<times> state) option" where
  "recv_complain_bad_input_ref rt s k pkt =
     do { len \<leftarrow> rd32 pkt 0;
          if len < 12 then Some (PROTOCOL_ECODE_INVALID_LEN, s)
          else do {
            u1 \<leftarrow> unmarshal_proven_tx (rt_ssl rt) s (drop 12 pkt) (unat len - 12);
            (case u1 of
               Inl r \<Rightarrow> unknown_block_or s r
             | Inr (v1, p1, len1) \<Rightarrow> do {
                 inputnum \<leftarrow> rd32 pkt 8;
                 if inputnum \<ge> num_inputs (pv_tx v1) then Some (PROTOCOL_ECODE_BAD_INPUTNUM, s)
                 else do {
                   txlen \<leftarrow> marshal_tx_len (pv_tx v1);
                   rbs \<leftarrow> c_slice (pv_txbuf v1) (unat txlen + 8 * unat inputnum) 8;
                   let ref = dec_ref rbs;
                   u2 \<leftarrow> unmarshal_proven_tx (rt_ssl rt) s p1 len1;
                   (case u2 of
                      Inl r \<Rightarrow> unknown_block_or s r
                    | Inr (v2, p2, len2) \<Rightarrow>
                        if len2 \<noteq> 0 then Some (PROTOCOL_ECODE_INVALID_LEN, s)
                        else do {
                          anc \<leftarrow> block_ancestor (st_heap s) (Some (pv_block v1)) (unat (ref_blocks_ago ref));
                          if anc \<noteq> Some (pv_block v2) \<or> pos_shard (pv_pos v2) \<noteq> ref_shard ref
                            \<or> pos_txoff (pv_pos v2) \<noteq> ref_txoff ref
                          then Some (PROTOCOL_ECODE_BAD_INPUT, s)
                          else do {
                            sha \<leftarrow> hash_tx (rt_ssl rt) (pv_tx v2);
                            inp \<leftarrow> tx_input (pv_tx v1) (unat inputnum);
                            if in_input inp = sha then Some (PROTOCOL_ECODE_COMPLAINT_INVALID, s)
                            else complain_on rt s (pv_block v1) pkt k } }) } }) } }"

definition recv_complain_claim_input_invalid ::
    "runtime \<Rightarrow> state \<Rightarrow> nat \<Rightarrow> bytes \<Rightarrow> (protocol_ecode \<times> state) option" where
  "recv_complain_claim_input_invalid rt s k pkt =
     do { len \<leftarrow> rd32 pkt 0;
          if len < 8 then Some (PROTOCOL_ECODE_INVALID_LEN, s)
          else do {
            u1 \<leftarrow> unmarshal_proven_tx (rt_ssl rt) s (drop 8 pkt) (unat len - 8);
            (case u1 of
               Inl r \<Rightarrow> unknown_block_or s r
             | Inr (v1, p1, len1) \<Rightarrow> do {
                 u2 \<leftarrow> unmarshal_proven_tx (rt_ssl rt) s p1 len1;
                 (case u2 of
                    Inl r \<Rightarrow> unknown_block_or s r
                  | Inr (v2, p2, len2) \<Rightarrow>
                      if len2 \<noteq> 0 then Some (PROTOCOL_ECODE_INVALID_LEN, s)
                      else if tx_type (pv_tx v1) \<noteq> TX_CLAIM then Some (PROTOCOL_ECODE_COMPLAINT_INVALID, s)
                      else do {
                        sha \<leftarrow> hash_tx (rt_ssl rt) (pv_tx v2);
                        inp \<leftarrow> tx_input (pv_tx v1) 0;
                        if in_input inp \<noteq> sha then Some (PROTOCOL_ECODE_COMPLAINT_INVALID, s)
                        else do {
                          addr \<leftarrow> get_tx_input_address (rt_ssl rt) (pv_tx v1);
                          (claim_ok, amount) \<leftarrow> check_claim_input (rt_ssl rt) (st_heap s) (pv_block v1) inp
                            (pv_block v2) (pos_shard (pv_pos v2)) (pos_txoff (pv_pos v2)) (pv_tx v2) addr;
                          fine \<leftarrow> (if claim_ok then correct_amount (pv_tx v1) amount else Some False);
                          if fine then Some (PROTOCOL_ECODE_COMPLAINT_INVALID, s)
                          else complain_on rt s (pv_block v1) pkt k } }) }) } }"

subsection \<open>Complaints made by this program are not understood\<close>

lemma length_enc_proof: "wf_proof pf \<Longrightarrow> length (pos_block (pr_pos pf)) = 32 \<Longrightarrow> length (enc_proof pf) = 292"
proof -
  assume w: "wf_proof pf" "length (pos_block (pr_pos pf)) = 32"
  have "length (concat ms) = 32 * length ms" if "list_all (\<lambda>m. length m = 32) ms" for ms :: "bytes list"
    using that by (induction ms) auto
  then show ?thesis using w by (simp add: enc_proof_def enc_position_def wf_proof_def)
qed

lemma proven_tx_misread:
  assumes "wf_proof pf" "length (pos_block (pr_pos pf)) = 32" "hd (pos_block (pr_pos pf)) \<noteq> current_version"
    and "3 \<le> length rest" "292 + length rest < 2 ^ 32"
  shows "\<exists>pos. unmarshal_proven_tx ssl s (enc_proof pf @ rest) (292 + length rest) = Some (Inl (PROTOCOL_ECODE_TX_HIGH_VERSION, pos))"
proof -
  let ?p = "enc_proof pf @ rest"
  have l: "length (enc_proof pf) = 292" using length_enc_proof assms(1,2) .
  then have "rd8 ?p 0 = Some (hd (pos_block (pr_pos pf)))"
    using assms(2) by (cases "pos_block (pr_pos pf)") (auto simp: enc_proof_def enc_position_def rd8_def c_nth_def)
  moreover have "\<not> (word_of_nat (length rest) :: size_t) < 3"
    using assms(4,5) by (simp add: word_less_nat_alt unsigned_of_nat take_bit_nat_eq_self)
  ultimately have "unmarshal_tx ?p (word_of_nat (length rest)) True = Some (PROTOCOL_ECODE_TX_HIGH_VERSION, 0)"
    using assms(3) by (simp add: unmarshal_tx_def version_ok_def)
  then show ?thesis using l by (simp add: unmarshal_proven_tx_def c_slice_def Let_def)
qed

text \<open>
  A complaint about the order of two transactions, built as \<open>complain_misorder\<close> builds it, is not
  understood by the same program: \<open>unmarshal_proven_tx\<close> reads the transaction from where the proof
  lies. Unless the hash of the block starts with the byte 1 the receiver answers
  \<open>PROTOCOL_ECODE_TX_HIGH_VERSION\<close> and leaves its state, and the block, as it was.
\<close>

theorem honest_complaint_rejected:
  assumes made: "tal_packet PROTOCOL_PKT_COMPLAIN_TX_MISORDER [] = Some p0"
      "tal_packet_append_proven_tx p0 pf1 tx1 refs1 = Some p1" "tal_packet_append_proven_tx p1 pf2 tx2 refs2 = Some pkt"
    and wf: "wf_proof pf1" "length (pos_block (pr_pos pf1)) = 32" "wf_proof pf2" "length (pos_block (pr_pos pf2)) = 32"
      "wf_tx tx1" "length refs1 = unat (num_inputs tx1)" "wf_tx tx2" "length refs2 = unat (num_inputs tx2)"
    and sz: "592 + length (enc_tx tx1) + 8 * length refs1 + length (enc_tx tx2) + 8 * length refs2 < 2 ^ 32"
    and hash: "hd (pos_block (pr_pos pf1)) \<noteq> current_version"
  shows "recv_complain_tx_misorder rt s k pkt = Some (PROTOCOL_ECODE_TX_HIGH_VERSION, s)"
proof -
  let ?b1 = "enc_proof pf1 @ enc_tx tx1 @ concat (map enc_ref refs1)"
  let ?b2 = "enc_proof pf2 @ enc_tx tx2 @ concat (map enc_ref refs2)"
  have l: "length (enc_proof pf1) = 292" "length (enc_proof pf2) = 292" using length_enc_proof wf(1-4) by blast+
  have p0: "pkt_ok p0" "drop 4 p0 = cpu_to_le32 PROTOCOL_PKT_COMPLAIN_TX_MISORDER"
    using tal_packet_ok[of "[]" PROTOCOL_PKT_COMPLAIN_TX_MISORDER] made(1) by (simp_all add: PROTOCOL_MAX_PACKET_LEN_def)
  have l0: "length p0 = 8" using arg_cong[OF p0(2), of length] p0(1) by (simp add: pkt_ok_def)
  have p1: "pkt_ok p1" "drop 4 p1 = drop 4 p0 @ ?b1"
    using proven_tx_appended[OF p0(1) wf(5,6), of pf1] made(2) sz l l0 by auto
  have l1: "length p1 = 8 + length ?b1" using arg_cong[OF p1(2), of length] p1(1) l0 by (simp add: pkt_ok_def)
  have len1: "length p1 + length (enc_proof pf2) + length (enc_tx tx2) + 8 * length refs2 < 2 ^ 32"
    using sz l l1 by (simp add: concat_enc_ref_len)
  have p2: "pkt_ok pkt" "drop 4 pkt = drop 4 p1 @ ?b2"
    using proven_tx_appended[OF p1(1) wf(7,8) len1] made(3) by auto
  let ?rest = "enc_tx tx1 @ concat (map enc_ref refs1) @ ?b2"
  have d: "drop 8 pkt = enc_proof pf1 @ ?rest"
  proof -
    have "drop 8 pkt = drop 4 (drop 4 pkt)" by simp
    then show ?thesis unfolding p2(2) p1(2) p0(2) by simp
  qed
  have lp: "length pkt = 8 + (292 + length ?rest)"
    using arg_cong[OF d, of length] p2(1) l by (simp add: pkt_ok_def)
  have rd: "rd32 pkt 0 = Some (word_of_nat (length pkt))" "unat (word_of_nat (length pkt) :: u32) = length pkt"
    using rd32_pkt[OF p2(1)] unat_pkt_len[OF p2(1)] by simp_all
  obtain pos where "unmarshal_proven_tx (rt_ssl rt) s (drop 8 pkt) (unat (word_of_nat (length pkt) :: u32) - 8)
      = Some (Inl (PROTOCOL_ECODE_TX_HIGH_VERSION, pos))"
    using proven_tx_misread[OF wf(1,2) hash, of ?rest "rt_ssl rt" s] d lp rd(2) l p2(1)
    by (auto simp: pkt_ok_def)
  moreover have "\<not> (word_of_nat (length pkt) :: u32) < 8" using rd(2) lp by (simp add: word_less_nat_alt)
  ultimately show ?thesis using rd(1) by (simp add: recv_complain_tx_misorder_def unknown_block_or_def)
qed

subsection \<open>A block is condemned with evidence only\<close>

definition proven_in :: "openssl \<Rightarrow> state \<Rightarrow> proven_tx \<Rightarrow> bool" where
  "proven_in ssl s v \<longleftrightarrow> (\<exists>refs. committed ssl s (pv_block v) (pv_pos v) (pv_tx v) refs)"

lemma unmarshal_proven_tx_sound:
  assumes ok: "digest_ok ssl" and lv: "levels_ok s" and u: "unmarshal_proven_tx ssl s p len = Some (Inr (v, p', len'))"
  shows "proven_in ssl s v"
proof -
  obtain pbs where pbs: "c_slice p 0 292 = Some pbs"
    using u by (auto simp: unmarshal_proven_tx_def Let_def split: if_splits elim: bind_SomeE)
  define pf where "pf = dec_proof pbs"
  have wf: "wf_proof pf" using pbs unfolding pf_def by (intro wf_dec_proof) auto
  obtain b bb tx refs where a: "block_find_any s (pos_block (pr_pos pf)) = Some (Some b)" "st_heap s b = Some bb"
      "check_tx ssl s tx (Some bb) = Some PROTOCOL_ECODE_NONE" "check_proof ssl pf bb tx refs = Some True"
      "pv_block v = b" "pv_tx v = tx" "pv_pos v = pr_pos pf"
    using u pbs unfolding unmarshal_proven_tx_def Let_def pf_def
    by (clarsimp simp del: c_slice_eq_Some elim!: bind_SomeE split: if_split_asm prod.split_asm option.split_asm)
  then show ?thesis using check_proof_committed[OF ok lv wf a(1-4)] unfolding proven_in_def by auto
qed

lemma unknown_block_or_heap: "unknown_block_or s r = Some (e, s') \<Longrightarrow> st_heap s' = st_heap s"
  using only_todo_heap[OF new_todo_request_frame]
  by (auto simp: unknown_block_or_def todo_add_get_block_def split: if_splits elim!: bind_SomeE)


lemma misorder_complaint_sound:
  assumes ok: "digest_ok (rt_ssl rt)" and lv: "levels_ok s"
    and r: "recv_complain_tx_misorder rt s k pkt = Some (e, s')" and ch: "st_heap s' \<noteq> st_heap s"
  shows "\<exists>v1 v2 c. proven_in (rt_ssl rt) s v1 \<and> proven_in (rt_ssl rt) s v2 \<and>
     pos_block (pv_pos v1) = pos_block (pv_pos v2) \<and> pos_shard (pv_pos v1) = pos_shard (pv_pos v2) \<and>
     pos_txoff (pv_pos v1) \<noteq> pos_txoff (pv_pos v2) \<and> tx_cmp (rt_ssl rt) (pv_tx v1) (pv_tx v2) = Some c \<and>
     (if pos_txoff (pv_pos v1) < pos_txoff (pv_pos v2) then c \<ge> 0 else c \<le> 0)"
proof -
  obtain v1 p1 len1 v2 p2 len2 c len where a:
      "unmarshal_proven_tx (rt_ssl rt) s (drop 8 pkt) len = Some (Inr (v1, p1, len1))"
      "unmarshal_proven_tx (rt_ssl rt) s p1 len1 = Some (Inr (v2, p2, len2))"
      "pos_block (pv_pos v1) = pos_block (pv_pos v2)" "pos_shard (pv_pos v1) = pos_shard (pv_pos v2)"
      "pos_txoff (pv_pos v1) \<noteq> pos_txoff (pv_pos v2)" "tx_cmp (rt_ssl rt) (pv_tx v1) (pv_tx v2) = Some c"
      "\<not> (if pos_txoff (pv_pos v1) < pos_txoff (pv_pos v2) then c < 0 else c > 0)"
    using r ch unfolding recv_complain_tx_misorder_def
    by (clarsimp dest!: unknown_block_or_heap elim!: bind_SomeE split: if_split_asm prod.split_asm sum.split_asm)
  then show ?thesis using unmarshal_proven_tx_sound[OF ok lv] by (metis linorder_not_less)
qed

subsection \<open>Examples\<close>


definition ex_proof2 :: protocol_proof where
  "ex_proof2 = ex_proof\<lparr>pr_pos := (pr_pos ex_proof)\<lparr>pos_block := replicate 32 2\<rparr>\<rparr>"

theorem honest_complaint_rejected_witness:
  "\<exists>p0 p1 pkt. tal_packet PROTOCOL_PKT_COMPLAIN_TX_MISORDER [] = Some p0 \<and>
     tal_packet_append_proven_tx p0 ex_proof2 ex_normal ex_refs = Some p1 \<and>
     tal_packet_append_proven_tx p1 ex_proof2 ex_normal ex_refs = Some pkt \<and>
     recv_complain_tx_misorder model_runtime (ex_state 0) 0 pkt = Some (PROTOCOL_ECODE_TX_HIGH_VERSION, ex_state 0)"
proof -
  have wf: "wf_proof ex_proof2" "length (pos_block (pr_pos ex_proof2)) = 32" "wf_tx ex_normal"
      "length ex_refs = unat (num_inputs ex_normal)" "hd (pos_block (pr_pos ex_proof2)) \<noteq> current_version"
    using ex_wf(2) by (simp_all add: ex_proof2_def ex_proof_def wf_proof_def list_all_iff ex_refs_def ex_normal_def current_version_def)
  have l: "length (enc_proof ex_proof2) = 292" "length (enc_tx ex_normal) = 168" "length ex_refs = 1"
    using length_enc_proof[OF wf(1,2)] ex_claim_len(2) by (simp_all add: ex_refs_def)
  obtain p0 where p0: "tal_packet PROTOCOL_PKT_COMPLAIN_TX_MISORDER [] = Some p0" "pkt_ok p0"
      "drop 4 p0 = cpu_to_le32 PROTOCOL_PKT_COMPLAIN_TX_MISORDER"
    using tal_packet_ok[of "[]" PROTOCOL_PKT_COMPLAIN_TX_MISORDER] by (auto simp: PROTOCOL_MAX_PACKET_LEN_def)
  have l0: "length p0 = 8" using arg_cong[OF p0(3), of length] p0(2) by (simp add: pkt_ok_def)
  obtain p1 where p1: "tal_packet_append_proven_tx p0 ex_proof2 ex_normal ex_refs = Some p1" "pkt_ok p1"
      "drop 4 p1 = drop 4 p0 @ enc_proof ex_proof2 @ enc_tx ex_normal @ concat (map enc_ref ex_refs)"
    using proven_tx_appended[OF p0(2) wf(3,4), of ex_proof2] l l0 by auto
  have l1: "length p1 = 476" using arg_cong[OF p1(3), of length] p1(2) l l0 by (simp add: pkt_ok_def concat_enc_ref_len)
  obtain pkt where "tal_packet_append_proven_tx p1 ex_proof2 ex_normal ex_refs = Some pkt"
    using proven_tx_appended[OF p1(2) wf(3,4), of ex_proof2] l l1 by auto
  then show ?thesis
    using honest_complaint_rejected[OF p0(1) p1(1) _ wf(1,2,1,2,3,4,3,4) _ wf(5)] p0(1) p1(1) l by auto
qed

end
