(* ===== verification/Peer_cache.thy ===== *)
theory Peer_cache
  imports Packets
begin

text \<open>
  \<open>peer_cache.c\<close>: the table of peer addresses, a hash table of 4096 slots without chaining that is
  mirrored in a file. \<open>hash64\<close> of \<open>ccan/hash\<close> is a parameter; so are the time, the random bits and the
  contents of the file found at start. Failed writes to the file (they are logged only) and the lock
  on it are not modelled.
\<close>

record protocol_net_address =
  na_time :: u32
  na_addr :: bytes
  na_port :: u16
  na_unused :: u16
  na_uuid :: bytes

definition PEER_HASH_SIZE :: nat where "PEER_HASH_SIZE = 4096"

definition PEER_CACHE_MAXSECS :: int where "PEER_CACHE_MAXSECS = 10800"

definition PEER_CACHE_PEER_EXTRA :: int where "PEER_CACHE_PEER_EXTRA = 1800"

definition zero_address :: protocol_net_address where
  \<comment> \<open>all bytes zero\<close>
  "zero_address = \<lparr>na_time = 0, na_addr = replicate 16 0, na_port = 0, na_unused = 0, na_uuid = replicate 16 0\<rparr>"

record peer_cache =
  pc_randbytes :: u64
  pc_h :: "protocol_net_address list"
  pc_disk :: "protocol_net_address list"

definition same_address :: "protocol_net_address \<Rightarrow> protocol_net_address \<Rightarrow> bool" where
  "same_address a b \<longleftrightarrow> na_addr a = na_addr b \<and> na_port a = na_port b"

definition peer_hash_entry :: "(bytes \<Rightarrow> u64 \<Rightarrow> u64) \<Rightarrow> peer_cache \<Rightarrow> protocol_net_address \<Rightarrow> nat" where
  \<comment> \<open>the index of the slot\<close>
  "peer_hash_entry hash64 pc addr =
     unat (ucast (hash64 (na_addr addr) (pc_randbytes pc + ucast (na_port addr))) :: u32) mod PEER_HASH_SIZE"

definition is_zero_addr :: "protocol_net_address \<Rightarrow> bool" where
  "is_zero_addr a \<longleftrightarrow> list_all (\<lambda>b. b = 0) (na_addr a)"

definition check_peer_cache :: "(bytes \<Rightarrow> u64 \<Rightarrow> u64) \<Rightarrow> nat \<Rightarrow> peer_cache \<Rightarrow> bool" where
  "check_peer_cache hash64 now pc \<longleftrightarrow>
     list_all (\<lambda>i. is_zero_addr (pc_h pc ! i) \<or>
         na_time (pc_h pc ! i) \<le> word_of_nat now \<and> peer_hash_entry hash64 pc (pc_h pc ! i) = i)
       [0..<PEER_HASH_SIZE]"

definition init_peer_cache ::
    "(bytes \<Rightarrow> u64 \<Rightarrow> u64) \<Rightarrow> nat \<Rightarrow> (u64 \<times> protocol_net_address list) option \<Rightarrow> u64 \<Rightarrow> peer_cache" where
  \<comment> \<open>the file, if there is one, and the random seed of a new one; after a bad file \<open>pc->file.h\<close> keeps
     what was read\<close>
  "init_peer_cache hash64 now file rnd =
     (let fresh = replicate PEER_HASH_SIZE zero_address in
      case file of
        None \<Rightarrow> \<lparr>pc_randbytes = rnd, pc_h = fresh, pc_disk = fresh\<rparr>
      | Some (r, h) \<Rightarrow>
          (let pc = \<lparr>pc_randbytes = r, pc_h = h, pc_disk = h\<rparr> in
           if length h = PEER_HASH_SIZE \<and> check_peer_cache hash64 now pc then pc
           else \<lparr>pc_randbytes = rnd, pc_h = h, pc_disk = fresh\<rparr>))"

fun peer_cache_next_from :: "protocol_net_address list \<Rightarrow> nat \<Rightarrow> (nat \<times> protocol_net_address) option" where
  "peer_cache_next_from [] i = None"
| "peer_cache_next_from (a # as) i = (if \<not> is_zero_addr a then Some (i, a) else peer_cache_next_from as (Suc i))"

definition peer_cache_next :: "peer_cache \<Rightarrow> int \<Rightarrow> (nat \<times> protocol_net_address) option" where
  "peer_cache_next pc i = peer_cache_next_from (drop (nat (i + 1)) (pc_h pc)) (nat (i + 1))"

definition peer_cache_first :: "peer_cache \<Rightarrow> (nat \<times> protocol_net_address) option" where
  "peer_cache_first pc = peer_cache_next pc (-1)"

definition update_on_disk :: "peer_cache \<Rightarrow> nat \<Rightarrow> peer_cache" where
  "update_on_disk pc i = pc\<lparr>pc_disk := (pc_disk pc)[i := pc_h pc ! i]\<rparr>"

definition set_entry :: "peer_cache \<Rightarrow> nat \<Rightarrow> protocol_net_address \<Rightarrow> peer_cache" where
  "set_entry pc i a = pc\<lparr>pc_h := (pc_h pc)[i := a]\<rparr>"

definition peer_cache_update_uuid :: "(bytes \<Rightarrow> u64 \<Rightarrow> u64) \<Rightarrow> peer_cache \<Rightarrow> protocol_net_address \<Rightarrow> peer_cache" where
  "peer_cache_update_uuid hash64 pc addr =
     (let i = peer_hash_entry hash64 pc addr; a = pc_h pc ! i in
      if same_address a addr then update_on_disk (set_entry pc i (a\<lparr>na_uuid := na_uuid addr\<rparr>)) i else pc)"

definition peer_cache_refresh :: "(bytes \<Rightarrow> u64 \<Rightarrow> u64) \<Rightarrow> nat \<Rightarrow> peer_cache \<Rightarrow> protocol_net_address \<Rightarrow> peer_cache" where
  "peer_cache_refresh hash64 now pc addr =
     (let i = peer_hash_entry hash64 pc addr in
      update_on_disk (set_entry pc i (addr\<lparr>na_time := word_of_nat now\<rparr>)) i)"

definition indirect_time :: "nat \<Rightarrow> u32 \<Rightarrow> u32" where
  \<comment> \<open>the age another peer gives an address: not in the future, never if older than three hours, and half
     an hour older than it says\<close>
  "indirect_time now timestamp =
     (if uint timestamp > int now then word_of_nat now
      else if uint timestamp < int now - PEER_CACHE_MAXSECS then 0
      else timestamp - 1800)"

definition peer_cache_add ::
    "(bytes \<Rightarrow> u64 \<Rightarrow> u64) \<Rightarrow> nat \<Rightarrow> bool \<Rightarrow> peer_cache \<Rightarrow> protocol_net_address \<Rightarrow> peer_cache" where
  \<comment> \<open>\<open>coin\<close> is the random bit\<close>
  "peer_cache_add hash64 now coin pc addr =
     (let i = peer_hash_entry hash64 pc addr; a = pc_h pc ! i in
      if same_address a addr then pc
      else if uint (na_time a) > int now - PEER_CACHE_PEER_EXTRA then pc
      else if \<not> is_zero_addr a \<and> coin then pc
      else update_on_disk (set_entry pc i (addr\<lparr>na_time := indirect_time now (na_time addr)\<rparr>)) i)"

definition peer_cache_del :: "(bytes \<Rightarrow> u64 \<Rightarrow> u64) \<Rightarrow> peer_cache \<Rightarrow> protocol_net_address \<Rightarrow> bool \<Rightarrow> peer_cache" where
  "peer_cache_del hash64 pc addr del_on_disk =
     (let i = peer_hash_entry hash64 pc addr; a = pc_h pc ! i in
      if same_address a addr then
        (let pc1 = set_entry pc i zero_address in if del_on_disk then update_on_disk pc1 i else pc1)
      else pc)"

subsection \<open>peer.c: addresses from the network\<close>

definition dec_net_address :: "bytes \<Rightarrow> protocol_net_address" where
  "dec_net_address bs = \<lparr>na_time = le32_to_cpu (slice 0 4 bs), na_addr = slice 4 16 bs,
     na_port = le16_to_cpu (slice 20 2 bs), na_unused = le16_to_cpu (slice 22 2 bs), na_uuid = slice 24 16 bs\<rparr>"

definition enc_net_address :: "protocol_net_address \<Rightarrow> bytes" where
  "enc_net_address a = cpu_to_le32 (na_time a) @ na_addr a @ cpu_to_le16 (na_port a) @ cpu_to_le16 (na_unused a) @ na_uuid a"

definition tal_packet_append_net_address :: "bytes \<Rightarrow> protocol_net_address \<Rightarrow> bytes option" where
  "tal_packet_append_net_address pkt a = tal_packet_append pkt (enc_net_address a)"

fun add_addresses ::
    "(bytes \<Rightarrow> u64 \<Rightarrow> u64) \<Rightarrow> nat \<Rightarrow> (nat \<Rightarrow> bool) \<Rightarrow> nat \<Rightarrow> protocol_net_address list \<Rightarrow> peer_cache \<Rightarrow> peer_cache" where
  "add_addresses hash64 now coins i [] pc = pc"
| "add_addresses hash64 now coins i (a # as) pc =
     add_addresses hash64 now coins (Suc i) as (peer_cache_add hash64 now (coins i) pc a)"

definition digest_peer_addrs ::
    "(bytes \<Rightarrow> u64 \<Rightarrow> u64) \<Rightarrow> nat \<Rightarrow> (nat \<Rightarrow> bool) \<Rightarrow> state \<Rightarrow> peer_cache \<Rightarrow> bytes \<Rightarrow> u32
     \<Rightarrow> (bool \<times> state \<times> peer_cache) option" where
  "digest_peer_addrs hash64 now coins s pc data len =
     (let num = unat len div 40 in
      if num = 0 \<or> unat len mod 40 \<noteq> 0 then Some (False, s, pc)
      else do {
        bs \<leftarrow> c_slice data 0 (40 * num);
        let addrs = dec_array dec_net_address 40 num 0 bs;
        Some (True, emit Fill_peers s, add_addresses hash64 now coins 0 addrs pc) })"

definition recv_pkt_peers ::
    "(bytes \<Rightarrow> u64 \<Rightarrow> u64) \<Rightarrow> nat \<Rightarrow> (nat \<Rightarrow> bool) \<Rightarrow> state \<Rightarrow> peer_cache \<Rightarrow> bytes
     \<Rightarrow> (protocol_ecode \<times> state \<times> peer_cache) option" where
  "recv_pkt_peers hash64 now coins s pc pkt =
     do { len \<leftarrow> rd32 pkt 0;
          (ok, s1, pc1) \<leftarrow> digest_peer_addrs hash64 now coins s pc (drop 8 pkt) (len - 8);
          Some (if \<not> ok then PROTOCOL_ECODE_INVALID_LEN else PROTOCOL_ECODE_NONE, s1, pc1) }"

definition PROTOCOL_PKT_PEERS :: u32 where "PROTOCOL_PKT_PEERS = 20"

fun append_addresses :: "protocol_net_address list \<Rightarrow> bytes \<Rightarrow> bytes option" where
  \<comment> \<open>the loop of \<open>recv_get_peers\<close> over the table\<close>
  "append_addresses [] r = Some r"
| "append_addresses (a # as) r =
     (if is_zero_addr a then append_addresses as r
      else do { r1 \<leftarrow> tal_packet_append_net_address r a; append_addresses as r1 })"

definition recv_get_peers :: "peer_cache \<Rightarrow> bytes \<Rightarrow> (protocol_ecode \<times> bytes option) option" where
  "recv_get_peers pc pkt =
     do { len \<leftarrow> rd32 pkt 0;
          if len \<noteq> 8 then Some (PROTOCOL_ECODE_INVALID_LEN, None)
          else do {
            r0 \<leftarrow> tal_packet PROTOCOL_PKT_PEERS [];
            r \<leftarrow> append_addresses (pc_h pc) r0;
            Some (PROTOCOL_ECODE_NONE, Some r) } }"

subsection \<open>The table stays valid\<close>

datatype cache_op =
    Cache_add bool protocol_net_address
  | Cache_refresh protocol_net_address
  | Cache_update_uuid protocol_net_address
  | Cache_del protocol_net_address bool

fun cache_apply :: "(bytes \<Rightarrow> u64 \<Rightarrow> u64) \<Rightarrow> nat \<Rightarrow> cache_op \<Rightarrow> peer_cache \<Rightarrow> peer_cache" where
  "cache_apply hash64 now (Cache_add coin a) pc = peer_cache_add hash64 now coin pc a"
| "cache_apply hash64 now (Cache_refresh a) pc = peer_cache_refresh hash64 now pc a"
| "cache_apply hash64 now (Cache_update_uuid a) pc = peer_cache_update_uuid hash64 pc a"
| "cache_apply hash64 now (Cache_del a d) pc = peer_cache_del hash64 pc a d"

fun cache_run :: "(bytes \<Rightarrow> u64 \<Rightarrow> u64) \<Rightarrow> (nat \<times> cache_op) list \<Rightarrow> peer_cache \<Rightarrow> peer_cache" where
  "cache_run hash64 [] pc = pc"
| "cache_run hash64 ((now, ev) # es) pc = cache_run hash64 es (cache_apply hash64 now ev pc)"

definition entry_ok :: "(bytes \<Rightarrow> u64 \<Rightarrow> u64) \<Rightarrow> nat \<Rightarrow> u64 \<Rightarrow> nat \<Rightarrow> protocol_net_address \<Rightarrow> bool" where
  "entry_ok hash64 now rnd i a \<longleftrightarrow> is_zero_addr a \<or> unat (na_time a) \<le> now \<and>
     unat (ucast (hash64 (na_addr a) (rnd + ucast (na_port a))) :: u32) mod PEER_HASH_SIZE = i"

definition cache_ok :: "(bytes \<Rightarrow> u64 \<Rightarrow> u64) \<Rightarrow> nat \<Rightarrow> peer_cache \<Rightarrow> bool" where
  "cache_ok hash64 now pc \<longleftrightarrow> length (pc_h pc) = PEER_HASH_SIZE \<and>
     (\<forall>i < PEER_HASH_SIZE. entry_ok hash64 now (pc_randbytes pc) i (pc_h pc ! i))"

lemma cache_ok_iff:
  assumes "now < 2 ^ 32"
  shows "cache_ok hash64 now pc \<longleftrightarrow> length (pc_h pc) = PEER_HASH_SIZE \<and> check_peer_cache hash64 now pc"
proof -
  have "unat (word_of_nat now :: u32) = now" using assms by (simp add: unsigned_of_nat take_bit_nat_eq_self)
  then show ?thesis
    by (auto simp: cache_ok_def check_peer_cache_def entry_ok_def peer_hash_entry_def list_all_iff word_le_nat_alt)
qed

lemma entry_ok_later: "entry_ok hash64 now rnd i a \<Longrightarrow> now \<le> now' \<Longrightarrow> entry_ok hash64 now' rnd i a"
  by (auto simp: entry_ok_def)

lemma cache_ok_set:
  assumes "cache_ok hash64 now pc" "now \<le> now'" "entry_ok hash64 now' (pc_randbytes pc) i a"
  shows "cache_ok hash64 now' (set_entry pc i a)" "cache_ok hash64 now' (update_on_disk (set_entry pc i a) i)" "cache_ok hash64 now' pc"
proof -
  have "entry_ok hash64 now' (pc_randbytes pc) j ((pc_h pc)[i := a] ! j)" "entry_ok hash64 now' (pc_randbytes pc) j (pc_h pc ! j)"
    if "j < PEER_HASH_SIZE" for j
    using assms that entry_ok_later[OF _ assms(2)] by (cases "j = i"; simp add: cache_ok_def)+
  then show "cache_ok hash64 now' (set_entry pc i a)" "cache_ok hash64 now' (update_on_disk (set_entry pc i a) i)" "cache_ok hash64 now' pc"
    using assms(1) by (simp_all add: cache_ok_def set_entry_def update_on_disk_def)
qed

lemma indirect_time_le:
  assumes "12600 \<le> now" "now < 2 ^ 32"
  shows "unat (indirect_time now t) \<le> now"
proof -
  have "unat (word_of_nat now :: u32) = now" using assms(2) by (simp add: unsigned_of_nat take_bit_nat_eq_self)
  moreover have "unat (t - 1800) \<le> now" if "\<not> uint t > int now" "\<not> uint t < int now - PEER_CACHE_MAXSECS"
  proof -
    have "int now - 10800 \<le> int (unat t)" "int (unat t) \<le> int now" using that by (simp_all add: PEER_CACHE_MAXSECS_def)
    then have n: "unat t \<le> now" "1800 \<le> unat t" using assms(1) by linarith+
    have "unat (t - 1800) = unat t - 1800" using n(2) unat_sub[of 1800 t] by (simp add: word_le_nat_alt)
    then show ?thesis using n(1) by linarith
  qed
  ultimately show ?thesis by (auto simp: indirect_time_def)
qed

lemma cache_apply_ok:
  assumes ok: "cache_ok hash64 now pc" and t: "now \<le> now'" "12600 \<le> now'" "now' < 2 ^ 32"
  shows "cache_ok hash64 now' (cache_apply hash64 now' ev pc)"
proof -
  have idx: "peer_hash_entry hash64 pc a < PEER_HASH_SIZE" for a by (simp add: peer_hash_entry_def PEER_HASH_SIZE_def)
  have z: "entry_ok hash64 now' r i zero_address" for r i by (simp add: entry_ok_def is_zero_addr_def zero_address_def list_all_iff)
  have new: "entry_ok hash64 now' (pc_randbytes pc) (peer_hash_entry hash64 pc a) (a\<lparr>na_time := x\<rparr>)" if "unat x \<le> now'" for a x
    using that by (simp add: entry_ok_def peer_hash_entry_def)
  have now: "unat (word_of_nat now' :: u32) \<le> now'" using t(3) by (simp add: unsigned_of_nat take_bit_nat_eq_self)
  have uuid: "entry_ok hash64 now' (pc_randbytes pc) i ((pc_h pc ! i)\<lparr>na_uuid := u\<rparr>)" if "i < PEER_HASH_SIZE" for i u
    using ok that t(1) by (auto simp: cache_ok_def entry_ok_def is_zero_addr_def)
  show ?thesis
    using new[OF now] new[OF indirect_time_le[OF t(2,3)]] z uuid[OF idx] cache_ok_set(1,2)[OF ok t(1)] cache_ok_set(3)[OF ok t(1) z]
    by (cases ev) (auto simp: peer_cache_add_def peer_cache_refresh_def peer_cache_update_uuid_def peer_cache_del_def Let_def)
qed


subsection \<open>A file that is not accepted\<close>

text \<open>
  After a file that \<open>check_peer_cache\<close> rejects, \<open>init_peer_cache\<close> makes a new file but keeps the
  rejected entries in memory, with a new seed.
\<close>

lemma rejected_cache_kept:
  assumes "\<not> check_peer_cache hash64 now \<lparr>pc_randbytes = r, pc_h = h, pc_disk = h\<rparr>"
  shows "pc_h (init_peer_cache hash64 now (Some (r, h)) rnd) = h"
  using assms by (simp add: init_peer_cache_def Let_def)

definition ex_cache :: peer_cache where
  "ex_cache = init_peer_cache (\<lambda>_ _. 0) 20000 None 7"


end
