(* ===== verification/Sync.thy ===== *)
theory Sync
  imports Receive Peer_cache
begin

text \<open>
  \<open>sync.c\<close> and \<open>welcome.c\<close>: how two daemons greet each other, and how one learns from the other which
  blocks it lacks.
\<close>

definition PROTOCOL_PKT_WELCOME :: u32 where "PROTOCOL_PKT_WELCOME = 2"
definition PROTOCOL_PKT_SYNC :: u32 where "PROTOCOL_PKT_SYNC = 4"
definition PROTOCOL_PKT_CHILDREN :: u32 where "PROTOCOL_PKT_CHILDREN = 6"
definition PROTOCOL_PKT_CHILDREN_SOME :: u32 where "PROTOCOL_PKT_CHILDREN_SOME = 0xffffffff"

subsection \<open>sync.c\<close>

fun children_loop :: "(bptr \<Rightarrow> u32 option) \<Rightarrow> bptr option \<Rightarrow> bptr list \<Rightarrow> u32 \<Rightarrow> u32 option" where
  \<comment> \<open>the loop of \<open>num_children\<close>; \<open>cnt\<close> is its recursive call\<close>
  "children_loop cnt except [] num = Some num"
| "children_loop cnt except (c # cs) num =
     (if Some c = except then children_loop cnt except cs num
      else do {
        children \<leftarrow> cnt c;
        if children = PROTOCOL_PKT_CHILDREN_SOME then Some PROTOCOL_PKT_CHILDREN_SOME
        else children_loop cnt except cs (num + 1 + children) })"

fun num_children :: "heap \<Rightarrow> bptr option \<Rightarrow> nat \<Rightarrow> bptr \<Rightarrow> u32 option" where
  \<comment> \<open>the number is \<open>100 - depth\<close>: the levels left\<close>
  "num_children h except 0 block = Some PROTOCOL_PKT_CHILDREN_SOME"
| "num_children h except (Suc left) block =
     do { bb \<leftarrow> h block; children_loop (num_children h except left) except (b_children bb) 0 }"

definition enc_syncblock :: "sha \<Rightarrow> u32 \<Rightarrow> bytes" where
  "enc_syncblock sha children = sha @ cpu_to_le32 children"

partial_function (option) sync_loop :: "heap \<Rightarrow> bptr \<Rightarrow> bptr \<Rightarrow> bptr option \<Rightarrow> bytes \<Rightarrow> bytes option" where
  \<comment> \<open>the loop of \<open>sync_pkt\<close> and the syncblock after it\<close>
  "sync_loop h horizon b prev pkt =
     do { pre \<leftarrow> block_preceeds h b horizon;
          bb \<leftarrow> h b;
          n \<leftarrow> num_children h prev 100 b;
          pkt1 \<leftarrow> tal_packet_append pkt (enc_syncblock (b_sha bb) n);
          if pre then Some pkt1
          else do { p \<leftarrow> b_prev bb; sync_loop h horizon p (Some b) pkt1 } }"

definition sync_pkt :: "heap \<Rightarrow> bptr \<Rightarrow> bptr \<Rightarrow> bytes option" where
  "sync_pkt h horizon mutual =
     do { pkt \<leftarrow> tal_packet PROTOCOL_PKT_SYNC []; sync_loop h horizon mutual None pkt }"

definition sync_or_horizon_pkt :: "state \<Rightarrow> bptr \<Rightarrow> bytes option" where
  "sync_or_horizon_pkt s mutual = do { g \<leftarrow> genesis_block s; sync_pkt (st_heap s) g mutual }"

fun recv_sync_loop :: "nat list \<Rightarrow> bytes \<Rightarrow> state \<Rightarrow> (protocol_ecode \<times> state) option" where
  \<comment> \<open>\<open>prev\<close> stays NULL\<close>
  "recv_sync_loop [] body s = Some (PROTOCOL_ECODE_NONE, s)"
| "recv_sync_loop (i # is) body s =
     do { sha \<leftarrow> c_slice body (36 * i) 32;
          theirs \<leftarrow> rd32 body (36 * i + 32);
          found \<leftarrow> block_find_any s sha;
          (case found of
             None \<Rightarrow> Some (PROTOCOL_ECODE_UNKNOWN_BLOCK, s)
           | Some b \<Rightarrow> do {
               bb \<leftarrow> st_heap s b;
               ours \<leftarrow> num_children (st_heap s) None 100 b;
               recv_sync_loop is body (if ours < theirs then todo_add_get_children s (b_sha bb) else s) }) }"

definition recv_sync_pkt :: "state \<Rightarrow> bytes \<Rightarrow> (protocol_ecode \<times> state) option" where
  "recv_sync_pkt s pkt =
     do { plen \<leftarrow> rd32 pkt 0;
          let len = plen - 8;
          let num = unat len div 36;
          if unat len mod 36 \<noteq> 0 \<or> num = 0 then Some (PROTOCOL_ECODE_INVALID_LEN, s)
          else recv_sync_loop (rev [0..<num]) (drop 8 pkt) s }"

definition recv_horizon_pkt :: "protocol_ecode" where
  "recv_horizon_pkt = PROTOCOL_ECODE_UNKNOWN_COMMAND"

fun append_children :: "state \<Rightarrow> bptr list \<Rightarrow> bytes \<Rightarrow> bytes option" where
  \<comment> \<open>the loop of \<open>recv_get_children\<close>\<close>
  "append_children s [] r = Some r"
| "append_children s (i # is) r =
     do { ib \<leftarrow> st_heap s i;
          n \<leftarrow> num_children (st_heap s) None 100 i;
          r1 \<leftarrow> tal_packet_append r (enc_syncblock (b_sha ib) n);
          found \<leftarrow> block_find_any s (b_sha ib);
          c_assert (found \<noteq> None);
          append_children s is r1 }"

definition recv_get_children :: "state \<Rightarrow> bytes \<Rightarrow> (protocol_ecode \<times> bytes option) option" where
  "recv_get_children s pkt =
     do { len \<leftarrow> rd32 pkt 0;
          if len \<noteq> 40 then Some (PROTOCOL_ECODE_INVALID_LEN, None)
          else do {
            blk \<leftarrow> c_slice pkt 8 32;
            found \<leftarrow> block_find_any s blk;
            (case found of
               None \<Rightarrow> do {
                 r \<leftarrow> tal_packet PROTOCOL_PKT_CHILDREN (blk @ cpu_to_le32 (ecode_code PROTOCOL_ECODE_UNKNOWN_BLOCK));
                 Some (PROTOCOL_ECODE_NONE, Some r) }
             | Some b \<Rightarrow> do {
                 bb \<leftarrow> st_heap s b;
                 r \<leftarrow> tal_packet PROTOCOL_PKT_CHILDREN (blk @ cpu_to_le32 (ecode_code PROTOCOL_ECODE_NONE));
                 r1 \<leftarrow> append_children s (b_children bb) r;
                 Some (PROTOCOL_ECODE_NONE, Some r1) }) } }"

definition recv_get_block :: "state \<Rightarrow> bytes \<Rightarrow> (protocol_ecode \<times> bytes option) option" where
  "recv_get_block s pkt =
     do { len \<leftarrow> rd32 pkt 0;
          if len \<noteq> 40 then Some (PROTOCOL_ECODE_INVALID_LEN, None)
          else do {
            blk \<leftarrow> c_slice pkt 8 32;
            found \<leftarrow> block_find_any s blk;
            r1 \<leftarrow> (case found of
               Some b \<Rightarrow> do {
                 bb \<leftarrow> st_heap s b;
                 r \<leftarrow> tal_packet PROTOCOL_PKT_BLOCK (cpu_to_le32 (ecode_code PROTOCOL_ECODE_NONE));
                 tal_packet_append_block r (b_parts bb) }
             | None \<Rightarrow> do {
                 r \<leftarrow> tal_packet PROTOCOL_PKT_BLOCK (cpu_to_le32 (ecode_code PROTOCOL_ECODE_UNKNOWN_BLOCK));
                 tal_packet_append_sha r blk });
            Some (PROTOCOL_ECODE_NONE, Some r1) } }"

fun recv_children_loop :: "nat list \<Rightarrow> bytes \<Rightarrow> state \<Rightarrow> state option" where
  \<comment> \<open>every round looks up \<^verbatim>\<open>s->block\<close>, the first entry\<close>
  "recv_children_loop [] body s = Some s"
| "recv_children_loop (i # is) body s =
     do { sha \<leftarrow> c_slice body 0 32;
          found \<leftarrow> block_find_any s sha;
          s1 \<leftarrow> (case found of
             None \<Rightarrow> Some (todo_add_get_block s sha)
           | Some b \<Rightarrow> do {
               bb \<leftarrow> st_heap s b;
               ours \<leftarrow> num_children (st_heap s) None 100 b;
               theirs \<leftarrow> rd32 body (36 * i + 32);
               Some (if ours < theirs then todo_add_get_children s (b_sha bb) else s) });
          recv_children_loop is body s1 }"

definition recv_children :: "state \<Rightarrow> nat \<Rightarrow> bytes \<Rightarrow> (protocol_ecode \<times> state) option" where
  "recv_children s k pkt =
     do { plen \<leftarrow> rd32 pkt 0;
          if plen < 44 then Some (PROTOCOL_ECODE_INVALID_LEN, s)
          else do {
            blk \<leftarrow> c_slice pkt 8 32;
            err \<leftarrow> rd32 pkt 40;
            parent \<leftarrow> block_find_any s blk;
            if parent = None then Some (PROTOCOL_ECODE_UNKNOWN_BLOCK, s)
            else if err \<noteq> ecode_code PROTOCOL_ECODE_NONE \<and> plen \<noteq> 44 then Some (PROTOCOL_ECODE_INVALID_LEN, s)
            else if err \<noteq> ecode_code PROTOCOL_ECODE_NONE \<and> err \<noteq> ecode_code PROTOCOL_ECODE_UNKNOWN_BLOCK
            then Some (PROTOCOL_ECODE_UNKNOWN_COMMAND, s)
            else do {
              s1 \<leftarrow> (if err \<noteq> ecode_code PROTOCOL_ECODE_NONE then todo_done_get_children s k blk False else Some s);
              let len = unat plen - 44;
              let num = len div 36;
              if len mod 36 \<noteq> 0 then Some (PROTOCOL_ECODE_INVALID_LEN, s1)
              else do {
                s2 \<leftarrow> recv_children_loop [0..<num] (drop 44 pkt) s1;
                s3 \<leftarrow> todo_done_get_children s2 k blk True;
                Some (PROTOCOL_ECODE_NONE, s3) } } } }"

subsection \<open>welcome.c\<close>

partial_function (option) welcome_loop :: "heap \<Rightarrow> nat \<Rightarrow> u32 \<Rightarrow> bptr \<Rightarrow> bytes \<Rightarrow> (nat \<times> bptr \<times> bytes) option" where
  \<comment> \<open>\<open>b\<close> is \<open>last\<close>, the block appended last; \<open>n\<close> how many were\<close>
  "welcome_loop h n step b pkt =
     do { let step1 = (if n < 10 then 1 else step * 2);
          anc \<leftarrow> block_ancestor h (Some b) (unat step1);
          (case anc of
             None \<Rightarrow> Some (n, b, pkt)
           | Some a \<Rightarrow> do {
               ab \<leftarrow> h a;
               pkt1 \<leftarrow> tal_packet_append_sha pkt (b_sha ab);
               welcome_loop h (Suc n) step1 a pkt1 }) }"

definition set_bytes :: "bytes \<Rightarrow> nat \<Rightarrow> bytes \<Rightarrow> bytes option" where
  \<comment> \<open>an assignment to a field of a packet\<close>
  "set_bytes pkt off bs =
     do { c_assert (off + length bs \<le> length pkt); Some (take off pkt @ bs @ drop (off + length bs) pkt) }"

definition add_welcome_blocks :: "state \<Rightarrow> bytes \<Rightarrow> bytes option" where
  "add_welcome_blocks s w =
     do { let h = st_heap s;
          bb \<leftarrow> h (st_preferred_chain s);
          w1 \<leftarrow> tal_packet_append_sha w (b_sha bb);
          (n, last_block, w2) \<leftarrow> welcome_loop h 1 1 (st_preferred_chain s) w1;
          g \<leftarrow> genesis_block s;
          gb \<leftarrow> h g;
          (n1, w3) \<leftarrow> (if last_block \<noteq> g
                      then do { w3 \<leftarrow> tal_packet_append_sha w2 (b_sha gb); Some (Suc n, w3) }
                      else Some (n, w2));
          set_bytes w3 98 (cpu_to_le16 (word_of_nat n1)) }"

definition set_map_bit :: "bytes \<Rightarrow> nat \<Rightarrow> bytes option" where
  \<comment> \<open>\<^verbatim>\<open>map[i / 8] |= (1 << (i % 8))\<close>\<close>
  "set_map_bit m i = do { b \<leftarrow> c_nth m (i div 8); Some (m[i div 8 := b OR push_bit (i mod 8) 1]) }"

definition map_len :: "nat \<Rightarrow> nat" where
  "map_len bits = (bits + 31) div 32 * 4"

definition add_interests :: "state \<Rightarrow> bytes \<Rightarrow> u8 \<Rightarrow> bytes option" where
  \<comment> \<open>\<open>interested_in_shard\<close> is called with its last two arguments exchanged\<close>
  "add_interests s w shard_order =
     do { let n = 2 ^ unat shard_order;
          m \<leftarrow> ofold (\<lambda>i m. do {
                   want \<leftarrow> interested_in_shard (st_interests s) i (ucast shard_order);
                   if want then set_map_bit m i else Some m })
                [0..<n] (replicate (map_len n) 0);
          w1 \<leftarrow> set_bytes w 100 [shard_order];
          tal_packet_append w1 m }"

definition make_welcome ::
    "state \<Rightarrow> bytes \<Rightarrow> bytes \<Rightarrow> u16 \<Rightarrow> protocol_net_address \<Rightarrow> bytes \<Rightarrow> bytes option" where
  \<comment> \<open>\<open>moniker\<close>: the 32 bytes of the version string, of which the last four are overwritten by the
     \<open>uuid\<close>; \<open>junk\<close>: the bytes of the structure that are not assigned\<close>
  "make_welcome s moniker uuid listen_port a junk =
     do { w \<leftarrow> tal_packet PROTOCOL_PKT_WELCOME
            (cpu_to_le32 (ucast current_version) @ take 28 moniker @ uuid @ enc_net_address a @
             cpu_to_le16 listen_port @ take 3 junk @ [0] @ drop 3 junk);
          bb \<leftarrow> st_heap s (st_preferred_chain s);
          w1 \<leftarrow> add_interests s w (bh_shard_order (b_hdr bb));
          add_welcome_blocks s w1 }"

definition popcount :: "bytes \<Rightarrow> nat \<Rightarrow> nat option" where
  "popcount bits num_bits =
     ofold (\<lambda>i n. do { b \<leftarrow> c_nth bits (i div 8); Some (if bit b (i mod 8) then Suc n else n) }) [0..<num_bits] 0"

definition check_welcome :: "state \<Rightarrow> bytes \<Rightarrow> (protocol_ecode \<times> nat option) option" where
  \<comment> \<open>the second component: the offset of \<open>*blocks\<close> in the packet\<close>
  "check_welcome s w =
     do { len \<leftarrow> rd32 w 0;
          g \<leftarrow> genesis_block s;
          gb \<leftarrow> st_heap s g;
          if len < 104 then Some (PROTOCOL_ECODE_INVALID_LEN, None)
          else do {
            type \<leftarrow> rd32 w 4;
            version \<leftarrow> rd32 w 8;
            order \<leftarrow> rd8 w 100;
            num_blocks \<leftarrow> rd16 w 98;
            if type \<noteq> PROTOCOL_PKT_WELCOME then Some (PROTOCOL_ECODE_UNKNOWN_COMMAND, None)
            else if version \<noteq> ucast current_version then Some (PROTOCOL_ECODE_HIGH_VERSION, None)
            else if order < PROTOCOL_INITIAL_SHARD_ORDER then Some (PROTOCOL_ECODE_BAD_SHARD_ORDER, None)
            else if order > PROTOCOL_MAX_SHARD_ORDER then Some (PROTOCOL_ECODE_BAD_SHARD_ORDER, None)
            else do {
              let len1 = unat len - 104;
              let interest_len = map_len (2 ^ unat order);
              if len1 < interest_len then Some (PROTOCOL_ECODE_INVALID_LEN, None)
              else do {
                n \<leftarrow> popcount (drop 104 w) (2 ^ unat order);
                if n < 2 then Some (PROTOCOL_ECODE_NO_INTEREST, None)
                else do {
                  let blocks = 104 + interest_len;
                  if num_blocks < 1 then Some (PROTOCOL_ECODE_INVALID_LEN, Some blocks)
                  else if len1 - interest_len \<noteq> unat num_blocks * 32 then Some (PROTOCOL_ECODE_INVALID_LEN, Some blocks)
                  else do {
                    sha \<leftarrow> c_slice w (blocks + 32 * (unat num_blocks - 1)) 32;
                    if sha \<noteq> b_sha gb then Some (PROTOCOL_ECODE_WRONG_GENESIS, Some blocks)
                    else Some (PROTOCOL_ECODE_NONE, Some blocks) } } } } } }"

subsection \<open>What \<open>num_children\<close> counts\<close>

text \<open>
  \<open>level h e k b\<close> holds the descendents \<open>k\<close> levels below \<open>b\<close> that are not reached through \<open>e\<close>,
  \<open>below h e n b\<close> is the number of blocks in the first \<open>n\<close> levels, \<open>b\<close> included.
\<close>

definition other_children :: "heap \<Rightarrow> bptr option \<Rightarrow> bptr \<Rightarrow> bptr list" where
  "other_children h e b = (case h b of Some bb \<Rightarrow> filter (\<lambda>c. Some c \<noteq> e) (b_children bb) | None \<Rightarrow> [])"

fun level :: "heap \<Rightarrow> bptr option \<Rightarrow> nat \<Rightarrow> bptr \<Rightarrow> bptr list" where
  "level h e 0 b = [b]"
| "level h e (Suc k) b = concat (map (level h e k) (other_children h e b))"

fun below :: "heap \<Rightarrow> bptr option \<Rightarrow> nat \<Rightarrow> bptr \<Rightarrow> nat" where
  "below h e 0 b = 0"
| "below h e (Suc n) b = 1 + sum_list (map (below h e n) (other_children h e b))"

lemma below_levels: "below h e n b = (\<Sum>k<n. length (level h e k b))"
proof (induction n arbitrary: b)
  case (Suc n)
  have "sum_list (map (below h e n) cs) = (\<Sum>k<n. length (concat (map (level h e k) cs)))" for cs
    by (induction cs) (simp_all add: Suc sum.distrib)
  then show ?case by (simp add: sum.lessThan_Suc_shift del: sum.lessThan_Suc)
qed simp

lemma below_pos: "0 < n \<Longrightarrow> 0 < below h e n b"
  by (cases n) auto

lemma children_loop_eq:
  assumes "\<And>c. c \<in> set cs \<Longrightarrow> Some c \<noteq> e \<Longrightarrow>
      cnt c = Some (if deep c then PROTOCOL_PKT_CHILDREN_SOME else word_of_nat (f c))"
    and "\<And>c. c \<in> set cs \<Longrightarrow> Some c \<noteq> e \<Longrightarrow> \<not> deep c \<Longrightarrow> f c < 2 ^ 32 - 1"
  shows "children_loop cnt e cs num =
    Some (if \<exists>c \<in> set cs. Some c \<noteq> e \<and> deep c then PROTOCOL_PKT_CHILDREN_SOME
          else num + word_of_nat (sum_list (map (\<lambda>c. 1 + f c) (filter (\<lambda>c. Some c \<noteq> e) cs))))"
  using assms
proof (induction cs arbitrary: num)
  case (Cons c cs)
  show ?case
  proof (cases "Some c = e \<or> deep c")
    case True
    then show ?thesis using Cons by auto
  next
    case False
    then have c: "cnt c = Some (word_of_nat (f c))" "f c < 2 ^ 32 - 1"
      using Cons.prems by simp_all
    have "(word_of_nat (f c) :: u32) \<noteq> PROTOCOL_PKT_CHILDREN_SOME"
    proof
      assume "(word_of_nat (f c) :: u32) = PROTOCOL_PKT_CHILDREN_SOME"
      then have "unat (word_of_nat (f c) :: u32) = unat PROTOCOL_PKT_CHILDREN_SOME" by simp
      then show False
        using c(2) by (simp add: PROTOCOL_PKT_CHILDREN_SOME_def unsigned_of_nat take_bit_nat_eq_self)
    qed
    then show ?thesis using False c Cons by (auto simp: algebra_simps)
  qed
qed simp

lemma num_children_eq:
  assumes "heap_ok h" "h b = Some bb" "below h e left b < 2 ^ 32"
  shows "num_children h e left b =
    Some (if level h e left b \<noteq> [] then PROTOCOL_PKT_CHILDREN_SOME else word_of_nat (below h e left b - 1))"
  using assms(2,3)
proof (induction left arbitrary: b bb)
  case (Suc left)
  let ?cs = "filter (\<lambda>c. Some c \<noteq> e) (b_children bb)"
  have cs: "other_children h e b = ?cs" using Suc.prems(1) by (simp add: other_children_def)
  have small: "below h e left c < 2 ^ 32 - 1" if "c \<in> set (b_children bb)" "Some c \<noteq> e" for c
  proof -
    have "below h e left c \<le> sum_list (map (below h e left) ?cs)"
      using that by (intro member_le_sum_list) auto
    then show ?thesis using Suc.prems(2) cs by simp
  qed
  have count: "num_children h e left c =
      Some (if level h e left c \<noteq> [] then PROTOCOL_PKT_CHILDREN_SOME else word_of_nat (below h e left c - 1))"
    if c: "c \<in> set (b_children bb)" "Some c \<noteq> e" for c
    using Suc.IH heap_child[OF assms(1) Suc.prems(1) c(1)] small[OF c] by fastforce
  have loop: "children_loop (num_children h e left) e (b_children bb) 0 =
    Some (if \<exists>c \<in> set (b_children bb). Some c \<noteq> e \<and> level h e left c \<noteq> [] then PROTOCOL_PKT_CHILDREN_SOME
          else 0 + word_of_nat (sum_list (map (\<lambda>c. 1 + (below h e left c - 1)) ?cs)))"
  proof (rule children_loop_eq)
    show "below h e left c - 1 < 2 ^ 32 - 1" if "c \<in> set (b_children bb)" "Some c \<noteq> e" for c
      using small[OF that] by linarith
  qed (use count in auto)
  have deep: "level h e (Suc left) b \<noteq> [] \<longleftrightarrow> (\<exists>c \<in> set (b_children bb). Some c \<noteq> e \<and> level h e left c \<noteq> [])"
    using cs by auto
  show ?case
  proof (cases "level h e (Suc left) b \<noteq> []")
    case True
    then show ?thesis using loop Suc.prems(1) deep by auto
  next
    case False
    have "map (\<lambda>c. 1 + (below h e left c - 1)) ?cs = map (below h e left) ?cs"
    proof (cases left)
      case 0
      then show ?thesis using False cs by (simp add: filter_empty_conv)
    next
      case (Suc m)
      then have "1 + (below h e left c - 1) = below h e left c" for c by simp
      then show ?thesis by simp
    qed
    note same = arg_cong[where f = sum_list, OF this]
    show ?thesis using loop[unfolded same] Suc.prems(1) deep False cs by auto
  qed
qed simp

text \<open>
  On a well-formed block tree \<open>num_children\<close> returns the number of descendents that are not
  reached through \<open>except\<close>, as long as none is a hundred levels down, and
  \<open>PROTOCOL_PKT_CHILDREN_SOME\<close> as soon as there is one.
\<close>

theorem num_children_correct:
  assumes "heap_ok h" "h b = Some bb" "below h e 100 b < 2 ^ 32"
  shows "num_children h e 100 b =
    Some (if level h e 100 b \<noteq> [] then PROTOCOL_PKT_CHILDREN_SOME
          else word_of_nat (\<Sum>k=1..<100. length (level h e k b)))"
proof -
  have "below h e 100 b = 1 + (\<Sum>k=1..<100. length (level h e k b))"
    unfolding below_levels lessThan_atLeast0 by (subst sum.atLeast_Suc_lessThan) auto
  then show ?thesis using num_children_eq[OF assms] by simp
qed

theorem num_children_correct_witness: "num_children (ex_heap 3) None 100 2 = Some 1"
proof -
  have oc: "other_children (ex_heap 3) None 2 = [3]" "other_children (ex_heap 3) None 3 = []"
    by (simp_all add: other_children_def ex_heap_def ex_block_def)
  have l3: "level (ex_heap 3) None k 3 = (if k = 0 then [3] else [])" for k
    using oc by (cases k) auto
  have l2: "length (level (ex_heap 3) None k 2) = (if k \<in> {0, 1} then 1 else 0)" for k
    using oc l3 by (cases k) auto
  have "below (ex_heap 3) None 100 2 = (\<Sum>k<100::nat. if k \<in> {0, 1} then 1 else 0)"
    unfolding below_levels l2 ..
  also have "\<dots> = 2" by (simp add: eval_nat_numeral)
  finally have "below (ex_heap 3) None 100 2 < 2 ^ 32" by simp
  moreover have "ex_heap 3 2 = Some (ex_block 3 2)" by (simp add: ex_heap_def)
  ultimately have "num_children (ex_heap 3) None 100 2 =
    Some (if level (ex_heap 3) None 100 2 \<noteq> [] then PROTOCOL_PKT_CHILDREN_SOME
          else word_of_nat (\<Sum>k=1..<100. length (level (ex_heap 3) None k 2)))"
    using num_children_correct[OF ex_heap_ok[of 3], of 2 _ None] by simp
  moreover have "level (ex_heap 3) None 100 2 = []"
    using l2[of 100] by simp
  moreover have s: "(\<Sum>k=1..<100. length (level (ex_heap 3) None k 2)) = (\<Sum>k=1..<100::nat. if k = 1 then 1 else 0)"
    by (rule sum.cong) (use l2 in auto)
  ultimately show ?thesis unfolding s by (simp add: sum.delta)
qed

subsection \<open>Packets with a list of blocks\<close>

lemma length_enc_syncblock [simp]: "length (enc_syncblock sha n) = length sha + 4"
  by (simp add: enc_syncblock_def cpu_to_le32_def)

definition enc_syncblocks :: "(sha \<times> u32) list \<Rightarrow> bytes" where
  "enc_syncblocks bs = concat (map (\<lambda>(sha, n). enc_syncblock sha n) bs)"

lemma enc_syncblocks_simps [simp]:
  "enc_syncblocks [] = []"
  "enc_syncblocks ((sha, n) # bs) = enc_syncblock sha n @ enc_syncblocks bs"
  "enc_syncblocks (bs @ cs) = enc_syncblocks bs @ enc_syncblocks cs"
  by (simp_all add: enc_syncblocks_def)

lemma length_enc_syncblocks:
  "(\<And>b. b \<in> set bs \<Longrightarrow> length (fst b) = 32) \<Longrightarrow> length (enc_syncblocks bs) = 36 * length bs"
  by (induction bs) fastforce+

subsection \<open>\<open>recv_children\<close> looks at the first entry only\<close>

lemma block_find_any_todo [simp]: "block_find_any (new_todo_request s type sha sh off) x = block_find_any s x"
  by (simp add: block_find_any_def new_todo_request_eq emit_def)

lemma block_find_any_todo_block [simp]: "block_find_any (todo_add_get_block s sha) x = block_find_any s x"
  by (simp add: todo_add_get_block_def)

lemma todo_add_get_block_twice: "todo_add_get_block (todo_add_get_block s sha) sha = todo_add_get_block s sha"
proof -
  have "find_todo (new_todo_request s PKT_GET_BLOCK sha 0 0) PKT_GET_BLOCK sha 0 0 \<noteq> None"
    by (simp add: new_todo_request_eq emit_def find_todo_def find_todo_from_None fresh_request_def todo_matches_def)
  then show ?thesis unfolding todo_add_get_block_def by (subst new_todo_request_eq) simp
qed

lemma recv_children_loop_first:
  assumes "c_slice body 0 32 = Some sha" "block_find_any s sha = Some None" "is \<noteq> []"
  shows "recv_children_loop is body s = Some (todo_add_get_block s sha)"
  using assms(2,3)
proof (induction "is" arbitrary: s)
  case (Cons i js)
  then show ?case
    using Cons.IH[of "todo_add_get_block s sha"] todo_add_get_block_twice
    unfolding recv_children_loop.simps assms(1) by (cases "js = []") simp_all
qed simp

text \<open>
  \<open>recv_children\<close> compares every entry of a packet with the first block (\<^verbatim>\<open>s->block\<close> where
  \<^verbatim>\<open>s[i].block\<close> is meant): if that one is unknown, it is the only one that is asked for, whatever
  children the peer lists behind it.
\<close>

theorem children_behind_first_ignored:
  assumes "pkt_ok pkt" "drop 8 pkt = blk @ cpu_to_le32 0 @ enc_syncblocks ((sha, n) # bs)"
    and "length blk = 32" "\<And>b. b \<in> set ((sha, n) # bs) \<Longrightarrow> length (fst b) = 32"
    and "block_find_any s blk = Some (Some parent)" "block_find_any s sha = Some None"
  shows "recv_children s k pkt =
    do { s1 \<leftarrow> todo_done_get_children (todo_add_get_block s sha) k blk True; Some (PROTOCOL_ECODE_NONE, s1) }"
proof -
  have len: "length (enc_syncblocks ((sha, n) # bs)) = 36 * length ((sha, n) # bs)"
    by (rule length_enc_syncblocks[OF assms(4)])
  have plen: "length pkt = 44 + 36 * length ((sha, n) # bs)"
    using arg_cong[OF assms(2), of length] assms(1,3) len
    by (simp add: pkt_ok_def cpu_to_le32_def)
  have pkt: "pkt = take 8 pkt @ blk @ cpu_to_le32 0 @ enc_syncblocks ((sha, n) # bs)"
    using append_take_drop_id[of 8 pkt] assms(2) by simp
  have l8: "length (take 8 pkt) = 8" using plen by simp
  have c1: "c_slice pkt 8 32 = Some blk"
    by (subst pkt, rule c_slice_append) (use l8 assms(3) in auto)
  have c2: "rd32 pkt 40 = Some 0"
    by (subst pkt, subst append_assoc[symmetric], rule rd32_append) (use l8 assms(3) in auto)
  have c3: "c_slice (drop 44 pkt) 0 32 = Some sha"
  proof -
    have "drop 44 pkt = drop 36 (drop 8 pkt)" by simp
    also have "\<dots> = enc_syncblocks ((sha, n) # bs)"
      unfolding assms(2) using assms(3) by (simp add: cpu_to_le32_def)
    finally show ?thesis using assms(4)[of "(sha, n)"] by (simp add: c_slice_def enc_syncblock_def)
  qed
  define len :: u32 where "len = word_of_nat (length pkt)"
  have len: "rd32 pkt 0 = Some len" "unat len = 44 + 36 * Suc (length bs)"
    using rd32_pkt[OF assms(1)] unat_pkt_len[OF assms(1)] plen by (simp_all add: len_def)
  have enough: "\<not> len < 44" using len(2) by (simp add: word_less_nat_alt)
  have "recv_children_loop [0..<Suc (length bs)] (drop 44 pkt) s = Some (todo_add_get_block s sha)"
    using c3 assms(6) by (rule recv_children_loop_first) simp
  moreover have "(unat len - 44) div 36 = Suc (length bs)" "(unat len - 44) mod 36 = 0"
    unfolding len(2) by simp_all
  ultimately show ?thesis
    using assms(5) enough unfolding recv_children_def len(1) c1 c2
    by (simp add: ecode_code_def all_ecodes_def Let_def del: upt_Suc)
qed

text \<open>A packet of two children of block 2, neither of which is known.\<close>

definition ex_children_pkt :: bytes where
  "ex_children_pkt =
     cpu_to_le32 116 @ cpu_to_le32 PROTOCOL_PKT_CHILDREN @ nat_le 32 2 @ cpu_to_le32 0 @
     enc_syncblocks [(replicate 32 7, 0), (replicate 32 8, 5)]"

lemma ex_find_block: "i \<le> n \<Longrightarrow> n < 2 ^ 32 \<Longrightarrow> \<exists>b. block_find_any (ex_state n) (nat_le 32 i) = Some (Some b)"
proof -
  assume i: "i \<le> n" "n < 2 ^ 32"
  then have "st_heap (ex_state n) i = Some (ex_block n i)" "b_sha (ex_block n i) = nat_le 32 i"
    by (simp_all add: ex_state_def ex_heap_def ex_block_def)
  then show ?thesis
    using block_find_any_eq [OF ex_levels_ok [OF i(2)], of "nat_le 32 i"]
    by (auto split: option.splits)
qed

lemma ex_find_no_block: "block_find_any (ex_state 3) (replicate 32 7) = Some None"
proof -
  have "b_sha bb \<noteq> replicate 32 7" if "st_heap (ex_state 3) i = Some bb" for i bb
  proof -
    have bb: "i \<in> {0, 1, 2, 3}" "b_sha bb = nat_le 32 i"
      using that by (auto simp: ex_state_def ex_heap_def ex_block_def split: if_splits)
    have "nat_le 32 i = word_of_nat (i mod 256) # nat_le 31 (i div 256)"
      using nat_le.simps(2)[of 31 i] by simp
    then have "hd (nat_le 32 i) \<noteq> 7" using bb(1) by auto
    then show ?thesis using bb(2) by auto
  qed
  then show ?thesis
    using block_find_any_eq [OF ex_levels_ok [of 3], of "replicate 32 7"]
    by (auto split: option.splits)
qed

theorem children_behind_first_ignored_witness:
  "recv_children (ex_state 3) 0 ex_children_pkt =
    do { s1 \<leftarrow> todo_done_get_children (todo_add_get_block (ex_state 3) (replicate 32 7)) 0 (nat_le 32 2) True;
         Some (PROTOCOL_ECODE_NONE, s1) }"
proof -
  have bs: "length (enc_syncblocks [(replicate 32 7, 0), (replicate 32 8, 5)]) = 72" by simp
  obtain b where b: "block_find_any (ex_state 3) (nat_le 32 2) = Some (Some b)"
    using ex_find_block[of 2 3] by auto
  have new: "block_find_any (ex_state 3) (replicate 32 7) = Some None"
    by (rule ex_find_no_block)
  have ok: "pkt_ok ex_children_pkt"
    using bs by (simp add: pkt_ok_def ex_children_pkt_def cpu_to_le32_def)
  show ?thesis
    by (rule children_behind_first_ignored[OF ok _ _ _ b new, of 0 "[(replicate 32 8, 5)]"])
      (auto simp: ex_children_pkt_def cpu_to_le32_def)
qed

subsection \<open>Greeting\<close>

text \<open>
  \<open>add_interests\<close> asks \<^verbatim>\<open>interested_in_shard(state, i, shard_order)\<close>, whose second parameter is the
  order and whose third is the shard: for the first shard the difference of orders is negative.
\<close>

theorem make_welcome_undefined: "make_welcome s moniker uuid port a junk = None"
proof -
  have "interested_in_shard (st_interests s) 0 sh = None" for sh
    by (simp add: interested_in_shard_def PROTOCOL_INITIAL_SHARD_ORDER_def)
  moreover have "[0..<2 ^ n] = 0 # [Suc 0..<2 ^ n]" for n
    by (simp add: upt_conv_Cons)
  ultimately have "add_interests s w ord = None" for w ord
    by (simp add: add_interests_def Let_def)
  then show ?thesis
    by (simp add: make_welcome_def split: option.splits bind_splits)
qed

definition shards_in :: "bytes \<Rightarrow> nat \<Rightarrow> nat set" where
  "shards_in interests num = {i. i < num \<and> bit (interests ! (i div 8)) (i mod 8)}"

lemma popcount_eq: "num \<le> 8 * length bits \<Longrightarrow> popcount bits num = Some (card (shards_in bits num))"
proof (induction num)
  case (Suc num)
  have "shards_in bits (Suc num) =
      (if bit (bits ! (num div 8)) (num mod 8) then insert num (shards_in bits num) else shards_in bits num)"
    by (auto simp: shards_in_def less_Suc_eq)
  moreover have "finite (shards_in bits num)" "num \<notin> shards_in bits num"
    by (simp_all add: shards_in_def)
  moreover have "num div 8 < length bits" using Suc.prems by simp
  ultimately show ?case using Suc by (simp add: popcount_def c_nth_def)
qed (simp add: popcount_def shards_in_def)

lemma map_len_enough: "n \<le> 8 * map_len n"
  by (simp add: map_len_def)

text \<open>What a greeting has to look like.\<close>

definition welcome_ok :: "sha \<Rightarrow> bytes \<Rightarrow> bool" where
  "welcome_ok genesis w \<longleftrightarrow>
     (\<exists>hdr interests shas. w = hdr @ interests @ concat shas \<and>
        length hdr = 104 \<and> rd32 hdr 4 = Some PROTOCOL_PKT_WELCOME \<and> rd32 hdr 8 = Some (ucast current_version) \<and>
        hdr ! 100 \<in> {PROTOCOL_INITIAL_SHARD_ORDER..PROTOCOL_MAX_SHARD_ORDER} \<and>
        length interests = map_len (2 ^ unat (hdr ! 100)) \<and>
        2 \<le> card (shards_in interests (2 ^ unat (hdr ! 100))) \<and>
        (\<forall>sha \<in> set shas. length sha = 32) \<and> shas \<noteq> [] \<and> last shas = genesis \<and>
        map_option unat (rd16 hdr 98) = Some (length shas))"

lemma split_shas: "length bs = 32 * n \<Longrightarrow> \<exists>shas. bs = concat shas \<and> length shas = n \<and> (\<forall>sha \<in> set shas. length sha = 32)"
proof (induction n arbitrary: bs)
  case (Suc n)
  have "length (drop 32 bs) = 32 * n" using Suc.prems by simp
  then obtain shas where "drop 32 bs = concat shas" "length shas = n" "\<forall>sha \<in> set shas. length sha = 32"
    using Suc.IH by blast
  then show ?case using Suc.prems
    by (intro exI[of _ "take 32 bs # shas"]) (simp, metis append_take_drop_id)
qed simp

lemma length_concat_shas: "\<forall>sha \<in> set shas. length sha = 32 \<Longrightarrow> length (concat shas) = 32 * length shas"
  by (induction shas) auto

lemma last_sha:
  assumes "\<forall>sha \<in> set shas. length sha = 32" "shas \<noteq> []"
  shows "take 32 (drop (32 * (length shas - 1)) (concat shas)) = last shas"
proof -
  have "length (concat (butlast shas)) = 32 * (length shas - 1)"
    using length_concat_shas[of "butlast shas"] assms(1) in_set_butlastD by fastforce
  moreover have "concat shas = concat (butlast shas) @ last shas"
    using assms(2) by (metis append_butlast_last_id concat_append concat.simps append_Nil2)
  moreover have "length (last shas) = 32" using assms by simp
  ultimately show ?thesis by simp
qed

lemma welcome_okI:
  fixes w :: bytes
  defines "ml \<equiv> map_len (2 ^ unat (w ! 100))"
  assumes "rd32 w 4 = Some PROTOCOL_PKT_WELCOME" "rd32 w 8 = Some (ucast current_version)"
    and "rd16 w 98 = Some nb" "1 \<le> nb" "w ! 100 \<in> {PROTOCOL_INITIAL_SHARD_ORDER..PROTOCOL_MAX_SHARD_ORDER}"
    and "2 \<le> card (shards_in (drop 104 w) (2 ^ unat (w ! 100)))" "length w = 104 + ml + 32 * unat nb"
    and "take 32 (drop (104 + ml + 32 * (unat nb - 1)) w) = genesis"
  shows "welcome_ok genesis w"
proof -
  let ?rest = "drop (104 + ml) w"
  obtain shas where shas: "?rest = concat shas" "length shas = unat nb" "\<forall>sha \<in> set shas. length sha = 32"
    using split_shas[of ?rest "unat nb"] assms(8) by auto
  have ne: "shas \<noteq> []" using shas(2) assms(5) by (auto simp: word_le_nat_alt)
  have "w = take 104 w @ take ml (drop 104 w) @ concat shas"
    unfolding shas(1)[symmetric] by (metis append_take_drop_id drop_drop add.commute)
  moreover have "rd32 (take 104 w) 4 = rd32 w 4" "rd32 (take 104 w) 8 = rd32 w 8" "rd16 (take 104 w) 98 = rd16 w 98"
    using assms(8) by (simp_all add: rd32_def rd16_def c_slice_def drop_take min_def)
  moreover have "shards_in (take ml (drop 104 w)) (2 ^ unat (w ! 100)) = shards_in (drop 104 w) (2 ^ unat (w ! 100))"
    using map_len_enough[of "2 ^ unat (w ! 100)"] by (auto simp: shards_in_def ml_def)
  moreover have "last shas = genesis"
  proof -
    have "drop (104 + ml + k) w = drop k (concat shas)" for k
      unfolding shas(1)[symmetric] by (simp add: add.commute)
    then show ?thesis using last_sha[OF shas(3) ne] assms(9) shas(2) by simp
  qed
  ultimately show ?thesis
    unfolding welcome_ok_def using assms(2-7) assms(8) shas(2,3) ne
    by (intro exI[of _ "take 104 w"] exI[of _ "take ml (drop 104 w)"] exI[of _ shas]) (simp add: ml_def)
qed

lemma welcome_okD:
  assumes "welcome_ok genesis w"
  obtains nb where "rd32 w 4 = Some PROTOCOL_PKT_WELCOME" "rd32 w 8 = Some (ucast current_version)"
    "rd16 w 98 = Some nb" "1 \<le> nb" "w ! 100 \<in> {PROTOCOL_INITIAL_SHARD_ORDER..PROTOCOL_MAX_SHARD_ORDER}"
    "2 \<le> card (shards_in (drop 104 w) (2 ^ unat (w ! 100)))"
    "length w = 104 + map_len (2 ^ unat (w ! 100)) + 32 * unat nb"
    "take 32 (drop (104 + map_len (2 ^ unat (w ! 100)) + 32 * (unat nb - 1)) w) = genesis"
proof -
  obtain hdr interests shas where w: "w = hdr @ interests @ concat shas" "length hdr = 104"
    "rd32 hdr 4 = Some PROTOCOL_PKT_WELCOME" "rd32 hdr 8 = Some (ucast current_version)"
    "hdr ! 100 \<in> {PROTOCOL_INITIAL_SHARD_ORDER..PROTOCOL_MAX_SHARD_ORDER}"
    "length interests = map_len (2 ^ unat (hdr ! 100))"
    "2 \<le> card (shards_in interests (2 ^ unat (hdr ! 100)))"
    "\<forall>sha \<in> set shas. length sha = 32" "shas \<noteq> []" "last shas = genesis"
    "map_option unat (rd16 hdr 98) = Some (length shas)"
    using assms unfolding welcome_ok_def by blast
  obtain nb where nb: "rd16 hdr 98 = Some nb" "unat nb = length shas" using w(11) by auto
  have h: "w ! 100 = hdr ! 100" using w(1,2) by (simp add: nth_append)
  have "rd32 hdr 4 = rd32 w 4" "rd32 hdr 8 = rd32 w 8" "rd16 hdr 98 = rd16 w 98"
    using w(1,2) by (simp_all add: rd32_def rd16_def c_slice_def)
  moreover have "shards_in (drop 104 w) (2 ^ unat (hdr ! 100)) = shards_in interests (2 ^ unat (hdr ! 100))"
    using map_len_enough[of "2 ^ unat (hdr ! 100)"] w(1,2,6) by (auto simp: shards_in_def nth_append)
  moreover have "length (concat shas) = 32 * unat nb" using length_concat_shas[OF w(8)] nb(2) by simp
  moreover have "take 32 (drop (104 + length interests + 32 * (unat nb - 1)) w) = genesis"
    using last_sha[OF w(8,9)] nb(2) w(1,2,10) by (simp add: add.commute[of "32 * _"])
  moreover have "length w = 104 + length interests + length (concat shas)" using w(1,2) by simp
  moreover have "1 \<le> nb" using nb(2) w(9) by (cases shas) (auto simp: word_le_nat_alt)
  ultimately show thesis
    using w(3-7) nb(1) w(8-10) by (intro that[of nb]) (auto simp: h)
qed

lemma check_welcome_eq:
  fixes w :: bytes
  defines "ml \<equiv> map_len (2 ^ unat (w ! 100))"
  assumes w: "pkt_ok w" "104 \<le> length w" and g: "genesis_block s = Some g" "st_heap s g = Some gb"
    and f: "rd32 w 4 = Some ty" "rd32 w 8 = Some ver" "rd16 w 98 = Some nb"
  shows "\<exists>e blocks. check_welcome s w = Some (e, blocks) \<and>
    (e = PROTOCOL_ECODE_NONE \<longleftrightarrow>
       ty = PROTOCOL_PKT_WELCOME \<and> ver = ucast current_version \<and>
       w ! 100 \<in> {PROTOCOL_INITIAL_SHARD_ORDER..PROTOCOL_MAX_SHARD_ORDER} \<and>
       2 \<le> card (shards_in (drop 104 w) (2 ^ unat (w ! 100))) \<and> 1 \<le> nb \<and>
       length w = 104 + ml + 32 * unat nb \<and>
       take 32 (drop (104 + ml + 32 * (unat nb - 1)) w) = b_sha gb)"
proof -
  define len :: u32 where "len = word_of_nat (length w)"
  have len: "rd32 w 0 = Some len" "unat len = length w"
    using rd32_pkt[OF w(1)] unat_pkt_len[OF w(1)] by (simp_all add: len_def)
  have big: "\<not> len < 104" using w(2) len(2) by (simp add: word_less_nat_alt)
  have order: "rd8 w 100 = Some (w ! 100)" using w(2) by simp
  show ?thesis
  proof (cases "length w - 104 < ml")
    case True
    then have "length w \<noteq> 104 + ml + 32 * unat nb" by simp
    then show ?thesis using True g f len(2) big
      unfolding check_welcome_def len(1) order by (simp add: ml_def[symmetric] Let_def)
  next
    case False
    have pop: "popcount (drop 104 w) (2 ^ unat (w ! 100)) = Some (card (shards_in (drop 104 w) (2 ^ unat (w ! 100))))"
      using False map_len_enough[of "2 ^ unat (w ! 100)"] unfolding ml_def by (intro popcount_eq) simp
    show ?thesis
    proof (cases "1 \<le> nb \<and> length w - 104 - ml = unat nb * 32")
      case True
      then have n: "1 \<le> unat nb" "length w = 104 + ml + 32 * unat nb"
        using False w(2) by (auto simp: word_le_nat_alt)
      have sha: "c_slice w (104 + ml + 32 * (unat nb - Suc 0)) 32 = Some (drop (104 + ml + 32 * (unat nb - Suc 0)) w)"
        using n by (simp add: c_slice_def)
      show ?thesis using True False n g f len(2) big
        unfolding check_welcome_def len(1) order
        by (simp add: ml_def[symmetric] pop sha Let_def not_less[symmetric] del: c_slice_eq_Some)
    next
      case bad: False
      then have "\<not> (1 \<le> nb \<and> length w = 104 + ml + 32 * unat nb)" by auto
      then show ?thesis using bad False g f len(2) big
        unfolding check_welcome_def len(1) order
        by (auto simp add: ml_def[symmetric] pop Let_def not_less[symmetric])
    qed
  qed
qed

text \<open>
  \<open>check_welcome\<close> never reads outside of the packet, and it accepts exactly the packets that consist
  of a header of the right type and version with a legal shard order, an interest map for that order
  with at least two shards, and the announced number of hashes, of which the last one is our
  genesis block.
\<close>

theorem check_welcome_correct:
  assumes "pkt_ok w" "genesis_block s = Some g" "st_heap s g = Some gb"
  shows "\<exists>e blocks. check_welcome s w = Some (e, blocks) \<and>
    (e = PROTOCOL_ECODE_NONE \<longleftrightarrow> welcome_ok (b_sha gb) w)"
proof (cases "length w < 104")
  case True
  then have "(word_of_nat (length w) :: u32) < 104"
    using unat_pkt_len[OF assms(1)] by (simp add: word_less_nat_alt)
  moreover have "\<not> welcome_ok (b_sha gb) w" using True by (auto elim: welcome_okD)
  ultimately show ?thesis using assms rd32_pkt[OF assms(1)] by (simp add: check_welcome_def)
next
  case False
  obtain ty ver nb where f: "rd32 w 4 = Some ty" "rd32 w 8 = Some ver" "rd16 w 98 = Some nb"
    using False by (auto simp: rd32_def rd16_def c_slice_def)
  obtain e blocks where e: "check_welcome s w = Some (e, blocks)"
    "e = PROTOCOL_ECODE_NONE \<longleftrightarrow>
       ty = PROTOCOL_PKT_WELCOME \<and> ver = ucast current_version \<and>
       w ! 100 \<in> {PROTOCOL_INITIAL_SHARD_ORDER..PROTOCOL_MAX_SHARD_ORDER} \<and>
       2 \<le> card (shards_in (drop 104 w) (2 ^ unat (w ! 100))) \<and> 1 \<le> nb \<and>
       length w = 104 + map_len (2 ^ unat (w ! 100)) + 32 * unat nb \<and>
       take 32 (drop (104 + map_len (2 ^ unat (w ! 100)) + 32 * (unat nb - 1)) w) = b_sha gb"
    using check_welcome_eq[OF assms(1) _ assms(2,3) f] False by (metis not_less)
  have "e = PROTOCOL_ECODE_NONE \<longleftrightarrow> welcome_ok (b_sha gb) w"
    unfolding e(2) using welcome_okI[of w nb "b_sha gb"] f by (auto elim!: welcome_okD)
  then show ?thesis using e(1) by blast
qed

text \<open>A greeting by a peer that knows only the genesis block and wants all four shards.\<close>

definition ex_welcome :: bytes where
  "ex_welcome =
     cpu_to_le32 140 @ cpu_to_le32 PROTOCOL_PKT_WELCOME @ cpu_to_le32 (ucast current_version) @
     replicate 86 0 @ cpu_to_le16 1 @ [2, 0, 0, 0] @ [15, 0, 0, 0] @ nat_le 32 0"

theorem check_welcome_correct_witness:
  "\<exists>blocks. check_welcome (ex_state 0) ex_welcome = Some (PROTOCOL_ECODE_NONE, blocks)"
proof -
  have len: "length ex_welcome = 140" by (simp add: ex_welcome_def cpu_to_le32_def cpu_to_le16_def)
  have ok: "pkt_ok ex_welcome" unfolding pkt_ok_def len by (simp add: ex_welcome_def cpu_to_le32_def)
  have split: "ex_welcome = (cpu_to_le32 140 @ cpu_to_le32 PROTOCOL_PKT_WELCOME) @
      cpu_to_le32 (ucast current_version) @ replicate 86 0 @ cpu_to_le16 1 @ [2, 0, 0, 0] @ [15, 0, 0, 0] @ nat_le 32 0"
    by (simp add: ex_welcome_def)
  have split2: "ex_welcome = (cpu_to_le32 140 @ cpu_to_le32 PROTOCOL_PKT_WELCOME @
      cpu_to_le32 (ucast current_version) @ replicate 86 0) @ cpu_to_le16 1 @ [2, 0, 0, 0] @ [15, 0, 0, 0] @ nat_le 32 0"
    by (simp add: ex_welcome_def)
  have 1: "rd32 ex_welcome 4 = Some PROTOCOL_PKT_WELCOME"
    unfolding ex_welcome_def by (rule rd32_append) (simp add: cpu_to_le32_def)
  have 2: "rd32 ex_welcome 8 = Some (ucast current_version)"
    unfolding split by (rule rd32_append) (simp add: cpu_to_le32_def)
  have 3: "rd16 ex_welcome 98 = Some 1"
    unfolding split2 by (rule rd16_append) (simp add: cpu_to_le32_def)
  have order: "ex_welcome ! 100 = 2"
    by (simp add: ex_welcome_def cpu_to_le32_def cpu_to_le16_def nth_append)
  have rest: "drop 104 ex_welcome = [15, 0, 0, 0] @ nat_le 32 0"
    by (simp add: ex_welcome_def cpu_to_le32_def cpu_to_le16_def)
  have "shards_in ([15, 0, 0, 0] @ nat_le 32 0) 4 = {0, 1, 2, 3}"
  proof -
    have "bit (15 :: u8) i \<longleftrightarrow> i \<in> {0, 1, 2, 3}" if "i < 4" for i
      using that by (auto simp: less_Suc_eq numeral_eq_Suc)
    then show ?thesis by (auto simp: shards_in_def)
  qed
  then have card: "card (shards_in (drop 104 ex_welcome) 4) = 4" by (simp add: rest)
  have "drop 108 ex_welcome = nat_le 32 0"
    using arg_cong[OF rest, of "drop 4"] by simp
  then have "welcome_ok (nat_le 32 0) ex_welcome"
    by (intro welcome_okI[of _ 1])
      (simp_all add: 1 2 3 order card len map_len_def PROTOCOL_INITIAL_SHARD_ORDER_def PROTOCOL_MAX_SHARD_ORDER_def)
  then show ?thesis
    using check_welcome_correct[OF ok, of "ex_state 0" 0 "ex_block 0 0"]
    by (auto simp: ex_state_def ex_heap_def ex_block_def genesis_block_def)
qed

end
