(* ===== verification/Peers.thy ===== *)
theory Peers
  imports Recv_complain Sync
begin

text \<open>
  \<open>peer.c\<close>: the handlers of the packets a peer (the \<open>k\<close>-th of the list) sends once both sides have
  exchanged greetings, and the dispatcher \<open>pkt_in\<close>.

  A handler with a reply returns the packet beside the error code. Fields of a packet that the code
  does not assign keep the bytes of the allocation, the arguments named \<open>junk\<close>. A loop over the
  transaction table runs over the entries for the hash as they were when it began and skips those
  that have been deleted since; an iterator of \<open>ccan/htable\<close> does the same. New entries that it
  might visit are pending ones, which every loop passes over.
\<close>

subsection \<open>Packet types\<close>

definition PROTOCOL_PKT_HORIZON :: u32 where "PROTOCOL_PKT_HORIZON = 3"
definition PROTOCOL_PKT_GET_CHILDREN :: u32 where "PROTOCOL_PKT_GET_CHILDREN = 5"
definition PROTOCOL_PKT_GET_BLOCK :: u32 where "PROTOCOL_PKT_GET_BLOCK = 7"
definition PROTOCOL_PKT_GET_SHARD :: u32 where "PROTOCOL_PKT_GET_SHARD = 9"
definition PROTOCOL_PKT_SHARD :: u32 where "PROTOCOL_PKT_SHARD = 10"
definition PROTOCOL_PKT_GET_TX :: u32 where "PROTOCOL_PKT_GET_TX = 11"
definition PROTOCOL_PKT_HASHES_IN_BLOCK :: u32 where "PROTOCOL_PKT_HASHES_IN_BLOCK = 13"
definition PROTOCOL_PKT_GET_TX_IN_BLOCK :: u32 where "PROTOCOL_PKT_GET_TX_IN_BLOCK = 14"
definition PROTOCOL_PKT_GET_TXMAP :: u32 where "PROTOCOL_PKT_GET_TXMAP = 16"
definition PROTOCOL_PKT_TXMAP :: u32 where "PROTOCOL_PKT_TXMAP = 17"
definition PROTOCOL_PKT_SET_FILTER :: u32 where "PROTOCOL_PKT_SET_FILTER = 18"
definition PROTOCOL_PKT_TX_BAD_INPUT :: u32 where "PROTOCOL_PKT_TX_BAD_INPUT = 21"
definition PROTOCOL_PKT_TX_BAD_AMOUNT :: u32 where "PROTOCOL_PKT_TX_BAD_AMOUNT = 22"
definition PROTOCOL_PKT_TX_DOUBLESPEND :: u32 where "PROTOCOL_PKT_TX_DOUBLESPEND = 23"

lemmas packet_types = PROTOCOL_PKT_ERR_def PROTOCOL_PKT_HORIZON_def PROTOCOL_PKT_SYNC_def
  PROTOCOL_PKT_GET_CHILDREN_def PROTOCOL_PKT_CHILDREN_def PROTOCOL_PKT_GET_BLOCK_def
  PROTOCOL_PKT_BLOCK_def PROTOCOL_PKT_GET_SHARD_def PROTOCOL_PKT_SHARD_def PROTOCOL_PKT_GET_TX_def
  PROTOCOL_PKT_TX_def PROTOCOL_PKT_HASHES_IN_BLOCK_def PROTOCOL_PKT_GET_TX_IN_BLOCK_def
  PROTOCOL_PKT_TX_IN_BLOCK_def PROTOCOL_PKT_GET_TXMAP_def PROTOCOL_PKT_TXMAP_def
  PROTOCOL_PKT_SET_FILTER_def PROTOCOL_PKT_GET_PEERS_def PROTOCOL_PKT_PEERS_def
  PROTOCOL_PKT_TX_BAD_INPUT_def PROTOCOL_PKT_TX_BAD_AMOUNT_def PROTOCOL_PKT_TX_DOUBLESPEND_def
  PROTOCOL_PKT_COMPLAIN_TX_MISORDER_def PROTOCOL_PKT_COMPLAIN_TX_INVALID_def
  PROTOCOL_PKT_COMPLAIN_TX_BAD_INPUT_def PROTOCOL_PKT_COMPLAIN_DOUBLESPEND_def
  PROTOCOL_PKT_COMPLAIN_BAD_INPUT_REF_def PROTOCOL_PKT_COMPLAIN_TX_BAD_AMOUNT_def
  PROTOCOL_PKT_COMPLAIN_CLAIM_INPUT_INVALID_def

subsection \<open>Filters and blocks\<close>

definition cpu_to_le64 :: "u64 \<Rightarrow> bytes" where
  "cpu_to_le64 x = nat_le 8 (unat x)"

definition rd64 :: "bytes \<Rightarrow> nat \<Rightarrow> u64 option" where
  "rd64 buf off = map_option (\<lambda>bs. word_of_nat (le_nat bs)) (c_slice buf off 8)"

definition set_filter_pkt :: "bytes option" where
  "set_filter_pkt = tal_packet PROTOCOL_PKT_SET_FILTER (cpu_to_le64 0xFFFFFFFFFFFFFFFF @ cpu_to_le64 0)"

definition recv_set_filter :: "state \<Rightarrow> nat \<Rightarrow> bytes \<Rightarrow> (protocol_ecode \<times> state) option" where
  "recv_set_filter s k pkt =
     do { len \<leftarrow> rd32 pkt 0;
          if len \<noteq> 24 then Some (PROTOCOL_ECODE_INVALID_LEN, s)
          else do {
            filter \<leftarrow> rd64 pkt 8;
            offset \<leftarrow> rd64 pkt 16;
            if filter = 0 then Some (PROTOCOL_ECODE_FILTER_INVALID, s)
            else if offset > 19 then Some (PROTOCOL_ECODE_FILTER_INVALID, s)
            else do {
              s1 \<leftarrow> upd_peer s k (\<lambda>p. p\<lparr>p_they_are_syncing := False\<rparr>);
              Some (PROTOCOL_ECODE_NONE, s1) } } }"

definition recv_pkt_block :: "runtime \<Rightarrow> state \<Rightarrow> bptr \<Rightarrow> nat \<Rightarrow> bytes \<Rightarrow> (protocol_ecode \<times> state) option" where
  "recv_pkt_block rt s new k pkt =
     do { len \<leftarrow> rd32 pkt 0;
          if len < 12 then Some (PROTOCOL_ECODE_INVALID_LEN, s)
          else do {
            err \<leftarrow> rd32 pkt 8;
            if err = ecode_code PROTOCOL_ECODE_NONE then recv_block_from_peer rt s new k pkt
            else if err \<noteq> ecode_code PROTOCOL_ECODE_UNKNOWN_BLOCK then Some (PROTOCOL_ECODE_UNKNOWN_ERRCODE, s)
            else if len - 12 \<noteq> 32 then Some (PROTOCOL_ECODE_INVALID_LEN, s)
            else do {
              sha \<leftarrow> c_slice pkt 12 32;
              s1 \<leftarrow> todo_done_get_block s k sha False;
              Some (PROTOCOL_ECODE_NONE, s1) } } }"

subsection \<open>Telling a peer what is wrong with its transaction\<close>

definition tell_peer_about_bad_input :: "runtime \<Rightarrow> state \<Rightarrow> nat \<Rightarrow> protocol_tx \<Rightarrow> nat \<Rightarrow> state option" where
  "tell_peer_about_bad_input rt s k tx bad_input_num =
     do { p0 \<leftarrow> tal_packet PROTOCOL_PKT_TX_BAD_INPUT (cpu_to_le32 (word_of_nat bad_input_num));
          inp \<leftarrow> tx_input tx bad_input_num;
          t \<leftarrow> txhash_gettx rt (st_heap s) (st_txhash s) (in_input inp) False;
          p1 \<leftarrow> tal_packet_append_tx p0 tx;
          bad_tx \<leftarrow> t;
          p2 \<leftarrow> tal_packet_append_tx p1 bad_tx;
          todo_for_peer s k p2 }"

definition tell_peer_about_doublespend ::
    "runtime \<Rightarrow> state \<Rightarrow> bptr \<Rightarrow> nat \<Rightarrow> protocol_tx \<Rightarrow> nat \<Rightarrow> state option" where
  "tell_peer_about_doublespend rt s block k tx ds_input_num =
     do { inp \<leftarrow> tx_input tx ds_input_num;
          ds \<leftarrow> tx_find_doublespend rt s block None inp; other \<leftarrow> ds;
          t \<leftarrow> txhash_tx (st_heap s) other; other_tx \<leftarrow> t;
          input2 \<leftarrow> find_matching_input other_tx inp;
          p0 \<leftarrow> tal_packet PROTOCOL_PKT_TX_DOUBLESPEND
                  (cpu_to_le32 (word_of_nat ds_input_num) @ cpu_to_le32 (word_of_nat input2));
          p1 \<leftarrow> tal_packet_append_tx p0 tx;
          p2 \<leftarrow> tal_packet_append_tx p1 other_tx;
          todo_for_peer s k p2 }"

definition tell_peer_about_bad_amount :: "runtime \<Rightarrow> state \<Rightarrow> nat \<Rightarrow> protocol_tx \<Rightarrow> state option" where
  "tell_peer_about_bad_amount rt s k tx =
     do { p0 \<leftarrow> tal_packet PROTOCOL_PKT_TX_BAD_AMOUNT [];
          p1 \<leftarrow> tal_packet_append_tx p0 tx;
          p2 \<leftarrow> ofold (\<lambda>i p. do {
                   inp \<leftarrow> tx_input tx i;
                   t \<leftarrow> txhash_gettx rt (st_heap s) (st_txhash s) (in_input inp) False; input \<leftarrow> t;
                   tal_packet_append_tx p input })
                 [0..<unat (num_inputs tx)] p1;
          todo_for_peer s k p2 }"

definition send_claim_input :: "runtime \<Rightarrow> state \<Rightarrow> nat \<Rightarrow> sha \<Rightarrow> state option" where
  "send_claim_input rt s k sha =
     do { lk \<leftarrow> c_nth (st_longest_knowns s) 0;
          a \<leftarrow> txhash_gettx_ancestor rt s sha lk; te \<leftarrow> a;
          (case te_u te of
             Pending_tx _ \<Rightarrow> c_abort
           | In_block b \<Rightarrow> do {
               bb \<leftarrow> st_heap s b;
               pkt \<leftarrow> pkt_tx_in_block (rt_ssl rt) bb (te_shardnum te) (te_txoff te);
               todo_for_peer s k pkt }) }"

subsection \<open>Transactions\<close>

fun resolve_elems :: "runtime \<Rightarrow> nat \<Rightarrow> txhash_elem list \<Rightarrow> state \<Rightarrow> state option" where
  \<comment> \<open>the last loop of \<open>recv_tx\<close>: use the transaction to resolve hashes\<close>
  "resolve_elems rt k [] s = Some s"
| "resolve_elems rt k (te # tes) s =
     (if te \<notin> set (st_txhash s) then resolve_elems rt k tes s
      else (case te_u te of
        Pending_tx _ \<Rightarrow> resolve_elems rt k tes s
      | In_block b \<Rightarrow> do {
          bb \<leftarrow> st_heap s b;
          sh \<leftarrow> c_nth (b_shard bb) (unat (te_shardnum te));
          is_tx \<leftarrow> shard_is_tx sh (te_txoff te);
          if is_tx then resolve_elems rt k tes s
          else do {
            (_, s1) \<leftarrow> try_resolve_hash rt s (Some k) b (te_shardnum te) (te_txoff te);
            resolve_elems rt k tes s1 } }))"

definition share_tx :: "runtime \<Rightarrow> state \<Rightarrow> nat \<Rightarrow> protocol_tx \<Rightarrow> sha \<Rightarrow> (protocol_ecode \<times> state) option" where
  \<comment> \<open>\<open>recv_tx\<close> after the \<open>switch\<close>\<close>
  "share_tx rt s k tx sha =
     do { s1 \<leftarrow> resolve_elems rt k (txhash_vals rt (st_txhash s) sha) s;
          s2 \<leftarrow> send_tx_to_peers (rt_ssl rt) s1 (Some k) tx;
          Some (PROTOCOL_ECODE_NONE, s2) }"

definition recv_tx_pending :: "runtime \<Rightarrow> state \<Rightarrow> nat \<Rightarrow> protocol_tx \<Rightarrow> sha \<Rightarrow> (protocol_ecode \<times> state) option" where
  \<comment> \<open>\<open>recv_tx\<close> from the call of \<open>add_pending_tx\<close> on\<close>
  "recv_tx_pending rt s k tx sha =
     do { (ierr, bad, old, s1) \<leftarrow> add_pending_tx rt s tx sha;
          (case ierr of
             ECODE_INPUT_OK \<Rightarrow> share_tx rt s1 k tx sha
           | ECODE_INPUT_UNKNOWN \<Rightarrow> do {
               n \<leftarrow> bad;
               inp \<leftarrow> tx_input tx n;
               t \<leftarrow> txhash_gettx rt (st_heap s1) (st_txhash s1) (in_input inp) False;
               share_tx rt (if t = None then todo_add_get_tx s1 (in_input inp) else s1) k tx sha }
           | ECODE_INPUT_BAD \<Rightarrow> do {
               too_old \<leftarrow> old;
               s2 \<leftarrow> (if \<not> too_old then do { n \<leftarrow> bad; tell_peer_about_bad_input rt s1 k tx n } else Some s1);
               Some (PROTOCOL_ECODE_NONE, s2) }
           | ECODE_INPUT_BAD_AMOUNT \<Rightarrow> do {
               s2 \<leftarrow> tell_peer_about_bad_amount rt s1 k tx;
               Some (PROTOCOL_ECODE_NONE, s2) }
           | ECODE_INPUT_DOUBLESPEND \<Rightarrow> do {
               lk \<leftarrow> c_nth (st_longest_knowns s1) 0;
               n \<leftarrow> bad;
               s2 \<leftarrow> tell_peer_about_doublespend rt s1 lk k tx n;
               Some (PROTOCOL_ECODE_NONE, s2) }
           | ECODE_INPUT_CLAIM_BAD \<Rightarrow> do {
               c_assert (tx_type tx = TX_CLAIM);
               inp \<leftarrow> tx_input tx 0;
               s2 \<leftarrow> send_claim_input rt s1 k (in_input inp);
               Some (PROTOCOL_ECODE_NONE, s2) }) }"

definition recv_tx :: "runtime \<Rightarrow> state \<Rightarrow> nat \<Rightarrow> bytes \<Rightarrow> (protocol_ecode \<times> state) option" where
  "recv_tx rt s k pkt =
     do { len \<leftarrow> rd32 pkt 0;
          if len < 12 then Some (PROTOCOL_ECODE_INVALID_LEN, s)
          else do {
            let txlen = len - 12;
            e \<leftarrow> rd32 pkt 8;
            if e \<noteq> ecode_code PROTOCOL_ECODE_NONE then
              (if e \<noteq> ecode_code PROTOCOL_ECODE_UNKNOWN_TX then Some (PROTOCOL_ECODE_UNKNOWN_ERRCODE, s)
               else if txlen \<noteq> 32 then Some (PROTOCOL_ECODE_INVALID_LEN, s)
               else do {
                 txhash \<leftarrow> c_slice pkt 12 32;
                 s1 \<leftarrow> todo_done_get_tx s k txhash False;
                 Some (PROTOCOL_ECODE_NONE, s1) })
            else do {
              let txbuf = drop 12 pkt;
              (e1, _) \<leftarrow> unmarshal_tx txbuf (ucast txlen) False;
              if e1 \<noteq> PROTOCOL_ECODE_NONE then Some (e1, s)
              else do {
                tx \<leftarrow> cast_tx txbuf;
                e2 \<leftarrow> check_tx (rt_ssl rt) s tx None;
                if e2 \<noteq> PROTOCOL_ECODE_NONE then Some (e2, s)
                else do {
                  sha \<leftarrow> hash_tx (rt_ssl rt) tx;
                  s1 \<leftarrow> todo_done_get_tx s k sha True;
                  recv_tx_pending rt s1 k tx sha } } } } }"

definition recv_hashes_in_block :: "runtime \<Rightarrow> state \<Rightarrow> nat \<Rightarrow> bytes \<Rightarrow> (protocol_ecode \<times> state) option" where
  "recv_hashes_in_block rt s k pkt =
     do { len \<leftarrow> rd32 pkt 0;
          if len \<noteq> 364 then Some (PROTOCOL_ECODE_INVALID_LEN, s)
          else do {
            pbs \<leftarrow> c_slice pkt 8 292;
            hbs \<leftarrow> c_slice pkt 300 64;
            let prf = dec_proof pbs;
            let trh = dec_txrefhash hbs;
            let blk = pos_block (pr_pos prf);
            found \<leftarrow> block_find_any s blk;
            (case found of
               None \<Rightarrow> Some (PROTOCOL_ECODE_NONE, todo_add_get_block s blk)
             | Some b \<Rightarrow> do {
                 bb \<leftarrow> st_heap s b;
                 good \<leftarrow> check_proof_byhash (rt_ssl rt) prf bb trh;
                 if \<not> good then Some (PROTOCOL_ECODE_BAD_PROOF, s)
                 else do {
                   let shard = pos_shard (pr_pos prf);
                   let txoff = pos_txoff (pr_pos prf);
                   (fresh, s1) \<leftarrow> put_txhash_in_shard rt s b shard txoff trh;
                   if \<not> fresh then Some (PROTOCOL_ECODE_NONE, s1)
                   else do {
                     s2 \<leftarrow> put_proof_in_shard s1 b prf;
                     (resolved, s3) \<leftarrow> try_resolve_hash rt s2 (Some k) b shard txoff;
                     Some (PROTOCOL_ECODE_NONE,
                       if \<not> resolved then todo_add_get_tx_in_block s3 (b_sha bb) shard txoff else s3) } } }) } }"

subsection \<open>Shards and transactions a peer asks for\<close>

definition append_hashes :: "runtime \<Rightarrow> block_shard \<Rightarrow> nat list \<Rightarrow> bytes \<Rightarrow> bytes option" where
  \<comment> \<open>the loop of \<open>recv_get_shard\<close>\<close>
  "append_hashes rt sh is r =
     ofold (\<lambda>i r. do { h \<leftarrow> txrefhash_in_shard (rt_ssl rt) sh (word_of_nat i); p \<leftarrow> h;
                      tal_packet_append_txrefhash r p }) is r"

definition shard_pkt :: "sha \<Rightarrow> u16 \<Rightarrow> protocol_ecode \<Rightarrow> bytes option" where
  "shard_pkt blk shard e =
     tal_packet PROTOCOL_PKT_SHARD (blk @ cpu_to_le16 shard @ cpu_to_le16 (ucast (ecode_code e)))"

definition recv_get_shard ::
    "runtime \<Rightarrow> state \<Rightarrow> nat \<Rightarrow> bytes \<Rightarrow> (protocol_ecode \<times> bytes option \<times> state) option" where
  "recv_get_shard rt s k pkt =
     do { len \<leftarrow> rd32 pkt 0;
          if len \<noteq> 44 then Some (PROTOCOL_ECODE_INVALID_LEN, None, s)
          else do {
            blk \<leftarrow> c_slice pkt 8 32;
            shard \<leftarrow> rd16 pkt 40;
            found \<leftarrow> block_find_any s blk;
            (case found of
               None \<Rightarrow> do {
                 r \<leftarrow> shard_pkt blk shard PROTOCOL_ECODE_UNKNOWN_BLOCK;
                 Some (PROTOCOL_ECODE_NONE, Some r, todo_add_get_block s blk) }
             | Some b \<Rightarrow> do {
                 bb \<leftarrow> st_heap s b;
                 if ucast shard \<ge> num_shards (b_hdr bb) then Some (PROTOCOL_ECODE_BAD_SHARDNUM, None, s)
                 else do {
                   sh \<leftarrow> c_nth (b_shard bb) (unat shard);
                   if \<not> shard_all_hashes sh then do {
                     r \<leftarrow> shard_pkt blk shard PROTOCOL_ECODE_UNKNOWN_SHARD;
                     Some (PROTOCOL_ECODE_NONE, Some r, s) }
                   else (case b_complaint bb of
                       Some c \<Rightarrow> do {
                         dup \<leftarrow> tal_packet_dup c;
                         s1 \<leftarrow> todo_for_peer s k dup;
                         Some (PROTOCOL_ECODE_NONE, None, s1) }
                     | None \<Rightarrow> do {
                         r \<leftarrow> shard_pkt blk shard PROTOCOL_ECODE_NONE;
                         r1 \<leftarrow> append_hashes rt sh [0..<unat (bs_size sh)] r;
                         Some (PROTOCOL_ECODE_NONE, Some r1, s) }) } }) } }"

definition recv_get_tx_in_block ::
    "runtime \<Rightarrow> state \<Rightarrow> bytes \<Rightarrow> (protocol_ecode \<times> bytes option \<times> state) option" where
  "recv_get_tx_in_block rt s pkt =
     do { len \<leftarrow> rd32 pkt 0;
          if len \<noteq> 44 then Some (PROTOCOL_ECODE_INVALID_LEN, None, s)
          else do {
            pbs \<leftarrow> c_slice pkt 8 36;
            let pos = dec_position pbs;
            found \<leftarrow> block_find_any s (pos_block pos);
            (case found of
               None \<Rightarrow> do {
                 r \<leftarrow> pkt_tx_in_block_err PROTOCOL_ECODE_UNKNOWN_BLOCK (pos_block pos) (pos_shard pos) (pos_txoff pos);
                 Some (PROTOCOL_ECODE_NONE, Some r, todo_add_get_block s (pos_block pos)) }
             | Some b \<Rightarrow> do {
                 bb \<leftarrow> st_heap s b;
                 if ucast (pos_shard pos) \<ge> num_shards (b_hdr bb) then Some (PROTOCOL_ECODE_BAD_SHARDNUM, None, s)
                 else do {
                   n \<leftarrow> c_nth (b_shard_nums bb) (unat (pos_shard pos));
                   if pos_txoff pos \<ge> n then Some (PROTOCOL_ECODE_BAD_TXOFF, None, s)
                   else do {
                     t \<leftarrow> block_get_tx bb (pos_shard pos) (pos_txoff pos);
                     r \<leftarrow> (if t = None
                           then pkt_tx_in_block_err PROTOCOL_ECODE_UNKNOWN_TX (pos_block pos) (pos_shard pos) (pos_txoff pos)
                           else pkt_tx_in_block (rt_ssl rt) bb (pos_shard pos) (pos_txoff pos));
                     Some (PROTOCOL_ECODE_NONE, Some r, s) } } }) } }"

definition recv_get_tx :: "runtime \<Rightarrow> state \<Rightarrow> bytes \<Rightarrow> (protocol_ecode \<times> bytes option) option" where
  "recv_get_tx rt s pkt =
     do { len \<leftarrow> rd32 pkt 0;
          if len \<noteq> 40 then Some (PROTOCOL_ECODE_INVALID_LEN, None)
          else do {
            sha \<leftarrow> c_slice pkt 8 32;
            a \<leftarrow> txhash_gettx_ancestor rt s sha (st_preferred_chain s);
            proven \<leftarrow> (case a of
                None \<Rightarrow> Some None
              | Some te \<Rightarrow>
                  (case te_u te of
                     Pending_tx _ \<Rightarrow> c_abort
                   | In_block b \<Rightarrow> do {
                       bb \<leftarrow> st_heap s b;
                       sh \<leftarrow> c_nth (b_shard bb) (unat (te_shardnum te));
                       is_tx \<leftarrow> shard_is_tx sh (te_txoff te);
                       if is_tx then map_option Some (pkt_tx_in_block (rt_ssl rt) bb (te_shardnum te) (te_txoff te))
                       else Some None }));
            r \<leftarrow> (case proven of
                Some p \<Rightarrow> Some p
              | None \<Rightarrow> do {
                  t \<leftarrow> txhash_gettx rt (st_heap s) (st_txhash s) sha False;
                  (case t of
                     Some tx \<Rightarrow> do {
                       r \<leftarrow> tal_packet PROTOCOL_PKT_TX (cpu_to_le32 (ecode_code PROTOCOL_ECODE_NONE));
                       tal_packet_append_tx r tx }
                   | None \<Rightarrow> do {
                       r \<leftarrow> tal_packet PROTOCOL_PKT_TX (cpu_to_le32 (ecode_code PROTOCOL_ECODE_UNKNOWN_TX));
                       tal_packet_append_sha r sha }) });
            Some (PROTOCOL_ECODE_NONE, Some r) } }"

subsection \<open>Maps of the transactions a peer should know about\<close>

definition wanted_map :: "peer \<Rightarrow> block_shard \<Rightarrow> bytes option" where
  \<comment> \<open>the loop of \<open>recv_get_txmap\<close>: 32 bytes, a bit for each transaction\<close>
  "wanted_map p sh =
     ofold (\<lambda>i m. do {
         t \<leftarrow> tx_for sh (word_of_nat i);
         (case t of
            None \<Rightarrow> Some m
          | Some tx \<Rightarrow> do { w \<leftarrow> peer_wants_tx_other p tx; if w then set_map_bit m i else Some m }) })
       [0..<unat (bs_size sh)] (replicate 32 0)"

definition recv_get_txmap ::
    "state \<Rightarrow> nat \<Rightarrow> bytes \<Rightarrow> bytes \<Rightarrow> (protocol_ecode \<times> bytes option \<times> state) option" where
  \<comment> \<open>the field \<open>err\<close> of a map is not assigned\<close>
  "recv_get_txmap s k junk pkt =
     do { len \<leftarrow> rd32 pkt 0;
          if len \<noteq> 44 then Some (PROTOCOL_ECODE_INVALID_LEN, None, s)
          else do {
            blk \<leftarrow> c_slice pkt 8 32;
            shard \<leftarrow> rd16 pkt 40;
            found \<leftarrow> block_find_any s blk;
            (case found of
               None \<Rightarrow> do {
                 r \<leftarrow> tal_packet PROTOCOL_PKT_TXMAP
                        (blk @ cpu_to_le16 shard @ cpu_to_le16 (ucast (ecode_code PROTOCOL_ECODE_UNKNOWN_BLOCK)));
                 Some (PROTOCOL_ECODE_NONE, Some r, todo_add_get_block s blk) }
             | Some b \<Rightarrow> do {
                 bb \<leftarrow> st_heap s b;
                 if ucast shard \<ge> num_shards (b_hdr bb) then Some (PROTOCOL_ECODE_BAD_SHARDNUM, None, s)
                 else do {
                   r \<leftarrow> tal_packet PROTOCOL_PKT_TXMAP (blk @ cpu_to_le16 shard @ junk);
                   sh \<leftarrow> c_nth (b_shard bb) (unat shard);
                   p \<leftarrow> c_nth (st_peers s) k;
                   m \<leftarrow> wanted_map p sh;
                   mbs \<leftarrow> c_slice m 0 (map_len (unat (bs_size sh)));
                   r1 \<leftarrow> tal_packet_append r mbs;
                   Some (PROTOCOL_ECODE_NONE, Some r1, s) } }) } }"

fun ask_mapped :: "sha \<Rightarrow> block_shard \<Rightarrow> bytes \<Rightarrow> nat list \<Rightarrow> state \<Rightarrow> state option" where
  \<comment> \<open>the loop of \<open>recv_txmap\<close>\<close>
  "ask_mapped blk sh m [] s = Some s"
| "ask_mapped blk sh m (i # is) s =
     do { t \<leftarrow> tx_for sh (word_of_nat i);
          ask \<leftarrow> (if t = None then do { b \<leftarrow> c_nth m (i div 8); Some (bit b (i mod 8)) } else Some False);
          ask_mapped blk sh m is (if ask then todo_add_get_tx_in_block s blk (bs_shardnum sh) (word_of_nat i) else s) }"

definition recv_txmap :: "state \<Rightarrow> bytes \<Rightarrow> (protocol_ecode \<times> state) option" where
  "recv_txmap s pkt =
     do { plen \<leftarrow> rd32 pkt 0;
          if plen < 44 then Some (PROTOCOL_ECODE_INVALID_LEN, s)
          else do {
            let len = plen - 44;
            blk \<leftarrow> c_slice pkt 8 32;
            shard \<leftarrow> rd16 pkt 40;
            found \<leftarrow> block_find_any s blk;
            (case found of
               None \<Rightarrow> Some (PROTOCOL_ECODE_NONE, todo_add_get_block s blk)
             | Some b \<Rightarrow> do {
                 bb \<leftarrow> st_heap s b;
                 if ucast shard \<ge> num_shards (b_hdr bb) then Some (PROTOCOL_ECODE_BAD_SHARDNUM, s)
                 else do {
                   sh \<leftarrow> c_nth (b_shard bb) (unat shard);
                   if unat len \<noteq> map_len (unat (bs_size sh)) then Some (PROTOCOL_ECODE_INVALID_LEN, s)
                   else do {
                     s1 \<leftarrow> ask_mapped (b_sha bb) sh (drop 44 pkt) [0..<unat (bs_size sh)] s;
                     Some (PROTOCOL_ECODE_NONE, s1) } } }) } }"

subsection \<open>Reports of bad transactions\<close>

fun complain_elems ::
    "(txhash_elem \<Rightarrow> bptr \<Rightarrow> protocol_proof \<Rightarrow> protocol_input_ref list \<Rightarrow> state \<Rightarrow> state option)
     \<Rightarrow> runtime \<Rightarrow> txhash_elem list \<Rightarrow> state \<Rightarrow> state option" where
  \<comment> \<open>the loops of \<open>recv_tx_bad_input\<close> and \<open>recv_tx_bad_amount\<close>: complain about every block with the
     transaction\<close>
  "complain_elems f rt [] s = Some s"
| "complain_elems f rt (te # tes) s =
     (if te \<notin> set (st_txhash s) then complain_elems f rt tes s
      else (case te_u te of
        Pending_tx _ \<Rightarrow> complain_elems f rt tes s
      | In_block b \<Rightarrow> do {
          bb \<leftarrow> st_heap s b;
          prf \<leftarrow> create_proof (rt_ssl rt) bb (te_shardnum te) (te_txoff te);
          r \<leftarrow> block_get_refs bb (te_shardnum te) (te_txoff te); refs \<leftarrow> r;
          s1 \<leftarrow> f te b prf refs s;
          complain_elems f rt tes s1 }))"

definition recv_tx_bad_input :: "runtime \<Rightarrow> state \<Rightarrow> bytes \<Rightarrow> (protocol_ecode \<times> state) option" where
  "recv_tx_bad_input rt s pkt =
     do { len \<leftarrow> rd32 pkt 0;
          if len < 12 then Some (PROTOCOL_ECODE_INVALID_LEN, s)
          else do {
            u1 \<leftarrow> unmarshal_and_check_tx (rt_ssl rt) s (drop 12 pkt) (unat len - 12);
            (case u1 of
               Inl e \<Rightarrow> Some (e, s)
             | Inr (tx, p1, len1) \<Rightarrow> do {
                 u2 \<leftarrow> unmarshal_and_check_tx (rt_ssl rt) s p1 len1;
                 (case u2 of
                    Inl e \<Rightarrow> Some (e, s)
                  | Inr (intx, p2, len2) \<Rightarrow>
                      if len2 \<noteq> 0 then Some (PROTOCOL_ECODE_INVALID_LEN, s)
                      else do {
                        inputnum \<leftarrow> rd32 pkt 8;
                        v \<leftarrow> verify_problem_input (rt_ssl rt) tx inputnum intx;
                        (case v of
                           Inl e \<Rightarrow> Some (e, s)
                         | Inr (ierr, _) \<Rightarrow>
                             if ierr = ECODE_INPUT_OK \<or> ierr = ECODE_INPUT_DOUBLESPEND
                             then Some (PROTOCOL_ECODE_COMPLAINT_INVALID, s)
                             else do {
                               sha \<leftarrow> hash_tx (rt_ssl rt) tx;
                               s1 \<leftarrow> complain_elems
                                 (\<lambda>te b prf refs s. complain_bad_input rt s b prf tx refs (unat inputnum) intx)
                                 rt (txhash_vals rt (st_txhash s) sha) s;
                               s2 \<leftarrow> drop_pending_tx rt s1 tx;
                               Some (PROTOCOL_ECODE_NONE, s2) }) }) }) } }"

definition recv_tx_bad_amount :: "runtime \<Rightarrow> state \<Rightarrow> bytes \<Rightarrow> (protocol_ecode \<times> state) option" where
  \<comment> \<open>\<^verbatim>\<open>in[]\<close>, which goes into the complaint, is never filled\<close>
  "recv_tx_bad_amount rt s pkt =
     do { len \<leftarrow> rd32 pkt 0;
          if len < 8 then Some (PROTOCOL_ECODE_INVALID_LEN, s)
          else do {
            u1 \<leftarrow> unmarshal_and_check_tx (rt_ssl rt) s (drop 8 pkt) (unat len - 8);
            (case u1 of
               Inl e \<Rightarrow> Some (e, s)
             | Inr (tx, p1, len1) \<Rightarrow> do {
                 e \<leftarrow> unmarshal_and_check_bad_amount (rt_ssl rt) s tx p1 len1;
                 if e \<noteq> PROTOCOL_ECODE_NONE then Some (e, s)
                 else do {
                   sha \<leftarrow> hash_tx (rt_ssl rt) tx;
                   s1 \<leftarrow> complain_elems (\<lambda>te b prf refs s. complain_bad_amount rt s b prf tx refs [])
                          rt (txhash_vals rt (st_txhash s) sha) s;
                   s2 \<leftarrow> drop_pending_tx rt s1 tx;
                   Some (PROTOCOL_ECODE_NONE, s2) } }) } }"

fun ds_find_b :: "heap \<Rightarrow> txhash_elem \<Rightarrow> bptr \<Rightarrow> txhash_elem list \<Rightarrow> (txhash_elem \<times> bool) option option" where
  \<comment> \<open>the inner loop of \<open>recv_tx_doublespend\<close> up to a complaint: the other element, and whether
     it comes second\<close>
  "ds_find_b h te_a a [] = Some None"
| "ds_find_b h te_a a (te_b # tes) =
     (case te_u te_b of
        Pending_tx _ \<Rightarrow> ds_find_b h te_a a tes
      | In_block b \<Rightarrow> do {
          ab \<leftarrow> block_preceeds h a b;
          if ab then Some (Some (te_b, True))
          else do {
            ba \<leftarrow> block_preceeds h b a;
            if ba then Some (Some (te_b, False)) else ds_find_b h te_a a tes } })"

fun ds_find :: "heap \<Rightarrow> txhash_elem list \<Rightarrow> txhash_elem list \<Rightarrow> (txhash_elem \<times> txhash_elem \<times> bool) option option" where
  \<comment> \<open>both loops up to the first complaint\<close>
  "ds_find h [] bs = Some None"
| "ds_find h (te_a # as) bs =
     (case te_u te_a of
        Pending_tx _ \<Rightarrow> ds_find h as bs
      | In_block a \<Rightarrow> do {
          r \<leftarrow> ds_find_b h te_a a bs;
          (case r of
             Some (te_b, a_first) \<Rightarrow> Some (Some (te_a, te_b, a_first))
           | None \<Rightarrow> ds_find h as bs) })"

definition ds_side :: "runtime \<Rightarrow> state \<Rightarrow> txhash_elem \<Rightarrow> (bptr \<times> protocol_proof \<times> protocol_input_ref list) option" where
  \<comment> \<open>block, proof and references of one of the two transactions\<close>
  "ds_side rt s te =
     (case te_u te of
        Pending_tx _ \<Rightarrow> c_abort
      | In_block b \<Rightarrow> do {
          bb \<leftarrow> st_heap s b;
          prf \<leftarrow> create_proof (rt_ssl rt) bb (te_shardnum te) (te_txoff te);
          r \<leftarrow> block_get_refs bb (te_shardnum te) (te_txoff te); refs \<leftarrow> r;
          Some (b, prf, refs) })"

definition ds_complain ::
    "runtime \<Rightarrow> state \<Rightarrow> txhash_elem \<Rightarrow> u32 \<Rightarrow> protocol_tx \<Rightarrow> txhash_elem \<Rightarrow> u32 \<Rightarrow> protocol_tx \<Rightarrow> state option" where
  "ds_complain rt s te1 input1 tx1 te2 input2 tx2 =
     do { (b1, prf1, refs1) \<leftarrow> ds_side rt s te1;
          (b2, prf2, refs2) \<leftarrow> ds_side rt s te2;
          complain_doublespend rt s b1 input1 prf1 tx1 refs1 b2 input2 prf2 tx2 refs2 }"

partial_function (option) ds_loop ::
    "runtime \<Rightarrow> protocol_tx \<times> u32 \<times> sha \<Rightarrow> protocol_tx \<times> u32 \<times> sha \<Rightarrow> state \<Rightarrow> state option" where
  \<comment> \<open>from the label \<open>again\<close>: transaction, input number and hash of both sides\<close>
  "ds_loop rt A B s =
     do { pr \<leftarrow> ds_find (st_heap s) (txhash_vals rt (st_txhash s) (snd (snd A)))
                 (txhash_vals rt (st_txhash s) (snd (snd B)));
          (case pr of
             None \<Rightarrow> Some s
           | Some (te_a, te_b, a_first) \<Rightarrow> do {
               s1 \<leftarrow> (if a_first
                      then ds_complain rt s te_a (fst (snd A)) (fst A) te_b (fst (snd B)) (fst B)
                      else ds_complain rt s te_b (fst (snd B)) (fst B) te_a (fst (snd A)) (fst A));
               ds_loop rt A B s1 }) }"

definition punish_doublespend ::
    "runtime \<Rightarrow> state \<Rightarrow> protocol_tx \<Rightarrow> u32 \<Rightarrow> protocol_tx \<Rightarrow> u32 \<Rightarrow> (protocol_ecode \<times> state) option" where
  \<comment> \<open>\<open>recv_tx_doublespend\<close> from where the conflict is established\<close>
  "punish_doublespend rt s tx_a input1 tx_b input2 =
     do { s1 \<leftarrow> drop_pending_tx rt s tx_a;
          s2 \<leftarrow> drop_pending_tx rt s1 tx_b;
          sha_a \<leftarrow> hash_tx (rt_ssl rt) tx_a;
          sha_b \<leftarrow> hash_tx (rt_ssl rt) tx_b;
          s3 \<leftarrow> ds_loop rt (tx_a, input1, sha_a) (tx_b, input2, sha_b) s2;
          Some (PROTOCOL_ECODE_BAD_INPUT, s3) }"

definition recv_tx_doublespend :: "runtime \<Rightarrow> state \<Rightarrow> bytes \<Rightarrow> (protocol_ecode \<times> state) option" where
  "recv_tx_doublespend rt s pkt =
     do { len \<leftarrow> rd32 pkt 0;
          if len < 16 then Some (PROTOCOL_ECODE_INVALID_LEN, s)
          else do {
            u1 \<leftarrow> unmarshal_and_check_tx (rt_ssl rt) s (drop 16 pkt) (unat len - 16);
            (case u1 of
               Inl e \<Rightarrow> Some (e, s)
             | Inr (tx_a, p1, len1) \<Rightarrow> do {
                 input1 \<leftarrow> rd32 pkt 8;
                 input2 \<leftarrow> rd32 pkt 12;
                 if input1 \<ge> num_inputs tx_a then Some (PROTOCOL_ECODE_BAD_INPUTNUM, s)
                 else do {
                   inp_a \<leftarrow> tx_input tx_a (unat input1);
                   u2 \<leftarrow> unmarshal_and_check_tx (rt_ssl rt) s p1 len1;
                   (case u2 of
                      Inl e \<Rightarrow> Some (e, s)
                    | Inr (tx_b, p2, len2) \<Rightarrow>
                        if len2 \<noteq> 0 then Some (PROTOCOL_ECODE_INVALID_LEN, s)
                        else if input2 \<ge> num_inputs tx_b then Some (PROTOCOL_ECODE_BAD_INPUTNUM, s)
                        else do {
                          inp_b \<leftarrow> tx_input tx_b (unat input2);
                          if in_input inp_a \<noteq> in_input inp_b \<or> in_output inp_a \<noteq> in_output inp_b
                          then Some (PROTOCOL_ECODE_BAD_INPUT, s)
                          else punish_doublespend rt s tx_a input1 tx_b input2 }) } }) } }"

subsection \<open>Dispatching packets\<close>

definition recv_proven_tx :: "runtime \<Rightarrow> state \<Rightarrow> nat \<Rightarrow> bytes \<Rightarrow> (protocol_ecode \<times> state) option" where
  \<comment> \<open>\<open>recv_tx_in_block\<close> of \<open>peer.c\<close>: not a call of \<open>recv_tx\<close> in \<open>recv_tx.c\<close> but a second copy of it\<close>
  "recv_proven_tx rt s k pkt =
     do { len \<leftarrow> rd32 pkt 0;
          if len < 12 then Some (PROTOCOL_ECODE_INVALID_LEN, s)
          else do {
            e \<leftarrow> rd32 pkt 8;
            if e \<noteq> 0 then
              (if len \<noteq> 48 then Some (PROTOCOL_ECODE_INVALID_LEN, s)
               else do {
                 bs \<leftarrow> c_slice pkt 12 36;
                 let pos = dec_position bs;
                 if e = ecode_code PROTOCOL_ECODE_UNKNOWN_BLOCK then do {
                   s1 \<leftarrow> todo_done_get_block s k (pos_block pos) False;
                   s2 \<leftarrow> todo_done_get_tx_in_block s1 k (pos_block pos) (pos_shard pos) (pos_txoff pos) False;
                   Some (PROTOCOL_ECODE_NONE, s2) }
                 else if e \<noteq> ecode_code PROTOCOL_ECODE_UNKNOWN_TX then Some (PROTOCOL_ECODE_UNKNOWN_ERRCODE, s)
                 else do {
                   s1 \<leftarrow> todo_done_get_tx_in_block s k (pos_block pos) (pos_shard pos) (pos_txoff pos) False;
                   Some (PROTOCOL_ECODE_NONE, s1) } })
            else if len < 304 then Some (PROTOCOL_ECODE_INVALID_LEN, s)
            else do {
              pbs \<leftarrow> c_slice pkt 12 292;
              let prf = dec_proof pbs;
              found \<leftarrow> block_find_any s (pos_block (pr_pos prf));
              (case found of
                 None \<Rightarrow> Some (PROTOCOL_ECODE_NONE, todo_add_get_block s (pos_block (pr_pos prf)))
               | Some b \<Rightarrow> do {
                   bb \<leftarrow> st_heap s b;
                   let txbuf = drop 304 pkt;
                   (e1, used) \<leftarrow> unmarshal_tx txbuf (ucast (len - 304)) True;
                   if e1 \<noteq> PROTOCOL_ECODE_NONE then Some (e1, s)
                   else do {
                     tx \<leftarrow> cast_tx txbuf;
                     e2 \<leftarrow> check_tx (rt_ssl rt) s tx (Some bb);
                     if e2 \<noteq> PROTOCOL_ECODE_NONE then Some (e2, s)
                     else do {
                       let left = unat len - 304 - unat used;
                       let (e3, rused) = unmarshal_input_refs (word_of_nat left) tx;
                       if e3 \<noteq> PROTOCOL_ECODE_NONE then Some (e3, s)
                       else if unat rused \<noteq> left then Some (PROTOCOL_ECODE_INVALID_LEN, s)
                       else do {
                         rbs \<leftarrow> c_slice txbuf (unat used) (8 * unat (num_inputs tx));
                         let refs = dec_array dec_ref 8 (unat (num_inputs tx)) 0 rbs;
                         e4 \<leftarrow> check_refs s b refs (unat (num_inputs tx));
                         if e4 \<noteq> PROTOCOL_ECODE_NONE then Some (e4, s)
                         else do {
                           good \<leftarrow> check_proof (rt_ssl rt) prf bb tx refs;
                           if \<not> good then Some (PROTOCOL_ECODE_BAD_PROOF, s)
                           else do {
                             s1 \<leftarrow> todo_done_get_tx_in_block s k (pos_block (pr_pos prf)) (pos_shard (pr_pos prf))
                                      (pos_txoff (pr_pos prf)) True;
                             sha \<leftarrow> hash_tx (rt_ssl rt) tx;
                             s2 \<leftarrow> todo_done_get_tx s1 k sha True;
                             (inputs_good, s3) \<leftarrow> check_tx_inputs_and_refs rt s2 b prf tx refs;
                             if \<not> inputs_good then Some (PROTOCOL_ECODE_NONE, s3)
                             else do {
                               bb3 \<leftarrow> st_heap s3 b;
                               sh \<leftarrow> c_nth (b_shard bb3) (unat (pos_shard (pr_pos prf)));
                               conflict \<leftarrow> check_tx_ordering (rt_ssl rt) sh (pos_txoff (pr_pos prf)) tx;
                               (case conflict of
                                  Some conflict_txoff \<Rightarrow> do {
                                    s4 \<leftarrow> complain_misorder rt s3 b prf tx refs conflict_txoff;
                                    Some (PROTOCOL_ECODE_NONE, s4) }
                                | None \<Rightarrow> do {
                                    s4 \<leftarrow> put_proof_in_shard s3 b prf;
                                    txp \<leftarrow> txptr_with_ref tx refs;
                                    s5 \<leftarrow> put_tx_in_shard rt s4 (Some k) b (pos_shard (pr_pos prf)) (pos_txoff (pr_pos prf)) txp;
                                    Some (PROTOCOL_ECODE_NONE, s5) }) } } } } } } }) } } }"

datatype conn_plan =
    \<comment> \<open>what happens to the reading side of a connection\<close>
    Conn_close
  | Conn_wait_for_writer
  | Conn_read_next

definition with_reply ::
    "'r \<Rightarrow> 's \<Rightarrow> (protocol_ecode \<times> bytes option) option \<Rightarrow> (protocol_ecode \<times> bytes option \<times> 's \<times> 'r) option" where
  \<comment> \<open>a handler with a reply that changes nothing\<close>
  "with_reply pc s r = do { (e, reply) \<leftarrow> r; Some (e, reply, s, pc) }"

definition no_reply ::
    "'r \<Rightarrow> (protocol_ecode \<times> 's) option \<Rightarrow> (protocol_ecode \<times> bytes option \<times> 's \<times> 'r) option" where
  \<comment> \<open>a handler without a reply\<close>
  "no_reply pc r = do { (e, s1) \<leftarrow> r; Some (e, None, s1, pc) }"

definition handle_packet ::
    "runtime \<Rightarrow> (bytes \<Rightarrow> u64 \<Rightarrow> u64) \<Rightarrow> (nat \<Rightarrow> bool) \<Rightarrow> bytes \<Rightarrow> bptr \<Rightarrow> state \<Rightarrow> peer_cache \<Rightarrow> nat \<Rightarrow> u32 \<Rightarrow> bytes
     \<Rightarrow> (protocol_ecode \<times> bytes option \<times> state \<times> peer_cache) option" where
  \<comment> \<open>the \<open>switch\<close> of \<open>pkt_in\<close>, without \<open>PROTOCOL_PKT_ERR\<close>\<close>
  "handle_packet rt hash64 coins junk new s pc k type pkt =
     (if type = PROTOCOL_PKT_GET_CHILDREN then with_reply pc s (recv_get_children s pkt)
      else if type = PROTOCOL_PKT_CHILDREN then no_reply pc (recv_children s k pkt)
      else if type = PROTOCOL_PKT_SET_FILTER then no_reply pc (recv_set_filter s k pkt)
      else if type = PROTOCOL_PKT_GET_PEERS then with_reply pc s (recv_get_peers pc pkt)
      else if type = PROTOCOL_PKT_PEERS then do {
        (e, s1, pc1) \<leftarrow> recv_pkt_peers hash64 (rt_time rt) coins s pc pkt; Some (e, None, s1, pc1) }
      else if type = PROTOCOL_PKT_BLOCK then no_reply pc (recv_pkt_block rt s new k pkt)
      else if type = PROTOCOL_PKT_TX then no_reply pc (recv_tx rt s k pkt)
      else if type = PROTOCOL_PKT_HASHES_IN_BLOCK then no_reply pc (recv_hashes_in_block rt s k pkt)
      else if type = PROTOCOL_PKT_GET_BLOCK then with_reply pc s (recv_get_block s pkt)
      else if type = PROTOCOL_PKT_GET_SHARD then do {
        (e, reply, s1) \<leftarrow> recv_get_shard rt s k pkt; Some (e, reply, s1, pc) }
      else if type = PROTOCOL_PKT_SHARD then no_reply pc (recv_shard_from_peer rt s k pkt)
      else if type = PROTOCOL_PKT_GET_TX_IN_BLOCK then do {
        (e, reply, s1) \<leftarrow> recv_get_tx_in_block rt s pkt; Some (e, reply, s1, pc) }
      else if type = PROTOCOL_PKT_TX_IN_BLOCK then no_reply pc (recv_proven_tx rt s k pkt)
      else if type = PROTOCOL_PKT_GET_TX then with_reply pc s (recv_get_tx rt s pkt)
      else if type = PROTOCOL_PKT_GET_TXMAP then do {
        (e, reply, s1) \<leftarrow> recv_get_txmap s k junk pkt; Some (e, reply, s1, pc) }
      else if type = PROTOCOL_PKT_TXMAP then no_reply pc (recv_txmap s pkt)
      else if type = PROTOCOL_PKT_TX_BAD_INPUT then no_reply pc (recv_tx_bad_input rt s pkt)
      else if type = PROTOCOL_PKT_TX_BAD_AMOUNT then no_reply pc (recv_tx_bad_amount rt s pkt)
      else if type = PROTOCOL_PKT_TX_DOUBLESPEND then no_reply pc (recv_tx_doublespend rt s pkt)
      else if type = PROTOCOL_PKT_COMPLAIN_TX_MISORDER then no_reply pc (recv_complain_tx_misorder rt s k pkt)
      else if type = PROTOCOL_PKT_COMPLAIN_TX_INVALID then no_reply pc (recv_complain_tx_invalid rt s k pkt)
      else if type = PROTOCOL_PKT_COMPLAIN_TX_BAD_INPUT then no_reply pc (recv_complain_tx_bad_input rt s k pkt)
      else if type = PROTOCOL_PKT_COMPLAIN_TX_BAD_AMOUNT then no_reply pc (recv_complain_tx_bad_amount rt s k pkt)
      else if type = PROTOCOL_PKT_COMPLAIN_DOUBLESPEND then no_reply pc (recv_complain_doublespend rt s k pkt)
      else if type = PROTOCOL_PKT_COMPLAIN_BAD_INPUT_REF then no_reply pc (recv_complain_bad_input_ref rt s k pkt)
      else if type = PROTOCOL_PKT_COMPLAIN_CLAIM_INPUT_INVALID
      then no_reply pc (recv_complain_claim_input_invalid rt s k pkt)
      else Some (PROTOCOL_ECODE_UNKNOWN_COMMAND, None, s, pc))"

definition pkt_in ::
    "runtime \<Rightarrow> (bytes \<Rightarrow> u64 \<Rightarrow> u64) \<Rightarrow> (nat \<Rightarrow> bool) \<Rightarrow> bytes \<Rightarrow> bptr \<Rightarrow> state \<Rightarrow> peer_cache \<Rightarrow> nat \<Rightarrow> bytes
     \<Rightarrow> (conn_plan \<times> state \<times> peer_cache) option" where
  "pkt_in rt hash64 coins junk new s pc k pkt =
     do { type \<leftarrow> rd32 pkt 4;
          if type = PROTOCOL_PKT_ERR then Some (Conn_close, s, pc)
          else do {
            (err, reply, s1, pc1) \<leftarrow> handle_packet rt hash64 coins junk new s pc k type pkt;
            if err \<noteq> PROTOCOL_ECODE_NONE then do {
              s2 \<leftarrow> upd_peer s1 k (\<lambda>p. p\<lparr>p_error_pkt := Some err\<rparr>);
              p \<leftarrow> c_nth (st_peers s2) k;
              Some (Conn_wait_for_writer, emit (Wake_peer (p_num p)) s2, pc1) }
            else do {
              s2 \<leftarrow> (case reply of None \<Rightarrow> Some s1 | Some r \<Rightarrow> todo_for_peer s1 k r);
              s3 \<leftarrow> recheck_pending_txs rt s2;
              Some (Conn_read_next, s3, pc1) } } }"

subsection \<open>Two copies of one function\<close>

lemma recv_proven_tx_error:
  "recv_tx_error s (Some k) e (unat (len :: u32) - 12) (drop 12 pkt) =
     (if len \<noteq> 48 then Some (PROTOCOL_ECODE_INVALID_LEN, s)
      else do {
        bs \<leftarrow> c_slice pkt 12 36;
        let pos = dec_position bs;
        if e = ecode_code PROTOCOL_ECODE_UNKNOWN_BLOCK then do {
          s1 \<leftarrow> todo_done_get_block s k (pos_block pos) False;
          s2 \<leftarrow> todo_done_get_tx_in_block s1 k (pos_block pos) (pos_shard pos) (pos_txoff pos) False;
          Some (PROTOCOL_ECODE_NONE, s2) }
        else if e \<noteq> ecode_code PROTOCOL_ECODE_UNKNOWN_TX then Some (PROTOCOL_ECODE_UNKNOWN_ERRCODE, s)
        else do {
          s1 \<leftarrow> todo_done_get_tx_in_block s k (pos_block pos) (pos_shard pos) (pos_txoff pos) False;
          Some (PROTOCOL_ECODE_NONE, s1) } })"
proof -
  have l: "unat len - 12 = 36 \<longleftrightarrow> len = 48" by (auto simp: word_unat_eq_iff)
  have c: "c_slice (drop 12 pkt) 0 36 = c_slice pkt 12 36" by (auto simp: c_slice_def)
  show ?thesis
    by (cases "c_slice pkt 12 36") (simp_all add: l c recv_tx_error_def Let_def del: c_slice_eq_Some)
qed

lemma recv_tx_copies_agree: "recv_proven_tx rt s k pkt = recv_tx_from_peer rt s k pkt"
proof (cases "rd32 pkt 0")
  case (Some len)
  have short: "len < 304 \<longleftrightarrow> unat len - 12 < 292" by (auto simp: word_less_nat_alt)
  have left: "word_of_nat (unat len - 12 - 292) = (ucast (len - 304) :: size_t)" "unat len - 12 - 292 = unat len - 304"
    if "\<not> len < 304"
  proof -
    have e: "unat len - 304 = unat (len - 304)" using that by (simp add: word_less_nat_alt unat_sub word_le_nat_alt)
    show "word_of_nat (unat len - 12 - 292) = (ucast (len - 304) :: size_t)"
      using e by (simp add: diff_diff_eq of_nat_unat)
    show "unat len - 12 - 292 = unat len - 304" by simp
  qed
  show ?thesis
    using Some left short
    by (simp add: recv_proven_tx_def recv_tx_from_peer_def recv_tx_in_block_def recv_tx_for_block_def accept_proven_tx_def
        recv_proven_tx_error Let_def cong: if_cong)
qed (simp add: recv_proven_tx_def recv_tx_from_peer_def recv_tx_in_block_def)

subsection \<open>Setting up a connection\<close>

datatype setup_plan =
    Setup_close
  | Setup_error protocol_ecode \<comment> \<open>write an error packet, then close\<close>
  | Setup_write bytes \<comment> \<open>write the packet, then read the peer's topology\<close>
  | Setup_output output_plan

definition empty_uuid :: "bytes \<Rightarrow> bool" where
  "empty_uuid uuid \<longleftrightarrow> list_all (\<lambda>b. b = 0) uuid"

definition peer_already :: "bytes list \<Rightarrow> bytes \<Rightarrow> bool" where
  \<comment> \<open>\<open>others\<close>: the identifiers of the other peers\<close>
  "peer_already others uuid \<longleftrightarrow> uuid \<in> set others"

definition next_candidate :: "bytes list \<Rightarrow> peer_cache \<Rightarrow> protocol_net_address option" where
  \<comment> \<open>the search of \<open>fill_peers\<close> for an address to connect to\<close>
  "next_candidate others pc =
     find (\<lambda>a. \<not> is_zero_addr a \<and> (empty_uuid (na_uuid a) \<or> \<not> peer_already others (na_uuid a))) (pc_h pc)"

definition welcome_received ::
    "(bytes \<Rightarrow> u64 \<Rightarrow> u64) \<Rightarrow> nat \<Rightarrow> bytes \<Rightarrow> bytes list \<Rightarrow> state \<Rightarrow> peer_cache \<Rightarrow> nat \<Rightarrow> protocol_net_address \<Rightarrow> bytes
     \<Rightarrow> (setup_plan \<times> state \<times> peer_cache \<times> protocol_net_address) option" where
  \<comment> \<open>\<open>you\<close> is the address of the peer, \<open>others\<close> the identifiers of all other peers\<close>
  "welcome_received hash64 now my_uuid others s pc k you w =
     do { s1 \<leftarrow> upd_peer (s\<lparr>st_num_peers_connected := st_num_peers_connected s + 1\<rparr>) k
                  (\<lambda>p. p\<lparr>p_welcome := Some (case rd8 w 100 of Some x \<Rightarrow> x | None \<Rightarrow> 0, drop 104 w)\<rparr>);
          (e, blocks) \<leftarrow> check_welcome s1 w;
          if e \<noteq> PROTOCOL_ECODE_NONE then Some (Setup_error e, s1, pc, you)
          else do {
            uuid \<leftarrow> c_slice w 40 16;
            if uuid = my_uuid then Some (Setup_close, s1, peer_cache_del hash64 pc you True, you)
            else do {
              let you1 = you\<lparr>na_uuid := uuid\<rparr>;
              let pc1 = peer_cache_update_uuid hash64 pc you1;
              if peer_already others uuid then Some (Setup_close, s1, pc1, you1)
              else do {
                port \<leftarrow> rd16 w 96;
                let you2 = you1\<lparr>na_port := port\<rparr>;
                let pc2 = peer_cache_refresh hash64 now pc1 you2;
                num \<leftarrow> rd16 w 98;
                off \<leftarrow> blocks;
                bs \<leftarrow> c_slice w off (32 * unat num);
                m \<leftarrow> mutual_block_search s1 (dec_array id 32 (unat num) 0 bs);
                mutual \<leftarrow> m;
                pkt \<leftarrow> sync_or_horizon_pkt s1 mutual;
                Some (Setup_write pkt, s1, pc2, you2) } } } }"

definition check_sync_or_horizon :: "state \<Rightarrow> nat \<Rightarrow> bytes \<Rightarrow> (setup_plan \<times> state) option" where
  "check_sync_or_horizon s k pkt =
     do { type \<leftarrow> rd32 pkt 4;
          (err, s1) \<leftarrow> (if type = PROTOCOL_PKT_HORIZON then Some (recv_horizon_pkt, s)
                       else if type = PROTOCOL_PKT_SYNC then recv_sync_pkt s pkt
                       else Some (PROTOCOL_ECODE_UNKNOWN_COMMAND, s));
          if err \<noteq> PROTOCOL_ECODE_NONE then Some (Setup_error err, s1)
          else do {
            gp \<leftarrow> pkt_get_peers;
            s2 \<leftarrow> todo_for_peer s1 k gp;
            (plan, s3) \<leftarrow> plan_output s2 k;
            Some (Setup_output plan, s3) } }"

subsection \<open>Maps arrive\<close>

definition wanted :: "peer \<Rightarrow> block_shard \<Rightarrow> nat \<Rightarrow> bool" where
  "wanted p sh i \<longleftrightarrow>
     (\<exists>tx. tx_for sh (word_of_nat i) = Some (Some tx) \<and> peer_wants_tx_other p tx = Some True)"

definition map_bit :: "bytes \<Rightarrow> nat \<Rightarrow> bool" where
  "map_bit m i = bit (m ! (i div 8)) (i mod 8)"

lemma bit_push_one: "bit (push_bit j (1 :: u8)) k \<longleftrightarrow> k = j \<and> j < 8"
  by (auto simp: bit_simps)

lemma unat_u8: "unat (n :: u8) < 256"
  using unsigned_less[of n, where ?'a = nat] by simp

lemma set_map_bit_ok:
  assumes "i div 8 < length m"
  shows "\<exists>m'. set_map_bit m i = Some m' \<and> length m' = length m \<and> (\<forall>j. map_bit m' j \<longleftrightarrow> map_bit m j \<or> j = i)"
proof -
  let ?m = "m[i div 8 := m ! (i div 8) OR push_bit (i mod 8) 1]"
  have "map_bit ?m j \<longleftrightarrow> map_bit m j \<or> j = i" for j
  proof (cases "j div 8 = i div 8")
    case True
    then have "j mod 8 = i mod 8 \<longleftrightarrow> j = i" by (metis div_mult_mod_eq)
    then show ?thesis using True assms
      by (simp add: map_bit_def bit_or_iff bit_push_one del: push_bit_of_1)
  next
    case False
    then show ?thesis by (auto simp: map_bit_def)
  qed
  then show ?thesis using assms by (simp add: set_map_bit_def c_nth_def)
qed

lemma map_bit_zero: "j div 8 < n \<Longrightarrow> \<not> map_bit (replicate n 0) j"
  by (simp add: map_bit_def)

lemma wanted_map_ok:
  assumes "wanted_map p sh = Some m" "j < 256"
  shows "length m = 32" "map_bit m j \<longleftrightarrow> j < unat (bs_size sh) \<and> wanted p sh j"
proof -
  let ?f = "\<lambda>i m. do {
         t \<leftarrow> tx_for sh (word_of_nat i);
         (case t of
            None \<Rightarrow> Some m
          | Some tx \<Rightarrow> do { w \<leftarrow> peer_wants_tx_other p tx; if w then set_map_bit m i else Some m }) }"
  have step: "\<exists>m. ofold ?f [0..<n] (replicate 32 0) = Some m \<and> length m = 32 \<and>
      (\<forall>j < 256. map_bit m j \<longleftrightarrow> j < n \<and> wanted p sh j)"
    if "ofold ?f [0..<n] (replicate 32 0) \<noteq> None" "n \<le> 256" for n
    using that
  proof (induction n)
    case 0
    then show ?case by (auto simp: map_bit_zero)
  next
    case (Suc n)
    have "ofold ?f [0..<n] (replicate 32 0) \<noteq> None"
      using Suc.prems(1) by (cases "ofold ?f [0..<n] (replicate 32 0)") simp_all
    then obtain m where m: "ofold ?f [0..<n] (replicate 32 0) = Some m" "length m = 32"
      "\<forall>j < 256. map_bit m j \<longleftrightarrow> j < n \<and> wanted p sh j"
      using Suc.IH Suc.prems(2) by auto
    then have "?f n m \<noteq> None" using Suc.prems(1) by (auto split: option.splits)
    then obtain t where t: "tx_for sh (word_of_nat n) = Some t" by (cases "tx_for sh (word_of_nat n)") auto
    show ?case
    proof (cases "wanted p sh n")
      case True
      have "n div 8 < length m" using m(2) Suc.prems(2) by simp
      then obtain m' where "set_map_bit m n = Some m'" "length m' = 32" "\<forall>j. map_bit m' j \<longleftrightarrow> map_bit m j \<or> j = n"
        using set_map_bit_ok[of n m] m(2) by auto
      then show ?thesis using True m by (auto simp: wanted_def less_Suc_eq)
    next
      case False
      have "?f n m = Some m"
      proof (cases t)
        case (Some tx)
        then obtain w where "peer_wants_tx_other p tx = Some w"
          using \<open>?f n m \<noteq> None\<close> t by (cases "peer_wants_tx_other p tx") auto
        then show ?thesis using False t Some by (auto simp: wanted_def)
      qed (simp add: t)
      then show ?thesis using False m by (auto simp: less_Suc_eq)
    qed
  qed
  have "unat (bs_size sh) \<le> 256" using unat_u8[of "bs_size sh"] by linarith
  then show "length m = 32" "map_bit m j \<longleftrightarrow> j < unat (bs_size sh) \<and> wanted p sh j"
    using step[of "unat (bs_size sh)"] assms by (auto simp: wanted_map_def)
qed

lemma ask_mapped_eq:
  assumes "\<And>i. i \<in> set is \<Longrightarrow> tx_for sh (word_of_nat i) \<noteq> None \<and> i div 8 < length m"
  shows "ask_mapped blk sh m is s =
    Some (fold (\<lambda>i s. todo_add_get_tx_in_block s blk (bs_shardnum sh) (word_of_nat i))
           (filter (\<lambda>i. tx_for sh (word_of_nat i) = Some None \<and> map_bit m i) is) s)"
  using assms
proof (induction "is" arbitrary: s)
  case (Cons i js)
  then obtain t where "tx_for sh (word_of_nat i) = Some t" "i div 8 < length m" by auto
  then show ?case using Cons by (auto simp: map_bit_def c_nth_def)
qed simp

lemma map_len_small: "map_len (unat (n :: u8)) \<le> 32" "i < k \<Longrightarrow> i div 8 < map_len k"
proof -
  have "unat n \<le> 255" using unat_u8[of n] by linarith
  then have "(unat n + 31) div 32 \<le> 8" by simp
  then show "map_len (unat n) \<le> 32" by (simp add: map_len_def)
  show "i < k \<Longrightarrow> i div 8 < map_len k" by (simp add: map_len_def)
qed

text \<open>A packet of a header, a block, a shard number and an error code, and what follows them.\<close>

lemma block_pkt_read:
  assumes "pkt_ok r" "drop 8 r = blk @ cpu_to_le16 shard @ junk @ rest" "length blk = 32" "length junk = 2"
  shows "length r = 44 + length rest" "c_slice r 8 32 = Some blk" "rd16 r 40 = Some shard" "drop 44 r = rest"
proof -
  have l: "8 \<le> length r" using assms(1) by (simp add: pkt_ok_def)
  have r: "r = take 8 r @ blk @ cpu_to_le16 shard @ junk @ rest"
    using append_take_drop_id[of 8 r] assms(2) by simp
  show "length r = 44 + length rest"
    using arg_cong[OF assms(2), of length] l assms(3,4) by (simp add: cpu_to_le16_def)
  show "c_slice r 8 32 = Some blk"
    by (subst r, rule c_slice_append) (use l assms(3) in auto)
  show "rd16 r 40 = Some shard"
    by (subst r, subst append_assoc[symmetric], rule rd16_append) (use l assms(3) in auto)
  have "drop 44 r = drop 36 (drop 8 r)" by simp
  also have "\<dots> = rest" unfolding assms(2) using assms(3,4) by (simp add: cpu_to_le16_def)
  finally show "drop 44 r = rest" .
qed

lemma recv_get_txmap_reply:
  assumes "recv_get_txmap s k junk req = Some (e, Some r, s1)" "length junk = 2"
    and "c_slice req 8 32 = Some blk" "rd16 req 40 = Some shard"
    and "block_find_any s blk = Some (Some a)" "st_heap s a = Some ba"
    and "c_nth (st_peers s) k = Some p" "c_nth (b_shard ba) (unat shard) = Some sh"
  shows "\<exists>m. wanted_map p sh = Some m \<and> pkt_ok r \<and>
    drop 8 r = blk @ cpu_to_le16 shard @ junk @ take (map_len (unat (bs_size sh))) m"
proof -
  have blk: "length blk = 32" using assms(3) by auto
  obtain r0 where r0: "tal_packet PROTOCOL_PKT_TXMAP (blk @ cpu_to_le16 shard @ junk) = Some r0" "pkt_ok r0"
    "drop 4 r0 = cpu_to_le32 PROTOCOL_PKT_TXMAP @ blk @ cpu_to_le16 shard @ junk"
    using tal_packet_ok[of "blk @ cpu_to_le16 shard @ junk" PROTOCOL_PKT_TXMAP] blk assms(2)
    by (auto simp: cpu_to_le16_def PROTOCOL_MAX_PACKET_LEN_def)
  note assms(1)[unfolded recv_get_txmap_def assms(3,4,5,6,7,8)]
  then obtain m mbs where m: "wanted_map p sh = Some m" "c_slice m 0 (map_len (unat (bs_size sh))) = Some mbs"
    "tal_packet_append r0 mbs = Some r"
    using assms(3-8) r0(1)
    by (cases "wanted_map p sh") (auto simp: bind_eq_Some_conv split: if_splits option.splits)
  have "length r0 = 44"
    using arg_cong[OF r0(3), of length] r0(2) blk assms(2)
    by (simp add: pkt_ok_def cpu_to_le32_def cpu_to_le16_def)
  moreover have "length mbs \<le> 32" using m(2) map_len_small(1)[of "bs_size sh"] by auto
  ultimately have "length r0 + length mbs < 2 ^ 32" by simp
  then obtain r' where "tal_packet_append r0 mbs = Some r'" "pkt_ok r'" "drop 4 r' = drop 4 r0 @ mbs"
    using tal_packet_append_ok[OF r0(2)] by blast
  then have "pkt_ok r" "drop 4 (drop 4 r) = drop 4 (drop 4 r0 @ mbs)" using m(3) by auto
  then show ?thesis using m(1,2) r0(3) by (auto simp: cpu_to_le32_def)
qed

text \<open>
  C14. A map of transactions arrives: for the answer of a peer to \<open>get_txmap\<close> we ask for exactly those
  transactions of the shard which we do not have, which the peer has and which pay to an address in
  a shard we told the peer to be interested in.
\<close>

theorem txmap_asks_wanted:
  assumes "recv_get_txmap sA k junk req = Some (e, Some r, sA')" "length junk = 2"
    and "c_slice req 8 32 = Some blk" "rd16 req 40 = Some shard"
    and "block_find_any sA blk = Some (Some a)" "st_heap sA a = Some ba"
    and "c_nth (st_peers sA) k = Some p" "c_nth (b_shard ba) (unat shard) = Some shA"
    and "block_find_any sB blk = Some (Some b)" "st_heap sB b = Some bb" "ucast shard < num_shards (b_hdr bb)"
    and "c_nth (b_shard bb) (unat shard) = Some shB" "bs_size shB = bs_size shA" "length (bs_u shB) = unat (bs_size shB)"
  shows "recv_txmap sB r = Some (PROTOCOL_ECODE_NONE,
    fold (\<lambda>i s. todo_add_get_tx_in_block s (b_sha bb) (bs_shardnum shB) (word_of_nat i))
      (filter (\<lambda>i. tx_for shB (word_of_nat i) = Some None \<and> wanted p shA i) [0..<unat (bs_size shA)]) sB)"
proof -
  define n where "n = unat (bs_size shA)"
  have n: "n < 256" using unat_u8[of "bs_size shA"] by (simp add: n_def)
  obtain m where m: "wanted_map p shA = Some m" "pkt_ok r"
    "drop 8 r = blk @ cpu_to_le16 shard @ junk @ take (map_len n) m"
    using recv_get_txmap_reply[OF assms(1-8)] by (auto simp: n_def)
  have m32: "length m = 32" using wanted_map_ok(1)[OF m(1), of 0] by simp
  have "length blk = 32" using assms(3) by auto
  note rd = block_pkt_read[OF m(2,3) this assms(2)]
  define plen :: u32 where "plen = word_of_nat (length r)"
  have len: "rd32 r 0 = Some plen" "unat plen = 44 + map_len n"
    using rd32_pkt[OF m(2)] unat_pkt_len[OF m(2)] rd(1) m32 map_len_small(1)[of "bs_size shA"]
    by (simp_all add: plen_def n_def)
  have enough: "\<not> plen < 44" "unat (plen - 44) = map_len n"
    using len(2) by (simp_all add: word_less_nat_alt unat_sub_if')
  have ask: "ask_mapped (b_sha bb) shB (take (map_len n) m) [0..<n] sB =
    Some (fold (\<lambda>i s. todo_add_get_tx_in_block s (b_sha bb) (bs_shardnum shB) (word_of_nat i))
      (filter (\<lambda>i. tx_for shB (word_of_nat i) = Some None \<and> map_bit (take (map_len n) m) i) [0..<n]) sB)"
  proof (rule ask_mapped_eq)
    fix i assume "i \<in> set [0..<n]"
    then have i: "i < n" by simp
    then have "i < 256" using n by linarith
    then have "i < length (bs_u shB)" "unat (word_of_nat i :: u8) = i"
      using assms(13,14) i by (simp_all add: n_def unsigned_of_nat take_bit_nat_eq_self_iff)
    then show "tx_for shB (word_of_nat i) \<noteq> None \<and> i div 8 < length (take (map_len n) m)"
      using map_len_small(2)[OF i] map_len_small(1)[of "bs_size shA"] m32
      by (auto simp: tx_for_def c_nth_def n_def split: txslot.splits)
  qed
  have same: "map_bit (take (map_len n) m) i \<longleftrightarrow> wanted p shA i" if "i < n" for i
  proof -
    have "i < 256" using that n by linarith
    then show ?thesis using wanted_map_ok(2)[OF m(1)] map_len_small(2)[OF that] that
      by (simp add: map_bit_def n_def)
  qed
  have "filter (\<lambda>i. tx_for shB (word_of_nat i) = Some None \<and> map_bit (take (map_len n) m) i) [0..<n] =
    filter (\<lambda>i. tx_for shB (word_of_nat i) = Some None \<and> wanted p shA i) [0..<n]"
    using same by (intro filter_cong) auto
  note ask' = ask[unfolded this]
  have "\<not> ucast shard \<ge> num_shards (b_hdr bb)" using assms(11) by simp
  then show ?thesis
    using assms(9,10,12) ask' rd(4) unfolding recv_txmap_def len(1) rd(2,3)
    by (simp add: enough assms(13) n_def Let_def)
qed

text \<open>One block with one transaction, which one side has and the other does not.\<close>

definition ex_map_state :: "txslot \<Rightarrow> state" where
  "ex_map_state slot = (ex_state 0)\<lparr>
     st_heap := (ex_heap 0)(0 \<mapsto> (ex_block 0 0)\<lparr>b_shard :=
       [\<lparr>bs_shardnum = 0, bs_txcount = 1, bs_hashcount = 0, bs_size = 1, bs_proof = None, bs_u = [slot]\<rparr>]\<rparr>),
     st_peers := [\<lparr>p_num = 0, p_we_are_syncing = True, p_they_are_syncing = True, p_error_pkt = None,
       p_welcome = Some (2, [15, 0, 0, 0]), p_requests_outstanding = 0, p_todo = []\<rparr>]\<rparr>"

definition ex_get_txmap :: bytes where
  "ex_get_txmap = cpu_to_le32 44 @ cpu_to_le32 PROTOCOL_PKT_GET_TXMAP @ nat_le 32 0 @ cpu_to_le16 0 @ [0, 0]"

lemma ex_map_find: "block_find_any (ex_map_state slot) (nat_le 32 0) = Some (Some 0)"
  by (simp add: block_find_any_def ex_map_state_def ex_state_def ex_block_def)

lemma ex_get_txmap_read:
  "rd32 ex_get_txmap 0 = Some 44" "c_slice ex_get_txmap 8 32 = Some (nat_le 32 0)" "rd16 ex_get_txmap 40 = Some 0"
proof -
  show "rd32 ex_get_txmap 0 = Some 44"
    unfolding ex_get_txmap_def using rd32_append[of 0 "[]" 44] by simp
  have p: "ex_get_txmap = (cpu_to_le32 44 @ cpu_to_le32 PROTOCOL_PKT_GET_TXMAP) @ nat_le 32 0 @ cpu_to_le16 0 @ [0, 0]"
    "ex_get_txmap = (cpu_to_le32 44 @ cpu_to_le32 PROTOCOL_PKT_GET_TXMAP @ nat_le 32 0) @ cpu_to_le16 0 @ [0, 0]"
    by (simp_all add: ex_get_txmap_def)
  show "c_slice ex_get_txmap 8 32 = Some (nat_le 32 0)"
    unfolding p(1) by (rule c_slice_append) (simp_all add: cpu_to_le32_def)
  show "rd16 ex_get_txmap 40 = Some 0"
    unfolding p(2) by (rule rd16_append) (simp add: cpu_to_le32_def)
qed

theorem txmap_asks_wanted_witness:
  "\<exists>r. recv_get_txmap (ex_map_state (Txp (Some (ex_normal, [])))) 0 [0, 0] ex_get_txmap =
       Some (PROTOCOL_ECODE_NONE, Some r, ex_map_state (Txp (Some (ex_normal, [])))) \<and>
     recv_txmap (ex_map_state (Txp None)) r =
       Some (PROTOCOL_ECODE_NONE, todo_add_get_tx_in_block (ex_map_state (Txp None)) (nat_le 32 0) 0 0)"
proof -
  let ?A = "ex_map_state (Txp (Some (ex_normal, [])))" and ?B = "ex_map_state (Txp None)"
  define bb where "bb slot = the (st_heap (ex_map_state slot) 0)" for slot
  have bb: "st_heap (ex_map_state slot) 0 = Some (bb slot)" for slot
    by (simp add: bb_def ex_map_state_def)
  have sh: "c_nth (b_shard (bb slot)) (unat (0 :: u16)) =
      Some \<lparr>bs_shardnum = 0, bs_txcount = 1, bs_hashcount = 0, bs_size = 1, bs_proof = None, bs_u = [slot]\<rparr>"
    "b_hdr (bb slot) = b_hdr (ex_block 0 0)" "b_sha (bb slot) = nat_le 32 0" for slot
    by (simp_all add: bb_def ex_map_state_def ex_block_def c_nth_def)
  obtain p where p: "c_nth (st_peers ?A) 0 = Some p" "p_welcome p = Some (2, [15, 0, 0, 0])"
    by (simp add: ex_map_state_def c_nth_def)
  have "replicate 2 (5 :: u8) = [5, 5]" by (simp add: numeral_2_eq_2)
  then have wants: "peer_wants_tx_other p ex_normal = Some True"
    by (simp add: peer_wants_tx_other_def ex_normal_def p(2) shard_of_def peer_wants_shard_def c_nth_def be_nat_def
        c_slice_def)
  let ?sh = "\<lparr>bs_shardnum = 0, bs_txcount = 1, bs_hashcount = 0, bs_size = 1, bs_proof = None,
      bs_u = [Txp (Some (ex_normal, []))]\<rparr>"
  have map: "wanted_map p ?sh = Some (1 # replicate 31 0)"
  proof -
    have "replicate 32 (0 :: u8) = 0 # replicate 31 0" using replicate_Suc[of 31 "0 :: u8"] by simp
    then show ?thesis by (simp add: wanted_map_def tx_for_def c_nth_def wants set_map_bit_def)
  qed
  have ns: "\<not> ucast (0 :: u16) \<ge> num_shards (b_hdr (bb slot))" for slot
    unfolding sh(2) by (simp add: num_shards_def ex_block_def ex_chain_parts_def word_le_nat_alt)
  obtain r0 where r0: "tal_packet PROTOCOL_PKT_TXMAP (nat_le 32 0 @ cpu_to_le16 0 @ [0, 0]) = Some r0" "pkt_ok r0"
    using tal_packet_ok[of "nat_le 32 0 @ cpu_to_le16 0 @ [0, 0]" PROTOCOL_PKT_TXMAP]
    by (auto simp: cpu_to_le16_def PROTOCOL_MAX_PACKET_LEN_def)
  have l0: "length r0 = 44"
    using r0(1) by (auto simp: tal_packet_def Let_def cpu_to_le32_def cpu_to_le16_def split: if_splits)
  obtain r where r: "tal_packet_append r0 (take 4 (1 # replicate 31 0)) = Some r"
    using tal_packet_append_ok[OF r0(2), of "take 4 (1 # replicate 31 0)"] l0 by auto
  have sent: "recv_get_txmap ?A 0 [0, 0] ex_get_txmap = Some (PROTOCOL_ECODE_NONE, Some r, ?A)"
    unfolding recv_get_txmap_def ex_get_txmap_read
    using bb ns sh(1) p(1) map r0(1) r by (simp add: map_len_def ex_map_find c_slice_in)
  have "ucast (0 :: u16) < num_shards (b_hdr (bb (Txp None)))" using ns[of "Txp None"] by (simp add: word_gt_0)
  moreover have "wanted p ?sh 0"
    unfolding wanted_def using wants by (auto simp: tx_for_def c_nth_def)
  ultimately have "recv_txmap ?B r =
      Some (PROTOCOL_ECODE_NONE, todo_add_get_tx_in_block ?B (nat_le 32 0) 0 0)"
    using txmap_asks_wanted[OF sent _ ex_get_txmap_read(2,3) ex_map_find bb p(1) sh(1) ex_map_find bb _ sh(1)]
    by (simp add: sh(3) tx_for_def c_nth_def)
  then show ?thesis using sent by blast
qed

subsection \<open>Packets that only ask\<close>

lemmas todo_add_frames = new_todo_request_frame[of _ PKT_GET_BLOCK _ 0 0, folded todo_add_get_block_def]
  new_todo_request_frame[of _ PKT_GET_CHILDREN _ 0 0, folded todo_add_get_children_def]
  new_todo_request_frame[of _ PKT_GET_TX_IN_BLOCK, folded todo_add_get_tx_in_block_def]

lemma todo_done_children_frame: "todo_done_get_children s k blk ok = Some s' \<Longrightarrow> only_todo s s'"
  unfolding todo_done_get_children_def by (rule finish_todo_frame)

lemma recv_set_filter_frame: "recv_set_filter s k pkt = Some (e, s') \<Longrightarrow> only_todo s s'"
  by (auto simp: recv_set_filter_def bind_eq_Some_conv split: if_splits dest!: upd_peer_frame)

lemma recv_get_shard_frame: "recv_get_shard rt s k pkt = Some (e, r, s') \<Longrightarrow> only_todo s s'"
  by (auto simp: recv_get_shard_def bind_eq_Some_conv todo_add_frames split: if_splits option.splits
      dest!: todo_for_peer_frame)

lemma recv_get_tx_in_block_frame: "recv_get_tx_in_block rt s pkt = Some (e, r, s') \<Longrightarrow> only_todo s s'"
  by (auto simp: recv_get_tx_in_block_def bind_eq_Some_conv todo_add_frames Let_def split: if_splits option.splits)

lemma recv_get_txmap_frame: "recv_get_txmap s k junk pkt = Some (e, r, s') \<Longrightarrow> only_todo s s'"
  by (auto simp: recv_get_txmap_def bind_eq_Some_conv todo_add_frames split: if_splits option.splits)

lemma ask_mapped_frame: "ask_mapped blk sh m is s = Some s' \<Longrightarrow> only_todo s s'"
proof (induction "is" arbitrary: s)
  case (Cons i js)
  from Cons.prems obtain s1 where "ask_mapped blk sh m js s1 = Some s'"
    "s1 = s \<or> s1 = todo_add_get_tx_in_block s blk (bs_shardnum sh) (word_of_nat i)"
    by (auto simp: bind_eq_Some_conv split: if_splits)
  then show ?case using Cons.IH only_todo_trans todo_add_frames(3) by metis
qed simp

lemma recv_txmap_frame: "recv_txmap s pkt = Some (e, s') \<Longrightarrow> only_todo s s'"
  by (auto simp: recv_txmap_def bind_eq_Some_conv todo_add_frames Let_def split: if_splits option.splits
      dest!: ask_mapped_frame)

lemma recv_children_loop_frame: "recv_children_loop is body s = Some s' \<Longrightarrow> only_todo s s'"
proof (induction "is" arbitrary: s)
  case (Cons i js)
  note first = only_todo_trans[OF todo_add_frames(1)] only_todo_trans[OF todo_add_frames(2)]
  from Cons.prems show ?case
    by (auto simp: bind_eq_Some_conv split: option.splits if_splits dest!: Cons.IH dest: first)
qed simp

lemma recv_children_frame: "recv_children s k pkt = Some (e, s') \<Longrightarrow> only_todo s s'"
  by (auto simp: recv_children_def bind_eq_Some_conv Let_def split: if_splits
      dest!: todo_done_children_frame recv_children_loop_frame intro: only_todo_trans)

lemma recv_pkt_peers_frame: "recv_pkt_peers hash64 now coins s pc pkt = Some (e, s', pc') \<Longrightarrow> only_todo s s'"
  by (auto simp: recv_pkt_peers_def digest_peer_addrs_def bind_eq_Some_conv Let_def only_todo_upd split: if_splits)

text \<open>The packets whose handlers may touch blocks, tables, pending transactions or the chain.\<close>

definition changing_types :: "u32 set" where
  "changing_types =
     {PROTOCOL_PKT_BLOCK, PROTOCOL_PKT_TX, PROTOCOL_PKT_HASHES_IN_BLOCK, PROTOCOL_PKT_SHARD,
      PROTOCOL_PKT_TX_IN_BLOCK, PROTOCOL_PKT_TX_BAD_INPUT, PROTOCOL_PKT_TX_BAD_AMOUNT,
      PROTOCOL_PKT_TX_DOUBLESPEND, PROTOCOL_PKT_COMPLAIN_TX_MISORDER, PROTOCOL_PKT_COMPLAIN_TX_INVALID,
      PROTOCOL_PKT_COMPLAIN_TX_BAD_INPUT, PROTOCOL_PKT_COMPLAIN_TX_BAD_AMOUNT,
      PROTOCOL_PKT_COMPLAIN_DOUBLESPEND, PROTOCOL_PKT_COMPLAIN_BAD_INPUT_REF,
      PROTOCOL_PKT_COMPLAIN_CLAIM_INPUT_INVALID}"

text \<open>
  A packet of any other type, known or not, leaves blocks, chains, pending transactions and the
  tables of transactions alone: its handler changes only what is to be asked of and sent to peers.
\<close>

theorem questions_change_nothing:
  assumes "handle_packet rt hash64 coins junk new s pc k type pkt = Some (e, reply, s', pc')"
    and "type \<notin> changing_types"
  shows "only_todo s s'"
proof -
  note frames = recv_set_filter_frame recv_get_shard_frame recv_get_tx_in_block_frame recv_get_txmap_frame
    recv_txmap_frame recv_children_frame recv_pkt_peers_frame
  show ?thesis
    using assms unfolding handle_packet_def changing_types_def with_reply_def no_reply_def
    by (auto simp: bind_eq_Some_conv split: if_splits dest!: frames)
qed

text \<open>A map for a block we have not heard of.\<close>

definition ex_txmap :: bytes where
  "ex_txmap = cpu_to_le32 44 @ cpu_to_le32 PROTOCOL_PKT_TXMAP @ replicate 32 7 @ cpu_to_le16 0 @ [0, 0]"

lemma recv_ex_txmap:
  "recv_txmap (ex_state 3) ex_txmap = Some (PROTOCOL_ECODE_NONE, todo_add_get_block (ex_state 3) (replicate 32 7))"
proof -
  have l: "length ex_txmap = 44" by (simp add: ex_txmap_def cpu_to_le32_def cpu_to_le16_def)
  have ok: "pkt_ok ex_txmap" unfolding pkt_ok_def l by (simp add: ex_txmap_def cpu_to_le32_def)
  have "drop 8 ex_txmap = replicate 32 7 @ cpu_to_le16 0 @ [0, 0] @ []"
    by (simp add: ex_txmap_def cpu_to_le32_def)
  note rd = block_pkt_read[OF ok this]
  have "rd32 ex_txmap 0 = Some 44" using rd32_pkt[OF ok] l by simp
  then show ?thesis using rd ex_find_no_block by (simp add: recv_txmap_def del: c_slice_eq_Some)
qed

theorem questions_change_nothing_witness:
  "only_todo (ex_state 3) (todo_add_get_block (ex_state 3) (replicate 32 7))"
proof (rule questions_change_nothing)
  show "handle_packet ex_runtime (\<lambda>_ _. 0) (\<lambda>_. False) [] 4 (ex_state 3) ex_cache 0 PROTOCOL_PKT_TXMAP ex_txmap =
    Some (PROTOCOL_ECODE_NONE, None, todo_add_get_block (ex_state 3) (replicate 32 7), ex_cache)"
    by (simp add: handle_packet_def no_reply_def recv_ex_txmap packet_types)
  show "PROTOCOL_PKT_TXMAP \<notin> changing_types"
    by (simp add: changing_types_def packet_types)
qed

subsection \<open>Reporting a transaction against itself\<close>

lemma unmarshal_and_check_front:
  assumes "wf_tx tx" "version_ok (hdr_version tx)" "check_tx ssl s tx None = Some PROTOCOL_ECODE_NONE"
    and "length (enc_tx tx @ rest) < 2 ^ 64"
  shows "unmarshal_and_check_tx ssl s (enc_tx tx @ rest) (length (enc_tx tx @ rest)) = Some (Inr (tx, rest, length rest))"
proof -
  let ?buf = "enc_tx tx @ rest"
  have "length ?buf = unat (word_of_nat (length ?buf) :: size_t)"
    using assms(4) by (simp only: unsigned_of_nat) (simp add: take_bit_nat_eq_self)
  from unmarshal_tx_meets_spec[OF this, of True]
  obtain e used where u: "unmarshal_tx ?buf (word_of_nat (length ?buf)) True = Some (e, used)"
    and sp: "(e, unat used) = unmarshal_tx_spec ?buf True" by auto
  note c = cast_tx_enc[OF assms(1), of rest]
  have "type_of_byte (?buf ! 1) \<in> {0, 1, 2, 3}" using cast_tx_sound[OF c] by (cases "tx_type tx") auto
  moreover have "\<not> length ?buf < 3" using c unfolding cast_tx_def by (auto split: if_splits)
  ultimately have "e = PROTOCOL_ECODE_NONE" "unat used = tx_bytes_len tx"
    using sp c cast_tx_sound[OF c] assms(2) by (auto simp: unmarshal_tx_spec_def)
  then show ?thesis
    using u c assms(3) length_enc_tx[OF assms(1)] by (simp add: unmarshal_and_check_tx_def)
qed

lemma ds_pkt_read:
  assumes "pkt_ok pkt" "drop 8 pkt = cpu_to_le32 x @ cpu_to_le32 y @ rest"
  shows "rd32 pkt 8 = Some x" "rd32 pkt 12 = Some y" "drop 16 pkt = rest" "length pkt = 16 + length rest"
proof -
  have l: "8 \<le> length pkt" using assms(1) by (simp add: pkt_ok_def)
  have p: "pkt = take 8 pkt @ cpu_to_le32 x @ cpu_to_le32 y @ rest"
    using append_take_drop_id[of 8 pkt] assms(2) by simp
  show "rd32 pkt 8 = Some x" by (subst p, rule rd32_append) (use l in simp)
  show "rd32 pkt 12 = Some y"
    by (subst p, subst append_assoc[symmetric], rule rd32_append) (use l in \<open>simp add: cpu_to_le32_def\<close>)
  have "drop 16 pkt = drop 8 (drop 8 pkt)" by simp
  also have "\<dots> = rest" unfolding assms(2) by (simp add: cpu_to_le32_def)
  finally show "drop 16 pkt = rest" .
  show "length pkt = 16 + length rest"
    using arg_cong[OF assms(2), of length] l by (simp add: cpu_to_le32_def)
qed

lemma recv_tx_doublespend_self:
  assumes "pkt_ok pkt" "drop 8 pkt = cpu_to_le32 n @ cpu_to_le32 n @ enc_tx tx @ enc_tx tx"
    and "wf_tx tx" "version_ok (hdr_version tx)" "check_tx (rt_ssl rt) s tx None = Some PROTOCOL_ECODE_NONE"
    and "tx_input tx (unat n) = Some inp" "n < num_inputs tx"
  shows "recv_tx_doublespend rt s pkt = punish_doublespend rt s tx n tx n"
proof -
  note rd = ds_pkt_read[OF assms(1,2)]
  have small: "length pkt < 2 ^ 32" using assms(1) by (simp add: pkt_ok_def)
  define len :: u32 where "len = word_of_nat (length pkt)"
  have len: "rd32 pkt 0 = Some len" "unat len = length pkt"
    using rd32_pkt[OF assms(1)] unat_pkt_len[OF assms(1)] by (simp_all add: len_def)
  have "\<not> len < 16" using len(2) rd(4) by (simp add: word_less_nat_alt)
  moreover have "unmarshal_and_check_tx (rt_ssl rt) s (drop 16 pkt) (unat len - 16) =
      Some (Inr (tx, enc_tx tx, length (enc_tx tx)))"
  proof -
    have "unat len - 16 = length (enc_tx tx @ enc_tx tx)" "length (enc_tx tx @ enc_tx tx) < 2 ^ 64"
      using small rd(4) len(2) by simp_all
    then show ?thesis using unmarshal_and_check_front[OF assms(3-5)] unfolding rd(3) by metis
  qed
  moreover have "unmarshal_and_check_tx (rt_ssl rt) s (enc_tx tx) (length (enc_tx tx)) = Some (Inr (tx, [], 0))"
    using unmarshal_and_check_front[OF assms(3-5), of "[]"] small rd(4) by simp
  ultimately show ?thesis
    using assms(6) assms(7)[unfolded not_le[symmetric]] rd(1,2) unfolding recv_tx_doublespend_def len(1) by simp
qed


lemma created_proof:
  assumes "c_nth (b_shard bb) (unat shard) = Some sh" "bs_proof sh = None" "shard_all_hashes sh"
    and "shard_contents ssl sh hs" "digest_ok ssl" "length (b_sha bb) = 32"
  shows "\<exists>pf. create_proof ssl bb shard off = Some pf \<and> wf_proof pf \<and> length (enc_proof pf) = 292"
proof -
  let ?sib = "\<lambda>i. mroot (SHA256_Double_Final ssl) (shard_leaf ssl hs) i (if bit off i then 0 else 2 ^ i)"
  have len: "length (mroot (SHA256_Double_Final ssl) (shard_leaf ssl hs) k i) = 32" for k i
    using assms(5) by (cases k) auto
  have "those (map (proof_sibling ssl sh off) xs) = Some (map ?sib xs)" for xs
    by (induction xs) (simp_all add: proof_sibling_mroot[OF assms(4)])
  then obtain ms where ms: "those (map (proof_sibling ssl sh off) [0..<8]) = Some ms" "ms = map ?sib [0..<8]"
    by blast
  define pf where "pf = \<lparr>pr_pos = \<lparr>pos_block = b_sha bb, pos_shard = shard, pos_txoff = off, pos_unused = 0\<rparr>,
      pr_merkles = ms\<rparr>"
  have "create_proof ssl bb shard off = Some pf"
    unfolding create_proof_def assms(1) bind.bind_lunit assms(2) option.case ms(1) pf_def using assms(3) by simp
  moreover have "length ms = 8" "list_all (\<lambda>m. length m = 32) ms"
    unfolding ms(2) using len by (simp_all add: list_all_iff del: upt_Suc upt_rec_numeral)
  then have "wf_proof pf" by (simp add: wf_proof_def pf_def)
  moreover have "length (pos_block (pr_pos pf)) = 32" using assms(6) by (simp add: pf_def)
  ultimately show ?thesis using length_enc_proof by blast
qed


end
