(* ===== verification/Shard_exchange.thy ===== *)
theory Shard_exchange
  imports Peers
begin

text \<open>
  Two daemons exchange the contents of a shard: what \<open>recv_get_shard\<close> of \<open>peer.c\<close> answers, and what
  \<open>recv_shard\<close> of \<open>recv_block.c\<close> does with the answer.
\<close>

subsection \<open>The answer\<close>

definition enc_txrefhash :: "protocol_txrefhash \<Rightarrow> bytes" where
  "enc_txrefhash h = trh_txhash h @ trh_refhash h"

lemma dec_enc_txrefhash: "wf_txrefhash h \<Longrightarrow> length (enc_txrefhash h) = 64 \<and> dec_txrefhash (enc_txrefhash h) = h"
  by (simp add: wf_txrefhash_def enc_txrefhash_def dec_txrefhash_def slice_def)

lemma length_concat_trh: "list_all wf_txrefhash hs \<Longrightarrow> length (concat (map enc_txrefhash hs)) = 64 * length hs"
  by (induction hs) (simp_all add: dec_enc_txrefhash)

lemma append_trh_eq: "tal_packet_append_txrefhash r h = tal_packet_append r (enc_txrefhash h)"
  by (simp add: tal_packet_append_txrefhash_def enc_txrefhash_def)

lemma append_hashes_ok:
  assumes "shard_contents (rt_ssl rt) sh hs" "pkt_ok r" "length r + 64 * n < 2 ^ 32" "n \<le> length hs"
  shows "\<exists>r'. append_hashes rt sh [0..<n] r = Some r' \<and> pkt_ok r' \<and>
    drop 4 r' = drop 4 r @ concat (map enc_txrefhash (take n hs))"
  using assms(3,4)
proof (induction n)
  case 0
  then show ?case using assms(2) by (simp add: append_hashes_def)
next
  case (Suc n)
  then obtain r' where r': "append_hashes rt sh [0..<n] r = Some r'" "pkt_ok r'"
    "drop 4 r' = drop 4 r @ concat (map enc_txrefhash (take n hs))" by auto
  have wf: "list_all wf_txrefhash (take n hs)" "wf_txrefhash (hs ! n)"
    and h: "txrefhash_in_shard (rt_ssl rt) sh (word_of_nat n) = Some (Some (hs ! n))"
    using assms(1) Suc.prems(2) by (auto simp: shard_contents_def list_all_length)
  have "length r' = length r + 64 * n"
    using arg_cong[OF r'(3), of length] r'(2) assms(2) length_concat_trh[OF wf(1)] Suc.prems(2)
    by (simp add: pkt_ok_def, linarith)
  then obtain r2 where "tal_packet_append r' (enc_txrefhash (hs ! n)) = Some r2" "pkt_ok r2"
    "drop 4 r2 = drop 4 r' @ enc_txrefhash (hs ! n)"
    using tal_packet_append_ok[OF r'(2), of "enc_txrefhash (hs ! n)"] dec_enc_txrefhash[OF wf(2)] Suc.prems(1) by auto
  then show ?case
    using r'(1,3) h Suc.prems(2)
    by (simp add: append_hashes_def append_trh_eq take_Suc_conv_app_nth)
qed

lemma shard_answer:
  assumes "recv_get_shard rt s k req = Some (PROTOCOL_ECODE_NONE, Some r, s')" "c_slice req 8 32 = Some blk"
    "rd16 req 40 = Some shard" "block_find_any s blk = Some (Some a)" "st_heap s a = Some ba"
    "c_nth (b_shard ba) (unat shard) = Some sh" "shard_contents (rt_ssl rt) sh hs" "shard_all_hashes sh"
  shows "pkt_ok r \<and> drop 8 r = blk @ cpu_to_le16 shard @ cpu_to_le16 0 @ concat (map enc_txrefhash hs)"
proof -
  have none: "ucast (ecode_code PROTOCOL_ECODE_NONE) = (0 :: u16)" by (simp add: ecode_code_def all_ecodes_def)
  have blk: "length blk = 32" using assms(2) by auto
  have d8: "drop 8 xs = drop 4 (drop 4 xs)" for xs :: bytes by simp
  obtain r0 where r0: "shard_pkt blk shard PROTOCOL_ECODE_NONE = Some r0" "pkt_ok r0"
    "drop 4 r0 = cpu_to_le32 PROTOCOL_PKT_SHARD @ blk @ cpu_to_le16 shard @ cpu_to_le16 0"
    using tal_packet_ok[of "blk @ cpu_to_le16 shard @ cpu_to_le16 0" PROTOCOL_PKT_SHARD] blk
    by (auto simp: cpu_to_le16_def PROTOCOL_MAX_PACKET_LEN_def shard_pkt_def none)
  have l0: "length r0 = 44"
    using arg_cong[OF r0(3), of length] r0(2) blk by (simp add: pkt_ok_def cpu_to_le32_def cpu_to_le16_def)
  have n: "length hs = unat (bs_size sh)" using assms(7) by (simp add: shard_contents_def)
  have "length r0 + 64 * unat (bs_size sh) < 44 + 64 * 256" using l0 unat_u8[of "bs_size sh"] by linarith
  also have "\<dots> < 2 ^ 32" by simp
  finally obtain r' where r': "append_hashes rt sh [0..<unat (bs_size sh)] r0 = Some r'" "pkt_ok r'"
    "drop 4 r' = drop 4 r0 @ concat (map enc_txrefhash hs)"
    using append_hashes_ok[OF assms(7) r0(2), of "unat (bs_size sh)"] n by auto
  have "r = r'"
    using assms(1,4-6,8) r0(1) r'(1) unfolding recv_get_shard_def assms(2,3)
    by (auto simp: bind_eq_Some_conv split: if_splits option.splits)
  then show ?thesis
    using r'(2,3) r0(3) d8[of r'] by (simp add: cpu_to_le32_def)
qed

subsection \<open>The merkle root over the answer\<close>

lemma merkle_hashes_root:
  assumes "list_all wf_txrefhash hs"
  shows "merkle_hashes ssl hs 0 (length hs) = Some (shard_root ssl hs)"
proof -
  have "merkle_recurse ssl 0 (length hs) (2 ^ 8) (merkle_hash ssl hs) =
      Some (mroot (SHA256_Double_Final ssl) (shard_leaf ssl hs) 8 0)"
    by (rule merkle_recurse_mroot) (simp_all add: merkle_hash_def shard_leaf_def c_nth_def merkle_two_hashes_def)
  then show ?thesis by (simp add: merkle_hashes_def shard_root_def)
qed

subsection \<open>What the receiver makes of it\<close>

lemma unat_ucast_u16_u32: "unat (ucast (x :: u16) :: u32) = unat x"
  by (simp add: unsigned_ucast_eq take_bit_nat_eq_self_iff order_less_trans [OF unat_u16_less])

lemma recv_shard_hashes:
  assumes r: "pkt_ok r" "drop 8 r = blk @ cpu_to_le16 shard @ cpu_to_le16 0 @ concat (map enc_txrefhash hs)"
    and blk: "length blk = 32" "list_all wf_txrefhash hs" "length hs = unat num" "num \<noteq> 0"
    and b: "block_find_any s blk = Some (Some b)" "st_heap s b = Some bb" "b_complaint bb = None"
      "ucast shard < num_shards (b_hdr bb)" "c_nth (b_shard_nums bb) (unat shard) = Some num"
      "c_nth (b_merkles bb) (unat shard) = Some (shard_root (rt_ssl rt) hs)"
  shows "recv_shard rt s pr r =
    do { s1 \<leftarrow> (case pr of None \<Rightarrow> Some s | Some k \<Rightarrow> todo_done_get_shard s k blk shard True);
         s2 \<leftarrow> put_hashes rt b shard hs [0..<unat num] s1;
         s3 \<leftarrow> try_resolve_hashes rt s2 pr b shard (pr \<noteq> None);
         Some (PROTOCOL_ECODE_NONE, s3) }"
proof -
  have l2: "length (cpu_to_le16 0) = 2" by (simp add: cpu_to_le16_def)
  note rd = block_pkt_read[OF r blk(1) l2]
  have lh: "length (concat (map enc_txrefhash hs)) = 64 * unat num"
    using length_concat_trh[OF blk(2)] blk(3) by simp
  define len :: u32 where "len = word_of_nat (length r)"
  have len: "rd32 r 0 = Some len" "unat len = 44 + 64 * unat num"
    using rd32_pkt[OF r(1)] unat_pkt_len[OF r(1)] rd(1) lh by (simp_all add: len_def)
  have enough: "\<not> len < 44" using len(2) by (simp add: word_less_nat_alt)
  have err: "rd16 r 42 = Some 0"
  proof -
    have p: "r = (take 8 r @ blk @ cpu_to_le16 shard) @ cpu_to_le16 0 @ concat (map enc_txrefhash hs)"
      using append_take_drop_id[of 8 r] r(2) by simp
    have "length (take 8 r @ blk @ cpu_to_le16 shard) = 42"
      using r(1) blk(1) by (simp add: pkt_ok_def cpu_to_le16_def)
    then show ?thesis by (subst p) (rule rd16_append, simp)
  qed
  have bs: "c_slice r 44 (64 * unat num) = Some (concat (map enc_txrefhash hs))"
  proof -
    have "take (64 * unat num) (concat (map enc_txrefhash hs)) = concat (map enc_txrefhash hs)" using lh by simp
    then show ?thesis using rd(1,4) lh by (simp add: c_slice_def)
  qed
  have dec: "dec_array dec_txrefhash 64 (unat num) 0 (concat (map enc_txrefhash hs)) = hs"
    using dec_array_concat[of enc_txrefhash 64 dec_txrefhash hs 0 "[]" "[]"] dec_enc_txrefhash blk(2,3)
    by (simp add: list_all_iff)
  have none: "ecode_code PROTOCOL_ECODE_NONE = 0" by (simp add: ecode_code_def all_ecodes_def)
  have num: "\<not> unat shard \<ge> unat (num_shards (b_hdr bb))"
    using b(4) by (simp add: word_less_nat_alt unat_ucast_u16_u32)
  show ?thesis
    using b(1-3,5,6) num merkle_hashes_root[OF blk(2), of "rt_ssl rt"] blk(3,4)
    unfolding recv_shard_def len(1) rd(2,3) err
    by (simp add: enough len(2) bs dec none del: c_slice_eq_Some)
qed

lemma hashes_on_proofs_fail:
  assumes "proofs_left s b (unat shard) (unat num) {}" "list_all wf_txrefhash hs"
  shows "put_hashes rt b shard hs [0..<unat (num :: u8)] s = None"
proof (rule ccontr)
  assume "put_hashes rt b shard hs [0..<unat num] s \<noteq> None"
  then obtain s2 where put: "put_hashes rt b shard hs [0..<unat num] s = Some s2" by auto
  have "proofs_left s2 b (unat shard) (unat num) {0..<unat num}"
    using put_hashes_keeps_proofs[OF assms put] u8_le_255[of num] by force
  then obtain sh where "shard_ok sh" "\<not> shard_all_hashes sh" "length (bs_u sh) = unat num"
      "\<forall>j \<in> {0..<unat num}. bs_u sh ! j \<noteq> Txp None"
    unfolding proofs_left_def by blast
  then show False by (simp add: all_hashes_iff)
qed

text \<open>
  C40. A peer that holds every hash of a shard answers a request for it with a packet that aborts the
  receiver, when the receiver has got part of the shard with proofs: the receiver stores the missing
  hashes one by one, without dropping the proofs it keeps, and the consistency check of the shard
  fails once the last hash is in.
\<close>

theorem honest_shard_crashes:
  assumes sent: "recv_get_shard rt t k req = Some (PROTOCOL_ECODE_NONE, Some r, t')" "c_slice req 8 32 = Some blk"
      "rd16 req 40 = Some shard" "block_find_any t blk = Some (Some a)" "st_heap t a = Some ba"
      "c_nth (b_shard ba) (unat shard) = Some sh" "shard_contents (rt_ssl rt) sh hs" "shard_all_hashes sh"
    and held: "block_find_any s blk = Some (Some b)" "st_heap s b = Some bb" "b_complaint bb = None"
      "ucast shard < num_shards (b_hdr bb)" "c_nth (b_shard_nums bb) (unat shard) = Some (bs_size sh)"
      "c_nth (b_merkles bb) (unat shard) = Some (shard_root (rt_ssl rt) hs)"
      "proofs_left s b (unat shard) (unat (bs_size sh)) {}"
  shows "recv_shard rt s pr r = None"
proof -
  have wf: "list_all wf_txrefhash hs" "length hs = unat (bs_size sh)" "length blk = 32"
    using sent(2,7) by (auto simp: shard_contents_def)
  have n0: "bs_size sh \<noteq> 0"
  proof
    assume "bs_size sh = 0"
    then show False using held(7) by (auto simp: proofs_left_def all_hashes_iff)
  qed
  have "put_hashes rt b shard hs [0..<unat (bs_size sh)] s1 = None" if "st_heap s1 = st_heap s" for s1
    using held(7) that hashes_on_proofs_fail[OF _ wf(1)] by (simp add: proofs_left_def)
  moreover have "st_heap s1 = st_heap s" if "todo_done_get_shard s j blk shard True = Some s1" for j s1
    using only_todo_heap[OF todo_done_frames(2)[OF that]] by simp
  ultimately show ?thesis
    using recv_shard_hashes[OF shard_answer[OF sent, THEN conjunct1] shard_answer[OF sent, THEN conjunct2]
        wf(3,1,2) n0 held(1-6)]
    by (auto simp: bind_eq_None_conv split: option.splits)
qed

definition ex_shard_state :: "(protocol_proof option) list option \<Rightarrow> txslot list \<Rightarrow> state" where
  \<comment> \<open>a store with one block of one shard of two transactions, of which some are known\<close>
  "ex_shard_state prfs us = (ex_state 0)\<lparr>
     st_heap := (ex_heap 0)(0 \<mapsto> (ex_block 0 0)\<lparr>
       b_parts := (ex_chain_parts 0)\<lparr>bp_shard_nums := [2], bp_merkles := [shard_root model_openssl [ex_trh, ex_trh]]\<rparr>,
       b_shard := [\<lparr>bs_shardnum = 0, bs_txcount = 0, bs_hashcount = word_of_nat (length (filter is_hash us)), bs_size = 2,
         bs_proof = prfs, bs_u = us\<rparr>]\<rparr>)\<rparr>"

definition ex_get_shard :: bytes where
  "ex_get_shard = cpu_to_le32 44 @ cpu_to_le32 PROTOCOL_PKT_GET_SHARD @ nat_le 32 0 @ cpu_to_le16 0 @ [0, 0]"

lemma ex_get_shard_read:
  "rd32 ex_get_shard 0 = Some 44" "c_slice ex_get_shard 8 32 = Some (nat_le 32 0)" "rd16 ex_get_shard 40 = Some 0"
proof -
  show "rd32 ex_get_shard 0 = Some 44"
    unfolding ex_get_shard_def using rd32_append[of 0 "[]" 44] by simp
  have p: "ex_get_shard = (cpu_to_le32 44 @ cpu_to_le32 PROTOCOL_PKT_GET_SHARD) @ nat_le 32 0 @ cpu_to_le16 0 @ [0, 0]"
    "ex_get_shard = (cpu_to_le32 44 @ cpu_to_le32 PROTOCOL_PKT_GET_SHARD @ nat_le 32 0) @ cpu_to_le16 0 @ [0, 0]"
    by (simp_all add: ex_get_shard_def)
  show "c_slice ex_get_shard 8 32 = Some (nat_le 32 0)"
    unfolding p(1) by (rule c_slice_append) (simp_all add: cpu_to_le32_def)
  show "rd16 ex_get_shard 40 = Some 0"
    unfolding p(2) by (rule rd16_append) (simp add: cpu_to_le32_def)
qed

lemma ex_shard_find: "block_find_any (ex_shard_state prfs us) (nat_le 32 0) = Some (Some 0)"
  by (simp add: block_find_any_def ex_shard_state_def ex_state_def ex_block_def)

lemma ex_two_hashes:
  "shard_contents ssl \<lparr>bs_shardnum = 0, bs_txcount = 0, bs_hashcount = 2, bs_size = 2, bs_proof = None,
     bs_u = [Hash ex_trh, Hash ex_trh]\<rparr> [ex_trh, ex_trh]"
  by (simp add: shard_contents_def txrefhash_in_shard_def c_nth_def ex_trh_def wf_txrefhash_def All_less_Suc)

theorem honest_shard_crashes_witness:
  "\<exists>r. recv_get_shard ex_runtime (ex_shard_state None [Hash ex_trh, Hash ex_trh]) 0 ex_get_shard =
       Some (PROTOCOL_ECODE_NONE, Some r, ex_shard_state None [Hash ex_trh, Hash ex_trh]) \<and>
     recv_shard ex_runtime (ex_shard_state (Some [None, None]) [Hash ex_trh, Txp None]) None r = None"
proof -
  let ?A = "ex_shard_state None [Hash ex_trh, Hash ex_trh]" and ?B = "ex_shard_state (Some [None, None]) [Hash ex_trh, Txp None]"
  let ?sh = "\<lparr>bs_shardnum = 0, bs_txcount = 0, bs_hashcount = 2, bs_size = 2, bs_proof = None,
      bs_u = [Hash ex_trh, Hash ex_trh]\<rparr>"
  let ?part = "\<lparr>bs_shardnum = 0, bs_txcount = 0, bs_hashcount = 1, bs_size = 2, bs_proof = Some [None, None],
      bs_u = [Hash ex_trh, Txp None]\<rparr>"
  obtain ba where a: "st_heap ?A 0 = Some ba" "c_nth (b_shard ba) (unat (0 :: u16)) = Some ?sh" "b_complaint ba = None"
      "b_hdr ba = b_hdr (ex_block 0 0)"
    by (simp add: ex_shard_state_def ex_block_def c_nth_def is_hash_def)
  obtain bb where b: "st_heap ?B 0 = Some bb" "c_nth (b_shard bb) (unat (0 :: u16)) = Some ?part" "b_complaint bb = None"
      "b_hdr bb = b_hdr (ex_block 0 0)" "b_shard_nums bb = [2]" "b_merkles bb = [shard_root model_openssl [ex_trh, ex_trh]]"
    by (simp add: ex_shard_state_def ex_block_def c_nth_def is_hash_def)
  have ns: "num_shards (b_hdr (ex_block 0 0)) = 1" by (simp add: num_shards_def ex_block_def ex_chain_parts_def)
  have all: "shard_all_hashes ?sh" by (simp add: shard_all_hashes_def)
  have left: "proofs_left ?B 0 (unat (0 :: u16)) (unat (bs_size ?sh)) {}"
    using b(1,2) by (auto simp: proofs_left_def shard_ok_def slot_ok_def ex_trh_def wf_txrefhash_def is_known_def is_hash_def shard_all_hashes_def)
  obtain r0 where r0: "shard_pkt (nat_le 32 0) 0 PROTOCOL_ECODE_NONE = Some r0" "pkt_ok r0" "length r0 = 44"
    using tal_packet_ok[of "nat_le 32 0 @ cpu_to_le16 0 @ cpu_to_le16 (ucast (ecode_code PROTOCOL_ECODE_NONE))" PROTOCOL_PKT_SHARD]
    by (auto simp: cpu_to_le16_def cpu_to_le32_def PROTOCOL_MAX_PACKET_LEN_def shard_pkt_def tal_packet_def Let_def split: if_splits)
  obtain r where r: "append_hashes ex_runtime ?sh [0..<unat (2 :: u8)] r0 = Some r"
    using append_hashes_ok[OF ex_two_hashes r0(2), of 2 ex_runtime] r0(3) by auto
  have sent: "recv_get_shard ex_runtime ?A 0 ex_get_shard = Some (PROTOCOL_ECODE_NONE, Some r, ?A)"
    unfolding recv_get_shard_def ex_get_shard_read using a ns all r0(1) r by (simp add: ex_shard_find)
  have "recv_shard ex_runtime ?B None r = None"
    by (rule honest_shard_crashes[OF sent ex_get_shard_read(2,3) ex_shard_find a(1,2) ex_two_hashes all ex_shard_find b(1)
          b(3) _ _ _ left]) (use b ns in \<open>simp_all add: c_nth_def ex_runtime_ok\<close>)
  then show ?thesis using sent by blast
qed

end
