(* ===== verification/Packet_io.thy ===== *)
theory Packet_io
  imports Packets
begin

text \<open>
  \<open>packet_io.c\<close>: a packet is read in as many parts as the kernel delivers it, first its length, then
  the rest. A call of \<open>read\<close> is a parameter: what it returns for a number of bytes asked for, where
  \<open>None\<close> is an error and no bytes are the end of the file.
\<close>

subsection \<open>The code\<close>

datatype reading =
    \<comment> \<open>\<open>pkt\<close> points into \<open>plan->u2\<close> behind the bytes of the length, or is not set yet\<close>
    Reading_len bytes
    \<comment> \<open>\<open>pkt\<close> is allocated; the bytes up to the offset in \<open>plan->u2\<close>\<close>
  | Reading_body bytes

datatype read_result =
    Read_failed
  | Read_more reading
  | Read_done bytes

definition read_body :: "(nat \<Rightarrow> bytes option) \<Rightarrow> bytes \<Rightarrow> read_result option" where
  \<comment> \<open>\<open>read_packet_part\<close> from where the packet is allocated\<close>
  "read_body rd pkt =
     do { max \<leftarrow> rd32 pkt 0;
          Some (case rd (unat max - length pkt) of
              None \<Rightarrow> Read_failed
            | Some bs \<Rightarrow>
                if bs = [] then Read_failed
                else if length (pkt @ bs) = unat max then Read_done (pkt @ bs)
                else Read_more (Reading_body (pkt @ bs))) }"

definition read_packet_part :: "(nat \<Rightarrow> bytes option) \<Rightarrow> reading \<Rightarrow> read_result option" where
  "read_packet_part rd plan =
     (case plan of
        Reading_len got \<Rightarrow>
          if length got < 4 then
            Some (case rd (4 - length got) of
                None \<Rightarrow> Read_failed
              | Some bs \<Rightarrow> if bs = [] then Read_failed else Read_more (Reading_len (got @ bs)))
          else do {
            len \<leftarrow> rd32 got 0;
            if unat len > PROTOCOL_MAX_PACKET_LEN then Some Read_failed
            else if unat len < 8 then Some Read_failed
            else read_body rd got }
      | Reading_body pkt \<Rightarrow> read_body rd pkt)"

definition io_read_packet :: reading where
  "io_read_packet = Reading_len []"

definition peer_write_packet :: "bytes \<Rightarrow> bytes option" where
  \<comment> \<open>the bytes given to the kernel\<close>
  "peer_write_packet pkt =
     do { len \<leftarrow> rd32 pkt 0;
          c_assert (unat len \<ge> 8);
          c_assert (unat len \<le> PROTOCOL_MAX_PACKET_LEN);
          c_slice pkt 0 (unat len) }"

subsection \<open>Reading from a stream\<close>

definition wanted_bytes :: "reading \<Rightarrow> nat" where
  \<comment> \<open>how many bytes the next call of \<open>read\<close> asks for\<close>
  "wanted_bytes plan = (case plan of
     Reading_len got \<Rightarrow> if length got < 4 then 4 - length got else le_nat (take 4 got) - length got
   | Reading_body pkt \<Rightarrow> le_nat (take 4 pkt) - length pkt)"

definition received :: "reading \<Rightarrow> bytes" where
  "received plan = (case plan of Reading_len got \<Rightarrow> got | Reading_body pkt \<Rightarrow> pkt)"

fun read_packet :: "nat list \<Rightarrow> bytes \<Rightarrow> reading \<Rightarrow> (read_result \<times> bytes) option" where
  \<comment> \<open>the calls that \<open>ccan/io\<close> makes while the kernel delivers a stream: call \<open>i\<close> gets at most \<open>ks ! i\<close>
     bytes; what is left of the stream in the end\<close>
  "read_packet [] stream plan = Some (Read_more plan, stream)"
| "read_packet (k # ks) stream plan =
     do { r \<leftarrow> read_packet_part (\<lambda>n. Some (take (min k n) stream)) plan;
          let left = drop (min k (wanted_bytes plan)) stream;
          (case r of
             Read_failed \<Rightarrow> Some (Read_failed, stream)
           | Read_more plan' \<Rightarrow> read_packet ks left plan'
           | Read_done pkt \<Rightarrow> Some (Read_done pkt, left)) }"

definition sendable :: "bytes \<Rightarrow> bool" where
  \<comment> \<open>a packet that says its length, within the limits of the protocol\<close>
  "sendable pkt \<longleftrightarrow> 8 \<le> length pkt \<and> length pkt \<le> PROTOCOL_MAX_PACKET_LEN \<and> take 4 pkt = nat_le 4 (length pkt)"

definition plan_of :: "bytes \<Rightarrow> bytes \<Rightarrow> reading \<Rightarrow> bool" where
  \<comment> \<open>the plan is on the way to \<open>pkt\<close> and has got \<open>got\<close> of it\<close>
  "plan_of pkt got plan \<longleftrightarrow> got = take (length got) pkt \<and> length got < length pkt \<and> received plan = got \<and>
     (case plan of Reading_len g \<Rightarrow> length g \<le> 4 | Reading_body p \<Rightarrow> length p > 4)"

lemma max_len_less: "n \<le> PROTOCOL_MAX_PACKET_LEN \<Longrightarrow> n < 2 ^ 32"
  by (simp add: PROTOCOL_MAX_PACKET_LEN_def)

lemma sendable_len:
  assumes "sendable pkt" "got = take (length got) pkt" "4 \<le> length got"
  shows "le_nat (take 4 got) = length pkt \<and> (\<exists>w. rd32 got 0 = Some w \<and> unat w = length pkt)"
proof -
  have small: "length pkt < 2 ^ 32" using assms(1) max_len_less by (simp add: sendable_def)
  have "take 4 got = take 4 pkt" using assms(2,3) by (metis min.absorb2 min.commute take_take)
  then have t: "take 4 got = nat_le 4 (length pkt)" using assms(1) by (simp add: sendable_def)
  then have "le_nat (take 4 got) = length pkt" using small by (simp add: le_nat_nat_le)
  moreover have "rd32 got 0 = Some (word_of_nat (length pkt))"
    using assms(3) t small by (simp add: rd32_def c_slice_def le_nat_nat_le le32_to_cpu_def)
  ultimately show ?thesis using small by (simp add: unat_of_nat take_bit_nat_eq_self)
qed

lemma wanted_bounds:
  assumes "sendable pkt" "plan_of pkt got plan"
  shows "0 < wanted_bytes plan \<and> length got + wanted_bytes plan \<le> length pkt \<and>
    (length got + wanted_bytes plan = length pkt \<or> length got + wanted_bytes plan = 4)"
proof (cases plan)
  case (Reading_len g)
  then have g: "g = got" "length got \<le> 4" using assms(2) by (auto simp: plan_of_def received_def)
  show ?thesis
  proof (cases "length got < 4")
    case True
    then show ?thesis using assms g Reading_len by (simp add: wanted_bytes_def sendable_def)
  next
    case False
    then show ?thesis
      using assms g Reading_len sendable_len[OF assms(1), of got] by (simp add: wanted_bytes_def plan_of_def)
  qed
next
  case (Reading_body p)
  then show ?thesis
    using assms sendable_len[OF assms(1), of got] by (auto simp: wanted_bytes_def plan_of_def received_def)
qed

lemma read_part_step:
  assumes ok: "sendable pkt" "plan_of pkt got plan" and k: "0 < k" and stream: "stream = drop (length got) pkt @ rest"
  defines "n \<equiv> min k (wanted_bytes plan)"
  shows "\<exists>r. read_packet_part (\<lambda>n. Some (take (min k n) stream)) plan = Some r \<and>
    (if length got + n = length pkt then r = Read_done pkt
     else \<exists>plan'. r = Read_more plan' \<and> plan_of pkt (take (length got + n) pkt) plan')"
proof -
  note w = wanted_bounds[OF ok]
  have n: "0 < n" "length got + n \<le> length pkt" using w k min.cobounded2[of k "wanted_bytes plan"] unfolding n_def by linarith+
  have bs: "take n stream = take n (drop (length got) pkt)" "take n (drop (length got) pkt) \<noteq> []"
    using stream n by simp_all
  have join: "got @ take n (drop (length got) pkt) = take (length got + n) pkt"
    using ok(2) by (simp add: plan_of_def take_add)
  show ?thesis
  proof (cases "length got < 4")
    case True
    then have p: "plan = Reading_len got" using ok(2) by (auto simp: plan_of_def received_def split: reading.splits)
    then have "n \<le> 4 - length got" "wanted_bytes plan = 4 - length got" using True by (simp_all add: n_def wanted_bytes_def)
    then show ?thesis
      using True p bs join n ok by (auto simp: read_packet_part_def n_def plan_of_def sendable_def received_def)
  next
    case False
    then have len: "le_nat (take 4 got) = length pkt" "\<exists>w. rd32 got 0 = Some w \<and> unat w = length pkt"
      using sendable_len[OF ok(1), of got] ok(2) by (simp_all add: plan_of_def)
    have wb: "wanted_bytes plan = length pkt - length got"
      using False len ok(2) by (auto simp: wanted_bytes_def plan_of_def received_def split: reading.splits)
    have "read_packet_part rd plan = read_body rd got" for rd
      using False len ok by (auto simp: read_packet_part_def plan_of_def received_def sendable_def split: reading.splits)
    moreover obtain max where "rd32 got 0 = Some max" "unat max = length pkt" using len(2) by blast
    moreover have "take (min k (length pkt - length got)) stream = take n (drop (length got) pkt)"
      using bs(1) wb by (simp add: n_def)
    moreover have "plan_of pkt (take (length got + n) pkt) (Reading_body (take (length got + n) pkt))" if "length got + n \<noteq> length pkt"
      using that False n by (simp add: plan_of_def received_def)
    ultimately show ?thesis using bs(2) join n(2) by (cases "length got + n = length pkt") (simp_all add: read_body_def)
  qed
qed

lemma read_packet_whole:
  assumes "sendable pkt" "plan_of pkt got plan" "\<forall>k \<in> set ks. 0 < k" "length pkt - length got \<le> length ks"
  shows "read_packet ks (drop (length got) pkt @ rest) plan = Some (Read_done pkt, rest)"
  using assms(2-4)
proof (induction ks arbitrary: got plan)
  case Nil
  then show ?case by (auto simp: plan_of_def)
next
  case (Cons k ks)
  define n where "n = min k (wanted_bytes plan)"
  note w = wanted_bounds[OF assms(1) Cons.prems(1)]
  have "0 < k" using Cons.prems(2) by simp
  then have n: "0 < n" "length got + n \<le> length pkt"
    using w min.cobounded2[of k "wanted_bytes plan"] unfolding n_def by linarith+
  have left: "drop n (drop (length got) pkt @ rest) = drop (length got + n) pkt @ rest" using n by (simp add: add.commute)
  obtain r where r: "read_packet_part (\<lambda>m. Some (take (min k m) (drop (length got) pkt @ rest))) plan = Some r"
      "if length got + n = length pkt then r = Read_done pkt
       else \<exists>plan'. r = Read_more plan' \<and> plan_of pkt (take (length got + n) pkt) plan'"
    using read_part_step[OF assms(1) Cons.prems(1) _ refl, of k rest] Cons.prems(2) unfolding n_def by auto
  show ?case
  proof (cases "length got + n = length pkt")
    case True
    then show ?thesis using r left by (simp add: n_def)
  next
    case False
    then obtain plan' where p: "r = Read_more plan'" "plan_of pkt (take (length got + n) pkt) plan'" using r(2) by auto
    have "read_packet ks (drop (length (take (length got + n) pkt)) pkt @ rest) plan' = Some (Read_done pkt, rest)"
      by (rule Cons.IH[OF p(2)]) (use Cons.prems n in auto)
    then show ?thesis using r(1) p(1) left n by (simp add: n_def)
  qed
qed

text \<open>
  C31. However the kernel cuts the stream into pieces, a packet that says its length within the limits
  of the protocol is read back whole, and what follows it in the stream is left for the next packet.
\<close>

theorem read_packet_any_chunks:
  assumes "sendable pkt" "\<forall>k \<in> set ks. 0 < k" "length pkt \<le> length ks"
  shows "read_packet ks (pkt @ rest) io_read_packet = Some (Read_done pkt, rest)"
proof -
  have "plan_of pkt [] io_read_packet" using assms(1) by (auto simp: plan_of_def received_def io_read_packet_def sendable_def)
  then show ?thesis using read_packet_whole[OF assms(1) _ assms(2), of "[]"] assms(3) by simp
qed

theorem read_packet_any_chunks_witness:
  "read_packet (replicate 12 3) ([12, 0, 0, 0, 75, 0, 0, 0, 1, 2, 3, 4] @ [9, 9]) io_read_packet =
     Some (Read_done [12, 0, 0, 0, 75, 0, 0, 0, 1, 2, 3, 4], [9, 9])"
proof (rule read_packet_any_chunks)
  have "nat_le 4 (length [12, 0, 0, 0, 75, 0, 0, 0, 1, 2, 3, 4 :: u8]) = [12, 0, 0, 0]" by code_simp
  then show "sendable [12, 0, 0, 0, 75, 0, 0, 0, 1, 2, 3, 4]"
    by (simp add: sendable_def PROTOCOL_MAX_PACKET_LEN_def)
qed simp_all

end
