(* ===== verification/Blockfile.thy ===== *)
theory Blockfile
  imports Packet_io Receive
begin

text \<open>
  \<open>blockfile.c\<close>: blocks and transactions are appended to a file as packets, and read back when the
  daemon starts. The file is its bytes and the position of its descriptor.
\<close>

subsection \<open>Reading the file\<close>

lemma unat_le_nat_take4 [simp]: "unat (word_of_nat (le_nat (take 4 bs)) :: u32) = le_nat (take 4 bs)"
proof -
  have "le_nat (take 4 bs) < 256 ^ length (take 4 bs)" by (rule le_nat_less)
  also have "\<dots> \<le> 256 ^ 4" by (rule power_increasing) simp_all
  finally show ?thesis by (simp add: unat_of_nat take_bit_nat_eq_self)
qed

lemma read_more_progress:
  "read_packet_part rd plan = Some (Read_more plan') \<Longrightarrow> \<exists>bs. rd (wanted_bytes plan) = Some bs \<and> bs \<noteq> []"
  by (auto simp: read_packet_part_def read_body_def wanted_bytes_def rd32_def c_slice_def le32_to_cpu_def bind_eq_Some_conv
      split: reading.splits if_splits option.splits)

function read_file_packet :: "bytes \<Rightarrow> reading \<Rightarrow> (bytes option \<times> bytes) option" where
  \<comment> \<open>the inner loop of \<open>load_blocks\<close>: the packet, if one could be read, and what is left of the file\<close>
  "read_file_packet rest plan =
     (case read_packet_part (\<lambda>n. Some (take n rest)) plan of
        None \<Rightarrow> None
      | Some Read_failed \<Rightarrow> Some (None, rest)
      | Some (Read_more plan') \<Rightarrow> read_file_packet (drop (wanted_bytes plan) rest) plan'
      | Some (Read_done pkt) \<Rightarrow> Some (Some pkt, drop (wanted_bytes plan) rest))"
  by pat_completeness auto
termination
  by (relation "measure (\<lambda>(rest, plan). length rest)") (auto dest!: read_more_progress)

declare read_file_packet.simps [simp del]


text \<open>
  Reading the next packet of the file: nothing is returned unless a whole packet is there whose
  length is within the limits, and then it is that packet and the rest of the file.
\<close>

theorem read_file_packet_spec:
  "read_file_packet rest io_read_packet =
     Some (if length rest < 4 then (None, [])
      else if le_nat (take 4 rest) < 8 \<or> PROTOCOL_MAX_PACKET_LEN < le_nat (take 4 rest) then (None, drop 4 rest)
      else if length rest < le_nat (take 4 rest) then (None, [])
      else (Some (take (le_nat (take 4 rest)) rest), drop (le_nat (take 4 rest)) rest))"
proof -
  have eof: "read_packet_part (\<lambda>n. Some (take n [])) plan = Some Read_failed"
    if "\<And>p. plan = Reading_body p \<Longrightarrow> 4 \<le> length p" "\<And>g. plan = Reading_len g \<Longrightarrow> length g < 4" for plan
    using that by (auto simp: read_packet_part_def read_body_def rd32_def c_slice_def split: reading.splits)
  show ?thesis
  proof (cases "rest = []")
    case True
    then show ?thesis using eof[of io_read_packet] by (subst read_file_packet.simps) (simp add: io_read_packet_def)
  next
    case False
    have first: "read_file_packet rest io_read_packet = read_file_packet (drop 4 rest) (Reading_len (take 4 rest))"
      using False by (subst read_file_packet.simps) (simp add: read_packet_part_def io_read_packet_def wanted_bytes_def)
    show ?thesis
    proof (cases "length rest < 4")
      case True
      then show ?thesis using first eof[of "Reading_len rest"] by (subst (asm) (2) read_file_packet.simps) simp
    next
      case long: False
      let ?g = "take 4 rest" and ?n = "le_nat (take 4 rest)"
      have rd: "rd32 bs 0 = Some (word_of_nat (le_nat (take 4 bs)))" if "4 \<le> length bs" for bs
        using that by (simp add: rd32_def c_slice_def le32_to_cpu_def)
      have g: "length ?g = 4" "wanted_bytes (Reading_len ?g) = ?n - 4" using long by (simp_all add: wanted_bytes_def)
      show ?thesis
      proof (cases "?n < 8 \<or> PROTOCOL_MAX_PACKET_LEN < ?n")
        case True
        then have "read_packet_part (\<lambda>n. Some (take n (drop 4 rest))) (Reading_len ?g) = Some Read_failed"
          using g(1) rd[of ?g] by (auto simp: read_packet_part_def)
        then show ?thesis using first long True by (subst (asm) (2) read_file_packet.simps) simp
      next
        case ok: False
        have join: "?g @ take (?n - 4) (drop 4 rest) = take ?n rest" using ok by (simp flip: take_add)
        have step: "read_packet_part (\<lambda>n. Some (take n (drop 4 rest))) (Reading_len ?g) =
            Some (if drop 4 rest = [] then Read_failed
              else if ?n \<le> length rest then Read_done (take ?n rest) else Read_more (Reading_body rest))"
          using g(1) rd[of ?g] ok join long by (auto simp: read_packet_part_def read_body_def)
        show ?thesis
        proof (cases "?n \<le> length rest")
          case True
          then have "drop 4 rest \<noteq> []" using ok by auto
          then show ?thesis using first step long ok True g(2)
            by (subst (asm) (2) read_file_packet.simps) simp
        next
          case short: False
          have "read_file_packet [] (Reading_body rest) = Some (None, [])"
            using eof[of "Reading_body rest"] long by (subst read_file_packet.simps) simp
          then show ?thesis using first step long ok short g(2)
            by (subst (asm) (2) read_file_packet.simps) (simp split: if_splits)
        qed
      qed
    qed
  qed
qed

subsection \<open>Loading\<close>

definition load_block :: "runtime \<Rightarrow> state \<Rightarrow> bptr \<Rightarrow> bytes \<Rightarrow> (bool \<times> state) option" where
  \<comment> \<open>\<open>new\<close> is the address \<open>block_add\<close> gets for the new block\<close>
  "load_block rt s new pkt =
     do { u \<leftarrow> unmarshal_block pkt;
          (case u of
             Inl e \<Rightarrow> Some (False, s)
           | Inr parts \<Rightarrow> do {
               (e, prev, sha) \<leftarrow> check_block_header rt s parts;
               if e \<noteq> PROTOCOL_ECODE_NONE then Some (False, s)
               else do {
                 p \<leftarrow> prev; x \<leftarrow> sha;
                 s1 \<leftarrow> block_add rt s new p x parts;
                 Some (True, s1) } }) }"

definition load_tx_in_block :: "runtime \<Rightarrow> state \<Rightarrow> bytes \<Rightarrow> (bool \<times> state) option" where
  "load_tx_in_block rt s pkt =
     do { (e, s1) \<leftarrow> recv_tx_from_blockfile rt s pkt; Some (e = PROTOCOL_ECODE_NONE, s1) }"

definition load_packet :: "runtime \<Rightarrow> (state \<Rightarrow> bptr) \<Rightarrow> state \<Rightarrow> bytes \<Rightarrow> (bool \<times> state) option" where
  \<comment> \<open>the \<open>switch\<close> of \<open>load_blocks\<close>\<close>
  "load_packet rt alloc s pkt =
     do { type \<leftarrow> rd32 pkt 4;
          if type = PROTOCOL_PKT_BLOCK then load_block rt s (alloc s) pkt
          else if type = PROTOCOL_PKT_TX_IN_BLOCK then load_tx_in_block rt s pkt
          else Some (False, s) }"

lemma read_file_packet_rest:
  "read_file_packet rest io_read_packet = Some (Some pkt, rest') \<Longrightarrow> rest = pkt @ rest' \<and> sendable pkt"
  using le_nat_nat_le[of 4] nat_le_le_nat[of "take 4 rest"]
  by (auto simp: read_file_packet_spec sendable_def split: if_splits)

function load_packets ::
    "runtime \<Rightarrow> (state \<Rightarrow> bptr) \<Rightarrow> state \<Rightarrow> bytes \<Rightarrow> nat \<Rightarrow> (state \<times> nat \<times> bytes \<times> bool) option" where
  \<comment> \<open>the loop of \<open>load_blocks\<close>: the state, \<open>off\<close>, what has not been read, and whether to truncate\<close>
  "load_packets rt alloc s rest off =
     (case read_file_packet rest io_read_packet of
        None \<Rightarrow> None
      | Some (None, rest') \<Rightarrow> Some (s, off, rest', length rest' \<noteq> length rest)
      | Some (Some pkt, rest') \<Rightarrow>
          (case load_packet rt alloc s pkt of
             None \<Rightarrow> None
           | Some (ok, s1) \<Rightarrow>
               if \<not> ok then Some (s1, off, rest', True)
               else (case rd32 pkt 0 of
                   None \<Rightarrow> None
                 | Some len \<Rightarrow> load_packets rt alloc s1 rest' (off + unat len))))"
  by pat_completeness auto
termination
  by (relation "measure (\<lambda>(_, _, _, rest, _). length rest)") (auto dest!: read_file_packet_rest simp: sendable_def)

declare load_packets.simps [simp del]

definition lseek_swapped :: "nat \<Rightarrow> nat \<Rightarrow> nat \<Rightarrow> nat" where
  \<comment> \<open>the position after \<open>lseek(fd, SEEK_SET, off)\<close>: the offset is 0, and \<open>off\<close> is cut down to an \<open>int\<close>
     that says from where: the start, here, the end, the first data or the first hole\<close>
  "lseek_swapped off pos fsize =
     (let whence = off mod 2 ^ 32 in
      if whence = 0 then 0
      else if whence = 2 then fsize
      else if whence = 3 \<and> fsize > 0 then 0
      else if whence = 4 \<and> fsize > 0 then fsize
      else pos)"

definition load_blocks :: "runtime \<Rightarrow> (state \<Rightarrow> bptr) \<Rightarrow> state \<Rightarrow> bytes \<Rightarrow> (state \<times> bytes \<times> nat) option" where
  \<comment> \<open>the new state, the file, and the position where it will be written to\<close>
  "load_blocks rt alloc s file =
     do { (s1, off, rest, truncate) \<leftarrow> load_packets rt alloc s file 0;
          let pos = length file - length rest;
          check_chains rt s1 True;
          Some (if truncate then (s1, take off file, lseek_swapped off pos off) else (s1, file, pos)) }"

subsection \<open>Saving\<close>

definition write_at :: "bytes \<Rightarrow> nat \<Rightarrow> bytes \<Rightarrow> bytes \<times> nat" where
  \<comment> \<open>a gap between the end of the file and the position reads as zeroes\<close>
  "write_at file pos bs =
     ((if pos \<le> length file then take pos file @ bs @ drop (pos + length bs) file
       else file @ replicate (pos - length file) 0 @ bs), pos + length bs)"

definition save_block :: "(bytes \<times> nat) option \<Rightarrow> block \<Rightarrow> (bytes \<times> nat) option option" where
  \<comment> \<open>no file while it is being loaded\<close>
  "save_block fd new =
     (case fd of
        None \<Rightarrow> Some None
      | Some (file, pos) \<Rightarrow> do {
          blk \<leftarrow> marshal_block (b_parts new);
          len \<leftarrow> rd32 blk 0;
          bs \<leftarrow> c_slice blk 0 (unat len);
          Some (Some (write_at file pos bs)) })"

definition save_tx :: "openssl \<Rightarrow> (bytes \<times> nat) option \<Rightarrow> block \<Rightarrow> u16 \<Rightarrow> u8 \<Rightarrow> (bytes \<times> nat) option option" where
  "save_tx ssl fd block shard txoff =
     (case fd of
        None \<Rightarrow> Some None
      | Some (file, pos) \<Rightarrow> do {
          pkt \<leftarrow> tal_packet PROTOCOL_PKT_TX_IN_BLOCK (cpu_to_le32 (ecode_code PROTOCOL_ECODE_NONE));
          prf \<leftarrow> create_proof ssl block shard txoff;
          t \<leftarrow> block_get_tx block shard txoff; tx \<leftarrow> t;
          r \<leftarrow> block_get_refs block shard txoff; refs \<leftarrow> r;
          pkt1 \<leftarrow> tal_packet_append_proven_tx pkt prf tx refs;
          len \<leftarrow> rd32 pkt1 0;
          bs \<leftarrow> c_slice pkt1 0 (unat len);
          Some (Some (write_at file pos bs)) })"

subsection \<open>What is saved is loaded again\<close>

definition storable :: "block_parts \<Rightarrow> bool" where
  \<comment> \<open>a block that \<open>marshal_block\<close> can write and whose packet is not too long to be read\<close>
  "storable b \<longleftrightarrow> wf_block_parts b \<and> version_ok (bh_version (bp_hdr b)) \<and>
     bh_shard_order (bp_hdr b) \<le> PROTOCOL_MAX_SHARD_ORDER \<and>
     12 + block_bytes_len (bp_hdr b) \<le> PROTOCOL_MAX_PACKET_LEN"

lemma storable_packet:
  assumes "storable b"
  shows "\<exists>pkt. marshal_block b = Some pkt \<and> sendable pkt \<and> rd32 pkt 0 = Some (word_of_nat (length pkt)) \<and>
    rd32 pkt 4 = Some PROTOCOL_PKT_BLOCK \<and> unmarshal_block pkt = Some (Inr b)"
proof -
  have wf: "wf_block_parts b" "version_ok (bh_version (bp_hdr b))" "bh_shard_order (bp_hdr b) \<le> PROTOCOL_MAX_SHARD_ORDER"
    and max: "12 + block_bytes_len (bp_hdr b) \<le> PROTOCOL_MAX_PACKET_LEN"
    using assms by (simp_all add: storable_def)
  have o16: "bh_shard_order (bp_hdr b) \<le> 16" using wf(3) by (simp add: c_simps)
  note fits = max_len_less[OF max]
  obtain pkt where p: "marshal_block b = Some pkt" "length pkt = 12 + block_bytes_len (bp_hdr b)" "unmarshal_block pkt = Some (Inr b)"
    using marshal_block_reads_back[OF wf fits] by blast
  define l where "l = (ucast (12 + marshal_block_len (bp_hdr b)) :: u32)"
  have "unat (12 + marshal_block_len (bp_hdr b)) = 12 + block_bytes_len (bp_hdr b)"
    using marshal_block_into_eq(3)[OF wf(1) o16] fits by (simp add: unat_word_ariths)
  then have ul: "unat l = length pkt" using fits p(2) by (simp add: l_def unsigned_ucast_eq take_bit_eq_mod)
  then have l: "l = word_of_nat (length pkt)" by (simp flip: ul)
  obtain body where b: "pkt = cpu_to_le32 l @ cpu_to_le32 PROTOCOL_PKT_BLOCK @ cpu_to_le32 0 @ body"
    using p(1) by (auto simp: marshal_block_def Let_def bind_eq_Some_conv l_def)
  have "rd32 pkt 0 = Some l" "rd32 pkt 4 = Some PROTOCOL_PKT_BLOCK"
    unfolding b by (rule rd32_append[of 0 "[]", simplified], rule rd32_append) (simp add: cpu_to_le32_def)
  moreover have "take 4 pkt = nat_le 4 (length pkt)" unfolding b using ul b by (simp add: cpu_to_le32_def)
  ultimately show ?thesis using p max l by (auto simp: sendable_def)
qed

lemma read_sendable: "sendable pkt \<Longrightarrow> read_file_packet (pkt @ rest) io_read_packet = Some (Some pkt, rest)"
proof -
  assume ok: "sendable pkt"
  then have "take 4 (pkt @ rest) = nat_le 4 (length pkt)" by (simp add: sendable_def)
  moreover have "le_nat (nat_le 4 (length pkt)) = length pkt"
    using ok max_len_less[of "length pkt"] by (simp add: le_nat_nat_le sendable_def)
  ultimately show ?thesis using ok by (simp add: read_file_packet_spec sendable_def)
qed

fun replay :: "runtime \<Rightarrow> (state \<Rightarrow> bptr) \<Rightarrow> state \<Rightarrow> block list \<Rightarrow> state option" where
  \<comment> \<open>adding blocks one after the other, each of which is accepted\<close>
  "replay rt alloc s [] = Some s"
| "replay rt alloc s (b # bs) =
     do { (e, prev, sha) \<leftarrow> check_block_header rt s (b_parts b);
          c_assert (e = PROTOCOL_ECODE_NONE);
          p \<leftarrow> prev; x \<leftarrow> sha;
          s1 \<leftarrow> block_add rt s (alloc s) p x (b_parts b);
          replay rt alloc s1 bs }"

fun save_all :: "(bytes \<times> nat) option \<Rightarrow> block list \<Rightarrow> (bytes \<times> nat) option option" where
  "save_all fd [] = Some fd"
| "save_all fd (b # bs) = do { fd1 \<leftarrow> save_block fd b; save_all fd1 bs }"

lemma save_block_appends:
  assumes "storable (b_parts b)"
  shows "\<exists>pkt. marshal_block (b_parts b) = Some pkt \<and>
    save_block (Some (file, length file)) b = Some (Some (file @ pkt, length (file @ pkt)))"
proof -
  obtain pkt where p: "marshal_block (b_parts b) = Some pkt" "sendable pkt" "rd32 pkt 0 = Some (word_of_nat (length pkt))"
    using storable_packet[OF assms] by blast
  have "unat (word_of_nat (length pkt) :: u32) = length pkt"
    using p(2) max_len_less[of "length pkt"] by (simp add: sendable_def unat_of_nat take_bit_nat_eq_self)
  then show ?thesis using p by (simp add: save_block_def write_at_def c_slice_def)
qed

lemma load_saved:
  assumes "\<forall>b \<in> set bs. storable (b_parts b)" "replay rt alloc s bs = Some s'"
  shows "\<exists>data. save_all (Some (fl, length fl)) bs = Some (Some (fl @ data, length (fl @ data))) \<and>
    (\<forall>off. \<exists>off'. load_packets rt alloc s data off = Some (s', off', [], False))"
  using assms
proof (induction bs arbitrary: s fl)
  case Nil
  then show ?case by (auto simp: load_packets.simps[of _ _ _ "[]"] read_file_packet_spec)
next
  case (Cons b bs)
  obtain pkt where p: "marshal_block (b_parts b) = Some pkt" "sendable pkt" "rd32 pkt 0 = Some (word_of_nat (length pkt))"
      "rd32 pkt 4 = Some PROTOCOL_PKT_BLOCK" "unmarshal_block pkt = Some (Inr (b_parts b))"
    using storable_packet[of "b_parts b"] Cons.prems(1) by auto
  obtain pr x s1 where c: "check_block_header rt s (b_parts b) = Some (PROTOCOL_ECODE_NONE, Some pr, Some x)"
      "block_add rt s (alloc s) pr x (b_parts b) = Some s1" "replay rt alloc s1 bs = Some s'"
    using Cons.prems(2) by (auto simp: bind_eq_Some_conv c_assert_def split: if_splits)
  have step: "load_packet rt alloc s pkt = Some (True, s1)"
    using p(4,5) c by (simp add: load_packet_def load_block_def)
  obtain data where d: "save_all (Some (fl @ pkt, length (fl @ pkt))) bs = Some (Some ((fl @ pkt) @ data, length ((fl @ pkt) @ data)))"
      "\<And>off. \<exists>off'. load_packets rt alloc s1 data off = Some (s', off', [], False)"
    using Cons.IH[OF _ c(3), of "fl @ pkt"] Cons.prems(1) by auto
  have "save_block (Some (fl, length fl)) b = Some (Some (fl @ pkt, length (fl @ pkt)))"
    using save_block_appends[of b fl] Cons.prems(1) p(1) by auto
  moreover have "\<exists>off'. load_packets rt alloc s (pkt @ data) off = Some (s', off', [], False)" for off
    using d(2) p(3) step by (simp add: load_packets.simps[of _ _ _ "pkt @ data"] read_sendable[OF p(2)])
  ultimately show ?case using d(1) by (intro exI[of _ "pkt @ data"]) simp
qed

text \<open>
  C30. A block that was saved at the end of the file is read back from there: its header is checked and
  it is added as it was, whatever comes after it in the file; if the header is not accepted, loading
  stops in front of it.
\<close>

theorem saved_block_is_loaded:
  assumes "storable (b_parts b)"
  shows "\<exists>pkt. save_block (Some (fl, length fl)) b = Some (Some (fl @ pkt, length (fl @ pkt))) \<and>
    (\<forall>rt alloc s rest off. load_packets rt alloc s (pkt @ rest) off =
      do { (e, prev, sha) \<leftarrow> check_block_header rt s (b_parts b);
           if e \<noteq> PROTOCOL_ECODE_NONE then Some (s, off, rest, True)
           else do {
             p \<leftarrow> prev; x \<leftarrow> sha;
             s1 \<leftarrow> block_add rt s (alloc s) p x (b_parts b);
             load_packets rt alloc s1 rest (off + length pkt) } })"
proof -
  obtain pkt where p: "marshal_block (b_parts b) = Some pkt" "sendable pkt" "rd32 pkt 0 = Some (word_of_nat (length pkt))"
      "rd32 pkt 4 = Some PROTOCOL_PKT_BLOCK" "unmarshal_block pkt = Some (Inr (b_parts b))"
    using storable_packet[OF assms] by blast
  have l: "unat (word_of_nat (length pkt) :: u32) = length pkt"
    using p(2) max_len_less[of "length pkt"] by (simp add: sendable_def unat_of_nat take_bit_nat_eq_self)
  have "load_packets rt alloc s (pkt @ rest) off =
      do { (e, prev, sha) \<leftarrow> check_block_header rt s (b_parts b);
           if e \<noteq> PROTOCOL_ECODE_NONE then Some (s, off, rest, True)
           else do {
             p \<leftarrow> prev; x \<leftarrow> sha;
             s1 \<leftarrow> block_add rt s (alloc s) p x (b_parts b);
             load_packets rt alloc s1 rest (off + length pkt) } }" for rt alloc s rest off
    using p(3-5) l
    by (simp add: load_packets.simps[of _ _ _ "pkt @ rest"] read_sendable[OF p(2)] load_packet_def load_block_def
        split: Option.bind_split option.split)
  then show ?thesis using save_block_appends[OF assms, of fl] p(1) by auto
qed

text \<open>
  Blocks that were saved one after the other, each of them accepted by the state it was added to,
  are all added again when the file is loaded: the state is the same and the file is not truncated.
\<close>

lemma blockfile_roundtrip:
  assumes "\<forall>b \<in> set bs. storable (b_parts b)" "replay rt alloc s bs = Some s'"
  shows "\<exists>file. save_all (Some ([], 0)) bs = Some (Some (file, length file)) \<and>
    load_blocks rt alloc s file = do { check_chains rt s' True; Some (s', file, length file) }"
proof -
  obtain data where d: "save_all (Some ([], 0)) bs = Some (Some (data, length data))"
      "\<forall>off. \<exists>off'. load_packets rt alloc s data off = Some (s', off', [], False)"
    using load_saved[OF assms(1,2), of "[]"] by auto
  obtain off' where "load_packets rt alloc s data 0 = Some (s', off', [], False)" using d(2) by blast
  then show ?thesis using d(1) by (simp add: load_blocks_def)
qed

subsection \<open>After a truncation\<close>

lemma recv_tx_error_file: "recv_tx_error s None e len body = Some (e', s') \<Longrightarrow> s' = s"
  by (auto simp: recv_tx_error_def Let_def bind_eq_Some_conv split: if_splits)

lemma accept_none: "accept_proven_tx rt s None b prf tx refs = Some (e, s') \<Longrightarrow> e = PROTOCOL_ECODE_NONE"
  by (auto simp: accept_proven_tx_def Let_def elim!: bind_SomeE split: if_splits option.splits prod.splits)

lemma recv_failed_file:
  "recv_tx_for_block rt s None b bb prf len txbuf = Some (e, s') \<Longrightarrow> e \<noteq> PROTOCOL_ECODE_NONE \<Longrightarrow> s' = s"
  by (auto simp: recv_tx_for_block_def Let_def elim!: bind_SomeE split: if_splits prod.splits dest!: accept_none)

lemma load_failed_same:
  assumes "load_packet rt alloc s pkt = Some (False, s')"
  shows "s' = s"
proof -
  have "s' = s" if "recv_tx_from_blockfile rt s pkt = Some (e, s')" "e \<noteq> PROTOCOL_ECODE_NONE" for e
    using that
    by (auto simp: recv_tx_from_blockfile_def recv_tx_in_block_def Let_def elim!: bind_SomeE
        dest!: recv_tx_error_file recv_failed_file split: if_splits option.splits)
  then show ?thesis
    using assms
    by (auto simp: load_packet_def load_block_def load_tx_in_block_def elim!: bind_SomeE split: if_splits sum.splits)
qed

lemma load_prefix:
  "load_packets rt alloc s rest off = Some (s1, off1, rest1, t) \<Longrightarrow>
   off \<le> off1 \<and> off1 - off + length rest1 \<le> length rest \<and>
   (\<forall>x. load_packets rt alloc s (take (off1 - off) rest @ x) off = load_packets rt alloc s1 x off1)"
proof (induction rt alloc s rest off rule: load_packets.induct)
  case (1 rt alloc s rest off)
  show ?case
  proof (cases "fst (the (read_file_packet rest io_read_packet))")
    case None
    then have "s1 = s \<and> off1 = off \<and> length rest1 \<le> length rest"
      using "1.prems" by (subst (asm) load_packets.simps) (auto simp: read_file_packet_spec split: if_splits)
    then show ?thesis by simp
  next
    case (Some pkt)
    then obtain rest' where r: "read_file_packet rest io_read_packet = Some (Some pkt, rest')"
      using read_file_packet_spec[of rest] by (auto split: if_splits)
    then have cut: "rest = pkt @ rest'" "sendable pkt" using read_file_packet_rest by auto
    obtain ok s2 where l: "load_packet rt alloc s pkt = Some (ok, s2)"
      using "1.prems" r by (subst (asm) load_packets.simps) (auto split: option.splits)
    show ?thesis
    proof (cases ok)
      case False
      then have "s1 = s \<and> off1 = off \<and> rest1 = rest'"
        using "1.prems" r l load_failed_same by (subst (asm) load_packets.simps) auto
      then show ?thesis using cut(1) by simp
    next
      case True
      have t4: "take 4 pkt = nat_le 4 (length pkt)" "8 \<le> length pkt" using cut(2) by (simp_all add: sendable_def)
      have "le_nat (nat_le 4 (length pkt)) = length pkt"
        using cut(2) max_len_less[of "length pkt"] by (simp add: le_nat_nat_le sendable_def)
      then obtain len where len: "rd32 pkt 0 = Some len" "unat len = length pkt"
        using t4 unat_le_nat_take4[of pkt] by (auto simp: rd32_def c_slice_def le32_to_cpu_def)
      then have nxt: "load_packets rt alloc s2 rest' (off + length pkt) = Some (s1, off1, rest1, t)"
        using "1.prems" r l True by (subst (asm) load_packets.simps) simp
      have IH: "off + length pkt \<le> off1 \<and> off1 - (off + length pkt) + length rest1 \<le> length rest' \<and>
          (\<forall>x. load_packets rt alloc s2 (take (off1 - (off + length pkt)) rest' @ x) (off + length pkt) =
            load_packets rt alloc s1 x off1)"
        using "1.IH"[OF r refl refl l refl _ len(1)] True nxt unfolding len(2) by blast
      have "length pkt \<le> off1 - off" "off1 - off - length pkt = off1 - (off + length pkt)" using IH by linarith+
      then have "take (off1 - off) rest @ x = pkt @ take (off1 - (off + length pkt)) rest' @ x" for x
        using cut(1) by simp
      then have "load_packets rt alloc s (take (off1 - off) rest @ x) off = load_packets rt alloc s1 x off1" for x
        using IH len l True by (subst load_packets.simps) (simp add: read_sendable[OF cut(2)])
      moreover have "off \<le> off1" "off1 - off + length rest1 \<le> length rest"
        using IH cut(1) by (simp_all, linarith)
      ultimately show ?thesis by blast
    qed
  qed
qed

text \<open>
  C38. When loading stops at a packet that is complete but not accepted, the file is cut off in front of
  it, but the descriptor stays where it is, behind the cut: the arguments of \<open>lseek\<close> are swapped.
  What is saved from then on follows a gap of zeroes, and the next start finds nothing behind the gap:
  it ends in the same state and cuts the file off at the same place.
\<close>

theorem truncation_loses_what_follows:
  assumes load: "load_packets rt alloc s fl 0 = Some (s1, off, rest, True)"
    and off: "4 < off" "off < 2 ^ 32" and gap: "off + 4 \<le> length fl - length rest"
    and chains: "check_chains rt s1 True = Some ()"
  shows "\<exists>pos. load_blocks rt alloc s fl = Some (s1, take off fl, pos) \<and>
    (\<forall>saved. \<exists>pos'. load_blocks rt alloc s (fst (write_at (take off fl) pos saved)) = Some (s1, take off fl, pos'))"
proof -
  define pos where "pos = length fl - length rest"
  have "lseek_swapped off pos off = pos" using off by (simp add: lseek_swapped_def)
  then have first: "load_blocks rt alloc s fl = Some (s1, take off fl, pos)"
    using load chains by (simp add: load_blocks_def pos_def)
  have lf: "length (take off fl) = off" using gap by simp
  have "\<exists>pos'. load_blocks rt alloc s (fst (write_at (take off fl) pos saved)) = Some (s1, take off fl, pos')" for saved
  proof -
    define x where "x = replicate (pos - off) 0 @ saved"
    have w: "fst (write_at (take off fl) pos saved) = take off fl @ x"
      using gap lf by (simp add: write_at_def x_def pos_def)
    have "4 \<le> pos - off" using gap by (simp add: pos_def)
    then have x: "take 4 x = replicate 4 0" "4 \<le> length x" by (simp_all add: x_def)
    have "le_nat (replicate n 0) = 0" for n by (induction n) simp_all
    then have "read_file_packet x io_read_packet = Some (None, drop 4 x)"
      using x by (simp add: read_file_packet_spec)
    then have "load_packets rt alloc s1 x off = Some (s1, off, drop 4 x, True)"
      using x by (simp add: load_packets.simps[of _ _ _ x])
    then have "load_packets rt alloc s (take off fl @ x) 0 = Some (s1, off, drop 4 x, True)"
      using load_prefix[OF load] by simp
    then show ?thesis unfolding w using chains lf by (simp add: load_blocks_def)
  qed
  then show ?thesis using first by blast
qed

subsection \<open>Examples\<close>

definition zero_runtime :: runtime where
  \<comment> \<open>every hash is zero, that of the genesis block\<close>
  "zero_runtime = ex_runtime\<lparr>rt_ssl := model_openssl\<lparr>SHA256 := \<lambda>_. replicate 32 0\<rparr>\<rparr>"

definition ex_file_block :: block where
  "ex_file_block = (ex_block 0 0)\<lparr>b_parts := (ex_chain_parts 0)\<lparr>bp_merkles := [replicate 32 0]\<rparr>\<rparr>"

definition ex_file_state :: state where
  "ex_file_state = (ex_state 0)\<lparr>st_heap := [0 \<mapsto> ex_file_block]\<rparr>"

lemma zero_digest: "SHA256_Double_Final (rt_ssl zero_runtime) bs = replicate 32 0"
  by (simp add: SHA256_Double_Final_def zero_runtime_def)

lemma zero_cmp: "BN_cmp (rt_ssl zero_runtime) = bn_cmp_spec"
  by (simp add: zero_runtime_def model_openssl_def)

lemma zero_root: "merkle_txs (rt_ssl zero_runtime) (new_block_shard 0 0) = Some (replicate 32 0)"
proof -
  have "merkle_recurse (rt_ssl zero_runtime) 0 0 (2 ^ 8) f = Some (mroot (SHA256_Double_Final (rt_ssl zero_runtime)) (\<lambda>_. replicate 32 0) 8 0)" for f
    by (rule merkle_recurse_mroot) simp_all
  moreover have "mroot (SHA256_Double_Final (rt_ssl zero_runtime)) (\<lambda>_. replicate 32 0) (Suc 7) 0 = replicate 32 0"
    by (simp only: mroot.simps zero_digest)
  ultimately show ?thesis by (simp add: merkle_txs_def merkle_some_txs_def new_block_shard_def)
qed

lemma ex_file_hash: "hash_block (rt_ssl zero_runtime) (b_parts ex_file_block) = Some (replicate 32 0)"
  by (simp add: hash_block_def ex_file_block_def ex_chain_parts_def zero_digest c_slice_def Let_def)

lemma nat_le_0: "nat_le n 0 = replicate n 0"
  by (induction n) simp_all

lemma ex_file_check_block: "check_block zero_runtime ex_file_state 0 True = Some ()"
proof -
  have b: "st_heap ex_file_state 0 = Some ex_file_block" "genesis_block ex_file_state = Some 0"
    by (simp_all add: ex_file_state_def genesis_block_def ex_state_def)
  have f: "b_sha ex_file_block = replicate 32 0" "b_prev ex_file_block = None" "num_shards (b_hdr ex_file_block) = 1"
    "b_shard ex_file_block = [new_block_shard 0 0]" "b_shard_nums ex_file_block = [0]" "b_merkles ex_file_block = [replicate 32 0]"
    by (simp_all add: ex_file_block_def ex_block_def ex_chain_parts_def num_shards_def nat_le_0)
  have "check_block_shard zero_runtime ex_file_state 0 (new_block_shard 0 0) = Some ()"
    using b f zero_root
    by (simp add: check_block_shard_def c_nth_def c_assert_def) (simp add: new_block_shard_def shard_all_hashes_def)
  then show ?thesis using b f ex_file_hash by (simp add: check_block_def c_nth_def c_assert_def)
qed

lemma ex_file_chains: "check_chains zero_runtime ex_file_state True = Some ()"
proof -
  have b: "st_heap ex_file_state 0 = Some ex_file_block" "genesis_block ex_file_state = Some 0" "st_block_depth ex_file_state = [[0]]"
    "st_longest_chains ex_file_state = [0]" "st_longest_knowns ex_file_state = [0]" "st_preferred_chain ex_file_state = 0"
    by (simp_all add: ex_file_state_def genesis_block_def ex_state_def)
  have f: "b_complaint ex_file_block = None" "b_children ex_file_block = []" "b_depth ex_file_block = 0"
    by (simp_all add: ex_file_block_def ex_block_def ex_chain_parts_def)
  have "check_chains_quick (rt_ssl zero_runtime) ex_file_state = Some ()"
    using b f by (simp add: check_chains_quick_def assert_same_work_def assert_no_complaint_def preferred_walk.simps c_nth_def c_assert_def)
  moreover have "check_level_block zero_runtime ex_file_state 0 0 (1, 0) = Some (0, 0)"
    using b f ex_file_check_block
    by (simp add: check_level_block_def c_nth_def c_assert_def cmp_work_def zero_cmp bn_cmp_spec_def)
  ultimately show ?thesis using b by (simp add: check_chains_def c_nth_def c_assert_def)
qed

definition ex_good_pkt :: bytes where
  \<comment> \<open>a transaction packet with an error code, which is accepted and does nothing\<close>
  "ex_good_pkt = cpu_to_le32 48 @ cpu_to_le32 PROTOCOL_PKT_TX_IN_BLOCK @ cpu_to_le32 (ecode_code PROTOCOL_ECODE_UNKNOWN_TX) @
     replicate 36 0"

definition ex_bad_pkt :: bytes where
  "ex_bad_pkt = cpu_to_le32 8 @ cpu_to_le32 PROTOCOL_PKT_ERR"

lemma ex_pkts:
  "sendable ex_good_pkt" "rd32 ex_good_pkt 0 = Some 48" "rd32 ex_good_pkt 4 = Some PROTOCOL_PKT_TX_IN_BLOCK"
  "rd32 ex_good_pkt 8 = Some (ecode_code PROTOCOL_ECODE_UNKNOWN_TX)" "length ex_good_pkt = 48"
  "sendable ex_bad_pkt" "rd32 ex_bad_pkt 4 = Some PROTOCOL_PKT_ERR" "length ex_bad_pkt = 8"
proof -
  have l: "length (cpu_to_le32 w) = 4" for w by (simp add: cpu_to_le32_def)
  show lg: "length ex_good_pkt = 48" and lb: "length ex_bad_pkt = 8" by (simp_all add: ex_good_pkt_def ex_bad_pkt_def l)
  have t: "take 4 ex_good_pkt = nat_le 4 48" "take 4 ex_bad_pkt = nat_le 4 8"
    by (simp_all add: ex_good_pkt_def ex_bad_pkt_def cpu_to_le32_def)
  show "sendable ex_good_pkt" "sendable ex_bad_pkt"
    unfolding sendable_def lg lb t by (simp_all add: PROTOCOL_MAX_PACKET_LEN_def)
  have r: "rd32 (cpu_to_le32 a @ cs) 0 = Some a" "rd32 (cpu_to_le32 a @ cpu_to_le32 b @ cs) 4 = Some b"
    "rd32 (cpu_to_le32 a @ cpu_to_le32 b @ cpu_to_le32 c @ cs) 8 = Some c" for a b c cs
  proof -
    show "rd32 (cpu_to_le32 a @ cs) 0 = Some a" using rd32_append[of 0 "[]"] by simp
    show "rd32 (cpu_to_le32 a @ cpu_to_le32 b @ cs) 4 = Some b" by (rule rd32_append) (simp add: l)
    show "rd32 (cpu_to_le32 a @ cpu_to_le32 b @ cpu_to_le32 c @ cs) 8 = Some c"
      using rd32_append[of 8 "cpu_to_le32 a @ cpu_to_le32 b" c cs] by (simp add: l)
  qed
  show "rd32 ex_good_pkt 0 = Some 48" "rd32 ex_good_pkt 4 = Some PROTOCOL_PKT_TX_IN_BLOCK"
    "rd32 ex_good_pkt 8 = Some (ecode_code PROTOCOL_ECODE_UNKNOWN_TX)" "rd32 ex_bad_pkt 4 = Some PROTOCOL_PKT_ERR"
    using r(2)[of 8 PROTOCOL_PKT_ERR "[]"] unfolding ex_good_pkt_def ex_bad_pkt_def by (simp_all add: r)
qed

lemma ex_good_loads: "load_packet zero_runtime alloc s ex_good_pkt = Some (True, s)"
proof -
  have "ecode_code PROTOCOL_ECODE_UNKNOWN_TX \<noteq> 0" "ecode_code PROTOCOL_ECODE_UNKNOWN_TX \<noteq> ecode_code PROTOCOL_ECODE_UNKNOWN_BLOCK"
    by (simp_all add: ecode_code_def all_ecodes_def)
  then have "recv_tx_from_blockfile zero_runtime s ex_good_pkt = Some (PROTOCOL_ECODE_NONE, s)"
    using ex_pkts(5)
    by (simp add: recv_tx_from_blockfile_def recv_tx_in_block_def ex_pkts recv_tx_error_def Let_def c_slice_def)
  then show ?thesis
    by (simp add: load_packet_def ex_pkts load_tx_in_block_def PROTOCOL_PKT_TX_IN_BLOCK_def PROTOCOL_PKT_BLOCK_def)
qed

lemma ex_bad_loads: "load_packet zero_runtime alloc s ex_bad_pkt = Some (False, s)"
  by (simp add: load_packet_def ex_pkts PROTOCOL_PKT_TX_IN_BLOCK_def PROTOCOL_PKT_BLOCK_def PROTOCOL_PKT_ERR_def)

theorem truncation_loses_what_follows_witness:
  "\<exists>pos. load_blocks zero_runtime (\<lambda>_. 1) ex_file_state (ex_good_pkt @ ex_bad_pkt) = Some (ex_file_state, ex_good_pkt, pos) \<and>
    (\<forall>saved. \<exists>pos'. load_blocks zero_runtime (\<lambda>_. 1) ex_file_state (fst (write_at ex_good_pkt pos saved)) =
      Some (ex_file_state, ex_good_pkt, pos'))"
proof -
  have "load_packets zero_runtime (\<lambda>_. 1) ex_file_state ex_bad_pkt 48 = Some (ex_file_state, 48, [], True)"
    using read_sendable[OF ex_pkts(6), of "[]"] by (simp add: load_packets.simps[of _ _ _ ex_bad_pkt] ex_bad_loads)
  then have "load_packets zero_runtime (\<lambda>_. 1) ex_file_state (ex_good_pkt @ ex_bad_pkt) 0 = Some (ex_file_state, 48, [], True)"
    by (simp add: load_packets.simps[of _ _ _ "ex_good_pkt @ ex_bad_pkt"] read_sendable[OF ex_pkts(1)] ex_good_loads ex_pkts)
  from truncation_loses_what_follows[OF this _ _ _ ex_file_chains] show ?thesis by (simp add: ex_pkts)
qed

lemma ex_storable: "storable ex_parts"
  using ex_wf(5-8) by (simp add: storable_def block_bytes_len_def ex_parts_def PROTOCOL_MAX_PACKET_LEN_def)

theorem saved_block_is_loaded_witness:
  "\<exists>pkt. save_block (Some (ex_good_pkt, 48)) ((ex_block 0 1)\<lparr>b_parts := ex_parts\<rparr>) = Some (Some (ex_good_pkt @ pkt, 48 + length pkt)) \<and>
    load_packets zero_runtime (\<lambda>_. 1) ex_file_state (pkt @ ex_bad_pkt) 48 =
      do { (e, prev, sha) \<leftarrow> check_block_header zero_runtime ex_file_state ex_parts;
           if e \<noteq> PROTOCOL_ECODE_NONE then Some (ex_file_state, 48, ex_bad_pkt, True)
           else do {
             p \<leftarrow> prev; x \<leftarrow> sha;
             s1 \<leftarrow> block_add zero_runtime ex_file_state 1 p x ex_parts;
             load_packets zero_runtime (\<lambda>_. 1) s1 ex_bad_pkt (48 + length pkt) } }"
proof -
  let ?b = "(ex_block 0 1)\<lparr>b_parts := ex_parts\<rparr>"
  have bp: "b_parts ?b = ex_parts" by simp
  obtain pkt where p: "save_block (Some (ex_good_pkt, 48)) ?b = Some (Some (ex_good_pkt @ pkt, length (ex_good_pkt @ pkt)))"
    "\<And>rt alloc s rest off. load_packets rt alloc s (pkt @ rest) off =
      do { (e, prev, sha) \<leftarrow> check_block_header rt s ex_parts;
           if e \<noteq> PROTOCOL_ECODE_NONE then Some (s, off, rest, True)
           else do {
             p \<leftarrow> prev; x \<leftarrow> sha;
             s1 \<leftarrow> block_add rt s (alloc s) p x ex_parts;
             load_packets rt alloc s1 rest (off + length pkt) } }"
    using saved_block_is_loaded[of ?b ex_good_pkt] ex_storable unfolding bp ex_pkts(5) by blast
  show ?thesis using p(1) p(2)[of zero_runtime "\<lambda>_. 1" ex_file_state ex_bad_pkt 48]
    by (intro exI[of _ pkt] conjI) (simp_all only: length_append ex_pkts(5))
qed

end
