(* ===== verification/History.thy ===== *)
theory History
  imports Shard_exchange Blockfile
begin

text \<open>
  What becomes of the block store while the daemon runs. Every handler changes the store through a
  few steps only: it marks a block as completely known, fills a slot of a shard, keeps or drops
  proofs, marks a block and its descendents with a complaint, or links a new block. The locale
  \<open>store_steps\<close> names a property of states that these steps keep, and shows once and for all that
  every packet, every block of the generator and every entry of the block file keeps it. The theory
  interprets it for the history of every block and for the shape of the block tree.
\<close>

section \<open>What leaves the block store alone\<close>

definition same_store :: "state \<Rightarrow> state \<Rightarrow> bool" where
  "same_store s s' \<longleftrightarrow> st_heap s' = st_heap s \<and> st_block_depth s' = st_block_depth s"

lemma same_store_refl [simp, intro]: "same_store s s"
  by (simp add: same_store_def)

lemma same_store_trans [trans]: "same_store s s' \<Longrightarrow> same_store s' s'' \<Longrightarrow> same_store s s''"
  by (simp add: same_store_def)

lemma same_store_upd [simp, intro]:
  "same_store s (s\<lparr>st_pending := p\<rparr>)" "same_store s (s\<lparr>st_longest_chains := c\<rparr>)" "same_store s (s\<lparr>st_longest_knowns := c\<rparr>)"
  "same_store s (s\<lparr>st_preferred_chain := b\<rparr>)" "same_store s (s\<lparr>st_txhash := th\<rparr>)" "same_store s (s\<lparr>st_inputhash := ih\<rparr>)"
  "same_store s (s\<lparr>st_out := out\<rparr>)" "same_store s (emit x s)" "same_store s (s\<lparr>st_upcoming_features := f\<rparr>)"
  "same_store s (add_to_unknown_pending s tx)" "same_store s (add_txhash_to_hashes s b sh off hash)"
  "same_store s (todo_forget_about_block s blk)"
  by (simp_all add: same_store_def emit_def add_to_unknown_pending_def add_txhash_to_hashes_def todo_forget_about_block_def)

lemma todo_store: "only_todo s s' \<Longrightarrow> same_store s s'"
  by (auto simp: only_todo_def same_store_def)

lemma ofold_store:
  assumes "\<And>x s s'. f x s = Some s' \<Longrightarrow> same_store s s'" "ofold f xs s = Some s'"
  shows "same_store s s'"
  by (rule ofold_keeps[where I = "same_store s", OF _ same_store_refl assms(2)]) (blast intro: assms(1) same_store_trans)

text \<open>The tables and the pending transactions.\<close>

lemma hash_stores:
  "upgrade_tx_in_hashes rt s sha tx = Some s' \<Longrightarrow> same_store s s'"
  "add_tx_to_hashes rt s b sh off tx = Some s' \<Longrightarrow> same_store s s'"
  "remove_tx_from_hashes rt s b sh off = Some s' \<Longrightarrow> same_store s s'"
  "add_pending_tx_to_hashes rt s tx = Some s' \<Longrightarrow> same_store s s'"
  "remove_pending_tx_from_hashes rt s tx = Some s' \<Longrightarrow> same_store s s'"
  by (auto simp: upgrade_tx_in_hashes_def add_tx_to_hashes_def remove_tx_from_hashes_def add_pending_tx_to_hashes_def
      remove_pending_tx_from_hashes_def add_txhash_to_hashes_def same_store_def Let_def bind_eq_Some_conv
      split: if_splits option.splits txslot.splits)

lemma insert_pending_store: "insert_pending_tx rt s tx = Some (ok, s') \<Longrightarrow> same_store s s'"
  by (auto simp: insert_pending_tx_def add_to_unknown_pending_def same_store_def Let_def bind_eq_Some_conv
      split: option.splits if_splits)

lemma add_pending_store: "add_pending_tx rt s tx sha = Some (e, bad, old, s') \<Longrightarrow> same_store s s'"
  by (auto simp: add_pending_tx_def bind_eq_Some_conv split: if_splits
      dest!: insert_pending_store hash_stores intro: same_store_trans[OF same_store_upd(10)] same_store_trans)

lemma readd_store: "readd_all rt s txs = Some s' \<Longrightarrow> same_store s s'"
  by (induction txs arbitrary: s) (auto simp: bind_eq_Some_conv dest!: add_pending_store intro: same_store_trans)

lemma unhash_all_store: "unhash_all rt s txs = Some s' \<Longrightarrow> same_store s s'"
  by (induction txs arbitrary: s) (auto simp: bind_eq_Some_conv dest!: hash_stores intro: same_store_trans)

lemma recheck_store: "recheck_pending_txs rt s = Some s' \<Longrightarrow> same_store s s'"
  by (auto simp: recheck_pending_txs_def Let_def bind_eq_Some_conv same_store_def split: if_splits
      dest!: readd_store unhash_all_store)

lemma drop_pending_store: "drop_pending_tx rt s tx = Some s' \<Longrightarrow> same_store s s'"
  by (auto simp: drop_pending_tx_def remove_pending_tx_def Let_def bind_eq_Some_conv same_store_def split: if_splits)

lemma shard_to_pending_store: "shard_to_pending s sh n = Some s' \<Longrightarrow> same_store s s'"
  by (induction n arbitrary: s')
    (auto simp: bind_eq_Some_conv Let_def add_to_unknown_pending_def same_store_def split: option.splits)

lemma block_to_pending_store: "block_to_pending s b = Some s' \<Longrightarrow> same_store s s'"
proof -
  have "shards_to_pending s b n = Some s' \<Longrightarrow> same_store s s'" for n s'
    by (induction n arbitrary: s') (auto simp: bind_eq_Some_conv dest!: shard_to_pending_store intro: same_store_trans)
  then show "block_to_pending s b = Some s' \<Longrightarrow> same_store s s'" by (simp add: block_to_pending_def)
qed

lemma unhash_block_store: "unhash_block rt block bb s = Some s' \<Longrightarrow> same_store s s'"
  unfolding unhash_block_def
  by (erule ofold_store[rotated]) (auto elim!: bind_SomeE ofold_store[rotated] dest!: hash_stores)

text \<open>The chain arrays.\<close>

lemma chain_stores:
  "update_preferred_chain ssl s = Some (x, s') \<Longrightarrow> same_store s s'"
  "order_block_pointers s = Some (x, s') \<Longrightarrow> same_store s s'"
proof -
  show "update_preferred_chain ssl s = Some (x, s') \<Longrightarrow> same_store s s'"
    by (auto simp: update_preferred_chain_def bind_eq_Some_conv split: if_splits)
  assume o: "order_block_pointers s = Some (x, s')"
  then obtain r where r: "find_connected_pair s = Some r" by (auto simp: order_block_pointers_def bind_eq_Some_conv)
  show "same_store s s'"
  proof (cases r)
    case (Some p)
    then show ?thesis using o r by (cases p) (auto simp: order_block_pointers_def bind_eq_Some_conv same_store_def split: if_splits)
  qed (use o r in \<open>auto simp: order_block_pointers_def\<close>)
qed

lemma new_longest_store: "new_longest ssl s b = Some s' \<Longrightarrow> same_store s s'"
  by (auto simp: new_longest_def bind_eq_Some_conv Let_def same_store_def split: if_splits dest!: chain_stores)

lemma steal_loop_store:
  assumes "steal_loop stop b s = Some s'"
  shows "same_store s s'"
  using assms
proof (rule steal_loop.raw_induct[where P = "\<lambda>stop b s s'. same_store s s'", rotated])
  fix loop and stop b :: "bptr option" and s s'
  assume ih: "\<And>(stop :: bptr option) (b :: bptr option) s s'. loop stop b s = Some s' \<Longrightarrow> same_store s s'"
  assume "(if b = stop then Some s else do { p \<leftarrow> b; bb \<leftarrow> st_heap s p; s1 \<leftarrow> block_to_pending s bb; loop stop (b_prev bb) s1 }) = Some s'"
  then show "same_store s s'"
    by (auto simp: bind_eq_Some_conv split: if_splits dest!: ih block_to_pending_store intro: same_store_trans)
qed

lemma steal_pending_store: "steal_pending_txs s old new = Some s' \<Longrightarrow> same_store s s'"
  by (auto simp: steal_pending_txs_def bind_eq_Some_conv split: option.splits dest!: steal_loop_store)

text \<open>Sending.\<close>

lemma ofold_todo:
  assumes "\<And>x s s'. f x s = Some s' \<Longrightarrow> only_todo s s'" "ofold f xs s = Some s'"
  shows "only_todo s s'"
  by (rule ofold_keeps[where I = "only_todo s", OF _ only_todo_refl assms(2)]) (blast intro: assms(1) only_todo_trans)

lemma send_interested_frame: "send_to_interested_peers ssl s ex tx other pkt = Some s' \<Longrightarrow> only_todo s s'"
  unfolding send_to_interested_peers_def
  by (erule ofold_todo[rotated]) (auto simp: bind_eq_Some_conv split: if_splits dest!: todo_for_peer_frame)

lemma send_frames:
  "send_tx_to_peers ssl s ex tx = Some s' \<Longrightarrow> only_todo s s'"
  "send_tx_in_block_to_peers ssl s ex b sh off = Some s' \<Longrightarrow> only_todo s s'"
  "send_block_to_peers s ex b = Some s' \<Longrightarrow> only_todo s s'"
  "broadcast_to_peers s pkt ex = Some s' \<Longrightarrow> only_todo s s'"
proof -
  show "send_block_to_peers s ex b = Some s' \<Longrightarrow> only_todo s s'"
    unfolding send_block_to_peers_def
    by (erule ofold_todo[rotated]) (auto simp: bind_eq_Some_conv split: if_splits dest!: todo_for_peer_frame)
  show "broadcast_to_peers s pkt ex = Some s' \<Longrightarrow> only_todo s s'"
    unfolding broadcast_to_peers_def
    by (erule ofold_todo[rotated]) (auto simp: bind_eq_Some_conv split: if_splits dest!: todo_for_peer_frame)
qed (auto simp: send_tx_to_peers_def send_tx_in_block_to_peers_def bind_eq_Some_conv dest!: send_interested_frame)

text \<open>A block that could be unmarshalled.\<close>

lemma unmarshal_block_wf:
  assumes "pkt_ok pkt" "unmarshal_block pkt = Some (Inr parts)"
  shows "wf_block_parts parts"
proof -
  let ?sz = "ucast (word_of_nat (length pkt) :: u32) - 12 :: size_t"
  have u: "unmarshal_block_into ?sz (drop 12 pkt) = Some (Inr parts)"
    using assms rd32_pkt[OF assms(1)] by (simp add: unmarshal_block_def)
  have n: "unat (ucast (word_of_nat (length pkt) :: u32) :: size_t) = length pkt"
    using unat_pkt_len[OF assms(1)] by (simp add: unsigned_ucast_eq take_bit_nat_eq_self assms(1)[unfolded pkt_ok_def])
  have "76 \<le> length (drop 12 pkt)"
    using u by (auto simp: unmarshal_block_into_def c_slice_def elim!: bind_SomeE split: if_splits)
  then have "length (drop 12 pkt) = unat ?sz" using n by (simp add: unat_sub word_le_nat_alt)
  then show ?thesis using unmarshal_block_into_spec[of "drop 12 pkt" ?sz] u by auto
qed

text \<open>The end of \<open>put_tx_in_shard\<close>, once the slot has been filled.\<close>

definition after_put ::
    "runtime \<Rightarrow> nat option \<Rightarrow> bptr \<Rightarrow> nat \<Rightarrow> action \<Rightarrow> u16 \<Rightarrow> u8 \<Rightarrow> protocol_tx \<Rightarrow> state \<Rightarrow> state option" where
  "after_put rt source p i x num off tx s2 =
     do { s3 \<leftarrow> check_resolved_txs rt s2 tx;
          bb3 \<leftarrow> st_heap s3 p;
          sh3 \<leftarrow> c_nth (b_shard bb3) i;
          s4 \<leftarrow> (if shard_all_hashes sh3 then upd_shard s3 p i (sh3\<lparr>bs_proof := None\<rparr>) else Some s3);
          s5 \<leftarrow> (if shard_all_known sh3 then update_block_ptrs_new_shard (rt_ssl rt) s4 p else Some s4);
          let s6 = emit x (s5\<lparr>st_pending := (st_pending s5)\<lparr>pb_needs_recheck := True\<rparr>\<rparr>);
          s7 \<leftarrow> send_tx_in_block_to_peers (rt_ssl rt) s6 source p num off;
          bb7 \<leftarrow> st_heap s7 p;
          sh7 \<leftarrow> c_nth (b_shard bb7) i;
          check_block_shard rt s7 p sh7;
          Some s7 }"

lemma put_tx_in_shard_eq:
  "put_tx_in_shard rt s source p shardnum txoff txp =
     do { bb \<leftarrow> st_heap s p;
          sh \<leftarrow> c_nth (b_shard bb) (unat shardnum);
          slot \<leftarrow> c_nth (bs_u sh) (unat txoff);
          (case slot of
             Txp (Some old) \<Rightarrow> do {
               c_assert (enc_tx (fst txp) @ concat (map enc_ref (snd txp)) = enc_tx (fst old) @ concat (map enc_ref (snd old)));
               Some s }
           | _ \<Rightarrow> do {
               (s1, sh1) \<leftarrow> (case slot of
                   Txp _ \<Rightarrow> map_option (\<lambda>s1. (s1, sh)) (add_tx_to_hashes rt s p (bs_shardnum sh) txoff (fst txp))
                 | Hash h \<Rightarrow> do {
                     hashes \<leftarrow> hash_tx_and_refs (rt_ssl rt) (fst txp) (snd txp);
                     c_assert (h = hashes);
                     s1 \<leftarrow> upgrade_tx_in_hashes rt s (trh_txhash hashes) (fst txp);
                     Some (s1, sh\<lparr>bs_hashcount := bs_hashcount sh - 1\<rparr>) });
               s2 \<leftarrow> upd_shard s1 p (unat shardnum) (set_tx_slot sh1 txoff txp);
               after_put rt source p (unat shardnum) (Save_tx p (bs_shardnum sh) txoff) (bs_shardnum sh) txoff (fst txp) s2 }) }"
  unfolding put_tx_in_shard_def after_put_def ..

section \<open>The steps that change the block store\<close>

locale store_steps =
  fixes rt :: runtime and I :: "state \<Rightarrow> bool"
  assumes outside: "same_store s s' \<Longrightarrow> I s \<Longrightarrow> I s'"
    and known_step: "st_heap s b = Some bb \<Longrightarrow> I s \<Longrightarrow> I (s\<lparr>st_heap := (st_heap s)(b \<mapsto> bb\<lparr>b_all_known := True\<rparr>)\<rparr>)"
    and tx_step: "st_heap s p = Some bb \<Longrightarrow> b_shard bb ! i = sh \<Longrightarrow> unat off < length (bs_u sh) \<Longrightarrow>
      bs_u sh ! unat off = Txp None \<Longrightarrow> upd_shard s p i (set_tx_slot sh off txp) = Some s' \<Longrightarrow> I s \<Longrightarrow> I s'"
    and upgrade_step: "st_heap s p = Some bb \<Longrightarrow> b_shard bb ! i = sh \<Longrightarrow> unat off < length (bs_u sh) \<Longrightarrow>
      bs_u sh ! unat off = Hash h \<Longrightarrow> hash_tx_and_refs (rt_ssl rt) (fst txp) (snd txp) = Some h \<Longrightarrow>
      upd_shard s p i (set_tx_slot (sh\<lparr>bs_hashcount := bs_hashcount sh - 1\<rparr>) off txp) = Some s' \<Longrightarrow> I s \<Longrightarrow> I s'"
    and hash_step: "st_heap s p = Some bb \<Longrightarrow> b_shard bb ! i = sh \<Longrightarrow> unat off < length (bs_u sh) \<Longrightarrow>
      bs_u sh ! unat off = Txp None \<Longrightarrow> upd_shard s p i (set_hash_slot sh off h) = Some s' \<Longrightarrow> I s \<Longrightarrow> I s'"
    and proof_step: "st_heap s p = Some bb \<Longrightarrow> b_shard bb ! i = sh \<Longrightarrow>
      upd_shard s p i (sh\<lparr>bs_proof := prfs\<rparr>) = Some s' \<Longrightarrow> I s \<Longrightarrow> I s'"
    and complaint_step: "complaint_on_all rt c b s = Some s' \<Longrightarrow> I s \<Longrightarrow> I s'"
    and link_step: "check_block_header rt s0 parts = Some (PROTOCOL_ECODE_NONE, Some p, Some x) \<Longrightarrow> same_store s0 s \<Longrightarrow>
      wf_block_parts parts \<Longrightarrow> st_heap s new = None \<Longrightarrow> link_block rt s new p x parts = Some s' \<Longrightarrow> I s \<Longrightarrow> I s'"
begin

lemma outside_iff: "same_store s s' \<Longrightarrow> I s' = I s"
  using outside[of s s'] outside[of s' s] by (auto simp: same_store_def)

lemmas todo_iff = outside_iff[OF todo_store]

lemmas store_iffs = hash_stores[THEN outside_iff] add_pending_store[THEN outside_iff] recheck_store[THEN outside_iff]
  drop_pending_store[THEN outside_iff] chain_stores[THEN outside_iff] new_longest_store[THEN outside_iff]
  steal_pending_store[THEN outside_iff]

lemmas todo_iffs = todo_done_frames[THEN todo_iff] todo_done_children_frame[THEN todo_iff] todo_for_peer_frame[THEN todo_iff]
  upd_peer_frame[THEN todo_iff] send_frames[THEN todo_iff]

lemma I_upd [simp]:
  "I (s\<lparr>st_pending := pb\<rparr>) = I s" "I (s\<lparr>st_longest_chains := c\<rparr>) = I s" "I (s\<lparr>st_longest_knowns := c\<rparr>) = I s"
  "I (s\<lparr>st_preferred_chain := b\<rparr>) = I s"
  "I (emit x s) = I s" "I (add_txhash_to_hashes s b sh off hash) = I s" "I (todo_forget_about_block s blk) = I s"
  "I (todo_add_get_block s blk) = I s" "I (todo_add_get_children s blk) = I s" "I (todo_add_get_shard s blk shard) = I s"
  "I (todo_add_get_txmap s blk shard) = I s" "I (todo_add_get_tx_in_block s blk shard txoff) = I s" "I (todo_add_get_tx s txhash) = I s"
  by (rule outside_iff, simp add: same_store_def emit_def add_txhash_to_hashes_def todo_forget_about_block_def
      todo_add_get_block_def todo_add_get_children_def todo_add_get_shard_def todo_add_get_txmap_def
      todo_add_get_tx_in_block_def todo_add_get_tx_def new_todo_request_def Let_def)+

lemma ofold_I:
  assumes "\<And>x s s'. x \<in> set xs \<Longrightarrow> f x s = Some s' \<Longrightarrow> I s \<longrightarrow> I s'"
  shows "ofold f xs s = Some s' \<Longrightarrow> I s \<longrightarrow> I s'"
  using ofold_keeps[of xs I f s s'] assms by blast

text \<open>The chain.\<close>

lemma update_known_recursive_I:
  assumes "update_known_recursive ssl b s = Some r"
  shows "I s \<longrightarrow> I (snd r)"
  using assms
proof (rule update_known_recursive.raw_induct[where P = "\<lambda>ssl b s r. I s \<longrightarrow> I (snd r)", rotated])
  fix rec ssl block s r
  assume ih: "\<And>ssl b s r. rec ssl b s = Some r \<Longrightarrow> I s \<longrightarrow> I (snd r)"
    and step: "(do { bb \<leftarrow> st_heap s block;
        prev_known \<leftarrow> (case b_prev bb of None \<Rightarrow> Some True | Some p \<Rightarrow> do { pb \<leftarrow> st_heap s p; Some (b_all_known pb) });
        if \<not> prev_known then Some (False, s)
        else do {
          known \<leftarrow> block_all_known bb;
          if \<not> known then Some (False, s)
          else do {
            let s1 = (if \<not> b_all_known bb then s\<lparr>st_heap := (st_heap s)(block \<mapsto> bb\<lparr>b_all_known := True\<rparr>)\<rparr> else s);
            if b_complaint bb \<noteq> None then Some (False, s1)
            else do {
              k0 \<leftarrow> c_nth (st_longest_knowns s1) 0;
              c \<leftarrow> cmp_work ssl (st_heap s1) block k0;
              ks \<leftarrow> add_best ssl (st_heap s1) block (st_longest_knowns s1);
              ofold (\<lambda>b r. do { (changed, s2) \<leftarrow> rec ssl b (snd r); Some (changed \<or> fst r, s2) })
                (b_children bb) (c \<noteq> -1, s1\<lparr>st_longest_knowns := ks\<rparr>) } } } }) = Some r"
  have loop: "ofold (\<lambda>b r. do { (changed, s2) \<leftarrow> rec ssl b (snd r); Some (changed \<or> fst r, s2) }) bs r0 = Some r1 \<Longrightarrow>
      I (snd r0) \<longrightarrow> I (snd r1)" for bs r0 r1
    by (induction bs arbitrary: r0) (auto simp: bind_eq_Some_conv dest!: ih)
  from step show "I s \<longrightarrow> I (snd r)"
    using known_step by (auto simp: bind_eq_Some_conv Let_def split: if_splits dest!: loop)
qed

lemma update_known_I: "update_known ssl s b = Some (x, s') \<Longrightarrow> I s \<longrightarrow> I s'"
  by (auto simp: update_known_def bind_eq_Some_conv Let_def split: if_splits dest!: update_known_recursive_I store_iffs)

lemma new_block_I: "update_block_ptrs_new_block ssl s b = Some s' \<Longrightarrow> I s \<longrightarrow> I s'"
  by (auto simp: update_block_ptrs_new_block_def bind_eq_Some_conv split: if_splits dest!: update_known_I store_iffs)

lemma new_shard_I: "update_block_ptrs_new_shard ssl s b = Some s' \<Longrightarrow> I s \<longrightarrow> I s'"
  by (auto simp: update_block_ptrs_new_shard_def bind_eq_Some_conv split: if_splits dest!: update_known_I)

lemma forget_about_all_I:
  assumes "forget_about_all b s = Some s'"
  shows "I s \<longrightarrow> I s'"
  using assms
proof (rule forget_about_all.raw_induct[where P = "\<lambda>b s s'. I s \<longrightarrow> I s'", rotated])
  fix rec block s s'
  assume ih: "\<And>b s s'. rec b s = Some s' \<Longrightarrow> I s \<longrightarrow> I s'"
    and step: "(do { bb \<leftarrow> st_heap s block; ofold (\<lambda>b s. rec b s) (b_children bb) (todo_forget_about_block s (b_sha bb)) }) = Some s'"
  then show "I s \<longrightarrow> I s'" by (auto simp: bind_eq_Some_conv dest!: ofold_I[rotated])
qed

lemma invalidated_I: "update_block_ptrs_invalidated ssl s b = Some s' \<Longrightarrow> I s \<longrightarrow> I s'"
  by (auto simp: update_block_ptrs_invalidated_def bind_eq_Some_conv Let_def dest!: update_known_I forget_about_all_I)

text \<open>Complaints.\<close>

lemma publish_I: "publish_complaint rt s b c origin = Some s' \<Longrightarrow> I s \<longrightarrow> I s'"
  by (auto simp: publish_complaint_def bind_eq_Some_conv split: if_splits
      dest!: complaint_step invalidated_I store_iffs todo_iffs)

lemma complain_Is:
  "complain_bad_input rt s b prf tx refs n intx = Some s' \<Longrightarrow> I s \<longrightarrow> I s'"
  "complain_bad_amount rt s b prf tx refs intxs = Some s' \<Longrightarrow> I s \<longrightarrow> I s'"
  "complain_misorder rt s b prf tx refs conf = Some s' \<Longrightarrow> I s \<longrightarrow> I s'"
  "complain_bad_input_ref rt s b prf tx refs n rb = Some s' \<Longrightarrow> I s \<longrightarrow> I s'"
  "complain_doublespend rt s b1 i1 prf1 tx1 refs1 b2 i2 prf2 tx2 refs2 = Some s' \<Longrightarrow> I s \<longrightarrow> I s'"
  "complain_bad_claim rt s b prf tx refs rb rs ro = Some s' \<Longrightarrow> I s \<longrightarrow> I s'"
  by (auto simp: complain_bad_input_def complain_bad_amount_def complain_misorder_def complain_bad_input_ref_def
      complain_doublespend_def complain_bad_claim_def Let_def bind_eq_Some_conv split: if_splits dest!: publish_I)

text \<open>Checking transactions in blocks, and putting them there.\<close>

lemma input_complaint_Is:
  "bad_input_complaint rt s b prf tx refs bad = Some s' \<Longrightarrow> I s \<longrightarrow> I s'"
  "bad_amount_complaint rt s b prf tx refs = Some s' \<Longrightarrow> I s \<longrightarrow> I s'"
  "doublespend_complaint rt s b prf tx refs bad = Some (good, s') \<Longrightarrow> I s \<longrightarrow> I s'"
  "bad_claim_complaint rt s b prf tx refs = Some s' \<Longrightarrow> I s \<longrightarrow> I s'"
  by (auto simp: bad_input_complaint_def bad_amount_complaint_def doublespend_complaint_def bad_claim_complaint_def
      elim!: bind_SomeE split: if_splits dest!: complain_Is)

lemma check_tx_inputs_and_refs_I:
  assumes "check_tx_inputs_and_refs rt s b prf tx refs = Some (good, s')"
  shows "I s \<longrightarrow> I s'"
proof -
  obtain ierr bad where "check_tx_inputs rt s b None tx = Some (ierr, bad)"
    using assms unfolding check_tx_inputs_and_refs_def by (elim bind_SomeE) auto
  moreover obtain bb where "st_heap s b = Some bb"
    using assms unfolding check_tx_inputs_and_refs_def by (auto elim!: bind_SomeE)
  ultimately show ?thesis
    using assms
    by (cases ierr) (auto simp: check_tx_inputs_and_refs_def elim!: bind_SomeE split: if_splits ref_ecode.splits
      dest!: input_complaint_Is complain_Is)
qed

lemma recheck_tx_elems_I: "recheck_tx_elems rt tes s = Some (good, s') \<Longrightarrow> I s \<longrightarrow> I s'"
proof (induction tes arbitrary: s)
  case (Cons te tes)
  then show ?case
    by (auto simp: bind_eq_Some_conv split: txhash_block_or_tx.splits if_splits dest!: check_tx_inputs_and_refs_I dest: Cons.IH)
qed simp

lemma recheck_users_I: "recheck_users rt ies s = Some (good, s') \<Longrightarrow> I s \<longrightarrow> I s'"
  by (induction ies arbitrary: s) (auto simp: recheck_tx_def bind_eq_Some_conv split: if_splits dest!: recheck_tx_elems_I)

lemma resolved_output_I:
  assumes "resolved_output rt key s = Some s'"
  shows "I s \<longrightarrow> I s'"
proof -
  have "rt = rt \<longrightarrow> I s \<longrightarrow> I s'"
    using assms
  proof (rule resolved_output.raw_induct[where P = "\<lambda>rt' key s s'. rt' = rt \<longrightarrow> I s \<longrightarrow> I s'", rotated])
    fix rec rt' key s s'
    assume ih: "\<And>rt' key s s'. rec rt' key s = Some s' \<Longrightarrow> rt' = rt \<longrightarrow> I s \<longrightarrow> I s'"
      and step: "(do { (fin, s1) \<leftarrow> recheck_users rt' (inputhash_vals rt' (st_inputhash s) key) s;
         if fin then Some s1 else rec rt' key s1 }) = Some s'"
    then show "rt' = rt \<longrightarrow> I s \<longrightarrow> I s'"
      by (auto simp: bind_eq_Some_conv split: if_splits dest!: recheck_users_I dest: ih)
  qed
  then show ?thesis by simp
qed

lemma check_resolved_I: "check_resolved_txs rt s tx = Some s' \<Longrightarrow> I s \<longrightarrow> I s'"
  by (auto simp: check_resolved_txs_def bind_eq_Some_conv dest!: ofold_I[rotated] resolved_output_I)

lemma put_txhash_I:
  assumes "put_txhash_in_shard rt s p i off h = Some (fresh, s')"
  shows "I s \<longrightarrow> I s'"
proof
  assume I: "I s"
  from assms obtain bb sh old where bb: "st_heap s p = Some bb" "c_nth (b_shard bb) (unat i) = Some sh"
      "txrefhash_in_shard (rt_ssl rt) sh off = Some old"
    by (auto simp: put_txhash_in_shard_def bind_eq_Some_conv)
  show "I s'"
  proof (cases old)
    case None
    then have slot: "unat off < length (bs_u sh)" "bs_u sh ! unat off = Txp None"
      using bb(3) by (auto simp: txrefhash_in_shard_def bind_eq_Some_conv c_nth_def split: if_splits txslot.splits option.splits)
    obtain s1 where "upd_shard s p (unat i) (set_hash_slot sh off h) = Some s1" and s': "I s' = I s1"
      using assms bb None by (auto simp: put_txhash_in_shard_def bind_eq_Some_conv Let_def)
    then show ?thesis using hash_step[OF bb(1) _ slot _ I] bb(2) by (auto simp: c_nth_def split: if_splits)
  qed (use assms bb I in \<open>auto simp: put_txhash_in_shard_def bind_eq_Some_conv split: if_splits\<close>)
qed

lemma put_proof_I: "put_proof_in_shard s p prf = Some s' \<Longrightarrow> I s \<longrightarrow> I s'"
  by (auto simp: put_proof_in_shard_def Let_def bind_eq_Some_conv c_nth_def split: if_splits dest!: proof_step[OF _ refl])

lemma after_put_I: "after_put rt source p i x num off tx s2 = Some s' \<Longrightarrow> I s2 \<longrightarrow> I s'"
  unfolding after_put_def
  by (auto simp: c_nth_def elim!: bind_SomeE split: if_splits dest!: check_resolved_I proof_step[OF _ refl] new_shard_I todo_iffs)

lemma put_tx_I:
  assumes "put_tx_in_shard rt s source p i off txp = Some s'"
  shows "I s \<longrightarrow> I s'"
proof
  assume I: "I s"
  from assms obtain bb sh slot where bb: "st_heap s p = Some bb" "c_nth (b_shard bb) (unat i) = Some sh" "c_nth (bs_u sh) (unat off) = Some slot"
    by (auto simp: put_tx_in_shard_def elim!: bind_SomeE)
  then have sl: "b_shard bb ! unat i = sh" "unat off < length (bs_u sh)" "bs_u sh ! unat off = slot"
    by (auto simp: c_nth_def split: if_splits)
  show "I s'"
  proof (cases slot)
    case (Txp x)
    show ?thesis
    proof (cases x)
      case None
      from assms[unfolded put_tx_in_shard_eq] obtain s1 s2 where
        s1: "add_tx_to_hashes rt s p (bs_shardnum sh) off (fst txp) = Some s1"
        "upd_shard s1 p (unat i) (set_tx_slot sh off txp) = Some s2" and rest: "I s2 \<longrightarrow> I s'"
        using bb Txp None by (auto elim!: bind_SomeE dest: after_put_I)
      have same: "same_store s s1" by (rule hash_stores(2)[OF s1(1)])
      then have h: "st_heap s1 p = Some bb" "I s1" using bb(1) I outside by (auto simp: same_store_def)
      show ?thesis using tx_step[OF h(1) sl(1,2) _ s1(2) h(2)] sl(3) Txp None rest by simp
    next
      case (Some old)
      then show ?thesis using assms bb I Txp by (auto simp: put_tx_in_shard_def bind_eq_Some_conv split: if_splits)
    qed
  next
    case (Hash h)
    from assms[unfolded put_tx_in_shard_eq] obtain s1 s2 where
      s1: "hash_tx_and_refs (rt_ssl rt) (fst txp) (snd txp) = Some h" "upgrade_tx_in_hashes rt s (trh_txhash h) (fst txp) = Some s1"
      "upd_shard s1 p (unat i) (set_tx_slot (sh\<lparr>bs_hashcount := bs_hashcount sh - 1\<rparr>) off txp) = Some s2" and rest: "I s2 \<longrightarrow> I s'"
      using bb Hash by (auto simp: c_assert_def elim!: bind_SomeE split: if_splits dest: after_put_I)
    have same: "same_store s s1" by (rule hash_stores(1)[OF s1(2)])
    then have h: "st_heap s1 p = Some bb" "I s1" using bb(1) I outside by (auto simp: same_store_def)
    show ?thesis using upgrade_step[OF h(1) sl(1,2) _ s1(1,3) h(2)] sl(3) Hash rest by simp
  qed
qed

lemma block_add_I:
  assumes "block_add rt s new p x parts = Some s'" "check_block_header rt s0 parts = Some (PROTOCOL_ECODE_NONE, Some p, Some x)"
    "same_store s0 s" "wf_block_parts parts" "st_heap s new = None"
  shows "I s \<longrightarrow> I s'"
  using assms(1) by (auto simp: block_add_def bind_eq_Some_conv split: if_splits
      dest!: new_block_I link_step[OF assms(2-5)])

text \<open>What peers, the generator and the block file send.\<close>

lemma contents_frames:
  "sync_block_contents s b = Some s' \<Longrightarrow> same_store s s'"
  "ask_block_contents s b = Some s' \<Longrightarrow> same_store s s'"
  "seek_predecessor s sha prev = Some s' \<Longrightarrow> same_store s s'"
  "tell_complaint s pr bb = Some s' \<Longrightarrow> same_store s s'"
proof -
  show "sync_block_contents s b = Some s' \<Longrightarrow> same_store s s'"
    unfolding sync_block_contents_def
    by (erule ofold_store[rotated])
      (auto simp: todo_add_get_shard_def todo_add_get_txmap_def todo_store new_todo_request_frame elim!: bind_SomeE split: if_splits)
  show "ask_block_contents s b = Some s' \<Longrightarrow> same_store s s'"
    unfolding ask_block_contents_def
    by (erule ofold_store[rotated])
      (auto simp: todo_add_get_shard_def todo_store new_todo_request_frame elim!: bind_SomeE split: if_splits)
  show "seek_predecessor s sha prev = Some s' \<Longrightarrow> same_store s s'"
    by (auto simp: seek_predecessor_def todo_add_get_block_def todo_store new_todo_request_frame elim!: bind_SomeE split: if_splits)
  show "tell_complaint s pr bb = Some s' \<Longrightarrow> same_store s s'"
    by (auto simp: tell_complaint_def dest!: todo_for_peer_frame todo_store elim!: bind_SomeE split: option.splits)
qed

lemmas contents_iffs = contents_frames[THEN outside_iff]

lemma tell_new_block_I: "tell_new_block rt s pr b = Some s' \<Longrightarrow> I s \<longrightarrow> I s'"
  by (auto simp: tell_new_block_def elim!: bind_SomeE split: option.splits if_splits dest!: contents_iffs todo_iffs)

lemma recv_block_I:
  assumes "recv_block rt s new pr pkt = Some (e, b, s')" "pkt_ok pkt" "st_heap s new = None"
  shows "I s \<longrightarrow> I s'"
proof -
  obtain u where u: "unmarshal_block pkt = Some u" using assms(1) by (auto simp: recv_block_def elim!: bind_SomeE)
  show ?thesis
  proof (cases u)
    case (Inr parts)
    then have wf: "wf_block_parts parts" using unmarshal_block_wf[OF assms(2)] u by blast
    obtain e0 prev sha where h: "check_block_header rt s parts = Some (e0, prev, sha)"
      using assms(1) u Inr by (auto simp: recv_block_def elim!: bind_SomeE)
    show ?thesis
    proof (cases "e0 = PROTOCOL_ECODE_NONE")
      case True
      then obtain p x where px: "prev = Some p" "sha = Some x" using check_block_header_NONE h by blast
      note hdr = h[unfolded True px]
      obtain s1 where s1: "(case pr of None \<Rightarrow> Some s | Some k \<Rightarrow> todo_done_get_block s k x True) = Some s1"
        using assms(1) u Inr h True px by (auto simp: recv_block_def elim!: bind_SomeE)
      then have same: "same_store s s1" by (auto split: option.splits dest!: todo_done_frames todo_store)
      have new: "st_heap s1 new = None" using same assms(3) by (simp add: same_store_def)
      note add = block_add_I[OF _ hdr same wf new]
      show ?thesis
        using assms(1) u Inr h True px s1 outside_iff[OF same]
        by (auto simp: recv_block_def elim!: bind_SomeE split: if_splits option.splits
            dest!: add tell_new_block_I contents_iffs)
    next
      case False
      then show ?thesis
        using assms(1) u Inr h
        by (auto simp: recv_block_def elim!: bind_SomeE split: if_splits option.splits dest!: contents_iffs todo_iffs)
    qed
  qed (use assms(1) u in \<open>auto simp: recv_block_def\<close>)
qed

lemma try_resolve_hash_I: "try_resolve_hash rt s source b sh off = Some (r, s') \<Longrightarrow> I s \<longrightarrow> I s'"
  by (auto simp: try_resolve_hash_def c_abort_def elim!: bind_SomeE split: txslot.splits option.splits
      dest!: complain_Is put_tx_I)

lemma try_resolve_loop_I: "try_resolve_loop rt source b sh todos is s = Some s' \<Longrightarrow> I s \<longrightarrow> I s'"
proof (induction "is" arbitrary: s)
  case (Cons i js)
  from Cons.prems show ?case
    by (auto elim!: bind_SomeE split: if_splits dest!: Cons.IH try_resolve_hash_I)
qed simp

lemma put_hashes_I: "put_hashes rt b sh hashes is s = Some s' \<Longrightarrow> I s \<longrightarrow> I s'"
  unfolding put_hashes_def by (erule ofold_I[rotated]) (auto elim!: bind_SomeE dest!: put_txhash_I)

lemma recv_shard_I: "recv_shard rt s pr pkt = Some (e, s') \<Longrightarrow> I s \<longrightarrow> I s'"
  by (auto simp: recv_shard_def shard_error_def try_resolve_hashes_def Let_def elim!: bind_SomeE split: if_splits option.splits
      dest!: contents_iffs todo_iffs put_hashes_I try_resolve_loop_I)

lemma accept_proven_tx_I: "accept_proven_tx rt s pr b prf tx refs = Some (e, s') \<Longrightarrow> I s \<longrightarrow> I s'"
  by (auto simp: accept_proven_tx_def Let_def elim!: bind_SomeE split: if_splits option.splits
      dest!: check_tx_inputs_and_refs_I complain_Is put_proof_I put_tx_I todo_iffs)

lemma recv_tx_in_block_I: "recv_tx_in_block rt s pr pkt = Some (e, s') \<Longrightarrow> I s \<longrightarrow> I s'"
  by (auto simp: recv_tx_in_block_def recv_tx_for_block_def recv_tx_error_def Let_def elim!: bind_SomeE
      split: if_splits option.splits prod.splits dest!: accept_proven_tx_I todo_iffs)

lemma recv_generated_shards_I: "recv_generated_shards rt b i pkts s = Some (good, s') \<Longrightarrow> I s \<longrightarrow> I s'"
proof (induction pkts arbitrary: i s)
  case (Cons pkt pkts)
  from Cons.prems show ?case by (auto elim!: bind_SomeE split: if_splits dest!: Cons.IH recv_shard_I)
qed simp

lemma recv_block_from_generator_I:
  assumes "recv_block_from_generator rt s new pkt shards = Some (good, s')" "pkt_ok pkt" "st_heap s new = None"
  shows "I s \<longrightarrow> I s'"
  using assms(1) recv_block_I[OF _ assms(2,3)]
  by (auto simp: recv_block_from_generator_def elim!: bind_SomeE split: if_splits dest!: recv_generated_shards_I store_iffs)

lemma load_packet_I:
  assumes "load_packet rt alloc s pkt = Some (ok, s')" "pkt_ok pkt" "st_heap s (alloc s) = None"
  shows "I s \<longrightarrow> I s'"
proof -
  have "load_block rt s (alloc s) pkt = Some (ok, s') \<Longrightarrow> I s \<longrightarrow> I s'"
    using unmarshal_block_wf[OF assms(2)]
    by (auto simp: load_block_def elim!: bind_SomeE split: if_splits sum.splits
        dest!: block_add_I[OF _ _ same_store_refl _ assms(3)] dest: check_block_header_NONE)
  then show ?thesis
    using assms(1)
    by (auto simp: load_packet_def load_tx_in_block_def recv_tx_from_blockfile_def elim!: bind_SomeE
        split: if_splits dest!: recv_tx_in_block_I)
qed

lemma load_packets_I:
  assumes "\<And>s. st_heap s (alloc s) = None"
  shows "load_packets rt alloc s bs off = Some (s', off', rest, trunc) \<Longrightarrow> I s \<longrightarrow> I s'"
proof (induction "length bs" arbitrary: s bs off rule: less_induct)
  case less
  note eq = less.prems[unfolded load_packets.simps[of rt alloc s bs off]]
  obtain q bs1 where r: "read_file_packet bs io_read_packet = Some (q, bs1)"
    using eq by (auto split: option.splits)
  show ?case
  proof (cases q)
    case (Some pkt)
    have p: "bs = pkt @ bs1" "sendable pkt" using read_file_packet_rest r Some by blast+
    then have ok: "pkt_ok pkt" and len: "length bs1 < length bs"
      by (auto simp: sendable_def pkt_ok_def PROTOCOL_MAX_PACKET_LEN_def)
    note load = load_packet_I[where alloc = alloc and s = s, OF _ ok assms]
    show ?thesis
      using eq r Some by (auto split: option.splits if_splits dest!: load less.hyps[OF len])
  qed (use eq r in simp)
qed

text \<open>The packets of a peer.\<close>

lemma tell_peer_frames:
  "tell_peer_about_bad_input rt s k tx n = Some s' \<Longrightarrow> only_todo s s'"
  "tell_peer_about_doublespend rt s b k tx n = Some s' \<Longrightarrow> only_todo s s'"
  "tell_peer_about_bad_amount rt s k tx = Some s' \<Longrightarrow> only_todo s s'"
  "send_claim_input rt s k sha = Some s' \<Longrightarrow> only_todo s s'"
  by (auto simp: tell_peer_about_bad_input_def tell_peer_about_doublespend_def tell_peer_about_bad_amount_def
      send_claim_input_def c_abort_def elim!: bind_SomeE split: txhash_block_or_tx.splits dest!: todo_for_peer_frame)

lemmas tell_peer_iffs = tell_peer_frames[THEN todo_iff]

lemma resolve_elems_I: "resolve_elems rt k tes s = Some s' \<Longrightarrow> I s \<longrightarrow> I s'"
proof (induction tes arbitrary: s)
  case (Cons te tes)
  from Cons.prems show ?case
    by (auto elim!: bind_SomeE split: if_splits txhash_block_or_tx.splits dest!: Cons.IH try_resolve_hash_I)
qed simp

lemma share_tx_I: "share_tx rt s k tx sha = Some (e, s') \<Longrightarrow> I s \<longrightarrow> I s'"
  by (auto simp: share_tx_def elim!: bind_SomeE dest!: resolve_elems_I todo_iffs)

lemma recv_tx_pending_I: "recv_tx_pending rt s k tx sha = Some (e, s') \<Longrightarrow> I s \<longrightarrow> I s'"
  by (auto simp: recv_tx_pending_def elim!: bind_SomeE split: input_ecode.splits if_splits
      dest!: store_iffs share_tx_I tell_peer_iffs)

lemma recv_tx_I: "recv_tx rt s k pkt = Some (e, s') \<Longrightarrow> I s \<longrightarrow> I s'"
  by (auto simp: recv_tx_def Let_def elim!: bind_SomeE split: if_splits dest!: recv_tx_pending_I todo_iffs)

lemma recv_hashes_in_block_I: "recv_hashes_in_block rt s k pkt = Some (e, s') \<Longrightarrow> I s \<longrightarrow> I s'"
  by (auto simp: recv_hashes_in_block_def Let_def elim!: bind_SomeE split: if_splits option.splits
      dest!: put_txhash_I put_proof_I try_resolve_hash_I)

lemma recv_pkt_block_I:
  assumes "recv_pkt_block rt s new k pkt = Some (e, s')" "pkt_ok pkt" "st_heap s new = None"
  shows "I s \<longrightarrow> I s'"
  using assms(1) recv_block_I[OF _ assms(2,3)]
  by (auto simp: recv_pkt_block_def recv_block_from_peer_def elim!: bind_SomeE split: if_splits dest!: todo_iffs)

lemma complain_elems_I:
  assumes "\<And>te b prf refs s s'. f te b prf refs s = Some s' \<Longrightarrow> I s \<longrightarrow> I s'"
  shows "complain_elems f rt tes s = Some s' \<Longrightarrow> I s \<longrightarrow> I s'"
proof (induction tes arbitrary: s)
  case (Cons te tes)
  from Cons.prems show ?case
    by (auto elim!: bind_SomeE split: if_splits txhash_block_or_tx.splits dest!: Cons.IH assms)
qed simp

lemma recv_tx_bad_I:
  "recv_tx_bad_input rt s pkt = Some (e, s') \<Longrightarrow> I s \<longrightarrow> I s'"
  "recv_tx_bad_amount rt s pkt = Some (e, s') \<Longrightarrow> I s \<longrightarrow> I s'"
  by (auto simp: recv_tx_bad_input_def recv_tx_bad_amount_def elim!: bind_SomeE split: if_splits sum.splits
      dest!: complain_elems_I[rotated] complain_Is store_iffs)

lemma ds_complain_I: "ds_complain rt s te1 i1 tx1 te2 i2 tx2 = Some s' \<Longrightarrow> I s \<longrightarrow> I s'"
  by (auto simp: ds_complain_def elim!: bind_SomeE dest!: complain_Is)

lemma ds_loop_I:
  assumes "ds_loop rt A B s = Some s'"
  shows "I s \<longrightarrow> I s'"
proof -
  have "rt = rt \<longrightarrow> I s \<longrightarrow> I s'"
    using assms
  proof (rule ds_loop.raw_induct[where P = "\<lambda>rt' A B s s'. rt' = rt \<longrightarrow> I s \<longrightarrow> I s'", rotated])
    fix rec rt' A B s s'
    assume ih: "\<And>rt' A B s s'. rec rt' A B s = Some s' \<Longrightarrow> rt' = rt \<longrightarrow> I s \<longrightarrow> I s'"
      and step: "(do { pr \<leftarrow> ds_find (st_heap s) (txhash_vals rt' (st_txhash s) (snd (snd A))) (txhash_vals rt' (st_txhash s) (snd (snd B)));
          (case pr of
             None \<Rightarrow> Some s
           | Some (te_a, te_b, a_first) \<Rightarrow> do {
               s1 \<leftarrow> (if a_first
                      then ds_complain rt' s te_a (fst (snd A)) (fst A) te_b (fst (snd B)) (fst B)
                      else ds_complain rt' s te_b (fst (snd B)) (fst B) te_a (fst (snd A)) (fst A));
               rec rt' A B s1 }) }) = Some s'"
    show "rt' = rt \<longrightarrow> I s \<longrightarrow> I s'"
    proof
      assume "rt' = rt"
      then show "I s \<longrightarrow> I s'"
        using step by (auto elim!: bind_SomeE split: option.splits if_splits dest!: ds_complain_I ih)
    qed
  qed
  then show ?thesis by simp
qed

lemma recv_tx_doublespend_I: "recv_tx_doublespend rt s pkt = Some (e, s') \<Longrightarrow> I s \<longrightarrow> I s'"
  by (auto simp: recv_tx_doublespend_def punish_doublespend_def elim!: bind_SomeE split: if_splits sum.splits
      dest!: ds_loop_I store_iffs)

lemma complain_on_I: "complain_on rt s b pkt k = Some (e, s') \<Longrightarrow> I s \<longrightarrow> I s'"
  by (auto simp: complain_on_def elim!: bind_SomeE dest!: publish_I)

lemma unknown_block_or_I: "unknown_block_or s r = Some (e, s') \<Longrightarrow> I s \<longrightarrow> I s'"
  by (auto simp: unknown_block_or_def elim!: bind_SomeE split: if_splits)

lemma recv_complain_Is:
  "recv_complain_tx_misorder rt s k pkt = Some (e, s') \<Longrightarrow> I s \<longrightarrow> I s'"
  "recv_complain_tx_invalid rt s k pkt = Some (e, s') \<Longrightarrow> I s \<longrightarrow> I s'"
  "recv_complain_tx_bad_input rt s k pkt = Some (e, s') \<Longrightarrow> I s \<longrightarrow> I s'"
  "recv_complain_tx_bad_amount rt s k pkt = Some (e, s') \<Longrightarrow> I s \<longrightarrow> I s'"
  "recv_complain_doublespend rt s k pkt = Some (e, s') \<Longrightarrow> I s \<longrightarrow> I s'"
  "recv_complain_bad_input_ref rt s k pkt = Some (e, s') \<Longrightarrow> I s \<longrightarrow> I s'"
  "recv_complain_claim_input_invalid rt s k pkt = Some (e, s') \<Longrightarrow> I s \<longrightarrow> I s'"
  by (auto simp: recv_complain_tx_misorder_def recv_complain_tx_invalid_def recv_complain_tx_bad_input_def
      recv_complain_tx_bad_amount_def recv_complain_doublespend_def recv_complain_bad_input_ref_def
      recv_complain_claim_input_invalid_def Let_def elim!: bind_SomeE split: if_splits sum.splits option.splits
      dest!: complain_on_I unknown_block_or_I)

lemmas question_iffs = recv_set_filter_frame[THEN todo_iff] recv_get_shard_frame[THEN todo_iff]
  recv_get_tx_in_block_frame[THEN todo_iff] recv_get_txmap_frame[THEN todo_iff] recv_txmap_frame[THEN todo_iff]
  recv_children_frame[THEN todo_iff] recv_pkt_peers_frame[THEN todo_iff]

lemma handle_packet_I:
  assumes "handle_packet rt hash64 coins junk new s pc k type pkt = Some (e, reply, s', pc')" "pkt_ok pkt" "st_heap s new = None"
  shows "I s \<longrightarrow> I s'"
  using assms(1)
  unfolding handle_packet_def with_reply_def no_reply_def recv_shard_from_peer_def recv_tx_copies_agree recv_tx_from_peer_def
  by (auto elim!: bind_SomeE split: if_splits dest!: question_iffs recv_complain_Is recv_tx_doublespend_I recv_tx_bad_I
      recv_pkt_block_I[OF _ assms(2,3)] recv_hashes_in_block_I recv_tx_I recv_tx_in_block_I recv_shard_I)

lemma pkt_in_I:
  assumes "pkt_in rt hash64 coins junk new s pc k pkt = Some (plan, s', pc')" "pkt_ok pkt" "st_heap s new = None"
  shows "I s \<longrightarrow> I s'"
  using assms(1)
  by (auto simp: pkt_in_def elim!: bind_SomeE split: if_splits option.splits
      dest!: handle_packet_I[OF _ assms(2,3)] store_iffs todo_iffs)

end

section \<open>The history of a block\<close>

definition slot_grows :: "openssl \<Rightarrow> txslot \<Rightarrow> txslot \<Rightarrow> bool" where
  \<comment> \<open>a transaction stays; a hash stays or becomes the transaction it is the hash of\<close>
  "slot_grows ssl old new =
     (case old of
        Txp None \<Rightarrow> True
      | Txp (Some txp) \<Rightarrow> new = old
      | Hash h \<Rightarrow> new = old \<or> (\<exists>tx refs. new = Txp (Some (tx, refs)) \<and> hash_tx_and_refs ssl tx refs = Some h))"

definition shard_grows :: "openssl \<Rightarrow> block_shard \<Rightarrow> block_shard \<Rightarrow> bool" where
  "shard_grows ssl sh sh' \<longleftrightarrow> bs_size sh' = bs_size sh \<and> bs_shardnum sh' = bs_shardnum sh \<and>
     list_all2 (slot_grows ssl) (bs_u sh) (bs_u sh')"

definition block_grows :: "openssl \<Rightarrow> block \<Rightarrow> block \<Rightarrow> bool" where
  \<comment> \<open>what the network committed to is fixed, and nothing that was learned is given up\<close>
  "block_grows ssl b b' \<longleftrightarrow> b_sha b' = b_sha b \<and> b_prev b' = b_prev b \<and> b_parts b' = b_parts b \<and>
     b_total_work b' = b_total_work b \<and> set (b_children b) \<subseteq> set (b_children b') \<and>
     (b_complaint b \<noteq> None \<longrightarrow> b_complaint b' \<noteq> None) \<and> (b_all_known b \<longrightarrow> b_all_known b') \<and>
     list_all2 (shard_grows ssl) (b_shard b) (b_shard b')"

definition grows :: "openssl \<Rightarrow> heap \<Rightarrow> heap \<Rightarrow> bool" where
  "grows ssl h h' \<longleftrightarrow> (\<forall>p b. h p = Some b \<longrightarrow> (\<exists>b'. h' p = Some b' \<and> block_grows ssl b b'))"

lemma slot_grows_refl [simp]: "slot_grows ssl sl sl"
  by (auto simp: slot_grows_def split: txslot.splits option.splits)

lemma shard_grows_refl [simp]: "shard_grows ssl sh sh"
  by (simp add: shard_grows_def list_all2_refl)

lemma block_grows_refl [simp]: "block_grows ssl b b"
  by (simp add: block_grows_def list_all2_refl)

lemma grows_refl [simp]: "grows ssl h h"
  by (simp add: grows_def)

lemma slot_grows_trans: "slot_grows ssl a b \<Longrightarrow> slot_grows ssl b c \<Longrightarrow> slot_grows ssl a c"
  by (auto simp: slot_grows_def split: txslot.splits option.splits)

lemma shard_grows_trans: "shard_grows ssl a b \<Longrightarrow> shard_grows ssl b c \<Longrightarrow> shard_grows ssl a c"
  unfolding shard_grows_def using list_all2_trans[of "slot_grows ssl" "slot_grows ssl" "slot_grows ssl"] slot_grows_trans by metis

lemma block_grows_trans: "block_grows ssl a b \<Longrightarrow> block_grows ssl b c \<Longrightarrow> block_grows ssl a c"
  unfolding block_grows_def using list_all2_trans[of "shard_grows ssl" "shard_grows ssl" "shard_grows ssl"] shard_grows_trans
  by (metis order.trans)

lemma grows_trans [trans]: "grows ssl h h' \<Longrightarrow> grows ssl h' h'' \<Longrightarrow> grows ssl h h''"
  unfolding grows_def using block_grows_trans by metis

lemma grows_upd: "st_heap s p = Some b \<Longrightarrow> block_grows ssl b b' \<Longrightarrow> grows ssl (st_heap s) ((st_heap s)(p \<mapsto> b'))"
  by (simp add: grows_def)

lemma grows_shard:
  assumes "upd_shard s p i sh' = Some s'" "st_heap s p = Some bb" "shard_grows ssl (b_shard bb ! i) sh'"
  shows "grows ssl (st_heap s) (st_heap s')"
proof -
  from assms(1,2) have i: "i < length (b_shard bb)" and s': "st_heap s' = (st_heap s)(p \<mapsto> bb\<lparr>b_shard := (b_shard bb)[i := sh']\<rparr>)"
    by (auto simp: upd_shard_def c_assert_def split: if_splits)
  have "list_all2 (shard_grows ssl) (b_shard bb) ((b_shard bb)[i := sh'])"
    using assms(3) i by (simp add: list_all2_conv_all_nth nth_list_update)
  then have "block_grows ssl bb (bb\<lparr>b_shard := (b_shard bb)[i := sh']\<rparr>)" by (simp add: block_grows_def)
  then show ?thesis unfolding s' by (rule grows_upd[OF assms(2)])
qed

lemma shard_grows_slot:
  "unat off < length (bs_u sh) \<Longrightarrow> slot_grows ssl (bs_u sh ! unat off) sl \<Longrightarrow> bs_u sh' = (bs_u sh)[unat off := sl] \<Longrightarrow>
   bs_size sh' = bs_size sh \<Longrightarrow> bs_shardnum sh' = bs_shardnum sh \<Longrightarrow> shard_grows ssl sh sh'"
  by (auto simp: shard_grows_def list_all2_conv_all_nth nth_list_update)

lemma complaint_grows:
  assumes "complaint_on_all rt c b s = Some s'"
  shows "grows ssl (st_heap s) (st_heap s')"
  using assms
proof (rule complaint_on_all.raw_induct[where P = "\<lambda>rt c b s s'. grows ssl (st_heap s) (st_heap s')", rotated])
  fix rec rt c block s s'
  assume ih: "\<And>rt c b s s'. rec rt c b s = Some s' \<Longrightarrow> grows ssl (st_heap s) (st_heap s')"
    and step: "(do { bb \<leftarrow> st_heap s block;
          let s1 = s\<lparr>st_heap := (st_heap s)(block \<mapsto> bb\<lparr>b_complaint := Some c\<rparr>)\<rparr>;
          s2 \<leftarrow> block_to_pending s1 bb;
          s3 \<leftarrow> unhash_block rt block bb s2;
          ofold (\<lambda>b s. rec rt c b s) (b_children bb) s3 }) = Some s'"
  from step obtain bb s2 s3 where bb: "st_heap s block = Some bb"
      and s2: "block_to_pending (s\<lparr>st_heap := (st_heap s)(block \<mapsto> bb\<lparr>b_complaint := Some c\<rparr>)\<rparr>) bb = Some s2"
      and s3: "unhash_block rt block bb s2 = Some s3" and rest: "ofold (\<lambda>b s. rec rt c b s) (b_children bb) s3 = Some s'"
    by (auto simp: Let_def elim!: bind_SomeE)
  have "block_grows ssl bb (bb\<lparr>b_complaint := Some c\<rparr>)" by (simp add: block_grows_def list_all2_refl)
  then have start: "grows ssl (st_heap s) (st_heap s3)"
    using grows_upd[OF bb] block_to_pending_store[OF s2] unhash_block_store[OF s3] by (simp add: same_store_def)
  show "grows ssl (st_heap s) (st_heap s')"
    by (rule ofold_keeps[where I = "\<lambda>t. grows ssl (st_heap s) (st_heap t)", OF _ start rest]) (blast intro: ih grows_trans)
qed

interpretation history: store_steps rt "\<lambda>s. grows (rt_ssl rt) h0 (st_heap s)" for rt h0
proof
  show "grows (rt_ssl rt) h0 (st_heap s')" if "same_store s s'" "grows (rt_ssl rt) h0 (st_heap s)" for s s'
    using that by (simp add: same_store_def)
  show "grows (rt_ssl rt) h0 (st_heap (s\<lparr>st_heap := (st_heap s)(b \<mapsto> bb\<lparr>b_all_known := True\<rparr>)\<rparr>))"
    if "st_heap s b = Some bb" "grows (rt_ssl rt) h0 (st_heap s)" for s b bb
  proof -
    have "block_grows (rt_ssl rt) bb (bb\<lparr>b_all_known := True\<rparr>)" by (simp add: block_grows_def list_all2_refl)
    then show ?thesis using grows_trans[OF that(2) grows_upd[OF that(1)]] by simp
  qed
  fix s :: state and p bb i sh and off :: u8 and s' :: state and txp :: "protocol_tx \<times> protocol_input_ref list"
  assume bb: "st_heap s p = Some bb" "b_shard bb ! i = sh"
  note upd = grows_trans[OF _ grows_shard[OF _ bb(1)]]
  show "grows (rt_ssl rt) h0 (st_heap s')"
    if "unat off < length (bs_u sh)" "bs_u sh ! unat off = Txp None" "upd_shard s p i (set_tx_slot sh off txp) = Some s'"
      "grows (rt_ssl rt) h0 (st_heap s)"
    using that bb(2) by (intro upd[OF that(4,3)] shard_grows_slot[where sl = "Txp (Some txp)"]) (simp_all add: set_tx_slot_def slot_grows_def)
  show "grows (rt_ssl rt) h0 (st_heap s')"
    if "unat off < length (bs_u sh)" "bs_u sh ! unat off = Hash h" "hash_tx_and_refs (rt_ssl rt) (fst txp) (snd txp) = Some h"
      "upd_shard s p i (set_tx_slot (sh\<lparr>bs_hashcount := bs_hashcount sh - 1\<rparr>) off txp) = Some s'" "grows (rt_ssl rt) h0 (st_heap s)"
    for h
    using that bb(2) by (intro upd[OF that(5,4)] shard_grows_slot[where sl = "Txp (Some txp)"])
      (simp_all add: set_tx_slot_def slot_grows_def, metis prod.collapse)
  show "grows (rt_ssl rt) h0 (st_heap s')"
    if "unat off < length (bs_u sh)" "bs_u sh ! unat off = Txp None" "upd_shard s p i (set_hash_slot sh off h) = Some s'"
      "grows (rt_ssl rt) h0 (st_heap s)" for h
    using that bb(2) by (intro upd[OF that(4,3)] shard_grows_slot[where sl = "Hash h"]) (simp_all add: set_hash_slot_def slot_grows_def)
  show "grows (rt_ssl rt) h0 (st_heap s')"
    if "upd_shard s p i (sh\<lparr>bs_proof := prfs\<rparr>) = Some s'" "grows (rt_ssl rt) h0 (st_heap s)" for prfs
    using that bb(2) by (intro upd[OF that(2,1)]) (simp add: shard_grows_def list_all2_refl)
next
  show "grows (rt_ssl rt) h0 (st_heap s')" if "complaint_on_all rt c b s = Some s'" "grows (rt_ssl rt) h0 (st_heap s)" for c b s s'
    using grows_trans[OF that(2) complaint_grows[OF that(1)]] .
  show "grows (rt_ssl rt) h0 (st_heap s')"
    if "st_heap s new = None" "link_block rt s new p x parts = Some s'" "grows (rt_ssl rt) h0 (st_heap s)" for s new p x parts s'
  proof -
    from that(2) obtain pb nb where pb: "st_heap s p = Some pb"
        and s': "st_heap s' = (st_heap s)(new \<mapsto> nb, p \<mapsto> pb\<lparr>b_children := b_children pb @ [new]\<rparr>)"
      by (auto simp: link_block_def emit_def Let_def elim!: bind_SomeE)
    have "block_grows (rt_ssl rt) pb (pb\<lparr>b_children := b_children pb @ [new]\<rparr>)" by (auto simp: block_grows_def list_all2_refl)
    then have "grows (rt_ssl rt) (st_heap s) (st_heap s')" using pb that(1) by (auto simp: grows_def s')
    then show ?thesis by (rule grows_trans[OF that(3)])
  qed
qed

end
