(* ===== verification/Hex.thy ===== *)
theory Hex
  imports Prelude
begin

text \<open>
  \<open>hex.c\<close>: bytes as hexadecimal digits and back. A C string is a list of characters without its
  terminator.
\<close>

subsection \<open>The code\<close>

definition char_to_hex :: "char \<Rightarrow> u8 option" where
  "char_to_hex c =
     (let n = (of_char c :: nat) in
      if 48 \<le> n \<and> n \<le> 57 then Some (word_of_nat (n - 48))
      else if 97 \<le> n \<and> n \<le> 102 then Some (word_of_nat (n - 97 + 10))
      else if 65 \<le> n \<and> n \<le> 70 then Some (word_of_nat (n - 65 + 10))
      else None)"

fun from_hex :: "string \<Rightarrow> nat \<Rightarrow> bool \<times> bytes" where
  \<comment> \<open>the result and the bytes that were written\<close>
  "from_hex (c1 # c2 # str) bufsize =
     (case (char_to_hex c1, char_to_hex c2) of
        (Some v1, Some v2) \<Rightarrow>
          if bufsize = 0 then (False, [])
          else (let (ok, bs) = from_hex str (bufsize - 1) in (ok, (push_bit 4 v1 OR v2) # bs))
      | _ \<Rightarrow> (False, []))"
| "from_hex str bufsize = (str = [] \<and> bufsize = 0, [])"

definition hexchar :: "nat \<Rightarrow> char option" where
  "hexchar val =
     (if val < 10 then Some (char_of (48 + val))
      else if val < 16 then Some (char_of (97 + val - 10))
      else c_abort)"

fun to_hex_loop :: "nat \<Rightarrow> bytes \<Rightarrow> (nat \<times> string) option" where
  "to_hex_loop destlen [] = Some (0, [])"
| "to_hex_loop destlen (c # cs) =
     (if destlen \<ge> 3 then do {
        h \<leftarrow> hexchar (unat (drop_bit 4 c));
        l \<leftarrow> hexchar (unat (c AND 0xF));
        (used, str) \<leftarrow> to_hex_loop (destlen - 2) cs;
        Some (Suc used, h # l # str) }
      else Some (0, []))"

definition to_hex_direct :: "nat \<Rightarrow> bytes \<Rightarrow> (nat \<times> string) option" where
  \<comment> \<open>how many bytes were used, and the string written to \<open>dest\<close>\<close>
  "to_hex_direct destlen buf = do { c_assert (destlen > 0); to_hex_loop destlen buf }"

definition to_hex :: "bytes \<Rightarrow> string option" where
  "to_hex buf = map_option snd (to_hex_direct (length buf * 2 + 1) buf)"

subsection \<open>One byte\<close>

definition hex_digits :: string where
  "hex_digits = ''0123456789abcdef''"

lemma nibbles: "unat (drop_bit 4 (c :: u8)) = unat c div 16" "unat (c AND 0xF) = unat c mod 16"
proof -
  show "unat (drop_bit 4 c) = unat c div 16" by (simp add: drop_bit_eq_div unat_div_distrib)
  have "c AND 0xF = take_bit 4 c" by (simp add: take_bit_eq_mask mask_eq_exp_minus_1)
  then show "unat (c AND 0xF) = unat c mod 16" by (simp add: take_bit_eq_mod unat_mod_distrib)
qed

lemma hexchar_digits: "\<forall>n \<in> set [0..<16]. hexchar n = Some (hex_digits ! n) \<and> char_to_hex (hex_digits ! n) = Some (word_of_nat n)"
  by code_simp

lemma hexchar_digit: "n < 16 \<Longrightarrow> hexchar n = Some (hex_digits ! n) \<and> char_to_hex (hex_digits ! n) = Some (word_of_nat n)"
  using hexchar_digits by simp

lemma join_nibbles: "push_bit 4 (word_of_nat (unat c div 16)) OR word_of_nat (unat c mod 16) = (c :: u8)"
proof -
  have "push_bit 4 (word_of_nat (unat c div 16) :: u8) = push_bit 4 (drop_bit 4 c)"
    by (simp flip: nibbles(1))
  moreover have "word_of_nat (unat c mod 16) = take_bit 4 c"
    by (simp add: take_bit_eq_mask mask_eq_exp_minus_1 flip: nibbles(2))
  moreover have "push_bit 4 (drop_bit 4 c) OR take_bit 4 c = c"
    by (rule bit_word_eqI) (auto simp: bit_simps)
  ultimately show ?thesis by simp
qed

subsection \<open>Strings\<close>

lemma to_hex_loop_eq:
  "to_hex_loop destlen buf =
     (let k = min (length buf) ((destlen - 1) div 2) in
      Some (k, concat (map (\<lambda>c. [hex_digits ! (unat c div 16), hex_digits ! (unat c mod 16)]) (take k buf))))"
proof (induction buf arbitrary: destlen)
  case (Cons c buf)
  have c: "unat c div 16 < 16" "unat c mod 16 < 16" using unat_byte_less[of c] by (auto simp del: unat_byte_less)
  show ?case
  proof (cases "destlen \<ge> 3")
    case True
    then have "(destlen - 1) div 2 = Suc ((destlen - 2 - 1) div 2)" by linarith
    then show ?thesis using True Cons.IH[of "destlen - 2"] hexchar_digit[OF c(1)] hexchar_digit[OF c(2)]
      by (simp add: nibbles Let_def)
  next
    case False
    then have "(destlen - 1) div 2 = 0" by linarith
    then show ?thesis using False by simp
  qed
qed simp

text \<open>
  \<open>to_hex_direct\<close> never writes past its buffer, terminator included, and converts as many bytes as
  fit.
\<close>

lemma to_hex_direct_fits:
  assumes "destlen > 0"
  shows "\<exists>str. to_hex_direct destlen buf = Some (min (length buf) ((destlen - 1) div 2), str) \<and> length str + 1 \<le> destlen"
proof -
  have len: "length (concat (map (\<lambda>c. [f c, g c]) xs)) = 2 * length xs" for f g :: "u8 \<Rightarrow> char" and xs
    by (induction xs) simp_all
  have "2 * min (length buf) ((destlen - 1) div 2) + 1 \<le> destlen" using assms by linarith
  then show ?thesis using assms by (simp add: to_hex_direct_def c_assert_def to_hex_loop_eq Let_def len)
qed

lemma from_hex_digits:
  "from_hex (concat (map (\<lambda>c. [hex_digits ! (unat c div 16), hex_digits ! (unat c mod 16)]) buf)) (length buf) = (True, buf)"
proof (induction buf)
  case (Cons c buf)
  have c: "unat c div 16 < 16" "unat c mod 16 < 16" using unat_byte_less[of c] by (auto simp del: unat_byte_less)
  show ?case using Cons.IH hexchar_digit[OF c(1)] hexchar_digit[OF c(2)] join_nibbles[of c] by simp
qed simp

lemma from_hex_length: "from_hex str n = (True, bs) \<Longrightarrow> length str = 2 * n \<and> length bs = n"
  by (induction str n arbitrary: bs rule: from_hex.induct)
    (auto split: option.splits if_splits prod.splits)

lemma from_hex_accepts:
  "fst (from_hex str n) \<longleftrightarrow> length str = 2 * n \<and> list_all (\<lambda>c. char_to_hex c \<noteq> None) str"
  by (induction str n rule: from_hex.induct) (auto split: option.splits prod.splits)

text \<open>
  Bytes written as hexadecimal digits read back as themselves, and \<open>from_hex\<close> accepts exactly
  strings of two hexadecimal digits for each byte of the buffer, no shorter and no longer ones.
\<close>

theorem hex_roundtrip:
  "(\<exists>str. to_hex buf = Some str \<and> from_hex str (length buf) = (True, buf)) \<and>
   (fst (from_hex s n) = (length s = 2 * n \<and> list_all (\<lambda>c. char_to_hex c \<noteq> None) s))"
  using from_hex_digits[of buf]
  by (simp add: to_hex_def to_hex_direct_def c_assert_def to_hex_loop_eq from_hex_accepts Let_def)

end
