(* ===== verification/Generate.thy ===== *)
theory Generate
  imports Shard_exchange Blockfile Hex
begin

text \<open>
  \<open>pettycoin-generate.c\<close>: the program that the daemon starts to look for a block. It gets the header
  fields as arguments and the hashes of transactions from its input, keeps the merkle roots and the
  hash of the header up to date, tries nonces, and writes the block and the hashes of its shards.
  The SHA context \<open>partial\<close> is the bytes that were hashed so far. The host is little-endian.
\<close>

subsection \<open>The code\<close>

record gen_update =
  gu_shard :: u16
  gu_txoff :: u8
  gu_features :: u32
  gu_hashes :: protocol_txrefhash

record working_block =
  w_feature_counts :: "u32 list"
  w_num_shards :: u32
  w_num_trans :: u32
  w_parts :: block_parts
    \<comment> \<open>\<open>hdr\<close>, \<open>shard_nums\<close>, \<open>merkles\<close>, \<open>prev_txhashes\<close>, \<open>tailer\<close>\<close>
  w_trans_hashes :: "protocol_txrefhash list list"
  w_hash_of_merkles :: sha
  w_hash_of_prev_txhashes :: sha
  w_partial :: bytes
  w_sha :: sha

definition gen_valid_difficulty :: "u32 \<Rightarrow> bool" where
  "gen_valid_difficulty difficulty =
     (let exp = unat (drop_bit 24 difficulty); mantissa = difficulty AND 0x00FFFFFF in
      if exp < 3 \<or> exp > 32 then False
      else if mantissa = 0 then False
      else True)"

definition merkle_hash_shard :: "openssl \<Rightarrow> working_block \<Rightarrow> nat \<Rightarrow> working_block option" where
  "merkle_hash_shard ssl w shard =
     do { hashes \<leftarrow> c_nth (w_trans_hashes w) shard;
          n \<leftarrow> c_nth (bp_shard_nums (w_parts w)) shard;
          m \<leftarrow> merkle_hashes ssl hashes 0 (unat n);
          c_assert (shard < length (bp_merkles (w_parts w)));
          Some (w\<lparr>w_parts := (w_parts w)\<lparr>bp_merkles := (bp_merkles (w_parts w))[shard := m]\<rparr>\<rparr>) }"

definition merkle_hash_changed :: "openssl \<Rightarrow> working_block \<Rightarrow> working_block option" where
  "merkle_hash_changed ssl w =
     do { ms \<leftarrow> c_slice (bp_merkles (w_parts w)) 0 (unat (w_num_shards w));
          Some (w\<lparr>w_hash_of_merkles := SHA256_Double_Final ssl (concat ms)\<rparr>) }"

definition update_partial_hash :: "working_block \<Rightarrow> working_block option" where
  "update_partial_hash w =
     do { nums \<leftarrow> c_slice (bp_shard_nums (w_parts w)) 0 (unat (w_num_shards w));
          Some (w\<lparr>w_partial := w_hash_of_prev_txhashes w @ w_hash_of_merkles w @ enc_hdr (bp_hdr (w_parts w)) @ nums\<rparr>) }"

definition new_working_block ::
    "openssl \<Rightarrow> u32 \<Rightarrow> u32 \<Rightarrow> bytes \<Rightarrow> u32 \<Rightarrow> u32 \<Rightarrow> u8 \<Rightarrow> sha \<Rightarrow> address \<Rightarrow> working_block option" where
  \<comment> \<open>\<open>now\<close> is the time; \<open>prev_txhashes\<close> may be longer than the number of them\<close>
  "new_working_block ssl now difficulty prev_txhashes num_prev depth shard_order prev_block fees_to =
     do { c_assert (unat shard_order < 31);
          let num_shards = push_bit (unat shard_order) 1;
          let n = unat num_shards;
          prev \<leftarrow> c_slice prev_txhashes 0 (unat num_prev);
          let w = \<lparr>w_feature_counts = replicate 8 0, w_num_shards = num_shards, w_num_trans = 0,
            w_parts = \<lparr>bp_hdr = \<lparr>bh_version = current_version, bh_features_vote = 0, bh_shard_order = shard_order,
                  bh_nonce2 = replicate 13 0, bh_prev_block = prev_block, bh_num_prev_txhashes = num_prev,
                  bh_depth = depth, bh_fees_to = fees_to\<rparr>,
                bp_shard_nums = replicate n 0, bp_merkles = replicate n (replicate 32 0), bp_prev_txhashes = prev,
                bp_tailer = \<lparr>bt_timestamp = now, bt_difficulty = difficulty, bt_nonce1 = 0\<rparr>\<rparr>,
            w_trans_hashes = replicate n [], w_hash_of_merkles = [],
            w_hash_of_prev_txhashes = SHA256_Double_Final ssl prev, w_partial = [], w_sha = []\<rparr>;
          w1 \<leftarrow> ofold (\<lambda>i w. merkle_hash_shard ssl w i) [0..<n] w;
          w2 \<leftarrow> merkle_hash_changed ssl w1;
          update_partial_hash w2 }"

definition add_feature :: "u32 \<Rightarrow> u32 \<Rightarrow> nat \<Rightarrow> u32 list \<times> u8 \<Rightarrow> u32 list \<times> u8" where
  \<comment> \<open>a round of the loop over the features: the counts and \<open>new_features\<close>\<close>
  "add_feature features num_trans i r =
     (let counts = (if bit features i then (fst r)[i := fst r ! i + 1] else fst r);
          new_features = (if counts ! i < num_trans div 2 then snd r AND NOT (push_bit i 1) else snd r)
      in (counts, new_features))"

definition add_tx :: "openssl \<Rightarrow> working_block \<Rightarrow> gen_update \<Rightarrow> working_block option" where
  "add_tx ssl w update =
     do { let shard = unat (gu_shard update);
          c_assert (shard < length (bp_shard_nums (w_parts w)));
          num \<leftarrow> c_nth (bp_shard_nums (w_parts w)) shard;
          c_assert (num < 255);
          c_assert (gu_txoff update \<le> num);
          hashes \<leftarrow> c_nth (w_trans_hashes w) shard;
          let off = unat (gu_txoff update);
          let w1 = w\<lparr>w_trans_hashes := (w_trans_hashes w)[shard := take off hashes @ [gu_hashes update] @ drop off hashes],
                     w_parts := (w_parts w)\<lparr>bp_shard_nums := (bp_shard_nums (w_parts w))[shard := num + 1]\<rparr>,
                     w_num_trans := w_num_trans w + 1\<rparr>;
          w2 \<leftarrow> merkle_hash_shard ssl w1 shard;
          w3 \<leftarrow> merkle_hash_changed ssl w2;
          let (counts, new_features) = fold (add_feature (gu_features update) (w_num_trans w3)) [0..<8] (w_feature_counts w3, 0);
          update_partial_hash
            (w3\<lparr>w_feature_counts := counts,
                w_parts := (w_parts w3)\<lparr>bp_hdr := (bp_hdr (w_parts w3))\<lparr>bh_features_vote := new_features\<rparr>\<rparr>\<rparr>) }"

fun increment_bytes :: "bytes \<Rightarrow> bytes" where
  "increment_bytes [] = []"
| "increment_bytes (b # bs) = (if b + 1 \<noteq> 0 then (b + 1) # bs else (b + 1) # increment_bytes bs)"

definition increment_nonce2 :: "protocol_block_header \<Rightarrow> protocol_block_header" where
  "increment_nonce2 hdr = hdr\<lparr>bh_nonce2 := increment_bytes (bh_nonce2 hdr)\<rparr>"

definition set_tailer :: "(protocol_block_tailer \<Rightarrow> protocol_block_tailer) \<Rightarrow> working_block \<Rightarrow> working_block" where
  "set_tailer f w = w\<lparr>w_parts := (w_parts w)\<lparr>bp_tailer := f (bp_tailer (w_parts w))\<rparr>\<rparr>"

definition solve_block :: "openssl \<Rightarrow> u32 \<Rightarrow> working_block \<Rightarrow> (bool \<times> working_block) option" where
  \<comment> \<open>\<open>now\<close> is what \<open>time\<close> returns\<close>
  "solve_block ssl now w =
     do { let w1 = w\<lparr>w_sha := SHA256_Double_Final ssl (w_partial w @ enc_tailer (bp_tailer (w_parts w)))\<rparr>;
          beats \<leftarrow> beats_target (w_sha w1) (bt_difficulty (bp_tailer (w_parts w1)));
          if beats then Some (True, w1)
          else do {
            let nonce1 = bt_nonce1 (bp_tailer (w_parts w1)) + 1;
            let w2 = set_tailer (\<lambda>t. t\<lparr>bt_nonce1 := nonce1\<rparr>) w1;
            if nonce1 AND 0xFFFF = 0 then do {
              let w3 = set_tailer (\<lambda>t. t\<lparr>bt_timestamp := now\<rparr>) w2;
              w4 \<leftarrow> (if nonce1 = 0
                     then update_partial_hash (w3\<lparr>w_parts := (w_parts w3)\<lparr>bp_hdr := increment_nonce2 (bp_hdr (w_parts w3))\<rparr>\<rparr>)
                     else Some w3);
              Some (False, w4) }
            else Some (False, w2) } }"

definition read_txs :: "openssl \<Rightarrow> working_block \<Rightarrow> gen_update list \<Rightarrow> working_block option" where
  "read_txs ssl w updates = ofold (\<lambda>u w. add_tx ssl w u) updates w"

definition write_shard :: "working_block \<Rightarrow> nat \<Rightarrow> bytes option" where
  \<comment> \<open>the body of the loop of \<open>write_block\<close>\<close>
  "write_shard w shard =
     do { s \<leftarrow> tal_packet PROTOCOL_PKT_SHARD
              (w_sha w @ cpu_to_le16 (word_of_nat shard) @ cpu_to_le16 (ucast (ecode_code PROTOCOL_ECODE_NONE)));
          n \<leftarrow> c_nth (bp_shard_nums (w_parts w)) shard;
          hashes \<leftarrow> c_nth (w_trans_hashes w) shard;
          ofold (\<lambda>i s. do { h \<leftarrow> c_nth hashes i; tal_packet_append_txrefhash s h }) [0..<unat n] s }"

definition write_block :: "working_block \<Rightarrow> (bytes \<times> bytes list) option" where
  \<comment> \<open>the packets that are written: the block, then the shards\<close>
  "write_block w =
     do { b \<leftarrow> marshal_block (w_parts w);
          shards \<leftarrow> those (map (write_shard w) [0..<unat (w_num_shards w)]);
          Some (b, shards) }"

definition strncpy_nonce2 :: "bytes \<Rightarrow> bytes" where
  \<comment> \<open>13 bytes of the nonce, filled up with zeroes\<close>
  "strncpy_nonce2 nonce = take 13 (nonce @ replicate 13 0)"

definition set_nonce :: "bytes \<Rightarrow> working_block \<Rightarrow> working_block option" where
  "set_nonce nonce w =
     update_partial_hash (w\<lparr>w_parts := (w_parts w)\<lparr>bp_hdr := (bp_hdr (w_parts w))\<lparr>bh_nonce2 := strncpy_nonce2 nonce\<rparr>\<rparr>\<rparr>)"

fun search :: "openssl \<Rightarrow> (gen_update list \<times> u32) list \<Rightarrow> working_block \<Rightarrow> (bool \<times> working_block) option" where
  \<comment> \<open>the loop of \<open>main\<close>: in every round the updates that have come in, and the time\<close>
  "search ssl [] w = Some (False, w)"
| "search ssl ((updates, now) # rounds) w =
     do { w1 \<leftarrow> read_txs ssl w updates;
          (solved, w2) \<leftarrow> solve_block ssl now w1;
          if solved then Some (True, w2) else search ssl rounds w2 }"

definition generate_start ::
    "openssl \<Rightarrow> u32 \<Rightarrow> string \<Rightarrow> u32 \<Rightarrow> string \<Rightarrow> u32 \<Rightarrow> u32 \<Rightarrow> u32 \<Rightarrow> bytes option \<Rightarrow> bytes
     \<Rightarrow> working_block option option" where
  \<comment> \<open>\<open>main\<close> up to its loop; the numbers have been converted, \<open>stdin\<close> is the input; the inner \<open>None\<close> is
     an exit\<close>
  "generate_start ssl now reward difficulty prevhash num_prev depth shard_order nonce stdin =
     do { let (ok1, reward_address) = from_hex reward 20;
          let (ok2, prev_hash) = from_hex prevhash 32;
          if \<not> ok1 \<or> \<not> gen_valid_difficulty difficulty \<or> \<not> ok2 then Some None
          else if length stdin < unat (num_prev + 1) then Some None
          else do {
            w \<leftarrow> new_working_block ssl now difficulty (take (unat (num_prev + 1)) stdin) num_prev depth
                   (ucast shard_order) prev_hash reward_address;
            w1 \<leftarrow> (case nonce of None \<Rightarrow> Some w | Some n \<Rightarrow> set_nonce n w);
            Some (Some w1) } }"

subsection \<open>What the generator keeps up to date\<close>

definition gen_ok :: "openssl \<Rightarrow> working_block \<Rightarrow> bool" where
  "gen_ok ssl w \<longleftrightarrow>
     (let b = w_parts w; n = length (bp_shard_nums b) in
       n = 2 ^ unat (bh_shard_order (bp_hdr b)) \<and> unat (w_num_shards w) = n \<and>
       length (bp_merkles b) = n \<and> length (w_trans_hashes w) = n \<and>
       (\<forall>i < n. length (w_trans_hashes w ! i) = unat (bp_shard_nums b ! i) \<and> list_all wf_txrefhash (w_trans_hashes w ! i) \<and>
          bp_merkles b ! i = shard_root ssl (w_trans_hashes w ! i)) \<and>
       wf_header (bp_hdr b) \<and> bh_features_vote (bp_hdr b) = 0 \<and> bh_version (bp_hdr b) = current_version \<and>
       length (bp_prev_txhashes b) = unat (bh_num_prev_txhashes (bp_hdr b)) \<and>
       w_hash_of_prev_txhashes w = SHA256_Double_Final ssl (bp_prev_txhashes b) \<and>
       w_hash_of_merkles w = SHA256_Double_Final ssl (concat (bp_merkles b)) \<and>
       w_partial w = w_hash_of_prev_txhashes w @ w_hash_of_merkles w @ enc_hdr (bp_hdr b) @ bp_shard_nums b)"

lemma c_slice_all: "n = length xs \<Longrightarrow> c_slice xs 0 n = Some xs"
  by (simp add: c_slice_def)

lemma merkle_hash_shard_ok:
  assumes "i < length (w_trans_hashes w)" "i < length (bp_shard_nums (w_parts w))" "i < length (bp_merkles (w_parts w))"
    and "length (w_trans_hashes w ! i) = unat (bp_shard_nums (w_parts w) ! i)" "list_all wf_txrefhash (w_trans_hashes w ! i)"
  shows "merkle_hash_shard ssl w i =
    Some (w\<lparr>w_parts := (w_parts w)\<lparr>bp_merkles := (bp_merkles (w_parts w))[i := shard_root ssl (w_trans_hashes w ! i)]\<rparr>\<rparr>)"
  using assms merkle_hashes_root[OF assms(5), of ssl]
  by (simp add: merkle_hash_shard_def c_nth_def c_assert_def)

lemma all_empty_roots:
  assumes "w_trans_hashes w = replicate n []" "bp_shard_nums (w_parts w) = replicate n 0" "length (bp_merkles (w_parts w)) = n" "k \<le> n"
  shows "ofold (\<lambda>i w. merkle_hash_shard ssl w i) [0..<k] w =
    Some (w\<lparr>w_parts := (w_parts w)\<lparr>bp_merkles := replicate k (shard_root ssl []) @ drop k (bp_merkles (w_parts w))\<rparr>\<rparr>)"
  using assms(4)
proof (induction k)
  case (Suc k)
  let ?w = "w\<lparr>w_parts := (w_parts w)\<lparr>bp_merkles := replicate k (shard_root ssl []) @ drop k (bp_merkles (w_parts w))\<rparr>\<rparr>"
  have "merkle_hash_shard ssl ?w k = Some (?w\<lparr>w_parts := (w_parts ?w)\<lparr>bp_merkles := (bp_merkles (w_parts ?w))[k := shard_root ssl []]\<rparr>\<rparr>)"
    using merkle_hash_shard_ok[of k ?w ssl] assms(1-3) Suc.prems by simp
  moreover have "(replicate k (shard_root ssl []) @ drop k (bp_merkles (w_parts w)))[k := shard_root ssl []] =
      replicate (Suc k) (shard_root ssl []) @ drop (Suc k) (bp_merkles (w_parts w))"
    using assms(3) Suc.prems by (simp add: list_update_append replicate_append_same flip: Cons_nth_drop_Suc)
  ultimately show ?case using Suc by simp
qed simp

lemma new_working_block_ok:
  assumes "new_working_block ssl now difficulty prev num_prev depth order prev_block fees_to = Some w"
    and "length prev_block = 32" "length fees_to = 20"
  shows "gen_ok ssl w"
proof -
  have order: "unat order < 31" using assms(1) by (auto simp: new_working_block_def c_assert_def split: if_splits)
  have "(2 :: nat) ^ unat order < 2 ^ 32" by (rule power_strict_increasing) (use order in simp_all)
  then have n: "unat (push_bit (unat order) 1 :: u32) = 2 ^ unat order"
    using order by (simp only: unsigned_push_bit_eq) (simp add: push_bit_eq_mult take_bit_nat_eq_self)
  show ?thesis
    using assms n order
    by (auto simp: new_working_block_def Let_def bind_eq_Some_conv c_assert_def all_empty_roots merkle_hash_changed_def
        update_partial_hash_def gen_ok_def wf_header_def c_slice_all)
qed

lemma update_partial_ok:
  assumes "gen_ok ssl w" "wf_header h" "bh_features_vote h = 0" "bh_version h = current_version"
    "bh_shard_order h = bh_shard_order (bp_hdr (w_parts w))"
    "bh_num_prev_txhashes h = bh_num_prev_txhashes (bp_hdr (w_parts w))"
  shows "\<exists>w'. update_partial_hash (w\<lparr>w_parts := (w_parts w)\<lparr>bp_hdr := h\<rparr>\<rparr>) = Some w' \<and> gen_ok ssl w' \<and>
    w_parts w' = (w_parts w)\<lparr>bp_hdr := h\<rparr> \<and> w_trans_hashes w' = w_trans_hashes w \<and> w_sha w' = w_sha w"
  using assms by (simp add: update_partial_hash_def gen_ok_def Let_def c_slice_all)

lemma set_nonce_ok:
  assumes "gen_ok ssl w"
  shows "\<exists>w'. set_nonce nonce w = Some w' \<and> gen_ok ssl w'"
proof -
  let ?h = "(bp_hdr (w_parts w))\<lparr>bh_nonce2 := strncpy_nonce2 nonce\<rparr>"
  have "wf_header ?h" "bh_features_vote ?h = 0" "bh_version ?h = current_version"
    using assms by (simp_all add: gen_ok_def Let_def wf_header_def strncpy_nonce2_def)
  from update_partial_ok[OF assms this] show ?thesis unfolding set_nonce_def by fastforce
qed

lemma length_increment [simp]: "length (increment_bytes bs) = length bs"
  by (induction bs) simp_all

lemma set_tailer_ok: "gen_ok ssl (set_tailer f w) = gen_ok ssl w" "w_partial (set_tailer f w) = w_partial w"
  by (simp_all add: gen_ok_def set_tailer_def Let_def)

lemma set_sha_ok: "gen_ok ssl (w\<lparr>w_sha := x\<rparr>) = gen_ok ssl w"
  by (simp add: gen_ok_def Let_def)

lemma gen_ok_hash:
  assumes "gen_ok ssl w" "digest_ok ssl"
  shows "hash_block ssl (w_parts w) = Some (SHA256_Double_Final ssl (w_partial w @ enc_tailer (bp_tailer (w_parts w))))"
proof -
  have "length m = 32" if m: "m \<in> set (bp_merkles (w_parts w))" for m
  proof -
    obtain i where "i < length (bp_merkles (w_parts w))" "m = bp_merkles (w_parts w) ! i" using m by (auto simp: in_set_conv_nth)
    then have "m = shard_root ssl (w_trans_hashes w ! i)" using assms(1) by (simp add: gen_ok_def Let_def)
    then show ?thesis using assms(2) by (simp add: shard_root_def numeral_eq_Suc SHA256_Double_Final_def)
  qed
  then have "map length (bp_merkles (w_parts w)) = replicate (length (bp_merkles (w_parts w))) 32"
    by (intro replicate_eqI) auto
  then have "length (concat (bp_merkles (w_parts w))) = 32 * 2 ^ unat (bh_shard_order (bp_hdr (w_parts w)))"
    using assms(1) by (simp add: length_concat sum_list_replicate gen_ok_def Let_def)
  then show ?thesis using assms(1) by (simp add: hash_block_def gen_ok_def Let_def c_slice_all)
qed

lemma solve_block_ok:
  assumes "gen_ok ssl w" "digest_ok ssl" "solve_block ssl now w = Some (solved, w')"
  shows "gen_ok ssl w' \<and> w_trans_hashes w' = w_trans_hashes w \<and>
    (solved \<longrightarrow> hash_block ssl (w_parts w') = Some (w_sha w') \<and>
      beats_target (w_sha w') (bt_difficulty (bp_tailer (w_parts w'))) = Some True)"
proof -
  define x where "x = SHA256_Double_Final ssl (w_partial w @ enc_tailer (bp_tailer (w_parts w)))"
  define w1 where "w1 = w\<lparr>w_sha := x\<rparr>"
  have w1: "gen_ok ssl w1" "w_trans_hashes w1 = w_trans_hashes w" "hash_block ssl (w_parts w1) = Some (w_sha w1)"
    using assms(1) gen_ok_hash[OF assms(1,2)] by (simp_all add: w1_def set_sha_ok x_def)
  obtain beats where b: "beats_target (w_sha w1) (bt_difficulty (bp_tailer (w_parts w1))) = Some beats"
    using assms(3) by (auto simp: solve_block_def Let_def bind_eq_Some_conv w1_def x_def)
  show ?thesis
  proof (cases beats)
    case True
    then have "solved \<and> w' = w1" using assms(3) b by (auto simp: solve_block_def Let_def w1_def x_def)
    then show ?thesis using w1 b True by simp
  next
    case False
    define n where "n = bt_nonce1 (bp_tailer (w_parts w1)) + 1"
    define w2 where "w2 = set_tailer (\<lambda>t. t\<lparr>bt_nonce1 := n\<rparr>) w1"
    define w3 where "w3 = set_tailer (\<lambda>t. t\<lparr>bt_timestamp := now\<rparr>) w2"
    have ok: "gen_ok ssl w2" "gen_ok ssl w3" "w_trans_hashes w2 = w_trans_hashes w" "w_trans_hashes w3 = w_trans_hashes w"
      using w1 by (simp_all add: w2_def w3_def set_tailer_ok) (simp_all add: set_tailer_def)
    have hdr: "wf_header (increment_nonce2 (bp_hdr (w_parts w3)))" "bh_features_vote (increment_nonce2 (bp_hdr (w_parts w3))) = 0"
      "bh_version (increment_nonce2 (bp_hdr (w_parts w3))) = current_version"
      using ok(2) by (simp_all add: gen_ok_def Let_def wf_header_def increment_nonce2_def)
    obtain w4 where w4: "update_partial_hash (w3\<lparr>w_parts := (w_parts w3)\<lparr>bp_hdr := increment_nonce2 (bp_hdr (w_parts w3))\<rparr>\<rparr>) = Some w4"
        "gen_ok ssl w4" "w_trans_hashes w4 = w_trans_hashes w3"
      using update_partial_ok[OF ok(2) hdr] by (auto simp: increment_nonce2_def)
    have b1: "beats_target (w_sha (w\<lparr>w_sha := x\<rparr>)) (bt_difficulty (bp_tailer (w_parts (w\<lparr>w_sha := x\<rparr>)))) = Some False"
      using b False by (simp add: w1_def)
    have "solve_block ssl now w =
        (if n AND 0xFFFF = 0
         then do { w4 \<leftarrow> (if n = 0 then update_partial_hash (w3\<lparr>w_parts := (w_parts w3)\<lparr>bp_hdr := increment_nonce2 (bp_hdr (w_parts w3))\<rparr>\<rparr>)
                         else Some w3); Some (False, w4) }
         else Some (False, w2))"
      unfolding solve_block_def Let_def x_def[symmetric] b1 w3_def w2_def n_def w1_def
      by (simp only: bind.bind_lunit if_False)
    then have "\<not> solved \<and> (w' = w2 \<or> w' = w3 \<or> w' = w4)"
      using assms(3) unfolding w4(1) by (simp split: if_splits)
    then show ?thesis using ok w4 by auto
  qed
qed

lemma no_feature: "snd (fold (add_feature features n) is (counts, 0)) = 0"
  by (induction "is" arbitrary: counts) (simp_all add: add_feature_def Let_def)

lemma add_tx_ok:
  assumes ok: "gen_ok ssl w" and h: "wf_txrefhash (gu_hashes u)" and add: "add_tx ssl w u = Some w'"
  shows "gen_ok ssl w' \<and> bp_tailer (w_parts w') = bp_tailer (w_parts w) \<and>
    bp_hdr (w_parts w') = bp_hdr (w_parts w)"
proof -
  let ?i = "unat (gu_shard u)" and ?off = "unat (gu_txoff u)"
  obtain num hs where s: "?i < length (bp_shard_nums (w_parts w))" "bp_shard_nums (w_parts w) ! ?i = num" "num < 255" "gu_txoff u \<le> num"
      "w_trans_hashes w ! ?i = hs"
    using add by (auto simp: add_tx_def Let_def bind_eq_Some_conv c_assert_def c_nth_def split: if_splits)
  have g: "length (w_trans_hashes w) = length (bp_shard_nums (w_parts w))" "length (bp_merkles (w_parts w)) = length (bp_shard_nums (w_parts w))"
    "length hs = unat num" "list_all wf_txrefhash hs" "unat (w_num_shards w) = length (bp_shard_nums (w_parts w))"
    using ok s by (auto simp: gen_ok_def Let_def)
  define ins where "ins = take ?off hs @ gu_hashes u # drop ?off hs"
  have num: "unat (num + 1) = Suc (unat num)" using s(3) unat_plus_one[of num 255] by (simp add: word_less_nat_alt)
  have off: "?off \<le> length hs" using s(4) g(3) by (simp add: word_le_nat_alt)
  have ins: "length ins = unat (num + 1)" "list_all wf_txrefhash ins"
    using off g(3,4) h num by (auto simp: ins_def list_all_iff dest: in_set_takeD in_set_dropD)
  define w1 where "w1 = w\<lparr>w_trans_hashes := (w_trans_hashes w)[?i := ins],
     w_parts := (w_parts w)\<lparr>bp_shard_nums := (bp_shard_nums (w_parts w))[?i := num + 1]\<rparr>, w_num_trans := w_num_trans w + 1\<rparr>"
  define ms where "ms = (bp_merkles (w_parts w))[?i := shard_root ssl ins]"
  have w2: "merkle_hash_shard ssl w1 ?i = Some (w1\<lparr>w_parts := (w_parts w1)\<lparr>bp_merkles := ms\<rparr>\<rparr>)"
    using merkle_hash_shard_ok[of ?i w1 ssl] s(1) g ins by (simp add: w1_def ms_def)
  define w3 where "w3 = w1\<lparr>w_parts := (w_parts w1)\<lparr>bp_merkles := ms\<rparr>, w_hash_of_merkles := SHA256_Double_Final ssl (concat ms)\<rparr>"
  have w3: "merkle_hash_changed ssl (w1\<lparr>w_parts := (w_parts w1)\<lparr>bp_merkles := ms\<rparr>\<rparr>) = Some w3"
    using g(2,5) by (simp add: merkle_hash_changed_def w3_def w1_def ms_def c_slice_all)
  obtain counts where f: "fold (add_feature (gu_features u) (w_num_trans w3)) [0..<8] (w_feature_counts w3, 0) = (counts, 0)"
    using no_feature[of "gu_features u" "w_num_trans w3" "[0..<8]" "w_feature_counts w3"] by (cases "fold (add_feature (gu_features u) (w_num_trans w3)) [0..<8] (w_feature_counts w3, 0)") simp
  have hdr: "(bp_hdr (w_parts w3))\<lparr>bh_features_vote := 0\<rparr> = bp_hdr (w_parts w)"
    using ok by (simp add: w3_def w1_def gen_ok_def Let_def)
  have "update_partial_hash (w3\<lparr>w_feature_counts := counts, w_parts := (w_parts w3)\<lparr>bp_hdr := bp_hdr (w_parts w)\<rparr>\<rparr>) = Some w'"
    using add s g w2 w3 f hdr
    by (simp add: add_tx_def Let_def c_assert_def c_nth_def ins_def[symmetric] w1_def[symmetric])
  then show ?thesis
    using ok g(1,2,5) s(1) ins
    by (auto simp: update_partial_hash_def gen_ok_def Let_def c_slice_all w3_def w1_def ms_def nth_list_update)
qed

text \<open>
  The working blocks of the generator: those it starts with, and what comes from them by a new nonce,
  by transactions the daemon sends, and by attempts that fail.
\<close>

inductive working :: "openssl \<Rightarrow> working_block \<Rightarrow> bool" for ssl where
  working_start: "new_working_block ssl now difficulty prev num_prev depth order prev_block fees_to = Some w \<Longrightarrow>
     length prev_block = 32 \<Longrightarrow> length fees_to = 20 \<Longrightarrow> working ssl w"
| working_nonce: "working ssl w \<Longrightarrow> set_nonce nonce w = Some w' \<Longrightarrow> working ssl w'"
| working_update: "working ssl w \<Longrightarrow> wf_txrefhash (gu_hashes u) \<Longrightarrow> add_tx ssl w u = Some w' \<Longrightarrow> working ssl w'"
| working_failed: "working ssl w \<Longrightarrow> solve_block ssl now w = Some (False, w') \<Longrightarrow> working ssl w'"

lemma working_ok: "working ssl w \<Longrightarrow> digest_ok ssl \<Longrightarrow> gen_ok ssl w"
proof (induction rule: working.induct)
  case (working_nonce w nonce w')
  then show ?case using set_nonce_ok[of ssl w nonce] by auto
qed (use new_working_block_ok add_tx_ok solve_block_ok in blast)+

lemma search_working:
  assumes "working ssl w" "\<forall>(us, now) \<in> set rounds. \<forall>u \<in> set us. wf_txrefhash (gu_hashes u)" "digest_ok ssl"
    and "search ssl rounds w = Some (solved, w')"
  shows "\<exists>w0 now. working ssl w0 \<and> (if solved then solve_block ssl now w0 = Some (True, w') else w' = w0)"
  using assms(1,2,4)
proof (induction ssl rounds w rule: search.induct)
  case (2 ssl us now rounds w)
  have read: "read_txs ssl w us = Some w1 \<Longrightarrow> working ssl w \<Longrightarrow> \<forall>u \<in> set us. wf_txrefhash (gu_hashes u) \<Longrightarrow> working ssl w1" for w w1
    by (induction us arbitrary: w) (auto simp: read_txs_def bind_eq_Some_conv intro: working_update)
  obtain w1 fin w2 where w1: "read_txs ssl w us = Some w1" "solve_block ssl now w1 = Some (fin, w2)"
      "(if fin then Some (True, w2) else search ssl rounds w2) = Some (solved, w')"
    using 2(4) by (auto simp: bind_eq_Some_conv)
  have start: "working ssl w1" using read[OF w1(1) 2(2)] 2(3) by simp
  show ?case
  proof (cases fin)
    case True
    then show ?thesis using start w1(2,3) by auto
  next
    case False
    then have "working ssl w2" using working_failed[OF start] w1(2) by simp
    then show ?thesis using 2(1)[OF w1(1) w1(2) refl] 2(3) w1(3) False by simp
  qed
qed auto

subsection \<open>The block that is found\<close>

lemma gen_ok_parts: "gen_ok ssl w \<Longrightarrow> digest_ok ssl \<Longrightarrow> wf_block_parts (w_parts w)"
proof -
  assume ok: "gen_ok ssl w" and ssl: "digest_ok ssl"
  have "length (shard_root ssl hs) = 32" for hs
    using ssl by (simp add: shard_root_def numeral_eq_Suc SHA256_Double_Final_def)
  then show ?thesis using ok by (auto simp: gen_ok_def Let_def wf_block_parts_def list_all_length)
qed

text \<open>
  C28. A block the generator finds is one the daemon can check: its hash, put together from parts that
  are kept up to date one by one, is the hash of the block, it meets the difficulty, and the shard
  counts and merkle roots are those of the transaction hashes that were sent.
\<close>

theorem generated_block_valid:
  assumes "working ssl w" "digest_ok ssl" "\<forall>(us, now) \<in> set rounds. \<forall>u \<in> set us. wf_txrefhash (gu_hashes u)"
    and "search ssl rounds w = Some (True, w')"
  shows "hash_block ssl (w_parts w') = Some (w_sha w') \<and>
    beats_target (w_sha w') (bt_difficulty (bp_tailer (w_parts w'))) = Some True \<and> wf_block_parts (w_parts w') \<and>
    (\<forall>i < 2 ^ unat (bh_shard_order (bp_hdr (w_parts w'))).
      unat (bp_shard_nums (w_parts w') ! i) = length (w_trans_hashes w' ! i) \<and>
      bp_merkles (w_parts w') ! i = shard_root ssl (w_trans_hashes w' ! i))"
proof -
  obtain w0 now where w0: "working ssl w0" "solve_block ssl now w0 = Some (True, w')"
    using search_working[OF assms(1,3,2,4)] by auto
  have s: "gen_ok ssl w'" "hash_block ssl (w_parts w') = Some (w_sha w')"
      "beats_target (w_sha w') (bt_difficulty (bp_tailer (w_parts w'))) = Some True"
    using solve_block_ok[OF working_ok[OF w0(1) assms(2)] assms(2) w0(2)] by auto
  then show ?thesis using gen_ok_parts[OF s(1) assms(2)] by (auto simp: gen_ok_def Let_def)
qed

text \<open>
  The generator counts the votes of transactions for features, but starts from no features and
  only ever takes features away: it never votes for one.
\<close>

theorem generator_never_votes:
  assumes "working ssl w" "digest_ok ssl"
  shows "bh_features_vote (bp_hdr (w_parts w)) = 0"
  using working_ok[OF assms] by (simp add: gen_ok_def Let_def)

lemma append_list_ok:
  assumes "list_all wf_txrefhash hs" "pkt_ok r" "length r + 64 * n < 2 ^ 32" "n \<le> length hs"
  shows "\<exists>r'. ofold (\<lambda>i s. do { h \<leftarrow> c_nth hs i; tal_packet_append_txrefhash s h }) [0..<n] r = Some r' \<and> pkt_ok r' \<and>
    drop 4 r' = drop 4 r @ concat (map enc_txrefhash (take n hs))"
  using assms(3,4)
proof (induction n)
  case (Suc n)
  then obtain r' where r': "ofold (\<lambda>i s. do { h \<leftarrow> c_nth hs i; tal_packet_append_txrefhash s h }) [0..<n] r = Some r'" "pkt_ok r'"
    "drop 4 r' = drop 4 r @ concat (map enc_txrefhash (take n hs))" by auto
  have wf: "list_all wf_txrefhash (take n hs)" "wf_txrefhash (hs ! n)"
    using assms(1) Suc.prems(2) by (auto simp: list_all_length)
  have "length r' = length r + 64 * n"
    using arg_cong[OF r'(3), of length] r'(2) assms(2) length_concat_trh[OF wf(1)] Suc.prems(2)
    by (simp add: pkt_ok_def, linarith)
  then obtain r2 where "tal_packet_append r' (enc_txrefhash (hs ! n)) = Some r2" "pkt_ok r2"
    "drop 4 r2 = drop 4 r' @ enc_txrefhash (hs ! n)"
    using tal_packet_append_ok[OF r'(2), of "enc_txrefhash (hs ! n)"] dec_enc_txrefhash[OF wf(2)] Suc.prems(1) by auto
  then show ?case
    using r'(1,3) Suc.prems(2) by (simp add: append_trh_eq take_Suc_conv_app_nth c_nth_def)
qed (use assms(2) in simp)

lemma write_shard_ok:
  assumes "gen_ok ssl w" "length (w_sha w) = 32" "i < length (w_trans_hashes w)"
  shows "\<exists>r. write_shard w i = Some r \<and> pkt_ok r \<and>
    drop 8 r = w_sha w @ cpu_to_le16 (word_of_nat i) @ cpu_to_le16 0 @ concat (map enc_txrefhash (w_trans_hashes w ! i))"
proof -
  have none: "ucast (ecode_code PROTOCOL_ECODE_NONE) = (0 :: u16)" by (simp add: ecode_code_def all_ecodes_def)
  let ?hs = "w_trans_hashes w ! i"
  have g: "list_all wf_txrefhash ?hs" "c_nth (w_trans_hashes w) i = Some ?hs" "c_nth (bp_shard_nums (w_parts w)) i = Some (word_of_nat (length ?hs))"
      "length ?hs = unat (bp_shard_nums (w_parts w) ! i)"
    using assms(1,3) by (auto simp: gen_ok_def Let_def c_nth_def)
  obtain r0 where r0: "tal_packet PROTOCOL_PKT_SHARD (w_sha w @ cpu_to_le16 (word_of_nat i) @ cpu_to_le16 0) = Some r0" "pkt_ok r0"
    "drop 4 r0 = cpu_to_le32 PROTOCOL_PKT_SHARD @ w_sha w @ cpu_to_le16 (word_of_nat i) @ cpu_to_le16 0"
    using tal_packet_ok[of "w_sha w @ cpu_to_le16 (word_of_nat i) @ cpu_to_le16 0" PROTOCOL_PKT_SHARD] assms(2)
    by (auto simp: cpu_to_le16_def PROTOCOL_MAX_PACKET_LEN_def)
  have l0: "length r0 = 44"
    using arg_cong[OF r0(3), of length] r0(2) assms(2) by (simp add: pkt_ok_def cpu_to_le32_def cpu_to_le16_def)
  have "length r0 + 64 * length ?hs < 44 + 64 * 256" using l0 g(4) unat_u8[of "bp_shard_nums (w_parts w) ! i"] by linarith
  also have "\<dots> < 2 ^ 32" by simp
  finally obtain r' where r': "ofold (\<lambda>i s. do { h \<leftarrow> c_nth ?hs i; tal_packet_append_txrefhash s h }) [0..<length ?hs] r0 = Some r'"
    "pkt_ok r'" "drop 4 r' = drop 4 r0 @ concat (map enc_txrefhash ?hs)"
    using append_list_ok[OF g(1) r0(2), of "length ?hs"] by auto
  have "drop 8 r' = drop 4 (drop 4 r')" by simp
  then show ?thesis using r' r0 g none by (simp add: write_shard_def cpu_to_le32_def)
qed

text \<open>
  The shard packets the generator writes pass the check of the merkle root: a daemon that has the
  generated block stores their hashes.
\<close>

theorem generated_shards_accepted:
  assumes "working (rt_ssl rt) w" "digest_ok (rt_ssl rt)" "\<forall>(us, now) \<in> set rounds. \<forall>u \<in> set us. wf_txrefhash (gu_hashes u)"
    and "search (rt_ssl rt) rounds w = Some (True, w')"
    and b: "block_find_any s (w_sha w') = Some (Some b)" "st_heap s b = Some bb" "b_complaint bb = None" "b_parts bb = w_parts w'"
    and i: "i < unat (w_num_shards w')" "unat (w_num_shards w') \<le> 2 ^ 16" "w_trans_hashes w' ! i \<noteq> []"
  shows "\<exists>r. write_shard w' i = Some r \<and>
    recv_shard rt s None r =
      do { s1 \<leftarrow> put_hashes rt b (word_of_nat i) (w_trans_hashes w' ! i) [0..<length (w_trans_hashes w' ! i)] s;
           s2 \<leftarrow> try_resolve_hashes rt s1 None b (word_of_nat i) False;
           Some (PROTOCOL_ECODE_NONE, s2) }"
proof -
  obtain w0 now where w0: "working (rt_ssl rt) w0" "solve_block (rt_ssl rt) now w0 = Some (True, w')"
    using search_working[OF assms(1,3,2,4)] by auto
  have ok: "gen_ok (rt_ssl rt) w'" "hash_block (rt_ssl rt) (w_parts w') = Some (w_sha w')"
    using solve_block_ok[OF working_ok[OF w0(1) assms(2)] assms(2) w0(2)] by auto
  have sha: "length (w_sha w') = 32"
  proof -
    have "w_sha w' = SHA256_Double_Final (rt_ssl rt) (w_partial w' @ enc_tailer (bp_tailer (w_parts w')))"
      using ok(2) gen_ok_hash[OF ok(1) assms(2)] by simp
    then show ?thesis using assms(2) by (simp add: SHA256_Double_Final_def)
  qed
  have g: "i < length (w_trans_hashes w')" "i < length (bp_shard_nums (w_parts w'))" "i < length (bp_merkles (w_parts w'))"
      "unat (bp_shard_nums (w_parts w') ! i) = length (w_trans_hashes w' ! i)" "list_all wf_txrefhash (w_trans_hashes w' ! i)"
      "bp_merkles (w_parts w') ! i = shard_root (rt_ssl rt) (w_trans_hashes w' ! i)"
    using ok(1) i(1) by (auto simp: gen_ok_def Let_def)
  have g7: "num_shards (bp_hdr (w_parts w')) = w_num_shards w'"
  proof -
    have u: "unat (w_num_shards w') = 2 ^ unat (bh_shard_order (bp_hdr (w_parts w')))" using ok(1) by (auto simp: gen_ok_def Let_def)
    then have "word_of_nat (2 ^ unat (bh_shard_order (bp_hdr (w_parts w')))) = w_num_shards w'" by (simp flip: u)
    then show ?thesis by (simp add: num_shards_def push_bit_eq_mult)
  qed
  have ui: "unat (word_of_nat i :: u16) = i" using i(1,2) by (simp add: unat_of_nat take_bit_nat_eq_self)
  obtain r where r: "write_shard w' i = Some r" "pkt_ok r"
      "drop 8 r = w_sha w' @ cpu_to_le16 (word_of_nat i) @ cpu_to_le16 0 @ concat (map enc_txrefhash (w_trans_hashes w' ! i))"
    using write_shard_ok[OF ok(1) sha g(1)] by blast
  have n0: "bp_shard_nums (w_parts w') ! i \<noteq> 0" using g(4) i(3) by (auto simp: unat_eq_0)
  have lt: "ucast (word_of_nat i :: u16) < num_shards (bp_hdr (bb_parts))" if "bb_parts = w_parts w'" for bb_parts
    using i(1) ui g7 that by (simp add: word_less_nat_alt unat_ucast_u16_u32)
  have "recv_shard rt s None r =
      do { s1 \<leftarrow> Some s;
           s2 \<leftarrow> put_hashes rt b (word_of_nat i) (w_trans_hashes w' ! i) [0..<unat (bp_shard_nums (w_parts w') ! i)] s1;
           s3 \<leftarrow> try_resolve_hashes rt s2 None b (word_of_nat i) (None \<noteq> (None :: nat option));
           Some (PROTOCOL_ECODE_NONE, s3) }"
    using recv_shard_hashes[OF r(2,3) sha g(5) _ n0 b(1-3), where pr = None and rt = rt, simplified option.case]
      b(4) lt[OF b(4)] ui g by (simp add: c_nth_def)
  then show ?thesis using r(1) g(4) by simp
qed

subsection \<open>Examples\<close>

definition ex_update :: gen_update where
  "ex_update = \<lparr>gu_shard = 0, gu_txoff = 0, gu_features = 1, gu_hashes = ex_trh\<rparr>"

abbreviation "zero_ssl \<equiv> rt_ssl zero_runtime"

lemma zero_ssl_ok: "digest_ok zero_ssl"
  by (simp add: zero_runtime_def digest_ok_def model_openssl_def model_digest_def)

lemma zero_beats: "beats_target (replicate 32 0) 0x1E01FFFF = Some True"
  by code_simp

lemma ex_working:
  "\<exists>w. new_working_block zero_ssl 1000 0x1E01FFFF [8, 0] 1 1 0 (nat_le 32 0) (replicate 20 4) = Some w \<and> working zero_ssl w \<and>
     bt_difficulty (bp_tailer (w_parts w)) = 0x1E01FFFF \<and> w_num_shards w = 1 \<and> bp_shard_nums (w_parts w) = [0] \<and>
     w_trans_hashes w = [[]]"
proof -
  obtain w where w: "new_working_block zero_ssl 1000 0x1E01FFFF [8, 0] 1 1 0 (nat_le 32 0) (replicate 20 4) = Some w"
      "bt_difficulty (bp_tailer (w_parts w)) = 0x1E01FFFF" "w_num_shards w = 1" "bp_shard_nums (w_parts w) = [0]"
      "w_trans_hashes w = [[]]"
    using merkle_hashes_root[of "[]" zero_ssl]
    by (simp add: new_working_block_def c_assert_def c_slice_def merkle_hash_shard_def c_nth_def merkle_hash_changed_def update_partial_hash_def)
  have "working zero_ssl w" by (rule working_start[OF w(1)]) simp_all
  then show ?thesis using w by blast
qed

lemma ex_search:
  "\<exists>w w'. working zero_ssl w \<and> search zero_ssl [([ex_update], 2000)] w = Some (True, w') \<and> w_trans_hashes w' = [[ex_trh]] \<and>
     w_num_shards w' = 1 \<and> w_sha w' = replicate 32 0"
proof -
  obtain w where w: "working zero_ssl w" "bt_difficulty (bp_tailer (w_parts w)) = 0x1E01FFFF" "w_num_shards w = 1"
      "bp_shard_nums (w_parts w) = [0]" "w_trans_hashes w = [[]]"
    using ex_working by blast
  have ok: "gen_ok zero_ssl w" by (rule working_ok[OF w(1) zero_ssl_ok])
  then have m: "length (bp_merkles (w_parts w)) = 1" using w by (simp add: gen_ok_def Let_def)
  have "list_all wf_txrefhash [ex_trh]" by (simp add: ex_trh_def wf_txrefhash_def)
  then obtain w1 where w1: "add_tx zero_ssl w ex_update = Some w1" "w_trans_hashes w1 = [[ex_trh]]" "w_num_shards w1 = 1"
      "bp_tailer (w_parts w1) = bp_tailer (w_parts w)"
    using w m merkle_hashes_root[of "[ex_trh]" zero_ssl]
    by (simp add: add_tx_def c_assert_def c_nth_def ex_update_def merkle_hash_shard_def merkle_hash_changed_def c_slice_def
        update_partial_hash_def Let_def split_beta)
  have "solve_block zero_ssl 2000 w1 = Some (True, w1\<lparr>w_sha := replicate 32 0\<rparr>)"
    using w(2) w1(4) by (simp add: solve_block_def zero_digest zero_beats)
  then have "search zero_ssl [([ex_update], 2000)] w = Some (True, w1\<lparr>w_sha := replicate 32 0\<rparr>)"
    using w1(1) by (simp add: read_txs_def)
  then show ?thesis using w(1) w1 by (intro exI[of _ w] exI[of _ "w1\<lparr>w_sha := replicate 32 0\<rparr>"]) simp
qed

lemma ex_rounds: "\<forall>(us, now) \<in> set [([ex_update], 2000 :: u32)]. \<forall>u \<in> set us. wf_txrefhash (gu_hashes u)"
  by (simp add: ex_update_def ex_trh_def wf_txrefhash_def)

theorem generated_block_valid_witness:
  "\<exists>w w'. search zero_ssl [([ex_update], 2000)] w = Some (True, w') \<and> w_trans_hashes w' = [[ex_trh]] \<and>
    hash_block zero_ssl (w_parts w') = Some (w_sha w') \<and> wf_block_parts (w_parts w')"
proof -
  obtain w w' where w: "working zero_ssl w" "search zero_ssl [([ex_update], 2000)] w = Some (True, w')" "w_trans_hashes w' = [[ex_trh]]"
    using ex_search by blast
  show ?thesis using generated_block_valid[OF w(1) zero_ssl_ok ex_rounds w(2)] w by blast
qed

theorem generator_never_votes_witness:
  "\<exists>w. new_working_block zero_ssl 1000 0x1E01FFFF [8, 0] 1 1 0 (nat_le 32 0) (replicate 20 4) = Some w \<and>
    bh_features_vote (bp_hdr (w_parts w)) = 0"
  using ex_working generator_never_votes[OF _ zero_ssl_ok] by blast

theorem generated_shards_accepted_witness:
  "\<exists>w w' s r. search zero_ssl [([ex_update], 2000)] w = Some (True, w') \<and> w_trans_hashes w' = [[ex_trh]] \<and>
    write_shard w' 0 = Some r \<and>
    recv_shard zero_runtime s None r =
      do { s1 \<leftarrow> put_hashes zero_runtime 0 0 [ex_trh] [0] s;
           s2 \<leftarrow> try_resolve_hashes zero_runtime s1 None 0 0 False;
           Some (PROTOCOL_ECODE_NONE, s2) }"
proof -
  obtain w w' where w: "working zero_ssl w" "search zero_ssl [([ex_update], 2000)] w = Some (True, w')" "w_trans_hashes w' = [[ex_trh]]"
      "w_num_shards w' = 1" "w_sha w' = replicate 32 0"
    using ex_search by blast
  define bb where "bb = (ex_block 0 0)\<lparr>b_parts := w_parts w'\<rparr>"
  define s where "s = (ex_state 0)\<lparr>st_heap := [0 \<mapsto> bb]\<rparr>"
  have b: "block_find_any s (w_sha w') = Some (Some 0)" "st_heap s 0 = Some bb" "b_complaint bb = None" "b_parts bb = w_parts w'"
    using w(5) by (simp_all add: s_def bb_def block_find_any_def ex_state_def ex_block_def nat_le_0)
  obtain r where "write_shard w' 0 = Some r" "recv_shard zero_runtime s None r =
      do { s1 \<leftarrow> put_hashes zero_runtime 0 0 [ex_trh] [0] s;
           s2 \<leftarrow> try_resolve_hashes zero_runtime s1 None 0 0 False;
           Some (PROTOCOL_ECODE_NONE, s2) }"
    using generated_shards_accepted[OF w(1) zero_ssl_ok ex_rounds w(2) b, of 0] w(3,4) by auto
  then show ?thesis using w(2,3) by blast
qed

end
