(* ===== verification/Generating.thy ===== *)
theory Generating
  imports Generate
begin

text \<open>
  \<open>generating.c\<close>: the daemon's side of the block generator. It starts the program with the fields of
  the next header, sends it the hashes of the pending transactions, first all of them and then each
  new one, and takes the block it finds. Two connections lead to the program; the last to close reaps
  the process. Pipes, \<open>fork\<close> and \<open>exec\<close> are not modelled.
\<close>

subsection \<open>The code\<close>

record gen_args =
  ga_fees_to :: string
  ga_difficulty :: u32
  ga_prevblock :: string
  ga_num_prev :: u32
  ga_depth :: u32
  ga_shard_order :: u8
  ga_nonce :: bytes

record generator =
  g_shard_order :: u8
  g_updates :: "gen_update list"
    \<comment> \<open>not sent yet\<close>
  g_sent :: "gen_update list"
    \<comment> \<open>what was written to the program\<close>
  g_update :: bool
  g_answer :: bool
    \<comment> \<open>whether the connections are open\<close>
  g_solution :: "(bytes \<times> bytes list) option"

fun tx_feature_bits :: "protocol_tx \<Rightarrow> u8" where
  "tx_feature_bits (Normal t) = tx_features t"
| "tx_feature_bits (From_gateway t) = tx_features t"
| "tx_feature_bits (To_gateway t) = tx_features t"
| "tx_feature_bits (Claim t) = tx_features t"

definition add_update :: "openssl \<Rightarrow> pending_tx \<Rightarrow> nat \<Rightarrow> nat \<Rightarrow> generator \<Rightarrow> generator option" where
  "add_update ssl t shard txoff gen =
     do { h \<leftarrow> hash_tx_and_refs ssl (pt_tx t) (pt_refs t);
          let update = \<lparr>gu_shard = word_of_nat shard, gu_txoff = word_of_nat txoff,
                        gu_features = ucast (tx_feature_bits (pt_tx t)), gu_hashes = h\<rparr>;
          c_assert (unat (gu_shard update) = shard);
          c_assert (unat (gu_txoff update) = txoff);
          Some (gen\<lparr>g_updates := g_updates gen @ [update]\<rparr>) }"

definition add_shard_updates :: "openssl \<Rightarrow> pending_tx list \<Rightarrow> nat \<Rightarrow> generator \<Rightarrow> generator option" where
  "add_shard_updates ssl pend shard gen =
     ofold (\<lambda>i gen. do { t \<leftarrow> c_nth pend i; add_update ssl t shard i gen }) [0..<length pend] gen"

definition init_updates :: "openssl \<Rightarrow> state \<Rightarrow> generator \<Rightarrow> generator option" where
  "init_updates ssl s gen =
     ofold (\<lambda>shard gen. do { pend \<leftarrow> c_nth (pb_pend (st_pending s)) shard; add_shard_updates ssl pend shard gen })
       [0..<length (pb_pend (st_pending s))] (gen\<lparr>g_updates := []\<rparr>)"

definition hex_upper :: "bytes \<Rightarrow> string" where
  \<comment> \<open>\<open>sprintf\<close> of every byte with \<^verbatim>\<open>%02X\<close>\<close>
  "hex_upper bs = concat (map (\<lambda>b. [''0123456789ABCDEF'' ! (unat b div 16), ''0123456789ABCDEF'' ! (unat b mod 16)]) bs)"

definition exec_generator ::
    "runtime \<Rightarrow> state \<Rightarrow> address \<Rightarrow> bytes \<Rightarrow> (gen_args \<times> bytes \<times> generator) option" where
  \<comment> \<open>the arguments of the program, what is written to it first, and the generator; \<open>random\<close> are 14
     numbers below 224. The numbers are written in decimal and read back by \<open>strtoul\<close>\<close>
  "exec_generator rt s reward_addr random =
     do { lk \<leftarrow> c_nth (st_longest_knowns s) 0;
          lb \<leftarrow> st_heap s lk;
          prev \<leftarrow> make_prev_txhashes (rt_ssl rt) (st_heap s) (Some lk) reward_addr;
          let prev_txhashes = (case prev of None \<Rightarrow> [] | Some p \<Rightarrow> p);
          difficulty \<leftarrow> get_difficulty (rt_ssl rt) s lk;
          let order = bh_shard_order (b_hdr lb);
          gen \<leftarrow> init_updates (rt_ssl rt) s
            \<lparr>g_shard_order = order, g_updates = [], g_sent = [], g_update = True, g_answer = True, g_solution = None\<rparr>;
          Some (\<lparr>ga_fees_to = hex_upper reward_addr, ga_difficulty = difficulty, ga_prevblock = hex_upper (b_sha lb),
                 ga_num_prev = word_of_nat (length prev_txhashes), ga_depth = bh_depth (b_hdr lb) + 1,
                 ga_shard_order = order, ga_nonce = map (\<lambda>r. 32 + r) random\<rparr>,
                prev_txhashes @ [0], gen) }"

datatype update_plan =
    Write_update gen_update
  | Wait_for_update

definition do_send_tx :: "generator \<Rightarrow> update_plan option" where
  "do_send_tx gen =
     do { c_assert (g_update gen);
          Some (case g_updates gen of [] \<Rightarrow> Wait_for_update | u # us \<Rightarrow> Write_update u) }"

definition tx_sent :: "generator \<Rightarrow> (generator \<times> update_plan) option" where
  "tx_sent gen =
     do { c_assert (g_update gen);
          u \<leftarrow> c_nth (g_updates gen) 0;
          let gen1 = gen\<lparr>g_updates := tl (g_updates gen), g_sent := g_sent gen @ [u]\<rparr>;
          plan \<leftarrow> do_send_tx gen1;
          Some (gen1, plan) }"

definition got_solution :: "bytes \<Rightarrow> generator \<Rightarrow> generator" where
  "got_solution pkt gen = gen\<lparr>g_solution := Some (pkt, [])\<rparr>"

definition got_shard ::
    "runtime \<Rightarrow> bptr \<Rightarrow> bytes \<Rightarrow> generator \<Rightarrow> state \<Rightarrow> (bool \<times> generator \<times> state) option" where
  \<comment> \<open>whether the connection is closed: all shards have been read and the block was given to the daemon\<close>
  "got_shard rt new pkt gen s =
     do { (block, shards) \<leftarrow> g_solution gen;
          let gen1 = gen\<lparr>g_solution := Some (block, shards @ [pkt])\<rparr>;
          if length (shards @ [pkt]) \<noteq> 2 ^ unat (g_shard_order gen) then Some (False, gen1, s)
          else do {
            (good, s1) \<leftarrow> recv_block_from_generator rt s new block (shards @ [pkt]);
            Some (True, gen1, s1) } }"

datatype exit_status =
    Not_reaped
  | Killed_by nat
  | Exited nat

definition reap_ok :: "nat \<Rightarrow> exit_status \<Rightarrow> bool" where
  \<comment> \<open>the verdict of \<open>reap_generator\<close>; \<open>sigusr1\<close> is the number of that signal\<close>
  "reap_ok sigusr1 status =
     (case status of
        Not_reaped \<Rightarrow> False
      | Killed_by sig \<Rightarrow> sig = sigusr1
      | Exited code \<Rightarrow> code = 0)"

record generating =
  gs_gen :: bool
    \<comment> \<open>\<open>state->gen\<close> is the generator that runs\<close>
  gs_running :: "generator option"
    \<comment> \<open>the generator whose connections are open\<close>
  gs_started :: "(gen_args \<times> bytes) list"

definition start_generating ::
    "runtime \<Rightarrow> state \<Rightarrow> address option \<Rightarrow> bytes \<Rightarrow> generating \<Rightarrow> generating option" where
  "start_generating rt s reward_addr random gs =
     (case reward_addr of
        None \<Rightarrow> Some (gs\<lparr>gs_gen := False\<rparr>)
      | Some addr \<Rightarrow> do {
          (args, first, gen) \<leftarrow> exec_generator rt s addr random;
          Some (gs\<lparr>gs_gen := True, gs_running := Some gen, gs_started := gs_started gs @ [(args, first)]\<rparr>) })"

definition reap_generator ::
    "runtime \<Rightarrow> state \<Rightarrow> address option \<Rightarrow> bytes \<Rightarrow> nat \<Rightarrow> exit_status \<Rightarrow> generating \<Rightarrow> generating option" where
  "reap_generator rt s reward_addr random sigusr1 status gs =
     do { gen \<leftarrow> gs_running gs;
          c_assert (\<not> g_answer gen); c_assert (\<not> g_update gen);
          let gs1 = gs\<lparr>gs_gen := False, gs_running := None\<rparr>;
          if reap_ok sigusr1 status then start_generating rt s reward_addr random gs1 else Some gs1 }"

definition finish_update :: "generating \<Rightarrow> (bool \<times> generating) option" where
  \<comment> \<open>whether the process is to be reaped now; else the other connection is closed as well\<close>
  "finish_update gs =
     do { gen \<leftarrow> gs_running gs;
          c_assert (g_update gen);
          Some (\<not> g_answer gen, gs\<lparr>gs_running := Some (gen\<lparr>g_update := False\<rparr>)\<rparr>) }"

definition finish_answer :: "generating \<Rightarrow> (bool \<times> generating) option" where
  "finish_answer gs =
     do { gen \<leftarrow> gs_running gs;
          c_assert (g_answer gen);
          Some (\<not> g_update gen, gs\<lparr>gs_running := Some (gen\<lparr>g_answer := False\<rparr>)\<rparr>) }"

definition tell_generator_new_pending :: "openssl \<Rightarrow> state \<Rightarrow> nat \<Rightarrow> nat \<Rightarrow> generating \<Rightarrow> generating option" where
  "tell_generator_new_pending ssl s shard txoff gs =
     (if \<not> gs_gen gs then Some gs
      else do {
        gen \<leftarrow> gs_running gs;
        pend \<leftarrow> c_nth (pb_pend (st_pending s)) shard;
        t \<leftarrow> c_nth pend txoff;
        gen1 \<leftarrow> add_update ssl t shard txoff gen;
        Some (gs\<lparr>gs_running := Some gen1\<rparr>) })"

definition restart_generating :: "generating \<Rightarrow> generating" where
  \<comment> \<open>the process gets a signal; what it was sent no longer matters\<close>
  "restart_generating gs = gs\<lparr>gs_gen := False\<rparr>"

subsection \<open>What the program knows\<close>

definition apply_update :: "gen_update \<Rightarrow> protocol_txrefhash list list \<Rightarrow> protocol_txrefhash list list" where
  \<comment> \<open>what an update does to the hashes of the program\<close>
  "apply_update u ths =
     (let i = unat (gu_shard u); off = unat (gu_txoff u)
      in ths[i := take off (ths ! i) @ gu_hashes u # drop off (ths ! i)])"

definition update_fits :: "protocol_txrefhash list list \<Rightarrow> gen_update \<Rightarrow> bool" where
  "update_fits ths u \<longleftrightarrow> unat (gu_shard u) < length ths \<and> unat (gu_txoff u) \<le> length (ths ! unat (gu_shard u)) \<and>
     length (ths ! unat (gu_shard u)) < 255 \<and> wf_txrefhash (gu_hashes u)"

fun updates_fit :: "protocol_txrefhash list list \<Rightarrow> gen_update list \<Rightarrow> bool" where
  "updates_fit ths [] \<longleftrightarrow> True"
| "updates_fit ths (u # us) \<longleftrightarrow> update_fits ths u \<and> updates_fit (apply_update u ths) us"

lemma updates_fit_append [simp]:
  "updates_fit ths (us @ vs) \<longleftrightarrow> updates_fit ths us \<and> updates_fit (fold apply_update us ths) vs"
  by (induction us arbitrary: ths) simp_all

lemma add_tx_total:
  assumes ok: "gen_ok ssl w" and fits: "update_fits (w_trans_hashes w) u"
  shows "\<exists>w'. add_tx ssl w u = Some w' \<and> w_trans_hashes w' = apply_update u (w_trans_hashes w)"
proof -
  let ?i = "unat (gu_shard u)" and ?off = "unat (gu_txoff u)"
  let ?hs = "w_trans_hashes w ! ?i" and ?n = "bp_shard_nums (w_parts w) ! unat (gu_shard u)"
  have g: "?i < length (bp_shard_nums (w_parts w))" "length (w_trans_hashes w) = length (bp_shard_nums (w_parts w))"
    "length (bp_merkles (w_parts w)) = length (bp_shard_nums (w_parts w))" "length ?hs = unat ?n" "list_all wf_txrefhash ?hs"
    "unat (w_num_shards w) = length (bp_shard_nums (w_parts w))"
    using ok fits by (auto simp: gen_ok_def Let_def update_fits_def)
  have n: "?n < 255" "gu_txoff u \<le> ?n" "unat (?n + 1) = Suc (unat ?n)"
    using fits g(4) unat_plus_one[of ?n 255] by (simp_all add: update_fits_def word_less_nat_alt word_le_nat_alt)
  define hs where "hs = take ?off ?hs @ gu_hashes u # drop ?off ?hs"
  have hs: "length hs = unat (?n + 1)" "list_all wf_txrefhash hs"
    using fits g(4,5) n by (auto simp: hs_def update_fits_def list_all_iff dest: in_set_takeD in_set_dropD)
  obtain m where m: "merkle_hashes ssl hs 0 (length hs) = Some m" using merkle_hashes_root[OF hs(2)] by blast
  show ?thesis
    using g n hs(1) m
    by (simp add: add_tx_def c_assert_def c_nth_def merkle_hash_shard_def merkle_hash_changed_def c_slice_all
        update_partial_hash_def Let_def split_beta apply_update_def flip: hs_def)
qed

lemma read_txs_total:
  "gen_ok ssl w \<Longrightarrow> updates_fit (w_trans_hashes w) us \<Longrightarrow>
   \<exists>w'. read_txs ssl w us = Some w' \<and> gen_ok ssl w' \<and> w_trans_hashes w' = fold apply_update us (w_trans_hashes w)"
proof (induction us arbitrary: w)
  case (Cons u us)
  then obtain w1 where w1: "add_tx ssl w u = Some w1" "w_trans_hashes w1 = apply_update u (w_trans_hashes w)"
    using add_tx_total[of ssl w u] by auto
  have "gen_ok ssl w1" using add_tx_ok[OF Cons.prems(1) _ w1(1)] Cons.prems(2) by (simp add: update_fits_def)
  then show ?case using Cons.IH[of w1] Cons.prems(2) w1 by (auto simp: read_txs_def)
qed (simp add: read_txs_def)

subsection \<open>The program keeps up with the pending transactions\<close>

definition all_updates :: "generator \<Rightarrow> gen_update list" where
  "all_updates gen = g_sent gen @ g_updates gen"

definition gen_view :: "generator \<Rightarrow> protocol_txrefhash list list" where
  \<comment> \<open>the hashes of the program once it has read everything\<close>
  "gen_view gen = fold apply_update (all_updates gen) (replicate 4 [])"

definition hash_is :: "openssl \<Rightarrow> protocol_txrefhash \<Rightarrow> pending_tx \<Rightarrow> bool" where
  "hash_is ssl h t \<longleftrightarrow> hash_tx_and_refs ssl (pt_tx t) (pt_refs t) = Some h"

definition tracks :: "openssl \<Rightarrow> generator \<Rightarrow> pending_tx list list \<Rightarrow> bool" where
  "tracks ssl gen pends \<longleftrightarrow> list_all2 (list_all2 (hash_is ssl)) (gen_view gen) pends \<and>
     updates_fit (replicate 4 []) (all_updates gen)"

lemma length_apply [simp]: "length (apply_update u ths) = length ths"
  by (simp add: apply_update_def Let_def)

lemma length_view [simp]: "length (gen_view gen) = 4"
proof -
  have "length (fold apply_update us ths) = length ths" for us ths by (induction us arbitrary: ths) simp_all
  then show ?thesis by (simp add: gen_view_def)
qed

lemma hash_wf: "digest_ok ssl \<Longrightarrow> hash_tx_and_refs ssl tx refs = Some h \<Longrightarrow> wf_txrefhash h"
  by (auto simp: hash_tx_and_refs_def hash_tx_def hash_refs_def bind_eq_Some_conv wf_txrefhash_def SHA256_Double_Final_def)

lemma add_update_tracks:
  assumes tr: "tracks ssl gen pends" and i: "i < 4" and off: "off \<le> length (pends ! i)" "length (pends ! i) < 255"
    and add: "add_update ssl t i off gen = Some gen'" and ssl: "digest_ok ssl"
  shows "tracks ssl gen' (pends[i := take off (pends ! i) @ t # drop off (pends ! i)]) \<and> g_sent gen' = g_sent gen"
proof -
  obtain h where h: "hash_tx_and_refs ssl (pt_tx t) (pt_refs t) = Some h"
    and g: "gen' = gen\<lparr>g_updates := g_updates gen @ [\<lparr>gu_shard = word_of_nat i, gu_txoff = word_of_nat off,
      gu_features = ucast (tx_feature_bits (pt_tx t)), gu_hashes = h\<rparr>]\<rparr>"
    and u: "unat (word_of_nat i :: u16) = i" "unat (word_of_nat off :: u8) = off"
    using add by (auto simp: add_update_def bind_eq_Some_conv c_assert_def split: if_splits)
  let ?v = "gen_view gen"
  have v: "list_all2 (list_all2 (hash_is ssl)) ?v pends" using tr by (simp add: tracks_def)
  then have vi: "list_all2 (hash_is ssl) (?v ! i) (pends ! i)" "length (?v ! i) = length (pends ! i)" "length pends = 4"
    using i by (auto simp: list_all2_conv_all_nth)
  have view: "gen_view gen' = ?v[i := take off (?v ! i) @ h # drop off (?v ! i)]"
    using g u by (simp add: gen_view_def all_updates_def apply_update_def)
  have "list_all2 (hash_is ssl) (take off (?v ! i) @ h # drop off (?v ! i)) (take off (pends ! i) @ t # drop off (pends ! i))"
    using vi(1) h by (simp add: list_all2_appendI list_all2_takeI list_all2_dropI hash_is_def)
  then have "list_all2 (list_all2 (hash_is ssl)) (gen_view gen') (pends[i := take off (pends ! i) @ t # drop off (pends ! i)])"
    unfolding view by (rule list_all2_update_cong[OF v])
  moreover have "updates_fit (replicate 4 []) (all_updates gen')"
    using tr g u i off vi(2) hash_wf[OF ssl h] length_view[of gen]
    by (simp add: tracks_def all_updates_def update_fits_def gen_view_def)
  ultimately show ?thesis using g by (simp add: tracks_def)
qed

lemma add_shard_tracks:
  assumes tr: "tracks ssl gen pends" and i: "i < 4" and e: "pends ! i = []" and n: "length pend \<le> 255" and ssl: "digest_ok ssl"
    and k: "k \<le> length pend"
    and add: "ofold (\<lambda>j gen. do { t \<leftarrow> c_nth pend j; add_update ssl t i j gen }) [0..<k] gen = Some gen'"
  shows "tracks ssl gen' (pends[i := take k pend]) \<and> g_sent gen' = g_sent gen"
  using k add
proof (induction k arbitrary: gen')
  case 0
  then show ?case using tr e by (metis (no_types) list_update_id ofold.simps(1) option.inject take0 upt_0)
next
  case (Suc k)
  then obtain g1 where g1: "ofold (\<lambda>j gen. do { t \<leftarrow> c_nth pend j; add_update ssl t i j gen }) [0..<k] gen = Some g1"
      "add_update ssl (pend ! k) i k g1 = Some gen'"
    by (auto simp: bind_eq_Some_conv c_nth_def)
  have len: "length pends = 4" using tr by (auto simp: tracks_def dest: list_all2_lengthD)
  have "tracks ssl g1 (pends[i := take k pend])" "g_sent g1 = g_sent gen" using Suc.IH[OF _ g1(1)] Suc.prems(1) by simp_all
  then show ?case
    using add_update_tracks[of ssl g1 "pends[i := take k pend]" i k "pend ! k" gen'] i len n Suc.prems(1) g1(2) ssl
    by (simp add: take_Suc_conv_app_nth)
qed

lemma init_updates_tracks:
  assumes "init_updates ssl s gen = Some gen'" "length (pb_pend (st_pending s)) = 4" "\<forall>p \<in> set (pb_pend (st_pending s)). length p \<le> 255"
    and "g_sent gen = []" "digest_ok ssl"
  shows "tracks ssl gen' (pb_pend (st_pending s))"
proof -
  let ?p = "pb_pend (st_pending s)" and ?g = "gen\<lparr>g_updates := []\<rparr>"
  have "k \<le> 4 \<Longrightarrow> ofold (\<lambda>shard gen. do { pend \<leftarrow> c_nth ?p shard; add_shard_updates ssl pend shard gen }) [0..<k] ?g = Some g1 \<Longrightarrow>
      tracks ssl g1 (take k ?p @ replicate (4 - k) []) \<and> g_sent g1 = []" for k g1
  proof (induction k arbitrary: g1)
    case 0
    then show ?case using assms(4) by (auto simp: tracks_def gen_view_def all_updates_def list_all2_conv_all_nth)
  next
    case (Suc k)
    obtain g0 where g0: "ofold (\<lambda>shard gen. do { pend \<leftarrow> c_nth ?p shard; add_shard_updates ssl pend shard gen }) [0..<k] ?g = Some g0"
        "add_shard_updates ssl (?p ! k) k g0 = Some g1" "k < 4"
      using Suc.prems assms(2) by (auto simp: bind_eq_Some_conv c_nth_def)
    let ?pk = "take k ?p @ replicate (4 - k) []"
    have tr: "tracks ssl g0 ?pk" "g_sent g0 = []" using Suc.IH[OF _ g0(1)] Suc.prems(1) by simp_all
    have n: "length (?p ! k) \<le> 255" using assms(2,3) g0(3) by simp
    have e: "?pk ! k = []" using assms(2) g0(3) by (simp add: nth_append)
    have "?pk[k := ?p ! k] = take (Suc k) ?p @ replicate (4 - Suc k) []"
    proof -
      have "replicate (4 - k) [] = [] # replicate (4 - Suc k) ([] :: pending_tx list)"
        using g0(3) by (simp add: Suc_diff_Suc flip: replicate_Suc)
      then show ?thesis using g0(3) assms(2) by (simp add: take_Suc_conv_app_nth list_update_append)
    qed
    then show ?case
      using add_shard_tracks[OF tr(1) g0(3) e n assms(5) order.refl] g0(2) tr(2) by (simp add: add_shard_updates_def)
  qed
  from this[of 4 gen'] show ?thesis using assms(1,2) by (simp add: init_updates_def)
qed

inductive mirrors :: "runtime \<Rightarrow> generator \<Rightarrow> state \<Rightarrow> bool" for rt where
  \<comment> \<open>a generator that was started and told of every change of the pending transactions since\<close>
  mirrors_start: "exec_generator rt s addr random = Some (args, first, gen) \<Longrightarrow> length (pb_pend (st_pending s)) = 4 \<Longrightarrow>
     \<forall>p \<in> set (pb_pend (st_pending s)). length p \<le> 255 \<Longrightarrow> mirrors rt gen s"
| mirrors_sent: "mirrors rt gen s \<Longrightarrow> tx_sent gen = Some (gen', plan) \<Longrightarrow> mirrors rt gen' s"
| mirrors_frame: "mirrors rt gen s \<Longrightarrow> pb_pend (st_pending s') = pb_pend (st_pending s) \<Longrightarrow> mirrors rt gen s'"
| mirrors_told: "mirrors rt gen s \<Longrightarrow> insert_pending_tx rt s tx = Some (ok, s') \<Longrightarrow>
     st_out s' = st_out s @ [Tell_generator_new_pending shard pos] \<Longrightarrow>
     tell_generator_new_pending (rt_ssl rt) s' (unat shard) pos \<lparr>gs_gen = True, gs_running = Some gen, gs_started = started\<rparr> = Some gs' \<Longrightarrow>
     gs_running gs' = Some gen' \<Longrightarrow> mirrors rt gen' s'"

lemma insert_told:
  assumes "insert_pending_tx rt s tx = Some (ok, s')" "st_out s' = st_out s @ [Tell_generator_new_pending shard pos]"
  shows "\<exists>t. let pends = pb_pend (st_pending s); i = unat shard in
    i < length pends \<and> pos \<le> length (pends ! i) \<and> length (pends ! i) \<noteq> 255 \<and>
    pb_pend (st_pending s') = pends[i := take pos (pends ! i) @ t # drop pos (pends ! i)]"
proof -
  have eq: "unat (ucast (x :: u16) :: u32) = unat x" for x by (rule unat_ucast_u16_u32)
  have unk: "st_out (add_to_unknown_pending s tx) = st_out s" by (simp add: add_to_unknown_pending_def)
  show ?thesis
    using assms unk
    by (auto simp: insert_pending_tx_def Let_def arr_add_def c_abort_def c_nth_def eq elim!: bind_SomeE split: if_splits option.splits)
      (rule exI, rule refl)+
qed

lemma mirrors_tracks:
  assumes "mirrors rt gen s" "digest_ok (rt_ssl rt)"
  shows "tracks (rt_ssl rt) gen (pb_pend (st_pending s)) \<and> length (pb_pend (st_pending s)) = 4 \<and>
    (\<forall>p \<in> set (pb_pend (st_pending s)). length p \<le> 255)"
  using assms
proof (induction rule: mirrors.induct)
  case (mirrors_start s addr random args first gen)
  then show ?case
    using init_updates_tracks by (auto simp: exec_generator_def Let_def bind_eq_Some_conv)
next
  case (mirrors_sent gen s gen' plan)
  have "all_updates gen' = all_updates gen"
    using mirrors_sent.hyps(2) by (auto simp: tx_sent_def all_updates_def bind_eq_Some_conv c_assert_def c_nth_def Let_def
        neq_Nil_conv split: if_splits)
  then show ?case using mirrors_sent.IH mirrors_sent.prems by (simp add: tracks_def gen_view_def)
next
  case (mirrors_frame gen s s')
  then show ?case by simp
next
  case (mirrors_told gen s tx ok s' shard pos started gs' gen')
  let ?p = "pb_pend (st_pending s)" and ?i = "unat shard"
  obtain t where t: "?i < length ?p" "pos \<le> length (?p ! ?i)" "length (?p ! ?i) \<noteq> 255"
      "pb_pend (st_pending s') = ?p[?i := take pos (?p ! ?i) @ t # drop pos (?p ! ?i)]"
    using insert_told[OF mirrors_told.hyps(2,3)] by (auto simp: Let_def)
  have tr: "tracks (rt_ssl rt) gen ?p" "length ?p = 4" "\<forall>p \<in> set ?p. length p \<le> 255"
    using mirrors_told.IH mirrors_told.prems by auto
  have less: "length (?p ! ?i) < 255" using t(1,3) tr(3) nth_mem[OF t(1)] by fastforce
  have "add_update (rt_ssl rt) t ?i pos gen = Some gen'"
    using mirrors_told.hyps(4,5) t tr(2)
    by (auto simp: tell_generator_new_pending_def bind_eq_Some_conv c_nth_def nth_append split: if_splits)
  then have "tracks (rt_ssl rt) gen' (pb_pend (st_pending s'))"
    using add_update_tracks[OF tr(1) _ t(2) less _ mirrors_told.prems] t(1,4) tr(2) by auto
  moreover have "length q \<le> 255" if "q \<in> set (pb_pend (st_pending s'))" for q
    using that set_update_subset_insert[of ?p ?i] less t(2,4) tr(3) by fastforce
  ultimately show ?case using t(4) tr(2) by simp
qed

text \<open>
  C29. The block generator and the daemon agree on the transactions: once the program has read all that
  it was and will be sent, none of its assertions has failed, and the hashes in its shards are those of
  the pending transactions, in the same order, whatever was added while it was running.
\<close>

theorem generator_tracks_pending:
  assumes "mirrors rt gen s" "digest_ok (rt_ssl rt)" "gen_ok (rt_ssl rt) w" "w_trans_hashes w = replicate 4 []"
  shows "\<exists>w'. read_txs (rt_ssl rt) w (g_sent gen @ g_updates gen) = Some w' \<and> gen_ok (rt_ssl rt) w' \<and>
    list_all2 (list_all2 (\<lambda>h t. hash_tx_and_refs (rt_ssl rt) (pt_tx t) (pt_refs t) = Some h))
      (w_trans_hashes w') (pb_pend (st_pending s))"
proof -
  have tr: "tracks (rt_ssl rt) gen (pb_pend (st_pending s))" using mirrors_tracks[OF assms(1,2)] by simp
  then have "updates_fit (w_trans_hashes w) (all_updates gen)" using assms(4) by (simp add: tracks_def)
  from read_txs_total[OF assms(3) this] show ?thesis
    using tr assms(4) by (auto simp: tracks_def gen_view_def all_updates_def hash_is_def[abs_def])
qed

subsection \<open>The arguments\<close>

lemma upper_digits: "\<forall>n \<in> set [0..<16]. char_to_hex (''0123456789ABCDEF'' ! n) = Some (word_of_nat n)"
  by code_simp

lemma from_hex_upper: "from_hex (hex_upper bs) (length bs) = (True, bs)"
proof (induction bs)
  case (Cons b bs)
  have "unat b div 16 < 16" "unat b mod 16 < 16" using unat_byte_less[of b] by (auto simp del: unat_byte_less)
  then show ?case using Cons.IH upper_digits join_nibbles[of b] by (simp add: hex_upper_def)
qed (simp add: hex_upper_def)

lemma set_nonce_keeps:
  assumes "set_nonce nonce w = Some w'"
  shows "bp_prev_txhashes (w_parts w') = bp_prev_txhashes (w_parts w) \<and> bp_tailer (w_parts w') = bp_tailer (w_parts w) \<and>
    bp_hdr (w_parts w') = (bp_hdr (w_parts w))\<lparr>bh_nonce2 := strncpy_nonce2 nonce\<rparr> \<and> w_trans_hashes w' = w_trans_hashes w"
  using assms by (auto simp: set_nonce_def update_partial_hash_def bind_eq_Some_conv)

lemma new_working_block_fields:
  assumes "unat order < 31" "unat num_prev \<le> length prev"
  shows "\<exists>w. new_working_block ssl now difficulty prev num_prev depth order prev_block fees_to = Some w \<and>
    bp_hdr (w_parts w) = \<lparr>bh_version = current_version, bh_features_vote = 0, bh_shard_order = order,
      bh_nonce2 = replicate 13 0, bh_prev_block = prev_block, bh_num_prev_txhashes = num_prev, bh_depth = depth, bh_fees_to = fees_to\<rparr> \<and>
    bp_prev_txhashes (w_parts w) = take (unat num_prev) prev \<and> bt_difficulty (bp_tailer (w_parts w)) = difficulty \<and>
    w_trans_hashes w = replicate (2 ^ unat order) []"
proof -
  have "(2 :: nat) ^ unat order < 2 ^ 32" by (rule power_strict_increasing) (use assms(1) in simp_all)
  then have n: "unat (push_bit (unat order) 1 :: u32) = 2 ^ unat order"
    using assms(1) by (simp only: unsigned_push_bit_eq) (simp add: push_bit_eq_mult take_bit_nat_eq_self)
  show ?thesis
    using assms n
    by (simp add: new_working_block_def Let_def c_assert_def all_empty_roots merkle_hash_changed_def update_partial_hash_def
        c_slice_all c_slice_def[of prev])
qed

text \<open>
  The program understands the arguments and the input that the daemon gives it: it starts on a
  block that follows the longest known chain, at the next depth and the difficulty that is due there,
  with the hashes of earlier transactions, and pays the fees to the reward address.
\<close>

theorem generator_starts_on_next_block:
  assumes ex: "exec_generator rt s addr random = Some (args, first, gen)"
    and lk: "c_nth (st_longest_knowns s) 0 = Some lk" "st_heap s lk = Some lb"
    and wf: "length addr = 20" "length (b_sha lb) = 32" "unat (bh_shard_order (b_hdr lb)) < 31"
      "length first < 2 ^ 32" "gen_valid_difficulty (ga_difficulty args)"
  shows "\<exists>w. generate_start (rt_ssl rt) now (ga_fees_to args) (ga_difficulty args) (ga_prevblock args) (ga_num_prev args)
      (ga_depth args) (ucast (ga_shard_order args)) (Some (ga_nonce args)) first = Some (Some w) \<and> gen_ok (rt_ssl rt) w \<and>
    bh_prev_block (bp_hdr (w_parts w)) = b_sha lb \<and> bh_depth (bp_hdr (w_parts w)) = bh_depth (b_hdr lb) + 1 \<and>
    bh_fees_to (bp_hdr (w_parts w)) = addr \<and> bh_shard_order (bp_hdr (w_parts w)) = bh_shard_order (b_hdr lb) \<and>
    first = bp_prev_txhashes (w_parts w) @ [0] \<and>
    get_difficulty (rt_ssl rt) s lk = Some (bt_difficulty (bp_tailer (w_parts w))) \<and>
    w_trans_hashes w = replicate (2 ^ unat (bh_shard_order (b_hdr lb))) []"
proof -
  define order where "order = bh_shard_order (b_hdr lb)"
  obtain prev difficulty where p: "first = prev @ [0]" "get_difficulty (rt_ssl rt) s lk = Some difficulty"
      "args = \<lparr>ga_fees_to = hex_upper addr, ga_difficulty = difficulty, ga_prevblock = hex_upper (b_sha lb),
        ga_num_prev = word_of_nat (length prev), ga_depth = bh_depth (b_hdr lb) + 1, ga_shard_order = order,
        ga_nonce = map (\<lambda>r. 32 + r) random\<rparr>"
    using ex lk by (auto simp: exec_generator_def Let_def bind_eq_Some_conv order_def)
  have len: "unat (word_of_nat (length prev) :: u32) = length prev" "unat (word_of_nat (length prev) + 1 :: u32) = Suc (length prev)"
    using wf(4) p(1) by (simp_all add: unat_of_nat take_bit_nat_eq_self unat_word_ariths)
  have ord: "ucast (ucast order :: u32) = order" by (rule bit_word_eqI) (auto simp: bit_simps dest: bit_imp_le_length)
  obtain w where w: "new_working_block (rt_ssl rt) now difficulty (prev @ [0]) (word_of_nat (length prev)) (bh_depth (b_hdr lb) + 1)
        order (b_sha lb) addr = Some w"
      "bp_hdr (w_parts w) = \<lparr>bh_version = current_version, bh_features_vote = 0, bh_shard_order = order, bh_nonce2 = replicate 13 0,
        bh_prev_block = b_sha lb, bh_num_prev_txhashes = word_of_nat (length prev), bh_depth = bh_depth (b_hdr lb) + 1, bh_fees_to = addr\<rparr>"
      "bp_prev_txhashes (w_parts w) = prev" "bt_difficulty (bp_tailer (w_parts w)) = difficulty" "w_trans_hashes w = replicate (2 ^ unat order) []"
    using new_working_block_fields[of order "word_of_nat (length prev)" "prev @ [0]" "rt_ssl rt" now difficulty "bh_depth (b_hdr lb) + 1" "b_sha lb" addr]
      wf(3) len(1) by (auto simp: order_def)
  have g: "gen_ok (rt_ssl rt) w" by (rule new_working_block_ok[OF w(1) wf(2,1)])
  obtain w1 where w1: "set_nonce (ga_nonce args) w = Some w1" "gen_ok (rt_ssl rt) w1" using set_nonce_ok[OF g] by blast
  have "generate_start (rt_ssl rt) now (ga_fees_to args) (ga_difficulty args) (ga_prevblock args) (ga_num_prev args)
      (ga_depth args) (ucast (ga_shard_order args)) (Some (ga_nonce args)) first = Some (Some w1)"
    using from_hex_upper[of addr] from_hex_upper[of "b_sha lb"] wf(1,2,5) p len w(1) w1(1) ord
    by (simp add: generate_start_def)
  then show ?thesis using w1 set_nonce_keeps[OF w1(1)] w p order_def by simp
qed

subsection \<open>Examples\<close>

lemma ex_init_updates: "init_updates ssl (ex_state 0) gen = Some (gen\<lparr>g_updates := []\<rparr>)"
proof -
  have four: "[0..<4] = [0, 1, 2, 3 :: nat]" by (simp add: upt_rec)
  show ?thesis by (simp add: init_updates_def add_shard_updates_def ex_state_def four c_nth_def)
qed

lemma ex_exec_generator:
  "\<exists>x. exec_generator model_runtime (ex_state 0) (replicate 20 4) (replicate 14 0) =
     Some (\<lparr>ga_fees_to = hex_upper (replicate 20 4), ga_difficulty = 0x1E01FFFF, ga_prevblock = hex_upper (nat_le 32 0),
       ga_num_prev = 1, ga_depth = 1, ga_shard_order = 0, ga_nonce = replicate 14 32\<rparr>, [x, 0],
       \<lparr>g_shard_order = 0, g_updates = [], g_sent = [], g_update = True, g_answer = True, g_solution = None\<rparr>)"
proof -
  obtain x where x: "SHA256_Double_Final model_openssl (replicate 20 4) = x" "length x = 32"
    using digest_ok_model by auto
  have p: "make_prev_txhashes model_openssl (ex_heap 0) (Some 0) (replicate 20 4) = Some (Some [x ! 0])"
    using x
    by (simp add: make_prev_txhashes_def num_prev_txhashes_def for_each_prev_txhash.simps c_simps ex_heap_def ex_block_def
        ex_chain_parts_def num_shards_def shard_all_known_def new_block_shard_def prev_txhash_def)
  have d: "get_difficulty model_openssl (ex_state 0) 0 = Some 0x1E01FFFF"
    by (simp add: get_difficulty_def ex_state_def ex_heap_def ex_block_def ex_chain_parts_def PROTOCOL_DIFFICULTY_UPDATE_BLOCKS_def)
  have s: "st_longest_knowns (ex_state 0) = [0]" "st_heap (ex_state 0) = ex_heap 0" "ex_heap 0 0 = Some (ex_block 0 0)"
    "b_hdr (ex_block 0 0) = bp_hdr (ex_chain_parts 0)" "b_sha (ex_block 0 0) = nat_le 32 0"
    "bh_shard_order (bp_hdr (ex_chain_parts 0)) = 0" "bh_depth (bp_hdr (ex_chain_parts 0)) = 0"
    by (simp_all add: ex_state_def ex_heap_def ex_block_def ex_chain_parts_def)
  have "rt_ssl model_runtime = model_openssl" by (simp add: model_runtime_def)
  then show ?thesis
    by (intro exI[of _ "x ! 0"]) (simp add: exec_generator_def s p d ex_init_updates c_nth_def del: nat_le.simps)
qed

lemma ex_four_shards:
  "\<exists>w. new_working_block model_openssl 1000 0x1E01FFFF [] 0 1 2 (nat_le 32 0) (replicate 20 4) = Some w \<and>
     gen_ok model_openssl w \<and> w_trans_hashes w = replicate 4 []"
proof -
  obtain w where w: "new_working_block model_openssl 1000 0x1E01FFFF [] 0 1 2 (nat_le 32 0) (replicate 20 4) = Some w"
      "w_trans_hashes w = replicate 4 []"
    using new_working_block_fields[of 2 0 "[]" model_openssl 1000 "0x1E01FFFF" 1 "nat_le 32 0" "replicate 20 4"] by auto
  moreover have "gen_ok model_openssl w" by (rule new_working_block_ok[OF w(1)]) simp_all
  ultimately show ?thesis by blast
qed

theorem generator_tracks_pending_witness:
  "\<exists>(gen :: generator) (w :: working_block) w'. w_trans_hashes w = replicate 4 [] \<and> read_txs model_openssl w (g_sent gen @ g_updates gen) = Some w' \<and>
     gen_ok model_openssl w'"
proof -
  have rt: "rt_ssl model_runtime = model_openssl" by (simp add: model_runtime_def)
  obtain args first gen where "exec_generator model_runtime (ex_state 0) (replicate 20 4) (replicate 14 0) = Some (args, first, gen)"
    using ex_exec_generator by blast
  then have m: "mirrors model_runtime gen (ex_state 0)"
    by (rule mirrors_start) (simp_all add: ex_state_def)
  obtain w where w: "gen_ok model_openssl w" "w_trans_hashes w = replicate 4 []" using ex_four_shards by blast
  obtain w' where "read_txs model_openssl w (g_sent gen @ g_updates gen) = Some w'" "gen_ok model_openssl w'"
    using generator_tracks_pending[OF m, of w] w digest_ok_model by (auto simp: rt)
  then show ?thesis using w(2) by (intro exI[of _ gen] exI[of _ w] exI[of _ w']) simp
qed

theorem generator_starts_on_next_block_witness:
  "\<exists>first w. generate_start model_openssl 1000 (hex_upper (replicate 20 4)) 0x1E01FFFF (hex_upper (nat_le 32 0)) 1 1 0
     (Some (replicate 14 32)) first = Some (Some w) \<and> bh_prev_block (bp_hdr (w_parts w)) = nat_le 32 0 \<and>
     bh_depth (bp_hdr (w_parts w)) = 1"
proof -
  have rt: "rt_ssl model_runtime = model_openssl" by (simp add: model_runtime_def)
  have s: "c_nth (st_longest_knowns (ex_state 0)) 0 = Some 0" "st_heap (ex_state 0) 0 = Some (ex_block 0 0)"
    "bh_shard_order (b_hdr (ex_block 0 0)) = 0" "bh_depth (b_hdr (ex_block 0 0)) = 0" "b_sha (ex_block 0 0) = nat_le 32 0"
    by (simp_all add: ex_state_def ex_heap_def ex_block_def ex_chain_parts_def c_nth_def del: nat_le.simps)
  have d: "gen_valid_difficulty 0x1E01FFFF" by code_simp
  from ex_exec_generator show ?thesis
    using generator_starts_on_next_block[OF _ s(1,2), of model_runtime "replicate 20 4" "replicate 14 0"] s(3-5) rt d
    by (elim exE) (fastforce simp del: nat_le.simps)
qed

end
