(* ===== verification/Jsmn.thy ===== *)
theory Jsmn
  imports Prelude
begin

text \<open>
  \<open>jsmn/jsmn.c\<close>, which \<open>json.c\<close> includes with \<open>JSMN_STRICT\<close> defined and \<open>JSMN_PARENT_LINKS\<close> not, and
  calls with an array of tokens. The text to parse is the front of a buffer, of \<open>len\<close> characters.
  Positions are at most \<open>len\<close>, an \<open>int\<close> of the caller, so that \<open>pos\<close> and \<open>toknext\<close> do not wrap; the tokens
  in use are a list, whose length is \<open>toknext\<close>. The parser is proved to find exactly the texts of a
  grammar, and to return the values it found in the order in which they start.
\<close>

subsection \<open>jsmn.h\<close>

datatype jsmntype = JSMN_PRIMITIVE | JSMN_OBJECT | JSMN_ARRAY | JSMN_STRING
  | JSMN_NONE \<comment> \<open>not set, or the \<open>-1\<close> of the last token of \<open>json.c\<close>\<close>

datatype jsmnerr = JSMN_ERROR_NOMEM | JSMN_ERROR_INVAL | JSMN_ERROR_PART

record jsmntok =
  t_type :: jsmntype
  t_start :: int
  t_end :: int
  t_size :: nat

record jsmn_parser =
  jp_pos :: nat
  jp_toks :: "jsmntok list"
  jp_toksuper :: int

definition jsmn_init :: jsmn_parser where
  "jsmn_init = \<lparr>jp_pos = 0, jp_toks = [], jp_toksuper = -1\<rparr>"

subsection \<open>Tokens\<close>

definition jsmn_alloc_token :: "nat \<Rightarrow> jsmn_parser \<Rightarrow> jsmn_parser option" where
  \<comment> \<open>\<open>None\<close> is NULL\<close>
  "jsmn_alloc_token num_tokens p =
     (if length (jp_toks p) \<ge> num_tokens then None
      else Some (p\<lparr>jp_toks := jp_toks p @ [\<lparr>t_type = JSMN_NONE, t_start = -1, t_end = -1, t_size = 0\<rparr>]\<rparr>))"

definition jsmn_fill_token :: "jsmntype \<Rightarrow> nat \<Rightarrow> nat \<Rightarrow> jsmntok" where
  "jsmn_fill_token type start end = \<lparr>t_type = type, t_start = int start, t_end = int end, t_size = 0\<rparr>"

definition add_filled :: "nat \<Rightarrow> jsmntype \<Rightarrow> nat \<Rightarrow> nat \<Rightarrow> jsmn_parser \<Rightarrow> jsmnerr + jsmn_parser" where
  \<comment> \<open>the end of both functions below: a token is allocated and filled\<close>
  "add_filled num_tokens type start end p =
     (case jsmn_alloc_token num_tokens p of
        None \<Rightarrow> Inl JSMN_ERROR_NOMEM
      | Some p1 \<Rightarrow> Inr (p1\<lparr>jp_toks := (jp_toks p1)[length (jp_toks p) := jsmn_fill_token type start end]\<rparr>))"

subsection \<open>Primitives\<close>

definition prim_end :: "char \<Rightarrow> bool" where
  "prim_end c \<longleftrightarrow> c \<in> set [CHR 0x09, CHR 0x0D, CHR 0x0A, CHR '' '', CHR '','', CHR '']'', CHR ''}'']"

definition bad_char :: "char \<Rightarrow> bool" where
  \<comment> \<open>\<^verbatim>\<open>char\<close> is signed\<close>
  "bad_char c \<longleftrightarrow> (of_char c :: nat) < 32 \<or> (of_char c :: nat) \<ge> 127"

function prim_scan :: "string \<Rightarrow> nat \<Rightarrow> nat \<Rightarrow> (jsmnerr + nat) option" where
  \<comment> \<open>the loop of \<open>jsmn_parse_primitive\<close>: where \<open>found\<close> is reached\<close>
  "prim_scan js len pos =
     (if pos < len then
        (case c_nth js pos of
           None \<Rightarrow> None
         | Some c \<Rightarrow>
             if c = CHR 0x00 then Some (Inl JSMN_ERROR_PART)
             else if prim_end c then Some (Inr pos)
             else if bad_char c then Some (Inl JSMN_ERROR_INVAL)
             else prim_scan js len (Suc pos))
      else Some (Inl JSMN_ERROR_PART))"
  by pat_completeness auto
termination by (relation "measure (\<lambda>(js, len, pos). len - pos)") auto

declare prim_scan.simps [simp del]

definition jsmn_parse_primitive :: "string \<Rightarrow> nat \<Rightarrow> nat \<Rightarrow> jsmn_parser \<Rightarrow> (jsmnerr + jsmn_parser) option" where
  \<comment> \<open>after an error the parser is not used again\<close>
  "jsmn_parse_primitive js len num_tokens p =
     do { r \<leftarrow> prim_scan js len (jp_pos p);
          (case r of
             Inl e \<Rightarrow> Some (Inl e)
           | Inr end \<Rightarrow>
               (case add_filled num_tokens JSMN_PRIMITIVE (jp_pos p) end p of
                  Inl e \<Rightarrow> Some (Inl e)
                | Inr p1 \<Rightarrow> Some (Inr (p1\<lparr>jp_pos := end - 1\<rparr>)))) }"

subsection \<open>Strings\<close>

definition hex_char :: "char \<Rightarrow> bool" where
  "hex_char c \<longleftrightarrow> (let n = (of_char c :: nat) in 48 \<le> n \<and> n \<le> 57 \<or> 65 \<le> n \<and> n \<le> 70 \<or> 97 \<le> n \<and> n \<le> 102)"

definition escape_char :: "char \<Rightarrow> bool" where
  "escape_char c \<longleftrightarrow> c \<in> set [CHR 0x22, CHR ''/'', CHR 0x5C, CHR ''b'', CHR ''f'', CHR ''r'', CHR ''n'', CHR ''t'']"

primrec hex_run :: "nat \<Rightarrow> string \<Rightarrow> nat \<Rightarrow> (jsmnerr + nat) option" where
  \<comment> \<open>the loop over the four digits; it does not look at \<open>len\<close>\<close>
  "hex_run 0 js pos = Some (Inr pos)"
| "hex_run (Suc n) js pos =
     (case c_nth js pos of
        None \<Rightarrow> None
      | Some c \<Rightarrow>
          if c = CHR 0x00 then Some (Inr pos)
          else if \<not> hex_char c then Some (Inl JSMN_ERROR_INVAL)
          else hex_run n js (Suc pos))"

lemma hex_run_forward: "hex_run n js pos = Some (Inr pos') \<Longrightarrow> pos \<le> pos'"
  by (induction n arbitrary: pos) (fastforce split: option.splits if_splits)+

function str_scan :: "string \<Rightarrow> nat \<Rightarrow> nat \<Rightarrow> (jsmnerr + nat) option" where
  \<comment> \<open>the loop of \<open>jsmn_parse_string\<close>: where the closing quote is; what follows a backslash is read
     without a look at \<open>len\<close>\<close>
  "str_scan js len pos =
     (if pos < len then
        (case c_nth js pos of
           None \<Rightarrow> None
         | Some c \<Rightarrow>
             if c = CHR 0x00 then Some (Inl JSMN_ERROR_PART)
             else if c = CHR 0x22 then Some (Inr pos)
             else if c = CHR 0x5C then
               (case c_nth js (pos + 1) of
                  None \<Rightarrow> None
                | Some e \<Rightarrow>
                    if escape_char e then str_scan js len (pos + 2)
                    else if e = CHR ''u'' then
                      (case hex_run 4 js (pos + 2) of
                         None \<Rightarrow> None
                       | Some (Inl err) \<Rightarrow> Some (Inl err)
                       | Some (Inr pos1) \<Rightarrow> str_scan js len pos1)
                    else Some (Inl JSMN_ERROR_INVAL))
             else str_scan js len (Suc pos))
      else Some (Inl JSMN_ERROR_PART))"
  by pat_completeness auto
termination by (relation "measure (\<lambda>(js, len, pos). len - pos)") (auto dest: hex_run_forward)

declare str_scan.simps [simp del]

definition jsmn_parse_string :: "string \<Rightarrow> nat \<Rightarrow> nat \<Rightarrow> jsmn_parser \<Rightarrow> (jsmnerr + jsmn_parser) option" where
  "jsmn_parse_string js len num_tokens p =
     do { let start = jp_pos p;
          r \<leftarrow> str_scan js len (start + 1);
          (case r of
             Inl e \<Rightarrow> Some (Inl e)
           | Inr end \<Rightarrow>
               (case add_filled num_tokens JSMN_STRING (start + 1) end p of
                  Inl e \<Rightarrow> Some (Inl e)
                | Inr p1 \<Rightarrow> Some (Inr (p1\<lparr>jp_pos := end\<rparr>)))) }"

subsection \<open>jsmn\_parse\<close>

definition open_token :: "jsmntok \<Rightarrow> bool" where
  "open_token t \<longleftrightarrow> t_start t \<noteq> -1 \<and> t_end t = -1"

fun find_open :: "jsmntok list \<Rightarrow> nat \<Rightarrow> nat option" where
  \<comment> \<open>a loop of \<open>i\<close> from below the given bound down to 0\<close>
  "find_open toks 0 = None"
| "find_open toks (Suc i) = (if open_token (toks ! i) then Some i else find_open toks i)"

definition count_child :: "jsmn_parser \<Rightarrow> jsmn_parser option" where
  "count_child p =
     (if jp_toksuper p = -1 then Some p
      else do {
        let k = nat (jp_toksuper p);
        t \<leftarrow> c_nth (jp_toks p) k;
        Some (p\<lparr>jp_toks := (jp_toks p)[k := t\<lparr>t_size := t_size t + 1\<rparr>]\<rparr>) })"

definition open_container :: "nat \<Rightarrow> char \<Rightarrow> jsmn_parser \<Rightarrow> (jsmnerr + jsmn_parser) option" where
  "open_container num_tokens c p =
     (case jsmn_alloc_token num_tokens p of
        None \<Rightarrow> Some (Inl JSMN_ERROR_NOMEM)
      | Some p1 \<Rightarrow> do {
          let k = length (jp_toks p);
          p2 \<leftarrow> count_child p1;
          t \<leftarrow> c_nth (jp_toks p2) k;
          Some (Inr (p2\<lparr>jp_toks := (jp_toks p2)[k := t\<lparr>t_type := (if c = CHR ''{'' then JSMN_OBJECT else JSMN_ARRAY),
                                                     t_start := int (jp_pos p)\<rparr>],
                        jp_toksuper := int k\<rparr>)) })"

definition close_container :: "char \<Rightarrow> jsmn_parser \<Rightarrow> (jsmnerr + jsmn_parser) option" where
  "close_container c p =
     (let type = (if c = CHR ''}'' then JSMN_OBJECT else JSMN_ARRAY) in
      case find_open (jp_toks p) (length (jp_toks p)) of
        None \<Rightarrow> Some (Inl JSMN_ERROR_INVAL)
      | Some i \<Rightarrow>
          let t = jp_toks p ! i in
          if t_type t \<noteq> type then Some (Inl JSMN_ERROR_INVAL)
          else
            let toks = (jp_toks p)[i := t\<lparr>t_end := int (jp_pos p + 1)\<rparr>] in
            Some (Inr (p\<lparr>jp_toks := toks,
                         jp_toksuper := (case find_open toks (Suc i) of None \<Rightarrow> -1 | Some j \<Rightarrow> int j)\<rparr>)))"

definition prim_start :: "char \<Rightarrow> bool" where
  "prim_start c \<longleftrightarrow> c \<in> set ''-0123456789tfn''"

definition skipped :: "char \<Rightarrow> bool" where
  "skipped c \<longleftrightarrow> c \<in> set [CHR 0x09, CHR 0x0D, CHR 0x0A, CHR '':'', CHR '','', CHR '' '']"

definition then_go :: "nat \<Rightarrow> (jsmnerr + jsmn_parser) option \<Rightarrow> (jsmnerr + nat \<times> jsmn_parser) option" where
  \<comment> \<open>after a bracket\<close>
  "then_go count r = do { x \<leftarrow> r; (case x of Inl e \<Rightarrow> Some (Inl e) | Inr p \<Rightarrow> Some (Inr (count, p))) }"

definition then_count :: "nat \<Rightarrow> (jsmnerr + jsmn_parser) option \<Rightarrow> (jsmnerr + nat \<times> jsmn_parser) option" where
  \<comment> \<open>after a string or a primitive\<close>
  "then_count count r =
     do { x \<leftarrow> r;
          (case x of
             Inl e \<Rightarrow> Some (Inl e)
           | Inr p \<Rightarrow> do { p1 \<leftarrow> count_child p; Some (Inr (Suc count, p1)) }) }"

definition jsmn_char :: "string \<Rightarrow> nat \<Rightarrow> nat \<Rightarrow> char \<Rightarrow> nat \<Rightarrow> jsmn_parser \<Rightarrow> (jsmnerr + nat \<times> jsmn_parser) option" where
  \<comment> \<open>the body of the loop\<close>
  "jsmn_char js len num_tokens c count p =
     (if c = CHR ''{'' \<or> c = CHR ''['' then then_go (Suc count) (open_container num_tokens c p)
      else if c = CHR ''}'' \<or> c = CHR '']'' then then_go count (close_container c p)
      else if c = CHR 0x22 then then_count count (jsmn_parse_string js len num_tokens p)
      else if skipped c then Some (Inr (count, p))
      else if prim_start c then then_count count (jsmn_parse_primitive js len num_tokens p)
      else Some (Inl JSMN_ERROR_INVAL))"
lemma prim_scan_forward: "prim_scan js len pos = Some (Inr e) \<Longrightarrow> pos \<le> e"
proof (induction js len pos rule: prim_scan.induct)
  case (1 js len pos)
  from 1(2) show ?case
    by (subst (asm) prim_scan.simps) (auto split: if_splits option.splits dest!: 1(1))
qed

lemma prim_scan_starts: "c_nth js pos = Some c \<Longrightarrow> prim_start c \<Longrightarrow> prim_scan js len pos = Some (Inr e) \<Longrightarrow> pos < e"
proof -
  assume A: "c_nth js pos = Some c" "prim_start c" "prim_scan js len pos = Some (Inr e)"
  have "\<not> prim_end c" using A(2) by (auto simp: prim_start_def prim_end_def)
  then have "prim_scan js len (Suc pos) = Some (Inr e)"
    using A by (subst (asm) prim_scan.simps) (auto split: if_splits)
  then show "pos < e" using prim_scan_forward by fastforce
qed

lemma str_scan_cases:
  assumes "str_scan js len pos = Some (Inr e)"
  obtains (quote) "pos < len" "pos < length js" "js ! pos = CHR 0x22" "e = pos"
  | (escape) "pos < len" "js ! pos = CHR 0x5C" "Suc pos < length js" "escape_char (js ! Suc pos)" "str_scan js len (pos + 2) = Some (Inr e)"
  | (unicode) pos1 where "pos < len" "js ! pos = CHR 0x5C" "Suc pos < length js" "js ! Suc pos = CHR ''u''"
      "hex_run 4 js (pos + 2) = Some (Inr pos1)" "str_scan js len pos1 = Some (Inr e)"
  | (plain) "pos < len" "pos < length js" "js ! pos \<notin> {CHR 0x00, CHR 0x22, CHR 0x5C}" "str_scan js len (Suc pos) = Some (Inr e)"
  using assms by (subst (asm) str_scan.simps) (auto split: if_splits option.splits sum.splits)

lemma str_scan_forward: "str_scan js len pos = Some (Inr e) \<Longrightarrow> pos \<le> e"
proof (induction "len - pos" arbitrary: pos rule: less_induct)
  case less
  from less.prems show ?case
  proof (cases rule: str_scan_cases)
    case escape
    then show ?thesis using less.hyps[of "pos + 2"] by (simp add: diff_less_mono2)
  next
    case (unicode pos1)
    then show ?thesis using hex_run_forward[OF unicode(5)] less.hyps[of pos1] by (simp add: diff_less_mono2)
  next
    case plain
    then show ?thesis using less.hyps[of "Suc pos"] by (simp add: diff_less_mono2)
  qed simp
qed

lemma add_filled_pos: "add_filled n ty a b p = Inr p1 \<Longrightarrow> jp_pos p1 = jp_pos p"
  by (auto simp: add_filled_def jsmn_alloc_token_def split: option.splits if_splits)

lemma count_child_pos: "count_child p = Some p1 \<Longrightarrow> jp_pos p1 = jp_pos p"
  by (auto simp: count_child_def Let_def elim!: bind_SomeE split: if_splits)

lemma jsmn_char_cases:
  assumes "jsmn_char js len num_tokens c count p = Some (Inr (count1, p1))"
  obtains (bracket) "c = CHR ''{'' \<or> c = CHR ''[''" "count1 = Suc count" "open_container num_tokens c p = Some (Inr p1)"
  | (close) "c = CHR ''}'' \<or> c = CHR '']''" "count1 = count" "close_container c p = Some (Inr p1)"
  | (str) p2 where "c = CHR 0x22" "count1 = Suc count" "jsmn_parse_string js len num_tokens p = Some (Inr p2)" "count_child p2 = Some p1"
  | (skip) "skipped c" "count1 = count" "p1 = p"
  | (prim) p2 where "prim_start c" "count1 = Suc count" "jsmn_parse_primitive js len num_tokens p = Some (Inr p2)" "count_child p2 = Some p1"
  using assms unfolding jsmn_char_def then_count_def then_go_def
  by (simp split: if_splits; fastforce elim!: bind_SomeE split: sum.splits)

lemma jsmn_char_forward:
  assumes "c_nth js (jp_pos p) = Some c" "jsmn_char js len num_tokens c count p = Some (Inr (count1, p1))"
  shows "jp_pos p \<le> jp_pos p1"
proof -
  have "jp_pos p \<le> jp_pos p1" if "open_container num_tokens c p = Some (Inr p1)" for p1
    using that by (auto simp: open_container_def jsmn_alloc_token_def Let_def elim!: bind_SomeE split: option.splits if_splits dest!: count_child_pos)
  moreover have "jp_pos p \<le> jp_pos p1" if "close_container c p = Some (Inr p1)" for p1
    using that by (auto simp: close_container_def Let_def split: option.splits if_splits)
  moreover have "jp_pos p \<le> jp_pos p1" if "jsmn_parse_string js len num_tokens p = Some (Inr p1)" for p1
    using that by (auto simp: jsmn_parse_string_def Let_def elim!: bind_SomeE split: sum.splits dest!: str_scan_forward)
  moreover have "jp_pos p \<le> jp_pos p1" if prim: "jsmn_parse_primitive js len num_tokens p = Some (Inr p1)" "prim_start c" for p1
  proof -
    obtain e where "prim_scan js len (jp_pos p) = Some (Inr e)" "jp_pos p1 = e - 1"
      using prim(1) by (auto simp: jsmn_parse_primitive_def elim!: bind_SomeE split: sum.splits)
    then show ?thesis using prim_scan_starts[OF assms(1) prim(2)] by fastforce
  qed
  ultimately show ?thesis
    using count_child_pos by (rule_tac jsmn_char_cases[OF assms(2)]) fastforce+
qed

function jsmn_loop :: "string \<Rightarrow> nat \<Rightarrow> nat \<Rightarrow> nat \<Rightarrow> jsmn_parser \<Rightarrow> (jsmnerr + nat \<times> jsmn_parser) option" where
  "jsmn_loop js len num_tokens count p =
     (if jp_pos p < len then
        (case c_nth js (jp_pos p) of
           None \<Rightarrow> None
         | Some c \<Rightarrow>
             if c = CHR 0x00 then Some (Inr (count, p))
             else (case jsmn_char js len num_tokens c count p of
                     None \<Rightarrow> None
                   | Some (Inl e) \<Rightarrow> Some (Inl e)
                   | Some (Inr (count1, p1)) \<Rightarrow> jsmn_loop js len num_tokens count1 (p1\<lparr>jp_pos := jp_pos p1 + 1\<rparr>)))
      else Some (Inr (count, p)))"
  by pat_completeness auto
termination
  by (relation "measure (\<lambda>(js, len, num_tokens, count, p). len - jp_pos p)") (auto simp del: c_nth_eq_Some dest!: jsmn_char_forward)

declare jsmn_loop.simps [simp del]

definition jsmn_parse :: "jsmn_parser \<Rightarrow> string \<Rightarrow> nat \<Rightarrow> nat \<Rightarrow> (jsmnerr + nat \<times> jsmntok list) option" where
  \<comment> \<open>the number that is returned and the tokens\<close>
  "jsmn_parse parser js len num_tokens =
     do { r \<leftarrow> jsmn_loop js len num_tokens 0 parser;
          (case r of
             Inl e \<Rightarrow> Some (Inl e)
           | Inr (count, p) \<Rightarrow>
               if find_open (jp_toks p) (length (jp_toks p)) \<noteq> None then Some (Inl JSMN_ERROR_PART)
               else Some (Inr (count, jp_toks p))) }"

section \<open>The texts that are accepted\<close>

text \<open>
  A value as it lies in the buffer: its type, where it starts and ends, and the values in it. The
  grammar is the parser's, not that of JSON: commas and colons are skipped like white space, and the
  members of an object are a list of names and values.
\<close>

datatype node =
    Leaf jsmntype nat nat
  | Node jsmntype nat nat "node list"

fun flat :: "node \<Rightarrow> jsmntok list" where
  "flat (Leaf ty s e) = [jsmn_fill_token ty s e]"
| "flat (Node ty s e ns) = \<lparr>t_type = ty, t_start = int s, t_end = int e, t_size = length ns\<rparr> # concat (map flat ns)"

abbreviation flats :: "node list \<Rightarrow> jsmntok list" where
  "flats ns \<equiv> concat (map flat ns)"

inductive string_body :: "string \<Rightarrow> bool" where
  body_nil: "string_body []"
| body_plain: "c \<notin> {CHR 0x00, CHR 0x22, CHR 0x5C} \<Longrightarrow> string_body s \<Longrightarrow> string_body (c # s)"
| body_escape: "escape_char c \<Longrightarrow> string_body s \<Longrightarrow> string_body (CHR 0x5C # c # s)"
| body_unicode: "list_all hex_char ds \<Longrightarrow> length ds = 4 \<Longrightarrow> string_body s \<Longrightarrow> string_body (CHR 0x5C # CHR ''u'' # ds @ s)"

definition prim_char :: "char \<Rightarrow> bool" where
  "prim_char c \<longleftrightarrow> \<not> bad_char c \<and> \<not> prim_end c"

definition part :: "'a list \<Rightarrow> nat \<Rightarrow> nat \<Rightarrow> 'a list" where
  "part xs i k = take (k - i) (drop i xs)"

fun opener :: "jsmntype \<Rightarrow> char \<Rightarrow> bool" where
  "opener JSMN_OBJECT c = (c = CHR ''{'')"
| "opener JSMN_ARRAY c = (c = CHR ''['')"
| "opener _ c = False"

fun closer :: "jsmntype \<Rightarrow> char \<Rightarrow> bool" where
  "closer JSMN_OBJECT c = (c = CHR ''}'')"
| "closer JSMN_ARRAY c = (c = CHR '']'')"
| "closer _ c = False"

inductive renders :: "string \<Rightarrow> nat \<Rightarrow> nat \<Rightarrow> nat \<Rightarrow> node list \<Rightarrow> bool" for js len where
  \<comment> \<open>the characters from one position up to another are these values; \<open>len\<close> is where the text ends\<close>
  r_done: "renders js len i i []"
| r_skip: "i < len \<Longrightarrow> skipped (js ! i) \<Longrightarrow> renders js len (Suc i) k ns \<Longrightarrow> renders js len i k ns"
| r_prim: "prim_start (js ! i) \<Longrightarrow> i < e \<Longrightarrow> e < len \<Longrightarrow> list_all prim_char (part js i e) \<Longrightarrow> prim_end (js ! e) \<Longrightarrow>
    renders js len e k ns \<Longrightarrow> renders js len i k (Leaf JSMN_PRIMITIVE i e # ns)"
| r_string: "js ! i = CHR 0x22 \<Longrightarrow> i < e \<Longrightarrow> e < len \<Longrightarrow> string_body (part js (Suc i) e) \<Longrightarrow> js ! e = CHR 0x22 \<Longrightarrow>
    renders js len (Suc e) k ns \<Longrightarrow> renders js len i k (Leaf JSMN_STRING (Suc i) e # ns)"
| r_container: "opener ty (js ! i) \<Longrightarrow> i < e \<Longrightarrow> e < len \<Longrightarrow> renders js len (Suc i) e kids \<Longrightarrow> closer ty (js ! e) \<Longrightarrow>
    renders js len (Suc e) k ns \<Longrightarrow> renders js len i k (Node ty i (Suc e) kids # ns)"

lemma renders_le: "renders js len i k ns \<Longrightarrow> i \<le> k"
  by (induction rule: renders.induct) simp_all

lemma renders_append: "renders js len i j ns \<Longrightarrow> renders js len j k ms \<Longrightarrow> renders js len i k (ns @ ms)"
  by (induction rule: renders.induct) (auto intro: renders.intros)
subsection \<open>The scanners\<close>

lemma part_same [simp]: "part xs i i = []"
  by (simp add: part_def)

lemma part_Cons: "i < e \<Longrightarrow> e \<le> length xs \<Longrightarrow> part xs i e = xs ! i # part xs (Suc i) e"
  by (simp add: part_def Cons_nth_drop_Suc[symmetric] take_Cons' Suc_diff_Suc[symmetric] del: Suc_diff_Suc)

lemma part_eq_Cons: "part xs i e = c # s \<Longrightarrow> e \<le> length xs \<Longrightarrow> i < e \<and> xs ! i = c \<and> part xs (Suc i) e = s"
  using part_Cons[of i e xs] by (cases "i < e") (auto simp: part_def)

lemma part_eq_Nil: "part xs i e = [] \<Longrightarrow> i \<le> e \<Longrightarrow> e \<le> length xs \<Longrightarrow> i = e"
  using part_Cons[of i e xs] by (cases "i < e") auto

lemma part_eq_append:
  "part xs i e = ds @ s \<Longrightarrow> e \<le> length xs \<Longrightarrow> i \<le> e \<Longrightarrow> i + length ds \<le> e \<and> part xs i (i + length ds) = ds \<and> part xs (i + length ds) e = s"
proof (induction ds arbitrary: i)
  case (Cons d ds)
  from part_eq_Cons[of xs i e d "ds @ s"] Cons.prems have i: "i < e" "xs ! i = d" "part xs (Suc i) e = ds @ s" by auto
  then show ?case using Cons.IH[OF i(3)] Cons.prems part_Cons[of i "Suc (i + length ds)" xs] by auto
qed simp

lemma part_append: "i \<le> j \<Longrightarrow> j \<le> e \<Longrightarrow> e \<le> length xs \<Longrightarrow> part xs i e = part xs i j @ part xs j e"
proof (induction "j - i" arbitrary: i)
  case (Suc n)
  then show ?case using part_Cons[of i e xs] part_Cons[of i j xs] Suc.hyps(1)[of "Suc i"] by simp
qed simp

lemma prim_char_plain: "prim_char c \<Longrightarrow> c \<noteq> CHR 0x00 \<and> \<not> prim_end c \<and> \<not> bad_char c"
  by (auto simp: prim_char_def bad_char_def)

lemma prim_end_not_NUL: "prim_end c \<Longrightarrow> c \<noteq> CHR 0x00"
  by (auto simp: prim_end_def)

lemma prim_scan_eq:
  assumes "len \<le> length js"
  shows "prim_scan js len i = Some (Inr e) \<longleftrightarrow> i \<le> e \<and> e < len \<and> list_all prim_char (part js i e) \<and> prim_end (js ! e)"
proof (induction "len - i" arbitrary: i rule: less_induct)
  case less
  show ?case
  proof (cases "i < len")
    case True
    have IH: "prim_scan js len (Suc i) = Some (Inr e) \<longleftrightarrow>
        Suc i \<le> e \<and> e < len \<and> list_all prim_char (part js (Suc i) e) \<and> prim_end (js ! e)"
      using less True by (simp add: diff_less_mono2)
    have "e = i \<or> e < i \<or> i < e" by linarith
    then show ?thesis
      using True assms IH prim_end_not_NUL part_Cons[of i e js]
      by (subst prim_scan.simps) (auto simp: prim_char_def bad_char_def)
  qed (subst prim_scan.simps, simp)
qed

lemma hex_run_digits:
  "list_all hex_char (part js pos (pos + n)) \<Longrightarrow> pos + n \<le> length js \<Longrightarrow> hex_run n js pos = Some (Inr (pos + n))"
proof (induction n arbitrary: pos)
  case (Suc n)
  then show ?case using part_Cons[of pos "pos + Suc n" js] by (auto simp: hex_char_def)
qed simp

lemma hex_run_SomeD:
  "hex_run n js pos = Some (Inr pos1) \<Longrightarrow> pos \<le> length js \<Longrightarrow> pos1 \<le> length js \<and> list_all hex_char (part js pos pos1) \<and>
    (pos1 = pos + n \<or> pos1 < length js \<and> js ! pos1 = CHR 0x00)"
proof (induction n arbitrary: pos)
  case (Suc n)
  show ?case
  proof (cases "js ! pos = CHR 0x00")
    case False
    then have r: "pos < length js" "hex_char (js ! pos)" "hex_run n js (Suc pos) = Some (Inr pos1)"
      using Suc.prems by (auto split: option.splits if_splits)
    then show ?thesis using Suc.IH[OF r(3)] hex_run_forward[OF r(3)] part_Cons[of pos pos1 js] by auto
  qed (use Suc.prems in \<open>auto split: option.splits if_splits\<close>)
qed simp

lemma str_scan_finds:
  assumes "string_body s" "len \<le> length js" "part js i e = s" "i \<le> e" "e < len" "js ! e = CHR 0x22"
  shows "str_scan js len i = Some (Inr e)"
  using assms
proof (induction arbitrary: i rule: string_body.induct)
  case body_nil
  then have "i = e" using part_eq_Nil[of js i e] by simp
  then show ?case using body_nil by (subst str_scan.simps) simp
next
  case (body_plain c s)
  then have "i < e" "js ! i = c" "part js (Suc i) e = s" using part_eq_Cons[of js i e c s] by auto
  then show ?case using body_plain by (subst str_scan.simps) auto
next
  case (body_escape c s)
  then have i: "i < e" "js ! i = CHR 0x5C" "part js (Suc i) e = c # s" using part_eq_Cons[of js i e _ "c # s"] by auto
  then have "Suc i < e" "js ! Suc i = c" "part js (Suc (Suc i)) e = s" using part_eq_Cons[of js "Suc i" e c s] body_escape by auto
  then show ?case using i body_escape by (subst str_scan.simps) auto
next
  case (body_unicode ds s)
  then have i: "i < e" "js ! i = CHR 0x5C" "part js (Suc i) e = CHR ''u'' # ds @ s"
    using part_eq_Cons[of js i e _ "CHR ''u'' # ds @ s"] by auto
  then have u: "Suc i < e" "js ! Suc i = CHR ''u''" "part js (Suc (Suc i)) e = ds @ s"
    using part_eq_Cons[of js "Suc i" e _ "ds @ s"] body_unicode by auto
  then have d: "Suc (Suc i) + 4 \<le> e" "part js (Suc (Suc i)) (Suc (Suc i) + 4) = ds" "part js (Suc (Suc i) + 4) e = s"
    using part_eq_append[OF u(3)] body_unicode by auto
  have "hex_run 4 js (Suc (Suc i)) = Some (Inr (Suc (Suc i) + 4))"
    using hex_run_digits[of js "Suc (Suc i)" 4] d body_unicode by simp
  moreover have "str_scan js len (Suc (Suc i) + 4) = Some (Inr e)" by (rule body_unicode.IH) (use d body_unicode in auto)
  moreover have "\<not> escape_char CHR ''u''" by (simp add: escape_char_def)
  ultimately show ?case using i u body_unicode.prems by (subst str_scan.simps) simp
qed

lemma str_scan_body:
  assumes "len \<le> length js"
  shows "str_scan js len i = Some (Inr e) \<Longrightarrow> i \<le> e \<and> e < len \<and> string_body (part js i e) \<and> js ! e = CHR 0x22"
proof (induction "len - i" arbitrary: i rule: less_induct)
  case less
  note fw = str_scan_forward[OF less.prems]
  from less.prems show ?case
  proof (cases rule: str_scan_cases)
    case quote
    then show ?thesis using body_nil by simp
  next
    case escape
    have IH: "i + 2 \<le> e" "e < len" "string_body (part js (i + 2) e)" "js ! e = CHR 0x22"
      using less.hyps[OF _ escape(5)] escape(1) by (auto simp: diff_less_mono2)
    then have "part js i e = CHR 0x5C # js ! Suc i # part js (i + 2) e"
      using part_Cons[of i e js] part_Cons[of "Suc i" e js] escape(2) assms by simp
    then show ?thesis using IH body_escape[OF escape(4) IH(3)] by simp
  next
    case (unicode pos1)
    have p1: "i + 2 \<le> pos1" using hex_run_forward[OF unicode(5)] .
    have IH: "pos1 \<le> e" "e < len" "string_body (part js pos1 e)" "js ! e = CHR 0x22"
      using less.hyps[OF _ unicode(6)] unicode(1) p1 by (auto simp: diff_less_mono2)
    have "js ! pos1 \<noteq> CHR 0x00"
      using unicode(6) IH assms by (subst (asm) str_scan.simps) (auto split: if_splits)
    then have r: "pos1 = i + 2 + 4" "list_all hex_char (part js (i + 2) pos1)"
      using hex_run_SomeD[OF unicode(5)] unicode(3) by auto
    have "part js i e = CHR 0x5C # CHR ''u'' # part js (i + 2) pos1 @ part js pos1 e"
      using part_Cons[of i e js] part_Cons[of "Suc i" e js] part_append[of "i + 2" pos1 e js] unicode(2,4) IH r p1 assms by simp
    moreover have "length (part js (i + 2) pos1) = 4" using r(1) IH assms by (simp add: part_def)
    ultimately show ?thesis using body_unicode[OF r(2) _ IH(3)] IH r(1) by simp
  next
    case plain
    have IH: "Suc i \<le> e" "e < len" "string_body (part js (Suc i) e)" "js ! e = CHR 0x22"
      using less.hyps[OF _ plain(4)] plain(1) by (auto simp: diff_less_mono2)
    then show ?thesis using part_Cons[of i e js] body_plain[OF plain(3) IH(3)] assms by simp
  qed
qed

lemma str_scan_eq:
  "len \<le> length js \<Longrightarrow>
   str_scan js len i = Some (Inr e) \<longleftrightarrow> i \<le> e \<and> e < len \<and> string_body (part js i e) \<and> js ! e = CHR 0x22"
  using str_scan_body str_scan_finds by blast
subsection \<open>The stack behind the tokens\<close>

text \<open>
  While the parser runs, its tokens are those of the values it has completed and of the containers
  that are still open: what is complete at the top level, and for every open container, innermost
  first, its type, its start and the values in it so far.
\<close>

type_synonym stack = "node list \<times> (jsmntype \<times> nat \<times> node list) list"

fun enc :: "stack \<Rightarrow> nat \<Rightarrow> jsmntok list" where
  \<comment> \<open>\<open>x\<close> more values are in the innermost container\<close>
  "enc (tops, []) x = flats tops"
| "enc (tops, (ty, st, kids) # fr) x =
     enc (tops, fr) 1 @ \<lparr>t_type = ty, t_start = int st, t_end = -1, t_size = length kids + x\<rparr> # flats kids"

fun super :: "stack \<Rightarrow> int" where
  "super (tops, []) = -1"
| "super (tops, f # fr) = int (length (enc (tops, fr) 1))"

fun add_node :: "node \<Rightarrow> stack \<Rightarrow> stack" where
  "add_node n (tops, []) = (tops @ [n], [])"
| "add_node n (tops, (ty, st, kids) # fr) = (tops, (ty, st, kids @ [n]) # fr)"

definition mk :: "nat \<Rightarrow> stack \<Rightarrow> jsmn_parser" where
  "mk i st = \<lparr>jp_pos = i, jp_toks = enc st 0, jp_toksuper = super st\<rparr>"

lemma mk_sel [simp]: "jp_pos (mk i st) = i" "jp_toks (mk i st) = enc st 0" "jp_toksuper (mk i st) = super st"
  by (simp_all add: mk_def)

lemma length_enc: "length (enc st x) = length (enc st y)"
  by (induction st x rule: enc.induct) simp_all

lemma length_enc_0 [simp]: "length (enc st (Suc x)) = length (enc st 0)"
  by (rule length_enc)

lemma enc_add: "enc (add_node n st) 0 = enc st 1 @ flat n"
  by (cases "(n, st)" rule: add_node.cases) simp_all

lemma super_add: "super (add_node n st) = super st"
  by (cases "(n, st)" rule: add_node.cases) simp_all

lemma count_child_mk:
  assumes "jp_toks p = enc st 0 @ extra" "jp_toksuper p = super st"
  shows "count_child p = Some (p\<lparr>jp_toks := enc st 1 @ extra\<rparr>)"
proof (cases st)
  case (Pair tops fr)
  show ?thesis
  proof (cases fr)
    case Nil
    then show ?thesis using assms Pair by (simp add: count_child_def)
  next
    case (Cons f fr')
    obtain ty b kids where f: "f = (ty, b, kids)" by (cases f) auto
    then show ?thesis using assms Pair Cons by (simp add: count_child_def Let_def nth_append list_update_append)
  qed
qed

lemma add_leaf_mk:
  "add_filled num ty a b (mk i st) =
     (if length (enc st 0) \<ge> num then Inl JSMN_ERROR_NOMEM
      else Inr ((mk i st)\<lparr>jp_toks := enc st 0 @ flat (Leaf ty a b)\<rparr>))"
  by (simp add: add_filled_def jsmn_alloc_token_def)

lemma then_count_leaf:
  "then_count count (Some (Inr ((mk i st)\<lparr>jp_toks := enc st 0 @ flat n, jp_pos := j\<rparr>))) = Some (Inr (Suc count, mk j (add_node n st)))"
  by (simp add: then_count_def count_child_mk[of _ st "flat n"] enc_add super_add mk_def)

lemma string_mk:
  "then_count count (jsmn_parse_string js len num (mk i st)) =
    (case str_scan js len (Suc i) of
       None \<Rightarrow> None
     | Some (Inl e) \<Rightarrow> Some (Inl e)
     | Some (Inr e) \<Rightarrow>
         if length (enc st 0) \<ge> num then Some (Inl JSMN_ERROR_NOMEM)
         else Some (Inr (Suc count, mk e (add_node (Leaf JSMN_STRING (Suc i) e) st))))"
proof -
  have n: "then_count count None = None" "then_count count (Some (Inl e)) = Some (Inl e)" for e
    by (simp_all add: then_count_def)
  show ?thesis
    using then_count_leaf[where n = "Leaf JSMN_STRING (Suc i) e" for e]
    by (auto simp: jsmn_parse_string_def Let_def add_leaf_mk n split: option.split sum.split)
qed

lemma prim_mk:
  "then_count count (jsmn_parse_primitive js len num (mk i st)) =
    (case prim_scan js len i of
       None \<Rightarrow> None
     | Some (Inl e) \<Rightarrow> Some (Inl e)
     | Some (Inr e) \<Rightarrow>
         if length (enc st 0) \<ge> num then Some (Inl JSMN_ERROR_NOMEM)
         else Some (Inr (Suc count, mk (e - 1) (add_node (Leaf JSMN_PRIMITIVE i e) st))))"
proof -
  have n: "then_count count None = None" "then_count count (Some (Inl e)) = Some (Inl e)" for e
    by (simp_all add: then_count_def)
  show ?thesis
    using then_count_leaf[where n = "Leaf JSMN_PRIMITIVE i e" for e]
    by (auto simp: jsmn_parse_primitive_def Let_def add_leaf_mk n split: option.split sum.split)
qed

lemma open_mk:
  "open_container num c (mk i (tops, fr)) =
    (if length (enc (tops, fr) 0) \<ge> num then Some (Inl JSMN_ERROR_NOMEM)
     else Some (Inr (mk i (tops, ((if c = CHR ''{'' then JSMN_OBJECT else JSMN_ARRAY), i, []) # fr))))"
proof -
  let ?b = "\<lparr>t_type = JSMN_NONE, t_start = -1, t_end = -1, t_size = 0\<rparr>" and ?p = "mk i (tops, fr)"
  have "count_child (?p\<lparr>jp_toks := enc (tops, fr) 0 @ [?b]\<rparr>) = Some (?p\<lparr>jp_toks := enc (tops, fr) 1 @ [?b]\<rparr>)"
    using count_child_mk[of "?p\<lparr>jp_toks := enc (tops, fr) 0 @ [?b]\<rparr>" "(tops, fr)" "[?b]"] by simp
  then show ?thesis
    by (simp add: open_container_def jsmn_alloc_token_def Let_def mk_def nth_append list_update_append)
qed

lemma find_open_append: "find_open (xs @ ys) (length xs) = find_open xs (length xs)"
proof -
  have "n \<le> length xs \<Longrightarrow> find_open (xs @ ys) n = find_open xs n" for n by (induction n) (auto simp: nth_append)
  then show ?thesis by simp
qed

lemma find_open_closed:
  assumes "list_all (\<lambda>t. \<not> open_token t) ys"
  shows "n \<le> length ys \<Longrightarrow> find_open (xs @ ys) (length xs + n) = find_open xs (length xs)"
  using assms by (induction n) (auto simp: find_open_append list_all_length nth_append)

lemma flat_closed: "list_all (\<lambda>t. \<not> open_token t) (flat n)"
  by (induction n rule: flat.induct) (auto simp: open_token_def jsmn_fill_token_def list_all_iff)

lemma flats_closed: "list_all (\<lambda>t. \<not> open_token t) (flats ns)"
  using flat_closed by (auto simp: list_all_iff)

lemma find_open_enc:
  "find_open (enc (tops, fr) x) (length (enc (tops, fr) x)) =
     (case fr of [] \<Rightarrow> None | f # fr' \<Rightarrow> Some (length (enc (tops, fr') 1)))"
proof (cases fr)
  case Nil
  then show ?thesis using find_open_closed[OF flats_closed[of tops], of "length (flats tops)" "[]"] by simp
next
  case (Cons f fr')
  obtain ty st kids where f: "f = (ty, st, kids)" by (cases f) auto
  let ?t = "\<lparr>t_type = ty, t_start = int st, t_end = -1, t_size = length kids + x\<rparr>"
  have "find_open ((enc (tops, fr') 1 @ [?t]) @ flats kids) (length (enc (tops, fr') 1 @ [?t]) + length (flats kids)) =
      find_open (enc (tops, fr') 1 @ [?t]) (length (enc (tops, fr') 1 @ [?t]))"
    by (rule find_open_closed[OF flats_closed]) simp
  then show ?thesis using Cons f by (simp add: open_token_def nth_append)
qed

lemma super_case: "super (tops, fr) = (case fr of [] \<Rightarrow> -1 | f # fr' \<Rightarrow> int (length (enc (tops, fr') 0)))"
  by (cases fr) simp_all

lemma close_mk:
  "close_container c (mk i (tops, fr)) =
    (case fr of
       [] \<Rightarrow> Some (Inl JSMN_ERROR_INVAL)
     | (ty, st, kids) # fr' \<Rightarrow>
         if ty \<noteq> (if c = CHR ''}'' then JSMN_OBJECT else JSMN_ARRAY) then Some (Inl JSMN_ERROR_INVAL)
         else Some (Inr (mk i (add_node (Node ty st (Suc i) kids) (tops, fr')))))"
proof (cases fr)
  case Nil
  then show ?thesis using find_open_enc[of tops "[]" 0] by (simp add: close_container_def)
next
  case (Cons f fr')
  obtain ty st kids where f: "f = (ty, st, kids)" by (cases f) auto
  let ?k = "length (enc (tops, fr') 0)"
  have 1: "find_open (enc (tops, fr) 0) (length (enc (tops, fr) 0)) = Some ?k" using find_open_enc[of tops fr 0] Cons by simp
  have 2: "find_open (enc (tops, fr') (Suc 0) @ \<lparr>t_type = y, t_start = int st, t_end = 1 + int i, t_size = n\<rparr> # ys) (Suc ?k) =
      (case fr' of [] \<Rightarrow> None | f # fr'' \<Rightarrow> Some (length (enc (tops, fr'') 1)))" for y n ys
    using find_open_append[of "enc (tops, fr') 1" "\<lparr>t_type = y, t_start = int st, t_end = 1 + int i, t_size = n\<rparr> # ys"]
      find_open_enc[of tops fr' 1] by (simp add: open_token_def nth_append)
  show ?thesis
    using 1 Cons f
    by (simp add: close_container_def Let_def nth_append list_update_append mk_def enc_add super_add 2 super_case
        del: find_open.simps split: list.split)
qed
lemma mk_pos [simp]: "(mk i st)\<lparr>jp_pos := j\<rparr> = mk j st"
  by (simp add: mk_def)

subsection \<open>Every rendering is parsed\<close>

lemma char_classes:
  "skipped c \<Longrightarrow> c \<notin> {CHR 0x00, CHR ''{'', CHR ''['', CHR ''}'', CHR '']'', CHR 0x22}"
  "prim_start c \<Longrightarrow> c \<notin> {CHR 0x00, CHR ''{'', CHR ''['', CHR ''}'', CHR '']'', CHR 0x22} \<and> \<not> skipped c"
  "opener ty c \<Longrightarrow> c \<in> {CHR ''{'', CHR ''[''} \<and> ty = (if c = CHR ''{'' then JSMN_OBJECT else JSMN_ARRAY)"
  "closer ty c \<Longrightarrow> c \<in> {CHR ''}'', CHR '']''} \<and> ty = (if c = CHR ''}'' then JSMN_OBJECT else JSMN_ARRAY)"
  by (auto simp: skipped_def prim_start_def) (cases ty; simp)+

lemma loop_step:
  assumes "i < len" "i < length js" "js ! i \<noteq> CHR 0x00"
  shows "jsmn_loop js len num count (mk i st) =
    (case jsmn_char js len num (js ! i) count (mk i st) of
       None \<Rightarrow> None
     | Some (Inl e) \<Rightarrow> Some (Inl e)
     | Some (Inr (count1, p1)) \<Rightarrow> jsmn_loop js len num count1 (p1\<lparr>jp_pos := jp_pos p1 + 1\<rparr>))"
  using assms by (subst jsmn_loop.simps) simp

lemma length_enc_add [simp]: "length (enc (add_node n st) 0) = length (enc st 0) + length (flat n)"
  by (simp add: enc_add)

lemma fold_add_kids: "fold add_node ns (tops, (ty, b, kids) # fr) = (tops, (ty, b, kids @ ns) # fr)"
  by (induction ns arbitrary: kids) simp_all

lemma length_enc_fold: "length (enc (fold add_node ns st) 0) = length (enc st 0) + length (flats ns)"
  by (induction ns arbitrary: st) simp_all

lemma loop_renders:
  assumes "renders js len i k ns" "len \<le> length js" "length (enc st 0) \<le> num"
  shows "jsmn_loop js len num count (mk i st) =
    (if length (enc st 0) + length (flats ns) \<le> num
     then jsmn_loop js len num (count + length (flats ns)) (mk k (fold add_node ns st))
     else Some (Inl JSMN_ERROR_NOMEM))"
  using assms
proof (induction arbitrary: st count rule: renders.induct)
  case (r_skip i k ns)
  note c = char_classes(1)[OF r_skip.hyps(2)]
  have "jsmn_char js len num (js ! i) count (mk i st) = Some (Inr (count, mk i st))"
    using c r_skip.hyps(2) by (simp add: jsmn_char_def)
  then show ?case using loop_step[of i len js num count st] r_skip c by simp
next
  case (r_prim i e k ns)
  note c = char_classes(2)[OF r_prim.hyps(1)]
  have "prim_scan js len i = Some (Inr e)" using prim_scan_eq[of len js i e] r_prim by simp
  then have "jsmn_char js len num (js ! i) count (mk i st) =
      (if num \<le> length (enc st 0) then Some (Inl JSMN_ERROR_NOMEM)
       else Some (Inr (Suc count, mk (e - 1) (add_node (Leaf JSMN_PRIMITIVE i e) st))))"
    using c r_prim.hyps(1) by (simp add: jsmn_char_def prim_mk)
  then show ?case
    using loop_step[of i len js num count st] r_prim.hyps r_prim.prems c
      r_prim.IH[of "add_node (Leaf JSMN_PRIMITIVE i e) st" "Suc count"] by simp
next
  case (r_string i e k ns)
  have "str_scan js len (Suc i) = Some (Inr e)" using str_scan_eq[of len js "Suc i" e] r_string by simp
  then have "jsmn_char js len num (js ! i) count (mk i st) =
      (if num \<le> length (enc st 0) then Some (Inl JSMN_ERROR_NOMEM)
       else Some (Inr (Suc count, mk e (add_node (Leaf JSMN_STRING (Suc i) e) st))))"
    using r_string.hyps(1) by (simp add: jsmn_char_def string_mk)
  then show ?case
    using loop_step[of i len js num count st] r_string.hyps r_string.prems
      r_string.IH[of "add_node (Leaf JSMN_STRING (Suc i) e) st" "Suc count"] by simp
next
  case (r_container ty i e kids k ns)
  obtain tops fr where st: "st = (tops, fr)" by (cases st)
  note o = char_classes(3)[OF r_container.hyps(1)] and c = char_classes(4)[OF r_container.hyps(5)]
  have open_step: "jsmn_char js len num (js ! i) count (mk i st) =
      (if num \<le> length (enc st 0) then Some (Inl JSMN_ERROR_NOMEM) else Some (Inr (Suc count, mk i (tops, (ty, i, []) # fr))))"
    using o by (auto simp: jsmn_char_def then_go_def open_mk st)
  have 1: "jsmn_loop js len num count (mk i st) =
      (if num \<le> length (enc st 0) then Some (Inl JSMN_ERROR_NOMEM)
       else jsmn_loop js len num (Suc count) (mk (Suc i) (tops, (ty, i, []) # fr)))"
    using loop_step[of i len js num count st] r_container.hyps(2,3) r_container.prems o open_step by auto
  have 2: "jsmn_loop js len num (Suc count) (mk (Suc i) (tops, (ty, i, []) # fr)) =
      (if length (enc st 0) + 1 + length (flats kids) \<le> num
       then jsmn_loop js len num (Suc count + length (flats kids)) (mk e (tops, (ty, i, kids) # fr))
       else Some (Inl JSMN_ERROR_NOMEM))" if "length (enc st 0) < num"
    using r_container.IH(1)[of "(tops, (ty, i, []) # fr)" "Suc count"] r_container.prems st that by (simp add: fold_add_kids)
  have "jsmn_char js len num (js ! e) n (mk e (tops, (ty, i, kids) # fr)) = Some (Inr (n, mk e (add_node (Node ty i (Suc e) kids) st)))" for n
    using c by (auto simp: jsmn_char_def then_go_def close_mk st)
  then have 3: "jsmn_loop js len num n (mk e (tops, (ty, i, kids) # fr)) =
      jsmn_loop js len num n (mk (Suc e) (add_node (Node ty i (Suc e) kids) st))" for n
    using loop_step[of e len js num n "(tops, (ty, i, kids) # fr)"] r_container.hyps(3) r_container.prems c by auto
  show ?case
    using r_container.IH(2)[of "add_node (Node ty i (Suc e) kids) st" "Suc count + length (flats kids)"] r_container.prems
    by (simp add: 1 2 3 add.assoc)
qed simp

subsection \<open>What is parsed is a rendering\<close>

fun so_far :: "string \<Rightarrow> nat \<Rightarrow> stack \<Rightarrow> nat \<Rightarrow> bool" where
  \<comment> \<open>the text up to \<open>i\<close> renders what is on the stack\<close>
  "so_far js len (tops, []) i = renders js len 0 i tops"
| "so_far js len (tops, (ty, b, kids) # fr) i =
     (so_far js len (tops, fr) b \<and> opener ty (js ! b) \<and> b < i \<and> renders js len (Suc b) i kids)"

lemma so_far_add:
  assumes "so_far js len st i" "renders js len i j [n]"
  shows "so_far js len (add_node n st) j"
  using assms renders_append renders_le[OF assms(2)] by (cases "(n, st)" rule: add_node.cases) fastforce+

lemma so_far_skip:
  assumes "so_far js len st i" "i < len" "skipped (js ! i)"
  shows "so_far js len st (Suc i)"
proof -
  have "renders js len i (Suc i) []" using assms by (blast intro: r_skip r_done)
  then show ?thesis using assms(1) renders_append by (cases "(js, len, st, i)" rule: so_far.cases) fastforce+
qed

lemma loop_sound:
  assumes "len \<le> length js"
  shows "jsmn_loop js len num count (mk i st) = Some (Inr (count', p')) \<Longrightarrow> so_far js len st i \<Longrightarrow> i \<le> len \<Longrightarrow>
    count = length (enc st 0) \<Longrightarrow> length (enc st 0) \<le> num \<Longrightarrow>
    \<exists>k st'. p' = mk k st' \<and> so_far js len st' k \<and> k \<le> len \<and> (k = len \<or> js ! k = CHR 0x00) \<and>
      count' = length (enc st' 0) \<and> length (enc st' 0) \<le> num"
proof (induction "len - i" arbitrary: i st count rule: less_induct)
  case less
  have go: ?case if j: "jsmn_loop js len num count1 (mk j st1) = Some (Inr (count', p'))" "i < j" "j \<le> len"
      "so_far js len st1 j" "count1 = length (enc st1 0)" "length (enc st1 0) \<le> num" for j st1 count1
    using less.hyps[OF _ j(1,4,3,5,6)] j(2,3) by (simp add: diff_less_mono2)
  show ?case
  proof (cases "i < len \<and> js ! i \<noteq> CHR 0x00")
    case False
    then have "jsmn_loop js len num count (mk i st) = Some (Inr (count, mk i st))"
      using assms by (subst jsmn_loop.simps) auto
    then show ?thesis using less.prems False by (intro exI[of _ i] exI[of _ st]) auto
  next
    case True
    then have i: "i < len" "js ! i \<noteq> CHR 0x00" by simp_all
    obtain count1 p1 where ch: "jsmn_char js len num (js ! i) count (mk i st) = Some (Inr (count1, p1))"
        and rest: "jsmn_loop js len num count1 (p1\<lparr>jp_pos := jp_pos p1 + 1\<rparr>) = Some (Inr (count', p'))"
      using less.prems(1) loop_step[OF i(1) _ i(2), of num count st] i(1) assms by (auto split: option.splits sum.splits)
    from ch show ?thesis
    proof (cases rule: jsmn_char_cases)
      case bracket
      obtain tops fr where st: "st = (tops, fr)" by (cases st)
      let ?ty = "if js ! i = CHR ''{'' then JSMN_OBJECT else JSMN_ARRAY"
      have p1: "p1 = mk i (tops, (?ty, i, []) # fr)" "length (enc st 0) < num"
        using bracket(3) by (auto simp: open_mk st split: if_splits)
      have "so_far js len (tops, (?ty, i, []) # fr) (Suc i)" using less.prems(2) bracket(1) st by (auto intro: r_done)
      then show ?thesis using go[of count1 "Suc i" "(tops, (?ty, i, []) # fr)"] rest p1 i bracket(2) less.prems(4) st by simp
    next
      case close
      obtain tops fr where st: "st = (tops, fr)" by (cases st)
      obtain ty b kids fr' where fr: "fr = (ty, b, kids) # fr'" "ty = (if js ! i = CHR ''}'' then JSMN_OBJECT else JSMN_ARRAY)"
          "p1 = mk i (add_node (Node ty b (Suc i) kids) (tops, fr'))"
        using close(3) by (auto simp: close_mk st split: list.splits if_splits prod.splits)
      have s: "so_far js len (tops, fr') b" "opener ty (js ! b)" "b < i" "renders js len (Suc b) i kids"
        using less.prems(2) st fr(1) by simp_all
      have "renders js len b (Suc i) [Node ty b (Suc i) kids]"
        by (rule r_container[OF s(2,3) i(1) s(4) _ r_done]) (use fr(2) close(1) in auto)
      then have "so_far js len (add_node (Node ty b (Suc i) kids) (tops, fr')) (Suc i)" by (rule so_far_add[OF s(1)])
      then show ?thesis
        using go[of count1 "Suc i" "add_node (Node ty b (Suc i) kids) (tops, fr')"] rest fr i close(2) less.prems(4,5) st by simp
    next
      case (str p2)
      from str(2-4) have "then_count count (jsmn_parse_string js len num (mk i st)) = Some (Inr (count1, p1))" by (simp add: then_count_def)
      then obtain e where e: "str_scan js len (Suc i) = Some (Inr e)" "length (enc st 0) < num" "count1 = Suc count"
          "p1 = mk e (add_node (Leaf JSMN_STRING (Suc i) e) st)"
        by (auto simp: string_mk split: option.splits sum.splits if_splits)
      then have b: "Suc i \<le> e" "e < len" "string_body (part js (Suc i) e)" "js ! e = CHR 0x22" using str_scan_body[OF assms] by auto
      then have "renders js len i (Suc e) [Leaf JSMN_STRING (Suc i) e]"
        using str(1) by (intro r_string r_done) simp_all
      from so_far_add[OF less.prems(2) this] show ?thesis
        using go[of count1 "Suc e" "add_node (Leaf JSMN_STRING (Suc i) e) st"] rest e b less.prems(4) by simp
    next
      case skip
      then show ?thesis using go[of count "Suc i" st] rest i so_far_skip[OF less.prems(2) i(1) skip(1)] less.prems(4,5) by simp
    next
      case (prim p2)
      from prim(2-4) have "then_count count (jsmn_parse_primitive js len num (mk i st)) = Some (Inr (count1, p1))" by (simp add: then_count_def)
      then obtain e where e: "prim_scan js len i = Some (Inr e)" "length (enc st 0) < num" "count1 = Suc count"
          "p1 = mk (e - 1) (add_node (Leaf JSMN_PRIMITIVE i e) st)"
        by (auto simp: prim_mk split: option.splits sum.splits if_splits)
      then have b: "e < len" "list_all prim_char (part js i e)" "prim_end (js ! e)" using prim_scan_eq[OF assms] by auto
      have "i < e" using prim_scan_starts[OF _ prim(1) e(1)] i(1) assms by simp
      then have "renders js len i e [Leaf JSMN_PRIMITIVE i e]" using prim(1) b by (intro r_prim r_done)
      from so_far_add[OF less.prems(2) this] show ?thesis
        using go[of count1 e "add_node (Leaf JSMN_PRIMITIVE i e) st"] rest e b \<open>i < e\<close> less.prems(4) by simp
    qed
  qed
qed

lemma so_far_closed:
  "so_far js len (tops, fr) k \<Longrightarrow> find_open (enc (tops, fr) 0) (length (enc (tops, fr) 0)) = None \<Longrightarrow> fr = [] \<and> renders js len 0 k tops"
  by (cases fr) (auto simp: find_open_enc)

lemma fold_add_tops: "fold add_node ns (tops, []) = (tops @ ns, [])"
  by (induction ns arbitrary: tops) simp_all

lemma jsmn_init_mk: "jsmn_init = mk 0 ([], [])"
  by (simp add: jsmn_init_def mk_def)

text \<open>
  The text up to a position where it ends, or where a character 0 stops the parser.
\<close>

definition text_renders :: "string \<Rightarrow> nat \<Rightarrow> node list \<Rightarrow> bool" where
  "text_renders js len ns \<longleftrightarrow> (\<exists>k \<le> len. (k = len \<or> js ! k = CHR 0x00) \<and> renders js len 0 k ns)"

lemma jsmn_parse_result:
  "jsmn_parse P js len num = Some (Inr (count, toks)) \<Longrightarrow>
   \<exists>p. jsmn_loop js len num 0 P = Some (Inr (count, p)) \<and> find_open (jp_toks p) (length (jp_toks p)) = None \<and> toks = jp_toks p"
proof -
  assume A: "jsmn_parse P js len num = Some (Inr (count, toks))"
  obtain r where r: "jsmn_loop js len num 0 P = Some r" using A by (cases "jsmn_loop js len num 0 P") (simp_all add: jsmn_parse_def)
  then obtain n p where np: "r = Inr (n, p)" using A by (cases r) (auto simp: jsmn_parse_def)
  have "find_open (jp_toks p) (length (jp_toks p)) = None \<and> n = count \<and> toks = jp_toks p"
    using A by (cases "find_open (jp_toks p) (length (jp_toks p))") (simp_all add: jsmn_parse_def r np)
  then show ?thesis using r np by blast
qed

lemma jsmn_parse_renders:
  assumes "len \<le> length js" "text_renders js len ns"
  shows "jsmn_parse jsmn_init js len num =
    (if length (flats ns) \<le> num then Some (Inr (length (flats ns), flats ns)) else Some (Inl JSMN_ERROR_NOMEM))"
proof -
  obtain k where k: "k \<le> len" "k = len \<or> js ! k = CHR 0x00" "renders js len 0 k ns" using assms(2) by (auto simp: text_renders_def)
  have "jsmn_loop js len num 0 (mk 0 ([], [])) =
      (if length (flats ns) \<le> num then jsmn_loop js len num (length (flats ns)) (mk k (ns, [])) else Some (Inl JSMN_ERROR_NOMEM))"
    using loop_renders[OF k(3) assms(1), of "([], [])" num 0] by (simp add: fold_add_tops)
  also have "jsmn_loop js len num (length (flats ns)) (mk k (ns, [])) = Some (Inr (length (flats ns), mk k (ns, [])))"
    using k(1,2) assms(1) by (subst jsmn_loop.simps) auto
  finally show ?thesis using find_open_enc[of ns "[]" 0] by (simp add: jsmn_parse_def jsmn_init_mk)
qed

lemma jsmn_parse_eq:
  assumes "len \<le> length js"
  shows "jsmn_parse jsmn_init js len num = Some (Inr (count, toks)) \<longleftrightarrow>
    (\<exists>ns. text_renders js len ns \<and> toks = flats ns \<and> count = length toks \<and> length toks \<le> num)"
proof
  assume parse: "jsmn_parse jsmn_init js len num = Some (Inr (count, toks))"
  obtain p where p: "jsmn_loop js len num 0 (mk 0 ([], [])) = Some (Inr (count, p))"
      "find_open (jp_toks p) (length (jp_toks p)) = None" "toks = jp_toks p"
    using jsmn_parse_result[OF parse] unfolding jsmn_init_mk by blast
  from loop_sound[OF assms p(1)] obtain k st' where k: "p = mk k st'" "so_far js len st' k" "k \<le> len" "k = len \<or> js ! k = CHR 0x00"
      "count = length (enc st' 0)" "length (enc st' 0) \<le> num"
    by (auto intro: r_done)
  obtain tops fr where st: "st' = (tops, fr)" by (cases st')
  have "fr = []" "renders js len 0 k tops" using so_far_closed[of js len tops fr k] k(1,2) p(2) st by auto
  then show "\<exists>ns. text_renders js len ns \<and> toks = flats ns \<and> count = length toks \<and> length toks \<le> num"
    using k p(3) st by (auto simp: text_renders_def)
next
  assume "\<exists>ns. text_renders js len ns \<and> toks = flats ns \<and> count = length toks \<and> length toks \<le> num"
  then show "jsmn_parse jsmn_init js len num = Some (Inr (count, toks))" using jsmn_parse_renders[OF assms] by auto
qed

text \<open>With as many tokens as characters, the tokens do not run out.\<close>

lemma scan_errors:
  "prim_scan js len i \<noteq> Some (Inl JSMN_ERROR_NOMEM)" "hex_run n js i \<noteq> Some (Inl JSMN_ERROR_NOMEM)"
  "str_scan js len i \<noteq> Some (Inl JSMN_ERROR_NOMEM)"
proof -
  show "prim_scan js len i \<noteq> Some (Inl JSMN_ERROR_NOMEM)"
  proof (induction js len i rule: prim_scan.induct)
    case (1 js len i)
    then show ?case by (subst prim_scan.simps) (auto split: option.splits)
  qed
  show hex: "hex_run n js i \<noteq> Some (Inl JSMN_ERROR_NOMEM)" for n i
    by (induction n arbitrary: i) (auto split: option.splits)
  show "str_scan js len i \<noteq> Some (Inl JSMN_ERROR_NOMEM)"
  proof (induction "len - i" arbitrary: i rule: less_induct)
    case less
    have IH: "str_scan js len j \<noteq> Some (Inl JSMN_ERROR_NOMEM)" if "i < len" "i < j" for j
      using less[of j] that by (simp add: diff_less_mono2)
    have "str_scan js len j \<noteq> Some (Inl JSMN_ERROR_NOMEM)" if "i < len" "hex_run 4 js (Suc (Suc i)) = Some (Inr j)" for j
      using IH[of j] hex_run_forward[OF that(2)] that(1) by simp
    then show ?case using IH[of "Suc i"] IH[of "Suc (Suc i)"] hex[of 4 "Suc (Suc i)"]
      by (subst str_scan.simps) (simp split: option.split sum.split; blast)
  qed
qed

lemma loop_nomem:
  "jsmn_loop js len num count (mk i st) = Some (Inl JSMN_ERROR_NOMEM) \<Longrightarrow> length (enc st 0) \<le> i \<Longrightarrow> num < len"
proof (induction "len - i" arbitrary: i st count rule: less_induct)
  case less
  have go: ?case if "jsmn_loop js len num count1 (mk j st1) = Some (Inl JSMN_ERROR_NOMEM)" "i < len" "i < j" "length (enc st1 0) \<le> j" for j st1 count1
    using less.hyps[OF _ that(1,4)] that(2,3) by (simp add: diff_less_mono2)
  have i: "i < len" "js ! i \<noteq> CHR 0x00" "i < length js"
    using less.prems(1) by (subst (asm) jsmn_loop.simps; auto split: if_splits option.splits)+
  obtain tops fr where st: "st = (tops, fr)" by (cases st)
  show ?case
  proof (cases "num \<le> length (enc st 0)")
    case True
    then show ?thesis using less.prems(2) i(1) by simp
  next
    case False
    from less.prems(1) consider "jsmn_char js len num (js ! i) count (mk i st) = Some (Inl JSMN_ERROR_NOMEM)"
      | count1 p1 where "jsmn_char js len num (js ! i) count (mk i st) = Some (Inr (count1, p1))"
          "jsmn_loop js len num count1 (p1\<lparr>jp_pos := jp_pos p1 + 1\<rparr>) = Some (Inl JSMN_ERROR_NOMEM)"
      using loop_step[OF i(1,3,2), of num count st] by (auto split: option.splits sum.splits)
    then show ?thesis
    proof cases
      case 1
      then show ?thesis using False
        by (auto simp: jsmn_char_def then_go_def open_mk close_mk string_mk prim_mk scan_errors st
            split: if_splits list.splits option.splits sum.splits prod.splits)
    next
      case (2 count1 p1)
      from 2(1) have "\<exists>j st1. p1 = mk j st1 \<and> i \<le> j \<and> length (enc st1 0) \<le> Suc j"
      proof (cases rule: jsmn_char_cases)
        case bracket
        then have "p1 = mk i (tops, ((if js ! i = CHR ''{'' then JSMN_OBJECT else JSMN_ARRAY), i, []) # fr)"
          by (auto simp: open_mk st split: if_splits)
        then show ?thesis using less.prems(2) st by (intro exI[of _ i] exI conjI) (assumption, simp_all)
      next
        case close
        then obtain n fr' ty b kids where "p1 = mk i (add_node (Node ty b (Suc i) kids) (tops, fr'))" "fr = (ty, b, kids) # fr'"
          by (auto simp: close_mk st split: list.splits if_splits prod.splits)
        then show ?thesis using less.prems(2) st by (intro exI[of _ i] exI[of _ "add_node (Node ty b (Suc i) kids) (tops, fr')"]) simp
      next
        case (str p2)
        from str(2-4) have "then_count count (jsmn_parse_string js len num (mk i st)) = Some (Inr (count1, p1))" by (simp add: then_count_def)
        then obtain e where "str_scan js len (Suc i) = Some (Inr e)" "p1 = mk e (add_node (Leaf JSMN_STRING (Suc i) e) st)"
          by (auto simp: string_mk split: option.splits sum.splits if_splits)
        then show ?thesis using less.prems(2) str_scan_forward[of js len "Suc i" e]
          by (intro exI[of _ e] exI[of _ "add_node (Leaf JSMN_STRING (Suc i) e) st"]) simp
      next
        case skip
        then show ?thesis using less.prems(2) by (intro exI[of _ i] exI[of _ st]) simp
      next
        case (prim p2)
        from prim(2-4) have "then_count count (jsmn_parse_primitive js len num (mk i st)) = Some (Inr (count1, p1))" by (simp add: then_count_def)
        then obtain e where e: "prim_scan js len i = Some (Inr e)" "p1 = mk (e - 1) (add_node (Leaf JSMN_PRIMITIVE i e) st)"
          by (auto simp: prim_mk split: option.splits sum.splits if_splits)
        then show ?thesis using less.prems(2) prim_scan_starts[OF _ prim(1) e(1)] i(1,3)
          by (intro exI[of _ "e - 1"] exI[of _ "add_node (Leaf JSMN_PRIMITIVE i e) st"]) simp
      qed
      then show ?thesis using go[of count1] 2(2) i(1) by fastforce
    qed
  qed
qed

lemma jsmn_parse_nomem:
  "jsmn_parse jsmn_init js len num = Some (Inl JSMN_ERROR_NOMEM) \<Longrightarrow> num < len"
  by (auto simp: jsmn_parse_def jsmn_init_mk elim!: bind_SomeE split: sum.splits if_splits dest!: loop_nomem)

end
