(* ===== verification/Base58.thy ===== *)
theory Base58
  imports Openssl
begin

text \<open>
  \<open>base58.c\<close>: addresses and private keys as strings of base 58 digits with a checksum. Big numbers
  are those of OpenSSL. A C string is a list of characters without its terminator; a string that did
  not fit is the null pointer, and using it is the failure \<open>None\<close>.
\<close>

subsection \<open>Digits\<close>

definition BASE58_ADDR_MAX_LEN :: nat where "BASE58_ADDR_MAX_LEN = 36"
definition BASE58_KEY_MAX_LEN :: nat where "BASE58_KEY_MAX_LEN = 53"
definition PETTY_PREFIX :: u8 where "PETTY_PREFIX = 56"
definition PETTY_PREFIX_TESTNET :: u8 where "PETTY_PREFIX_TESTNET = 120"

definition enc58 :: string where
  "enc58 = ''123456789ABCDEFGHJKLMNPQRSTUVWXYZabcdefghijkmnopqrstuvwxyz''"

definition encode_char :: "nat \<Rightarrow> char option" where
  "encode_char val = do { c_assert (val < length enc58); Some (enc58 ! val) }"

fun strchr_from :: "nat \<Rightarrow> char \<Rightarrow> string \<Rightarrow> int" where
  "strchr_from i c [] = -1"
| "strchr_from i c (x # xs) = (if x = c then int i else strchr_from (Suc i) c xs)"

definition decode_char :: "char \<Rightarrow> int" where
  \<comment> \<open>\<open>strchr\<close> finds the terminator as well\<close>
  "decode_char c = strchr_from 0 c (enc58 @ [CHR 0x00])"

fun encode_digits :: "openssl \<Rightarrow> nat \<Rightarrow> nat \<Rightarrow> string \<Rightarrow> (nat \<times> string) option option" where
  \<comment> \<open>the first loop of \<open>encode_base58\<close>, from the back; \<open>room\<close> bytes are left in front of the string\<close>
  "encode_digits ssl room bn str =
     (if bn = 0 then Some (Some (room, str))
      else do {
        (bn', rem) \<leftarrow> BN_div_word ssl bn 58;
        (case room of
           0 \<Rightarrow> Some None
         | Suc room' \<Rightarrow> do { c \<leftarrow> encode_char rem; encode_digits ssl room' bn' (c # str) }) })"

fun encode_zeroes :: "nat \<Rightarrow> bytes \<Rightarrow> string \<Rightarrow> string option option" where
  \<comment> \<open>the second loop\<close>
  "encode_zeroes room [] str = Some (Some str)"
| "encode_zeroes room (d # data) str =
     (if d = 0 then (case room of
          0 \<Rightarrow> Some None
        | Suc room' \<Rightarrow> do { c \<leftarrow> encode_char 0; encode_zeroes room' data (c # str) })
      else Some (Some str))"

definition encode_base58 :: "openssl \<Rightarrow> nat \<Rightarrow> bytes \<Rightarrow> string option option" where
  \<comment> \<open>the inner \<open>None\<close> is the null pointer: it does not fit\<close>
  "encode_base58 ssl buflen data =
     do { bn \<leftarrow> BN_bin2bn ssl data;
          if buflen = 0 then Some None
          else do {
            r \<leftarrow> encode_digits ssl (buflen - 1) bn [];
            (case r of None \<Rightarrow> Some None | Some (room, str) \<Rightarrow> encode_zeroes room data str) } }"

fun decode_digits :: "openssl \<Rightarrow> nat \<Rightarrow> string \<Rightarrow> nat option option" where
  "decode_digits ssl bn [] = Some (Some bn)"
| "decode_digits ssl bn (c # src) =
     (let val = decode_char c in
      if val < 0 then Some None
      else do {
        bn1 \<leftarrow> BN_mul_word ssl bn 58;
        bn2 \<leftarrow> BN_add_word ssl bn1 (nat val);
        decode_digits ssl bn2 src })"

definition raw_decode_base58 :: "openssl \<Rightarrow> string \<Rightarrow> nat option option" where
  \<comment> \<open>the inner \<open>None\<close> is the result \<open>false\<close>\<close>
  "raw_decode_base58 ssl src = decode_digits ssl 0 src"

definition base58_get_checksum :: "openssl \<Rightarrow> bytes \<Rightarrow> bytes" where
  "base58_get_checksum ssl buf = take 4 (SHA256 ssl (SHA256 ssl buf))"

subsection \<open>Addresses\<close>

definition pettycoin_to_base58 :: "openssl \<Rightarrow> bool \<Rightarrow> bytes \<Rightarrow> bool \<Rightarrow> string option" where
  "pettycoin_to_base58 ssl test_net addr bitcoin_style =
     do { let buf = (if bitcoin_style then (if test_net then 111 else 0)
                     else (if test_net then PETTY_PREFIX_TESTNET else PETTY_PREFIX)) # addr;
          p \<leftarrow> encode_base58 ssl BASE58_ADDR_MAX_LEN (buf @ base58_get_checksum ssl buf);
          str \<leftarrow> p;
          Some (if bitcoin_style then ''P-'' @ str else str) }"

definition strip_bitcoin :: "string \<Rightarrow> bool \<times> string" where
  "strip_bitcoin base58 =
     (if length base58 > 2 \<and> take 2 base58 = ''P-'' then (True, drop 2 base58) else (False, base58))"

definition address_version :: "bool \<Rightarrow> u8 \<Rightarrow> bool option" where
  \<comment> \<open>whether the first byte is that of the test network\<close>
  "address_version is_bitcoin v =
     (if is_bitcoin then (if v = 111 then Some True else if v = 0 then Some False else None)
      else (if v = PETTY_PREFIX_TESTNET then Some True else if v = PETTY_PREFIX then Some False else None))"

definition pettycoin_from_base58 :: "openssl \<Rightarrow> string \<Rightarrow> (bool \<times> bytes) option option" where
  \<comment> \<open>\<open>test_net\<close> and \<open>addr\<close>; the inner \<open>None\<close> is the result \<open>false\<close>\<close>
  "pettycoin_from_base58 ssl base58 =
     do { let (is_bitcoin, base58) = strip_bitcoin base58;
          r \<leftarrow> raw_decode_base58 ssl base58;
          (case r of
             None \<Rightarrow> Some None
           | Some bn \<Rightarrow>
               (let len = BN_num_bytes ssl bn in
                if len > 25 then Some None
                else (let buf = replicate (25 - len) 0 @ BN_bn2bin ssl bn in
                  do { v \<leftarrow> c_nth buf 0;
                       (case address_version is_bitcoin v of
                          None \<Rightarrow> Some None
                        | Some test_net \<Rightarrow>
                            if base58_get_checksum ssl (take 21 buf) \<noteq> drop 21 buf then Some None
                            else Some (Some (test_net, take 20 (drop 1 buf)))) }))) }"

definition base58_with_check :: "openssl \<Rightarrow> bytes \<Rightarrow> string option option" where
  \<comment> \<open>\<open>buf\<close> is the version and the 20 bytes behind it\<close>
  "base58_with_check ssl buf =
     encode_base58 ssl BASE58_ADDR_MAX_LEN (buf @ base58_get_checksum ssl buf)"

definition ripemd_from_base58 :: "openssl \<Rightarrow> string \<Rightarrow> (u8 \<times> bytes) option option" where
  \<comment> \<open>the checksum is taken over the whole of \<open>buf\<close>\<close>
  "ripemd_from_base58 ssl base58 =
     (if length base58 > BASE58_ADDR_MAX_LEN - 1 then Some None
      else do {
        r \<leftarrow> raw_decode_base58 ssl base58;
        (case r of
           None \<Rightarrow> Some None
         | Some bn \<Rightarrow>
             (let len = BN_num_bytes ssl bn in
              if len > 25 then Some None
              else (let buf = replicate (25 - len) 0 @ BN_bn2bin ssl bn in
                if base58_get_checksum ssl buf \<noteq> drop 21 buf then Some None
                else do { v \<leftarrow> c_nth buf 0; Some (Some (v, take 20 (drop 1 buf))) }))) })"

subsection \<open>Keys\<close>

definition key_prefix :: "bool \<Rightarrow> bool \<Rightarrow> u8" where
  "key_prefix test_net bitcoin_style =
     (if test_net then 239 else 128) + (if bitcoin_style then 0 else of_char (CHR ''P'') - of_char (CHR ''B''))"

definition key_to_base58 :: "openssl \<Rightarrow> bool \<Rightarrow> nat \<Rightarrow> bool \<Rightarrow> string option" where
  \<comment> \<open>a key is its private number\<close>
  "key_to_base58 ssl test_net bn bitcoin_style =
     do { let len = BN_num_bytes ssl bn;
          c_assert (len \<le> 32);
          let buf = key_prefix test_net bitcoin_style # replicate (32 - len) 0 @ BN_bn2bin ssl bn @ [1];
          p \<leftarrow> encode_base58 ssl BASE58_KEY_MAX_LEN (buf @ base58_get_checksum ssl buf);
          str \<leftarrow> p;
          Some (if bitcoin_style then ''P-'' @ str else str) }"

definition EC_KEY_regenerate_key :: "(nat \<Rightarrow> bool) \<Rightarrow> nat \<Rightarrow> nat option" where
  \<comment> \<open>\<open>ec_mul\<close> says whether OpenSSL computes the public point of a private key\<close>
  "EC_KEY_regenerate_key ec_mul priv_key = (if ec_mul priv_key then Some priv_key else None)"

definition key_version :: "bool \<Rightarrow> u8 \<Rightarrow> bool option" where
  "key_version is_bitcoin v =
     (if v = key_prefix False is_bitcoin then Some False
      else if v = key_prefix True is_bitcoin then Some True else None)"

definition key_from_base58 ::
    "openssl \<Rightarrow> (nat \<Rightarrow> bool) \<Rightarrow> string \<Rightarrow> (bool \<times> bytes \<times> nat) option option" where
  \<comment> \<open>\<open>test_net\<close>, the public key and the private key; the inner \<open>None\<close> is the null pointer\<close>
  "key_from_base58 ssl ec_mul base58 =
     do { let (is_bitcoin, base58) = strip_bitcoin base58;
          r \<leftarrow> raw_decode_base58 ssl base58;
          (case r of
             None \<Rightarrow> Some None
           | Some bn \<Rightarrow>
               if BN_num_bytes ssl bn \<noteq> 38 then Some None
               else (let keybuf = BN_bn2bin ssl bn in
                 if base58_get_checksum ssl (take 34 keybuf) \<noteq> drop 34 keybuf then Some None
                 else do {
                   compressed \<leftarrow> c_nth keybuf 33;
                   if compressed \<noteq> 1 then Some None
                   else do {
                     v \<leftarrow> c_nth keybuf 0;
                     (case key_version is_bitcoin v of
                        None \<Rightarrow> Some None
                      | Some test_net \<Rightarrow>
                          (case BN_bin2bn ssl (take 32 (drop 1 keybuf)) of
                             None \<Rightarrow> Some None
                           | Some bn \<Rightarrow>
                               (case EC_KEY_regenerate_key ec_mul bn of
                                  None \<Rightarrow> Some None
                                | Some priv \<Rightarrow> do {
                                    c_assert (length (i2o_ECPublicKey ssl priv) = 33);
                                    Some (Some (test_net, i2o_ECPublicKey ssl priv, priv)) }))) } })) }"

subsection \<open>Digits and numbers\<close>

definition fold58 :: "nat \<Rightarrow> string \<Rightarrow> nat" where
  \<comment> \<open>the number that digits stand for, behind the digits of \<open>n\<close>\<close>
  "fold58 n str = foldl (\<lambda>n c. n * 58 + nat (decode_char c)) n str"

lemma digits58: "\<forall>n \<in> set [0..<58]. decode_char (enc58 ! n) = int n \<and> enc58 ! n \<noteq> CHR ''-'' \<and> enc58 ! n \<noteq> CHR 0x00"
  by code_simp

lemma encode_decode_char:
  assumes "n < 58"
  shows "encode_char n = Some (enc58 ! n) \<and> decode_char (enc58 ! n) = int n \<and> enc58 ! n \<noteq> CHR ''-''"
proof -
  have "length enc58 = 58" by (simp add: enc58_def)
  then show ?thesis using assms digits58 by (simp add: encode_char_def c_assert_def)
qed

definition digits_ok :: "string \<Rightarrow> bool" where
  "digits_ok str \<longleftrightarrow> (\<forall>c \<in> set str. 0 \<le> decode_char c \<and> decode_char c \<le> 58 \<and> c \<noteq> CHR ''-'')"

lemma decode_digits_eq:
  assumes "bn_ok ssl" "digits_ok str"
  shows "decode_digits ssl n str = Some (Some (fold58 n str))"
  using assms(2)
proof (induction str arbitrary: n)
  case (Cons c str)
  then have ok: "digits_ok str" and "0 \<le> decode_char c" "decode_char c \<le> 58" by (simp_all add: digits_ok_def)
  then have c: "0 \<le> decode_char c" and "nat (decode_char c) \<le> 58" by simp_all
  moreover have "(58 :: nat) < 2 ^ 64" by simp
  ultimately have c2: "nat (decode_char c) < 2 ^ 64" by (meson le_less_trans)
  have "BN_mul_word ssl n 58 = Some (n * 58)" using bn_okD(7)[OF assms(1), of 58 n] by simp
  moreover have "BN_add_word ssl (n * 58) (nat (decode_char c)) = Some (n * 58 + nat (decode_char c))"
    using bn_okD(6)[OF assms(1) c2] by simp
  ultimately show ?case using c Cons.IH[OF ok] by (simp add: fold58_def)
qed (simp add: fold58_def)

declare encode_digits.simps [simp del]

lemma encode_digits_ok:
  assumes "bn_ok ssl" "bn < 58 ^ room"
  shows "\<exists>ds. encode_digits ssl room bn str = Some (Some (room - length ds, ds @ str)) \<and> digits_ok ds \<and>
    fold58 0 ds = bn \<and> (\<forall>k. bn < 58 ^ k \<longrightarrow> length ds \<le> k)"
  using assms(2)
proof (induction room arbitrary: bn str)
  case 0
  then show ?case by (intro exI[of _ "[]"]) (simp add: digits_ok_def fold58_def encode_digits.simps[of _ _ 0])
next
  case (Suc room)
  show ?case
  proof (cases "bn = 0")
    case True
    then show ?thesis by (intro exI[of _ "[]"]) (simp add: digits_ok_def fold58_def encode_digits.simps[of _ _ 0])
  next
    case False
    have div: "BN_div_word ssl bn 58 = Some (bn div 58, bn mod 58)" using bn_okD(8)[OF assms(1), of 58 bn] by simp
    let ?c = "enc58 ! (bn mod 58)"
    note c = encode_decode_char[of "bn mod 58", simplified]
    have "bn div 58 < 58 ^ room" using Suc.prems by (simp add: less_mult_imp_div_less mult.commute)
    then obtain ds where ds: "encode_digits ssl room (bn div 58) (?c # str) = Some (Some (room - length ds, ds @ ?c # str))"
      "digits_ok ds" "fold58 0 ds = bn div 58" "\<And>k. bn div 58 < 58 ^ k \<Longrightarrow> length ds \<le> k"
      using Suc.IH[of "bn div 58" "?c # str"] by blast
    have dc: "decode_char ?c < 58" using c by simp
    have "length (ds @ [?c]) \<le> k" if "bn < 58 ^ k" for k
    proof (cases k)
      case 0
      then show ?thesis using that False by simp
    next
      case (Suc j)
      then have "bn div 58 < 58 ^ j" using that by (simp add: less_mult_imp_div_less mult.commute)
      then show ?thesis using ds(4) Suc by simp
    qed
    moreover have "fold58 0 (ds @ [?c]) = bn" using ds(3) c by (simp add: fold58_def)
    moreover have "digits_ok (ds @ [?c])" using ds(2) c dc by (auto simp: digits_ok_def)
    ultimately show ?thesis using div False c ds(1)
      by (intro exI[of _ "ds @ [?c]"]) (simp add: encode_digits.simps[of ssl "Suc room" bn])
  qed
qed

lemma encode_zeroes_ok:
  assumes "digits_ok str" "length (takeWhile (\<lambda>d. d = 0) data) \<le> room"
  shows "\<exists>str'. encode_zeroes room data str = Some (Some str') \<and> digits_ok str' \<and> fold58 0 str' = fold58 0 str \<and>
    length str' = length str + length (takeWhile (\<lambda>d. d = 0) data)"
  using assms
proof (induction data arbitrary: room str)
  case (Cons d data)
  show ?case
  proof (cases "d = 0")
    case True
    then obtain room' where r: "room = Suc room'" using Cons.prems(2) by (cases room) auto
    note c = encode_decode_char[of 0, simplified]
    have "digits_ok (enc58 ! 0 # str)" using Cons.prems(1) c by (simp add: digits_ok_def)
    then obtain str' where "encode_zeroes room' data (enc58 ! 0 # str) = Some (Some str') \<and> digits_ok str' \<and>
        fold58 0 str' = fold58 0 (enc58 ! 0 # str) \<and> length str' = length (enc58 ! 0 # str) + length (takeWhile (\<lambda>d. d = 0) data)"
      using Cons.IH[of "enc58 ! 0 # str" room'] Cons.prems(2) True r by auto
    moreover have "fold58 0 (enc58 ! 0 # str) = fold58 0 str" using c by (simp add: fold58_def)
    ultimately show ?thesis using True r c by auto
  qed (use Cons.prems in simp)
qed simp

subsection \<open>Strings\<close>

abbreviation zeros :: "bytes \<Rightarrow> nat" where
  "zeros data \<equiv> length (takeWhile (\<lambda>d. d = 0) data)"

lemma zeros_le: "zeros data \<le> length data"
  by (rule length_takeWhile_le)

lemma be_nat_zeros_less: "be_nat data < 256 ^ (length data - zeros data)"
proof (induction data)
  case (Cons d data)
  then show ?case using be_nat_less[of "d # data"] by (cases "d = 0") (simp_all add: be_nat_Cons)
qed (simp add: be_nat_def)

lemma be_nat_pad: "be_nat (replicate k 0 @ bs) = be_nat bs"
  by (induction k) (simp_all add: be_nat_Cons)

lemma fits58:
  assumes "(256 :: nat) ^ n \<le> 58 ^ m" "z \<le> n"
  shows "z \<le> m \<and> (256 :: nat) ^ (n - z) \<le> 58 ^ (m - z)"
proof -
  have "(58 :: nat) ^ n \<le> 256 ^ n" by (rule power_mono) simp_all
  then have "(58 :: nat) ^ n \<le> 58 ^ m" using assms(1) by linarith
  then have m: "z \<le> m" using assms(2) by simp
  have "(256 :: nat) ^ (n - z) * 58 ^ z \<le> 256 ^ (n - z) * 256 ^ z" by (intro mult_le_mono2 power_mono) simp_all
  also have "\<dots> = 256 ^ n" using assms(2) by (simp flip: power_add)
  also have "\<dots> \<le> 58 ^ (m - z) * 58 ^ z" using assms(1) m by (simp flip: power_add)
  finally show ?thesis using m by simp
qed

lemma encode_base58_ok:
  assumes "bn_ok ssl" "256 ^ length data \<le> (58 :: nat) ^ (buflen - 1)" "data \<noteq> []"
  shows "\<exists>str. encode_base58 ssl buflen data = Some (Some str) \<and> digits_ok str \<and> fold58 0 str = be_nat data \<and> str \<noteq> [] \<and>
    length str < buflen"
proof -
  let ?m = "buflen - 1" and ?z = "zeros data"
  have "buflen - 1 \<noteq> 0" using assms(2,3) one_less_power[of "256 :: nat" "length data"] by (intro notI) simp
  then have l: "buflen \<noteq> 0" by simp
  have fit: "?z \<le> ?m" "be_nat data < 58 ^ (?m - ?z)"
    using fits58[OF assms(2) zeros_le] be_nat_zeros_less[of data] by simp_all
  have "be_nat data < 58 ^ ?m" using be_nat_less[of data] assms(2) by linarith
  then obtain ds where ds: "encode_digits ssl ?m (be_nat data) [] = Some (Some (?m - length ds, ds))" "digits_ok ds"
      "fold58 0 ds = be_nat data" "length ds \<le> ?m - ?z"
    using encode_digits_ok[OF assms(1), of "be_nat data" ?m "[]"] fit(2) by auto
  moreover have "?z \<le> ?m - length ds" using ds(4) fit(1) by linarith
  ultimately obtain str where str: "encode_zeroes (?m - length ds) data ds = Some (Some str)" "digits_ok str" "fold58 0 str = be_nat data"
      "length str = length ds + ?z"
    using encode_zeroes_ok[OF ds(2), of data "?m - length ds"] fit(1) by auto
  have "str \<noteq> []"
  proof
    assume "str = []"
    then have "be_nat data = 0" "?z = 0" using str(3,4) by (simp_all add: fold58_def)
    then show False using assms(3) be_nat_less[of "tl data"] by (cases data) (auto simp: be_nat_Cons unat_eq_0 split: if_splits)
  qed
  then show ?thesis using str ds(1,4) fit(1) l bn_okD(12)[OF assms(1)] by (auto simp: encode_base58_def)
qed

lemma unpad:
  assumes "bn_ok ssl"
  shows "BN_num_bytes ssl (be_nat data) \<le> length data \<and>
    replicate (length data - BN_num_bytes ssl (be_nat data)) 0 @ BN_bn2bin ssl (be_nat data) = data"
proof -
  let ?n = "be_nat data"
  have n: "num_bytes ?n \<le> length data" by (rule num_bytes_le) (rule be_nat_less)
  have "be_nat (replicate (length data - num_bytes ?n) 0 @ nat_be (num_bytes ?n) ?n) = ?n"
    using num_bytes_gt[of ?n] by (simp add: be_nat_pad be_nat_nat_be)
  then have "replicate (length data - num_bytes ?n) 0 @ nat_be (num_bytes ?n) ?n = data"
    using n by (intro be_nat_inj) simp_all
  then show ?thesis using n bn_okD(11,13)[OF assms] by simp
qed

lemma strip_ours: "digits_ok str \<Longrightarrow> str \<noteq> [] \<Longrightarrow> strip_bitcoin (if b then ''P-'' @ str else str) = (b, str)"
  by (cases str; cases "tl str") (auto simp: strip_bitcoin_def digits_ok_def Suc_lessI)

lemma decode_ours: "bn_ok ssl \<Longrightarrow> digits_ok str \<Longrightarrow> raw_decode_base58 ssl str = Some (Some (fold58 0 str))"
  by (simp add: raw_decode_base58_def decode_digits_eq)

lemma length_checksum: "digest_ok ssl \<Longrightarrow> length (base58_get_checksum ssl buf) = 4"
  by (simp add: base58_get_checksum_def)

lemma addr_fits: "(256 :: nat) ^ 25 \<le> 58 ^ (BASE58_ADDR_MAX_LEN - 1)" "(256 :: nat) ^ 38 \<le> 58 ^ (BASE58_KEY_MAX_LEN - 1)"
  by (simp_all add: BASE58_ADDR_MAX_LEN_def BASE58_KEY_MAX_LEN_def)

subsection \<open>Round trips\<close>

text \<open>
  Every address becomes a string that fits, in either style and for either network, and reads
  back as the same address of the same network.
\<close>

theorem address_roundtrip:
  assumes "bn_ok ssl" "digest_ok ssl" "length addr = 20"
  shows "\<exists>str. pettycoin_to_base58 ssl test_net addr bitcoin_style = Some str \<and>
    pettycoin_from_base58 ssl str = Some (Some (test_net, addr))"
proof -
  let ?v = "if bitcoin_style then (if test_net then 111 else 0) else (if test_net then PETTY_PREFIX_TESTNET else PETTY_PREFIX)"
  define data where "data = (?v # addr) @ base58_get_checksum ssl (?v # addr)"
  have len: "length data = 25" using assms(3) length_checksum[OF assms(2)] by (simp add: data_def)
  obtain str where str: "encode_base58 ssl BASE58_ADDR_MAX_LEN data = Some (Some str)" "digits_ok str" "fold58 0 str = be_nat data"
      "str \<noteq> []"
    using encode_base58_ok[OF assms(1), of data BASE58_ADDR_MAX_LEN] addr_fits(1) len by (cases "data = []") auto
  have v: "address_version bitcoin_style ?v = Some test_net"
    by (simp add: address_version_def PETTY_PREFIX_def PETTY_PREFIX_TESTNET_def)
  have cut: "c_nth data 0 = Some ?v" "take 21 data = ?v # addr" "drop 21 data = base58_get_checksum ssl (?v # addr)"
    "take 20 (drop 1 data) = addr"
    using assms(3) by (simp_all add: c_nth_def data_def)
  have "pettycoin_from_base58 ssl (if bitcoin_style then ''P-'' @ str else str) = Some (Some (test_net, addr))"
    using decode_ours[OF assms(1) str(2)] unpad[OF assms(1), of data] cut v
    unfolding pettycoin_from_base58_def strip_ours[OF str(2,4)] str(3) len by (simp add: Let_def)
  then show ?thesis using str(1) by (simp add: pettycoin_to_base58_def data_def Let_def)
qed

theorem address_roundtrip_witness:
  "\<exists>str. pettycoin_to_base58 model_openssl True (replicate 20 7) True = Some str \<and>
    pettycoin_from_base58 model_openssl str = Some (Some (True, replicate 20 7))"
  using address_roundtrip[OF bn_ok_model digest_ok_model, of "replicate 20 7" True True] by simp

text \<open>
  Every private key below 2^256 becomes a string that reads back as the same private key of the
  same network, with its public key.
\<close>

theorem key_roundtrip:
  assumes "bn_ok ssl" "digest_ok ssl" "priv < 2 ^ 256" "ec_mul priv" "length (i2o_ECPublicKey ssl priv) = 33"
  shows "\<exists>str. key_to_base58 ssl test_net priv bitcoin_style = Some str \<and>
    key_from_base58 ssl ec_mul str = Some (Some (test_net, i2o_ECPublicKey ssl priv, priv))"
proof -
  let ?v = "key_prefix test_net bitcoin_style" and ?k = "nat_be 32 priv"
  let ?buf = "?v # ?k @ [1]"
  define data where "data = ?buf @ base58_get_checksum ssl ?buf"
  have k: "be_nat ?k = priv" using assms(3) by (simp add: be_nat_nat_be)
  have pad: "BN_num_bytes ssl priv \<le> 32" "replicate (32 - BN_num_bytes ssl priv) 0 @ BN_bn2bin ssl priv = ?k"
    using unpad[OF assms(1), of ?k] unfolding k by simp_all
  have len: "length data = 38" using length_checksum[OF assms(2)] by (simp add: data_def)
  have v: "key_version bitcoin_style ?v = Some test_net" "?v \<noteq> 0"
    by (cases test_net; cases bitcoin_style; simp add: key_version_def key_prefix_def)+
  obtain str where str: "encode_base58 ssl BASE58_KEY_MAX_LEN data = Some (Some str)" "digits_ok str" "fold58 0 str = be_nat data"
      "str \<noteq> []"
    using encode_base58_ok[OF assms(1), of data BASE58_KEY_MAX_LEN] addr_fits(2) len by (cases "data = []") auto
  have "256 ^ 37 \<le> be_nat data"
  proof -
    have "be_nat data = be_nat (tl data) + 256 ^ 37 * unat ?v" using len by (simp add: be_nat_Cons data_def)
    moreover have "1 \<le> unat ?v" using v(2) by (simp add: Suc_le_eq unat_gt_0)
    then have "256 ^ 37 * 1 \<le> (256 :: nat) ^ 37 * unat ?v" by (rule mult_le_mono2)
    ultimately show ?thesis by linarith
  qed
  then have "BN_num_bytes ssl (be_nat data) = 38"
    using unpad[OF assms(1), of data] num_bytes_ge[of 37 "be_nat data"] len bn_okD(11)[OF assms(1)] by simp
  then have n: "BN_num_bytes ssl (be_nat data) = 38" "BN_bn2bin ssl (be_nat data) = data"
    using unpad[OF assms(1), of data] len by simp_all
  have cut: "c_nth data 0 = Some ?v" "take 34 data = ?buf" "drop 34 data = base58_get_checksum ssl ?buf"
    "c_nth data 33 = Some 1" "take 32 (drop 1 data) = ?k"
    by (simp_all add: c_nth_def nth_append data_def)
  have readback: "key_from_base58 ssl ec_mul (if bitcoin_style then ''P-'' @ str else str) =
      Some (Some (test_net, i2o_ECPublicKey ssl priv, priv))"
    using decode_ours[OF assms(1) str(2)] cut v assms(4,5) bn_okD(12)[OF assms(1), of ?k] k
    unfolding key_from_base58_def strip_ours[OF str(2,4)] str(3)
    by (simp add: Let_def n EC_KEY_regenerate_key_def c_assert_def)
  have padded: "replicate (32 - BN_num_bytes ssl priv) 0 @ BN_bn2bin ssl priv @ xs = ?k @ xs" for xs
    using pad(2) by (simp flip: append_assoc)
  have "key_to_base58 ssl test_net priv bitcoin_style = Some (if bitcoin_style then ''P-'' @ str else str)"
    using str(1) pad(1) unfolding data_def by (simp add: key_to_base58_def Let_def c_assert_def padded)
  then show ?thesis using readback by simp
qed

theorem key_roundtrip_witness:
  "\<exists>str. key_to_base58 model_openssl False 77 False = Some str \<and>
    key_from_base58 model_openssl (\<lambda>_. True) str = Some (Some (False, nat_be 33 77, 77))"
  using key_roundtrip[OF bn_ok_model digest_ok_model, of 77 "\<lambda>_. True" False False]
  by (simp add: model_openssl_def)

text \<open>
  \<open>ripemd_from_base58\<close> takes the checksum over all 25 bytes, the stored checksum included: it
  refuses what \<open>base58_with_check\<close> makes, unless the checksum happens to be that of itself.
\<close>

theorem ripemd_checks_wrong_bytes:
  assumes "bn_ok ssl" "digest_ok ssl" "length addr = 20"
  shows "\<exists>str. base58_with_check ssl (v # addr) = Some (Some str) \<and>
    ripemd_from_base58 ssl str =
      Some (if base58_get_checksum ssl (v # addr @ base58_get_checksum ssl (v # addr)) = base58_get_checksum ssl (v # addr)
            then Some (v, addr) else None)"
proof -
  define data where "data = (v # addr) @ base58_get_checksum ssl (v # addr)"
  have len: "length data = 25" using assms(3) length_checksum[OF assms(2)] by (simp add: data_def)
  obtain str where str: "encode_base58 ssl BASE58_ADDR_MAX_LEN data = Some (Some str)" "digits_ok str" "fold58 0 str = be_nat data"
      "length str < BASE58_ADDR_MAX_LEN"
    using encode_base58_ok[OF assms(1), of data BASE58_ADDR_MAX_LEN] addr_fits(1) len by (cases "data = []") auto
  have cut: "c_nth data 0 = Some v" "drop 21 data = base58_get_checksum ssl (v # addr)" "take 20 (drop 1 data) = addr"
    using assms(3) by (simp_all add: c_nth_def data_def)
  have "ripemd_from_base58 ssl str =
      Some (if base58_get_checksum ssl data = base58_get_checksum ssl (v # addr) then Some (v, addr) else None)"
    using decode_ours[OF assms(1) str(2)] unpad[OF assms(1), of data] cut str(4)
    unfolding ripemd_from_base58_def str(3) len by (simp add: Let_def BASE58_ADDR_MAX_LEN_def)
  then show ?thesis using str(1) by (simp add: base58_with_check_def data_def)
qed

definition ex_digest_openssl :: openssl where
  \<comment> \<open>a digest of which the checksums are easily told apart\<close>
  "ex_digest_openssl = model_openssl\<lparr>SHA256 := \<lambda>bs. (hd bs + word_of_nat (length bs)) # replicate 31 0\<rparr>"

lemma ex_digest_ok: "bn_ok ex_digest_openssl" "digest_ok ex_digest_openssl"
proof -
  show "bn_ok ex_digest_openssl" unfolding ex_digest_openssl_def by (rule bn_ok_SHA256[OF bn_ok_model])
  show "digest_ok ex_digest_openssl"
    unfolding digest_ok_def ex_digest_openssl_def model_openssl_def openssl.simps model_digest_def by simp
qed

lemma ex_checksum: "base58_get_checksum ex_digest_openssl (b # bs) = (b + word_of_nat (length bs) + 33) # replicate 3 0"
  by (simp add: base58_get_checksum_def ex_digest_openssl_def algebra_simps)

theorem ripemd_checks_wrong_bytes_witness:
  "\<exists>str. base58_with_check ex_digest_openssl (56 # replicate 20 7) = Some (Some str) \<and>
    ripemd_from_base58 ex_digest_openssl str = Some None"
  using ripemd_checks_wrong_bytes[OF ex_digest_ok, of "replicate 20 7" 56] by (simp add: ex_checksum)

end
