(* ===== verification/Json.thy ===== *)
theory Json
  imports Jsmn Hex Base58
begin

text \<open>
  \<open>json.c\<close>. A pointer to a token is its index in the array of tokens; a token that \<open>json_parse_input\<close>
  puts behind the last one can always be read. The first part navigates tokens, and is proved to be
  lookup in the tree of values the tokens stand for; the second part builds a text by appending.
\<close>

subsection \<open>Single tokens\<close>

definition json_tok_contents :: "jsmntok \<Rightarrow> int" where
  \<comment> \<open>where they start in the buffer\<close>
  "json_tok_contents t = (if t_type t = JSMN_STRING then t_start t - 1 else t_start t)"

definition json_tok_len :: "jsmntok \<Rightarrow> int" where
  "json_tok_len t = (if t_type t = JSMN_STRING then t_end t - t_start t + 2 else t_end t - t_start t)"

definition json_tok_streq :: "string \<Rightarrow> jsmntok \<Rightarrow> string \<Rightarrow> bool option" where
  \<comment> \<open>\<open>str\<close> holds no character 0\<close>
  "json_tok_streq buffer tok str =
     (if t_type tok \<noteq> JSMN_STRING then Some False
      else if t_end tok - t_start tok \<noteq> int (length str) then Some False
      else do { s \<leftarrow> c_slice buffer (nat (t_start tok)) (length str); Some (s = str) })"

definition c_isspace :: "char \<Rightarrow> bool" where
  "c_isspace c \<longleftrightarrow> c = CHR '' '' \<or> 9 \<le> (of_char c :: nat) \<and> (of_char c :: nat) \<le> 13"

definition digit_val :: "char \<Rightarrow> nat" where
  \<comment> \<open>36 for a character that is no digit in any base\<close>
  "digit_val c = (let n = (of_char c :: nat) in
     if 48 \<le> n \<and> n \<le> 57 then n - 48
     else if 97 \<le> n \<and> n \<le> 122 then n - 87
     else if 65 \<le> n \<and> n \<le> 90 then n - 55 else 36)"

definition in_base :: "nat \<Rightarrow> char \<Rightarrow> bool" where
  "in_base base c \<longleftrightarrow> digit_val c < base"

definition digits_val :: "nat \<Rightarrow> string \<Rightarrow> nat" where
  "digits_val base ds = foldl (\<lambda>v c. base * v + digit_val c) 0 ds"

definition split_sign :: "string \<Rightarrow> bool \<times> string" where
  "split_sign s = (case s of [] \<Rightarrow> (False, [])
     | c # r \<Rightarrow> if c = CHR ''-'' then (True, r) else if c = CHR ''+'' then (False, r) else (False, s))"

definition split_base :: "string \<Rightarrow> nat \<times> string" where
  "split_base s = (case s of
       c # x # d # r \<Rightarrow>
         if c = CHR ''0'' then
           (if (x = CHR ''x'' \<or> x = CHR ''X'') \<and> in_base 16 d then (16, d # r) else (8, s))
         else (10, s)
     | c # r \<Rightarrow> if c = CHR ''0'' then (8, s) else (10, s)
     | [] \<Rightarrow> (10, s))"

definition strtoul0 :: "string \<Rightarrow> (u64 \<times> nat) option" where
  \<comment> \<open>the standard library's \<open>strtoul\<close> with base 0: the value and how many characters were used;
     \<open>None\<close> when it reads on behind the buffer\<close>
  "strtoul0 s =
     (let (neg, s1) = split_sign (dropWhile c_isspace s); (base, s2) = split_base s1;
          ds = takeWhile (in_base base) s2; rest = dropWhile (in_base base) s2; v = digits_val base ds in
      if rest = [] then None
      else if ds = [] then Some (0, 0)
      else Some (if v \<ge> 2 ^ 64 then - 1 else if neg then - word_of_nat v else word_of_nat v, length s - length rest))"

definition json_tok_number :: "string \<Rightarrow> jsmntok \<Rightarrow> u32 option option" where
  \<comment> \<open>\<open>errno\<close> is read for \<open>ULONG_MAX\<close> only, which does not fit anyway\<close>
  "json_tok_number buffer tok =
     do { c_assert (0 \<le> t_start tok \<and> nat (t_start tok) \<le> length buffer);
          (l, used) \<leftarrow> strtoul0 (drop (nat (t_start tok)) buffer);
          if t_start tok + int used \<noteq> t_end tok then Some None
          else (let num = ucast l :: u32 in
                if ucast num \<noteq> l then Some None else Some (Some num)) }"

definition json_tok_is_null :: "string \<Rightarrow> jsmntok \<Rightarrow> bool option" where
  "json_tok_is_null buffer tok =
     (if t_type tok \<noteq> JSMN_PRIMITIVE then Some False
      else do { c \<leftarrow> c_nth buffer (nat (t_start tok)); Some (c = CHR ''n'') })"

subsection \<open>Moving through the tokens\<close>

partial_function (option) json_next :: "jsmntok list \<Rightarrow> nat \<Rightarrow> nat option" where
  "json_next toks t =
     do { tok \<leftarrow> c_nth toks t;
          ofold (\<lambda>_ t. json_next toks t) [0..<t_size tok] (t + 1) }"

partial_function (option) member_loop :: "string \<Rightarrow> jsmntok list \<Rightarrow> string \<Rightarrow> nat \<Rightarrow> nat \<Rightarrow> nat option option" where
  "member_loop buffer toks label end t =
     (if t < end then do {
        tok \<leftarrow> c_nth toks t;
        eq \<leftarrow> json_tok_streq buffer tok label;
        if eq then Some (Some (t + 1))
        else do { t1 \<leftarrow> json_next toks (t + 1); member_loop buffer toks label end t1 } }
      else Some None)"

definition json_get_member :: "string \<Rightarrow> jsmntok list \<Rightarrow> nat \<Rightarrow> string \<Rightarrow> nat option option" where
  "json_get_member buffer toks t label =
     do { tok \<leftarrow> c_nth toks t;
          c_assert (t_type tok = JSMN_OBJECT);
          end \<leftarrow> json_next toks t;
          member_loop buffer toks label end (t + 1) }"

partial_function (option) arr_loop :: "jsmntok list \<Rightarrow> nat \<Rightarrow> nat \<Rightarrow> nat \<Rightarrow> nat option option" where
  "arr_loop toks end t index =
     (if t < end then
        (if index = 0 then Some (Some t)
         else do { t1 \<leftarrow> json_next toks t; arr_loop toks end t1 (index - 1) })
      else Some None)"

declare json_next.simps [code] member_loop.simps [code] arr_loop.simps [code]

definition json_get_arr :: "jsmntok list \<Rightarrow> nat \<Rightarrow> nat \<Rightarrow> nat option option" where
  "json_get_arr toks t index =
     do { tok \<leftarrow> c_nth toks t;
          c_assert (t_type tok = JSMN_ARRAY);
          end \<leftarrow> json_next toks t;
          arr_loop toks end (t + 1) index }"

definition c_atol :: "string \<Rightarrow> int" where
  "c_atol s =
     (let (neg, s1) = split_sign (dropWhile c_isspace s);
          v = int (digits_val 10 (takeWhile (in_base 10) s1)) in
      if neg then max (- v) (- (2 ^ 63)) else min v (2 ^ 63 - 1))"

definition guide_end :: "char \<Rightarrow> bool" where
  "guide_end c \<longleftrightarrow> c \<in> set ''.[]''"

lemma after_key: "b # rest = dropWhile P xs \<Longrightarrow> length rest \<le> length xs"
  by (metis length_dropWhile_le length_Cons Suc_leD)

function json_delve :: "string \<Rightarrow> jsmntok list \<Rightarrow> nat \<Rightarrow> string \<Rightarrow> nat option option" where
  "json_delve buffer toks t guide =
     (case guide of
        [] \<Rightarrow> Some (Some t)
      | c # rest \<Rightarrow>
          let key = takeWhile (\<lambda>x. \<not> guide_end x) rest; after = dropWhile (\<lambda>x. \<not> guide_end x) rest in
          if c = CHR ''.'' then
            (case c_nth toks t of None \<Rightarrow> None
             | Some tok \<Rightarrow>
                 if t_type tok \<noteq> JSMN_OBJECT then Some None
                 else (case json_get_member buffer toks t key of
                         None \<Rightarrow> None
                       | Some None \<Rightarrow> Some None
                       | Some (Some t1) \<Rightarrow> json_delve buffer toks t1 after))
          else if c = CHR ''['' then
            (case c_nth toks t of None \<Rightarrow> None
             | Some tok \<Rightarrow>
                 if t_type tok \<noteq> JSMN_ARRAY then Some None
                 else (case json_get_arr toks t (unat (word_of_int (c_atol key) :: u64)) of
                         None \<Rightarrow> None
                       | Some None \<Rightarrow> Some None
                       | Some (Some t1) \<Rightarrow>
                           (case after of
                              [] \<Rightarrow> None
                            | b # after1 \<Rightarrow> if b = CHR '']'' then json_delve buffer toks t1 after1 else None)))
          else None)"
  by pat_completeness auto
termination
  by (relation "measure (\<lambda>(_, _, _, guide). length guide)")
    (auto simp: less_Suc_eq_le length_dropWhile_le after_key)

declare json_delve.simps [simp del]

definition null_to_NULL :: "string \<Rightarrow> jsmntok list \<Rightarrow> nat option \<Rightarrow> nat option option" where
  "null_to_NULL buffer toks p =
     (case p of
        None \<Rightarrow> Some None
      | Some t \<Rightarrow> do {
          tok \<leftarrow> c_nth toks t;
          if t_type tok = JSMN_PRIMITIVE then do {
            c \<leftarrow> c_nth buffer (nat (t_start tok));
            Some (if c = CHR ''n'' then None else Some t) }
          else Some (Some t) })"

fun params_arr :: "string \<Rightarrow> jsmntok list \<Rightarrow> nat \<Rightarrow> nat option \<Rightarrow> string list \<Rightarrow> nat option list option" where
  "params_arr buffer toks end p [] = Some []"
| "params_arr buffer toks end p (name # names) =
     do { p1 \<leftarrow> (case p of None \<Rightarrow> Some None
                | Some t \<Rightarrow> do { t1 \<leftarrow> json_next toks t; Some (if t1 = end then None else Some t1) });
          r \<leftarrow> null_to_NULL buffer toks p;
          rs \<leftarrow> params_arr buffer toks end p1 names;
          Some (r # rs) }"

fun params_obj :: "string \<Rightarrow> jsmntok list \<Rightarrow> nat \<Rightarrow> string list \<Rightarrow> nat option list option" where
  "params_obj buffer toks param [] = Some []"
| "params_obj buffer toks param (name # names) =
     do { p \<leftarrow> json_get_member buffer toks param name;
          r \<leftarrow> null_to_NULL buffer toks p;
          rs \<leftarrow> params_obj buffer toks param names;
          Some (r # rs) }"

definition json_get_params :: "string \<Rightarrow> jsmntok list \<Rightarrow> nat \<Rightarrow> string list \<Rightarrow> nat option list option" where
  \<comment> \<open>the tokens stored for the names, \<open>None\<close> for NULL\<close>
  "json_get_params buffer toks param names =
     do { tok \<leftarrow> c_nth toks param;
          if t_type tok = JSMN_ARRAY then do {
            end \<leftarrow> json_next toks param;
            params_arr buffer toks end (if t_size tok = 0 then None else Some (param + 1)) names }
          else do {
            c_assert (t_type tok = JSMN_OBJECT);
            params_obj buffer toks param names } }"

subsection \<open>json\_parse\_input\<close>

definition end_token :: jsmntok where
  "end_token = \<lparr>t_type = JSMN_NONE, t_start = 0, t_end = 0, t_size = 0\<rparr>"

function parse_again :: "string \<Rightarrow> nat \<Rightarrow> nat \<Rightarrow> (bool \<times> jsmntok list option) option" where
  \<comment> \<open>from the label \<open>again\<close>; \<open>toks\<close> has \<open>num + 1\<close> elements\<close>
  "parse_again input len num =
     (case jsmn_parse jsmn_init input len num of
        None \<Rightarrow> None
      | Some (Inl JSMN_ERROR_INVAL) \<Rightarrow> Some (False, None)
      | Some (Inl JSMN_ERROR_PART) \<Rightarrow> Some (True, None)
      | Some (Inl JSMN_ERROR_NOMEM) \<Rightarrow> parse_again input len ((num + 1) * 2 - 1)
      | Some (Inr (ret, toks)) \<Rightarrow> Some (True, Some (take ret toks @ [end_token])))"
  by pat_completeness auto
termination
  by (relation "measure (\<lambda>(input, len, num). len - num)") (auto dest!: jsmn_parse_nomem)

declare parse_again.simps [simp del]

definition json_parse_input :: "string \<Rightarrow> nat \<Rightarrow> (bool \<times> jsmntok list option) option" where
  \<comment> \<open>\<open>*valid\<close> and the tokens, \<open>None\<close> for NULL\<close>
  "json_parse_input input len = parse_again input len (10 - 1)"

section \<open>Navigation is lookup in the tree\<close>

definition at :: "jsmntok list \<Rightarrow> nat \<Rightarrow> node \<Rightarrow> bool" where
  \<comment> \<open>the tokens from index \<open>t\<close> on are those of the value\<close>
  "at toks t n \<longleftrightarrow> (\<exists>pre post. toks = pre @ flat n @ post \<and> length pre = t)"

definition ats :: "jsmntok list \<Rightarrow> nat \<Rightarrow> node list \<Rightarrow> bool" where
  "ats toks t ns \<longleftrightarrow> (\<exists>pre post. toks = pre @ flats ns @ post \<and> length pre = t)"

lemma flat_not_Nil [simp]: "flat n \<noteq> []"
  by (cases n) simp_all

lemma ats_Cons: "ats toks t (n # ns) \<longleftrightarrow> at toks t n \<and> ats toks (t + length (flat n)) ns"
proof
  assume "ats toks t (n # ns)"
  then obtain pre post where p: "toks = pre @ (flat n @ flats ns) @ post" "length pre = t" by (auto simp: ats_def)
  have "at toks t n" unfolding at_def using p by (intro exI[of _ pre] exI[of _ "flats ns @ post"]) simp
  moreover have "ats toks (t + length (flat n)) ns" unfolding ats_def using p
    by (intro exI[of _ "pre @ flat n"] exI[of _ post]) simp
  ultimately show "at toks t n \<and> ats toks (t + length (flat n)) ns" ..
next
  assume A: "at toks t n \<and> ats toks (t + length (flat n)) ns"
  then obtain pre post where p: "toks = pre @ flat n @ post" "length pre = t" unfolding at_def by blast
  from A obtain pre' post' where p': "toks = pre' @ flats ns @ post'" "length pre' = t + length (flat n)" unfolding ats_def by blast
  have "length pre' = length (pre @ flat n)" using p(2) p'(2) by simp
  then have "pre' = pre @ flat n" using p(1) p'(1) by (metis append.assoc append_eq_append_conv)
  then show "ats toks t (n # ns)" using p p' unfolding ats_def by (intro exI[of _ pre] exI[of _ post']) simp
qed
lemma at_nth: "at toks t n \<Longrightarrow> t < length toks \<and> toks ! t = hd (flat n)"
  by (cases n) (auto simp: at_def)

lemma at_c_nth: "at toks t n \<Longrightarrow> c_nth toks t = Some (hd (flat n))"
  using at_nth by (simp add: c_nth_def)

lemma at_kids: "at toks t (Node ty b e kids) \<Longrightarrow> ats toks (t + 1) kids"
  unfolding at_def ats_def
proof (elim exE conjE)
  fix pre post
  assume "toks = pre @ flat (Node ty b e kids) @ post" "length pre = t"
  then show "\<exists>pre post. toks = pre @ flats kids @ post \<and> length pre = t + 1"
    by (intro exI[of _ "pre @ [\<lparr>t_type = ty, t_start = int b, t_end = int e, t_size = length kids\<rparr>]"] exI[of _ post]) simp
qed

lemma json_next_at: "at toks t n \<Longrightarrow> json_next toks t = Some (t + length (flat n))"
proof (induction n arbitrary: t)
  case (Leaf ty b e)
  then show ?case using at_c_nth[OF Leaf] by (subst json_next.simps) (simp add: jsmn_fill_token_def)
next
  case (Node ty b e kids)
  have loop: "ofold (\<lambda>_ t. json_next toks t) xs u = Some (u + length (flats ks))"
    if "set ks \<subseteq> set kids" "ats toks u ks" "length xs = length ks" for ks u and xs :: "nat list"
    using that
  proof (induction ks arbitrary: u xs)
    case (Cons k ks)
    then obtain x xs' where xs: "xs = x # xs'" "length xs' = length ks" by (cases xs) auto
    have "json_next toks u = Some (u + length (flat k))" using Node.IH[of k u] Cons.prems by (simp add: ats_Cons)
    then show ?case using Cons.IH[of "u + length (flat k)" xs'] Cons.prems xs by (simp add: ats_Cons)
  qed simp
  show ?case
    using at_c_nth[OF Node.prems] loop[OF subset_refl at_kids[OF Node.prems], of "[0..<length kids]"]
    by (subst json_next.simps) simp
qed

text \<open>The members of an object: a list of names and values.\<close>

abbreviation pairs :: "(node \<times> node) list \<Rightarrow> node list" where
  "pairs ms \<equiv> concat (map (\<lambda>(k, v). [k, v]) ms)"

fun is_name :: "string \<Rightarrow> string \<Rightarrow> node \<Rightarrow> bool" where
  "is_name buffer label (Leaf ty b e) = (ty = JSMN_STRING \<and> part buffer b e = label)"
| "is_name buffer label (Node ty b e kids) = False"

fun in_text :: "nat \<Rightarrow> node \<Rightarrow> bool" where
  \<comment> \<open>the value lies before position \<open>len\<close>\<close>
  "in_text len (Leaf ty b e) = (b \<le> e \<and> e \<le> len)"
| "in_text len (Node ty b e kids) = (b \<le> e \<and> e \<le> len \<and> ty \<noteq> JSMN_STRING \<and> (\<forall>k \<in> set kids. in_text len k))"

lemma json_tok_streq_at:
  assumes "in_text (length buffer) n"
  shows "json_tok_streq buffer (hd (flat n)) label = Some (is_name buffer label n)"
proof (cases n)
  case (Leaf ty b e)
  have be: "b \<le> e" "e \<le> length buffer" using assms Leaf by simp_all
  then have d: "int e - int b = int (length label) \<longleftrightarrow> e - b = length label" and l: "length (part buffer b e) = e - b"
    by (auto simp: part_def)
  show ?thesis
  proof (cases "ty = JSMN_STRING \<and> e - b = length label")
    case True
    then have "c_slice buffer b (length label) = Some (part buffer b e)" using be True by (auto simp add: c_slice_def part_def)
    then show ?thesis using True d Leaf by (simp add: json_tok_streq_def jsmn_fill_token_def del: c_slice_eq_Some)
  next
    case False
    then show ?thesis using d l Leaf by (auto simp: json_tok_streq_def jsmn_fill_token_def)
  qed
qed (use assms in \<open>simp add: json_tok_streq_def\<close>)

definition members :: "(node \<times> node) list \<Rightarrow> bool" where
  \<comment> \<open>every name is a string\<close>
  "members ms \<longleftrightarrow> list_all (\<lambda>(k, v). \<exists>b e. k = Leaf JSMN_STRING b e) ms"

lemma members_code [code]: "members ms \<longleftrightarrow> list_all (\<lambda>(k, v). case k of Leaf ty b e \<Rightarrow> ty = JSMN_STRING | _ \<Rightarrow> False) ms"
proof -
  have "(\<exists>b e. k = Leaf JSMN_STRING b e) = (case k of Leaf ty b e \<Rightarrow> ty = JSMN_STRING | _ \<Rightarrow> False)" for k
    by (cases k) auto
  then show ?thesis by (simp only: members_def)
qed

lemma member_loop_at:
  assumes "ats toks t (pairs ms)" "members ms" "\<forall>(k, v) \<in> set ms. in_text (length buffer) k" "end = t + length (flats (pairs ms))"
  shows "case find (\<lambda>(k, v). is_name buffer label k) ms of
      None \<Rightarrow> member_loop buffer toks label end t = Some None
    | Some (k, v) \<Rightarrow> \<exists>j. member_loop buffer toks label end t = Some (Some j) \<and> at toks j v"
  using assms
proof (induction ms arbitrary: t)
  case Nil
  then show ?case by (subst member_loop.simps) simp
next
  case (Cons m ms)
  obtain k v where m: "m = (k, v)" by (cases m)
  obtain b e where kl: "k = Leaf JSMN_STRING b e" using Cons.prems(2) m by (auto simp: members_def)
  have k: "at toks t k" and v: "at toks (t + 1) v" and rest: "ats toks (t + 1 + length (flat v)) (pairs ms)"
    using Cons.prems(1) by (simp_all add: m kl ats_Cons)
  have eq: "json_tok_streq buffer (hd (flat k)) label = Some (is_name buffer label k)"
    using json_tok_streq_at Cons.prems(3) m by simp
  have lt: "t < end" using Cons.prems(4) m kl by simp
  have step: "member_loop buffer toks label end t =
      (if is_name buffer label k then Some (Some (t + 1)) else member_loop buffer toks label end (t + 1 + length (flat v)))"
    using eq lt at_c_nth[OF k] json_next_at[OF v] by (subst member_loop.simps) simp
  show ?case
  proof (cases "is_name buffer label k")
    case False
    have "case find (\<lambda>(k, v). is_name buffer label k) ms of
        None \<Rightarrow> member_loop buffer toks label end (t + 1 + length (flat v)) = Some None
      | Some (k', v') \<Rightarrow> \<exists>j. member_loop buffer toks label end (t + 1 + length (flat v)) = Some (Some j) \<and> at toks j v'"
    proof (intro Cons.IH[OF rest])
      show "members ms" "\<forall>(k, v) \<in> set ms. in_text (length buffer) k" using Cons.prems(2,3) by (simp_all add: members_def)
      show "end = t + 1 + length (flat v) + length (flats (pairs ms))" using Cons.prems(4) m kl by simp
    qed
    moreover have "find (\<lambda>(k, v). is_name buffer label k) (m # ms) = find (\<lambda>(k, v). is_name buffer label k) ms"
      using False m by simp
    moreover have "member_loop buffer toks label end t = member_loop buffer toks label end (t + 1 + length (flat v))"
      using False step by simp
    ultimately show ?thesis by (simp only:)
  qed (use m v step in simp)
qed

lemma json_get_member_at:
  assumes obj: "at toks t (Node JSMN_OBJECT b e (pairs ms))" and ms: "members ms" "in_text (length buffer) (Node JSMN_OBJECT b e (pairs ms))"
  shows "case find (\<lambda>(k, v). is_name buffer label k) ms of
      None \<Rightarrow> json_get_member buffer toks t label = Some None
    | Some (k, v) \<Rightarrow> \<exists>j. json_get_member buffer toks t label = Some (Some j) \<and> at toks j v"
proof -
  have k: "\<forall>(k, v) \<in> set ms. in_text (length buffer) k" using ms(2) by fastforce
  have "json_get_member buffer toks t label = member_loop buffer toks label (t + 1 + length (flats (pairs ms))) (t + 1)"
    using at_c_nth[OF obj] json_next_at[OF obj] by (simp add: json_get_member_def c_assert_def)
  then show ?thesis using member_loop_at[OF at_kids[OF obj] ms(1) k refl, of label] by (auto split: option.splits)
qed

lemma arr_loop_at:
  assumes "ats toks t ns" "end = t + length (flats ns)"
  shows "if index < length ns then \<exists>j. arr_loop toks end t index = Some (Some j) \<and> at toks j (ns ! index)
    else arr_loop toks end t index = Some None"
  using assms
proof (induction ns arbitrary: t index)
  case Nil
  then show ?case by (subst arr_loop.simps) simp
next
  case (Cons n ns)
  have n: "at toks t n" and rest: "ats toks (t + length (flat n)) ns" using Cons.prems(1) by (simp_all add: ats_Cons)
  have lt: "t < end" using Cons.prems(2) by (cases n) auto
  show ?case
  proof (cases index)
    case 0
    then show ?thesis using n lt by (subst arr_loop.simps) simp
  next
    case (Suc i)
    have "arr_loop toks end t index = arr_loop toks end (t + length (flat n)) i"
      using Suc lt json_next_at[OF n] by (subst arr_loop.simps) simp
    then show ?thesis using Cons.IH[OF rest, of i] Cons.prems(2) Suc by (simp add: add.assoc split: if_split_asm)
  qed
qed

lemma json_get_arr_at:
  assumes "at toks t (Node JSMN_ARRAY b e ns)"
  shows "if index < length ns then \<exists>j. json_get_arr toks t index = Some (Some j) \<and> at toks j (ns ! index)
    else json_get_arr toks t index = Some None"
proof -
  have "json_get_arr toks t index = arr_loop toks (t + 1 + length (flats ns)) (t + 1) index"
    using at_c_nth[OF assms] json_next_at[OF assms] by (simp add: json_get_arr_def c_assert_def)
  then show ?thesis using arr_loop_at[OF at_kids[OF assms] refl, of index] by (simp split: if_split_asm)
qed

text \<open>Paths into a value, and how a guide writes them.\<close>

fun unpair :: "node list \<Rightarrow> (node \<times> node) list" where
  "unpair (k # v # kids) = (k, v) # unpair kids"
| "unpair kids = []"

fun wf_node :: "node \<Rightarrow> bool" where
  \<comment> \<open>objects are lists of names and values\<close>
  "wf_node (Leaf ty b e) = (ty = JSMN_STRING \<or> ty = JSMN_PRIMITIVE)"
| "wf_node (Node ty b e kids) =
     ((ty = JSMN_OBJECT \<and> pairs (unpair kids) = kids \<and> members (unpair kids) \<or> ty = JSMN_ARRAY) \<and> (\<forall>k \<in> set kids. wf_node k))"

datatype json_step = Field string | Index nat

fun child :: "string \<Rightarrow> node \<Rightarrow> json_step \<Rightarrow> node option" where
  "child buffer (Node ty b e kids) (Field label) =
     (if ty = JSMN_OBJECT then map_option snd (find (\<lambda>(k, v). is_name buffer label k) (unpair kids)) else None)"
| "child buffer (Node ty b e kids) (Index i) = (if ty = JSMN_ARRAY \<and> i < length kids then Some (kids ! i) else None)"
| "child buffer (Leaf ty b e) st = None"

fun follow :: "string \<Rightarrow> node \<Rightarrow> json_step list \<Rightarrow> node option" where
  "follow buffer n [] = Some n"
| "follow buffer n (st # path) = (case child buffer n st of None \<Rightarrow> None | Some c \<Rightarrow> follow buffer c path)"

fun dec :: "nat \<Rightarrow> string" where
  \<comment> \<open>what \<^verbatim>\<open>%u\<close> prints\<close>
  "dec n = (if n < 10 then [char_of (48 + n)] else dec (n div 10) @ [char_of (48 + n mod 10)])"

declare dec.simps [simp del]

fun guide_step :: "json_step \<Rightarrow> string" where
  "guide_step (Field k) = CHR ''.'' # k"
| "guide_step (Index i) = CHR ''['' # dec i @ '']''"

fun step_ok :: "json_step \<Rightarrow> bool" where
  "step_ok (Field k) = list_all (\<lambda>c. \<not> guide_end c) k"
| "step_ok (Index i) = (i < 2 ^ 63)"

lemma dec_digit: "d < 10 \<Longrightarrow> digit_val (char_of (48 + d :: nat)) = d"
  by (simp add: digit_val_def Let_def)

lemma dec_digits: "list_all (\<lambda>c. \<exists>d < 10. c = char_of (48 + d :: nat)) (dec n)"
proof (induction n rule: dec.induct)
  case (1 n)
  show ?case
  proof (cases "n < 10")
    case False
    moreover have "\<exists>d < 10. char_of (48 + n mod 10) = (char_of (48 + d :: nat) :: char)"
      by (rule exI[of _ "n mod 10"]) simp
    ultimately show ?thesis using 1 by (subst dec.simps) (simp del: char_of_eq_iff)
  qed (subst dec.simps, auto)
qed

lemma dec_val: "digits_val 10 (dec n) = n"
proof (induction n rule: dec.induct)
  case (1 n)
  then show ?case by (subst dec.simps) (auto simp: digits_val_def dec_digit)
qed

lemma dec_not_Nil: "dec n \<noteq> []"
  by (subst dec.simps) simp

lemma dec_plain:
  assumes "c \<in> set (dec n)"
  shows "\<not> guide_end c" "in_base 10 c" "\<not> c_isspace c" "c \<noteq> CHR ''-''" "c \<noteq> CHR ''+''"
proof -
  obtain d where d: "d < 10" "c = char_of (48 + d :: nat)" using assms dec_digits[of n] by (auto simp: list_all_iff)
  then have v: "of_char c = 48 + d" by simp
  have ne: "c \<noteq> x" if "of_char x < (48 :: nat) \<or> (57 :: nat) < of_char x" for x using v d(1) that by auto
  show "\<not> guide_end c" using ne[of "CHR ''.''"] ne[of "CHR ''[''"] ne[of "CHR '']''"] by (simp add: guide_end_def)
  show "in_base 10 c" using dec_digit[OF d(1)] d by (simp add: in_base_def)
  show "\<not> c_isspace c" using ne[of "CHR '' ''"] v d(1) by (simp add: c_isspace_def)
  show "c \<noteq> CHR ''-''" "c \<noteq> CHR ''+''" using ne[of "CHR ''-''"] ne[of "CHR ''+''"] by simp_all
qed

lemma atol_dec:
  assumes "n < 2 ^ 63"
  shows "c_atol (dec n) = int n"
proof -
  obtain c r where c: "dec n = c # r" using dec_not_Nil by (cases "dec n") auto
  have p: "\<not> c_isspace c" "c \<noteq> CHR ''-''" "c \<noteq> CHR ''+''" using dec_plain[of c n] c by simp_all
  have "takeWhile (in_base 10) (dec n) = dec n" using dec_plain(2) by (simp add: takeWhile_eq_all_conv)
  then show ?thesis using p c dec_val[of n] assms by (simp add: c_atol_def split_sign_def)
qed

lemma key_split:
  assumes "list_all (\<lambda>c. \<not> guide_end c) k" "r = [] \<or> guide_end (hd r)"
  shows "takeWhile (\<lambda>x. \<not> guide_end x) (k @ r) = k" "dropWhile (\<lambda>x. \<not> guide_end x) (k @ r) = r"
  using assms by (cases r; induction k; simp)+
lemma find_in: "find P xs = Some x \<Longrightarrow> x \<in> set xs"
  by (induction xs) (auto split: if_splits)

lemma unpair_in: "(k, v) \<in> set (unpair kids) \<Longrightarrow> k \<in> set kids \<and> v \<in> set kids"
  by (induction kids rule: unpair.induct) auto

lemma guide_next: "concat (map guide_step path) = [] \<or> guide_end (hd (concat (map guide_step path)))"
  by (cases path; cases "hd path") (auto simp: guide_end_def)

text \<open>
  C33. \<open>json_delve\<close> with the guide of a path returns the token of the value at the end of the path,
  and NULL exactly when there is none. Values are those whose objects are lists of names and values,
  lying in the buffer; a name in a path does not contain the characters that structure a guide.
\<close>

theorem json_delve_follows:
  assumes "at toks t n" "wf_node n" "in_text (length buffer) n" "list_all step_ok path"
  shows "case follow buffer n path of
      None \<Rightarrow> json_delve buffer toks t (concat (map guide_step path)) = Some None
    | Some m \<Rightarrow> \<exists>j. json_delve buffer toks t (concat (map guide_step path)) = Some (Some j) \<and> at toks j m"
  using assms
proof (induction path arbitrary: t n)
  case Nil
  then show ?case by (simp add: json_delve.simps)
next
  case (Cons st path)
  let ?rest = "concat (map guide_step path)"
  have tok: "c_nth toks t = Some (hd (flat n))" using at_c_nth[OF Cons.prems(1)] .
  have deeper: "wf_node c" "in_text (length buffer) c" if "child buffer n st = Some c" for c
  proof -
    have "c \<in> set kids" if "n = Node ty b e kids" for ty b e kids
      using \<open>child buffer n st = Some c\<close> that find_in unpair_in nth_mem
      by (cases st) (fastforce split: if_splits)+
    then show "wf_node c" "in_text (length buffer) c"
      using Cons.prems(2,3) that by (cases n; auto)+
  qed
  have down: ?case if D: "case child buffer n st of
        None \<Rightarrow> json_delve buffer toks t (guide_step st @ ?rest) = Some None
      | Some c \<Rightarrow> \<exists>j. json_delve buffer toks t (guide_step st @ ?rest) = json_delve buffer toks j ?rest \<and> at toks j c"
  proof (cases "child buffer n st")
    case (Some c)
    then obtain j where j: "json_delve buffer toks t (guide_step st @ ?rest) = json_delve buffer toks j ?rest" "at toks j c"
      using D by auto
    then show ?thesis using Cons.IH[OF j(2) deeper[OF Some]] Cons.prems(4) Some by (simp split: option.split_asm)
  qed (use D in simp)
  show ?case
  proof (cases st)
    case (Field label)
    have k: "list_all (\<lambda>c. \<not> guide_end c) label" using Cons.prems(4) Field by simp
    note ks = key_split[OF k guide_next[of path]]
    show ?thesis
    proof (cases "\<exists>b e kids. n = Node JSMN_OBJECT b e kids")
      case True
      then obtain b e kids where n: "n = Node JSMN_OBJECT b e kids" by blast
      let ?ms = "unpair kids"
      have ms: "pairs ?ms = kids" "members ?ms" using Cons.prems(2) n by simp_all
      note gm = json_get_member_at[of toks t b e ?ms buffer label]
      have gm': "case find (\<lambda>(k, v). is_name buffer label k) ?ms of
          None \<Rightarrow> json_get_member buffer toks t label = Some None
        | Some (k, v) \<Rightarrow> \<exists>j. json_get_member buffer toks t label = Some (Some j) \<and> at toks j v"
        using gm Cons.prems(1,3) n ms by simp
      show ?thesis
      proof (rule down, cases "find (\<lambda>(k, v). is_name buffer label k) ?ms")
        case None
        then show "case child buffer n st of
              None \<Rightarrow> json_delve buffer toks t (guide_step st @ ?rest) = Some None
            | Some c \<Rightarrow> \<exists>j. json_delve buffer toks t (guide_step st @ ?rest) = json_delve buffer toks j ?rest \<and> at toks j c"
          using gm' tok n Field ks by (simp add: json_delve.simps[of _ _ _ "CHR ''.'' # _"])
      next
        case (Some kv)
        obtain k v where kv: "kv = (k, v)" by (cases kv)
        then obtain j where "json_get_member buffer toks t label = Some (Some j)" "at toks j v" using gm' Some by auto
        then show "case child buffer n st of
              None \<Rightarrow> json_delve buffer toks t (guide_step st @ ?rest) = Some None
            | Some c \<Rightarrow> \<exists>j. json_delve buffer toks t (guide_step st @ ?rest) = json_delve buffer toks j ?rest \<and> at toks j c"
          using Some kv tok n Field ks by (auto simp: json_delve.simps[of _ _ _ "CHR ''.'' # _"])
      qed
    next
      case False
      then have "t_type (hd (flat n)) \<noteq> JSMN_OBJECT" "child buffer n st = None"
        using Cons.prems(2) Field by (cases n; auto simp: jsmn_fill_token_def)+
      then show ?thesis using tok Field ks by (intro down) (simp add: json_delve.simps[of _ _ _ "CHR ''.'' # _"])
    qed
  next
    case (Index i)
    have i: "i < 2 ^ 63" using Cons.prems(4) Index by simp
    have k: "list_all (\<lambda>c. \<not> guide_end c) (dec i)" using dec_plain(1) by (auto simp: list_all_iff)
    have ks: "takeWhile (\<lambda>x. \<not> guide_end x) (dec i @ '']'' @ ?rest) = dec i"
        "dropWhile (\<lambda>x. \<not> guide_end x) (dec i @ '']'' @ ?rest) = '']'' @ ?rest"
      using key_split[OF k, of "'']'' @ ?rest"] by (simp_all add: guide_end_def)
    have "unat (word_of_int (int i) :: u64) = i" using i by (simp add: unsigned_of_nat take_bit_nat_eq_self)
    then have at_i: "unat (word_of_int (c_atol (dec i)) :: u64) = i" using atol_dec[OF i] by simp
    show ?thesis
    proof (cases "\<exists>b e kids. n = Node JSMN_ARRAY b e kids")
      case True
      then obtain b e kids where n: "n = Node JSMN_ARRAY b e kids" by blast
      have ga: "if i < length kids then \<exists>j. json_get_arr toks t i = Some (Some j) \<and> at toks j (kids ! i)
          else json_get_arr toks t i = Some None"
        using json_get_arr_at[OF Cons.prems(1)[unfolded n], of i] .
      then show ?thesis
        using tok n Index ks at_i by (intro down) (auto simp: json_delve.simps[of _ _ _ "CHR ''['' # _"] split: if_splits)
    next
      case False
      then have "t_type (hd (flat n)) \<noteq> JSMN_ARRAY" "child buffer n st = None"
        using Cons.prems(2) Index by (cases n; auto simp: jsmn_fill_token_def)+
      then show ?thesis using tok Index ks by (intro down) (simp add: json_delve.simps[of _ _ _ "CHR ''['' # _"])
    qed
  qed
qed

section \<open>Parsing\<close>

lemma parse_again_eq:
  assumes "len \<le> length js"
  shows "parse_again js len num = Some (True, Some toks) \<longleftrightarrow> (\<exists>ns. text_renders js len ns \<and> toks = flats ns @ [end_token])"
proof (induction "len - num" arbitrary: num rule: less_induct)
  case less
  show ?case
  proof (cases "jsmn_parse jsmn_init js len num = Some (Inl JSMN_ERROR_NOMEM)")
    case True
    have "num < len" using jsmn_parse_nomem[OF True] .
    then show ?thesis using less[of "(num + 1) * 2 - 1"] True by (subst parse_again.simps) simp
  next
    case False
    show ?thesis
    proof
      assume "parse_again js len num = Some (True, Some toks)"
      then obtain count ts where p: "jsmn_parse jsmn_init js len num = Some (Inr (count, ts))" "toks = take count ts @ [end_token]"
        using False by (subst (asm) parse_again.simps) (auto split: option.splits sum.splits jsmnerr.splits)
      then show "\<exists>ns. text_renders js len ns \<and> toks = flats ns @ [end_token]" using jsmn_parse_eq[OF assms] by auto
    next
      assume "\<exists>ns. text_renders js len ns \<and> toks = flats ns @ [end_token]"
      then obtain ns where ns: "text_renders js len ns" "toks = flats ns @ [end_token]" by blast
      then have "jsmn_parse jsmn_init js len num = Some (Inr (length (flats ns), flats ns))"
        using jsmn_parse_renders[OF assms ns(1), of num] False by (simp split: if_splits)
      then show "parse_again js len num = Some (True, Some toks)" using ns(2) by (subst parse_again.simps) simp
    qed
  qed
qed

lemma json_parse_input_eq:
  "len \<le> length js \<Longrightarrow>
   json_parse_input js len = Some (True, Some toks) \<longleftrightarrow> (\<exists>ns. text_renders js len ns \<and> toks = flats ns @ [end_token])"
  unfolding json_parse_input_def by (rule parse_again_eq)

text \<open>
  C32. \<open>json_parse_input\<close> is correct and complete for the grammar of the parser: it returns tokens
  exactly for the texts that are a sequence of complete values, and they are the tokens of these
  values in the order in which they start, followed by the one that ends the array.
\<close>

theorem json_parse_input_correct:
  assumes "len \<le> length js"
  shows "json_parse_input js len = Some (True, Some toks)
      \<longleftrightarrow> (\<exists>ns. text_renders js len ns \<and> toks = flats ns @ [end_token])"
  using json_parse_input_eq[OF assms] .

definition example_text :: string where
  "example_text = [CHR ''{'', CHR 0x22, CHR ''a'', CHR 0x22, CHR '':'', CHR ''['', CHR ''1'', CHR '','', CHR ''2'', CHR ''2'', CHR '']'', CHR ''}'']"

definition example_node :: node where
  "example_node = Node JSMN_OBJECT 0 12 [Leaf JSMN_STRING 2 3, Node JSMN_ARRAY 5 11 [Leaf JSMN_PRIMITIVE 6 7, Leaf JSMN_PRIMITIVE 8 10]]"

lemma json_parse_input_correct_witness:
  "json_parse_input example_text 12 = Some (True, Some (flat example_node @ [end_token]))
   \<and> (\<exists>ns. text_renders example_text 12 ns \<and> flat example_node @ [end_token] = flats ns @ [end_token])"
proof -
  have "json_parse_input example_text 12 = Some (True, Some (flat example_node @ [end_token]))" by code_simp
  then show ?thesis using json_parse_input_correct[of 12 example_text "flat example_node @ [end_token]"] by (simp add: example_text_def)
qed

lemma json_delve_follows_witness:
  "\<exists>j. json_delve example_text (flat example_node) 0 ''.a[1]'' = Some (Some j)
     \<and> at (flat example_node) j (Leaf JSMN_PRIMITIVE 8 10)"
proof -
  have a: "at (flat example_node) 0 example_node" by (auto simp: at_def)
  have w: "wf_node example_node \<and> in_text (length example_text) example_node \<and> list_all step_ok [Field ''a'', Index 1]"
    by (simp add: example_text_def example_node_def members_def guide_end_def)
  have f: "follow example_text example_node [Field ''a'', Index 1] = Some (Leaf JSMN_PRIMITIVE 8 10)
      \<and> concat (map guide_step [Field ''a'', Index 1]) = ''.a[1]''"
    by (simp add: example_text_def example_node_def part_def dec.simps, code_simp)
  show ?thesis using json_delve_follows[OF a, of example_text "[Field ''a'', Index 1]"] w f by simp
qed

end
