(* ===== verification/Json_build.thy ===== *)
theory Json_build
  imports Json
begin

text \<open>
  The second part of \<open>json.c\<close>, which writes JSON by appending to a string, and a grammar of texts that
  the parser reads back. Every builder appends what stands for the values it was given.
\<close>

subsection \<open>Appending\<close>

definition strends :: "string \<Rightarrow> string \<Rightarrow> bool" where
  "strends str post \<longleftrightarrow> length post \<le> length str \<and> drop (length str - length post) str = post"

definition json_start_member :: "string \<Rightarrow> string option \<Rightarrow> string" where
  "json_start_member result fieldname =
     (let r = (if result \<noteq> [] \<and> \<not> strends result ''{ '' \<and> \<not> strends result ''[ '' then result @ '', '' else result) in
      case fieldname of None \<Rightarrow> r | Some f \<Rightarrow> r @ [CHR 0x22] @ f @ [CHR 0x22] @ '' : '')"

definition indents :: "string \<Rightarrow> nat" where
  \<comment> \<open>an \<^verbatim>\<open>unsigned int\<close>\<close>
  "indents s = unat (word_of_nat (count_list s (CHR ''{'') + count_list s (CHR ''[''))
                   - word_of_nat (count_list s (CHR '']'') + count_list s (CHR ''}'')) :: u32)"

definition start_container :: "char \<Rightarrow> string \<Rightarrow> string option \<Rightarrow> string" where
  "start_container c ptr fieldname =
     (let n = indents ptr; r = json_start_member ptr fieldname in
      (if n \<noteq> 0 then r @ [CHR 0x0A] @ replicate n (CHR 0x09) else r) @ [c, CHR '' ''])"

definition json_array_start :: "string \<Rightarrow> string option \<Rightarrow> string" where
  "json_array_start = start_container (CHR ''['')"

definition json_array_end :: "string \<Rightarrow> string" where
  "json_array_end ptr = ptr @ '' ]''"

definition json_object_start :: "string \<Rightarrow> string option \<Rightarrow> string" where
  "json_object_start = start_container (CHR ''{'')"

definition json_object_end :: "string \<Rightarrow> string" where
  "json_object_end ptr = ptr @ '' }''"

definition json_add_num :: "string \<Rightarrow> string option \<Rightarrow> u32 \<Rightarrow> string" where
  "json_add_num result fieldname value = json_start_member result fieldname @ dec (unat value)"

definition c_precision :: "int \<Rightarrow> string \<Rightarrow> string" where
  \<comment> \<open>what \<^verbatim>\<open>%.*s\<close> prints\<close>
  "c_precision len s = takeWhile (\<lambda>c. c \<noteq> CHR 0x00) (if len < 0 then s else take (nat len) s)"

definition json_add_literal :: "string \<Rightarrow> string option \<Rightarrow> string \<Rightarrow> int \<Rightarrow> string" where
  "json_add_literal result fieldname literal len = json_start_member result fieldname @ c_precision len literal"

definition json_add_string :: "string \<Rightarrow> string option \<Rightarrow> string \<Rightarrow> string" where
  "json_add_string result fieldname value = json_start_member result fieldname @ [CHR 0x22] @ value @ [CHR 0x22]"

definition json_add_bool :: "string \<Rightarrow> string option \<Rightarrow> bool \<Rightarrow> string" where
  "json_add_bool result fieldname value = json_start_member result fieldname @ (if value then ''true'' else ''false'')"

definition json_add_null :: "string \<Rightarrow> string option \<Rightarrow> string" where
  "json_add_null result fieldname = json_start_member result fieldname @ ''null''"

definition json_add_hex :: "string \<Rightarrow> string option \<Rightarrow> bytes \<Rightarrow> string option" where
  "json_add_hex result fieldname data = do { h \<leftarrow> to_hex data; Some (json_add_string result fieldname h) }"

definition json_add_pubkey :: "string \<Rightarrow> string option \<Rightarrow> bytes \<Rightarrow> string option" where
  "json_add_pubkey result fieldname pubkey = json_add_hex result fieldname pubkey"

definition json_add_double_sha :: "string \<Rightarrow> string option \<Rightarrow> bytes \<Rightarrow> string option" where
  "json_add_double_sha result fieldname sha = json_add_hex result fieldname sha"

definition json_add_address :: "openssl \<Rightarrow> string \<Rightarrow> string option \<Rightarrow> bool \<Rightarrow> bytes \<Rightarrow> string option" where
  "json_add_address ssl result fieldname test_net addr =
     do { str \<leftarrow> pettycoin_to_base58 ssl test_net addr False;
          Some (json_add_string result fieldname str) }"

definition json_add_signature :: "string \<Rightarrow> string option \<Rightarrow> bytes \<Rightarrow> string option" where
  \<comment> \<open>\<open>sizeof(sig)\<close> is the size of the pointer\<close>
  "json_add_signature result fieldname sig = do { s \<leftarrow> c_slice sig 0 8; json_add_hex result fieldname s }"

definition json_add_object :: "string \<Rightarrow> (string \<times> jsmntype \<times> string) list \<Rightarrow> string" where
  "json_add_object result fvs =
     json_object_end (foldl (\<lambda>r (field, type, value).
         if type = JSMN_STRING then json_add_string r (Some field) value
         else json_add_literal r (Some field) value (int (length value)))
       (json_object_start result None) fvs)"

section \<open>Texts and their values\<close>

datatype json =
    JPrim string
  | JStr string
  | JCont jsmntype "json list"

definition prim_text :: "string \<Rightarrow> bool" where
  "prim_text p \<longleftrightarrow> p \<noteq> [] \<and> prim_start (hd p) \<and> list_all prim_char p"

inductive json_seq :: "string \<Rightarrow> json list \<Rightarrow> bool" where
  s_nil: "json_seq [] []"
| s_skip: "skipped c \<Longrightarrow> json_seq s vs \<Longrightarrow> json_seq (c # s) vs"
| s_prim: "prim_text p \<Longrightarrow> s = [] \<or> prim_end (hd s) \<Longrightarrow> json_seq s vs \<Longrightarrow> json_seq (p @ s) (JPrim p # vs)"
| s_string: "string_body b \<Longrightarrow> json_seq s vs \<Longrightarrow> json_seq (CHR 0x22 # b @ CHR 0x22 # s) (JStr b # vs)"
| s_container: "opener ty x \<Longrightarrow> closer ty y \<Longrightarrow> json_seq s kids \<Longrightarrow> json_seq s' vs \<Longrightarrow>
    json_seq (x # s @ y # s') (JCont ty kids # vs)"

definition gap :: "string \<Rightarrow> bool" where
  \<comment> \<open>what comes next does not belong to a primitive at the end\<close>
  "gap s \<longleftrightarrow> s = [] \<or> \<not> prim_char (last s)"

lemma prim_char_last: "list_all prim_char p \<Longrightarrow> p \<noteq> [] \<Longrightarrow> prim_char (last p)"
  by (simp add: list_all_iff)

lemma json_seq_append:
  assumes "json_seq s vs" "json_seq t ws" "gap s \<or> t = [] \<or> prim_end (hd t)"
  shows "json_seq (s @ t) (vs @ ws)"
  using assms
proof (induction rule: json_seq.induct)
  case (s_skip c s vs)
  then show ?case by (cases "s = []") (auto simp: gap_def intro: json_seq.s_skip)
next
  case (s_prim p s vs)
  have "json_seq (s @ t) (vs @ ws)" using s_prim by (cases "s = []") (auto simp: gap_def)
  moreover have "s @ t = [] \<or> prim_end (hd (s @ t))"
    using s_prim.hyps(1,2) s_prim.prems prim_char_last[of p] by (cases s) (auto simp: gap_def prim_text_def)
  ultimately show ?case using json_seq.s_prim[OF s_prim.hyps(1)] by simp
next
  case (s_string b s vs)
  then show ?case using json_seq.s_string[of b "s @ t"] by (cases "s = []") (auto simp: gap_def)
next
  case (s_container ty x y s kids s' vs)
  then show ?case using json_seq.s_container[of ty x y s kids "s' @ t"] by (cases "s' = []") (auto simp: gap_def)
qed simp

lemma json_seq_skips: "list_all skipped w \<Longrightarrow> json_seq s vs \<Longrightarrow> json_seq (w @ s) vs"
  by (induction w) (auto intro: s_skip)

lemma json_seq_one_prim: "prim_text p \<Longrightarrow> json_seq p [JPrim p]"
  using s_prim[of p "[]"] s_nil by simp

lemma json_seq_one_string: "string_body b \<Longrightarrow> json_seq ([CHR 0x22] @ b @ [CHR 0x22]) [JStr b]"
  using s_string[of b "[]"] s_nil by simp

text \<open>What was appended.\<close>

definition adds :: "string \<Rightarrow> string \<Rightarrow> json list \<Rightarrow> bool" where
  "adds s t vs \<longleftrightarrow> (\<exists>u. t = s @ u \<and> json_seq u vs \<and> (u = [] \<or> gap s \<or> prim_end (hd u)))"

lemma adds_none: "adds s s []"
  by (auto simp: adds_def intro: s_nil)

lemma gap_append: "u \<noteq> [] \<Longrightarrow> gap (s @ u) = gap u"
  by (simp add: gap_def)

lemma adds_trans:
  assumes "adds s t vs" "adds t r ws"
  shows "adds s r (vs @ ws)"
proof -
  obtain u where u: "t = s @ u" "json_seq u vs" "u = [] \<or> gap s \<or> prim_end (hd u)" using assms(1) by (auto simp: adds_def)
  obtain w where w: "r = t @ w" "json_seq w ws" "w = [] \<or> gap t \<or> prim_end (hd w)" using assms(2) by (auto simp: adds_def)
  have "json_seq (u @ w) (vs @ ws)"
    by (rule json_seq_append[OF u(2) w(2)]) (use u(1) w(3) gap_append[of u s] in \<open>auto simp: gap_def\<close>)
  moreover have "u @ w = [] \<or> gap s \<or> prim_end (hd (u @ w))" using u w by (cases "u = []") auto
  ultimately show ?thesis unfolding adds_def using u(1) w(1) by (intro exI[of _ "u @ w"]) simp
qed

definition name_ok :: "string option \<Rightarrow> bool" where
  "name_ok f \<longleftrightarrow> (case f of None \<Rightarrow> True | Some n \<Rightarrow> string_body n)"

definition named :: "string option \<Rightarrow> json list \<Rightarrow> json list" where
  "named f vs = (case f of None \<Rightarrow> vs | Some n \<Rightarrow> JStr n # vs)"

lemma gap_strends: "strends s (p @ '' '') \<Longrightarrow> gap s"
proof -
  assume "strends s (p @ '' '')"
  then have "last s = CHR '' ''" by (metis append_take_drop_id last_appendR last_snoc list.distinct(1) append_is_Nil_conv strends_def)
  then show "gap s" by (simp add: gap_def prim_char_def prim_end_def)
qed

lemma start_member_adds:
  assumes "json_seq u vs" "name_ok f"
  shows "adds s (json_start_member s f @ u) (named f vs)"
proof -
  let ?sep = "if s \<noteq> [] \<and> \<not> strends s ''{ '' \<and> \<not> strends s ''[ '' then '', '' else ''''"
  let ?name = "case f of None \<Rightarrow> '''' | Some n \<Rightarrow> [CHR 0x22] @ n @ [CHR 0x22] @ '' : ''"
  have e: "json_start_member s f @ u = s @ (?sep @ ?name @ u)" by (simp add: json_start_member_def Let_def split: option.split)
  have colon: "json_seq ('' : '' @ u) vs" by (rule json_seq_skips[OF _ assms(1)]) (simp add: skipped_def)
  have "json_seq (?name @ u) (named f vs)"
    using assms s_string[OF _ colon] by (cases f) (simp_all add: named_def name_ok_def)
  moreover have "list_all skipped ?sep" by (simp add: skipped_def)
  ultimately have "json_seq (?sep @ ?name @ u) (named f vs)" using json_seq_skips by blast
  moreover have "gap s \<or> prim_end (hd (?sep @ ?name @ u))"
    using gap_strends[of s "''{''"] gap_strends[of s "''[''"] by (auto simp: gap_def prim_end_def)
  ultimately show ?thesis unfolding adds_def e by blast
qed

lemma container_adds:
  assumes "adds (start_container x s f) t kids" "name_ok f" "opener ty x" "closer ty y"
  shows "adds s (t @ [CHR '' '', y]) (named f [JCont ty kids])"
proof -
  let ?w = "if indents s \<noteq> 0 then [CHR 0x0A] @ replicate (indents s) (CHR 0x09) else ''''"
  obtain u where u: "t = start_container x s f @ u" "json_seq u kids" using assms(1) by (auto simp: adds_def)
  have e: "t @ [CHR '' '', y] = json_start_member s f @ (?w @ x # (CHR '' '' # u @ '' '') @ y # [])"
    by (simp add: u(1) start_container_def Let_def)
  have sp: "json_seq '' '' []" "skipped (CHR '' '')" using s_skip[OF _ s_nil, of "CHR '' ''"] by (simp_all add: skipped_def)
  have "json_seq (u @ '' '') (kids @ [])" by (rule json_seq_append[OF u(2) sp(1)]) (simp add: prim_end_def)
  then have "json_seq (CHR '' '' # u @ '' '') kids" using s_skip[OF sp(2)] by simp
  then have "json_seq (x # (CHR '' '' # u @ '' '') @ y # []) [JCont ty kids]" using s_container[OF assms(3,4)] s_nil by blast
  moreover have "list_all skipped ?w" by (auto simp: skipped_def list_all_iff)
  ultimately have "json_seq (?w @ x # (CHR '' '' # u @ '' '') @ y # []) [JCont ty kids]" using json_seq_skips by blast
  from start_member_adds[OF this assms(2)] show ?thesis by (simp only: e)
qed

lemma object_adds:
  "adds (json_object_start s f) t kids \<Longrightarrow> name_ok f \<Longrightarrow> adds s (json_object_end t) (named f [JCont JSMN_OBJECT kids])"
  unfolding json_object_start_def json_object_end_def by (rule container_adds) simp_all

lemma array_adds:
  "adds (json_array_start s f) t kids \<Longrightarrow> name_ok f \<Longrightarrow> adds s (json_array_end t) (named f [JCont JSMN_ARRAY kids])"
  unfolding json_array_start_def json_array_end_def by (rule container_adds) simp_all

text \<open>Simple values.\<close>

definition plain :: "char \<Rightarrow> bool" where
  "plain c \<longleftrightarrow> c \<notin> {CHR 0x00, CHR 0x22, CHR 0x5C}"

lemma plain_body: "list_all plain s \<Longrightarrow> string_body s"
  by (induction s) (auto simp: plain_def intro: body_nil body_plain)

lemma string_adds: "string_body v \<Longrightarrow> name_ok f \<Longrightarrow> adds s (json_add_string s f v) (named f [JStr v])"
  unfolding json_add_string_def by (rule start_member_adds[OF json_seq_one_string])

lemma prim_adds: "prim_text p \<Longrightarrow> name_ok f \<Longrightarrow> adds s (json_start_member s f @ p) (named f [JPrim p])"
  by (rule start_member_adds[OF json_seq_one_prim])

lemma dec_prim: "prim_text (dec n)"
proof -
  have d: "prim_start c \<and> prim_char c" if c: "c \<in> set (dec n)" for c
  proof -
    obtain d where d: "d < 10" "c = char_of (48 + d :: nat)" using c dec_digits[of n] by (auto simp: list_all_iff)
    then have "d \<in> set [0..<10]" by simp
    moreover have "\<forall>d \<in> set [0..<10]. prim_start (char_of (48 + d :: nat)) \<and> prim_char (char_of (48 + d :: nat))" by code_simp
    ultimately show ?thesis using d(2) by blast
  qed
  then show ?thesis using dec_not_Nil[of n] by (auto simp: prim_text_def list_all_iff)
qed

lemma num_adds: "name_ok f \<Longrightarrow> adds s (json_add_num s f v) (named f [JPrim (dec (unat v))])"
  unfolding json_add_num_def by (rule prim_adds[OF dec_prim])

lemma bool_adds: "name_ok f \<Longrightarrow> adds s (json_add_bool s f b) (named f [JPrim (if b then ''true'' else ''false'')])"
proof -
  have "prim_text ''true'' \<and> prim_text ''false''" by code_simp
  then show "name_ok f \<Longrightarrow> adds s (json_add_bool s f b) (named f [JPrim (if b then ''true'' else ''false'')])"
    unfolding json_add_bool_def by (auto intro: prim_adds)
qed

lemma to_hex_plain:
  assumes "to_hex bs = Some h"
  shows "list_all plain h"
proof -
  have "\<forall>n \<in> set [0..<16]. plain (hex_digits ! n)" by code_simp
  then have d: "plain (hex_digits ! n)" if "n < 16" for n using that by simp
  have "unat c div 16 < 16" "unat c mod 16 < 16" for c :: u8 using unat_byte_less[of c] by (auto simp del: unat_byte_less)
  then show ?thesis
    using assms d by (auto simp: to_hex_def to_hex_direct_def to_hex_loop_eq Let_def c_assert_def list_all_iff split: if_splits)
qed

lemma hex_adds:
  assumes "json_add_hex s f bs = Some t" "name_ok f"
  shows "\<exists>h. to_hex bs = Some h \<and> adds s t (named f [JStr h])"
  using assms string_adds[OF plain_body[OF to_hex_plain]] by (auto simp: json_add_hex_def elim!: bind_SomeE)
section \<open>What is built is parsed\<close>

fun view :: "string \<Rightarrow> node \<Rightarrow> json" where
  "view js (Leaf ty b e) = (if ty = JSMN_PRIMITIVE then JPrim (part js b e) else JStr (part js b e))"
| "view js (Node ty b e kids) = JCont ty (map (view js) kids)"

lemma part_middle: "js = pre @ s @ post \<Longrightarrow> b = length pre \<Longrightarrow> e = length pre + length s \<Longrightarrow> part js b e = s"
  by (simp add: part_def)

lemma nth_middle: "js = pre @ c # post \<Longrightarrow> i = length pre \<Longrightarrow> js ! i = c"
  by simp

lemma json_seq_renders:
  assumes "json_seq s vs" "js = pre @ s @ post" "length pre + length s \<le> len" "len \<le> length js"
    "gap s \<or> post \<noteq> [] \<and> length pre + length s < len \<and> prim_end (hd post)"
  shows "\<exists>ns. renders js len (length pre) (length pre + length s) ns \<and> map (view js) ns = vs"
  using assms
proof (induction arbitrary: pre post rule: json_seq.induct)
  case s_nil
  then show ?case by (intro exI[of _ "[]"]) (simp add: r_done)
next
  case (s_skip c s vs)
  have "gap s \<or> post \<noteq> [] \<and> length (pre @ [c]) + length s < len \<and> prim_end (hd post)"
    using s_skip.prems(4) by (cases "s = []") (auto simp: gap_def)
  then obtain ns where ns: "renders js len (length (pre @ [c])) (length (pre @ [c]) + length s) ns" "map (view js) ns = vs"
    using s_skip.IH[of "pre @ [c]" post] s_skip.prems by auto
  have "js ! length pre = c" using nth_middle[of js pre c "s @ post"] s_skip.prems(1) by simp
  then have "renders js len (length pre) (length pre + length (c # s)) ns"
    using ns(1) r_skip[of "length pre" len js "length pre + length (c # s)" ns] s_skip.hyps(1) s_skip.prems(2) by simp
  then show ?case using ns(2) by blast
next
  case (s_prim p s vs)
  have p: "p \<noteq> []" "prim_start (hd p)" "list_all prim_char p" using s_prim.hyps(1) by (simp_all add: prim_text_def)
  let ?e = "length pre + length p"
  have "gap s \<or> post \<noteq> [] \<and> length (pre @ p) + length s < len \<and> prim_end (hd post)"
    using s_prim.prems(4) by (cases "s = []") (auto simp: gap_def)
  then obtain ns where ns: "renders js len (length (pre @ p)) (length (pre @ p) + length s) ns" "map (view js) ns = vs"
    using s_prim.IH[of "pre @ p" post] s_prim.prems by auto
  have e: "?e < len \<and> prim_end (js ! ?e)"
  proof (cases s)
    case Nil
    then have "\<not> gap (p @ s)" using p prim_char_last[of p] by (simp add: gap_def)
    then show ?thesis using s_prim.prems Nil by (cases post) (auto simp: nth_append)
  next
    case (Cons c s')
    then show ?thesis using s_prim.hyps(2) s_prim.prems by (auto simp: nth_append)
  qed
  have "js ! length pre = hd p" using s_prim.prems(1) p(1) by (cases p) (auto simp: nth_append)
  then have "renders js len (length pre) (length pre + length (p @ s)) (Leaf JSMN_PRIMITIVE (length pre) ?e # ns)"
    using ns(1) e p part_middle[of js pre p "s @ post"] s_prim.prems(1) by (intro r_prim) (auto simp: add.assoc)
  then show ?case using ns(2) part_middle[of js pre p "s @ post"] s_prim.prems(1) by (intro exI conjI) (assumption, simp)
next
  case (s_string b s vs)
  let ?e = "Suc (length pre + length b)" and ?pre = "pre @ [CHR 0x22] @ b @ [CHR 0x22]"
  have "gap s \<or> post \<noteq> [] \<and> length ?pre + length s < len \<and> prim_end (hd post)"
    using s_string.prems(4) by (cases "s = []") (auto simp: gap_def)
  then obtain ns where ns: "renders js len (length ?pre) (length ?pre + length s) ns" "map (view js) ns = vs"
    using s_string.IH[of ?pre post] s_string.prems by auto
  have b: "part js (Suc (length pre)) ?e = b" using part_middle[of js "pre @ [CHR 0x22]" b "CHR 0x22 # s @ post"] s_string.prems(1) by simp
  have q: "js ! length pre = CHR 0x22" "js ! ?e = CHR 0x22"
    using nth_middle[of js pre _ "b @ CHR 0x22 # s @ post"] nth_middle[of js "pre @ CHR 0x22 # b" _ "s @ post"] s_string.prems(1) by auto
  have "renders js len (length pre) (length pre + length (CHR 0x22 # b @ CHR 0x22 # s)) (Leaf JSMN_STRING (Suc (length pre)) ?e # ns)"
    using ns(1) b q s_string.hyps(1) s_string.prems(2) by (intro r_string) (auto simp: add.assoc)
  then show ?case using ns(2) b by (intro exI conjI) (assumption, simp)
next
  case (s_container ty x y s kids s' vs)
  let ?e = "Suc (length pre + length s)" and ?pre = "pre @ [x] @ s @ [y]"
  have y: "prim_end y" using s_container.hyps(2) by (cases ty) (auto simp: prim_end_def)
  obtain ks where ks: "renders js len (length (pre @ [x])) (length (pre @ [x]) + length s) ks" "map (view js) ks = kids"
    using s_container.IH(1)[of "pre @ [x]" "y # s' @ post"] s_container.prems y by auto
  have "gap s' \<or> post \<noteq> [] \<and> length ?pre + length s' < len \<and> prim_end (hd post)"
    using s_container.prems(4) by (cases "s' = []") (auto simp: gap_def)
  then obtain ns where ns: "renders js len (length ?pre) (length ?pre + length s') ns" "map (view js) ns = vs"
    using s_container.IH(2)[of ?pre post] s_container.prems by auto
  have q: "js ! length pre = x" "js ! ?e = y"
    using nth_middle[of js pre x "s @ y # s' @ post"] nth_middle[of js "pre @ x # s" y "s' @ post"] s_container.prems(1) by auto
  have "renders js len (length pre) (length pre + length (x # s @ y # s')) (Node ty (length pre) (Suc ?e) ks # ns)"
    using ks(1) ns(1) q s_container.hyps(1,2) s_container.prems(2) by (intro r_container) (auto simp: add.assoc)
  then show ?case using ks(2) ns(2) by (intro exI conjI) (assumption, simp)
qed

lemma text_is_parsed:
  assumes "json_seq s vs" "gap s"
  shows "\<exists>ns. json_parse_input s (length s) = Some (True, Some (flats ns @ [end_token])) \<and> map (view s) ns = vs"
proof -
  obtain ns where ns: "renders s (length s) 0 (length s) ns" "map (view s) ns = vs"
    using json_seq_renders[OF assms(1), of s "[]" "[]" "length s"] assms(2) by auto
  then have "text_renders s (length s) ns" by (auto simp: text_renders_def)
  then show ?thesis using json_parse_input_eq[of "length s" s] ns(2) by blast
qed

section \<open>What was parsed\<close>

text \<open>The text of a value in a buffer, as \<open>json_tok_contents\<close> and \<open>json_tok_len\<close> delimit it.\<close>

fun node_text :: "string \<Rightarrow> node \<Rightarrow> string" where
  "node_text js (Leaf ty b e) = (if ty = JSMN_STRING then part js (b - 1) (e + 1) else part js b e)"
| "node_text js (Node ty b e kids) = part js b e"

fun value_ok :: "string \<Rightarrow> nat \<Rightarrow> node \<Rightarrow> bool" where
  \<comment> \<open>a value as the parser finds it in a text of length \<open>len\<close>\<close>
  "value_ok js len (Leaf ty b e) =
     (b < len \<and> (if ty = JSMN_STRING then 0 < b \<and> b \<le> e \<and> e < len \<and> string_body (part js b e) \<and> js ! (b - 1) = CHR 0x22 \<and> js ! e = CHR 0x22
      else ty = JSMN_PRIMITIVE \<and> b < e \<and> e < len \<and> prim_text (part js b e)))"
| "value_ok js len (Node ty b e kids) =
     ((ty = JSMN_OBJECT \<or> ty = JSMN_ARRAY) \<and> b < e \<and> e \<le> len \<and> opener ty (js ! b) \<and> closer ty (js ! (e - 1))
      \<and> json_seq (part js (Suc b) (e - 1)) (map (view js) kids) \<and> Suc b \<le> e - 1 \<and> (\<forall>k \<in> set kids. value_ok js len k))"

lemma renders_seq:
  assumes "renders js len i k ns" "len \<le> length js" "k \<le> len"
  shows "json_seq (part js i k) (map (view js) ns) \<and> list_all (value_ok js len) ns"
  using assms
proof (induction rule: renders.induct)
  case (r_done i)
  then show ?case by (simp add: s_nil)
next
  case (r_skip i k ns)
  then have "Suc i \<le> k" using renders_le by blast
  then show ?case using r_skip part_Cons[of i k js] by (simp add: s_skip)
next
  case (r_prim i e k ns)
  have k: "e \<le> k" using renders_le[OF r_prim.hyps(6)] .
  have p: "prim_text (part js i e)" using r_prim.hyps(1-4) r_prim.prems(1) part_Cons[of i e js] by (simp add: prim_text_def)
  have "part js e k = [] \<or> prim_end (hd (part js e k))" using r_prim.hyps(5) r_prim.prems k part_Cons[of e k js] by (cases "e = k") auto
  then have "json_seq (part js i e @ part js e k) (JPrim (part js i e) # map (view js) ns)"
    using s_prim[OF p] r_prim by auto
  then show ?case using p r_prim k part_append[of i e k js] by simp
next
  case (r_string i e k ns)
  have k: "Suc e \<le> k" using renders_le[OF r_string.hyps(6)] .
  have "part js i k = CHR 0x22 # part js (Suc i) e @ CHR 0x22 # part js (Suc e) k"
    using r_string k part_Cons[of i k js] part_append[of "Suc i" e k js] part_Cons[of e k js] by simp
  then show ?case using r_string k s_string[OF r_string.hyps(4)] by simp
next
  case (r_container ty i e kids k ns)
  have k: "Suc e \<le> k" "Suc i \<le> e" using renders_le[OF r_container.hyps(6)] renders_le[OF r_container.hyps(4)] by auto
  have "part js i k = js ! i # part js (Suc i) e @ js ! e # part js (Suc e) k"
    using r_container k part_Cons[of i k js] part_append[of "Suc i" e k js] part_Cons[of e k js] by simp
  moreover have "ty = JSMN_OBJECT \<or> ty = JSMN_ARRAY" using r_container.hyps(1) by (cases ty) auto
  ultimately show ?case using r_container k s_container[OF r_container.hyps(1,5)] by (auto simp: list_all_iff)
qed

lemma node_text_seq:
  assumes "value_ok js len n" "len \<le> length js"
  shows "json_seq (node_text js n) [view js n]"
proof (cases n)
  case (Leaf ty b e)
  show ?thesis
  proof (cases "ty = JSMN_STRING")
    case True
    then have "b - 1 < Suc e" using assms Leaf by auto
    then have "part js (b - 1) (e + 1) = CHR 0x22 # part js b e @ [CHR 0x22]"
      using assms Leaf True part_Cons[of "b - 1" "Suc e" js] part_append[of b e "Suc e" js] part_Cons[of e "Suc e" js] by simp
    then show ?thesis using assms Leaf True json_seq_one_string[of "part js b e"] by simp
  qed (use assms Leaf json_seq_one_prim in \<open>simp split: if_split_asm\<close>)
next
  case (Node ty b e kids)
  have "part js b e = js ! b # part js (Suc b) (e - 1) @ [js ! (e - 1)]"
    using assms Node part_Cons[of b e js] part_append[of "Suc b" "e - 1" e js] part_Cons[of "e - 1" e js] by simp
  then show ?thesis using assms Node s_container[OF _ _ _ s_nil, of ty "js ! b" "js ! (e - 1)"] by simp
qed

lemma value_ok_in_text: "value_ok js len n \<Longrightarrow> in_text len n"
  by (induction n) (auto split: if_split_asm)

end
