(* ===== verification/Rpc_commands.thy ===== *)
theory Rpc_commands
  imports Json_build Create_tx Pending Todo Packets
begin

text \<open>
  The commands of the JSON interface: \<open>getinfo.c\<close>, \<open>sendrawtransaction.c\<close>, \<open>listtransactions.c\<close>, the
  listing of \<open>todo.c\<close> and the small ones of \<open>jsonrpc.c\<close>. A command gets the buffer of the connection, the
  tokens in it, the index of its parameters and the response so far, and returns an error message or
  \<open>None\<close> for NULL, the response, the flag \<open>stop\<close> and the new state. What is not under the control of
  the code is in the record below: the tables of names that the build makes from \<open>protocol_ecode.h\<close>
  and \<open>protocol_net.h\<close>, and what memory holds that is read before it was written.
\<close>

subsection \<open>The environment\<close>

record rpc_env =
  re_ecode_names :: "(protocol_ecode \<times> string) list"
  re_pkt_names :: "(todo_type \<times> string) list"
  re_junk :: "nat \<Rightarrow> string" \<comment> \<open>the strings found in arrays made by \<^verbatim>\<open>tal_arr(..., char, 0)\<close>: 0 is the response, the others the texts of transactions\<close>
  re_unset :: u32 \<comment> \<open>what \<open>bad_input_num\<close> holds when it was not set\<close>
  re_fresh :: "nat \<Rightarrow> string" \<comment> \<open>so many characters of memory that was not written yet\<close>

type_synonym response = "string option \<times> string \<times> bool \<times> state"

definition ecode_name :: "rpc_env \<Rightarrow> protocol_ecode \<Rightarrow> string option" where
  "ecode_name env e = map_of (re_ecode_names env) e"

definition pkt_name :: "rpc_env \<Rightarrow> todo_type \<Rightarrow> string option" where
  "pkt_name env e = map_of (re_pkt_names env) e"

definition tok_text :: "string \<Rightarrow> jsmntok \<Rightarrow> string option" where
  \<comment> \<open>what \<^verbatim>\<open>%.*s\<close> prints for \<open>json_tok_len\<close> and \<open>json_tok_contents\<close>\<close>
  "tok_text buffer tok =
     do { c_assert (0 \<le> json_tok_contents tok);
          Some (c_precision (json_tok_len tok) (drop (nat (json_tok_contents tok)) buffer)) }"

definition tok_slice :: "string \<Rightarrow> jsmntok \<Rightarrow> string option" where
  \<comment> \<open>the characters from \<open>start\<close> to \<open>end\<close>\<close>
  "tok_slice buffer tok =
     do { c_assert (0 \<le> t_start tok \<and> t_start tok \<le> t_end tok);
          c_slice buffer (nat (t_start tok)) (nat (t_end tok - t_start tok)) }"

subsection \<open>getinfo.c\<close>

definition json_add_block :: "string \<Rightarrow> string option \<Rightarrow> block \<Rightarrow> string option" where
  "json_add_block response fieldname block =
     do { let r = json_object_start response fieldname;
          r1 \<leftarrow> json_add_double_sha r (Some ''sha'') (b_sha block);
          let r2 = json_add_num r1 (Some ''depth'') (bh_depth (b_hdr block));
          Some (json_object_end r2) }"

definition json_add_blocks :: "state \<Rightarrow> bptr list \<Rightarrow> string \<Rightarrow> string option" where
  \<comment> \<open>the loops over the arrays of chains\<close>
  "json_add_blocks s bs response =
     ofold (\<lambda>b r. do { block \<leftarrow> st_heap s b; json_add_block r None block }) bs response"

definition json_getinfo :: "state \<Rightarrow> string \<Rightarrow> string option" where
  "json_getinfo s response =
     do { let r = json_object_start response None;
          let r1 = (if st_test_net s then json_add_bool r (Some ''test_net'') True else r);
          r2 \<leftarrow> json_add_blocks s (st_longest_chains s) (json_array_start r1 (Some ''longest''));
          r3 \<leftarrow> json_add_blocks s (st_longest_knowns s) (json_array_start (json_array_end r2) (Some ''longest_knowns''));
          pref \<leftarrow> st_heap s (st_preferred_chain s);
          r4 \<leftarrow> json_add_block (json_array_end r3) (Some ''preferred_chain'') pref;
          let r5 = json_add_num r4 (Some ''num_todos'') (word_of_nat (length (st_todo s)));
          let r6 = json_add_num r5 (Some ''num_pending'') (word_of_nat (num_pending_known s) + pb_num_unknown (st_pending s));
          Some (json_object_end r6) }"

subsection \<open>todo.c\<close>

definition add_bits :: "bool list \<Rightarrow> string \<Rightarrow> string option" where
  "add_bits bits response =
     ofold (\<lambda>i r. do { b \<leftarrow> c_nth bits i; Some (if b then json_add_num r None (word_of_nat i) else r) }) [0..<MAX_PEERS] response"

definition json_add_todo :: "rpc_env \<Rightarrow> todo_request \<Rightarrow> string \<Rightarrow> string option" where
  "json_add_todo env todo response =
     do { let (shardnum, txoff) = get_todo_ptrs (td_type todo);
          let r = json_object_start response None;
          name \<leftarrow> pkt_name env (td_type todo);
          r1 \<leftarrow> json_add_double_sha (json_add_string r (Some ''type'') name) (Some ''sha'') (td_sha todo);
          let r2 = (if shardnum then json_add_num r1 (Some ''shard'') (ucast (td_shardnum todo)) else r1);
          let r3 = (if txoff then json_add_num r2 (Some ''txoff'') (ucast (td_txoff todo)) else r2);
          r4 \<leftarrow> add_bits (td_asked todo) (json_array_start r3 (Some ''peers_asked''));
          r5 \<leftarrow> add_bits (td_failed todo) (json_array_start (json_array_end r4) (Some ''peers_failed''));
          Some (json_object_end (json_array_end r5)) }"

definition json_listtodo :: "rpc_env \<Rightarrow> state \<Rightarrow> string \<Rightarrow> string option" where
  "json_listtodo env s response =
     do { r \<leftarrow> ofold (json_add_todo env) (st_todo s) (json_array_start response None);
          Some (json_array_end r) }"

subsection \<open>sendrawtransaction.c\<close>

definition raw_hexchar :: "char \<Rightarrow> u8 option" where
  \<comment> \<open>\<open>hexchar\<close>: an upper case digit has \<^verbatim>\<open>'F'\<close> taken from it, not \<^verbatim>\<open>'A'\<close>\<close>
  "raw_hexchar c =
     (let n = (of_char c :: nat) in
      if 48 \<le> n \<and> n \<le> 57 then Some (word_of_nat (n - 48))
      else if 97 \<le> n \<and> n \<le> 102 then Some (word_of_nat (n - 97 + 10))
      else if 65 \<le> n \<and> n \<le> 70 then Some (word_of_nat (n + 10 - 70))
      else None)"

fun dehex :: "string \<Rightarrow> bytes option" where
  \<comment> \<open>\<open>None\<close> is NULL\<close>
  "dehex [] = Some []"
| "dehex (c1 # c2 # p) =
     (case (raw_hexchar c1, raw_hexchar c2) of
        (Some b1, Some b2) \<Rightarrow> map_option (\<lambda>r. (push_bit 4 b1 OR b2) # r) (dehex p)
      | _ \<Rightarrow> None)"
| "dehex [c] = None"

definition report_unknown_input :: "protocol_tx \<Rightarrow> nat \<Rightarrow> string \<Rightarrow> state \<Rightarrow> (string \<times> state) option" where
  \<comment> \<open>the case \<open>ECODE_INPUT_UNKNOWN\<close>\<close>
  "report_unknown_input tx bad response s =
     do { inp \<leftarrow> tx_input tx bad;
          let s1 = todo_add_get_tx s (in_input inp);
          let r = json_object_start response (Some ''unknown_input'');
          let r1 = json_add_num r (Some ''input_num'') (word_of_nat bad);
          r2 \<leftarrow> json_add_double_sha r1 (Some ''tx'') (in_input inp);
          Some (json_object_end r2, s1) }"

definition input_error :: "u32 \<Rightarrow> bool \<Rightarrow> input_ecode \<Rightarrow> string" where
  "input_error bad old e =
     (case e of
        ECODE_INPUT_BAD \<Rightarrow>
          ''Input '' @ dec (unat bad) @ (if old then '' is too old'' else '' is invalid'')
      | ECODE_INPUT_BAD_AMOUNT \<Rightarrow> ''Amount does not add up''
      | ECODE_INPUT_DOUBLESPEND \<Rightarrow> ''Input '' @ dec (unat bad) @ '' already spent''
      | _ \<Rightarrow> ''Claim is bad'')"

definition submit_tx :: "rpc_env \<Rightarrow> runtime \<Rightarrow> state \<Rightarrow> protocol_tx \<Rightarrow> string \<Rightarrow> response option" where
  \<comment> \<open>the part of \<open>json_sendrawtransaction\<close> behind \<open>check_tx\<close>\<close>
  "submit_tx env rt s tx response =
     do { sha \<leftarrow> hash_tx (rt_ssl rt) tx;
          r \<leftarrow> json_add_double_sha (json_object_start response None) (Some ''tx'') sha;
          (e, bad, old, s1) \<leftarrow> add_pending_tx rt s tx sha;
          let num = (case bad of None \<Rightarrow> re_unset env | Some n \<Rightarrow> word_of_nat n);
          if e = ECODE_INPUT_OK \<or> e = ECODE_INPUT_UNKNOWN then do {
            (r1, s2) \<leftarrow> (if e = ECODE_INPUT_OK then Some (r, s1) else report_unknown_input tx (unat num) r s1);
            s3 \<leftarrow> send_tx_to_peers (rt_ssl rt) s2 None tx;
            Some (None, json_object_end r1, False, s3) }
          else Some (Some (input_error num (old = Some True) e), r, False, s1) }"

definition json_sendrawtransaction ::
    "rpc_env \<Rightarrow> runtime \<Rightarrow> string \<Rightarrow> jsmntok list \<Rightarrow> nat \<Rightarrow> state \<Rightarrow> string \<Rightarrow> response option" where
  "json_sendrawtransaction env rt buffer toks params s response =
     do { ps \<leftarrow> json_get_params buffer toks params [''tx''];
          p \<leftarrow> c_nth ps 0;
          (case p of
             None \<Rightarrow> Some (Some ''Need a tx parameter'', response, False, s)
           | Some t \<Rightarrow> do {
               tok \<leftarrow> c_nth toks t;
               text \<leftarrow> tok_slice buffer tok;
               (case dehex text of
                  None \<Rightarrow> Some (Some ''Invalid hex string for tx'', response, False, s)
                | Some bs \<Rightarrow> do {
                    (e, _) \<leftarrow> unmarshal_tx bs (word_of_nat (length bs)) False;
                    if e \<noteq> PROTOCOL_ECODE_NONE then do {
                      name \<leftarrow> ecode_name env e;
                      Some (Some (''Error unmarshalling tx: '' @ name), response, False, s) }
                    else do {
                      tx \<leftarrow> cast_tx bs;
                      e \<leftarrow> check_tx (rt_ssl rt) s tx None;
                      if e \<noteq> PROTOCOL_ECODE_NONE then do {
                        name \<leftarrow> ecode_name env e;
                        Some (Some (''tx has an error: '' @ name), response, False, s) }
                      else submit_tx env rt s tx response } }) }) }"

subsection \<open>listtransactions.c\<close>

definition json_add_input :: "string \<Rightarrow> string option \<Rightarrow> protocol_input \<Rightarrow> string option" where
  "json_add_input response fieldname inp =
     do { r \<leftarrow> json_add_double_sha (json_object_start response fieldname) (Some ''input'') (in_input inp);
          Some (json_object_end (json_add_num r (Some ''output'') (ucast (in_output inp)))) }"

definition json_add_inputs :: "string \<Rightarrow> protocol_tx \<Rightarrow> string option" where
  "json_add_inputs response tx =
     do { r \<leftarrow> ofold (\<lambda>i r. do { inp \<leftarrow> tx_input tx i; json_add_input r None inp })
                [0..<unat (num_inputs tx)] (json_array_start response (Some ''vin''));
          Some (json_array_end r) }"

definition json_add_output :: "openssl \<Rightarrow> bool \<Rightarrow> protocol_gateway_payment \<Rightarrow> string \<Rightarrow> string option" where
  "json_add_output ssl test_net out response =
     do { let r = json_add_num (json_object_start response None) (Some ''send_amount'') (gp_send_amount out);
          r1 \<leftarrow> json_add_address ssl r (Some ''output_addr'') test_net (gp_output_addr out);
          Some (json_object_end r1) }"

definition json_add_outputs :: "openssl \<Rightarrow> string \<Rightarrow> state \<Rightarrow> protocol_tx_from_gateway \<Rightarrow> string option" where
  "json_add_outputs ssl response s t =
     do { let outputs = get_from_gateway_outputs t;
          r \<leftarrow> ofold (\<lambda>i r. do { out \<leftarrow> c_nth outputs i; json_add_output ssl (st_test_net s) out r })
                [0..<unat (num_outputs (From_gateway t))] (json_array_start response (Some ''vout''));
          Some (json_array_end r) }"

fun json_append_type :: "openssl \<Rightarrow> state \<Rightarrow> protocol_tx \<Rightarrow> string \<Rightarrow> string option" where
  \<comment> \<open>the switch of \<open>json_append_tx\<close>; for a transaction from a gateway the signature is read where a
     normal one has it\<close>
  "json_append_type ssl s (Normal t) response =
     do { let r = json_add_string response (Some ''type'') ''TX_NORMAL'';
          r1 \<leftarrow> json_add_pubkey r (Some ''input_key'') (n_input_key t);
          r2 \<leftarrow> json_add_address ssl r1 (Some ''output_addr'') (st_test_net s) (n_output_addr t);
          let r3 = json_add_num r2 (Some ''send_amount'') (n_send_amount t);
          let r4 = json_add_num r3 (Some ''change_amount'') (n_change_amount t);
          r5 \<leftarrow> json_add_signature r4 (Some ''signature'') (enc_signature (n_signature t));
          json_add_inputs r5 (Normal t) }"
| "json_append_type ssl s (From_gateway t) response =
     do { let r = json_add_string response (Some ''type'') ''TX_FROM_GATEWAY'';
          r1 \<leftarrow> json_add_pubkey r (Some ''gateway_key'') (fg_gateway_key t);
          sig \<leftarrow> c_slice (enc_tx (From_gateway t)) 68 8;
          r2 \<leftarrow> json_add_signature r1 (Some ''signature'') sig;
          json_add_outputs ssl r2 s t }"
| "json_append_type ssl s (To_gateway t) response =
     do { let r = json_add_string response (Some ''type'') ''TX_TO_GATEWAY'';
          r1 \<leftarrow> json_add_pubkey r (Some ''input_key'') (tg_input_key t);
          r2 \<leftarrow> json_add_address ssl r1 (Some ''output_addr'') (st_test_net s) (tg_to_gateway_addr t);
          let r3 = json_add_num r2 (Some ''send_amount'') (tg_send_amount t);
          let r4 = json_add_num r3 (Some ''change_amount'') (tg_change_amount t);
          r5 \<leftarrow> json_add_signature r4 (Some ''signature'') (enc_signature (tg_signature t));
          json_add_inputs r5 (To_gateway t) }"
| "json_append_type ssl s (Claim t) response =
     do { let r = json_add_string response (Some ''type'') ''TX_CLAIM'';
          r1 \<leftarrow> json_add_pubkey r (Some ''input_key'') (c_input_key t);
          let r2 = json_add_num r1 (Some ''amount'') (c_amount t);
          r3 \<leftarrow> json_add_signature r2 (Some ''claim'') (enc_signature (c_signature t));
          json_add_input r3 (Some ''input'') (c_input t) }"

definition json_append_tx :: "openssl \<Rightarrow> string \<Rightarrow> state \<Rightarrow> protocol_tx \<Rightarrow> block option \<Rightarrow> u32 \<Rightarrow> string option" where
  "json_append_tx ssl response s tx block confirms =
     do { sha \<leftarrow> hash_tx ssl tx;
          r \<leftarrow> json_add_double_sha response (Some ''txid'') sha;
          r1 \<leftarrow> (case block of None \<Rightarrow> Some r | Some b \<Rightarrow> json_add_double_sha r (Some ''block'') (b_sha b));
          let r2 = json_add_num r1 (Some ''confirmations'') confirms;
          let r3 = json_add_num r2 (Some ''version'') (ucast (hdr_version tx));
          let r4 = json_add_num r3 (Some ''features'') (ucast (hdr_features tx));
          json_append_type ssl s tx r4 }"

fun unspent_from :: "runtime \<Rightarrow> state \<Rightarrow> protocol_tx \<Rightarrow> sha \<Rightarrow> address \<Rightarrow> nat list \<Rightarrow> bool option" where
  \<comment> \<open>the loop of \<open>unspent_output_affects\<close>, over the numbers of the outputs\<close>
  "unspent_from rt s tx sha address [] = Some False"
| "unspent_from rt s tx sha address (i # is) =
     do { te \<leftarrow> tx_find_doublespend rt s (st_preferred_chain s) None
                  \<lparr>in_input = sha, in_output = word_of_nat i, in_unused = 0\<rparr>;
          if te \<noteq> None then unspent_from rt s tx sha address is
          else do {
            r \<leftarrow> find_output (rt_ssl rt) tx (word_of_nat i);
            (addr, amount) \<leftarrow> r;
            if addr = address then Some True else unspent_from rt s tx sha address is } }"

definition unspent_output_affects :: "runtime \<Rightarrow> state \<Rightarrow> protocol_tx \<Rightarrow> address \<Rightarrow> bool option" where
  "unspent_output_affects rt s tx address =
     do { sha \<leftarrow> hash_tx (rt_ssl rt) tx;
          unspent_from rt s tx sha address [0..<unat (num_outputs tx)] }"

definition add_block_tx ::
    "rpc_env \<Rightarrow> runtime \<Rightarrow> state \<Rightarrow> address \<Rightarrow> block \<Rightarrow> nat \<Rightarrow> nat \<Rightarrow> nat \<Rightarrow> string list \<Rightarrow> string list option" where
  \<comment> \<open>the body of the innermost loop of \<open>add_existing_txs\<close>\<close>
  "add_block_tx env rt s address b depth shard txoff txs =
     do { t \<leftarrow> block_get_tx b (word_of_nat shard) (word_of_nat txoff);
          (case t of
             None \<Rightarrow> Some txs
           | Some tx \<Rightarrow> do {
               affects \<leftarrow> unspent_output_affects rt s tx address;
               if \<not> affects then Some txs
               else do {
                 text \<leftarrow> json_append_tx (rt_ssl rt) (re_junk env (Suc (length txs))) s tx (Some b) (word_of_nat depth);
                 Some (txs @ [text]) } }) }"

definition add_block_txs ::
    "rpc_env \<Rightarrow> runtime \<Rightarrow> state \<Rightarrow> address \<Rightarrow> block \<Rightarrow> nat \<Rightarrow> string list \<Rightarrow> string list option" where
  "add_block_txs env rt s address b depth txs =
     ofold (\<lambda>shard txs. do {
         sh \<leftarrow> c_nth (b_shard b) shard;
         ofold (add_block_tx env rt s address b depth shard) [0..<unat (bs_size sh)] txs })
       [0..<unat (num_shards (b_hdr b))] txs"

definition past_horizon :: "runtime \<Rightarrow> state \<Rightarrow> block \<Rightarrow> bool" where
  "past_horizon rt s b \<longleftrightarrow>
     bt_timestamp (b_tailer b) + word_of_nat (PROTOCOL_TX_HORIZON_SECS (st_test_net s)) < (word_of_nat (rt_time rt) :: u32)"

partial_function (option) existing_txs ::
    "rpc_env \<Rightarrow> runtime \<Rightarrow> state \<Rightarrow> address \<Rightarrow> bptr option \<Rightarrow> nat \<Rightarrow> string list \<Rightarrow> string list option" where
  \<comment> \<open>the loop of \<open>add_existing_txs\<close>\<close>
  "existing_txs env rt s address b depth txs =
     (case b of
        None \<Rightarrow> Some txs
      | Some a \<Rightarrow> do {
          block \<leftarrow> st_heap s a;
          if past_horizon rt s block then Some txs
          else do {
            txs1 \<leftarrow> add_block_txs env rt s address block depth txs;
            existing_txs env rt s address (b_prev block) (depth + 1) txs1 } })"

definition add_existing_txs :: "rpc_env \<Rightarrow> runtime \<Rightarrow> state \<Rightarrow> address \<Rightarrow> string \<Rightarrow> string option" where
  "add_existing_txs env rt s address response =
     do { txs \<leftarrow> existing_txs env rt s address (Some (st_preferred_chain s)) 1 [];
          Some (foldl (\<lambda>r text. json_object_end (json_object_start r None @ text)) response (rev txs)) }"

definition add_pending_entry :: "runtime \<Rightarrow> state \<Rightarrow> address \<Rightarrow> protocol_tx \<Rightarrow> string \<Rightarrow> string option" where
  \<comment> \<open>the body of both loops of \<open>add_pending_txs\<close>\<close>
  "add_pending_entry rt s address tx response =
     do { affects \<leftarrow> unspent_output_affects rt s tx address;
          if \<not> affects then Some response
          else do {
            r \<leftarrow> json_append_tx (rt_ssl rt) (json_object_start response None) s tx None 0;
            Some (json_object_end r) } }"

definition add_pending_txs :: "runtime \<Rightarrow> state \<Rightarrow> address \<Rightarrow> string \<Rightarrow> string option" where
  \<comment> \<open>\<open>num_shards\<close> is set to the order\<close>
  "add_pending_txs rt s address response =
     do { let pend = st_pending s;
          _ \<leftarrow> c_nth (st_longest_knowns s) 0;
          r \<leftarrow> ofold (\<lambda>shard r. do {
                  txs \<leftarrow> c_nth (pb_pend pend) shard;
                  ofold (\<lambda>p. add_pending_entry rt s address (pt_tx p)) txs r })
                [0..<unat next_shard_order] response;
          ofold (add_pending_entry rt s address) (pb_unknown_tx pend) r }"

definition parse_minconf :: "string \<Rightarrow> jsmntok list \<Rightarrow> nat option \<Rightarrow> (string + u32) option" where
  \<comment> \<open>an error message or the number\<close>
  "parse_minconf buffer toks minconf =
     (case minconf of
        None \<Rightarrow> Some (Inr 1)
      | Some t \<Rightarrow> do {
          tok \<leftarrow> c_nth toks t;
          n \<leftarrow> json_tok_number buffer tok;
          (case n of
             None \<Rightarrow> do { text \<leftarrow> tok_text buffer tok; Some (Inl (''minconf '' @ text @ '' not valid'')) }
           | Some num \<Rightarrow> Some (Inr num)) })"

definition parse_address :: "openssl \<Rightarrow> string \<Rightarrow> jsmntok \<Rightarrow> (bool \<times> address) option option" where
  "parse_address ssl buffer addr =
     (if t_type addr \<noteq> JSMN_STRING then Some None
      else do { text \<leftarrow> tok_slice buffer addr; pettycoin_from_base58 ssl text })"

definition json_list_transactions ::
    "rpc_env \<Rightarrow> runtime \<Rightarrow> string \<Rightarrow> jsmntok list \<Rightarrow> nat \<Rightarrow> state \<Rightarrow> string \<Rightarrow> (string option \<times> string) option" where
  "json_list_transactions env rt buffer toks params s response =
     do { ps \<leftarrow> json_get_params buffer toks params [''address'', ''minconf''];
          addr \<leftarrow> c_nth ps 0;
          minconf \<leftarrow> c_nth ps 1;
          (case addr of
             None \<Rightarrow> Some (Some (''Needs '' @ [CHR 0x27] @ ''address'' @ [CHR 0x27]), response)
           | Some t \<Rightarrow> do {
               tok \<leftarrow> c_nth toks t;
               a \<leftarrow> parse_address (rt_ssl rt) buffer tok;
               (case a of
                  None \<Rightarrow> do { text \<leftarrow> tok_text buffer tok; Some (Some (''address '' @ text @ '' not valid''), response) }
                | Some (test_net, address) \<Rightarrow>
                    if test_net \<noteq> st_test_net s then do {
                      text \<leftarrow> tok_text buffer tok;
                      Some (Some (''address '' @ text @ '' '' @ (if test_net then ''on'' else ''not on'') @ '' test net''), response) }
                    else do {
                      m \<leftarrow> parse_minconf buffer toks minconf;
                      (case m of
                         Inl e \<Rightarrow> Some (Some e, response)
                       | Inr minimum_confirms \<Rightarrow> do {
                           r \<leftarrow> add_existing_txs env rt s address (json_array_start response None);
                           r1 \<leftarrow> (if minimum_confirms = 0 then add_pending_txs rt s address r else Some r);
                           Some (None, json_array_end r1) }) }) }) }"

subsection \<open>jsonrpc.c: the table of commands\<close>

datatype json_command =
    help_command | getinfo_command | sendrawtransaction_command | stop_command | listtransactions_command
  | echo_command | listtodo_command

definition cmdlist :: "json_command list" where
  "cmdlist = [help_command, getinfo_command, sendrawtransaction_command, stop_command, listtransactions_command,
     echo_command, listtodo_command]"

fun cmd_name :: "json_command \<Rightarrow> string" where
  "cmd_name help_command = ''help''"
| "cmd_name getinfo_command = ''getinfo''"
| "cmd_name sendrawtransaction_command = ''sendrawtransaction''"
| "cmd_name stop_command = ''stop''"
| "cmd_name listtransactions_command = ''listtransactions''"
| "cmd_name echo_command = ''dev-echo''"
| "cmd_name listtodo_command = ''dev-listtodo''"

fun cmd_description :: "json_command \<Rightarrow> string" where
  "cmd_description help_command = ''describe commands''"
| "cmd_description getinfo_command = ''get miscellaneous information''"
| "cmd_description sendrawtransaction_command = ''Send a transaction to the network''"
| "cmd_description stop_command = ''Shutdown the pettycoin process''"
| "cmd_description listtransactions_command = ''show transactions to/from a given address''"
| "cmd_description echo_command = ''echo parameters''"
| "cmd_description listtodo_command = ''List all outstanding TODO requests''"

definition json_echo :: "string \<Rightarrow> jsmntok list \<Rightarrow> nat \<Rightarrow> string \<Rightarrow> string option" where
  "json_echo buffer toks params response =
     do { tok \<leftarrow> c_nth toks params;
          let r = json_add_num (json_object_start response None) (Some ''num'') (word_of_nat (t_size tok));
          c_assert (0 \<le> json_tok_contents tok);
          let r1 = json_add_literal r (Some ''echo'') (drop (nat (json_tok_contents tok)) buffer) (json_tok_len tok);
          Some (json_object_end r1) }"

definition json_help :: "string \<Rightarrow> string" where
  "json_help response =
     json_array_end (foldl (\<lambda>r c. json_add_object r
         [(''command'', JSMN_STRING, cmd_name c), (''description'', JSMN_STRING, cmd_description c)])
       (json_array_start response None) cmdlist)"

fun dispatch ::
    "json_command \<Rightarrow> rpc_env \<Rightarrow> runtime \<Rightarrow> string \<Rightarrow> jsmntok list \<Rightarrow> nat \<Rightarrow> state \<Rightarrow> string \<Rightarrow> response option" where
  \<comment> \<open>\<open>cmd->dispatch\<close>\<close>
  "dispatch help_command env rt buffer toks params s response = Some (None, json_help response, False, s)"
| "dispatch getinfo_command env rt buffer toks params s response =
     do { r \<leftarrow> json_getinfo s response; Some (None, r, False, s) }"
| "dispatch sendrawtransaction_command env rt buffer toks params s response =
     json_sendrawtransaction env rt buffer toks params s response"
| "dispatch stop_command env rt buffer toks params s response =
     Some (None, json_add_string response None ''Shutting down'', True, s)"
| "dispatch listtransactions_command env rt buffer toks params s response =
     do { (e, r) \<leftarrow> json_list_transactions env rt buffer toks params s response; Some (e, r, False, s) }"
| "dispatch echo_command env rt buffer toks params s response =
     do { r \<leftarrow> json_echo buffer toks params response; Some (None, r, False, s) }"
| "dispatch listtodo_command env rt buffer toks params s response =
     do { r \<leftarrow> json_listtodo env s response; Some (None, r, False, s) }"

end
