(* ===== verification/Rpc_texts.thy ===== *)
theory Rpc_texts
  imports Rpc_commands
begin

text \<open>
  What the commands write: every command that succeeds adds one value to the response, and the value of
  \<open>getinfo\<close> is given exactly. \<open>grown\<close> says that some values were added; the rules for it follow the
  builders of \<open>Json_build\<close>.
\<close>

subsection \<open>Rules\<close>

definition grown :: "string \<Rightarrow> string \<Rightarrow> bool" where
  "grown s t \<longleftrightarrow> (\<exists>vs. adds s t vs)"

definition one_value :: "string \<Rightarrow> string \<Rightarrow> bool" where
  "one_value s t \<longleftrightarrow> (\<exists>v. adds s t [v])"

lemma grownI: "adds s t vs \<Longrightarrow> grown s t"
  by (auto simp: grown_def)

lemma grown_refl [simp]: "grown s s"
  by (rule grownI[OF adds_none])

lemma grown_trans: "grown s t \<Longrightarrow> grown t r \<Longrightarrow> grown s r"
  by (auto simp: grown_def intro: adds_trans)

lemma one_more: "one_value s t \<Longrightarrow> grown s t"
  by (auto simp: one_value_def intro: grownI)

lemma plain_name [simp]: "list_all plain n \<Longrightarrow> name_ok (Some n)"
  by (simp add: name_ok_def plain_body)

lemma no_name [simp]: "name_ok None"
  by (simp add: name_ok_def)

lemma ofold_adds:
  assumes "\<And>x r r'. x \<in> set xs \<Longrightarrow> f x r = Some r' \<Longrightarrow> adds r r' (g x)" "ofold f xs s = Some t"
  shows "adds s t (concat (map g xs))"
  using assms
proof (induction xs arbitrary: s)
  case (Cons x xs)
  then obtain r where "f x s = Some r" "ofold f xs r = Some t" by (auto elim: bind_SomeE)
  then show ?case using Cons.prems(1)[of x] Cons.IH[of r] Cons.prems(1) adds_trans[of s r "g x" t] by simp
qed (simp add: adds_none)

lemma ofold_more:
  assumes "\<And>x r r'. f x r = Some r' \<Longrightarrow> grown r r'" "ofold f xs s = Some t"
  shows "grown s t"
  by (rule ofold_keeps[where I = "grown s", OF _ grown_refl assms(2)]) (blast intro: assms(1) grown_trans)

lemma num_more: "name_ok f \<Longrightarrow> grown s (json_add_num s f v)"
  by (rule grownI[OF num_adds])

lemma string_more: "string_body v \<Longrightarrow> name_ok f \<Longrightarrow> grown s (json_add_string s f v)"
  by (rule grownI[OF string_adds])

lemma hex_more: "json_add_hex s f bs = Some t \<Longrightarrow> name_ok f \<Longrightarrow> grown s t"
  using hex_adds by (blast intro: grownI)

lemma sha_more: "json_add_double_sha s f bs = Some t \<Longrightarrow> name_ok f \<Longrightarrow> grown s t"
  unfolding json_add_double_sha_def by (rule hex_more)

lemma pubkey_more: "json_add_pubkey s f bs = Some t \<Longrightarrow> name_ok f \<Longrightarrow> grown s t"
  unfolding json_add_pubkey_def by (rule hex_more)

lemma signature_more: "json_add_signature s f bs = Some t \<Longrightarrow> name_ok f \<Longrightarrow> grown s t"
  unfolding json_add_signature_def by (auto elim!: bind_SomeE intro: hex_more)

lemma object_one: "grown (json_object_start s None) t \<Longrightarrow> one_value s (json_object_end t)"
  using object_adds[of s None t] by (auto simp: grown_def one_value_def named_def name_ok_def)

lemma object_more: "grown (json_object_start s f) t \<Longrightarrow> name_ok f \<Longrightarrow> grown s (json_object_end t)"
  using object_adds[of s f t] by (auto simp: grown_def)

lemma array_one: "grown (json_array_start s None) t \<Longrightarrow> one_value s (json_array_end t)"
  using array_adds[of s None t] by (auto simp: grown_def one_value_def named_def name_ok_def)

lemma array_more: "grown (json_array_start s f) t \<Longrightarrow> name_ok f \<Longrightarrow> grown s (json_array_end t)"
  using array_adds[of s f t] by (auto simp: grown_def)

text \<open>Addresses are plain text.\<close>

lemma encode_char_plain: "encode_char n = Some c \<Longrightarrow> plain c"
proof -
  have "list_all plain enc58" by (simp add: enc58_def plain_def)
  then show "encode_char n = Some c \<Longrightarrow> plain c" by (auto simp: encode_char_def list_all_length split: if_split_asm)
qed

lemma encode_digits_plain:
  "encode_digits ssl room bn str = Some (Some (r, str')) \<Longrightarrow> list_all plain str \<Longrightarrow> list_all plain str'"
proof (induction ssl room bn str rule: encode_digits.induct)
  case (1 ssl room bn str)
  show ?case
  proof (cases "bn = 0")
    case True
    then show ?thesis using 1(2,3) by (subst (asm) encode_digits.simps) simp
  next
    case False
    obtain a b room' c where d: "BN_div_word ssl bn 58 = Some (a, b)" "room = Suc room'" "encode_char b = Some c"
        "encode_digits ssl room' a (c # str) = Some (Some (r, str'))"
      using 1(2) False by (subst (asm) encode_digits.simps) (auto split: nat.split_asm elim!: bind_SomeE)
    have "list_all plain (c # str)" using 1(3) encode_char_plain[OF d(3)] by simp
    then show ?thesis using 1(1)[OF False d(1) refl d(2) d(3) d(4)] by simp
  qed
qed

lemma encode_zeroes_plain:
  "encode_zeroes room data str = Some (Some str') \<Longrightarrow> list_all plain str \<Longrightarrow> list_all plain str'"
  by (induction room data str rule: encode_zeroes.induct)
    (auto split: if_split_asm nat.split_asm elim!: bind_SomeE dest: encode_char_plain)

lemma encode_base58_plain:
  assumes "encode_base58 ssl buflen data = Some (Some str)"
  shows "list_all plain str"
proof -
  obtain bn r where r: "encode_digits ssl (buflen - 1) bn [] = Some r"
      "(case r of None \<Rightarrow> Some None | Some (room, str) \<Rightarrow> encode_zeroes room data str) = Some (Some str)"
    using assms by (auto simp: encode_base58_def elim!: bind_SomeE split: if_split_asm)
  then obtain room str0 where "r = Some (room, str0)" "encode_zeroes room data str0 = Some (Some str)"
    by (cases r) auto
  then show ?thesis using r(1) encode_digits_plain[of ssl _ bn "[]"] encode_zeroes_plain by auto
qed

lemma address_plain: "pettycoin_to_base58 ssl test_net addr False = Some str \<Longrightarrow> list_all plain str"
  by (auto simp: pettycoin_to_base58_def Let_def elim!: bind_SomeE dest: encode_base58_plain)

lemma address_more: "json_add_address ssl s f test_net addr = Some t \<Longrightarrow> name_ok f \<Longrightarrow> grown s t"
  by (auto simp: json_add_address_def elim!: bind_SomeE intro: string_more plain_body address_plain)


text \<open>
  Chaining: from the last builder back to the first. A result that a builder returned is followed to
  what that builder was given.
\<close>

lemma num_step: "grown s t \<Longrightarrow> name_ok f \<Longrightarrow> grown s (json_add_num t f v)"
  using num_more grown_trans by blast

lemma string_step: "grown s t \<Longrightarrow> string_body v \<Longrightarrow> name_ok f \<Longrightarrow> grown s (json_add_string t f v)"
  using string_more grown_trans by blast

lemma object_step: "grown (json_object_start r f) t \<Longrightarrow> grown s r \<Longrightarrow> name_ok f \<Longrightarrow> grown s (json_object_end t)"
  using object_more grown_trans by blast

lemma array_step: "grown (json_array_start r f) t \<Longrightarrow> grown s r \<Longrightarrow> name_ok f \<Longrightarrow> grown s (json_array_end t)"
  using array_more grown_trans by blast

lemma sha_step: "json_add_double_sha t f bs = Some r \<Longrightarrow> grown s t \<Longrightarrow> name_ok f \<Longrightarrow> grown s r"
  using sha_more grown_trans by blast

lemma pubkey_step: "json_add_pubkey t f bs = Some r \<Longrightarrow> grown s t \<Longrightarrow> name_ok f \<Longrightarrow> grown s r"
  using pubkey_more grown_trans by blast

lemma signature_step: "json_add_signature t f bs = Some r \<Longrightarrow> grown s t \<Longrightarrow> name_ok f \<Longrightarrow> grown s r"
  using signature_more grown_trans by blast

lemma address_step: "json_add_address ssl t f test_net addr = Some r \<Longrightarrow> grown s t \<Longrightarrow> name_ok f \<Longrightarrow> grown s r"
  using address_more grown_trans by blast

lemma plain_text [simp]: "list_all plain n \<Longrightarrow> string_body n"
  by (rule plain_body)

lemma if_step: "grown s a \<Longrightarrow> grown s b \<Longrightarrow> grown s (if c then a else b)"
  by simp

lemmas fun_steps = grown_refl if_step num_step string_step object_step array_step
lemmas opt_steps = sha_step pubkey_step signature_step address_step

lemma add_input_step: "json_add_input t f inp = Some r \<Longrightarrow> grown s t \<Longrightarrow> name_ok f \<Longrightarrow> grown s r"
  by (clarsimp simp: json_add_input_def elim!: bind_SomeE)
    ((rule fun_steps | erule opt_steps | assumption | simp add: plain_def; fail)+)

lemma ofold_step:
  "ofold f xs t = Some r \<Longrightarrow> (\<And>x r r'. f x r = Some r' \<Longrightarrow> grown r r') \<Longrightarrow> grown s t \<Longrightarrow> grown s r"
  using ofold_more grown_trans by blast

lemma add_inputs_step: "json_add_inputs t tx = Some r \<Longrightarrow> grown s t \<Longrightarrow> grown s r"
  by (clarsimp simp: json_add_inputs_def elim!: bind_SomeE)
    ((rule fun_steps | erule ofold_step bind_SomeE add_input_step | assumption | simp add: plain_def; fail)+)

lemma add_output_step: "json_add_output ssl test_net out t = Some r \<Longrightarrow> grown s t \<Longrightarrow> grown s r"
  by (clarsimp simp: json_add_output_def Let_def elim!: bind_SomeE)
    ((rule fun_steps | erule opt_steps | assumption | simp add: plain_def; fail)+)

lemma add_outputs_step: "json_add_outputs ssl t st tx = Some r \<Longrightarrow> grown s t \<Longrightarrow> grown s r"
  by (clarsimp simp: json_add_outputs_def elim!: bind_SomeE)
    ((rule fun_steps | erule ofold_step bind_SomeE add_output_step | assumption | simp add: plain_def; fail)+)

lemma append_type_step: "json_append_type ssl st tx t = Some r \<Longrightarrow> grown s t \<Longrightarrow> grown s r"
  by (cases tx; clarsimp elim!: bind_SomeE;
      (rule fun_steps | erule opt_steps add_inputs_step add_outputs_step add_input_step | assumption | simp add: plain_def; fail)+)

lemma append_tx_step: "json_append_tx ssl t st tx block n = Some r \<Longrightarrow> grown s t \<Longrightarrow> grown s r"
  by (cases block; clarsimp simp: json_append_tx_def Let_def elim!: bind_SomeE;
      (rule fun_steps | erule append_type_step opt_steps | assumption | simp add: plain_def; fail)+)

subsection \<open>The commands\<close>

definition mild :: "char \<Rightarrow> bool" where
  \<comment> \<open>a character that an error message may contain\<close>
  "mild c \<longleftrightarrow> c \<noteq> CHR 0x00 \<and> c \<noteq> CHR 0x5C"

definition env_ok :: "rpc_env \<Rightarrow> bool" where
  \<comment> \<open>new strings are empty and the names are plain\<close>
  "env_ok env \<longleftrightarrow> (\<forall>n. re_junk env n = [])
     \<and> list_all (\<lambda>(e, n). list_all plain n) (re_ecode_names env) \<and> list_all (\<lambda>(e, n). list_all plain n) (re_pkt_names env)"

lemma plain_mild: "list_all plain s \<Longrightarrow> list_all mild s"
  by (auto simp: list_all_iff plain_def mild_def)

lemma ecode_name_plain: "env_ok env \<Longrightarrow> ecode_name env e = Some n \<Longrightarrow> list_all plain n"
  by (auto simp: env_ok_def ecode_name_def list_all_iff dest!: map_of_SomeD)

lemma pkt_name_plain: "env_ok env \<Longrightarrow> pkt_name env e = Some n \<Longrightarrow> list_all plain n"
  by (auto simp: env_ok_def pkt_name_def list_all_iff dest!: map_of_SomeD)

lemma add_bits_step: "add_bits bits t = Some r \<Longrightarrow> grown s t \<Longrightarrow> grown s r"
  by (clarsimp simp: add_bits_def)
    ((rule fun_steps | erule ofold_step bind_SomeE | assumption | simp split: if_split_asm; fail | clarsimp split: if_split_asm)+)

lemma add_todo_step:
  assumes "env_ok env" "json_add_todo env todo t = Some r" "grown s t"
  shows "grown s r"
  using assms(2,3) pkt_name_plain[OF assms(1)]
  by (clarsimp simp: json_add_todo_def Let_def elim!: bind_SomeE split: prod.split_asm)
    ((rule fun_steps | erule add_bits_step opt_steps | assumption | simp add: plain_def; fail | simp; fail)+)

lemma listtodo_one: "env_ok env \<Longrightarrow> json_listtodo env s t = Some r \<Longrightarrow> one_value t r"
  by (clarsimp simp: json_listtodo_def elim!: bind_SomeE)
    (rule array_one, erule ofold_step, erule (1) add_todo_step, (rule grown_refl)+)

lemma help_one: "one_value t (json_help t)"
  unfolding json_help_def
  by (rule array_one)
    (simp add: cmdlist_def json_add_object_def, ((rule fun_steps | simp add: plain_def; fail)+))

lemma string_one: "string_body v \<Longrightarrow> one_value t (json_add_string t None v)"
  using string_adds[of v None t] by (auto simp: one_value_def named_def)

text \<open>The transactions of an address.\<close>

definition texts_ok :: "string list \<Rightarrow> bool" where
  "texts_ok txs \<longleftrightarrow> list_all (grown []) txs"

lemma add_block_tx_ok:
  assumes "env_ok env" "add_block_tx env rt s address b depth shard txoff txs = Some txs'" "texts_ok txs"
  shows "texts_ok txs'"
proof -
  have "grown [] str" if "json_append_tx ssl (re_junk env n) s tx block c = Some str" for ssl n tx block c str
    using append_tx_step[OF that] assms(1) by (simp add: env_ok_def grown_refl)
  then show ?thesis using assms(2,3)
    by (auto simp: add_block_tx_def texts_ok_def elim!: bind_SomeE split: option.split_asm if_split_asm)
qed

lemma add_block_txs_ok:
  assumes "env_ok env" "add_block_txs env rt s address b depth txs = Some txs'" "texts_ok txs"
  shows "texts_ok txs'"
  using assms(2) unfolding add_block_txs_def
  by (rule ofold_keeps[where I = texts_ok, rotated 2])
    (use assms in \<open>auto elim!: bind_SomeE intro: ofold_keeps[where I = texts_ok, rotated 2] add_block_tx_ok\<close>)

lemma existing_txs_ok:
  assumes "existing_txs env rt s address b depth txs = Some txs'"
  shows "env_ok env \<longrightarrow> texts_ok txs \<longrightarrow> texts_ok txs'"
  using assms
proof (rule existing_txs.raw_induct[where P = "\<lambda>env rt s address b depth txs txs'. env_ok env \<longrightarrow> texts_ok txs \<longrightarrow> texts_ok txs'", rotated])
  fix rec env rt s address b depth txs txs'
  assume ih: "\<And>env rt s address b depth txs txs'. rec env rt s address b depth txs = Some txs' \<Longrightarrow> env_ok env \<longrightarrow> texts_ok txs \<longrightarrow> texts_ok txs'"
    and step: "(case b of None \<Rightarrow> Some txs
      | Some a \<Rightarrow> do {
          block \<leftarrow> st_heap s a;
          if past_horizon rt s block then Some txs
          else do {
            txs1 \<leftarrow> add_block_txs env rt s address block depth txs;
            rec env rt s address (b_prev block) (depth + 1) txs1 } }) = Some txs'"
  show "env_ok env \<longrightarrow> texts_ok txs \<longrightarrow> texts_ok txs'"
    using step by (auto elim!: bind_SomeE split: option.split_asm if_split_asm dest!: ih dest: add_block_txs_ok)
qed

lemma gap_start: "gap (json_object_start r f)" "gap (json_array_start r f)"
  by (simp_all add: gap_def json_object_start_def json_array_start_def start_container_def Let_def prim_char_def prim_end_def)

lemma grown_append: "grown [] t \<Longrightarrow> gap s \<Longrightarrow> grown s (s @ t)"
  by (auto simp: grown_def adds_def)

lemma add_existing_step:
  assumes "env_ok env" "add_existing_txs env rt s address t = Some r" "grown u t"
  shows "grown u r"
proof -
  obtain txs where txs: "existing_txs env rt s address (Some (st_preferred_chain s)) 1 [] = Some txs"
      "r = foldl (\<lambda>r text. json_object_end (json_object_start r None @ text)) t (rev txs)"
    using assms(2) by (auto simp: add_existing_txs_def elim!: bind_SomeE)
  have "texts_ok (rev txs)" using existing_txs_ok[OF txs(1)] assms(1) by (simp add: texts_ok_def)
  then show ?thesis unfolding txs(2) using assms(3)
  proof (induction "rev txs" arbitrary: t txs)
    case (Cons x xs)
    have "grown u (json_object_end (json_object_start t None @ x))"
      using Cons.hyps(2) Cons.prems grown_append gap_start
      by (intro object_step) (auto simp: texts_ok_def Cons.hyps(2)[symmetric])
    then show ?case using Cons.hyps(1)[of "rev xs"] Cons.prems Cons.hyps(2)[symmetric] by (simp add: texts_ok_def)
  qed simp
qed

lemma add_pending_entry_step: "add_pending_entry rt s address tx t = Some r \<Longrightarrow> grown u t \<Longrightarrow> grown u r"
  by (clarsimp simp: add_pending_entry_def elim!: bind_SomeE split: if_split_asm)
    ((rule fun_steps | erule append_tx_step | assumption | simp; fail)+)

lemma add_pending_step: "add_pending_txs rt s address t = Some r \<Longrightarrow> grown u t \<Longrightarrow> grown u r"
  unfolding add_pending_txs_def Let_def
  by (erule bind_SomeE, erule bind_SomeE)
    ((rule grown_refl | erule ofold_step bind_SomeE add_pending_entry_step | assumption)+)

lemma list_transactions_ok:
  assumes "env_ok env" "json_list_transactions env rt buffer toks params s t = Some (None, r)"
  shows "one_value t r"
proof -
  obtain address r0 r1 where r: "add_existing_txs env rt s address (json_array_start t None) = Some r0" "r = json_array_end r1"
      "r1 = r0 \<or> add_pending_txs rt s address r0 = Some r1"
    using assms(2) by (auto simp: json_list_transactions_def elim!: bind_SomeE split: option.split_asm if_split_asm sum.split_asm prod.split_asm)
  have "grown (json_array_start t None) r0" using add_existing_step[OF assms(1) r(1)] grown_refl by blast
  then show ?thesis unfolding r(2) using r(3) by (intro array_one) (auto intro: add_pending_step)
qed

lemma report_step: "report_unknown_input tx bad t s = Some (r, s') \<Longrightarrow> grown u t \<Longrightarrow> grown u r"
  by (clarsimp simp: report_unknown_input_def Let_def elim!: bind_SomeE)
    ((rule fun_steps | erule opt_steps | assumption | simp add: plain_def; fail)+)

lemma submit_tx_ok:
  assumes "submit_tx env rt s tx t = Some (None, r, stop, s')"
  shows "one_value t r"
proof -
  obtain sha r0 r1 where r: "json_add_double_sha (json_object_start t None) (Some ''tx'') sha = Some r0" "r = json_object_end r1"
      "r1 = r0 \<or> (\<exists>bad s1 s2. report_unknown_input tx bad r0 s1 = Some (r1, s2))"
    using assms by (auto simp: submit_tx_def Let_def elim!: bind_SomeE split: if_split_asm prod.split_asm) blast+
  have "grown (json_object_start t None) r0" by (rule sha_step[OF r(1) grown_refl]) (simp add: plain_def)
  then show ?thesis using r(3) unfolding r(2) by (intro object_one) (auto intro: report_step)
qed

lemma sendrawtransaction_ok:
  assumes "json_sendrawtransaction env rt buffer toks params s t = Some (None, r, stop, s')"
  shows "one_value t r"
  using assms by (auto simp: json_sendrawtransaction_def elim!: bind_SomeE split: option.split_asm if_split_asm prod.split_asm) (erule submit_tx_ok)

text \<open>The error messages.\<close>

lemma dec_plain_text: "list_all plain (dec n)"
proof -
  have "plain c" if c: "c \<in> set (dec n)" for c
  proof -
    obtain d where d: "d < 10" "c = char_of (48 + d :: nat)" using c dec_digits[of n] by (auto simp: list_all_iff)
    moreover have "\<forall>d \<in> set [0..<10]. plain (char_of (48 + d :: nat))" by code_simp
    ultimately show ?thesis by simp
  qed
  then show ?thesis by (simp add: list_all_iff)
qed

lemma input_error_mild: "list_all mild (input_error bad old e)"
  using plain_mild[OF dec_plain_text] by (simp add: input_error_def mild_def split: input_ecode.split)

lemma sendrawtransaction_error:
  assumes "env_ok env" "json_sendrawtransaction env rt buffer toks params s t = Some (Some e, r, stop, s')"
  shows "list_all mild e"
proof -
  have "list_all mild n" if "ecode_name env c = Some n" for c n using ecode_name_plain[OF assms(1) that] by (rule plain_mild)
  moreover have "list_all mild e" if "submit_tx env rt s tx t = Some (Some e, r, stop, s')" for tx
    using that input_error_mild by (auto simp: submit_tx_def Let_def elim!: bind_SomeE split: if_split_asm prod.split_asm)
  ultimately show ?thesis using assms(2)
    by (auto simp: json_sendrawtransaction_def mild_def elim!: bind_SomeE split: option.split_asm if_split_asm prod.split_asm)
qed

subsection \<open>getinfo, exactly\<close>

definition hex_value :: "bytes \<Rightarrow> json" where
  "hex_value bs = JStr (case to_hex bs of None \<Rightarrow> [] | Some h \<Rightarrow> h)"

definition block_value :: "block \<Rightarrow> json" where
  "block_value b = JCont JSMN_OBJECT [JStr ''sha'', hex_value (b_sha b), JStr ''depth'', JPrim (dec (unat (bh_depth (b_hdr b))))]"

definition getinfo_value :: "state \<Rightarrow> json" where
  \<comment> \<open>what \<open>getinfo\<close> tells of a state\<close>
  "getinfo_value s =
     (let tip = \<lambda>a. block_value (the (st_heap s a)) in
      JCont JSMN_OBJECT
        ((if st_test_net s then [JStr ''test_net'', JPrim ''true''] else [])
         @ [JStr ''longest'', JCont JSMN_ARRAY (map tip (st_longest_chains s)),
            JStr ''longest_knowns'', JCont JSMN_ARRAY (map tip (st_longest_knowns s)),
            JStr ''preferred_chain'', tip (st_preferred_chain s),
            JStr ''num_todos'', JPrim (dec (unat (word_of_nat (length (st_todo s)) :: u32))),
            JStr ''num_pending'', JPrim (dec (unat (word_of_nat (num_pending_known s) + pb_num_unknown (st_pending s))))]))"

lemma sha_adds: "json_add_double_sha s f bs = Some t \<Longrightarrow> name_ok f \<Longrightarrow> adds s t (named f [hex_value bs])"
  using hex_adds by (fastforce simp: json_add_double_sha_def hex_value_def)

lemma block_adds:
  assumes "json_add_block s f b = Some t" "name_ok f"
  shows "adds s t (named f [block_value b])"
proof -
  obtain r where r: "json_add_double_sha (json_object_start s f) (Some ''sha'') (b_sha b) = Some r"
      "t = json_object_end (json_add_num r (Some ''depth'') (bh_depth (b_hdr b)))"
    using assms(1) by (auto simp: json_add_block_def Let_def elim!: bind_SomeE)
  have n: "name_ok (Some ''sha'')" "name_ok (Some ''depth'')" by (simp_all add: plain_def)
  show ?thesis unfolding r(2)
    using object_adds[OF adds_trans[OF sha_adds[OF r(1) n(1)] num_adds[OF n(2)]] assms(2)] by (simp add: named_def block_value_def)
qed

lemma blocks_adds:
  assumes "json_add_blocks s bs t = Some r"
  shows "adds t r (map (\<lambda>a. block_value (the (st_heap s a))) bs)"
proof -
  have "adds t r (concat (map (\<lambda>a. [block_value (the (st_heap s a))]) bs))"
    by (rule ofold_adds[OF _ assms[unfolded json_add_blocks_def]])
      (auto elim!: bind_SomeE dest!: block_adds[OF _ no_name] simp: named_def)
  then show ?thesis by simp
qed

lemma getinfo_adds:
  assumes "json_getinfo s t = Some r"
  shows "adds t r [getinfo_value s]"
proof -
  let ?o = "json_object_start t None" and ?tip = "\<lambda>a. block_value (the (st_heap s a))"
  let ?o1 = "if st_test_net s then json_add_bool ?o (Some ''test_net'') True else ?o"
  let ?todos = "word_of_nat (length (st_todo s)) :: u32" and ?pending = "word_of_nat (num_pending_known s) + pb_num_unknown (st_pending s)"
  obtain r2 r3 r4 pref where st: "json_add_blocks s (st_longest_chains s) (json_array_start ?o1 (Some ''longest'')) = Some r2"
      "json_add_blocks s (st_longest_knowns s) (json_array_start (json_array_end r2) (Some ''longest_knowns'')) = Some r3"
      "st_heap s (st_preferred_chain s) = Some pref" "json_add_block (json_array_end r3) (Some ''preferred_chain'') pref = Some r4"
      "r = json_object_end (json_add_num (json_add_num r4 (Some ''num_todos'') ?todos) (Some ''num_pending'') ?pending)"
    using assms unfolding json_getinfo_def Let_def by (elim bind_SomeE) simp
  have n: "name_ok (Some ''test_net'')" "name_ok (Some ''longest'')" "name_ok (Some ''longest_knowns'')" "name_ok (Some ''preferred_chain'')"
      "name_ok (Some ''num_todos'')" "name_ok (Some ''num_pending'')" by (simp_all add: plain_def)
  have 1: "adds ?o ?o1 (if st_test_net s then [JStr ''test_net'', JPrim ''true''] else [])"
    using bool_adds[OF n(1), of ?o True] adds_none by (simp add: named_def)
  note 2 = array_adds[OF blocks_adds[OF st(1)] n(2)] and 3 = array_adds[OF blocks_adds[OF st(2)] n(3)] and 4 = block_adds[OF st(4) n(4)]
  note all = adds_trans[OF 1 adds_trans[OF 2 adds_trans[OF 3 adds_trans[OF 4 adds_trans[OF num_adds[OF n(5)] num_adds[OF n(6)]]]]]]
  show ?thesis unfolding st(5) using object_adds[OF all no_name] st(3) by (simp add: named_def getinfo_value_def Let_def)
qed

lemma getinfo_one: "json_getinfo s t = Some r \<Longrightarrow> one_value t r"
  using getinfo_adds by (auto simp: one_value_def)

end
