(* ===== verification/Jsonrpc.thy ===== *)
theory Jsonrpc
  imports Rpc_texts
begin

text \<open>
  \<open>jsonrpc.c\<close>: a request is taken from the buffer of a connection, answered, and the answer queued for
  the other half of the connection. Reading and writing are plans of \<open>ccan/io\<close>: the functions return
  what is to be waited for next. It is proved that what is sent for a request is the text of one object
  that carries the identifier of the request.
\<close>

subsection \<open>Answering a request\<close>

fun find_in_cmds :: "string \<Rightarrow> jsmntok \<Rightarrow> json_command list \<Rightarrow> json_command option option" where
  "find_in_cmds buffer tok [] = Some None"
| "find_in_cmds buffer tok (c # cs) =
     do { eq \<leftarrow> json_tok_streq buffer tok (cmd_name c);
          if eq then Some (Some c) else find_in_cmds buffer tok cs }"

definition find_cmd :: "string \<Rightarrow> jsmntok \<Rightarrow> json_command option option" where
  "find_cmd buffer tok = find_in_cmds buffer tok cmdlist"

abbreviation quoted :: "string \<Rightarrow> string" where
  "quoted s \<equiv> [CHR 0x22] @ s @ [CHR 0x22]"

definition reply_text :: "string \<Rightarrow> string \<Rightarrow> string \<Rightarrow> string" where
  \<comment> \<open>the three formats of \<open>parse_request\<close>\<close>
  "reply_text result error ident =
     ''{ '' @ quoted ''result'' @ '' : '' @ result @ '', '' @ quoted ''error'' @ '' : '' @ error
       @ '', '' @ quoted ''id'' @ '' : '' @ ident @ '' }'' @ [CHR 0x0A]"

definition unquote :: "string \<Rightarrow> string" where
  \<comment> \<open>the loop with \<^verbatim>\<open>strchr\<close>\<close>
  "unquote error = map (\<lambda>c. if c = CHR 0x22 then CHR 0x27 else c) error"

definition run_request ::
    "rpc_env \<Rightarrow> runtime \<Rightarrow> string \<Rightarrow> jsmntok list \<Rightarrow> jsmntok \<Rightarrow> nat \<Rightarrow> jsmntok \<Rightarrow> state \<Rightarrow> (string option \<times> bool \<times> state) option" where
  \<comment> \<open>\<open>parse_request\<close> from the call of \<open>find_cmd\<close> on\<close>
  "run_request env rt buffer toks method params ident s =
     do { cmd \<leftarrow> find_cmd buffer method;
          (case cmd of
             None \<Rightarrow> do {
               c_assert (0 \<le> t_start method);
               id_text \<leftarrow> tok_text buffer ident;
               let name = c_precision (t_end method - t_start method) (drop (nat (t_start method)) buffer);
               Some (Some (reply_text ''null'' (quoted (''Unknown command '' @ [CHR 0x27] @ name @ [CHR 0x27])) id_text), False, s) }
           | Some c \<Rightarrow> do {
               p \<leftarrow> c_nth toks params;
               if t_type p \<noteq> JSMN_ARRAY \<and> t_type p \<noteq> JSMN_OBJECT then Some (None, False, s)
               else do {
                 (error, result, stop, s1) \<leftarrow> dispatch c env rt buffer toks params s (re_junk env 0);
                 id_text \<leftarrow> tok_text buffer ident;
                 Some (Some (case error of
                     None \<Rightarrow> reply_text result ''null'' id_text
                   | Some e \<Rightarrow> reply_text ''null'' (quoted (unquote e)) id_text), stop, s1) } }) }"

definition parse_request ::
    "rpc_env \<Rightarrow> runtime \<Rightarrow> string \<Rightarrow> jsmntok list \<Rightarrow> state \<Rightarrow> (string option \<times> bool \<times> state) option" where
  \<comment> \<open>the reply, \<open>None\<close> for NULL, whether the command was \<open>stop\<close>, and the new state\<close>
  "parse_request env rt buffer toks s =
     do { t0 \<leftarrow> c_nth toks 0;
          if t_type t0 \<noteq> JSMN_OBJECT then Some (None, False, s)
          else do {
            method \<leftarrow> json_get_member buffer toks 0 ''method'';
            params \<leftarrow> json_get_member buffer toks 0 ''params'';
            ident \<leftarrow> json_get_member buffer toks 0 ''id'';
            (case (ident, method, params) of
               (Some i, Some m, Some p) \<Rightarrow> do {
                 idt \<leftarrow> c_nth toks i;
                 if t_type idt \<noteq> JSMN_STRING \<and> t_type idt \<noteq> JSMN_PRIMITIVE then Some (None, False, s)
                 else do {
                   mt \<leftarrow> c_nth toks m;
                   if t_type mt \<noteq> JSMN_STRING then Some (None, False, s)
                   else run_request env rt buffer toks mt p idt s } }
             | _ \<Rightarrow> Some (None, False, s)) } }"

subsection \<open>The connection\<close>

record json_connection =
  jc_buffer :: string
  jc_used :: nat
  jc_len_read :: nat
  jc_num_conns :: nat
  jc_stop :: bool
  jc_output :: "string list"

datatype rpc_plan =
    Rpc_close
  | Rpc_read nat nat \<comment> \<open>\<open>io_read_partial\<close>: where in the buffer, and the length\<close>
  | Rpc_wait_writer
  | Rpc_wait_reader
  | Rpc_write string
  | Rpc_break

definition init_rpc :: "rpc_env \<Rightarrow> json_connection \<times> rpc_plan" where
  \<comment> \<open>the plan of the reader; the writer waits\<close>
  "init_rpc env = (\<lparr>jc_buffer = re_fresh env 64, jc_used = 0, jc_len_read = 64, jc_num_conns = 2, jc_stop = False, jc_output = []\<rparr>,
     Rpc_read 0 64)"

definition free_jcon :: "json_connection \<Rightarrow> json_connection option" where
  \<comment> \<open>\<open>None\<close> when the connection is freed\<close>
  "free_jcon jc = (if jc_num_conns jc = 1 then None else Some (jc\<lparr>jc_num_conns := jc_num_conns jc - 1\<rparr>))"

definition read_more_rpc :: "json_connection \<Rightarrow> json_connection \<times> rpc_plan" where
  "read_more_rpc jc =
     (let len = length (jc_buffer jc) - jc_used jc in (jc\<lparr>jc_len_read := len\<rparr>, Rpc_read (jc_used jc) len))"

definition make_room :: "rpc_env \<Rightarrow> json_connection \<Rightarrow> json_connection" where
  \<comment> \<open>what was read is added, and a full buffer is made twice as large\<close>
  "make_room env jc =
     (let used = jc_used jc + jc_len_read jc in
      jc\<lparr>jc_used := used,
         jc_buffer := (if used = length (jc_buffer jc) then jc_buffer jc @ re_fresh env used else jc_buffer jc)\<rparr>)"

definition remove_front :: "nat \<Rightarrow> json_connection \<Rightarrow> json_connection" where
  "remove_front n jc =
     (let keep = length (jc_buffer jc) - n in
      jc\<lparr>jc_buffer := drop n (jc_buffer jc) @ drop keep (jc_buffer jc), jc_used := jc_used jc - n\<rparr>)"

definition read_json ::
    "rpc_env \<Rightarrow> runtime \<Rightarrow> json_connection \<Rightarrow> state \<Rightarrow> (rpc_plan \<times> json_connection \<times> state) option" where
  "read_json env rt jc s =
     (if jc_num_conns jc \<noteq> 2 then Some (Rpc_close, jc, s)
      else do {
        let jc1 = make_room env jc;
        (valid, r) \<leftarrow> json_parse_input (jc_buffer jc1) (jc_used jc1);
        (case r of
           None \<Rightarrow>
             if \<not> valid then Some (Rpc_close, jc1, s)
             else (let (jc2, plan) = read_more_rpc jc1 in Some (plan, jc2, s))
         | Some toks \<Rightarrow>
             if length toks = 1 then
               (let (jc2, plan) = read_more_rpc (jc1\<lparr>jc_used := 0\<rparr>) in Some (plan, jc2, s))
             else do {
               (reply, stop, s1) \<leftarrow> parse_request env rt (jc_buffer jc1) toks s;
               let jc2 = (if stop then jc1\<lparr>jc_stop := True\<rparr> else jc1);
               (case reply of
                  None \<Rightarrow> Some (Rpc_close, jc2, s1)
                | Some json \<Rightarrow> do {
                    t0 \<leftarrow> c_nth toks 0;
                    let jc3 = remove_front (nat (t_end t0)) jc2;
                    Some (Rpc_wait_writer, jc3\<lparr>jc_output := jc_output jc3 @ [json], jc_len_read := 0\<rparr>, s1) }) }) })"

definition write_json :: "json_connection \<Rightarrow> rpc_plan \<times> json_connection" where
  "write_json jc =
     (case jc_output jc of
        out # rest \<Rightarrow> (Rpc_write out, jc\<lparr>jc_output := rest\<rparr>)
      | [] \<Rightarrow>
          if jc_stop jc then (Rpc_break, jc)
          else if jc_num_conns jc \<noteq> 2 then (Rpc_close, jc)
          else (Rpc_wait_reader, jc))"

section \<open>Requests\<close>

text \<open>What the tokens of a request stand for.\<close>

lemma json_seq_no_NUL: "json_seq s vs \<Longrightarrow> CHR 0x00 \<notin> set s"
proof -
  have body: "string_body b \<Longrightarrow> CHR 0x00 \<notin> set b" for b
    by (induction rule: string_body.induct) (auto simp: escape_char_def list_all_iff hex_char_def)
  have br: "\<not> opener ty (CHR 0x00) \<and> \<not> closer ty (CHR 0x00)" for ty by (cases ty) auto
  show "json_seq s vs \<Longrightarrow> CHR 0x00 \<notin> set s"
    by (induction rule: json_seq.induct)
      (use body br prim_char_plain in \<open>auto simp: skipped_def prim_text_def list_all_iff\<close>)
qed

lemma c_precision_part:
  assumes "len = int (e - b)" "e \<le> length js" "CHR 0x00 \<notin> set (part js b e)"
  shows "c_precision len (drop b js) = part js b e"
proof -
  have "\<forall>c \<in> set (part js b e). c \<noteq> CHR 0x00" using assms(3) by auto
  then show ?thesis using assms(1) by (simp add: c_precision_def Jsmn.part_def takeWhile_eq_all_conv)
qed

lemma tok_text_node:
  assumes "value_ok js len n" "len \<le> length js"
  shows "tok_text js (hd (flat n)) = Some (node_text js n)"
proof -
  note no_NUL = json_seq_no_NUL[OF node_text_seq[OF assms]]
  show ?thesis
  proof (cases n)
    case (Leaf ty b e)
    then show ?thesis
    proof (cases "ty = JSMN_STRING")
      case True
      then have "c_precision (int e - int b + 2) (drop (b - 1) js) = part js (b - 1) (e + 1)"
        using assms Leaf no_NUL by (intro c_precision_part) auto
      moreover have "nat (int b - 1) = b - 1" "0 \<le> int b - 1" using assms Leaf True by auto
      ultimately show ?thesis using Leaf True
        by (simp add: tok_text_def json_tok_contents_def json_tok_len_def jsmn_fill_token_def)
    next
      case False
      then have "c_precision (int e - int b) (drop b js) = part js b e"
        using assms Leaf no_NUL by (intro c_precision_part) auto
      then show ?thesis using Leaf False
        by (simp add: tok_text_def json_tok_contents_def json_tok_len_def jsmn_fill_token_def)
    qed
  next
    case (Node ty b e kids)
    then have "c_precision (int e - int b) (drop b js) = part js b e" "ty \<noteq> JSMN_STRING"
      using assms no_NUL by (auto intro!: c_precision_part)
    then show ?thesis using Node by (simp add: tok_text_def json_tok_contents_def json_tok_len_def)
  qed
qed

lemma part_take: "e \<le> len \<Longrightarrow> set (part js b e) \<subseteq> set (take len js)"
proof -
  assume "e \<le> len"
  then have "part js b e = take (e - b) (drop b (take len js))" by (simp add: Jsmn.part_def drop_take min_def)
  then show ?thesis by (metis set_take_subset set_drop_subset subset_trans)
qed

lemma node_text_mild:
  assumes "value_ok js len n" "len \<le> length js" "CHR 0x5C \<notin> set (take len js)"
  shows "list_all mild (node_text js n)"
proof -
  have "\<exists>b e. node_text js n = part js b e \<and> e \<le> len" using assms(1)
    by (cases n; auto split: if_split_asm; blast intro: Suc_leI less_imp_le)
  then have "set (node_text js n) \<subseteq> set (take len js)" using part_take by metis
  then show ?thesis using assms(3) json_seq_no_NUL[OF node_text_seq[OF assms(1,2)]] by (auto simp: list_all_iff mild_def)
qed

lemma child_ok: "child buffer n st = Some c \<Longrightarrow> value_ok js len n \<Longrightarrow> wf_node n \<Longrightarrow> value_ok js len c \<and> wf_node c"
  by (cases "(buffer, n, st)" rule: child.cases)
    (auto split: if_split_asm dest!: find_in unpair_in)

lemma member_at:
  assumes "json_get_member buffer toks t label = Some p" "at toks t n" "wf_node n" "value_ok buffer len n" "len \<le> length buffer"
  shows "case p of None \<Rightarrow> child buffer n (Field label) = None
     | Some j \<Rightarrow> \<exists>m. child buffer n (Field label) = Some m \<and> at toks j m"
proof -
  have "in_text (length buffer) n" using value_ok_in_text[OF assms(4)] assms(5) by (induction n) fastforce+
  moreover have "t_type (hd (flat n)) = JSMN_OBJECT"
    using assms(1) at_c_nth[OF assms(2)] by (auto simp: json_get_member_def elim!: bind_SomeE split: if_split_asm)
  then obtain b e kids where n: "n = Node JSMN_OBJECT b e kids" using assms(3) by (cases n) (auto simp: jsmn_fill_token_def)
  moreover have k: "pairs (unpair kids) = kids" "members (unpair kids)" using assms(3) n by auto
  ultimately have "case find (\<lambda>(k, v). is_name buffer label k) (unpair kids) of
      None \<Rightarrow> json_get_member buffer toks t label = Some None
    | Some (k, v) \<Rightarrow> \<exists>j. json_get_member buffer toks t label = Some (Some j) \<and> at toks j v"
    using json_get_member_at[of toks t b e "unpair kids" buffer label, unfolded k(1)] assms(2) by blast
  then show ?thesis using assms(1) n by (auto split: option.splits prod.splits)
qed

text \<open>Parameters are values of the request.\<close>

definition known_at :: "string \<Rightarrow> nat \<Rightarrow> jsmntok list \<Rightarrow> nat \<Rightarrow> bool" where
  "known_at buffer len toks t \<longleftrightarrow> (\<exists>m. at toks t m \<and> value_ok buffer len m)"

lemma null_same: "null_to_NULL buffer toks p = Some (Some t) \<Longrightarrow> p = Some t"
  by (auto simp: null_to_NULL_def elim!: bind_SomeE split: option.split_asm if_split_asm)

lemma params_arr_known:
  assumes "params_arr buffer toks end p names = Some ps" "Some t \<in> set ps"
    "case p of None \<Rightarrow> True | Some j \<Rightarrow> \<exists>kids. kids \<noteq> [] \<and> ats toks j kids \<and> end = j + length (flats kids) \<and> list_all (value_ok buffer len) kids"
  shows "known_at buffer len toks t"
  using assms
proof (induction names arbitrary: p ps)
  case (Cons name names)
  obtain p1 r rs where step: "(case p of None \<Rightarrow> Some None | Some t \<Rightarrow> do { t1 \<leftarrow> json_next toks t; Some (if t1 = end then None else Some t1) }) = Some p1"
      "null_to_NULL buffer toks p = Some r" "params_arr buffer toks end p1 names = Some rs" "ps = r # rs"
    using Cons.prems(1) by (auto elim!: bind_SomeE)
  have p1: "case p1 of None \<Rightarrow> True | Some j \<Rightarrow> \<exists>kids. kids \<noteq> [] \<and> ats toks j kids \<and> end = j + length (flats kids) \<and> list_all (value_ok buffer len) kids"
  proof (cases p)
    case (Some j)
    then obtain k kids where k: "ats toks j (k # kids)" "end = j + length (flats (k # kids))" "list_all (value_ok buffer len) (k # kids)"
      using Cons.prems(3) by (auto simp: neq_Nil_conv)
    then have next_k: "json_next toks j = Some (j + length (flat k))" using json_next_at by (simp add: ats_Cons)
    show ?thesis
    proof (cases "p1 = None")
      case False
      then have "p1 = Some (j + length (flat k))" "kids \<noteq> []" using step(1) Some next_k k(2) by (auto split: if_split_asm)
      then show ?thesis using k by (auto simp: ats_Cons add.assoc)
    qed simp
  qed (use step(1) in simp)
  show ?case
  proof (cases "r = Some t")
    case True
    then obtain k kids where "ats toks t (k # kids)" "value_ok buffer len k"
      using Cons.prems(3) null_same[of buffer toks p t] step(2) by (auto simp: neq_Nil_conv)
    then show ?thesis by (auto simp: known_at_def ats_Cons)
  next
    case False
    then show ?thesis using Cons.IH[OF step(3) _ p1] Cons.prems(2) step(4) by simp
  qed
qed simp

lemma params_obj_known:
  assumes "params_obj buffer toks p names = Some ps" "Some t \<in> set ps" "at toks p n" "wf_node n" "value_ok buffer len n" "len \<le> length buffer"
  shows "known_at buffer len toks t"
  using assms(1,2)
proof (induction names arbitrary: ps)
  case (Cons name names)
  obtain q r rs where step: "json_get_member buffer toks p name = Some q" "null_to_NULL buffer toks q = Some r"
      "params_obj buffer toks p names = Some rs" "ps = r # rs"
    using Cons.prems(1) by (auto elim!: bind_SomeE)
  show ?case
  proof (cases "r = Some t")
    case True
    then have "json_get_member buffer toks p name = Some (Some t)" using null_same[of buffer toks q t] step by simp
    then show ?thesis using member_at[OF _ assms(3-6)] child_ok assms(4,5) by (fastforce simp: known_at_def)
  next
    case False
    then show ?thesis using Cons step by simp
  qed
qed simp

lemma get_params_known:
  assumes "json_get_params buffer toks p names = Some ps" "Some t \<in> set ps" "at toks p n" "wf_node n" "value_ok buffer len n" "len \<le> length buffer"
  shows "known_at buffer len toks t"
proof (cases "t_type (hd (flat n)) = JSMN_ARRAY")
  case True
  then obtain b e kids where n: "n = Node JSMN_ARRAY b e kids" using assms(4) by (cases n) (auto simp: jsmn_fill_token_def)
  then have "params_arr buffer toks (p + length (flat n)) (if kids = [] then None else Some (p + 1)) names = Some ps"
    using assms(1) at_c_nth[OF assms(3)] json_next_at[OF assms(3)] by (auto simp: json_get_params_def elim!: bind_SomeE)
  then show ?thesis
    by (rule params_arr_known) (use assms at_kids n in \<open>auto simp: list_all_iff\<close>)
next
  case False
  then have "params_obj buffer toks p names = Some ps"
    using assms(1) at_c_nth[OF assms(3)] by (auto simp: json_get_params_def elim!: bind_SomeE split: if_split_asm)
  then show ?thesis by (rule params_obj_known) (use assms in auto)
qed

text \<open>The commands again.\<close>

lemma echo_one:
  assumes "json_echo buffer toks p t = Some r" "at toks p n" "value_ok buffer len n" "len \<le> length buffer"
  shows "one_value t r"
proof -
  let ?tok = "hd (flat n)" and ?r = "json_add_num (json_object_start t None) (Some ''num'') (word_of_nat (t_size (hd (flat n))))"
  have tt: "0 \<le> json_tok_contents ?tok" "c_precision (json_tok_len ?tok) (drop (nat (json_tok_contents ?tok)) buffer) = node_text buffer n"
    using tok_text_node[OF assms(3,4)] by (auto simp: tok_text_def split: if_split_asm)
  have r: "r = json_object_end (json_start_member ?r (Some ''echo'') @ node_text buffer n)"
    using assms(1) at_c_nth[OF assms(2)] tt by (simp add: json_echo_def json_add_literal_def Let_def)
  have "grown ?r (json_start_member ?r (Some ''echo'') @ node_text buffer n)"
    using start_member_adds[OF node_text_seq[OF assms(3,4)], of "Some ''echo''" ?r] by (auto simp: plain_def intro: grownI)
  moreover have "grown (json_object_start t None) ?r" by (rule num_more) (simp add: plain_def)
  ultimately show ?thesis unfolding r using grown_trans by (intro object_one) blast
qed

lemma known_text:
  assumes "known_at buffer len toks t" "len \<le> length buffer" "CHR 0x5C \<notin> set (take len buffer)"
  shows "\<exists>x. tok_text buffer (toks ! t) = Some x \<and> list_all mild x"
proof -
  obtain m where "at toks t m" "value_ok buffer len m" using assms(1) by (auto simp: known_at_def)
  then show ?thesis using tok_text_node node_text_mild assms(2,3) at_nth by metis
qed

lemma list_transactions_error:
  assumes "json_list_transactions env rt buffer toks p s t = Some (Some e, r)"
    "at toks p n" "wf_node n" "value_ok buffer len n" "len \<le> length buffer" "CHR 0x5C \<notin> set (take len buffer)"
  shows "list_all mild e"
proof -
  obtain ps addr minconf where ps: "json_get_params buffer toks p [''address'', ''minconf''] = Some ps"
      "c_nth ps 0 = Some addr" "c_nth ps 1 = Some minconf"
    using assms(1) by (auto simp: json_list_transactions_def elim!: bind_SomeE)
  have "list_all mild x" if "tok_text buffer (toks ! i) = Some x" "ps ! j = Some i" "j < length ps" for i j x
    using known_text[OF get_params_known[OF ps(1) _ assms(2-5), of i] assms(5,6)] that nth_mem[of j ps] by simp
  then have "list_all mild x" if "tok_text buffer (toks ! i) = Some x" "ps ! 0 = Some i \<and> ps \<noteq> [] \<or> ps ! Suc 0 = Some i \<and> Suc 0 < length ps" for i x
    using that by blast
  then show ?thesis using assms(1) ps
    by (auto simp: json_list_transactions_def parse_minconf_def mild_def elim!: bind_SomeE split: option.split_asm if_split_asm sum.split_asm prod.split_asm)
qed

lemma dispatch_ok:
  assumes "dispatch c env rt buffer toks p s t = Some (e, r, stop, s')" "env_ok env"
    "at toks p n" "wf_node n" "value_ok buffer len n" "len \<le> length buffer" "CHR 0x5C \<notin> set (take len buffer)"
  shows "case e of None \<Rightarrow> one_value t r | Some m \<Rightarrow> list_all mild m"
proof (cases c)
  case listtransactions_command
  then have "json_list_transactions env rt buffer toks p s t = Some (e, r)" using assms(1) by (auto elim!: bind_SomeE)
  then show ?thesis using list_transactions_ok[OF assms(2)] list_transactions_error[OF _ assms(3-7)] by (auto split: option.split)
next
  case sendrawtransaction_command
  then show ?thesis using assms(1) sendrawtransaction_ok sendrawtransaction_error[OF assms(2)] by (auto split: option.split)
qed (use assms help_one echo_one[OF _ assms(3,5,6)] listtodo_one[OF assms(2)] getinfo_one string_one[of "''Shutting down''" t]
    in \<open>auto elim!: bind_SomeE simp: plain_def\<close>)

text \<open>The reply.\<close>

lemma json_seq_then: "json_seq s [v] \<Longrightarrow> json_seq t vs \<Longrightarrow> t = [] \<or> prim_end (hd t) \<Longrightarrow> json_seq (s @ t) (v # vs)"
  using json_seq_append[of s "[v]" t vs] by simp

lemma reply_seq:
  assumes "json_seq r [v]" "json_seq e [w]" "json_seq i [u]"
  shows "json_seq (reply_text r e i) [JCont JSMN_OBJECT [JStr ''result'', v, JStr ''error'', w, JStr ''id'', u]]"
    "gap (reply_text r e i)"
proof -
  let ?q = "CHR 0x22"
  have sk: "list_all skipped '' ''" "list_all skipped '' : ''" "list_all skipped '', ''" "list_all skipped [CHR 0x0A]" by (simp_all add: skipped_def)
  have name: "json_seq (?q # n @ ?q # '' : '' @ s) (JStr n # vs)" if "json_seq s vs" "list_all plain n" for n s vs
    using s_string[OF plain_body[OF that(2)] json_seq_skips[OF sk(2) that(1)]] by simp
  have sep: "json_seq ('', '' @ s) vs" if "json_seq s vs" for s vs using json_seq_skips[OF sk(3) that] .
  have 1: "json_seq (i @ '' '') [u]" using json_seq_then[OF assms(3) json_seq_skips[OF sk(1) s_nil]] by (simp add: prim_end_def)
  have 2: "json_seq (e @ '', '' @ ?q # ''id'' @ ?q # '' : '' @ i @ '' '') [w, JStr ''id'', u]"
    using json_seq_then[OF assms(2) sep[OF name[OF 1, of "''id''"]]] by (simp add: prim_end_def plain_def)
  have 3: "json_seq (r @ '', '' @ ?q # ''error'' @ ?q # '' : '' @ e @ '', '' @ ?q # ''id'' @ ?q # '' : '' @ i @ '' '') [v, JStr ''error'', w, JStr ''id'', u]"
    using json_seq_then[OF assms(1) sep[OF name[OF 2, of "''error''"]]] by (simp add: prim_end_def plain_def)
  have "json_seq (CHR ''{'' # ('' '' @ ?q # ''result'' @ ?q # '' : '' @ r @ '', '' @ ?q # ''error'' @ ?q # '' : '' @ e @ '', '' @ ?q # ''id'' @ ?q # '' : '' @ i @ '' '')
      @ CHR ''}'' # [CHR 0x0A]) [JCont JSMN_OBJECT [JStr ''result'', v, JStr ''error'', w, JStr ''id'', u]]"
    by (rule s_container[OF _ _ json_seq_skips[OF sk(1) name[OF 3]]])
      (use json_seq_skips[OF sk(4) s_nil] in \<open>simp_all add: plain_def\<close>)
  then show "json_seq (reply_text r e i) [JCont JSMN_OBJECT [JStr ''result'', v, JStr ''error'', w, JStr ''id'', u]]"
    by (simp add: reply_text_def)
  show "gap (reply_text r e i)" by (simp add: gap_def reply_text_def prim_char_def prim_end_def)
qed

lemma one_value_seq: "one_value [] r \<Longrightarrow> \<exists>v. json_seq r [v]"
  by (auto simp: one_value_def adds_def)

lemma null_seq: "json_seq ''null'' [JPrim ''null'']"
proof -
  have "prim_text ''null''" by code_simp
  then show ?thesis by (rule json_seq_one_prim)
qed

lemma unquote_plain: "list_all mild e \<Longrightarrow> list_all plain (unquote e)"
  by (auto simp: unquote_def list_all_iff mild_def plain_def)

lemma quoted_seq: "list_all plain e \<Longrightarrow> json_seq (quoted e) [JStr e]"
  using json_seq_one_string[OF plain_body] by simp

lemma string_body_append: "string_body a \<Longrightarrow> string_body b \<Longrightarrow> string_body (a @ b)"
  by (induction rule: string_body.induct) (auto intro: string_body.intros)

lemma parse_request_parts:
  assumes "parse_request env rt buffer toks s = Some (Some reply, stop, s')"
  obtains m p i where "json_get_member buffer toks 0 ''method'' = Some (Some m)" "json_get_member buffer toks 0 ''params'' = Some (Some p)"
    "json_get_member buffer toks 0 ''id'' = Some (Some i)" "t_type (toks ! m) = JSMN_STRING"
    "run_request env rt buffer toks (toks ! m) p (toks ! i) s = Some (Some reply, stop, s')"
  using assms by (auto simp: parse_request_def elim!: bind_SomeE split: option.split_asm if_split_asm)

lemma run_request_reply:
  assumes "run_request env rt buffer toks mt p idt s = Some (Some reply, stop, s')" "env_ok env"
    and mt: "mt = jsmn_fill_token JSMN_STRING b e" "b \<le> e" "e \<le> length buffer" "string_body (part buffer b e)"
    and p: "at toks p n" "wf_node n" "value_ok buffer len n" and len: "len \<le> length buffer" "CHR 0x5C \<notin> set (take len buffer)"
  shows "\<exists>r w i v u. reply = reply_text r w i \<and> tok_text buffer idt = Some i \<and> json_seq r [v] \<and> json_seq w [u] \<and> (v = JPrim ''null'' \<or> u = JPrim ''null'')"
proof -
  obtain cmd where cmd: "find_cmd buffer mt = Some cmd" using assms(1) by (auto simp: run_request_def elim!: bind_SomeE)
  show ?thesis
  proof (cases cmd)
    case None
    let ?w = "quoted (''Unknown command '' @ [CHR 0x27] @ part buffer b e @ [CHR 0x27])"
    have "c_precision (int e - int b) (drop b buffer) = part buffer b e"
      using mt json_seq_no_NUL[OF json_seq_one_string[OF mt(4)]] by (intro c_precision_part) auto
    then obtain i where i: "tok_text buffer idt = Some i" "reply = reply_text ''null'' ?w i"
      using assms(1) cmd None mt(1) by (auto simp: run_request_def jsmn_fill_token_def elim!: bind_SomeE)
    have "string_body (''Unknown command '' @ [CHR 0x27] @ part buffer b e @ [CHR 0x27])"
      by (rule string_body_append[OF _ string_body_append[OF _ string_body_append[OF mt(4)]]]) (simp_all add: plain_def)
    then show ?thesis using i null_seq json_seq_one_string by blast
  next
    case (Some c)
    obtain err r stop1 s1 i where d: "dispatch c env rt buffer toks p s (re_junk env 0) = Some (err, r, stop1, s1)"
        "tok_text buffer idt = Some i"
        "reply = (case err of None \<Rightarrow> reply_text r ''null'' i | Some x \<Rightarrow> reply_text ''null'' (quoted (unquote x)) i)"
      using assms(1) cmd Some by (auto simp: run_request_def elim!: bind_SomeE split: if_split_asm)
    have junk: "re_junk env 0 = []" using assms(2) by (simp add: env_ok_def)
    have "case err of None \<Rightarrow> one_value [] r | Some m \<Rightarrow> list_all mild m"
      using dispatch_ok[OF d(1)[unfolded junk] assms(2) p len] .
    then show ?thesis using d(2,3) one_value_seq null_seq quoted_seq unquote_plain by (cases err) (auto, blast+)
  qed
qed

text \<open>
  C34. The reply to a request is the text of one object with a result, an error and the identifier of the
  request, one of the first two being null: a client that parses it gets back the identifier it sent.
  The request is any text without backslashes that the parser accepts and whose first value is well
  formed; new strings are taken to be empty, and the names of error codes and packets to be plain.
\<close>

theorem reply_carries_id:
  assumes "env_ok env" and req: "text_renders buffer len (n # ns)" "len \<le> length buffer" "CHR 0x5C \<notin> set (take len buffer)" and "wf_node n"
    and reply: "parse_request env rt buffer (flats (n # ns) @ [end_token]) s = Some (Some reply, stop, s')"
  shows "\<exists>idn m v w. child buffer n (Field ''id'') = Some idn
      \<and> json_parse_input reply (length reply) = Some (True, Some (flat m @ [end_token]))
      \<and> view reply m = JCont JSMN_OBJECT [JStr ''result'', v, JStr ''error'', w, JStr ''id'', view buffer idn]
      \<and> (v = JPrim ''null'' \<or> w = JPrim ''null'')"
proof -
  let ?toks = "flats (n # ns) @ [end_token]"
  have n: "at ?toks 0 n" by (simp add: at_def)
  obtain k where "renders buffer len 0 k (n # ns)" "k \<le> len" using req(1) by (auto simp: text_renders_def)
  then have ok: "value_ok buffer len n" using renders_seq[OF _ req(2)] by fastforce
  obtain m p i where parts: "json_get_member buffer ?toks 0 ''method'' = Some (Some m)" "json_get_member buffer ?toks 0 ''params'' = Some (Some p)"
    "json_get_member buffer ?toks 0 ''id'' = Some (Some i)" "t_type (?toks ! m) = JSMN_STRING"
    "run_request env rt buffer ?toks (?toks ! m) p (?toks ! i) s = Some (Some reply, stop, s')"
    using parse_request_parts[OF reply] .
  note child_of = member_at[OF _ n assms(5) ok req(2)]
  obtain mn where mn: "at ?toks m mn" "value_ok buffer len mn" using child_of[OF parts(1)] child_ok[OF _ ok assms(5)] by auto
  obtain pn where pn: "at ?toks p pn" "value_ok buffer len pn" "wf_node pn" using child_of[OF parts(2)] child_ok[OF _ ok assms(5)] by auto
  obtain idn where idn: "at ?toks i idn" "child buffer n (Field ''id'') = Some idn" "value_ok buffer len idn"
    using child_of[OF parts(3)] child_ok[OF _ ok assms(5)] by auto
  have ti: "?toks ! i = hd (flat idn)" and tm: "?toks ! m = hd (flat mn)" using at_nth[OF idn(1)] at_nth[OF mn(1)] by simp_all
  obtain b e where mt: "?toks ! m = jsmn_fill_token JSMN_STRING b e" "b \<le> e" "e \<le> length buffer" "string_body (part buffer b e)"
    using parts(4) mn(2) req(2) unfolding tm by (cases mn) (auto simp: jsmn_fill_token_def split: if_split_asm)
  obtain r w j v u where rw: "reply = reply_text r w j" "tok_text buffer (?toks ! i) = Some j" "json_seq r [v]" "json_seq w [u]"
      "v = JPrim ''null'' \<or> u = JPrim ''null''"
    using run_request_reply[OF parts(5) assms(1) mt pn(1,3,2) req(2,3)] by blast
  have "j = node_text buffer idn" using rw(2) tok_text_node[OF idn(3) req(2)] unfolding ti by simp
  then have j: "json_seq j [view buffer idn]" using node_text_seq[OF idn(3) req(2)] by simp
  let ?v = "JCont JSMN_OBJECT [JStr ''result'', v, JStr ''error'', u, JStr ''id'', view buffer idn]"
  from text_is_parsed[OF reply_seq[OF rw(3,4) j, folded rw(1)]]
  obtain ms where ms: "json_parse_input reply (length reply) = Some (True, Some (flats ms @ [end_token]))" "map (view reply) ms = [?v]"
    by (elim exE conjE)
  obtain m where m: "ms = [m]" "view reply m = ?v" using ms(2) by (cases ms) auto
  have "json_parse_input reply (length reply) = Some (True, Some (flat m @ [end_token]))" using ms(1) m(1) by simp
  then show ?thesis using idn(2) m(2) rw(5) by (intro exI conjI)
qed

definition ex_env :: rpc_env where
  "ex_env = \<lparr>re_ecode_names = [], re_pkt_names = [], re_junk = \<lambda>n. [], re_unset = 0, re_fresh = \<lambda>n. replicate n (CHR 0x00)\<rparr>"

definition ex_request :: string where
  "ex_request = ''{'' @ quoted ''method'' @ '':'' @ quoted ''stop'' @ '','' @ quoted ''params'' @ '':[],'' @ quoted ''id'' @ '':1}''"

definition ex_request_node :: node where
  "ex_request_node = Node JSMN_OBJECT 0 36
     [Leaf JSMN_STRING 2 8, Leaf JSMN_STRING 11 15, Leaf JSMN_STRING 18 24, Node JSMN_ARRAY 26 28 [],
      Leaf JSMN_STRING 30 32, Leaf JSMN_PRIMITIVE 34 35]"

text \<open>The rules of the grammar at given positions.\<close>

lemma at_skip: "i < len \<Longrightarrow> skipped (js ! i) \<Longrightarrow> j = Suc i \<Longrightarrow> renders js len j k ns \<Longrightarrow> renders js len i k ns"
  by (simp add: r_skip)

lemma at_prim:
  "i < e \<Longrightarrow> e < len \<Longrightarrow> prim_text (part js i e) \<Longrightarrow> hd (part js i e) = js ! i \<Longrightarrow> prim_end (js ! e) \<Longrightarrow> renders js len e k ns \<Longrightarrow>
   renders js len i k (Leaf JSMN_PRIMITIVE i e # ns)"
  by (auto simp: prim_text_def intro: r_prim)

lemma at_string:
  "i < e \<Longrightarrow> e < len \<Longrightarrow> js ! i = CHR 0x22 \<Longrightarrow> js ! e = CHR 0x22 \<Longrightarrow> b = Suc i \<Longrightarrow> list_all plain (part js b e) \<Longrightarrow> f = Suc e \<Longrightarrow>
   renders js len f k ns \<Longrightarrow> renders js len i k (Leaf JSMN_STRING b e # ns)"
  by (auto intro: r_string plain_body)

lemma at_container:
  "f = Suc e \<Longrightarrow> i < e \<Longrightarrow> e < len \<Longrightarrow> opener ty (js ! i) \<Longrightarrow> closer ty (js ! e) \<Longrightarrow> j = Suc i \<Longrightarrow> renders js len j e kids \<Longrightarrow>
   renders js len f k ns \<Longrightarrow> renders js len i k (Node ty i f kids # ns)"
  by (auto intro: r_container)

lemma ex_request_rendered: "renders ex_request 36 0 36 [ex_request_node]"
proof -
  note ev = ex_request_def Jsmn.part_def skipped_def plain_def prim_text_def prim_start_def prim_char_def bad_char_def prim_end_def
  note string = at_string[where js = ex_request and len = 36] and skip = at_skip[where js = ex_request and len = 36]
  note container = at_container[where js = ex_request and len = 36]
  have "renders ex_request 36 34 35 [Leaf JSMN_PRIMITIVE 34 35]"
    by (rule at_prim) (simp_all add: ev r_done)
  then have "renders ex_request 36 33 35 [Leaf JSMN_PRIMITIVE 34 35]"
    by (rule skip[rotated 3]) (simp_all add: ev)
  then have "renders ex_request 36 29 35 [Leaf JSMN_STRING 30 32, Leaf JSMN_PRIMITIVE 34 35]"
    by (rule string[rotated 7]) (simp_all add: ev)
  then have "renders ex_request 36 28 35 [Leaf JSMN_STRING 30 32, Leaf JSMN_PRIMITIVE 34 35]"
    by (rule skip[rotated 3]) (simp_all add: ev)
  then have "renders ex_request 36 26 35 [Node JSMN_ARRAY 26 28 [], Leaf JSMN_STRING 30 32, Leaf JSMN_PRIMITIVE 34 35]"
    by (rule container[of 28 27 26 JSMN_ARRAY 27 "[]", rotated 7]) (simp_all add: ev r_done)
  then have "renders ex_request 36 25 35 [Node JSMN_ARRAY 26 28 [], Leaf JSMN_STRING 30 32, Leaf JSMN_PRIMITIVE 34 35]"
    by (rule skip[rotated 3]) (simp_all add: ev)
  then have "renders ex_request 36 17 35 [Leaf JSMN_STRING 18 24, Node JSMN_ARRAY 26 28 [], Leaf JSMN_STRING 30 32, Leaf JSMN_PRIMITIVE 34 35]"
    by (rule string[rotated 7]) (simp_all add: ev)
  then have "renders ex_request 36 16 35 [Leaf JSMN_STRING 18 24, Node JSMN_ARRAY 26 28 [], Leaf JSMN_STRING 30 32, Leaf JSMN_PRIMITIVE 34 35]"
    by (rule skip[rotated 3]) (simp_all add: ev)
  then have "renders ex_request 36 10 35 [Leaf JSMN_STRING 11 15, Leaf JSMN_STRING 18 24, Node JSMN_ARRAY 26 28 [],
      Leaf JSMN_STRING 30 32, Leaf JSMN_PRIMITIVE 34 35]"
    by (rule string[rotated 7]) (simp_all add: ev)
  then have "renders ex_request 36 9 35 [Leaf JSMN_STRING 11 15, Leaf JSMN_STRING 18 24, Node JSMN_ARRAY 26 28 [],
      Leaf JSMN_STRING 30 32, Leaf JSMN_PRIMITIVE 34 35]"
    by (rule skip[rotated 3]) (simp_all add: ev)
  then have "renders ex_request 36 1 35 [Leaf JSMN_STRING 2 8, Leaf JSMN_STRING 11 15, Leaf JSMN_STRING 18 24, Node JSMN_ARRAY 26 28 [],
      Leaf JSMN_STRING 30 32, Leaf JSMN_PRIMITIVE 34 35]"
    by (rule string[rotated 7]) (simp_all add: ev)
  then show ?thesis unfolding ex_request_node_def
    by (rule container[of 36 35 0 JSMN_OBJECT 1, rotated 6]) (simp_all add: ev r_done)
qed

lemma ex_request_renders: "text_renders ex_request 36 [ex_request_node]"
  using ex_request_rendered by (auto simp: text_renders_def)

lemma reply_carries_id_witness:
  "\<exists>reply m v w. parse_request ex_env ex_runtime ex_request (flat ex_request_node @ [end_token]) ex_tx_state = Some (Some reply, True, ex_tx_state)
     \<and> json_parse_input reply (length reply) = Some (True, Some (flat m @ [end_token]))
     \<and> view reply m = JCont JSMN_OBJECT [JStr ''result'', v, JStr ''error'', w, JStr ''id'', JPrim ''1'']"
proof -
  have e: "env_ok ex_env" by (simp add: env_ok_def ex_env_def)
  have w: "wf_node ex_request_node \<and> CHR 0x5C \<notin> set (take 36 ex_request) \<and> 36 \<le> length ex_request
      \<and> child ex_request ex_request_node (Field ''id'') = Some (Leaf JSMN_PRIMITIVE 34 35) \<and> part ex_request 34 35 = ''1''"
    by (simp add: ex_request_node_def ex_request_def members_def Jsmn.part_def)
  have "\<exists>reply. parse_request ex_env ex_runtime ex_request (flat ex_request_node @ [end_token]) ex_tx_state = Some (Some reply, True, ex_tx_state)"
  proof -
    let ?toks = "flat ex_request_node @ [end_token]"
    have g: "json_get_member ex_request ?toks 0 ''method'' = Some (Some 2)" "json_get_member ex_request ?toks 0 ''params'' = Some (Some 4)"
        "json_get_member ex_request ?toks 0 ''id'' = Some (Some 6)" by code_simp+
    have f: "find_cmd ex_request (?toks ! 2) = Some (Some stop_command)" "tok_text ex_request (?toks ! 6) = Some ''1''" by code_simp+
    show ?thesis using g f by (simp add: parse_request_def run_request_def ex_request_node_def jsmn_fill_token_def numeral_eq_Suc)
  qed
  then obtain reply where r: "parse_request ex_env ex_runtime ex_request (flat ex_request_node @ [end_token]) ex_tx_state = Some (Some reply, True, ex_tx_state)" ..
  show ?thesis
    using reply_carries_id[OF e ex_request_renders, of ex_runtime ex_tx_state reply True ex_tx_state] r w by (simp, blast)
qed

subsection \<open>getinfo\<close>

lemma to_hex_total: "\<exists>h. to_hex bs = Some h"
  by (simp add: to_hex_def to_hex_direct_def to_hex_loop_eq Let_def)

lemma add_block_total: "\<exists>r. json_add_block t f b = Some r"
  using to_hex_total[of "b_sha b"] by (auto simp: json_add_block_def json_add_double_sha_def json_add_hex_def Let_def)

lemma add_blocks_total: "list_all (\<lambda>a. st_heap s a \<noteq> None) bs \<Longrightarrow> \<exists>r. json_add_blocks s bs t = Some r"
  unfolding json_add_blocks_def
proof (induction bs arbitrary: t)
  case (Cons a bs)
  then obtain b r where "st_heap s a = Some b" "json_add_block t None b = Some r" using add_block_total by fastforce
  then show ?case using Cons by simp
qed simp

text \<open>
  C36. \<open>getinfo\<close> answers in every state whose chains are in the store, and its answer parses as an object
  that tells exactly the hashes and depths of the longest, the longest known and the preferred chains, and
  how many requests and pending transactions there are.
\<close>

theorem getinfo_is_exact:
  assumes "list_all (\<lambda>a. st_heap s a \<noteq> None) (st_preferred_chain s # st_longest_chains s @ st_longest_knowns s)"
  shows "\<exists>r m. json_getinfo s [] = Some r \<and> json_parse_input r (length r) = Some (True, Some (flat m @ [end_token]))
      \<and> view r m = getinfo_value s"
proof -
  obtain pref where pref: "st_heap s (st_preferred_chain s) = Some pref" using assms by auto
  obtain r where r: "json_getinfo s [] = Some r"
  proof -
    have "\<exists>r. json_add_blocks s (st_longest_chains s) t = Some r" "\<exists>r. json_add_blocks s (st_longest_knowns s) t = Some r"
        "\<exists>r. json_add_block t f pref = Some r" for t f
      using assms add_blocks_total add_block_total by simp_all
    then have "\<exists>r. json_getinfo s [] = Some r" unfolding json_getinfo_def Let_def using pref by (simp, metis bind.bind_lunit)
    then show thesis using that by blast
  qed
  have seq: "json_seq r [getinfo_value s]" using getinfo_adds[OF r] by (auto simp: adds_def)
  have "gap r" using r by (auto simp: json_getinfo_def Let_def json_object_end_def gap_def prim_char_def prim_end_def elim!: bind_SomeE)
  from text_is_parsed[OF seq this]
  obtain ms where ms: "json_parse_input r (length r) = Some (True, Some (flats ms @ [end_token]))" "map (view r) ms = [getinfo_value s]"
    by (elim exE conjE)
  then show ?thesis using r by (cases ms) auto
qed

lemma getinfo_is_exact_witness:
  "\<exists>r m. json_getinfo ex_tx_state [] = Some r \<and> json_parse_input r (length r) = Some (True, Some (flat m @ [end_token]))
      \<and> view r m = getinfo_value ex_tx_state"
  by (rule getinfo_is_exact) (simp add: ex_tx_state_def ex_state_def)

subsection \<open>The hexadecimal digits of a transaction\<close>

definition upper_case :: "char \<Rightarrow> char" where
  "upper_case c = (let n = (of_char c :: nat) in if 97 \<le> n \<and> n \<le> 102 then char_of (n - 32) else c)"

lemma raw_digits:
  "\<forall>n \<in> set [0..<16]. raw_hexchar (hex_digits ! n) = Some (word_of_nat n)
     \<and> raw_hexchar (upper_case (hex_digits ! n)) = Some (word_of_nat (if n < 10 then n else n - 5))
     \<and> (upper_case (hex_digits ! n) = hex_digits ! n) = (n < 10)"
  by code_simp

lemma raw_digit:
  assumes "n < 16"
  shows "raw_hexchar (hex_digits ! n) = Some (word_of_nat n)"
    "raw_hexchar (upper_case (hex_digits ! n)) = Some (word_of_nat (if n < 10 then n else n - 5))"
    "(upper_case (hex_digits ! n) = hex_digits ! n) = (n < 10)"
  using raw_digits assms by simp_all

lemma unat_small: "n < 256 \<Longrightarrow> unat (word_of_nat n :: u8) = n"
  by (simp add: unat_of_nat)

lemma join_small:
  assumes "a < 16" "b < 16"
  shows "push_bit 4 (word_of_nat a) OR word_of_nat b = (word_of_nat (16 * a + b) :: u8)"
proof -
  have "unat (word_of_nat (16 * a + b) :: u8) = 16 * a + b" by (rule unat_small) (use assms in simp)
  moreover have "(16 * a + b) div 16 = a" "(16 * a + b) mod 16 = b" using assms by auto
  ultimately show ?thesis using join_nibbles[of "word_of_nat (16 * a + b)"] by metis
qed

lemma misread_byte:
  fixes c :: u8
  assumes "a \<le> unat c div 16" "b \<le> unat c mod 16"
  shows "push_bit 4 (word_of_nat a) OR word_of_nat b = c \<longleftrightarrow> a = unat c div 16 \<and> b = unat c mod 16"
proof -
  have c: "unat c div 16 < 16" "unat c mod 16 < 16" using unat_byte_less[of c] by (auto simp del: unat_byte_less)
  then have ab: "a < 16" "b < 16" using assms by auto
  have "(word_of_nat (16 * a + b) :: u8) = c \<longleftrightarrow> 16 * a + b = unat c"
    unfolding word_unat_eq_iff[of "word_of_nat (16 * a + b)"] by (subst unat_small) (use ab in simp_all)
  also have "\<dots> \<longleftrightarrow> a = unat c div 16 \<and> b = unat c mod 16"
  proof -
    have "(16 * a + b) div 16 = a" "(16 * a + b) mod 16 = b" using ab by auto
    then show ?thesis by (metis mult_div_mod_eq)
  qed
  finally show ?thesis by (simp only: join_small[OF ab])
qed

text \<open>
  C37. The hexadecimal text of a transaction in lower case is read back as its bytes, but in upper case only
  if it holds no letter: every letter digit is read as a number that is too small by five.
\<close>

theorem upper_case_misread:
  "\<exists>h. to_hex bs = Some h \<and> dehex h = Some bs \<and> (dehex (map upper_case h) = Some bs) = (map upper_case h = h)"
proof -
  let ?h = "\<lambda>bs. concat (map (\<lambda>c. [hex_digits ! (unat c div 16), hex_digits ! (unat c mod 16)]) bs)"
  have "to_hex bs = Some (?h bs)" by (simp add: to_hex_def to_hex_direct_def to_hex_loop_eq Let_def)
  moreover have "dehex (?h bs) = Some bs \<and> (dehex (map upper_case (?h bs)) = Some bs) = (map upper_case (?h bs) = ?h bs)"
  proof (induction bs)
    case (Cons c bs)
    have c: "unat c div 16 < 16" "unat c mod 16 < 16" using unat_byte_less[of c] by (auto simp del: unat_byte_less)
    have j: "push_bit 4 (word_of_nat (if a < 10 then a else a - 5)) OR word_of_nat (if b < 10 then b else b - 5) = c \<longleftrightarrow> a < 10 \<and> b < 10"
      if "a = unat c div 16" "b = unat c mod 16" for a b :: nat
      using misread_byte[of "if a < 10 then a else a - 5" c "if b < 10 then b else b - 5"] that by auto
    show ?case using Cons.IH join_nibbles[of c] raw_digit[OF c(1)] raw_digit[OF c(2)] j[OF refl refl] by auto
  qed simp
  ultimately show ?thesis by blast
qed

end
