(* ===== verification/Daemon.thy ===== *)
theory Daemon
  imports History Generating Jsonrpc
begin

text \<open>
  The daemon as a whole: the state it starts in (\<open>state.c\<close>, with the genesis block that
  \<open>mkgenesis.c\<close> prints), the events that change it, and what holds in every state it reaches.
\<close>

section \<open>The first state\<close>

definition mkgenesis_parts :: "openssl \<Rightarrow> u32 \<Rightarrow> u32 \<Rightarrow> bytes \<Rightarrow> block_parts option" where
  "mkgenesis_parts ssl difficulty timestamp nonce =
     do { c_assert (length nonce = 13 + 4);
          let n = 2 ^ unat PROTOCOL_INITIAL_SHARD_ORDER;
          merkle \<leftarrow> merkle_hashes ssl [] 0 0;
          Some \<lparr>bp_hdr = \<lparr>bh_version = current_version, bh_features_vote = 0, bh_shard_order = PROTOCOL_INITIAL_SHARD_ORDER,
                  bh_nonce2 = drop 4 nonce, bh_prev_block = replicate 32 0, bh_num_prev_txhashes = 0, bh_depth = 0,
                  bh_fees_to = replicate 20 0\<rparr>,
                bp_shard_nums = replicate n 0, bp_merkles = replicate n merkle, bp_prev_txhashes = [],
                bp_tailer = \<lparr>bt_timestamp = timestamp, bt_difficulty = difficulty, bt_nonce1 = le32_to_cpu (take 4 nonce)\<rparr>\<rparr> }"

definition mkgenesis :: "openssl \<Rightarrow> u32 \<Rightarrow> u32 \<Rightarrow> bytes \<Rightarrow> block option" where
  \<comment> \<open>the initializer it prints; the other fields are zero\<close>
  "mkgenesis ssl difficulty timestamp nonce =
     do { parts \<leftarrow> mkgenesis_parts ssl difficulty timestamp nonce;
          sha \<leftarrow> hash_block ssl parts;
          Some \<lparr>b_children = [], b_pending_features = 0, b_all_known = True, b_total_work = 0, b_prev = None,
                b_parts = parts, b_complaint = None, b_sha = sha,
                b_shard = map (\<lambda>i. new_block_shard (word_of_nat i) 0) [0..<2 ^ unat PROTOCOL_INITIAL_SHARD_ORDER]\<rparr> }"

definition new_state :: "bool \<Rightarrow> bptr \<Rightarrow> block \<Rightarrow> state" where
  \<comment> \<open>\<open>genesis\<close> is the address of the genesis block\<close>
  "new_state test_net genesis gb =
     \<lparr>st_test_net = test_net, st_heap = [genesis \<mapsto> gb\<lparr>b_total_work := 0\<rparr>], st_block_depth = [[genesis]],
      st_longest_chains = [genesis], st_longest_knowns = [genesis], st_preferred_chain = genesis, st_todo = [],
      st_pending = new_pending_block, st_txhash = [], st_inputhash = [], st_peers = [],
      st_peer_map = replicate MAX_PEERS False, st_num_peers = 0, st_num_peers_connected = 0, st_upcoming_features = 0,
      st_require_non_gateway_tx_fee = False, st_require_gateway_tx_fee = False,
      st_interests = replicate (2 ^ unat PROTOCOL_INITIAL_SHARD_ORDER) True, st_out = []\<rparr>"

section \<open>The shape of the block store\<close>

definition shard_layout :: "block_shard \<Rightarrow> bool" where
  "shard_layout sh \<longleftrightarrow> length (bs_u sh) = unat (bs_size sh) \<and>
     unat (bs_txcount sh) = length (filter is_known (bs_u sh)) \<and> unat (bs_hashcount sh) = length (filter is_hash (bs_u sh))"

definition layout_ok :: "block \<Rightarrow> bool" where
  \<comment> \<open>all arrays of a block have the lengths its header announces, and the counters of its shards are right\<close>
  "layout_ok b \<longleftrightarrow> unat (bh_shard_order (b_hdr b)) \<le> 16 \<and> length (b_shard b) = unat (num_shards (b_hdr b)) \<and>
     length (b_shard_nums b) = unat (num_shards (b_hdr b)) \<and> length (b_merkles b) = unat (num_shards (b_hdr b)) \<and>
     (\<forall>i < length (b_shard b). shard_layout (b_shard b ! i) \<and> bs_size (b_shard b ! i) = b_shard_nums b ! i)"

definition store_ok :: "state \<Rightarrow> bool" where
  \<comment> \<open>the store is a tree with one root, listed level by level; work grows, complaints are inherited\<close>
  "store_ok s \<longleftrightarrow> levels_ok s \<and> heap_ok (st_heap s) \<and> inherits (st_heap s) \<and>
     (\<forall>p b. st_heap s p = Some b \<longrightarrow> layout_ok b)"

lemma block_ok_layout: "block_ok b \<Longrightarrow> layout_ok b"
  by (auto simp: block_ok_def layout_ok_def shard_ok_def shard_layout_def)

text \<open>Changes that keep the links between blocks.\<close>

definition same_links :: "heap \<Rightarrow> heap \<Rightarrow> bool" where
  "same_links h h' \<longleftrightarrow> (\<forall>p. rel_option (\<lambda>b b'. b_prev b' = b_prev b \<and> b_sha b' = b_sha b \<and> b_parts b' = b_parts b \<and>
     b_children b' = b_children b \<and> b_total_work b' = b_total_work b) (h p) (h' p))"

lemma same_linksD:
  assumes "same_links h h'" "h' p = Some b'"
  obtains b where "h p = Some b" "b_prev b' = b_prev b" "b_sha b' = b_sha b" "b_parts b' = b_parts b"
    "b_children b' = b_children b" "b_total_work b' = b_total_work b"
proof -
  have "rel_option (\<lambda>b b'. b_prev b' = b_prev b \<and> b_sha b' = b_sha b \<and> b_parts b' = b_parts b \<and>
     b_children b' = b_children b \<and> b_total_work b' = b_total_work b) (h p) (h' p)"
    using assms(1) by (simp add: same_links_def)
  with that assms(2) show ?thesis by (cases "h p") auto
qed

lemma same_links_sym:
  assumes "same_links h h'"
  shows "same_links h' h"
  unfolding same_links_def
proof
  fix p
  show "rel_option (\<lambda>b b'. b_prev b' = b_prev b \<and> b_sha b' = b_sha b \<and> b_parts b' = b_parts b \<and>
     b_children b' = b_children b \<and> b_total_work b' = b_total_work b) (h' p) (h p)"
    using assms[unfolded same_links_def, rule_format, of p] by (cases "h p"; cases "h' p") auto
qed

lemma same_links_node_ok:
  assumes l: "same_links h h'" and n: "node_ok h p b" and b: "b_prev b' = b_prev b" "b_sha b' = b_sha b" "b_parts b' = b_parts b"
    "b_children b' = b_children b"
  shows "node_ok h' p b'"
proof -
  have to: "\<exists>c'. h' q = Some c' \<and> b_prev c' = b_prev c \<and> b_sha c' = b_sha c \<and> b_parts c' = b_parts c \<and> b_children c' = b_children c"
    if "h q = Some c" for q c
    using same_linksD[OF same_links_sym[OF l] that] by metis
  have "(\<exists>c. h' q = Some c \<and> b_depth b' = Suc (b_depth c) \<and> bh_prev_block (b_hdr b') = b_sha c \<and> p \<in> set (b_children c))"
    if q: "b_prev b = Some q" for q
  proof -
    obtain c where "h q = Some c" "b_depth b = Suc (b_depth c)" "bh_prev_block (b_hdr b) = b_sha c" "p \<in> set (b_children c)"
      using n q by (auto simp: node_ok_def)
    then show ?thesis using to b by fastforce
  qed
  then show ?thesis using n b to by (fastforce simp: node_ok_def split: option.splits)
qed

lemma same_links_heap_ok:
  assumes "same_links h h'" "heap_ok h"
  shows "heap_ok h'"
proof -
  have "node_ok h' p b'" if "h' p = Some b'" for p b'
    using same_linksD[OF assms(1) that] same_links_node_ok[OF assms(1)] assms(2) unfolding heap_ok_def by metis
  moreover have "p = q" if "h' p = Some b" "h' q = Some c" "b_prev b = None" "b_prev c = None" for p q b c
    using same_linksD[OF assms(1) that(1)] same_linksD[OF assms(1) that(2)] that(3,4) heap_root_unique[OF assms(2)] by metis
  ultimately show ?thesis unfolding heap_ok_def by blast
qed

lemma same_links_levels_ok:
  assumes "same_links (st_heap s) (st_heap s')" "st_block_depth s' = st_block_depth s" "levels_ok s"
  shows "levels_ok s'"
proof -
  have "\<exists>bb. st_heap s' b = Some bb \<and> b_depth bb = n" if "n < length (st_block_depth s')" "b \<in> set (st_block_depth s' ! n)" for n b
  proof -
    have "n < length (st_block_depth s)" "b \<in> set (st_block_depth s ! n)" using that assms(2) by simp_all
    then obtain bb where bb: "st_heap s b = Some bb" "b_depth bb = n" using assms(3) unfolding levels_ok_def by blast
    then show ?thesis using same_linksD[OF same_links_sym[OF assms(1)] bb(1)] by (metis)
  qed
  moreover have "b_depth bb < length (st_block_depth s') \<and> b \<in> set (st_block_depth s' ! b_depth bb)" if "st_heap s' b = Some bb" for b bb
    using same_linksD[OF assms(1) that] assms(2,3) unfolding levels_ok_def by metis
  ultimately show ?thesis unfolding levels_ok_def by blast
qed

lemma same_links_upd:
  assumes "st_heap s p = Some b" "b_prev b' = b_prev b" "b_sha b' = b_sha b" "b_parts b' = b_parts b"
    "b_children b' = b_children b" "b_total_work b' = b_total_work b"
  shows "same_links (st_heap s) ((st_heap s)(p \<mapsto> b'))"
  using assms by (auto simp: same_links_def intro: option.rel_refl)

lemma store_ok_upd:
  assumes ok: "store_ok s" and b: "st_heap s p = Some b" and links: "b_prev b' = b_prev b" "b_sha b' = b_sha b" "b_parts b' = b_parts b"
    "b_children b' = b_children b" "b_total_work b' = b_total_work b" "b_complaint b' = b_complaint b" and lay: "layout_ok b'"
  shows "store_ok (s\<lparr>st_heap := (st_heap s)(p \<mapsto> b')\<rparr>)"
proof -
  let ?s = "s\<lparr>st_heap := (st_heap s)(p \<mapsto> b')\<rparr>"
  have l: "same_links (st_heap s) (st_heap ?s)" using same_links_upd[OF b links(1-5)] by simp
  have "inherits (st_heap ?s)" using ok b links unfolding store_ok_def inherits_def by auto
  moreover have "layout_ok x" if "st_heap ?s q = Some x" for q x
    using that ok lay by (cases "q = p") (auto simp: store_ok_def)
  ultimately show ?thesis
    using ok same_links_heap_ok[OF l] same_links_levels_ok[OF l] by (auto simp: store_ok_def)
qed

lemma upd_shard_store_ok:
  assumes ok: "store_ok s" and bb: "st_heap s p = Some bb" and upd: "upd_shard s p i sh' = Some s'"
    and sh: "shard_layout (b_shard bb ! i) \<Longrightarrow> shard_layout sh'" "bs_size sh' = bs_size (b_shard bb ! i)"
  shows "store_ok s'"
proof -
  from upd bb have i: "i < length (b_shard bb)" and s': "s' = s\<lparr>st_heap := (st_heap s)(p \<mapsto> bb\<lparr>b_shard := (b_shard bb)[i := sh']\<rparr>)\<rparr>"
    by (auto simp: upd_shard_def c_assert_def split: if_splits)
  have "layout_ok bb" using ok bb by (auto simp: store_ok_def)
  then have "layout_ok (bb\<lparr>b_shard := (b_shard bb)[i := sh']\<rparr>)"
    using i sh by (auto simp: layout_ok_def nth_list_update)
  then show ?thesis unfolding s' by (intro store_ok_upd[OF ok bb]) simp_all
qed

text \<open>The counters of a shard.\<close>

lemma filter_two: "\<forall>x. \<not> (P x \<and> Q x) \<Longrightarrow> length (filter P xs) + length (filter Q xs) \<le> length xs"
  by (induction xs) auto

lemma layout_counts:
  assumes "shard_layout sh" "unat off < length (bs_u sh)"
  shows "length (filter is_known (bs_u sh)) + length (filter is_hash (bs_u sh)) \<le> length (bs_u sh)" "length (bs_u sh) \<le> 255"
proof -
  show "length (filter is_known (bs_u sh)) + length (filter is_hash (bs_u sh)) \<le> length (bs_u sh)"
    by (rule filter_two) (auto simp: is_known_def is_hash_def split: txslot.splits)
  show "length (bs_u sh) \<le> 255" using assms(1) u8_le_255[of "bs_size sh"] by (simp add: shard_layout_def)
qed

lemma fill_layouts:
  assumes lay: "shard_layout sh" and off: "unat off < length (bs_u sh)"
  shows "bs_u sh ! unat off = Txp None \<Longrightarrow> shard_layout (set_tx_slot sh off txp)"
    and "bs_u sh ! unat off = Txp None \<Longrightarrow> shard_layout (set_hash_slot sh off h)"
    and "bs_u sh ! unat off = Hash h \<Longrightarrow> shard_layout (set_tx_slot (sh\<lparr>bs_hashcount := bs_hashcount sh - 1\<rparr>) off txp)"
proof -
  let ?u = "bs_u sh" and ?i = "unat off"
  have up: "length (filter P (?u[?i := v])) + (if P (?u ! ?i) then 1 else 0) = length (filter P ?u) + (if P v then 1 else 0)" for P v
    by (rule filter_update[OF off])
  note L = lay[unfolded shard_layout_def]
  have len: "length (?u[?i := v]) \<le> 255" for v using layout_counts(2)[OF assms] by simp
  have less: "length (filter P ?u) < 255" if "\<not> P (?u ! ?i)" for P
  proof -
    have "length (filter P ?u) < length ?u" using that off length_filter_less[of "?u ! ?i" ?u P] by simp
    then show ?thesis using layout_counts(2)[OF assms] by simp
  qed
  show "shard_layout (set_tx_slot sh off txp)" if e: "?u ! ?i = Txp None"
  proof -
    have "unat (bs_txcount sh + 1) = Suc (unat (bs_txcount sh))"
      using less[of is_known] e L unat_plus_one[of "bs_txcount sh" 255] by (simp add: is_known_def)
    then show ?thesis using up[of is_known "Txp (Some txp)"] up[of is_hash "Txp (Some txp)"] L e
      by (simp add: shard_layout_def set_tx_slot_def is_known_def is_hash_def)
  qed
  show "shard_layout (set_hash_slot sh off h)" if e: "?u ! ?i = Txp None"
  proof -
    have "unat (bs_hashcount sh + 1) = Suc (unat (bs_hashcount sh))"
      using less[of is_hash] e L unat_plus_one[of "bs_hashcount sh" 255] by (simp add: is_hash_def)
    then show ?thesis using up[of is_known "Hash h"] up[of is_hash "Hash h"] L e
      by (simp add: shard_layout_def set_hash_slot_def is_known_def is_hash_def)
  qed
  show "shard_layout (set_tx_slot (sh\<lparr>bs_hashcount := bs_hashcount sh - 1\<rparr>) off txp)" if e: "?u ! ?i = Hash h"
  proof -
    have "unat (bs_txcount sh + 1) = Suc (unat (bs_txcount sh))"
      using less[of is_known] e L unat_plus_one[of "bs_txcount sh" 255] by (simp add: is_known_def)
    moreover have "?u ! ?i \<in> set (filter is_hash ?u)" using nth_mem[OF off] e by (simp add: is_hash_def)
    then have "0 < length (filter is_hash ?u)" by (cases "filter is_hash ?u") auto
    then have pos: "0 < unat (bs_hashcount sh)" using L by linarith
    then have "unat (bs_hashcount sh - 1) = unat (bs_hashcount sh) - 1" by (simp add: unat_sub word_le_nat_alt)
    moreover note pos
    ultimately show ?thesis using up[of is_known "Txp (Some txp)"] up[of is_hash "Txp (Some txp)"] L e
      by (simp add: shard_layout_def set_tx_slot_def is_known_def is_hash_def)
  qed
qed

text \<open>A complaint marks a block and everything below it.\<close>

definition complained :: "bytes \<Rightarrow> bptr set \<Rightarrow> heap \<Rightarrow> heap" where
  "complained c S h = (\<lambda>q. map_option (\<lambda>b. if q \<in> S then b\<lparr>b_complaint := Some c\<rparr> else b) (h q))"

lemma complained_links: "same_links h (complained c S h)"
  by (auto simp: same_links_def complained_def option.rel_map intro: option.rel_refl)

lemma complained_twice: "complained c S (complained c T h) = complained c (S \<union> T) h"
  by (auto simp: complained_def fun_eq_iff option.map_comp o_def intro!: option.map_cong)

lemma complained_none: "complained c {} h = h"
  by (simp add: complained_def option.map_ident)

lemma ancestor_links:
  assumes "same_links h h'" "ancestor h a b"
  shows "ancestor h' a b"
  using assms(2)
proof (induction rule: ancestor.induct)
  case (ancestor_refl b bb)
  then show ?case using same_linksD[OF same_links_sym[OF assms(1)]] ancestor.ancestor_refl by metis
next
  case (ancestor_step b bb p a)
  then show ?case using same_linksD[OF same_links_sym[OF assms(1)] ancestor_step.hyps(1)] ancestor.ancestor_step by metis
qed

lemma ancestor_links_iff: "same_links h h' \<Longrightarrow> ancestor h' a b \<longleftrightarrow> ancestor h a b"
  using ancestor_links same_links_sym by metis

lemma ancestor_down:
  assumes ok: "heap_ok h" and b: "h b = Some bb"
  shows "{q. ancestor h b q} = insert b (\<Union>k \<in> set (b_children bb). {q. ancestor h k q})"
proof -
  have "q = b \<or> (\<exists>k \<in> set (b_children bb). ancestor h k q)" if "ancestor h a q" "a = b" for a q
    using that
  proof (induction rule: ancestor.induct)
    case (ancestor_step q qb p a)
    obtain pb where pb: "h p = Some pb" "q \<in> set (b_children pb)"
      by (rule heap_prev[OF ok ancestor_step.hyps(1,2)])
    from ancestor_step.IH[OF ancestor_step.prems] show ?case
    proof
      assume "p = b"
      then show ?thesis using pb b ancestor.ancestor_refl[of h q qb] ancestor_step.hyps(1) by auto
    next
      assume "\<exists>k \<in> set (b_children bb). ancestor h k p"
      then show ?thesis using ancestor.ancestor_step[of h q qb p] ancestor_step.hyps(1,2) by blast
    qed
  qed simp
  moreover have "ancestor h b q" if k: "k \<in> set (b_children bb)" "ancestor h k q" for k q
  proof -
    obtain kb where "h k = Some kb" "b_prev kb = Some b" using heap_child[OF ok b k(1)] by blast
    then show ?thesis using ancestor_trans[OF k(2)] ancestor_prev[of h k kb b bb] b by blast
  qed
  moreover have "ancestor h b b" using b by (rule ancestor.ancestor_refl)
  ultimately show ?thesis by blast
qed
lemma complaint_marks:
  assumes "complaint_on_all rt c b s = Some s'"
  shows "heap_ok (st_heap s) \<longrightarrow> st_heap s' = complained c {q. ancestor (st_heap s) b q} (st_heap s) \<and>
    st_block_depth s' = st_block_depth s"
  using assms
proof (rule complaint_on_all.raw_induct[where P = "\<lambda>rt c b s s'. heap_ok (st_heap s) \<longrightarrow>
    st_heap s' = complained c {q. ancestor (st_heap s) b q} (st_heap s) \<and> st_block_depth s' = st_block_depth s", rotated])
  fix rec rt c block s s'
  assume ih: "\<And>rt c b s s'. rec rt c b s = Some s' \<Longrightarrow> heap_ok (st_heap s) \<longrightarrow>
      st_heap s' = complained c {q. ancestor (st_heap s) b q} (st_heap s) \<and> st_block_depth s' = st_block_depth s"
    and step: "(do { bb \<leftarrow> st_heap s block;
          let s1 = s\<lparr>st_heap := (st_heap s)(block \<mapsto> bb\<lparr>b_complaint := Some c\<rparr>)\<rparr>;
          s2 \<leftarrow> block_to_pending s1 bb;
          s3 \<leftarrow> unhash_block rt block bb s2;
          ofold (\<lambda>b s. rec rt c b s) (b_children bb) s3 }) = Some s'"
  let ?h = "st_heap s"
  from step obtain bb s2 s3 where bb: "?h block = Some bb"
      and s2: "block_to_pending (s\<lparr>st_heap := ?h(block \<mapsto> bb\<lparr>b_complaint := Some c\<rparr>)\<rparr>) bb = Some s2"
      and s3: "unhash_block rt block bb s2 = Some s3" and rest: "ofold (\<lambda>b s. rec rt c b s) (b_children bb) s3 = Some s'"
    by (auto simp: Let_def elim!: bind_SomeE)
  show "heap_ok ?h \<longrightarrow> st_heap s' = complained c {q. ancestor ?h block q} ?h \<and> st_block_depth s' = st_block_depth s"
  proof
    assume ok: "heap_ok ?h"
    have loop: "st_heap t' = complained c (S \<union> (\<Union>k \<in> set ks. {q. ancestor ?h k q})) ?h \<and> st_block_depth t' = st_block_depth s"
      if "ofold (\<lambda>b s. rec rt c b s) ks t = Some t'" "st_heap t = complained c S ?h" "st_block_depth t = st_block_depth s" for ks t t' S
      using that
    proof (induction ks arbitrary: t S)
      case (Cons k ks)
      from Cons.prems(1) obtain t1 where t1: "rec rt c k t = Some t1" "ofold (\<lambda>b s. rec rt c b s) ks t1 = Some t'"
        by (auto elim: bind_SomeE)
      have l: "same_links ?h (st_heap t)" using complained_links Cons.prems(2) by metis
      have "st_heap t1 = complained c {q. ancestor (st_heap t) k q} (st_heap t)" "st_block_depth t1 = st_block_depth s"
        using ih[OF t1(1)] same_links_heap_ok[OF l ok] Cons.prems(3) by simp_all
      then have "st_heap t1 = complained c {q. ancestor ?h k q} (st_heap t)" "st_block_depth t1 = st_block_depth s"
        unfolding ancestor_links_iff[OF l] by blast+
      then have "st_heap t1 = complained c ({q. ancestor ?h k q} \<union> S) ?h" "st_block_depth t1 = st_block_depth s"
        unfolding Cons.prems(2) complained_twice by blast+
      from Cons.IH[OF t1(2) this] show ?case by (simp add: Un_ac)
    qed simp
    have "st_heap s3 = complained c {block} ?h" "st_block_depth s3 = st_block_depth s"
      using block_to_pending_store[OF s2] unhash_block_store[OF s3] bb
      by (auto simp: same_store_def complained_def fun_eq_iff option.map_ident)
    from loop[OF rest this] show "st_heap s' = complained c {q. ancestor ?h block q} ?h \<and> st_block_depth s' = st_block_depth s"
      using ancestor_down[OF ok bb] by simp
  qed
qed

lemma complained_inherits:
  assumes inh: "inherits h" and ok: "heap_ok h"
    and down: "\<And>b bb p. h b = Some bb \<Longrightarrow> b_prev bb = Some p \<Longrightarrow> p \<in> S \<Longrightarrow> b \<in> S"
  shows "inherits (complained c S h)"
  unfolding inherits_def
proof (intro allI impI)
  fix b bb p pb
  assume A: "complained c S h b = Some bb" "b_prev bb = Some p" "complained c S h p = Some pb"
  then obtain b0 p0 where b0: "h b = Some b0" "bb = (if b \<in> S then b0\<lparr>b_complaint := Some c\<rparr> else b0)"
      and p0: "h p = Some p0" "pb = (if p \<in> S then p0\<lparr>b_complaint := Some c\<rparr> else p0)"
    by (auto simp: complained_def)
  have pr: "b_prev b0 = Some p" using A(2) b0(2) by (auto split: if_splits)
  then have "(b_complaint b0 = None \<longrightarrow> b_complaint p0 = None) \<and> b_total_work p0 < b_total_work b0"
    using inh b0(1) p0(1) unfolding inherits_def by blast
  then show "(b_complaint bb = None \<longrightarrow> b_complaint pb = None) \<and> b_total_work pb < b_total_work bb"
    using b0(2) p0(2) down[OF b0(1) pr] by (auto split: if_splits)
qed

lemma complaint_store_ok:
  assumes "complaint_on_all rt c b s = Some s'" and ok: "store_ok s"
  shows "store_ok s'"
proof -
  let ?S = "{q. ancestor (st_heap s) b q}"
  have h: "heap_ok (st_heap s)" using ok by (simp add: store_ok_def)
  then have s': "st_heap s' = complained c ?S (st_heap s)" "st_block_depth s' = st_block_depth s"
    using complaint_marks[OF assms(1)] by simp_all
  have l: "same_links (st_heap s) (st_heap s')" using s'(1) complained_links by metis
  have "inherits (st_heap s')" unfolding s'(1)
    by (rule complained_inherits) (use ok in \<open>auto simp: store_ok_def intro: ancestor_step\<close>)
  moreover have "layout_ok x" if x: "st_heap s' p = Some x" for p x
  proof -
    obtain b0 where "st_heap s p = Some b0" "x = b0 \<or> x = b0\<lparr>b_complaint := Some c\<rparr>"
      using x unfolding s'(1) complained_def by (cases "st_heap s p"; cases "p \<in> ?S") auto
    then show ?thesis using ok by (auto simp: store_ok_def layout_ok_def)
  qed
  ultimately show ?thesis
    using ok same_links_heap_ok[OF l h] same_links_levels_ok[OF l s'(2)] by (auto simp: store_ok_def)
qed

text \<open>A block with an accepted header fits under the block its header names.\<close>

lemma link_store_ok:
  assumes hdr: "check_block_header rt s0 parts = Some (PROTOCOL_ECODE_NONE, Some p, Some x)" and same: "same_store s0 s"
    and wf: "wf_block_parts parts" and new: "st_heap s new = None" and link: "link_block rt s new p x parts = Some s'"
    and ssl: "bn_ok (rt_ssl rt)" and len: "length (st_block_depth s) < 2 ^ 32" and ok: "store_ok s"
  shows "store_ok s'"
proof -
  have st: "st_heap s0 = st_heap s" "st_block_depth s0 = st_block_depth s" using same by (simp_all add: same_store_def)
  have lv: "levels_ok s" and h_ok: "heap_ok (st_heap s)" using ok by (simp_all add: store_ok_def)
  have lv0: "levels_ok s0" using lv st by (simp add: levels_ok_def)
  from check_block_header_NONE[OF hdr] obtain pb where pb: "st_heap s p = Some pb"
      "beats_target x (bt_difficulty (bp_tailer parts)) = Some True"
      "block_find_any s0 (bh_prev_block (bp_hdr parts)) = Some (Some p)"
      "bh_shard_order (bp_hdr parts) = next_shard_order" "bh_depth (bp_hdr parts) = bh_depth (b_hdr pb) + 1"
    using st by auto
  have sha: "bh_prev_block (bp_hdr parts) = b_sha pb"
    using block_find_any_eq[OF lv0, of "bh_prev_block (bp_hdr parts)"] pb(1,3) st by auto
  have "b_depth pb < length (st_block_depth s)" using lv pb(1) by (auto simp: levels_ok_def)
  then have dep: "unat (bh_depth (bp_hdr parts)) = Suc (b_depth pb)" and lt: "b_depth pb < length (st_block_depth s)"
    using len pb(5) by (simp_all add: unat_word_ariths)
  have "valid_difficulty (bt_difficulty (bp_tailer parts))"
    using pb(2) by (auto simp: beats_target_def valid_difficulty_def Let_def bind_eq_Some_conv c_assert_def split: if_splits)
  then obtain w where w: "total_work_done (rt_ssl rt) (bt_difficulty (bp_tailer parts)) (b_total_work pb) = Some w" "b_total_work pb < w"
    using total_work_grows[OF ssl] by blast
  from link pb(1) obtain blk pf levels where blk: "new_block (rt_ssl rt) (b_total_work pb) x parts = Some blk"
      and s': "st_heap s' = (st_heap s)(new \<mapsto> blk\<lparr>b_prev := Some p, b_pending_features := pf, b_complaint := b_complaint pb\<rparr>,
          p \<mapsto> pb\<lparr>b_children := b_children pb @ [new]\<rparr>)"
      and lev: "st_block_depth s' = levels[Suc (b_depth pb) := levels ! Suc (b_depth pb) @ [new]]"
        "levels = (if Suc (b_depth pb) < length (st_block_depth s) then st_block_depth s else st_block_depth s @ [[]])"
    unfolding link_block_def by (auto simp: Let_def emit_def dep not_less elim!: bind_SomeE split: if_splits)
  let ?nb = "blk\<lparr>b_prev := Some p, b_pending_features := pf, b_complaint := b_complaint pb\<rparr>"
  have b: "b_total_work blk = w" "b_children blk = []" "b_all_known blk = False" "b_parts blk = parts"
    using blk w(1) by (auto simp: new_block_def Let_def elim!: bind_SomeE)
  have "bh_shard_order (bp_hdr parts) \<le> PROTOCOL_MAX_SHARD_ORDER" using pb(4) by (simp add: next_shard_order_def c_simps)
  then have bok: "block_ok ?nb" using new_block_ok[OF blk wf] by (simp add: block_ok_def)
  have f: "fits_under (st_heap s) new p pb ?nb"
    using new pb(1) b w(2) dep sha bok by (simp add: fits_under_def)
  have h': "st_heap s' = linked (st_heap s) new p pb ?nb" by (simp add: s' linked_def)
  have d': "st_block_depth s' = add_level (st_block_depth s) (b_depth ?nb) new"
    using lev dep b(4) by (simp add: add_level_def Let_def)
  have "layout_ok y" if y: "st_heap s' q = Some y" for q y
    using linked_cases[OF f y[unfolded h']]
  proof
    assume "q = new \<and> y = ?nb"
    then show ?thesis using block_ok_layout[OF bok] by simp
  next
    assume "\<exists>b0. q \<noteq> new \<and> st_heap s q = Some b0 \<and> y = b0\<lparr>b_children := b_children b0 @ (if q = p then [new] else [])\<rparr>"
    then obtain b0 where "st_heap s q = Some b0" "y = b0\<lparr>b_children := b_children b0 @ (if q = p then [new] else [])\<rparr>" by blast
    then show ?thesis using ok by (auto simp: store_ok_def layout_ok_def)
  qed
  then show ?thesis
    using linked_levels_ok[OF lv f h' d'] linked_heap_ok[OF h_ok f] linked_inherits[OF h_ok _ f] ok h'
    unfolding store_ok_def by metis
qed
lemma upd_shard_levels: "upd_shard s p i sh = Some s' \<Longrightarrow> st_block_depth s' = st_block_depth s"
  by (auto simp: upd_shard_def elim!: bind_SomeE split: if_splits)

lemma complaint_levels:
  assumes "complaint_on_all rt c b s = Some s'"
  shows "st_block_depth s' = st_block_depth s"
  using assms
proof (rule complaint_on_all.raw_induct[where P = "\<lambda>rt c b s s'. st_block_depth s' = st_block_depth s", rotated])
  fix rec rt c block s s'
  assume ih: "\<And>rt c b s s'. rec rt c b s = Some s' \<Longrightarrow> st_block_depth s' = st_block_depth s"
    and step: "(do { bb \<leftarrow> st_heap s block;
          let s1 = s\<lparr>st_heap := (st_heap s)(block \<mapsto> bb\<lparr>b_complaint := Some c\<rparr>)\<rparr>;
          s2 \<leftarrow> block_to_pending s1 bb;
          s3 \<leftarrow> unhash_block rt block bb s2;
          ofold (\<lambda>b s. rec rt c b s) (b_children bb) s3 }) = Some s'"
  from step obtain bb s2 s3 where s2: "block_to_pending (s\<lparr>st_heap := (st_heap s)(block \<mapsto> bb\<lparr>b_complaint := Some c\<rparr>)\<rparr>) bb = Some s2"
      and s3: "unhash_block rt block bb s2 = Some s3" and rest: "ofold (\<lambda>b s. rec rt c b s) (b_children bb) s3 = Some s'"
    by (auto simp: Let_def elim!: bind_SomeE)
  have start: "st_block_depth s3 = st_block_depth s"
    using block_to_pending_store[OF s2] unhash_block_store[OF s3] by (simp add: same_store_def)
  show "st_block_depth s' = st_block_depth s"
    by (rule ofold_keeps[where I = "\<lambda>t. st_block_depth t = st_block_depth s", OF _ start rest]) (metis ih)
qed

interpretation shape: store_steps rt
  "\<lambda>s. bn_ok (rt_ssl rt) \<longrightarrow> length (st_block_depth s) < 2 ^ 32 \<longrightarrow> store_ok s" for rt
proof
  fix s s' :: state
  assume same: "same_store s s'" and I: "bn_ok (rt_ssl rt) \<longrightarrow> length (st_block_depth s) < 2 ^ 32 \<longrightarrow> store_ok s"
  show "bn_ok (rt_ssl rt) \<longrightarrow> length (st_block_depth s') < 2 ^ 32 \<longrightarrow> store_ok s'"
    using I same by (simp add: same_store_def store_ok_def levels_ok_def)
next
  fix s :: state and b bb
  assume bb: "st_heap s b = Some bb" and I: "bn_ok (rt_ssl rt) \<longrightarrow> length (st_block_depth s) < 2 ^ 32 \<longrightarrow> store_ok s"
  show "bn_ok (rt_ssl rt) \<longrightarrow> length (st_block_depth (s\<lparr>st_heap := (st_heap s)(b \<mapsto> bb\<lparr>b_all_known := True\<rparr>)\<rparr>)) < 2 ^ 32 \<longrightarrow>
      store_ok (s\<lparr>st_heap := (st_heap s)(b \<mapsto> bb\<lparr>b_all_known := True\<rparr>)\<rparr>)"
  proof (intro impI)
    assume "bn_ok (rt_ssl rt)" "length (st_block_depth (s\<lparr>st_heap := (st_heap s)(b \<mapsto> bb\<lparr>b_all_known := True\<rparr>)\<rparr>)) < 2 ^ 32"
    then have ok: "store_ok s" using I by simp
    then have "layout_ok (bb\<lparr>b_all_known := True\<rparr>)" using bb by (auto simp: store_ok_def layout_ok_def)
    then show "store_ok (s\<lparr>st_heap := (st_heap s)(b \<mapsto> bb\<lparr>b_all_known := True\<rparr>)\<rparr>)" by (intro store_ok_upd[OF ok bb]) simp_all
  qed
next
  fix s s' :: state and p bb i sh and off :: u8 and txp h
  assume bb: "st_heap s p = Some bb" "b_shard bb ! i = sh" and off: "unat off < length (bs_u sh)"
    and I: "bn_ok (rt_ssl rt) \<longrightarrow> length (st_block_depth s) < 2 ^ 32 \<longrightarrow> store_ok s"
  note frame = upd_shard_levels
  show "bn_ok (rt_ssl rt) \<longrightarrow> length (st_block_depth s') < 2 ^ 32 \<longrightarrow> store_ok s'"
    if "bs_u sh ! unat off = Txp None" "upd_shard s p i (set_tx_slot sh off txp) = Some s'"
    using I frame[OF that(2)] upd_shard_store_ok[OF _ bb(1) that(2)] fill_layouts(1)[OF _ off that(1)] bb(2)
    by (auto simp: set_tx_slot_def)
  show "bn_ok (rt_ssl rt) \<longrightarrow> length (st_block_depth s') < 2 ^ 32 \<longrightarrow> store_ok s'"
    if "bs_u sh ! unat off = Hash h" "upd_shard s p i (set_tx_slot (sh\<lparr>bs_hashcount := bs_hashcount sh - 1\<rparr>) off txp) = Some s'"
    using I frame[OF that(2)] upd_shard_store_ok[OF _ bb(1) that(2)] fill_layouts(3)[OF _ off that(1)] bb(2)
    by (auto simp: set_tx_slot_def)
  show "bn_ok (rt_ssl rt) \<longrightarrow> length (st_block_depth s') < 2 ^ 32 \<longrightarrow> store_ok s'"
    if "bs_u sh ! unat off = Txp None" "upd_shard s p i (set_hash_slot sh off h) = Some s'"
    using I frame[OF that(2)] upd_shard_store_ok[OF _ bb(1) that(2)] fill_layouts(2)[OF _ off that(1)] bb(2)
    by (auto simp: set_hash_slot_def)
next
  fix s s' :: state and p bb i sh prfs
  assume bb: "st_heap s p = Some bb" "b_shard bb ! i = sh" and upd: "upd_shard s p i (sh\<lparr>bs_proof := prfs\<rparr>) = Some s'"
    and I: "bn_ok (rt_ssl rt) \<longrightarrow> length (st_block_depth s) < 2 ^ 32 \<longrightarrow> store_ok s"
  show "bn_ok (rt_ssl rt) \<longrightarrow> length (st_block_depth s') < 2 ^ 32 \<longrightarrow> store_ok s'"
    using I upd_shard_levels[OF upd] upd_shard_store_ok[OF _ bb(1) upd] bb(2) by (auto simp: shard_layout_def)
next
  fix s s' :: state and c b
  assume c: "complaint_on_all rt c b s = Some s'" and I: "bn_ok (rt_ssl rt) \<longrightarrow> length (st_block_depth s) < 2 ^ 32 \<longrightarrow> store_ok s"
  show "bn_ok (rt_ssl rt) \<longrightarrow> length (st_block_depth s') < 2 ^ 32 \<longrightarrow> store_ok s'"
    using I complaint_store_ok[OF c] complaint_levels[OF c] by simp
next
  fix s s' s0 :: state and parts p x new
  assume hdr: "check_block_header rt s0 parts = Some (PROTOCOL_ECODE_NONE, Some p, Some x)" "same_store s0 s" "wf_block_parts parts"
      "st_heap s new = None" and link: "link_block rt s new p x parts = Some s'"
    and I: "bn_ok (rt_ssl rt) \<longrightarrow> length (st_block_depth s) < 2 ^ 32 \<longrightarrow> store_ok s"
  have "length (st_block_depth s) \<le> length (st_block_depth s')"
    using link by (auto simp: link_block_def Let_def emit_def elim!: bind_SomeE split: if_splits)
  then show "bn_ok (rt_ssl rt) \<longrightarrow> length (st_block_depth s') < 2 ^ 32 \<longrightarrow> store_ok s'"
    using I link_store_ok[OF hdr link] by simp
qed

section \<open>The events of the daemon\<close>

text \<open>
  One step is the whole reaction to one event. The clock may move between steps, the libraries stay
  the same; \<open>new\<close> and \<open>alloc\<close> are addresses the allocator returns, where no block is.
\<close>

inductive daemon_step :: "openssl \<Rightarrow> state \<Rightarrow> state \<Rightarrow> bool" for ssl where
  step_packet: "rt_ssl rt = ssl \<Longrightarrow> pkt_ok pkt \<Longrightarrow> st_heap s new = None \<Longrightarrow>
    pkt_in rt hash64 coins junk new s pc k pkt = Some (plan, s', pc') \<Longrightarrow> daemon_step ssl s s'"
| step_generated: "rt_ssl rt = ssl \<Longrightarrow> pkt_ok pkt \<Longrightarrow> st_heap s new = None \<Longrightarrow>
    recv_block_from_generator rt s new pkt shards = Some (good, s') \<Longrightarrow> daemon_step ssl s s'"
| step_load: "rt_ssl rt = ssl \<Longrightarrow> (\<And>s. st_heap s (alloc s) = None) \<Longrightarrow>
    load_blocks rt alloc s saved = Some (s', saved', pos) \<Longrightarrow> daemon_step ssl s s'"
| step_connect: "alloc_peer s = Some s' \<Longrightarrow> daemon_step ssl s s'"
| step_welcome: "welcome_received hash64 now my_uuid others s pc k you w = Some (plan, s', pc', you') \<Longrightarrow> daemon_step ssl s s'"
| step_sync: "check_sync_or_horizon s k pkt = Some (plan, s') \<Longrightarrow> daemon_step ssl s s'"
| step_write: "plan_output s k = Some (plan, s') \<Longrightarrow> daemon_step ssl s s'"
| step_close: "destroy_peer s k = Some s' \<Longrightarrow> daemon_step ssl s s'"
| step_request: "rt_ssl rt = ssl \<Longrightarrow> read_json env rt jc s = Some (next_plan, jc', s') \<Longrightarrow> daemon_step ssl s s'"

inductive_cases daemon_stepE: "daemon_step ssl s s'"

inductive daemon_reach :: "openssl \<Rightarrow> state \<Rightarrow> bool" for ssl where
  reach_start: "mkgenesis ssl difficulty timestamp nonce = Some gb \<Longrightarrow> daemon_reach ssl (new_state test_net genesis gb)"
| reach_step: "daemon_reach ssl s \<Longrightarrow> daemon_step ssl s s' \<Longrightarrow> daemon_reach ssl s'"

subsection \<open>Events that leave the blocks alone\<close>

lemma same_store_destroy: "destroy_peer s k = Some s' \<Longrightarrow> same_store s s'"
  by (auto simp: destroy_peer_def Let_def same_store_def emit_def remove_peer_from_todo_def elim!: bind_SomeE split: if_splits)

lemma same_store_connect: "alloc_peer s = Some s' \<Longrightarrow> same_store s s'"
  by (auto simp: alloc_peer_def Let_def same_store_def split: if_splits)

lemma same_store_write: "plan_output s k = Some (plan, s') \<Longrightarrow> same_store s s'"
proof -
  have "same_store s s'" if "get_todo_pkt s k = Some (r, s')" for r s s'
    using that by (auto simp: get_todo_pkt_def same_store_def upd_peer_def elim!: bind_SomeE split: list.splits if_splits option.splits)
  moreover have "same_store s s'" if "upd_peer s k f = Some s'" for f s s'
    using upd_peer_frame[OF that] by (rule todo_store)
  ultimately show "plan_output s k = Some (plan, s') \<Longrightarrow> same_store s s'"
    by (auto simp: plan_output_def elim!: bind_SomeE split: option.splits if_splits) (meson same_store_trans)+
qed

lemma same_store_welcome:
  "welcome_received hash64 now my_uuid others s pc k you w = Some (plan, s', pc', you') \<Longrightarrow> same_store s s'"
  by (auto simp: welcome_received_def Let_def same_store_def upd_peer_def elim!: bind_SomeE split: if_splits)

lemma same_store_sync: "check_sync_or_horizon s k pkt = Some (plan, s') \<Longrightarrow> same_store s s'"
proof -
  have loop: "same_store s s'" if "recv_sync_loop is body s = Some (e, s')" for "is" body e s s'
    using that
  proof (induction "is" arbitrary: s)
    case (Cons i "is")
    have "same_store s t \<Longrightarrow> same_store t s' \<Longrightarrow> same_store s s'" "same_store s (todo_add_get_children s x)" for t x
      by (simp_all add: same_store_def todo_add_get_children_def new_todo_request_def Let_def emit_def)
    with Cons show ?case by (auto elim!: bind_SomeE split: option.splits if_splits) blast+
  qed simp
  have "same_store s s'" if "recv_sync_pkt s pkt = Some (e, s')" for e s'
    using that by (auto simp: recv_sync_pkt_def Let_def elim!: bind_SomeE split: if_splits dest!: loop)
  then show "check_sync_or_horizon s k pkt = Some (plan, s') \<Longrightarrow> same_store s s'"
    by (auto simp: check_sync_or_horizon_def elim!: bind_SomeE split: if_splits
        dest!: same_store_write todo_for_peer_frame[THEN todo_store]) (meson same_store_trans same_store_refl)+
qed

lemma same_store_submit: "submit_tx env rt s tx t = Some (e, r, stop, s') \<Longrightarrow> same_store s s'"
proof -
  have ask: "same_store s s'" if "report_unknown_input tx bad t s = Some (r, s')" for bad t s r s'
    using that by (auto simp: report_unknown_input_def Let_def same_store_def todo_add_get_tx_def new_todo_request_def emit_def elim!: bind_SomeE)
  show "submit_tx env rt s tx t = Some (e, r, stop, s') \<Longrightarrow> same_store s s'"
    by (auto simp: submit_tx_def Let_def elim!: bind_SomeE split: if_split_asm prod.split_asm
        dest!: add_pending_store ask send_frames(1)[THEN todo_store]) (meson same_store_trans)+
qed

lemma same_store_dispatch: "dispatch c env rt buffer toks p s t = Some (e, r, stop, s') \<Longrightarrow> same_store s s'"
  by (cases c) (auto simp: json_sendrawtransaction_def elim!: bind_SomeE split: option.split_asm if_split_asm prod.split_asm
      dest!: same_store_submit)

lemma same_store_request: "read_json env rt jc s = Some (next_plan, jc', s') \<Longrightarrow> same_store s s'"
proof -
  have "same_store s s'" if "run_request env rt buffer toks m p i s = Some (reply, stop, s')" for buffer toks m p i reply stop s'
    using that by (auto simp: run_request_def elim!: bind_SomeE split: option.split_asm if_split_asm dest!: same_store_dispatch)
  then have "same_store s s'" if "parse_request env rt buffer toks s = Some (reply, stop, s')" for buffer toks reply stop s'
    using that by (auto simp: parse_request_def elim!: bind_SomeE split: option.split_asm if_split_asm)
  then show "read_json env rt jc s = Some (next_plan, jc', s') \<Longrightarrow> same_store s s'"
    by (auto simp: read_json_def Let_def elim!: bind_SomeE split: option.split_asm if_split_asm prod.split_asm)
qed

lemma daemon_step_stores:
  "alloc_peer s = Some s' \<Longrightarrow> same_store s s'" "destroy_peer s k = Some s' \<Longrightarrow> same_store s s'"
  "plan_output s k = Some (plan, s') \<Longrightarrow> same_store s s'" "check_sync_or_horizon s k pkt = Some (setup, s') \<Longrightarrow> same_store s s'"
  "welcome_received hash64 now my_uuid others s pc k you w = Some (setup, s', pc', you') \<Longrightarrow> same_store s s'"
  "read_json env rt jc s = Some (next_plan, jc', s') \<Longrightarrow> same_store s s'"
  by (fact same_store_connect same_store_destroy same_store_write same_store_sync same_store_welcome same_store_request)+

context store_steps
begin

lemma load_blocks_I:
  assumes "\<And>s. st_heap s (alloc s) = None" "load_blocks rt alloc s saved = Some (s', saved', pos)"
  shows "I s \<longrightarrow> I s'"
  using assms(2) by (auto simp: load_blocks_def Let_def elim!: bind_SomeE split: if_splits dest!: load_packets_I[OF assms(1)])

end

lemma daemon_step_grows: "daemon_step ssl s s' \<Longrightarrow> grows ssl (st_heap s) (st_heap s')"
proof (induction rule: daemon_step.induct)
  case (step_packet rt pkt s new hash64 coins junk pc k plan s' pc')
  then show ?case using history.pkt_in_I[OF step_packet(4,2,3), of "st_heap s"] by simp
next
  case (step_generated rt pkt s new shards good s')
  then show ?case using history.recv_block_from_generator_I[OF step_generated(4,2,3), of "st_heap s"] by simp
next
  case (step_load rt alloc s saved s' saved' pos)
  then show ?case using history.load_blocks_I[OF step_load(2,3), of "st_heap s"] by simp
qed (simp_all add: daemon_step_stores[unfolded same_store_def])

lemma same_store_shape:
  "same_store s s' \<Longrightarrow> bn_ok ssl \<longrightarrow> length (st_block_depth s) < 2 ^ 32 \<longrightarrow> store_ok s \<Longrightarrow>
   bn_ok ssl \<longrightarrow> length (st_block_depth s') < 2 ^ 32 \<longrightarrow> store_ok s'"
  by (simp add: same_store_def store_ok_def levels_ok_def)

lemma daemon_step_shape:
  "daemon_step ssl s s' \<Longrightarrow> bn_ok ssl \<longrightarrow> length (st_block_depth s) < 2 ^ 32 \<longrightarrow> store_ok s \<Longrightarrow>
   bn_ok ssl \<longrightarrow> length (st_block_depth s') < 2 ^ 32 \<longrightarrow> store_ok s'"
proof (induction rule: daemon_step.induct)
  case (step_packet rt pkt s new hash64 coins junk pc k plan s' pc')
  then show ?case using shape.pkt_in_I[OF step_packet(4,2,3)] by simp
next
  case (step_generated rt pkt s new shards good s')
  then show ?case using shape.recv_block_from_generator_I[OF step_generated(4,2,3)] by simp
next
  case (step_load rt alloc s saved s' saved' pos)
  then show ?case using shape.load_blocks_I[OF step_load(2,3)] by simp
qed (metis same_store_shape daemon_step_stores)+

subsection \<open>The start\<close>

lemma mkgenesis_block:
  assumes "mkgenesis ssl difficulty timestamp nonce = Some gb"
  shows "block_ok gb" "b_prev gb = None" "b_children gb = []" "b_complaint gb = None" "b_depth gb = 0" "b_all_known gb"
    "bh_depth (b_hdr gb) = 0"
proof -
  from assms obtain merkle where m: "merkle_hashes ssl [] 0 0 = Some merkle"
      and gb: "b_parts gb = \<lparr>bp_hdr = \<lparr>bh_version = current_version, bh_features_vote = 0, bh_shard_order = PROTOCOL_INITIAL_SHARD_ORDER,
                  bh_nonce2 = drop 4 nonce, bh_prev_block = replicate 32 0, bh_num_prev_txhashes = 0, bh_depth = 0,
                  bh_fees_to = replicate 20 0\<rparr>,
                bp_shard_nums = replicate 4 0, bp_merkles = replicate 4 merkle, bp_prev_txhashes = [],
                bp_tailer = \<lparr>bt_timestamp = timestamp, bt_difficulty = difficulty, bt_nonce1 = le32_to_cpu (take 4 nonce)\<rparr>\<rparr>"
      and f: "b_prev gb = None" "b_children gb = []" "b_complaint gb = None" "b_all_known gb"
      and sh: "b_shard gb = map (\<lambda>i. new_block_shard (word_of_nat i) 0) [0..<4]"
    by (auto simp: mkgenesis_def mkgenesis_parts_def Let_def c_simps elim!: bind_SomeE split: if_splits)
  have n: "unat (num_shards (b_hdr gb)) = 4" by (simp add: gb num_shards_def c_simps)
  have size: "bs_size (new_block_shard i 0) = 0" for i by (simp add: new_block_shard_def)
  have "shard_ok (b_shard gb ! i) \<and> bs_size (b_shard gb ! i) = b_shard_nums gb ! i" if "i < length (b_shard gb)" for i
    using that by (simp add: sh gb shard_ok_new size nth_append)
  then show "block_ok gb" using n by (simp add: block_ok_def gb sh c_simps)
  show "b_prev gb = None" "b_children gb = []" "b_complaint gb = None" "b_all_known gb" by (fact f)+
  show "b_depth gb = 0" "bh_depth (b_hdr gb) = 0" by (simp_all add: gb)
qed

lemma new_state_simps [simp]:
  "st_heap (new_state t g gb) = [g \<mapsto> gb\<lparr>b_total_work := 0\<rparr>]" "st_block_depth (new_state t g gb) = [[g]]"
  "st_longest_chains (new_state t g gb) = [g]" "st_longest_knowns (new_state t g gb) = [g]"
  "st_preferred_chain (new_state t g gb) = g" "st_todo (new_state t g gb) = []" "st_pending (new_state t g gb) = new_pending_block"
  "st_txhash (new_state t g gb) = []" "st_inputhash (new_state t g gb) = []" "st_peers (new_state t g gb) = []"
  "st_peer_map (new_state t g gb) = replicate MAX_PEERS False"
  by (simp_all add: new_state_def)

lemma new_state_tree:
  assumes "mkgenesis ssl difficulty timestamp nonce = Some gb"
  shows "tree_ok (st_heap (new_state t g gb))" "store_ok (new_state t g gb)"
proof -
  note gb = mkgenesis_block[OF assms]
  have "heap_ok [g \<mapsto> gb\<lparr>b_total_work := 0\<rparr>]" using gb by (auto simp: heap_ok_def node_ok_def split: if_splits)
  moreover have bok: "block_ok (gb\<lparr>b_total_work := 0\<rparr>)" using gb(1) by (simp add: block_ok_def)
  moreover have "inherits [g \<mapsto> gb\<lparr>b_total_work := 0\<rparr>]" using gb(2) by (auto simp: inherits_def split: if_splits)
  ultimately show "tree_ok (st_heap (new_state t g gb))" "store_ok (new_state t g gb)"
    using block_ok_layout[OF bok] gb(7)
    by (auto simp: tree_ok_iff blocks_total_def store_ok_def levels_ok_def split: if_splits)
qed

text \<open>
  C25. The state the daemon starts in, with the genesis block \<open>mkgenesis\<close> prints, satisfies every
  invariant the other theories keep: the block store and its levels, the arrays of longest chains
  and the preferred chain, the hash tables, the pending transactions and the queue of questions.
\<close>

theorem initial_state_ok:
  assumes "mkgenesis ssl difficulty timestamp nonce = Some gb"
  shows "store_ok (new_state test_net genesis gb) \<and> chains_inv {} {} (new_state test_net genesis gb) \<and>
    preferred_ok (new_state test_net genesis gb) \<and> hashes_ok ssl (new_state test_net genesis gb) \<and>
    pending_inv ssl (st_pending (new_state test_net genesis gb)) \<and> todo_inv (new_state test_net genesis gb)"
proof -
  let ?s = "new_state test_net genesis gb" and ?g = "gb\<lparr>b_total_work := 0\<rparr>"
  note gb = mkgenesis_block[OF assms]
  have lv: "live (st_heap ?s) b \<longleftrightarrow> b = genesis" for b using gb(4) by (simp add: live_def)
  have ak: "all_known (st_heap ?s) b \<longleftrightarrow> b = genesis" for b using gb(6) by (simp add: all_known_def)
  have best: "best (st_heap ?s) {genesis} = {genesis}" by (auto simp: best_def)
  have sets: "{b. live (st_heap ?s) b} - {} = {genesis}" "{b. live (st_heap ?s) b \<and> all_known (st_heap ?s) b} = {genesis}"
    using lv ak by auto
  have "chains_inv {} {} ?s"
    unfolding chains_inv_def sets using new_state_tree(1)[OF assms] lv ak best by (simp add: tips_def)
  moreover have "preferred_ok ?s"
  proof -
    have "visits (st_heap ?s) (live (st_heap ?s)) (live (st_heap ?s)) genesis d \<longleftrightarrow> d = genesis" for d
      by (subst visits.simps) (use lv gb(3) in auto)
    then have "live_below (st_heap ?s) genesis = {genesis}" by (auto simp: live_below_def)
    then show ?thesis using best by (simp add: preferred_ok_def)
  qed
  moreover have "todo_inv ?s" by (simp add: todo_inv_def)
  ultimately show ?thesis
    using new_state_tree(2)[OF assms] new_pending_inv[of ssl] by (simp add: hashes_ok_def)
qed

text \<open>
  C6. Nothing that was learned about a block is given up: whatever events follow, a block stays in
  the store with the same identity, predecessor, header and work; its children, its complaint and
  its mark as completely known stay; and a transaction it holds stays in its place, a hash stays or
  is replaced by the transaction it is the hash of.
\<close>

theorem blocks_are_never_forgotten:
  assumes "(daemon_step ssl)\<^sup>*\<^sup>* s s'"
  shows "grows ssl (st_heap s) (st_heap s')"
  using assms by (induction rule: rtranclp_induct) (auto intro: grows_trans daemon_step_grows)

text \<open>
  C5. In every state the daemon reaches from its start, whatever packets, generated blocks and saved
  blocks it is given, the block store is well formed: a tree with one root, in which every header
  names its predecessor and carries the depth above it; listed level by level; with work that grows
  and complaints that are inherited along the chain; every array of a block of the length its header
  announces, and the counters of every shard right. This needs a chain of less than \<open>2 ^ 32\<close>
  blocks, whose depths fit in their fields.
\<close>

theorem store_stays_well_formed:
  assumes "daemon_reach ssl s" "bn_ok ssl" "length (st_block_depth s) < 2 ^ 32"
  shows "store_ok s"
proof -
  have "bn_ok ssl \<longrightarrow> length (st_block_depth s) < 2 ^ 32 \<longrightarrow> store_ok s"
    using assms(1)
  proof (induction rule: daemon_reach.induct)
    case (reach_start difficulty timestamp nonce gb test_net genesis)
    then show ?case using new_state_tree(2) by blast
  next
    case (reach_step s s')
    then show ?case using daemon_step_shape by blast
  qed
  then show ?thesis using assms(2,3) by blast
qed

subsection \<open>Examples\<close>

lemma ex_genesis: "\<exists>gb. mkgenesis zero_ssl 0x1E01FFFF 1000 (replicate 17 9) = Some gb"
proof -
  have "mroot (SHA256_Double_Final zero_ssl) f (Suc 7) 0 = replicate 32 0" for f by (simp only: mroot.simps zero_digest)
  then have "merkle_hashes zero_ssl [] 0 0 = Some (replicate 32 0)" using merkle_hashes_root[of "[]" zero_ssl] by (simp add: shard_root_def)
  then show ?thesis
    by (simp add: mkgenesis_def mkgenesis_parts_def hash_block_def Let_def c_simps c_slice_def c_assert_def
        length_concat sum_list_replicate)
qed

theorem initial_state_ok_witness:
  "\<exists>gb. mkgenesis zero_ssl 0x1E01FFFF 1000 (replicate 17 9) = Some gb \<and> store_ok (new_state False 5 gb) \<and>
     chains_inv {} {} (new_state False 5 gb) \<and> todo_inv (new_state False 5 gb)"
  using ex_genesis initial_state_ok by blast

text \<open>A peer connects to the daemon that has just started.\<close>

definition ex_first_peer :: peer where
  "ex_first_peer = \<lparr>p_num = 0, p_we_are_syncing = True, p_they_are_syncing = True, p_error_pkt = None, p_welcome = None,
     p_requests_outstanding = 0, p_todo = []\<rparr>"

lemma ex_connect: "\<exists>s'. alloc_peer (new_state t g gb) = Some s' \<and> st_peers s' = [ex_first_peer] \<and> st_block_depth s' = [[g]] \<and>
    st_heap s' = st_heap (new_state t g gb)"
  by (simp add: alloc_peer_def get_peernum_def MAX_PEERS_def ex_first_peer_def Let_def replicate_Suc[of 63, simplified])

theorem store_stays_well_formed_witness:
  "\<exists>s. daemon_reach zero_ssl s \<and> st_peers s = [ex_first_peer] \<and> store_ok s"
proof -
  obtain gb where gb: "mkgenesis zero_ssl 0x1E01FFFF 1000 (replicate 17 9) = Some gb" using ex_genesis by blast
  obtain s' where s': "alloc_peer (new_state False 5 gb) = Some s'" "st_peers s' = [ex_first_peer]" "st_block_depth s' = [[5]]"
    using ex_connect by blast
  have r: "daemon_reach zero_ssl s'" by (rule reach_step[OF reach_start[OF gb] step_connect[OF s'(1)]])
  have "bn_ok zero_ssl" by (simp add: zero_runtime_def bn_ok_SHA256 bn_ok_model)
  then show ?thesis using store_stays_well_formed[OF r] s'(2,3) r by auto
qed

text \<open>The map of a block the daemon has not heard of arrives.\<close>

lemma ex_txmap_ok: "pkt_ok ex_txmap"
  unfolding pkt_ok_def by (simp add: ex_txmap_def cpu_to_le32_def cpu_to_le16_def)

lemma ex_txmap_step: "daemon_step (rt_ssl ex_runtime) (ex_state 3) (todo_add_get_block (ex_state 3) (replicate 32 7))"
proof (rule step_packet[where new = 4 and k = 0 and pkt = ex_txmap and pc = ex_cache])
  show "pkt_in ex_runtime (\<lambda>_ _. 0) (\<lambda>_. False) [] 4 (ex_state 3) ex_cache 0 ex_txmap =
    Some (Conn_read_next, todo_add_get_block (ex_state 3) (replicate 32 7), ex_cache)"
  proof -
    have "rd32 ex_txmap 4 = Some PROTOCOL_PKT_TXMAP"
      unfolding ex_txmap_def by (rule rd32_append) (simp add: cpu_to_le32_def)
    moreover have "recheck_pending_txs ex_runtime (todo_add_get_block (ex_state 3) (replicate 32 7)) =
        Some (todo_add_get_block (ex_state 3) (replicate 32 7))"
      by (simp add: recheck_pending_txs_def todo_add_get_block_def new_todo_request_def Let_def emit_def ex_state_def)
    ultimately show ?thesis
      by (simp add: pkt_in_def handle_packet_def no_reply_def recv_ex_txmap packet_types)
  qed
qed (simp_all add: ex_txmap_ok ex_state_def ex_heap_def)

theorem blocks_are_never_forgotten_witness:
  "grows (rt_ssl ex_runtime) (ex_heap 3) (st_heap (todo_add_get_block (ex_state 3) (replicate 32 7)))"
  using blocks_are_never_forgotten[OF r_into_rtranclp[of "daemon_step (rt_ssl ex_runtime)", OF ex_txmap_step]]
  by (simp add: ex_state_def)

end
