(* ===== verification/Rpc_stream.thy ===== *)
theory Rpc_stream
  imports Jsonrpc
begin

text \<open>
  A request arrives in pieces. A piece of a text is told apart from a text with an error, so that a
  request is answered once and only when all of it is there, however it was cut; but what follows a
  backslash is read although it has not arrived.
\<close>

subsection \<open>Scanning a part of a text\<close>

text \<open>
  \<open>t\<close> is the whole text, and the buffer \<open>js\<close> holds its first \<open>len1\<close> characters, which have no backslash.
\<close>

definition starts :: "string \<Rightarrow> nat \<Rightarrow> string \<Rightarrow> bool" where
  "starts js len1 t \<longleftrightarrow> len1 \<le> length js \<and> len1 \<le> length t \<and> take len1 js = take len1 t \<and> CHR 0x5C \<notin> set (take len1 t)"

lemma starts_nth:
  assumes "starts js len1 t" "i < len1"
  shows "js ! i = t ! i \<and> js ! i \<noteq> CHR 0x5C"
proof -
  have "take len1 t ! i = t ! i" "take len1 js ! i = js ! i" using assms(2) by simp_all
  moreover have "take len1 t ! i \<in> set (take len1 t)" using assms by (intro nth_mem) (simp add: starts_def)
  ultimately show ?thesis using assms(1) unfolding starts_def by metis
qed

lemma starts_c_nth: "starts js len1 t \<Longrightarrow> i < len1 \<Longrightarrow> c_nth js i = c_nth t i"
  using starts_nth[of js len1 t i] by (auto simp: starts_def c_nth_def)

lemma prim_scan_prefix:
  assumes "starts js len1 t" "len1 \<le> len"
  shows "prim_scan js len1 pos \<noteq> Some (Inl JSMN_ERROR_PART) \<Longrightarrow> prim_scan t len pos = prim_scan js len1 pos"
proof (induction "len1 - pos" arbitrary: pos rule: less_induct)
  case less
  show ?case
  proof (cases "pos < len1")
    case True
    then have "c_nth t pos = c_nth js pos" "pos < len" using starts_c_nth[OF assms(1)] assms(2) by simp_all
    then show ?thesis using True less.hyps[of "Suc pos"] less.prems
      by (subst (1 2) prim_scan.simps, subst (asm) prim_scan.simps) (auto split: option.splits if_split_asm simp del: c_nth_eq_Some)
  next
    case False
    then show ?thesis using less.prems by (subst (asm) prim_scan.simps) simp
  qed
qed

lemma str_scan_prefix:
  assumes "starts js len1 t" "len1 \<le> len"
  shows "str_scan js len1 pos \<noteq> Some (Inl JSMN_ERROR_PART) \<Longrightarrow> str_scan t len pos = str_scan js len1 pos"
proof (induction "len1 - pos" arbitrary: pos rule: less_induct)
  case less
  show ?case
  proof (cases "pos < len1")
    case True
    have c: "c_nth js pos = Some (js ! pos)" "js ! pos \<noteq> CHR 0x5C" "c_nth t pos = Some (js ! pos)" "pos < len"
      using True starts_nth[OF assms(1) True] assms starts_c_nth[OF assms(1) True] by (auto simp: starts_def)
    then show ?thesis using True less.hyps[of "Suc pos"] less.prems
      by (subst (1 2) str_scan.simps, subst (asm) str_scan.simps) (auto split: if_split_asm simp del: c_nth_eq_Some)
  next
    case False
    then show ?thesis using less.prems by (subst (asm) str_scan.simps) simp
  qed
qed

lemma jsmn_char_prefix:
  assumes "starts js len1 t" "len1 \<le> len" "jsmn_char js len1 num c k p \<noteq> Some (Inl JSMN_ERROR_PART)"
  shows "jsmn_char t len num c k p = jsmn_char js len1 num c k p"
proof -
  have "jsmn_parse_primitive t len num p = jsmn_parse_primitive js len1 num p" if "jsmn_parse_primitive js len1 num p \<noteq> Some (Inl JSMN_ERROR_PART)"
    using prim_scan_prefix[OF assms(1,2), of "jp_pos p"] that
    by (cases "prim_scan js len1 (jp_pos p) = Some (Inl JSMN_ERROR_PART)") (auto simp: jsmn_parse_primitive_def)
  moreover have "jsmn_parse_string t len num p = jsmn_parse_string js len1 num p" if "jsmn_parse_string js len1 num p \<noteq> Some (Inl JSMN_ERROR_PART)"
    using str_scan_prefix[OF assms(1,2), of "jp_pos p + 1"] that
    by (cases "str_scan js len1 (jp_pos p + 1) = Some (Inl JSMN_ERROR_PART)") (auto simp: jsmn_parse_string_def Let_def)
  moreover have "r \<noteq> Some (Inl JSMN_ERROR_PART)" if "then_count k r \<noteq> Some (Inl JSMN_ERROR_PART)" for r
    using that by (auto simp: then_count_def)
  ultimately have
    "then_count k (jsmn_parse_primitive js len1 num p) \<noteq> Some (Inl JSMN_ERROR_PART) \<Longrightarrow>
       then_count k (jsmn_parse_primitive t len num p) = then_count k (jsmn_parse_primitive js len1 num p)"
    "then_count k (jsmn_parse_string js len1 num p) \<noteq> Some (Inl JSMN_ERROR_PART) \<Longrightarrow>
       then_count k (jsmn_parse_string t len num p) = then_count k (jsmn_parse_string js len1 num p)"
    by metis+
  then show ?thesis using assms(3) unfolding jsmn_char_def by (auto split: if_split_asm)
qed

lemma jsmn_loop_prefix:
  assumes "starts js len1 t" "len1 \<le> len" "r = None \<or> r = Some (Inl JSMN_ERROR_INVAL)"
  shows "jsmn_loop js len1 num k p = r \<Longrightarrow> jsmn_loop t len num k p = r"
  using assms
proof (induction js len1 num k p rule: jsmn_loop.induct)
  case (1 js len1 num k p)
  from 1(2) have lt: "jp_pos p < len1" using 1(5) by (subst (asm) jsmn_loop.simps) (auto split: if_split_asm)
  have c: "c_nth js (jp_pos p) = Some (js ! jp_pos p)" "c_nth t (jp_pos p) = Some (js ! jp_pos p)" "jp_pos p < len"
    using lt starts_nth[OF 1(3) lt] starts_c_nth[OF 1(3) lt] 1(3,4) by (auto simp: starts_def)
  let ?r = "jsmn_char js len1 num (js ! jp_pos p) k p"
  have nz: "js ! jp_pos p \<noteq> CHR 0x00" using 1(2,5) lt c(1) by (subst (asm) jsmn_loop.simps) auto
  have step: "jsmn_loop js len1 num k p = (case ?r of None \<Rightarrow> None | Some (Inl e) \<Rightarrow> Some (Inl e)
      | Some (Inr (k1, p1)) \<Rightarrow> jsmn_loop js len1 num k1 (p1\<lparr>jp_pos := jp_pos p1 + 1\<rparr>))"
    using lt c(1) nz by (subst jsmn_loop.simps) (simp del: c_nth_eq_Some)
  have "?r \<noteq> Some (Inl JSMN_ERROR_PART)" using step 1(2,5) by auto
  from jsmn_char_prefix[OF 1(3,4) this]
  have step2: "jsmn_loop t len num k p = (case ?r of None \<Rightarrow> None | Some (Inl e) \<Rightarrow> Some (Inl e)
      | Some (Inr (k1, p1)) \<Rightarrow> jsmn_loop t len num k1 (p1\<lparr>jp_pos := jp_pos p1 + 1\<rparr>))"
    using c nz by (subst jsmn_loop.simps) (simp del: c_nth_eq_Some)
  show ?case using 1(1)[OF lt c(1) nz] step 1(2-5) unfolding step2
    by (auto split: option.splits sum.splits prod.splits)
qed

subsection \<open>A part of a value is no value\<close>

lemma part_cong: "take n js = take n t \<Longrightarrow> e \<le> n \<Longrightarrow> part js i e = part t i e"
proof -
  assume "take n js = take n t" "e \<le> n"
  then have "take e js = take e t" by (metis min.absorb1 take_take)
  then have "drop i (take e js) = drop i (take e t)" by simp
  then show ?thesis by (simp add: Jsmn.part_def drop_take)
qed

lemma nth_cong: "take n js = take n t \<Longrightarrow> i < n \<Longrightarrow> js ! i = t ! i"
  by (metis nth_take)

lemma renders_cong:
  assumes "take n js = take n t" "n \<le> len"
  shows "renders js n i k ns \<Longrightarrow> renders t len i k ns"
proof (induction rule: renders.induct)
  case (r_skip i k ns)
  then show ?case using assms(2) nth_cong[OF assms(1) r_skip.hyps(1)] by (intro renders.r_skip[of i len t k ns]) auto
next
  case (r_prim i e k ns)
  have eqs: "t ! i = js ! i" "t ! e = js ! e" "part t i e = part js i e" "e < len"
    using nth_cong[OF assms(1), of i] nth_cong[OF assms(1), of e] part_cong[OF assms(1), of e i] r_prim.hyps(2,3) assms(2) by auto
  show ?case by (rule renders.r_prim) (use r_prim eqs in simp_all)
next
  case (r_string i e k ns)
  have eqs: "t ! i = js ! i" "t ! e = js ! e" "part t (Suc i) e = part js (Suc i) e" "e < len"
    using nth_cong[OF assms(1), of i] nth_cong[OF assms(1), of e] part_cong[OF assms(1), of e "Suc i"] r_string.hyps(2,3) assms(2) by auto
  show ?case by (rule renders.r_string) (use r_string eqs in simp_all)
next
  case (r_container ty i e kids k ns)
  have eqs: "t ! i = js ! i" "t ! e = js ! e" "e < len"
    using nth_cong[OF assms(1), of i] nth_cong[OF assms(1), of e] r_container.hyps(2,3) assms(2) by auto
  show ?case by (rule renders.r_container) (use r_container eqs in simp_all)
qed (rule r_done)

lemma exclusive:
  "skipped c \<Longrightarrow> \<not> prim_start c \<and> c \<noteq> CHR 0x22 \<and> \<not> opener ty c \<and> \<not> closer ty c"
  "prim_start c \<Longrightarrow> \<not> skipped c \<and> c \<noteq> CHR 0x22 \<and> \<not> opener ty c \<and> \<not> closer ty c"
  "c = CHR 0x22 \<Longrightarrow> \<not> skipped c \<and> \<not> prim_start c \<and> \<not> opener ty c \<and> \<not> closer ty c"
  "opener ty c \<Longrightarrow> \<not> skipped c \<and> \<not> prim_start c \<and> c \<noteq> CHR 0x22 \<and> \<not> closer ty2 c"
  "closer ty c \<Longrightarrow> \<not> skipped c \<and> \<not> prim_start c \<and> c \<noteq> CHR 0x22 \<and> \<not> opener ty2 c"
  using char_classes(1,2)[of c] char_classes(3,4)[of ty c] char_classes(3,4)[of ty2 c] by auto

lemma renders_ends:
  assumes "len \<le> length js"
  shows "renders js len i e ns \<Longrightarrow> closer ty (js ! e) \<Longrightarrow> renders js len i e2 ns2 \<Longrightarrow>
    e2 \<le> e \<and> (closer ty2 (js ! e2) \<longrightarrow> e2 = e)"
proof (induction arbitrary: e2 ns2 ty ty2 rule: renders.induct)
  case (r_done i)
  note ex = exclusive(5)[OF r_done(1)]
  from r_done(2) show ?case
    by (cases rule: renders.cases) (use ex in blast)+
next
  case (r_skip i e ns)
  have "i \<le> e" using renders_le[OF r_skip.hyps(3)] by simp
  note ex = exclusive(1)[OF r_skip.hyps(2)] and rest = r_skip.IH[OF r_skip.prems(1)]
  from r_skip.prems(2) show ?case
    by (cases rule: renders.cases) (use ex rest \<open>i \<le> e\<close> in blast)+
next
  case (r_prim i q e ns)
  have "i \<le> e" using renders_le[OF r_prim.hyps(6)] r_prim.hyps(2) by simp
  have q: "q' = q" if "i < q'" "q' < len" "list_all prim_char (part js i q')" "prim_end (js ! q')" for q'
    using prim_scan_eq[OF assms, of i q] prim_scan_eq[OF assms, of i q'] r_prim.hyps that by simp
  note ex = exclusive(2)[OF r_prim.hyps(1)] and rest = r_prim.IH[OF r_prim.prems(1)]
  from r_prim.prems(2) show ?case
    by (cases rule: renders.cases) (use ex rest q \<open>i \<le> e\<close> in blast)+
next
  case (r_string i q e ns)
  have "i \<le> e" using renders_le[OF r_string.hyps(6)] r_string.hyps(2) by simp
  have q: "q' = q" if "i < q'" "q' < len" "string_body (part js (Suc i) q')" "js ! q' = CHR 0x22" for q'
    using str_scan_eq[OF assms, of "Suc i" q] str_scan_eq[OF assms, of "Suc i" q'] r_string.hyps that by simp
  note ex = exclusive(3)[OF r_string.hyps(1)] and rest = r_string.IH[OF r_string.prems(1)]
  from r_string.prems(2) show ?case
    by (cases rule: renders.cases) (use ex rest q \<open>i \<le> e\<close> in blast)+
next
  case (r_container ty1 i q kids e ns)
  have "i \<le> e" using renders_le[OF r_container.hyps(6)] r_container.hyps(2) by simp
  have q: "q' = q" if "renders js len (Suc i) q' kids'" "closer t' (js ! q')" for q' kids' t'
    using r_container.IH(1)[OF r_container.hyps(5) that(1), of t'] that(2) by simp
  note ex = exclusive(4)[OF r_container.hyps(1)] and rest = r_container.IH(2)[OF r_container.prems(1)]
  from r_container.prems(2) show ?case
    by (cases rule: renders.cases) (use ex rest q \<open>i \<le> e\<close> in blast)+
qed

text \<open>A text that is one object or array, and its beginning.\<close>

definition one_container :: "string \<Rightarrow> node \<Rightarrow> bool" where
  "one_container t n \<longleftrightarrow> (\<exists>ty kids. n = Node ty 0 (length t) kids) \<and> renders t (length t) 0 (length t) [n]"

lemma container_ends:
  assumes "one_container t n"
  obtains ty e kids where "n = Node ty 0 (Suc e) kids" "length t = Suc e" "0 < e" "opener ty (t ! 0)" "closer ty (t ! e)"
    "renders t (length t) 1 e kids"
proof -
  obtain ty kids where n: "n = Node ty 0 (length t) kids" and r: "renders t (length t) 0 (length t) [n]"
    using assms by (auto simp: one_container_def)
  have down: "renders js len i k ns \<Longrightarrow> i = 0 \<Longrightarrow> ns = [Node ty 0 (length t) kids] \<Longrightarrow> len = length t \<Longrightarrow>
      \<exists>e. length t = Suc e \<and> 0 < e \<and> opener ty (js ! 0) \<and> closer ty (js ! e) \<and> renders js len 1 e kids" for js len i k ns
  proof (induction rule: renders.induct)
    case (r_skip i k ns)
    have "\<not> (\<exists>n \<in> set ns. case n of Node _ b _ _ \<Rightarrow> b < j | _ \<Rightarrow> False)" if "renders js len j k ns" for j
      using that by (induction rule: renders.induct) (auto split: node.splits)
    then show ?case using r_skip by fastforce
  next
    case (r_container ty i e kids k ns)
    then show ?case by (intro exI[of _ e]) auto
  qed auto
  show thesis using down[OF r refl n[THEN arg_cong, of "\<lambda>n. [n]"] refl] that n by auto
qed

lemma part_is_no_text:
  assumes "starts js len1 t" "0 < len1" "len1 < length t" "one_container t n"
  shows "\<not> text_renders js len1 ns"
proof
  assume "text_renders js len1 ns"
  then obtain k where k: "k \<le> len1" "k = len1 \<or> js ! k = CHR 0x00" "renders js len1 0 k ns" by (auto simp: text_renders_def)
  obtain ty e kids where c: "length t = Suc e" "opener ty (t ! 0)" "closer ty (t ! e)" "renders t (length t) 1 e kids"
    using container_ends[OF assms(4)] by metis
  have "take len1 js = take len1 t" using assms(1) by (simp add: starts_def)
  from renders_cong[OF this _ k(3)] have r: "renders t (length t) 0 k ns" using assms(3) by simp
  have ends: "e' = e" if "renders t (length t) (Suc 0) e' kids'" "closer ty' (t ! e')" for e' kids' ty'
    using renders_ends[OF order_refl c(4,3), of e' kids' ty'] that by simp
  note ex = exclusive(4)[OF c(2)]
  from r have "k = 0 \<or> e < k"
  proof (cases rule: renders.cases)
    case (r_container ty' e' kids' ns')
    then show ?thesis using ends renders_le[OF r_container(7)] by fastforce
  qed (use ex in auto)
  moreover have "js ! 0 = t ! 0" using starts_nth[OF assms(1), of 0] assms(2) by simp
  then have "js ! 0 \<noteq> CHR 0x00" using c(2) by (cases ty) auto
  ultimately show False using k(1,2) assms(2,3) c(1) by auto
qed

lemma parse_cases:
  obtains "r = None" | "r = Some (Inl JSMN_ERROR_INVAL)" | "r = Some (Inl JSMN_ERROR_PART)" | "r = Some (Inl JSMN_ERROR_NOMEM)" | x where "r = Some (Inr x)"
  by (cases r; cases "the r"; cases "projl (the r)") auto

lemma jsmn_parse_waits:
  assumes "starts js len1 t" "0 < len1" "len1 < length t" "one_container t n"
  shows "jsmn_parse jsmn_init js len1 num = Some (Inl JSMN_ERROR_PART) \<or> jsmn_parse jsmn_init js len1 num = Some (Inl JSMN_ERROR_NOMEM)"
proof -
  have rt: "text_renders t (length t) [n]" using assms(4) by (auto simp: one_container_def text_renders_def)
  have whole: "jsmn_parse jsmn_init t (length t) num \<noteq> None" "jsmn_parse jsmn_init t (length t) num \<noteq> Some (Inl JSMN_ERROR_INVAL)"
    using jsmn_parse_renders[OF order_refl, of t "[n]" num] rt by simp_all
  have go: "jsmn_loop t (length t) num 0 jsmn_init = r" if "jsmn_loop js len1 num 0 jsmn_init = r" "r = None \<or> r = Some (Inl JSMN_ERROR_INVAL)" for r
    using jsmn_loop_prefix[OF assms(1) _ that(2,1), of "length t"] assms(3) by simp
  have no: "jsmn_loop js len1 num 0 jsmn_init \<noteq> None" "jsmn_loop js len1 num 0 jsmn_init \<noteq> Some (Inl JSMN_ERROR_INVAL)"
  proof -
    have "jsmn_loop t (length t) num 0 jsmn_init \<noteq> None" using whole(1) by (auto simp: jsmn_parse_def elim!: bind_SomeE)
    then show "jsmn_loop js len1 num 0 jsmn_init \<noteq> None" using go[of None] by metis
    have "jsmn_loop t (length t) num 0 jsmn_init \<noteq> Some (Inl JSMN_ERROR_INVAL)" using whole(2) by (auto simp: jsmn_parse_def)
    then show "jsmn_loop js len1 num 0 jsmn_init \<noteq> Some (Inl JSMN_ERROR_INVAL)" using go[of "Some (Inl JSMN_ERROR_INVAL)"] by metis
  qed
  have nr: "jsmn_parse jsmn_init js len1 num \<noteq> Some (Inr x)" for x
    using jsmn_parse_eq[of len1 js num "fst x" "snd x"] part_is_no_text[OF assms] assms(1) by (auto simp: starts_def)
  have "jsmn_parse jsmn_init js len1 num \<noteq> None" "jsmn_parse jsmn_init js len1 num \<noteq> Some (Inl JSMN_ERROR_INVAL)"
    using no by (cases "jsmn_loop js len1 num 0 jsmn_init"; auto simp: jsmn_parse_def split: sum.splits prod.splits if_splits)+
  then show ?thesis by (cases "jsmn_parse jsmn_init js len1 num" rule: parse_cases) (use nr in blast)+
qed

lemma incomplete_waits:
  assumes "starts js len1 t" "0 < len1" "len1 < length t" "one_container t n"
  shows "json_parse_input js len1 = Some (True, None)"
proof -
  have "parse_again js len1 num = Some (True, None)" for num
  proof (induction "len1 - num" arbitrary: num rule: less_induct)
    case less
    from jsmn_parse_waits[OF assms, of num] show ?case
    proof
      assume nomem: "jsmn_parse jsmn_init js len1 num = Some (Inl JSMN_ERROR_NOMEM)"
      have "num < len1" using jsmn_parse_nomem[OF nomem] .
      then show ?thesis using less[of "(num + 1) * 2 - 1"] nomem by (subst parse_again.simps) simp
    qed (subst parse_again.simps, simp)
  qed
  then show ?thesis by (simp add: json_parse_input_def)
qed

subsection \<open>The connection\<close>

definition arrives :: "nat \<Rightarrow> string \<Rightarrow> json_connection \<Rightarrow> json_connection" where
  \<comment> \<open>\<open>io_read_partial\<close> puts what arrived at the place of the buffer it was given, and tells its length\<close>
  "arrives off d jc = jc\<lparr>jc_buffer := take off (jc_buffer jc) @ d @ drop (off + length d) (jc_buffer jc), jc_len_read := length d\<rparr>"

fun rpc_reads ::
    "rpc_env \<Rightarrow> runtime \<Rightarrow> string list \<Rightarrow> rpc_plan \<times> json_connection \<times> state \<Rightarrow> (rpc_plan \<times> json_connection \<times> state \<times> string list) option" where
  \<comment> \<open>the reader as long as it waits for input and pieces arrive; the last component is what it did not read\<close>
  "rpc_reads env rt (d # ds) (Rpc_read off len, jc, s) =
     do { r \<leftarrow> read_json env rt (arrives off d jc) s; rpc_reads env rt ds r }"
| "rpc_reads env rt ds (plan, jc, s) = Some (plan, jc, s, ds)"

fun fits :: "nat \<Rightarrow> nat \<Rightarrow> string list \<Rightarrow> bool" where
  \<comment> \<open>no piece is empty or longer than the room that is left\<close>
  "fits room used [] = True"
| "fits room used (d # ds) =
     (d \<noteq> [] \<and> length d \<le> room - used
      \<and> fits (if used + length d = room then 2 * room else room) (used + length d) ds)"

definition answered :: "nat \<Rightarrow> json_connection \<Rightarrow> string option \<times> bool \<times> state \<Rightarrow> rpc_plan \<times> string list \<times> bool \<times> nat \<times> state \<times> string list" where
  \<comment> \<open>what the reader waits for, the replies to send, whether to stop, how much of the buffer is in use, the state and the pieces left\<close>
  "answered len jc = (\<lambda>(reply, stop, s).
     case reply of
       None \<Rightarrow> (Rpc_close, jc_output jc, stop \<or> jc_stop jc, len, s, [])
     | Some r \<Rightarrow> (Rpc_wait_writer, jc_output jc @ [r], stop \<or> jc_stop jc, 0, s, []))"

definition seen :: "rpc_plan \<times> json_connection \<times> state \<times> string list \<Rightarrow> rpc_plan \<times> string list \<times> bool \<times> nat \<times> state \<times> string list" where
  "seen = (\<lambda>(plan, jc, s, ds). (plan, jc_output jc, jc_stop jc, jc_used jc, s, ds))"

lemma whole_text:
  assumes "one_container t n" "take (length t) js = t"
  shows "json_parse_input js (length t) = Some (True, Some (flat n @ [end_token]))"
proof -
  have len: "length t \<le> length js" using assms(2) by (metis length_take min.cobounded1)
  have "renders t (length t) 0 (length t) [n]" using assms(1) by (auto simp: one_container_def)
  then have "renders js (length t) 0 (length t) [n]" by (rule renders_cong[rotated 2]) (use assms(2) in simp_all)
  then have "text_renders js (length t) [n]" by (auto simp: text_renders_def)
  then show ?thesis by (subst json_parse_input_eq[OF len]) (auto intro: exI[of _ "[n]"])
qed

lemma read_whole:
  assumes "one_container t n" "jc_num_conns jc = 2" "jc_used (make_room env jc) = length t" "take (length t) (jc_buffer (make_room env jc)) = t"
  shows "map_option (\<lambda>(plan, jc, s). seen (plan, jc, s, [])) (read_json env rt jc s)
       = map_option (answered (length t) jc) (parse_request env rt (jc_buffer (make_room env jc)) (flat n @ [end_token]) s)"
proof -
  obtain ty kids where n: "n = Node ty 0 (length t) kids" using assms(1) by (auto simp: one_container_def)
  have keep: "jc_output (make_room env jc) = jc_output jc" "jc_stop (make_room env jc) = jc_stop jc" by (simp_all add: make_room_def Let_def)
  show ?thesis using assms(2,3) whole_text[OF assms(1,4)] n
    by (cases "parse_request env rt (jc_buffer (make_room env jc)) (flat n @ [end_token]) s")
      (auto simp: read_json_def Let_def seen_def answered_def remove_front_def keep split: option.splits)
qed

lemma room_for:
  assumes "length d \<le> length (jc_buffer jc) - off" "off \<le> length (jc_buffer jc)" "jc_used jc = off" "\<forall>k. length (re_fresh env k) = k"
    "take off (jc_buffer jc) = take off t" "drop off t = d @ rest"
  defines "jc1 \<equiv> make_room env (arrives off d jc)"
  shows "jc_used jc1 = off + length d" "take (off + length d) (jc_buffer jc1) = take (off + length d) t"
    "length (jc_buffer jc1) = (if off + length d = length (jc_buffer jc) then 2 * length (jc_buffer jc) else length (jc_buffer jc))"
    "off + length d \<le> length (jc_buffer jc1)"
proof -
  show "jc_used jc1 = off + length d" using assms(3) by (simp add: jc1_def make_room_def arrives_def Let_def)
  show len: "length (jc_buffer jc1) = (if off + length d = length (jc_buffer jc) then 2 * length (jc_buffer jc) else length (jc_buffer jc))"
    using assms(1-4) by (simp add: jc1_def make_room_def arrives_def Let_def)
  show "off + length d \<le> length (jc_buffer jc1)" unfolding len using assms(1,2) by arith
  have "take (off + length d) t = take off t @ d" using assms(6) by (simp add: take_add)
  moreover have "take (off + length d) (jc_buffer jc1) = take off (jc_buffer jc) @ d"
    using assms(1,2) by (simp add: jc1_def make_room_def arrives_def Let_def)
  ultimately show "take (off + length d) (jc_buffer jc1) = take (off + length d) t" using assms(5) by simp
qed

lemma reads_pieces:
  assumes "one_container t n" "CHR 0x5C \<notin> set t" "\<forall>k. length (re_fresh env k) = k"
  shows "fits (length (jc_buffer jc)) off ds \<Longrightarrow> drop off t = concat ds \<Longrightarrow> off < length t \<Longrightarrow> jc_num_conns jc = 2 \<Longrightarrow>
    take off (jc_buffer jc) = take off t \<Longrightarrow> jc_used jc = off \<Longrightarrow>
    \<exists>buffer. length t \<le> length buffer \<and> take (length t) buffer = t \<and>
      map_option seen (rpc_reads env rt ds (Rpc_read off len, jc, s))
      = map_option (answered (length t) jc) (parse_request env rt buffer (flat n @ [end_token]) s)"
proof (induction ds arbitrary: off jc len)
  case Nil
  then show ?case by simp
next
  case (Cons d ds)
  let ?jc = "arrives off d jc" let ?jc1 = "make_room env ?jc" let ?u = "off + length d"
  let ?jc2 = "?jc1\<lparr>jc_len_read := length (jc_buffer ?jc1) - ?u\<rparr>"
  have d: "d \<noteq> []" "length d \<le> length (jc_buffer jc) - off" using Cons.prems(1) by simp_all
  then have le: "off \<le> length (jc_buffer jc)" by (cases d) simp_all
  note room = room_for[OF d(2) le Cons.prems(6) assms(3) Cons.prems(5), of "concat ds"]
  have dr: "drop off t = d @ concat ds" using Cons.prems(2) by simp
  have keep: "jc_num_conns ?jc = 2" "jc_output ?jc1 = jc_output jc" "jc_stop ?jc1 = jc_stop jc" "jc_num_conns ?jc1 = 2"
      "jc_output ?jc = jc_output jc" "jc_stop ?jc = jc_stop jc"
    using Cons.prems(4) by (simp_all add: arrives_def make_room_def Let_def)
  have ans: "answered (length t) ?jc = answered (length t) jc" "answered (length t) ?jc2 = answered (length t) jc"
    by (simp_all add: answered_def keep fun_eq_iff split: option.split)
  have total: "length t = ?u + length (concat ds)" using dr Cons.prems(3) by (metis add.assoc le_add_diff_inverse length_append length_drop less_imp_le)
  show ?case
  proof (cases ds)
    case Nil
    then have u: "?u = length t" using total by simp
    have "map_option seen (rpc_reads env rt (d # ds) (Rpc_read off len, jc, s)) = map_option (\<lambda>(plan, jc, s). seen (plan, jc, s, [])) (read_json env rt ?jc s)"
      using Nil by (cases "read_json env rt ?jc s") auto
    also have "\<dots> = map_option (answered (length t) ?jc) (parse_request env rt (jc_buffer ?jc1) (flat n @ [end_token]) s)"
      by (rule read_whole[OF assms(1) keep(1)]) (use room[OF dr] u in simp_all)
    finally show ?thesis using room[OF dr] u unfolding ans by (intro exI[of _ "jc_buffer ?jc1"]) simp
  next
    case (Cons d' ds')
    then have less: "?u < length t" using total Cons.prems(1) by (cases d') auto
    have st: "starts (jc_buffer ?jc1) ?u t"
      using room[OF dr] less assms(2) in_set_takeD by (fastforce simp: starts_def)
    have "json_parse_input (jc_buffer ?jc1) ?u = Some (True, None)"
      by (rule incomplete_waits[OF st _ less assms(1)]) (use d(1) in simp)
    then have "read_json env rt ?jc s = Some (Rpc_read ?u (length (jc_buffer ?jc1) - ?u), ?jc2, s)"
      using keep room(1)[OF dr] by (simp add: read_json_def read_more_rpc_def Let_def)
    then have go: "rpc_reads env rt (d # ds) (Rpc_read off len, jc, s) = rpc_reads env rt ds (Rpc_read ?u (length (jc_buffer ?jc1) - ?u), ?jc2, s)"
      by simp
    have "fits (length (jc_buffer ?jc2)) ?u ds" using Cons.prems(1) room(3)[OF dr] by simp
    moreover have "drop ?u t = concat ds" using dr by (metis add.commute append_eq_conv_conj drop_drop)
    moreover have "take ?u (jc_buffer ?jc2) = take ?u t" "jc_used ?jc2 = ?u" "jc_num_conns ?jc2 = 2" using room[OF dr] keep by simp_all
    ultimately show ?thesis using Cons.IH[of ?jc2 ?u "length (jc_buffer ?jc1) - ?u"] less unfolding go ans(2) by blast
  qed
qed

text \<open>
  C35. A request without a backslash that arrives on an idle connection, cut into any pieces that fit into the
  buffer, is waited for until its last piece is there, and then answered exactly once, as
  \<open>parse_request\<close> answers it; nothing of it is left in the buffer after the reply.
\<close>

theorem request_in_pieces:
  assumes "\<forall>k. length (re_fresh env k) = k" "one_container t n" "CHR 0x5C \<notin> set t" "concat ds = t"
    "jc_num_conns jc = 2" "jc_used jc = 0" "fits (length (jc_buffer jc)) 0 ds"
  shows "\<exists>buffer. take (length t) buffer = t \<and>
    map_option seen (rpc_reads env rt ds (let (jc1, plan) = read_more_rpc jc in (plan, jc1, s)))
    = map_option (answered (length t) jc) (parse_request env rt buffer (flat n @ [end_token]) s)"
proof -
  let ?jc = "jc\<lparr>jc_len_read := length (jc_buffer jc)\<rparr>"
  have "0 < length t" using assms(2) by (elim container_ends) simp
  then have "\<exists>buffer. length t \<le> length buffer \<and> take (length t) buffer = t \<and>
      map_option seen (rpc_reads env rt ds (Rpc_read 0 (length (jc_buffer jc)), ?jc, s))
      = map_option (answered (length t) ?jc) (parse_request env rt buffer (flat n @ [end_token]) s)"
    using assms by (intro reads_pieces) simp_all
  moreover have "answered (length t) ?jc = answered (length t) jc" by (simp add: answered_def fun_eq_iff split: option.split)
  moreover have "(let (jc1, plan) = read_more_rpc jc in (plan, jc1, s)) = (Rpc_read 0 (length (jc_buffer jc)), ?jc, s)"
    using assms(6) by (simp add: read_more_rpc_def Let_def)
  ultimately show ?thesis by auto
qed

lemma request_in_pieces_witness:
  "\<exists>buffer. take 36 buffer = ex_request \<and>
    map_option seen (rpc_reads ex_env ex_runtime [take 15 ex_request, drop 15 (take 20 ex_request), drop 20 ex_request]
      (Rpc_read 0 20, \<lparr>jc_buffer = replicate 20 (CHR ''x''), jc_used = 0, jc_len_read = 20, jc_num_conns = 2, jc_stop = False, jc_output = []\<rparr>, ex_tx_state))
    = map_option (answered 36 \<lparr>jc_buffer = replicate 20 (CHR ''x''), jc_used = 0, jc_len_read = 20, jc_num_conns = 2, jc_stop = False, jc_output = []\<rparr>)
        (parse_request ex_env ex_runtime buffer (flat ex_request_node @ [end_token]) ex_tx_state)"
proof -
  let ?jc = "\<lparr>jc_buffer = replicate 20 (CHR ''x''), jc_used = 0, jc_len_read = 20, jc_num_conns = 2, jc_stop = False, jc_output = []\<rparr>"
  let ?ds = "[take 15 ex_request, drop 15 (take 20 ex_request), drop 20 ex_request]"
  have len: "length ex_request = 36" "CHR 0x5C \<notin> set ex_request" by (simp_all add: ex_request_def)
  moreover have "one_container ex_request ex_request_node"
    using ex_request_rendered unfolding one_container_def len(1) by (simp add: ex_request_node_def)
  moreover have "concat ?ds = ex_request" by (simp add: ex_request_def)
  moreover have "fits 20 0 ?ds" by (simp add: ex_request_def)
  ultimately show ?thesis
    using request_in_pieces[of ex_env ex_request ex_request_node ?ds ?jc ex_runtime ex_tx_state]
    by (simp add: ex_env_def read_more_rpc_def)
qed

subsection \<open>What follows a backslash\<close>

lemma str_scan_skips:
  "drop pos js = body @ s \<Longrightarrow> list_all plain body \<Longrightarrow> pos + length body \<le> len \<Longrightarrow>
   str_scan js len pos = str_scan js len (pos + length body)"
proof (induction body arbitrary: pos)
  case (Cons c body)
  then have "js ! pos = c" "pos < length js" "drop (Suc pos) js = body @ s"
    by (metis append_Cons nth_via_drop, metis append_Cons drop_all linorder_not_less list.distinct(1), metis append_Cons drop_Suc list.sel(3) tl_drop)
  moreover then have "str_scan js len pos = str_scan js len (Suc pos)"
    using Cons.prems by (subst str_scan.simps) (simp add: plain_def)
  ultimately show ?case using Cons.IH[of "Suc pos"] Cons.prems by simp
qed simp

lemma str_scan_past_end:
  assumes "js ! pos = CHR 0x5C" "Suc pos < length js" "js ! Suc pos \<noteq> CHR ''u''"
  shows "str_scan js (Suc pos) pos = Some (Inl (if escape_char (js ! Suc pos) then JSMN_ERROR_PART else JSMN_ERROR_INVAL))"
proof -
  have "str_scan js (Suc pos) (Suc (Suc pos)) = Some (Inl JSMN_ERROR_PART)" by (subst str_scan.simps) simp
  then show ?thesis using assms by (subst str_scan.simps) simp
qed

text \<open>
  When a request was cut behind a backslash, the connection is kept or closed by what the memory behind
  the text holds.
\<close>

lemma backslash_reads_on:
  assumes "list_all plain body" "x \<noteq> CHR ''u''"
  shows "json_parse_input ([CHR ''{'', CHR 0x22] @ body @ [CHR 0x5C, x] @ rest) (length body + 3) = Some (escape_char x, None)"
proof -
  let ?js = "[CHR ''{'', CHR 0x22] @ body @ [CHR 0x5C, x] @ rest" and ?len = "length body + 3"
  have "?js ! (length body + 2) = CHR 0x5C" "?js ! Suc (length body + 2) = x" by (simp_all add: nth_append)
  from str_scan_past_end[of ?js "length body + 2", unfolded this] assms(2)
  have "str_scan ?js ?len (length body + 2) = Some (Inl (if escape_char x then JSMN_ERROR_PART else JSMN_ERROR_INVAL))"
    by (simp add: numeral_eq_Suc)
  then have scan: "str_scan ?js ?len 2 = Some (Inl (if escape_char x then JSMN_ERROR_PART else JSMN_ERROR_INVAL))"
    using str_scan_skips[of 2 ?js body "[CHR 0x5C, x] @ rest" ?len] assms(1) by (simp add: add.commute)
  have "jsmn_loop ?js ?len 9 0 (mk 0 ([], [])) = jsmn_loop ?js ?len 9 1 (mk 1 ([], [(JSMN_OBJECT, 0, [])]))"
    by (subst loop_step) (simp_all add: jsmn_char_def then_go_def open_mk)
  also have "\<dots> = Some (Inl (if escape_char x then JSMN_ERROR_PART else JSMN_ERROR_INVAL))"
    using scan by (subst loop_step) (simp_all add: jsmn_char_def string_mk numeral_eq_Suc)
  finally show ?thesis
    unfolding json_parse_input_def by (subst parse_again.simps) (simp add: jsmn_parse_def jsmn_init_mk)
qed

end
