(* ===== verification/Spec2Isabelle.thy ===== *)
theory Spec2Isabelle
  imports Daemon Rpc_stream
begin

text \<open>
  A verification development for pettycoin, a crypto-currency daemon written in C whose blocks are
  split into shards. The daemon keeps a tree of blocks, learns transactions and blocks from its
  peers, checks them, follows the chain of greatest work, keeps the transactions that are not in a
  block yet, and complains to its peers about blocks that break the rules.

  \<^bold>\<open>How the code is modelled.\<close> Every C function is a HOL function over the same data. A machine
  integer is a word of its width; a buffer is a list of bytes; a structure is a \<open>record\<close>, a union or
  an enumeration a \<open>datatype\<close>. A function that can fail an assertion, call \<open>abort\<close>, read outside of
  an array or through a null pointer returns an \<open>option\<close>, and \<open>None\<close> is that failure; a theorem that
  says a function returns \<open>Some\<close> rules these out. \<open>struct block\<close> lives in a store (\<open>heap\<close>) from
  addresses to blocks because blocks refer to each other; \<open>struct state\<close> is the record \<open>state\<close>, and
  functions that change it return the new one. Effects outside of the state (writing a block to
  disk, waking a peer) are entries of the list \<open>st_out\<close>. Recursions over the block tree whose
  termination depends on the tree being well formed are \<open>partial_function (option)\<close>, with theorems
  that they return on well-formed trees; no model uses fuel. OpenSSL is the record \<open>openssl\<close> and the
  operating system (clock, iteration order of hash tables, sorting) the record \<open>runtime\<close>; what is
  assumed of them is \<open>digest_ok\<close>, \<open>bn_ok\<close>, \<open>ecdsa_ok\<close>, \<open>tables_ok\<close> and \<open>asort_ok\<close>, each with a model.

  \<^bold>\<open>The theories\<close>, in the order they build on each other:
  \<^item> \<open>Prelude\<close>: C-like primitives, byte strings, option folds, the locale of simulations.
  \<^item> \<open>Openssl\<close>: the interface of OpenSSL.
  \<^item> \<open>Protocol\<close>: the structures of \<open>protocol.h\<close>, the error codes, accessors of \<open>tx.c\<close>, \<open>tx.h\<close>.
  \<^item> \<open>Marshal\<close>: \<open>marshal.c\<close>. Reading never leaves the buffer, accepts exactly complete objects, and
    writing and reading are inverse.
  \<^item> \<open>Hashing\<close>: \<open>shadouble.c\<close>, the merkle code, \<open>hash_tx.c\<close>, \<open>hash_block.c\<close>, \<open>signature.c\<close>.
  \<^item> \<open>Ordering\<close>: \<open>tx_cmp.c\<close>, \<open>shard.c\<close>: the total order on transactions and shard numbers.
  \<^item> \<open>Difficulty\<close>: the first half of \<open>difficulty.c\<close>: the target test, encoding, total work.
  \<^item> \<open>Blocks\<close>: \<open>block.h\<close>, \<open>block_shard.c\<close>, \<open>merkle_txs.c\<close>, \<open>proof.c\<close>: what a proof binds.
  \<^item> \<open>State\<close>: \<open>struct state\<close> and the functions that walk the tree: \<open>block_preceeds\<close>, \<open>step_towards\<close>,
    \<open>block_find_any\<close>, \<open>prev_txhashes.c\<close>, \<open>features.c\<close>, \<open>timestamp.c\<close>, \<open>get_difficulty\<close>.
  \<^item> \<open>Walks\<close>: the well-formed block store, and what the walks compute. \<open>Retarget\<close>: retargeting, the
    median rule for timestamps, feature votes.
  \<^item> \<open>Hashes\<close>: \<open>txhash.c\<close>, \<open>inputhash.c\<close>, \<open>tx_in_hashes.c\<close> and the invariant that ties both tables
    to the blocks and the pending transactions.
  \<^item> \<open>Check_tx\<close>: \<open>check_tx.c\<close>, \<open>gateways.c\<close>, \<open>reward.c\<close>: acceptance is equivalent to a specification,
    double spends are found, value is conserved.
  \<^item> \<open>Create_tx\<close>: \<open>create_tx.c\<close>, \<open>create_refs.c\<close>, \<open>input_refs.c\<close>: what is created is accepted.
  \<^item> \<open>Pending\<close>: \<open>pending.c\<close> as a transition system with an invariant on the pending arrays.
  \<^item> \<open>Todo\<close>: \<open>todo.c\<close> and the peer numbers of \<open>peer.c\<close>; a simulation onto a queue of questions,
    absence of failures, and that every question is asked in the end.
  \<^item> \<open>Chain\<close>: \<open>chain.c\<close>; the arrays of longest and longest known chains and the preferred chain are
    exactly the tips of greatest work.
  \<^item> \<open>Packets\<close>: \<open>tal_packet.c\<close>, \<open>peer_wants.c\<close> and the senders of \<open>peer.c\<close>.
  \<^item> \<open>Complain\<close>: \<open>complain.c\<close>.
  \<^item> \<open>Check_block\<close>: \<open>check_block.c\<close> and \<open>block_add\<close>: the header check, the order within a shard, and
    that an accepted block is linked into the tree with all invariants kept.

  \<^item> \<open>Receive\<close>: \<open>recv_block.c\<close>, \<open>recv_tx.c\<close>: what a received packet does to the state; a transaction
    from a peer enters the block store only if the merkle root commits to it.
  \<^item> \<open>Recv_complain\<close>: \<open>recv_complain.c\<close>: which evidence condemns a block, and why honest complaints fail.
  \<^item> \<open>Peer_cache\<close>: \<open>peer_cache.c\<close> and the handlers of \<open>peer.c\<close> for addresses; the table stays valid.
  \<^item> \<open>Sync\<close>: \<open>sync.c\<close>, \<open>welcome.c\<close>: counting descendents, greeting packets, what is asked for next.
  \<^item> \<open>Peers\<close>: the rest of \<open>peer.c\<close>: the handlers of all packets, the switch \<open>pkt_in\<close> and the greeting.
  \<^item> \<open>Shard_exchange\<close>: what one daemon answers to a request for a shard, and what another makes of it.
  \<^item> \<open>Hex\<close>, \<open>Base58\<close>: \<open>hex.c\<close>, \<open>base58.c\<close>: text forms of hashes, addresses and keys, with round trips.
  \<^item> \<open>Packet_io\<close>: \<open>packet_io.c\<close>: reading packets from a stream that arrives in pieces.
  \<^item> \<open>Blockfile\<close>: \<open>blockfile.c\<close>: saving blocks and transactions, loading them at the start, and what
    is lost when the file is cut off.
  \<^item> \<open>Generate\<close>: \<open>pettycoin-generate.c\<close>: the program that searches for a block; the partial hashes it
    keeps are right, and what it writes is accepted.
  \<^item> \<open>Generating\<close>: \<open>generating.c\<close>: the daemon's side of the program; both agree on the pending
    transactions.
  \<^item> \<open>Jsmn\<close>: \<open>jsmn/jsmn.c\<close>, the parser of JSON texts, proved equivalent to a grammar. \<open>Json\<close>, \<open>Json_build\<close>:
    \<open>json.c\<close>: looking up values in a parsed text, and writing texts; what is written is parsed back.
  \<^item> \<open>Rpc_commands\<close>: \<open>getinfo.c\<close>, \<open>sendrawtransaction.c\<close>, \<open>listtransactions.c\<close> and the listing of \<open>todo.c\<close>.
    \<open>Rpc_texts\<close>: what they write. \<open>Jsonrpc\<close>: \<open>jsonrpc.c\<close>: every reply is an object that carries the
    identifier of its request. What the code reads before it wrote it is the record \<open>rpc_env\<close>.
  \<^item> \<open>Rpc_stream\<close>: a request that arrives at a connection in pieces is answered when it is complete, and once.
    A beginning of a request is told apart from an error, by a comparison of the parser's runs on both.
  \<^item> \<open>History\<close>: the kinds of change the daemon makes to a block, as a locale; what each kind keeps, every
    packet, generated block and saved block keeps. No block is ever forgotten.
  \<^item> \<open>Daemon\<close>: the first state (\<open>state.c\<close>, \<open>mkgenesis.c\<close>), the events, the reachable states, and the shape
    of the block store in all of them.

  \<^bold>\<open>Not modelled\<close>: sockets and name lookup (\<open>netaddr.c\<close>, \<open>dns.c\<close>, \<open>ccan/io\<close>), logging, the other
  programs (\<open>pettycoin-tx.c\<close>, \<open>pettycoin-gateway.c\<close>, ...), pipes,
  processes and signals, and memory ownership (\<open>tal\<close>). The vendored libraries under \<open>ccan\<close>
  are used through their interfaces.
\<close>

end
